(* ===== verification/Volta_Prelude.thy ===== *)
theory Volta_Prelude
  imports Main "HOL-Library.Word" "HOL-Library.Monad_Syntax"
begin

text \<open>
  Shared vocabulary of the development: the machine integer types of the Rust sources, the
  overflowing primitives of \<^verbatim>\<open>u64\<close>, little-endian byte encodings, modular powers for kernel
  evaluation, and generic facts on lists, finite fields and primes that several components use.

  Conventions of the whole development:
  \<^item> an unsigned Rust integer is a word of its width (\<open>u8\<close>, \<open>u16\<close>, \<open>u32\<close>, \<open>u64\<close>, \<open>u128\<close>);
    \<open>usize\<close> values that index vectors are \<open>nat\<close>, with the wrap-around written out where sizes are computed from
    a caller's numbers;
  \<^item> a signed Rust integer (\<^verbatim>\<open>i16\<close>, \<^verbatim>\<open>i32\<close>, \<^verbatim>\<open>i64\<close>) is an \<open>int\<close>; where the source could leave the
    range of the type, the model checks it and a lemma shows that it does not;
  \<^item> a Rust function that can panic (an \<^verbatim>\<open>assert!\<close>, an index out of range, an \<^verbatim>\<open>expect\<close>)
    returns an \<open>option\<close>, with \<open>None\<close> for the panic; a \<^verbatim>\<open>Result\<close> is a sum.
\<close>

unbundle bit_operations_syntax

type_synonym u8 = "8 word"
type_synonym u16 = "16 word"
type_synonym u32 = "32 word"
type_synonym u64 = "64 word"
type_synonym u128 = "128 word"
type_synonym bytes = "8 word list"

named_theorems fp_refine \<open>the value of each field operation, as an integer modulo the prime\<close>
named_theorems mac_simps \<open>projections of the linear operations on authenticated values\<close>

section \<open>Overflowing primitives\<close>

definition overflowing_add :: "u64 \<Rightarrow> u64 \<Rightarrow> u64 \<times> bool" where
  "overflowing_add a b = (a + b, 2 ^ 64 \<le> uint a + uint b)"

definition overflowing_sub :: "u64 \<Rightarrow> u64 \<Rightarrow> u64 \<times> bool" where
  "overflowing_sub a b = (a - b, a < b)"

definition checked_add :: "u64 \<Rightarrow> u64 \<Rightarrow> u64 option" where
  "checked_add a b = (if 2 ^ 64 \<le> uint a + uint b then None else Some (a + b))"

definition saturating_add :: "u64 \<Rightarrow> u64 \<Rightarrow> u64" where
  "saturating_add a b = (if 2 ^ 64 \<le> uint a + uint b then - 1 else a + b)"

lemma uint_drop_bit: "uint (drop_bit n w) = uint (w :: 'a :: len word) div 2 ^ n"
proof -
  have "take_bit LENGTH('a) (uint w) = uint w" by (simp add: take_bit_int_eq_self)
  then show ?thesis by (simp only: unsigned_drop_bit_eq) (simp only: drop_bit_eq_div)
qed

lemma unat_drop_bit: "unat (drop_bit n w) = unat (w :: 'a :: len word) div 2 ^ n"
proof -
  have "take_bit LENGTH('a) (unat w) = unat w" by (simp add: take_bit_nat_eq_self)
  then show ?thesis by (simp only: unsigned_drop_bit_eq) (simp only: drop_bit_eq_div)
qed

lemma word_and_one_odd: "(w :: 'a :: len word) AND 1 = 1 \<longleftrightarrow> odd (unat w)"
proof -
  have "w AND 1 = (if odd w then 1 else 0)" by (simp add: and_one_eq odd_iff_mod_2_eq_one)
  moreover have "odd w \<longleftrightarrow> odd (unat w)" by (simp add: bit_unsigned_iff flip: bit_0)
  ultimately show ?thesis by simp
qed

lemma checked_add_Some: "checked_add a b = Some c \<Longrightarrow> uint c = uint a + uint b"
  by (auto simp: checked_add_def uint_plus_if' split: if_splits)

section \<open>Little-endian byte encodings\<close>

definition le_bytes :: "nat \<Rightarrow> nat \<Rightarrow> bytes" where
  "le_bytes n x = map (\<lambda>i. word_of_nat (x div 256 ^ i)) [0..<n]"

fun le_value :: "bytes \<Rightarrow> nat" where
  "le_value [] = 0"
| "le_value (b # bs) = unat b + 256 * le_value bs"

abbreviation u16_le :: "u16 \<Rightarrow> bytes" where "u16_le x \<equiv> le_bytes 2 (unat x)"
abbreviation u32_le :: "u32 \<Rightarrow> bytes" where "u32_le x \<equiv> le_bytes 4 (unat x)"
abbreviation u64_le :: "u64 \<Rightarrow> bytes" where "u64_le x \<equiv> le_bytes 8 (unat x)"

lemma length_le_bytes [simp]: "length (le_bytes n x) = n"
  by (simp add: le_bytes_def)

lemma le_bytes_Suc: "le_bytes (Suc n) x = word_of_nat x # le_bytes n (x div 256)"
proof -
  have "map (\<lambda>i. word_of_nat (x div 256 ^ i) :: u8) [0..<Suc n]
      = word_of_nat x # map (\<lambda>i. word_of_nat (x div 256 ^ Suc i)) [0..<n]"
    by (simp add: upt_conv_Cons map_Suc_upt [symmetric] comp_def del: upt_Suc)
  then show ?thesis by (simp add: le_bytes_def div_mult2_eq)
qed

lemma le_value_le_bytes: "le_value (le_bytes n x) = x mod 256 ^ n"
proof (induction n arbitrary: x)
  case 0
  show ?case by (simp add: le_bytes_def)
next
  case (Suc n)
  have "le_value (le_bytes (Suc n) x) = x mod 256 + 256 * ((x div 256) mod 256 ^ n)"
    by (simp add: le_bytes_Suc Suc.IH unat_of_nat take_bit_eq_mod)
  also have "\<dots> = x mod 256 ^ Suc n"
    by (simp add: mod_mult2_eq)
  finally show ?case .
qed

lemma unat_word_less: "unat (w :: 'a :: len word) < 2 ^ LENGTH('a)"
  by (rule unsigned_less)

lemma le_value_less: "le_value bs < 256 ^ length bs"
proof (induction bs)
  case (Cons b bs)
  have "unat b < 256" using unat_word_less [of b] by simp
  with Cons.IH show ?case by simp
qed simp

lemma le_bytes_le_value: "le_bytes (length bs) (le_value bs) = bs"
proof (induction bs)
  case (Cons b bs)
  have b: "unat b < 256" using unat_word_less [of b] by simp
  have z: "(256 :: u8) = 0" by simp
  have "word_of_nat (unat b + 256 * le_value bs) = b" by (simp add: z)
  moreover have "(unat b + 256 * le_value bs) div 256 = le_value bs"
    using b by simp
  ultimately show ?case using Cons.IH by (simp add: le_bytes_Suc)
qed (simp add: le_bytes_def)

lemma le_value_u64 [simp]: "le_value (u64_le x) = unat x"
  using unat_word_less [of x] by (simp add: le_value_le_bytes)

lemma le_value_u16 [simp]: "le_value (u16_le x) = unat x"
  using unat_word_less [of x] by (simp add: le_value_le_bytes)

lemma u64_le_inject [simp]: "u64_le x = u64_le y \<longleftrightarrow> x = y"
  by (metis le_value_u64 word_unat_eq_iff)

section \<open>Modular powers\<close>

text \<open>Square-and-multiply on binary numerals, for evaluating powers in the kernel.\<close>

definition sq_mod :: "int \<Rightarrow> int \<Rightarrow> int" where
  "sq_mod m x = x * x mod m"

definition sqm_mod :: "int \<Rightarrow> int \<Rightarrow> int \<Rightarrow> int" where
  "sqm_mod m a x = x * x * a mod m"

primrec powmod :: "int \<Rightarrow> int \<Rightarrow> num \<Rightarrow> int" where
  "powmod m a num.One = a mod m"
| "powmod m a (num.Bit0 n) = sq_mod m (powmod m a n)"
| "powmod m a (num.Bit1 n) = sqm_mod m a (powmod m a n)"

lemma powmod_correct: "a ^ numeral n mod m = powmod m a n"
proof (induction n)
  case One
  show ?case by simp
next
  case (Bit0 n)
  have "a ^ numeral (num.Bit0 n) mod m = (a ^ numeral n mod m) * (a ^ numeral n mod m) mod m"
    by (simp add: mod_mult_eq power_numeral_even)
  then show ?case by (simp add: Bit0.IH sq_mod_def)
next
  case (Bit1 n)
  have "a ^ numeral (num.Bit1 n) mod m = (a ^ numeral n * a ^ numeral n * a) mod m"
    by (simp add: power_numeral_odd mult.commute mult.left_commute)
  also have "\<dots> = ((a ^ numeral n mod m) * (a ^ numeral n mod m) * a) mod m"
    by (intro mod_mult_cong mod_mod_trivial [symmetric] refl)
  finally show ?case by (simp add: Bit1.IH sqm_mod_def)
qed

section \<open>Finite fields\<close>

text \<open>
  Fermat's little theorem in any finite integral domain: multiplication by a nonzero element
  permutes the nonzero elements.
\<close>

lemma finite_idom_fermat:
  fixes a :: "'a :: {idom, finite}"
  assumes a: "a \<noteq> 0"
  shows "a ^ (card (UNIV :: 'a set) - 1) = 1"
proof -
  let ?U = "UNIV - {0 :: 'a}"
  have inj: "inj_on ((*) a) ?U" using a by (auto intro!: inj_onI)
  have "(*) a ` ?U = ?U"
    using a inj by (intro endo_inj_surj) auto
  then have "prod id ?U = prod id ((*) a ` ?U)" by simp
  also have "\<dots> = prod ((*) a) ?U"
    by (subst prod.reindex [OF inj]) simp
  also have "\<dots> = a ^ card ?U * prod id ?U"
    by (simp add: prod.distrib)
  finally have "a ^ card ?U * prod id ?U = prod id ?U" by simp
  moreover have "prod id ?U \<noteq> (0 :: 'a)" by simp
  moreover have "card ?U = card (UNIV :: 'a set) - 1" by (simp add: card_Diff_singleton)
  ultimately show ?thesis by simp
qed

section \<open>Proth's criterion\<close>

lemma odd_part: "0 < n \<Longrightarrow> \<exists>k m. n = 2 ^ k * m \<and> odd (m :: nat)"
proof (induction n rule: less_induct)
  case (less n)
  show ?case
  proof (cases "odd n")
    case True
    then show ?thesis by (intro exI [of _ 0] exI [of _ n]) simp
  next
    case False
    then have "n div 2 < n" "0 < n div 2" using less.prems by auto
    then obtain k m where km: "n div 2 = 2 ^ k * m" "odd m" using less.IH by blast
    then have "n = 2 ^ Suc k * m" using False by auto
    with km(2) show ?thesis by blast
  qed
qed

lemma power_one_mod_gt_two_power:
  fixes b d :: int
  assumes d: "2 < d" and b: "b ^ (2 ^ k) mod d = (d - 1) mod d"
  shows "2 ^ Suc k < d"
proof -
  let ?N = "2 ^ Suc k :: nat"
  have half: "b ^ (2 ^ k * m) mod d = (- 1) mod d" if "odd m" for m
  proof -
    have "b ^ (2 ^ k * m) mod d = (b ^ (2 ^ k) mod d) ^ m mod d"
      by (simp add: power_mult power_mod)
    also have "b ^ (2 ^ k) mod d = (- 1) mod d" using b by (metis add_uminus_conv_diff mod_add_self1 diff_conv_add_uminus)
    also have "((- 1) mod d) ^ m mod d = (- 1) ^ m mod d" by (simp add: power_mod)
    finally show ?thesis using that by simp
  qed
  have one: "b ^ ?N mod d = 1"
  proof -
    have "b ^ ?N mod d = (b ^ (2 ^ k) mod d) ^ 2 mod d"
      by (simp add: power_mult power_mod mult.commute [of 2])
    also have "b ^ (2 ^ k) mod d = (- 1) mod d" using half [of 1] by simp
    also have "((- 1) mod d) ^ 2 mod d = 1" using d by (simp add: power_mod)
    finally show ?thesis .
  qed
  have step: "\<not> b ^ n mod d = 1" if n: "0 < n" "n < ?N" for n
  proof
    assume h: "b ^ n mod d = 1"
    obtain j m where jm: "n = 2 ^ j * m" "odd m" using odd_part [OF n(1)] by blast
    have "2 ^ j \<le> n" using jm n by (cases m) auto
    then have "(2::nat) ^ j < 2 ^ Suc k" using n(2) by (rule le_less_trans)
    then have "j < Suc k" by (simp only: power_strict_increasing_iff)
    then have e: "2 ^ (k - j) * n = 2 ^ k * m" using jm by (simp add: power_add [symmetric])
    have "(- 1) mod d = b ^ (2 ^ (k - j) * n) mod d" using e half [OF jm(2)] by simp
    also have "\<dots> = (b ^ n mod d) ^ (2 ^ (k - j)) mod d" by (simp add: power_mult power_mod mult.commute)
    also have "\<dots> = 1" using h d by simp
    finally have "(- 1) mod d = 1" .
    then show False using d by (simp add: zmod_minus1)
  qed
  have "inj_on (\<lambda>i. b ^ i mod d) {..<?N}"
  proof (rule linorder_inj_onI)
    fix i j assume ij: "i < j" "i \<in> {..<?N}" "j \<in> {..<?N}"
    show "b ^ i mod d \<noteq> b ^ j mod d"
    proof
      assume eq: "b ^ i mod d = b ^ j mod d"
      have "b ^ (j - i) mod d = (b ^ j * b ^ (?N - i)) mod d"
      proof -
        have "b ^ j * b ^ (?N - i) = b ^ (j - i) * b ^ ?N"
          using ij by (simp add: power_add [symmetric])
        then show ?thesis using one by (metis mod_mult_right_eq mult.right_neutral)
      qed
      also have "\<dots> = (b ^ i * b ^ (?N - i)) mod d"
        using eq by (metis mod_mult_left_eq)
      also have "\<dots> = 1" using ij one by (simp add: power_add [symmetric])
      finally have "b ^ (j - i) mod d = 1" .
      moreover have "0 < j - i" "j - i < ?N" using ij by (auto simp del: power_Suc)
      ultimately show False using step by blast
    qed
  qed auto
  moreover have "(\<lambda>i. b ^ i mod d) ` {..<?N} \<subseteq> {1..<d}"
  proof (rule image_subsetI)
    fix i assume i: "i \<in> {..<?N}"
    have "b ^ i mod d \<noteq> 0"
    proof
      assume z: "b ^ i mod d = 0"
      have "1 = (b ^ i * b ^ (?N - i)) mod d" using i one by (simp add: power_add [symmetric])
      also have "\<dots> = (b ^ i mod d) * b ^ (?N - i) mod d" by (simp add: mod_mult_left_eq)
      finally show False using z by simp
    qed
    moreover have "0 \<le> b ^ i mod d" "b ^ i mod d < d" using d by simp_all
    ultimately show "b ^ i mod d \<in> {1..<d}" by simp
  qed
  ultimately have "card {..<?N} \<le> card {1..<d}"
    by (metis card_inj_on_le finite_atLeastLessThan_int)
  then have "?N \<le> nat (d - 1)" by simp
  then have "int ?N \<le> d - 1" using d by (metis int_nat_eq le_nat_iff diff_gt_0_iff_gt less_imp_le one_less_numeral_iff order.strict_trans semiring_norm(76))
  then show ?thesis by simp
qed

lemma proth_no_divisor:
  fixes p b d :: int
  assumes p: "odd p" "0 < p" "p < 2 ^ Suc k * 2 ^ Suc k"
    and b: "b ^ (2 ^ k) mod p = p - 1" and d: "d dvd p" "0 < d"
  shows "d = 1 \<or> d = p"
proof (rule ccontr)
  assume n: "\<not> (d = 1 \<or> d = p)"
  obtain e where e: "p = d * e" using d(1) by (rule dvdE)
  have big: "2 ^ Suc k < x" if x: "x dvd p" "1 < x" for x
  proof (rule power_one_mod_gt_two_power)
    have "x \<noteq> 2" using x(1) p(1) by auto
    with x show "2 < x" by simp
    obtain y where y: "p = x * y" using x(1) by (rule dvdE)
    have "b ^ 2 ^ k mod x = (b ^ 2 ^ k mod p) mod x" using x(1) by (simp add: mod_mod_cancel)
    also have "\<dots> = (p - 1) mod x" using b by simp
    also have "\<dots> = (x - 1) mod x"
    proof -
      have "p - 1 = x - 1 + x * (y - 1)" using y by (simp add: algebra_simps)
      then show ?thesis by (metis mod_mult_self2)
    qed
    finally show "b ^ 2 ^ k mod x = (x - 1) mod x" .
  qed
  have "0 < e" using e p(2) d(2) by (simp add: zero_less_mult_iff)
  moreover have "e \<noteq> 1" using n e by auto
  ultimately have "1 < e" by simp
  moreover have "1 < d" using n d(2) by simp
  ultimately have "2 ^ Suc k < e" "2 ^ Suc k < d" using big e by auto
  then have "2 ^ Suc k * 2 ^ Suc k < d * e" using \<open>1 < d\<close> by (intro mult_strict_mono) auto
  then show False using p(3) e by simp
qed

section \<open>Roots of polynomials\<close>

text \<open>Polynomials by their coefficients, lowest first, and the bound on the number of roots.\<close>

primrec poly_eval :: "'a :: comm_ring_1 list \<Rightarrow> 'a \<Rightarrow> 'a" where
  "poly_eval [] x = 0"
| "poly_eval (c # cs) x = c + x * poly_eval cs x"

lemma poly_eval_add:
  "length cs = length ds \<Longrightarrow> poly_eval (map2 (+) cs ds) x = poly_eval cs x + poly_eval ds x"
  by (induction cs ds rule: list_induct2) (simp_all add: algebra_simps)

lemma poly_eval_scale: "poly_eval (map ((*) a) cs) x = a * poly_eval cs x"
  by (induction cs) (simp_all add: algebra_simps)

lemma poly_eval_append: "poly_eval (cs @ ds) x = poly_eval cs x + x ^ length cs * poly_eval ds x"
  by (induction cs) (simp_all add: algebra_simps)

lemma poly_linear_factor:
  "\<exists>qs. length qs = length cs - 1 \<and> (2 \<le> length cs \<longrightarrow> last qs = last cs)
     \<and> (\<forall>x. poly_eval cs x - poly_eval cs a = (x - a) * poly_eval qs x)"
proof (induction cs)
  case (Cons c cs)
  then obtain qs where qs: "length qs = length cs - 1"
    "\<And>x. poly_eval cs x - poly_eval cs a = (x - a) * poly_eval qs x" by blast
  show ?case
  proof (cases cs)
    case Nil
    then show ?thesis by (intro exI [of _ "[]"]) simp
  next
    case (Cons d ds)
    let ?qs = "map2 (+) cs (map ((*) a) qs @ [0])"
    have len: "length cs = length (map ((*) a) qs @ [0])" using qs(1) Cons by simp
    have "poly_eval (c # cs) x - poly_eval (c # cs) a = (x - a) * poly_eval ?qs x" for x
    proof -
      have "poly_eval ?qs x = poly_eval cs x + a * poly_eval qs x"
        by (simp only: poly_eval_add [OF len] poly_eval_append poly_eval_scale poly_eval.simps
            mult_zero_right add_0_right)
      moreover have "poly_eval (c # cs) x - poly_eval (c # cs) a
          = (x - a) * poly_eval cs x + a * (poly_eval cs x - poly_eval cs a)"
        by (simp add: algebra_simps)
      ultimately show ?thesis by (simp add: qs(2) algebra_simps)
    qed
    moreover have "last ?qs = last (c # cs)" "length ?qs = length cs"
      using len Cons by (auto simp: last_conv_nth nth_append nth_Cons')
    ultimately show ?thesis by (intro exI [of _ ?qs]) simp
  qed
qed (auto intro: exI [of _ "[]"])

lemma poly_roots_card_last:
  fixes cs :: "'a :: idom list"
  assumes "cs \<noteq> []" "last cs \<noteq> 0"
  shows "finite {x. poly_eval cs x = 0} \<and> card {x. poly_eval cs x = 0} \<le> length cs - 1"
  using assms
proof (induction "length cs" arbitrary: cs rule: less_induct)
  case less
  show ?case
  proof (cases "\<exists>a. poly_eval cs a = 0")
    case True
    then obtain a where a: "poly_eval cs a = 0" by blast
    obtain qs where qs: "length qs = length cs - 1" "2 \<le> length cs \<Longrightarrow> last qs = last cs"
      "\<And>x. poly_eval cs x = (x - a) * poly_eval qs x"
      using poly_linear_factor [of cs a] a by auto
    have "length cs \<noteq> 1"
    proof
      assume "length cs = 1"
      then obtain c where "cs = [c]" by (auto simp: length_Suc_conv)
      then show False using a less.prems by simp
    qed
    then have two: "2 \<le> length cs" using less.prems(1) by (cases cs) (auto simp: Suc_le_eq)
    then have "qs \<noteq> []" "last qs \<noteq> 0" "length qs < length cs" using qs(1,2) less.prems(2) by auto
    then have IH: "finite {x. poly_eval qs x = 0}" "card {x. poly_eval qs x = 0} \<le> length qs - 1"
      using less.hyps [of qs] by auto
    have roots: "{x. poly_eval cs x = 0} = insert a {x. poly_eval qs x = 0}" using qs(3) by auto
    have "card (insert a {x. poly_eval qs x = 0}) \<le> Suc (card {x. poly_eval qs x = 0})"
      using IH(1) by (simp add: card_insert_if)
    then show ?thesis unfolding roots using IH qs(1) two by auto
  qed simp
qed

lemma poly_roots_card:
  fixes cs :: "'a :: idom list"
  assumes "\<exists>c \<in> set cs. c \<noteq> 0"
  shows "finite {x. poly_eval cs x = 0} \<and> card {x. poly_eval cs x = 0} \<le> length cs - 1"
  using assms
proof (induction cs rule: rev_induct)
  case (snoc c cs)
  show ?case
  proof (cases "c = 0")
    case True
    then show ?thesis using snoc by (auto simp: poly_eval_append)
  next
    case False
    then show ?thesis using poly_roots_card_last [of "cs @ [c]"] by simp
  qed
qed simp

lemma poly_eval_zero: "\<forall>c \<in> set cs. c = 0 \<Longrightarrow> poly_eval cs x = 0"
  by (induction cs) auto

section \<open>Machines that may stop\<close>

text \<open>
  A sequence of operations on a state, each of which may refuse to continue. Invariants and
  reflexive transitive relations that every operation keeps are kept by every sequence.
\<close>

primrec run_machine ::
  "('op \<Rightarrow> 's \<Rightarrow> ('o \<times> 's) option) \<Rightarrow> 'op list \<Rightarrow> 's \<Rightarrow> ('o list \<times> 's) option" where
  "run_machine step [] s = Some ([], s)"
| "run_machine step (op # ops) s =
     (case step op s of
        None \<Rightarrow> None
      | Some (out, s1) \<Rightarrow>
          (case run_machine step ops s1 of None \<Rightarrow> None | Some (outs, s2) \<Rightarrow> Some (out # outs, s2)))"

lemma run_machine_Cons_Some:
  assumes "run_machine step (op # ops) s = Some (outs, s')"
  obtains out s1 outs1 where "step op s = Some (out, s1)" "run_machine step ops s1 = Some (outs1, s')"
    "outs = out # outs1"
  using assms by (auto split: option.splits)

locale machine_invariant =
  fixes step :: "'op \<Rightarrow> 's \<Rightarrow> ('o \<times> 's) option" and inv :: "'s \<Rightarrow> bool"
  assumes step_inv: "step op s = Some (out, s') \<Longrightarrow> inv s \<Longrightarrow> inv s'"
begin

lemma run_inv: "run_machine step ops s = Some (outs, s') \<Longrightarrow> inv s \<Longrightarrow> inv s'"
proof (induction ops arbitrary: s outs)
  case (Cons op ops)
  then show ?case by (elim run_machine_Cons_Some) (blast dest: step_inv)
qed simp

end

locale machine_order =
  fixes step :: "'op \<Rightarrow> 's \<Rightarrow> ('o \<times> 's) option" and le :: "'s \<Rightarrow> 's \<Rightarrow> bool"
  assumes le_refl: "le s s"
    and le_trans: "le s s1 \<Longrightarrow> le s1 s2 \<Longrightarrow> le s s2"
    and step_le: "step op s = Some (out, s') \<Longrightarrow> le s s'"
begin

lemma run_le: "run_machine step ops s = Some (outs, s') \<Longrightarrow> le s s'"
proof (induction ops arbitrary: s outs)
  case (Cons op ops)
  then show ?case by (elim run_machine_Cons_Some) (blast intro: le_trans dest: step_le)
qed (simp add: le_refl)

end

section \<open>Characters as bytes\<close>

lemma of_char_u8_inject [simp]: "of_char c = (of_char d :: u8) \<longleftrightarrow> c = d"
proof
  assume h: "of_char c = (of_char d :: u8)"
  have "(of_char x :: u8) = word_of_nat (of_char x)" for x
    by (cases x) (simp add: horner_sum_simps of_char_def)
  then have "unat (word_of_nat (of_char c) :: u8) = unat (word_of_nat (of_char d) :: u8)" using h by simp
  then have "(of_char c :: nat) = of_char d" by (simp add: unat_of_nat take_bit_eq_mod)
  then show "c = d" by simp
qed simp

section \<open>Loops, indexing and sizes\<close>

text \<open>A loop over a list whose body may panic, and an indexed read.\<close>

fun fold_opt :: "('a \<Rightarrow> 's \<Rightarrow> 's option) \<Rightarrow> 'a list \<Rightarrow> 's \<Rightarrow> 's option" where
  "fold_opt f [] s = Some s"
| "fold_opt f (x # xs) s = do { s \<leftarrow> f x s; fold_opt f xs s }"

definition get :: "'a list \<Rightarrow> nat \<Rightarrow> 'a option" where
  "get xs i = (if i < length xs then Some (xs ! i) else None)"

lemma get_nth [simp]: "i < length xs \<Longrightarrow> get xs i = Some (xs ! i)"
  by (simp add: get_def)

lemma get_Some: "get xs i = Some x \<longleftrightarrow> i < length xs \<and> x = xs ! i"
  by (auto simp: get_def)

lemma fold_opt_append: "fold_opt f (xs @ ys) s = do { s \<leftarrow> fold_opt f xs s; fold_opt f ys s }"
  by (induction xs arbitrary: s) (auto split: Option.bind_splits)

text \<open>The subslice \<^verbatim>\<open>xs[off..off + n]\<close>.\<close>

definition slice :: "nat \<Rightarrow> nat \<Rightarrow> 'a list \<Rightarrow> 'a list option" where
  "slice off n xs = (if off + n \<le> length xs then Some (take n (drop off xs)) else None)"

lemma slice_Some: "slice off n xs = Some ys \<longleftrightarrow> off + n \<le> length xs \<and> ys = take n (drop off xs)"
  by (auto simp: slice_def)

lemma slice_map: "slice off n (map f xs) = map_option (map f) (slice off n xs)"
  by (simp add: slice_def take_map drop_map)

lemma row_bound: "b < q \<Longrightarrow> k < l \<Longrightarrow> b * l + k < q * (l :: nat)"
proof -
  assume "b < q" "k < l"
  then have "Suc b * l \<le> q * l" by (intro mult_le_mono1) simp
  then show ?thesis using \<open>k < l\<close> by simp
qed

lemma slice_row: "i < m \<Longrightarrow> length xs = m * k \<Longrightarrow> slice (i * k) k xs = Some (map (\<lambda>l. xs ! (i * k + l)) [0..<k])"
proof -
  assume i: "i < m" "length xs = m * k"
  then have "Suc i * k \<le> m * k" by (intro mult_le_mono1) simp
  then show ?thesis using i by (auto simp: slice_def intro!: nth_equalityI)
qed

text \<open>
  The rule for such loops: an invariant, indexed by the number of elements done, that every step keeps
  while it returns.
\<close>

lemma fold_opt_invariant:
  assumes "I 0 s" "\<And>k s. k < length xs \<Longrightarrow> I k s \<Longrightarrow> \<exists>s'. f (xs ! k) s = Some s' \<and> I (Suc k) s'"
  shows "\<exists>s'. fold_opt f xs s = Some s' \<and> I (length xs) s'"
  using assms
proof (induction xs arbitrary: I s)
  case (Cons x xs)
  obtain s1 where s1: "f x s = Some s1" "I (Suc 0) s1" using Cons.prems(2) [of 0] Cons.prems(1) by auto
  have "\<exists>s'. fold_opt f xs s1 = Some s' \<and> I (Suc (length xs)) s'"
    using Cons.IH [of "\<lambda>k. I (Suc k)", OF s1(2)] Cons.prems(2) by fastforce
  then show ?case using s1(1) by simp
qed simp

text \<open>\<^verbatim>\<open>usize::trailing_zeros\<close>, for a length that is a power of two.\<close>

fun trailing_zeros :: "nat \<Rightarrow> nat" where
  "trailing_zeros n = (if n = 0 \<or> odd n then 0 else Suc (trailing_zeros (n div 2)))"

declare trailing_zeros.simps [simp del]

lemma trailing_zeros_pow [simp]: "trailing_zeros (2 ^ n) = n"
  by (induction n) (simp_all add: trailing_zeros.simps)

definition is_power_of_two :: "nat \<Rightarrow> bool" where
  "is_power_of_two n \<longleftrightarrow> n = 2 ^ trailing_zeros n"

lemma is_power_of_two_iff: "is_power_of_two n \<longleftrightarrow> (\<exists>k. n = 2 ^ k)"
  by (auto simp: is_power_of_two_def)

section \<open>Results\<close>

text \<open>The question mark operator of Rust, a loop that stops at the first error, and \<^verbatim>\<open>ok_or\<close>.\<close>

definition ok_then :: "'e + 'a \<Rightarrow> ('a \<Rightarrow> 'e + 'b) \<Rightarrow> 'e + 'b" where
  "ok_then r f = (case r of Inl e \<Rightarrow> Inl e | Inr x \<Rightarrow> f x)"

fun try_fold :: "('a \<Rightarrow> 's \<Rightarrow> 'e + 's) \<Rightarrow> 'a list \<Rightarrow> 's \<Rightarrow> 'e + 's" where
  "try_fold f [] s = Inr s"
| "try_fold f (x # xs) s = ok_then (f x s) (try_fold f xs)"

definition ok_or :: "'a option \<Rightarrow> 'e \<Rightarrow> 'e + 'a" where
  "ok_or r e = (case r of None \<Rightarrow> Inl e | Some x \<Rightarrow> Inr x)"

lemma ok_then_Inr: "ok_then r f = Inr y \<longleftrightarrow> (\<exists>x. r = Inr x \<and> f x = Inr y)"
  by (simp add: ok_then_def split: sum.splits)

lemma ok_or_Inr: "ok_or r e = Inr x \<longleftrightarrow> r = Some x"
  by (simp add: ok_or_def split: option.splits)

lemmas checks_pass = ok_then_Inr ok_or_Inr

lemma try_fold_unit: "try_fold f xs () = Inr () \<longleftrightarrow> (\<forall>x \<in> set xs. f x () = Inr ())"
  by (induction xs) (auto simp: ok_then_Inr)

lemma try_fold_invariant:
  assumes "try_fold f xs s = Inr s'" "I s" "\<And>x s t. x \<in> set xs \<Longrightarrow> I s \<Longrightarrow> f x s = Inr t \<Longrightarrow> I t"
  shows "I s'"
  using assms by (induction xs arbitrary: s) (auto simp: ok_then_Inr)

lemma ok_then_simps [simp]: "ok_then (Inr x) f = f x" "ok_then (Inl e) f = Inl e"
  by (simp_all add: ok_then_def)

text \<open>Collecting an iterator of options.\<close>

lemma those_map_Some: "(\<And>x. x \<in> set xs \<Longrightarrow> f x = Some (g x)) \<Longrightarrow> those (map f xs) = Some (map g xs)"
  by (induction xs) simp_all

lemma those_Some_iff: "those xs = Some ys \<longleftrightarrow> xs = map Some ys"
  by (induction xs arbitrary: ys) (auto split: option.splits)

lemma those_map_ex:
  "(\<And>x. x \<in> set xs \<Longrightarrow> f x \<noteq> None) \<Longrightarrow> those (map f xs) = Some (map (the \<circ> f) xs)"
  by (intro those_map_Some) auto

text \<open>Rows of equal length, read off their concatenation by position.\<close>

lemma nth_concat_rows:
  assumes "\<forall>xs \<in> set xss. length xs = n" "i < length xss" "j < n"
  shows "concat xss ! (i * n + j) = xss ! i ! j"
  using assms
proof (induction xss arbitrary: i)
  case (Cons x xss)
  then show ?case by (cases i) (simp_all add: nth_append add.assoc)
qed simp

lemma length_concat_rows: "\<forall>xs \<in> set xss. length xs = n \<Longrightarrow> length (concat xss) = length xss * n"
  by (induction xss) simp_all

lemma slice_concat_rows:
  assumes "\<forall>xs \<in> set xss. length xs = n" "i < length xss"
  shows "slice (i * n) n (concat xss) = Some (xss ! i)"
proof -
  have "slice (i * n) n (concat xss) = Some (map (\<lambda>l. concat xss ! (i * n + l)) [0..<n])"
    by (rule slice_row [OF assms(2) length_concat_rows [OF assms(1)]])
  also have "map (\<lambda>l. concat xss ! (i * n + l)) [0..<n] = xss ! i"
    using assms by (intro nth_equalityI) (simp_all add: nth_concat_rows)
  finally show ?thesis .
qed

lemma sum_list_const: "(\<And>x. x \<in> set xs \<Longrightarrow> f x = c) \<Longrightarrow> sum_list (map f xs) = length xs * (c :: nat)"
  by (induction xs) simp_all

end
