(* ===== verification/Goldilocks.thy ===== *)
theory Goldilocks
  imports Volta_Prelude
begin

text \<open>
  The Goldilocks base field of \<^verbatim>\<open>volta-field/src/lib.rs\<close>. The bit-level operations on \<^verbatim>\<open>u64\<close> are
  translated as they are written (wrapping words, borrow and carry corrections by \<open>EPSILON\<close>),
  shown to keep the canonical range \<open>[0, P)\<close> and to compute modulo \<open>P\<close>, and then lifted to the
  type \<open>fp\<close> of canonical elements, the model of the struct \<^verbatim>\<open>Fp\<close> whose \<^verbatim>\<open>u64\<close> is private.
  \<open>P\<close> is proved prime by Proth's criterion, \<open>fp\<close> is an instance of the library's class
  \<open>field\<close>, and the Fermat inverse of the source is the inverse of that field.
\<close>

section \<open>The operations on u64\<close>

definition P_u64 :: u64 where
  "P_u64 = 0xFFFFFFFF00000001"

definition EPSILON :: u64 where
  "EPSILON = 0xFFFFFFFF"

definition fp_new_u64 :: "u64 \<Rightarrow> u64" where
  "fp_new_u64 x = (if P_u64 \<le> x then x - P_u64 else x)"

definition fp_from_i64_u64 :: "int \<Rightarrow> u64" where
  "fp_from_i64_u64 x =
     (if 0 \<le> x then fp_new_u64 (word_of_int x) else P_u64 - word_of_int (- x))"

definition fp_add_u64 :: "u64 \<Rightarrow> u64 \<Rightarrow> u64" where
  "fp_add_u64 a b =
     (let (r, carry) = overflowing_add a b;
          r = (if carry then r + EPSILON else r)
      in if P_u64 \<le> r then r - P_u64 else r)"

definition fp_sub_u64 :: "u64 \<Rightarrow> u64 \<Rightarrow> u64" where
  "fp_sub_u64 a b =
     (let (r, borrow) = overflowing_sub a b
      in if borrow then r - EPSILON else r)"

definition fp_neg_u64 :: "u64 \<Rightarrow> u64" where
  "fp_neg_u64 a = (if a = 0 then 0 else P_u64 - a)"

definition reduce128 :: "u128 \<Rightarrow> u64" where
  "reduce128 x =
     (let lo = ucast x :: u64;
          hi = ucast (drop_bit 64 x) :: u64;
          hi_hi = drop_bit 32 hi;
          hi_lo = hi AND EPSILON;
          (t, borrow) = overflowing_sub lo hi_hi;
          t = (if borrow then t - EPSILON else t);
          t1 = hi_lo * EPSILON;
          (r, carry) = overflowing_add t t1;
          r = (if carry then r + EPSILON else r)
      in if P_u64 \<le> r then r - P_u64 else r)"

definition fp_mul_u64 :: "u64 \<Rightarrow> u64 \<Rightarrow> u64" where
  "fp_mul_u64 a b = reduce128 (ucast a * ucast b)"

section \<open>Values of the operations\<close>

abbreviation gold_p :: int where
  "gold_p \<equiv> 0xFFFFFFFF00000001"

lemma uint_P [simp]: "uint P_u64 = gold_p"
  by (simp add: P_u64_def)

lemma uint_EPSILON [simp]: "uint EPSILON = 0xFFFFFFFF"
  by (simp add: EPSILON_def)

lemma less_P_iff [simp]: "x < P_u64 \<longleftrightarrow> uint x < gold_p"
  by (simp add: word_less_def)

lemma u64_bound: "0 \<le> uint (x :: u64)" "uint (x :: u64) < 18446744073709551616"
  using uint_lt2p [of x] by simp_all

lemma mod_gold_once:
  "0 \<le> x \<Longrightarrow> x < gold_p \<Longrightarrow> x mod gold_p = x"
  "gold_p \<le> x \<Longrightarrow> x < gold_p + gold_p \<Longrightarrow> x mod gold_p = x - gold_p"
  "- gold_p \<le> x \<Longrightarrow> x < 0 \<Longrightarrow> x mod gold_p = x + gold_p"
proof -
  show "0 \<le> x \<Longrightarrow> x < gold_p \<Longrightarrow> x mod gold_p = x" by simp
  show "x mod gold_p = x - gold_p" if "gold_p \<le> x" "x < gold_p + gold_p"
  proof -
    have "x mod gold_p = (x - gold_p) mod gold_p" by simp
    also have "\<dots> = x - gold_p" by (rule mod_pos_pos_trivial) (use that in auto)
    finally show ?thesis .
  qed
  show "x mod gold_p = x + gold_p" if "- gold_p \<le> x" "x < 0"
  proof -
    have "x mod gold_p = (x + gold_p) mod gold_p" by simp
    also have "\<dots> = x + gold_p" by (rule mod_pos_pos_trivial) (use that in auto)
    finally show ?thesis .
  qed
qed

lemma cond_sub_P: "uint (if P_u64 \<le> r then r - P_u64 else r) = uint r mod gold_p"
proof (cases "P_u64 \<le> r")
  case True
  then have le: "gold_p \<le> uint r" by (simp add: word_le_def)
  then have "uint (r - P_u64) = uint r - gold_p" by (simp add: uint_sub_if')
  moreover have "uint r mod gold_p = uint r - gold_p"
    using le u64_bound [of r] by (intro mod_gold_once(2)) auto
  ultimately show ?thesis using True by simp
next
  case False
  then have "uint r < gold_p" by (simp add: word_le_def)
  then show ?thesis using False by simp
qed

lemma fp_new_value: "uint (fp_new_u64 x) = uint x mod gold_p"
  unfolding fp_new_u64_def by (rule cond_sub_P)

lemma fp_add_value:
  assumes "uint a < gold_p" "uint b < gold_p"
  shows "uint (fp_add_u64 a b) = (uint a + uint b) mod gold_p"
proof -
  define r where "r = (if 2 ^ 64 \<le> uint a + uint b then a + b + EPSILON else a + b)"
  have "fp_add_u64 a b = (if P_u64 \<le> r then r - P_u64 else r)"
    by (simp add: fp_add_u64_def overflowing_add_def r_def)
  then have v: "uint (fp_add_u64 a b) = uint r mod gold_p" by (simp only: cond_sub_P)
  show ?thesis
  proof (cases "2 ^ 64 \<le> uint a + uint b")
    case True
    then have "uint (a + b) = uint a + uint b - 2 ^ 64" by (simp add: uint_plus_if')
    then have "uint (a + b + EPSILON) = uint a + uint b - gold_p"
      using assms u64_bound [of a] u64_bound [of b] by (subst uint_plus_if') simp
    then have "uint r = uint a + uint b - gold_p" using True by (simp add: r_def)
    then show ?thesis using v by simp
  next
    case False
    then have "uint r = uint a + uint b" by (simp add: r_def uint_plus_if')
    then show ?thesis using v by simp
  qed
qed

lemma fp_sub_value:
  assumes "uint a < gold_p" "uint b < gold_p"
  shows "uint (fp_sub_u64 a b) = (uint a - uint b) mod gold_p"
proof (cases "uint a < uint b")
  case True
  then have "uint (a - b) = uint a - uint b + 2 ^ 64" by (simp add: uint_sub_if')
  moreover have "0 \<le> uint a - uint b + gold_p" using assms u64_bound [of a] by linarith
  ultimately have "uint (a - b - EPSILON) = uint a - uint b + gold_p"
    by (subst uint_sub_if') simp
  moreover have "(uint a - uint b) mod gold_p = uint a - uint b + gold_p"
    using assms True u64_bound [of a] by (intro mod_gold_once(3)) linarith+
  ultimately show ?thesis using True
    by (simp add: fp_sub_u64_def overflowing_sub_def word_less_def)
next
  case False
  then have "uint (a - b) = uint a - uint b" by (simp add: uint_sub_if')
  moreover have "(uint a - uint b) mod gold_p = uint a - uint b"
    using assms False u64_bound [of b] by (intro mod_gold_once(1)) linarith+
  ultimately show ?thesis using False
    by (simp add: fp_sub_u64_def overflowing_sub_def word_less_def)
qed

lemma fp_neg_value:
  assumes "uint a < gold_p"
  shows "uint (fp_neg_u64 a) = (- uint a) mod gold_p"
proof (cases "a = 0")
  case True
  then show ?thesis by (simp add: fp_neg_u64_def)
next
  case False
  then have pos: "0 < uint a" using u64_bound [of a] by (simp add: order_less_le uint_0_iff)
  have "uint (P_u64 - a) = gold_p - uint a" using assms by (simp add: uint_sub_if')
  moreover have "(- uint a) mod gold_p = - uint a + gold_p"
    using assms pos by (intro mod_gold_once(3)) auto
  ultimately show ?thesis using False by (simp add: fp_neg_u64_def)
qed

lemma fp_from_i64_value:
  assumes "- (2 ^ 63) \<le> x" "x < 2 ^ 63"
  shows "uint (fp_from_i64_u64 x) = x mod gold_p"
proof (cases "0 \<le> x")
  case True
  then have "uint (word_of_int x :: u64) = x"
    using assms by (simp add: uint_word_of_int_eq take_bit_eq_mod)
  then show ?thesis using True by (simp add: fp_from_i64_u64_def fp_new_value)
next
  case False
  then have u: "uint (word_of_int (- x) :: u64) = - x"
    unfolding uint_word_of_int_eq take_bit_eq_mod
    by (intro mod_pos_pos_trivial) (use assms in auto)
  then have "uint (P_u64 - word_of_int (- x)) = gold_p + x"
    using assms u by (subst uint_sub_if') (simp del: of_int_minus)
  moreover have "x mod gold_p = x + gold_p"
    using assms False by (intro mod_gold_once(3)) auto
  ultimately show ?thesis using False by (simp add: fp_from_i64_u64_def)
qed

text \<open>The reduction of a 128-bit product: the borrow adds \<open>P\<close> once, the carry subtracts it once.\<close>

lemma reduce128_sub_step:
  assumes "0 \<le> uint lo" "uint hh < 4294967296"
  shows "uint (if lo < hh then lo - hh - EPSILON else lo - hh :: u64)
       = uint lo - uint hh + (if lo < hh then gold_p else 0)"
proof (cases "lo < hh")
  case True
  then have lt: "uint lo < uint hh" by (simp add: word_less_def)
  then have "uint (lo - hh) = uint lo - uint hh + 2 ^ 64" by (simp add: uint_sub_if')
  moreover have "0 \<le> uint lo - uint hh + gold_p" using assms by linarith
  ultimately have "uint (lo - hh - EPSILON) = uint lo - uint hh + gold_p"
    by (subst uint_sub_if') simp
  then show ?thesis using True by simp
next
  case False
  then show ?thesis by (simp add: word_less_def uint_sub_if')
qed

lemma reduce128_add_step:
  assumes "uint t1 \<le> 0xFFFFFFFF * 0xFFFFFFFF"
  shows "uint (if 2 ^ 64 \<le> uint t + uint t1 then t + t1 + EPSILON else t + t1 :: u64)
       = uint t + uint t1 - (if 2 ^ 64 \<le> uint t + uint t1 then gold_p else 0)"
proof (cases "2 ^ 64 \<le> uint t + uint t1")
  case True
  then have "uint (t + t1) = uint t + uint t1 - 2 ^ 64" by (simp add: uint_plus_if')
  moreover have "uint t + uint t1 - 2 ^ 64 + 0xFFFFFFFF < 2 ^ 64"
    using assms u64_bound [of t] by simp
  ultimately have "uint (t + t1 + EPSILON) = uint t + uint t1 - gold_p"
    by (subst uint_plus_if') simp
  then show ?thesis using True by simp
next
  case False
  then show ?thesis by (simp add: uint_plus_if')
qed

lemma reduce128_value: "uint (reduce128 x) = uint x mod gold_p"
proof -
  define lo :: u64 where "lo = ucast x"
  define hi :: u64 where "hi = ucast (drop_bit 64 x)"
  define hh where "hh = drop_bit 32 hi"
  define hl where "hl = hi AND EPSILON"
  define t where "t = (if lo < hh then lo - hh - EPSILON else lo - hh)"
  define t1 where "t1 = hl * EPSILON"
  define r where "r = (if 2 ^ 64 \<le> uint t + uint t1 then t + t1 + EPSILON else t + t1)"
  have res: "reduce128 x = (if P_u64 \<le> r then r - P_u64 else r)"
    by (simp add: reduce128_def overflowing_sub_def overflowing_add_def Let_def
        lo_def hi_def hh_def hl_def t_def t1_def r_def)
  have ulo: "uint lo = uint x mod 2 ^ 64"
    by (simp add: lo_def unsigned_ucast_eq take_bit_eq_mod)
  have xlt: "uint x < 2 ^ 128" using uint_lt2p [of x] by simp
  have uhi: "uint hi = uint x div 2 ^ 64"
  proof -
    have "(uint x div 2 ^ 64) mod 2 ^ 64 = uint x div 2 ^ 64"
      using xlt by (intro mod_pos_pos_trivial)
        (simp_all add: div_less_iff_less_mult pos_imp_zdiv_nonneg_iff)
    then show ?thesis by (simp add: hi_def unsigned_ucast_eq take_bit_eq_mod uint_drop_bit)
  qed
  have uhh: "uint hh = uint hi div 2 ^ 32"
    by (simp add: hh_def uint_drop_bit)
  have uhl: "uint hl = uint hi mod 2 ^ 32"
  proof -
    have m: "(0xFFFFFFFF :: int) = mask 32" by (simp add: mask_eq_exp_minus_1)
    have "uint hl = uint hi AND mask 32" by (simp add: hl_def uint_and m [symmetric])
    then show ?thesis by (simp add: take_bit_eq_mask [symmetric] take_bit_eq_mod)
  qed
  have hhb: "uint hh < 2 ^ 32" using uhh u64_bound [of hi] by simp
  have hlb: "0 \<le> uint hl" "uint hl \<le> 0xFFFFFFFF" using uhl by simp_all
  have ut1: "uint t1 = uint hl * 0xFFFFFFFF"
    using hlb by (simp add: t1_def uint_word_ariths)
  have ut: "uint t = uint lo - uint hh + (if lo < hh then gold_p else 0)"
    unfolding t_def by (rule reduce128_sub_step) (use hhb in simp_all)
  have ur: "uint r = uint t + uint t1 - (if 2 ^ 64 \<le> uint t + uint t1 then gold_p else 0)"
    unfolding r_def by (rule reduce128_add_step) (use ut1 hlb in simp)
  have "uint r mod gold_p = (uint lo - uint hh + uint hl * 0xFFFFFFFF) mod gold_p"
  proof -
    have "\<exists>c. uint r = (uint lo - uint hh + uint hl * 0xFFFFFFFF) + c * gold_p"
      using ur ut ut1
      by (cases "lo < hh"; cases "2 ^ 64 \<le> uint t + uint t1")
        (auto intro: exI [of _ 0] exI [of _ 1] exI [of _ "- 1"])
    then show ?thesis by auto
  qed
  also have "\<dots> = uint x mod gold_p"
  proof -
    have "uint x = uint lo + 2 ^ 64 * (uint hl + 2 ^ 32 * uint hh)"
      using ulo uhi uhh uhl by simp
    also have "\<dots> = (uint lo - uint hh + uint hl * 0xFFFFFFFF)
        + gold_p * (uint hl + 0x100000001 * uint hh)"
      by simp
    finally show ?thesis by (metis mod_mult_self2)
  qed
  finally have "uint r mod gold_p = uint x mod gold_p" .
  then show ?thesis using res cond_sub_P [of r] by simp
qed

lemma fp_mul_value: "uint (fp_mul_u64 a b) = (uint a * uint b) mod gold_p"
proof -
  have "uint a * uint b < 2 ^ 128"
  proof -
    have "uint a * uint b \<le> 18446744073709551615 * 18446744073709551615"
      using u64_bound [of a] u64_bound [of b] by (intro mult_mono) auto
    then show ?thesis by simp
  qed
  moreover have "uint y mod 2 ^ 128 = uint y" for y :: u64
    using u64_bound [of y] by (intro mod_pos_pos_trivial) simp_all
  ultimately have "uint (ucast a * ucast b :: u128) = uint a * uint b"
    by (simp add: uint_word_ariths unsigned_ucast_eq take_bit_eq_mod)
  then show ?thesis by (simp add: fp_mul_u64_def reduce128_value)
qed

section \<open>P is prime\<close>

lemma seven_power_half: "7 ^ 9223372034707292160 mod gold_p = gold_p - 1"
  unfolding powmod_correct by code_simp

lemma gold_p_no_divisor: "d dvd gold_p \<Longrightarrow> 0 < d \<Longrightarrow> d = 1 \<or> d = gold_p"
proof (rule proth_no_divisor [where k = 31 and b = "7 ^ 0xFFFFFFFF"])
  have "((7::int) ^ 0xFFFFFFFF) ^ 2 ^ 31 = 7 ^ (0xFFFFFFFF * 2 ^ 31)"
    by (simp only: power_mult)
  also have "(0xFFFFFFFF * 2 ^ 31 :: nat) = 9223372034707292160" by simp
  finally have e: "((7::int) ^ 0xFFFFFFFF) ^ 2 ^ 31 = 7 ^ 9223372034707292160" .
  show "((7::int) ^ 0xFFFFFFFF) ^ 2 ^ 31 mod gold_p = gold_p - 1"
    unfolding e by (rule seven_power_half)
qed simp_all

lemma coprime_gold_p: "0 < x \<Longrightarrow> x < gold_p \<Longrightarrow> coprime x gold_p"
proof -
  assume x: "0 < x" "x < gold_p"
  let ?g = "gcd x gold_p"
  have "?g dvd gold_p" by simp
  moreover have "0 < ?g" by simp
  ultimately have "?g = 1 \<or> ?g = gold_p" by (rule gold_p_no_divisor)
  moreover have "?g \<noteq> gold_p"
  proof
    assume "?g = gold_p"
    then have "gold_p dvd x" by (metis gcd_dvd1)
    then show False using x zdvd_imp_le by force
  qed
  ultimately show "coprime x gold_p" by (simp add: coprime_iff_gcd_eq_1)
qed

section \<open>The type of canonical elements\<close>

typedef fp = "{x :: u64. x < P_u64}"
  morphisms fp_value Abs_fp
  by (rule exI [of _ 0]) simp

setup_lifting type_definition_fp

definition fp_val :: "fp \<Rightarrow> int" where
  "fp_val a = uint (fp_value a)"

lemma fp_val_range [simp]: "0 \<le> fp_val a" "fp_val a < gold_p"
  using fp_value [of a] by (simp_all add: fp_val_def)

lemma fp_value_less [simp]: "uint (fp_value a) < gold_p"
  using fp_value [of a] by simp

lemma fp_val_inject: "fp_val a = fp_val b \<longleftrightarrow> a = b"
  by (simp add: fp_val_def fp_value_inject [symmetric] word_uint_eq_iff)

lemma fp_val_mod [simp]: "fp_val a mod gold_p = fp_val a"
  by simp

lift_definition fp_new :: "u64 \<Rightarrow> fp" is fp_new_u64
  by (simp add: fp_new_value)

text \<open>\<open>Fp::from_i64\<close> is total on the values of \<^verbatim>\<open>i64\<close>; outside them there is nothing to model.\<close>

lift_definition fp_from_i64 :: "int \<Rightarrow> fp" is
  "\<lambda>x. if - (2 ^ 63) \<le> x \<and> x < 2 ^ 63 then fp_from_i64_u64 x else 0"
  by (simp add: fp_from_i64_value)

lift_definition fp_add :: "fp \<Rightarrow> fp \<Rightarrow> fp" is fp_add_u64 by (simp add: fp_add_value)
lift_definition fp_sub :: "fp \<Rightarrow> fp \<Rightarrow> fp" is fp_sub_u64 by (simp add: fp_sub_value)
lift_definition fp_neg :: "fp \<Rightarrow> fp" is fp_neg_u64 by (simp add: fp_neg_value)
lift_definition fp_mul :: "fp \<Rightarrow> fp \<Rightarrow> fp" is fp_mul_u64 by (simp add: fp_mul_value)

instantiation fp :: comm_ring_1
begin

lift_definition zero_fp :: fp is 0 by simp
lift_definition one_fp :: fp is 1 by simp
definition plus_fp :: "fp \<Rightarrow> fp \<Rightarrow> fp" where "plus_fp a b = fp_add a b"
definition minus_fp :: "fp \<Rightarrow> fp \<Rightarrow> fp" where "minus_fp a b = fp_sub a b"
definition uminus_fp :: "fp \<Rightarrow> fp" where "uminus_fp a = fp_neg a"
definition times_fp :: "fp \<Rightarrow> fp \<Rightarrow> fp" where "times_fp a b = fp_mul a b"

lemma fp_val_ops [fp_refine]:
  "fp_val 0 = 0"
  "fp_val 1 = 1"
  "fp_val (a + b) = (fp_val a + fp_val b) mod gold_p"
  "fp_val (a - b) = (fp_val a - fp_val b) mod gold_p"
  "fp_val (- a) = (- fp_val a) mod gold_p"
  "fp_val (a * b) = (fp_val a * fp_val b) mod gold_p"
  by (simp_all add: fp_val_def zero_fp.rep_eq one_fp.rep_eq plus_fp_def fp_add.rep_eq minus_fp_def fp_sub.rep_eq
      uminus_fp_def fp_neg.rep_eq times_fp_def fp_mul.rep_eq fp_add_value fp_sub_value fp_neg_value fp_mul_value)

instance
  by standard (simp_all add: fp_val_inject [symmetric] fp_val_ops mod_simps algebra_simps)

end


lemma fp_val_new [fp_refine]: "fp_val (fp_new x) = uint x mod gold_p"
  by (simp add: fp_val_def fp_new.rep_eq fp_new_value)

lemma fp_val_from_i64 [fp_refine]:
  "- (2 ^ 63) \<le> x \<Longrightarrow> x < 2 ^ 63 \<Longrightarrow> fp_val (fp_from_i64 x) = x mod gold_p"
  by (simp add: fp_val_def fp_from_i64.rep_eq fp_from_i64_value)

lemma fp_val_of_nat: "fp_val (of_nat n) = int n mod gold_p"
  by (induction n) (simp_all add: fp_val_ops mod_simps add.commute)

lemma fp_val_of_int: "fp_val (of_int z) = z mod gold_p"
  by (cases z) (simp_all add: fp_val_of_nat fp_val_ops mod_simps flip: of_nat_Suc)

lemma fp_val_numeral [fp_refine]: "fp_val (numeral n) = numeral n mod gold_p"
  using fp_val_of_int [of "numeral n"] by simp

lemma fp_val_power: "fp_val (a ^ n) = fp_val a ^ n mod gold_p"
  by (induction n) (simp_all add: fp_val_ops mod_simps)

lemma fp_from_i64_of_int: "- (2 ^ 63) \<le> x \<Longrightarrow> x < 2 ^ 63 \<Longrightarrow> fp_from_i64 x = of_int x"
  by (simp add: fp_val_inject [symmetric] fp_val_from_i64 fp_val_of_int)

lemma fp_new_of_int: "fp_new x = of_int (uint x)"
  by (simp only: fp_val_inject [symmetric] fp_val_new fp_val_of_int)

lemma fp_new_value_id [simp]: "fp_new (fp_value a) = a"
  using fp_val_range [of a] by (simp add: fp_val_inject [symmetric] fp_val_new) (simp add: fp_val_def)

instance fp :: idom
proof
  fix a b :: fp
  assume ab: "a \<noteq> 0" "b \<noteq> 0"
  have pos: "0 < fp_val x" if "x \<noteq> 0" for x
    using that fp_val_range [of x] by (simp add: fp_val_inject [symmetric] fp_val_ops order_less_le)
  show "a * b \<noteq> 0"
  proof
    assume "a * b = 0"
    then have "gold_p dvd fp_val a * fp_val b"
      by (simp add: fp_val_inject [symmetric] fp_val_ops dvd_eq_mod_eq_0)
    moreover have "coprime gold_p (fp_val a)"
      using coprime_gold_p [OF pos [OF ab(1)]] by (simp add: coprime_commute)
    ultimately have "gold_p dvd fp_val b" by (simp add: coprime_dvd_mult_right_iff)
    then show False using pos [OF ab(2)] fp_val_range [of b] by (meson zdvd_not_zless)
  qed
qed

instance fp :: finite
proof
  have "finite (fp_val ` UNIV)" by (rule finite_subset [of _ "{0..<gold_p}"]) auto
  then show "finite (UNIV :: fp set)"
    by (rule finite_imageD) (simp add: inj_on_def fp_val_inject)
qed

lemma card_fp: "card (UNIV :: fp set) = 18446744069414584321"
proof -
  have "fp_val ` UNIV = {0..<gold_p}"
  proof (intro equalityI subsetI)
    fix z assume "z \<in> {0..<gold_p}"
    then have "fp_val (of_int z) = z" by (simp add: fp_val_of_int)
    then show "z \<in> fp_val ` UNIV" by (metis rangeI)
  qed auto
  moreover have "card (fp_val ` UNIV) = card (UNIV :: fp set)"
    by (rule card_image) (simp add: inj_on_def fp_val_inject)
  ultimately show ?thesis by simp
qed

lemma fp_fermat: "a \<noteq> 0 \<Longrightarrow> (a :: fp) ^ 18446744069414584320 = 1"
  using finite_idom_fermat [of a] by (simp add: card_fp)

section \<open>Powers and inverses\<close>

function fp_pow_loop :: "fp \<Rightarrow> fp \<Rightarrow> u64 \<Rightarrow> fp" where
  "fp_pow_loop base acc e =
     (if e \<noteq> 0
      then fp_pow_loop (base * base) (if e AND 1 = 1 then acc * base else acc) (drop_bit 1 e)
      else acc)"
  by pat_completeness auto
termination
proof (relation "measure (\<lambda>(base, acc, e). unat e)")
  fix e :: u64
  assume "e \<noteq> 0"
  then have "unat e \<noteq> 0" by (simp add: unat_eq_0)
  then show "((base * base, if e AND 1 = 1 then acc * base else acc, drop_bit 1 e), base, acc, e)
      \<in> measure (\<lambda>(base, acc, e). unat e)" for base acc :: fp
    by (simp add: unat_drop_bit)
qed simp

declare fp_pow_loop.simps [simp del]

definition fp_pow :: "fp \<Rightarrow> u64 \<Rightarrow> fp" where
  "fp_pow a e = fp_pow_loop a 1 e"

lemma unat_halve: "unat e = 2 * unat (drop_bit 1 e :: u64) + (if e AND 1 = 1 then 1 else 0)"
  by (simp add: unat_drop_bit word_and_one_odd)

lemma fp_pow_loop_power: "fp_pow_loop base acc e = acc * base ^ unat e"
proof (induction base acc e rule: fp_pow_loop.induct)
  case (1 base acc e)
  show ?case
  proof (cases "e = 0")
    case True
    then show ?thesis by (simp add: fp_pow_loop.simps)
  next
    case False
    have "base ^ unat e = (base * base) ^ unat (drop_bit 1 e) * (if e AND 1 = 1 then base else 1)"
      by (subst unat_halve) (simp add: power_add power_mult power2_eq_square)
    then show ?thesis
      using "1.IH" [OF False] False by (subst fp_pow_loop.simps) simp
  qed
qed

lemma fp_pow_power: "fp_pow a e = a ^ unat e"
  by (simp add: fp_pow_def fp_pow_loop_power)

definition fp_inv :: "fp \<Rightarrow> fp option" where
  "fp_inv a = (if a = 0 then None else Some (fp_pow a (P_u64 - 2)))"

lemma unat_P_minus_2: "unat (P_u64 - 2) = 18446744069414584319"
  by (simp add: P_u64_def)

lemma fp_pow_inverse: "a \<noteq> 0 \<Longrightarrow> fp_pow a (P_u64 - 2) * a = 1"
proof -
  assume a: "a \<noteq> 0"
  have "fp_pow a (P_u64 - 2) * a = a ^ Suc 18446744069414584319"
    by (simp only: fp_pow_power unat_P_minus_2 power_Suc2)
  also have "Suc 18446744069414584319 = 18446744069414584320" by simp
  finally show ?thesis using fp_fermat [OF a] by simp
qed

instantiation fp :: field
begin

definition inverse_fp :: "fp \<Rightarrow> fp" where
  "inverse_fp a = (if a = 0 then 0 else fp_pow a (P_u64 - 2))"

definition divide_fp :: "fp \<Rightarrow> fp \<Rightarrow> fp" where
  "divide_fp a b = a * inverse b"

instance
  by standard (simp_all add: inverse_fp_def divide_fp_def fp_pow_inverse)

end

lemma fp_inv_eq: "fp_inv a = (if a = 0 then None else Some (inverse a))"
  by (simp add: fp_inv_def inverse_fp_def)


instantiation fp :: equal
begin

definition equal_fp :: "fp \<Rightarrow> fp \<Rightarrow> bool" where
  "equal_fp a b \<longleftrightarrow> fp_value a = fp_value b"

instance
  by standard (simp add: equal_fp_def fp_value_inject)

end

section \<open>Properties\<close>

text \<open>
  C39. On canonical representatives the 64-bit addition, subtraction, negation and multiplication,
  with their carries, borrows and conditional corrections, compute the canonical representative of
  the result modulo the prime; the 128-bit reduction is correct on every input.
\<close>

theorem goldilocks_arithmetic:
  assumes "uint a < gold_p" "uint b < gold_p"
  shows "uint (fp_add_u64 a b) = (uint a + uint b) mod gold_p
    \<and> uint (fp_sub_u64 a b) = (uint a - uint b) mod gold_p
    \<and> uint (fp_neg_u64 a) = (- uint a) mod gold_p
    \<and> uint (fp_mul_u64 a b) = (uint a * uint b) mod gold_p
    \<and> uint (reduce128 x) = uint x mod gold_p"
  using fp_add_value [OF assms] fp_sub_value [OF assms] fp_neg_value [OF assms(1)] fp_mul_value [of a b]
    reduce128_value [of x] by blast

theorem goldilocks_arithmetic_witness:
  "uint (fp_add_u64 18446744069414584320 5) = 4 \<and> uint (reduce128 (- 1)) = uint (- 1 :: u128) mod gold_p"
proof -
  have "uint (18446744069414584320 :: u64) < gold_p" "uint (5 :: u64) < gold_p"
    by simp_all
  from goldilocks_arithmetic [OF this, of "- 1"] show ?thesis by simp
qed

text \<open>
  Inversion by exponentiation panics exactly at zero and otherwise returns the one element whose
  product with the argument is 1; this rests on the primality of the modulus.
\<close>

theorem fp_inv_correct:
  "(fp_inv a = None \<longleftrightarrow> a = 0) \<and> (fp_inv a = Some b \<longleftrightarrow> a * b = 1)"
proof -
  have "inverse a = b \<longleftrightarrow> a * b = 1" if "a \<noteq> 0"
    using that by (metis inverse_unique right_inverse)
  then show ?thesis by (auto simp: fp_inv_eq)
qed

end
