(* ===== verification/Field_Ext.thy ===== *)
theory Field_Ext
  imports Goldilocks
begin

text \<open>
  The quadratic extension \<^verbatim>\<open>Fp2\<close> (tags, keys, challenges) and the cubic extension \<^verbatim>\<open>Fp3\<close> (the C7
  seam) of \<^verbatim>\<open>volta-field/src/lib.rs\<close>, with the operations written as in the source. Both are
  instances of the class \<open>field\<close>: 7 has no square root and 2 no cube root in the base field, so
  the norms that the inversions divide by vanish only at zero. The 24-byte codec of \<^verbatim>\<open>Fp3\<close>
  and its two errors are modelled and shown to be an exact inverse pair.
\<close>

section \<open>Non-residues of the base field\<close>

lemma fp_new_numeral: "fp_new 7 = 7" "fp_new 2 = 2" "fp_new 6 = 6"
  by (simp_all add: fp_val_inject [symmetric] fp_refine)

lemma seven_half: "(7::fp) ^ 9223372034707292160 = - 1"
proof -
  have "fp_val (7::fp) = 7" by (simp add: fp_refine)
  then have "fp_val ((7::fp) ^ 9223372034707292160) = gold_p - 1"
    by (simp only: fp_val_power seven_power_half)
  moreover have "fp_val (-1) = gold_p - 1" by (simp add: fp_refine)
  ultimately show ?thesis by (metis fp_val_inject)
qed

lemma two_third: "(2::fp) ^ 6148914689804861440 = 4294967295"
proof -
  have p96: "(2::fp) ^ 96 = - 1" and p64: "(2::fp) ^ 64 = 4294967295"
    by (simp_all add: fp_val_inject [symmetric] fp_refine)
  have e: "(6148914689804861440 :: nat) = 96 * 2 * 32025597342733653 + 64" by simp
  have "(2::fp) ^ 6148914689804861440 = ((2 ^ 96) ^ 2) ^ 32025597342733653 * 2 ^ 64"
    by (simp only: e power_mult power_add)
  also have "\<dots> = 4294967295" by (simp only: p96 p64) simp
  finally show ?thesis .
qed

lemma seven_non_square: "(t :: fp) * t \<noteq> 7"
proof
  assume e: "t * t = 7"
  then have "t \<noteq> 0" by (auto simp: fp_val_inject [symmetric] fp_refine)
  have "(7::fp) ^ 9223372034707292160 = (t ^ 2) ^ 9223372034707292160"
    using e by (simp only: power2_eq_square)
  also have "\<dots> = t ^ (2 * 9223372034707292160)" by (simp only: power_mult)
  also have "\<dots> = 1" using fp_fermat [OF \<open>t \<noteq> 0\<close>] by simp
  finally have "(- 1 :: fp) = 1" by (simp only: seven_half)
  then show False by (simp add: fp_val_inject [symmetric] fp_refine)
qed

lemma two_non_cube: "(t :: fp) * t * t \<noteq> 2"
proof
  assume e: "t * t * t = 2"
  then have "t \<noteq> 0" by (auto simp: fp_val_inject [symmetric] fp_refine)
  have "(2::fp) ^ 6148914689804861440 = (t ^ 3) ^ 6148914689804861440"
    using e by (simp only: power3_eq_cube)
  also have "\<dots> = t ^ (3 * 6148914689804861440)" by (simp only: power_mult)
  also have "\<dots> = 1" using fp_fermat [OF \<open>t \<noteq> 0\<close>] by simp
  finally have "(4294967295 :: fp) = 1" by (simp only: two_third)
  then show False by (simp add: fp_val_inject [symmetric] fp_refine)
qed

section \<open>The quadratic extension\<close>

datatype fp2 = Fp2 (fp2_c0: fp) (fp2_c1: fp)

definition W :: u64 where "W = 7"

definition fp2_from_base :: "fp \<Rightarrow> fp2" where
  "fp2_from_base x = Fp2 x 0"

definition fp2_mul_base :: "fp2 \<Rightarrow> fp \<Rightarrow> fp2" where
  "fp2_mul_base a x = Fp2 (fp2_c0 a * x) (fp2_c1 a * x)"

definition fp2_norm :: "fp2 \<Rightarrow> fp" where
  "fp2_norm a = fp2_c0 a * fp2_c0 a - fp_new W * (fp2_c1 a * fp2_c1 a)"

definition fp2_inv :: "fp2 \<Rightarrow> fp2 option" where
  "fp2_inv a = (case fp_inv (fp2_norm a) of
      None \<Rightarrow> None
    | Some n_inv \<Rightarrow> Some (Fp2 (fp2_c0 a * n_inv) ((- fp2_c1 a) * n_inv)))"

lemma fp2_norm_zero: "fp2_norm a = 0 \<Longrightarrow> a = Fp2 0 0"
proof (cases a)
  case (Fp2 x y)
  assume "fp2_norm a = 0"
  then have n: "x * x = 7 * (y * y)" by (simp add: fp2_norm_def W_def fp_new_numeral Fp2)
  have "y = 0"
  proof (rule ccontr)
    assume y: "y \<noteq> 0"
    then have "(x / y) * (x / y) = 7" using n by (simp add: field_simps)
    with seven_non_square show False by blast
  qed
  then show ?thesis using n Fp2 by simp
qed

definition fp2_add :: "fp2 \<Rightarrow> fp2 \<Rightarrow> fp2" where
  "fp2_add a b = Fp2 (fp2_c0 a + fp2_c0 b) (fp2_c1 a + fp2_c1 b)"

definition fp2_sub :: "fp2 \<Rightarrow> fp2 \<Rightarrow> fp2" where
  "fp2_sub a b = Fp2 (fp2_c0 a - fp2_c0 b) (fp2_c1 a - fp2_c1 b)"

definition fp2_mul :: "fp2 \<Rightarrow> fp2 \<Rightarrow> fp2" where
  "fp2_mul a b = Fp2 (fp2_c0 a * fp2_c0 b + fp_new W * (fp2_c1 a * fp2_c1 b))
     (fp2_c0 a * fp2_c1 b + fp2_c1 a * fp2_c0 b)"

instantiation fp2 :: field
begin

definition zero_fp2 :: fp2 where "0 = Fp2 0 0"
definition one_fp2 :: fp2 where "1 = Fp2 1 0"
definition plus_fp2 :: "fp2 \<Rightarrow> fp2 \<Rightarrow> fp2" where
  plus_fp2_op: "a + b = fp2_add a b"
definition minus_fp2 :: "fp2 \<Rightarrow> fp2 \<Rightarrow> fp2" where
  minus_fp2_op: "a - b = fp2_sub a b"
definition uminus_fp2 :: "fp2 \<Rightarrow> fp2" where
  "- a = Fp2 (- fp2_c0 a) (- fp2_c1 a)"
definition times_fp2 :: "fp2 \<Rightarrow> fp2 \<Rightarrow> fp2" where
  times_fp2_op: "a * b = fp2_mul a b"
definition inverse_fp2 :: "fp2 \<Rightarrow> fp2" where
  "inverse a = (case fp2_inv a of None \<Rightarrow> 0 | Some b \<Rightarrow> b)"
definition divide_fp2 :: "fp2 \<Rightarrow> fp2 \<Rightarrow> fp2" where
  "divide_fp2 a b = a * inverse b"

lemma plus_fp2_def: "a + b = Fp2 (fp2_c0 a + fp2_c0 b) (fp2_c1 a + fp2_c1 b)"
  by (simp only: plus_fp2_op fp2_add_def)

lemma minus_fp2_def: "a - b = Fp2 (fp2_c0 a - fp2_c0 b) (fp2_c1 a - fp2_c1 b)"
  by (simp only: minus_fp2_op fp2_sub_def)

lemma times_fp2_def: "a * b = Fp2 (fp2_c0 a * fp2_c0 b + fp_new W * (fp2_c1 a * fp2_c1 b))
     (fp2_c0 a * fp2_c1 b + fp2_c1 a * fp2_c0 b)"
  by (simp only: times_fp2_op fp2_mul_def)

lemmas fp2_op_defs = zero_fp2_def one_fp2_def plus_fp2_def minus_fp2_def uminus_fp2_def
  times_fp2_def

lemma fp2_inv_left: "a \<noteq> Fp2 0 0 \<Longrightarrow> \<exists>b. fp2_inv a = Some b \<and> b * a = Fp2 1 0"
proof (cases a)
  case (Fp2 x y)
  assume "a \<noteq> Fp2 0 0"
  then have n: "fp2_norm a \<noteq> 0" using fp2_norm_zero by blast
  then have "inverse (fp2_norm a) * (x * x - 7 * (y * y)) = 1"
    by (simp add: fp2_norm_def W_def fp_new_numeral Fp2)
  then show ?thesis using n Fp2
    by (simp add: fp2_inv_def fp_inv_eq times_fp2_def W_def fp_new_numeral algebra_simps)
qed

instance
proof
  fix a b c :: fp2
  show "a + b + c = a + (b + c)" by (simp add: fp2_op_defs)
  show "a + b = b + a" by (simp add: fp2_op_defs)
  show "0 + a = a" by (simp add: fp2_op_defs)
  show "- a + a = 0" by (simp add: fp2_op_defs)
  show "a - b = a + - b" by (simp add: fp2_op_defs)
  show "a * b * c = a * (b * c)" by (simp add: fp2_op_defs algebra_simps)
  show "a * b = b * a" by (simp add: fp2_op_defs algebra_simps)
  show "1 * a = a" by (simp add: fp2_op_defs)
  show "(a + b) * c = a * c + b * c" by (simp add: fp2_op_defs algebra_simps)
  show "(0::fp2) \<noteq> 1" by (simp add: fp2_op_defs)
  show "a \<noteq> 0 \<Longrightarrow> inverse a * a = 1"
    using fp2_inv_left [of a] by (auto simp: inverse_fp2_def zero_fp2_def one_fp2_def)
  show "a div b = a * inverse b" by (simp add: divide_fp2_def)
  show "inverse (0 :: fp2) = 0"
    by (simp add: inverse_fp2_def fp2_inv_def fp2_norm_def zero_fp2_def fp_inv_eq)
qed

end

lemma fp2_eq_iff: "a = b \<longleftrightarrow> fp2_c0 a = fp2_c0 b \<and> fp2_c1 a = fp2_c1 b"
  by (cases a; cases b) simp

lemma fp2_inv_eq: "fp2_inv a = (if a = 0 then None else Some (inverse a))"
proof (cases "a = 0")
  case True
  then show ?thesis by (simp add: fp2_inv_def fp2_norm_def zero_fp2_def fp_inv_eq)
next
  case False
  then show ?thesis using fp2_inv_left [of a] by (auto simp: zero_fp2_def inverse_fp2_def)
qed

lemma fp2_mul_base_eq: "fp2_mul_base a x = a * fp2_from_base x"
  by (simp add: fp2_mul_base_def fp2_from_base_def times_fp2_def)

lemma fp2_from_base_hom [simp]:
  "fp2_from_base 0 = 0" "fp2_from_base 1 = 1"
  "fp2_from_base (x + y) = fp2_from_base x + fp2_from_base y"
  "fp2_from_base (x - y) = fp2_from_base x - fp2_from_base y"
  "fp2_from_base (x * y) = fp2_from_base x * fp2_from_base y"
  by (simp_all add: fp2_from_base_def fp2_op_defs)

lemma fp2_from_base_inject [simp]: "fp2_from_base x = fp2_from_base y \<longleftrightarrow> x = y"
  by (simp add: fp2_from_base_def)

lemma fp2_from_base_of_nat [simp]: "fp2_from_base (of_nat n) = of_nat n"
  by (induction n) simp_all

lemma fp2_from_base_of_int [simp]: "fp2_from_base (of_int z) = of_int z"
proof (cases z)
  case (neg n)
  have "fp2_from_base (of_int z) = fp2_from_base (0 - of_nat (Suc n))" by (simp add: neg)
  also have "\<dots> = 0 - of_nat (Suc n)" by (simp only: fp2_from_base_hom fp2_from_base_of_nat)
  finally show ?thesis by (simp add: neg)
qed simp

lemma fp2_from_base_numeral [simp]: "fp2_from_base (numeral n) = numeral n"
  using fp2_from_base_of_nat [of "numeral n"] by simp

lemma fp2_from_base_power [simp]: "fp2_from_base (x ^ n) = fp2_from_base x ^ n"
  by (induction n) simp_all

lemma fp2_from_base_sum: "fp2_from_base (sum f A) = (\<Sum>i\<in>A. fp2_from_base (f i))"
  by (induction A rule: infinite_finite_induct) simp_all

section \<open>The cubic extension\<close>

datatype fp3 = Fp3 (fp3_c0: fp) (fp3_c1: fp) (fp3_c2: fp)

definition fp3_from_base :: "fp \<Rightarrow> fp3" where
  "fp3_from_base x = Fp3 x 0 0"

definition fp3_mul_base :: "fp3 \<Rightarrow> fp \<Rightarrow> fp3" where
  "fp3_mul_base a x = Fp3 (fp3_c0 a * x) (fp3_c1 a * x) (fp3_c2 a * x)"

definition fp3_numerator :: "fp3 \<Rightarrow> fp3" where
  "fp3_numerator a =
     (let two = fp_new 2 in
      Fp3 (fp3_c0 a * fp3_c0 a - two * (fp3_c1 a * fp3_c2 a))
        (two * (fp3_c2 a * fp3_c2 a) - fp3_c0 a * fp3_c1 a)
        (fp3_c1 a * fp3_c1 a - fp3_c0 a * fp3_c2 a))"

definition fp3_norm :: "fp3 \<Rightarrow> fp" where
  "fp3_norm a =
     (let two = fp_new 2; numerator = fp3_numerator a in
      fp3_c0 a * fp3_c0 numerator
        + two * (fp3_c1 a * fp3_c2 numerator + fp3_c2 a * fp3_c1 numerator))"

definition fp3_inv :: "fp3 \<Rightarrow> fp3 option" where
  "fp3_inv a = (case fp_inv (fp3_norm a) of
      None \<Rightarrow> None
    | Some n_inv \<Rightarrow> Some (fp3_mul_base (fp3_numerator a) n_inv))"

lemma fp3_numerator_zero: "fp3_numerator a = Fp3 0 0 0 \<Longrightarrow> a = Fp3 0 0 0"
proof (cases a)
  case (Fp3 x y z)
  assume "fp3_numerator a = Fp3 0 0 0"
  then have e: "x * x = 2 * (y * z)" "2 * (z * z) = x * y" "y * y = x * z"
    by (simp_all add: fp3_numerator_def Fp3 fp_new_numeral)
  have "z = 0"
  proof (rule ccontr)
    assume z: "z \<noteq> 0"
    have "y * y * y = (x * y) * z" using e(3) by (simp add: algebra_simps)
    also have "\<dots> = 2 * (z * z * z)" using e(2) [symmetric] by (simp add: algebra_simps)
    finally have "(y / z) * (y / z) * (y / z) = 2" using z by (simp add: field_simps)
    with two_non_cube show False by blast
  qed
  then show ?thesis using e Fp3 by simp
qed

lemma cubic_adjugate:
  fixes x y z :: "'a :: comm_ring_1"
  defines "n \<equiv> x * (x * x - 2 * (y * z)) + 2 * (y * (y * y - x * z) + z * (2 * (z * z) - x * y))"
  shows "(x * x - 2 * (y * z)) * (x * x - 2 * (y * z))
           - 2 * ((2 * (z * z) - x * y) * (y * y - x * z)) = x * n"
    and "2 * ((y * y - x * z) * (y * y - x * z))
           - (x * x - 2 * (y * z)) * (2 * (z * z) - x * y) = y * n"
    and "(2 * (z * z) - x * y) * (2 * (z * z) - x * y)
           - (x * x - 2 * (y * z)) * (y * y - x * z) = z * n"
  unfolding n_def by (simp_all add: algebra_simps)

lemma fp3_numerator_twice:
  "fp3_numerator (fp3_numerator a) = fp3_mul_base a (fp3_norm a)"
proof (cases a)
  case (Fp3 x y z)
  show ?thesis unfolding Fp3 fp3_numerator_def fp3_norm_def fp3_mul_base_def Let_def fp_new_numeral
    unfolding fp3.sel fp3.inject
    by (intro conjI cubic_adjugate)
qed

lemma fp3_norm_zero: "fp3_norm a = 0 \<Longrightarrow> a = Fp3 0 0 0"
proof -
  assume "fp3_norm a = 0"
  then have "fp3_numerator (fp3_numerator a) = Fp3 0 0 0"
    by (simp add: fp3_numerator_twice fp3_mul_base_def)
  then have "fp3_numerator a = Fp3 0 0 0" by (rule fp3_numerator_zero)
  then show ?thesis by (rule fp3_numerator_zero)
qed

definition fp3_add :: "fp3 \<Rightarrow> fp3 \<Rightarrow> fp3" where
  "fp3_add a b = Fp3 (fp3_c0 a + fp3_c0 b) (fp3_c1 a + fp3_c1 b) (fp3_c2 a + fp3_c2 b)"

definition fp3_sub :: "fp3 \<Rightarrow> fp3 \<Rightarrow> fp3" where
  "fp3_sub a b = Fp3 (fp3_c0 a - fp3_c0 b) (fp3_c1 a - fp3_c1 b) (fp3_c2 a - fp3_c2 b)"

definition fp3_neg :: "fp3 \<Rightarrow> fp3" where
  "fp3_neg a = fp3_sub (Fp3 0 0 0) a"

definition fp3_mul :: "fp3 \<Rightarrow> fp3 \<Rightarrow> fp3" where
  "fp3_mul a b = (let two = fp_new 2 in
      Fp3 (fp3_c0 a * fp3_c0 b + two * (fp3_c1 a * fp3_c2 b + fp3_c2 a * fp3_c1 b))
        (fp3_c0 a * fp3_c1 b + fp3_c1 a * fp3_c0 b + two * (fp3_c2 a * fp3_c2 b))
        (fp3_c0 a * fp3_c2 b + fp3_c1 a * fp3_c1 b + fp3_c2 a * fp3_c0 b))"

instantiation fp3 :: field
begin

definition zero_fp3 :: fp3 where "0 = Fp3 0 0 0"
definition one_fp3 :: fp3 where "1 = Fp3 1 0 0"
definition plus_fp3 :: "fp3 \<Rightarrow> fp3 \<Rightarrow> fp3" where
  plus_fp3_op: "a + b = fp3_add a b"
definition minus_fp3 :: "fp3 \<Rightarrow> fp3 \<Rightarrow> fp3" where
  minus_fp3_op: "a - b = fp3_sub a b"
definition uminus_fp3 :: "fp3 \<Rightarrow> fp3" where
  uminus_fp3_op: "- a = fp3_neg a"
definition times_fp3 :: "fp3 \<Rightarrow> fp3 \<Rightarrow> fp3" where
  times_fp3_op: "a * b = fp3_mul a b"
definition inverse_fp3 :: "fp3 \<Rightarrow> fp3" where
  "inverse a = (case fp3_inv a of None \<Rightarrow> 0 | Some b \<Rightarrow> b)"
definition divide_fp3 :: "fp3 \<Rightarrow> fp3 \<Rightarrow> fp3" where
  "divide_fp3 a b = a * inverse b"

lemma plus_fp3_def: "a + b = Fp3 (fp3_c0 a + fp3_c0 b) (fp3_c1 a + fp3_c1 b) (fp3_c2 a + fp3_c2 b)"
  by (simp only: plus_fp3_op fp3_add_def)

lemma minus_fp3_def: "a - b = Fp3 (fp3_c0 a - fp3_c0 b) (fp3_c1 a - fp3_c1 b) (fp3_c2 a - fp3_c2 b)"
  by (simp only: minus_fp3_op fp3_sub_def)

lemma uminus_fp3_def: "- (a :: fp3) = Fp3 0 0 0 - a"
  by (simp only: uminus_fp3_op fp3_neg_def minus_fp3_op)

lemma times_fp3_def: "a * b = (let two = fp_new 2 in
      Fp3 (fp3_c0 a * fp3_c0 b + two * (fp3_c1 a * fp3_c2 b + fp3_c2 a * fp3_c1 b))
        (fp3_c0 a * fp3_c1 b + fp3_c1 a * fp3_c0 b + two * (fp3_c2 a * fp3_c2 b))
        (fp3_c0 a * fp3_c2 b + fp3_c1 a * fp3_c1 b + fp3_c2 a * fp3_c0 b))"
  by (simp only: times_fp3_op fp3_mul_def)

lemmas fp3_op_defs = zero_fp3_def one_fp3_def plus_fp3_def minus_fp3_def uminus_fp3_def
  times_fp3_def Let_def

lemma fp3_numerator_mult: "fp3_numerator a * a = Fp3 (fp3_norm a) 0 0"
  by (cases a) (simp add: fp3_numerator_def fp3_norm_def times_fp3_def Let_def algebra_simps)

lemma fp3_mul_base_mult: "fp3_mul_base a n * b = fp3_mul_base (a * b) n"
  by (simp add: fp3_mul_base_def times_fp3_def Let_def algebra_simps)

lemma fp3_inv_left: "a \<noteq> Fp3 0 0 0 \<Longrightarrow> \<exists>b. fp3_inv a = Some b \<and> b * a = Fp3 1 0 0"
proof -
  assume "a \<noteq> Fp3 0 0 0"
  then have "fp3_norm a \<noteq> 0" using fp3_norm_zero by blast
  then show ?thesis
    by (simp add: fp3_inv_def fp_inv_eq fp3_mul_base_mult fp3_numerator_mult)
      (simp add: fp3_mul_base_def)
qed

instance
proof
  fix a b c :: fp3
  show "a + b + c = a + (b + c)" by (simp add: fp3_op_defs)
  show "a + b = b + a" by (simp add: fp3_op_defs)
  show "0 + a = a" by (simp add: fp3_op_defs)
  show "- a + a = 0" by (simp add: fp3_op_defs)
  show "a - b = a + - b" by (simp add: fp3_op_defs)
  show "a * b * c = a * (b * c)" by (simp add: fp3_op_defs algebra_simps)
  show "a * b = b * a" by (simp add: fp3_op_defs algebra_simps)
  show "1 * a = a" by (simp add: fp3_op_defs)
  show "(a + b) * c = a * c + b * c" by (simp add: fp3_op_defs algebra_simps)
  show "(0::fp3) \<noteq> 1" by (simp add: fp3_op_defs)
  show "a \<noteq> 0 \<Longrightarrow> inverse a * a = 1"
    using fp3_inv_left [of a] by (auto simp: inverse_fp3_def zero_fp3_def one_fp3_def)
  show "a div b = a * inverse b" by (simp add: divide_fp3_def)
  show "inverse (0 :: fp3) = 0"
    by (simp add: inverse_fp3_def fp3_inv_def fp3_norm_def zero_fp3_def fp_inv_eq)
qed

end

lemma fp3_eq_iff:
  "a = b \<longleftrightarrow> fp3_c0 a = fp3_c0 b \<and> fp3_c1 a = fp3_c1 b \<and> fp3_c2 a = fp3_c2 b"
  by (cases a; cases b) simp

lemma fp3_inv_eq: "fp3_inv a = (if a = 0 then None else Some (inverse a))"
proof (cases "a = 0")
  case True
  then show ?thesis by (simp add: fp3_inv_def fp3_norm_def zero_fp3_def fp_inv_eq)
next
  case False
  then show ?thesis using fp3_inv_left [of a] by (auto simp: zero_fp3_def inverse_fp3_def)
qed

lemma fp3_mul_base_eq: "fp3_mul_base a x = a * fp3_from_base x"
  by (simp add: fp3_mul_base_def fp3_from_base_def times_fp3_def)

section \<open>The codec of the cubic extension\<close>

datatype fp3_decode_error = WrongLength nat | NonCanonicalLimb nat

definition fp3_to_bytes :: "fp3 \<Rightarrow> bytes" where
  "fp3_to_bytes a = concat (map (\<lambda>limb. u64_le (fp_value limb)) [fp3_c0 a, fp3_c1 a, fp3_c2 a])"

text \<open>
  The loop over the limbs: the first limb at or above \<open>P\<close> is reported. A raw limb below \<open>P\<close> is
  stored as it is, which is what \<open>fp_new\<close> does there.
\<close>

fun fp3_read_limbs :: "bytes \<Rightarrow> nat list \<Rightarrow> fp3_decode_error + fp list" where
  "fp3_read_limbs encoded [] = Inr []"
| "fp3_read_limbs encoded (index # rest) =
     (let raw = word_of_nat (le_value (take 8 (drop (index * 8) encoded))) :: u64 in
      if P_u64 \<le> raw then Inl (NonCanonicalLimb index)
      else case fp3_read_limbs encoded rest of
          Inl e \<Rightarrow> Inl e
        | Inr limbs \<Rightarrow> Inr (fp_new raw # limbs))"

definition fp3_from_bytes :: "bytes \<Rightarrow> fp3_decode_error + fp3" where
  "fp3_from_bytes encoded =
     (if length encoded \<noteq> 24 then Inl (WrongLength (length encoded))
      else case fp3_read_limbs encoded [0, 1, 2] of
          Inl e \<Rightarrow> Inl e
        | Inr limbs \<Rightarrow> Inr (Fp3 (limbs ! 0) (limbs ! 1) (limbs ! 2)))"

lemma fp3_read_limbs_error: "fp3_read_limbs encoded is = Inl e \<Longrightarrow> \<exists>i. e = NonCanonicalLimb i"
  by (induction "is") (auto simp: Let_def split: if_splits sum.splits)

lemma not_P_le_value [simp]: "\<not> P_u64 \<le> fp_value a"
  using fp_value_less [of a] by (simp add: word_le_def del: fp_value_less)

lemma fp_value_new_canonical: "\<not> P_u64 \<le> x \<Longrightarrow> fp_value (fp_new x) = x"
  by (simp add: fp_new.rep_eq fp_new_u64_def)

lemma fp3_from_to_bytes: "fp3_from_bytes (fp3_to_bytes a) = Inr a"
  by (cases a) (simp add: fp3_from_bytes_def fp3_to_bytes_def Let_def)

lemma u64_le_of_le_value: "length bs = 8 \<Longrightarrow> u64_le (word_of_nat (le_value bs)) = bs"
  using le_value_less [of bs] le_bytes_le_value [of bs] by (simp add: unat_of_nat take_bit_eq_mod)

lemma fp3_to_from_bytes:
  assumes "fp3_from_bytes bs = Inr a"
  shows "fp3_to_bytes a = bs"
proof -
  have len: "length bs = 24" using assms by (auto simp: fp3_from_bytes_def split: if_splits)
  have "fp3_to_bytes a = take 8 bs @ take 8 (drop 8 bs) @ take 8 (drop 16 bs)"
    using assms len
    by (auto simp: fp3_from_bytes_def fp3_to_bytes_def fp_value_new_canonical u64_le_of_le_value Let_def
        split: if_splits sum.splits)
  also have "\<dots> = bs"
    using append_take_drop_id [of 8 "drop 8 bs"] append_take_drop_id [of 8 bs] len by simp
  finally show ?thesis .
qed

section \<open>Properties\<close>

text \<open>
  The inversions of the quadratic and of the cubic extension panic exactly at zero and otherwise
  return the multiplicative inverse: the norms they divide by never vanish elsewhere.
\<close>

theorem extension_inverses:
  "(fp2_inv a = Some b \<longleftrightarrow> a * b = 1) \<and> (fp2_inv a = None \<longleftrightarrow> a = 0)
   \<and> (fp3_inv c = Some d \<longleftrightarrow> c * d = 1) \<and> (fp3_inv c = None \<longleftrightarrow> c = 0)"
proof -
  have 2: "inverse a = b \<longleftrightarrow> a * b = 1" if "a \<noteq> 0"
    using that by (metis inverse_unique right_inverse)
  have 3: "inverse c = d \<longleftrightarrow> c * d = 1" if "c \<noteq> 0"
    using that by (metis inverse_unique right_inverse)
  show ?thesis using 2 3 by (auto simp: fp2_inv_eq fp3_inv_eq)
qed

text \<open>
  The 24-byte codec of the cubic extension is a bijection between the elements and the byte
  strings it accepts: decoding succeeds with an element exactly on that element's encoding, and
  on every byte string of another length it reports that length.
\<close>

theorem fp3_codec:
  "(fp3_from_bytes bs = Inr c \<longleftrightarrow> bs = fp3_to_bytes c)
   \<and> (length bs \<noteq> 24 \<longleftrightarrow> fp3_from_bytes bs = Inl (WrongLength (length bs)))"
proof -
  have "fp3_from_bytes bs \<noteq> Inl (WrongLength (length bs))" if "length bs = 24"
    using that fp3_read_limbs_error [of bs "[0, 1, 2]"]
    by (auto simp: fp3_from_bytes_def simp del: fp3_read_limbs.simps split: sum.splits)
  moreover have "fp3_from_bytes bs = Inl (WrongLength (length bs))" if "length bs \<noteq> 24"
    using that by (simp add: fp3_from_bytes_def)
  ultimately show ?thesis using fp3_from_to_bytes [of c] fp3_to_from_bytes [of bs c] by blast
qed

end
