(* ===== verification/Fp_Stream.thy ===== *)
theory Fp_Stream
  imports Field_Ext "HOL-Library.Monad_Syntax"
begin

text \<open>
  The seeded stream of field elements (\<^verbatim>\<open>FpStream\<close> of \<^verbatim>\<open>volta-field/src/lib.rs\<close>). The generator
  \<^verbatim>\<open>ChaCha8Rng\<close> belongs to the crate \<^verbatim>\<open>rand_chacha\<close>; it is a parameter of the model, a function
  \<open>chacha seed stream n\<close> giving the \<open>n\<close>-th 64-bit output of the generator with this seed and
  stream number. The rejection loop of \<^verbatim>\<open>next_fp\<close> has no bound, so it is a partial function: \<open>None\<close>
  is the loop that never returns, and the lemmas below show exactly when and with what it returns.
\<close>

type_synonym chacha = "bytes \<Rightarrow> u64 \<Rightarrow> nat \<Rightarrow> u64"

record fp_stream =
  fs_word :: "nat \<Rightarrow> u64"
  fs_pos :: nat

definition fp_stream_from_seed :: "chacha \<Rightarrow> bytes \<Rightarrow> fp_stream" where
  "fp_stream_from_seed chacha seed = \<lparr>fs_word = chacha seed 0, fs_pos = 0\<rparr>"

definition fp_stream_domain_separated :: "chacha \<Rightarrow> bytes \<Rightarrow> u64 \<Rightarrow> fp_stream" where
  "fp_stream_domain_separated chacha seed domain = \<lparr>fs_word = chacha seed domain, fs_pos = 0\<rparr>"

definition rng_gen :: "fp_stream \<Rightarrow> u64 \<times> fp_stream" where
  "rng_gen s = (fs_word s (fs_pos s), s\<lparr>fs_pos := Suc (fs_pos s)\<rparr>)"

partial_function (option) next_fp :: "fp_stream \<Rightarrow> (fp \<times> fp_stream) option" where
  "next_fp s =
     (let (x, s') = rng_gen s in
      if x < P_u64 then Some (fp_new x, s') else next_fp s')"

declare next_fp.simps [code]

definition next_fp2 :: "fp_stream \<Rightarrow> (fp2 \<times> fp_stream) option" where
  "next_fp2 s =
     do { (c0, s1) \<leftarrow> next_fp s;
          (c1, s2) \<leftarrow> next_fp s1;
          Some (Fp2 c0 c1, s2) }"

text \<open>\<^verbatim>\<open>next_bits\<close> panics when the width is not between 1 and 63.\<close>

definition next_bits :: "fp_stream \<Rightarrow> nat \<Rightarrow> (u64 \<times> fp_stream) option" where
  "next_bits s width =
     (if 1 \<le> width \<and> width \<le> 63
      then let (raw, s') = rng_gen s in Some (raw AND (push_bit width 1 - 1), s')
      else None)"

text \<open>Repeated draws, the iterator \<^verbatim>\<open>(0..n).map(|_| stream.next_fp())\<close> of the callers.\<close>

fun next_fps :: "nat \<Rightarrow> fp_stream \<Rightarrow> (fp list \<times> fp_stream) option" where
  "next_fps 0 s = Some ([], s)"
| "next_fps (Suc n) s =
     do { (x, s1) \<leftarrow> next_fp s;
          (xs, s2) \<leftarrow> next_fps n s1;
          Some (x # xs, s2) }"

fun next_fp2s :: "nat \<Rightarrow> fp_stream \<Rightarrow> (fp2 list \<times> fp_stream) option" where
  "next_fp2s 0 s = Some ([], s)"
| "next_fp2s (Suc n) s =
     do { (x, s1) \<leftarrow> next_fp2 s;
          (xs, s2) \<leftarrow> next_fp2s n s1;
          Some (x # xs, s2) }"

section \<open>The rejection loop\<close>

lemma next_fp_accept: "fs_word s (fs_pos s) < P_u64 \<Longrightarrow>
    next_fp s = Some (fp_new (fs_word s (fs_pos s)), s\<lparr>fs_pos := Suc (fs_pos s)\<rparr>)"
  by (subst next_fp.simps) (simp add: rng_gen_def)

lemma next_fp_reject: "\<not> fs_word s (fs_pos s) < P_u64 \<Longrightarrow>
    next_fp s = next_fp (s\<lparr>fs_pos := Suc (fs_pos s)\<rparr>)"
  by (subst next_fp.simps) (simp add: rng_gen_def)

lemma next_fp_skip:
  assumes "\<forall>i<k. \<not> fs_word s (fs_pos s + i) < P_u64"
  shows "next_fp s = next_fp (s\<lparr>fs_pos := fs_pos s + k\<rparr>)"
  using assms
proof (induction k arbitrary: s)
  case (Suc k)
  let ?s = "s\<lparr>fs_pos := Suc (fs_pos s)\<rparr>"
  have "\<not> fs_word s (fs_pos s) < P_u64" using Suc.prems by (metis add.right_neutral zero_less_Suc)
  then have "next_fp s = next_fp ?s" by (rule next_fp_reject)
  also have "\<dots> = next_fp (?s\<lparr>fs_pos := fs_pos ?s + k\<rparr>)"
    using Suc.prems by (intro Suc.IH) auto
  finally show ?case by simp
qed simp

lemma next_fp_first:
  assumes "\<forall>i<k. \<not> fs_word s (fs_pos s + i) < P_u64" and "fs_word s (fs_pos s + k) < P_u64"
  shows "next_fp s = Some (fp_new (fs_word s (fs_pos s + k)), s\<lparr>fs_pos := Suc (fs_pos s + k)\<rparr>)"
proof -
  have "next_fp s = next_fp (s\<lparr>fs_pos := fs_pos s + k\<rparr>)" using assms(1) by (rule next_fp_skip)
  also have "\<dots> = Some (fp_new (fs_word s (fs_pos s + k)), s\<lparr>fs_pos := Suc (fs_pos s + k)\<rparr>)"
    using assms(2) by (subst next_fp_accept) simp_all
  finally show ?thesis .
qed

lemma next_fp_returns:
  assumes "\<exists>i. fs_word s (fs_pos s + i) < P_u64"
  obtains k where "\<forall>i<k. \<not> fs_word s (fs_pos s + i) < P_u64" "fs_word s (fs_pos s + k) < P_u64"
    "next_fp s = Some (fp_new (fs_word s (fs_pos s + k)), s\<lparr>fs_pos := Suc (fs_pos s + k)\<rparr>)"
proof -
  let ?ok = "\<lambda>i. fs_word s (fs_pos s + i) < P_u64"
  have "?ok (LEAST i. ?ok i)" "\<forall>i < (LEAST i. ?ok i). \<not> ?ok i"
    using assms by (auto intro: LeastI_ex dest: not_less_Least)
  then show thesis using that next_fp_first [of "LEAST i. ?ok i" s] by blast
qed

lemma next_fp_found:
  assumes "next_fp s = Some y"
  shows "\<exists>i. fs_word s (fs_pos s + i) < P_u64"
proof (rule next_fp.raw_induct [where P = "\<lambda>s y. \<exists>i. fs_word s (fs_pos s + i) < P_u64", OF _ assms])
  fix rec s y
  assume IH: "\<And>s y. rec s = Some y \<Longrightarrow> \<exists>i. fs_word s (fs_pos s + i) < P_u64"
    and r: "(let (x, s') = rng_gen s in if x < P_u64 then Some (fp_new x, s') else rec s') = Some y"
  show "\<exists>i. fs_word s (fs_pos s + i) < P_u64"
  proof (cases "fs_word s (fs_pos s) < P_u64")
    case True
    then show ?thesis by (intro exI [of _ 0]) simp
  next
    case False
    then have "rec (s\<lparr>fs_pos := Suc (fs_pos s)\<rparr>) = Some y" using r by (simp add: rng_gen_def)
    from IH [OF this] obtain i where "fs_word s (Suc (fs_pos s) + i) < P_u64" by auto
    then show ?thesis by (intro exI [of _ "Suc i"]) simp
  qed
qed

text \<open>
  A stream that goes on offering canonical words never gets stuck: draws of any length return,
  and they leave such a stream behind.
\<close>

definition fs_live :: "fp_stream \<Rightarrow> bool" where
  "fs_live s \<longleftrightarrow> (\<forall>n. \<exists>m\<ge>n. fs_word s m < P_u64)"

lemma next_fp_live:
  assumes "fs_live s"
  obtains x s' where "next_fp s = Some (x, s')" "fs_live s'" "fs_word s' = fs_word s"
proof -
  have "\<exists>i. fs_word s (fs_pos s + i) < P_u64"
    using assms unfolding fs_live_def by (metis le_Suc_ex)
  then obtain k where "next_fp s =
      Some (fp_new (fs_word s (fs_pos s + k)), s\<lparr>fs_pos := Suc (fs_pos s + k)\<rparr>)"
    by (rule next_fp_returns)
  then show thesis using assms that by (simp add: fs_live_def)
qed

lemma next_fp2_live:
  assumes "fs_live s"
  obtains x s' where "next_fp2 s = Some (x, s')" "fs_live s'" "fs_word s' = fs_word s"
  using assms by (metis (mono_tags, lifting) next_fp_live next_fp2_def bind.bind_lunit case_prod_conv)

lemma next_fps_live:
  "fs_live s \<Longrightarrow> \<exists>xs s'. next_fps n s = Some (xs, s') \<and> length xs = n \<and> fs_live s'"
proof (induction n arbitrary: s)
  case (Suc n)
  obtain x s1 where 1: "next_fp s = Some (x, s1)" "fs_live s1" using Suc.prems by (rule next_fp_live)
  then show ?case using Suc.IH [OF 1(2)] by auto
qed auto

lemma next_fp2s_live:
  "fs_live s \<Longrightarrow> \<exists>xs s'. next_fp2s n s = Some (xs, s') \<and> length xs = n \<and> fs_live s'"
proof (induction n arbitrary: s)
  case (Suc n)
  obtain x s1 where 1: "next_fp2 s = Some (x, s1)" "fs_live s1" using Suc.prems by (rule next_fp2_live)
  then show ?case using Suc.IH [OF 1(2)] by auto
qed auto

lemma next_fps_length: "next_fps n s = Some (xs, s') \<Longrightarrow> length xs = n"
  by (induction n arbitrary: s xs s') (auto split: Option.bind_splits)

lemma next_fp2s_length: "next_fp2s n s = Some (xs, s') \<Longrightarrow> length xs = n"
  by (induction n arbitrary: s xs s') (auto split: Option.bind_splits)

lemma next_bits_bound: "next_bits s width = Some (v, s') \<Longrightarrow> unat v < 2 ^ width"
proof -
  assume h: "next_bits s width = Some (v, s')"
  then have w: "width \<le> 63" and v: "v = fst (rng_gen s) AND (push_bit width 1 - 1)"
    by (auto simp: next_bits_def split: if_splits prod.splits)
  have "v = take_bit width (fst (rng_gen s))"
    unfolding v by (simp add: take_bit_eq_mask mask_eq_exp_minus_1 push_bit_eq_mult)
  then have "unat v = take_bit width (unat (fst (rng_gen s)))"
    using w by (simp add: unsigned_take_bit_eq)
  then show ?thesis by simp
qed

section \<open>Properties\<close>

text \<open>
  C40. The rejection loop returns exactly when the generator offers a word below the modulus; it
  returns the first such word as a field element and leaves the generator just behind it.
\<close>

theorem next_fp_iff:
  "next_fp s = Some (x, s') \<longleftrightarrow>
     (\<exists>k. (\<forall>i<k. \<not> fs_word s (fs_pos s + i) < P_u64) \<and> fs_word s (fs_pos s + k) < P_u64
        \<and> x = fp_new (fs_word s (fs_pos s + k)) \<and> s' = s\<lparr>fs_pos := Suc (fs_pos s + k)\<rparr>)"
    (is "_ \<longleftrightarrow> (\<exists>k. ?first k \<and> _)")
proof
  assume r: "next_fp s = Some (x, s')"
  then have "\<exists>i. fs_word s (fs_pos s + i) < P_u64" by (rule next_fp_found)
  then obtain k where "\<forall>i<k. \<not> fs_word s (fs_pos s + i) < P_u64" "fs_word s (fs_pos s + k) < P_u64"
    "next_fp s = Some (fp_new (fs_word s (fs_pos s + k)), s\<lparr>fs_pos := Suc (fs_pos s + k)\<rparr>)"
    by (rule next_fp_returns)
  then show "\<exists>k. ?first k \<and> fs_word s (fs_pos s + k) < P_u64
      \<and> x = fp_new (fs_word s (fs_pos s + k)) \<and> s' = s\<lparr>fs_pos := Suc (fs_pos s + k)\<rparr>"
    using r by (intro exI [of _ k]) simp
qed (use next_fp_first in blast)

theorem next_fp_iff_witness:
  "next_fp \<lparr>fs_word = (\<lambda>n. if n = 0 then P_u64 else 7), fs_pos = 0\<rparr>
     = Some (7, \<lparr>fs_word = (\<lambda>n. if n = 0 then P_u64 else 7), fs_pos = 2\<rparr>)"
  unfolding next_fp_iff by (intro exI [of _ 1]) (simp add: P_u64_def fp_new_numeral)

end
