(* ===== verification/Mle.thy ===== *)
theory Mle
  imports Field_Ext
begin

text \<open>
  Multilinear extensions (\<^verbatim>\<open>volta-proto/src/mle.rs\<close> and \<^verbatim>\<open>lagrange4\<close> of \<^verbatim>\<open>logup.rs\<close>), with the
  variable order of the source: bit 0 of an index belongs to the first coordinate of the point.
  The in-place fold is shown equal to the pairwise fold; folding along a point is the inner
  product with the equality table; the Lagrange weights interpolate.
\<close>

section \<open>The routines\<close>

definition eq_vec :: "fp2 list \<Rightarrow> fp2 list" where
  "eq_vec point =
     foldl (\<lambda>t ri. concat (map (\<lambda>v. let v1 = v * ri in [v - v1, v1]) t)) [1] (rev point)"

text \<open>The loop of \<^verbatim>\<open>fold_low\<close> writes its result over the table it reads.\<close>

definition fold_low :: "fp2 list \<Rightarrow> fp2 \<Rightarrow> fp2 list" where
  "fold_low v r =
     (let half = length v div 2 in
      take half
        (foldl (\<lambda>v i. let d = v ! Suc (2 * i) - v ! (2 * i) in v[i := v ! (2 * i) + d * r])
          v [0..<half]))"

fun eval_mle_loop :: "fp2 list \<Rightarrow> fp2 list \<Rightarrow> fp2 list" where
  "eval_mle_loop v [] = v"
| "eval_mle_loop v (p # ps) = eval_mle_loop (fold_low v p) ps"

definition eval_mle :: "fp2 list \<Rightarrow> fp2 list \<Rightarrow> fp2 option" where
  "eval_mle values point =
     (let size = 2 ^ length point in
      if length values \<le> size
      then Some (eval_mle_loop (values @ replicate (size - length values) 0) point ! 0)
      else None)"

definition eq_points :: "fp2 list \<Rightarrow> fp2 list \<Rightarrow> fp2" where
  "eq_points a b =
     foldl (\<lambda>acc (x, y). let xy = x * y in acc * (xy + xy - x - y + 1)) 1 (zip a b)"

definition lagrange3 :: "fp2 \<Rightarrow> fp2 list" where
  "lagrange3 r =
     (let two_inv = the (fp_inv (fp_new 2));
          r1 = r - 1;
          r2 = r - fp2_from_base (fp_new 2)
      in [fp2_mul_base (r1 * r2) two_inv, 0 - r * r2, fp2_mul_base (r * r1) two_inv])"

definition lagrange4 :: "fp2 \<Rightarrow> fp2 list" where
  "lagrange4 r =
     (let six_inv = the (fp_inv (fp_new 6));
          two_inv = the (fp_inv (fp_new 2));
          m = map (\<lambda>k. r - fp2_from_base (fp_new (word_of_nat k))) [0..<4]
      in [fp2_mul_base (m ! 1 * m ! 2 * m ! 3) (- six_inv),
          fp2_mul_base (m ! 0 * m ! 2 * m ! 3) two_inv,
          fp2_mul_base (m ! 0 * m ! 1 * m ! 3) (- two_inv),
          fp2_mul_base (m ! 0 * m ! 1 * m ! 2) six_inv])"

section \<open>Sums over pairs of entries\<close>

lemma sum_pairs:
  fixes f :: "nat \<Rightarrow> 'a :: comm_monoid_add"
  shows "(\<Sum>i<2 * n. f i) = (\<Sum>i<n. f (2 * i) + f (Suc (2 * i)))"
  by (induction n) (simp_all add: ac_simps)

lemma length_concat_pairs [simp]: "length (concat (map (\<lambda>v. [f v, g v]) xs)) = 2 * length xs"
  by (induction xs) simp_all

lemma nth_concat_pairs:
  "i < length xs \<Longrightarrow> concat (map (\<lambda>v. [f v, g v]) xs) ! (2 * i) = f (xs ! i)"
  "i < length xs \<Longrightarrow> concat (map (\<lambda>v. [f v, g v]) xs) ! Suc (2 * i) = g (xs ! i)"
proof (induction xs arbitrary: i)
  case (Cons x xs)
  { case 1 then show ?case using Cons by (cases i) simp_all }
  { case 2 then show ?case using Cons by (cases i) simp_all }
qed simp_all

section \<open>Folding\<close>

text \<open>The pairwise fold: what \<^verbatim>\<open>fold_low\<close> computes.\<close>

definition fold_pairs :: "fp2 list \<Rightarrow> fp2 \<Rightarrow> fp2 list" where
  "fold_pairs v r = map (\<lambda>i. v ! (2 * i) + (v ! Suc (2 * i) - v ! (2 * i)) * r) [0..<length v div 2]"

lemma length_fold_pairs [simp]: "length (fold_pairs v r) = length v div 2"
  by (simp add: fold_pairs_def)

lemma nth_fold_pairs: "i < length v div 2 \<Longrightarrow>
    fold_pairs v r ! i = v ! (2 * i) + (v ! Suc (2 * i) - v ! (2 * i)) * r"
  by (simp add: fold_pairs_def)

lemma fold_low_prefix:
  assumes "n \<le> length v div 2"
  shows "foldl (\<lambda>v i. let d = v ! Suc (2 * i) - v ! (2 * i) in v[i := v ! (2 * i) + d * r]) v [0..<n]
    = map (\<lambda>i. v ! (2 * i) + (v ! Suc (2 * i) - v ! (2 * i)) * r) [0..<n] @ drop n v"
    (is "foldl ?step v [0..<n] = ?pre n @ drop n v")
  using assms
proof (induction n)
  case (Suc n)
  then have n: "Suc (2 * n) < length v" by simp
  have IH: "foldl ?step v [0..<n] = ?pre n @ drop n v" using Suc by simp
  have "foldl ?step v [0..<Suc n] = ?step (foldl ?step v [0..<n]) n" by simp
  also have "\<dots> = ?step (?pre n @ drop n v) n" by (simp only: IH)
  also have "\<dots> = (?pre n @ drop n v)[n := v ! (2 * n) + (v ! Suc (2 * n) - v ! (2 * n)) * r]"
    using n by (simp add: nth_append Let_def flip: mult_2)
  also have "\<dots> = ?pre (Suc n) @ drop (Suc n) v"
  proof -
    have "drop n v = v ! n # drop (Suc n) v" using n by (simp add: Cons_nth_drop_Suc)
    then show ?thesis by (simp add: list_update_append)
  qed
  finally show ?case .
qed simp

lemma fold_low_eq: "fold_low v r = fold_pairs v r"
proof -
  have "fold_low v r = take (length v div 2)
      (map (\<lambda>i. v ! (2 * i) + (v ! Suc (2 * i) - v ! (2 * i)) * r) [0..<length v div 2]
        @ drop (length v div 2) v)"
    unfolding fold_low_def by (subst Let_def) (subst fold_low_prefix; simp)
  then show ?thesis by (simp add: fold_pairs_def)
qed

lemma fold_low_length [simp]: "length (fold_low v r) = length v div 2"
  by (simp add: fold_low_eq)

section \<open>The equality table\<close>

lemma eq_vec_Nil [simp]: "eq_vec [] = [1]"
  by (simp add: eq_vec_def)

lemma eq_vec_Cons: "eq_vec (p # ps) = concat (map (\<lambda>v. [v - v * p, v * p]) (eq_vec ps))"
  by (simp add: eq_vec_def Let_def)

lemma length_eq_vec [simp]: "length (eq_vec point) = 2 ^ length point"
  by (induction point) (simp_all add: eq_vec_Cons)

lemma nth_eq_vec_Cons:
  assumes "i < 2 ^ length ps"
  shows "eq_vec (p # ps) ! (2 * i) = eq_vec ps ! i * (1 - p)"
    and "eq_vec (p # ps) ! Suc (2 * i) = eq_vec ps ! i * p"
  using assms by (simp_all add: eq_vec_Cons nth_concat_pairs) (simp add: algebra_simps)

lemma eq_vec_nth:
  "i < 2 ^ length point \<Longrightarrow>
     eq_vec point ! i = (\<Prod>j<length point. if bit i j then point ! j else 1 - point ! j)"
proof (induction point arbitrary: i)
  case (Cons p ps)
  have k: "i div 2 < 2 ^ length ps" using Cons.prems by auto
  have "(\<Prod>j<length (p # ps). if bit i j then (p # ps) ! j else 1 - (p # ps) ! j)
      = (if odd i then p else 1 - p)
        * (\<Prod>j<length ps. if bit (i div 2) j then ps ! j else 1 - ps ! j)"
    unfolding length_Cons prod.lessThan_Suc_shift by (simp add: bit_0 bit_Suc cong: if_cong)
  also have "\<dots> = (if odd i then p else 1 - p) * eq_vec ps ! (i div 2)"
    using Cons.IH [OF k] by simp
  also have "\<dots> = eq_vec (p # ps) ! i"
  proof (cases "odd i")
    case True
    then have "i = Suc (2 * (i div 2))" by presburger
    then show ?thesis using nth_eq_vec_Cons(2) [OF k, of p] True by (metis mult.commute)
  next
    case False
    then have "i = 2 * (i div 2)" by presburger
    then show ?thesis using nth_eq_vec_Cons(1) [OF k, of p] False by (metis mult.commute)
  qed
  finally show ?case by simp
qed simp

section \<open>Evaluation is the inner product with the equality table\<close>

text \<open>The inner product of two tables, over the first \<open>n\<close> entries.\<close>

definition dot :: "nat \<Rightarrow> fp2 list \<Rightarrow> fp2 list \<Rightarrow> fp2" where
  "dot n v w = (\<Sum>i<n. v ! i * w ! i)"

lemma dot_eq_vec_fold:
  assumes "length v = 2 ^ Suc (length ps)"
  shows "dot (2 ^ Suc (length ps)) v (eq_vec (p # ps)) = dot (2 ^ length ps) (fold_low v p) (eq_vec ps)"
proof -
  let ?n = "2 ^ length ps"
  have "dot (2 * ?n) v (eq_vec (p # ps))
      = (\<Sum>i<?n. v ! (2 * i) * (eq_vec ps ! i * (1 - p)) + v ! Suc (2 * i) * (eq_vec ps ! i * p))"
    unfolding dot_def sum_pairs by (rule sum.cong) (simp_all only: nth_eq_vec_Cons lessThan_iff)
  also have "\<dots> = dot ?n (fold_low v p) (eq_vec ps)"
    unfolding dot_def using assms
    by (intro sum.cong) (simp_all add: fold_low_eq nth_fold_pairs algebra_simps)
  finally show ?thesis by simp
qed

lemma eval_mle_loop_dot:
  "length v = 2 ^ length point \<Longrightarrow> eval_mle_loop v point = [dot (2 ^ length point) v (eq_vec point)]"
proof (induction point arbitrary: v)
  case Nil
  then obtain x where "v = [x]" by (auto simp: length_Suc_conv)
  then show ?case by (simp add: dot_def)
next
  case (Cons p ps)
  then show ?case using dot_eq_vec_fold [of v ps p] by simp
qed

lemma dot_append_zero:
  assumes "length v \<le> n"
  shows "dot n (v @ replicate (n - length v) 0) w = dot (length v) v w"
proof -
  have "{..<n} = {..<length v} \<union> {length v..<n}" using assms by auto
  then have "dot n (v @ replicate (n - length v) 0) w
      = (\<Sum>i<length v. v ! i * w ! i)
        + (\<Sum>i=length v..<n. (v @ replicate (n - length v) 0) ! i * w ! i)"
    unfolding dot_def by (simp add: sum.union_disjoint nth_append Int_def)
  moreover have "(\<Sum>i=length v..<n. (v @ replicate (n - length v) 0) ! i * w ! i) = 0"
    by (intro sum.neutral) (auto simp: nth_append)
  ultimately have "dot n (v @ replicate (n - length v) 0) w = (\<Sum>i<length v. v ! i * w ! i)"
    by simp
  then show ?thesis by (simp add: dot_def)
qed

lemma eval_mle_dot:
  assumes "length values \<le> 2 ^ length point"
  shows "eval_mle values point = Some (dot (length values) values (eq_vec point))"
  using assms by (simp add: eval_mle_def Let_def eval_mle_loop_dot dot_append_zero)

lemma foldl_mult:
  "foldl (\<lambda>acc x. acc * f x) c xs = c * prod_list (map f xs)" for c :: "'a :: monoid_mult"
  by (induction xs arbitrary: c) (simp_all add: mult.assoc)

lemma eq_points_prod: "eq_points a b = (\<Prod>(x, y)\<leftarrow>zip a b. x * y + x * y - x - y + 1)"
  unfolding eq_points_def using foldl_mult [of "\<lambda>(x, y). x * y + x * y - x - y + 1" 1 "zip a b"]
  by (simp add: case_prod_unfold Let_def)

lemma eq_points_Cons:
  "eq_points (x # a) (y # b) = (x * y + x * y - x - y + 1) * eq_points a b"
  by (simp add: eq_points_prod)

text \<open>\<^verbatim>\<open>eq_points\<close> is the multilinear extension of equality: the inner product of the two tables.\<close>

lemma eq_points_dot:
  "length a = length b \<Longrightarrow> eq_points a b = dot (2 ^ length a) (eq_vec a) (eq_vec b)"
proof (induction a b rule: list_induct2)
  case Nil
  show ?case by (simp add: eq_points_def dot_def)
next
  case (Cons x a y b)
  let ?n = "2 ^ length a"
  have b: "length b = length a" using Cons by simp
  have "dot (2 * ?n) (eq_vec (x # a)) (eq_vec (y # b))
      = (\<Sum>i<?n. (eq_vec a ! i * (1 - x)) * (eq_vec b ! i * (1 - y))
                + (eq_vec a ! i * x) * (eq_vec b ! i * y))"
    unfolding dot_def sum_pairs by (rule sum.cong) (simp_all only: nth_eq_vec_Cons lessThan_iff b)
  also have "\<dots> = (x * y + x * y - x - y + 1) * dot ?n (eq_vec a) (eq_vec b)"
    unfolding dot_def sum_distrib_left by (rule sum.cong) (simp_all add: algebra_simps)
  finally show ?case using Cons.IH by (simp add: eq_points_Cons)
qed

section \<open>Lagrange weights\<close>

lemma fp_inv_small: "fp_inv 2 = Some (inverse 2)" "fp_inv 6 = Some (inverse 6)"
proof -
  have "(2 :: fp) \<noteq> 0" "(6 :: fp) \<noteq> 0" by code_simp+
  then show "fp_inv 2 = Some (inverse 2)" "fp_inv 6 = Some (inverse 6)"
    by (simp_all add: fp_inv_eq fp_new_numeral)
qed

text \<open>
  The generic interpolation identities, in any field where the divisions by 2 and 6 make sense;
  a polynomial of degree at most three is given by its coefficients.
\<close>

lemma lagrange3_field:
  fixes a0 :: "'a :: field"
  assumes "(2 :: 'a) \<noteq> 0"
  shows "(r - 1) * (r - 2) * inverse 2 * a0 + (0 - r * (r - 2)) * (a0 + a1 + a2)
      + r * (r - 1) * inverse 2 * (a0 + a1 * 2 + a2 * 2 ^ 2) = a0 + a1 * r + a2 * r ^ 2"
proof -
  have "(2 :: 'a) * 2 \<noteq> 0" using assms no_zero_divisors by blast
  then show ?thesis using assms by (simp add: field_simps power2_eq_square)
qed

lemma lagrange4_ring:
  fixes a0 :: "'a :: comm_ring_1"
  shows "(r - 1) * (r - 2) * (r - 3) * (- i) * a0
      + (r - 0) * (r - 2) * (r - 3) * (3 * i) * (a0 + a1 + a2 + a3)
      + (r - 0) * (r - 1) * (r - 3) * (- (3 * i)) * (a0 + a1 * 2 + a2 * 2 ^ 2 + a3 * 2 ^ 3)
      + (r - 0) * (r - 1) * (r - 2) * i * (a0 + a1 * 3 + a2 * 3 ^ 2 + a3 * 3 ^ 3)
    = (i * 6) * (a0 + a1 * r + a2 * r ^ 2 + a3 * r ^ 3)"
  by (simp add: algebra_simps power2_eq_square power3_eq_cube)

lemma lagrange4_field:
  fixes a0 :: "'a :: field"
  assumes "(6 :: 'a) \<noteq> 0" "(2 :: 'a) \<noteq> 0"
  shows "(r - 1) * (r - 2) * (r - 3) * (- inverse 6) * a0
      + (r - 0) * (r - 2) * (r - 3) * inverse 2 * (a0 + a1 + a2 + a3)
      + (r - 0) * (r - 1) * (r - 3) * (- inverse 2) * (a0 + a1 * 2 + a2 * 2 ^ 2 + a3 * 2 ^ 3)
      + (r - 0) * (r - 1) * (r - 2) * inverse 6 * (a0 + a1 * 3 + a2 * 3 ^ 2 + a3 * 3 ^ 3)
    = a0 + a1 * r + a2 * r ^ 2 + a3 * r ^ 3"
proof -
  have i: "inverse (2 :: 'a) = 3 * inverse 6" using assms by (simp add: divide_simps)
  show ?thesis unfolding i lagrange4_ring using assms by (simp only: left_inverse mult_1_left not_False_eq_True)
qed

lemma fp2_small_ne_0: "(2 :: fp2) \<noteq> 0" "(6 :: fp2) \<noteq> 0"
  by code_simp+

lemma fp2_from_base_inverse: "x \<noteq> 0 \<Longrightarrow> fp2_from_base (inverse x) = inverse (fp2_from_base x)"
  by (metis fp2_from_base_hom(2,5) fp2_from_base_inject inverse_unique right_inverse)

lemma fp2_from_base_inverse_small:
  "fp2_from_base (inverse 2) = inverse 2" "fp2_from_base (inverse 6) = inverse 6"
proof -
  have "(2 :: fp) \<noteq> 0" "(6 :: fp) \<noteq> 0" by code_simp+
  then show "fp2_from_base (inverse 2) = inverse 2" "fp2_from_base (inverse 6) = inverse 6"
    by (simp_all only: fp2_from_base_inverse fp2_from_base_numeral not_False_eq_True)
qed

lemma fp2_from_base_minus [simp]: "fp2_from_base (- x) = - fp2_from_base x"
  using fp2_from_base_hom(4) [of 0 x] by simp

lemma lagrange3_eq: "lagrange3 r =
    [(r - 1) * (r - 2) * inverse 2, 0 - r * (r - 2), r * (r - 1) * inverse 2]"
  unfolding lagrange3_def Let_def fp_new_numeral fp_inv_small fp2_mul_base_eq option.sel
    fp2_from_base_inverse_small fp2_from_base_numeral by simp

lemma fp_new_small: "fp_new 0 = 0" "fp_new 1 = 1" "fp_new 3 = 3"
  by (simp_all add: fp_val_inject [symmetric] fp_refine)

lemma lagrange4_eq: "lagrange4 r =
    [(r - 1) * (r - 2) * (r - 3) * (- inverse 6), (r - 0) * (r - 2) * (r - 3) * inverse 2,
     (r - 0) * (r - 1) * (r - 3) * (- inverse 2), (r - 0) * (r - 1) * (r - 2) * inverse 6]"
proof -
  have m: "map (\<lambda>k. r - fp2_from_base (fp_new (word_of_nat k))) [0..<4] = [r - 0, r - 1, r - 2, r - 3]"
    by (simp add: upt_rec fp_new_small fp_new_numeral)
  show ?thesis
    unfolding lagrange4_def Let_def m fp_new_numeral fp_inv_small fp2_mul_base_eq option.sel
      fp2_from_base_minus fp2_from_base_inverse_small by simp
qed

lemma lagrange3_interpolates:
  "lagrange3 r ! 0 * a0 + lagrange3 r ! 1 * (a0 + a1 + a2) + lagrange3 r ! 2 * (a0 + a1 * 2 + a2 * 2 ^ 2)
     = a0 + a1 * r + a2 * r ^ 2"
  using lagrange3_field [OF fp2_small_ne_0(1), of r a0 a1 a2] by (simp add: lagrange3_eq)

lemma lagrange4_interpolates:
  "lagrange4 r ! 0 * a0 + lagrange4 r ! 1 * (a0 + a1 + a2 + a3)
     + lagrange4 r ! 2 * (a0 + a1 * 2 + a2 * 2 ^ 2 + a3 * 2 ^ 3)
     + lagrange4 r ! 3 * (a0 + a1 * 3 + a2 * 3 ^ 2 + a3 * 3 ^ 3)
     = a0 + a1 * r + a2 * r ^ 2 + a3 * r ^ 3"
  using lagrange4_field [OF fp2_small_ne_0(2,1), of r a0 a1 a2 a3]
  by (simp add: lagrange4_eq eval_nat_numeral)

section \<open>Properties\<close>

text \<open>
  Evaluating a table by repeated in-place folding gives its multilinear extension: the sum, over
  the table, of each entry times the product of the coordinates or their complements that the bits
  of the index select. Missing entries count as zero, and a table too long for the point is the
  panic.
\<close>

theorem eval_mle_extension:
  "eval_mle values point =
     (if length values \<le> 2 ^ length point
      then Some (\<Sum>i<length values. values ! i *
        (\<Prod>j<length point. if bit i j then point ! j else 1 - point ! j))
      else None)"
proof -
  have "dot (length values) values (eq_vec point) = (\<Sum>i<length values. values ! i *
      (\<Prod>j<length point. if bit i j then point ! j else 1 - point ! j))"
    if "length values \<le> 2 ^ length point"
    unfolding dot_def using that by (intro sum.cong refl) (simp add: eq_vec_nth)
  then show ?thesis by (auto simp: eval_mle_dot) (simp add: eval_mle_def)
qed

text \<open>
  The Lagrange weights at three and at four nodes reproduce every polynomial of degree at most
  two, respectively three, from its values at \<open>0, 1, 2\<close>, respectively \<open>0, 1, 2, 3\<close>.
\<close>

theorem lagrange_interpolation:
  "(let f = (\<lambda>x. a0 + a1 * x + a2 * x ^ 2); w = lagrange3 r
    in w ! 0 * f 0 + w ! 1 * f 1 + w ! 2 * f 2 = f r)
   \<and> (let g = (\<lambda>x. a0 + a1 * x + a2 * x ^ 2 + a3 * x ^ 3); w = lagrange4 r
    in w ! 0 * g 0 + w ! 1 * g 1 + w ! 2 * g 2 + w ! 3 * g 3 = g r)"
  using lagrange3_interpolates [of r a0 a1 a2] lagrange4_interpolates [of r a0 a1 a2 a3]
  by (simp add: Let_def)

text \<open>
  \<^verbatim>\<open>eq_points\<close> agrees with the equality tables: on two points of the same length it is the inner
  product of their tables.
\<close>

theorem eq_points_tables:
  assumes "length a = length b"
  shows "eq_points a b = (\<Sum>i<2 ^ length a. eq_vec a ! i * eq_vec b ! i)"
  using eq_points_dot [OF assms] by (simp add: dot_def)

theorem eq_points_tables_witness:
  "eq_points [2, 3] [5, 7] = (\<Sum>i<2 ^ 2. eq_vec [2, 3] ! i * eq_vec [5, 7] ! i)"
  using eq_points_tables [of "[2, 3]" "[5, 7]"] by simp

end
