(* ===== verification/Sumcheck_Clear.thy ===== *)
theory Sumcheck_Clear
  imports Mle Fp_Stream
begin

text \<open>
  The clear product sumcheck (\<^verbatim>\<open>volta-proto/src/sumcheck_clear.rs\<close>). The prover returns the
  compressed round messages, the final evaluations and the point; the verifier replays the
  challenge stream. Both consume the stream, so both return what is left of it, and the outer
  option is the stream's rejection loop not returning. Completeness and the round-by-round
  soundness of the verifier are proved on these definitions.
\<close>

section \<open>Prover and verifier\<close>

record clear_proof =
  cp_rounds :: "(fp2 \<times> fp2) list"
  a_final :: fp2
  b_final :: fp2

text \<open>The body of one round: \<open>g(0)\<close> and \<open>g(2)\<close> accumulated over the pairs.\<close>

definition clear_round :: "fp2 list \<Rightarrow> fp2 list \<Rightarrow> fp2 \<times> fp2" where
  "clear_round a b =
     foldl (\<lambda>(g0, g2) i.
         let a0 = a ! (2 * i); a1 = a ! Suc (2 * i);
             b0 = b ! (2 * i); b1 = b ! Suc (2 * i);
             da = a1 - a0; db = b1 - b0;
             a2 = a0 + da + da; b2 = b0 + db + db
         in (g0 + a0 * b0, g2 + a2 * b2))
       (0, 0) [0..<length a div 2]"

fun prove_clear_loop ::
  "nat \<Rightarrow> fp2 list \<Rightarrow> fp2 list \<Rightarrow> fp_stream
   \<Rightarrow> ((fp2 \<times> fp2) list \<times> fp2 list \<times> fp2 list \<times> fp2 list \<times> fp_stream) option" where
  "prove_clear_loop 0 a b chal = Some ([], [], a, b, chal)"
| "prove_clear_loop (Suc n) a b chal =
     do { let g = clear_round a b;
          (r, chal) \<leftarrow> next_fp2 chal;
          (rounds, point, a', b', chal) \<leftarrow> prove_clear_loop n (fold_low a r) (fold_low b r) chal;
          Some (g # rounds, r # point, a', b', chal) }"

definition prove_clear ::
  "fp2 list \<Rightarrow> fp2 list \<Rightarrow> fp_stream \<Rightarrow> (clear_proof \<times> fp2 list \<times> fp_stream) option" where
  "prove_clear a b chal =
     (if length a = length b \<and> is_power_of_two (length a)
      then do { (rounds, point, a', b', chal) \<leftarrow> prove_clear_loop (trailing_zeros (length a)) a b chal;
                Some (\<lparr>cp_rounds = rounds, a_final = a' ! 0, b_final = b' ! 0\<rparr>, point, chal) }
      else None)"

definition clear_claim :: "fp2 \<Rightarrow> fp2 \<times> fp2 \<Rightarrow> fp2 \<Rightarrow> fp2" where
  "clear_claim claim g r =
     (let (g0, g2) = g; g1 = claim - g0; w = lagrange3 r
      in w ! 0 * g0 + w ! 1 * g1 + w ! 2 * g2)"

fun verify_clear_loop ::
  "fp2 \<Rightarrow> (fp2 \<times> fp2) list \<Rightarrow> fp_stream \<Rightarrow> (fp2 \<times> fp2 list \<times> fp_stream) option" where
  "verify_clear_loop claim [] chal = Some (claim, [], chal)"
| "verify_clear_loop claim (g # gs) chal =
     do { (r, chal) \<leftarrow> next_fp2 chal;
          (claim', point, chal) \<leftarrow> verify_clear_loop (clear_claim claim g r) gs chal;
          Some (claim', r # point, chal) }"

definition verify_clear ::
  "fp2 \<Rightarrow> clear_proof \<Rightarrow> fp_stream \<Rightarrow> (fp2 list option \<times> fp_stream) option" where
  "verify_clear claim proof chal =
     do { (claim', point, chal) \<leftarrow> verify_clear_loop claim (cp_rounds proof) chal;
          Some (if claim' = a_final proof * b_final proof then Some point else None, chal) }"

section \<open>The round polynomial\<close>

text \<open>The true round polynomial: the inner product of the tables folded at \<open>r\<close>, a quadratic in \<open>r\<close>.\<close>

abbreviation fold_dot :: "fp2 list \<Rightarrow> fp2 list \<Rightarrow> fp2 \<Rightarrow> fp2" where
  "fold_dot a b r \<equiv> dot (length a div 2) (fold_low a r) (fold_low b r)"

definition pair_sum :: "fp2 list \<Rightarrow> fp2 list \<Rightarrow> (fp2 \<Rightarrow> fp2 \<Rightarrow> fp2 \<Rightarrow> fp2 \<Rightarrow> fp2) \<Rightarrow> fp2" where
  "pair_sum a b f =
     (\<Sum>i<length a div 2. f (a ! (2 * i)) (a ! Suc (2 * i)) (b ! (2 * i)) (b ! Suc (2 * i)))"

definition quad_coeffs :: "fp2 list \<Rightarrow> fp2 list \<Rightarrow> fp2 list" where
  "quad_coeffs a b =
     [pair_sum a b (\<lambda>a0 a1 b0 b1. a0 * b0),
      pair_sum a b (\<lambda>a0 a1 b0 b1. a0 * (b1 - b0) + (a1 - a0) * b0),
      pair_sum a b (\<lambda>a0 a1 b0 b1. (a1 - a0) * (b1 - b0))]"

lemma fold_dot_quad:
  assumes "length b = length a"
  shows "fold_dot a b r = poly_eval (quad_coeffs a b) r"
proof -
  have "poly_eval (quad_coeffs a b) r = pair_sum a b (\<lambda>a0 a1 b0 b1.
      a0 * b0 + r * (a0 * (b1 - b0) + (a1 - a0) * b0 + r * ((a1 - a0) * (b1 - b0))))"
    unfolding quad_coeffs_def pair_sum_def
    by (simp only: poly_eval.simps mult_zero_right add_0_right sum_distrib_left sum.distrib [symmetric])
  also have "\<dots> = fold_dot a b r"
    unfolding pair_sum_def dot_def using assms
    by (intro sum.cong) (simp_all add: fold_low_eq nth_fold_pairs algebra_simps)
  finally show ?thesis by simp
qed

lemma foldl_pair_sum:
  "foldl (\<lambda>(x, y) i. (x + f i, y + g i)) (c, d) [0..<n] = (c + sum f {..<n}, d + sum g {..<n})"
  for c d :: "'a :: comm_monoid_add"
  by (induction n) (simp_all add: ac_simps)

lemma clear_round_eq:
  assumes "length b = length a"
  shows "clear_round a b = (fold_dot a b 0, fold_dot a b 2)"
proof -
  have "clear_round a b
      = (pair_sum a b (\<lambda>a0 a1 b0 b1. a0 * b0),
         pair_sum a b (\<lambda>a0 a1 b0 b1. (a0 + (a1 - a0) + (a1 - a0)) * (b0 + (b1 - b0) + (b1 - b0))))"
    unfolding clear_round_def Let_def foldl_pair_sum pair_sum_def by simp
  also have "\<dots> = (fold_dot a b 0, fold_dot a b 2)"
    unfolding pair_sum_def dot_def prod.inject using assms
    by (intro conjI sum.cong) (simp_all add: fold_low_eq nth_fold_pairs algebra_simps)
  finally show ?thesis .
qed

lemma fold_dot_sum:
  assumes "length b = length a" "even (length a)"
  shows "fold_dot a b 0 + fold_dot a b 1 = dot (length a) a b"
proof -
  obtain n where n: "length a = 2 * n" using assms(2) by blast
  then show ?thesis
    unfolding dot_def n sum_pairs
    using assms(1) n by (simp add: fold_low_eq nth_fold_pairs flip: sum.distrib)
qed

lemma clear_claim_poly:
  "clear_claim (a0 + (a0 + a1 + a2)) (a0, a0 + a1 * 2 + a2 * 2 ^ 2) r = a0 + a1 * r + a2 * r ^ 2"
  unfolding clear_claim_def Let_def prod.case add_diff_cancel_left' by (rule lagrange3_interpolates)

lemma clear_claim_honest:
  assumes "length b = length a" "even (length a)"
  shows "clear_claim (dot (length a) a b) (clear_round a b) r = fold_dot a b r"
proof -
  obtain a0 a1 a2 where q: "quad_coeffs a b = [a0, a1, a2]" unfolding quad_coeffs_def by blast
  have f: "fold_dot a b x = a0 + a1 * x + a2 * x ^ 2" for x
    unfolding fold_dot_quad [OF assms(1)] q by (simp add: algebra_simps power2_eq_square)
  have c: "dot (length a) a b = a0 + (a0 + a1 + a2)"
    unfolding fold_dot_sum [OF assms, symmetric] f by simp
  have m: "clear_round a b = (a0, a0 + a1 * 2 + a2 * 2 ^ 2)"
    unfolding clear_round_eq [OF assms(1)] f by simp
  show ?thesis unfolding c m clear_claim_poly f ..
qed

lemma fold_len_even: "length a = 2 ^ Suc n \<Longrightarrow> even (length a) \<and> length (fold_low a r) = 2 ^ n"
  by simp

section \<open>Completeness\<close>

lemma prove_clear_loop_complete:
  assumes "length a = 2 ^ n" "length b = 2 ^ n" "fs_live chal"
  shows "\<exists>rounds point chal'.
    prove_clear_loop n a b chal = Some (rounds, point, eval_mle_loop a point, eval_mle_loop b point, chal')
    \<and> verify_clear_loop (dot (2 ^ n) a b) rounds chal
        = Some (eval_mle_loop a point ! 0 * eval_mle_loop b point ! 0, point, chal')
    \<and> length point = n \<and> fs_live chal'"
  using assms
proof (induction n arbitrary: a b chal)
  case 0
  then show ?case by (simp add: dot_def)
next
  case (Suc n)
  obtain r s where r: "next_fp2 chal = Some (r, s)" "fs_live s"
    using Suc.prems(3) by (rule next_fp2_live)
  have "clear_claim (dot (2 ^ Suc n) a b) (clear_round a b) r = dot (2 ^ n) (fold_low a r) (fold_low b r)"
    using clear_claim_honest [of b a r] Suc.prems by simp
  moreover obtain rounds point chal' where
    "prove_clear_loop n (fold_low a r) (fold_low b r) s
      = Some (rounds, point, eval_mle_loop (fold_low a r) point, eval_mle_loop (fold_low b r) point, chal')"
    "verify_clear_loop (dot (2 ^ n) (fold_low a r) (fold_low b r)) rounds s
      = Some (eval_mle_loop (fold_low a r) point ! 0 * eval_mle_loop (fold_low b r) point ! 0, point, chal')"
    "length point = n" "fs_live chal'"
    using Suc.IH [of "fold_low a r" "fold_low b r" s] Suc.prems r(2) fold_len_even by blast
  ultimately show ?case using r(1)
    by (intro exI [of _ "clear_round a b # rounds"] exI [of _ "r # point"] exI [of _ chal']) simp
qed

lemma eval_mle_full: "length v = 2 ^ length point \<Longrightarrow> eval_mle v point = Some (eval_mle_loop v point ! 0)"
  by (simp add: eval_mle_def)

text \<open>
  C30. On tables of \<open>2\<^sup>n\<close> entries the clear prover always returns, and the verifier, run on the true
  inner product and the same challenge stream, accepts with the prover's point and leaves the
  stream in the same state; the final values are the multilinear extensions at that point.
\<close>

theorem clear_sumcheck_complete:
  assumes "length a = 2 ^ n" "length b = 2 ^ n" "fs_live chal"
  shows "\<exists>proof point chal'. prove_clear a b chal = Some (proof, point, chal')
    \<and> verify_clear (dot (2 ^ n) a b) proof chal = Some (Some point, chal')
    \<and> length point = n
    \<and> eval_mle a point = Some (a_final proof) \<and> eval_mle b point = Some (b_final proof)"
proof -
  obtain rounds point chal' where h:
    "prove_clear_loop n a b chal = Some (rounds, point, eval_mle_loop a point, eval_mle_loop b point, chal')"
    "verify_clear_loop (dot (2 ^ n) a b) rounds chal
        = Some (eval_mle_loop a point ! 0 * eval_mle_loop b point ! 0, point, chal')"
    "length point = n"
    using prove_clear_loop_complete [OF assms] by blast
  then show ?thesis using assms(1,2)
    by (simp add: prove_clear_def verify_clear_def is_power_of_two_iff eval_mle_full)
qed

theorem clear_sumcheck_complete_witness:
  "\<exists>proof point chal'. prove_clear [1, 2] [3, 4] \<lparr>fs_word = (\<lambda>_. 5), fs_pos = 0\<rparr>
        = Some (proof, point, chal')
    \<and> verify_clear (dot (2 ^ 1) [1, 2] [3, 4]) proof \<lparr>fs_word = (\<lambda>_. 5), fs_pos = 0\<rparr>
        = Some (Some point, chal')
    \<and> length point = 1
    \<and> eval_mle [1, 2] point = Some (a_final proof) \<and> eval_mle [3, 4] point = Some (b_final proof)"
  by (rule clear_sumcheck_complete) (auto simp: fs_live_def P_u64_def)

section \<open>Soundness, round by round\<close>

text \<open>The challenges that turn a wrong claim into a right one in one round.\<close>

definition bad_challenges :: "fp2 list \<Rightarrow> fp2 list \<Rightarrow> fp2 \<Rightarrow> fp2 \<times> fp2 \<Rightarrow> fp2 set" where
  "bad_challenges a b claim g = {r. clear_claim claim g r = fold_dot a b r}"

lemma clear_claim_quad:
  "\<exists>a1 a2. claim = g0 + (g0 + a1 + a2) \<and> (\<forall>r. clear_claim claim (g0, g2) r = g0 + a1 * r + a2 * r ^ 2)"
proof -
  define h where "h = (g2 - g0) * inverse 2"
  define a2 where "a2 = h - (claim - 2 * g0)"
  define a1 where "a1 = claim - 2 * g0 - a2"
  have 1: "claim = g0 + (g0 + a1 + a2)" by (simp add: a1_def)
  have "h * 2 = g2 - g0"
    unfolding h_def using fp2_small_ne_0(1)
    by (simp only: mult.assoc left_inverse mult_1_right not_False_eq_True)
  then have "g2 = g0 + h * 2" by simp
  then have 2: "g2 = g0 + a1 * 2 + a2 * 2 ^ 2" by (simp add: a1_def a2_def algebra_simps)
  show ?thesis using clear_claim_poly [of g0 a1 a2] 1 2 by metis
qed

lemma bad_challenges_card:
  assumes "length b = length a" "even (length a)" "claim \<noteq> dot (length a) a b"
  shows "finite (bad_challenges a b claim g) \<and> card (bad_challenges a b claim g) \<le> 2"
proof -
  obtain g0 g2 where g: "g = (g0, g2)" by (cases g)
  obtain a1 a2 where a: "claim = g0 + (g0 + a1 + a2)"
    "\<And>r. clear_claim claim g r = g0 + a1 * r + a2 * r ^ 2"
    using clear_claim_quad [of claim g0 g2] g by blast
  obtain b0 b1 b2 where q: "quad_coeffs a b = [b0, b1, b2]" unfolding quad_coeffs_def by blast
  let ?cs = "[g0 - b0, a1 - b1, a2 - b2]"
  have p: "poly_eval ?cs r = clear_claim claim g r - fold_dot a b r" for r
    unfolding fold_dot_quad [OF assms(1)] q a(2) by (simp add: algebra_simps power2_eq_square)
  have "clear_claim claim g 0 + clear_claim claim g 1 = claim" unfolding a(2) using a(1) by simp
  then have "poly_eval ?cs 0 + poly_eval ?cs 1 = claim - dot (length a) a b"
    unfolding p fold_dot_sum [OF assms(1,2), symmetric] by (simp add: algebra_simps)
  then have "poly_eval ?cs 0 + poly_eval ?cs 1 \<noteq> 0" using assms(3) by simp
  then have "\<exists>c \<in> set ?cs. c \<noteq> 0" using poly_eval_zero [of ?cs] by (metis add_0)
  from poly_roots_card [OF this] show ?thesis unfolding p bad_challenges_def by (simp add: eval_nat_numeral)
qed

text \<open>The verifier's claim before round \<open>i\<close>.\<close>

definition claim_before :: "fp2 \<Rightarrow> (fp2 \<times> fp2) list \<Rightarrow> fp2 list \<Rightarrow> nat \<Rightarrow> fp2" where
  "claim_before claim gs point i =
     foldl (\<lambda>c (g, r). clear_claim c g r) claim (take i (zip gs point))"

lemma claim_before_simps [simp]:
  "claim_before claim gs point 0 = claim"
  "claim_before claim (g # gs) (r # point) (Suc i) = claim_before (clear_claim claim g r) gs point i"
  by (simp_all add: claim_before_def)

lemma verify_clear_loop_length:
  "verify_clear_loop claim gs chal = Some (claim', point, chal') \<Longrightarrow> length point = length gs"
  by (induction gs arbitrary: claim chal point) (auto split: Option.bind_splits)

lemma verify_clear_loop_claim:
  "verify_clear_loop claim gs chal = Some (claim', point, chal') \<Longrightarrow> claim' = claim_before claim gs point (length gs)"
  by (induction gs arbitrary: claim chal point) (auto split: Option.bind_splits)

text \<open>A chain of claims that starts wrong and ends right meets a bad challenge, wherever the challenges come from.\<close>

lemma claim_chain_bad:
  assumes "length point = length gs" "length a = 2 ^ length gs" "length b = 2 ^ length gs"
    and "claim \<noteq> dot (length a) a b"
    and "claim_before claim gs point (length gs) = eval_mle_loop a point ! 0 * eval_mle_loop b point ! 0"
  shows "\<exists>i<length gs.
    let A = eval_mle_loop a (take i point); B = eval_mle_loop b (take i point);
        c = claim_before claim gs point i
    in point ! i \<in> bad_challenges A B c (gs ! i)
       \<and> finite (bad_challenges A B c (gs ! i)) \<and> card (bad_challenges A B c (gs ! i)) \<le> 2"
  using assms
proof (induction gs arbitrary: claim point a b)
  case Nil
  then have "length a = 1" "length b = 1" "point = []" by auto
  then show ?case using Nil.prems(4,5) by (simp add: dot_def)
next
  case (Cons g gs)
  from Cons.prems(1) obtain r pt where r: "point = r # pt" "length pt = length gs" by (auto simp: length_Suc_conv)
  show ?case
  proof (cases "clear_claim claim g r = fold_dot a b r")
    case True
    then show ?thesis using r(1) bad_challenges_card [of b a claim g] Cons.prems
      by (intro exI [of _ 0]) (simp add: Let_def bad_challenges_def)
  next
    case False
    obtain i where i: "i < length gs"
      "let A = eval_mle_loop (fold_low a r) (take i pt); B = eval_mle_loop (fold_low b r) (take i pt);
           c = claim_before (clear_claim claim g r) gs pt i
       in pt ! i \<in> bad_challenges A B c (gs ! i)
          \<and> finite (bad_challenges A B c (gs ! i)) \<and> card (bad_challenges A B c (gs ! i)) \<le> 2"
      using Cons.IH [OF r(2), of "fold_low a r" "fold_low b r"] Cons.prems r(1) False by auto
    then show ?thesis using r(1) by (intro exI [of _ "Suc i"]) (simp add: Let_def)
  qed
qed

text \<open>
  C29. If the verifier accepts a claim that is not the inner product of the tables, with final values
  that are their multilinear extensions at the point, then in some round the challenge fell into
  a set of at most two elements that the transcript before this challenge determines.
\<close>

theorem clear_sumcheck_sound:
  assumes "verify_clear claim proof chal = Some (Some point, chal')"
    and "length a = 2 ^ length (cp_rounds proof)" "length b = 2 ^ length (cp_rounds proof)"
    and "eval_mle a point = Some (a_final proof)" "eval_mle b point = Some (b_final proof)"
    and "claim \<noteq> dot (length a) a b"
  shows "\<exists>i<length (cp_rounds proof).
    let A = eval_mle_loop a (take i point); B = eval_mle_loop b (take i point);
        c = claim_before claim (cp_rounds proof) point i
    in point ! i \<in> bad_challenges A B c (cp_rounds proof ! i)
       \<and> finite (bad_challenges A B c (cp_rounds proof ! i))
       \<and> card (bad_challenges A B c (cp_rounds proof ! i)) \<le> 2"
proof -
  from assms(1) obtain claim' where l:
    "verify_clear_loop claim (cp_rounds proof) chal = Some (claim', point, chal')"
    and c: "claim' = a_final proof * b_final proof"
    by (auto simp: verify_clear_def split: Option.bind_splits if_splits)
  have "length point = length (cp_rounds proof)" using l by (rule verify_clear_loop_length)
  then have "eval_mle_loop a point ! 0 = a_final proof" "eval_mle_loop b point ! 0 = b_final proof"
    using assms by (simp_all add: eval_mle_full)
  then show ?thesis using claim_chain_bad [OF _ assms(2,3,6)] verify_clear_loop_claim [OF l] verify_clear_loop_length [OF l] c by simp
qed

text \<open>A false claim that one unlucky challenge, zero, lets through.\<close>

theorem clear_sumcheck_sound_witness:
  "0 \<in> bad_challenges [0, 0] [0, 0] 1 (0, 0) \<and> card (bad_challenges [0, 0] [0, 0] 1 (0, 0)) \<le> 2"
proof -
  let ?s = "\<lparr>fs_word = (\<lambda>_. 0), fs_pos = 0\<rparr>"
  let ?p = "\<lparr>cp_rounds = [(0, 0)], a_final = 0, b_final = 0\<rparr>"
  have n: "next_fp2 ?s = Some (0, \<lparr>fs_word = (\<lambda>_. 0), fs_pos = 2\<rparr>)"
    by (simp add: next_fp2_def next_fp_accept P_u64_def fp_new_small zero_fp2_def)
  have "verify_clear 1 ?p ?s = Some (Some [0], \<lparr>fs_word = (\<lambda>_. 0), fs_pos = 2\<rparr>)"
    by (simp add: verify_clear_def n clear_claim_def Let_def lagrange3_eq)
  moreover have "eval_mle [0, 0] [0] = Some 0" by (simp add: eval_mle_dot dot_def numeral_2_eq_2)
  ultimately show ?thesis
    using clear_sumcheck_sound [of 1 ?p ?s "[0]" _ "[0, 0]" "[0, 0]"]
    by (simp add: dot_def numeral_2_eq_2 Let_def)
qed

end
