(* ===== verification/Transcript.thy ===== *)
theory Transcript
  imports Fp_Stream
begin

text \<open>
  The protocol transcript (\<^verbatim>\<open>volta-mac/src/transcript.rs\<close>): byte accounting, the canonical move
  log, and the three sources of challenges (a private seeded stream, an interactive channel, the
  Fiat--Shamir derivation). The build without debug assertions is modelled, so there is no
  \<^verbatim>\<open>canonical_event_debug\<close> field.

  The hash functions of the crate \<^verbatim>\<open>blake3\<close> are a parameter; an incremental hasher is the byte
  string absorbed so far, since hashing the concatenation is what the crate documents. The
  interactive channel is a trait object of the caller: it is modelled by its answers as a function of
  the calls it has received, which the model records. Error strings are constructors.
\<close>

section \<open>Data\<close>

record blake3 =
  b3_hash :: "bytes \<Rightarrow> bytes"
  b3_derive :: "string \<Rightarrow> bytes \<Rightarrow> bytes"

datatype challenge_request = ReqFp | ReqFp2 | ReqBits u8

datatype challenge_response = RespFp u64 | RespFp2 u64 u64 | RespBits u64

datatype fs_profile = C41 | C62

datatype tx_error =
    ContextZero fs_profile
  | UnboundProvider u64 u64
  | ChannelError string
  | FsNoncanonical fs_profile u64
  | FsCensus fs_profile
  | FsIndexOverflow fs_profile
  | FsFpExhausted fs_profile
  | FsFp2Exhausted fs_profile
  | FpTag
  | Fp2Tag
  | BitTag
  | LengthOnlyEvents u64 string
  | NotInteractive
  | OverridesInstalled
  | OverridesNoncanonical
  | OverridesEmpty
  | OverridesAbsent
  | OverridesCensus

type_synonym channel_call = "bytes \<times> u64 \<times> challenge_request"

record channel =
  chn_calls :: "channel_call list"
  chn_challenge :: "channel_call list \<Rightarrow> string + challenge_response"
  chn_finish :: "channel_call list \<Rightarrow> bytes \<Rightarrow> nat \<Rightarrow> bytes \<Rightarrow> u64 \<Rightarrow> string + unit"

record fs_state =
  profile :: fs_profile
  context_digest :: bytes
  challenge_index :: u64

datatype challenges = Private fp_stream | Interactive channel | FiatShamir fs_state

type_synonym override_key = "u64 \<times> nat"

record transcript =
  challenges :: challenges
  tx_bytes :: "(string \<times> u64) list"
  n_messages :: u64
  canonical_moves :: bytes
  noncanonical_events :: u64
  first_noncanonical_label :: "string option"
  pending_provider_move :: bytes
  pending_semantic_bytes :: u64
  unbound_provider_bytes :: u64
  interactive_error :: "tx_error option"
  c62_overrides :: "(override_key \<times> bytes) list option"
  c62_uses :: "override_key list"

section \<open>Profiles and constructors\<close>

definition challenge_domain :: "fs_profile \<Rightarrow> string" where
  "challenge_domain p =
     (case p of C41 \<Rightarrow> ''volta-zk/c4.1/fiat-shamir/challenge/v1''
      | C62 \<Rightarrow> ''volta-zk/c6.2/fiat-shamir/challenge/v1'')"

definition C41_FIAT_SHAMIR_MAX_CHALLENGES :: u64 where
  "C41_FIAT_SHAMIR_MAX_CHALLENGES = 131072"

definition C62_FIAT_SHAMIR_MAX_CHALLENGES :: u64 where
  "C62_FIAT_SHAMIR_MAX_CHALLENGES = 131072"

definition C41_FIAT_SHAMIR_MAX_REJECTION_DRAWS_PER_LIMB :: u32 where
  "C41_FIAT_SHAMIR_MAX_REJECTION_DRAWS_PER_LIMB = 4"

definition C62_FIAT_SHAMIR_MAX_REJECTION_DRAWS_PER_LIMB :: u32 where
  "C62_FIAT_SHAMIR_MAX_REJECTION_DRAWS_PER_LIMB = 4"

definition max_challenges :: "fs_profile \<Rightarrow> u64" where
  "max_challenges p =
     (case p of C41 \<Rightarrow> C41_FIAT_SHAMIR_MAX_CHALLENGES | C62 \<Rightarrow> C62_FIAT_SHAMIR_MAX_CHALLENGES)"

definition max_rejection_draws_per_limb :: "fs_profile \<Rightarrow> u32" where
  "max_rejection_draws_per_limb p =
     (case p of C41 \<Rightarrow> C41_FIAT_SHAMIR_MAX_REJECTION_DRAWS_PER_LIMB
      | C62 \<Rightarrow> C62_FIAT_SHAMIR_MAX_REJECTION_DRAWS_PER_LIMB)"

definition moves_domain :: string where
  "moves_domain = ''volta-zk/transcript/canonical-moves/v1''"

definition fresh_transcript :: "challenges \<Rightarrow> transcript" where
  "fresh_transcript ch =
     \<lparr>challenges = ch, tx_bytes = [], n_messages = 0, canonical_moves = [],
      noncanonical_events = 0, first_noncanonical_label = None, pending_provider_move = [],
      pending_semantic_bytes = 0, unbound_provider_bytes = 0, interactive_error = None,
      c62_overrides = None, c62_uses = []\<rparr>"

definition transcript_new :: "chacha \<Rightarrow> bytes \<Rightarrow> transcript" where
  "transcript_new chacha seed = fresh_transcript (Private (fp_stream_domain_separated chacha seed (- 1)))"

definition new_interactive :: "channel \<Rightarrow> transcript" where
  "new_interactive channel = fresh_transcript (Interactive channel)"

definition new_fiat_shamir_profile :: "bytes \<Rightarrow> fs_profile \<Rightarrow> tx_error + transcript" where
  "new_fiat_shamir_profile digest p =
     (if digest = replicate 32 0 then Inl (ContextZero p)
      else Inr (fresh_transcript
        (FiatShamir \<lparr>profile = p, context_digest = digest, challenge_index = 0\<rparr>)))"

definition new_fiat_shamir :: "bytes \<Rightarrow> tx_error + transcript" where
  "new_fiat_shamir digest = new_fiat_shamir_profile digest C62"

definition new_c41_fiat_shamir :: "bytes \<Rightarrow> tx_error + transcript" where
  "new_c41_fiat_shamir digest = new_fiat_shamir_profile digest C41"

section \<open>Digest overrides\<close>

fun collect_overrides ::
  "(override_key \<times> bytes) list \<Rightarrow> (override_key \<times> bytes) list \<Rightarrow> (override_key \<times> bytes) list option" where
  "collect_overrides [] acc = Some acc"
| "collect_overrides ((key, digest) # rest) acc =
     (if snd key = 0 \<or> digest = replicate 32 0 \<or> map_of acc key \<noteq> None then None
      else collect_overrides rest ((key, digest) # acc))"

definition install_c62_subfield_digest_overrides ::
  "(override_key \<times> bytes) list \<Rightarrow> transcript \<Rightarrow> tx_error + transcript" where
  "install_c62_subfield_digest_overrides overrides tx =
     (if c62_overrides tx \<noteq> None \<or> c62_uses tx \<noteq> [] then Inl OverridesInstalled
      else case collect_overrides overrides [] of
          None \<Rightarrow> Inl OverridesNoncanonical
        | Some m \<Rightarrow> if m = [] then Inl OverridesEmpty else Inr (tx\<lparr>c62_overrides := Some m\<rparr>))"

text \<open>The map is taken out before the census is compared, so a failed census still removes it.\<close>

definition finish_c62_subfield_digest_overrides :: "transcript \<Rightarrow> (tx_error + unit) \<times> transcript" where
  "finish_c62_subfield_digest_overrides tx =
     (case c62_overrides tx of
        None \<Rightarrow> (Inl OverridesAbsent, tx)
      | Some m \<Rightarrow>
          let tx' = tx\<lparr>c62_overrides := None\<rparr> in
          if length m \<noteq> length (c62_uses tx) \<or> (\<exists>key \<in> set (map fst m). key \<notin> set (c62_uses tx))
          then (Inl OverridesCensus, tx')
          else (Inr (), tx'\<lparr>c62_uses := []\<rparr>))"

section \<open>Accounting and messages\<close>

fun ledger_add :: "string \<Rightarrow> u64 \<Rightarrow> (string \<times> u64) list \<Rightarrow> (string \<times> u64) list" where
  "ledger_add l n [] = [(l, n)]"
| "ledger_add l n ((k, v) # m) = (if k = l then (k, v + n) # m else (k, v) # ledger_add l n m)"

definition account :: "string \<Rightarrow> u64 \<Rightarrow> transcript \<Rightarrow> transcript" where
  "account label n tx =
     tx\<lparr>tx_bytes := ledger_add label n (tx_bytes tx), n_messages := n_messages tx + 1\<rparr>"

fun is_interactive_source :: "challenges \<Rightarrow> bool" where
  "is_interactive_source (Interactive _) = True"
| "is_interactive_source _ = False"

definition tx_append :: "string \<Rightarrow> u64 \<Rightarrow> transcript \<Rightarrow> transcript" where
  "tx_append label n tx =
     (let tx = account label n tx;
          tx = tx\<lparr>noncanonical_events := saturating_add (noncanonical_events tx) 1,
                  first_noncanonical_label :=
                    (case first_noncanonical_label tx of None \<Rightarrow> Some label | Some l \<Rightarrow> Some l)\<rparr>
      in if is_interactive_source (challenges tx)
         then tx\<lparr>unbound_provider_bytes := saturating_add (unbound_provider_bytes tx) n\<rparr>
         else tx)"

definition str_bytes :: "string \<Rightarrow> bytes" where
  "str_bytes s = map of_char s"

text \<open>The common event layout; a label longer than \<^verbatim>\<open>u16::MAX\<close> bytes is the \<^verbatim>\<open>expect\<close> that panics.\<close>

definition event_bytes :: "string \<Rightarrow> u64 \<Rightarrow> bytes \<Rightarrow> bytes option" where
  "event_bytes label n payload =
     (if length label < 2 ^ 16
      then Some (u16_le (word_of_nat (length label)) @ str_bytes label @ u64_le n @ payload)
      else None)"

definition absorb :: "bytes \<Rightarrow> transcript \<Rightarrow> transcript" where
  "absorb bs tx = tx\<lparr>canonical_moves := canonical_moves tx @ bs\<rparr>"

definition append_message :: "string \<Rightarrow> bytes \<Rightarrow> transcript \<Rightarrow> transcript option" where
  "append_message label message tx =
     do { let tx = account label (word_of_nat (length message)) tx;
          event \<leftarrow> event_bytes label (word_of_nat (length message)) message;
          let tx = absorb event (absorb [1] tx);
          Some (if is_interactive_source (challenges tx)
                then tx\<lparr>pending_semantic_bytes :=
                          saturating_add (pending_semantic_bytes tx) (word_of_nat (length message)),
                        pending_provider_move := pending_provider_move tx @ event\<rparr>
                else tx) }"

definition absorb_public_message :: "string \<Rightarrow> bytes \<Rightarrow> transcript \<Rightarrow> transcript option" where
  "absorb_public_message label message tx =
     do { let tx = account label 0 tx;
          event \<leftarrow> event_bytes label (word_of_nat (length message)) message;
          Some (absorb event (absorb [5] tx)) }"

definition append_message_digest :: "string \<Rightarrow> u64 \<Rightarrow> bytes \<Rightarrow> transcript \<Rightarrow> transcript option" where
  "append_message_digest label logical_bytes digest tx =
     do { let tx = account label logical_bytes tx;
          event \<leftarrow> event_bytes label logical_bytes digest;
          let tx = absorb event (absorb [2] tx);
          Some (if is_interactive_source (challenges tx)
                then tx\<lparr>pending_semantic_bytes :=
                          saturating_add (pending_semantic_bytes tx) logical_bytes,
                        pending_provider_move := pending_provider_move tx @ event\<rparr>
                else tx) }"

definition fp_bytes :: "fp \<Rightarrow> bytes" where
  "fp_bytes x = u64_le (fp_value x)"

definition fp2_bytes :: "fp2 \<Rightarrow> bytes" where
  "fp2_bytes x = fp_bytes (fp2_c0 x) @ fp_bytes (fp2_c1 x)"

definition append_fps :: "string \<Rightarrow> fp list \<Rightarrow> transcript \<Rightarrow> transcript option" where
  "append_fps label values = append_message label (concat (map fp_bytes values))"

definition append_fp2s :: "string \<Rightarrow> fp2 list \<Rightarrow> transcript \<Rightarrow> transcript option" where
  "append_fp2s label values = append_message label (concat (map fp2_bytes values))"

text \<open>The counters of the digest forms are \<^verbatim>\<open>checked\<close>: an overflow of \<^verbatim>\<open>u64\<close> panics.\<close>

definition checked_byte_count :: "nat \<Rightarrow> nat \<Rightarrow> u64 option" where
  "checked_byte_count values width =
     (if values < 2 ^ 64 \<and> values * width < 2 ^ 64 then Some (word_of_nat (values * width)) else None)"

definition append_fp2_value_slices_digest ::
  "blake3 \<Rightarrow> string \<Rightarrow> fp2 list list \<Rightarrow> transcript \<Rightarrow> transcript option" where
  "append_fp2_value_slices_digest H label slices tx =
     do { n \<leftarrow> checked_byte_count (sum_list (map length slices)) 16;
          append_message_digest label n (b3_hash H (concat (map (concat \<circ> map fp2_bytes) slices))) tx }"

text \<open>A slice is its address with its values, since the override table is keyed by the address.\<close>

type_synonym u64_slice = "u64 \<times> u64 list"

definition append_fp_value_slices_digest ::
  "blake3 \<Rightarrow> string \<Rightarrow> u64_slice list \<Rightarrow> transcript \<Rightarrow> transcript option" where
  "append_fp_value_slices_digest H label slices tx =
     (let plain =
        (if \<forall>s \<in> set slices. \<forall>v \<in> set (snd s). v < P_u64
         then do { n \<leftarrow> checked_byte_count (sum_list (map (length \<circ> snd) slices)) 8;
                   append_message_digest label n
                     (b3_hash H (concat (map (concat \<circ> map (\<lambda>v. u64_le v) \<circ> snd) slices))) tx }
         else None)
      in case (c62_overrides tx, slices) of
           (Some m, [(p, values)]) \<Rightarrow>
             (let key = (p, length values) in
              case map_of m key of
                None \<Rightarrow> plain
              | Some digest \<Rightarrow>
                  if (\<forall>v \<in> set values. v = 0) \<and> key \<notin> set (c62_uses tx)
                  then do { n \<leftarrow> checked_byte_count (length values) 8;
                            append_message_digest label n digest
                              (tx\<lparr>c62_uses := key # c62_uses tx\<rparr>) }
                  else None)
         | _ \<Rightarrow> plain)"

definition append_fp_values_digest ::
  "blake3 \<Rightarrow> string \<Rightarrow> u64_slice \<Rightarrow> transcript \<Rightarrow> transcript option" where
  "append_fp_values_digest H label values = append_fp_value_slices_digest H label [values]"

text \<open>The padding is hashed in blocks of 4096 zero bytes.\<close>

function zero_blocks :: "nat \<Rightarrow> bytes" where
  "zero_blocks remaining =
     (if remaining = 0 then []
      else let take_n = min remaining 4096
           in replicate take_n 0 @ zero_blocks (remaining - take_n))"
  by auto
termination by (relation "measure id") auto

declare zero_blocks.simps [simp del]

definition append_zero_message :: "blake3 \<Rightarrow> string \<Rightarrow> u64 \<Rightarrow> transcript \<Rightarrow> transcript option" where
  "append_zero_message H label logical_bytes =
     append_message_digest label logical_bytes (b3_hash H (zero_blocks (unat logical_bytes)))"

section \<open>Challenges\<close>

fun fallback :: "challenge_request \<Rightarrow> challenge_response" where
  "fallback ReqFp = RespFp 1"
| "fallback ReqFp2 = RespFp2 1 0"
| "fallback (ReqBits _) = RespBits 0"

fun request_bytes :: "challenge_request \<Rightarrow> bytes" where
  "request_bytes ReqFp = [1]"
| "request_bytes ReqFp2 = [2]"
| "request_bytes (ReqBits width) = [3, width]"

definition record_challenge_request :: "challenge_request \<Rightarrow> transcript \<Rightarrow> transcript" where
  "record_challenge_request req tx = absorb (request_bytes req) (absorb [3] tx)"

definition set_error :: "tx_error \<Rightarrow> transcript \<Rightarrow> transcript" where
  "set_error e tx = tx\<lparr>interactive_error := Some e\<rparr>"

definition get_or_insert_error :: "tx_error \<Rightarrow> transcript \<Rightarrow> transcript" where
  "get_or_insert_error e tx =
     (case interactive_error tx of None \<Rightarrow> set_error e tx | Some _ \<Rightarrow> tx)"

definition interactive_challenge ::
  "challenge_request \<Rightarrow> transcript \<Rightarrow> challenge_response option \<times> transcript" where
  "interactive_challenge req tx =
     (case challenges tx of
        Interactive channel \<Rightarrow>
          if interactive_error tx \<noteq> None then (Some (fallback req), tx)
          else if unbound_provider_bytes tx \<noteq> 0 \<or> noncanonical_events tx \<noteq> 0
          then (Some (fallback req),
                set_error (UnboundProvider (unbound_provider_bytes tx) (noncanonical_events tx)) tx)
          else
            let call = (pending_provider_move tx, pending_semantic_bytes tx, req);
                calls = chn_calls channel @ [call];
                tx = tx\<lparr>pending_provider_move := [], pending_semantic_bytes := 0,
                        challenges := Interactive (channel\<lparr>chn_calls := calls\<rparr>)\<rparr>
            in (case chn_challenge channel calls of
                  Inr response \<Rightarrow> (Some response, tx)
                | Inl e \<Rightarrow> (Some (fallback req), set_error (ChannelError e) tx))
      | _ \<Rightarrow> (None, tx))"

fun sample_tag :: "challenge_request \<Rightarrow> u8 \<Rightarrow> bytes" where
  "sample_tag ReqFp limb = [1, 0]"
| "sample_tag ReqFp2 limb = [2, limb]"
| "sample_tag (ReqBits width) limb = [3, width]"

definition fs_sample_u64 ::
  "blake3 \<Rightarrow> fs_profile \<Rightarrow> bytes \<Rightarrow> bytes \<Rightarrow> u64 \<Rightarrow> challenge_request \<Rightarrow> u8 \<Rightarrow> u32 \<Rightarrow> u64" where
  "fs_sample_u64 H p context transcript_digest index req limb retry =
     word_of_nat (le_value (take 8 (b3_derive H (challenge_domain p)
       (context @ transcript_digest @ u64_le index @ sample_tag req limb @ u32_le retry))))"

fun find_map :: "('a \<Rightarrow> 'b option) \<Rightarrow> 'a list \<Rightarrow> 'b option" where
  "find_map f [] = None"
| "find_map f (x # xs) = (case f x of None \<Rightarrow> find_map f xs | Some y \<Rightarrow> Some y)"

definition sample_fp :: "(u32 \<Rightarrow> u64) \<Rightarrow> u32 \<Rightarrow> u64 option" where
  "sample_fp draw retries =
     find_map (\<lambda>retry. let value = draw (word_of_nat retry) in if value < P_u64 then Some value else None)
       [0..<unat retries]"

fun response_bytes :: "challenge_response \<Rightarrow> bytes" where
  "response_bytes (RespFp v) = 1 # u64_le v"
| "response_bytes (RespFp2 c0 c1) = 2 # u64_le c0 @ u64_le c1"
| "response_bytes (RespBits v) = 3 # u64_le v"

definition record_fs_response :: "challenge_response \<Rightarrow> transcript \<Rightarrow> transcript" where
  "record_fs_response resp tx = absorb (response_bytes resp) (absorb [4] tx)"

definition fs_response ::
  "blake3 \<Rightarrow> fs_state \<Rightarrow> bytes \<Rightarrow> challenge_request \<Rightarrow> tx_error + challenge_response" where
  "fs_response H st transcript_digest req =
     (let p = profile st;
          draw = (\<lambda>limb. fs_sample_u64 H p (context_digest st) transcript_digest (challenge_index st) req limb);
          sample = (\<lambda>limb. sample_fp (draw limb) (max_rejection_draws_per_limb p))
      in case req of
           ReqFp \<Rightarrow> (case sample 0 of None \<Rightarrow> Inl (FsFpExhausted p) | Some v \<Rightarrow> Inr (RespFp v))
         | ReqFp2 \<Rightarrow>
             (case (sample 0, sample 1) of
                (Some c0, Some c1) \<Rightarrow> Inr (RespFp2 c0 c1)
              | _ \<Rightarrow> Inl (FsFp2Exhausted p))
         | ReqBits width \<Rightarrow>
             let value = draw 0 0
             in Inr (RespBits (if width = 64 then value else value AND (push_bit (unat width) 1 - 1))))"

definition fiat_shamir_challenge ::
  "blake3 \<Rightarrow> challenge_request \<Rightarrow> transcript \<Rightarrow> challenge_response option \<times> transcript" where
  "fiat_shamir_challenge H req tx =
     (case challenges tx of
        FiatShamir st \<Rightarrow>
          if noncanonical_events tx \<noteq> 0
          then (Some (fallback req),
                get_or_insert_error (FsNoncanonical (profile st) (noncanonical_events tx)) tx)
          else if interactive_error tx \<noteq> None then (Some (fallback req), tx)
          else
            let transcript_digest = b3_derive H moves_domain (canonical_moves tx) in
            if max_challenges (profile st) \<le> challenge_index st
            then (Some (fallback req), set_error (FsCensus (profile st)) tx)
            else (case checked_add (challenge_index st) 1 of
                None \<Rightarrow> (Some (fallback req), set_error (FsIndexOverflow (profile st)) tx)
              | Some next \<Rightarrow>
                  let tx = tx\<lparr>challenges := FiatShamir (st\<lparr>challenge_index := next\<rparr>)\<rparr> in
                  (case fs_response H st transcript_digest req of
                     Inl e \<Rightarrow> (Some (fallback req), set_error e tx)
                   | Inr resp \<Rightarrow> (Some resp, record_fs_response resp tx)))
      | _ \<Rightarrow> (None, tx))"

definition challenge_response_of ::
  "blake3 \<Rightarrow> challenge_request \<Rightarrow> transcript \<Rightarrow> challenge_response option \<times> transcript" where
  "challenge_response_of H req tx =
     (let tx = record_challenge_request req tx in
      case fiat_shamir_challenge H req tx of
        (Some resp, tx') \<Rightarrow> (Some resp, tx')
      | (None, tx') \<Rightarrow> interactive_challenge req tx')"

text \<open>
  The three public draws. \<open>None\<close> is a panic (\<^verbatim>\<open>unreachable!\<close>, the width assertions) or, for the
  private stream, the rejection loop not returning.
\<close>

definition challenge_fp2 :: "blake3 \<Rightarrow> transcript \<Rightarrow> (fp2 \<times> transcript) option" where
  "challenge_fp2 H tx =
     (let (resp, tx) = challenge_response_of H ReqFp2 tx in
      case resp of
        None \<Rightarrow> (case challenges tx of
            Private s \<Rightarrow> do { (x, s) \<leftarrow> next_fp2 s; Some (x, tx\<lparr>challenges := Private s\<rparr>) }
          | _ \<Rightarrow> None)
      | Some (RespFp2 a b) \<Rightarrow>
          if a < P_u64 \<and> b < P_u64 then Some (Fp2 (fp_new a) (fp_new b), tx)
          else Some (1, get_or_insert_error Fp2Tag tx)
      | Some _ \<Rightarrow> Some (1, get_or_insert_error Fp2Tag tx))"

definition challenge_fp :: "blake3 \<Rightarrow> transcript \<Rightarrow> (fp \<times> transcript) option" where
  "challenge_fp H tx =
     (let (resp, tx) = challenge_response_of H ReqFp tx in
      case resp of
        None \<Rightarrow> (case challenges tx of
            Private s \<Rightarrow> do { (x, s) \<leftarrow> next_fp s; Some (x, tx\<lparr>challenges := Private s\<rparr>) }
          | _ \<Rightarrow> None)
      | Some (RespFp v) \<Rightarrow>
          if v < P_u64 then Some (fp_new v, tx) else Some (1, get_or_insert_error FpTag tx)
      | Some _ \<Rightarrow> Some (1, get_or_insert_error FpTag tx))"

definition challenge_bits :: "blake3 \<Rightarrow> u8 \<Rightarrow> transcript \<Rightarrow> (u64 \<times> transcript) option" where
  "challenge_bits H width tx =
     (if 1 \<le> width \<and> width \<le> 64 then
        (let (resp, tx) = challenge_response_of H (ReqBits width) tx in
         case resp of
           None \<Rightarrow> (case challenges tx of
               Private s \<Rightarrow>
                 do { (x, s) \<leftarrow> next_bits s (unat width); Some (x, tx\<lparr>challenges := Private s\<rparr>) }
             | _ \<Rightarrow> None)
         | Some (RespBits v) \<Rightarrow>
             if width = 64 \<or> v < push_bit (unat width) 1 then Some (v, tx)
             else Some (0, get_or_insert_error BitTag tx)
         | Some _ \<Rightarrow> Some (0, get_or_insert_error BitTag tx))
      else None)"

section \<open>Queries\<close>

definition is_interactive :: "transcript \<Rightarrow> bool" where
  "is_interactive tx = is_interactive_source (challenges tx)"

definition is_fiat_shamir :: "transcript \<Rightarrow> bool" where
  "is_fiat_shamir tx = (case challenges tx of FiatShamir _ \<Rightarrow> True | _ \<Rightarrow> False)"

definition fiat_shamir_challenge_count :: "transcript \<Rightarrow> u64 option" where
  "fiat_shamir_challenge_count tx =
     (case challenges tx of FiatShamir st \<Rightarrow> Some (challenge_index st) | _ \<Rightarrow> None)"

definition canonical_binding_digest :: "blake3 \<Rightarrow> transcript \<Rightarrow> tx_error + bytes" where
  "canonical_binding_digest H tx =
     (case interactive_error tx of
        Some e \<Rightarrow> Inl e
      | None \<Rightarrow>
          if noncanonical_events tx \<noteq> 0
          then Inl (LengthOnlyEvents (noncanonical_events tx)
                 (case first_noncanonical_label tx of None \<Rightarrow> ''unknown'' | Some l \<Rightarrow> l))
          else Inr (b3_derive H moves_domain (canonical_moves tx)))"

definition bytes_for :: "string \<Rightarrow> transcript \<Rightarrow> u64" where
  "bytes_for label tx = (case map_of (tx_bytes tx) label of None \<Rightarrow> 0 | Some n \<Rightarrow> n)"

definition total_bytes :: "transcript \<Rightarrow> u64" where
  "total_bytes tx = sum_list (map snd (tx_bytes tx))"

definition finish_interactive :: "blake3 \<Rightarrow> bytes \<Rightarrow> transcript \<Rightarrow> (tx_error + unit) \<times> transcript" where
  "finish_interactive H payload tx =
     (case interactive_error tx of
        Some e \<Rightarrow> (Inl e, tx)
      | None \<Rightarrow>
          let pending = pending_provider_move tx;
              tx' = tx\<lparr>pending_provider_move := []\<rparr>
          in (case challenges tx of
                Interactive channel \<Rightarrow>
                  (case chn_finish channel (chn_calls channel) pending (length payload)
                      (b3_hash H payload) (total_bytes tx) of
                     Inl e \<Rightarrow> (Inl (ChannelError e), tx')
                   | Inr u \<Rightarrow> (Inr u, tx'))
              | _ \<Rightarrow> (Inl NotInteractive, tx')))"

end
