(* ===== verification/Transcript_Binding.thy ===== *)
theory Transcript_Binding
  imports Transcript
begin

text \<open>
  The transcript as a state machine: sequences of its primitive operations, the canonical events
  they log, and what the log guarantees. The log is an injective encoding, so equal binding digests
  mean equal operation sequences or a hash collision; errors are sticky; the Fiat--Shamir index never
  passes its census; every framed message reaches the interactive channel once and in order.
\<close>

section \<open>Operations\<close>

datatype tx_op =
    OpAppend string u64
  | OpMessage string bytes
  | OpPublic string bytes
  | OpDigest string u64 bytes
  | OpFp
  | OpFp2
  | OpBits u8

datatype tx_out = Done | GotFp fp | GotFp2 fp2 | GotBits u64

fun run_op :: "blake3 \<Rightarrow> tx_op \<Rightarrow> transcript \<Rightarrow> (tx_out \<times> transcript) option" where
  "run_op H (OpAppend l n) tx = Some (Done, tx_append l n tx)"
| "run_op H (OpMessage l m) tx = map_option (Pair Done) (append_message l m tx)"
| "run_op H (OpPublic l m) tx = map_option (Pair Done) (absorb_public_message l m tx)"
| "run_op H (OpDigest l n d) tx = map_option (Pair Done) (append_message_digest l n d tx)"
| "run_op H OpFp tx = map_option (apfst GotFp) (challenge_fp H tx)"
| "run_op H OpFp2 tx = map_option (apfst GotFp2) (challenge_fp2 H tx)"
| "run_op H (OpBits w) tx = map_option (apfst GotBits) (challenge_bits H w tx)"

abbreviation run_ops :: "blake3 \<Rightarrow> tx_op list \<Rightarrow> transcript \<Rightarrow> (tx_out list \<times> transcript) option" where
  "run_ops H \<equiv> run_machine (run_op H)"

text \<open>What a draw leaves behind, whichever source answers it.\<close>

definition tx_request :: "tx_op \<Rightarrow> challenge_request option" where
  "tx_request op = (case op of OpFp \<Rightarrow> Some ReqFp | OpFp2 \<Rightarrow> Some ReqFp2 | OpBits w \<Rightarrow> Some (ReqBits w) | _ \<Rightarrow> None)"

text \<open>Two transcripts that agree on everything but the recorded error and the private stream.\<close>

definition tag_error :: "challenge_request \<Rightarrow> tx_error" where
  "tag_error req = (case req of ReqFp \<Rightarrow> FpTag | ReqFp2 \<Rightarrow> Fp2Tag | ReqBits _ \<Rightarrow> BitTag)"

lemma run_op_challenge:
  assumes "run_op H op tx = Some (out, tx')" "tx_request op = Some req"
  obtains resp tx1 where "challenge_response_of H req tx = (resp, tx1)"
    and "tx' = tx1 \<or> tx' = get_or_insert_error (tag_error req) tx1
      \<or> (\<exists>s s'. challenges tx1 = Private s \<and> tx' = tx1\<lparr>challenges := Private s'\<rparr>)"
  using assms
  by (cases op)
     (auto simp: tx_request_def tag_error_def challenge_fp_def challenge_fp2_def challenge_bits_def
       split: prod.splits option.splits challenge_response.splits if_splits challenges.splits
         Option.bind_splits)

lemmas challenge_cores =
  challenge_response_of_def record_challenge_request_def fiat_shamir_challenge_def
  interactive_challenge_def record_fs_response_def absorb_def set_error_def get_or_insert_error_def
  Let_def

lemmas challenge_splits =
  challenges.splits if_splits option.splits sum.splits prod.splits

text \<open>The logged form of the framed operations: how each field changes.\<close>

definition frame :: "string \<Rightarrow> u64 \<Rightarrow> bytes \<Rightarrow> bytes" where
  "frame label n payload = u16_le (word_of_nat (length label)) @ str_bytes label @ u64_le n @ payload"

definition framed :: "u8 \<Rightarrow> bool \<Rightarrow> string \<Rightarrow> u64 \<Rightarrow> u64 \<Rightarrow> bytes \<Rightarrow> transcript \<Rightarrow> transcript" where
  "framed tag provider label charged n payload tx =
     (let tx = absorb (tag # frame label n payload) (account label charged tx)
      in if provider \<and> is_interactive_source (challenges tx)
         then tx\<lparr>pending_semantic_bytes := saturating_add (pending_semantic_bytes tx) n,
                 pending_provider_move := pending_provider_move tx @ frame label n payload\<rparr>
         else tx)"

lemma framed_ops:
  "append_message l m tx = (if length l < 2 ^ 16
     then Some (framed 1 True l (word_of_nat (length m)) (word_of_nat (length m)) m tx) else None)"
  "absorb_public_message l m tx = (if length l < 2 ^ 16
     then Some (framed 5 False l 0 (word_of_nat (length m)) m tx) else None)"
  "append_message_digest l n d tx = (if length l < 2 ^ 16 then Some (framed 2 True l n n d tx) else None)"
  by (simp_all add: append_message_def absorb_public_message_def append_message_digest_def
      event_bytes_def Let_def framed_def frame_def absorb_def account_def)

lemma framed_proj [simp]:
  "challenges (framed t pr l c n p tx) = challenges tx"
  "interactive_error (framed t pr l c n p tx) = interactive_error tx"
  "canonical_moves (framed t pr l c n p tx) = canonical_moves tx @ t # frame l n p"
  "noncanonical_events (framed t pr l c n p tx) = noncanonical_events tx"
  "pending_provider_move (framed t pr l c n p tx) = pending_provider_move tx
     @ (if pr \<and> is_interactive_source (challenges tx) then frame l n p else [])"
  "tx_bytes (framed t pr l c n p tx) = ledger_add l c (tx_bytes tx)"
  by (simp_all add: framed_def absorb_def account_def Let_def)

lemma tx_append_proj [simp]:
  "challenges (tx_append l n tx) = challenges tx"
  "interactive_error (tx_append l n tx) = interactive_error tx"
  "canonical_moves (tx_append l n tx) = canonical_moves tx"
  "noncanonical_events (tx_append l n tx) = saturating_add (noncanonical_events tx) 1"
  "pending_provider_move (tx_append l n tx) = pending_provider_move tx"
  "tx_bytes (tx_append l n tx) = ledger_add l n (tx_bytes tx)"
  by (simp_all add: tx_append_def account_def Let_def)

lemma run_op_plain:
  assumes "run_op H op tx = Some (out, tx')" "tx_request op = None"
  shows "interactive_error tx' = interactive_error tx" and "challenges tx' = challenges tx"
  using assms by (cases op; auto simp: tx_request_def framed_ops simp del: power_Suc split: if_splits)+

section \<open>Errors are sticky\<close>

lemma challenge_response_of_error:
  "challenge_response_of H req tx = (resp, tx1) \<Longrightarrow> interactive_error tx = Some e \<Longrightarrow>
     interactive_error tx1 = Some e"
  by (auto simp: challenge_cores split: challenge_splits)

lemma run_op_error:
  assumes "run_op H op tx = Some (out, tx')" "interactive_error tx = Some e"
  shows "interactive_error tx' = Some e"
proof (cases "tx_request op")
  case None
  then show ?thesis using assms run_op_plain(1) by metis
next
  case (Some req)
  then obtain resp tx1 where "challenge_response_of H req tx = (resp, tx1)"
    and "tx' = tx1 \<or> tx' = get_or_insert_error (tag_error req) tx1
      \<or> (\<exists>s s'. challenges tx1 = Private s \<and> tx' = tx1\<lparr>challenges := Private s'\<rparr>)"
    using assms(1) run_op_challenge by blast
  then show ?thesis
    using challenge_response_of_error assms(2) by (auto simp: get_or_insert_error_def)
qed

interpretation tx_sticky: machine_order "run_op H"
  "\<lambda>tx tx'. \<forall>e. interactive_error tx = Some e \<longrightarrow> interactive_error tx' = Some e"
  by unfold_locales (auto dest: run_op_error)

section \<open>The challenge census\<close>

definition fs_within :: "fs_profile \<Rightarrow> bytes \<Rightarrow> transcript \<Rightarrow> bool" where
  "fs_within p d tx \<longleftrightarrow>
     (case challenges tx of
        FiatShamir st \<Rightarrow> profile st = p \<and> context_digest st = d \<and> challenge_index st \<le> max_challenges p
      | _ \<Rightarrow> False)"

definition fs_index :: "transcript \<Rightarrow> nat" where
  "fs_index tx = (case challenges tx of FiatShamir st \<Rightarrow> unat (challenge_index st) | _ \<Rightarrow> 0)"

lemma next_index_le:
  assumes "i \<le> m" "m \<noteq> i" "checked_add i 1 = Some n"
  shows "n \<le> (m :: u64)"
proof -
  have "uint n = uint i + 1" using checked_add_Some [OF assms(3)] by simp
  moreover have "uint i \<noteq> uint m" using assms(2) by (metis word_of_int_uint)
  moreover have "uint i \<le> uint m" using assms(1) by (simp add: word_le_def)
  ultimately show ?thesis by (simp add: word_le_def)
qed

lemma checked_add_unat: "checked_add i 1 = Some n \<Longrightarrow> unat n = Suc (unat i)"
proof -
  assume "checked_add i 1 = Some n"
  then have "uint n = uint i + 1" using checked_add_Some by fastforce
  then have "nat (uint n) = Suc (nat (uint i))" by (simp add: nat_add_distrib)
  then show ?thesis by simp
qed

lemma challenge_response_of_fs:
  assumes "challenge_response_of H req tx = (resp, tx1)" "challenges tx = FiatShamir st"
  obtains "challenges tx1 = FiatShamir st" "interactive_error tx1 \<noteq> None"
  | n where "\<not> max_challenges (profile st) \<le> challenge_index st"
      "checked_add (challenge_index st) 1 = Some n"
      "challenges tx1 = FiatShamir (st\<lparr>challenge_index := n\<rparr>)"
  using assms by (auto simp: challenge_cores split: if_splits option.splits sum.splits)

lemma challenge_response_of_within:
  assumes "challenge_response_of H req tx = (resp, tx1)" "fs_within p d tx"
  shows "fs_within p d tx1 \<and> (interactive_error tx1 = None \<longrightarrow> fs_index tx1 = Suc (fs_index tx))"
proof -
  obtain st where st: "challenges tx = FiatShamir st" "profile st = p" "context_digest st = d"
    "challenge_index st \<le> max_challenges p"
    using assms(2) by (auto simp: fs_within_def split: challenges.splits)
  from assms(1) st(1) show ?thesis
  proof (cases rule: challenge_response_of_fs)
    case 1
    then show ?thesis using st by (auto simp: fs_within_def)
  next
    case (2 n)
    have "n \<le> max_challenges p"
      using next_index_le [OF _ _ 2(2), of "max_challenges p"] 2(1) st(2,4) by force
    then show ?thesis using 2(3) st checked_add_unat [OF 2(2)] by (simp add: fs_within_def fs_index_def)
  qed
qed

lemma run_op_within:
  assumes "run_op H op tx = Some (out, tx')" "fs_within p d tx"
  shows "fs_within p d tx' \<and> (interactive_error tx' = None \<longrightarrow>
    fs_index tx' = fs_index tx + (if tx_request op = None then 0 else 1))"
proof (cases "tx_request op")
  case None
  then show ?thesis using assms run_op_plain(2) by (simp add: fs_within_def fs_index_def)
next
  case (Some req)
  then obtain resp tx1 where r: "challenge_response_of H req tx = (resp, tx1)"
    and t: "tx' = tx1 \<or> tx' = get_or_insert_error (tag_error req) tx1
      \<or> (\<exists>s s'. challenges tx1 = Private s \<and> tx' = tx1\<lparr>challenges := Private s'\<rparr>)"
    using assms(1) run_op_challenge by blast
  show ?thesis using t Some challenge_response_of_within [OF r assms(2)]
    by (auto simp: fs_within_def fs_index_def get_or_insert_error_def set_error_def
        split: option.splits challenges.splits)
qed

interpretation tx_census: machine_invariant "run_op H" "fs_within p d"
  by unfold_locales (use run_op_within in blast)

lemma run_ops_index:
  assumes "run_machine (run_op H) ops tx = Some (outs, tx')" "fs_within p d tx" "interactive_error tx' = None"
  shows "fs_index tx' = fs_index tx + length (filter (\<lambda>op. tx_request op \<noteq> None) ops)"
  using assms
proof (induction ops arbitrary: tx outs)
  case (Cons op ops)
  from Cons.prems(1) obtain out tx1 outs1 where s: "run_op H op tx = Some (out, tx1)"
    "run_machine (run_op H) ops tx1 = Some (outs1, tx')" by (rule run_machine_Cons_Some)
  have "interactive_error tx1 = None" using tx_sticky.run_le [OF s(2)] Cons.prems(3) by (cases "interactive_error tx1") auto
  then show ?case
    using Cons.IH [OF s(2)] run_op_within [OF s(1) Cons.prems(2)] Cons.prems(3) by auto
qed simp

section \<open>The canonical log\<close>

datatype tx_event =
    EvMessage string bytes
  | EvDigest string u64 bytes
  | EvPublic string bytes
  | EvRequest challenge_request
  | EvResponse challenge_response

fun encode_event :: "tx_event \<Rightarrow> bytes" where
  "encode_event (EvMessage l m) = 1 # frame l (word_of_nat (length m)) m"
| "encode_event (EvDigest l n d) = 2 # frame l n d"
| "encode_event (EvPublic l m) = 5 # frame l (word_of_nat (length m)) m"
| "encode_event (EvRequest req) = 3 # request_bytes req"
| "encode_event (EvResponse resp) = 4 # response_bytes resp"

fun event_ok :: "tx_event \<Rightarrow> bool" where
  "event_ok (EvMessage l m) \<longleftrightarrow> length l < 2 ^ 16 \<and> length m < 2 ^ 64"
| "event_ok (EvDigest l n d) \<longleftrightarrow> length l < 2 ^ 16 \<and> length d = 32"
| "event_ok (EvPublic l m) \<longleftrightarrow> length l < 2 ^ 16 \<and> length m < 2 ^ 64"
| "event_ok _ \<longleftrightarrow> True"

abbreviation encode_events :: "tx_event list \<Rightarrow> bytes" where
  "encode_events evs \<equiv> concat (map encode_event evs)"

lemma str_bytes_inject [simp]: "str_bytes a = str_bytes b \<longleftrightarrow> a = b"
  by (simp add: str_bytes_def inj_map_eq_map inj_on_def)

lemma unat_of_nat_small: "n < 2 ^ LENGTH('a :: len) \<Longrightarrow> unat (word_of_nat n :: 'a word) = n"
  by (simp add: unat_of_nat take_bit_nat_eq_self)

lemma word_of_nat_small_inject:
  "m < 2 ^ LENGTH('a :: len) \<Longrightarrow> n < 2 ^ LENGTH('a) \<Longrightarrow>
     (word_of_nat m :: 'a word) = word_of_nat n \<longleftrightarrow> m = n"
  by (metis unat_of_nat_small)

lemma frame_inject:
  assumes "frame l n p @ r = frame l' n' p' @ r'" "length l < 2 ^ 16" "length l' < 2 ^ 16"
  shows "l = l' \<and> n = n' \<and> p @ r = p' @ r'"
proof -
  have "u16_le (word_of_nat (length l)) = u16_le (word_of_nat (length l'))"
    and rest: "str_bytes l @ u64_le n @ p @ r = str_bytes l' @ u64_le n' @ p' @ r'"
    using assms(1) unfolding frame_def by (simp_all add: append_eq_append_conv)
  then have "unat (word_of_nat (length l) :: u16) = unat (word_of_nat (length l') :: u16)"
    by (metis le_value_u16)
  then have "length l = length l'" using assms(2,3) by (simp add: unat_of_nat_small)
  then have "str_bytes l = str_bytes l'" and rest': "u64_le n @ p @ r = u64_le n' @ p' @ r'"
    using rest by (simp_all add: append_eq_append_conv str_bytes_def)
  then show ?thesis using rest' by (simp add: append_eq_append_conv)
qed

lemma frame_message_inject:
  assumes "frame l (word_of_nat (length m)) m @ r = frame l' (word_of_nat (length m')) m' @ r'"
    and "length l < 2 ^ 16" "length l' < 2 ^ 16" "length m < 2 ^ 64" "length m' < 2 ^ 64"
  shows "l = l' \<and> m = m' \<and> r = r'"
proof -
  have h: "l = l'" "(word_of_nat (length m) :: u64) = word_of_nat (length m')" "m @ r = m' @ r'"
    using frame_inject [OF assms(1-3)] by blast+
  have "length m = length m'" using h(2) assms(4,5) by (subst (asm) word_of_nat_small_inject) simp_all
  then show ?thesis using h by simp
qed

lemma request_bytes_inject: "request_bytes q @ r = request_bytes q' @ r' \<Longrightarrow> q = q' \<and> r = r'"
  by (cases q; cases q') auto

lemma response_bytes_inject: "response_bytes q @ r = response_bytes q' @ r' \<Longrightarrow> q = q' \<and> r = r'"
  by (cases q; cases q') (auto simp: append_eq_append_conv)

lemma encode_event_inject:
  assumes "encode_event e @ r = encode_event e' @ r'" "event_ok e" "event_ok e'"
  shows "e = e' \<and> r = r'"
proof (cases e)
  case (EvMessage l m)
  with assms show ?thesis by (cases e') (auto dest: frame_message_inject)
next
  case (EvDigest l n d)
  with assms show ?thesis by (cases e') (auto dest!: frame_inject simp: append_eq_append_conv)
next
  case (EvPublic l m)
  with assms show ?thesis by (cases e') (auto dest: frame_message_inject)
next
  case (EvRequest q)
  with assms show ?thesis by (cases e') (auto dest: request_bytes_inject)
next
  case (EvResponse q)
  with assms show ?thesis by (cases e') (auto dest: response_bytes_inject)
qed

lemma encode_event_nonempty: "encode_event e \<noteq> []"
  by (cases e) simp_all

lemma encode_events_inject:
  assumes "encode_events es = encode_events fs" "list_all event_ok es" "list_all event_ok fs"
  shows "es = fs"
  using assms
proof (induction es arbitrary: fs)
  case Nil
  then show ?case by (cases fs) (auto simp: encode_event_nonempty)
next
  case (Cons e es)
  then obtain f fs' where fs: "fs = f # fs'" by (cases fs) (auto simp: encode_event_nonempty)
  then have "e = f \<and> encode_events es = encode_events fs'"
    using Cons.prems by (intro encode_event_inject) auto
  then show ?case using Cons fs by simp
qed

text \<open>The operation an event belongs to; responses belong to the request before them.\<close>

fun event_ops :: "tx_event \<Rightarrow> tx_op list" where
  "event_ops (EvMessage l m) = [OpMessage l m]"
| "event_ops (EvDigest l n d) = [OpDigest l n d]"
| "event_ops (EvPublic l m) = [OpPublic l m]"
| "event_ops (EvRequest ReqFp) = [OpFp]"
| "event_ops (EvRequest ReqFp2) = [OpFp2]"
| "event_ops (EvRequest (ReqBits w)) = [OpBits w]"
| "event_ops (EvResponse _) = []"

text \<open>
  What the Rust types guarantee of the arguments: a slice is shorter than \<open>2\<^sup>6\<^sup>4\<close> bytes and a digest
  has 32 bytes.
\<close>

fun op_ok :: "tx_op \<Rightarrow> bool" where
  "op_ok (OpMessage l m) \<longleftrightarrow> length m < 2 ^ 64"
| "op_ok (OpPublic l m) \<longleftrightarrow> length m < 2 ^ 64"
| "op_ok (OpDigest l n d) \<longleftrightarrow> length d = 32"
| "op_ok _ \<longleftrightarrow> True"

definition is_append :: "tx_op \<Rightarrow> bool" where
  "is_append op = (case op of OpAppend _ _ \<Rightarrow> True | _ \<Rightarrow> False)"

lemma challenge_response_of_log:
  assumes "challenge_response_of H req tx = (resp, tx1)"
  shows "\<exists>rs. canonical_moves tx1 = canonical_moves tx @ encode_event (EvRequest req)
    @ encode_events (map EvResponse rs)"
  using assms
proof -
  have "canonical_moves tx1 = canonical_moves tx @ encode_event (EvRequest req)
      \<or> (\<exists>r. canonical_moves tx1 = canonical_moves tx @ encode_event (EvRequest req)
            @ encode_event (EvResponse r))"
    using assms by (auto simp: challenge_cores split: challenge_splits)
  then consider "canonical_moves tx1 = canonical_moves tx @ encode_event (EvRequest req)"
    | r where "canonical_moves tx1 = canonical_moves tx @ encode_event (EvRequest req)
            @ encode_event (EvResponse r)" by blast
  then show ?thesis
  proof cases
    case 1
    then show ?thesis by (intro exI [of _ "[]"]) simp
  next
    case (2 r)
    then show ?thesis by (intro exI [of _ "[r]"]) simp
  qed
qed

lemma get_or_insert_error_proj [simp]:
  "canonical_moves (get_or_insert_error e tx) = canonical_moves tx"
  "noncanonical_events (get_or_insert_error e tx) = noncanonical_events tx"
  "challenges (get_or_insert_error e tx) = challenges tx"
  "pending_provider_move (get_or_insert_error e tx) = pending_provider_move tx"
  "tx_bytes (get_or_insert_error e tx) = tx_bytes tx"
  by (simp_all add: get_or_insert_error_def set_error_def split: option.splits)

lemma request_event_ops: "tx_request op = Some req \<Longrightarrow> event_ops (EvRequest req) = [op]"
  by (cases op) (auto simp: tx_request_def)

lemma run_op_log:
  assumes "run_op H op tx = Some (out, tx')" "op_ok op" "\<not> is_append op"
  shows "\<exists>evs. list_all event_ok evs \<and> concat (map event_ops evs) = [op]
    \<and> canonical_moves tx' = canonical_moves tx @ encode_events evs"
proof (cases "tx_request op")
  case (Some req)
  then obtain resp tx1 where r: "challenge_response_of H req tx = (resp, tx1)"
    and "tx' = tx1 \<or> tx' = get_or_insert_error (tag_error req) tx1
      \<or> (\<exists>s s'. challenges tx1 = Private s \<and> tx' = tx1\<lparr>challenges := Private s'\<rparr>)"
    using assms(1) run_op_challenge by blast
  then have "canonical_moves tx' = canonical_moves tx1" by auto
  moreover obtain rs where "canonical_moves tx1 = canonical_moves tx @ encode_event (EvRequest req)
    @ encode_events (map EvResponse rs)" using challenge_response_of_log [OF r] by blast
  moreover have "concat (map event_ops (map EvResponse rs)) = []" "list_all event_ok (map EvResponse rs)"
    by (induction rs) simp_all
  ultimately show ?thesis using request_event_ops [OF Some]
    by (intro exI [of _ "EvRequest req # map EvResponse rs"]) auto
next
  case None
  then show ?thesis
  proof (cases op)
    case (OpMessage l m)
    then show ?thesis using assms by (intro exI [of _ "[EvMessage l m]"]) (auto simp: framed_ops split: if_splits)
  next
    case (OpPublic l m)
    then show ?thesis using assms by (intro exI [of _ "[EvPublic l m]"]) (auto simp: framed_ops split: if_splits)
  next
    case (OpDigest l n d)
    then show ?thesis using assms by (intro exI [of _ "[EvDigest l n d]"]) (auto simp: framed_ops split: if_splits)
  qed (use assms None in \<open>auto simp: is_append_def tx_request_def\<close>)
qed

lemma run_ops_log:
  assumes "run_ops H ops tx = Some (outs, tx')" "list_all op_ok ops" "\<not> list_ex is_append ops"
  shows "\<exists>evs. list_all event_ok evs \<and> concat (map event_ops evs) = ops
    \<and> canonical_moves tx' = canonical_moves tx @ encode_events evs"
  using assms
proof (induction ops arbitrary: tx outs)
  case Nil
  then show ?case by (intro exI [of _ "[]"]) simp
next
  case (Cons op ops)
  from Cons.prems(1) obtain out tx1 outs1 where s: "run_op H op tx = Some (out, tx1)"
    "run_ops H ops tx1 = Some (outs1, tx')" by (rule run_machine_Cons_Some)
  obtain e1 where e1: "list_all event_ok e1" "concat (map event_ops e1) = [op]"
    "canonical_moves tx1 = canonical_moves tx @ encode_events e1"
    using run_op_log [OF s(1)] Cons.prems by auto
  obtain e2 where e2: "list_all event_ok e2" "concat (map event_ops e2) = ops"
    "canonical_moves tx' = canonical_moves tx1 @ encode_events e2"
    using Cons.IH [OF s(2)] Cons.prems by auto
  show ?case using e1 e2 by (intro exI [of _ "e1 @ e2"]) simp
qed

text \<open>A length-only event is never forgotten, so it rules out a binding digest.\<close>

lemma saturating_add_ne_0: "saturating_add a 1 \<noteq> 0"
proof -
  have "a + 1 \<noteq> 0" if "\<not> 2 ^ 64 \<le> uint a + 1"
  proof -
    have "uint (a + 1) = uint a + 1" using that by (simp add: uint_plus_if')
    moreover have "0 \<le> uint a" by simp
    ultimately have "uint (a + 1) \<noteq> 0" by linarith
    then show ?thesis by (metis unsigned_0)
  qed
  then show ?thesis by (auto simp: saturating_add_def)
qed

lemma challenge_response_of_events:
  "challenge_response_of H req tx = (resp, tx1) \<Longrightarrow> noncanonical_events tx1 = noncanonical_events tx"
  by (auto simp: challenge_cores split: challenge_splits)

lemma run_op_events:
  assumes "run_op H op tx = Some (out, tx')"
  shows "noncanonical_events tx' =
    (if is_append op then saturating_add (noncanonical_events tx) 1 else noncanonical_events tx)"
proof (cases "tx_request op")
  case (Some req)
  then obtain resp tx1 where r: "challenge_response_of H req tx = (resp, tx1)"
    and "tx' = tx1 \<or> tx' = get_or_insert_error (tag_error req) tx1
      \<or> (\<exists>s s'. challenges tx1 = Private s \<and> tx' = tx1\<lparr>challenges := Private s'\<rparr>)"
    using assms run_op_challenge by blast
  then show ?thesis using Some challenge_response_of_events [OF r]
    by (auto simp: is_append_def tx_request_def split: tx_op.splits)
next
  case None
  then show ?thesis using assms
    by (cases op) (auto simp: is_append_def tx_request_def framed_ops split: if_splits)
qed

interpretation tx_length_only: machine_invariant "run_op H" "\<lambda>tx. noncanonical_events tx \<noteq> 0"
  by unfold_locales (auto simp: saturating_add_ne_0 dest!: run_op_events split: if_splits)

lemma run_ops_append:
  assumes "run_ops H ops tx = Some (outs, tx')" "list_ex is_append ops"
  shows "noncanonical_events tx' \<noteq> 0"
  using assms
proof (induction ops arbitrary: tx outs)
  case (Cons op ops)
  from Cons.prems(1) obtain out tx1 outs1 where s: "run_op H op tx = Some (out, tx1)"
    "run_ops H ops tx1 = Some (outs1, tx')" by (rule run_machine_Cons_Some)
  show ?case
  proof (cases "is_append op")
    case True
    then have "noncanonical_events tx1 \<noteq> 0" using run_op_events [OF s(1)] saturating_add_ne_0 by simp
    then show ?thesis using tx_length_only.run_inv [OF s(2)] by simp
  next
    case False
    then show ?thesis using Cons.IH [OF s(2)] Cons.prems(2) by simp
  qed
qed simp

section \<open>Delivery to the interactive channel\<close>

fun op_frame :: "tx_op \<Rightarrow> bytes" where
  "op_frame (OpMessage l m) = frame l (word_of_nat (length m)) m"
| "op_frame (OpDigest l n d) = frame l n d"
| "op_frame _ = []"

definition provider_stream :: "transcript \<Rightarrow> bytes option" where
  "provider_stream tx =
     (case challenges tx of
        Interactive ch \<Rightarrow> Some (concat (map fst (chn_calls ch)) @ pending_provider_move tx)
      | _ \<Rightarrow> None)"

lemma challenge_response_of_stream:
  "challenge_response_of H req tx = (resp, tx1) \<Longrightarrow> provider_stream tx = Some bs \<Longrightarrow>
     provider_stream tx1 = Some bs"
  by (auto simp: challenge_cores provider_stream_def split: challenge_splits)

lemma run_op_stream:
  assumes "run_op H op tx = Some (out, tx')" "provider_stream tx = Some bs"
  shows "provider_stream tx' = Some (bs @ op_frame op)"
proof (cases "tx_request op")
  case (Some req)
  then obtain resp tx1 where r: "challenge_response_of H req tx = (resp, tx1)"
    and t: "tx' = tx1 \<or> tx' = get_or_insert_error (tag_error req) tx1
      \<or> (\<exists>s s'. challenges tx1 = Private s \<and> tx' = tx1\<lparr>challenges := Private s'\<rparr>)"
    using assms(1) run_op_challenge by blast
  have "provider_stream tx1 = Some bs" using challenge_response_of_stream [OF r assms(2)] .
  then have "provider_stream tx' = Some bs" using t
    by (auto simp: provider_stream_def split: challenges.splits)
  moreover have "op_frame op = []" using Some by (cases op) (auto simp: tx_request_def)
  ultimately show ?thesis by simp
next
  case None
  then show ?thesis using assms
    by (cases op) (auto simp: tx_request_def framed_ops provider_stream_def split: if_splits challenges.splits)
qed

lemma run_ops_stream:
  assumes "run_ops H ops tx = Some (outs, tx')" "provider_stream tx = Some bs"
  shows "provider_stream tx' = Some (bs @ concat (map op_frame ops))"
  using assms
proof (induction ops arbitrary: tx bs outs)
  case (Cons op ops)
  from Cons.prems(1) obtain out tx1 outs1 where s: "run_op H op tx = Some (out, tx1)"
    "run_ops H ops tx1 = Some (outs1, tx')" by (rule run_machine_Cons_Some)
  show ?case using Cons.IH [OF s(2) run_op_stream [OF s(1) Cons.prems(2)]] by simp
qed simp

section \<open>Byte accounting\<close>

fun op_bytes :: "tx_op \<Rightarrow> string \<Rightarrow> u64" where
  "op_bytes (OpAppend l n) l' = (if l = l' then n else 0)"
| "op_bytes (OpMessage l m) l' = (if l = l' then word_of_nat (length m) else 0)"
| "op_bytes (OpDigest l n d) l' = (if l = l' then n else 0)"
| "op_bytes _ _ = 0"

lemma ledger_add_lookup:
  "map_of (ledger_add l n m) l' =
     (if l' = l then Some ((case map_of m l of None \<Rightarrow> 0 | Some v \<Rightarrow> v) + n) else map_of m l')"
  by (induction m) auto

lemma ledger_add_sum: "sum_list (map snd (ledger_add l n m)) = sum_list (map snd m) + n"
  by (induction m) (auto simp: ac_simps)

lemma challenge_response_of_bytes:
  "challenge_response_of H req tx = (resp, tx1) \<Longrightarrow> tx_bytes tx1 = tx_bytes tx"
  by (auto simp: challenge_cores split: challenge_splits)

lemma run_op_bytes:
  assumes "run_op H op tx = Some (out, tx')"
  shows "bytes_for l tx' = bytes_for l tx + op_bytes op l"
proof (cases "tx_request op")
  case (Some req)
  then obtain resp tx1 where r: "challenge_response_of H req tx = (resp, tx1)"
    and t: "tx' = tx1 \<or> tx' = get_or_insert_error (tag_error req) tx1
      \<or> (\<exists>s s'. challenges tx1 = Private s \<and> tx' = tx1\<lparr>challenges := Private s'\<rparr>)"
    using assms(1) run_op_challenge by blast
  have "op_bytes op l = 0" using Some by (cases op) (auto simp: tx_request_def)
  then show ?thesis using t challenge_response_of_bytes [OF r] by (auto simp: bytes_for_def)
next
  case None
  then show ?thesis using assms
    by (cases op) (auto simp: tx_request_def framed_ops bytes_for_def ledger_add_lookup split: if_splits option.splits)
qed

section \<open>The Fiat--Shamir draws\<close>

lemma find_map_Some: "find_map f xs = Some y \<Longrightarrow> \<exists>x \<in> set xs. f x = Some y"
  by (induction xs) (auto split: option.splits)

lemma sample_fp_canonical: "sample_fp draw n = Some v \<Longrightarrow> v < P_u64"
  by (auto simp: sample_fp_def Let_def dest!: find_map_Some split: if_splits)

lemma fs_challenge_Some:
  "challenges tx = FiatShamir st \<Longrightarrow> \<exists>resp tx'. challenge_response_of H req tx = (Some resp, tx')"
  by (auto simp: challenge_cores split: challenge_splits)

lemma fs_draw_returns: "challenges tx = FiatShamir st \<Longrightarrow> \<exists>x tx'. challenge_fp2 H tx = Some (x, tx')"
  using fs_challenge_Some [of tx st H ReqFp2] by (auto simp: challenge_fp2_def split: challenge_response.splits)

lemma zero_blocks_replicate: "zero_blocks n = replicate n 0"
proof (induction n rule: zero_blocks.induct)
  case (1 n)
  show ?case
  proof (cases "n = 0")
    case False
    then have "zero_blocks n = replicate (min n 4096) 0 @ replicate (n - min n 4096) 0"
      using 1 by (subst zero_blocks.simps) (simp add: Let_def)
    then show ?thesis by (simp flip: replicate_add)
  qed (simp add: zero_blocks.simps)
qed

section \<open>Properties\<close>

text \<open>
  C25. Two transcripts, started with whatever source of challenges, that report the same canonical
  binding digest have performed the same operations in the same order, with the same labels,
  payloads, digests and challenge requests, or the two move logs are a collision of the hash.
\<close>

theorem canonical_digest_binding:
  assumes "run_ops H ops (fresh_transcript c) = Some (outs, tx)"
    and "run_ops H ops' (fresh_transcript c') = Some (outs', tx')"
    and "list_all op_ok ops" "list_all op_ok ops'"
    and "canonical_binding_digest H tx = Inr d" "canonical_binding_digest H tx' = Inr d"
  shows "ops = ops' \<or> (canonical_moves tx \<noteq> canonical_moves tx'
    \<and> b3_derive H moves_domain (canonical_moves tx) = b3_derive H moves_domain (canonical_moves tx'))"
proof -
  have d: "noncanonical_events tx = 0" "noncanonical_events tx' = 0"
    "b3_derive H moves_domain (canonical_moves tx) = d" "b3_derive H moves_domain (canonical_moves tx') = d"
    using assms(5,6) by (auto simp: canonical_binding_digest_def split: option.splits if_splits)
  have "\<not> list_ex is_append ops" "\<not> list_ex is_append ops'"
    using run_ops_append assms(1,2) d(1,2) by blast+
  then obtain evs evs' where e: "list_all event_ok evs" "concat (map event_ops evs) = ops"
    "canonical_moves tx = encode_events evs"
    "list_all event_ok evs'" "concat (map event_ops evs') = ops'" "canonical_moves tx' = encode_events evs'"
    using run_ops_log [OF assms(1,3)] run_ops_log [OF assms(2,4)] by (auto simp: fresh_transcript_def)
  show ?thesis using e d encode_events_inject by metis
qed

text \<open>A small concrete run, for the witnesses: one message and one draw on a scripted channel.\<close>

definition demo_hash :: blake3 where
  "demo_hash = \<lparr>b3_hash = (\<lambda>b. b), b3_derive = (\<lambda>d b. b)\<rparr>"

definition demo_channel :: channel where
  "demo_channel = \<lparr>chn_calls = [], chn_challenge = (\<lambda>calls. Inr (RespFp2 1 0)),
     chn_finish = (\<lambda>_ _ _ _ _. Inr ())\<rparr>"

lemma demo_message:
  "run_ops demo_hash [OpMessage ''a'' [7]] (fresh_transcript c)
     = Some ([Done], framed 1 True ''a'' 1 1 [7] (fresh_transcript c))"
  "canonical_binding_digest demo_hash (framed 1 True ''a'' 1 1 [7] (fresh_transcript c))
     = Inr (1 # frame ''a'' 1 [7])"
  by (simp_all add: framed_ops canonical_binding_digest_def fresh_transcript_def demo_hash_def)

theorem canonical_digest_binding_witness:
  "\<exists>tx tx' d. run_ops demo_hash [OpMessage ''a'' [7]] (fresh_transcript (Interactive demo_channel)) = Some ([Done], tx)
    \<and> run_ops demo_hash [OpMessage ''a'' [7]] (fresh_transcript (Private \<lparr>fs_word = (\<lambda>_. 0), fs_pos = 0\<rparr>))
        = Some ([Done], tx')
    \<and> canonical_binding_digest demo_hash tx = Inr d \<and> canonical_binding_digest demo_hash tx' = Inr d
    \<and> ([OpMessage ''a'' [7]] = [OpMessage ''a'' [7]] \<or> (canonical_moves tx \<noteq> canonical_moves tx'
        \<and> b3_derive demo_hash moves_domain (canonical_moves tx) = b3_derive demo_hash moves_domain (canonical_moves tx')))"
proof -
  let ?c = "Interactive demo_channel" and ?c' = "Private \<lparr>fs_word = (\<lambda>_. 0), fs_pos = 0\<rparr>"
  show ?thesis
    using canonical_digest_binding [OF demo_message(1) [of ?c] demo_message(1) [of ?c'] _ _
        demo_message(2) [of ?c] demo_message(2) [of ?c']] demo_message [of ?c] demo_message [of ?c']
    by (intro exI conjI) (assumption | simp)+
qed

text \<open>
  The first recorded error stays: whatever operations follow, it is the one reported, and the
  transcript yields no binding digest.
\<close>

theorem transcript_error_sticky:
  assumes "run_ops H ops tx = Some (outs, tx')" "interactive_error tx = Some e"
  shows "interactive_error tx' = Some e \<and> canonical_binding_digest H tx' = Inl e"
proof -
  have "interactive_error tx' = Some e" using tx_sticky.run_le [OF assms(1)] assms(2) by blast
  then show ?thesis by (simp add: canonical_binding_digest_def)
qed

theorem transcript_error_sticky_witness:
  "\<exists>tx'. run_ops demo_hash [OpMessage ''a'' [7]] (set_error FpTag (fresh_transcript (Interactive demo_channel)))
      = Some ([Done], tx')
    \<and> interactive_error tx' = Some FpTag \<and> canonical_binding_digest demo_hash tx' = Inl FpTag"
proof -
  let ?tx = "set_error FpTag (fresh_transcript (Interactive demo_channel))"
  have "run_ops demo_hash [OpMessage ''a'' [7]] ?tx = Some ([Done], framed 1 True ''a'' 1 1 [7] ?tx)"
    by (simp add: framed_ops)
  moreover have "interactive_error ?tx = Some FpTag" by (simp add: set_error_def)
  ultimately show ?thesis using transcript_error_sticky by blast
qed

text \<open>
  Every framed provider message reaches the interactive channel exactly once and in order: the
  moves handed over with the challenges, followed by what is still pending, are the frames of the
  operations performed.
\<close>

theorem interactive_delivery:
  assumes "run_ops H ops (new_interactive ch) = Some (outs, tx)"
  shows "\<exists>ch'. challenges tx = Interactive ch'
    \<and> concat (map fst (chn_calls ch')) @ pending_provider_move tx
        = concat (map fst (chn_calls ch)) @ concat (map op_frame ops)"
proof -
  have "provider_stream (new_interactive ch) = Some (concat (map fst (chn_calls ch)))"
    by (simp add: provider_stream_def new_interactive_def fresh_transcript_def)
  from run_ops_stream [OF assms this] show ?thesis
    by (auto simp: provider_stream_def split: challenges.splits)
qed

theorem interactive_delivery_witness:
  "\<exists>outs tx ch'. run_ops demo_hash [OpMessage ''a'' [7], OpFp2] (new_interactive demo_channel) = Some (outs, tx)
    \<and> challenges tx = Interactive ch'
    \<and> concat (map fst (chn_calls ch')) @ pending_provider_move tx
        = concat (map fst (chn_calls demo_channel)) @ frame ''a'' 1 [7]"
proof -
  obtain outs tx where r: "run_ops demo_hash [OpMessage ''a'' [7], OpFp2] (new_interactive demo_channel) = Some (outs, tx)"
    by (simp add: framed_ops challenge_fp2_def challenge_cores new_interactive_def fresh_transcript_def
        framed_def frame_def account_def demo_channel_def P_u64_def)
  then show ?thesis using interactive_delivery [OF r] by simp
qed

text \<open>
  A Fiat--Shamir transcript keeps its profile and context, its index never passes the census of
  131072, and as long as no error is recorded the index is the number of challenges drawn: a
  transcript that ends without error has drawn at most 131072 challenges.
\<close>

theorem fs_challenge_census:
  assumes "new_fiat_shamir_profile digest p = Inr tx" "run_ops H ops tx = Some (outs, tx')"
  shows "fs_within p digest tx' \<and> fs_index tx' \<le> 131072
    \<and> (interactive_error tx' = None \<longrightarrow>
         fs_index tx' = length (filter (\<lambda>op. tx_request op \<noteq> None) ops))"
proof -
  have tx: "fs_within p digest tx" "fs_index tx = 0" using assms(1)
    by (auto simp: new_fiat_shamir_profile_def fresh_transcript_def fs_within_def fs_index_def split: if_splits)
  have w: "fs_within p digest tx'" using tx_census.run_inv [OF assms(2) tx(1)] .
  have "unat (max_challenges p) = 131072"
    by (cases p) (simp_all add: max_challenges_def C41_FIAT_SHAMIR_MAX_CHALLENGES_def
        C62_FIAT_SHAMIR_MAX_CHALLENGES_def)
  then have "fs_index tx' \<le> 131072" using w
    by (auto simp: fs_within_def fs_index_def word_le_nat_alt split: challenges.splits)
  then show ?thesis using w run_ops_index [OF assms(2) tx(1)] tx(2) by simp
qed

theorem fs_challenge_census_witness:
  "\<exists>tx outs tx'. new_fiat_shamir_profile [1] C62 = Inr tx
    \<and> run_ops demo_hash [OpMessage ''a'' [7]] tx = Some (outs, tx')
    \<and> fs_within C62 [1] tx' \<and> fs_index tx' \<le> 131072 \<and> interactive_error tx' = None
    \<and> fs_index tx' = length (filter (\<lambda>op. tx_request op \<noteq> None) [OpMessage ''a'' [7]])"
proof -
  let ?c = "FiatShamir \<lparr>profile = C62, context_digest = [1], challenge_index = 0\<rparr>"
  have n: "new_fiat_shamir_profile [1] C62 = Inr (fresh_transcript ?c)"
    by (simp add: new_fiat_shamir_profile_def eval_nat_numeral)
  have "interactive_error (framed 1 True ''a'' 1 1 [7] (fresh_transcript ?c)) = None"
    by (simp add: fresh_transcript_def)
  then show ?thesis using fs_challenge_census [OF n demo_message(1)] n demo_message(1) by blast
qed

text \<open>
  Every Fiat--Shamir draw of an extension element returns, without a panic; and when no error
  is recorded, the element is built from the two limbs sampled below the modulus from the context,
  the digest of the log up to and including the request, and the index, and the log records them.
\<close>

theorem fs_challenge_fp2:
  assumes "challenges tx = FiatShamir st"
  shows "\<exists>x tx'. challenge_fp2 H tx = Some (x, tx') \<and> (interactive_error tx' = None \<longrightarrow>
    (\<exists>a b. fs_response H st (b3_derive H moves_domain (canonical_moves tx @ [3, 2])) ReqFp2 = Inr (RespFp2 a b)
      \<and> a < P_u64 \<and> b < P_u64 \<and> x = Fp2 (fp_new a) (fp_new b)
      \<and> canonical_moves tx' = canonical_moves tx @ [3, 2, 4] @ response_bytes (RespFp2 a b)))"
proof -
  obtain resp tx1 where r: "challenge_response_of H ReqFp2 tx = (Some resp, tx1)"
    using fs_challenge_Some [OF assms] by blast
  show ?thesis
  proof (cases "interactive_error tx1")
    case None
    then obtain a b where ab: "fs_response H st (b3_derive H moves_domain (canonical_moves tx @ [3, 2])) ReqFp2
        = Inr (RespFp2 a b)" "resp = RespFp2 a b" "a < P_u64" "b < P_u64"
      "canonical_moves tx1 = canonical_moves tx @ [3, 2, 4] @ response_bytes (RespFp2 a b)"
      using r assms
      by (auto simp: challenge_cores fs_response_def dest!: sample_fp_canonical split: challenge_splits)
    then show ?thesis using r by (simp add: challenge_fp2_def)
  next
    case (Some e)
    then show ?thesis using r
      by (auto simp: challenge_fp2_def get_or_insert_error_def split: challenge_response.splits)
  qed
qed

theorem fs_challenge_fp2_witness:
  "\<exists>x tx'. challenge_fp2 demo_hash (fresh_transcript
      (FiatShamir \<lparr>profile = C41, context_digest = [1], challenge_index = 0\<rparr>)) = Some (x, tx')"
  using fs_challenge_fp2 [of "fresh_transcript
      (FiatShamir \<lparr>profile = C41, context_digest = [1], challenge_index = 0\<rparr>)" _ demo_hash]
  by (fastforce simp: fresh_transcript_def)

text \<open>
  The bytes charged to a label are the bytes of the operations performed under it, in the
  arithmetic of \<^verbatim>\<open>u64\<close>.
\<close>

theorem bytes_for_run:
  assumes "run_ops H ops tx = Some (outs, tx')"
  shows "bytes_for l tx' = bytes_for l tx + sum_list (map (\<lambda>op. op_bytes op l) ops)"
  using assms
proof (induction ops arbitrary: tx outs)
  case (Cons op ops)
  from Cons.prems obtain out tx1 outs1 where s: "run_op H op tx = Some (out, tx1)"
    "run_ops H ops tx1 = Some (outs1, tx')" by (rule run_machine_Cons_Some)
  show ?case using Cons.IH [OF s(2)] run_op_bytes [OF s(1), of l] by (simp add: add.assoc)
qed simp

theorem bytes_for_run_witness:
  "\<exists>tx. run_ops demo_hash [OpMessage ''a'' [7]] (fresh_transcript (Interactive demo_channel)) = Some ([Done], tx)
    \<and> bytes_for ''a'' tx = 1"
  using bytes_for_run [OF demo_message(1), of "''a''" "Interactive demo_channel"]
    demo_message(1) [of "Interactive demo_channel"]
  by (auto simp: bytes_for_def fresh_transcript_def)

text \<open>
  C38. \<^verbatim>\<open>challenge_bits\<close> accepts a width of 64, and the Fiat--Shamir source serves it, but on a private
  transcript the draw always panics, because the stream below accepts at most 63 bits.
\<close>

theorem challenge_bits_64:
  "(challenges tx = Private s \<longrightarrow> challenge_bits H 64 tx = None)
   \<and> (challenges tx = FiatShamir st \<longrightarrow> challenge_bits H 64 tx \<noteq> None)"
proof -
  have "challenge_bits H 64 tx = None" if "challenges tx = Private s"
    using that by (simp add: challenge_bits_def challenge_cores next_bits_def)
  moreover have "challenge_bits H 64 tx \<noteq> None" if st: "challenges tx = FiatShamir st"
  proof -
    obtain resp tx1 where "challenge_response_of H (ReqBits 64) tx = (Some resp, tx1)"
      using fs_challenge_Some [OF st] by blast
    then show ?thesis by (simp add: challenge_bits_def split: challenge_response.splits)
  qed
  ultimately show ?thesis by blast
qed

theorem challenge_bits_64_witness:
  "challenge_bits demo_hash 64 (fresh_transcript (Private \<lparr>fs_word = (\<lambda>_. 0), fs_pos = 0\<rparr>)) = None"
  using challenge_bits_64 [of "fresh_transcript (Private \<lparr>fs_word = (\<lambda>_. 0), fs_pos = 0\<rparr>)"]
  by (simp add: fresh_transcript_def)

end
