(* ===== verification/Mac.thy ===== *)
theory Mac
  imports Transcript Mle
begin

text \<open>
  Authenticated values (\<^verbatim>\<open>volta-mac/src/authed.rs\<close>), the openings of \<^verbatim>\<open>volta-mac/src/open.rs\<close>, the
  product check of \<^verbatim>\<open>volta-proto/src/prod_check.rs\<close> and the cubic-extension transfer of
  \<^verbatim>\<open>volta-mac/src/c7_fp3.rs\<close>, in the ordinary build (no \<^verbatim>\<open>c6-trace\<close> feature: the trace tokens are
  zero-sized and every \<^verbatim>\<open>from_traced_parts\<close> keeps only the values; debug assertions are off).

  The two halves of a value are related by \<open>k = m + \<Delta> * x\<close>. The interface of the linear operations is
  a locale, interpreted for the quadratic and for the cubic extension; the openings use it for
  completeness, and count the keys \<open>\<Delta>\<close> and challenges that accept a false claim for soundness.
\<close>

section \<open>Authenticated values\<close>

record prover_authed =
  pa_x :: fp2
  pa_m :: fp2

record prover_sub_authed =
  ps_x :: fp
  ps_m :: fp2

record verifier_key =
  vk_k :: fp2

definition prover_authed_new :: "fp2 \<Rightarrow> fp2 \<Rightarrow> prover_authed" where
  "prover_authed_new x m = \<lparr>pa_x = x, pa_m = m\<rparr>"

definition prover_zero :: prover_authed where
  "prover_zero = prover_authed_new 0 0"

definition prover_from_public :: "fp2 \<Rightarrow> prover_authed" where
  "prover_from_public c = prover_authed_new c 0"

definition prover_add :: "prover_authed \<Rightarrow> prover_authed \<Rightarrow> prover_authed" where
  "prover_add a b = prover_authed_new (pa_x a + pa_x b) (pa_m a + pa_m b)"

definition prover_sub :: "prover_authed \<Rightarrow> prover_authed \<Rightarrow> prover_authed" where
  "prover_sub a b = prover_authed_new (pa_x a - pa_x b) (pa_m a - pa_m b)"

definition prover_scale :: "prover_authed \<Rightarrow> fp2 \<Rightarrow> prover_authed" where
  "prover_scale a c = prover_authed_new (pa_x a * c) (pa_m a * c)"

definition sub_authed_new :: "fp \<Rightarrow> fp2 \<Rightarrow> prover_sub_authed" where
  "sub_authed_new x m = \<lparr>ps_x = x, ps_m = m\<rparr>"

definition sub_embed :: "prover_sub_authed \<Rightarrow> prover_authed" where
  "sub_embed a = prover_authed_new (fp2_from_base (ps_x a)) (ps_m a)"

definition key_new :: "fp2 \<Rightarrow> verifier_key" where
  "key_new k = \<lparr>vk_k = k\<rparr>"

definition key_zero :: verifier_key where
  "key_zero = key_new 0"

definition key_from_public :: "fp2 \<Rightarrow> fp2 \<Rightarrow> verifier_key" where
  "key_from_public c delta = key_new (delta * c)"

definition key_add :: "verifier_key \<Rightarrow> verifier_key \<Rightarrow> verifier_key" where
  "key_add a b = key_new (vk_k a + vk_k b)"

definition key_sub :: "verifier_key \<Rightarrow> verifier_key \<Rightarrow> verifier_key" where
  "key_sub a b = key_new (vk_k a - vk_k b)"

definition key_scale :: "verifier_key \<Rightarrow> fp2 \<Rightarrow> verifier_key" where
  "key_scale a c = key_new (vk_k a * c)"

lemma authed_proj [mac_simps, simp]:
  "pa_x (prover_authed_new x m) = x" "pa_m (prover_authed_new x m) = m"
  "pa_x (prover_add a b) = pa_x a + pa_x b" "pa_m (prover_add a b) = pa_m a + pa_m b"
  "pa_x (prover_sub a b) = pa_x a - pa_x b" "pa_m (prover_sub a b) = pa_m a - pa_m b"
  "pa_x (prover_scale a c) = pa_x a * c" "pa_m (prover_scale a c) = pa_m a * c"
  "pa_x (prover_from_public c) = c" "pa_m (prover_from_public c) = 0"
  "pa_x prover_zero = 0" "pa_m prover_zero = 0"
  "pa_x (sub_embed s) = fp2_from_base (ps_x s)" "pa_m (sub_embed s) = ps_m s"
  "vk_k (key_new k) = k" "vk_k (key_add u v) = vk_k u + vk_k v" "vk_k (key_sub u v) = vk_k u - vk_k v"
  "vk_k (key_scale u c) = vk_k u * c" "vk_k (key_from_public c delta) = delta * c" "vk_k key_zero = 0"
  by (simp_all add: prover_authed_new_def prover_add_def prover_sub_def prover_scale_def
      prover_from_public_def prover_zero_def sub_embed_def key_new_def key_add_def key_sub_def
      key_scale_def key_from_public_def key_zero_def)

text \<open>The relation between the two halves.\<close>

definition mac_valid :: "fp2 \<Rightarrow> prover_authed \<Rightarrow> verifier_key \<Rightarrow> bool" where
  "mac_valid delta p k \<longleftrightarrow> vk_k k = pa_m p + delta * pa_x p"

definition key_of :: "fp2 \<Rightarrow> prover_authed \<Rightarrow> verifier_key" where
  "key_of delta p = key_new (pa_m p + delta * pa_x p)"

lemma mac_valid_iff: "mac_valid delta p k \<longleftrightarrow> k = key_of delta p"
  by (cases k) (simp add: mac_valid_def key_of_def key_new_def)

lemma vk_key_of [mac_simps, simp]: "vk_k (key_of delta p) = pa_m p + delta * pa_x p"
  by (simp add: key_of_def)

section \<open>The interface of the linear operations\<close>

text \<open>
  A pair of linear structures whose addition and scaling keep the MAC relation. A random linear
  combination with the powers of a challenge is what every batched opening folds.
\<close>

fun rlc :: "('v \<Rightarrow> 'v \<Rightarrow> 'v) \<Rightarrow> ('v \<Rightarrow> 's \<Rightarrow> 'v) \<Rightarrow> 's :: comm_ring_1 \<Rightarrow> 's \<Rightarrow> 'v \<Rightarrow> 'v list \<Rightarrow> 'v" where
  "rlc add scale chi w z [] = z"
| "rlc add scale chi w z (y # ys) = rlc add scale chi (w * chi) (add z (scale y (w * chi))) ys"

locale linear_mac =
  fixes p_add :: "'p \<Rightarrow> 'p \<Rightarrow> 'p" and p_scale :: "'p \<Rightarrow> 's :: comm_ring_1 \<Rightarrow> 'p"
    and k_add :: "'k \<Rightarrow> 'k \<Rightarrow> 'k" and k_scale :: "'k \<Rightarrow> 's \<Rightarrow> 'k"
    and valid :: "'p \<Rightarrow> 'k \<Rightarrow> bool"
  assumes valid_add: "valid p k \<Longrightarrow> valid q l \<Longrightarrow> valid (p_add p q) (k_add k l)"
    and valid_scale: "valid p k \<Longrightarrow> valid (p_scale p c) (k_scale k c)"
begin

lemma valid_rlc:
  "list_all2 valid ps ks \<Longrightarrow> valid z l \<Longrightarrow>
     valid (rlc p_add p_scale chi w z ps) (rlc k_add k_scale chi w l ks)"
proof (induction ps arbitrary: ks w z l)
  case (Cons p ps)
  then obtain k ks' where ks: "ks = k # ks'" "valid p k" "list_all2 valid ps ks'"
    by (auto simp: list_all2_Cons1)
  have "valid (p_add z (p_scale p (w * chi))) (k_add l (k_scale k (w * chi)))"
    using ks(2) Cons.prems(2) by (intro valid_add valid_scale)
  from Cons.IH [OF ks(3) this] show ?case by (simp add: ks(1))
qed simp

end

text \<open>A linear MAC with public constants and subtraction, as the quadratic extension has.\<close>

locale affine_mac = linear_mac p_add p_scale k_add k_scale valid
  for p_add :: "'p \<Rightarrow> 'p \<Rightarrow> 'p" and p_scale :: "'p \<Rightarrow> 's :: comm_ring_1 \<Rightarrow> 'p"
    and k_add :: "'k \<Rightarrow> 'k \<Rightarrow> 'k" and k_scale :: "'k \<Rightarrow> 's \<Rightarrow> 'k"
    and valid :: "'p \<Rightarrow> 'k \<Rightarrow> bool" +
  fixes p_sub :: "'p \<Rightarrow> 'p \<Rightarrow> 'p" and k_sub :: "'k \<Rightarrow> 'k \<Rightarrow> 'k"
    and p_public :: "'s \<Rightarrow> 'p" and k_public :: "'s \<Rightarrow> 'k"
  assumes valid_sub: "valid p k \<Longrightarrow> valid q l \<Longrightarrow> valid (p_sub p q) (k_sub k l)"
    and valid_public: "valid (p_public c) (k_public c)"
begin

lemma valid_shift: "valid p k \<Longrightarrow> valid (p_add p (p_public c)) (k_add k (k_public c))"
  by (intro valid_add valid_public)

lemma valid_interpolate:
  "valid p k \<Longrightarrow> valid q l \<Longrightarrow>
     valid (p_add p (p_scale (p_sub q p) r)) (k_add k (k_scale (k_sub l k) r))"
  by (intro valid_add valid_scale valid_sub)

end

interpretation fp2_mac: affine_mac prover_add prover_scale key_add key_scale "mac_valid delta"
  prover_sub key_sub prover_from_public "\<lambda>c. key_from_public c delta"
  by unfold_locales (simp_all add: mac_valid_def algebra_simps)

lemma rlc_key: "vk_k (rlc key_add key_scale chi w z ks)
    = vk_k z + w * chi * poly_eval (map vk_k ks) chi"
  by (induction ks arbitrary: w z) (simp_all add: algebra_simps)

lemma rlc_prover:
  "pa_x (rlc prover_add prover_scale chi w z ps) = pa_x z + w * chi * poly_eval (map pa_x ps) chi"
  "pa_m (rlc prover_add prover_scale chi w z ps) = pa_m z + w * chi * poly_eval (map pa_m ps) chi"
  by (induction ps arbitrary: w z) (simp_all add: algebra_simps)

lemma sub_embed_valid:
  "vk_k k = ps_m s + fp2_mul_base delta (ps_x s) \<Longrightarrow> mac_valid delta (sub_embed s) k"
  by (simp add: mac_valid_def fp2_mul_base_eq)

section \<open>Zero openings\<close>

record full_corr =
  fc_x :: fp2
  fc_m :: fp2

definition full_authenticate :: "full_corr \<Rightarrow> fp2 \<Rightarrow> prover_authed" where
  "full_authenticate c x = prover_authed_new x (fc_m c)"

definition zero_open_prover :: "prover_authed \<Rightarrow> transcript \<Rightarrow> (fp2 \<times> transcript) option" where
  "zero_open_prover y tx =
     do { tx \<leftarrow> append_fp2s ''zero_open_tag'' [pa_m y] tx; Some (pa_m y, tx) }"

definition zero_open_verify :: "verifier_key \<Rightarrow> fp2 \<Rightarrow> bool" where
  "zero_open_verify key m \<longleftrightarrow> vk_k key = m"

definition fresh_zero_mask :: "full_corr \<Rightarrow> transcript \<Rightarrow> (prover_authed \<times> fp2 \<times> transcript) option" where
  "fresh_zero_mask corr tx =
     do { let c = 0 - fc_x corr;
          tx \<leftarrow> append_fp2s ''mask_correction'' [c] tx;
          Some (full_authenticate corr 0, c, tx) }"

definition zero_mask_key :: "fp2 \<Rightarrow> verifier_key \<Rightarrow> fp2 \<Rightarrow> verifier_key" where
  "zero_mask_key delta k_full c = key_new (vk_k k_full + delta * c)"

definition zero_batch_prover ::
  "prover_authed list \<Rightarrow> prover_authed \<Rightarrow> fp2 \<Rightarrow> transcript \<Rightarrow> (fp2 \<times> transcript) option" where
  "zero_batch_prover ys zmask chi tx =
     do { let z = fst (foldl (\<lambda>(z, w) y. let w = w * chi in (prover_add z (prover_scale y w), w))
                         (zmask, 1) ys);
          tx \<leftarrow> append_fp2s ''zero_batch_tag'' [pa_m z] tx;
          Some (pa_m z, tx) }"

definition zero_batch_verify :: "verifier_key list \<Rightarrow> verifier_key \<Rightarrow> fp2 \<Rightarrow> fp2 \<Rightarrow> bool" where
  "zero_batch_verify keys k_mask chi m_z \<longleftrightarrow>
     fst (foldl (\<lambda>(acc, w) key. let w = w * chi in (acc + vk_k key * w, w)) (vk_k k_mask, 1) keys) = m_z"

section \<open>The batched product check\<close>

record prod_proof =
  pp_m0 :: fp2
  pp_m1 :: fp2

text \<open>A product mask carries the number of triples it was reserved for.\<close>

record product_mask =
  pm_triples :: nat
  pm_corr :: full_corr

definition prod_batch_prover ::
  "(prover_authed \<times> prover_authed \<times> prover_authed) list \<Rightarrow> fp2 \<Rightarrow> product_mask \<Rightarrow> transcript
   \<Rightarrow> (prod_proof \<times> transcript) option" where
  "prod_batch_prover triples chi pmask tx =
     (if pm_triples pmask = length triples then
        do { let (m0, m1, w) =
               foldl (\<lambda>(m0, m1, w) (a, b, c).
                   let w = w * chi in
                   (m0 + w * (pa_m a * pa_m b), m1 + w * (pa_x a * pa_m b + pa_x b * pa_m a - pa_m c), w))
                 (fc_m (pm_corr pmask), fc_x (pm_corr pmask), 1) triples;
             tx \<leftarrow> append_fp2s ''prod_check_m0_m1'' [m0, m1] tx;
             Some (\<lparr>pp_m0 = m0, pp_m1 = m1\<rparr>, tx) }
      else None)"

definition prod_batch_verify ::
  "(verifier_key \<times> verifier_key \<times> verifier_key) list \<Rightarrow> verifier_key \<Rightarrow> fp2 \<Rightarrow> fp2 \<Rightarrow> prod_proof \<Rightarrow> bool" where
  "prod_batch_verify keys k_mask delta chi proof \<longleftrightarrow>
     fst (foldl (\<lambda>(acc, w) (ka, kb, kc).
            let w = w * chi in (acc + w * (vk_k ka * vk_k kb - delta * vk_k kc), w))
          (vk_k k_mask, 1) keys)
     = pp_m0 proof + pp_m1 proof * delta"

section \<open>The cubic extension\<close>

record c7_prover_authed =
  c7_x :: fp3
  c7_m :: fp3

record c7_verifier_key =
  c7_k :: fp3

record sub_vole =
  sv_r :: fp
  sv_m :: fp2

definition c7_basis :: "fp3 list" where
  "c7_basis = [1, Fp3 0 1 0, Fp3 0 0 1]"

definition c7_prover_new :: "fp3 \<Rightarrow> fp3 \<Rightarrow> c7_prover_authed" where
  "c7_prover_new x m = \<lparr>c7_x = x, c7_m = m\<rparr>"

definition c7_prover_add :: "c7_prover_authed \<Rightarrow> c7_prover_authed \<Rightarrow> c7_prover_authed" where
  "c7_prover_add a b = c7_prover_new (c7_x a + c7_x b) (c7_m a + c7_m b)"

definition c7_prover_scale :: "c7_prover_authed \<Rightarrow> fp3 \<Rightarrow> c7_prover_authed" where
  "c7_prover_scale a c = c7_prover_new (c * c7_x a) (c * c7_m a)"

definition c7_key_new :: "fp3 \<Rightarrow> c7_verifier_key" where
  "c7_key_new k = \<lparr>c7_k = k\<rparr>"

definition c7_key_add :: "c7_verifier_key \<Rightarrow> c7_verifier_key \<Rightarrow> c7_verifier_key" where
  "c7_key_add a b = c7_key_new (c7_k a + c7_k b)"

definition c7_key_scale :: "c7_verifier_key \<Rightarrow> fp3 \<Rightarrow> c7_verifier_key" where
  "c7_key_scale a c = c7_key_new (c * c7_k a)"

definition c7_fp3_lift_prover :: "sub_vole list list \<Rightarrow> fp list \<times> c7_prover_authed" where
  "c7_fp3_lift_prover rows =
     foldl (\<lambda>(corrections, result) j.
         let row = rows ! j in
         (corrections[2 * j := sv_r (row ! 0) - sv_r (row ! 1), 2 * j + 1 := sv_r (row ! 0) - sv_r (row ! 2)],
          c7_prover_add result
            (c7_prover_scale
              (c7_prover_new (fp3_from_base (sv_r (row ! 0)))
                (Fp3 (fp2_c0 (sv_m (row ! 0))) (fp2_c0 (sv_m (row ! 1))) (fp2_c0 (sv_m (row ! 2)))))
              (c7_basis ! j))))
       (replicate 6 0, c7_prover_new 0 0) [0..<3]"

definition c7_fp3_lift_verifier :: "fp2 list list \<Rightarrow> fp3 \<Rightarrow> fp list \<Rightarrow> c7_verifier_key" where
  "c7_fp3_lift_verifier rows delta corrections =
     foldl (\<lambda>result j.
         let row = rows ! j in
         c7_key_add result
           (c7_key_scale
             (c7_key_new (Fp3 (fp2_c0 (row ! 0))
               (fp2_c0 (row ! 1) + fp3_c1 delta * corrections ! (2 * j))
               (fp2_c0 (row ! 2) + fp3_c2 delta * corrections ! (2 * j + 1))))
             (c7_basis ! j)))
       (c7_key_new 0) [0..<3]"

definition c7_fp3_transfer_prover :: "c7_prover_authed \<Rightarrow> fp3 \<Rightarrow> fp3 \<times> c7_prover_authed" where
  "c7_fp3_transfer_prover correlation target =
     (target - c7_x correlation, c7_prover_new target (c7_m correlation))"

definition c7_fp3_transfer_verifier :: "c7_verifier_key \<Rightarrow> fp3 \<Rightarrow> fp3 \<Rightarrow> c7_verifier_key" where
  "c7_fp3_transfer_verifier key delta correction = c7_key_new (c7_k key + delta * correction)"

lemma c7_proj [mac_simps, simp]:
  "c7_x (c7_prover_new x m) = x" "c7_m (c7_prover_new x m) = m"
  "c7_x (c7_prover_add a b) = c7_x a + c7_x b" "c7_m (c7_prover_add a b) = c7_m a + c7_m b"
  "c7_x (c7_prover_scale a c) = c * c7_x a" "c7_m (c7_prover_scale a c) = c * c7_m a"
  "c7_k (c7_key_new k) = k" "c7_k (c7_key_add u v) = c7_k u + c7_k v" "c7_k (c7_key_scale u c) = c * c7_k u"
  by (simp_all add: c7_prover_new_def c7_prover_add_def c7_prover_scale_def c7_key_new_def
      c7_key_add_def c7_key_scale_def)

definition c7_valid :: "fp3 \<Rightarrow> c7_prover_authed \<Rightarrow> c7_verifier_key \<Rightarrow> bool" where
  "c7_valid delta p k \<longleftrightarrow> c7_k k = c7_m p + delta * c7_x p"

interpretation c7_mac: linear_mac c7_prover_add c7_prover_scale c7_key_add c7_key_scale "c7_valid delta"
  by unfold_locales (simp_all add: c7_valid_def algebra_simps)

section \<open>What the loops compute\<close>

lemma zero_batch_fold_prover:
  "fst (foldl (\<lambda>(z, w) y. let w = w * chi in (prover_add z (prover_scale y w), w)) (z, w) ys)
     = rlc prover_add prover_scale chi w z ys"
  by (induction ys arbitrary: z w) (simp_all add: Let_def)

lemma zero_batch_fold_key:
  "fst (foldl (\<lambda>(acc, w) key. let w = w * chi in (acc + vk_k key * w, w)) (vk_k z, w) keys)
     = vk_k (rlc key_add key_scale chi w z keys)"
  by (induction keys arbitrary: z w) (simp_all add: Let_def flip: authed_proj(16,18))

lemma zero_batch_verify_rlc:
  "zero_batch_verify keys k_mask chi m_z \<longleftrightarrow> vk_k (rlc key_add key_scale chi 1 k_mask keys) = m_z"
  by (simp add: zero_batch_verify_def zero_batch_fold_key)

text \<open>The batched claim of a list of values, as a polynomial in the challenge.\<close>

definition batch_poly :: "prover_authed list \<Rightarrow> prover_authed \<Rightarrow> fp2 list" where
  "batch_poly ys zmask = pa_x zmask # map pa_x ys"

lemma rlc_x_poly: "pa_x (rlc prover_add prover_scale chi 1 zmask ys) = poly_eval (batch_poly ys zmask) chi"
  by (simp add: rlc_prover batch_poly_def)

lemma poly_map_quad:
  "poly_eval (map (\<lambda>t. f t + delta * g t + delta ^ 2 * h t) ts) chi
     = poly_eval (map f ts) chi + delta * poly_eval (map g ts) chi + delta ^ 2 * poly_eval (map h ts) chi"
  for delta :: "'a :: comm_ring_1"
  by (induction ts) (simp_all add: algebra_simps)

abbreviation triple_keys :: "fp2 \<Rightarrow> prover_authed \<times> prover_authed \<times> prover_authed
    \<Rightarrow> verifier_key \<times> verifier_key \<times> verifier_key" where
  "triple_keys delta \<equiv> (\<lambda>(a, b, c). (key_of delta a, key_of delta b, key_of delta c))"

definition quad_m0 :: "prover_authed \<times> prover_authed \<times> prover_authed \<Rightarrow> fp2" where
  "quad_m0 = (\<lambda>(a, b, c). pa_m a * pa_m b)"

definition quad_m1 :: "prover_authed \<times> prover_authed \<times> prover_authed \<Rightarrow> fp2" where
  "quad_m1 = (\<lambda>(a, b, c). pa_x a * pa_m b + pa_x b * pa_m a - pa_m c)"

definition defect :: "prover_authed \<times> prover_authed \<times> prover_authed \<Rightarrow> fp2" where
  "defect = (\<lambda>(a, b, c). pa_x a * pa_x b - pa_x c)"

lemma foldl_weighted:
  "foldl (\<lambda>(acc, w) t. (acc + w * chi * f t, w * chi)) (acc, w) ts
     = (acc + w * chi * poly_eval (map f ts) chi, w * chi ^ length ts)" for chi :: "'a :: comm_ring_1"
  by (induction ts arbitrary: acc w) (simp_all add: algebra_simps)

lemma foldl_weighted2:
  "foldl (\<lambda>(m0, m1, w) t. (m0 + w * chi * f t, m1 + w * chi * g t, w * chi)) (m0, m1, w) ts
     = (m0 + w * chi * poly_eval (map f ts) chi, m1 + w * chi * poly_eval (map g ts) chi, w * chi ^ length ts)"
  for chi :: "'a :: comm_ring_1"
  by (induction ts arbitrary: m0 m1 w) (simp_all add: algebra_simps)

lemma prod_fold_prover:
  "foldl (\<lambda>(m0, m1, w) (a, b, c). let w = w * chi in
      (m0 + w * (pa_m a * pa_m b), m1 + w * (pa_x a * pa_m b + pa_x b * pa_m a - pa_m c), w))
      (m0, m1, w) ts
   = (m0 + w * chi * poly_eval (map quad_m0 ts) chi, m1 + w * chi * poly_eval (map quad_m1 ts) chi,
      w * chi ^ length ts)"
  unfolding foldl_weighted2 [symmetric]
  by (rule foldl_cong) (auto simp: Let_def quad_m0_def quad_m1_def)

lemma quad_expand:
  "pa_m a * pa_m b + delta * (pa_x a * pa_m b + pa_x b * pa_m a - pa_m c)
     + delta ^ 2 * (pa_x a * pa_x b - pa_x c)
   = (pa_m a + delta * pa_x a) * (pa_m b + delta * pa_x b) - delta * (pa_m c + delta * pa_x c)"
  by (simp add: algebra_simps power2_eq_square)

lemma prod_fold_key:
  "fst (foldl (\<lambda>(acc, w) (ka, kb, kc). let w = w * chi in (acc + w * (vk_k ka * vk_k kb - delta * vk_k kc), w))
      (acc, w) (map (triple_keys delta) ts))
   = acc + w * chi * (poly_eval (map quad_m0 ts) chi + delta * poly_eval (map quad_m1 ts) chi
       + delta ^ 2 * poly_eval (map defect ts) chi)"
proof -
  have "foldl (\<lambda>(acc, w) (ka, kb, kc). let w = w * chi in (acc + w * (vk_k ka * vk_k kb - delta * vk_k kc), w))
      (acc, w) (map (triple_keys delta) ts)
    = foldl (\<lambda>(acc, w) t. (acc + w * chi * (quad_m0 t + delta * quad_m1 t + delta ^ 2 * defect t), w * chi))
      (acc, w) ts"
    unfolding foldl_map
    by (rule foldl_cong) (auto simp: Let_def quad_m0_def quad_m1_def defect_def quad_expand)
  then show ?thesis by (simp only: foldl_weighted fst_conv poly_map_quad)
qed

lemma append_short: "length l < 2 ^ 16 \<Longrightarrow> \<exists>tx'. append_fp2s l vs tx = Some tx'"
  by (simp add: append_fp2s_def append_message_def event_bytes_def Let_def)

lemma zero_batch_prover_rlc:
  "zero_batch_prover ys zmask chi tx =
     (let z = rlc prover_add prover_scale chi 1 zmask ys in
      map_option (Pair (pa_m z)) (append_fp2s ''zero_batch_tag'' [pa_m z] tx))"
  unfolding zero_batch_prover_def zero_batch_fold_prover by (simp add: Let_def map_conv_bind_option comp_def)

lemma prod_batch_prover_eq:
  "prod_batch_prover triples chi pmask tx =
     (if pm_triples pmask = length triples then
        let m0 = fc_m (pm_corr pmask) + chi * poly_eval (map quad_m0 triples) chi;
            m1 = fc_x (pm_corr pmask) + chi * poly_eval (map quad_m1 triples) chi
        in map_option (Pair \<lparr>pp_m0 = m0, pp_m1 = m1\<rparr>) (append_fp2s ''prod_check_m0_m1'' [m0, m1] tx)
      else None)"
  unfolding prod_batch_prover_def prod_fold_prover by (simp add: Let_def map_conv_bind_option comp_def)

lemma prod_batch_verify_eq:
  "prod_batch_verify (map (triple_keys delta) triples) k_mask delta chi proof \<longleftrightarrow>
     vk_k k_mask + chi * (poly_eval (map quad_m0 triples) chi + delta * poly_eval (map quad_m1 triples) chi
       + delta ^ 2 * poly_eval (map defect triples) chi) = pp_m0 proof + pp_m1 proof * delta"
  unfolding prod_batch_verify_def prod_fold_key by simp

lemma quad_diff:
  "mm + d * mx + chi * (q0 + d * q1 + d ^ 2 * q2) - (p0 + p1 * d)
     = poly_eval [mm + chi * q0 - p0, mx + chi * q1 - p1, chi * q2] d" for d :: "'a :: comm_ring_1"
  by (simp add: algebra_simps power2_eq_square)

text \<open>The product check as a quadratic in the key, for keys of fixed values and tags.\<close>

definition check_coeffs :: "(prover_authed \<times> prover_authed \<times> prover_authed) list \<Rightarrow> prover_authed \<Rightarrow> fp2 \<Rightarrow> prod_proof \<Rightarrow> fp2 list" where
  "check_coeffs triples mk chi pf =
     [pa_m mk + chi * poly_eval (map quad_m0 triples) chi - pp_m0 pf,
      pa_x mk + chi * poly_eval (map quad_m1 triples) chi - pp_m1 pf,
      chi * poly_eval (map defect triples) chi]"

lemma prod_batch_verify_poly:
  "prod_batch_verify (map (triple_keys delta) triples) (key_of delta mk) delta chi pf
     \<longleftrightarrow> poly_eval (check_coeffs triples mk chi pf) delta = 0"
  unfolding prod_batch_verify_eq check_coeffs_def quad_diff [symmetric] vk_key_of by simp

lemma check_coeffs_roots:
  assumes "chi * poly_eval (map defect triples) chi \<noteq> 0"
  shows "finite {delta. poly_eval (check_coeffs triples mk chi pf) delta = 0}
    \<and> card {delta. poly_eval (check_coeffs triples mk chi pf) delta = 0} \<le> 2"
  using poly_roots_card [of "check_coeffs triples mk chi pf"] assms by (simp add: check_coeffs_def eval_nat_numeral)

lemma c7_lift_row:
  assumes "k0 = m0 + fp2_mul_base d0 r0" "k1 = m1 + fp2_mul_base d1 r1" "k2 = m2 + fp2_mul_base d2 r2"
    and "delta = Fp3 (fp2_c0 d0) (fp2_c0 d1) (fp2_c0 d2)"
  shows "c7_valid delta (c7_prover_new (fp3_from_base r0) (Fp3 (fp2_c0 m0) (fp2_c0 m1) (fp2_c0 m2)))
    (c7_key_new (Fp3 (fp2_c0 k0) (fp2_c0 k1 + fp3_c1 delta * (r0 - r1)) (fp2_c0 k2 + fp3_c2 delta * (r0 - r2))))"
  by (simp add: c7_valid_def assms fp2_mul_base_def plus_fp2_def times_fp3_def plus_fp3_def fp3_from_base_def
      Let_def algebra_simps)

text \<open>The keys of nine subfield correlations under the three quadratic keys.\<close>

definition lift_key :: "fp2 list \<Rightarrow> sub_vole list list \<Rightarrow> nat \<Rightarrow> nat \<Rightarrow> fp2" where
  "lift_key ds rows j i = sv_m (rows ! j ! i) + fp2_mul_base (ds ! i) (sv_r (rows ! j ! i))"

definition lift_keys :: "fp2 list \<Rightarrow> sub_vole list list \<Rightarrow> fp2 list list" where
  "lift_keys ds rows = map (\<lambda>j. map (lift_key ds rows j) [0..<3]) [0..<3]"

lemma zero_batch_accepts:
  assumes "list_all2 (mac_valid delta) ys keys" "\<forall>y \<in> set ys. pa_x y = 0"
    and "zero_batch_prover ys (full_authenticate corr 0) chi tx = Some (m_z, tx')"
  shows "zero_batch_verify keys (zero_mask_key delta (key_new (fc_m corr + delta * fc_x corr)) (0 - fc_x corr)) chi m_z"
proof -
  let ?zm = "full_authenticate corr 0"
  let ?z = "rlc prover_add prover_scale chi 1 ?zm ys"
  have m: "mac_valid delta ?zm (zero_mask_key delta (key_new (fc_m corr + delta * fc_x corr)) (0 - fc_x corr))"
    by (simp add: mac_valid_def full_authenticate_def zero_mask_key_def algebra_simps)
  have "poly_eval (map pa_x ys) chi = 0" using assms(2) by (intro poly_eval_zero) auto
  then have "pa_x ?z = 0" by (simp add: rlc_prover full_authenticate_def)
  then show ?thesis using fp2_mac.valid_rlc [OF assms(1) m, of chi 1] assms(3)
    by (auto simp: zero_batch_verify_rlc mac_valid_def zero_batch_prover_rlc Let_def)
qed

section \<open>Properties\<close>

text \<open>
  The linear operations on the two halves of an authenticated value keep the MAC relation, and
  so does any batched combination with the powers of a challenge.
\<close>

theorem mac_linear:
  assumes "mac_valid delta a k" "mac_valid delta b l" "list_all2 (mac_valid delta) ps ks"
  shows "mac_valid delta (prover_add a b) (key_add k l)
    \<and> mac_valid delta (prover_sub a b) (key_sub k l)
    \<and> mac_valid delta (prover_scale a c) (key_scale k c)
    \<and> mac_valid delta (prover_from_public c) (key_from_public c delta)
    \<and> mac_valid delta (rlc prover_add prover_scale chi 1 a ps) (rlc key_add key_scale chi 1 k ks)"
  by (intro conjI fp2_mac.valid_add fp2_mac.valid_sub fp2_mac.valid_scale fp2_mac.valid_public
      fp2_mac.valid_rlc assms)

theorem mac_linear_witness:
  "mac_valid 5 (prover_add (prover_authed_new 2 3) (prover_authed_new 4 1)) (key_add (key_new 13) (key_new 21))"
  using mac_linear [of 5 "prover_authed_new 2 3" "key_new 13" "prover_authed_new 4 1" "key_new 21" "[]" "[]"]
  by (simp add: mac_valid_def)

text \<open>
  An opening of a claim that is not zero is accepted for exactly one key \<open>\<Delta>\<close>, whatever tag the
  prover reveals.
\<close>

theorem zero_open_one_key:
  assumes "pa_x y \<noteq> 0"
  shows "\<exists>!delta. zero_open_verify (key_of delta y) m"
proof
  show "zero_open_verify (key_of ((m - pa_m y) / pa_x y) y) m"
    using assms by (simp add: zero_open_verify_def)
next
  fix delta
  assume "zero_open_verify (key_of delta y) m"
  then have "delta * pa_x y = m - pa_m y" by (simp add: zero_open_verify_def algebra_simps)
  then show "delta = (m - pa_m y) / pa_x y" using assms by (simp add: field_simps)
qed

theorem zero_open_one_key_witness: "\<exists>!delta. zero_open_verify (key_of delta (prover_authed_new 1 3)) 8"
  by (rule zero_open_one_key) simp

text \<open>
  The masked batched opening is complete: with claims that are all zero and keys that satisfy
  the MAC relation, the prover returns a tag and the verifier accepts it, whatever the challenge.
\<close>

theorem zero_batch_complete:
  assumes "list_all2 (mac_valid delta) ys keys" "\<forall>y \<in> set ys. pa_x y = 0"
    and "vk_k k_full = fc_m corr + delta * fc_x corr"
  shows "\<exists>zmask c tx1 m_z tx2. fresh_zero_mask corr tx = Some (zmask, c, tx1)
    \<and> zero_batch_prover ys zmask chi tx1 = Some (m_z, tx2)
    \<and> zero_batch_verify keys (zero_mask_key delta k_full c) chi m_z"
proof -
  let ?zm = "full_authenticate corr 0" and ?c = "0 - fc_x corr"
  let ?z = "rlc prover_add prover_scale chi 1 ?zm ys"
  obtain tx1 where 1: "append_fp2s ''mask_correction'' [?c] tx = Some tx1"
    using append_short [of "''mask_correction''"] by auto
  obtain tx2 where 2: "append_fp2s ''zero_batch_tag'' [pa_m ?z] tx1 = Some tx2"
    using append_short [of "''zero_batch_tag''"] by auto
  have m: "mac_valid delta ?zm (zero_mask_key delta k_full ?c)"
    using assms(3) by (simp add: mac_valid_def full_authenticate_def zero_mask_key_def algebra_simps)
  have "poly_eval (map pa_x ys) chi = 0" using assms(2) by (intro poly_eval_zero) auto
  then have "pa_x ?z = 0" by (simp add: rlc_prover full_authenticate_def)
  then have "zero_batch_verify keys (zero_mask_key delta k_full ?c) chi (pa_m ?z)"
    using fp2_mac.valid_rlc [OF assms(1) m, of chi 1] by (simp add: zero_batch_verify_rlc mac_valid_def)
  then show ?thesis using 1 2
    by (intro exI [of _ ?zm] exI [of _ ?c] exI [of _ tx1] exI [of _ "pa_m ?z"] exI [of _ tx2])
       (simp add: fresh_zero_mask_def zero_batch_prover_rlc Let_def)
qed

theorem zero_batch_complete_witness:
  "\<exists>zmask c tx1 m_z tx2. fresh_zero_mask \<lparr>fc_x = 2, fc_m = 3\<rparr> (transcript_new (\<lambda>_ _ _. 0) []) = Some (zmask, c, tx1)
    \<and> zero_batch_prover [prover_authed_new 0 4] zmask 9 tx1 = Some (m_z, tx2)
    \<and> zero_batch_verify [key_new 4] (zero_mask_key 5 (key_new 13) c) 9 m_z"
  by (rule zero_batch_complete) (simp_all add: mac_valid_def)

text \<open>
  C24. The batched opening is sound: if some claim is not zero, all challenges but at most as many as
  there are claims leave exactly one key \<open>\<Delta>\<close> for which the verifier accepts, whatever tag is opened.
\<close>

theorem zero_batch_sound:
  assumes "\<exists>y \<in> set ys. pa_x y \<noteq> 0"
  shows "\<exists>bad. finite bad \<and> card bad \<le> length ys \<and> (\<forall>chi m_z. chi \<notin> bad \<longrightarrow>
    (\<exists>!delta. zero_batch_verify (map (key_of delta) ys) (key_of delta zmask) chi m_z))"
proof -
  let ?bad = "{chi. poly_eval (batch_poly ys zmask) chi = 0}"
  have card: "finite ?bad \<and> card ?bad \<le> length ys"
    using poly_roots_card [of "batch_poly ys zmask"] assms by (auto simp: batch_poly_def)
  have "\<exists>!delta. zero_batch_verify (map (key_of delta) ys) (key_of delta zmask) chi m_z"
    if "chi \<notin> ?bad" for chi m_z
  proof -
    let ?z = "rlc prover_add prover_scale chi 1 zmask ys"
    have "pa_x ?z \<noteq> 0" using that by (simp add: rlc_x_poly)
    have v: "rlc key_add key_scale chi 1 (key_of delta zmask) (map (key_of delta) ys) = key_of delta ?z" for delta
      unfolding mac_valid_iff [symmetric]
      by (rule fp2_mac.valid_rlc) (simp_all add: mac_valid_iff list_all2_map2 list_all2_refl)
    have "delta * pa_x ?z = m_z - pa_m ?z \<longleftrightarrow> delta = (m_z - pa_m ?z) / pa_x ?z" for delta
      using \<open>pa_x ?z \<noteq> 0\<close> by (auto simp: field_simps)
    then show ?thesis unfolding zero_batch_verify_rlc v
      by (simp add: algebra_simps)
  qed
  then show ?thesis using card by blast
qed

theorem zero_batch_sound_witness:
  "\<exists>bad. finite bad \<and> card bad \<le> length [prover_authed_new 1 4] \<and> (\<forall>chi m_z. chi \<notin> bad \<longrightarrow>
    (\<exists>!delta. zero_batch_verify (map (key_of delta) [prover_authed_new 1 4]) (key_of delta prover_zero) chi m_z))"
  by (rule zero_batch_sound) simp

text \<open>
  The batched product check is complete: on true products and valid keys the prover returns a
  proof and the verifier accepts it.
\<close>

theorem prod_batch_complete:
  assumes "\<forall>t \<in> set triples. defect t = 0" "pm_triples pmask = length triples"
    and "vk_k k_mask = fc_m (pm_corr pmask) + delta * fc_x (pm_corr pmask)"
  shows "\<exists>proof tx'. prod_batch_prover triples chi pmask tx = Some (proof, tx')
    \<and> prod_batch_verify (map (triple_keys delta) triples) k_mask delta chi proof"
proof -
  have "poly_eval (map defect triples) chi = 0" using assms(1) by (intro poly_eval_zero) auto
  moreover obtain tx' where "append_fp2s ''prod_check_m0_m1''
      [fc_m (pm_corr pmask) + chi * poly_eval (map quad_m0 triples) chi,
       fc_x (pm_corr pmask) + chi * poly_eval (map quad_m1 triples) chi] tx = Some tx'"
    using append_short [of "''prod_check_m0_m1''"] by auto
  ultimately show ?thesis using assms(2,3)
    by (simp add: prod_batch_prover_eq prod_batch_verify_eq Let_def algebra_simps)
qed

theorem prod_batch_complete_witness:
  "\<exists>proof tx'. prod_batch_prover [(prover_authed_new 2 3, prover_authed_new 4 5, prover_authed_new 8 7)] 9
      \<lparr>pm_triples = 1, pm_corr = \<lparr>fc_x = 2, fc_m = 3\<rparr>\<rparr> (transcript_new (\<lambda>_ _ _. 0) []) = Some (proof, tx')
    \<and> prod_batch_verify (map (triple_keys 5) [(prover_authed_new 2 3, prover_authed_new 4 5, prover_authed_new 8 7)])
        (key_new 13) 5 9 proof"
  by (rule prod_batch_complete) (simp_all add: defect_def)

text \<open>
  C23. The batched product check is sound: if some triple is not a product, all challenges but at most
  as many as there are triples leave at most two keys \<open>\<Delta>\<close> that accept, whatever proof is sent.
\<close>

theorem prod_batch_sound:
  assumes "\<exists>t \<in> set triples. defect t \<noteq> 0"
  shows "\<exists>bad. finite bad \<and> card bad \<le> length triples \<and> (\<forall>chi pf. chi \<notin> bad \<longrightarrow>
    finite {delta. prod_batch_verify (map (triple_keys delta) triples) (key_of delta mk) delta chi pf}
    \<and> card {delta. prod_batch_verify (map (triple_keys delta) triples) (key_of delta mk) delta chi pf} \<le> 2)"
proof -
  let ?bad = "{chi. poly_eval (0 # map defect triples) chi = 0}"
  have card: "finite ?bad \<and> card ?bad \<le> length triples"
    using poly_roots_card [of "0 # map defect triples"] assms by auto
  have main: "finite {delta. prod_batch_verify (map (triple_keys delta) triples) (key_of delta mk) delta chi pf}
    \<and> card {delta. prod_batch_verify (map (triple_keys delta) triples) (key_of delta mk) delta chi pf} \<le> 2"
    if "chi \<notin> ?bad" for chi pf
    using check_coeffs_roots [of chi triples mk pf] that unfolding prod_batch_verify_poly by simp
  show ?thesis
  proof (rule exI [of _ ?bad], intro conjI allI impI)
    fix chi pf
    assume "chi \<notin> ?bad"
    from main [OF this, of pf]
    show "finite {delta. prod_batch_verify (map (triple_keys delta) triples) (key_of delta mk) delta chi pf}"
      and "card {delta. prod_batch_verify (map (triple_keys delta) triples) (key_of delta mk) delta chi pf} \<le> 2"
      by (rule conjunct1, rule conjunct2)
  qed (use card in auto)
qed

theorem prod_batch_sound_witness:
  "\<exists>bad. finite bad \<and> card bad \<le> length [(prover_authed_new 1 3, prover_authed_new 1 5, prover_zero)]
    \<and> (\<forall>chi pf. chi \<notin> bad \<longrightarrow>
      finite {delta. prod_batch_verify (map (triple_keys delta)
        [(prover_authed_new 1 3, prover_authed_new 1 5, prover_zero)]) (key_of delta prover_zero) delta chi pf}
      \<and> card {delta. prod_batch_verify (map (triple_keys delta)
        [(prover_authed_new 1 3, prover_authed_new 1 5, prover_zero)]) (key_of delta prover_zero) delta chi pf} \<le> 2)"
  by (rule prod_batch_sound) (simp add: defect_def)

text \<open>
  Nine subfield correlations, three for each coordinate of the key, lift to one valid correlation
  over the cubic extension, and transferring it to any target keeps it valid.
\<close>

theorem c7_lift_transfer_valid:
  "let delta = Fp3 (fp2_c0 (ds ! 0)) (fp2_c0 (ds ! 1)) (fp2_c0 (ds ! 2));
       (wire, auth) = c7_fp3_lift_prover rows;
       key = c7_fp3_lift_verifier (lift_keys ds rows) delta wire;
       (corr, moved) = c7_fp3_transfer_prover auth target
   in c7_valid delta auth key \<and> c7_x moved = target
      \<and> c7_valid delta moved (c7_fp3_transfer_verifier key delta corr)"
proof -
  define delta where "delta = Fp3 (fp2_c0 (ds ! 0)) (fp2_c0 (ds ! 1)) (fp2_c0 (ds ! 2))"
  obtain wire auth where w: "c7_fp3_lift_prover rows = (wire, auth)" by (cases "c7_fp3_lift_prover rows")
  have v: "c7_valid delta auth (c7_fp3_lift_verifier (lift_keys ds rows) delta wire)"
  proof -
    have row: "c7_valid delta
        (c7_prover_scale (c7_prover_new (fp3_from_base (sv_r (rows ! j ! 0)))
          (Fp3 (fp2_c0 (sv_m (rows ! j ! 0))) (fp2_c0 (sv_m (rows ! j ! 1))) (fp2_c0 (sv_m (rows ! j ! 2))))) b)
        (c7_key_scale (c7_key_new (Fp3 (fp2_c0 (lift_key ds rows j 0))
          (fp2_c0 (lift_key ds rows j 1) + fp3_c1 delta * (sv_r (rows ! j ! 0) - sv_r (rows ! j ! 1)))
          (fp2_c0 (lift_key ds rows j 2) + fp3_c2 delta * (sv_r (rows ! j ! 0) - sv_r (rows ! j ! 2))))) b)"
      for j b
      by (intro c7_mac.valid_scale c7_lift_row) (simp_all add: lift_key_def delta_def)
    have z: "c7_valid delta (c7_prover_new 0 0) (c7_key_new 0)" by (simp add: c7_valid_def)
    have u: "[0..<3] = [0, 1, 2 :: nat]" by (simp add: upt_rec)
    show ?thesis using w unfolding c7_fp3_lift_prover_def c7_fp3_lift_verifier_def lift_keys_def u
      by (auto simp: Let_def eval_nat_numeral
          intro!: c7_mac.valid_add z row [unfolded numeral_2_eq_2 One_nat_def])
  qed
  show ?thesis unfolding delta_def [symmetric] using v w
    by (auto simp: Let_def c7_fp3_transfer_prover_def c7_fp3_transfer_verifier_def c7_valid_def algebra_simps)
qed

end
