(* ===== verification/Corr_Ledger.thy ===== *)
theory Corr_Ledger
  imports Transcript
begin

text \<open>
  The bookkeeping half of \<^verbatim>\<open>volta-mac/src/corr.rs\<close>: packed correlation indices, the one-time-use domain
  ledger with its atomic reservations, the progress of a reserved batch, and the optional schedule
  recorder with its canonical audit. Hash maps are maps; a count that the source converts from
  \<^verbatim>\<open>usize\<close> to \<^verbatim>\<open>u64\<close> is a \<open>nat\<close>, since the conversion never fails on a 64-bit target.
\<close>

section \<open>Indices\<close>

definition TAG_BIT :: u64 where "TAG_BIT = push_bit 63 1"
definition FULL_BIT :: u64 where "FULL_BIT = push_bit 62 1"
definition LEDGER_SHADOW_BIT :: u64 where "LEDGER_SHADOW_BIT = push_bit 61 1"
definition FULL_BIT_SHADOW :: u64 where "FULL_BIT_SHADOW = LEDGER_SHADOW_BIT"
definition RESERVED_DOMAIN_BITS :: u64 where
  "RESERVED_DOMAIN_BITS = TAG_BIT OR FULL_BIT OR LEDGER_SHADOW_BIT"

record corr_index =
  ci_session :: u8
  ci_layer :: u8
  ci_head :: u8
  ci_tensor :: u8
  ci_row :: u32

definition tensor_tag :: "corr_index \<Rightarrow> u32 option" where
  "tensor_tag i =
     (if ci_session i < 0x20
      then Some (push_bit 24 (ucast (ci_session i)) OR push_bit 16 (ucast (ci_layer i))
             OR push_bit 8 (ucast (ci_head i)) OR ucast (ci_tensor i))
      else None)"

definition corr_domain :: "corr_index \<Rightarrow> u64 option" where
  "corr_domain i = map_option (\<lambda>tag. push_bit 32 (ucast tag) OR ucast (ci_row i)) (tensor_tag i)"

section \<open>Geometry\<close>

datatype corr_error =
    NoRows nat
  | NoCount nat
  | DomainOverflow nat
  | ReservedBits nat
  | GeometryOverflow nat
  | BatchEmpty
  | BatchOverflow
  | DomainReused u64
  | PoolUnderflow nat nat

record full_corr_range =
  base_domain :: u64
  range_rows :: nat
  count_per_domain :: nat

definition range_domain :: "full_corr_range \<Rightarrow> nat \<Rightarrow> u64 option" where
  "range_domain r row =
     (if row < range_rows r then checked_add (base_domain r) (word_of_nat row) else None)"

definition validate_correlation_rows :: "u64 \<Rightarrow> nat \<Rightarrow> nat \<Rightarrow> nat option" where
  "validate_correlation_rows base rows cols =
     (if rows = 0 \<or> cols = 0 then None
      else case checked_add base (word_of_nat (rows - 1)) of
          None \<Rightarrow> None
        | Some last_domain \<Rightarrow>
            if base AND RESERVED_DOMAIN_BITS = 0 \<and> last_domain AND RESERVED_DOMAIN_BITS = 0
               \<and> rows * cols < 2 ^ 64
            then Some (rows * cols) else None)"

definition try_validate_full_corr_range :: "full_corr_range \<Rightarrow> nat \<Rightarrow> corr_error + nat" where
  "try_validate_full_corr_range r index =
     (if range_rows r = 0 then Inl (NoRows index)
      else if count_per_domain r = 0 then Inl (NoCount index)
      else case checked_add (base_domain r) (word_of_nat (range_rows r - 1)) of
          None \<Rightarrow> Inl (DomainOverflow index)
        | Some last_domain \<Rightarrow>
            if base_domain r AND RESERVED_DOMAIN_BITS \<noteq> 0 \<or> last_domain AND RESERVED_DOMAIN_BITS \<noteq> 0
            then Inl (ReservedBits index)
            else if 2 ^ 64 \<le> range_rows r * count_per_domain r then Inl (GeometryOverflow index)
            else Inr (range_rows r * count_per_domain r))"

section \<open>The ledger\<close>

record domain_ledger =
  consumed :: "u64 \<rightharpoonup> nat"
  reserved :: "u64 \<rightharpoonup> nat"

definition empty_ledger :: domain_ledger where
  "empty_ledger = \<lparr>consumed = Map.empty, reserved = Map.empty\<rparr>"

definition ledger_open :: "u64 \<Rightarrow> nat \<Rightarrow> domain_ledger \<Rightarrow> domain_ledger option" where
  "ledger_open domain n l =
     (if domain AND (TAG_BIT OR FULL_BIT) \<noteq> 0 then None
      else
        case (case reserved l domain of
                None \<Rightarrow> Some l
              | Some r \<Rightarrow> if r = n then Some (l\<lparr>reserved := (reserved l)(domain := None)\<rparr>) else None) of
          None \<Rightarrow> None
        | Some l \<Rightarrow>
            if consumed l domain \<noteq> None then None
            else Some (l\<lparr>consumed := (consumed l)(domain \<mapsto> n)\<rparr>))"

definition row_domains :: "u64 \<Rightarrow> nat \<Rightarrow> u64 list" where
  "row_domains base rows = map (\<lambda>row. base + word_of_nat row) [0..<rows]"

definition open_sub_rows :: "u64 \<Rightarrow> nat \<Rightarrow> nat \<Rightarrow> domain_ledger \<Rightarrow> domain_ledger option" where
  "open_sub_rows base rows cols l =
     (if \<forall>d \<in> set (row_domains base rows). consumed l d = None \<and> reserved l d = None
      then Some (foldl (\<lambda>l d. l\<lparr>consumed := (consumed l)(d \<mapsto> cols)\<rparr>) l (row_domains base rows))
      else None)"

fun reserve_rows ::
  "domain_ledger \<Rightarrow> (full_corr_range \<times> nat) list \<Rightarrow> (u64 \<rightharpoonup> nat)
   \<Rightarrow> (corr_error + (u64 \<rightharpoonup> nat)) option" where
  "reserve_rows l [] pending = Some (Inr pending)"
| "reserve_rows l ((rg, row) # rest) pending =
     (case range_domain rg row of
        None \<Rightarrow> None
      | Some domain \<Rightarrow>
          let key = domain OR FULL_BIT_SHADOW in
          if consumed l key \<noteq> None \<or> reserved l key \<noteq> None \<or> pending key \<noteq> None
          then Some (Inl (DomainReused domain))
          else reserve_rows l rest (pending(key \<mapsto> count_per_domain rg)))"

definition range_row_list :: "full_corr_range list \<Rightarrow> (full_corr_range \<times> nat) list" where
  "range_row_list ranges = concat (map (\<lambda>r. map (Pair r) [0..<range_rows r]) ranges)"

definition try_reserve_full_ranges ::
  "full_corr_range list \<Rightarrow> domain_ledger \<Rightarrow> ((corr_error + unit) \<times> domain_ledger) option" where
  "try_reserve_full_ranges ranges l =
     (case reserve_rows l (range_row_list ranges) Map.empty of
        None \<Rightarrow> None
      | Some (Inl e) \<Rightarrow> Some (Inl e, l)
      | Some (Inr pending) \<Rightarrow> Some (Inr (), l\<lparr>reserved := reserved l ++ pending\<rparr>))"

definition cancel_full_reservation :: "u64 \<Rightarrow> nat \<Rightarrow> domain_ledger \<Rightarrow> domain_ledger" where
  "cancel_full_reservation domain count l =
     (let key = domain OR FULL_BIT_SHADOW in
      if reserved l key = Some count then l\<lparr>reserved := (reserved l)(key := None)\<rparr> else l)"

section \<open>The progress of a reserved batch\<close>

record full_reservation_progress =
  frp_ranges :: "full_corr_range list"
  frp_drawn :: "bool list list"

fun validate_ranges :: "full_corr_range list \<Rightarrow> nat \<Rightarrow> nat \<Rightarrow> corr_error + nat" where
  "validate_ranges [] index sum_so_far = Inr sum_so_far"
| "validate_ranges (r # rs) index sum_so_far =
     (case try_validate_full_corr_range r index of
        Inl e \<Rightarrow> Inl e
      | Inr n \<Rightarrow> if 2 ^ 64 \<le> sum_so_far + n then Inl BatchOverflow else validate_ranges rs (Suc index) (sum_so_far + n))"

definition progress_try_new :: "full_corr_range list \<Rightarrow> corr_error + full_reservation_progress \<times> nat" where
  "progress_try_new ranges =
     (if ranges = [] then Inl BatchEmpty
      else case validate_ranges ranges 0 0 of
          Inl e \<Rightarrow> Inl e
        | Inr sum_so_far \<Rightarrow>
            Inr (\<lparr>frp_ranges = ranges, frp_drawn = map (\<lambda>r. replicate (range_rows r) False) ranges\<rparr>, sum_so_far))"

definition progress_pending :: "full_reservation_progress \<Rightarrow> nat \<Rightarrow> nat \<Rightarrow> full_corr_range option" where
  "progress_pending p rg row =
     (if rg < length (frp_ranges p) then
        let spec = frp_ranges p ! rg in
        if row < range_rows spec \<and> \<not> frp_drawn p ! rg ! row then Some spec else None
      else None)"

definition mark_drawn :: "nat \<Rightarrow> nat \<Rightarrow> full_reservation_progress \<Rightarrow> full_reservation_progress" where
  "mark_drawn rg row p =
     p\<lparr>frp_drawn := (frp_drawn p)[rg := (frp_drawn p ! rg)[row := True]]\<rparr>"

definition progress_is_complete :: "full_reservation_progress \<Rightarrow> bool" where
  "progress_is_complete p \<longleftrightarrow> list_all id (concat (frp_drawn p))"

fun cancel_rows :: "((full_corr_range \<times> nat) \<times> bool) list \<Rightarrow> domain_ledger \<Rightarrow> domain_ledger option" where
  "cancel_rows [] l = Some l"
| "cancel_rows (((rg, row), was_drawn) # rest) l =
     (if was_drawn then cancel_rows rest l
      else case range_domain rg row of
          None \<Rightarrow> None
        | Some domain \<Rightarrow> cancel_rows rest (cancel_full_reservation domain (count_per_domain rg) l))"

definition cancel_remaining :: "full_reservation_progress \<Rightarrow> domain_ledger \<Rightarrow> domain_ledger option" where
  "cancel_remaining p l = cancel_rows (zip (range_row_list (frp_ranges p)) (concat (frp_drawn p))) l"

section \<open>The schedule recorder\<close>

datatype schedule_kind = Subfield | FullField
datatype schedule_role = DirectCorrection | ProductMask

fun kind_byte :: "schedule_kind \<Rightarrow> u8" where
  "kind_byte Subfield = 1" | "kind_byte FullField = 2"

fun role_byte :: "schedule_role \<Rightarrow> u8" where
  "role_byte DirectCorrection = 1" | "role_byte ProductMask = 2"

record schedule_draw =
  sd_ordinal :: u64
  sd_kind :: schedule_kind
  sd_role :: schedule_role
  sd_product_triples :: u64
  sd_domain :: u64
  sd_global_offset :: u64
  sd_count :: u64

record corr_counters =
  sub_corrs :: u64
  full_corrs :: u64
  cc_domains :: u64

record schedule_audit =
  sa_draws :: "schedule_draw list"
  sa_counters :: corr_counters
  sa_digest :: bytes

definition zero_counters :: corr_counters where
  "zero_counters = \<lparr>sub_corrs = 0, full_corrs = 0, cc_domains = 0\<rparr>"

definition draw_bytes :: "schedule_draw \<Rightarrow> bytes" where
  "draw_bytes d = u64_le (sd_ordinal d) @ [kind_byte (sd_kind d), role_byte (sd_role d)]
     @ u64_le (sd_product_triples d) @ u64_le (sd_domain d) @ u64_le (sd_global_offset d) @ u64_le (sd_count d)"

definition schedule_digest :: "blake3 \<Rightarrow> schedule_draw list \<Rightarrow> bytes" where
  "schedule_digest H draws =
     b3_derive H ''volta/mac/correlation-schedule-audit/v1'' (concat (map draw_bytes draws))"

definition role_ok :: "schedule_draw \<Rightarrow> bool" where
  "role_ok d =
     (case sd_role d of
        DirectCorrection \<Rightarrow> sd_product_triples d = 0
      | ProductMask \<Rightarrow> sd_kind d = FullField \<and> sd_count d = 1 \<and> sd_product_triples d \<noteq> 0)"

fun canonical_loop :: "schedule_draw list \<Rightarrow> nat \<Rightarrow> u64 \<Rightarrow> u64 \<Rightarrow> (u64 \<times> u64) option" where
  "canonical_loop [] index next_sub next_full = Some (next_sub, next_full)"
| "canonical_loop (d # ds) index next_sub next_full =
     (if sd_ordinal d \<noteq> word_of_nat index \<or> sd_count d = 0 \<or> \<not> role_ok d then None
      else
        let next = (case sd_kind d of Subfield \<Rightarrow> next_sub | FullField \<Rightarrow> next_full) in
        if sd_global_offset d \<noteq> next then None
        else case checked_add next (sd_count d) of
            None \<Rightarrow> None
          | Some updated \<Rightarrow>
              (case sd_kind d of
                 Subfield \<Rightarrow> canonical_loop ds (Suc index) updated next_full
               | FullField \<Rightarrow> canonical_loop ds (Suc index) next_sub updated))"

definition audit_is_canonical :: "blake3 \<Rightarrow> schedule_audit \<Rightarrow> bool" where
  "audit_is_canonical H a =
     (case canonical_loop (sa_draws a) 0 0 0 of
        None \<Rightarrow> False
      | Some (next_sub, next_full) \<Rightarrow>
          sa_counters a = \<lparr>sub_corrs = next_sub, full_corrs = next_full,
                           cc_domains = word_of_nat (length (sa_draws a))\<rparr>
          \<and> sa_digest a = schedule_digest H (sa_draws a))"

record schedule_recorder =
  sr_draws :: "schedule_draw list"
  sr_next_sub :: u64
  sr_next_full :: u64

definition empty_recorder :: schedule_recorder where
  "empty_recorder = \<lparr>sr_draws = [], sr_next_sub = 0, sr_next_full = 0\<rparr>"

definition recorder_record ::
  "schedule_kind \<Rightarrow> schedule_role \<Rightarrow> nat \<Rightarrow> u64 \<Rightarrow> nat \<Rightarrow> schedule_recorder \<Rightarrow> schedule_recorder option" where
  "recorder_record kind role product_triples domain count r =
     (let offset = (case kind of Subfield \<Rightarrow> sr_next_sub r | FullField \<Rightarrow> sr_next_full r) in
      case checked_add offset (word_of_nat count) of
        None \<Rightarrow> None
      | Some next \<Rightarrow>
          let r = (case kind of Subfield \<Rightarrow> r\<lparr>sr_next_sub := next\<rparr> | FullField \<Rightarrow> r\<lparr>sr_next_full := next\<rparr>) in
          Some (r\<lparr>sr_draws := sr_draws r @
            [\<lparr>sd_ordinal = word_of_nat (length (sr_draws r)), sd_kind = kind, sd_role = role,
              sd_product_triples = word_of_nat product_triples, sd_domain = domain,
              sd_global_offset = offset, sd_count = word_of_nat count\<rparr>]\<rparr>))"

definition recorder_snapshot :: "blake3 \<Rightarrow> schedule_recorder \<Rightarrow> schedule_audit" where
  "recorder_snapshot H r =
     \<lparr>sa_draws = sr_draws r,
      sa_counters = \<lparr>sub_corrs = sr_next_sub r, full_corrs = sr_next_full r,
                     cc_domains = word_of_nat (length (sr_draws r))\<rparr>,
      sa_digest = schedule_digest H (sr_draws r)\<rparr>"

section \<open>Indices are injective\<close>

lemmas domain_bits = TAG_BIT_def FULL_BIT_def LEDGER_SHADOW_BIT_def FULL_BIT_SHADOW_def RESERVED_DOMAIN_BITS_def

lemma domain_row: "ucast (push_bit 32 (ucast (tag :: u32)) OR ucast (row :: u32) :: u64) = row"
  by (rule bit_word_eqI) (auto simp: bit_simps)

lemma domain_tag: "ucast (drop_bit 32 (push_bit 32 (ucast (tag :: u32)) OR ucast (row :: u32) :: u64)) = tag"
  by (rule bit_word_eqI) (auto simp: bit_simps dest: bit_imp_le_length)

lemma tag_fields:
  fixes s l h t :: u8
  defines "tag \<equiv> push_bit 24 (ucast s) OR push_bit 16 (ucast l) OR push_bit 8 (ucast h) OR ucast t :: u32"
  shows "ucast tag = t" "ucast (drop_bit 8 tag) = h" "ucast (drop_bit 16 tag) = l" "ucast (drop_bit 24 tag) = s"
  unfolding tag_def by (rule bit_word_eqI; auto simp: bit_simps dest: bit_imp_le_length)+

lemma corr_domain_fields:
  assumes "corr_domain i = Some d"
  shows "ucast d = ci_row i" "ucast (ucast (drop_bit 32 d) :: u32) = ci_tensor i"
    "ucast (drop_bit 8 (ucast (drop_bit 32 d) :: u32)) = ci_head i"
    "ucast (drop_bit 16 (ucast (drop_bit 32 d) :: u32)) = ci_layer i"
    "ucast (drop_bit 24 (ucast (drop_bit 32 d) :: u32)) = ci_session i"
proof -
  let ?tag = "push_bit 24 (ucast (ci_session i)) OR push_bit 16 (ucast (ci_layer i))
     OR push_bit 8 (ucast (ci_head i)) OR ucast (ci_tensor i) :: u32"
  have d: "d = push_bit 32 (ucast ?tag) OR ucast (ci_row i)"
    using assms by (simp add: corr_domain_def tensor_tag_def split: if_splits)
  show "ucast d = ci_row i" "ucast (ucast (drop_bit 32 d) :: u32) = ci_tensor i"
    "ucast (drop_bit 8 (ucast (drop_bit 32 d) :: u32)) = ci_head i"
    "ucast (drop_bit 16 (ucast (drop_bit 32 d) :: u32)) = ci_layer i"
    "ucast (drop_bit 24 (ucast (drop_bit 32 d) :: u32)) = ci_session i"
    unfolding d by (simp_all only: domain_row domain_tag tag_fields)
qed

lemma reserved_clear_iff: "(d :: u64) AND RESERVED_DOMAIN_BITS = 0 \<longleftrightarrow> \<not> bit d 61 \<and> \<not> bit d 62 \<and> \<not> bit d 63"
proof -
  have r: "bit RESERVED_DOMAIN_BITS n \<longleftrightarrow> n = 61 \<or> n = 62 \<or> n = 63" for n
    unfolding domain_bits bit_or_iff bit_push_bit_iff bit_1_iff by auto
  have "\<not> (bit d n \<and> bit RESERVED_DOMAIN_BITS n)" if "d AND RESERVED_DOMAIN_BITS = 0" for n
  proof -
    have "bit (d AND RESERVED_DOMAIN_BITS) n \<longleftrightarrow> bit d n \<and> bit RESERVED_DOMAIN_BITS n" by (rule bit_and_iff)
    then show ?thesis using that by simp
  qed
  moreover have "d AND RESERVED_DOMAIN_BITS = 0" if "\<not> bit d 61 \<and> \<not> bit d 62 \<and> \<not> bit d 63"
    by (rule bit_word_eqI) (use that in \<open>auto simp: bit_and_iff r\<close>)
  ultimately show ?thesis using r by blast
qed

lemma bit_high: "8 \<le> n \<Longrightarrow> \<not> bit (w :: u8) n" "32 \<le> n \<Longrightarrow> \<not> bit (v :: u32) n"
  by (auto dest: bit_imp_le_length)

lemma session_high_bits: "(s :: u8) < 0x20 \<Longrightarrow> \<not> bit s 5 \<and> \<not> bit s 6 \<and> \<not> bit s 7"
proof -
  assume "s < 0x20"
  then have "unat s < 2 ^ 5" by (simp add: word_less_nat_alt)
  then have "take_bit 5 (unat s) = unat s" by (simp add: take_bit_nat_eq_self)
  then have "\<not> bit (unat s) n" if "5 \<le> n" for n
    using that by (metis bit_take_bit_iff not_le)
  then show ?thesis by (simp add: bit_unsigned_iff)
qed

lemma corr_domain_clear:
  assumes "corr_domain i = Some d"
  shows "d AND RESERVED_DOMAIN_BITS = 0"
proof -
  have s: "ci_session i < 0x20" using assms by (auto simp: corr_domain_def tensor_tag_def split: if_splits)
  show ?thesis using assms session_high_bits [OF s] unfolding reserved_clear_iff
    by (auto simp: corr_domain_def tensor_tag_def bit_simps bit_high split: if_splits)
qed

section \<open>One-time use\<close>

text \<open>
  The ledger as a machine: a full-field draw, a block of subfield rows, a reservation, a cancellation.
  The output of an operation is the list of keys it consumes.
\<close>

datatype ledger_op =
    LOpen u64 nat
  | LSubRows u64 nat nat
  | LReserve "full_corr_range list"
  | LCancel u64 nat

fun ledger_step :: "ledger_op \<Rightarrow> domain_ledger \<Rightarrow> (u64 list \<times> domain_ledger) option" where
  "ledger_step (LOpen d n) l = map_option (Pair [d OR FULL_BIT_SHADOW]) (ledger_open (d OR FULL_BIT_SHADOW) n l)"
| "ledger_step (LSubRows base rows cols) l =
     (case validate_correlation_rows base rows cols of
        None \<Rightarrow> None
      | Some _ \<Rightarrow> map_option (Pair (row_domains base rows)) (open_sub_rows base rows cols l))"
| "ledger_step (LReserve ranges) l = map_option (\<lambda>(r, l'). ([], l')) (try_reserve_full_ranges ranges l)"
| "ledger_step (LCancel d n) l = Some ([], cancel_full_reservation d n l)"

lemma ledger_open_Some:
  "ledger_open d n l = Some l' \<Longrightarrow> consumed l d = None \<and> consumed l' = (consumed l)(d \<mapsto> n)
     \<and> reserved l' = (reserved l)(d := None)"
  by (auto simp: ledger_open_def fun_upd_idem split: if_splits option.splits)

lemma foldl_consumed:
  "consumed (foldl (\<lambda>l d. l\<lparr>consumed := (consumed l)(d \<mapsto> cols)\<rparr>) l ds) d
     = (if d \<in> set ds then Some cols else consumed l d)"
  "reserved (foldl (\<lambda>l d. l\<lparr>consumed := (consumed l)(d \<mapsto> cols)\<rparr>) l ds) = reserved l"
  by (induction ds arbitrary: l) auto

lemma open_sub_rows_Some:
  "open_sub_rows base rows cols l = Some l' \<Longrightarrow>
     (\<forall>d \<in> set (row_domains base rows). consumed l d = None)
     \<and> (\<forall>d. consumed l' d = (if d \<in> set (row_domains base rows) then Some cols else consumed l d))
     \<and> reserved l' = reserved l"
  by (auto simp: open_sub_rows_def foldl_consumed split: if_splits)

lemma uint_small: "n < 2 ^ 64 \<Longrightarrow> uint (word_of_nat n :: u64) = int n"
  by (simp add: unsigned_of_nat take_bit_nat_eq_self)

lemma validate_rows_fit:
  assumes "validate_correlation_rows base rows cols = Some t"
  shows "unat base + rows \<le> 2 ^ 64"
proof -
  have r: "0 < rows" "0 < cols" "rows * cols < 2 ^ 64"
    using assms by (auto simp: validate_correlation_rows_def split: if_splits option.splits)
  have "rows \<le> rows * cols" using r(2) by simp
  then have "rows < 2 ^ 64" using r(3) by (rule le_less_trans)
  then have "rows - 1 < 2 ^ 64" by linarith
  then have u: "uint (word_of_nat (rows - 1) :: u64) = int (rows - 1)" by (rule uint_small)
  have "checked_add base (word_of_nat (rows - 1)) \<noteq> None"
    using assms by (auto simp: validate_correlation_rows_def split: if_splits option.splits)
  then have "uint base + int (rows - 1) < 2 ^ 64" using u by (auto simp: checked_add_def split: if_splits)
  moreover have "int (unat base) = uint base" by simp
  ultimately have "int (unat base + rows) \<le> 2 ^ 64" using r(1) by linarith
  then show ?thesis by (metis of_nat_le_iff of_nat_numeral of_nat_power)
qed

lemma row_domains_distinct:
  assumes "rows \<le> 2 ^ 64"
  shows "distinct (row_domains base rows)"
proof -
  have "inj_on (\<lambda>row. base + word_of_nat row) {0..<rows}"
  proof (rule inj_onI)
    fix x y assume "x \<in> {0..<rows}" "y \<in> {0..<rows}" "base + word_of_nat x = base + word_of_nat y"
    then have "(word_of_nat x :: u64) = word_of_nat y" "x < 2 ^ 64" "y < 2 ^ 64" using assms by auto
    then have "unat (word_of_nat x :: u64) = unat (word_of_nat y :: u64)" by simp
    then show "x = y" using \<open>x < 2 ^ 64\<close> \<open>y < 2 ^ 64\<close> by (simp add: unat_of_nat take_bit_nat_eq_self)
  qed
  then show ?thesis by (simp add: row_domains_def distinct_map)
qed

lemma ledger_step_keys:
  assumes "ledger_step op l = Some (keys, l')"
  shows "distinct keys \<and> set keys \<inter> dom (consumed l) = {} \<and> dom (consumed l') = dom (consumed l) \<union> set keys"
proof (cases op)
  case (LOpen d n)
  then show ?thesis using assms by (auto dest!: ledger_open_Some)
next
  case (LSubRows base rows cols)
  then obtain t where v: "validate_correlation_rows base rows cols = Some t"
    and k: "keys = row_domains base rows" "open_sub_rows base rows cols l = Some l'"
    using assms by (auto split: option.splits)
  have "rows \<le> 2 ^ 64" using validate_rows_fit [OF v] by linarith
  then show ?thesis using open_sub_rows_Some [OF k(2)] k(1) row_domains_distinct
    by (auto simp: dom_def)
next
  case (LReserve ranges)
  then show ?thesis using assms by (auto simp: try_reserve_full_ranges_def split: option.splits sum.splits)
next
  case (LCancel d n)
  then show ?thesis using assms by (auto simp: cancel_full_reservation_def Let_def split: if_splits)
qed

lemma ledger_run_keys:
  assumes "run_machine ledger_step ops l = Some (outs, l')"
  shows "distinct (concat outs) \<and> set (concat outs) \<inter> dom (consumed l) = {}
    \<and> dom (consumed l') = dom (consumed l) \<union> set (concat outs)"
  using assms
proof (induction ops arbitrary: l outs)
  case (Cons op ops)
  from Cons.prems obtain out l1 outs1 where s: "ledger_step op l = Some (out, l1)"
    "run_machine ledger_step ops l1 = Some (outs1, l')" "outs = out # outs1" by (rule run_machine_Cons_Some)
  show ?case using Cons.IH [OF s(2)] ledger_step_keys [OF s(1)] s(3) by auto
qed simp

section \<open>Reservations\<close>

definition row_key :: "full_corr_range \<times> nat \<Rightarrow> u64 option" where
  "row_key x = map_option (\<lambda>d. d OR FULL_BIT_SHADOW) (range_domain (fst x) (snd x))"

lemma reserve_rows_Inr:
  assumes "reserve_rows l xs pending = Some (Inr p)"
  shows "(\<forall>k \<in> dom pending. p k = pending k)
    \<and> (\<forall>x \<in> set xs. \<exists>k. row_key x = Some k \<and> p k = Some (count_per_domain (fst x)))
    \<and> dom p = dom pending \<union> {k. \<exists>x \<in> set xs. row_key x = Some k}
    \<and> (\<forall>x \<in> set xs. \<forall>k. row_key x = Some k \<longrightarrow> consumed l k = None \<and> reserved l k = None)"
  using assms
proof (induction xs arbitrary: pending)
  case (Cons x xs)
  obtain r row where x: "x = (r, row)" by (cases x)
  from Cons.prems obtain d where d: "range_domain r row = Some d"
    "consumed l (d OR FULL_BIT_SHADOW) = None" "reserved l (d OR FULL_BIT_SHADOW) = None"
    "pending (d OR FULL_BIT_SHADOW) = None"
    "reserve_rows l xs (pending(d OR FULL_BIT_SHADOW \<mapsto> count_per_domain r)) = Some (Inr p)"
    by (auto simp: x Let_def split: option.splits if_splits)
  have k: "row_key x = Some (d OR FULL_BIT_SHADOW)" using d(1) x by (simp add: row_key_def)
  show ?case using Cons.IH [OF d(5)] d(2-4) k x by (auto simp: dom_def split: if_splits)
qed auto

lemma cancel_rows_fresh:
  assumes "\<forall>x \<in> set xs. \<exists>k. row_key x = Some k"
  shows "\<exists>l'. cancel_rows (zip xs (replicate (length xs) False)) l = Some l' \<and> consumed l' = consumed l
    \<and> (\<forall>k. reserved l' k =
        (if \<exists>x \<in> set xs. row_key x = Some k \<and> reserved l k = Some (count_per_domain (fst x))
         then None else reserved l k))"
  using assms
proof (induction xs arbitrary: l)
  case (Cons x xs)
  obtain r row where x: "x = (r, row)" by (cases x)
  obtain d where d: "range_domain r row = Some d" using Cons.prems x by (auto simp: row_key_def)
  let ?l = "cancel_full_reservation d (count_per_domain r) l"
  have k: "row_key x = Some (d OR FULL_BIT_SHADOW)" using d x by (simp add: row_key_def)
  obtain l' where l': "cancel_rows (zip xs (replicate (length xs) False)) ?l = Some l'" "consumed l' = consumed ?l"
    "\<And>k. reserved l' k =
        (if \<exists>x \<in> set xs. row_key x = Some k \<and> reserved ?l k = Some (count_per_domain (fst x))
         then None else reserved ?l k)" using Cons.IH [of ?l] Cons.prems by auto
  have "cancel_rows (zip (x # xs) (replicate (length (x # xs)) False)) l = Some l'"
    using l'(1) x d by simp
  moreover have "consumed l' = consumed l" using l'(2) by (simp add: cancel_full_reservation_def Let_def)
  moreover have "reserved l' j =
        (if \<exists>y \<in> set (x # xs). row_key y = Some j \<and> reserved l j = Some (count_per_domain (fst y))
         then None else reserved l j)" for j
    unfolding l'(3) using k x by (auto simp: cancel_full_reservation_def Let_def split: if_splits)
  ultimately show ?case by blast
qed simp

lemma concat_replicates:
  "concat (map (\<lambda>r. replicate (range_rows r) False) ranges) = replicate (length (range_row_list ranges)) False"
  by (induction ranges) (simp_all add: range_row_list_def replicate_add)

section \<open>The recorder\<close>

lemma canonical_loop_append:
  "canonical_loop (ds @ [d]) index s f =
     (case canonical_loop ds index s f of None \<Rightarrow> None | Some (s', f') \<Rightarrow> canonical_loop [d] (index + length ds) s' f')"
  by (induction ds arbitrary: index s f) (auto simp: Let_def split: option.splits schedule_kind.splits)

definition recorder_ok :: "schedule_recorder \<Rightarrow> bool" where
  "recorder_ok r \<longleftrightarrow> canonical_loop (sr_draws r) 0 0 0 = Some (sr_next_sub r, sr_next_full r)"

text \<open>What the callers of \<^verbatim>\<open>record\<close> check before the call.\<close>

definition record_args_ok :: "schedule_kind \<Rightarrow> schedule_role \<Rightarrow> nat \<Rightarrow> nat \<Rightarrow> bool" where
  "record_args_ok kind role triples count \<longleftrightarrow> 0 < count \<and> count < 2 ^ 64 \<and> triples < 2 ^ 64
     \<and> (case role of DirectCorrection \<Rightarrow> triples = 0
        | ProductMask \<Rightarrow> kind = FullField \<and> count = 1 \<and> triples \<noteq> 0)"

lemma word_of_nat_ne_0: "0 < n \<Longrightarrow> n < 2 ^ 64 \<Longrightarrow> (word_of_nat n :: u64) \<noteq> 0"
  by (simp add: unat_eq_0 [symmetric] unat_of_nat take_bit_nat_eq_self del: unat_eq_0)

lemma recorder_record_ok:
  assumes "recorder_record kind role triples domain count r = Some r'" "recorder_ok r"
    and "record_args_ok kind role triples count"
  shows "recorder_ok r'"
proof -
  have c: "(word_of_nat count :: u64) \<noteq> 0" using assms(3) by (auto simp: record_args_ok_def word_of_nat_ne_0)
  have t: "triples \<noteq> 0 \<Longrightarrow> (word_of_nat triples :: u64) \<noteq> 0"
    using assms(3) word_of_nat_ne_0 by (auto simp: record_args_ok_def)
  show ?thesis using assms c t
    by (auto simp: recorder_record_def recorder_ok_def record_args_ok_def canonical_loop_append role_ok_def Let_def
        split: option.splits schedule_kind.splits schedule_role.splits)
qed

interpretation recorder_machine: machine_invariant
  "\<lambda>(kind, role, triples, domain, count) r.
      if record_args_ok kind role triples count
      then map_option (Pair ()) (recorder_record kind role triples domain count r) else None"
  recorder_ok
  by unfold_locales (auto split: if_splits intro: recorder_record_ok)

section \<open>Validated rows are legal\<close>

lemma clear_less: "(d :: u64) AND RESERVED_DOMAIN_BITS = 0 \<longleftrightarrow> unat d < 2 ^ 61"
proof
  assume "d AND RESERVED_DOMAIN_BITS = 0"
  then have b: "\<not> bit d 61" "\<not> bit d 62" "\<not> bit d 63" by (simp_all add: reserved_clear_iff)
  have "n < 61" if "n < 64" "bit d n" for n
  proof (rule ccontr)
    assume "\<not> n < 61"
    then have "n = 61 \<or> n = 62 \<or> n = 63" using that(1) by linarith
    then show False using b that(2) by auto
  qed
  then have "take_bit 61 d = d" by (intro bit_word_eqI) (auto simp: bit_take_bit_iff)
  then have "unat d = take_bit 61 (unat d)" by (metis unsigned_take_bit_eq)
  then show "unat d < 2 ^ 61" by (metis take_bit_nat_less_exp)
next
  assume "unat d < 2 ^ 61"
  then have "take_bit 61 (unat d) = unat d" by (simp add: take_bit_nat_eq_self)
  then have "\<not> bit (unat d) n" if "61 \<le> n" for n using that by (metis bit_take_bit_iff not_le)
  then show "d AND RESERVED_DOMAIN_BITS = 0" unfolding reserved_clear_iff by (simp add: bit_unsigned_iff)
qed

lemma validate_ranges_each:
  "validate_ranges rs i t = Inr n \<Longrightarrow> r \<in> set rs \<Longrightarrow> \<exists>j m. try_validate_full_corr_range r j = Inr m"
  by (induction rs arbitrary: i t) (auto split: sum.splits if_splits)

lemma range_domain_clear:
  assumes "try_validate_full_corr_range r j = Inr m" "range_domain r row = Some d"
  shows "d AND RESERVED_DOMAIN_BITS = 0"
proof -
  obtain last_domain where v: "checked_add (base_domain r) (word_of_nat (range_rows r - 1)) = Some last_domain"
    "last_domain AND RESERVED_DOMAIN_BITS = 0" "0 < count_per_domain r" "range_rows r * count_per_domain r < 2 ^ 64"
    using assms(1) by (auto simp: try_validate_full_corr_range_def split: if_splits option.splits)
  have row: "row < range_rows r" "checked_add (base_domain r) (word_of_nat row) = Some d"
    using assms(2) by (auto simp: range_domain_def split: if_splits)
  have "range_rows r \<le> range_rows r * count_per_domain r" using v(3) by simp
  then have "range_rows r < 2 ^ 64" using v(4) by (rule le_less_trans)
  then have "row < 2 ^ 64" "range_rows r - 1 < 2 ^ 64" using row(1) by linarith+
  then have u: "uint (word_of_nat row :: u64) = int row" "uint (word_of_nat (range_rows r - 1) :: u64) = int (range_rows r - 1)"
    by (simp_all only: uint_small)
  have "uint d \<le> uint last_domain"
    using checked_add_Some [OF v(1)] checked_add_Some [OF row(2)] u row(1) by linarith
  then have "d \<le> last_domain" unfolding word_le_def .
  then have "unat d \<le> unat last_domain" unfolding word_le_nat_alt .
  then show ?thesis using v(2) unfolding clear_less by linarith
qed

lemma shadow_legal: "d AND RESERVED_DOMAIN_BITS = 0 \<Longrightarrow> (d OR FULL_BIT_SHADOW) AND (TAG_BIT OR FULL_BIT) = 0"
proof -
  assume "d AND RESERVED_DOMAIN_BITS = 0"
  then have b: "\<not> bit d 62" "\<not> bit d 63" by (simp_all add: reserved_clear_iff)
  have r: "bit (TAG_BIT OR FULL_BIT) n \<longleftrightarrow> n = 62 \<or> n = 63" "bit FULL_BIT_SHADOW n \<longleftrightarrow> n = 61" for n
    unfolding domain_bits bit_or_iff bit_push_bit_iff bit_1_iff by auto
  show ?thesis by (rule bit_word_eqI) (use b in \<open>auto simp: bit_and_iff bit_or_iff [of d] r\<close>)
qed

lemma row_key_legal:
  assumes "progress_try_new ranges = Inr (p, n)" "x \<in> set (range_row_list ranges)" "row_key x = Some k"
  shows "k AND (TAG_BIT OR FULL_BIT) = 0"
proof -
  obtain d where d: "range_domain (fst x) (snd x) = Some d" "k = d OR FULL_BIT_SHADOW"
    using assms(3) by (auto simp: row_key_def)
  have "fst x \<in> set ranges" using assms(2) by (auto simp: range_row_list_def)
  moreover obtain m where "validate_ranges ranges 0 0 = Inr m"
    using assms(1) by (auto simp: progress_try_new_def split: if_splits sum.splits)
  ultimately obtain j t where "try_validate_full_corr_range (fst x) j = Inr t" using validate_ranges_each by blast
  then show ?thesis using range_domain_clear [OF _ d(1)] shadow_legal d(2) by blast
qed

section \<open>Properties\<close>

text \<open>
  Packed correlation domains are injective: two indices with the same domain are the same index,
  and the packed domain leaves the three reserved bits clear, so it is a legal draw of either kind.
\<close>

theorem corr_domain_inject:
  assumes "corr_domain i = Some d" "corr_domain j = Some d"
  shows "i = j \<and> d AND RESERVED_DOMAIN_BITS = 0"
proof -
  have "ci_row i = ci_row j" "ci_tensor i = ci_tensor j" "ci_head i = ci_head j" "ci_layer i = ci_layer j"
    "ci_session i = ci_session j"
    using corr_domain_fields [OF assms(1)] corr_domain_fields [OF assms(2)] by simp_all
  then show ?thesis using corr_domain_clear [OF assms(1)] by simp
qed

theorem corr_domain_inject_witness:
  "corr_domain \<lparr>ci_session = 1, ci_layer = 2, ci_head = 3, ci_tensor = 4, ci_row = 5\<rparr> = Some 0x0102030400000005
   \<and> (0x0102030400000005 :: u64) AND RESERVED_DOMAIN_BITS = 0"
proof -
  have d: "corr_domain \<lparr>ci_session = 1, ci_layer = 2, ci_head = 3, ci_tensor = 4, ci_row = 5\<rparr> = Some 0x0102030400000005"
    by (simp add: corr_domain_def tensor_tag_def)
  show ?thesis using corr_domain_inject [OF d d] d by simp
qed

text \<open>
  C10. One-time use: in any sequence of full-field draws, subfield row blocks, reservations and
  cancellations that does not panic, no ledger key is consumed twice, and the ledger ends with
  exactly the consumed keys.
\<close>

theorem ledger_one_time_use:
  assumes "run_machine ledger_step ops empty_ledger = Some (outs, l)"
  shows "distinct (concat outs) \<and> dom (consumed l) = set (concat outs)"
  using ledger_run_keys [OF assms] by (simp add: empty_ledger_def)

theorem ledger_one_time_use_witness:
  "\<exists>l. run_machine ledger_step [LSubRows 7 2 3, LOpen 7 4] empty_ledger = Some ([[7, 8], [0x2000000000000007]], l)
    \<and> dom (consumed l) = {7, 8, 0x2000000000000007}"
proof -
  have u: "[0..<2] = [0, 1 :: nat]" by (simp add: upt_rec)
  obtain l where r: "run_machine ledger_step [LSubRows 7 2 3, LOpen 7 4] empty_ledger
      = Some ([[7, 8], [0x2000000000000007]], l)"
    by (simp add: validate_correlation_rows_def checked_add_def domain_bits open_sub_rows_def row_domains_def u
        empty_ledger_def ledger_open_def)
  show ?thesis using ledger_one_time_use [OF r] r by auto
qed

text \<open>
  A reservation of full-field rows is atomic and usable: if it succeeds, every row of every range
  can be drawn with the reserved count, and aborting it before any draw gives the ledger back as it
  was.
\<close>

theorem reservation_usable_and_abortable:
  assumes "progress_try_new ranges = Inr (p, n)" "try_reserve_full_ranges ranges l = Some (Inr (), l')"
  shows "(\<forall>x \<in> set (range_row_list ranges). \<exists>k l2. row_key x = Some k
      \<and> ledger_open k (count_per_domain (fst x)) l' = Some l2 \<and> consumed l2 = (consumed l)(k \<mapsto> count_per_domain (fst x)))
    \<and> cancel_remaining p l' = Some l"
proof -
  obtain pend where r: "reserve_rows l (range_row_list ranges) Map.empty = Some (Inr pend)"
    and l': "l' = l\<lparr>reserved := reserved l ++ pend\<rparr>"
    using assms(2) by (auto simp: try_reserve_full_ranges_def split: option.splits sum.splits)
  note R = reserve_rows_Inr [OF r, simplified]
  have p: "frp_ranges p = ranges" "frp_drawn p = map (\<lambda>r. replicate (range_rows r) False) ranges"
    using assms(1) by (auto simp: progress_try_new_def split: if_splits sum.splits)
  have "\<exists>l2. ledger_open k (count_per_domain (fst x)) l' = Some l2 \<and> consumed l2 = (consumed l)(k \<mapsto> count_per_domain (fst x))"
    if x: "x \<in> set (range_row_list ranges)" "row_key x = Some k" for x k
  proof -
    have "pend k = Some (count_per_domain (fst x))" using R x by fastforce
    moreover have "consumed l k = None" using R x by blast
    moreover have "k AND (TAG_BIT OR FULL_BIT) = 0" using row_key_legal [OF assms(1) x] .
    ultimately show ?thesis by (simp add: ledger_open_def l' map_add_def)
  qed
  then have usable: "\<forall>x \<in> set (range_row_list ranges). \<exists>k l2. row_key x = Some k
      \<and> ledger_open k (count_per_domain (fst x)) l' = Some l2 \<and> consumed l2 = (consumed l)(k \<mapsto> count_per_domain (fst x))"
    using R by blast
  obtain l3 where c: "cancel_remaining p l' = Some l3" "consumed l3 = consumed l'"
    "\<And>k. reserved l3 k = (if \<exists>x \<in> set (range_row_list ranges). row_key x = Some k
        \<and> reserved l' k = Some (count_per_domain (fst x)) then None else reserved l' k)"
    using cancel_rows_fresh [of "range_row_list ranges" l'] R unfolding cancel_remaining_def p concat_replicates by blast
  have "reserved l3 k = reserved l k" for k
  proof (cases "k \<in> dom pend")
    case True
    then obtain x where "x \<in> set (range_row_list ranges)" "row_key x = Some k"
      "pend k = Some (count_per_domain (fst x))" using R by fastforce
    moreover from this have "reserved l k = None" using R by blast
    ultimately show ?thesis unfolding c(3) l' by (auto simp: map_add_def)
  next
    case False
    then have "\<not> (\<exists>x \<in> set (range_row_list ranges). row_key x = Some k)" "pend k = None" using R by auto
    then show ?thesis unfolding c(3) l' by (auto simp: map_add_def)
  qed
  then have "l3 = l" using c(2) l' by (cases l; cases l3) (simp add: fun_eq_iff)
  then show ?thesis using usable c(1) by simp
qed

theorem reservation_usable_and_abortable_witness:
  "\<exists>p n l'. progress_try_new [\<lparr>base_domain = 5, range_rows = 1, count_per_domain = 3\<rparr>] = Inr (p, n)
    \<and> try_reserve_full_ranges [\<lparr>base_domain = 5, range_rows = 1, count_per_domain = 3\<rparr>] empty_ledger = Some (Inr (), l')
    \<and> cancel_remaining p l' = Some empty_ledger"
proof -
  let ?r = "[\<lparr>base_domain = 5, range_rows = 1, count_per_domain = 3\<rparr>]"
  obtain p n where p: "progress_try_new ?r = Inr (p, n)"
    by (simp add: progress_try_new_def try_validate_full_corr_range_def checked_add_def domain_bits)
  obtain l' where l': "try_reserve_full_ranges ?r empty_ledger = Some (Inr (), l')"
    by (simp add: try_reserve_full_ranges_def range_row_list_def range_domain_def checked_add_def empty_ledger_def)
  show ?thesis using reservation_usable_and_abortable [OF p l'] p l' by blast
qed

text \<open>
  Whatever draws the recorder has accepted, with the argument checks its callers make, its snapshot
  is a canonical audit: ordinals, per-kind offsets, counters and digest recompute.
\<close>

theorem recorder_snapshot_canonical:
  assumes "run_machine (\<lambda>(kind, role, triples, domain, count) r.
      if record_args_ok kind role triples count
      then map_option (Pair ()) (recorder_record kind role triples domain count r) else None)
    draws empty_recorder = Some (outs, r)"
  shows "audit_is_canonical H (recorder_snapshot H r)"
proof -
  have "recorder_ok r"
  proof (rule recorder_machine.run_inv [OF assms])
    show "recorder_ok empty_recorder" by (simp add: recorder_ok_def empty_recorder_def)
  qed
  then show ?thesis by (simp add: recorder_ok_def audit_is_canonical_def recorder_snapshot_def)
qed

theorem recorder_snapshot_canonical_witness:
  "\<exists>r. recorder_record FullField ProductMask 7 40 1 empty_recorder = Some r
     \<and> audit_is_canonical \<lparr>b3_hash = (\<lambda>b. b), b3_derive = (\<lambda>d b. b)\<rparr>
         (recorder_snapshot \<lparr>b3_hash = (\<lambda>b. b), b3_derive = (\<lambda>d b. b)\<rparr> r)"
proof -
  obtain r where r: "recorder_record FullField ProductMask 7 40 1 empty_recorder = Some r"
    by (simp add: recorder_record_def empty_recorder_def checked_add_def)
  then show ?thesis
    using recorder_snapshot_canonical [of "[(FullField, ProductMask, 7, 40, 1)]"]
    by (simp add: record_args_ok_def)
qed

end
