(* ===== verification/Corr.thy ===== *)
theory Corr
  imports Corr_Ledger Mac
begin

text \<open>
  The two correlation expanders of \<^verbatim>\<open>volta-mac/src/corr.rs\<close>: the prover's \<^verbatim>\<open>CorrelationStream\<close> and the
  verifier's \<^verbatim>\<open>VerifierCtx\<close>, over the mock backend (a shared ChaCha seed) and over the pooled backend
  (preprocessed correlations with allocation cursors), and the authentication of tensors with them
  (\<^verbatim>\<open>volta-mac/src/auth.rs\<close>) and the complete exchange of \<^verbatim>\<open>open.rs\<close>. The opt-in C6 witness sidecars are
  off, as in every ordinary profile. The main result is lockstep: two expanders that start as
  twins stay twins over the same draws, and what they draw satisfies the MAC relation.
\<close>

section \<open>Data\<close>

record sub_corr =
  sc_r :: fp
  sc_m :: fp2

record full_vole =
  fv_x :: fp2
  fv_m :: fp2

definition sub_authenticate :: "sub_corr \<Rightarrow> fp \<Rightarrow> prover_sub_authed" where
  "sub_authenticate c x = sub_authed_new x (sc_m c)"

datatype sub_mask_rows_reservation =
    ChaCha8 bytes u64 nat nat
  | Host "fp list" nat nat

fun reservation_rows :: "sub_mask_rows_reservation \<Rightarrow> nat" where
  "reservation_rows (ChaCha8 _ _ rows _) = rows"
| "reservation_rows (Host _ rows _) = rows"

fun reservation_cols :: "sub_mask_rows_reservation \<Rightarrow> nat" where
  "reservation_cols (ChaCha8 _ _ _ cols) = cols"
| "reservation_cols (Host _ _ cols) = cols"

fun host_rows :: "chacha \<Rightarrow> bytes \<Rightarrow> nat \<Rightarrow> u64 list \<Rightarrow> fp list option" where
  "host_rows chacha seed cols [] = Some []"
| "host_rows chacha seed cols (d # ds) =
     do { (row, _) \<leftarrow> next_fps cols (fp_stream_domain_separated chacha seed d);
          rest \<leftarrow> host_rows chacha seed cols ds;
          Some (row @ rest) }"

definition into_host_masks :: "chacha \<Rightarrow> sub_mask_rows_reservation \<Rightarrow> fp list option" where
  "into_host_masks chacha res =
     (case res of
        ChaCha8 seed base rows cols \<Rightarrow> host_rows chacha seed cols (row_domains base rows)
      | Host masks rows cols \<Rightarrow> if length masks = rows * cols then Some masks else None)"

record logical_allocation =
  la_next_sub :: nat
  la_next_full :: nat
  la_hasher :: bytes

definition record_alloc :: "bytes \<Rightarrow> bytes \<Rightarrow> u64 \<Rightarrow> nat \<Rightarrow> nat \<Rightarrow> bytes" where
  "record_alloc h kind domain off n =
     h @ kind @ u64_le domain @ u64_le (word_of_nat off) @ u64_le (word_of_nat n)"

record connection_scope =
  connection_id :: bytes
  response_nonce :: bytes

definition allocation_hasher :: "connection_scope option \<Rightarrow> bytes" where
  "allocation_hasher scope =
     (case scope of None \<Rightarrow> []
      | Some s \<Rightarrow> str_bytes ''connection-scope'' @ connection_id s @ response_nonce s)"

definition logical_allocation_new :: "connection_scope option \<Rightarrow> logical_allocation" where
  "logical_allocation_new scope = \<lparr>la_next_sub = 0, la_next_full = 0, la_hasher = allocation_hasher scope\<rparr>"

definition la_take_sub :: "nat \<Rightarrow> u64 \<Rightarrow> logical_allocation \<Rightarrow> logical_allocation option" where
  "la_take_sub n domain a =
     (if la_next_sub a + n < 2 ^ 64
      then Some (a\<lparr>la_hasher := record_alloc (la_hasher a) (str_bytes ''sub'') domain (la_next_sub a) n,
                   la_next_sub := la_next_sub a + n\<rparr>)
      else None)"

definition la_take_full :: "nat \<Rightarrow> u64 \<Rightarrow> logical_allocation \<Rightarrow> logical_allocation option" where
  "la_take_full n domain a =
     (if la_next_full a + n < 2 ^ 64
      then Some (a\<lparr>la_hasher := record_alloc (la_hasher a) (str_bytes ''full'') domain (la_next_full a) n,
                   la_next_full := la_next_full a + n\<rparr>)
      else None)"

section \<open>Pools\<close>

record pooled_prover =
  pl_subs :: "sub_vole list"
  pl_fulls :: "full_vole list"
  pl_next_sub :: nat
  pl_next_full :: nat
  pl_sub_domains :: "u64 \<rightharpoonup> nat \<times> nat"
  pl_hasher :: bytes

definition pl_assert_sub_capacity :: "nat \<Rightarrow> pooled_prover \<Rightarrow> unit option" where
  "pl_assert_sub_capacity n p = (if n \<le> length (pl_subs p) - pl_next_sub p then Some () else None)"

definition pl_take_sub_domain :: "u64 \<Rightarrow> nat \<Rightarrow> pooled_prover \<Rightarrow> (nat \<times> pooled_prover) option" where
  "pl_take_sub_domain domain n p =
     do { pl_assert_sub_capacity n p;
          let off = pl_next_sub p;
          if pl_sub_domains p domain \<noteq> None then None
          else Some (off, p\<lparr>pl_next_sub := off + n, pl_sub_domains := (pl_sub_domains p)(domain \<mapsto> (off, n)),
                 pl_hasher := record_alloc (pl_hasher p) (str_bytes ''sub'') domain off n\<rparr>) }"

fun pl_take_rows :: "nat \<Rightarrow> u64 list \<Rightarrow> pooled_prover \<Rightarrow> (fp list \<times> pooled_prover) option" where
  "pl_take_rows cols [] p = Some ([], p)"
| "pl_take_rows cols (d # ds) p =
     do { (off, p) \<leftarrow> pl_take_sub_domain d cols p;
          row \<leftarrow> slice off cols (pl_subs p);
          (rest, p) \<leftarrow> pl_take_rows cols ds p;
          Some (map sv_r row @ rest, p) }"

definition pl_reserve_sub_mask_rows ::
  "u64 \<Rightarrow> nat \<Rightarrow> nat \<Rightarrow> pooled_prover \<Rightarrow> (fp list \<times> pooled_prover) option" where
  "pl_reserve_sub_mask_rows base rows cols p =
     do { pl_assert_sub_capacity (rows * cols) p; pl_take_rows cols (row_domains base rows) p }"

definition pl_draw_sub_tags :: "u64 \<Rightarrow> nat \<Rightarrow> pooled_prover \<Rightarrow> fp2 list option" where
  "pl_draw_sub_tags domain n p =
     do { (off, drawn) \<leftarrow> pl_sub_domains p domain;
          if drawn = n then map_option (map sv_m) (slice off n (pl_subs p)) else None }"

definition pl_replay_sub_masks :: "u64 \<Rightarrow> nat \<Rightarrow> pooled_prover \<Rightarrow> fp list option" where
  "pl_replay_sub_masks domain n p =
     do { (off, drawn) \<leftarrow> pl_sub_domains p domain;
          if drawn = n then map_option (map sv_r) (slice off n (pl_subs p)) else None }"

definition pl_remaining_full_capacity :: "pooled_prover \<Rightarrow> nat" where
  "pl_remaining_full_capacity p = length (pl_fulls p) - pl_next_full p"

definition pl_draw_fulls :: "u64 \<Rightarrow> nat \<Rightarrow> pooled_prover \<Rightarrow> (full_corr list \<times> pooled_prover) option" where
  "pl_draw_fulls domain n p =
     (if n \<le> pl_remaining_full_capacity p then
        do { let off = pl_next_full p;
             let p = p\<lparr>pl_next_full := off + n,
                       pl_hasher := record_alloc (pl_hasher p) (str_bytes ''full'') domain off n\<rparr>;
             fulls \<leftarrow> slice off n (pl_fulls p);
             Some (map (\<lambda>f. \<lparr>fc_x = fv_x f, fc_m = fv_m f\<rparr>) fulls, p) }
      else None)"

record pooled_verifier =
  vl_sub_keys :: "fp2 list"
  vl_full_keys :: "fp2 list"
  vl_next_sub :: nat
  vl_next_full :: nat
  vl_sub_domains :: "u64 \<rightharpoonup> nat \<times> nat"
  vl_full_domains :: "u64 \<rightharpoonup> nat \<times> nat"
  vl_hasher :: bytes

definition vl_assert_sub_capacity :: "nat \<Rightarrow> pooled_verifier \<Rightarrow> unit option" where
  "vl_assert_sub_capacity n v = (if n \<le> length (vl_sub_keys v) - vl_next_sub v then Some () else None)"

definition vl_take_row :: "nat \<Rightarrow> u64 \<Rightarrow> pooled_verifier \<Rightarrow> pooled_verifier option" where
  "vl_take_row cols domain v =
     (let off = vl_next_sub v in
      if vl_sub_domains v domain \<noteq> None then None
      else Some (v\<lparr>vl_next_sub := off + cols, vl_sub_domains := (vl_sub_domains v)(domain \<mapsto> (off, cols)),
             vl_hasher := record_alloc (vl_hasher v) (str_bytes ''sub'') domain off cols\<rparr>))"

definition vl_reserve_sub_key_rows :: "u64 \<Rightarrow> nat \<Rightarrow> nat \<Rightarrow> pooled_verifier \<Rightarrow> pooled_verifier option" where
  "vl_reserve_sub_key_rows base rows cols v =
     do { vl_assert_sub_capacity (rows * cols) v; fold_opt (vl_take_row cols) (row_domains base rows) v }"

definition vl_replay_sub_keys :: "u64 \<Rightarrow> nat \<Rightarrow> pooled_verifier \<Rightarrow> fp2 list option" where
  "vl_replay_sub_keys domain n v =
     do { (off, drawn) \<leftarrow> vl_sub_domains v domain;
          if drawn = n then slice off n (vl_sub_keys v) else None }"

definition vl_remaining_full_capacity :: "pooled_verifier \<Rightarrow> nat" where
  "vl_remaining_full_capacity v = length (vl_full_keys v) - vl_next_full v"

definition vl_expand_full_keys :: "u64 \<Rightarrow> nat \<Rightarrow> pooled_verifier \<Rightarrow> (fp2 list \<times> pooled_verifier) option" where
  "vl_expand_full_keys domain n v =
     (if n \<le> vl_remaining_full_capacity v then
        do { let off = vl_next_full v;
             if vl_full_domains v domain \<noteq> None then None
             else do { keys \<leftarrow> slice off n (vl_full_keys v);
                       Some (keys, v\<lparr>vl_next_full := off + n,
                         vl_full_domains := (vl_full_domains v)(domain \<mapsto> (off, n)),
                         vl_hasher := record_alloc (vl_hasher v) (str_bytes ''full'') domain off n\<rparr>) } }
      else None)"

definition vl_replay_full_keys :: "u64 \<Rightarrow> nat \<Rightarrow> pooled_verifier \<Rightarrow> fp2 list option" where
  "vl_replay_full_keys domain n v =
     do { (off, drawn) \<leftarrow> vl_full_domains v domain;
          if drawn = n then slice off n (vl_full_keys v) else None }"

section \<open>The two expanders\<close>

datatype prover_backend = PMock bytes logical_allocation | PPooled pooled_prover
datatype verifier_backend = VMock bytes logical_allocation | VPooled pooled_verifier

record correlation_stream =
  cs_backend :: prover_backend
  cs_ledger :: domain_ledger
  cs_counters :: corr_counters
  cs_audit :: "schedule_recorder option"

record verifier_ctx =
  vc_delta :: fp2
  vc_backend :: verifier_backend
  vc_ledger :: domain_ledger
  vc_counters :: corr_counters
  vc_audit :: "schedule_recorder option"
  vc_compact :: bool

definition correlation_stream_new :: "bytes \<Rightarrow> correlation_stream" where
  "correlation_stream_new seed =
     \<lparr>cs_backend = PMock seed (logical_allocation_new None), cs_ledger = empty_ledger,
      cs_counters = zero_counters, cs_audit = None\<rparr>"

definition stream_from_pcg_pool :: "sub_vole list \<Rightarrow> full_vole list \<Rightarrow> correlation_stream" where
  "stream_from_pcg_pool subs fulls =
     \<lparr>cs_backend = PPooled \<lparr>pl_subs = subs, pl_fulls = fulls, pl_next_sub = 0, pl_next_full = 0,
        pl_sub_domains = Map.empty, pl_hasher = allocation_hasher None\<rparr>,
      cs_ledger = empty_ledger, cs_counters = zero_counters, cs_audit = None\<rparr>"

definition verifier_ctx_new :: "bytes \<Rightarrow> fp2 \<Rightarrow> verifier_ctx" where
  "verifier_ctx_new seed delta =
     \<lparr>vc_delta = delta, vc_backend = VMock seed (logical_allocation_new None), vc_ledger = empty_ledger,
      vc_counters = zero_counters, vc_audit = None, vc_compact = False\<rparr>"

definition ctx_from_pcg_pool :: "fp2 \<Rightarrow> fp2 list \<Rightarrow> fp2 list \<Rightarrow> verifier_ctx" where
  "ctx_from_pcg_pool delta sub_keys full_keys =
     \<lparr>vc_delta = delta,
      vc_backend = VPooled \<lparr>vl_sub_keys = sub_keys, vl_full_keys = full_keys, vl_next_sub = 0, vl_next_full = 0,
        vl_sub_domains = Map.empty, vl_full_domains = Map.empty, vl_hasher = allocation_hasher None\<rparr>,
      vc_ledger = empty_ledger, vc_counters = zero_counters, vc_audit = None, vc_compact = False\<rparr>"

definition enable_schedule_audit :: "correlation_stream \<Rightarrow> string + correlation_stream" where
  "enable_schedule_audit s =
     (if cs_counters s \<noteq> zero_counters then Inl ''correlation schedule audit must start before the first draw''
      else if cs_audit s \<noteq> None then Inl ''correlation schedule audit already enabled''
      else Inr (s\<lparr>cs_audit := Some empty_recorder\<rparr>))"

definition ctx_enable_schedule_audit :: "verifier_ctx \<Rightarrow> string + verifier_ctx" where
  "ctx_enable_schedule_audit v =
     (if vc_counters v \<noteq> zero_counters then Inl ''correlation schedule audit must start before the first draw''
      else if vc_audit v \<noteq> None then Inl ''correlation schedule audit already enabled''
      else Inr (v\<lparr>vc_audit := Some empty_recorder\<rparr>))"

definition enable_compact_subfield_replay :: "verifier_ctx \<Rightarrow> string + verifier_ctx" where
  "enable_compact_subfield_replay v =
     (if vc_counters v \<noteq> zero_counters \<or> vc_compact v
      then Inl ''compact subfield replay must start before the first draw''
      else Inr (v\<lparr>vc_compact := True\<rparr>))"

subsection \<open>Subfield draws\<close>

definition audit_sub_rows :: "u64 list \<Rightarrow> nat \<Rightarrow> schedule_recorder option \<Rightarrow> schedule_recorder option option" where
  "audit_sub_rows domains cols audit =
     (case audit of None \<Rightarrow> Some None
      | Some r \<Rightarrow> map_option Some (fold_opt (\<lambda>d. recorder_record Subfield DirectCorrection 0 d cols) domains r))"

definition count_sub_rows :: "nat \<Rightarrow> nat \<Rightarrow> corr_counters \<Rightarrow> corr_counters option" where
  "count_sub_rows n rows c =
     do { s \<leftarrow> checked_add (sub_corrs c) (word_of_nat n);
          d \<leftarrow> checked_add (cc_domains c) (word_of_nat rows);
          Some (c\<lparr>sub_corrs := s, cc_domains := d\<rparr>) }"

definition prover_sub_capacity :: "nat \<Rightarrow> prover_backend \<Rightarrow> unit option" where
  "prover_sub_capacity n b = (case b of PMock _ _ \<Rightarrow> Some () | PPooled p \<Rightarrow> pl_assert_sub_capacity n p)"

definition backend_reserve_masks ::
  "u64 \<Rightarrow> nat \<Rightarrow> nat \<Rightarrow> prover_backend \<Rightarrow> (sub_mask_rows_reservation \<times> prover_backend) option" where
  "backend_reserve_masks base rows cols b =
     (case b of
        PMock seed a \<Rightarrow>
          map_option (\<lambda>a. (ChaCha8 seed base rows cols, PMock seed a)) (fold_opt (la_take_sub cols) (row_domains base rows) a)
      | PPooled p \<Rightarrow>
          map_option (\<lambda>(masks, p). (Host masks rows cols, PPooled p)) (pl_reserve_sub_mask_rows base rows cols p))"

definition reserve_sub_mask_rows ::
  "u64 \<Rightarrow> nat \<Rightarrow> nat \<Rightarrow> correlation_stream \<Rightarrow> (sub_mask_rows_reservation \<times> correlation_stream) option" where
  "reserve_sub_mask_rows base rows cols s =
     do { n \<leftarrow> validate_correlation_rows base rows cols;
          prover_sub_capacity n (cs_backend s);
          l \<leftarrow> open_sub_rows base rows cols (cs_ledger s);
          c \<leftarrow> count_sub_rows n rows (cs_counters s);
          (res, b) \<leftarrow> backend_reserve_masks base rows cols (cs_backend s);
          a \<leftarrow> audit_sub_rows (row_domains base rows) cols (cs_audit s);
          Some (res, s\<lparr>cs_ledger := l, cs_counters := c, cs_backend := b, cs_audit := a\<rparr>) }"

definition draw_sub_masks :: "chacha \<Rightarrow> u64 \<Rightarrow> nat \<Rightarrow> correlation_stream \<Rightarrow> (fp list \<times> correlation_stream) option" where
  "draw_sub_masks chacha domain n s =
     do { (res, s) \<leftarrow> reserve_sub_mask_rows domain 1 n s;
          masks \<leftarrow> into_host_masks chacha res;
          Some (masks, s) }"

definition draw_sub_tags :: "chacha \<Rightarrow> u64 \<Rightarrow> nat \<Rightarrow> correlation_stream \<Rightarrow> fp2 list option" where
  "draw_sub_tags chacha domain n s =
     (if consumed (cs_ledger s) domain = Some n
      then (case cs_backend s of
              PMock seed _ \<Rightarrow> map_option fst (next_fp2s n (fp_stream_domain_separated chacha seed (domain OR TAG_BIT)))
            | PPooled p \<Rightarrow> pl_draw_sub_tags domain n p)
      else None)"

definition draw_subs :: "chacha \<Rightarrow> u64 \<Rightarrow> nat \<Rightarrow> correlation_stream \<Rightarrow> (sub_corr list \<times> correlation_stream) option" where
  "draw_subs chacha domain n s =
     do { (masks, s) \<leftarrow> draw_sub_masks chacha domain n s;
          tags \<leftarrow> draw_sub_tags chacha domain n s;
          Some (map2 (\<lambda>r m. \<lparr>sc_r = r, sc_m = m\<rparr>) masks tags, s) }"

definition replay_consumed_sub_masks :: "chacha \<Rightarrow> u64 \<Rightarrow> nat \<Rightarrow> correlation_stream \<Rightarrow> fp list option" where
  "replay_consumed_sub_masks chacha domain n s =
     (if consumed (cs_ledger s) domain = Some n
      then (case cs_backend s of
              PMock seed _ \<Rightarrow> map_option fst (next_fps n (fp_stream_domain_separated chacha seed domain))
            | PPooled p \<Rightarrow> pl_replay_sub_masks domain n p)
      else None)"

definition verifier_sub_capacity :: "nat \<Rightarrow> verifier_backend \<Rightarrow> unit option" where
  "verifier_sub_capacity n b = (case b of VMock _ _ \<Rightarrow> Some () | VPooled v \<Rightarrow> vl_assert_sub_capacity n v)"

definition backend_reserve_keys :: "u64 \<Rightarrow> nat \<Rightarrow> nat \<Rightarrow> verifier_backend \<Rightarrow> verifier_backend option" where
  "backend_reserve_keys base rows cols b =
     (case b of
        VMock seed a \<Rightarrow> map_option (VMock seed) (fold_opt (la_take_sub cols) (row_domains base rows) a)
      | VPooled v \<Rightarrow> map_option VPooled (vl_reserve_sub_key_rows base rows cols v))"

definition reserve_sub_key_rows :: "u64 \<Rightarrow> nat \<Rightarrow> nat \<Rightarrow> verifier_ctx \<Rightarrow> verifier_ctx option" where
  "reserve_sub_key_rows base rows cols v =
     do { n \<leftarrow> validate_correlation_rows base rows cols;
          verifier_sub_capacity n (vc_backend v);
          l \<leftarrow> open_sub_rows base rows cols (vc_ledger v);
          c \<leftarrow> count_sub_rows n rows (vc_counters v);
          b \<leftarrow> backend_reserve_keys base rows cols (vc_backend v);
          a \<leftarrow> audit_sub_rows (row_domains base rows) cols (vc_audit v);
          Some (v\<lparr>vc_ledger := l, vc_counters := c, vc_backend := b, vc_audit := a\<rparr>) }"

definition replay_consumed_sub_keys :: "chacha \<Rightarrow> u64 \<Rightarrow> nat \<Rightarrow> verifier_ctx \<Rightarrow> fp2 list option" where
  "replay_consumed_sub_keys chacha domain n v =
     (if consumed (vc_ledger v) domain = Some n
      then (case vc_backend v of
              VMock seed _ \<Rightarrow>
                do { (rs, _) \<leftarrow> next_fps n (fp_stream_domain_separated chacha seed domain);
                     (ms, _) \<leftarrow> next_fp2s n (fp_stream_domain_separated chacha seed (domain OR TAG_BIT));
                     Some (map2 (\<lambda>m r. m + fp2_mul_base (vc_delta v) r) ms rs) }
            | VPooled p \<Rightarrow> vl_replay_sub_keys domain n p)
      else None)"

definition expand_sub_keys :: "chacha \<Rightarrow> u64 \<Rightarrow> nat \<Rightarrow> verifier_ctx \<Rightarrow> (fp2 list \<times> verifier_ctx) option" where
  "expand_sub_keys chacha domain n v =
     do { v \<leftarrow> reserve_sub_key_rows domain 1 n v;
          keys \<leftarrow> replay_consumed_sub_keys chacha domain n v;
          Some (keys, v) }"

subsection \<open>Full-field draws\<close>

definition audit_full :: "schedule_role \<Rightarrow> nat \<Rightarrow> u64 \<Rightarrow> nat \<Rightarrow> schedule_recorder option \<Rightarrow> schedule_recorder option option" where
  "audit_full role triples domain n audit =
     (case audit of None \<Rightarrow> Some None
      | Some r \<Rightarrow> map_option Some (recorder_record FullField role triples domain n r))"

definition count_full :: "nat \<Rightarrow> corr_counters \<Rightarrow> corr_counters" where
  "count_full n c = c\<lparr>full_corrs := full_corrs c + word_of_nat n, cc_domains := cc_domains c + 1\<rparr>"

definition full_draw_legal :: "u64 \<Rightarrow> nat \<Rightarrow> schedule_role \<Rightarrow> nat \<Rightarrow> bool" where
  "full_draw_legal domain n role triples \<longleftrightarrow>
     domain AND RESERVED_DOMAIN_BITS = 0 \<and> (role \<noteq> ProductMask \<or> n = 1)
     \<and> ((role = ProductMask) = (0 < triples))"

definition backend_draw_fulls ::
  "chacha \<Rightarrow> u64 \<Rightarrow> nat \<Rightarrow> prover_backend \<Rightarrow> (full_corr list \<times> prover_backend) option" where
  "backend_draw_fulls chacha domain n b =
     (case b of
        PMock seed a \<Rightarrow>
          do { a \<leftarrow> la_take_full n domain a;
               (xs, _) \<leftarrow> next_fp2s n (fp_stream_domain_separated chacha seed (domain OR FULL_BIT));
               (ms, _) \<leftarrow> next_fp2s n (fp_stream_domain_separated chacha seed (domain OR FULL_BIT OR TAG_BIT));
               Some (map2 (\<lambda>x m. \<lparr>fc_x = x, fc_m = m\<rparr>) xs ms, PMock seed a) }
      | PPooled p \<Rightarrow> map_option (apsnd PPooled) (pl_draw_fulls domain n p))"

definition draw_fulls_with_role ::
  "chacha \<Rightarrow> u64 \<Rightarrow> nat \<Rightarrow> schedule_role \<Rightarrow> nat \<Rightarrow> correlation_stream \<Rightarrow> (full_corr list \<times> correlation_stream) option" where
  "draw_fulls_with_role chacha domain n role triples s =
     (if full_draw_legal domain n role triples then
        do { l \<leftarrow> ledger_open (domain OR FULL_BIT_SHADOW) n (cs_ledger s);
             (fulls, b) \<leftarrow> backend_draw_fulls chacha domain n (cs_backend s);
             a \<leftarrow> audit_full role triples domain n (cs_audit s);
             Some (fulls, s\<lparr>cs_ledger := l, cs_counters := count_full n (cs_counters s), cs_backend := b, cs_audit := a\<rparr>) }
      else None)"

definition draw_fulls :: "chacha \<Rightarrow> u64 \<Rightarrow> nat \<Rightarrow> correlation_stream \<Rightarrow> (full_corr list \<times> correlation_stream) option" where
  "draw_fulls chacha domain n s = draw_fulls_with_role chacha domain n DirectCorrection 0 s"

definition draw_product_mask :: "chacha \<Rightarrow> u64 \<Rightarrow> nat \<Rightarrow> correlation_stream \<Rightarrow> (product_mask \<times> correlation_stream) option" where
  "draw_product_mask chacha domain triples s =
     (if 0 < triples then
        do { (fulls, s) \<leftarrow> draw_fulls_with_role chacha domain 1 ProductMask triples s;
             case fulls of [] \<Rightarrow> None | c # _ \<Rightarrow> Some (\<lparr>pm_triples = triples, pm_corr = c\<rparr>, s) }
      else None)"

definition backend_expand_fulls ::
  "chacha \<Rightarrow> fp2 \<Rightarrow> u64 \<Rightarrow> nat \<Rightarrow> verifier_backend \<Rightarrow> (fp2 list \<times> verifier_backend) option" where
  "backend_expand_fulls chacha delta domain n b =
     (case b of
        VMock seed a \<Rightarrow>
          do { a \<leftarrow> la_take_full n domain a;
               (xs, _) \<leftarrow> next_fp2s n (fp_stream_domain_separated chacha seed (domain OR FULL_BIT));
               (ms, _) \<leftarrow> next_fp2s n (fp_stream_domain_separated chacha seed (domain OR FULL_BIT OR TAG_BIT));
               Some (map2 (\<lambda>x m. m + delta * x) xs ms, VMock seed a) }
      | VPooled v \<Rightarrow> map_option (apsnd VPooled) (vl_expand_full_keys domain n v))"

definition expand_full_keys_with_role ::
  "chacha \<Rightarrow> u64 \<Rightarrow> nat \<Rightarrow> schedule_role \<Rightarrow> nat \<Rightarrow> verifier_ctx \<Rightarrow> (fp2 list \<times> verifier_ctx) option" where
  "expand_full_keys_with_role chacha domain n role triples v =
     (if full_draw_legal domain n role triples then
        do { l \<leftarrow> ledger_open (domain OR FULL_BIT_SHADOW) n (vc_ledger v);
             (keys, b) \<leftarrow> backend_expand_fulls chacha (vc_delta v) domain n (vc_backend v);
             a \<leftarrow> audit_full role triples domain n (vc_audit v);
             Some (keys, v\<lparr>vc_ledger := l, vc_counters := count_full n (vc_counters v), vc_backend := b, vc_audit := a\<rparr>) }
      else None)"

definition expand_full_keys :: "chacha \<Rightarrow> u64 \<Rightarrow> nat \<Rightarrow> verifier_ctx \<Rightarrow> (fp2 list \<times> verifier_ctx) option" where
  "expand_full_keys chacha domain n v = expand_full_keys_with_role chacha domain n DirectCorrection 0 v"

definition expand_product_mask_key :: "chacha \<Rightarrow> u64 \<Rightarrow> nat \<Rightarrow> verifier_ctx \<Rightarrow> (fp2 \<times> verifier_ctx) option" where
  "expand_product_mask_key chacha domain triples v =
     (if 0 < triples then
        do { (keys, v) \<leftarrow> expand_full_keys_with_role chacha domain 1 ProductMask triples v;
             case keys of [] \<Rightarrow> None | k # _ \<Rightarrow> Some (k, v) }
      else None)"

definition replay_consumed_full_keys :: "chacha \<Rightarrow> u64 \<Rightarrow> nat \<Rightarrow> verifier_ctx \<Rightarrow> fp2 list option" where
  "replay_consumed_full_keys chacha domain n v =
     (if consumed (vc_ledger v) (domain OR FULL_BIT_SHADOW) = Some n
      then (case vc_backend v of
              VMock seed _ \<Rightarrow>
                do { (xs, _) \<leftarrow> next_fp2s n (fp_stream_domain_separated chacha seed (domain OR FULL_BIT));
                     (ms, _) \<leftarrow> next_fp2s n (fp_stream_domain_separated chacha seed (domain OR FULL_BIT OR TAG_BIT));
                     Some (map2 (\<lambda>x m. m + vc_delta v * x) xs ms) }
            | VPooled p \<Rightarrow> vl_replay_full_keys domain n p)
      else None)"

definition expand_sub_verifier_keys :: "chacha \<Rightarrow> u64 \<Rightarrow> nat \<Rightarrow> verifier_ctx \<Rightarrow> (verifier_key list \<times> verifier_ctx) option" where
  "expand_sub_verifier_keys chacha domain n v = map_option (apfst (map key_new)) (expand_sub_keys chacha domain n v)"

definition expand_full_verifier_keys :: "chacha \<Rightarrow> u64 \<Rightarrow> nat \<Rightarrow> verifier_ctx \<Rightarrow> (verifier_key list \<times> verifier_ctx) option" where
  "expand_full_verifier_keys chacha domain n v = map_option (apfst (map key_new)) (expand_full_keys chacha domain n v)"

definition expand_product_mask_verifier_key ::
  "chacha \<Rightarrow> u64 \<Rightarrow> nat \<Rightarrow> verifier_ctx \<Rightarrow> (verifier_key \<times> verifier_ctx) option" where
  "expand_product_mask_verifier_key chacha domain triples v =
     map_option (apfst key_new) (expand_product_mask_key chacha domain triples v)"

definition correct_full_verifier_keys ::
  "chacha \<Rightarrow> u64 \<Rightarrow> fp2 list \<Rightarrow> verifier_ctx \<Rightarrow> (verifier_key list \<times> verifier_ctx) option" where
  "correct_full_verifier_keys chacha domain corrections v =
     do { (keys, v') \<leftarrow> expand_full_verifier_keys chacha domain (length corrections) v;
          Some (map2 (\<lambda>key c. key_new (vk_k key + vc_delta v * c)) keys corrections, v') }"

section \<open>Authentication and the zero-batch exchange\<close>

definition auth_prover ::
  "chacha \<Rightarrow> u64 \<Rightarrow> int list \<Rightarrow> correlation_stream \<Rightarrow> transcript
   \<Rightarrow> (u64 list \<times> prover_sub_authed list \<times> correlation_stream \<times> transcript) option" where
  "auth_prover chacha domain xs s tx =
     do { (subs, s) \<leftarrow> draw_subs chacha domain (length xs) s;
          let corr = map2 (\<lambda>xq c. fp_value (fp_from_i64 xq - sc_r c)) xs subs;
          let authed = map2 (\<lambda>xq c. sub_authenticate c (fp_from_i64 xq)) xs subs;
          Some (corr, authed, s, tx_append ''auth_corrections'' (8 * word_of_nat (length corr)) tx) }"

definition auth_verifier ::
  "chacha \<Rightarrow> u64 \<Rightarrow> u64 list \<Rightarrow> verifier_ctx \<Rightarrow> (verifier_key list \<times> verifier_ctx) option" where
  "auth_verifier chacha domain corr v =
     do { (keys, v') \<leftarrow> expand_sub_verifier_keys chacha domain (length corr) v;
          Some (map2 (\<lambda>k_r c. if vc_compact v then k_r
                  else key_new (vk_k k_r + fp2_mul_base (vc_delta v) (fp_new c))) keys corr, v') }"

definition zero_batch_exchange ::
  "blake3 \<Rightarrow> chacha \<Rightarrow> prover_authed list \<Rightarrow> verifier_key list \<Rightarrow> correlation_stream \<Rightarrow> verifier_ctx \<Rightarrow> u64 \<Rightarrow> transcript
   \<Rightarrow> (bool \<times> correlation_stream \<times> verifier_ctx \<times> transcript) option" where
  "zero_batch_exchange H chacha ys keys s v mask_dom tx =
     (if length ys = length keys then
        do { (fulls, s) \<leftarrow> draw_fulls chacha mask_dom 1 s;
             corr \<leftarrow> (case fulls of [] \<Rightarrow> None | c # _ \<Rightarrow> Some c);
             (k_fulls, v) \<leftarrow> expand_full_verifier_keys chacha mask_dom 1 v;
             k_full \<leftarrow> (case k_fulls of [] \<Rightarrow> None | k # _ \<Rightarrow> Some k);
             (zmask, c, tx) \<leftarrow> fresh_zero_mask corr tx;
             let k_mask = zero_mask_key (vc_delta v) k_full c;
             (chi, tx) \<leftarrow> challenge_fp2 H tx;
             (m_z, tx) \<leftarrow> zero_batch_prover ys zmask chi tx;
             Some (zero_batch_verify keys k_mask chi m_z, s, v, tx) }
      else None)"

end
