(* ===== verification/Lockstep.thy ===== *)
theory Lockstep
  imports Corr Transcript_Binding
begin

text \<open>
  Lockstep of the two correlation expanders, and what the protocols built on them conclude from it:
  a prover stream and a verifier context that are twins draw correlations that satisfy the MAC
  relation and stay twins, so authentication gives valid keys and an honest zero batch is accepted.
\<close>

section \<open>Twins\<close>

abbreviation sub_key :: "fp2 \<Rightarrow> sub_vole \<Rightarrow> fp2" where
  "sub_key delta s \<equiv> sv_m s + fp2_mul_base delta (sv_r s)"

abbreviation full_key :: "fp2 \<Rightarrow> full_vole \<Rightarrow> fp2" where
  "full_key delta f \<equiv> fv_m f + delta * fv_x f"

text \<open>
  Two pools are twins when their entries satisfy the VOLE relation and their cursors agree; the
  verifier's extra table of full-field domains holds only domains that the ledger has consumed.
\<close>

definition pool_twin :: "fp2 \<Rightarrow> domain_ledger \<Rightarrow> pooled_prover \<Rightarrow> pooled_verifier \<Rightarrow> bool" where
  "pool_twin delta l p v \<longleftrightarrow>
     vl_sub_keys v = map (sub_key delta) (pl_subs p) \<and> vl_full_keys v = map (full_key delta) (pl_fulls p)
     \<and> vl_next_sub v = pl_next_sub p \<and> vl_next_full v = pl_next_full p
     \<and> vl_sub_domains v = pl_sub_domains p \<and> vl_hasher v = pl_hasher p
     \<and> (\<forall>d. vl_full_domains v d \<noteq> None \<longrightarrow> consumed l (d OR FULL_BIT_SHADOW) \<noteq> None)"

definition backend_twin :: "fp2 \<Rightarrow> domain_ledger \<Rightarrow> prover_backend \<Rightarrow> verifier_backend \<Rightarrow> bool" where
  "backend_twin delta l b c =
     (case (b, c) of
        (PMock seed a, VMock seed' a') \<Rightarrow> seed' = seed \<and> a' = a
      | (PPooled p, VPooled v) \<Rightarrow> pool_twin delta l p v
      | _ \<Rightarrow> False)"

definition twin :: "correlation_stream \<Rightarrow> verifier_ctx \<Rightarrow> bool" where
  "twin s v \<longleftrightarrow> vc_ledger v = cs_ledger s \<and> vc_counters v = cs_counters s \<and> vc_audit v = cs_audit s
     \<and> backend_twin (vc_delta v) (cs_ledger s) (cs_backend s) (vc_backend v)"

lemma twin_new: "twin (correlation_stream_new seed) (verifier_ctx_new seed delta)"
  by (simp add: twin_def backend_twin_def correlation_stream_new_def verifier_ctx_new_def)

lemma twin_pools:
  "twin (stream_from_pcg_pool subs fulls) (ctx_from_pcg_pool delta (map (sub_key delta) subs) (map (full_key delta) fulls))"
  by (simp add: twin_def backend_twin_def pool_twin_def stream_from_pcg_pool_def ctx_from_pcg_pool_def)

lemma backend_twin_cases [consumes 1, case_names mock pool]:
  assumes "backend_twin delta l b c"
  obtains seed a where "b = PMock seed a" "c = VMock seed a"
  | p v where "b = PPooled p" "c = VPooled v" "pool_twin delta l p v"
  using assms by (auto simp: backend_twin_def split: prover_backend.splits verifier_backend.splits)

lemma backend_twin_mono:
  "backend_twin delta l b c \<Longrightarrow> (\<And>k. consumed l k \<noteq> None \<Longrightarrow> consumed l' k \<noteq> None) \<Longrightarrow> backend_twin delta l' b c"
  by (auto simp: backend_twin_def pool_twin_def split: prover_backend.splits verifier_backend.splits)

section \<open>Subfield draws\<close>

lemma take_rows_twin:
  assumes "pl_take_rows cols ds p = Some (ms, p')" "pool_twin delta l p v"
  shows "\<exists>v'. fold_opt (vl_take_row cols) ds v = Some v' \<and> pool_twin delta l p' v'"
  using assms
proof (induction ds arbitrary: p v ms)
  case (Cons d ds)
  from Cons.prems(1) obtain off p1 row rest where 1: "pl_take_sub_domain d cols p = Some (off, p1)"
    "pl_take_rows cols ds p1 = Some (rest, p')" by (auto split: Option.bind_splits)
  obtain v1 where "vl_take_row cols d v = Some v1" "pool_twin delta l p1 v1"
    using 1(1) Cons.prems(2)
    by (auto simp: pl_take_sub_domain_def pl_assert_sub_capacity_def vl_take_row_def pool_twin_def Let_def
        split: if_splits Option.bind_splits)
  then show ?case using Cons.IH [OF 1(2)] by auto
qed simp

lemma backend_reserve_twin:
  assumes "backend_reserve_masks base rows cols b = Some (res, b')" "backend_twin delta l b c"
  shows "\<exists>c'. backend_reserve_keys base rows cols c = Some c' \<and> backend_twin delta l b' c'"
  using assms(2)
proof (cases rule: backend_twin_cases)
  case (mock seed a)
  then show ?thesis using assms(1)
    by (auto simp: backend_reserve_masks_def backend_reserve_keys_def backend_twin_def)
next
  case (pool p v)
  then obtain ms p' where r: "pl_assert_sub_capacity (rows * cols) p = Some ()"
    "pl_take_rows cols (row_domains base rows) p = Some (ms, p')" "b' = PPooled p'"
    using assms(1)
    by (auto simp: backend_reserve_masks_def pl_reserve_sub_mask_rows_def split: Option.bind_splits)
  have "vl_assert_sub_capacity (rows * cols) v = Some ()"
    using r(1) pool(3)
    by (auto simp: pl_assert_sub_capacity_def vl_assert_sub_capacity_def pool_twin_def split: if_splits)
  moreover obtain v' where "fold_opt (vl_take_row cols) (row_domains base rows) v = Some v'" "pool_twin delta l p' v'"
    using take_rows_twin [OF r(2) pool(3)] by blast
  ultimately show ?thesis using r(3) pool(2)
    by (simp add: backend_reserve_keys_def vl_reserve_sub_key_rows_def backend_twin_def)
qed

lemma sub_capacity_twin:
  "backend_twin delta l b c \<Longrightarrow> verifier_sub_capacity n c = prover_sub_capacity n b"
  by (auto elim!: backend_twin_cases simp: verifier_sub_capacity_def prover_sub_capacity_def
      pl_assert_sub_capacity_def vl_assert_sub_capacity_def pool_twin_def)

lemma reserve_twin:
  assumes "reserve_sub_mask_rows base rows cols s = Some (res, s')" "twin s v"
  shows "\<exists>v'. reserve_sub_key_rows base rows cols v = Some v' \<and> twin s' v' \<and> vc_delta v' = vc_delta v
    \<and> vc_compact v' = vc_compact v"
proof -
  have t: "vc_ledger v = cs_ledger s" "vc_counters v = cs_counters s" "vc_audit v = cs_audit s"
    "backend_twin (vc_delta v) (cs_ledger s) (cs_backend s) (vc_backend v)"
    using assms(2) by (simp_all add: twin_def)
  from assms(1) obtain n l c b a where r: "validate_correlation_rows base rows cols = Some n"
    "prover_sub_capacity n (cs_backend s) = Some ()" "open_sub_rows base rows cols (cs_ledger s) = Some l"
    "count_sub_rows n rows (cs_counters s) = Some c"
    "backend_reserve_masks base rows cols (cs_backend s) = Some (res, b)"
    "audit_sub_rows (row_domains base rows) cols (cs_audit s) = Some a"
    "s' = s\<lparr>cs_ledger := l, cs_counters := c, cs_backend := b, cs_audit := a\<rparr>"
    by (auto simp: reserve_sub_mask_rows_def split: Option.bind_splits)
  obtain b' where b': "backend_reserve_keys base rows cols (vc_backend v) = Some b'"
    "backend_twin (vc_delta v) (cs_ledger s) b b'" using backend_reserve_twin [OF r(5) t(4)] by blast
  have "backend_twin (vc_delta v) l b b'"
    using b'(2) by (rule backend_twin_mono) (use open_sub_rows_Some [OF r(3)] in auto)
  then show ?thesis using r t b' sub_capacity_twin [OF t(4)]
    by (simp add: reserve_sub_key_rows_def twin_def)
qed

lemma row_domains_one [simp]: "row_domains d (Suc 0) = [d]"
  by (simp add: row_domains_def)

text \<open>What one subfield draw returns, on either backend.\<close>

lemma draw_subs_twin:
  assumes "draw_subs chacha d n s = Some (subs, s')" "twin s v"
  shows "\<exists>v'. expand_sub_keys chacha d n v
      = Some (map (\<lambda>c. sc_m c + fp2_mul_base (vc_delta v) (sc_r c)) subs, v')
    \<and> twin s' v' \<and> vc_delta v' = vc_delta v \<and> vc_compact v' = vc_compact v \<and> length subs = n"
proof -
  from assms(1) obtain res masks tags where r: "reserve_sub_mask_rows d 1 n s = Some (res, s')"
    "into_host_masks chacha res = Some masks" "draw_sub_tags chacha d n s' = Some tags"
    "subs = map2 (\<lambda>r m. \<lparr>sc_r = r, sc_m = m\<rparr>) masks tags"
    by (auto simp: draw_subs_def draw_sub_masks_def split: Option.bind_splits)
  obtain v' where v': "reserve_sub_key_rows d 1 n v = Some v'" "twin s' v'" "vc_delta v' = vc_delta v"
    "vc_compact v' = vc_compact v" using reserve_twin [OF r(1) assms(2)] by blast
  have c: "consumed (cs_ledger s') d = Some n" "vc_ledger v' = cs_ledger s'"
    using r(3) v'(2) by (auto simp: draw_sub_tags_def twin_def split: if_splits)
  have b: "backend_twin (vc_delta v') (cs_ledger s') (cs_backend s') (vc_backend v')" using v'(2) by (simp add: twin_def)
  then have "replay_consumed_sub_keys chacha d n v'
      = Some (map (\<lambda>c. sc_m c + fp2_mul_base (vc_delta v) (sc_r c)) subs) \<and> length subs = n"
  proof (cases rule: backend_twin_cases)
    case (mock seed a)
    then obtain a0 where "cs_backend s = PMock seed a0" "res = ChaCha8 seed d 1 n"
      using r(1) by (auto simp: reserve_sub_mask_rows_def backend_reserve_masks_def
          split: Option.bind_splits prover_backend.splits)
    then obtain st1 st2 where "next_fps n (fp_stream_domain_separated chacha seed d) = Some (masks, st1)"
      "next_fp2s n (fp_stream_domain_separated chacha seed (d OR TAG_BIT)) = Some (tags, st2)"
      using r(2,3) mock c by (auto simp: into_host_masks_def draw_sub_tags_def split: Option.bind_splits)
    moreover have "length masks = n" "length tags = n"
      using calculation next_fps_length next_fp2s_length by blast+
    ultimately show ?thesis using c mock v'(3) r(4)
      by (auto simp: replay_consumed_sub_keys_def intro!: nth_equalityI)
  next
    case (pool p w)
    from r(1) pool(1) obtain p0 where p0: "cs_backend s = PPooled p0" "res = Host (fst (the (pl_reserve_sub_mask_rows d 1 n p0))) 1 n"
      "pl_reserve_sub_mask_rows d 1 n p0 = Some (fst (the (pl_reserve_sub_mask_rows d 1 n p0)), p)"
      by (auto simp: reserve_sub_mask_rows_def backend_reserve_masks_def split: Option.bind_splits prover_backend.splits)
    then obtain off row where row: "slice off n (pl_subs p) = Some row" "pl_sub_domains p d = Some (off, n)"
      "masks = map sv_r row"
      using r(2)
      by (auto simp: pl_reserve_sub_mask_rows_def pl_take_sub_domain_def into_host_masks_def Let_def
          split: Option.bind_splits if_splits)
    then have "tags = map sv_m row" "length row = n"
      using r(3) c pool by (auto simp: draw_sub_tags_def pl_draw_sub_tags_def slice_Some)
    then show ?thesis using row r(4) pool c v'(3)
      by (auto simp: replay_consumed_sub_keys_def vl_replay_sub_keys_def pool_twin_def slice_map zip_map1 zip_map2
          zip_same_conv_map comp_def)
  qed
  then show ?thesis using v' by (simp add: expand_sub_keys_def)
qed

section \<open>Full-field draws\<close>

lemma backend_fulls_twin:
  assumes "backend_draw_fulls chacha d n b = Some (fulls, b')" "backend_twin delta l b c"
    and "consumed l (d OR FULL_BIT_SHADOW) = None" "consumed l' = (consumed l)(d OR FULL_BIT_SHADOW \<mapsto> n)"
  shows "\<exists>c'. backend_expand_fulls chacha delta d n c = Some (map (\<lambda>f. fc_m f + delta * fc_x f) fulls, c')
    \<and> backend_twin delta l' b' c' \<and> length fulls = n"
  using assms(2)
proof (cases rule: backend_twin_cases)
  case (mock seed a)
  then obtain a' xs s1 ms s2 where "la_take_full n d a = Some a'" "b' = PMock seed a'"
    "next_fp2s n (fp_stream_domain_separated chacha seed (d OR FULL_BIT)) = Some (xs, s1)"
    "next_fp2s n (fp_stream_domain_separated chacha seed (d OR FULL_BIT OR TAG_BIT)) = Some (ms, s2)"
    "fulls = map2 (\<lambda>x m. \<lparr>fc_x = x, fc_m = m\<rparr>) xs ms"
    using assms(1) by (auto simp: backend_draw_fulls_def split: Option.bind_splits)
  moreover have "length xs = n" "length ms = n" using calculation next_fp2s_length by blast+
  ultimately show ?thesis using mock
    by (auto simp: backend_expand_fulls_def backend_twin_def intro!: nth_equalityI)
next
  case (pool p v)
  then obtain p' row where r: "slice (pl_next_full p) n (pl_fulls p) = Some row" "n \<le> pl_remaining_full_capacity p"
    "fulls = map (\<lambda>f. \<lparr>fc_x = fv_x f, fc_m = fv_m f\<rparr>) row" "b' = PPooled p'"
    "p' = p\<lparr>pl_next_full := pl_next_full p + n, pl_hasher := record_alloc (pl_hasher p) (str_bytes ''full'') d (pl_next_full p) n\<rparr>"
    using assms(1) by (auto simp: backend_draw_fulls_def pl_draw_fulls_def Let_def split: Option.bind_splits if_splits)
  have d: "vl_full_domains v d = None" using pool(3) assms(3) unfolding pool_twin_def by blast
  have "n \<le> vl_remaining_full_capacity v"
    using r(2) pool(3) by (simp add: pl_remaining_full_capacity_def vl_remaining_full_capacity_def pool_twin_def)
  moreover have "slice (vl_next_full v) n (vl_full_keys v) = Some (map (full_key delta) row)"
    using r(1) pool(3) by (simp add: pool_twin_def slice_map)
  moreover have "length row = n" using r(1) by (auto simp: slice_Some)
  ultimately show ?thesis using r d pool assms(4)
    by (auto simp: backend_expand_fulls_def vl_expand_full_keys_def Let_def backend_twin_def pool_twin_def comp_def)
qed

lemma draw_fulls_twin:
  assumes "draw_fulls_with_role chacha d n role triples s = Some (fulls, s')" "twin s v"
  shows "\<exists>v'. expand_full_keys_with_role chacha d n role triples v
      = Some (map (\<lambda>f. fc_m f + vc_delta v * fc_x f) fulls, v')
    \<and> twin s' v' \<and> vc_delta v' = vc_delta v \<and> vc_compact v' = vc_compact v \<and> length fulls = n"
proof -
  have t: "vc_ledger v = cs_ledger s" "vc_counters v = cs_counters s" "vc_audit v = cs_audit s"
    "backend_twin (vc_delta v) (cs_ledger s) (cs_backend s) (vc_backend v)"
    using assms(2) by (simp_all add: twin_def)
  from assms(1) obtain l b a where r: "full_draw_legal d n role triples"
    "ledger_open (d OR FULL_BIT_SHADOW) n (cs_ledger s) = Some l"
    "backend_draw_fulls chacha d n (cs_backend s) = Some (fulls, b)"
    "audit_full role triples d n (cs_audit s) = Some a"
    "s' = s\<lparr>cs_ledger := l, cs_counters := count_full n (cs_counters s), cs_backend := b, cs_audit := a\<rparr>"
    by (auto simp: draw_fulls_with_role_def split: Option.bind_splits if_splits)
  obtain c' where "backend_expand_fulls chacha (vc_delta v) d n (vc_backend v)
      = Some (map (\<lambda>f. fc_m f + vc_delta v * fc_x f) fulls, c')"
    "backend_twin (vc_delta v) l b c'" "length fulls = n"
    using backend_fulls_twin [OF r(3) t(4)] ledger_open_Some [OF r(2)] by blast
  then show ?thesis using r t by (simp add: expand_full_keys_with_role_def twin_def)
qed

section \<open>Runs of draws\<close>

datatype draw_op = DSub u64 nat | DFull u64 nat | DProduct u64 nat

text \<open>The prover's output is the list of drawn values with their tags, the verifier's the keys.\<close>

fun prover_draw :: "chacha \<Rightarrow> draw_op \<Rightarrow> correlation_stream \<Rightarrow> ((fp2 \<times> fp2) list \<times> correlation_stream) option" where
  "prover_draw chacha (DSub d n) s =
     map_option (apfst (map (\<lambda>c. (fp2_from_base (sc_r c), sc_m c)))) (draw_subs chacha d n s)"
| "prover_draw chacha (DFull d n) s = map_option (apfst (map (\<lambda>f. (fc_x f, fc_m f)))) (draw_fulls chacha d n s)"
| "prover_draw chacha (DProduct d t) s =
     map_option (apfst (\<lambda>m. [(fc_x (pm_corr m), fc_m (pm_corr m))])) (draw_product_mask chacha d t s)"

fun verifier_draw :: "chacha \<Rightarrow> draw_op \<Rightarrow> verifier_ctx \<Rightarrow> (fp2 list \<times> verifier_ctx) option" where
  "verifier_draw chacha (DSub d n) v = expand_sub_keys chacha d n v"
| "verifier_draw chacha (DFull d n) v = expand_full_keys chacha d n v"
| "verifier_draw chacha (DProduct d t) v = map_option (apfst (\<lambda>k. [k])) (expand_product_mask_key chacha d t v)"

lemma product_mask_twin:
  assumes "draw_product_mask chacha d t s = Some (m, s')" "twin s v"
  shows "\<exists>v'. expand_product_mask_key chacha d t v = Some (fc_m (pm_corr m) + vc_delta v * fc_x (pm_corr m), v')
    \<and> twin s' v' \<and> vc_delta v' = vc_delta v \<and> pm_triples m = t"
proof -
  from assms(1) obtain c cs where r: "0 < t" "draw_fulls_with_role chacha d 1 ProductMask t s = Some (c # cs, s')"
    "m = \<lparr>pm_triples = t, pm_corr = c\<rparr>"
    by (auto simp: draw_product_mask_def split: if_splits Option.bind_splits list.splits)
  show ?thesis using draw_fulls_twin [OF r(2) assms(2)] r by (auto simp: expand_product_mask_key_def)
qed

lemma draw_step_twin:
  assumes "prover_draw chacha op s = Some (out, s')" "twin s v"
  shows "\<exists>v'. verifier_draw chacha op v = Some (map (\<lambda>(x, m). m + vc_delta v * x) out, v')
    \<and> twin s' v' \<and> vc_delta v' = vc_delta v"
proof (cases op)
  case (DSub d n)
  then obtain subs where "draw_subs chacha d n s = Some (subs, s')"
    "out = map (\<lambda>c. (fp2_from_base (sc_r c), sc_m c)) subs" using assms(1) by auto
  then show ?thesis using DSub draw_subs_twin [of chacha d n s subs s' v] assms(2)
    by (auto simp: fp2_mul_base_eq comp_def)
next
  case (DFull d n)
  then obtain fulls where "draw_fulls_with_role chacha d n DirectCorrection 0 s = Some (fulls, s')"
    "out = map (\<lambda>f. (fc_x f, fc_m f)) fulls" using assms(1) by (auto simp: draw_fulls_def)
  then show ?thesis using DFull draw_fulls_twin [of chacha d n _ _ s fulls s' v] assms(2)
    by (auto simp: expand_full_keys_def comp_def)
next
  case (DProduct d t)
  then show ?thesis using assms product_mask_twin [of chacha d t s _ s' v] by auto
qed

section \<open>Properties\<close>

text \<open>
  C9. Lockstep: from twin expanders (for instance the two sides of one mock seed, or of one
  preprocessed pool), every sequence of subfield, full-field and product-mask draws that the prover
  completes, the verifier completes too; the keys it expands satisfy the MAC relation with the values
  and tags the prover drew, and the two sides are twins again.
\<close>

theorem draws_lockstep:
  assumes "run_machine (prover_draw chacha) ops s = Some (outs, s')" "twin s v"
  shows "\<exists>v'. run_machine (verifier_draw chacha) ops v
      = Some (map (map (\<lambda>(x, m). m + vc_delta v * x)) outs, v')
    \<and> twin s' v' \<and> vc_delta v' = vc_delta v"
  using assms
proof (induction ops arbitrary: s v outs)
  case (Cons op ops)
  from Cons.prems(1) obtain out s1 outs1 where r: "prover_draw chacha op s = Some (out, s1)"
    "run_machine (prover_draw chacha) ops s1 = Some (outs1, s')" "outs = out # outs1"
    by (rule run_machine_Cons_Some)
  obtain v1 where v1: "verifier_draw chacha op v = Some (map (\<lambda>(x, m). m + vc_delta v * x) out, v1)"
    "twin s1 v1" "vc_delta v1 = vc_delta v" using draw_step_twin [OF r(1) Cons.prems(2)] by blast
  show ?case using Cons.IH [OF r(2) v1(2)] v1 r(3) by auto
qed simp

text \<open>A draw whose streams offer canonical words succeeds on the mock backend.\<close>

lemma next_fps_const: "next_fps n \<lparr>fs_word = (\<lambda>_. w), fs_pos = k\<rparr>
    = Some (replicate n (fp_new w), \<lparr>fs_word = (\<lambda>_. w), fs_pos = k + n\<rparr>)" if "w < P_u64"
  using that by (induction n arbitrary: k) (simp_all add: next_fp_accept)

lemma next_fp2s_const: "next_fp2s n \<lparr>fs_word = (\<lambda>_. w), fs_pos = k\<rparr>
    = Some (replicate n (Fp2 (fp_new w) (fp_new w)), \<lparr>fs_word = (\<lambda>_. w), fs_pos = k + 2 * n\<rparr>)" if "w < P_u64"
  using that by (induction n arbitrary: k) (simp_all add: next_fp2_def next_fp_accept)

definition demo_chacha :: chacha where
  "demo_chacha seed stream n = 5"

lemma fresh_reserve:
  assumes "validate_correlation_rows d 1 n = Some n" "n < 2 ^ 64"
  shows "\<exists>l c a. reserve_sub_mask_rows d 1 n (correlation_stream_new seed)
      = Some (ChaCha8 seed d 1 n, \<lparr>cs_backend = PMock seed a, cs_ledger = l, cs_counters = c, cs_audit = None\<rparr>)
    \<and> consumed l d = Some n"
proof -
  have o: "open_sub_rows d 1 n empty_ledger = Some (empty_ledger\<lparr>consumed := [d \<mapsto> n]\<rparr>)"
    by (simp add: open_sub_rows_def empty_ledger_def)
  have c: "\<exists>c. count_sub_rows n 1 zero_counters = Some c"
    using u64_bound [of "word_of_nat n"] by (simp add: count_sub_rows_def zero_counters_def checked_add_def not_le)
  have b: "\<exists>a. fold_opt (la_take_sub n) (row_domains d 1) (logical_allocation_new None) = Some a"
    using assms(2) by (simp add: la_take_sub_def logical_allocation_new_def)
  show ?thesis using assms(1) o c b
    by (auto simp: reserve_sub_mask_rows_def correlation_stream_new_def prover_sub_capacity_def
        backend_reserve_masks_def audit_sub_rows_def)
qed

text \<open>A fresh mock stream over a constant generator serves any legal subfield draw.\<close>

lemma demo_draws:
  assumes "validate_correlation_rows d 1 n = Some n" "n < 2 ^ 64"
  shows "\<exists>s'. draw_sub_masks demo_chacha d n (correlation_stream_new []) = Some (replicate n (fp_new 5), s')
    \<and> draw_sub_tags demo_chacha d n s' = Some (replicate n (Fp2 (fp_new 5) (fp_new 5)))"
proof -
  have w: "(5 :: u64) < P_u64" by (simp add: P_u64_def)
  have st: "fp_stream_domain_separated demo_chacha [] d = \<lparr>fs_word = (\<lambda>_. 5), fs_pos = 0\<rparr>" for d
    by (simp add: fp_stream_domain_separated_def demo_chacha_def fun_eq_iff)
  obtain l c a where r: "reserve_sub_mask_rows d 1 n (correlation_stream_new [])
      = Some (ChaCha8 [] d 1 n, \<lparr>cs_backend = PMock [] a, cs_ledger = l, cs_counters = c, cs_audit = None\<rparr>)"
    "consumed l d = Some n" using fresh_reserve [OF assms] by blast
  have "into_host_masks demo_chacha (ChaCha8 [] d 1 n) = Some (replicate n (fp_new 5))"
    by (simp add: into_host_masks_def st next_fps_const [OF w])
  then show ?thesis using r by (simp add: draw_sub_masks_def draw_sub_tags_def st next_fp2s_const [OF w])
qed

lemma demo_draw: "\<exists>subs s'. draw_subs demo_chacha 7 2 (correlation_stream_new []) = Some (subs, s')"
proof -
  have "validate_correlation_rows 7 1 2 = Some 2" by (simp add: validate_correlation_rows_def checked_add_def domain_bits)
  then show ?thesis using demo_draws [of 7 2] by (auto simp: draw_subs_def)
qed

theorem draws_lockstep_witness:
  "\<exists>outs s' v'. run_machine (prover_draw demo_chacha) [DSub 7 2] (correlation_stream_new []) = Some (outs, s')
    \<and> run_machine (verifier_draw demo_chacha) [DSub 7 2] (verifier_ctx_new [] 3)
        = Some (map (map (\<lambda>(x, m). m + 3 * x)) outs, v') \<and> twin s' v'"
proof -
  obtain outs s' where r: "run_machine (prover_draw demo_chacha) [DSub 7 2] (correlation_stream_new []) = Some (outs, s')"
    using demo_draw by fastforce
  have "vc_delta (verifier_ctx_new [] 3) = 3" by (simp add: verifier_ctx_new_def)
  then show ?thesis using draws_lockstep [OF r twin_new [of "[]" 3]] r by auto
qed

text \<open>
  Authenticating a tensor: the verifier's corrected keys satisfy the MAC relation with the
  prover's authenticated values, which are the quantized inputs embedded in the field; the correction
  transcript is charged eight bytes per entry.
\<close>

theorem auth_valid:
  assumes "auth_prover chacha d xs s tx = Some (corr, authed, s', tx')" "twin s v" "\<not> vc_compact v"
  shows "\<exists>keys v'. auth_verifier chacha d corr v = Some (keys, v') \<and> twin s' v'
    \<and> list_all2 (mac_valid (vc_delta v)) (map sub_embed authed) keys
    \<and> map ps_x authed = map fp_from_i64 xs
    \<and> bytes_for ''auth_corrections'' tx' = bytes_for ''auth_corrections'' tx + 8 * word_of_nat (length xs)"
proof -
  from assms(1) obtain subs where r: "draw_subs chacha d (length xs) s = Some (subs, s')"
    "corr = map2 (\<lambda>xq c. fp_value (fp_from_i64 xq - sc_r c)) xs subs"
    "authed = map2 (\<lambda>xq c. sub_authenticate c (fp_from_i64 xq)) xs subs"
    "tx' = tx_append ''auth_corrections'' (8 * word_of_nat (length corr)) tx"
    by (auto simp: auth_prover_def Let_def split: Option.bind_splits)
  obtain v' where v': "expand_sub_keys chacha d (length xs) v
      = Some (map (\<lambda>c. sc_m c + fp2_mul_base (vc_delta v) (sc_r c)) subs, v')" "twin s' v'" "length subs = length xs"
    using draw_subs_twin [OF r(1) assms(2)] by blast
  let ?keys = "map2 (\<lambda>k_r c. key_new (vk_k k_r + fp2_mul_base (vc_delta v) (fp_new c)))
    (map (key_new \<circ> (\<lambda>c. sc_m c + fp2_mul_base (vc_delta v) (sc_r c))) subs) corr"
  have len: "length corr = length xs" using r(2) v'(3) by simp
  have k: "auth_verifier chacha d corr v = Some (?keys, v')"
    using v'(1) assms(3) len by (simp add: auth_verifier_def expand_sub_verifier_keys_def)
  have "list_all2 (mac_valid (vc_delta v)) (map sub_embed authed) ?keys"
    using r(2,3) v'(3)
    by (auto simp: list_all2_conv_all_nth mac_valid_def sub_authenticate_def sub_authed_new_def fp2_mul_base_eq
        fp_new_value_id algebra_simps)
  moreover have "map ps_x authed = map fp_from_i64 xs"
    using r(3) v'(3) by (auto simp: sub_authenticate_def sub_authed_new_def intro!: nth_equalityI)
  moreover have "bytes_for ''auth_corrections'' tx' = bytes_for ''auth_corrections'' tx + 8 * word_of_nat (length xs)"
    using r(4) len by (auto simp: bytes_for_def ledger_add_lookup split: option.splits)
  ultimately show ?thesis using k v'(2) by blast
qed

theorem auth_valid_witness:
  "\<exists>corr authed s' tx' keys v'. auth_prover demo_chacha 7 [-3, 4] (correlation_stream_new []) (transcript_new demo_chacha [])
      = Some (corr, authed, s', tx')
    \<and> auth_verifier demo_chacha 7 corr (verifier_ctx_new [] 3) = Some (keys, v')
    \<and> list_all2 (mac_valid 3) (map sub_embed authed) keys"
proof -
  obtain subs s' where "draw_subs demo_chacha 7 2 (correlation_stream_new []) = Some (subs, s')"
    using demo_draw by blast
  then have "draw_subs demo_chacha 7 (length [-3, 4 :: int]) (correlation_stream_new []) = Some (subs, s')"
    by (simp add: numeral_2_eq_2)
  then obtain corr authed tx' where r: "auth_prover demo_chacha 7 [-3, 4] (correlation_stream_new []) (transcript_new demo_chacha [])
      = Some (corr, authed, s', tx')" by (simp add: auth_prover_def Let_def)
  have "vc_delta (verifier_ctx_new [] 3) = 3" "\<not> vc_compact (verifier_ctx_new [] 3)" by (simp_all add: verifier_ctx_new_def)
  then show ?thesis using auth_valid [OF r twin_new [of "[]" 3]] r by auto
qed

text \<open>
  The complete zero-batch exchange accepts honest claims: with twin expanders that can draw the
  mask, claims that are zero and valid keys, on a Fiat--Shamir transcript it returns, with verdict true.
\<close>

theorem zero_batch_exchange_accepts:
  assumes "twin s v" "draw_fulls chacha d 1 s \<noteq> None" "challenges tx = FiatShamir st"
    and "list_all2 (mac_valid (vc_delta v)) ys keys" "\<forall>y \<in> set ys. pa_x y = 0"
  shows "\<exists>s' v' tx'. zero_batch_exchange H chacha ys keys s v d tx = Some (True, s', v', tx') \<and> twin s' v'"
proof -
  obtain fulls s' where f: "draw_fulls_with_role chacha d 1 DirectCorrection 0 s = Some (fulls, s')"
    using assms(2) by (auto simp: draw_fulls_def)
  obtain v' where v': "expand_full_keys_with_role chacha d 1 DirectCorrection 0 v
      = Some (map (\<lambda>f. fc_m f + vc_delta v * fc_x f) fulls, v')" "twin s' v'" "vc_delta v' = vc_delta v" "length fulls = 1"
    using draw_fulls_twin [OF f assms(1)] by blast
  obtain corr where c: "fulls = [corr]" using v'(4) by (auto simp: length_Suc_conv)
  let ?zm = "full_authenticate corr 0" and ?c = "0 - fc_x corr"
  let ?k = "key_new (fc_m corr + vc_delta v * fc_x corr)"
  obtain tx1 where tx1: "fresh_zero_mask corr tx = Some (?zm, ?c, tx1)" "challenges tx1 = FiatShamir st"
    using assms(3) by (auto simp: fresh_zero_mask_def Let_def append_fp2s_def framed_ops)
  obtain chi tx2 where tx2: "challenge_fp2 H tx1 = Some (chi, tx2)"
    using fs_draw_returns [OF tx1(2)] by blast
  obtain m_z tx3 where tx3: "zero_batch_prover ys ?zm chi tx2 = Some (m_z, tx3)"
    using append_short [of "''zero_batch_tag''"] by (fastforce simp: zero_batch_prover_rlc Let_def)
  have "zero_batch_verify keys (zero_mask_key (vc_delta v) ?k ?c) chi m_z"
    using zero_batch_accepts [OF assms(4,5)] tx3 by simp
  then show ?thesis using f v' c tx1 tx2 tx3 list_all2_lengthD [OF assms(4)]
    by (simp add: zero_batch_exchange_def draw_fulls_def expand_full_verifier_keys_def expand_full_keys_def Let_def)
qed

lemma demo_full_draw: "draw_fulls chacha 7 1 (stream_from_pcg_pool [] [\<lparr>fv_x = 2, fv_m = 9\<rparr>]) \<noteq> None"
  by (simp add: draw_fulls_def draw_fulls_with_role_def full_draw_legal_def stream_from_pcg_pool_def ledger_open_def
      empty_ledger_def backend_draw_fulls_def pl_draw_fulls_def pl_remaining_full_capacity_def slice_def audit_full_def
      domain_bits Let_def)

theorem zero_batch_exchange_accepts_witness:
  "\<exists>s' v' tx'. zero_batch_exchange demo_hash demo_chacha [prover_authed_new 0 4] [key_new 4]
      (stream_from_pcg_pool [] [\<lparr>fv_x = 2, fv_m = 9\<rparr>]) (ctx_from_pcg_pool 3 [] [15]) 7
      (fresh_transcript (FiatShamir \<lparr>profile = C62, context_digest = replicate 32 7, challenge_index = 0\<rparr>))
    = Some (True, s', v', tx')"
proof -
  have t: "twin (stream_from_pcg_pool [] [\<lparr>fv_x = 2, fv_m = 9\<rparr>]) (ctx_from_pcg_pool 3 [] [15])"
    using twin_pools [of "[]" "[\<lparr>fv_x = 2, fv_m = 9\<rparr>]" 3] by simp
  have m: "list_all2 (mac_valid (vc_delta (ctx_from_pcg_pool 3 [] [15]))) [prover_authed_new 0 4] [key_new 4]"
    by (simp add: mac_valid_def prover_authed_new_def key_new_def)
  let ?st = "\<lparr>profile = C62, context_digest = replicate 32 7, challenge_index = 0\<rparr>"
  have c: "challenges (fresh_transcript (FiatShamir ?st)) = FiatShamir ?st" by (simp add: fresh_transcript_def)
  have z: "\<forall>y \<in> set [prover_authed_new 0 4]. pa_x y = 0" by (simp add: prover_authed_new_def)
  from zero_batch_exchange_accepts [OF t demo_full_draw c m z, of demo_hash]
  show ?thesis by blast
qed

end
