(* ===== verification/Merkle.thy ===== *)
theory Merkle
  imports Sumcheck_Clear Transcript
begin

text \<open>
  The Merkle tree of \<^verbatim>\<open>volta-pcs/src/merkle.rs\<close>: construction, single and multi openings and their
  verifiers. BLAKE3 is the parameter \<^term>\<open>H\<close>. Openings of an honest tree verify; an accepted opening
  binds the leaf, in the sense that two accepted openings that differ exhibit a collision among the
  pairs the two verifications hash; an accepted multi opening contains an accepted single
  opening of each of its leaves.
\<close>

section \<open>The tree\<close>

type_synonym hash = bytes

definition hash_leaf :: "blake3 \<Rightarrow> bytes \<Rightarrow> hash" where
  "hash_leaf H bs = b3_hash H bs"

definition hash_pair :: "blake3 \<Rightarrow> hash \<Rightarrow> hash \<Rightarrow> hash" where
  "hash_pair H l r = b3_hash H (l @ r)"

record merkle_tree =
  levels :: "hash list list"

text \<open>One level up: \<^verbatim>\<open>chunks(2)\<close>, whose last chunk would be read out of range at an odd length.\<close>

fun next_level :: "blake3 \<Rightarrow> hash list \<Rightarrow> hash list option" where
  "next_level H [] = Some []"
| "next_level H [_] = None"
| "next_level H (l # r # rest) = map_option ((#) (hash_pair H l r)) (next_level H rest)"

lemma next_level_length: "next_level H xs = Some ys \<Longrightarrow> length xs = 2 * length ys"
  by (induction H xs arbitrary: ys rule: next_level.induct) auto

function build_levels :: "blake3 \<Rightarrow> hash list \<Rightarrow> hash list list option" where
  "build_levels H prev =
     (if 1 < length prev
      then do { nxt \<leftarrow> next_level H prev; rest \<leftarrow> build_levels H nxt; Some (prev # rest) }
      else Some [prev])"
  by pat_completeness auto
termination
  by (relation "measure (length \<circ> snd)") (auto dest!: next_level_length)

declare build_levels.simps [simp del]

definition from_leaves :: "blake3 \<Rightarrow> hash list \<Rightarrow> merkle_tree option" where
  "from_leaves H leaves =
     (if is_power_of_two (length leaves) then map_option (\<lambda>ls. \<lparr>levels = ls\<rparr>) (build_levels H leaves) else None)"

definition merkle_root :: "merkle_tree \<Rightarrow> hash option" where
  "merkle_root t = (if levels t = [] then None else get (last (levels t)) 0)"

fun open_loop :: "hash list list \<Rightarrow> nat \<Rightarrow> hash list option" where
  "open_loop [] i = Some []"
| "open_loop (level # rest) i =
     do { sib \<leftarrow> get level (i XOR 1); path \<leftarrow> open_loop rest (drop_bit 1 i); Some (sib # path) }"

definition merkle_open :: "merkle_tree \<Rightarrow> nat \<Rightarrow> hash list option" where
  "merkle_open t idx = open_loop (butlast (levels t)) idx"

subsection \<open>Multi openings\<close>

definition strictly_increasing :: "nat list \<Rightarrow> bool" where
  "strictly_increasing xs = sorted_wrt (<) xs"

text \<open>
  The siblings that one level contributes. The code looks a sibling up with \<^verbatim>\<open>binary_search\<close> in the
  sorted vector of current indices.
\<close>

fun frontier_level :: "hash list \<Rightarrow> nat list \<Rightarrow> nat list \<Rightarrow> hash list option" where
  "frontier_level level current [] = Some []"
| "frontier_level level current (index # rest) =
     (if index XOR 1 \<in> set current then frontier_level level current rest
      else do { sib \<leftarrow> get level (index XOR 1); fr \<leftarrow> frontier_level level current rest; Some (sib # fr) })"

fun frontier_loop :: "hash list list \<Rightarrow> nat list \<Rightarrow> hash list option" where
  "frontier_loop [] current = Some []"
| "frontier_loop (level # rest) current =
     do { fr \<leftarrow> frontier_level level current current;
          frs \<leftarrow> frontier_loop rest (remdups_adj (map (drop_bit 1) current));
          Some (fr @ frs) }"

text \<open>The outer option is a panic, the inner one the \<^verbatim>\<open>Option\<close> of the code.\<close>

definition open_multi :: "merkle_tree \<Rightarrow> nat list \<Rightarrow> hash list option option" where
  "open_multi t indices =
     (if indices = [] \<or> \<not> strictly_increasing indices then Some None
      else do { leaves \<leftarrow> get (levels t) 0;
                if length leaves \<le> last indices then Some None
                else map_option Some (frontier_loop (butlast (levels t)) indices) })"

text \<open>A \<^verbatim>\<open>BTreeMap\<close> is a list of entries sorted by key.\<close>

fun bt_insert :: "nat \<Rightarrow> 'v \<Rightarrow> (nat \<times> 'v) list \<Rightarrow> (nat \<times> 'v) list" where
  "bt_insert k v [] = [(k, v)]"
| "bt_insert k v ((k', v') # xs) =
     (if k < k' then (k, v) # (k', v') # xs
      else if k = k' then (k, v) # xs
      else (k', v') # bt_insert k v xs)"

definition parent_of :: "blake3 \<Rightarrow> nat \<Rightarrow> hash \<Rightarrow> hash \<Rightarrow> hash" where
  "parent_of H index node sibling =
     (if index AND 1 = 0 then hash_pair H node sibling else hash_pair H sibling node)"

fun multi_level ::
  "blake3 \<Rightarrow> (nat \<times> hash) list \<Rightarrow> (nat \<times> hash) list \<Rightarrow> hash list \<Rightarrow> (nat \<times> hash) list
   \<Rightarrow> ((nat \<times> hash) list \<times> hash list) option" where
  "multi_level H current [] frontier parents = Some (parents, frontier)"
| "multi_level H current ((index, node) # rest) frontier parents =
     (if index AND 1 = 1 \<and> map_of current (index - 1) \<noteq> None
      then multi_level H current rest frontier parents
      else do { (sibling, frontier) \<leftarrow>
                  (case map_of current (index XOR 1) of
                     Some s \<Rightarrow> Some (s, frontier)
                   | None \<Rightarrow> (case frontier of [] \<Rightarrow> None | s # frontier \<Rightarrow> Some (s, frontier)));
                if map_of parents (drop_bit 1 index) \<noteq> None then None
                else multi_level H current rest frontier
                       (bt_insert (drop_bit 1 index) (parent_of H index node sibling) parents) })"

fun multi_levels :: "blake3 \<Rightarrow> nat \<Rightarrow> (nat \<times> hash) list \<Rightarrow> hash list \<Rightarrow> ((nat \<times> hash) list \<times> hash list) option" where
  "multi_levels H 0 current frontier = Some (current, frontier)"
| "multi_levels H (Suc n) current frontier =
     do { (parents, frontier) \<leftarrow> multi_level H current current frontier []; multi_levels H n parents frontier }"

definition leaf_count :: "nat \<Rightarrow> nat option" where
  "leaf_count depth = (if 2 ^ 32 \<le> depth \<or> 64 \<le> depth then None else Some (2 ^ depth))"

definition multi_root :: "blake3 \<Rightarrow> nat list \<Rightarrow> hash list \<Rightarrow> hash list \<Rightarrow> nat \<Rightarrow> hash option" where
  "multi_root H indices leaves frontier depth =
     do { n \<leftarrow> leaf_count depth;
          if indices = [] \<or> length indices \<noteq> length leaves \<or> \<not> strictly_increasing indices \<or> n \<le> last indices then None
          else do { (current, frontier) \<leftarrow>
                      multi_levels H depth (fold (\<lambda>(i, l). bt_insert i l) (zip indices leaves) []) frontier;
                    if frontier = [] \<and> length current = 1 then map_of current 0 else None } }"

definition verify_multi :: "blake3 \<Rightarrow> hash \<Rightarrow> nat list \<Rightarrow> hash list \<Rightarrow> hash list \<Rightarrow> nat \<Rightarrow> bool" where
  "verify_multi H root indices leaves frontier depth \<longleftrightarrow> multi_root H indices leaves frontier depth = Some root"

fun fold_path :: "blake3 \<Rightarrow> nat \<Rightarrow> hash \<Rightarrow> hash list \<Rightarrow> hash" where
  "fold_path H idx acc [] = acc"
| "fold_path H idx acc (sib # path) = fold_path H (drop_bit 1 idx) (parent_of H idx acc sib) path"

definition verify_path :: "blake3 \<Rightarrow> hash \<Rightarrow> nat \<Rightarrow> hash \<Rightarrow> hash list \<Rightarrow> nat \<Rightarrow> bool" where
  "verify_path H root idx leaf path depth =
     (case leaf_count depth of None \<Rightarrow> False
      | Some n \<Rightarrow> length path = depth \<and> idx < n \<and> fold_path H idx leaf path = root)"

section \<open>The honest tree\<close>

lemma drop_bit_1_nat [simp]: "drop_bit 1 (i :: nat) = i div 2" "drop_bit (Suc 0) (i :: nat) = i div 2"
  by (simp_all add: drop_bit_eq_div)

lemma drop_bit_half: "drop_bit 1 = (\<lambda>i :: nat. i div 2)"
  by (simp add: fun_eq_iff)

lemma xor_1_nat: "(i :: nat) XOR 1 = (if even i then i + 1 else i - 1)"
  unfolding One_nat_def xor_Suc_0_eq by simp

lemma and_1_nat: "(i :: nat) AND 1 = i mod 2"
  by (simp add: and_one_eq)

lemma and_1_odd: "(i :: nat) AND 1 = 1 \<longleftrightarrow> odd i"
  by (simp add: and_1_nat odd_iff_mod_2_eq_one)

lemmas bit_nat = xor_1_nat and_1_nat xor_1_nat [unfolded One_nat_def] and_1_nat [unfolded One_nat_def]

lemma next_level_nth:
  "length xs = 2 * n \<Longrightarrow> next_level H xs = Some (map (\<lambda>j. hash_pair H (xs ! (2 * j)) (xs ! (2 * j + 1))) [0..<n])"
proof (induction n arbitrary: xs)
  case (Suc n)
  then obtain a b ys where "xs = a # b # ys" "length ys = 2 * n"
    by (metis (no_types, lifting) add_2_eq_Suc' length_Suc_conv mult_Suc_right add.commute)
  then show ?case using Suc.IH by (simp add: upt_conv_Cons map_Suc_upt [symmetric] del: upt_Suc)
qed simp

lemma build_levels_0: "length xs = 1 \<Longrightarrow> build_levels H xs = Some [xs]"
  by (subst build_levels.simps) simp

lemma build_levels_Suc:
  assumes "length xs = 2 ^ Suc d"
  obtains ys where "next_level H xs = Some ys" "length ys = 2 ^ d"
    "\<And>j. j < 2 ^ d \<Longrightarrow> ys ! j = hash_pair H (xs ! (2 * j)) (xs ! (2 * j + 1))"
    "build_levels H xs = map_option ((#) xs) (build_levels H ys)"
proof -
  let ?ys = "map (\<lambda>j. hash_pair H (xs ! (2 * j)) (xs ! (2 * j + 1))) [0..<2 ^ d]"
  have n: "next_level H xs = Some ?ys" using assms by (intro next_level_nth) simp
  have "1 < length xs" using assms one_less_power [of "2 :: nat" "Suc d"] by simp
  then have "build_levels H xs = map_option ((#) xs) (build_levels H ?ys)"
    using n by (subst build_levels.simps) (simp add: map_option_case split: option.splits)
  then show ?thesis using that [OF n] by simp
qed

text \<open>The tree exists, has one level more than its depth, and its nodes are the hashed pairs.\<close>

lemma build_levels_shape:
  assumes "length xs = 2 ^ d"
  shows "\<exists>ls. build_levels H xs = Some ls \<and> length ls = Suc d \<and> hd ls = xs \<and> length (last ls) = 1"
  using assms
proof (induction d arbitrary: xs)
  case 0 then show ?case by (simp add: build_levels_0)
next
  case (Suc d)
  obtain ys where "length ys = 2 ^ d" "build_levels H xs = map_option ((#) xs) (build_levels H ys)"
    using build_levels_Suc [OF Suc.prems] by blast
  then show ?case using Suc.IH [of ys] by auto
qed

lemma xor_sibling_less: "(i :: nat) < 2 ^ Suc d \<Longrightarrow> i XOR 1 < 2 ^ Suc d"
  unfolding xor_1_nat by (auto elim!: evenE)

lemma half_less: "(i :: nat) < 2 ^ Suc d \<Longrightarrow> i div 2 < 2 ^ d"
  by auto

lemma parent_of_nth:
  assumes "i < 2 ^ Suc d" "\<And>j. j < 2 ^ d \<Longrightarrow> ys ! j = hash_pair H (xs ! (2 * j)) (xs ! (2 * j + 1))"
  shows "parent_of H i (xs ! i) (xs ! (i XOR 1)) = ys ! (i div 2)"
proof -
  have "i div 2 < 2 ^ d" using assms(1) by auto
  then have "ys ! (i div 2) = hash_pair H (xs ! (2 * (i div 2))) (xs ! (2 * (i div 2) + 1))" using assms(2) by blast
  moreover have "even i \<Longrightarrow> 2 * (i div 2) = i" "odd i \<Longrightarrow> 2 * (i div 2) = i - 1" by presburger+
  ultimately show ?thesis by (cases "even i") (auto simp: parent_of_def bit_nat odd_iff_mod_2_eq_one dest: odd_pos)
qed

lemma open_loop_verifies:
  assumes "length xs = 2 ^ d" "build_levels H xs = Some ls" "i < 2 ^ d"
  shows "\<exists>path. open_loop (butlast ls) i = Some path \<and> length path = d
    \<and> fold_path H i (xs ! i) path = last ls ! 0"
  using assms
proof (induction d arbitrary: xs ls i)
  case 0 then show ?case by (auto simp: build_levels_0)
next
  case (Suc d)
  obtain ys where ys: "length ys = 2 ^ d" "build_levels H xs = map_option ((#) xs) (build_levels H ys)"
    "\<And>j. j < 2 ^ d \<Longrightarrow> ys ! j = hash_pair H (xs ! (2 * j)) (xs ! (2 * j + 1))"
    using build_levels_Suc [OF Suc.prems(1)] by blast
  obtain ks where ks: "build_levels H ys = Some ks" "length ks = Suc d"
    using build_levels_shape [OF ys(1), of H] by blast
  then have ls: "ls = xs # ks" "ks \<noteq> []" using Suc.prems(2) ys(2) by auto
  obtain path where p: "open_loop (butlast ks) (i div 2) = Some path" "length path = d"
    "fold_path H (i div 2) (ys ! (i div 2)) path = last ks ! 0"
    using Suc.IH [OF ys(1) ks(1), of "i div 2"] half_less [OF Suc.prems(3)] by blast
  have "get xs (i XOR 1) = Some (xs ! (i XOR 1))"
    using xor_sibling_less [OF Suc.prems(3)] Suc.prems(1) by (simp add: get_def)
  then show ?case using p ls parent_of_nth [OF Suc.prems(3) ys(3)] by simp
qed

lemma tree_opens:
  assumes "length leaves = 2 ^ d" "d < 64"
  shows "\<exists>t root. from_leaves H leaves = Some t \<and> merkle_root t = Some root
    \<and> (\<forall>i < 2 ^ d. \<exists>path. merkle_open t i = Some path \<and> verify_path H root i (leaves ! i) path d)"
proof -
  obtain ls where ls: "build_levels H leaves = Some ls" "length ls = Suc d" "length (last ls) = 1"
    using build_levels_shape [OF assms(1)] by blast
  have "is_power_of_two (length leaves)" using assms(1) by (auto simp: is_power_of_two_iff)
  then have "from_leaves H leaves = Some \<lparr>levels = ls\<rparr>" "merkle_root \<lparr>levels = ls\<rparr> = Some (last ls ! 0)"
    using ls by (auto simp: from_leaves_def merkle_root_def get_def)
  moreover have "\<exists>path. merkle_open \<lparr>levels = ls\<rparr> i = Some path \<and> verify_path H (last ls ! 0) i (leaves ! i) path d"
    if "i < 2 ^ d" for i
    using open_loop_verifies [OF assms(1) ls(1) that] that assms(2)
    by (fastforce simp: merkle_open_def verify_path_def leaf_count_def)
  ultimately show ?thesis by blast
qed

section \<open>Binding\<close>

text \<open>The byte strings that the verification of a path hashes.\<close>

fun path_preimages :: "blake3 \<Rightarrow> nat \<Rightarrow> hash \<Rightarrow> hash list \<Rightarrow> bytes list" where
  "path_preimages H idx acc [] = []"
| "path_preimages H idx acc (sib # path) =
     (if idx AND 1 = 0 then acc @ sib else sib @ acc) # path_preimages H (drop_bit 1 idx) (parent_of H idx acc sib) path"

definition collision_in :: "blake3 \<Rightarrow> bytes list \<Rightarrow> bytes list \<Rightarrow> bool" where
  "collision_in H as bs \<longleftrightarrow> (\<exists>a \<in> set as. \<exists>b \<in> set bs. a \<noteq> b \<and> b3_hash H a = b3_hash H b)"

lemma fold_path_binding:
  assumes "fold_path H i a p = fold_path H i b q" "length p = length q"
    and "length a = 32" "length b = 32" "\<forall>s \<in> set p. length s = 32" "\<forall>s \<in> set q. length s = 32"
    and "\<And>x. length (b3_hash H x) = 32"
  shows "(a = b \<and> p = q) \<or> collision_in H (path_preimages H i a p) (path_preimages H i b q)"
  using assms(2,1,3-6)
proof (induction p q arbitrary: i a b rule: list_induct2)
  case (Cons s p t q)
  let ?x = "if i AND 1 = 0 then a @ s else s @ a" and ?y = "if i AND 1 = 0 then b @ t else t @ b"
  have h: "parent_of H i a s = b3_hash H ?x" "parent_of H i b t = b3_hash H ?y"
    by (simp_all add: parent_of_def hash_pair_def)
  consider "p = q" "b3_hash H ?x = b3_hash H ?y"
    | "collision_in H (path_preimages H (drop_bit 1 i) (parent_of H i a s) p) (path_preimages H (drop_bit 1 i) (parent_of H i b t) q)"
    using Cons.IH [of "drop_bit 1 i" "parent_of H i a s" "parent_of H i b t"] Cons.prems assms(7) h by auto
  then show ?case
  proof cases
    case 1
    have "?x = ?y \<Longrightarrow> a = b \<and> s = t" using Cons.prems by (auto split: if_splits)
    then show ?thesis using 1 by (auto simp: collision_in_def)
  next
    case 2
    then show ?thesis unfolding collision_in_def path_preimages.simps by (meson list.set_intros(2))
  qed
qed simp

section \<open>Multi openings\<close>

lemma bt_insert_map_of: "map_of (bt_insert k v xs) = (map_of xs)(k \<mapsto> v)"
  by (induction k v xs rule: bt_insert.induct) (auto simp: fun_eq_iff)

lemma bt_insert_last: "\<forall>x \<in> set xs. fst x < k \<Longrightarrow> bt_insert k v xs = xs @ [(k, v)]"
  by (induction xs) auto

lemma fold_bt_insert:
  assumes "sorted_wrt (<) is" "length is = length ls" "\<forall>x \<in> set acc. \<forall>i \<in> set is. fst x < i"
  shows "fold (\<lambda>(i, l). bt_insert i l) (zip is ls) acc = acc @ zip is ls"
  using assms(2,1,3)
  by (induction "is" ls arbitrary: acc rule: list_induct2) (auto simp: bt_insert_last)

text \<open>One entry of a level is skipped as the right half of a present pair, or adds its parent.\<close>

lemma multi_level_Cons [consumes 1, case_names skip parent]:
  assumes "multi_level H cur ((i, n) # rest) fr ps = Some (ps', fr')"
  obtains "odd i" "map_of cur (i - 1) \<noteq> None" "multi_level H cur rest fr ps = Some (ps', fr')"
  | s fr1 where "\<not> (odd i \<and> map_of cur (i - 1) \<noteq> None)" "\<forall>t. map_of cur (i XOR 1) = Some t \<longrightarrow> s = t"
      "map_of ps (i div 2) = None"
      "multi_level H cur rest fr1 (bt_insert (i div 2) (parent_of H i n s) ps) = Some (ps', fr')"
proof (cases "odd i \<and> map_of cur (i - 1) \<noteq> None")
  case True
  then have "i AND 1 = 1 \<and> map_of cur (i - 1) \<noteq> None" unfolding and_1_odd by blast
  then show ?thesis using that(1) assms True by simp
next
  case False
  then have "\<not> (i AND 1 = 1 \<and> map_of cur (i - 1) \<noteq> None)" unfolding and_1_odd by blast
  then obtain s fr1 where "(case map_of cur (i XOR 1) of Some s \<Rightarrow> Some (s, fr)
         | None \<Rightarrow> (case fr of [] \<Rightarrow> None | s # fr \<Rightarrow> Some (s, fr))) = Some (s, fr1)"
    "map_of ps (i div 2) = None"
    "multi_level H cur rest fr1 (bt_insert (i div 2) (parent_of H i n s) ps) = Some (ps', fr')"
    using assms by (auto split: Option.bind_splits if_splits simp del: One_nat_def)
  then show ?thesis using that(2) [OF False] by (auto split: option.splits)
qed

lemma multi_level_keeps:
  "multi_level H cur es fr ps = Some (ps', fr') \<Longrightarrow> map_of ps k = Some v \<Longrightarrow> map_of ps' k = Some v"
proof (induction es arbitrary: fr ps)
  case (Cons e es)
  obtain i n where "e = (i, n)" by force
  with Cons.prems(1) have "multi_level H cur ((i, n) # es) fr ps = Some (ps', fr')" by simp
  then show ?case
  proof (cases rule: multi_level_Cons)
    case skip then show ?thesis using Cons.IH Cons.prems(2) by blast
  next
    case (parent s fr1)
    then have "map_of (bt_insert (i div 2) (parent_of H i n s) ps) k = Some v"
      using Cons.prems(2) by (auto simp: bt_insert_map_of)
    then show ?thesis using Cons.IH parent by blast
  qed
qed simp

lemma multi_level_sound:
  assumes "multi_level H cur es fr ps = Some (ps', fr')" "(i, n) \<in> set es" "\<not> (odd i \<and> map_of cur (i - 1) \<noteq> None)"
  shows "\<exists>s. map_of ps' (i div 2) = Some (parent_of H i n s) \<and> (\<forall>t. map_of cur (i XOR 1) = Some t \<longrightarrow> s = t)"
  using assms(1,2)
proof (induction es arbitrary: fr ps)
  case (Cons e es)
  obtain j m where e: "e = (j, m)" by force
  with Cons.prems(1) have "multi_level H cur ((j, m) # es) fr ps = Some (ps', fr')" by simp
  then show ?case
  proof (cases rule: multi_level_Cons)
    case skip
    then have "(i, n) \<in> set es" using Cons.prems(2) e assms(3) by auto
    then show ?thesis using Cons.IH skip by blast
  next
    case (parent s fr1)
    show ?thesis
    proof (cases "(i, n) \<in> set es")
      case True then show ?thesis using Cons.IH parent by blast
    next
      case False
      then have "i = j" "n = m" using Cons.prems(2) e by auto
      then show ?thesis using parent multi_level_keeps [OF parent(4)] by (auto simp: bt_insert_map_of)
    qed
  qed
qed simp

lemma multi_level_paths:
  assumes "multi_level H cur cur fr [] = Some (ps', fr')" "distinct (map fst cur)" "(i, n) \<in> set cur"
  shows "\<exists>s. map_of ps' (i div 2) = Some (parent_of H i n s)"
proof (cases "odd i \<and> map_of cur (i - 1) \<noteq> None")
  case True
  then obtain m where m: "map_of cur (i - 1) = Some m" by auto
  have e: "even (i - 1)" "(i - 1) XOR 1 = i" "(i - 1) div 2 = i div 2"
    using True by (auto simp: bit_nat elim!: oddE)
  obtain s where "map_of ps' ((i - 1) div 2) = Some (parent_of H (i - 1) m s)"
    "\<forall>t. map_of cur ((i - 1) XOR 1) = Some t \<longrightarrow> s = t"
    using multi_level_sound [OF assms(1) map_of_SomeD [OF m]] e(1) by blast
  moreover have "map_of cur i = Some n" using assms(2,3) by simp
  ultimately have "map_of ps' (i div 2) = Some (hash_pair H m n)" using e by (simp add: parent_of_def bit_nat)
  then show ?thesis using True by (auto simp: parent_of_def bit_nat)
qed (use multi_level_sound [OF assms(1,3)] in blast)

lemma bt_insert_distinct:
  "map_of xs k = None \<Longrightarrow> distinct (map fst xs) \<Longrightarrow> distinct (map fst (bt_insert k v xs)) \<and> fst ` set (bt_insert k v xs) = insert k (fst ` set xs)"
  by (induction k v xs rule: bt_insert.induct) (auto split: if_splits)

lemma multi_level_distinct:
  "multi_level H cur es fr ps = Some (ps', fr') \<Longrightarrow> distinct (map fst ps) \<Longrightarrow> distinct (map fst ps')"
proof (induction es arbitrary: fr ps)
  case (Cons e es)
  obtain i n where "e = (i, n)" by force
  with Cons.prems(1) have "multi_level H cur ((i, n) # es) fr ps = Some (ps', fr')" by simp
  then show ?case
  proof (cases rule: multi_level_Cons)
    case skip then show ?thesis using Cons.IH Cons.prems(2) by blast
  next
    case (parent s fr1)
    then show ?thesis using Cons.IH [OF parent(4)] bt_insert_distinct [OF parent(3) Cons.prems(2)] by blast
  qed
qed simp

lemma multi_levels_paths:
  assumes "multi_levels H d cur fr = Some (out, fr')" "distinct (map fst cur)" "(i, n) \<in> set cur"
  shows "\<exists>path. length path = d \<and> map_of out (i div 2 ^ d) = Some (fold_path H i n path)"
  using assms
proof (induction d arbitrary: cur fr i n)
  case 0 then show ?case by simp
next
  case (Suc d)
  from Suc.prems(1) obtain ps fr1 where l: "multi_level H cur cur fr [] = Some (ps, fr1)"
    "multi_levels H d ps fr1 = Some (out, fr')" by (auto split: Option.bind_splits)
  obtain s where s: "map_of ps (i div 2) = Some (parent_of H i n s)"
    using multi_level_paths [OF l(1) Suc.prems(2,3)] by blast
  have "distinct (map fst ps)" using multi_level_distinct [OF l(1)] by simp
  from Suc.IH [OF l(2) this map_of_SomeD [OF s]]
  obtain path where "length path = d" "map_of out (i div 2 div 2 ^ d) = Some (fold_path H (i div 2) (parent_of H i n s) path)"
    by blast
  then show ?case by (intro exI [of _ "s # path"]) (simp add: div_mult2_eq [symmetric])
qed

section \<open>The honest multi opening\<close>

text \<open>The entries of a level at given indices, and the frontier it contributes.\<close>

abbreviation entries :: "hash list \<Rightarrow> nat list \<Rightarrow> (nat \<times> hash) list" where
  "entries xs is \<equiv> map (\<lambda>i. (i, xs ! i)) is"

lemma map_of_entries: "map_of (entries xs is) i = (if i \<in> set is then Some (xs ! i) else None)"
  by (induction "is") auto

lemma remdups_adj_snoc: "remdups_adj (xs @ [x]) = (if xs \<noteq> [] \<and> last xs = x then remdups_adj xs else remdups_adj xs @ [x])"
  by (cases xs rule: rev_cases) (auto simp: remdups_adj_append_two)

lemma sorted_split_last:
  fixes i :: nat
  assumes "sorted_wrt (<) (pre @ i # suf)" "odd i" "i - 1 \<in> set (pre @ i # suf)"
  shows "pre \<noteq> [] \<and> last pre = i - 1"
proof -
  have "0 < i" using assms(2) by (rule odd_pos)
  then have "i - 1 \<in> set pre" using assms(1,3) by (fastforce simp: sorted_wrt_append)
  moreover have "j \<le> last pre" if "j \<in> set pre" for j
    using that assms(1) by (cases pre rule: rev_cases) (auto simp: sorted_wrt_append)
  moreover have "last pre < i" if "pre \<noteq> []" using that assms(1) by (auto simp: sorted_wrt_append)
  ultimately show ?thesis by fastforce
qed

lemma level_round_trip:
  assumes "sorted_wrt (<) (pre @ suf)" "\<forall>i \<in> set (pre @ suf). i < 2 ^ Suc d" "length xs = 2 ^ Suc d"
    and "\<And>j. j < 2 ^ d \<Longrightarrow> ys ! j = hash_pair H (xs ! (2 * j)) (xs ! (2 * j + 1))"
  shows "\<exists>fr. frontier_level xs (pre @ suf) suf = Some fr
    \<and> (\<forall>rest. multi_level H (entries xs (pre @ suf)) (entries xs suf) (fr @ rest)
          (entries ys (remdups_adj (map (\<lambda>i. i div 2) pre)))
        = Some (entries ys (remdups_adj (map (\<lambda>i. i div 2) (pre @ suf))), rest))"
  using assms(1,2)
proof (induction suf arbitrary: pre)
  case (Cons i suf)
  let ?all = "pre @ i # suf" and ?half = "\<lambda>is. remdups_adj (map (\<lambda>i. i div 2) is)"
  define cur where "cur = entries xs ?all"
  have cur: "map_of cur j = (if j \<in> set ?all then Some (xs ! j) else None)" for j
    by (simp only: cur_def map_of_entries)
  from Cons.IH [of "pre @ [i]"] Cons.prems obtain fr where fr: "frontier_level xs ?all suf = Some fr"
    "\<And>rest. multi_level H cur (entries xs suf) (fr @ rest) (entries ys (?half (pre @ [i])))
      = Some (entries ys (?half ?all), rest)" by (auto simp: cur_def)
  have x: "i XOR 1 < length xs" using Cons.prems(2) xor_sibling_less [of i d] assms(3) by auto
  show ?case
  proof (cases "odd i \<and> i - 1 \<in> set ?all")
    case True
    then have l: "pre \<noteq> []" "last pre = i - 1" using sorted_split_last [OF Cons.prems(1)] by auto
    have "(i - 1) div 2 = i div 2" using True by (auto elim: oddE)
    then have "?half (pre @ [i]) = ?half pre" using l by (simp add: remdups_adj_snoc last_map)
    moreover have "i AND 1 = 1" "i XOR 1 = i - 1" using True unfolding and_1_odd xor_1_nat by auto
    ultimately show ?thesis using fr True cur [of "i - 1"]
      unfolding cur_def [symmetric] by (simp del: One_nat_def map_append)
  next
    case False
    have lt: "j div 2 < i div 2" if "j \<in> set pre" for j
    proof -
      have "j < i" using that Cons.prems(1) by (auto simp: sorted_wrt_append)
      moreover have "j \<noteq> i - 1" if "odd i" using False that \<open>j \<in> set pre\<close> by auto
      ultimately show ?thesis by (auto simp: div_less_iff_less_mult) presburger
    qed
    have h: "?half (pre @ [i]) = ?half pre @ [i div 2]" using lt by (auto simp: remdups_adj_snoc last_map) (metis last_in_set less_irrefl)
    have ins: "bt_insert (i div 2) v (entries ys (?half pre)) = entries ys (?half pre) @ [(i div 2, v)]" for v
      using lt by (intro bt_insert_last) auto
    have par: "parent_of H i (xs ! i) (xs ! (i XOR 1)) = ys ! (i div 2)"
      using parent_of_nth [of i d, OF _ assms(4)] Cons.prems(2) by simp
    have nk: "\<not> (i AND 1 = 1 \<and> map_of cur (i - 1) \<noteq> None)"
      using False unfolding and_1_odd cur by presburger
    have np: "map_of (entries ys (?half pre)) (drop_bit 1 i) = None"
      using lt by (auto simp: map_of_entries) (metis less_irrefl)
    have fr2: "multi_level H cur (entries xs suf) (fr @ rest) (entries ys (?half pre) @ [(i div 2, ys ! (i div 2))])
        = Some (entries ys (?half ?all), rest)" for rest
      using fr(2) [of rest] unfolding h by simp
    have step: "multi_level H cur (entries xs (i # suf)) F (entries ys (?half pre))
        = multi_level H cur (entries xs suf) G (entries ys (?half pre) @ [(i div 2, ys ! (i div 2))])"
      if "(case map_of cur (i XOR 1) of Some s \<Rightarrow> Some (s, F)
         | None \<Rightarrow> (case F of [] \<Rightarrow> None | s # F \<Rightarrow> Some (s, F))) = Some (xs ! (i XOR 1), G)" for F G
      using that np nk unfolding list.map multi_level.simps by (simp only: if_False) (simp add: par ins del: One_nat_def)
    show ?thesis
    proof (cases "i XOR 1 \<in> set ?all")
      case True
      then have "frontier_level xs ?all (i # suf) = Some fr" using fr(1) by (simp del: One_nat_def)
      moreover have "multi_level H cur (entries xs (i # suf)) (fr @ rest) (entries ys (?half pre))
          = Some (entries ys (?half ?all), rest)" for rest
        using step [of "fr @ rest" "fr @ rest"] cur [of "i XOR 1"] True fr2 by simp
      ultimately show ?thesis unfolding cur_def by blast
    next
      case False
      then have "frontier_level xs ?all (i # suf) = Some (xs ! (i XOR 1) # fr)" using fr(1) x by (simp add: get_def del: One_nat_def)
      moreover have "multi_level H cur (entries xs (i # suf)) ((xs ! (i XOR 1) # fr) @ rest) (entries ys (?half pre))
          = Some (entries ys (?half ?all), rest)" for rest
        using step [of "xs ! (i XOR 1) # fr @ rest" "fr @ rest"] cur [of "i XOR 1"] False fr2 by simp
      ultimately show ?thesis unfolding cur_def by blast
    qed
  qed
qed simp

lemma remdups_adj_strict: "sorted_wrt (\<le>) xs \<Longrightarrow> sorted_wrt (<) (remdups_adj xs)" for xs :: "nat list"
  by (induction xs rule: remdups_adj.induct) (auto simp: less_le)

lemma halves_strict:
  fixes "is" :: "nat list"
  assumes "sorted_wrt (<) is"
  shows "sorted_wrt (<) (remdups_adj (map (\<lambda>i. i div 2) is))"
proof (rule remdups_adj_strict)
  show "sorted_wrt (\<le>) (map (\<lambda>i. i div 2) is)"
    unfolding sorted_wrt_map using assms by (rule sorted_wrt_mono_rel [rotated]) (simp add: div_le_mono)
qed

lemma multi_round_trip:
  assumes "length xs = 2 ^ d" "build_levels H xs = Some ls"
    and "sorted_wrt (<) is" "\<forall>i \<in> set is. i < 2 ^ d" "is \<noteq> []"
  shows "\<exists>fr. frontier_loop (butlast ls) is = Some fr
    \<and> multi_levels H d (entries xs is) fr = Some ([(0, last ls ! 0)], [])"
  using assms
proof (induction d arbitrary: xs ls "is")
  case 0
  then have "is = [0]" by (cases "is"; cases "tl is") auto
  then show ?case using 0 by (auto simp: build_levels_0)
next
  case (Suc d)
  obtain ys where ys: "length ys = 2 ^ d" "build_levels H xs = map_option ((#) xs) (build_levels H ys)"
    "\<And>j. j < 2 ^ d \<Longrightarrow> ys ! j = hash_pair H (xs ! (2 * j)) (xs ! (2 * j + 1))"
    using build_levels_Suc [OF Suc.prems(1)] by blast
  obtain ks where ks: "build_levels H ys = Some ks" "length ks = Suc d"
    using build_levels_shape [OF ys(1), of H] by blast
  then have ls: "ls = xs # ks" "ks \<noteq> []" using Suc.prems(2) ys(2) by auto
  let ?js = "remdups_adj (map (\<lambda>i. i div 2) is)"
  obtain fr where fr: "frontier_level xs is is = Some fr"
    "\<And>rest. multi_level H (entries xs is) (entries xs is) (fr @ rest) [] = Some (entries ys ?js, rest)"
    using level_round_trip [of "[]" "is" d xs ys H] Suc.prems ys(3) by auto
  have "\<forall>j \<in> set ?js. j < 2 ^ d" using Suc.prems(4) half_less by auto
  then obtain frs where "frontier_loop (butlast ks) ?js = Some frs"
    "multi_levels H d (entries ys ?js) frs = Some ([(0, last ks ! 0)], [])"
    using Suc.IH [OF ys(1) ks(1) halves_strict [OF Suc.prems(3)]] Suc.prems(5) by auto
  then show ?case using ls fr by (simp add: drop_bit_half del: One_nat_def)
qed

section \<open>Properties\<close>

lemma leaf_count_Some: "leaf_count d = Some n \<longleftrightarrow> d < 64 \<and> n = 2 ^ d"
  by (auto simp: leaf_count_def)

lemma power_two_depth:
  assumes "is_power_of_two (length leaves)" "length leaves < 2 ^ 64"
  shows "length leaves = 2 ^ trailing_zeros (length leaves) \<and> trailing_zeros (length leaves) < 64"
proof -
  have e: "length leaves = 2 ^ trailing_zeros (length leaves)" using assms(1) by (simp add: is_power_of_two_def)
  then have "(2 :: nat) ^ trailing_zeros (length leaves) < 2 ^ 64" using assms(2) by linarith
  then have "trailing_zeros (length leaves) < 64" by (rule power_less_imp_less_exp [rotated]) simp
  then show ?thesis using e by blast
qed

text \<open>
  C26. The tree of a power-of-two number of leaves exists; every leaf can be opened and the opening
  verifies at the tree's depth; every increasing list of leaf indices has a multi opening, and it
  verifies with the leaves at these indices.
\<close>

theorem merkle_openings_verify:
  assumes "is_power_of_two (length leaves)" "length leaves < 2 ^ 64"
  defines "d \<equiv> trailing_zeros (length leaves)"
  shows "\<exists>t root. from_leaves H leaves = Some t \<and> merkle_root t = Some root
    \<and> (\<forall>i < length leaves. \<exists>path. merkle_open t i = Some path \<and> verify_path H root i (leaves ! i) path d)
    \<and> (\<forall>is. is \<noteq> [] \<and> strictly_increasing is \<and> last is < length leaves \<longrightarrow>
        (\<exists>fr. open_multi t is = Some (Some fr) \<and> verify_multi H root is (map ((!) leaves) is) fr d))"
proof -
  have d: "length leaves = 2 ^ d" "d < 64" using power_two_depth [OF assms(1,2)] by (simp_all add: d_def)
  obtain ls where ls: "build_levels H leaves = Some ls" "length ls = Suc d" "hd ls = leaves" "length (last ls) = 1"
    using build_levels_shape [OF d(1)] by blast
  let ?t = "\<lparr>levels = ls\<rparr>" and ?root = "last ls ! 0"
  have "from_leaves H leaves = Some ?t" "merkle_root ?t = Some ?root"
    using assms(1) ls by (auto simp: from_leaves_def merkle_root_def get_def)
  moreover have "\<exists>path. merkle_open ?t i = Some path \<and> verify_path H ?root i (leaves ! i) path d" if "i < length leaves" for i
  proof -
    have "i < 2 ^ d" using that d(1) by linarith
    then show ?thesis using open_loop_verifies [OF d(1) ls(1)] d(2)
      by (fastforce simp: merkle_open_def verify_path_def leaf_count_def)
  qed
  moreover have "\<exists>fr. open_multi ?t is = Some (Some fr) \<and> verify_multi H ?root is (map ((!) leaves) is) fr d"
    if i: "is \<noteq> []" "strictly_increasing is" "last is < length leaves" for "is"
  proof -
    have s: "sorted_wrt (<) is" using i(2) by (simp add: strictly_increasing_def)
    have "j \<le> last is" if "j \<in> set is" for j
      using that s by (cases "is" rule: rev_cases) (auto simp: sorted_wrt_append)
    then have "\<forall>j \<in> set is. j < 2 ^ d" using i(3) d(1) by fastforce
    from multi_round_trip [OF d(1) ls(1) s this i(1)] obtain fr where
      fr: "frontier_loop (butlast ls) is = Some fr" "multi_levels H d (entries leaves is) fr = Some ([(0, ?root)], [])"
      by blast
    have "fold (\<lambda>(i, l). bt_insert i l) (zip is (map ((!) leaves) is)) [] = entries leaves is"
      using fold_bt_insert [OF s, of "map ((!) leaves) is" "[]"] by (simp add: zip_map2 zip_same_conv_map)
    then have "verify_multi H ?root is (map ((!) leaves) is) fr d"
      using fr(2) i d by (simp add: verify_multi_def multi_root_def leaf_count_def)
    moreover have "open_multi ?t is = Some (Some fr)"
      using fr(1) i ls by (cases ls) (auto simp: open_multi_def get_def)
    ultimately show ?thesis by blast
  qed
  ultimately show ?thesis by blast
qed

definition demo_node_hash :: blake3 where
  "demo_node_hash = \<lparr>b3_hash = (\<lambda>_. replicate 32 0), b3_derive = (\<lambda>_ _. replicate 32 0)\<rparr>"

theorem merkle_openings_verify_witness:
  "\<exists>t root. from_leaves demo_node_hash [[1], [2], [3], [4]] = Some t \<and> merkle_root t = Some root
    \<and> (\<exists>fr. open_multi t [0, 2, 3] = Some (Some fr) \<and> verify_multi demo_node_hash root [0, 2, 3] [[1], [3], [4]] fr 2)"
proof -
  have p: "is_power_of_two (length [[1], [2], [3], [4 :: u8]])" by (simp add: is_power_of_two_iff) (rule exI [of _ 2], simp)
  have z: "trailing_zeros (length [[1], [2], [3], [4 :: u8]]) = 2" using trailing_zeros_pow [of 2] by (simp add: eval_nat_numeral)
  let ?ls = "[[1], [2], [3], [4 :: u8]]"
  have l: "length ?ls < 2 ^ 64" by simp
  obtain t root where t: "from_leaves demo_node_hash ?ls = Some t" "merkle_root t = Some root"
    "\<forall>is. is \<noteq> [] \<and> strictly_increasing is \<and> last is < length ?ls \<longrightarrow>
        (\<exists>fr. open_multi t is = Some (Some fr) \<and> verify_multi demo_node_hash root is (map ((!) ?ls) is) fr 2)"
    using merkle_openings_verify [OF p l, of demo_node_hash] unfolding z by blast
  have "\<exists>fr. open_multi t [0, 2, 3] = Some (Some fr) \<and> verify_multi demo_node_hash root [0, 2, 3] (map ((!) ?ls) [0, 2, 3]) fr 2"
    using t(3) [rule_format, of "[0, 2, 3]"] by (simp add: strictly_increasing_def)
  then show ?thesis using t(1,2) by simp
qed

text \<open>
  C27. Binding of single openings: two openings that verify for the same root, index and depth open the
  same leaf along the same path, unless two distinct strings hashed by the two verifications
  have the same BLAKE3 hash.
\<close>

theorem merkle_path_binding:
  assumes "verify_path H root i a p d" "verify_path H root i b q d"
    and "length a = 32" "length b = 32" "\<forall>s \<in> set p. length s = 32" "\<forall>s \<in> set q. length s = 32"
    and "\<And>x. length (b3_hash H x) = 32"
  shows "(a = b \<and> p = q) \<or> collision_in H (path_preimages H i a p) (path_preimages H i b q)"
  using assms(1,2) fold_path_binding [OF _ _ assms(3-7)] by (auto simp: verify_path_def split: option.splits)

lemma demo_verify_path:
  "verify_path demo_node_hash (replicate 32 0) 1 (replicate 32 a) [replicate 32 b] 1"
  by (simp add: verify_path_def leaf_count_def parent_of_def hash_pair_def demo_node_hash_def)

theorem merkle_path_binding_witness:
  "verify_path demo_node_hash (replicate 32 0) 1 (replicate 32 5) [replicate 32 6] 1
   \<and> verify_path demo_node_hash (replicate 32 0) 1 (replicate 32 7) [replicate 32 6] 1
   \<and> ((replicate 32 5 = (replicate 32 7 :: bytes) \<and> [replicate 32 6] = [replicate 32 (6 :: u8)])
      \<or> collision_in demo_node_hash (path_preimages demo_node_hash 1 (replicate 32 5) [replicate 32 6])
          (path_preimages demo_node_hash 1 (replicate 32 7) [replicate 32 6]))"
  by (intro conjI demo_verify_path merkle_path_binding [OF demo_verify_path demo_verify_path])
    (simp_all add: demo_node_hash_def)

text \<open>
  C28. An accepted multi opening contains an accepted single opening of each of its leaves, so it binds
  every leaf that it opens.
\<close>

theorem multi_contains_paths:
  assumes "verify_multi H root indices leaves frontier d" "k < length indices"
  shows "\<exists>path. verify_path H root (indices ! k) (leaves ! k) path d"
proof -
  from assms(1) obtain out where r: "d < 64" "length indices = length leaves" "sorted_wrt (<) indices"
    "last indices < 2 ^ d" "indices \<noteq> []"
    "multi_levels H d (fold (\<lambda>(i, l). bt_insert i l) (zip indices leaves) []) frontier = Some (out, [])"
    "map_of out 0 = Some root"
    by (auto simp: verify_multi_def multi_root_def strictly_increasing_def leaf_count_Some split: Option.bind_splits if_splits)
  have z: "fold (\<lambda>(i, l). bt_insert i l) (zip indices leaves) [] = zip indices leaves"
    using fold_bt_insert [OF r(3,2)] by simp
  have m: "(indices ! k, leaves ! k) \<in> set (zip indices leaves)" using assms(2) r(2) by (auto simp: set_zip)
  have "indices ! k \<le> last indices"
    using r(3) assms(2) by (cases indices rule: rev_cases) (auto simp: sorted_wrt_append nth_append less_Suc_eq intro: less_imp_le)
  then have lt: "indices ! k < 2 ^ d" using r(4) by linarith
  have "distinct (map fst (zip indices leaves))" using r(2,3) strict_sorted_iff by auto
  then obtain path where "length path = d" "map_of out (indices ! k div 2 ^ d) = Some (fold_path H (indices ! k) (leaves ! k) path)"
    using multi_levels_paths [OF r(6) [unfolded z] _ m] by blast
  then show ?thesis using lt r(1,7) by (auto simp: verify_path_def leaf_count_def)
qed

theorem multi_contains_paths_witness:
  "verify_multi demo_node_hash (replicate 32 0) [0, 1] [[1], [2]] [] 1
   \<and> (\<exists>path. verify_path demo_node_hash (replicate 32 0) 1 [2] path 1)"
proof -
  have m: "verify_multi demo_node_hash (replicate 32 0) [0, 1] [[1], [2]] [] 1"
    by (simp add: verify_multi_def multi_root_def leaf_count_def strictly_increasing_def bit_nat parent_of_def
        hash_pair_def demo_node_hash_def del: replicate.simps)
  show ?thesis using multi_contains_paths [OF m, of 1] m by simp
qed

end
