(* ===== verification/Ntt.thy ===== *)
theory Ntt
  imports Goldilocks
begin

text \<open>
  The radix-2 number-theoretic transform of \<^verbatim>\<open>volta-pcs/src/ntt.rs\<close>, as the in-place array program
  that it is: the bit-reversal swaps, then the butterfly stages. The main result is that it computes the
  discrete Fourier transform of its input, so that encoding evaluates the message polynomial at the
  powers of a primitive root of unity.
\<close>

section \<open>The program\<close>

definition root_of_unity :: "nat \<Rightarrow> fp option" where
  "root_of_unity bits = (if bits \<le> 32 then Some (fp_pow (fp_new 7) (drop_bit bits (P_u64 - 1))) else None)"

record ntt_plan =
  plan_size :: nat
  twiddles :: "fp list"

primrec twiddle_loop :: "fp \<Rightarrow> nat \<Rightarrow> fp \<Rightarrow> fp list" where
  "twiddle_loop w 0 acc = []"
| "twiddle_loop w (Suc n) acc = acc # twiddle_loop w n (acc * w)"

definition plan_new :: "nat \<Rightarrow> ntt_plan option" where
  "plan_new n =
     (if is_power_of_two n \<and> 2 \<le> n
      then map_option (\<lambda>w. \<lparr>plan_size = n, twiddles = twiddle_loop w (n div 2) 1\<rparr>)
             (root_of_unity (trailing_zeros n))
      else None)"

text \<open>\<^verbatim>\<open>u64::reverse_bits\<close> is the case of 64 bits.\<close>

primrec bit_reverse :: "nat \<Rightarrow> nat \<Rightarrow> nat" where
  "bit_reverse 0 i = 0"
| "bit_reverse (Suc b) i = (i mod 2) * 2 ^ b + bit_reverse b (i div 2)"

definition swap_step :: "nat \<Rightarrow> nat \<Rightarrow> fp list \<Rightarrow> fp list option" where
  "swap_step bits i a =
     (let j = drop_bit (64 - bits) (bit_reverse 64 i) in
      if i < j then do { x \<leftarrow> get a i; y \<leftarrow> get a j; Some (a[i := y, j := x]) } else Some a)"

definition butterfly :: "fp list \<Rightarrow> nat \<Rightarrow> nat \<Rightarrow> nat \<Rightarrow> nat \<Rightarrow> fp list \<Rightarrow> fp list option" where
  "butterfly tw step len start k a =
     do { w \<leftarrow> get tw (k * step);
          u \<leftarrow> get a (start + k);
          t \<leftarrow> get a (start + k + len div 2);
          let v = t * w;
          Some (a[start + k := u + v, start + k + len div 2 := u - v]) }"

text \<open>\<^verbatim>\<open>(0..n).step_by(len)\<close>\<close>

definition block_starts :: "nat \<Rightarrow> nat \<Rightarrow> nat list" where
  "block_starts n len = map (\<lambda>b. b * len) [0..<(n + len - 1) div len]"

definition stage :: "ntt_plan \<Rightarrow> nat \<Rightarrow> fp list \<Rightarrow> fp list option" where
  "stage p len =
     fold_opt (\<lambda>start. fold_opt (butterfly (twiddles p) (plan_size p div len) len start) [0..<len div 2])
       (block_starts (plan_size p) len)"

function stage_loop :: "ntt_plan \<Rightarrow> nat \<Rightarrow> fp list \<Rightarrow> fp list option" where
  "stage_loop p len a =
     (if len \<le> plan_size p \<and> 0 < len then do { a \<leftarrow> stage p len a; stage_loop p (2 * len) a } else Some a)"
  by pat_completeness auto
termination by (relation "measure (\<lambda>(p, len, a). Suc (plan_size p) - len)") auto

declare stage_loop.simps [simp del]

definition forward :: "ntt_plan \<Rightarrow> fp list \<Rightarrow> fp list option" where
  "forward p a =
     (if length a = plan_size p
      then do { a \<leftarrow> fold_opt (swap_step (trailing_zeros (plan_size p))) [0..<plan_size p] a; stage_loop p 2 a }
      else None)"

definition encode :: "ntt_plan \<Rightarrow> fp list \<Rightarrow> fp list option" where
  "encode p msg =
     (if length msg \<le> plan_size p then forward p (msg @ replicate (plan_size p - length msg) 0) else None)"

section \<open>Roots of unity and twiddles\<close>

lemma fp_new_7: "fp_new 7 = 7"
  by (simp add: fp_val_inject [symmetric] fp_refine)

lemma seven_half_fp: "(7 :: fp) ^ 9223372034707292160 = - 1"
proof -
  have "fp_val (7 ^ 9223372034707292160) = 7 ^ 9223372034707292160 mod gold_p"
    by (simp only: fp_val_power fp_val_numeral power_mod)
  also have "\<dots> = fp_val (- 1)" unfolding seven_power_half by (simp only: fp_val_ops) simp
  finally show ?thesis by (simp only: fp_val_inject)
qed

text \<open>The primitive root: its power at half its order is minus one, so its order is exactly \<open>2 ^ bits\<close>.\<close>

lemma root_of_unity_half:
  assumes "root_of_unity (Suc b) = Some w"
  shows "w ^ 2 ^ b = - 1"
proof -
  have b: "b < 32" and w: "w = fp_pow (fp_new 7) (drop_bit (Suc b) (P_u64 - 1))"
    using assms unfolding root_of_unity_def by (auto split: if_splits)
  have "unat (P_u64 - 1) = 4294967295 * 2 ^ 32" by (simp add: P_u64_def)
  moreover have "(4294967295 * 2 ^ 32 :: nat) = 4294967295 * 2 ^ (31 - b) * 2 ^ Suc b"
    using b by (simp flip: power_add power_Suc)
  ultimately have "unat (drop_bit (Suc b) (P_u64 - 1)) = 4294967295 * 2 ^ (31 - b)"
    by (simp only: unat_drop_bit) simp
  then have "w ^ 2 ^ b = 7 ^ (4294967295 * 2 ^ (31 - b) * 2 ^ b)"
    using w by (simp only: fp_pow_power fp_new_7 power_mult)
  also have "(4294967295 * 2 ^ (31 - b) * 2 ^ b :: nat) = 9223372034707292160"
    using b by (simp add: mult.assoc flip: power_add)
  finally show ?thesis unfolding seven_half_fp .
qed

lemma twiddle_loop_nth:
  "length (twiddle_loop w n acc) = n \<and> (\<forall>k < n. twiddle_loop w n acc ! k = acc * w ^ k)"
  by (induction n arbitrary: acc) (auto simp: nth_Cons' less_Suc_eq_0_disj mult.assoc)

section \<open>Bit reversal\<close>

lemma bit_reverse_less: "bit_reverse b i < 2 ^ b"
proof (induction b arbitrary: i)
  case (Suc b)
  have "i mod 2 * 2 ^ b \<le> 1 * 2 ^ b" by (intro mult_le_mono1) auto
  then have "i mod 2 * 2 ^ b \<le> 2 ^ b" by simp
  then show ?case using Suc.IH [of "i div 2"] unfolding bit_reverse.simps power_Suc by linarith
qed simp

lemma bit_reverse_extend: "i < 2 ^ b \<Longrightarrow> bit_reverse (b + c) i = 2 ^ c * bit_reverse b i"
proof (induction b arbitrary: i)
  case 0
  have "bit_reverse c 0 = 0" by (induction c) auto
  then show ?case using 0 by simp
next
  case (Suc b)
  have "i div 2 < 2 ^ b" using Suc.prems by auto
  then show ?case using Suc.IH [of "i div 2"] by (simp add: power_add algebra_simps)
qed

lemma bit_reverse_snoc: "i < 2 ^ b \<Longrightarrow> e < 2 \<Longrightarrow> bit_reverse (Suc b) (i + e * 2 ^ b) = 2 * bit_reverse b i + e"
proof (induction b arbitrary: i)
  case (Suc b)
  have "(i + e * 2 ^ Suc b) div 2 = i div 2 + e * 2 ^ b" "(i + e * 2 ^ Suc b) mod 2 = i mod 2"
    by (simp_all add: mod_add_eq [symmetric, of i] mod_mult_left_eq)
  moreover have "i div 2 < 2 ^ b" using Suc.prems by auto
  ultimately show ?case using Suc.IH [of "i div 2"] Suc.prems(2) by simp
qed simp

lemma bit_reverse_involution: "i < 2 ^ b \<Longrightarrow> bit_reverse b (bit_reverse b i) = i"
proof (induction b arbitrary: i)
  case (Suc b)
  have "bit_reverse (Suc b) (bit_reverse (Suc b) i) = bit_reverse (Suc b) (bit_reverse b (i div 2) + i mod 2 * 2 ^ b)"
    by (simp add: add.commute)
  also have "\<dots> = 2 * bit_reverse b (bit_reverse b (i div 2)) + i mod 2"
    by (rule bit_reverse_snoc) (auto simp: bit_reverse_less)
  also have "\<dots> = i" using Suc by (auto simp: less_mult_imp_div_less mult.commute)
  finally show ?case .
qed simp

lemma reverse_shift:
  assumes "i < 2 ^ b" "b \<le> 64"
  shows "drop_bit (64 - b) (bit_reverse 64 i) = bit_reverse b i"
  using bit_reverse_extend [OF assms(1), of "64 - b"] assms(2) by (simp add: drop_bit_eq_div)

lemma bit_reversal:
  assumes "length x = 2 ^ b" "b \<le> 64"
  shows "\<exists>a. fold_opt (swap_step b) [0..<2 ^ b] x = Some a \<and> length a = 2 ^ b \<and> (\<forall>m < 2 ^ b. a ! m = x ! bit_reverse b m)"
proof -
  let ?r = "bit_reverse b"
  let ?I = "\<lambda>k a. length a = 2 ^ b \<and> (\<forall>m < 2 ^ b. a ! m = (if m < k \<or> ?r m < k then x ! ?r m else x ! m))"
  have r: "?r m < 2 ^ b" "m < 2 ^ b \<Longrightarrow> ?r (?r m) = m" for m
    by (simp_all add: bit_reverse_less bit_reverse_involution)
  have "\<exists>a'. swap_step b ([0..<2 ^ b] ! k) a = Some a' \<and> ?I (Suc k) a'"
    if k: "k < length [0..<2 ^ b]" and I: "?I k a" for k a
  proof -
    have kb: "k < 2 ^ b" using k by simp
    then have j: "drop_bit (64 - b) (bit_reverse 64 k) = ?r k" using reverse_shift assms(2) by blast
    show ?thesis
    proof (cases "k < ?r k")
      case True
      then have s: "swap_step b k a = Some (a[k := a ! ?r k, ?r k := a ! k])"
        using I kb r(1) by (simp add: swap_step_def j Let_def)
      have "a[k := a ! ?r k, ?r k := a ! k] ! m = (if m < Suc k \<or> ?r m < Suc k then x ! ?r m else x ! m)" if m: "m < 2 ^ b" for m
      proof -
        consider "m = k" | "m = ?r k" | "m \<noteq> k" "m \<noteq> ?r k" by blast
        then show ?thesis
        proof cases
          case 1 then show ?thesis using I True kb r by auto
        next
          case 2 then show ?thesis using I True kb r by auto
        next
          case 3
          then have "?r m \<noteq> k" using r(2) m by metis
          then show ?thesis using 3 I m by (auto simp: less_Suc_eq)
        qed
      qed
      then show ?thesis using s I k by simp
    next
      case False
      then have s: "swap_step b k a = Some a" by (simp add: swap_step_def j)
      have "a ! m = (if m < Suc k \<or> ?r m < Suc k then x ! ?r m else x ! m)" if m: "m < 2 ^ b" for m
      proof -
        consider "m = k" | "?r m = k" | "m \<noteq> k" "?r m \<noteq> k" by blast
        then show ?thesis
        proof cases
          case 1 then show ?thesis using I False kb by (cases "?r k = k") auto
        next
          case 2
          then have "m = ?r k" using r(2) m by metis
          then show ?thesis using I False kb m r 2 by (cases "?r k = k") auto
        next
          case 3 then show ?thesis using I m by (auto simp: less_Suc_eq)
        qed
      qed
      then show ?thesis using s I k by simp
    qed
  qed
  then show ?thesis using fold_opt_invariant [of ?I x "[0..<2 ^ b]" "swap_step b"] assms(1) r(1) by fastforce
qed

section \<open>One stage\<close>

text \<open>What a stage with blocks of length \<open>len\<close> leaves at position \<open>m\<close>.\<close>

definition stage_value :: "(nat \<Rightarrow> fp) \<Rightarrow> nat \<Rightarrow> fp list \<Rightarrow> nat \<Rightarrow> fp" where
  "stage_value t h a m =
     (let k = m mod (2 * h) in
      if k < h then a ! m + a ! (m + h) * t k else a ! (m - h) - a ! m * t (k - h))"

lemma stage_value_low: "k < h \<Longrightarrow> stage_value t h a (b * (2 * h) + k) = a ! (b * (2 * h) + k) + a ! (b * (2 * h) + k + h) * t k"
  by (simp add: stage_value_def)

lemma stage_value_high:
  "k < h \<Longrightarrow> stage_value t h a (b * (2 * h) + k + h) = a ! (b * (2 * h) + k) - a ! (b * (2 * h) + k + h) * t k"
proof -
  assume "k < h"
  then have "(b * (2 * h) + k + h) mod (2 * h) = k + h" by (simp add: add.assoc)
  then show ?thesis by (simp add: stage_value_def)
qed

lemma butterfly_block:
  assumes "length a = q * (2 * h)" "b < q" "\<forall>m < length a. a ! m = (if m < b * (2 * h) then stage_value t h A m else A ! m)"
    and "\<And>k. k < h \<Longrightarrow> get tw (k * step) = Some (t k)"
  shows "\<exists>a'. fold_opt (butterfly tw step (2 * h) (b * (2 * h))) [0..<h] a = Some a' \<and> length a' = q * (2 * h)
    \<and> (\<forall>m < length a'. a' ! m = (if m < Suc b * (2 * h) then stage_value t h A m else A ! m))"
proof -
  let ?s = "b * (2 * h)"
  let ?done = "\<lambda>k m. m < ?s + k \<or> (?s + h \<le> m \<and> m < ?s + h + k)"
  let ?I = "\<lambda>k a. length a = q * (2 * h) \<and> (\<forall>m < q * (2 * h). a ! m = (if ?done k m then stage_value t h A m else A ! m))"
  have "\<exists>a'. butterfly tw step (2 * h) ?s ([0..<h] ! k) a = Some a' \<and> ?I (Suc k) a'"
    if k: "k < length [0..<h]" and I: "?I k a" for k a
  proof -
    have kh: "k < h" using k by simp
    have lt: "?s + k < q * (2 * h)" "?s + k + h < q * (2 * h)"
      using row_bound [OF assms(2), of k "2 * h"] row_bound [OF assms(2), of "k + h" "2 * h"] kh by simp_all
    have u: "a ! (?s + k) = A ! (?s + k)" "a ! (?s + k + h) = A ! (?s + k + h)" using I lt kh by auto
    let ?a = "a[?s + k := A ! (?s + k) + A ! (?s + k + h) * t k, ?s + k + h := A ! (?s + k) - A ! (?s + k + h) * t k]"
    have st: "butterfly tw step (2 * h) ?s k a = Some ?a"
      using I lt u assms(4) [OF kh] by (simp add: butterfly_def Let_def)
    have "?a ! m = (if ?done (Suc k) m then stage_value t h A m else A ! m)" if m: "m < q * (2 * h)" for m
    proof -
      consider "m = ?s + k" | "m = ?s + k + h" | "m \<noteq> ?s + k" "m \<noteq> ?s + k + h" by blast
      then show ?thesis
      proof cases
        case 1 then show ?thesis using I kh m stage_value_low [OF kh] by simp
      next
        case 2 then show ?thesis using I kh m stage_value_high [OF kh] by simp
      next
        case 3
        then have "?done (Suc k) m \<longleftrightarrow> ?done k m" by auto
        then show ?thesis using 3 I m by simp
      qed
    qed
    then show ?thesis using st I kh by simp
  qed
  then have "\<exists>a'. fold_opt (butterfly tw step (2 * h) ?s) [0..<h] a = Some a' \<and> ?I (length [0..<h]) a'"
    by (intro fold_opt_invariant [of ?I]) (use assms(1,3) in auto)
  then obtain a' where a': "fold_opt (butterfly tw step (2 * h) ?s) [0..<h] a = Some a'" "?I h a'"
    by (auto simp del: fold_opt.simps)
  have "?done h m \<longleftrightarrow> m < Suc b * (2 * h)" for m by auto
  then have "\<forall>m < length a'. a' ! m = (if m < Suc b * (2 * h) then stage_value t h A m else A ! m)"
    using a'(2) by simp
  then show ?thesis using a' by blast
qed

lemma stage_computes:
  assumes "length A = q * (2 * h)" "0 < h" "plan_size p = q * (2 * h)"
    and "\<And>k. k < h \<Longrightarrow> get (twiddles p) (k * q) = Some (t k)"
  shows "\<exists>a. stage p (2 * h) A = Some a \<and> length a = q * (2 * h) \<and> (\<forall>m < q * (2 * h). a ! m = stage_value t h A m)"
proof -
  let ?I = "\<lambda>b a. length a = q * (2 * h) \<and> (\<forall>m < length a. a ! m = (if m < b * (2 * h) then stage_value t h A m else A ! m))"
  have q: "plan_size p div (2 * h) = q" using assms(2,3) by simp
  have "q * (2 * h) + 2 * h - 1 = (2 * h - 1) + q * (2 * h)" using assms(2) by simp
  then have "(q * (2 * h) + 2 * h - 1) div (2 * h) = q"
    using assms(2) div_mult_self1 [of "2 * h" "2 * h - 1" q] by simp
  then have bs: "block_starts (plan_size p) (2 * h) = map (\<lambda>b. b * (2 * h)) [0..<q]"
    using assms(2) by (simp add: block_starts_def assms(3))
  let ?f = "\<lambda>s. fold_opt (butterfly (twiddles p) q (2 * h) s) [0..<h]"
  have "\<exists>a'. ?f (map (\<lambda>b. b * (2 * h)) [0..<q] ! b) a = Some a' \<and> ?I (Suc b) a'"
    if "b < length (map (\<lambda>b. b * (2 * h)) [0..<q])" "?I b a" for b a
    using butterfly_block [of a q h b t A "twiddles p" q] that assms(4) by simp
  then have "\<exists>a. fold_opt ?f (map (\<lambda>b. b * (2 * h)) [0..<q]) A = Some a \<and> ?I (length (map (\<lambda>b. b * (2 * h)) [0..<q])) a"
    by (intro fold_opt_invariant [of ?I]) (use assms(1) in auto)
  then show ?thesis by (auto simp: stage_def q bs)
qed

section \<open>The transform\<close>

text \<open>The discrete Fourier transform, and the partial transforms that the stages hold.\<close>

definition dft :: "fp \<Rightarrow> fp list \<Rightarrow> nat \<Rightarrow> fp" where
  "dft w x j = (\<Sum>i < length x. x ! i * w ^ (i * j))"

definition partial_dft :: "fp \<Rightarrow> fp list \<Rightarrow> nat \<Rightarrow> nat \<Rightarrow> nat \<Rightarrow> nat \<Rightarrow> fp" where
  "partial_dft w x n r s j = (\<Sum>i < n. x ! (r + i * s) * w ^ (s * i * j))"

lemma sum_even_odd:
  fixes n :: nat
  shows "(\<Sum>i < 2 * n. f i) = (\<Sum>i < n. f (2 * i)) + (\<Sum>i < n. f (2 * i + 1) :: 'a :: comm_monoid_add)"
  by (induction n) (simp_all add: algebra_simps)

lemma partial_dft_split:
  "partial_dft w x (2 * h) r s j = partial_dft w x h r (2 * s) j + partial_dft w x h (r + s) (2 * s) j * w ^ (s * j)"
proof -
  have "x ! (r + (2 * i + 1) * s) * w ^ (s * (2 * i + 1) * j) = x ! (r + s + i * (2 * s)) * w ^ (2 * s * i * j) * w ^ (s * j)" for i
    by (simp add: power_add [symmetric] algebra_simps)
  moreover have "x ! (r + 2 * i * s) * w ^ (s * (2 * i) * j) = x ! (r + i * (2 * s)) * w ^ (2 * s * i * j)" for i
    by (simp add: algebra_simps)
  ultimately show ?thesis by (simp add: partial_dft_def sum_even_odd sum_distrib_right)
qed

lemma partial_dft_period:
  assumes "w ^ (s * h) = - 1"
  shows "partial_dft w x h r (2 * s) (j + h) = partial_dft w x h r (2 * s) j"
proof -
  have "w ^ (2 * s * i * h) = 1" for i
  proof -
    have "w ^ (2 * s * i * h) = ((w ^ (s * h)) ^ 2) ^ i" by (simp add: power_mult [symmetric] algebra_simps)
    then show ?thesis using assms by simp
  qed
  then show ?thesis by (simp add: partial_dft_def distrib_left power_add)
qed

text \<open>After the stage of length \<open>2 ^ l\<close> every block holds a partial transform.\<close>

definition level_ok :: "fp \<Rightarrow> fp list \<Rightarrow> nat \<Rightarrow> nat \<Rightarrow> fp list \<Rightarrow> bool" where
  "level_ok w x L l a \<longleftrightarrow> length a = 2 ^ L \<and>
     (\<forall>b < 2 ^ (L - l). \<forall>j < 2 ^ l. a ! (b * 2 ^ l + j) = partial_dft w x (2 ^ l) (bit_reverse (L - l) b) (2 ^ (L - l)) j)"

lemma level_step:
  assumes "level_ok w x L l a" "l < L" "plan_size p = 2 ^ L" "twiddles p = twiddle_loop w (2 ^ (L - 1)) 1"
    and "w ^ 2 ^ (L - 1) = - 1"
  shows "\<exists>a'. stage p (2 ^ Suc l) a = Some a' \<and> level_ok w x L (Suc l) a'"
proof -
  let ?h = "2 ^ l :: nat" and ?q = "2 ^ (L - Suc l) :: nat"
  have L: "L - l = Suc (L - Suc l)" "2 ^ (L - 1) = ?q * ?h" "?q * (2 * ?h) = 2 ^ L" "2 ^ (L - l) = 2 * ?q"
    using assms(2) by (simp_all flip: power_add power_Suc add: Suc_diff_Suc)
  have tw: "get (twiddles p) (k * ?q) = Some (w ^ (k * ?q))" if "k < ?h" for k
  proof -
    have "k * ?q < ?q * ?h" using that by (simp add: mult.commute)
    then show ?thesis unfolding assms(4) L(2) using twiddle_loop_nth [of w "?q * ?h" 1] by simp
  qed
  have len: "length a = ?q * (2 * ?h)" "plan_size p = ?q * (2 * ?h)" using assms(1,3) L(3) by (simp_all add: level_ok_def)
  obtain a' where a': "stage p (2 * ?h) a = Some a'" "length a' = ?q * (2 * ?h)"
    "\<forall>m < ?q * (2 * ?h). a' ! m = stage_value (\<lambda>k. w ^ (k * ?q)) ?h a m"
    using stage_computes [OF len(1) _ len(2) tw] by auto
  have old: "a ! (b * ?h + j) = partial_dft w x ?h (bit_reverse (L - l) b) (2 * ?q) j" if "b < 2 * ?q" "j < ?h" for b j
    using assms(1) that L(4) by (simp add: level_ok_def)
  have odd_rev: "Suc (b * 2) mod 2 = 1" for b :: nat by presburger
  have lo: "a ! (b * (2 * ?h) + k) = partial_dft w x ?h (bit_reverse (L - Suc l) b) (2 * ?q) k"
    "a ! (b * (2 * ?h) + k + ?h) = partial_dft w x ?h (bit_reverse (L - Suc l) b + ?q) (2 * ?q) k" if "b < ?q" "k < ?h" for b k
    using old [of "2 * b" k] old [of "2 * b + 1" k] that odd_rev [of b] by (simp_all add: L(1) algebra_simps)
  have neg: "w ^ (?q * ?h) = - 1" using assms(5) L(2) by simp
  have "a' ! (b * (2 * ?h) + j) = partial_dft w x (2 * ?h) (bit_reverse (L - Suc l) b) ?q j"
    if b: "b < ?q" and j: "j < 2 * ?h" for b j
  proof -
    have m: "b * (2 * ?h) + j < ?q * (2 * ?h)" using row_bound [OF b j] .
    show ?thesis
    proof (cases "j < ?h")
      case True
      then show ?thesis using a'(3) m lo [OF b True] stage_value_low [OF True]
        by (simp add: partial_dft_split mult.commute)
    next
      case False
      then obtain k where k: "j = k + ?h" "k < ?h" using j by (metis add.commute add_less_cancel_left le_Suc_ex mult_2 not_less)
      have "w ^ (?q * (k + ?h)) = - (w ^ (k * ?q))"
        unfolding distrib_left power_add neg by (simp add: mult.commute)
      then show ?thesis using a'(3) m lo [OF b k(2)] stage_value_high [OF k(2)] k(1)
        by (simp add: partial_dft_split partial_dft_period [OF neg] add.assoc [symmetric])
    qed
  qed
  then have "level_ok w x L (Suc l) a'" using a'(2) L(3) by (simp add: level_ok_def)
  then show ?thesis using a'(1) by auto
qed

lemma stage_loop_dft:
  assumes "level_ok w x L l a" "l \<le> L" "plan_size p = 2 ^ L" "twiddles p = twiddle_loop w (2 ^ (L - 1)) 1"
    and "w ^ 2 ^ (L - 1) = - 1"
  shows "\<exists>a'. stage_loop p (2 ^ Suc l) a = Some a' \<and> level_ok w x L L a'"
  using assms(2,1)
proof (induction "L - l" arbitrary: l a)
  case 0
  then have "l = L" by simp
  then show ?case using 0 assms(3) by (subst stage_loop.simps) simp
next
  case (Suc d)
  then have l: "l < L" by simp
  obtain a1 where a1: "stage p (2 ^ Suc l) a = Some a1" "level_ok w x L (Suc l) a1"
    using level_step [OF Suc.prems(2) l assms(3-5)] by blast
  have le: "(2 :: nat) ^ Suc l \<le> plan_size p" unfolding assms(3) using l by (intro power_increasing) auto
  have "stage_loop p (2 ^ Suc l) a = stage_loop p (2 ^ Suc (Suc l)) a1"
    using a1(1) le by (subst stage_loop.simps) simp
  then show ?case using Suc.hyps(1) [of "Suc l" a1] Suc.hyps(2) a1(2) l by simp
qed

text \<open>The forward transform returns on every input of the plan's size.\<close>

lemma forward_dft:
  assumes "plan_new n = Some p" "length x = n"
  shows "\<exists>w y. root_of_unity (trailing_zeros n) = Some w \<and> forward p x = Some y \<and> length y = n
    \<and> (\<forall>j < n. y ! j = dft w x j)"
proof -
  define L where "L = trailing_zeros n"
  obtain w where w: "root_of_unity L = Some w" "p = \<lparr>plan_size = n, twiddles = twiddle_loop w (n div 2) 1\<rparr>"
    using assms(1) by (auto simp: plan_new_def L_def split: if_splits)
  have "is_power_of_two n \<and> 2 \<le> n" using assms(1) by (simp add: plan_new_def split: if_splits)
  then have n: "n = 2 ^ L" "2 \<le> n" unfolding is_power_of_two_def L_def by blast+
  obtain l where l: "L = Suc l" using n by (cases L) auto
  have "L \<le> 64" using w(1) by (simp add: root_of_unity_def split: if_splits)
  then obtain a where a: "fold_opt (swap_step L) [0..<n] x = Some a" "length a = 2 ^ L" "\<forall>m < 2 ^ L. a ! m = x ! bit_reverse L m"
    using bit_reversal [of x L] assms(2) n(1) by auto
  have "level_ok w x L 0 a" using a by (simp add: level_ok_def partial_dft_def)
  moreover have "plan_size p = 2 ^ L" "twiddles p = twiddle_loop w (2 ^ (L - 1)) 1" "w ^ 2 ^ (L - 1) = - 1"
    using w n l root_of_unity_half [of l w] by simp_all
  ultimately obtain y where y: "stage_loop p (2 ^ Suc 0) a = Some y" "level_ok w x L L y"
    using stage_loop_dft [of w x L 0 a p] by blast
  have "forward p x = Some y" using a y(1) w(2) assms(2) by (simp add: forward_def L_def)
  moreover have "length y = n" "\<forall>j < n. y ! j = dft w x j"
    using y(2) n(1) assms(2) by (simp_all add: level_ok_def partial_dft_def dft_def)
  ultimately show ?thesis using w(1) unfolding L_def by blast
qed

section \<open>Properties\<close>

text \<open>
  C20. The in-place transform computes the discrete Fourier transform: for every plan that exists and
  every vector of its size, \<^verbatim>\<open>forward\<close> returns the vector whose entry \<open>j\<close> is the sum of \<open>x i * w ^ (i j)\<close>,
  where \<open>w\<close> is the root of unity of the plan's size.
\<close>

theorem forward_computes_dft:
  assumes "plan_new n = Some p" "length x = n"
  shows "\<exists>w. root_of_unity (trailing_zeros n) = Some w \<and> forward p x = Some (map (dft w x) [0..<n])"
proof -
  obtain w y where y: "root_of_unity (trailing_zeros n) = Some w" "forward p x = Some y" "length y = n"
    "\<forall>j < n. y ! j = dft w x j" using forward_dft [OF assms] by blast
  have "y = map (dft w x) [0..<n]" using y(3,4) by (intro nth_equalityI) auto
  then show ?thesis using y(1,2) by blast
qed

definition demo_vector :: "fp list" where
  "demo_vector = [3, 1, 4, 1]"

lemma demo_plan: "\<exists>p. plan_new 4 = Some p"
proof -
  have "trailing_zeros 4 = 2" using trailing_zeros_pow [of 2] by simp
  then show ?thesis by (simp add: plan_new_def is_power_of_two_def root_of_unity_def)
qed

theorem forward_computes_dft_witness:
  "\<exists>p w. plan_new 4 = Some p \<and> root_of_unity 2 = Some w \<and> forward p demo_vector = Some (map (dft w demo_vector) [0..<4])"
proof -
  have "trailing_zeros 4 = 2" using trailing_zeros_pow [of 2] by simp
  moreover obtain p where "plan_new 4 = Some p" using demo_plan by blast
  moreover have "length demo_vector = 4" by (simp add: demo_vector_def)
  ultimately show ?thesis using forward_computes_dft [of 4 p demo_vector] by auto
qed

text \<open>The powers of the root below its order are distinct.\<close>

lemma root_powers_inject:
  assumes "w ^ 2 ^ l = (- 1 :: fp)" "i < 2 ^ Suc l" "j < 2 ^ Suc l" "w ^ i = w ^ j"
  shows "i = j"
proof -
  have one: "(1 :: fp) \<noteq> - 1" by (simp add: fp_val_inject [symmetric] fp_val_ops)
  have nz: "w \<noteq> 0" using assms(1) by (auto simp: power_0_left)
  have False if d: "w ^ a = w ^ (a + d)" "0 < d" "d < 2 ^ Suc l" for a d
  proof -
    have 1: "w ^ d = 1" using d(1) nz by (simp add: power_add)
    obtain k m where m: "d = 2 ^ k * m" "odd m" using odd_part [OF d(2)] by blast
    have "2 ^ k \<le> d" using m by (cases m) auto
    then have "(2 :: nat) ^ k < 2 ^ Suc l" using d(3) by linarith
    then have "k \<le> l" by (simp add: power_strict_increasing_iff del: power_Suc)
    then have "2 ^ k * m * 2 ^ (l - k) = 2 ^ l * m" by (simp add: power_add [symmetric] algebra_simps)
    then have "(w ^ d) ^ 2 ^ (l - k) = (w ^ 2 ^ l) ^ m" by (simp only: m(1) power_mult [symmetric])
    then show False using 1 m(2) one unfolding assms(1) by simp
  qed
  then show ?thesis using assms(2-4)
    by (metis less_imp_add_positive linorder_neqE_nat le_add2 le_less_trans)
qed

lemma sum_poly_eval: "(\<Sum>i < length cs. cs ! i * x ^ i) = poly_eval cs x" for x :: "'a :: comm_ring_1"
proof (induction cs)
  case (Cons c cs)
  have "(\<Sum>i < length (c # cs). (c # cs) ! i * x ^ i) = c + (\<Sum>i < length cs. cs ! i * x ^ Suc i)"
    unfolding length_Cons sum.lessThan_Suc_shift by simp
  also have "(\<Sum>i < length cs. cs ! i * x ^ Suc i) = x * (\<Sum>i < length cs. cs ! i * x ^ i)"
    by (simp add: sum_distrib_left algebra_simps)
  finally show ?case using Cons.IH by simp
qed simp

lemma dft_poly: "dft w x j = poly_eval x (w ^ j)"
  unfolding dft_def sum_poly_eval [symmetric] by (simp add: power_mult [symmetric] mult.commute)

lemma poly_eval_replicate_0 [simp]: "poly_eval (replicate n 0) x = 0"
  by (induction n) simp_all

lemma encode_evaluates:
  assumes "plan_new n = Some p" "length msg \<le> n"
  shows "\<exists>w. root_of_unity (trailing_zeros n) = Some w \<and> encode p msg = Some (map (\<lambda>j. poly_eval msg (w ^ j)) [0..<n])"
proof -
  have p: "plan_size p = n" using assms(1) by (auto simp: plan_new_def split: if_splits)
  let ?x = "msg @ replicate (n - length msg) 0"
  obtain w y where y: "root_of_unity (trailing_zeros n) = Some w" "forward p ?x = Some y" "length y = n"
    "\<forall>j < n. y ! j = dft w ?x j" using forward_dft [OF assms(1), of ?x] assms(2) by auto
  have "y = map (\<lambda>j. poly_eval msg (w ^ j)) [0..<n]"
    using y(3,4) by (intro nth_equalityI) (simp_all add: dft_poly poly_eval_append)
  then show ?thesis using y(1,2) p assms(2) by (simp add: encode_def)
qed

text \<open>
  C21. Encoding is the Reed--Solomon code: two distinct messages of \<open>k\<close> coefficients have codewords that
  agree in fewer than \<open>k\<close> of the \<open>n\<close> positions.
\<close>

theorem encode_distance:
  assumes "plan_new n = Some p" "length a = k" "length b = k" "k \<le> n" "a \<noteq> b"
  shows "\<exists>c d. encode p a = Some c \<and> encode p b = Some d \<and> length c = n \<and> length d = n
    \<and> card {j. j < n \<and> c ! j = d ! j} < k"
proof -
  obtain w where w: "root_of_unity (trailing_zeros n) = Some w"
    "encode p a = Some (map (\<lambda>j. poly_eval a (w ^ j)) [0..<n])"
    "encode p b = Some (map (\<lambda>j. poly_eval b (w ^ j)) [0..<n])"
    using encode_evaluates [OF assms(1), of a] encode_evaluates [OF assms(1), of b] assms(2-4) by auto
  have "is_power_of_two n \<and> 2 \<le> n" using assms(1) by (simp add: plan_new_def split: if_splits)
  then have n: "n = 2 ^ trailing_zeros n" "2 \<le> n" unfolding is_power_of_two_def by blast+
  then obtain l where l: "trailing_zeros n = Suc l" by (cases "trailing_zeros n") auto
  have h: "w ^ 2 ^ l = - 1" using root_of_unity_half w(1) l by simp
  let ?e = "map2 (+) a (map ((*) (- 1)) b)"
  have ev: "poly_eval ?e x = poly_eval a x - poly_eval b x" for x
    using assms(2,3) poly_eval_scale [of "- 1" b x] by (simp add: poly_eval_add)
  have "\<exists>i < k. a ! i \<noteq> b ! i" using assms(2,3,5) by (metis nth_equalityI)
  then obtain i where i: "i < k" "a ! i \<noteq> b ! i" by blast
  then have "?e ! i \<noteq> 0" using assms(2,3) by simp
  moreover have "?e ! i \<in> set ?e" by (rule nth_mem) (simp add: assms(2,3) i(1))
  ultimately have "\<exists>c \<in> set ?e. c \<noteq> 0" by blast
  then have r: "finite {x. poly_eval ?e x = 0}" "card {x. poly_eval ?e x = 0} \<le> k - 1"
    using poly_roots_card [of ?e] assms(2,3) by auto
  let ?J = "{j. j < n \<and> map (\<lambda>j. poly_eval a (w ^ j)) [0..<n] ! j = map (\<lambda>j. poly_eval b (w ^ j)) [0..<n] ! j}"
  have "card ?J = card ((\<lambda>j. w ^ j) ` ?J)"
  proof (rule card_image [symmetric], rule inj_onI)
    fix i j assume "i \<in> ?J" "j \<in> ?J" "w ^ i = w ^ j"
    then show "i = j" using root_powers_inject [OF h, of i j] n(1) l by auto
  qed
  also have "\<dots> \<le> card {x. poly_eval ?e x = 0}" by (rule card_mono [OF r(1)]) (auto simp: ev)
  finally have "card ?J < k" using r(2) i(1) by linarith
  then show ?thesis using w(2,3) by auto
qed

theorem encode_distance_witness:
  "\<exists>p c d. plan_new 4 = Some p \<and> encode p [1, 2] = Some c \<and> encode p [1, 3] = Some d
    \<and> card {j. j < 4 \<and> c ! j = d ! j} < 2"
proof -
  obtain p where p: "plan_new 4 = Some p" using demo_plan by blast
  have "(3 :: fp) - 2 = 1" by simp
  then have "(2 :: fp) \<noteq> 3" by (metis diff_self zero_neq_one)
  then show ?thesis using encode_distance [OF p, of "[1, 2]" 2 "[1, 3]"] p by auto
qed

end
