(* ===== verification/Blind.thy ===== *)
theory Blind
  imports Lockstep Sumcheck_Clear
begin

text \<open>
  The blind product sumcheck of \<^verbatim>\<open>volta-proto/src/sumcheck_blind.rs\<close> (the sequential CPU
  prover and its verifier). Round values travel as corrections against fresh
  full-field masks; the verifier follows on the key side. The C6 plaintext sidecar is off. The main
  results are completeness with lockstep: on twin expanders and the same transcript the verifier
  returns, binds the same point and ends with a valid key of the prover's claim, which is the true
  product of the folded tables.
\<close>

section \<open>The product sumcheck\<close>

record blind_proof =
  round_corrs :: "(fp2 \<times> fp2) list"

definition blind_claim :: "prover_authed \<Rightarrow> prover_authed \<Rightarrow> prover_authed \<Rightarrow> fp2 \<Rightarrow> prover_authed" where
  "blind_claim claim g0_a g2_a r =
     (let g1_a = prover_sub claim g0_a; w = lagrange3 r
      in prover_add (prover_add (prover_scale g0_a (w ! 0)) (prover_scale g1_a (w ! 1))) (prover_scale g2_a (w ! 2)))"

definition blind_key_claim :: "verifier_key \<Rightarrow> verifier_key \<Rightarrow> verifier_key \<Rightarrow> fp2 \<Rightarrow> verifier_key" where
  "blind_key_claim k_claim k_g0 k_g2 r =
     (let k_g1 = key_sub k_claim k_g0; w = lagrange3 r
      in key_add (key_add (key_scale k_g0 (w ! 0)) (key_scale k_g1 (w ! 1))) (key_scale k_g2 (w ! 2)))"

text \<open>The rounds from \<open>round\<close> on; the sums \<open>g(0)\<close> and \<open>g(2)\<close> are those of the clear prover.\<close>

fun blind_prove_loop ::
  "blake3 \<Rightarrow> chacha \<Rightarrow> string \<Rightarrow> u64 \<Rightarrow> nat \<Rightarrow> nat \<Rightarrow> fp2 list \<Rightarrow> fp2 list \<Rightarrow> prover_authed
   \<Rightarrow> correlation_stream \<Rightarrow> transcript
   \<Rightarrow> ((fp2 \<times> fp2) list \<times> fp2 list \<times> prover_authed \<times> fp2 list \<times> fp2 list \<times> correlation_stream \<times> transcript) option" where
  "blind_prove_loop H chacha label base rnd 0 a b claim s tx = Some ([], [], claim, a, b, s, tx)"
| "blind_prove_loop H chacha label base rnd (Suc n) a b claim s tx =
     do { let (g0, g2) = clear_round a b;
          (masks, s) \<leftarrow> draw_fulls chacha (base + word_of_nat rnd) 2 s;
          m0 \<leftarrow> get masks 0;
          m1 \<leftarrow> get masks 1;
          let c0 = g0 - fc_x m0;
          let c1 = g2 - fc_x m1;
          tx \<leftarrow> append_fp2s label [c0, c1] tx;
          (r, tx) \<leftarrow> challenge_fp2 H tx;
          (corrs, point, claim, a, b, s, tx) \<leftarrow>
            blind_prove_loop H chacha label base (Suc rnd) n (fold_low a r) (fold_low b r)
              (blind_claim claim (full_authenticate m0 g0) (full_authenticate m1 g2) r) s tx;
          Some ((c0, c1) # corrs, r # point, claim, a, b, s, tx) }"

definition blind_prove_with_finals_labeled ::
  "blake3 \<Rightarrow> chacha \<Rightarrow> fp2 list \<Rightarrow> fp2 list \<Rightarrow> prover_authed \<Rightarrow> correlation_stream \<Rightarrow> u64 \<Rightarrow> transcript \<Rightarrow> string
   \<Rightarrow> (blind_proof \<times> fp2 list \<times> prover_authed \<times> fp2 \<times> fp2 \<times> correlation_stream \<times> transcript) option" where
  "blind_prove_with_finals_labeled H chacha a b claim0 s base tx label =
     (if length a = length b \<and> 2 \<le> length a \<and> is_power_of_two (length a)
      then do { (corrs, point, claim, a, b, s, tx) \<leftarrow>
                  blind_prove_loop H chacha label base 0 (trailing_zeros (length a)) a b claim0 s tx;
                af \<leftarrow> get a 0;
                bf \<leftarrow> get b 0;
                Some (\<lparr>round_corrs = corrs\<rparr>, point, claim, af, bf, s, tx) }
      else None)"

definition blind_prove_with_finals ::
  "blake3 \<Rightarrow> chacha \<Rightarrow> fp2 list \<Rightarrow> fp2 list \<Rightarrow> prover_authed \<Rightarrow> correlation_stream \<Rightarrow> u64 \<Rightarrow> transcript
   \<Rightarrow> (blind_proof \<times> fp2 list \<times> prover_authed \<times> fp2 \<times> fp2 \<times> correlation_stream \<times> transcript) option" where
  "blind_prove_with_finals H chacha a b claim0 s base tx =
     blind_prove_with_finals_labeled H chacha a b claim0 s base tx ''blind_round_corrections''"

definition blind_prove ::
  "blake3 \<Rightarrow> chacha \<Rightarrow> fp2 list \<Rightarrow> fp2 list \<Rightarrow> prover_authed \<Rightarrow> correlation_stream \<Rightarrow> u64 \<Rightarrow> transcript
   \<Rightarrow> (blind_proof \<times> fp2 list \<times> prover_authed \<times> correlation_stream \<times> transcript) option" where
  "blind_prove H chacha a b claim0 s base tx =
     do { (proof, point, claim, _, _, s, tx) \<leftarrow> blind_prove_with_finals H chacha a b claim0 s base tx;
          Some (proof, point, claim, s, tx) }"

fun blind_verify_loop ::
  "blake3 \<Rightarrow> chacha \<Rightarrow> string \<Rightarrow> u64 \<Rightarrow> nat \<Rightarrow> (fp2 \<times> fp2) list \<Rightarrow> verifier_key \<Rightarrow> verifier_ctx \<Rightarrow> transcript
   \<Rightarrow> (fp2 list \<times> verifier_key \<times> verifier_ctx \<times> transcript) option" where
  "blind_verify_loop H chacha label base rnd [] k_claim v tx = Some ([], k_claim, v, tx)"
| "blind_verify_loop H chacha label base rnd ((c0, c1) # corrs) k_claim v tx =
     do { tx \<leftarrow> append_fp2s label [c0, c1] tx;
          (k_masks, v) \<leftarrow> expand_full_verifier_keys chacha (base + word_of_nat rnd) 2 v;
          k0 \<leftarrow> get k_masks 0;
          k1 \<leftarrow> get k_masks 1;
          (r, tx) \<leftarrow> challenge_fp2 H tx;
          let k_claim = blind_key_claim k_claim (key_new (vk_k k0 + vc_delta v * c0)) (key_new (vk_k k1 + vc_delta v * c1)) r;
          (point, k_claim, v, tx) \<leftarrow> blind_verify_loop H chacha label base (Suc rnd) corrs k_claim v tx;
          Some (r # point, k_claim, v, tx) }"

text \<open>The inner option is the verdict of the verifier.\<close>

definition blind_verify_labeled ::
  "blake3 \<Rightarrow> chacha \<Rightarrow> nat \<Rightarrow> verifier_key \<Rightarrow> blind_proof \<Rightarrow> verifier_ctx \<Rightarrow> u64 \<Rightarrow> transcript \<Rightarrow> string
   \<Rightarrow> ((fp2 list \<times> verifier_key) option \<times> verifier_ctx \<times> transcript) option" where
  "blind_verify_labeled H chacha n_vars k_claim0 proof v base tx label =
     (if length (round_corrs proof) \<noteq> n_vars then Some (None, v, tx)
      else do { (point, k_claim, v, tx) \<leftarrow> blind_verify_loop H chacha label base 0 (round_corrs proof) k_claim0 v tx;
                Some (Some (point, k_claim), v, tx) })"

definition blind_verify ::
  "blake3 \<Rightarrow> chacha \<Rightarrow> nat \<Rightarrow> verifier_key \<Rightarrow> blind_proof \<Rightarrow> verifier_ctx \<Rightarrow> u64 \<Rightarrow> transcript
   \<Rightarrow> ((fp2 list \<times> verifier_key) option \<times> verifier_ctx \<times> transcript) option" where
  "blind_verify H chacha n_vars k_claim0 proof v base tx =
     blind_verify_labeled H chacha n_vars k_claim0 proof v base tx ''blind_round_corrections''"

section \<open>Masked transfers\<close>

text \<open>What the verifier expands for a draw of masks, and why a correction gives a valid key.\<close>

lemma masked_transfer:
  assumes "draw_fulls chacha d n s = Some (fulls, s')" "twin s v"
  shows "\<exists>keys v'. expand_full_verifier_keys chacha d n v = Some (keys, v') \<and> twin s' v' \<and> vc_delta v' = vc_delta v
    \<and> length fulls = n \<and> length keys = n
    \<and> (\<forall>i < n. \<forall>x. mac_valid (vc_delta v) (full_authenticate (fulls ! i) x)
          (key_new (vk_k (keys ! i) + vc_delta v * (x - fc_x (fulls ! i)))))"
proof -
  obtain v' where v': "expand_full_keys chacha d n v = Some (map (\<lambda>f. fc_m f + vc_delta v * fc_x f) fulls, v')"
    "twin s' v'" "vc_delta v' = vc_delta v" "length fulls = n"
    using draw_fulls_twin [OF assms(1) [unfolded draw_fulls_def] assms(2)] by (auto simp: expand_full_keys_def)
  then show ?thesis
    by (auto simp: expand_full_verifier_keys_def full_authenticate_def mac_valid_def algebra_simps)
qed

lemma blind_claim_valid:
  assumes "mac_valid delta claim k" "mac_valid delta g0 k0" "mac_valid delta g2 k2"
  shows "mac_valid delta (blind_claim claim g0 g2 r) (blind_key_claim k k0 k2 r)"
  unfolding blind_claim_def blind_key_claim_def Let_def
  using assms by (intro fp2_mac.valid_add fp2_mac.valid_scale fp2_mac.valid_sub)

lemma blind_claim_value:
  "pa_x (blind_claim claim (full_authenticate m0 g0) (full_authenticate m1 g2) r) = clear_claim (pa_x claim) (g0, g2) r"
  by (simp add: blind_claim_def clear_claim_def Let_def full_authenticate_def mult.commute)

text \<open>On a Fiat--Shamir transcript the framed messages and the challenges always return.\<close>

lemma is_fiat_shamir_iff: "is_fiat_shamir tx \<longleftrightarrow> (\<exists>st. challenges tx = FiatShamir st)"
  by (auto simp: is_fiat_shamir_def split: challenges.splits)

lemma fs_append:
  assumes "is_fiat_shamir tx" "length l < 2 ^ 16"
  shows "\<exists>tx'. append_fp2s l vs tx = Some tx' \<and> is_fiat_shamir tx'"
  using assms by (simp add: append_fp2s_def framed_ops is_fiat_shamir_def)

lemma fs_challenge:
  assumes "is_fiat_shamir tx"
  shows "\<exists>r tx'. challenge_fp2 H tx = Some (r, tx') \<and> is_fiat_shamir tx'"
proof -
  obtain st where st: "challenges tx = FiatShamir st" using assms by (auto simp: is_fiat_shamir_def split: challenges.splits)
  obtain resp tx1 where r: "challenge_response_of H ReqFp2 tx = (Some resp, tx1)" using fs_challenge_Some [OF st] by blast
  then have "is_fiat_shamir tx1" by (cases rule: challenge_response_of_fs [OF _ st]) (auto simp: is_fiat_shamir_iff)
  then have "is_fiat_shamir (get_or_insert_error e tx1)" for e
    by (simp add: is_fiat_shamir_def get_or_insert_error_def set_error_def split: option.splits)
  then show ?thesis using r \<open>is_fiat_shamir tx1\<close>
    by (cases resp) (auto simp: challenge_fp2_def)
qed

section \<open>The rounds\<close>

text \<open>The mask draws of the rounds, as a run of the prover's expander.\<close>

definition round_draws :: "u64 \<Rightarrow> nat \<Rightarrow> nat \<Rightarrow> nat \<Rightarrow> draw_op list" where
  "round_draws base c rnd n = map (\<lambda>i. DFull (base + word_of_nat i) c) [rnd..<rnd + n]"

lemma round_draws_Suc: "round_draws base c rnd (Suc n) = DFull (base + word_of_nat rnd) c # round_draws base c (Suc rnd) n"
  by (simp add: round_draws_def upt_conv_Cons del: upt_Suc)

lemma draws_Cons:
  assumes "run_machine (prover_draw chacha) (DFull d c # ops) s \<noteq> None"
  obtains fulls s' where "draw_fulls chacha d c s = Some (fulls, s')" "run_machine (prover_draw chacha) ops s' \<noteq> None"
proof -
  obtain outs t where "run_machine (prover_draw chacha) (DFull d c # ops) s = Some (outs, t)" using assms by auto
  then show ?thesis
  proof (rule run_machine_Cons_Some)
    fix out s1 outs1
    assume "prover_draw chacha (DFull d c) s = Some (out, s1)" "run_machine (prover_draw chacha) ops s1 = Some (outs1, t)"
    then show ?thesis using that by auto
  qed
qed

text \<open>A pool with enough entries serves every list of distinct, legal full-field draws.\<close>

lemma shadow_inject:
  assumes "d AND RESERVED_DOMAIN_BITS = 0" "e AND RESERVED_DOMAIN_BITS = 0" "d OR FULL_BIT_SHADOW = e OR FULL_BIT_SHADOW"
  shows "d = e"
proof (rule bit_word_eqI)
  fix n
  have sb: "bit FULL_BIT_SHADOW m \<longleftrightarrow> m = 61" for m
    unfolding domain_bits bit_push_bit_iff bit_1_iff by auto
  have "bit (d OR FULL_BIT_SHADOW) n = bit (e OR FULL_BIT_SHADOW) n" using assms(3) by simp
  then show "bit d n = bit e n"
    using assms(1,2) by (cases "n = 61") (simp_all add: bit_or_iff sb reserved_clear_iff)
qed

definition pool_ready :: "nat \<Rightarrow> correlation_stream \<Rightarrow> bool" where
  "pool_ready n s \<longleftrightarrow> (\<exists>p. cs_backend s = PPooled p \<and> pl_next_full p + n \<le> length (pl_fulls p))
     \<and> cs_audit s = None \<and> reserved (cs_ledger s) = Map.empty"

lemma pool_draw:
  assumes "pool_ready (n + k) s" "d AND RESERVED_DOMAIN_BITS = 0" "consumed (cs_ledger s) (d OR FULL_BIT_SHADOW) = None"
  shows "\<exists>fulls s'. draw_fulls chacha d n s = Some (fulls, s') \<and> pool_ready k s'
    \<and> consumed (cs_ledger s') = (consumed (cs_ledger s))(d OR FULL_BIT_SHADOW \<mapsto> n)"
  using assms shadow_legal [OF assms(2)]
  by (auto simp: pool_ready_def draw_fulls_def draw_fulls_with_role_def full_draw_legal_def ledger_open_def
      backend_draw_fulls_def pl_draw_fulls_def pl_remaining_full_capacity_def slice_def audit_full_def Let_def)

lemma ready_pool_serves:
  assumes "pool_ready (sum_list (map snd ds)) s" "distinct (map fst ds)"
    and "\<forall>(d, n) \<in> set ds. d AND RESERVED_DOMAIN_BITS = 0 \<and> consumed (cs_ledger s) (d OR FULL_BIT_SHADOW) = None"
  shows "run_machine (prover_draw chacha) (map (\<lambda>(d, n). DFull d n) ds) s \<noteq> None"
  using assms
proof (induction ds arbitrary: s)
  case (Cons x ds)
  obtain d n where x: "x = (d, n)" by force
  obtain fulls s1 where s1: "draw_fulls chacha d n s = Some (fulls, s1)" "pool_ready (sum_list (map snd ds)) s1"
    "consumed (cs_ledger s1) = (consumed (cs_ledger s))(d OR FULL_BIT_SHADOW \<mapsto> n)"
    using pool_draw [of n "sum_list (map snd ds)" s d chacha] Cons.prems x by auto
  have "\<forall>(e, m) \<in> set ds. e AND RESERVED_DOMAIN_BITS = 0 \<and> consumed (cs_ledger s1) (e OR FULL_BIT_SHADOW) = None"
  proof (intro ballI, clarify)
    fix e m assume e: "(e, m) \<in> set ds"
    then have "e \<noteq> d" "e AND RESERVED_DOMAIN_BITS = 0" "consumed (cs_ledger s) (e OR FULL_BIT_SHADOW) = None"
      "d AND RESERVED_DOMAIN_BITS = 0" using Cons.prems x by (force, auto)
    then show "e AND RESERVED_DOMAIN_BITS = 0 \<and> consumed (cs_ledger s1) (e OR FULL_BIT_SHADOW) = None"
      using shadow_inject [of e d] s1(3) by auto
  qed
  then have "run_machine (prover_draw chacha) (map (\<lambda>(d, n). DFull d n) ds) s1 \<noteq> None"
    using Cons.IH [OF s1(2)] Cons.prems(2) by simp
  then show ?case using s1(1) x by auto
qed simp

lemma pool_serves:
  assumes "distinct (map fst ds)" "\<forall>(d, n) \<in> set ds. d AND RESERVED_DOMAIN_BITS = 0" "sum_list (map snd ds) \<le> length fulls"
  shows "run_machine (prover_draw chacha) (map (\<lambda>(d, n). DFull d n) ds) (stream_from_pcg_pool subs fulls) \<noteq> None"
  by (rule ready_pool_serves)
    (use assms in \<open>auto simp: pool_ready_def stream_from_pcg_pool_def empty_ledger_def\<close>)

lemma blind_rounds:
  assumes "length a = 2 ^ n" "length b = 2 ^ n" "is_fiat_shamir tx" "length label < 2 ^ 16"
    and "run_machine (prover_draw chacha) (round_draws base 2 rnd n @ ops) s \<noteq> None" "twin s v"
    and "mac_valid (vc_delta v) claim k" "pa_x claim = dot (2 ^ n) a b"
  shows "\<exists>corrs point claim' s' tx' k' v'.
    blind_prove_loop H chacha label base rnd n a b claim s tx
        = Some (corrs, point, claim', eval_mle_loop a point, eval_mle_loop b point, s', tx')
    \<and> blind_verify_loop H chacha label base rnd corrs k v tx = Some (point, k', v', tx')
    \<and> length point = n \<and> length corrs = n \<and> is_fiat_shamir tx' \<and> run_machine (prover_draw chacha) ops s' \<noteq> None
    \<and> twin s' v' \<and> vc_delta v' = vc_delta v \<and> mac_valid (vc_delta v) claim' k'
    \<and> pa_x claim' = eval_mle_loop a point ! 0 * eval_mle_loop b point ! 0"
  using assms
proof (induction n arbitrary: a b claim s tx rnd v k)
  case 0
  then show ?case by (simp add: dot_def round_draws_def)
next
  case (Suc n)
  obtain g0 g2 where g: "clear_round a b = (g0, g2)" by force
  obtain masks s1 where m: "draw_fulls chacha (base + word_of_nat rnd) 2 s = Some (masks, s1)"
    "run_machine (prover_draw chacha) (round_draws base 2 (Suc rnd) n @ ops) s1 \<noteq> None"
    using Suc.prems(5) unfolding round_draws_Suc append_Cons by (rule draws_Cons)
  obtain keys v1 where v1: "expand_full_verifier_keys chacha (base + word_of_nat rnd) 2 v = Some (keys, v1)" "twin s1 v1"
    "vc_delta v1 = vc_delta v" "length masks = 2" "length keys = 2"
    and val: "\<And>i x. i < 2 \<Longrightarrow> mac_valid (vc_delta v) (full_authenticate (masks ! i) x)
        (key_new (vk_k (keys ! i) + vc_delta v * (x - fc_x (masks ! i))))"
    using masked_transfer [OF m(1) Suc.prems(6)] by blast
  let ?c0 = "g0 - fc_x (masks ! 0)" and ?c1 = "g2 - fc_x (masks ! 1)"
  obtain tx1 where tx1: "append_fp2s label [?c0, ?c1] tx = Some tx1" "is_fiat_shamir tx1"
    using fs_append [OF Suc.prems(3,4)] by blast
  obtain r tx2 where r: "challenge_fp2 H tx1 = Some (r, tx2)" "is_fiat_shamir tx2"
    using fs_challenge [OF tx1(2)] by blast
  let ?claim = "blind_claim claim (full_authenticate (masks ! 0) g0) (full_authenticate (masks ! 1) g2) r"
  let ?k = "blind_key_claim k (key_new (vk_k (keys ! 0) + vc_delta v * ?c0)) (key_new (vk_k (keys ! 1) + vc_delta v * ?c1)) r"
  have mv: "mac_valid (vc_delta v1) ?claim ?k"
    unfolding v1(3) using Suc.prems(7) val by (intro blind_claim_valid) simp_all
  have pv: "pa_x ?claim = dot (2 ^ n) (fold_low a r) (fold_low b r)"
    using clear_claim_honest [of b a r] Suc.prems(1,2,8) g by (simp add: blind_claim_value)
  from Suc.IH [OF _ _ r(2) Suc.prems(4) m(2) v1(2) mv pv] Suc.prems(1,2)
  obtain corrs point claim' s' tx' k' v' where IH:
    "blind_prove_loop H chacha label base (Suc rnd) n (fold_low a r) (fold_low b r) ?claim s1 tx2
        = Some (corrs, point, claim', eval_mle_loop (fold_low a r) point, eval_mle_loop (fold_low b r) point, s', tx')"
    "blind_verify_loop H chacha label base (Suc rnd) corrs ?k v1 tx2 = Some (point, k', v', tx')"
    "length point = n" "length corrs = n" "is_fiat_shamir tx'" "run_machine (prover_draw chacha) ops s' \<noteq> None"
    "twin s' v'" "vc_delta v' = vc_delta v1" "mac_valid (vc_delta v1) claim' k'"
    "pa_x claim' = eval_mle_loop (fold_low a r) point ! 0 * eval_mle_loop (fold_low b r) point ! 0"
    by auto
  have "blind_prove_loop H chacha label base rnd (Suc n) a b claim s tx
      = Some ((?c0, ?c1) # corrs, r # point, claim', eval_mle_loop a (r # point), eval_mle_loop b (r # point), s', tx')"
    using g m(1) v1(4) tx1(1) r(1) IH(1) by simp
  moreover have "blind_verify_loop H chacha label base rnd ((?c0, ?c1) # corrs) k v tx = Some (r # point, k', v', tx')"
    using v1 tx1(1) r(1) IH(2) by simp
  ultimately show ?case using IH(3-10) v1(3)
    by (intro exI [of _ "(?c0, ?c1) # corrs"] exI [of _ "r # point"] exI [of _ claim'] exI [of _ s'] exI [of _ tx']
        exI [of _ k'] exI [of _ v']) simp
qed

text \<open>Small concrete states for the instances of the theorems.\<close>

definition demo_stream :: "nat \<Rightarrow> correlation_stream" where
  "demo_stream n = stream_from_pcg_pool [] (replicate n \<lparr>fv_x = 2, fv_m = 9\<rparr>)"

definition demo_ctx :: "nat \<Rightarrow> verifier_ctx" where
  "demo_ctx n = ctx_from_pcg_pool 3 [] (replicate n 15)"

definition demo_fs :: transcript where
  "demo_fs = fresh_transcript (FiatShamir \<lparr>profile = C62, context_digest = replicate 32 7, challenge_index = 0\<rparr>)"

lemma demo_fs: "is_fiat_shamir demo_fs"
  by (simp add: demo_fs_def is_fiat_shamir_def fresh_transcript_def)

lemma demo_twin: "twin (demo_stream n) (demo_ctx n)"
  using twin_pools [of "[]" "replicate n \<lparr>fv_x = 2, fv_m = 9\<rparr>" 3] by (simp add: demo_stream_def demo_ctx_def)

text \<open>
  C14. The blind product sumcheck is complete and stays in lockstep: on a Fiat--Shamir transcript, with
  twin expanders that can draw the masks of the rounds and a valid key of the true inner product, the
  prover returns, and the verifier, run on its proof and the same transcript, returns the same point
  with a valid key of the prover's final claim; that claim is the product of the two final values, which
  are the multilinear extensions of the two tables at the point; the transcripts end equal.
\<close>

theorem blind_sumcheck_complete:
  assumes "length a = 2 ^ n" "length b = 2 ^ n" "1 \<le> n" "is_fiat_shamir tx" "length label < 2 ^ 16"
    and "run_machine (prover_draw chacha) (round_draws base 2 0 n) s \<noteq> None" "twin s v"
    and "mac_valid (vc_delta v) claim0 k0" "pa_x claim0 = dot (2 ^ n) a b"
  shows "\<exists>proof point claim af bf s' tx' k v'.
    blind_prove_with_finals_labeled H chacha a b claim0 s base tx label = Some (proof, point, claim, af, bf, s', tx')
    \<and> blind_verify_labeled H chacha n k0 proof v base tx label = Some (Some (point, k), v', tx')
    \<and> twin s' v' \<and> mac_valid (vc_delta v) claim k \<and> pa_x claim = af * bf
    \<and> eval_mle a point = Some af \<and> eval_mle b point = Some bf"
proof -
  have d: "run_machine (prover_draw chacha) (round_draws base 2 0 n @ []) s \<noteq> None" using assms(6) by simp
  obtain corrs point claim s' tx' k v' where r:
    "blind_prove_loop H chacha label base 0 n a b claim0 s tx
        = Some (corrs, point, claim, eval_mle_loop a point, eval_mle_loop b point, s', tx')"
    "blind_verify_loop H chacha label base 0 corrs k0 v tx = Some (point, k, v', tx')"
    "length point = n" "length corrs = n" "twin s' v'" "mac_valid (vc_delta v) claim k"
    "pa_x claim = eval_mle_loop a point ! 0 * eval_mle_loop b point ! 0"
    using blind_rounds [OF assms(1,2,4,5) d assms(7-9), of H] by blast
  have "2 \<le> length a" using assms(1,3) power_increasing [of 1 n "2 :: nat"] by simp
  moreover have "is_power_of_two (length a)" "trailing_zeros (length a) = n" using assms(1) by (auto simp: is_power_of_two_iff)
  moreover have "get (eval_mle_loop a point) 0 = Some (eval_mle_loop a point ! 0)" "get (eval_mle_loop b point) 0 = Some (eval_mle_loop b point ! 0)"
    using assms(1,2) r(3) by (simp_all add: eval_mle_loop_dot)
  ultimately have "blind_prove_with_finals_labeled H chacha a b claim0 s base tx label
      = Some (\<lparr>round_corrs = corrs\<rparr>, point, claim, eval_mle_loop a point ! 0, eval_mle_loop b point ! 0, s', tx')"
    using r(1) assms(1,2) by (simp add: blind_prove_with_finals_labeled_def)
  moreover have "blind_verify_labeled H chacha n k0 \<lparr>round_corrs = corrs\<rparr> v base tx label = Some (Some (point, k), v', tx')"
    using r(2,4) by (simp add: blind_verify_labeled_def)
  moreover have "eval_mle a point = Some (eval_mle_loop a point ! 0)" "eval_mle b point = Some (eval_mle_loop b point ! 0)"
    using assms(1,2) r(3) by (simp_all add: eval_mle_full)
  ultimately show ?thesis using r(5-7) by blast
qed

theorem blind_sumcheck_complete_witness:
  "\<exists>proof point claim af bf s' tx' k v'.
    blind_prove_with_finals_labeled demo_hash demo_chacha [1, 2] [3, 4] (prover_authed_new (dot 2 [1, 2] [3, 4]) 6)
        (demo_stream 2) 7 demo_fs ''l'' = Some (proof, point, claim, af, bf, s', tx')
    \<and> blind_verify_labeled demo_hash demo_chacha 1 (key_of 3 (prover_authed_new (dot 2 [1, 2] [3, 4]) 6)) proof
        (demo_ctx 2) 7 demo_fs ''l'' = Some (Some (point, k), v', tx')
    \<and> mac_valid 3 claim k \<and> pa_x claim = af * bf"
proof -
  let ?c = "prover_authed_new (dot 2 [1, 2] [3, 4]) 6"
  have d: "vc_delta (demo_ctx 2) = 3" by (simp add: demo_ctx_def ctx_from_pcg_pool_def)
  then have m: "mac_valid (vc_delta (demo_ctx 2)) ?c (key_of 3 ?c)" by (simp add: mac_valid_iff)
  have r: "run_machine (prover_draw demo_chacha) (round_draws 7 2 0 1) (demo_stream 2) \<noteq> None"
    using pool_serves [of "[(7, 2)]" "replicate 2 \<lparr>fv_x = 2, fv_m = 9\<rparr>" demo_chacha "[]"]
    by (simp add: demo_stream_def round_draws_def domain_bits)
  have l: "length [1, 2 :: fp2] = 2 ^ 1" "length [3, 4 :: fp2] = 2 ^ 1" "(1 :: nat) \<le> 1" "length ''l'' < 2 ^ 16"
    "pa_x ?c = dot (2 ^ 1) [1, 2] [3, 4]" by simp_all
  from blind_sumcheck_complete [OF l(1-3) demo_fs l(4) r demo_twin m l(5), of demo_hash]
  show ?thesis unfolding d by blast
qed

end
