(* ===== verification/Hadamard.thy ===== *)
theory Hadamard
  imports Blind
begin

text \<open>
  The blind degree-3 Hadamard sumcheck of \<^verbatim>\<open>volta-proto/src/hadamard.rs\<close>, with the domain allocator
  \<^verbatim>\<open>Doms\<close> of \<^verbatim>\<open>logup.rs\<close>. It closes with one product triple and one zero row for the caller's batches;
  completeness says that both are true statements with valid keys.
\<close>

section \<open>The Hadamard sumcheck\<close>

definition CORRELATION_DOMAIN_LIMIT :: u64 where "CORRELATION_DOMAIN_LIMIT = push_bit 61 1"

record doms =
  dm_next :: u64

definition doms_new :: "u64 \<Rightarrow> doms" where
  "doms_new base = \<lparr>dm_next = base\<rparr>"

definition doms_take :: "u64 \<Rightarrow> doms \<Rightarrow> (u64 \<times> doms) option" where
  "doms_take n d =
     do { nxt \<leftarrow> checked_add (dm_next d) n;
          if dm_next d < CORRELATION_DOMAIN_LIMIT \<and> nxt \<le> CORRELATION_DOMAIN_LIMIT
          then Some (dm_next d, d\<lparr>dm_next := nxt\<rparr>) else None }"

record hadamard_doms =
  hd_round_masks :: u64
  hd_e_claim :: u64
  hd_r_claim :: u64
  hd_z :: u64

definition hadamard_doms_alloc :: "nat \<Rightarrow> doms \<Rightarrow> (hadamard_doms \<times> doms) option" where
  "hadamard_doms_alloc n_vars d =
     do { (rm, d) \<leftarrow> doms_take (word_of_nat n_vars) d;
          (ec, d) \<leftarrow> doms_take 1 d;
          (rc, d) \<leftarrow> doms_take 1 d;
          (z, d) \<leftarrow> doms_take 1 d;
          Some (\<lparr>hd_round_masks = rm, hd_e_claim = ec, hd_r_claim = rc, hd_z = z\<rparr>, d) }"

record hadamard_proof =
  h_round_corrs :: "(fp2 \<times> fp2 \<times> fp2) list"
  h_e_corr :: fp2
  h_r_corr :: fp2
  h_z_corr :: fp2

definition at023 :: "fp2 \<Rightarrow> fp2 \<Rightarrow> fp2 \<times> fp2 \<times> fp2" where
  "at023 v0 v1 = (let d = v1 - v0; v2 = v0 + d + d in (v0, v2, v2 + d))"

definition hadamard_round :: "fp2 list \<Rightarrow> fp2 list \<Rightarrow> fp2 list \<Rightarrow> fp2 \<times> fp2 \<times> fp2" where
  "hadamard_round q e t =
     foldl (\<lambda>(g0, g2, g3) i.
         let (q0, q2, q3) = at023 (q ! (2 * i)) (q ! Suc (2 * i));
             (e0, e2, e3) = at023 (e ! (2 * i)) (e ! Suc (2 * i));
             (r0, r2, r3) = at023 (t ! (2 * i)) (t ! Suc (2 * i))
         in (g0 + q0 * e0 * r0, g2 + q2 * e2 * r2, g3 + q3 * e3 * r3))
       (0, 0, 0) [0..<length e div 2]"

definition hadamard_claim ::
  "prover_authed \<Rightarrow> prover_authed \<Rightarrow> prover_authed \<Rightarrow> prover_authed \<Rightarrow> fp2 \<Rightarrow> prover_authed" where
  "hadamard_claim claim g0_a g2_a g3_a r =
     (let g1_a = prover_sub claim g0_a; w = lagrange4 r
      in prover_add (prover_add (prover_add (prover_scale g0_a (w ! 0)) (prover_scale g1_a (w ! 1)))
           (prover_scale g2_a (w ! 2))) (prover_scale g3_a (w ! 3)))"

definition hadamard_key_claim ::
  "verifier_key \<Rightarrow> verifier_key \<Rightarrow> verifier_key \<Rightarrow> verifier_key \<Rightarrow> fp2 \<Rightarrow> verifier_key" where
  "hadamard_key_claim k_claim k_g0 k_g2 k_g3 r =
     (let k_g1 = key_sub k_claim k_g0; w = lagrange4 r
      in key_add (key_add (key_add (key_scale k_g0 (w ! 0)) (key_scale k_g1 (w ! 1)))
           (key_scale k_g2 (w ! 2))) (key_scale k_g3 (w ! 3)))"

fun hadamard_prove_loop ::
  "blake3 \<Rightarrow> chacha \<Rightarrow> u64 \<Rightarrow> nat \<Rightarrow> nat \<Rightarrow> fp2 list \<Rightarrow> fp2 list \<Rightarrow> fp2 list \<Rightarrow> prover_authed
   \<Rightarrow> correlation_stream \<Rightarrow> transcript
   \<Rightarrow> ((fp2 \<times> fp2 \<times> fp2) list \<times> fp2 list \<times> prover_authed \<times> fp2 list \<times> fp2 list \<times> correlation_stream \<times> transcript) option" where
  "hadamard_prove_loop H chacha base rnd 0 q e t claim s tx = Some ([], [], claim, e, t, s, tx)"
| "hadamard_prove_loop H chacha base rnd (Suc n) q e t claim s tx =
     do { let (g0, g2, g3) = hadamard_round q e t;
          (masks, s) \<leftarrow> draw_fulls chacha (base + word_of_nat rnd) 3 s;
          m0 \<leftarrow> get masks 0;
          m1 \<leftarrow> get masks 1;
          m2 \<leftarrow> get masks 2;
          let c0 = g0 - fc_x m0;
          let c1 = g2 - fc_x m1;
          let c2 = g3 - fc_x m2;
          tx \<leftarrow> append_fp2s ''hadamard_round_corrections'' [c0, c1, c2] tx;
          (r, tx) \<leftarrow> challenge_fp2 H tx;
          (corrs, point, claim, e, t, s, tx) \<leftarrow>
            hadamard_prove_loop H chacha base (Suc rnd) n (fold_low q r) (fold_low e r) (fold_low t r)
              (hadamard_claim claim (full_authenticate m0 g0) (full_authenticate m1 g2) (full_authenticate m2 g3) r) s tx;
          Some ((c0, c1, c2) # corrs, r # point, claim, e, t, s, tx) }"

text \<open>One mask drawn and its first entry taken, as the end game does three times.\<close>

definition draw_one :: "chacha \<Rightarrow> u64 \<Rightarrow> correlation_stream \<Rightarrow> (full_corr \<times> correlation_stream) option" where
  "draw_one chacha d s = do { (ms, s) \<leftarrow> draw_fulls chacha d 1 s; m \<leftarrow> get ms 0; Some (m, s) }"

definition hadamard_prove ::
  "blake3 \<Rightarrow> chacha \<Rightarrow> fp2 list \<Rightarrow> fp2 list \<Rightarrow> fp2 list \<Rightarrow> prover_authed \<Rightarrow> hadamard_doms \<Rightarrow> correlation_stream \<Rightarrow> transcript
   \<Rightarrow> (prover_authed \<times> prover_authed \<times> prover_authed) list \<Rightarrow> prover_authed list
   \<Rightarrow> ((hadamard_proof \<times> fp2 list \<times> prover_authed \<times> prover_authed) \<times> correlation_stream \<times> transcript
       \<times> (prover_authed \<times> prover_authed \<times> prover_authed) list \<times> prover_authed list) option" where
  "hadamard_prove H chacha rho e r_tab claim0 dm s tx prods zeros =
     (if length e = 2 ^ length rho \<and> length r_tab = 2 ^ length rho then
        do { (corrs, point, claim, e, r_tab, s, tx) \<leftarrow>
               hadamard_prove_loop H chacha (hd_round_masks dm) 0 (length rho) (eq_vec rho) e r_tab claim0 s tx;
             e_final \<leftarrow> get e 0;
             r_final \<leftarrow> get r_tab 0;
             (fe, s) \<leftarrow> draw_one chacha (hd_e_claim dm) s;
             (fr, s) \<leftarrow> draw_one chacha (hd_r_claim dm) s;
             let zx = e_final * r_final;
             (fz, s) \<leftarrow> draw_one chacha (hd_z dm) s;
             let e_corr = e_final - fc_x fe;
             let r_corr = r_final - fc_x fr;
             let z_corr = zx - fc_x fz;
             tx \<leftarrow> append_fp2s ''hadamard_claim_corrections'' [e_corr, r_corr, z_corr] tx;
             let e_a = full_authenticate fe e_final;
             let r_a = full_authenticate fr r_final;
             let z_a = full_authenticate fz zx;
             Some ((\<lparr>h_round_corrs = corrs, h_e_corr = e_corr, h_r_corr = r_corr, h_z_corr = z_corr\<rparr>, point, e_a, r_a), s, tx,
                   prods @ [(e_a, r_a, z_a)], zeros @ [prover_sub (prover_scale z_a (eq_points rho point)) claim]) }
      else None)"

fun hadamard_verify_loop ::
  "blake3 \<Rightarrow> chacha \<Rightarrow> u64 \<Rightarrow> nat \<Rightarrow> (fp2 \<times> fp2 \<times> fp2) list \<Rightarrow> verifier_key \<Rightarrow> verifier_ctx \<Rightarrow> transcript
   \<Rightarrow> (fp2 list \<times> verifier_key \<times> verifier_ctx \<times> transcript) option" where
  "hadamard_verify_loop H chacha base rnd [] k_claim v tx = Some ([], k_claim, v, tx)"
| "hadamard_verify_loop H chacha base rnd ((c0, c1, c2) # corrs) k_claim v tx =
     do { (k_masks, v) \<leftarrow> expand_full_verifier_keys chacha (base + word_of_nat rnd) 3 v;
          tx \<leftarrow> append_fp2s ''hadamard_round_corrections'' [c0, c1, c2] tx;
          k0 \<leftarrow> get k_masks 0;
          k1 \<leftarrow> get k_masks 1;
          k2 \<leftarrow> get k_masks 2;
          (r, tx) \<leftarrow> challenge_fp2 H tx;
          let k_claim = hadamard_key_claim k_claim (key_new (vk_k k0 + vc_delta v * c0))
                (key_new (vk_k k1 + vc_delta v * c1)) (key_new (vk_k k2 + vc_delta v * c2)) r;
          (point, k_claim, v, tx) \<leftarrow> hadamard_verify_loop H chacha base (Suc rnd) corrs k_claim v tx;
          Some (r # point, k_claim, v, tx) }"

definition correct_full_verifier_key ::
  "chacha \<Rightarrow> u64 \<Rightarrow> fp2 \<Rightarrow> verifier_ctx \<Rightarrow> (verifier_key \<times> verifier_ctx) option" where
  "correct_full_verifier_key chacha domain c v =
     do { (keys, v) \<leftarrow> correct_full_verifier_keys chacha domain [c] v;
          case keys of [] \<Rightarrow> None | k # _ \<Rightarrow> Some (k, v) }"

definition hadamard_verify ::
  "blake3 \<Rightarrow> chacha \<Rightarrow> fp2 list \<Rightarrow> verifier_key \<Rightarrow> hadamard_proof \<Rightarrow> hadamard_doms \<Rightarrow> verifier_ctx \<Rightarrow> transcript
   \<Rightarrow> (verifier_key \<times> verifier_key \<times> verifier_key) list \<Rightarrow> verifier_key list
   \<Rightarrow> ((fp2 list \<times> verifier_key \<times> verifier_key) option \<times> verifier_ctx \<times> transcript
       \<times> (verifier_key \<times> verifier_key \<times> verifier_key) list \<times> verifier_key list) option" where
  "hadamard_verify H chacha rho k_claim0 proof dm v tx prods zeros =
     (if length (h_round_corrs proof) \<noteq> length rho then Some (None, v, tx, prods, zeros)
      else do { (point, k_claim, v, tx) \<leftarrow>
                  hadamard_verify_loop H chacha (hd_round_masks dm) 0 (h_round_corrs proof) k_claim0 v tx;
                tx \<leftarrow> append_fp2s ''hadamard_claim_corrections'' [h_e_corr proof, h_r_corr proof, h_z_corr proof] tx;
                (k_e, v) \<leftarrow> correct_full_verifier_key chacha (hd_e_claim dm) (h_e_corr proof) v;
                (k_r, v) \<leftarrow> correct_full_verifier_key chacha (hd_r_claim dm) (h_r_corr proof) v;
                (k_z, v) \<leftarrow> correct_full_verifier_key chacha (hd_z dm) (h_z_corr proof) v;
                Some (Some (point, k_e, k_r), v, tx, prods @ [(k_e, k_r, k_z)],
                      zeros @ [key_sub (key_scale k_z (eq_points rho point)) k_claim]) })"

section \<open>The round polynomial\<close>

definition tdot :: "nat \<Rightarrow> fp2 list \<Rightarrow> fp2 list \<Rightarrow> fp2 list \<Rightarrow> fp2" where
  "tdot n q e t = (\<Sum>i<n. q ! i * e ! i * t ! i)"

abbreviation fold_tdot :: "fp2 list \<Rightarrow> fp2 list \<Rightarrow> fp2 list \<Rightarrow> fp2 \<Rightarrow> fp2" where
  "fold_tdot q e t r \<equiv> tdot (length e div 2) (fold_low q r) (fold_low e r) (fold_low t r)"

text \<open>A sum over the pairs of the three tables, of a function of the low entries and the differences.\<close>

definition triple_sum ::
  "fp2 list \<Rightarrow> fp2 list \<Rightarrow> fp2 list \<Rightarrow> (fp2 \<Rightarrow> fp2 \<Rightarrow> fp2 \<Rightarrow> fp2 \<Rightarrow> fp2 \<Rightarrow> fp2 \<Rightarrow> fp2) \<Rightarrow> fp2" where
  "triple_sum q e t f = (\<Sum>i<length e div 2.
     f (q ! (2 * i)) (q ! Suc (2 * i) - q ! (2 * i)) (e ! (2 * i)) (e ! Suc (2 * i) - e ! (2 * i))
       (t ! (2 * i)) (t ! Suc (2 * i) - t ! (2 * i)))"

lemma fold_tdot_triple:
  assumes "length q = length e" "length t = length e"
  shows "fold_tdot q e t r = triple_sum q e t (\<lambda>q0 dq e0 de t0 dt. (q0 + dq * r) * (e0 + de * r) * (t0 + dt * r))"
  unfolding tdot_def triple_sum_def using assms by (intro sum.cong) (simp_all add: fold_low_eq nth_fold_pairs)

lemma triple_sum_add: "triple_sum q e t f + triple_sum q e t g
    = triple_sum q e t (\<lambda>q0 dq e0 de t0 dt. f q0 dq e0 de t0 dt + g q0 dq e0 de t0 dt)"
  by (simp add: triple_sum_def sum.distrib)

lemma triple_sum_scale: "triple_sum q e t f * c = triple_sum q e t (\<lambda>q0 dq e0 de t0 dt. f q0 dq e0 de t0 dt * c)"
  by (simp add: triple_sum_def sum_distrib_right)

lemma cubic_expand:
  "(q0 + dq * r) * (e0 + de * r) * (t0 + dt * r)
    = q0 * e0 * t0 + (dq * e0 * t0 + q0 * de * t0 + q0 * e0 * dt) * r
      + (dq * de * t0 + dq * e0 * dt + q0 * de * dt) * r ^ 2 + dq * de * dt * r ^ 3" for r :: "'a :: comm_ring_1"
  by (simp add: algebra_simps power2_eq_square power3_eq_cube)

lemma fold_tdot_cubic:
  assumes "length q = length e" "length t = length e"
  shows "\<exists>a0 a1 a2 a3. \<forall>r. fold_tdot q e t r = a0 + a1 * r + a2 * r ^ 2 + a3 * r ^ 3"
  unfolding fold_tdot_triple [OF assms] cubic_expand
  by (rule exI [of _ "triple_sum q e t (\<lambda>q0 dq e0 de t0 dt. q0 * e0 * t0)"],
      rule exI [of _ "triple_sum q e t (\<lambda>q0 dq e0 de t0 dt. dq * e0 * t0 + q0 * de * t0 + q0 * e0 * dt)"],
      rule exI [of _ "triple_sum q e t (\<lambda>q0 dq e0 de t0 dt. dq * de * t0 + dq * e0 * dt + q0 * de * dt)"],
      rule exI [of _ "triple_sum q e t (\<lambda>q0 dq e0 de t0 dt. dq * de * dt)"])
    (simp only: triple_sum_scale triple_sum_add simp_thms)

lemma foldl_triple_sum:
  "foldl (\<lambda>(x, y, z) i. (x + f i, y + g i, z + h i)) (a, b, c) [0..<n]
    = (a + sum f {..<n}, b + sum g {..<n}, c + sum h {..<n})" for a b c :: "'a :: comm_monoid_add"
  by (induction n) (simp_all add: ac_simps)

lemma hadamard_round_eq:
  assumes "length q = length e" "length t = length e"
  shows "hadamard_round q e t = (fold_tdot q e t 0, fold_tdot q e t 2, fold_tdot q e t 3)"
proof -
  have 2: "v0 + d + d = v0 + d * 2" "v0 + d * 2 + d = v0 + d * 3" for v0 d :: fp2 by (simp_all add: algebra_simps)
  show ?thesis
    unfolding hadamard_round_def at023_def Let_def prod.case foldl_triple_sum fold_tdot_triple [OF assms] triple_sum_def 2
    by simp
qed

lemma fold_tdot_sum:
  assumes "length q = length e" "length t = length e" "even (length e)"
  shows "fold_tdot q e t 0 + fold_tdot q e t 1 = tdot (length e) q e t"
proof -
  obtain n where n: "length e = 2 * n" using assms(3) by blast
  show ?thesis unfolding fold_tdot_triple [OF assms(1,2)] triple_sum_add
    unfolding triple_sum_def tdot_def n sum_pairs by simp
qed

lemma hadamard_claim_value:
  assumes "length q = length e" "length t = length e" "even (length e)"
    and "hadamard_round q e t = (g0, g2, g3)" "pa_x claim = tdot (length e) q e t"
  shows "pa_x (hadamard_claim claim (full_authenticate m0 g0) (full_authenticate m1 g2) (full_authenticate m2 g3) r)
    = fold_tdot q e t r"
proof -
  obtain a0 a1 a2 a3 where f: "\<And>r. fold_tdot q e t r = a0 + a1 * r + a2 * r ^ 2 + a3 * r ^ 3"
    using fold_tdot_cubic [OF assms(1,2)] by blast
  have g: "g0 = a0" "g2 = a0 + a1 * 2 + a2 * 2 ^ 2 + a3 * 2 ^ 3" "g3 = a0 + a1 * 3 + a2 * 3 ^ 2 + a3 * 3 ^ 3"
    using assms(4) unfolding hadamard_round_eq [OF assms(1,2)] f by auto
  have c: "pa_x claim - a0 = a0 + a1 + a2 + a3"
    unfolding assms(5) fold_tdot_sum [OF assms(1-3), symmetric] f by simp
  show ?thesis unfolding f lagrange4_interpolates [of r a0 a1 a2 a3, symmetric]
    by (simp add: hadamard_claim_def Let_def full_authenticate_def g c mult.commute)
qed

lemma hadamard_claim_valid:
  assumes "mac_valid delta claim k" "mac_valid delta g0 k0" "mac_valid delta g2 k2" "mac_valid delta g3 k3"
  shows "mac_valid delta (hadamard_claim claim g0 g2 g3 r) (hadamard_key_claim k k0 k2 k3 r)"
  unfolding hadamard_claim_def hadamard_key_claim_def Let_def
  using assms by (intro fp2_mac.valid_add fp2_mac.valid_scale fp2_mac.valid_sub)

section \<open>The rounds\<close>

lemma hadamard_rounds:
  assumes "length q = 2 ^ n" "length e = 2 ^ n" "length t = 2 ^ n" "is_fiat_shamir tx"
    and "run_machine (prover_draw chacha) (round_draws base 3 rnd n @ ops) s \<noteq> None" "twin s v"
    and "mac_valid (vc_delta v) claim k" "pa_x claim = tdot (2 ^ n) q e t"
  shows "\<exists>corrs point claim' s' tx' k' v'.
    hadamard_prove_loop H chacha base rnd n q e t claim s tx
        = Some (corrs, point, claim', eval_mle_loop e point, eval_mle_loop t point, s', tx')
    \<and> hadamard_verify_loop H chacha base rnd corrs k v tx = Some (point, k', v', tx')
    \<and> length point = n \<and> length corrs = n \<and> is_fiat_shamir tx' \<and> run_machine (prover_draw chacha) ops s' \<noteq> None
    \<and> twin s' v' \<and> vc_delta v' = vc_delta v \<and> mac_valid (vc_delta v) claim' k'
    \<and> pa_x claim' = eval_mle_loop q point ! 0 * eval_mle_loop e point ! 0 * eval_mle_loop t point ! 0"
  using assms
proof (induction n arbitrary: q e t claim s tx rnd v k)
  case 0
  then show ?case by (simp add: tdot_def round_draws_def)
next
  case (Suc n)
  obtain g0 g2 g3 where g: "hadamard_round q e t = (g0, g2, g3)" by (metis prod_cases3)
  obtain masks s1 where m: "draw_fulls chacha (base + word_of_nat rnd) 3 s = Some (masks, s1)"
    "run_machine (prover_draw chacha) (round_draws base 3 (Suc rnd) n @ ops) s1 \<noteq> None"
    using Suc.prems(5) unfolding round_draws_Suc append_Cons by (rule draws_Cons)
  obtain keys v1 where v1: "expand_full_verifier_keys chacha (base + word_of_nat rnd) 3 v = Some (keys, v1)" "twin s1 v1"
    "vc_delta v1 = vc_delta v" "length masks = 3" "length keys = 3"
    and val: "\<And>i x. i < 3 \<Longrightarrow> mac_valid (vc_delta v) (full_authenticate (masks ! i) x)
        (key_new (vk_k (keys ! i) + vc_delta v * (x - fc_x (masks ! i))))"
    using masked_transfer [OF m(1) Suc.prems(6)] by blast
  let ?c0 = "g0 - fc_x (masks ! 0)" and ?c1 = "g2 - fc_x (masks ! 1)" and ?c2 = "g3 - fc_x (masks ! 2)"
  obtain tx1 where tx1: "append_fp2s ''hadamard_round_corrections'' [?c0, ?c1, ?c2] tx = Some tx1" "is_fiat_shamir tx1"
    using fs_append [OF Suc.prems(4), of "''hadamard_round_corrections''"] by auto
  obtain r tx2 where r: "challenge_fp2 H tx1 = Some (r, tx2)" "is_fiat_shamir tx2"
    using fs_challenge [OF tx1(2)] by blast
  let ?claim = "hadamard_claim claim (full_authenticate (masks ! 0) g0) (full_authenticate (masks ! 1) g2) (full_authenticate (masks ! 2) g3) r"
  let ?k = "hadamard_key_claim k (key_new (vk_k (keys ! 0) + vc_delta v * ?c0)) (key_new (vk_k (keys ! 1) + vc_delta v * ?c1))
    (key_new (vk_k (keys ! 2) + vc_delta v * ?c2)) r"
  have mv: "mac_valid (vc_delta v1) ?claim ?k"
    unfolding v1(3) using Suc.prems(7) val by (intro hadamard_claim_valid) simp_all
  have pv: "pa_x ?claim = tdot (2 ^ n) (fold_low q r) (fold_low e r) (fold_low t r)"
    using hadamard_claim_value [OF _ _ _ g, of claim] Suc.prems(1-3,8) by simp
  from Suc.IH [OF _ _ _ r(2) m(2) v1(2) mv pv] Suc.prems(1-3)
  obtain corrs point claim' s' tx' k' v' where IH:
    "hadamard_prove_loop H chacha base (Suc rnd) n (fold_low q r) (fold_low e r) (fold_low t r) ?claim s1 tx2
        = Some (corrs, point, claim', eval_mle_loop (fold_low e r) point, eval_mle_loop (fold_low t r) point, s', tx')"
    "hadamard_verify_loop H chacha base (Suc rnd) corrs ?k v1 tx2 = Some (point, k', v', tx')"
    "length point = n" "length corrs = n" "is_fiat_shamir tx'" "run_machine (prover_draw chacha) ops s' \<noteq> None"
    "twin s' v'" "vc_delta v' = vc_delta v1" "mac_valid (vc_delta v1) claim' k'"
    "pa_x claim' = eval_mle_loop (fold_low q r) point ! 0 * eval_mle_loop (fold_low e r) point ! 0 * eval_mle_loop (fold_low t r) point ! 0"
    by auto
  have "hadamard_prove_loop H chacha base rnd (Suc n) q e t claim s tx
      = Some ((?c0, ?c1, ?c2) # corrs, r # point, claim', eval_mle_loop e (r # point), eval_mle_loop t (r # point), s', tx')"
    using g m(1) v1(4) tx1(1) r(1) IH(1) by simp
  moreover have "hadamard_verify_loop H chacha base rnd ((?c0, ?c1, ?c2) # corrs) k v tx = Some (r # point, k', v', tx')"
    using v1 tx1(1) r(1) IH(2) by simp
  ultimately show ?case using IH(3-10) v1(3)
    by (intro exI [of _ "(?c0, ?c1, ?c2) # corrs"] exI [of _ "r # point"] exI [of _ claim'] exI [of _ s'] exI [of _ tx']
        exI [of _ k'] exI [of _ v']) simp
qed

lemma one_transfer:
  assumes "run_machine (prover_draw chacha) (DFull d 1 # ops) s \<noteq> None" "twin s v"
  obtains m s' where "draw_one chacha d s = Some (m, s')" "run_machine (prover_draw chacha) ops s' \<noteq> None"
    "\<And>x. \<exists>k v'. correct_full_verifier_key chacha d (x - fc_x m) v = Some (k, v') \<and> twin s' v' \<and> vc_delta v' = vc_delta v
        \<and> mac_valid (vc_delta v) (full_authenticate m x) k"
proof -
  obtain ms s' where m: "draw_fulls chacha d 1 s = Some (ms, s')" "run_machine (prover_draw chacha) ops s' \<noteq> None"
    using assms(1) by (rule draws_Cons)
  obtain keys v' where k: "expand_full_verifier_keys chacha d 1 v = Some (keys, v')" "twin s' v'" "vc_delta v' = vc_delta v"
    "length ms = 1" "length keys = 1"
    "\<forall>i < 1. \<forall>x. mac_valid (vc_delta v) (full_authenticate (ms ! i) x) (key_new (vk_k (keys ! i) + vc_delta v * (x - fc_x (ms ! i))))"
    using masked_transfer [OF m(1) assms(2)] by blast
  obtain m0 k0 where e: "ms = [m0]" "keys = [k0]" using k(4,5) by (auto simp: length_Suc_conv)
  show ?thesis
    by (rule that [of m0 s']) (use m k e in \<open>auto simp: draw_one_def correct_full_verifier_key_def correct_full_verifier_keys_def\<close>)
qed

section \<open>Completeness\<close>

definition hadamard_draws :: "hadamard_doms \<Rightarrow> nat \<Rightarrow> draw_op list" where
  "hadamard_draws dm n = round_draws (hd_round_masks dm) 3 0 n @ [DFull (hd_e_claim dm) 1, DFull (hd_r_claim dm) 1, DFull (hd_z dm) 1]"

text \<open>
  C15. The blind Hadamard sumcheck is complete and stays in lockstep: on a Fiat--Shamir transcript, with
  twin expanders that can make its draws and a valid key of the true weighted total, the prover returns and
  the verifier follows with the same point and transcript; both push a true product triple and a zero
  row, each with valid keys, and the two claims they return are the multilinear extensions of the two
  tables at the point.
\<close>

theorem hadamard_complete:
  assumes "length e = 2 ^ length rho" "length t = 2 ^ length rho" "is_fiat_shamir tx"
    and "run_machine (prover_draw chacha) (hadamard_draws dm (length rho)) s \<noteq> None" "twin s v"
    and "mac_valid (vc_delta v) claim0 k0" "pa_x claim0 = tdot (2 ^ length rho) (eq_vec rho) e t"
  shows "\<exists>proof point ea ra za row s' tx' ke kr kz krow v'.
    hadamard_prove H chacha rho e t claim0 dm s tx prods zeros
        = Some ((proof, point, ea, ra), s', tx', prods @ [(ea, ra, za)], zeros @ [row])
    \<and> hadamard_verify H chacha rho k0 proof dm v tx kprods kzeros
        = Some (Some (point, ke, kr), v', tx', kprods @ [(ke, kr, kz)], kzeros @ [krow])
    \<and> twin s' v' \<and> mac_valid (vc_delta v) ea ke \<and> mac_valid (vc_delta v) ra kr \<and> mac_valid (vc_delta v) za kz
    \<and> mac_valid (vc_delta v) row krow \<and> pa_x za = pa_x ea * pa_x ra \<and> pa_x row = 0
    \<and> eval_mle e point = Some (pa_x ea) \<and> eval_mle t point = Some (pa_x ra)"
proof -
  let ?n = "length rho"
  obtain corrs point claim s1 tx1 k v1 where r:
    "hadamard_prove_loop H chacha (hd_round_masks dm) 0 ?n (eq_vec rho) e t claim0 s tx
        = Some (corrs, point, claim, eval_mle_loop e point, eval_mle_loop t point, s1, tx1)"
    "hadamard_verify_loop H chacha (hd_round_masks dm) 0 corrs k0 v tx = Some (point, k, v1, tx1)"
    "length point = ?n" "length corrs = ?n" "is_fiat_shamir tx1"
    "run_machine (prover_draw chacha) [DFull (hd_e_claim dm) 1, DFull (hd_r_claim dm) 1, DFull (hd_z dm) 1] s1 \<noteq> None"
    "twin s1 v1" "vc_delta v1 = vc_delta v" "mac_valid (vc_delta v) claim k"
    "pa_x claim = eval_mle_loop (eq_vec rho) point ! 0 * eval_mle_loop e point ! 0 * eval_mle_loop t point ! 0"
    using hadamard_rounds [OF _ assms(1-3) assms(4) [unfolded hadamard_draws_def] assms(5-7), of H] by auto
  let ?ef = "eval_mle_loop e point ! 0" and ?rf = "eval_mle_loop t point ! 0"
  obtain fe s2 where fe: "draw_one chacha (hd_e_claim dm) s1 = Some (fe, s2)"
    "run_machine (prover_draw chacha) [DFull (hd_r_claim dm) 1, DFull (hd_z dm) 1] s2 \<noteq> None"
    "\<And>x. \<exists>k v'. correct_full_verifier_key chacha (hd_e_claim dm) (x - fc_x fe) v1 = Some (k, v') \<and> twin s2 v' \<and> vc_delta v' = vc_delta v1
        \<and> mac_valid (vc_delta v1) (full_authenticate fe x) k" using one_transfer [OF r(6,7)] by blast
  obtain ke v2 where ke: "correct_full_verifier_key chacha (hd_e_claim dm) (?ef - fc_x fe) v1 = Some (ke, v2)" "twin s2 v2"
    "vc_delta v2 = vc_delta v" "mac_valid (vc_delta v) (full_authenticate fe ?ef) ke" using fe(3) r(8) by metis
  obtain fr s3 where fr: "draw_one chacha (hd_r_claim dm) s2 = Some (fr, s3)"
    "run_machine (prover_draw chacha) [DFull (hd_z dm) 1] s3 \<noteq> None"
    "\<And>x. \<exists>k v'. correct_full_verifier_key chacha (hd_r_claim dm) (x - fc_x fr) v2 = Some (k, v') \<and> twin s3 v' \<and> vc_delta v' = vc_delta v2
        \<and> mac_valid (vc_delta v2) (full_authenticate fr x) k" using one_transfer [OF fe(2) ke(2)] by blast
  obtain kr v3 where kr: "correct_full_verifier_key chacha (hd_r_claim dm) (?rf - fc_x fr) v2 = Some (kr, v3)" "twin s3 v3"
    "vc_delta v3 = vc_delta v" "mac_valid (vc_delta v) (full_authenticate fr ?rf) kr" using fr(3) ke(3) by metis
  obtain fz s4 where fz: "draw_one chacha (hd_z dm) s3 = Some (fz, s4)"
    "\<And>x. \<exists>k v'. correct_full_verifier_key chacha (hd_z dm) (x - fc_x fz) v3 = Some (k, v') \<and> twin s4 v' \<and> vc_delta v' = vc_delta v3
        \<and> mac_valid (vc_delta v3) (full_authenticate fz x) k" using one_transfer [OF fr(2) kr(2)] by blast
  obtain kz v4 where kz: "correct_full_verifier_key chacha (hd_z dm) (?ef * ?rf - fc_x fz) v3 = Some (kz, v4)" "twin s4 v4"
    "mac_valid (vc_delta v) (full_authenticate fz (?ef * ?rf)) kz" using fz(2) kr(3) by metis
  let ?z = "full_authenticate fz (?ef * ?rf)"
  let ?cs = "[?ef - fc_x fe, ?rf - fc_x fr, ?ef * ?rf - fc_x fz]"
  obtain tx2 where tx2: "append_fp2s ''hadamard_claim_corrections'' ?cs tx1 = Some tx2"
    using fs_append [OF r(5), of "''hadamard_claim_corrections''"] by auto
  have g: "get (eval_mle_loop e point) 0 = Some ?ef" "get (eval_mle_loop t point) 0 = Some ?rf"
    using assms(1,2) r(3) by (simp_all add: eval_mle_loop_dot)
  have q: "eval_mle_loop (eq_vec rho) point ! 0 = eq_points rho point"
    using r(3) by (simp add: eval_mle_loop_dot eq_points_dot)
  let ?row = "prover_sub (prover_scale ?z (eq_points rho point)) claim" and ?krow = "key_sub (key_scale kz (eq_points rho point)) k"
  let ?proof = "\<lparr>h_round_corrs = corrs, h_e_corr = ?ef - fc_x fe, h_r_corr = ?rf - fc_x fr, h_z_corr = ?ef * ?rf - fc_x fz\<rparr>"
  have "hadamard_prove H chacha rho e t claim0 dm s tx prods zeros
      = Some ((?proof, point, full_authenticate fe ?ef, full_authenticate fr ?rf), s4, tx2,
          prods @ [(full_authenticate fe ?ef, full_authenticate fr ?rf, ?z)], zeros @ [?row])"
    using assms(1,2) r(1) g fe(1) fr(1) fz(1) tx2 by (simp add: hadamard_prove_def Let_def)
  moreover have "hadamard_verify H chacha rho k0 ?proof dm v tx kprods kzeros
      = Some (Some (point, ke, kr), v4, tx2, kprods @ [(ke, kr, kz)], kzeros @ [?krow])"
    using r(2,4) tx2 ke(1) kr(1) kz(1) by (simp add: hadamard_verify_def)
  moreover have "mac_valid (vc_delta v) ?row ?krow" using kz(3) r(9) by (intro fp2_mac.valid_sub fp2_mac.valid_scale)
  moreover have "pa_x ?row = 0" using r(10) by (simp add: q full_authenticate_def algebra_simps)
  moreover have "eval_mle e point = Some ?ef" "eval_mle t point = Some ?rf" using assms(1,2) r(3) by (simp_all add: eval_mle_full)
  ultimately show ?thesis using ke(4) kr(4) kz(2,3) by (fastforce simp: full_authenticate_def)
qed

lemma demo_hadamard_draws:
  "run_machine (prover_draw chacha) (hadamard_draws \<lparr>hd_round_masks = 7, hd_e_claim = 8, hd_r_claim = 9, hd_z = 10\<rparr> 1)
     (stream_from_pcg_pool [] (replicate 6 f)) \<noteq> None"
  using pool_serves [of "[(7, 3), (8, 1), (9, 1), (10, 1)]" "replicate 6 f" chacha "[]"]
  by (simp add: hadamard_draws_def round_draws_def domain_bits)

theorem hadamard_complete_witness:
  "\<exists>proof point ea ra za row s' tx' ke kr kz krow v'.
    hadamard_prove demo_hash demo_chacha [5] [1, 2] [3, 4] (prover_authed_new (tdot 2 (eq_vec [5]) [1, 2] [3, 4]) 6)
        \<lparr>hd_round_masks = 7, hd_e_claim = 8, hd_r_claim = 9, hd_z = 10\<rparr> (demo_stream 6) demo_fs [] []
        = Some ((proof, point, ea, ra), s', tx', [(ea, ra, za)], [row])
    \<and> hadamard_verify demo_hash demo_chacha [5] (key_of 3 (prover_authed_new (tdot 2 (eq_vec [5]) [1, 2] [3, 4]) 6)) proof
        \<lparr>hd_round_masks = 7, hd_e_claim = 8, hd_r_claim = 9, hd_z = 10\<rparr> (demo_ctx 6) demo_fs [] []
        = Some (Some (point, ke, kr), v', tx', [(ke, kr, kz)], [krow])
    \<and> pa_x za = pa_x ea * pa_x ra \<and> pa_x row = 0"
proof -
  let ?c = "prover_authed_new (tdot 2 (eq_vec [5]) [1, 2] [3, 4]) 6"
  let ?d = "\<lparr>hd_round_masks = 7, hd_e_claim = 8, hd_r_claim = 9, hd_z = 10\<rparr> :: hadamard_doms"
  have "mac_valid (vc_delta (demo_ctx 6)) ?c (key_of 3 ?c)" by (simp add: mac_valid_iff demo_ctx_def ctx_from_pcg_pool_def)
  moreover have "run_machine (prover_draw demo_chacha) (hadamard_draws ?d (length [5 :: fp2])) (demo_stream 6) \<noteq> None"
    using demo_hadamard_draws by (simp add: demo_stream_def)
  moreover have "length [1, 2 :: fp2] = 2 ^ length [5 :: fp2]" "length [3, 4 :: fp2] = 2 ^ length [5 :: fp2]"
    "pa_x ?c = tdot (2 ^ length [5 :: fp2]) (eq_vec [5]) [1, 2] [3, 4]" by simp_all
  ultimately show ?thesis
    using hadamard_complete [OF _ _ demo_fs _ demo_twin, of "[1, 2]" "[5]" "[3, 4]" demo_chacha ?d 6 ?c "key_of 3 ?c" demo_hash "[]" "[]" "[]" "[]"]
    unfolding append_Nil by blast
qed

end
