(* ===== verification/Gemm.thy ===== *)
theory Gemm
  imports Lockstep
begin

text \<open>
  The quantized matrix product of \<^verbatim>\<open>volta-gpt2/src/gemm.rs\<close> (CPU kernels) with its two epilogues, and
  the two functions of \<^verbatim>\<open>volta-mac/src/auth.rs\<close> that take over the fused epilogue's output. Entries are
  16-bit words and accumulators 64-bit words that wrap, as in the build without overflow checks. The
  accumulators are exact below \<open>2 ^ 33\<close> inner columns, the fused kernel computes the native output,
  and its corrections authenticate that output.
\<close>

section \<open>The kernels\<close>

type_synonym i16 = "16 word"
type_synonym i64 = "64 word"

text \<open>Shift amounts are masked to the width, as the hardware shift of the release build does.\<close>

definition requant :: "i64 \<Rightarrow> u32 \<Rightarrow> i16" where
  "requant acc shift =
     (let rounded = signed_drop_bit (unat shift mod 64) (acc + push_bit (unat (shift - 1) mod 64) 1)
      in word_of_int (max (- (2 ^ 15)) (min (2 ^ 15 - 1) (sint rounded))))"

record epilogue_spec =
  ep_shift :: u32
  ep_seed :: bytes
  ep_tensor_tag :: u32

fun gemm_row_loop :: "nat \<Rightarrow> i16 list \<Rightarrow> i16 list \<Rightarrow> nat \<Rightarrow> i64 list \<Rightarrow> i64 list option" where
  "gemm_row_loop l [] b n acc = Some acc"
| "gemm_row_loop l (a_il # as) b n acc =
     (if a_il = 0 then gemm_row_loop (Suc l) as b n acc
      else do { b_row \<leftarrow> slice (l * n) n b;
                gemm_row_loop (Suc l) as b n (map2 (\<lambda>dst b_lj. dst + scast a_il * scast b_lj) acc b_row) })"

definition gemm_row :: "i16 list \<Rightarrow> i16 list \<Rightarrow> nat \<Rightarrow> i64 list option" where
  "gemm_row a_row b n = gemm_row_loop 0 a_row b n (replicate n 0)"

fun gemm_rows :: "i16 list \<Rightarrow> i16 list \<Rightarrow> nat \<Rightarrow> nat \<Rightarrow> nat list \<Rightarrow> i64 list option" where
  "gemm_rows a b k n [] = Some []"
| "gemm_rows a b k n (i # is) =
     do { a_row \<leftarrow> slice (i * k) k a;
          acc \<leftarrow> gemm_row a_row b n;
          rest \<leftarrow> gemm_rows a b k n is;
          Some (acc @ rest) }"

text \<open>The parallel chunks of the output are its rows; a chunk size of zero panics.\<close>

definition gemm_i64 :: "i16 list \<Rightarrow> i16 list \<Rightarrow> nat \<Rightarrow> nat \<Rightarrow> nat \<Rightarrow> i64 list option" where
  "gemm_i64 a b m k n =
     (if length a = m * k \<and> length b = k * n \<and> n \<noteq> 0 then gemm_rows a b k n [0..<m] else None)"

fun requant_rows :: "i16 list \<Rightarrow> i16 list \<Rightarrow> nat \<Rightarrow> nat \<Rightarrow> u32 \<Rightarrow> nat list \<Rightarrow> i16 list option" where
  "requant_rows a b k n shift [] = Some []"
| "requant_rows a b k n shift (i # is) =
     do { a_row \<leftarrow> slice (i * k) k a;
          acc \<leftarrow> gemm_row a_row b n;
          rest \<leftarrow> requant_rows a b k n shift is;
          Some (map (\<lambda>v. requant v shift) acc @ rest) }"

definition gemm_requant :: "i16 list \<Rightarrow> i16 list \<Rightarrow> nat \<Rightarrow> nat \<Rightarrow> nat \<Rightarrow> u32 \<Rightarrow> i16 list option" where
  "gemm_requant a b m k n shift =
     (if length a = m * k \<and> length b = k * n \<and> n \<noteq> 0 then requant_rows a b k n shift [0..<m] else None)"

definition row_domain :: "u32 \<Rightarrow> nat \<Rightarrow> u64" where
  "row_domain tag i = push_bit 32 (ucast tag) OR word_of_nat i"

fun auth_row :: "u32 \<Rightarrow> i64 list \<Rightarrow> fp_stream \<Rightarrow> (i16 list \<times> u64 list) option" where
  "auth_row shift [] st = Some ([], [])"
| "auth_row shift (v # vs) st =
     do { let y = requant v shift;
          let x = fp_from_i64 (sint y);
          (r, st) \<leftarrow> next_fp st;
          (os, cs) \<leftarrow> auth_row shift vs st;
          Some (y # os, fp_value (x - r) # cs) }"

fun auth_rows :: "chacha \<Rightarrow> i16 list \<Rightarrow> i16 list \<Rightarrow> nat \<Rightarrow> nat \<Rightarrow> epilogue_spec \<Rightarrow> nat list \<Rightarrow> (i16 list \<times> u64 list) option" where
  "auth_rows chacha a b k n ep [] = Some ([], [])"
| "auth_rows chacha a b k n ep (i # is) =
     do { a_row \<leftarrow> slice (i * k) k a;
          acc \<leftarrow> gemm_row a_row b n;
          (os, cs) \<leftarrow> auth_row (ep_shift ep) acc
             (fp_stream_domain_separated chacha (ep_seed ep) (row_domain (ep_tensor_tag ep) i));
          (os', cs') \<leftarrow> auth_rows chacha a b k n ep is;
          Some (os @ os', cs @ cs') }"

definition gemm_requant_auth ::
  "chacha \<Rightarrow> i16 list \<Rightarrow> i16 list \<Rightarrow> nat \<Rightarrow> nat \<Rightarrow> nat \<Rightarrow> epilogue_spec \<Rightarrow> (i16 list \<times> u64 list) option" where
  "gemm_requant_auth chacha a b m k n ep =
     (if length a = m * k \<and> length b = k * n \<and> n \<noteq> 0 then auth_rows chacha a b k n ep [0..<m] else None)"

subsection \<open>The epilogue's two consumers\<close>

fun verifier_rows ::
  "chacha \<Rightarrow> u32 \<Rightarrow> nat \<Rightarrow> u64 list \<Rightarrow> nat list \<Rightarrow> verifier_ctx \<Rightarrow> (verifier_key list \<times> verifier_ctx) option" where
  "verifier_rows chacha tag n corr [] v = Some ([], v)"
| "verifier_rows chacha tag n corr (row # rows) v =
     do { cs \<leftarrow> slice (row * n) n corr;
          (keys, v) \<leftarrow> auth_verifier chacha (row_domain tag row) cs v;
          (rest, v) \<leftarrow> verifier_rows chacha tag n corr rows v;
          Some (keys @ rest, v) }"

definition auth_verifier_from_epilogue ::
  "chacha \<Rightarrow> u32 \<Rightarrow> nat \<Rightarrow> nat \<Rightarrow> u64 list \<Rightarrow> verifier_ctx \<Rightarrow> (verifier_key list \<times> verifier_ctx) option" where
  "auth_verifier_from_epilogue chacha tag m n corr v =
     (if length corr = m * n then verifier_rows chacha tag n corr [0..<m] v else None)"

fun prover_rows ::
  "chacha \<Rightarrow> u32 \<Rightarrow> nat \<Rightarrow> i16 list \<Rightarrow> nat list \<Rightarrow> correlation_stream \<Rightarrow> (prover_sub_authed list \<times> correlation_stream) option" where
  "prover_rows chacha tag n out [] s = Some ([], s)"
| "prover_rows chacha tag n out (row # rows) s =
     do { (_, s) \<leftarrow> draw_sub_masks chacha (row_domain tag row) n s;
          tags \<leftarrow> draw_sub_tags chacha (row_domain tag row) n s;
          ys \<leftarrow> slice (row * n) n out;
          (rest, s) \<leftarrow> prover_rows chacha tag n out rows s;
          Some (map2 (\<lambda>y mt. sub_authed_new (fp_from_i64 (sint y)) mt) ys tags @ rest, s) }"

definition prover_tags_from_epilogue ::
  "chacha \<Rightarrow> u32 \<Rightarrow> i16 list \<Rightarrow> nat \<Rightarrow> nat \<Rightarrow> correlation_stream \<Rightarrow> (prover_sub_authed list \<times> correlation_stream) option" where
  "prover_tags_from_epilogue chacha tag out m n s =
     (if length out = m * n then prover_rows chacha tag n out [0..<m] s else None)"

section \<open>Exact accumulators\<close>

text \<open>The integer inner product that an accumulator holds.\<close>

definition inner :: "nat \<Rightarrow> (nat \<Rightarrow> i16) \<Rightarrow> (nat \<Rightarrow> i16) \<Rightarrow> int" where
  "inner k f g = (\<Sum>i<k. sint (f i) * sint (g i))"

lemma inner_0 [simp]: "inner 0 f g = 0"
  by (simp add: inner_def)

lemma inner_Suc_shift: "inner (Suc k) f g = sint (f 0) * sint (g 0) + inner k (\<lambda>i. f (Suc i)) (\<lambda>i. g (Suc i))"
  unfolding inner_def sum.lessThan_Suc_shift ..

lemma inner_cong: "(\<And>i. i < k \<Longrightarrow> f i = f' i \<and> g i = g' i) \<Longrightarrow> inner k f g = inner k f' g'"
  unfolding inner_def by (intro sum.cong) auto

lemma gemm_row_loop_value:
  assumes "length acc = n" "(l + length as) * n \<le> length b"
  shows "gemm_row_loop l as b n acc
    = Some (map (\<lambda>j. acc ! j + of_int (inner (length as) ((!) as) (\<lambda>i. b ! ((l + i) * n + j)))) [0..<n])"
  using assms
proof (induction as arbitrary: l acc)
  case Nil
  then show ?case by (auto intro!: nth_equalityI)
next
  case (Cons a as)
  have IH: "gemm_row_loop (Suc l) as b n acc'
      = Some (map (\<lambda>j. acc' ! j + of_int (inner (length as) ((!) as) (\<lambda>i. b ! ((Suc l + i) * n + j)))) [0..<n])"
    if "length acc' = n" for acc'
    using Cons.IH [of acc' "Suc l"] Cons.prems(2) that by simp
  have sum: "inner (length (a # as)) ((!) (a # as)) (\<lambda>i. b ! ((l + i) * n + j))
      = sint a * sint (b ! (l * n + j)) + inner (length as) ((!) as) (\<lambda>i. b ! ((Suc l + i) * n + j))" for j
    unfolding length_Cons inner_Suc_shift by (auto intro!: inner_cong)
  have "Suc l * n \<le> (l + length (a # as)) * n" by (intro mult_le_mono1) simp
  then have "Suc l * n \<le> length b" using Cons.prems(2) by (rule order_trans)
  then have "l * n + n \<le> length b" by simp
  then have sl: "slice (l * n) n b = Some (map (\<lambda>j. b ! (l * n + j)) [0..<n])"
    by (auto simp: slice_def intro!: nth_equalityI)
  show ?case
  proof (cases "a = 0")
    case True
    then show ?thesis unfolding sum using IH [OF Cons.prems(1)] by simp
  next
    case False
    let ?acc = "map2 (\<lambda>dst b_lj. dst + scast a * scast b_lj) acc (map (\<lambda>j. b ! (l * n + j)) [0..<n])"
    have e: "?acc ! j = acc ! j + of_int (sint a * sint (b ! (l * n + j)))" if "j < n" for j
      using that Cons.prems(1) by simp
    have "length ?acc = n" using Cons.prems(1) by simp
    from IH [OF this] have "gemm_row_loop l (a # as) b n acc
        = Some (map (\<lambda>j. ?acc ! j + of_int (inner (length as) ((!) as) (\<lambda>i. b ! ((Suc l + i) * n + j)))) [0..<n])"
      using False sl by simp
    also have "\<dots> = Some (map (\<lambda>j. acc ! j + of_int (inner (length (a # as)) ((!) (a # as)) (\<lambda>i. b ! ((l + i) * n + j)))) [0..<n])"
      unfolding sum by (rule arg_cong [of _ _ Some], rule map_cong) (simp_all only: e of_int_add add.assoc set_upt atLeastLessThan_iff)
    finally show ?thesis .
  qed
qed

lemma gemm_row_value:
  assumes "length a_row = k" "length b = k * n"
  shows "gemm_row a_row b n = Some (map (\<lambda>j. of_int (inner k ((!) a_row) (\<lambda>i. b ! (i * n + j)))) [0..<n])"
  using gemm_row_loop_value [of "replicate n 0" n 0 a_row b] assms by (simp add: gemm_row_def cong: map_cong)

lemma i16_product_bound: "\<bar>sint (a :: i16) * sint (b :: i16)\<bar> \<le> 2 ^ 30"
proof -
  have "\<bar>sint a\<bar> \<le> 2 ^ 15" "\<bar>sint b\<bar> \<le> 2 ^ 15"
    using sint_lt [of a] sint_ge [of a] sint_lt [of b] sint_ge [of b] by auto
  then have "\<bar>sint a\<bar> * \<bar>sint b\<bar> \<le> 2 ^ 15 * 2 ^ 15" by (intro mult_mono) auto
  then show ?thesis by (simp add: abs_mult)
qed

lemma sint_of_small: "\<bar>x\<bar> < 2 ^ 63 \<Longrightarrow> sint (of_int x :: i64) = x"
  by (simp add: signed_of_int signed_take_bit_int_eq_self)

lemma inner_exact:
  assumes "k < 2 ^ 33"
  shows "\<bar>inner k f g\<bar> < 2 ^ 63" "sint (of_int (inner k f g) :: i64) = inner k f g"
proof -
  have "\<bar>inner k f g\<bar> \<le> (\<Sum>i<k. \<bar>sint (f i) * sint (g i)\<bar>)" unfolding inner_def by (rule sum_abs)
  also have "\<dots> \<le> (\<Sum>i<k. 2 ^ 30)" by (intro sum_mono i16_product_bound)
  also have "\<dots> = int k * 2 ^ 30" by simp
  also have "\<dots> < 2 ^ 63" using assms by simp
  finally show "\<bar>inner k f g\<bar> < 2 ^ 63" .
  then show "sint (of_int (inner k f g) :: i64) = inner k f g" by (rule sint_of_small)
qed

lemma gemm_rows_value:
  assumes "length a = m * k" "length b = k * n" "\<forall>i \<in> set is. i < m"
  shows "gemm_rows a b k n is
    = Some (concat (map (\<lambda>i. map (\<lambda>j. of_int (inner k (\<lambda>l. a ! (i * k + l)) (\<lambda>l. b ! (l * n + j)))) [0..<n]) is))"
  using assms(3)
proof (induction "is")
  case (Cons i "is")
  have r: "slice (i * k) k a = Some (map (\<lambda>l. a ! (i * k + l)) [0..<k])" using slice_row [of i m a k] assms(1) Cons.prems by simp
  have "gemm_row (map (\<lambda>l. a ! (i * k + l)) [0..<k]) b n
      = Some (map (\<lambda>j. of_int (inner k (\<lambda>l. a ! (i * k + l)) (\<lambda>l. b ! (l * n + j)))) [0..<n])"
    unfolding gemm_row_value [of "map (\<lambda>l. a ! (i * k + l)) [0..<k]" k b n, OF _ assms(2), simplified]
    by (rule arg_cong [of _ _ Some], rule map_cong [OF refl], rule arg_cong [of _ _ of_int], rule inner_cong) simp
  then show ?case using Cons r by simp
qed simp

text \<open>Rows of equal length are read off a concatenation by position.\<close>

lemma concat_rows:
  assumes "\<And>i. i < m \<Longrightarrow> length (f i) = n"
  shows "length (concat (map f [0..<m])) = m * n \<and> (\<forall>i < m. \<forall>j < n. concat (map f [0..<m]) ! (i * n + j) = f i ! j)"
  using assms
proof (induction m)
  case (Suc m)
  then have IH: "length (concat (map f [0..<m])) = m * n" "\<And>i j. i < m \<Longrightarrow> j < n \<Longrightarrow> concat (map f [0..<m]) ! (i * n + j) = f i ! j"
    by simp_all
  have "concat (map f [0..<Suc m]) ! (i * n + j) = f i ! j" if "i < Suc m" "j < n" for i j
  proof (cases "i < m")
    case True
    then have "i * n + j < m * n" using row_bound that(2) by blast
    then show ?thesis using True that IH by (simp add: nth_append)
  next
    case False
    then have "i = m" using that(1) by simp
    then show ?thesis using IH(1) by (simp add: nth_append)
  qed
  then show ?case using IH(1) Suc.prems [of m] by simp
qed simp

lemma gemm_i64_value:
  assumes "length a = m * k" "length b = k * n" "n \<noteq> 0"
  shows "\<exists>out. gemm_i64 a b m k n = Some out \<and> length out = m * n
    \<and> (\<forall>i < m. \<forall>j < n. out ! (i * n + j) = of_int (inner k (\<lambda>l. a ! (i * k + l)) (\<lambda>l. b ! (l * n + j))))"
proof -
  let ?f = "\<lambda>i. map (\<lambda>j. of_int (inner k (\<lambda>l. a ! (i * k + l)) (\<lambda>l. b ! (l * n + j)))) [0..<n] :: i64 list"
  have "gemm_i64 a b m k n = Some (concat (map ?f [0..<m]))"
    using gemm_rows_value [OF assms(1,2), of "[0..<m]"] assms by (simp add: gemm_i64_def)
  then show ?thesis using concat_rows [of m ?f n] by simp
qed

section \<open>The fused epilogue\<close>

lemma auth_row_Some:
  assumes "auth_row shift vs st = Some (os, cs)"
  shows "os = map (\<lambda>v. requant v shift) vs
    \<and> (\<exists>rs st'. next_fps (length vs) st = Some (rs, st') \<and> cs = map2 (\<lambda>y r. fp_value (fp_from_i64 (sint y) - r)) os rs)"
  using assms
proof (induction vs arbitrary: st os cs)
  case (Cons v vs)
  then obtain r st1 os1 cs1 where r: "next_fp st = Some (r, st1)" "auth_row shift vs st1 = Some (os1, cs1)"
    "os = requant v shift # os1" "cs = fp_value (fp_from_i64 (sint (requant v shift)) - r) # cs1"
    by (auto simp: Let_def split: Option.bind_splits)
  obtain rs st' where "os1 = map (\<lambda>v. requant v shift) vs" "next_fps (length vs) st1 = Some (rs, st')"
    "cs1 = map2 (\<lambda>y r. fp_value (fp_from_i64 (sint y) - r)) os1 rs" using Cons.IH [OF r(2)] by blast
  then show ?case using r by auto
qed simp

definition auth_row_of :: "chacha \<Rightarrow> i16 list \<Rightarrow> i16 list \<Rightarrow> nat \<Rightarrow> nat \<Rightarrow> epilogue_spec \<Rightarrow> nat \<Rightarrow> (i16 list \<times> u64 list) option" where
  "auth_row_of chacha a b k n ep i =
     do { a_row \<leftarrow> slice (i * k) k a;
          acc \<leftarrow> gemm_row a_row b n;
          auth_row (ep_shift ep) acc (fp_stream_domain_separated chacha (ep_seed ep) (row_domain (ep_tensor_tag ep) i)) }"

lemma auth_rows_concat:
  assumes "auth_rows chacha a b k n ep is = Some (out, corr)"
  shows "(\<forall>i \<in> set is. auth_row_of chacha a b k n ep i \<noteq> None)
    \<and> out = concat (map (\<lambda>i. fst (the (auth_row_of chacha a b k n ep i))) is)
    \<and> corr = concat (map (\<lambda>i. snd (the (auth_row_of chacha a b k n ep i))) is)
    \<and> requant_rows a b k n (ep_shift ep) is = Some out"
  using assms
proof (induction "is" arbitrary: out corr)
  case (Cons i "is")
  then obtain a_row acc os cs os' cs' where r: "slice (i * k) k a = Some a_row" "gemm_row a_row b n = Some acc"
    "auth_row (ep_shift ep) acc (fp_stream_domain_separated chacha (ep_seed ep) (row_domain (ep_tensor_tag ep) i)) = Some (os, cs)"
    "auth_rows chacha a b k n ep is = Some (os', cs')" "out = os @ os'" "corr = cs @ cs'"
    by (auto split: Option.bind_splits)
  then have "auth_row_of chacha a b k n ep i = Some (os, cs)" by (simp add: auth_row_of_def)
  moreover have "os = map (\<lambda>v. requant v (ep_shift ep)) acc" using auth_row_Some [OF r(3)] by blast
  ultimately show ?case using Cons.IH [OF r(4)] r by simp
qed simp

text \<open>What the kernel leaves for row \<open>i\<close>: outputs and corrections against the row's mask stream.\<close>

definition row_authenticated :: "chacha \<Rightarrow> epilogue_spec \<Rightarrow> nat \<Rightarrow> i16 list \<Rightarrow> u64 list \<Rightarrow> nat \<Rightarrow> bool" where
  "row_authenticated chacha ep n out corr i \<longleftrightarrow>
     (\<exists>os rs st. slice (i * n) n out = Some os \<and> length os = n
        \<and> next_fps n (fp_stream_domain_separated chacha (ep_seed ep) (row_domain (ep_tensor_tag ep) i)) = Some (rs, st)
        \<and> slice (i * n) n corr = Some (map2 (\<lambda>y r. fp_value (fp_from_i64 (sint y) - r)) os rs))"

lemma gemm_requant_auth_rows:
  assumes "gemm_requant_auth chacha a b m k n ep = Some (out, corr)"
  shows "length out = m * n \<and> length corr = m * n \<and> (\<forall>i < m. row_authenticated chacha ep n out corr i)
    \<and> gemm_requant a b m k n (ep_shift ep) = Some out"
proof -
  have len: "length a = m * k" "length b = k * n" "n \<noteq> 0" and r: "auth_rows chacha a b k n ep [0..<m] = Some (out, corr)"
    using assms by (auto simp: gemm_requant_auth_def split: if_splits)
  let ?R = "auth_row_of chacha a b k n ep"
  let ?st = "\<lambda>i. fp_stream_domain_separated chacha (ep_seed ep) (row_domain (ep_tensor_tag ep) i)"
  have C: "\<forall>i < m. ?R i \<noteq> None" "out = concat (map (\<lambda>i. fst (the (?R i))) [0..<m])" "corr = concat (map (\<lambda>i. snd (the (?R i))) [0..<m])"
    "requant_rows a b k n (ep_shift ep) [0..<m] = Some out" using auth_rows_concat [OF r] by auto
  have row: "\<exists>rs st. length (fst (the (?R i))) = n \<and> next_fps n (?st i) = Some (rs, st)
      \<and> snd (the (?R i)) = map2 (\<lambda>y r. fp_value (fp_from_i64 (sint y) - r)) (fst (the (?R i))) rs" if i: "i < m" for i
  proof -
    obtain os cs where oc: "?R i = Some (os, cs)" using C(1) i by fastforce
    then obtain a_row acc where o: "slice (i * k) k a = Some a_row" "gemm_row a_row b n = Some acc"
      "auth_row (ep_shift ep) acc (?st i) = Some (os, cs)"
      by (auto simp: auth_row_of_def split: Option.bind_splits)
    have "length a_row = k" using o(1) by (auto simp: slice_Some)
    then have "length acc = n" using o(2) gemm_row_value [of a_row k b n] len by auto
    then show ?thesis using auth_row_Some [OF o(3)] oc by auto
  qed
  then have l: "\<And>i. i < m \<Longrightarrow> length (fst (the (?R i))) = n" "\<And>i. i < m \<Longrightarrow> length (snd (the (?R i))) = n"
    using next_fps_length by (blast, fastforce)
  have sl: "slice (i * n) n (concat (map f [0..<m])) = Some (f i)" if "i < m" "\<And>i. i < m \<Longrightarrow> length (f i) = n" for i and f :: "nat \<Rightarrow> 'x list"
    using slice_row [of i m "concat (map f [0..<m])" n] concat_rows [of m f n] that
    by (auto intro!: nth_equalityI)
  have "row_authenticated chacha ep n out corr i" if i: "i < m" for i
    using row [OF i] sl [OF i, of "\<lambda>i. fst (the (?R i))"] sl [OF i, of "\<lambda>i. snd (the (?R i))"] l
    unfolding row_authenticated_def C(2,3) by metis
  then show ?thesis using concat_rows [of m "\<lambda>i. fst (the (?R i))" n] concat_rows [of m "\<lambda>i. snd (the (?R i))" n] l C len
    by (simp add: gemm_requant_def)
qed

text \<open>On the mock backend a mask draw reads the domain's stream from its start.\<close>

lemma mock_draw_sub_masks:
  assumes "draw_sub_masks chacha d n s = Some (masks, s')" "cs_backend s = PMock seed al"
  shows "\<exists>st al'. next_fps n (fp_stream_domain_separated chacha seed d) = Some (masks, st) \<and> cs_backend s' = PMock seed al'"
proof -
  obtain res where r: "reserve_sub_mask_rows d 1 n s = Some (res, s')" "into_host_masks chacha res = Some masks"
    using assms(1) by (auto simp: draw_sub_masks_def split: Option.bind_splits)
  obtain al' where "res = ChaCha8 seed d 1 n" "cs_backend s' = PMock seed al'"
    using r(1) assms(2) by (auto simp: reserve_sub_mask_rows_def backend_reserve_masks_def split: Option.bind_splits)
  then show ?thesis using r(2) by (auto simp: into_host_masks_def split: Option.bind_splits)
qed

lemma draw_sub_tags_length: "draw_sub_tags chacha d n s = Some tags \<Longrightarrow> length tags = n"
  by (auto simp: draw_sub_tags_def pl_draw_sub_tags_def slice_Some dest: next_fp2s_length
      split: if_splits prover_backend.splits Option.bind_splits)

lemma auth_row_keys:
  assumes "draw_sub_masks chacha d n s = Some (rs, s1)" "draw_sub_tags chacha d n s1 = Some tags" "length os = n"
    and "twin s v" "\<not> vc_compact v" "length rs = n"
  shows "\<exists>keys v1. auth_verifier chacha d (map2 (\<lambda>y r. fp_value (fp_from_i64 (sint y) - r)) os rs) v = Some (keys, v1)
    \<and> twin s1 v1 \<and> vc_delta v1 = vc_delta v \<and> \<not> vc_compact v1 \<and> length tags = n
    \<and> list_all2 (mac_valid (vc_delta v)) (map sub_embed (map2 (\<lambda>y mt. sub_authed_new (fp_from_i64 (sint y)) mt) os tags)) keys"
proof -
  let ?subs = "map2 (\<lambda>r m. \<lparr>sc_r = r, sc_m = m\<rparr>) rs tags"
  have d: "draw_subs chacha d n s = Some (?subs, s1)" using assms(1,2) by (simp add: draw_subs_def)
  obtain v1 where v1: "expand_sub_keys chacha d n v = Some (map (\<lambda>c. sc_m c + fp2_mul_base (vc_delta v) (sc_r c)) ?subs, v1)"
    "twin s1 v1" "vc_delta v1 = vc_delta v" "vc_compact v1 = vc_compact v" "length ?subs = n"
    using draw_subs_twin [OF d assms(4)] by blast
  have l: "length rs = n" "length tags = n" using assms(6) draw_sub_tags_length [OF assms(2)] by simp_all
  let ?corr = "map2 (\<lambda>y r. fp_value (fp_from_i64 (sint y) - r)) os rs"
  let ?keys = "map2 (\<lambda>k_r c. key_new (vk_k k_r + fp2_mul_base (vc_delta v) (fp_new c)))
    (map key_new (map (\<lambda>c. sc_m c + fp2_mul_base (vc_delta v) (sc_r c)) ?subs)) ?corr"
  have "auth_verifier chacha d ?corr v = Some (?keys, v1)"
    using v1(1) l assms(3,5) by (simp add: auth_verifier_def expand_sub_verifier_keys_def)
  moreover have "list_all2 (mac_valid (vc_delta v)) (map sub_embed (map2 (\<lambda>y mt. sub_authed_new (fp_from_i64 (sint y)) mt) os tags)) ?keys"
    using l assms(3)
    by (auto simp: list_all2_conv_all_nth mac_valid_def sub_authed_new_def fp2_mul_base_eq fp_new_value_id algebra_simps)
  ultimately show ?thesis using v1 l assms(5) by blast
qed

lemma epilogue_rows:
  assumes "prover_rows chacha (ep_tensor_tag ep) n out is s = Some (authed, s')" "\<forall>i \<in> set is. row_authenticated chacha ep n out corr i"
    and "twin s v" "cs_backend s = PMock (ep_seed ep) al" "\<not> vc_compact v"
  shows "\<exists>keys v'. verifier_rows chacha (ep_tensor_tag ep) n corr is v = Some (keys, v') \<and> twin s' v'
    \<and> list_all2 (mac_valid (vc_delta v)) (map sub_embed authed) keys
    \<and> map ps_x authed = concat (map (\<lambda>i. map (\<lambda>y. fp_from_i64 (sint y)) (the (slice (i * n) n out))) is)"
  using assms
proof (induction "is" arbitrary: s v authed al)
  case (Cons i "is")
  let ?d = "row_domain (ep_tensor_tag ep) i"
  obtain masks s1 tags os rest where r: "draw_sub_masks chacha ?d n s = Some (masks, s1)" "draw_sub_tags chacha ?d n s1 = Some tags"
    "slice (i * n) n out = Some os" "prover_rows chacha (ep_tensor_tag ep) n out is s1 = Some (rest, s')"
    "authed = map2 (\<lambda>y mt. sub_authed_new (fp_from_i64 (sint y)) mt) os tags @ rest"
    using Cons.prems(1) by (auto split: Option.bind_splits)
  obtain st al1 where m: "next_fps n (fp_stream_domain_separated chacha (ep_seed ep) ?d) = Some (masks, st)" "cs_backend s1 = PMock (ep_seed ep) al1"
    using mock_draw_sub_masks [OF r(1) Cons.prems(4)] by blast
  have c: "length os = n" "slice (i * n) n corr = Some (map2 (\<lambda>y r. fp_value (fp_from_i64 (sint y) - r)) os masks)"
    using Cons.prems(2) r(3) m(1) by (auto simp: row_authenticated_def)
  have lm: "length masks = n" using next_fps_length m(1) by blast
  obtain keys v1 where k: "auth_verifier chacha ?d (map2 (\<lambda>y r. fp_value (fp_from_i64 (sint y) - r)) os masks) v = Some (keys, v1)"
    "twin s1 v1" "vc_delta v1 = vc_delta v" "\<not> vc_compact v1" "length tags = n"
    "list_all2 (mac_valid (vc_delta v)) (map sub_embed (map2 (\<lambda>y mt. sub_authed_new (fp_from_i64 (sint y)) mt) os tags)) keys"
    using auth_row_keys [OF r(1,2) c(1) Cons.prems(3,5) lm] by blast
  obtain keys' v' where k': "verifier_rows chacha (ep_tensor_tag ep) n corr is v1 = Some (keys', v')" "twin s' v'"
    "list_all2 (mac_valid (vc_delta v1)) (map sub_embed rest) keys'"
    "map ps_x rest = concat (map (\<lambda>i. map (\<lambda>y. fp_from_i64 (sint y)) (the (slice (i * n) n out))) is)"
    using Cons.IH [OF r(4) _ k(2) m(2) k(4)] Cons.prems(2) by auto
  have "verifier_rows chacha (ep_tensor_tag ep) n corr (i # is) v = Some (keys @ keys', v')" using c(2) k(1) k'(1) by simp
  moreover have "list_all2 (mac_valid (vc_delta v)) (map sub_embed authed) (keys @ keys')"
    using k(6) k'(3) k(3) r(5) by (simp add: list_all2_appendI)
  moreover have "map ps_x authed = concat (map (\<lambda>i. map (\<lambda>y. fp_from_i64 (sint y)) (the (slice (i * n) n out))) (i # is))"
    using k'(4) r(3,5) c(1) k(5) by (auto simp: sub_authed_new_def intro!: nth_equalityI)
  ultimately show ?case using k'(2) by blast
qed simp

lemma concat_slices: "length xs = m * n \<Longrightarrow> concat (map (\<lambda>i. the (slice (i * n) n xs)) [0..<m]) = xs"
proof (induction m arbitrary: xs)
  case (Suc m)
  have "slice (i * n) n xs = slice (i * n) n (take (m * n) xs)" if "i < m" for i
  proof -
    have "Suc i * n \<le> m * n" using that by (intro mult_le_mono1) simp
    then show ?thesis using Suc.prems that by (simp add: slice_def drop_take min_def)
  qed
  then have e: "map (\<lambda>i. the (slice (i * n) n xs)) [0..<m] = map (\<lambda>i. the (slice (i * n) n (take (m * n) xs))) [0..<m]" by simp
  have "concat (map (\<lambda>i. the (slice (i * n) n xs)) [0..<m]) = take (m * n) xs" unfolding e using Suc.IH [of "take (m * n) xs"] Suc.prems by simp
  moreover have "the (slice (m * n) n xs) = drop (m * n) xs" using Suc.prems by (simp add: slice_def)
  ultimately show ?case by simp
qed simp

section \<open>Properties\<close>

text \<open>
  The accumulators are exact: for matrices of the asserted shapes with fewer than \<open>2 ^ 33\<close> inner
  columns, the product returns and every 64-bit accumulator, read as a signed number, is the integer
  inner product; no wrap-around happens.
\<close>

theorem gemm_exact:
  assumes "length a = m * k" "length b = k * n" "n \<noteq> 0" "k < 2 ^ 33"
  shows "\<exists>out. gemm_i64 a b m k n = Some out \<and> length out = m * n
    \<and> (\<forall>i < m. \<forall>j < n. sint (out ! (i * n + j)) = (\<Sum>l<k. sint (a ! (i * k + l)) * sint (b ! (l * n + j))))"
proof -
  obtain out where "gemm_i64 a b m k n = Some out" "length out = m * n"
    "\<forall>i < m. \<forall>j < n. out ! (i * n + j) = of_int (inner k (\<lambda>l. a ! (i * k + l)) (\<lambda>l. b ! (l * n + j)))"
    using gemm_i64_value [OF assms(1-3)] by blast
  then show ?thesis using inner_exact(2) [OF assms(4)] by (auto simp: inner_def)
qed

theorem gemm_exact_witness:
  "\<exists>out. gemm_i64 [1, - 2] [3, - 4] 1 2 1 = Some out \<and> sint (out ! 0) = 11"
proof -
  have "(\<Sum>l < (2 :: nat). f l) = f 0 + f 1" for f :: "nat \<Rightarrow> int" by (simp add: numeral_2_eq_2)
  then show ?thesis using gemm_exact [of "[1, - 2]" 1 2 "[3, - 4]" 1] by auto
qed

text \<open>
  C22. The fused kernel is the prover half of the authentication: its output is the native kernel's, and
  when the prover accounts for the masks and expands its tags, the verifier, given the corrections and a
  twin context of the same seed, returns keys that satisfy the MAC relation with every output entry.
\<close>

theorem epilogue_authenticates:
  assumes "gemm_requant_auth chacha a b m k n ep = Some (out, corr)"
    and "prover_tags_from_epilogue chacha (ep_tensor_tag ep) out m n s = Some (authed, s')"
    and "twin s v" "cs_backend s = PMock (ep_seed ep) al" "\<not> vc_compact v"
  shows "gemm_requant a b m k n (ep_shift ep) = Some out
    \<and> (\<exists>keys v'. auth_verifier_from_epilogue chacha (ep_tensor_tag ep) m n corr v = Some (keys, v') \<and> twin s' v'
        \<and> list_all2 (mac_valid (vc_delta v)) (map sub_embed authed) keys
        \<and> map ps_x authed = map (\<lambda>y. fp_from_i64 (sint y)) out)"
proof -
  have g: "length out = m * n" "length corr = m * n" "\<forall>i \<in> set [0..<m]. row_authenticated chacha ep n out corr i"
    "gemm_requant a b m k n (ep_shift ep) = Some out" using gemm_requant_auth_rows [OF assms(1)] by auto
  have p: "prover_rows chacha (ep_tensor_tag ep) n out [0..<m] s = Some (authed, s')"
    using assms(2) by (simp add: prover_tags_from_epilogue_def split: if_splits)
  obtain keys v' where k: "verifier_rows chacha (ep_tensor_tag ep) n corr [0..<m] v = Some (keys, v')" "twin s' v'"
    "list_all2 (mac_valid (vc_delta v)) (map sub_embed authed) keys"
    "map ps_x authed = concat (map (\<lambda>i. map (\<lambda>y. fp_from_i64 (sint y)) (the (slice (i * n) n out))) [0..<m])"
    using epilogue_rows [OF p g(3) assms(3-5)] by blast
  have "map ps_x authed = map (\<lambda>y. fp_from_i64 (sint y)) out"
    unfolding k(4) using arg_cong [OF concat_slices [OF g(1)], of "map (\<lambda>y. fp_from_i64 (sint y))"]
    by (simp add: map_concat comp_def)
  then show ?thesis using g(2,4) k by (simp add: auth_verifier_from_epilogue_def)
qed

definition demo_epilogue :: epilogue_spec where
  "demo_epilogue = \<lparr>ep_shift = 1, ep_seed = [], ep_tensor_tag = 0\<rparr>"

lemma demo_gemm_auth: "\<exists>y c. gemm_requant_auth demo_chacha [2] [3] 1 1 1 demo_epilogue = Some ([y], [c])"
proof -
  have w: "(5 :: u64) < P_u64" by (simp add: P_u64_def)
  have st: "fp_stream_domain_separated demo_chacha [] d = \<lparr>fs_word = (\<lambda>_. 5), fs_pos = 0\<rparr>" for d
    by (simp add: fp_stream_domain_separated_def demo_chacha_def fun_eq_iff)
  show ?thesis
    by (simp add: gemm_requant_auth_def slice_def gemm_row_def demo_epilogue_def st next_fp_accept w Let_def)
qed

theorem epilogue_authenticates_witness:
  "\<exists>out corr authed s' keys v'. gemm_requant_auth demo_chacha [2] [3] 1 1 1 demo_epilogue = Some (out, corr)
    \<and> prover_tags_from_epilogue demo_chacha 0 out 1 1 (correlation_stream_new []) = Some (authed, s')
    \<and> auth_verifier_from_epilogue demo_chacha 0 1 1 corr (verifier_ctx_new [] 3) = Some (keys, v')
    \<and> list_all2 (mac_valid 3) (map sub_embed authed) keys"
proof -
  obtain y c where g: "gemm_requant_auth demo_chacha [2] [3] 1 1 1 demo_epilogue = Some ([y], [c])" using demo_gemm_auth by blast
  have "validate_correlation_rows 0 1 1 = Some 1" by (simp add: validate_correlation_rows_def checked_add_def domain_bits)
  then obtain s' where "draw_sub_masks demo_chacha 0 1 (correlation_stream_new []) = Some (replicate 1 (fp_new 5), s')"
    "draw_sub_tags demo_chacha 0 1 s' = Some (replicate 1 (Fp2 (fp_new 5) (fp_new 5)))" using demo_draws [of 0 1] by auto
  then obtain authed where p: "prover_tags_from_epilogue demo_chacha (ep_tensor_tag demo_epilogue) [y] 1 1 (correlation_stream_new []) = Some (authed, s')"
    by (auto simp: prover_tags_from_epilogue_def demo_epilogue_def row_domain_def slice_def)
  have b: "cs_backend (correlation_stream_new []) = PMock (ep_seed demo_epilogue) (logical_allocation_new None)"
    by (simp add: correlation_stream_new_def demo_epilogue_def)
  have "vc_delta (verifier_ctx_new [] 3) = 3" "\<not> vc_compact (verifier_ctx_new [] 3)" "ep_tensor_tag demo_epilogue = 0"
    by (simp_all add: verifier_ctx_new_def demo_epilogue_def)
  then show ?thesis using epilogue_authenticates [OF g p twin_new b, of 3] g p by auto
qed

end
