(* ===== verification/Thaler.thy ===== *)
theory Thaler
  imports Gemm Blind
begin

text \<open>
  The reduction of a matrix product to a product sumcheck, \<^verbatim>\<open>volta-proto/src/thaler.rs\<close>: the three
  folding passes over the operands and the exact accumulators. The main result is the identity that
  the sumcheck proves: the inner product of the two folded operands is the folded product, for the
  accumulators that the kernel of \<^verbatim>\<open>gemm.rs\<close> computes.
\<close>

section \<open>The folding passes\<close>

text \<open>\<^verbatim>\<open>usize::next_power_of_two\<close>\<close>

function next_power_from :: "nat \<Rightarrow> nat \<Rightarrow> nat" where
  "next_power_from p x = (if x \<le> p \<or> p = 0 then p else next_power_from (2 * p) x)"
  by pat_completeness auto
termination by (relation "measure (\<lambda>(p, x). x - p)") auto

declare next_power_from.simps [simp del]

definition next_power_of_two :: "nat \<Rightarrow> nat" where
  "next_power_of_two x = next_power_from 1 x"

definition pad_bits :: "nat \<Rightarrow> nat" where
  "pad_bits x = trailing_zeros (next_power_of_two x)"

definition lift_i16 :: "i16 \<Rightarrow> fp" where
  "lift_i16 v = fp_from_i64 (sint v)"

definition fold_x_row :: "fp2 \<Rightarrow> i16 list \<Rightarrow> fp2 list \<Rightarrow> fp2 list" where
  "fold_x_row e row a =
     foldl (\<lambda>a l. if row ! l \<noteq> 0 then a[l := a ! l + fp2_mul_base e (lift_i16 (row ! l))] else a) a [0..<length row]"

definition fold_x :: "i16 list \<Rightarrow> nat \<Rightarrow> nat \<Rightarrow> fp2 list \<Rightarrow> fp2 list option" where
  "fold_x x m k eq_i =
     (if m \<le> length eq_i then
        fold_opt (\<lambda>i a. do { row \<leftarrow> slice (i * k) k x; Some (fold_x_row (eq_i ! i) row a) }) [0..<m]
          (replicate (next_power_of_two k) 0)
      else None)"

definition fold_w_row :: "fp2 list \<Rightarrow> i16 list \<Rightarrow> fp2" where
  "fold_w_row eq_j row =
     foldl (\<lambda>acc j. if row ! j \<noteq> 0 then acc + fp2_mul_base (eq_j ! j) (lift_i16 (row ! j)) else acc) 0 [0..<length row]"

definition fold_w :: "i16 list \<Rightarrow> nat \<Rightarrow> nat \<Rightarrow> fp2 list \<Rightarrow> fp2 list option" where
  "fold_w w k n eq_j =
     (if n \<le> length eq_j then
        fold_opt (\<lambda>l b. do { row \<leftarrow> slice (l * n) n w; Some (b[l := fold_w_row eq_j row]) }) [0..<k]
          (replicate (next_power_of_two k) 0)
      else None)"

definition fold_y_row :: "fp2 list \<Rightarrow> i64 list \<Rightarrow> fp2 option" where
  "fold_y_row eq_j row =
     fold_opt (\<lambda>j acc. do { e \<leftarrow> get eq_j j; Some (acc + fp2_mul_base e (fp_from_i64 (sint (row ! j)))) }) [0..<length row] 0"

definition fold_y_acc :: "i64 list \<Rightarrow> nat \<Rightarrow> nat \<Rightarrow> fp2 list \<Rightarrow> fp2 list \<Rightarrow> fp2 option" where
  "fold_y_acc y m n eq_i eq_j =
     fold_opt (\<lambda>i tot. do { row \<leftarrow> slice (i * n) n y;
                             acc \<leftarrow> fold_y_row eq_j row;
                             e \<leftarrow> get eq_i i;
                             Some (tot + e * acc) }) [0..<m] 0"

definition output_eqs :: "fp2 list \<Rightarrow> fp2 list \<Rightarrow> fp2 list \<times> fp2 list" where
  "output_eqs r_i r_j = (eq_vec r_i, eq_vec r_j)"

section \<open>Padding\<close>

lemma next_power_from_pow: "\<exists>j. next_power_from (2 ^ i) x = 2 ^ j \<and> x \<le> next_power_from (2 ^ i) x"
proof (induction "2 ^ i :: nat" x arbitrary: i rule: next_power_from.induct)
  case (1 x)
  show ?case
  proof (cases "x \<le> 2 ^ i")
    case False
    then show ?thesis using 1 [of "Suc i"] by (subst (1 2) next_power_from.simps) simp
  qed (auto simp: next_power_from.simps)
qed

lemma next_power_of_two_pad: "next_power_of_two x = 2 ^ pad_bits x" "x \<le> next_power_of_two x"
  using next_power_from_pow [of 0 x] by (auto simp: next_power_of_two_def pad_bits_def)

section \<open>What the passes compute\<close>

definition phi :: "int \<Rightarrow> fp2" where
  "phi z = fp2_from_base (of_int z)"

lemma phi_hom: "phi 0 = 0" "phi (a + b) = phi a + phi b" "phi (a * b) = phi a * phi b"
  by (simp_all add: phi_def)

lemma phi_sum: "phi (\<Sum>i\<in>A. f i) = (\<Sum>i\<in>A. phi (f i))"
  by (induction A rule: infinite_finite_induct) (simp_all add: phi_hom)

lemma lift_i16_phi: "fp2_mul_base e (lift_i16 v) = e * phi (sint v)"
proof -
  have "- (2 ^ 63) \<le> sint v" "sint v < 2 ^ 63" using sint_lt [of v] sint_ge [of v] by simp_all
  then show ?thesis by (simp add: lift_i16_def fp_from_i64_of_int fp2_mul_base_eq phi_def)
qed

lemma fold_x_row_value:
  assumes "length row \<le> length a"
  shows "length (fold_x_row e row a) = length a
    \<and> (\<forall>l < length a. fold_x_row e row a ! l = a ! l + (if l < length row then e * phi (sint (row ! l)) else 0))"
proof -
  let ?f = "\<lambda>a l. if row ! l \<noteq> 0 then a[l := a ! l + fp2_mul_base e (lift_i16 (row ! l))] else a"
  have "length (foldl ?f a [0..<n]) = length a
      \<and> (\<forall>l < length a. foldl ?f a [0..<n] ! l = a ! l + (if l < n then e * phi (sint (row ! l)) else 0))"
    if "n \<le> length a" for n
    using that
  proof (induction n)
    case (Suc n)
    then show ?case by (auto simp: lift_i16_phi nth_list_update phi_hom less_Suc_eq)
  qed simp
  then show ?thesis using assms unfolding fold_x_row_def by blast
qed

lemma fold_w_row_value: "fold_w_row eq_j row = (\<Sum>j<length row. eq_j ! j * phi (sint (row ! j)))"
proof -
  have "foldl (\<lambda>acc j. if row ! j \<noteq> 0 then acc + fp2_mul_base (eq_j ! j) (lift_i16 (row ! j)) else acc) 0 [0..<n]
      = (\<Sum>j<n. eq_j ! j * phi (sint (row ! j)))" for n
    by (induction n) (auto simp: lift_i16_phi phi_hom)
  then show ?thesis unfolding fold_w_row_def .
qed

lemma fold_x_value:
  assumes "length x = m * k" "m \<le> length eq_i"
  shows "\<exists>A. fold_x x m k eq_i = Some A \<and> length A = 2 ^ pad_bits k
    \<and> (\<forall>l < 2 ^ pad_bits k. A ! l = (if l < k then \<Sum>i<m. eq_i ! i * phi (sint (x ! (i * k + l))) else 0))"
proof -
  let ?N = "next_power_of_two k"
  let ?I = "\<lambda>n A. length A = ?N \<and> (\<forall>l < ?N. A ! l = (if l < k then \<Sum>i<n. eq_i ! i * phi (sint (x ! (i * k + l))) else 0))"
  have "\<exists>A. fold_opt (\<lambda>i a. do { row \<leftarrow> slice (i * k) k x; Some (fold_x_row (eq_i ! i) row a) }) [0..<m] (replicate ?N 0) = Some A
      \<and> ?I (length [0..<m]) A"
  proof (rule fold_opt_invariant)
    show "?I 0 (replicate ?N 0)" by simp
    fix n A
    assume n: "n < length [0..<m]" and I: "?I n A"
    have sl: "slice (n * k) k x = Some (map (\<lambda>l. x ! (n * k + l)) [0..<k])"
      using slice_row [of n m x k] n assms(1) by simp
    show "\<exists>A'. (do { row \<leftarrow> slice ([0..<m] ! n * k) k x; Some (fold_x_row (eq_i ! ([0..<m] ! n)) row A) }) = Some A' \<and> ?I (Suc n) A'"
      using fold_x_row_value [of "map (\<lambda>l. x ! (n * k + l)) [0..<k]" A "eq_i ! n"] I n sl next_power_of_two_pad(2) [of k] by simp
  qed
  then show ?thesis unfolding fold_x_def if_P [OF assms(2)] next_power_of_two_pad(1) length_upt diff_zero .
qed

lemma fold_w_value:
  assumes "length w = k * n" "n \<le> length eq_j"
  shows "\<exists>B. fold_w w k n eq_j = Some B \<and> length B = 2 ^ pad_bits k
    \<and> (\<forall>l < 2 ^ pad_bits k. B ! l = (if l < k then \<Sum>j<n. eq_j ! j * phi (sint (w ! (l * n + j))) else 0))"
proof -
  let ?N = "next_power_of_two k"
  let ?I = "\<lambda>c B. length B = ?N \<and> (\<forall>l < ?N. B ! l = (if l < c then \<Sum>j<n. eq_j ! j * phi (sint (w ! (l * n + j))) else 0))"
  have "\<exists>B. fold_opt (\<lambda>l b. do { row \<leftarrow> slice (l * n) n w; Some (b[l := fold_w_row eq_j row]) }) [0..<k] (replicate ?N 0) = Some B
      \<and> ?I (length [0..<k]) B"
  proof (rule fold_opt_invariant)
    show "?I 0 (replicate ?N 0)" by simp
    fix c B
    assume c: "c < length [0..<k]" and I: "?I c B"
    have sl: "slice (c * n) n w = Some (map (\<lambda>j. w ! (c * n + j)) [0..<n])"
      using slice_row [of c k w n] c assms(1) by simp
    have "c < ?N" using c next_power_of_two_pad(2) [of k] by simp
    then show "\<exists>B'. (do { row \<leftarrow> slice ([0..<k] ! c * n) n w; Some (B[[0..<k] ! c := fold_w_row eq_j row]) }) = Some B' \<and> ?I (Suc c) B'"
      using I c sl by (auto simp: fold_w_row_value nth_list_update less_Suc_eq)
  qed
  then show ?thesis unfolding fold_w_def if_P [OF assms(2)] next_power_of_two_pad(1) length_upt diff_zero .
qed

lemma fold_y_row_value:
  assumes "length row \<le> length eq_j"
  shows "fold_y_row eq_j row = Some (\<Sum>j<length row. eq_j ! j * phi (sint (row ! j)))"
proof -
  have s: "fp_from_i64 (sint v) = of_int (sint v)" for v :: i64
    using sint_lt [of v] sint_ge [of v] by (intro fp_from_i64_of_int) simp_all
  have "\<exists>a. fold_opt (\<lambda>j acc. do { e \<leftarrow> get eq_j j; Some (acc + fp2_mul_base e (fp_from_i64 (sint (row ! j)))) }) [0..<length row] 0 = Some a
      \<and> a = (\<Sum>j<length [0..<length row]. eq_j ! j * phi (sint (row ! j)))"
    using assms by (intro fold_opt_invariant [of "\<lambda>c a. a = (\<Sum>j<c. eq_j ! j * phi (sint (row ! j)))"])
      (auto simp: s fp2_mul_base_eq phi_def)
  then show ?thesis by (simp add: fold_y_row_def)
qed

lemma fold_y_acc_value:
  assumes "length y = m * n" "m \<le> length eq_i" "n \<le> length eq_j"
  shows "fold_y_acc y m n eq_i eq_j = Some (\<Sum>i<m. eq_i ! i * (\<Sum>j<n. eq_j ! j * phi (sint (y ! (i * n + j)))))"
proof -
  have sl: "slice (c * n) n y = Some (map (\<lambda>j. y ! (c * n + j)) [0..<n])" if "c < m" for c
    using slice_row [of c m y n] that assms(1) by simp
  have "\<exists>a. fold_opt (\<lambda>i tot. do { row \<leftarrow> slice (i * n) n y; acc \<leftarrow> fold_y_row eq_j row; e \<leftarrow> get eq_i i; Some (tot + e * acc) }) [0..<m] 0 = Some a
      \<and> a = (\<Sum>i<length [0..<m]. eq_i ! i * (\<Sum>j<n. eq_j ! j * phi (sint (y ! (i * n + j)))))"
    using assms by (intro fold_opt_invariant [of "\<lambda>c a. a = (\<Sum>i<c. eq_i ! i * (\<Sum>j<n. eq_j ! j * phi (sint (y ! (i * n + j)))))"])
      (auto simp: sl fold_y_row_value)
  then show ?thesis by (simp add: fold_y_acc_def)
qed

section \<open>The identity of the matrix product\<close>

lemma contract_swap:
  fixes E F :: "nat \<Rightarrow> fp2"
  shows "(\<Sum>l<k. (\<Sum>i<m. E i * X i l) * (\<Sum>j<n. F j * V l j)) = (\<Sum>i<m. E i * (\<Sum>j<n. F j * (\<Sum>l<k. X i l * V l j)))"
proof -
  have "(\<Sum>l<k. (\<Sum>i<m. E i * X i l) * (\<Sum>j<n. F j * V l j)) = (\<Sum>l<k. \<Sum>i<m. \<Sum>j<n. E i * F j * (X i l * V l j))"
    by (simp add: sum_product algebra_simps)
  also have "\<dots> = (\<Sum>i<m. \<Sum>l<k. \<Sum>j<n. E i * F j * (X i l * V l j))" by (rule sum.swap)
  also have "\<dots> = (\<Sum>i<m. \<Sum>j<n. \<Sum>l<k. E i * F j * (X i l * V l j))" by (intro sum.cong refl sum.swap)
  also have "\<dots> = (\<Sum>i<m. E i * (\<Sum>j<n. F j * (\<Sum>l<k. X i l * V l j)))" by (simp add: sum_distrib_left algebra_simps)
  finally show ?thesis .
qed

lemma matrix_product_folds:
  assumes "length x = m * k" "length w = k * n" "n \<noteq> 0" "k < 2 ^ 33" "m \<le> length eq_i" "n \<le> length eq_j"
  shows "\<exists>y A B Y. gemm_i64 x w m k n = Some y \<and> fold_x x m k eq_i = Some A \<and> fold_w w k n eq_j = Some B
    \<and> fold_y_acc y m n eq_i eq_j = Some Y \<and> length A = 2 ^ pad_bits k \<and> length B = 2 ^ pad_bits k
    \<and> dot (2 ^ pad_bits k) A B = Y"
proof -
  obtain y where y: "gemm_i64 x w m k n = Some y" "length y = m * n"
    "\<And>i j. i < m \<Longrightarrow> j < n \<Longrightarrow> y ! (i * n + j) = of_int (inner k (\<lambda>l. x ! (i * k + l)) (\<lambda>l. w ! (l * n + j)))"
    using gemm_i64_value [OF assms(1-3)] by blast
  obtain A where A: "fold_x x m k eq_i = Some A" "length A = 2 ^ pad_bits k"
    "\<And>l. l < 2 ^ pad_bits k \<Longrightarrow> A ! l = (if l < k then \<Sum>i<m. eq_i ! i * phi (sint (x ! (i * k + l))) else 0)"
    using fold_x_value [OF assms(1,5)] by blast
  obtain B where B: "fold_w w k n eq_j = Some B" "length B = 2 ^ pad_bits k"
    "\<And>l. l < 2 ^ pad_bits k \<Longrightarrow> B ! l = (if l < k then \<Sum>j<n. eq_j ! j * phi (sint (w ! (l * n + j))) else 0)"
    using fold_w_value [OF assms(2,6)] by blast
  have e: "phi (sint (y ! (i * n + j))) = (\<Sum>l<k. phi (sint (x ! (i * k + l))) * phi (sint (w ! (l * n + j))))" if "i < m" "j < n" for i j
    unfolding y(3) [OF that] inner_exact(2) [OF assms(4)] by (simp add: inner_def phi_sum phi_hom)
  have kp: "k \<le> 2 ^ pad_bits k" using next_power_of_two_pad [of k] by simp
  have "dot (2 ^ pad_bits k) A B = (\<Sum>l<k. A ! l * B ! l)"
    unfolding dot_def using kp by (intro sum.mono_neutral_right) (auto simp: A(3) B(3))
  also have "\<dots> = (\<Sum>l<k. (\<Sum>i<m. eq_i ! i * phi (sint (x ! (i * k + l)))) * (\<Sum>j<n. eq_j ! j * phi (sint (w ! (l * n + j)))))"
    using kp by (intro sum.cong refl) (simp add: A(3) B(3))
  also have "\<dots> = (\<Sum>i<m. eq_i ! i * (\<Sum>j<n. eq_j ! j * phi (sint (y ! (i * n + j)))))"
    unfolding contract_swap by (intro sum.cong refl arg_cong2 [of _ _ _ _ "(*)"]) (simp add: e)
  finally show ?thesis using y(1,2) A(1,2) B(1,2) fold_y_acc_value [OF y(2) assms(5,6)] by blast
qed

text \<open>C19. Folding both operands of a matrix product and taking the inner product of the two padded
  tables gives the folded accumulators of the native kernel: the claim of the reduction holds for every
  product the kernel computes, with any row and column weights, as long as the accumulators do not wrap.\<close>

theorem thaler_identity:
  assumes "length x = m * k" "length w = k * n" "n \<noteq> 0" "k < 2 ^ 33" "m \<le> length eq_i" "n \<le> length eq_j"
  shows "\<exists>y A B Y. gemm_i64 x w m k n = Some y \<and> fold_x x m k eq_i = Some A \<and> fold_w w k n eq_j = Some B
    \<and> fold_y_acc y m n eq_i eq_j = Some Y \<and> length A = 2 ^ pad_bits k \<and> length B = 2 ^ pad_bits k
    \<and> dot (2 ^ pad_bits k) A B = Y"
  by (rule matrix_product_folds [OF assms])

theorem thaler_identity_witness:
  "\<exists>y A B Y. gemm_i64 [1, 2, - 3] [4, 5, 6] 1 3 1 = Some y \<and> fold_x [1, 2, - 3] 1 3 [7] = Some A \<and> fold_w [4, 5, 6] 3 1 [8] = Some B
    \<and> fold_y_acc y 1 1 [7] [8] = Some Y \<and> length A = 2 ^ pad_bits 3 \<and> length B = 2 ^ pad_bits 3
    \<and> dot (2 ^ pad_bits 3) A B = Y"
  by (rule thaler_identity) simp_all

end
