(* ===== verification/Wires.thy ===== *)
theory Wires
  imports Mac "HOL-Library.AList"
begin

text \<open>
  The wire-claim ledgers of \<^verbatim>\<open>volta-proto/src/wires.rs\<close>: the prover's \<^verbatim>\<open>ClaimLedger\<close> and the verifier's
  \<^verbatim>\<open>KeyLedger\<close>. A \<^verbatim>\<open>BTreeMap\<close> is an association list; its order is never observed. The interface of a
  ledger is a locale; both ledgers are interpretations of it, and the conservation law of claims is
  proved once for both.
\<close>

section \<open>The two ledgers\<close>

record wire_id =
  wi_layer :: u8
  wi_name :: string

record wire_claim_p =
  wp_point :: "fp2 list"
  wp_value :: prover_authed

record wire_claim_v =
  wv_point :: "fp2 list"
  wv_key :: verifier_key

text \<open>\<^verbatim>\<open>entry(wire).or_default().push(c)\<close> and \<^verbatim>\<open>remove(&wire).unwrap_or_default()\<close>\<close>

definition entry_push :: "'k \<Rightarrow> 'c \<Rightarrow> ('k \<times> 'c list) list \<Rightarrow> ('k \<times> 'c list) list" where
  "entry_push w c m = AList.update w ((case map_of m w of None \<Rightarrow> [] | Some cs \<Rightarrow> cs) @ [c]) m"

definition entry_remove :: "'k \<Rightarrow> ('k \<times> 'c list) list \<Rightarrow> 'c list \<times> ('k \<times> 'c list) list" where
  "entry_remove w m = ((case map_of m w of None \<Rightarrow> [] | Some cs \<Rightarrow> cs), AList.delete w m)"

record claim_ledger =
  cl_claims :: "(wire_id \<times> wire_claim_p list) list"

definition claim_ledger_new :: claim_ledger where
  "claim_ledger_new = \<lparr>cl_claims = []\<rparr>"

definition claim_push :: "wire_id \<Rightarrow> fp2 list \<Rightarrow> prover_authed \<Rightarrow> claim_ledger \<Rightarrow> claim_ledger" where
  "claim_push wire point value l = l\<lparr>cl_claims := entry_push wire \<lparr>wp_point = point, wp_value = value\<rparr> (cl_claims l)\<rparr>"

definition claim_drain :: "wire_id \<Rightarrow> claim_ledger \<Rightarrow> wire_claim_p list \<times> claim_ledger" where
  "claim_drain wire l = (let (cs, m) = entry_remove wire (cl_claims l) in (cs, l\<lparr>cl_claims := m\<rparr>))"

definition claim_pending :: "wire_id \<Rightarrow> claim_ledger \<Rightarrow> nat" where
  "claim_pending wire l = (case map_of (cl_claims l) wire of None \<Rightarrow> 0 | Some v \<Rightarrow> length v)"

text \<open>The prover's structural check panics on an undrained wire.\<close>

definition claim_finish :: "claim_ledger \<Rightarrow> unit option" where
  "claim_finish l = (if find (\<lambda>(w, v). v \<noteq> []) (cl_claims l) \<noteq> None then None else Some ())"

record key_ledger =
  kl_claims :: "(wire_id \<times> wire_claim_v list) list"

definition key_ledger_new :: key_ledger where
  "key_ledger_new = \<lparr>kl_claims = []\<rparr>"

definition key_push :: "wire_id \<Rightarrow> fp2 list \<Rightarrow> verifier_key \<Rightarrow> key_ledger \<Rightarrow> key_ledger" where
  "key_push wire point key l = l\<lparr>kl_claims := entry_push wire \<lparr>wv_point = point, wv_key = key\<rparr> (kl_claims l)\<rparr>"

definition key_drain :: "wire_id \<Rightarrow> key_ledger \<Rightarrow> wire_claim_v list \<times> key_ledger" where
  "key_drain wire l = (let (cs, m) = entry_remove wire (kl_claims l) in (cs, l\<lparr>kl_claims := m\<rparr>))"

definition key_finish :: "key_ledger \<Rightarrow> bool" where
  "key_finish l = list_all (\<lambda>(w, v). v = []) (kl_claims l)"

section \<open>The contract of a ledger\<close>

datatype ('w, 'c) wire_op = WPush 'w 'c | WDrain 'w

text \<open>A sequence of pushes and drains, with what the drains return.\<close>

fun wire_run ::
  "('w \<Rightarrow> 'c \<Rightarrow> 'l \<Rightarrow> 'l) \<Rightarrow> ('w \<Rightarrow> 'l \<Rightarrow> 'c list \<times> 'l) \<Rightarrow> ('w, 'c) wire_op list \<Rightarrow> 'l \<Rightarrow> ('w \<times> 'c list) list \<times> 'l" where
  "wire_run push drain [] l = ([], l)"
| "wire_run push drain (WPush w c # ops) l = wire_run push drain ops (push w c l)"
| "wire_run push drain (WDrain w # ops) l =
     (let (cs, l) = drain w l; (out, l) = wire_run push drain ops l in ((w, cs) # out, l))"

text \<open>What a run pushes on a wire, and what its drains of that wire return.\<close>

fun pushed :: "'w \<Rightarrow> ('w, 'c) wire_op list \<Rightarrow> 'c list" where
  "pushed w [] = []"
| "pushed w (WPush w' c # ops) = (if w' = w then c # pushed w ops else pushed w ops)"
| "pushed w (WDrain w' # ops) = pushed w ops"

definition drained :: "'w \<Rightarrow> ('w \<times> 'c list) list \<Rightarrow> 'c list" where
  "drained w out = concat (map snd (filter (\<lambda>(w', cs). w' = w) out))"

locale wire_ledger =
  fixes new :: 'l and push :: "'w \<Rightarrow> 'c \<Rightarrow> 'l \<Rightarrow> 'l" and drain :: "'w \<Rightarrow> 'l \<Rightarrow> 'c list \<times> 'l"
    and finished :: "'l \<Rightarrow> bool" and inv :: "'l \<Rightarrow> bool" and claims :: "'l \<Rightarrow> 'w \<Rightarrow> 'c list"
  assumes inv_new: "inv new" and claims_new: "claims new w = []"
    and inv_push: "inv l \<Longrightarrow> inv (push w c l)"
    and claims_push: "inv l \<Longrightarrow> claims (push w c l) = (claims l)(w := claims l w @ [c])"
    and inv_drain: "inv l \<Longrightarrow> inv (snd (drain w l))"
    and claims_drain: "inv l \<Longrightarrow> fst (drain w l) = claims l w \<and> claims (snd (drain w l)) = (claims l)(w := [])"
    and finished_iff: "inv l \<Longrightarrow> finished l \<longleftrightarrow> (\<forall>w. claims l w = [])"
begin

abbreviation run :: "('w, 'c) wire_op list \<Rightarrow> 'l \<Rightarrow> ('w \<times> 'c list) list \<times> 'l" where
  "run \<equiv> wire_run push drain"

lemma run_inv: "inv l \<Longrightarrow> inv (snd (run ops l))"
proof (induction ops arbitrary: l)
  case (Cons op ops)
  then show ?case using inv_push inv_drain by (cases op) (fastforce simp: case_prod_beta Let_def)+
qed simp

lemma run_conserves: "inv l \<Longrightarrow> drained w (fst (run ops l)) @ claims (snd (run ops l)) w = claims l w @ pushed w ops"
proof (induction ops arbitrary: l)
  case (Cons op ops)
  show ?case
  proof (cases op)
    case (WPush w' c)
    then show ?thesis using Cons.IH [OF inv_push [OF Cons.prems, of w' c]] claims_push [OF Cons.prems] by simp
  next
    case (WDrain w')
    obtain cs l1 where d: "drain w' l = (cs, l1)" by fastforce
    obtain out l2 where r: "run ops l1 = (out, l2)" by fastforce
    have c: "cs = claims l w'" "claims l1 = (claims l)(w' := [])" "inv l1"
      using claims_drain [OF Cons.prems, of w'] inv_drain [OF Cons.prems, of w'] d by simp_all
    have "drained w out @ claims l2 w = claims l1 w @ pushed w ops" using Cons.IH [OF c(3)] r by simp
    then show ?thesis using WDrain d r c(1,2) by (auto simp: drained_def)
  qed
qed (simp add: drained_def)

lemma run_complete:
  "(\<forall>w. drained w (fst (run ops new)) = pushed w ops) \<longleftrightarrow> finished (snd (run ops new))"
proof -
  have "drained w (fst (run ops new)) @ claims (snd (run ops new)) w = pushed w ops" for w
    using run_conserves [OF inv_new, of w ops] by (simp add: claims_new)
  then show ?thesis using finished_iff [OF run_inv [OF inv_new, of ops]] by (metis append_Nil2 append_self_conv)
qed

end

text \<open>
  Two ledgers side by side: when their operations match step by step and the pushed claims are
  related, so are the drained ones, and the ledgers are finished together.
\<close>

locale wire_mirror =
  P: wire_ledger p_new p_push p_drain p_finished p_inv p_claims + V: wire_ledger v_new v_push v_drain v_finished v_inv v_claims
  for p_new :: 'p and p_push :: "'w \<Rightarrow> 'a \<Rightarrow> 'p \<Rightarrow> 'p" and p_drain p_finished p_inv p_claims
    and v_new :: 'v and v_push :: "'w \<Rightarrow> 'b \<Rightarrow> 'v \<Rightarrow> 'v" and v_drain v_finished v_inv v_claims +
  fixes related :: "'d \<Rightarrow> 'a \<Rightarrow> 'b \<Rightarrow> bool"
begin

definition mirrored :: "'d \<Rightarrow> 'p \<Rightarrow> 'v \<Rightarrow> bool" where
  "mirrored d l k \<longleftrightarrow> p_inv l \<and> v_inv k \<and> (\<forall>w. list_all2 (related d) (p_claims l w) (v_claims k w))"

lemma mirrored_push: "mirrored d l k \<Longrightarrow> related d c e \<Longrightarrow> mirrored d (p_push w c l) (v_push w e k)"
  by (auto simp: mirrored_def P.inv_push V.inv_push P.claims_push V.claims_push intro!: list_all2_appendI)

lemma mirrored_drain:
  "mirrored d l k \<Longrightarrow> mirrored d (snd (p_drain w l)) (snd (v_drain w k)) \<and> list_all2 (related d) (fst (p_drain w l)) (fst (v_drain w k))"
  using P.claims_drain [of l w] V.claims_drain [of k w] by (auto simp: mirrored_def P.inv_drain V.inv_drain)

lemma run_mirrored:
  assumes "list_all2 (rel_wire_op (=) (related d)) ops kops" "mirrored d l k"
  shows "list_all2 (rel_prod (=) (list_all2 (related d))) (fst (P.run ops l)) (fst (V.run kops k)) \<and> mirrored d (snd (P.run ops l)) (snd (V.run kops k))"
  using assms
proof (induction arbitrary: l k rule: list_all2_induct)
  case (Cons op ops kop kops)
  show ?case
  proof (cases op)
    case (WPush w c)
    then obtain e where "kop = WPush w e" "related d c e" using Cons.hyps(1) by (cases kop) auto
    then show ?thesis using WPush Cons.IH [OF mirrored_push [OF Cons.prems]] by simp
  next
    case (WDrain w)
    then have "kop = WDrain w" using Cons.hyps(1) by (cases kop) auto
    then show ?thesis using WDrain mirrored_drain [OF Cons.prems, of w] Cons.IH [of "snd (p_drain w l)" "snd (v_drain w k)"]
      by (simp add: case_prod_beta Let_def)
  qed
qed simp

lemma mirrored_new: "mirrored d p_new v_new"
  by (simp add: mirrored_def P.inv_new V.inv_new P.claims_new V.claims_new)

lemma mirrored_finished: "mirrored d l k \<Longrightarrow> p_finished l \<longleftrightarrow> v_finished k"
  using P.finished_iff [of l] V.finished_iff [of k] unfolding mirrored_def by (metis list_all2_Nil list_all2_Nil2)

end

section \<open>Both ledgers meet the contract\<close>

definition book :: "('k \<times> 'c list) list \<Rightarrow> 'k \<Rightarrow> 'c list" where
  "book m w = (case map_of m w of None \<Rightarrow> [] | Some cs \<Rightarrow> cs)"

lemma book_push: "book (entry_push w c m) = (book m)(w := book m w @ [c])"
  by (auto simp: book_def entry_push_def update_conv')

lemma book_remove: "fst (entry_remove w m) = book m w" "book (snd (entry_remove w m)) = (book m)(w := [])"
  by (auto simp: book_def entry_remove_def delete_conv')

lemma distinct_keys_push: "distinct (map fst m) \<Longrightarrow> distinct (map fst (entry_push w c m))"
  by (simp add: entry_push_def distinct_update)

lemma distinct_keys_remove: "distinct (map fst m) \<Longrightarrow> distinct (map fst (snd (entry_remove w m)))"
  by (simp add: entry_remove_def distinct_delete)

lemma book_empty: "distinct (map fst m) \<Longrightarrow> (\<forall>(w, v) \<in> set m. v = []) \<longleftrightarrow> (\<forall>w. book m w = [])"
  by (fastforce simp: book_def split: option.splits dest: map_of_SomeD)

definition claim_push_op :: "wire_id \<Rightarrow> wire_claim_p \<Rightarrow> claim_ledger \<Rightarrow> claim_ledger" where
  "claim_push_op w c = claim_push w (wp_point c) (wp_value c)"

definition key_push_op :: "wire_id \<Rightarrow> wire_claim_v \<Rightarrow> key_ledger \<Rightarrow> key_ledger" where
  "key_push_op w c = key_push w (wv_point c) (wv_key c)"

interpretation claim_book: wire_ledger claim_ledger_new claim_push_op claim_drain "\<lambda>l. claim_finish l = Some ()"
  "\<lambda>l. distinct (map fst (cl_claims l))" "\<lambda>l. book (cl_claims l)"
proof unfold_locales
  fix l :: claim_ledger assume "distinct (map fst (cl_claims l))"
  then have "(\<forall>(w, v) \<in> set (cl_claims l). v = []) \<longleftrightarrow> (\<forall>w. book (cl_claims l) w = [])" by (rule book_empty)
  moreover have "find (\<lambda>(w, v). v \<noteq> []) (cl_claims l) = None \<longleftrightarrow> (\<forall>(w, v) \<in> set (cl_claims l). v = [])" by (auto simp: find_None_iff)
  ultimately show "(claim_finish l = Some ()) \<longleftrightarrow> (\<forall>w. book (cl_claims l) w = [])" by (simp add: claim_finish_def)
qed (auto simp: claim_ledger_new_def claim_push_op_def claim_push_def claim_drain_def book_push book_remove
    distinct_keys_push distinct_keys_remove case_prod_beta Let_def book_def [of "[]"])

interpretation key_book: wire_ledger key_ledger_new key_push_op key_drain key_finish
  "\<lambda>l. distinct (map fst (kl_claims l))" "\<lambda>l. book (kl_claims l)"
proof unfold_locales
  fix l :: key_ledger assume "distinct (map fst (kl_claims l))"
  then show "key_finish l \<longleftrightarrow> (\<forall>w. book (kl_claims l) w = [])"
    using book_empty [of "kl_claims l"] by (simp add: key_finish_def list_all_iff)
qed (auto simp: key_ledger_new_def key_push_op_def key_push_def key_drain_def book_push book_remove
    distinct_keys_push distinct_keys_remove case_prod_beta Let_def book_def [of "[]"])

text \<open>A claim and a key belong together: the same point, and the MAC relation.\<close>

definition claim_matches :: "fp2 \<Rightarrow> wire_claim_p \<Rightarrow> wire_claim_v \<Rightarrow> bool" where
  "claim_matches delta c k \<longleftrightarrow> wp_point c = wv_point k \<and> mac_valid delta (wp_value c) (wv_key k)"

interpretation ledger_pair: wire_mirror claim_ledger_new claim_push_op claim_drain "\<lambda>l. claim_finish l = Some ()"
  "\<lambda>l. distinct (map fst (cl_claims l))" "\<lambda>l. book (cl_claims l)"
  key_ledger_new key_push_op key_drain key_finish "\<lambda>l. distinct (map fst (kl_claims l))" "\<lambda>l. book (kl_claims l)" claim_matches
  by unfold_locales

text \<open>C37. The prover's ledger neither loses nor invents claims: over any sequence of pushes and drains,
  what the drains of a wire returned followed by what is still pending is exactly what was pushed on
  it, in order; the final structural check passes exactly when every push was drained.\<close>

theorem wire_claims_conserved:
  "(let (out, l) = wire_run claim_push_op claim_drain ops claim_ledger_new
    in (\<forall>w. drained w out @ book (cl_claims l) w = pushed w ops)
       \<and> (claim_finish l = Some () \<longleftrightarrow> (\<forall>w. drained w out = pushed w ops)))"
proof -
  obtain out l where r: "wire_run claim_push_op claim_drain ops claim_ledger_new = (out, l)" by fastforce
  have "drained w out @ book (cl_claims l) w = pushed w ops" for w
    using claim_book.run_conserves [OF claim_book.inv_new, of w ops] r claim_book.claims_new by simp
  moreover have "claim_finish l = Some () \<longleftrightarrow> (\<forall>w. drained w out = pushed w ops)"
    using claim_book.run_complete [of ops] r by simp
  ultimately show ?thesis using r by simp
qed

text \<open>The verifier's ledger mirrors the prover's: when both sides perform matching operations and
  every pushed key belongs to the pushed claim, every drain returns keys that belong to the drained
  claims, and the two final checks agree.\<close>

theorem wire_ledgers_mirror:
  assumes "list_all2 (rel_wire_op (=) (claim_matches delta)) ops kops"
  shows "let (out, l) = wire_run claim_push_op claim_drain ops claim_ledger_new;
             (kout, k) = wire_run key_push_op key_drain kops key_ledger_new
         in list_all2 (rel_prod (=) (list_all2 (claim_matches delta))) out kout \<and> (claim_finish l = Some () \<longleftrightarrow> key_finish k)"
  using ledger_pair.run_mirrored [OF assms ledger_pair.mirrored_new] ledger_pair.mirrored_finished by (fastforce simp: case_prod_beta Let_def)

theorem wire_ledgers_mirror_witness:
  "let ops = [WPush \<lparr>wi_layer = 0, wi_name = ''x''\<rparr> \<lparr>wp_point = [5], wp_value = \<lparr>pa_x = 2, pa_m = 1\<rparr>\<rparr>, WDrain \<lparr>wi_layer = 0, wi_name = ''x''\<rparr>];
       kops = [WPush \<lparr>wi_layer = 0, wi_name = ''x''\<rparr> \<lparr>wv_point = [5], wv_key = \<lparr>vk_k = 1 + 3 * 2\<rparr>\<rparr>, WDrain \<lparr>wi_layer = 0, wi_name = ''x''\<rparr>];
       (out, l) = wire_run claim_push_op claim_drain ops claim_ledger_new;
       (kout, k) = wire_run key_push_op key_drain kops key_ledger_new
   in list_all2 (rel_prod (=) (list_all2 (claim_matches 3))) out kout \<and> (claim_finish l = Some () \<longleftrightarrow> key_finish k)"
  unfolding Let_def by (rule wire_ledgers_mirror [unfolded Let_def]) (simp add: claim_matches_def mac_valid_def)

end
