(* ===== verification/Schedule.thy ===== *)
theory Schedule
  imports Hadamard "HOL-Library.Product_Lexorder" "HOL-Library.Multiset"
begin

text \<open>
  The public round schedule, \<^verbatim>\<open>volta-proto/src/schedule.rs\<close>: packed site identifiers, the construction of
  a sealed plan with all its checks, and the membership check. An accepted plan gives every site its own
  correlation domains below the reserved bits, splits them exactly among the roles, lays the mailboxes of
  every epoch out without gap or overlap, and does not depend on the order in which sites were listed.
\<close>

section \<open>Identifiers\<close>

definition SCHEDULE_VERSION :: u8 where "SCHEDULE_VERSION = 1"

datatype round_family = BlindProduct | HadamardTriple | LogupGeneral | LogupAux | LogupRoot | LogupSplit

fun family_byte :: "round_family \<Rightarrow> u8" where
  "family_byte BlindProduct = 1"
| "family_byte HadamardTriple = 2"
| "family_byte LogupGeneral = 3"
| "family_byte LogupAux = 4"
| "family_byte LogupRoot = 5"
| "family_byte LogupSplit = 6"

fun family_width :: "round_family \<Rightarrow> nat" where
  "family_width BlindProduct = 2"
| "family_width HadamardTriple = 3"
| "family_width LogupAux = 3"
| "family_width LogupGeneral = 4"
| "family_width LogupSplit = 4"
| "family_width LogupRoot = 2"

definition family_from_u8 :: "u8 \<Rightarrow> round_family option" where
  "family_from_u8 v =
     (if v = 1 then Some BlindProduct else if v = 2 then Some HadamardTriple else if v = 3 then Some LogupGeneral
      else if v = 4 then Some LogupAux else if v = 5 then Some LogupRoot else if v = 6 then Some LogupSplit else None)"

type_synonym site_id = u64

definition site_new :: "u16 \<Rightarrow> round_family \<Rightarrow> u32 \<Rightarrow> site_id" where
  "site_new section' family lane =
     push_bit 56 (ucast SCHEDULE_VERSION) OR push_bit 40 (ucast section') OR push_bit 32 (ucast (family_byte family)) OR ucast lane"

definition site_version :: "site_id \<Rightarrow> u8" where "site_version s = ucast (drop_bit 56 s)"
definition site_section :: "site_id \<Rightarrow> u16" where "site_section s = ucast (drop_bit 40 s AND 0xffff)"
definition site_family :: "site_id \<Rightarrow> round_family option" where "site_family s = family_from_u8 (ucast (drop_bit 32 s AND 0xff))"
definition site_lane :: "site_id \<Rightarrow> u32" where "site_lane s = ucast s"

section \<open>Plans\<close>

record schedule_site =
  ss_id :: site_id
  ss_rounds :: nat
  ss_base :: u64
  ss_span :: u64

datatype correlation_scope =
    ScopeRound | ScopeLogupRoot | ScopeLogupGeneralRound | ScopeLogupAuxRound | ScopeLogupSplit | ScopeLogupProduct | ScopeLogupAuxColumn

record correlation_segment =
  cg_offset :: u64
  cg_span :: u64
  cg_scope :: correlation_scope

record site_corr_plan =
  cp_site :: site_id
  cp_segments :: "correlation_segment list"

record epoch_site =
  es_id :: site_id
  es_family :: round_family
  es_offset :: nat
  es_width :: nat

record epoch_layout =
  el_round :: nat
  el_sites :: "epoch_site list"
  el_elements :: nat

record staged_epoch_site =
  sg_id :: site_id
  sg_family :: round_family
  sg_width :: nat

type_synonym staged_epoch = "staged_epoch_site list"

record schedule_plan =
  sp_sites :: "schedule_site list"
  sp_correlations :: "site_corr_plan list"
  sp_epochs :: "epoch_layout list"
  sp_d2h :: u64

datatype schedule_error =
    WrongVersion site_id | UnknownFamily site_id | DuplicateSite site_id | EmptyRoundJob site_id | InvalidJobShape site_id
  | EmptyCorrelationRange site_id | CorrelationRangeOverflow site_id | ReservedCorrelationDomainBits site_id
  | CorrelationRangeOverlap site_id site_id | CorrelationScopeMembershipMismatch | InvalidCorrelationScope site_id
  | EpochMembershipMismatch | DuplicateEpochSite site_id | InvalidEpochMessageWidth site_id | InvalidEpochFamily site_id round_family
  | EmptyEpoch nat | NonContiguousEpochSite site_id | EpochRoundCountMismatch site_id | EpochCorrelationScopeMismatch site_id
  | MailboxSizeOverflow | RoundD2hOverflow | MembershipMismatch round_family

text \<open>Adjacent pairs.\<close>

fun windows2 :: "'a list \<Rightarrow> ('a \<times> 'a) list" where
  "windows2 (x # y # xs) = (x, y) # windows2 (y # xs)"
| "windows2 _ = []"

definition usize_add :: "nat \<Rightarrow> nat \<Rightarrow> nat option" where
  "usize_add a b = (if a + b < 2 ^ 64 then Some (a + b) else None)"

text \<open>The position of a key, as \<^verbatim>\<open>binary_search_by_key\<close> finds it in a list sorted by distinct keys.\<close>

fun position_of :: "site_id \<Rightarrow> schedule_site list \<Rightarrow> nat option" where
  "position_of k [] = None"
| "position_of k (s # ss) = (if ss_id s = k then Some 0 else map_option Suc (position_of k ss))"

subsection \<open>The checks of a plan, in the order of the source\<close>

definition check_site :: "schedule_site \<Rightarrow> unit \<Rightarrow> schedule_error + unit" where
  "check_site site _ =
     (if site_version (ss_id site) \<noteq> SCHEDULE_VERSION then Inl (WrongVersion (ss_id site))
      else if site_family (ss_id site) = None then Inl (UnknownFamily (ss_id site))
      else if ss_rounds site = 0 then Inl (EmptyRoundJob (ss_id site))
      else Inr ())"

definition site_range :: "schedule_site \<Rightarrow> (u64 \<times> u64 \<times> site_id) list \<Rightarrow> schedule_error + (u64 \<times> u64 \<times> site_id) list" where
  "site_range site ranges =
     (if ss_span site = 0 then Inl (EmptyCorrelationRange (ss_id site))
      else ok_then (ok_or (checked_add (ss_base site) (ss_span site)) (CorrelationRangeOverflow (ss_id site)))
        (\<lambda>end'. if CORRELATION_DOMAIN_LIMIT \<le> ss_base site \<or> CORRELATION_DOMAIN_LIMIT < end'
               then Inl (ReservedCorrelationDomainBits (ss_id site))
               else Inr (ranges @ [(ss_base site, end', ss_id site)])))"

definition check_overlap :: "(u64 \<times> u64 \<times> site_id) list \<Rightarrow> schedule_error + unit" where
  "check_overlap ranges =
     (case find (\<lambda>((b0, e0, i0), (b1, e1, i1)). b1 < e0) (windows2 (sort_key (\<lambda>(b, e, i). (b, i)) ranges)) of
        None \<Rightarrow> Inr ()
      | Some ((b0, e0, i0), (b1, e1, i1)) \<Rightarrow> Inl (CorrelationRangeOverlap i0 i1))"

definition check_segment :: "schedule_site \<Rightarrow> correlation_segment \<Rightarrow> u64 \<Rightarrow> schedule_error + u64" where
  "check_segment site segment next =
     (if cg_span segment = 0 \<or> cg_offset segment \<noteq> next then Inl (InvalidCorrelationScope (ss_id site))
      else ok_then (ok_or (checked_add next (cg_span segment)) (InvalidCorrelationScope (ss_id site)))
        (\<lambda>next. if ss_span site < next then Inl (InvalidCorrelationScope (ss_id site)) else Inr next))"

definition check_segments :: "site_corr_plan \<times> schedule_site \<Rightarrow> unit \<Rightarrow> schedule_error + unit" where
  "check_segments cs _ =
     (let (corr, site) = cs
      in if cp_segments corr = [] then Inl (InvalidCorrelationScope (ss_id site))
         else ok_then (try_fold (check_segment site) (cp_segments corr) 0)
           (\<lambda>next. if next \<noteq> ss_span site then Inl (InvalidCorrelationScope (ss_id site)) else Inr ()))"

definition note_last :: "schedule_site list \<Rightarrow> nat \<Rightarrow> staged_epoch_site \<Rightarrow> nat option list \<Rightarrow> schedule_error + nat option list" where
  "note_last sites round staged lasts =
     ok_then (ok_or (position_of (sg_id staged) sites) EpochMembershipMismatch) (\<lambda>index. Inr (lasts[index := Some round]))"

definition note_epoch :: "schedule_site list \<Rightarrow> nat \<times> staged_epoch \<Rightarrow> nat option list \<Rightarrow> schedule_error + nat option list" where
  "note_epoch sites re lasts =
     (let (round, epoch) = re
      in if epoch = [] then Inl (EmptyEpoch round) else try_fold (note_last sites round) epoch lasts)"

record layout_state =
  la_active :: "epoch_site list"
  la_offset :: nat
  la_prior :: "nat option list"
  la_observed :: "nat list"

definition family_allowed :: "round_family \<Rightarrow> round_family \<Rightarrow> bool" where
  "family_allowed logical family =
     (if logical = LogupAux then family \<in> {LogupRoot, LogupGeneral, LogupAux, LogupSplit} else family = logical)"

definition width_valid :: "round_family \<Rightarrow> staged_epoch_site \<Rightarrow> bool \<Rightarrow> bool" where
  "width_valid logical staged is_last =
     (if logical = LogupAux \<and> sg_family staged = LogupSplit \<and> is_last
      then family_width LogupSplit \<le> sg_width staged \<and> sg_width staged mod 2 = 0
      else sg_width staged = family_width (sg_family staged))"

definition place_site ::
  "schedule_site list \<Rightarrow> nat option list \<Rightarrow> nat \<Rightarrow> staged_epoch_site \<Rightarrow> layout_state \<Rightarrow> schedule_error + layout_state" where
  "place_site sites lasts round staged st =
     ok_then (ok_or (position_of (sg_id staged) sites) EpochMembershipMismatch) (\<lambda>index.
       if (case la_prior st ! index of Some prior \<Rightarrow> prior + 1 \<noteq> round | None \<Rightarrow> round \<noteq> 0)
       then Inl (NonContiguousEpochSite (sg_id staged))
       else ok_then (ok_or (site_family (ss_id (sites ! index))) (UnknownFamily (ss_id (sites ! index)))) (\<lambda>logical.
         if \<not> family_allowed logical (sg_family staged) then Inl (InvalidEpochFamily (sg_id staged) (sg_family staged))
         else if \<not> width_valid logical staged (lasts ! index = Some round) then Inl (InvalidEpochMessageWidth (sg_id staged))
         else ok_then (ok_or (usize_add (la_observed st ! index) 1) MailboxSizeOverflow) (\<lambda>obs.
           ok_then (ok_or (usize_add (la_offset st) (sg_width staged)) MailboxSizeOverflow) (\<lambda>offset.
             Inr \<lparr>la_active = la_active st @ [\<lparr>es_id = sg_id staged, es_family = sg_family staged,
                                              es_offset = la_offset st, es_width = sg_width staged\<rparr>],
                  la_offset = offset, la_prior = (la_prior st)[index := Some round],
                  la_observed = (la_observed st)[index := obs]\<rparr>))))"

type_synonym epoch_state = "epoch_layout list \<times> nat option list \<times> nat list"

definition place_epoch ::
  "schedule_site list \<Rightarrow> nat option list \<Rightarrow> nat \<times> staged_epoch \<Rightarrow> epoch_state \<Rightarrow> schedule_error + epoch_state" where
  "place_epoch sites lasts re es =
     (let (round, staged) = re; (layouts, prior, observed) = es; staged = sort_key sg_id staged
      in case find (\<lambda>(a, b). sg_id a = sg_id b) (windows2 staged) of
           Some (a, b) \<Rightarrow> Inl (DuplicateEpochSite (sg_id a))
         | None \<Rightarrow>
             ok_then (try_fold (place_site sites lasts round) staged
                        \<lparr>la_active = [], la_offset = 0, la_prior = prior, la_observed = observed\<rparr>)
               (\<lambda>st. Inr (layouts @ [\<lparr>el_round = round, el_sites = la_active st, el_elements = la_offset st\<rparr>], la_prior st, la_observed st)))"

definition check_rounds :: "schedule_site \<times> nat \<Rightarrow> unit \<Rightarrow> schedule_error + unit" where
  "check_rounds so _ = (let (site, observed) = so
     in if ss_rounds site \<noteq> observed then Inl (EpochRoundCountMismatch (ss_id site)) else Inr ())"

definition stage_scopes :: "round_family \<Rightarrow> nat option \<Rightarrow> nat \<Rightarrow> round_family \<Rightarrow> correlation_scope list" where
  "stage_scopes logical lastr round family =
     (if logical = LogupAux then
        (case family of
           LogupRoot \<Rightarrow> [ScopeLogupRoot]
         | LogupGeneral \<Rightarrow> [ScopeLogupGeneralRound]
         | LogupAux \<Rightarrow> [ScopeLogupAuxRound]
         | LogupSplit \<Rightarrow> [ScopeLogupSplit, ScopeLogupProduct] @ (if Some round = lastr then [ScopeLogupAuxColumn] else [])
         | _ \<Rightarrow> [ScopeRound])
      else [ScopeRound])"

definition site_scopes :: "round_family \<Rightarrow> nat option \<Rightarrow> site_id \<Rightarrow> epoch_layout list \<Rightarrow> correlation_scope list" where
  "site_scopes logical lastr k layouts =
     concat (map (\<lambda>epoch. case find (\<lambda>stage. es_id stage = k) (el_sites epoch) of
                            None \<Rightarrow> [] | Some stage \<Rightarrow> stage_scopes logical lastr (el_round epoch) (es_family stage)) layouts)"

definition coalesce ::
  "site_id \<Rightarrow> correlation_scope \<Rightarrow> correlation_segment list \<times> u64 \<Rightarrow> schedule_error + correlation_segment list \<times> u64" where
  "coalesce k scope acc =
     (let (expected, offset) = acc
      in ok_then
           (if expected \<noteq> [] \<and> cg_scope (last expected) = scope
            then ok_then (ok_or (checked_add (cg_span (last expected)) 1) (InvalidCorrelationScope k))
                   (\<lambda>span. Inr (butlast expected @ [(last expected)\<lparr>cg_span := span\<rparr>]))
            else Inr (expected @ [\<lparr>cg_offset = offset, cg_span = 1, cg_scope = scope\<rparr>]))
           (\<lambda>expected. ok_then (ok_or (checked_add offset 1) (InvalidCorrelationScope k)) (\<lambda>offset. Inr (expected, offset))))"

definition reoffset ::
  "site_id \<Rightarrow> correlation_segment \<Rightarrow> correlation_segment list \<times> u64 \<Rightarrow> schedule_error + correlation_segment list \<times> u64" where
  "reoffset k segment acc =
     (let (done', offset) = acc
      in ok_then (ok_or (checked_add offset (cg_span segment)) (InvalidCorrelationScope k))
           (\<lambda>next. Inr (done' @ [segment\<lparr>cg_offset := offset\<rparr>], next)))"

definition check_scopes ::
  "epoch_layout list \<Rightarrow> (schedule_site \<times> nat option) \<times> site_corr_plan \<Rightarrow> unit \<Rightarrow> schedule_error + unit" where
  "check_scopes layouts slc _ =
     (let ((site, lastr), corr) = slc
      in ok_then (ok_or (site_family (ss_id site)) (UnknownFamily (ss_id site))) (\<lambda>logical.
         ok_then (try_fold (coalesce (ss_id site)) (site_scopes logical lastr (ss_id site) layouts) ([], 0)) (\<lambda>(expected, _).
         ok_then (try_fold (reoffset (ss_id site)) expected ([], 0)) (\<lambda>(expected, _).
           if cp_segments corr \<noteq> expected then Inl (EpochCorrelationScopeMismatch (ss_id site)) else Inr ()))))"

definition add_d2h :: "epoch_layout \<Rightarrow> u64 \<Rightarrow> schedule_error + u64" where
  "add_d2h epoch tot =
     ok_then (ok_or (if el_elements epoch < 2 ^ 64 then Some (word_of_nat (el_elements epoch) :: u64) else None) RoundD2hOverflow) (\<lambda>elements.
     ok_then (ok_or (if 2 ^ 64 \<le> uint elements * 16 then None else Some (elements * 16)) RoundD2hOverflow) (\<lambda>bytes.
       ok_or (checked_add tot bytes) RoundD2hOverflow))"

definition new_staged ::
  "schedule_site list \<Rightarrow> site_corr_plan list \<Rightarrow> staged_epoch list \<Rightarrow> schedule_error + schedule_plan" where
  "new_staged sites correlations epochs =
     (let sites = sort_key ss_id sites in
      ok_then (try_fold check_site sites ()) (\<lambda>_.
      case find (\<lambda>(a, b). ss_id a = ss_id b) (windows2 sites) of
        Some (a, b) \<Rightarrow> Inl (DuplicateSite (ss_id a))
      | None \<Rightarrow>
        ok_then (try_fold site_range sites []) (\<lambda>ranges.
        ok_then (check_overlap ranges) (\<lambda>_.
        let correlations = sort_key cp_site correlations in
        if length correlations \<noteq> length sites \<or> list_ex (\<lambda>(corr, site). cp_site corr \<noteq> ss_id site) (zip correlations sites)
        then Inl CorrelationScopeMembershipMismatch
        else
          ok_then (try_fold check_segments (zip correlations sites) ()) (\<lambda>_.
          ok_then (try_fold (note_epoch sites) (enumerate 0 epochs) (replicate (length sites) None)) (\<lambda>lasts.
          ok_then (try_fold (place_epoch sites lasts) (enumerate 0 epochs) ([], replicate (length sites) None, replicate (length sites) 0))
            (\<lambda>(layouts, _, observed).
          ok_then (try_fold check_rounds (zip sites observed) ()) (\<lambda>_.
          ok_then (try_fold (check_scopes layouts) (zip (zip sites lasts) correlations) ()) (\<lambda>_.
          ok_then (try_fold add_d2h layouts 0) (\<lambda>d2h.
            Inr \<lparr>sp_sites = sites, sp_correlations = correlations, sp_epochs = layouts, sp_d2h = d2h\<rparr>)))))))))) "

definition stage_of :: "schedule_site \<Rightarrow> staged_epoch \<Rightarrow> schedule_error + staged_epoch" where
  "stage_of site acc =
     ok_then (ok_or (site_family (ss_id site)) (UnknownFamily (ss_id site)))
       (\<lambda>family. Inr (acc @ [\<lparr>sg_id = ss_id site, sg_family = family, sg_width = family_width family\<rparr>]))"

definition scoped_epoch :: "schedule_site list \<Rightarrow> nat \<Rightarrow> staged_epoch list \<Rightarrow> schedule_error + staged_epoch list" where
  "scoped_epoch sites round epochs =
     ok_then (try_fold stage_of (filter (\<lambda>site. round < ss_rounds site) sites) []) (\<lambda>epoch. Inr (epochs @ [epoch]))"

definition new_scoped :: "schedule_site list \<Rightarrow> site_corr_plan list \<Rightarrow> schedule_error + schedule_plan" where
  "new_scoped sites correlations =
     (let max_rounds = (if sites = [] then 0 else Max (set (map ss_rounds sites)))
      in ok_then (try_fold (scoped_epoch sites) [0..<max_rounds] []) (new_staged sites correlations))"

definition plan_of_rounds :: "schedule_site list \<Rightarrow> schedule_error + schedule_plan" where
  "plan_of_rounds sites =
     (case find (\<lambda>site. ss_span site \<noteq> word_of_nat (ss_rounds site)) sites of
        Some site \<Rightarrow> Inl (InvalidJobShape (ss_id site))
      | None \<Rightarrow>
          new_scoped sites (map (\<lambda>site. \<lparr>cp_site = ss_id site,
            cp_segments = [\<lparr>cg_offset = 0, cg_span = ss_span site, cg_scope = ScopeRound\<rparr>]\<rparr>) sites))"

definition family_sites :: "schedule_plan \<Rightarrow> round_family \<Rightarrow> schedule_site list" where
  "family_sites plan family = filter (\<lambda>site. site_family (ss_id site) = Some family) (sp_sites plan)"

definition validate_family :: "schedule_plan \<Rightarrow> round_family \<Rightarrow> schedule_site list \<Rightarrow> schedule_error + unit" where
  "validate_family plan family actual =
     (if sort_key ss_id actual \<noteq> family_sites plan family then Inl (MembershipMismatch family) else Inr ())"

definition round_epoch_upper_bound :: "schedule_plan \<Rightarrow> nat" where
  "round_epoch_upper_bound plan = length (sp_epochs plan)"

definition mailbox_elements_upper_bound :: "schedule_plan \<Rightarrow> nat" where
  "mailbox_elements_upper_bound plan = (if sp_epochs plan = [] then 0 else Max (set (map el_elements (sp_epochs plan))))"

section \<open>Loops that stop at the first error\<close>

lemma find_windows: "find Q (windows2 xs) = None \<longleftrightarrow> successively (\<lambda>a b. \<not> Q (a, b)) xs"
proof -
  have "(\<forall>p \<in> set (windows2 xs). \<not> Q p) \<longleftrightarrow> successively (\<lambda>a b. \<not> Q (a, b)) xs"
    by (induction xs rule: windows2.induct) auto
  then show ?thesis by (auto simp: find_None_iff)
qed

section \<open>Identifiers round trip\<close>

lemma family_from_byte [simp]: "family_from_u8 (family_byte f) = Some f"
  by (cases f) (simp_all add: family_from_u8_def)

lemma site_fields:
  "site_version (site_new sec fam lane) = SCHEDULE_VERSION" "site_section (site_new sec fam lane) = sec"
  "(ucast (drop_bit 32 (site_new sec fam lane) AND 0xff) :: u8) = family_byte fam" "site_lane (site_new sec fam lane) = lane"
proof -
  have m16: "(0xffff :: u64) = mask 16" "(0xff :: u64) = mask 8" by (simp_all add: mask_eq_exp_minus_1)
  show "site_version (site_new sec fam lane) = SCHEDULE_VERSION"
    by (rule bit_word_eqI) (auto simp: site_version_def site_new_def bit_simps dest: bit_imp_le_length)
  show "site_section (site_new sec fam lane) = sec"
    by (rule bit_word_eqI) (auto simp: site_section_def site_new_def bit_simps m16 dest: bit_imp_le_length)
  show "(ucast (drop_bit 32 (site_new sec fam lane) AND 0xff) :: u8) = family_byte fam"
    by (rule bit_word_eqI) (auto simp: site_new_def bit_simps m16 dest: bit_imp_le_length)
  show "site_lane (site_new sec fam lane) = lane"
    by (rule bit_word_eqI) (auto simp: site_lane_def site_new_def bit_simps dest: bit_imp_le_length)
qed

section \<open>What an accepted plan has passed\<close>

lemma sorted_distinct_successively:
  fixes f :: "'a \<Rightarrow> 'b :: linorder"
  assumes "sorted (map f xs)" "successively (\<lambda>a b. f a \<noteq> f b) xs"
  shows "sorted_wrt (<) (map f xs)"
proof -
  have "successively (\<lambda>a b. f a \<le> f b) xs" using assms(1) by (intro successively_if_sorted_wrt) (simp add: sorted_wrt_map)
  then have "successively (\<lambda>a b. f a < f b) xs" using assms(2) by (induction xs rule: induct_list012) auto
  then show ?thesis by (subst (asm) successively_conv_sorted_wrt) (auto simp: sorted_wrt_map transp_def)
qed

lemma sort_key_unique:
  assumes "mset xs = mset ys" "distinct (map f (sort_key f xs))"
  shows "sort_key f xs = sort_key f ys"
proof (rule sort_key_inj_key_eq)
  show "inj_on f (set xs)" using assms(2) by (simp add: distinct_map)
qed (use assms(1) in simp_all)

text \<open>The domains of a site, and its roles as intervals of them.\<close>

definition site_domains :: "schedule_site \<Rightarrow> nat set" where
  "site_domains site = {unat (ss_base site) ..< unat (ss_base site) + unat (ss_span site)}"

definition segment_slots :: "correlation_segment \<Rightarrow> nat list" where
  "segment_slots g = [unat (cg_offset g) ..< unat (cg_offset g) + unat (cg_span g)]"

lemma checked_add_sum: "checked_add a b = Some c \<Longrightarrow> c = a + b \<and> unat c = unat a + unat b"
proof -
  assume h: "checked_add a b = Some c"
  have "int (unat c) = int (unat a + unat b)" using checked_add_Some [OF h] by simp
  then show ?thesis using h by (simp only: of_nat_eq_iff) (simp add: checked_add_def split: if_splits)
qed

lemma site_range_Inr:
  assumes "site_range site rs = Inr rs'"
  shows "rs' = rs @ [(ss_base site, ss_base site + ss_span site, ss_id site)] \<and> ss_span site \<noteq> 0
    \<and> unat (ss_base site + ss_span site) = unat (ss_base site) + unat (ss_span site) \<and> ss_base site + ss_span site \<le> CORRELATION_DOMAIN_LIMIT"
  using assms by (auto simp: site_range_def checks_pass not_less dest!: checked_add_sum split: if_splits)

lemma ranges_value:
  assumes "try_fold site_range sites rs = Inr rs'"
  shows "rs' = rs @ map (\<lambda>s. (ss_base s, ss_base s + ss_span s, ss_id s)) sites
    \<and> (\<forall>s \<in> set sites. ss_span s \<noteq> 0 \<and> unat (ss_base s + ss_span s) = unat (ss_base s) + unat (ss_span s)
         \<and> ss_base s + ss_span s \<le> CORRELATION_DOMAIN_LIMIT)"
  using assms
proof (induction sites arbitrary: rs)
  case (Cons s sites)
  then obtain rs1 where r: "site_range s rs = Inr rs1" "try_fold site_range sites rs1 = Inr rs'" by (auto simp: ok_then_Inr)
  then show ?case using site_range_Inr [OF r(1)] Cons.IH [OF r(2)] by simp
qed simp

lemma check_overlap_Inr:
  "check_overlap ranges = Inr () \<longleftrightarrow> successively (\<lambda>x y. fst (snd x) \<le> fst y) (sort_key (\<lambda>(b, e, i). (b, i)) ranges)"
proof -
  let ?R = "sort_key (\<lambda>(b, e, i). (b, i)) ranges"
  have "check_overlap ranges = Inr () \<longleftrightarrow> find (\<lambda>((b0, e0, i0), (b1, e1, i1)). b1 < e0) (windows2 ?R) = None"
    by (auto simp: check_overlap_def split: option.splits)
  also have "\<dots> \<longleftrightarrow> successively (\<lambda>x y. fst (snd x) \<le> fst y) ?R"
    unfolding find_windows by (auto simp: case_prod_beta not_less)
  finally show ?thesis .
qed

lemma sorted_wrt_either: "sorted_wrt P xs \<Longrightarrow> x \<in> set xs \<Longrightarrow> y \<in> set xs \<Longrightarrow> x \<noteq> y \<Longrightarrow> P x y \<or> P y x"
  by (induction xs) auto

lemma ranges_disjoint:
  assumes "try_fold site_range sites [] = Inr ranges" "check_overlap ranges = Inr ()" "s \<in> set sites" "t \<in> set sites" "ss_id s \<noteq> ss_id t"
  shows "site_domains s \<inter> site_domains t = {}"
proof -
  let ?r = "\<lambda>s. (ss_base s, ss_base s + ss_span s, ss_id s)"
  let ?R = "sort_key (\<lambda>(b, e, i). (b, i)) ranges"
  have v: "ranges = map ?r sites" "\<And>s. s \<in> set sites \<Longrightarrow> ss_span s \<noteq> 0 \<and> unat (ss_base s + ss_span s) = unat (ss_base s) + unat (ss_span s)"
    using ranges_value [OF assms(1)] by auto
  have lt: "fst x < fst (snd x)" if "x \<in> set ?R" for x
  proof -
    have "x \<in> set (map ?r sites)" using that v(1) by simp
    then obtain u where "u \<in> set sites" "x = ?r u" by auto
    then show ?thesis using v(2) [of u] by (auto simp: word_less_nat_alt unat_gt_0)
  qed
  have "sorted_wrt (\<lambda>x y. fst (snd x) \<le> fst y) ?R"
  proof (rule iffD1 [OF successively_iff_sorted_wrt_strong])
    fix x y z
    assume "y \<in> set ?R" "fst (snd x) \<le> fst y" "fst (snd y) \<le> fst z"
    then show "fst (snd x) \<le> fst z" using lt [of y] by simp
  qed (use check_overlap_Inr [of ranges] assms(2) in blast)
  moreover have "?r s \<in> set ?R" "?r t \<in> set ?R" "?r s \<noteq> ?r t" using assms(3-5) v(1) by auto
  ultimately have "fst (snd (?r s)) \<le> fst (?r t) \<or> fst (snd (?r t)) \<le> fst (?r s)" by (rule sorted_wrt_either)
  then have "ss_base s + ss_span s \<le> ss_base t \<or> ss_base t + ss_span t \<le> ss_base s" by simp
  then show ?thesis using v(2) assms(3,4) by (auto simp: site_domains_def word_le_nat_alt)
qed

lemma segments_partition:
  assumes "try_fold (check_segment site) gs next = Inr fin"
  shows "concat (map segment_slots gs) = [unat next ..< unat fin] \<and> unat next \<le> unat fin"
  using assms
proof (induction gs arbitrary: "next")
  case (Cons g gs)
  then obtain n1 where n: "check_segment site g next = Inr n1" and r: "try_fold (check_segment site) gs n1 = Inr fin" by (auto simp: ok_then_Inr)
  have n1: "cg_offset g = next" "checked_add next (cg_span g) = Some n1" using n by (auto simp: checks_pass check_segment_def split: if_splits)
  have u: "unat n1 = unat next + unat (cg_span g)" using checked_add_sum [OF n1(2)] by blast
  have IH: "concat (map segment_slots gs) = [unat n1 ..< unat fin]" "unat n1 \<le> unat fin" using Cons.IH [OF r] by simp_all
  have "[unat next ..< unat n1] @ [unat n1 ..< unat fin] = [unat next ..< unat fin]"
    using u IH(2) upt_add_eq_append [of "unat next" "unat n1" "unat fin - unat n1"] by simp
  moreover have "segment_slots g = [unat next ..< unat n1]" using u n1(1) by (simp add: segment_slots_def)
  ultimately show ?case using IH u by simp
qed simp

text \<open>The mailbox of an epoch, slot by slot.\<close>

definition mailbox_slots :: "epoch_site \<Rightarrow> nat list" where
  "mailbox_slots e = [es_offset e ..< es_offset e + es_width e]"

definition layout_exact :: "epoch_layout \<Rightarrow> bool" where
  "layout_exact ep \<longleftrightarrow> concat (map mailbox_slots (el_sites ep)) = [0 ..< el_elements ep]"

lemma place_site_exact:
  assumes "place_site sites lasts round staged st = Inr st'" "concat (map mailbox_slots (la_active st)) = [0 ..< la_offset st]"
  shows "concat (map mailbox_slots (la_active st')) = [0 ..< la_offset st']"
proof -
  have "la_active st' = la_active st @ [\<lparr>es_id = sg_id staged, es_family = sg_family staged, es_offset = la_offset st, es_width = sg_width staged\<rparr>]"
    "la_offset st' = la_offset st + sg_width staged"
    using assms(1) by (auto simp: place_site_def checks_pass usize_add_def split: if_splits option.splits)
  then show ?thesis using assms(2) upt_add_eq_append [of 0 "la_offset st" "sg_width staged"] by (simp add: mailbox_slots_def)
qed

lemma place_epoch_exact:
  assumes "place_epoch sites lasts re es = Inr es'" "\<forall>ep \<in> set (fst es). layout_exact ep"
  shows "\<forall>ep \<in> set (fst es'). layout_exact ep"
proof -
  obtain round staged layouts prior observed where e: "re = (round, staged)" "es = (layouts, prior, observed)" by (metis prod_cases3 surj_pair)
  obtain st where st: "try_fold (place_site sites lasts round) (sort_key sg_id staged)
        \<lparr>la_active = [], la_offset = 0, la_prior = prior, la_observed = observed\<rparr> = Inr st"
    "fst es' = layouts @ [\<lparr>el_round = round, el_sites = la_active st, el_elements = la_offset st\<rparr>]"
    using assms(1) e by (auto simp: place_epoch_def checks_pass Let_def split: option.splits)
  have "concat (map mailbox_slots (la_active st)) = [0 ..< la_offset st]"
    by (rule try_fold_invariant [OF st(1), of "\<lambda>st. concat (map mailbox_slots (la_active st)) = [0 ..< la_offset st]"]) (simp_all add: place_site_exact)
  then show ?thesis using st(2) assms(2) e by (simp add: layout_exact_def)
qed

lemma d2h_value: "try_fold add_d2h eps tot = Inr d \<Longrightarrow> unat d = unat tot + 16 * sum_list (map el_elements eps)"
proof (induction eps arbitrary: tot)
  case (Cons ep eps)
  let ?e = "word_of_nat (el_elements ep) :: u64"
  obtain t1 where a: "add_d2h ep tot = Inr t1" and r: "try_fold add_d2h eps t1 = Inr d" using Cons.prems by (auto simp: ok_then_Inr)
  have t: "el_elements ep < 2 ^ 64" "\<not> 2 ^ 64 \<le> uint ?e * 16" "checked_add tot (?e * 16) = Some t1"
    using a by (auto simp: checks_pass add_d2h_def split: if_splits)
  have e: "unat ?e = el_elements ep" unfolding unat_of_nat take_bit_eq_mod using t(1) by simp
  have "int (unat ?e * 16) < int (2 ^ 64)" using t(2) by simp
  then have "unat ?e * 16 < 2 ^ 64" by (simp only: of_nat_less_iff)
  then have "unat (?e * 16) = unat ?e * 16" by (simp add: unat_word_ariths)
  then have "unat t1 = unat tot + 16 * el_elements ep" using conjunct2 [OF checked_add_sum [OF t(3)]] e by simp
  then show ?case using Cons.IH [OF r] by simp
qed simp

text \<open>Everything that an accepted plan has been checked for.\<close>

lemma new_staged_Inr:
  assumes "new_staged sites correlations epochs = Inr p"
  obtains ranges observed prior lasts where "sp_sites p = sort_key ss_id sites" "sp_correlations p = sort_key cp_site correlations"
    "\<forall>s \<in> set (sp_sites p). check_site s () = Inr ()" "sorted_wrt (<) (map ss_id (sp_sites p))"
    "try_fold site_range (sp_sites p) [] = Inr ranges" "check_overlap ranges = Inr ()"
    "map cp_site (sp_correlations p) = map ss_id (sp_sites p)"
    "\<forall>cs \<in> set (zip (sp_correlations p) (sp_sites p)). check_segments cs () = Inr ()"
    "try_fold (place_epoch (sp_sites p) lasts) (enumerate 0 epochs) ([], replicate (length (sp_sites p)) None, replicate (length (sp_sites p)) 0)
       = Inr (sp_epochs p, prior, observed)"
    "try_fold add_d2h (sp_epochs p) 0 = Inr (sp_d2h p)"
proof -
  let ?S = "sort_key ss_id sites" and ?C = "sort_key cp_site correlations"
  have dup: "find (\<lambda>(a, b). ss_id a = ss_id b) (windows2 ?S) = None"
    using assms unfolding new_staged_def Let_def ok_then_Inr by (auto split: option.splits)
  then have srt: "sorted_wrt (<) (map ss_id ?S)"
    unfolding find_windows by (intro sorted_distinct_successively) simp_all
  obtain ranges lasts layouts prior observed d2h where r:
    "try_fold check_site ?S () = Inr ()" "try_fold site_range ?S [] = Inr ranges" "check_overlap ranges = Inr ()"
    "length ?C = length ?S" "\<not> list_ex (\<lambda>(corr, site). cp_site corr \<noteq> ss_id site) (zip ?C ?S)"
    "try_fold check_segments (zip ?C ?S) () = Inr ()"
    "try_fold (place_epoch ?S lasts) (enumerate 0 epochs) ([], replicate (length ?S) None, replicate (length ?S) 0) = Inr (layouts, prior, observed)"
    "try_fold add_d2h layouts 0 = Inr d2h" "p = \<lparr>sp_sites = ?S, sp_correlations = ?C, sp_epochs = layouts, sp_d2h = d2h\<rparr>"
    using assms dup unfolding new_staged_def Let_def ok_then_Inr by (auto simp: ok_then_Inr split: if_splits)
  have "map cp_site ?C = map ss_id ?S" using r(4,5)
    by (intro nth_equalityI) (auto simp: list_ex_length)
  then show thesis using that [of ranges lasts prior observed] r srt by (simp add: try_fold_unit)
qed

text \<open>C12. An accepted plan gives every site its own correlation domains: the ranges of two different
  sites are disjoint, every range stays below the three reserved domain bits, and the roles registered
  for a site cover its range exactly, each position once and in order.\<close>

theorem schedule_domains_exact:
  assumes "new_staged sites correlations epochs = Inr p"
  shows "set (sp_sites p) = set sites
    \<and> (\<forall>s \<in> set (sp_sites p). \<forall>t \<in> set (sp_sites p). ss_id s \<noteq> ss_id t \<longrightarrow> site_domains s \<inter> site_domains t = {})
    \<and> (\<forall>s \<in> set (sp_sites p). site_domains s \<noteq> {} \<and> site_domains s \<subseteq> {..< 2 ^ 61})
    \<and> list_all2 (\<lambda>c s. cp_site c = ss_id s \<and> concat (map segment_slots (cp_segments c)) = [0 ..< unat (ss_span s)]) (sp_correlations p) (sp_sites p)"
proof -
  obtain ranges where n: "sp_sites p = sort_key ss_id sites" "try_fold site_range (sp_sites p) [] = Inr ranges" "check_overlap ranges = Inr ()"
    "map cp_site (sp_correlations p) = map ss_id (sp_sites p)" "\<forall>cs \<in> set (zip (sp_correlations p) (sp_sites p)). check_segments cs () = Inr ()"
    by (rule new_staged_Inr [OF assms]) blast
  have lim: "unat CORRELATION_DOMAIN_LIMIT = 2 ^ 61" by (simp add: CORRELATION_DOMAIN_LIMIT_def)
  have b: "site_domains s \<noteq> {} \<and> site_domains s \<subseteq> {..< 2 ^ 61}" if "s \<in> set (sp_sites p)" for s
  proof -
    have v: "ss_span s \<noteq> 0" "unat (ss_base s + ss_span s) = unat (ss_base s) + unat (ss_span s)" "ss_base s + ss_span s \<le> CORRELATION_DOMAIN_LIMIT"
      using ranges_value [OF n(2)] that by blast+
    then have "unat (ss_base s) + unat (ss_span s) \<le> 2 ^ 61" using lim by (simp only: word_le_nat_alt)
    moreover have "0 < unat (ss_span s)" using v(1) by (simp add: unat_gt_0)
    ultimately show ?thesis by (auto simp: site_domains_def)
  qed
  have g: "concat (map segment_slots (cp_segments c)) = [0 ..< unat (ss_span s)]" if "(c, s) \<in> set (zip (sp_correlations p) (sp_sites p))" for c s
  proof -
    have "check_segments (c, s) () = Inr ()" using n(5) that by blast
    then have "try_fold (check_segment s) (cp_segments c) 0 = Inr (ss_span s)" by (auto simp: check_segments_def ok_then_Inr split: if_splits)
    then show ?thesis using segments_partition by fastforce
  qed
  have "list_all2 (\<lambda>c s. cp_site c = ss_id s \<and> concat (map segment_slots (cp_segments c)) = [0 ..< unat (ss_span s)]) (sp_correlations p) (sp_sites p)"
  proof (rule list_all2_all_nthI)
    show len: "length (sp_correlations p) = length (sp_sites p)" using map_eq_imp_length_eq [OF n(4)] .
    fix i
    assume i: "i < length (sp_correlations p)"
    then have "(sp_correlations p ! i, sp_sites p ! i) \<in> set (zip (sp_correlations p) (sp_sites p))" using len by (force simp: in_set_zip)
    moreover have "cp_site (sp_correlations p ! i) = ss_id (sp_sites p ! i)" using i len arg_cong [OF n(4), of "\<lambda>xs. xs ! i"] by simp
    ultimately show "cp_site (sp_correlations p ! i) = ss_id (sp_sites p ! i)
        \<and> concat (map segment_slots (cp_segments (sp_correlations p ! i))) = [0 ..< unat (ss_span (sp_sites p ! i))]" using g by blast
  qed
  then show ?thesis using n(1) b ranges_disjoint [OF n(2,3)] by (metis set_sort)
qed

text \<open>In every epoch of an accepted plan the mailbox slots of the sites follow one another without
  gap or overlap and fill the mailbox exactly, and the reported transfer volume is sixteen bytes per
  mailbox element over all epochs.\<close>

theorem schedule_mailboxes_exact:
  assumes "new_staged sites correlations epochs = Inr p"
  shows "(\<forall>ep \<in> set (sp_epochs p). concat (map mailbox_slots (el_sites ep)) = [0 ..< el_elements ep])
    \<and> unat (sp_d2h p) = 16 * sum_list (map el_elements (sp_epochs p))"
proof -
  obtain prior observed lasts where n: "try_fold (place_epoch (sp_sites p) lasts) (enumerate 0 epochs)
      ([], replicate (length (sp_sites p)) None, replicate (length (sp_sites p)) 0) = Inr (sp_epochs p, prior, observed)"
    "try_fold add_d2h (sp_epochs p) 0 = Inr (sp_d2h p)" by (rule new_staged_Inr [OF assms]) blast
  have "\<forall>ep \<in> set (fst (sp_epochs p, prior, observed)). layout_exact ep"
    by (rule try_fold_invariant [OF n(1), of "\<lambda>es. \<forall>ep \<in> set (fst es). layout_exact ep"]) (simp, rule place_epoch_exact)
  then show ?thesis using d2h_value [OF n(2)] by (simp add: layout_exact_def)
qed

text \<open>Neither the order in which sites are registered nor the order of their role partitions
  influences the plan: two listings with the same members give the same accepted plan.\<close>

theorem schedule_order_irrelevant:
  assumes "new_staged sites correlations epochs = Inr p" "mset sites' = mset sites" "mset correlations' = mset correlations"
  shows "new_staged sites' correlations' epochs = Inr p"
proof -
  have n: "sp_sites p = sort_key ss_id sites" "sp_correlations p = sort_key cp_site correlations" "sorted_wrt (<) (map ss_id (sp_sites p))"
    "map cp_site (sp_correlations p) = map ss_id (sp_sites p)"
    by (rule new_staged_Inr [OF assms(1)], blast)+
  have "distinct (map ss_id (sort_key ss_id sites))" "distinct (map cp_site (sort_key cp_site correlations))"
    using n by (simp_all add: strict_sorted_iff)
  then have e: "sort_key ss_id sites' = sort_key ss_id sites" "sort_key cp_site correlations' = sort_key cp_site correlations"
    using sort_key_unique assms(2,3) by metis+
  show ?thesis using assms(1) unfolding new_staged_def e .
qed

text \<open>The membership check of an accepted plan accepts a list of jobs, in any order, exactly when
  it consists of the sites that the plan registers for the family, with their round counts and domains.\<close>

theorem validate_family_exact:
  assumes "new_staged sites correlations epochs = Inr p"
  shows "validate_family p family actual = Inr () \<longleftrightarrow> mset actual = mset (filter (\<lambda>s. site_family (ss_id s) = Some family) sites)"
proof -
  have n: "sp_sites p = sort_key ss_id sites" "sorted_wrt (<) (map ss_id (sp_sites p))" by (rule new_staged_Inr [OF assms], blast)+
  let ?F = "filter (\<lambda>s. site_family (ss_id s) = Some family)"
  have "sorted_wrt (<) (map ss_id (?F (sp_sites p)))" using n(2) by (simp add: sorted_wrt_map sorted_wrt_filter)
  then have d: "distinct (map ss_id (?F (sp_sites p)))" "sorted (map ss_id (?F (sp_sites p)))" by (simp_all add: strict_sorted_iff)
  have m: "mset (?F (sp_sites p)) = mset (?F sites)" using n(1) by (simp add: mset_filter)
  have "sort_key ss_id (?F (sp_sites p)) = ?F (sp_sites p)" using d(2) by (rule sort_key_id_if_sorted)
  then have "sort_key ss_id actual = ?F (sp_sites p) \<longleftrightarrow> mset actual = mset (?F (sp_sites p))"
    using sort_key_unique [of "?F (sp_sites p)" actual ss_id] d(1) by (metis mset_sort)
  then show ?thesis using m by (auto simp: validate_family_def family_sites_def)
qed

section \<open>A concrete plan\<close>

definition demo_product :: schedule_site where
  "demo_product = \<lparr>ss_id = site_new 7 BlindProduct 3, ss_rounds = 2, ss_base = 0x7000, ss_span = 2\<rparr>"

definition demo_triple :: schedule_site where
  "demo_triple = \<lparr>ss_id = site_new 2 HadamardTriple 1, ss_rounds = 1, ss_base = 0x7100, ss_span = 1\<rparr>"

definition round_plan :: "schedule_site \<Rightarrow> site_corr_plan" where
  "round_plan s = \<lparr>cp_site = ss_id s, cp_segments = [\<lparr>cg_offset = 0, cg_span = ss_span s, cg_scope = ScopeRound\<rparr>]\<rparr>"

definition demo_epochs :: "staged_epoch list" where
  "demo_epochs = [[\<lparr>sg_id = site_new 7 BlindProduct 3, sg_family = BlindProduct, sg_width = 2\<rparr>,
                   \<lparr>sg_id = site_new 2 HadamardTriple 1, sg_family = HadamardTriple, sg_width = 3\<rparr>],
                  [\<lparr>sg_id = site_new 7 BlindProduct 3, sg_family = BlindProduct, sg_width = 2\<rparr>]]"

definition demo_plan :: schedule_plan where
  "demo_plan =
     \<lparr>sp_sites = [demo_triple, demo_product], sp_correlations = [round_plan demo_triple, round_plan demo_product],
      sp_epochs = [\<lparr>el_round = 0, el_sites = [\<lparr>es_id = site_new 2 HadamardTriple 1, es_family = HadamardTriple, es_offset = 0, es_width = 3\<rparr>,
                                             \<lparr>es_id = site_new 7 BlindProduct 3, es_family = BlindProduct, es_offset = 3, es_width = 2\<rparr>], el_elements = 5\<rparr>,
                   \<lparr>el_round = 1, el_sites = [\<lparr>es_id = site_new 7 BlindProduct 3, es_family = BlindProduct, es_offset = 0, es_width = 2\<rparr>], el_elements = 2\<rparr>],
      sp_d2h = 112\<rparr>"

lemma demo_ids: "site_new 7 BlindProduct 3 = 0x0100070100000003" "site_new 2 HadamardTriple 1 = 0x0100020200000001"
  by (simp_all add: site_new_def SCHEDULE_VERSION_def push_bit_eq_mult or_numerals)

lemma demo_families:
  "site_family 0x0100070100000003 = Some BlindProduct" "site_family 0x0100020200000001 = Some HadamardTriple"
  "site_version 0x0100070100000003 = SCHEDULE_VERSION" "site_version 0x0100020200000001 = SCHEDULE_VERSION"
  using site_fields [of 7 BlindProduct 3] site_fields [of 2 HadamardTriple 1] unfolding demo_ids by (simp_all add: site_family_def family_from_u8_def)

lemmas demo_defs = demo_product_def demo_triple_def round_plan_def demo_epochs_def demo_plan_def demo_ids demo_families

lemma demo_accepted: "new_staged [demo_product, demo_triple] [round_plan demo_product, round_plan demo_triple] demo_epochs = Inr demo_plan"
proof -
  have s: "sort_key ss_id [demo_product, demo_triple] = [demo_triple, demo_product]"
    "sort_key cp_site [round_plan demo_product, round_plan demo_triple] = [round_plan demo_triple, round_plan demo_product]"
    by (simp_all add: demo_defs)
  let ?S = "[demo_triple, demo_product]" and ?C = "[round_plan demo_triple, round_plan demo_product]"
  have r: "try_fold site_range ?S [] = Inr [(0x7100, 0x7101, 0x0100020200000001), (0x7000, 0x7002, 0x0100070100000003)]"
    by (simp add: demo_defs site_range_def ok_then_def ok_or_def checked_add_def CORRELATION_DOMAIN_LIMIT_def)
  have o: "check_overlap [(0x7100, 0x7101, 0x0100020200000001), (0x7000, 0x7002, 0x0100070100000003)] = Inr ()"
    by (simp add: check_overlap_def)
  have c: "try_fold check_site ?S () = Inr ()" by (simp add: demo_defs check_site_def ok_then_def)
  have g: "try_fold check_segments (zip ?C ?S) () = Inr ()"
    by (simp add: demo_defs check_segments_def check_segment_def ok_then_def ok_or_def checked_add_def)
  have l: "try_fold (note_epoch ?S) (enumerate 0 demo_epochs) (replicate (length ?S) None) = Inr [Some 0, Some 1]"
    by (simp add: demo_defs note_epoch_def note_last_def ok_then_def ok_or_def)
  have p: "try_fold (place_epoch ?S [Some 0, Some 1]) (enumerate 0 demo_epochs) ([], replicate (length ?S) None, replicate (length ?S) 0)
      = Inr (sp_epochs demo_plan, [Some 0, Some 1], [1, 2])"
    by (simp add: demo_defs place_epoch_def place_site_def ok_then_def ok_or_def usize_add_def family_allowed_def width_valid_def)
  have n: "try_fold check_rounds (zip ?S [1, 2]) () = Inr ()" by (simp add: demo_defs check_rounds_def ok_then_def)
  have q: "try_fold (check_scopes (sp_epochs demo_plan)) (zip (zip ?S [Some 0, Some 1]) ?C) () = Inr ()"
    by (simp add: demo_defs check_scopes_def site_scopes_def stage_scopes_def coalesce_def reoffset_def ok_then_def ok_or_def checked_add_def)
  have d: "try_fold add_d2h (sp_epochs demo_plan) 0 = Inr 112"
    by (simp add: demo_plan_def add_d2h_def ok_then_def ok_or_def checked_add_def)
  have w: "find (\<lambda>(a, b). ss_id a = ss_id b) (windows2 ?S) = None" "\<not> list_ex (\<lambda>(corr, site). cp_site corr \<noteq> ss_id site) (zip ?C ?S)"
    "length ?C = length ?S" by (simp_all add: demo_defs)
  have b: "ok_then (Inr x) h = h x" for x :: 'x and h :: "'x \<Rightarrow> schedule_error + schedule_plan" by (simp add: ok_then_def)
  show ?thesis unfolding new_staged_def s Let_def c b w(1) option.case r o using w(2,3)
    by (simp only: g l p n q d b if_False simp_thms prod.case) (simp add: demo_plan_def)
qed

lemma demo_plan_parts: "demo_triple \<in> set (sp_sites demo_plan)" "demo_product \<in> set (sp_sites demo_plan)" "ss_id demo_triple \<noteq> ss_id demo_product"
  by (simp_all add: demo_defs)

theorem schedule_domains_exact_witness:
  "site_domains demo_triple \<inter> site_domains demo_product = {} \<and> site_domains demo_product \<subseteq> {..< 2 ^ 61}
    \<and> list_all2 (\<lambda>c s. cp_site c = ss_id s \<and> concat (map segment_slots (cp_segments c)) = [0 ..< unat (ss_span s)])
        (sp_correlations demo_plan) (sp_sites demo_plan)"
  using schedule_domains_exact [OF demo_accepted] demo_plan_parts by blast

theorem schedule_mailboxes_exact_witness:
  "concat (map mailbox_slots (el_sites (hd (sp_epochs demo_plan)))) = [0 ..< el_elements (hd (sp_epochs demo_plan))]
    \<and> unat (sp_d2h demo_plan) = 16 * sum_list (map el_elements (sp_epochs demo_plan))"
proof -
  have "hd (sp_epochs demo_plan) \<in> set (sp_epochs demo_plan)" by (simp add: demo_plan_def)
  then show ?thesis using schedule_mailboxes_exact [OF demo_accepted] by blast
qed

theorem schedule_order_irrelevant_witness:
  "new_staged [demo_triple, demo_product] [round_plan demo_product, round_plan demo_triple] demo_epochs = Inr demo_plan"
  by (rule schedule_order_irrelevant [OF demo_accepted]) simp_all

theorem validate_family_exact_witness:
  "validate_family demo_plan HadamardTriple [demo_triple] = Inr ()
    \<longleftrightarrow> mset [demo_triple] = mset (filter (\<lambda>s. site_family (ss_id s) = Some HadamardTriple) [demo_product, demo_triple])"
  by (rule validate_family_exact [OF demo_accepted])

end
