(* ===== verification/Pcg.thy ===== *)
theory Pcg
  imports Lockstep
begin

text \<open>
  The trusted-dealer expansion of correlation pools, \<^verbatim>\<open>volta-pcg/src/lib.rs\<close>: base correlations, the
  regular noise selected through GGM trees, the LPN expansion with its sparse code, the combination
  into full-field correlations and the consistency check. The theorems show that the expansion
  returns, that it adds each noise sample to exactly one row, and that its two pools satisfy the MAC
  relation, so that the expanders built on them are twins.

  BLAKE3 and ChaCha8 are parameters. Timings, checks of debug builds and the descriptive text and
  floating-point fields of the parameter record are not carried.
\<close>

section \<open>Parameters\<close>

record phase_a_params =
  pa_security_bits :: nat
  pa_output_sub_equiv :: nat
  pa_lpn_k :: nat
  pa_lpn_n :: nat
  pa_lpn_noise_weight :: nat
  pa_base_vole_len :: nat
  pa_code_fanout :: nat
  pa_ggm_block_size :: nat
  pa_ggm_depth :: nat
  pa_setup_lpn_k :: nat
  pa_setup_lpn_n :: nat
  pa_setup_lpn_noise_weight :: nat
  pa_setup_ggm_block_size :: nat
  pa_setup_ggm_depth :: nat
  pa_consistency_reps :: nat

text \<open>\<^verbatim>\<open>usize::BITS - x.leading_zeros()\<close>\<close>

fun bit_length :: "nat \<Rightarrow> nat" where
  "bit_length n = (if n = 0 then 0 else Suc (bit_length (n div 2)))"

declare bit_length.simps [simp del]

definition ceil_log2 :: "nat \<Rightarrow> nat" where
  "ceil_log2 x = (if x \<le> 1 then 0 else bit_length (x - 1))"

definition sub_equivalents :: "nat \<Rightarrow> nat \<Rightarrow> nat option" where
  "sub_equivalents n_subs n_fulls =
     (if 2 ^ 64 \<le> 2 * n_fulls \<or> 2 ^ 64 \<le> n_subs + 2 * n_fulls then None else Some (n_subs + 2 * n_fulls))"

definition for_counts :: "nat \<Rightarrow> nat \<Rightarrow> phase_a_params option" where
  "for_counts n_subs n_fulls =
     do { output \<leftarrow> sub_equivalents n_subs n_fulls;
          let lpn_k = 589760;
          let lpn_n = 10805248;
          let lpn_noise_weight = 1319;
          let ggm_block_size = lpn_n div lpn_noise_weight;
          let setup_lpn_k = 25000;
          let setup_lpn_n = 642048;
          let setup_lpn_noise_weight = 2508;
          let setup_ggm_block_size = setup_lpn_n div setup_lpn_noise_weight;
          let usable = lpn_n - lpn_k - lpn_noise_weight - 2;
          if output \<le> usable then
            Some \<lparr>pa_security_bits = 128, pa_output_sub_equiv = output, pa_lpn_k = lpn_k, pa_lpn_n = lpn_n,
              pa_lpn_noise_weight = lpn_noise_weight, pa_base_vole_len = lpn_k + lpn_noise_weight + 2, pa_code_fanout = 10,
              pa_ggm_block_size = ggm_block_size, pa_ggm_depth = ceil_log2 ggm_block_size, pa_setup_lpn_k = setup_lpn_k,
              pa_setup_lpn_n = setup_lpn_n, pa_setup_lpn_noise_weight = setup_lpn_noise_weight,
              pa_setup_ggm_block_size = setup_ggm_block_size, pa_setup_ggm_depth = ceil_log2 setup_ggm_block_size,
              pa_consistency_reps = 2\<rparr>
          else None }"

definition tiny_for_test :: "nat \<Rightarrow> phase_a_params option" where
  "tiny_for_test output =
     do { let lpn_k = 64;
          let lpn_noise_weight = 8;
          let ggm_block_size = 32;
          let lpn_n = lpn_noise_weight * ggm_block_size;
          let setup_lpn_k = 16;
          let setup_lpn_noise_weight = 4;
          let setup_ggm_block_size = 32;
          let setup_lpn_n = setup_lpn_noise_weight * setup_ggm_block_size;
          if output \<le> lpn_n - lpn_k - lpn_noise_weight - 2 then
            Some \<lparr>pa_security_bits = 128, pa_output_sub_equiv = output, pa_lpn_k = lpn_k, pa_lpn_n = lpn_n,
              pa_lpn_noise_weight = lpn_noise_weight, pa_base_vole_len = lpn_k + lpn_noise_weight + 2, pa_code_fanout = 4,
              pa_ggm_block_size = ggm_block_size, pa_ggm_depth = ceil_log2 ggm_block_size, pa_setup_lpn_k = setup_lpn_k,
              pa_setup_lpn_n = setup_lpn_n, pa_setup_lpn_noise_weight = setup_lpn_noise_weight,
              pa_setup_ggm_block_size = setup_ggm_block_size, pa_setup_ggm_depth = ceil_log2 setup_ggm_block_size,
              pa_consistency_reps = 2\<rparr>
          else None }"

section \<open>Seeds and mixing\<close>

definition derive_seed :: "blake3 \<Rightarrow> bytes \<Rightarrow> string \<Rightarrow> u64 \<Rightarrow> bytes" where
  "derive_seed H seed label ctr = b3_hash H (seed @ str_bytes label @ u64_le ctr)"

definition seed_word :: "bytes \<Rightarrow> u64" where
  "seed_word seed = word_of_nat (le_value (take 8 seed))"

definition splitmix64 :: "u64 \<Rightarrow> u64" where
  "splitmix64 x =
     (let z = x + 0x9E3779B97F4A7C15;
          z = (z XOR drop_bit 30 z) * 0xBF58476D1CE4E5B9;
          z = (z XOR drop_bit 27 z) * 0x94D049BB133111EB
      in z XOR drop_bit 31 z)"

definition mix_fp :: "u64 \<Rightarrow> fp \<Rightarrow> u64" where
  "mix_fp acc x = (acc XOR word_rotl (unat (acc AND 63)) (fp_value x)) * 0x9E3779B97F4A7C15"

definition mix_fp2 :: "u64 \<Rightarrow> fp2 \<Rightarrow> u64" where
  "mix_fp2 acc x = mix_fp (mix_fp acc (fp2_c0 x)) (fp2_c1 x)"

definition pcg_challenge_fp2 :: "blake3 \<Rightarrow> chacha \<Rightarrow> bytes \<Rightarrow> string \<Rightarrow> u64 \<Rightarrow> fp2 option" where
  "pcg_challenge_fp2 H chacha seed label ctr =
     do { (x, _) \<leftarrow> next_fp2 (fp_stream_from_seed chacha (derive_seed H seed label ctr));
          Some (if x = 0 then 1 else x) }"

section \<open>Base correlations and noise\<close>

record sub_triple =
  st_r :: fp
  st_m :: fp2
  st_k :: fp2

record base_vole =
  bv_r :: "fp list"
  bv_m :: "fp2 list"
  bv_k :: "fp2 list"

fun dealer_loop :: "fp2 \<Rightarrow> nat \<Rightarrow> fp_stream \<Rightarrow> fp_stream \<Rightarrow> (fp list \<times> fp2 list \<times> fp2 list) option" where
  "dealer_loop delta 0 rs ms = Some ([], [], [])"
| "dealer_loop delta (Suc n) rs ms =
     do { (ri, rs) \<leftarrow> next_fp rs;
          (mi, ms) \<leftarrow> next_fp2 ms;
          (r, m, k) \<leftarrow> dealer_loop delta n rs ms;
          Some (ri # r, mi # m, (mi + fp2_mul_base delta ri) # k) }"

definition trusted_dealer_base :: "blake3 \<Rightarrow> chacha \<Rightarrow> bytes \<Rightarrow> fp2 \<Rightarrow> nat \<Rightarrow> base_vole option" where
  "trusted_dealer_base H chacha seed delta n =
     do { (r, m, k) \<leftarrow> dealer_loop delta n (fp_stream_from_seed chacha (derive_seed H seed ''base-r'' 0))
                                          (fp_stream_from_seed chacha (derive_seed H seed ''base-m'' 0));
          Some \<lparr>bv_r = r, bv_m = m, bv_k = k\<rparr> }"

definition derive_alpha :: "bytes \<Rightarrow> nat \<Rightarrow> nat \<Rightarrow> nat" where
  "derive_alpha seed point width =
     unat (splitmix64 (seed_word seed XOR word_of_nat point * 0xD1B54A32D192ED03)) mod max width 1"

definition ggm_node :: "blake3 \<Rightarrow> nat \<Rightarrow> bytes list \<times> u64 \<Rightarrow> bytes \<Rightarrow> bytes list \<times> u64" where
  "ggm_node H d acc node =
     (let (next, mix) = acc;
          left = derive_seed H node ''ggm-left'' (word_of_nat d);
          right = derive_seed H node ''ggm-right'' (word_of_nat d);
          mix = mix XOR word_rotl (d mod 64) (seed_word left);
          mix = mix * 0x9E3779B97F4A7C15;
          mix = mix XOR word_rotl ((d + 17) mod 64) (seed_word right)
      in (next @ [left, right], mix))"

definition ggm_level :: "blake3 \<Rightarrow> bytes list \<times> u64 \<Rightarrow> nat \<Rightarrow> bytes list \<times> u64" where
  "ggm_level H acc d = (let (level, mix) = acc in foldl (ggm_node H d) ([], mix) level)"

definition ggm_selected_leaf :: "blake3 \<Rightarrow> bytes \<Rightarrow> nat \<Rightarrow> nat \<Rightarrow> nat \<Rightarrow> (bytes \<times> u64) option" where
  "ggm_selected_leaf H seed point depth selected =
     (let (level, mix) = foldl (ggm_level H) ([derive_seed H seed ''ggm-root'' (word_of_nat point)], 0xD6E8FD50 XOR word_of_nat point) [0..<depth]
      in do { leaf \<leftarrow> get level selected; Some (leaf, mix) })"

function noise_loop ::
  "blake3 \<Rightarrow> chacha \<Rightarrow> bytes \<Rightarrow> fp2 \<Rightarrow> nat \<Rightarrow> phase_a_params \<Rightarrow> nat \<Rightarrow> u64 \<Rightarrow> ((nat \<times> sub_triple) list \<times> u64) option" where
  "noise_loop H chacha seed delta n params point checksum =
     (if \<not> point < pa_lpn_noise_weight params then Some ([], checksum)
      else
        (let start = point * pa_ggm_block_size params
         in if n \<le> start then Some ([], checksum)
            else do { let end' = min n (start + pa_ggm_block_size params);
                      let width = end' - start;
                      let alpha = derive_alpha seed point width;
                      (leaf, tree_mix) \<leftarrow> ggm_selected_leaf H seed point (pa_ggm_depth params) alpha;
                      let checksum = checksum XOR word_rotl (point mod 64) tree_mix;
                      (r, fs) \<leftarrow> next_fp (fp_stream_from_seed chacha (derive_seed H leaf ''noise'' (word_of_nat point)));
                      (m, fs) \<leftarrow> next_fp2 fs;
                      (out, checksum) \<leftarrow> noise_loop H chacha seed delta n params (Suc point) checksum;
                      Some ((start + alpha, \<lparr>st_r = r, st_m = m, st_k = m + fp2_mul_base delta r\<rparr>) # out, checksum) }))"
  by pat_completeness auto
termination by (relation "measure (\<lambda>(H, chacha, seed, delta, n, params, point, checksum). pa_lpn_noise_weight params - point)") auto

declare noise_loop.simps [simp del]

definition ggm_single_point_noise ::
  "blake3 \<Rightarrow> chacha \<Rightarrow> bytes \<Rightarrow> fp2 \<Rightarrow> nat \<Rightarrow> phase_a_params \<Rightarrow> ((nat \<times> sub_triple) list \<times> u64) option" where
  "ggm_single_point_noise H chacha seed delta n params =
     do { (out, checksum) \<leftarrow> noise_loop H chacha seed delta n params 0 0x9E3779B9;
          Some (sort_key fst out, checksum) }"

section \<open>The expansion\<close>

record full_corr_pools =
  pp_subs :: "sub_vole list"
  pp_fulls :: "full_vole list"
  vp_sub_keys :: "fp2 list"
  vp_full_keys :: "fp2 list"

text \<open>The accumulation of one code row: the values read at the indices that the generator gives.\<close>

definition triple_add :: "sub_triple \<Rightarrow> fp \<Rightarrow> fp2 \<Rightarrow> fp2 \<Rightarrow> sub_triple" where
  "triple_add t r m k = \<lparr>st_r = st_r t + r, st_m = st_m t + m, st_k = st_k t + k\<rparr>"

fun code_row :: "base_vole \<Rightarrow> nat \<Rightarrow> nat list \<Rightarrow> u64 \<Rightarrow> sub_triple \<Rightarrow> sub_triple option" where
  "code_row base lpn_k [] state t = Some t"
| "code_row base lpn_k (limb # limbs) state t =
     do { let state = splitmix64 (state XOR word_of_nat limb * 0x9FB21C651E98DF25);
          let idx = unat state mod lpn_k;
          r \<leftarrow> get (bv_r base) idx;
          m \<leftarrow> get (bv_m base) idx;
          k \<leftarrow> get (bv_k base) idx;
          code_row base lpn_k limbs state (triple_add t r m k) }"

definition lpn_row :: "u64 \<Rightarrow> base_vole \<Rightarrow> (nat \<times> sub_triple) list \<Rightarrow> phase_a_params \<Rightarrow> nat \<Rightarrow> nat \<Rightarrow> (sub_triple \<times> nat) option" where
  "lpn_row code_seed base noise params row noise_i =
     do { t \<leftarrow> code_row base (pa_lpn_k params) [0..<pa_code_fanout params]
                (code_seed XOR word_of_nat row * 0xA24BAED4963EE407) \<lparr>st_r = 0, st_m = 0, st_k = 0\<rparr>;
          if noise_i < length noise \<and> fst (noise ! noise_i) = row
          then (let e = snd (noise ! noise_i) in Some (triple_add t (st_r e) (st_m e) (st_k e), Suc noise_i))
          else Some (t, noise_i) }"

fun lpn_rows ::
  "u64 \<Rightarrow> base_vole \<Rightarrow> (nat \<times> sub_triple) list \<Rightarrow> nat \<Rightarrow> phase_a_params \<Rightarrow> nat list \<Rightarrow> nat
     \<Rightarrow> (sub_vole list \<times> fp2 list \<times> sub_triple list) option" where
  "lpn_rows code_seed base noise n_subs params [] noise_i = Some ([], [], [])"
| "lpn_rows code_seed base noise n_subs params (row # rows) noise_i =
     do { (t, noise_i) \<leftarrow> lpn_row code_seed base noise params row noise_i;
          (subs, keys, pending) \<leftarrow> lpn_rows code_seed base noise n_subs params rows noise_i;
          Some (if row < n_subs then (\<lparr>sv_r = st_r t, sv_m = st_m t\<rparr> # subs, st_k t # keys, pending)
                else (subs, keys, t # pending)) }"

definition lpn_expand_to_pools ::
  "blake3 \<Rightarrow> bytes \<Rightarrow> base_vole \<Rightarrow> (nat \<times> sub_triple) list \<Rightarrow> nat \<Rightarrow> phase_a_params \<Rightarrow> (sub_vole list \<times> fp2 list \<times> sub_triple list) option" where
  "lpn_expand_to_pools H seed base noise n_subs params =
     lpn_rows (seed_word (derive_seed H seed ''lpn-code'' 0)) base noise n_subs params [0..<pa_output_sub_equiv params] 0"

definition GAMMA :: fp2 where
  "GAMMA = Fp2 0 1"

fun combine_pairs :: "sub_triple list \<Rightarrow> full_vole list \<times> fp2 list" where
  "combine_pairs (a # b # rest) =
     (let (fulls, keys) = combine_pairs rest
      in (\<lparr>fv_x = fp2_from_base (st_r a) + fp2_mul_base GAMMA (st_r b), fv_m = st_m a + GAMMA * st_m b\<rparr> # fulls,
          (st_k a + GAMMA * st_k b) # keys))"
| "combine_pairs _ = ([], [])"

definition combine_full_limbs :: "sub_triple list \<Rightarrow> nat \<Rightarrow> (full_vole list \<times> fp2 list) option" where
  "combine_full_limbs pending n_fulls =
     (if length pending = 2 * n_fulls then Some (combine_pairs pending) else None)"

definition check_sum :: "fp2 \<Rightarrow> fp2 \<Rightarrow> full_corr_pools \<Rightarrow> fp2" where
  "check_sum delta chi p =
     (let (acc, coeff) = foldl (\<lambda>(acc, coeff) (s, k). (acc + coeff * (k - sv_m s - fp2_mul_base delta (sv_r s)), coeff * chi))
                           (0, 1) (zip (pp_subs p) (vp_sub_keys p));
          (acc, coeff) = foldl (\<lambda>(acc, coeff) (f, k). (acc + coeff * (k - fv_m f - delta * fv_x f), coeff * chi))
                           (acc, coeff) (zip (pp_fulls p) (vp_full_keys p))
      in acc)"

fun check_loop :: "blake3 \<Rightarrow> chacha \<Rightarrow> fp2 \<Rightarrow> full_corr_pools \<Rightarrow> bytes \<Rightarrow> nat list \<Rightarrow> u64 \<Rightarrow> bool \<Rightarrow> (bool \<times> u64) option" where
  "check_loop H chacha delta p seed [] checksum ok = Some (ok, checksum)"
| "check_loop H chacha delta p seed (rep # reps) checksum ok =
     do { chi \<leftarrow> pcg_challenge_fp2 H chacha seed ''pcg-consistency'' (word_of_nat rep);
          let acc = check_sum delta chi p;
          check_loop H chacha delta p seed reps (mix_fp2 checksum acc) (ok \<and> acc = 0) }"

definition consistency_check :: "blake3 \<Rightarrow> chacha \<Rightarrow> fp2 \<Rightarrow> full_corr_pools \<Rightarrow> nat \<Rightarrow> bytes \<Rightarrow> (bool \<times> u64) option" where
  "consistency_check H chacha delta p reps seed =
     (if length (pp_subs p) \<noteq> length (vp_sub_keys p) \<or> length (pp_fulls p) \<noteq> length (vp_full_keys p) then Some (False, 0)
      else check_loop H chacha delta p seed [0..<reps] 0xC0DE5EED True)"

definition expand_phase_a ::
  "blake3 \<Rightarrow> chacha \<Rightarrow> bytes \<Rightarrow> fp2 \<Rightarrow> nat \<Rightarrow> nat \<Rightarrow> phase_a_params \<Rightarrow> (full_corr_pools \<times> (bool \<times> u64) \<times> u64) option" where
  "expand_phase_a H chacha seed delta n_subs n_fulls params =
     do { expected \<leftarrow> sub_equivalents n_subs n_fulls;
          if pa_output_sub_equiv params = expected \<and> 0 < pa_lpn_k params \<and> pa_lpn_k params \<le> pa_base_vole_len params
             \<and> 0 < pa_lpn_noise_weight params \<and> 0 < pa_code_fanout params
          then do { base \<leftarrow> trusted_dealer_base H chacha seed delta (pa_base_vole_len params);
                    (noise, ggm_checksum) \<leftarrow> ggm_single_point_noise H chacha seed delta expected params;
                    (subs, sub_keys, pending) \<leftarrow> lpn_expand_to_pools H seed base noise n_subs params;
                    (fulls, full_keys) \<leftarrow> combine_full_limbs pending n_fulls;
                    let p = \<lparr>pp_subs = subs, pp_fulls = fulls, vp_sub_keys = sub_keys, vp_full_keys = full_keys\<rparr>;
                    consistency \<leftarrow> consistency_check H chacha delta p (pa_consistency_reps params) seed;
                    if fst consistency then Some (p, consistency, ggm_checksum) else None }
          else None }"

section \<open>Trees and noise positions\<close>

lemma bit_length_bound: "n < 2 ^ bit_length n"
proof (induction n rule: bit_length.induct)
  case (1 n)
  show ?case
  proof (cases "n = 0")
    case False
    then have "n div 2 < 2 ^ bit_length (n div 2)" using 1 by simp
    then show ?thesis using False by (subst bit_length.simps) simp
  qed simp
qed

lemma ceil_log2_bound: "x \<le> 2 ^ ceil_log2 x"
  using bit_length_bound [of "x - 1"] by (auto simp: ceil_log2_def)

lemma ggm_level_length: "length (fst (ggm_level H acc d)) = 2 * length (fst acc)"
proof -
  have "length (fst (foldl (ggm_node H d) a level)) = length (fst a) + 2 * length level" for a level
    by (induction level arbitrary: a) (auto simp: ggm_node_def Let_def split: prod.splits)
  from this [of "([], snd acc)" "fst acc"] show ?thesis by (cases acc) (simp add: ggm_level_def)
qed

lemma ggm_selected_leaf_live:
  assumes "selected < 2 ^ depth"
  obtains leaf mix where "ggm_selected_leaf H seed point depth selected = Some (leaf, mix)"
proof -
  let ?lv = "\<lambda>depth. foldl (ggm_level H) ([derive_seed H seed ''ggm-root'' (word_of_nat point)], 0xD6E8FD50 XOR word_of_nat point) [0..<depth]"
  have "length (fst (?lv depth)) = 2 ^ depth" by (induction depth) (simp_all add: ggm_level_length)
  then show thesis using assms that by (cases "?lv depth") (simp add: ggm_selected_leaf_def)
qed

lemma derive_alpha_bound: "0 < width \<Longrightarrow> derive_alpha seed point width < width"
  unfolding derive_alpha_def by (simp add: max_def)

text \<open>What the dealer relies on: every ChaCha stream keeps giving canonical words.\<close>

definition streams_live :: "chacha \<Rightarrow> bool" where
  "streams_live chacha \<longleftrightarrow> (\<forall>seed. fs_live (fp_stream_from_seed chacha seed))"

definition params_ok :: "phase_a_params \<Rightarrow> bool" where
  "params_ok p \<longleftrightarrow> 0 < pa_lpn_k p \<and> pa_lpn_k p \<le> pa_base_vole_len p \<and> 0 < pa_lpn_noise_weight p \<and> 0 < pa_code_fanout p
     \<and> 0 < pa_ggm_block_size p \<and> pa_ggm_block_size p \<le> 2 ^ pa_ggm_depth p"

definition triple_ok :: "fp2 \<Rightarrow> sub_triple \<Rightarrow> bool" where
  "triple_ok delta t \<longleftrightarrow> st_k t = st_m t + fp2_mul_base delta (st_r t)"

lemma dealer_loop_live:
  assumes "fs_live rs" "fs_live ms"
  shows "\<exists>r m. dealer_loop delta n rs ms = Some (r, m, map2 (\<lambda>mi ri. mi + fp2_mul_base delta ri) m r) \<and> length r = n \<and> length m = n"
  using assms
proof (induction n arbitrary: rs ms)
  case (Suc n)
  obtain ri rs' where r: "next_fp rs = Some (ri, rs')" "fs_live rs'" using Suc.prems(1) by (rule next_fp_live)
  obtain mi ms' where m: "next_fp2 ms = Some (mi, ms')" "fs_live ms'" using Suc.prems(2) by (rule next_fp2_live)
  show ?case using Suc.IH [OF r(2) m(2)] r(1) m(1) by auto
qed simp

text \<open>The noise positions of the remaining blocks: increasing, and inside the output.\<close>

definition noise_ok :: "fp2 \<Rightarrow> nat \<Rightarrow> nat \<Rightarrow> (nat \<times> sub_triple) list \<Rightarrow> bool" where
  "noise_ok delta lo n out \<longleftrightarrow> sorted_wrt (<) (map fst out) \<and> (\<forall>(pos, t) \<in> set out. lo \<le> pos \<and> pos < n \<and> triple_ok delta t)"

lemma noise_loop_live:
  assumes "streams_live chacha" "params_ok params"
  shows "\<exists>out ck'. noise_loop H chacha seed delta n params point ck = Some (out, ck') \<and> noise_ok delta (point * pa_ggm_block_size params) n out"
  using assms
proof (induction H chacha seed delta n params point ck rule: noise_loop.induct)
  case (1 H chacha seed delta n params point ck)
  let ?b = "pa_ggm_block_size params" and ?start = "point * pa_ggm_block_size params"
  show ?case
  proof (cases "point < pa_lpn_noise_weight params \<and> ?start < n")
    case False
    then show ?thesis by (subst noise_loop.simps) (auto simp: noise_ok_def not_less)
  next
    case True
    let ?w = "min n (?start + ?b) - ?start"
    let ?alpha = "derive_alpha seed point ?w"
    have b: "0 < ?b" "?b \<le> 2 ^ pa_ggm_depth params" using 1(3) by (simp_all add: params_ok_def)
    have w: "0 < ?w" "?w \<le> ?b" "?start + ?w \<le> n" using True b by auto
    have a: "?alpha < ?w" using derive_alpha_bound [OF w(1)] .
    then have "?alpha < 2 ^ pa_ggm_depth params" using w(2) b(2) by simp
    then obtain leaf mix where l: "ggm_selected_leaf H seed point (pa_ggm_depth params) ?alpha = Some (leaf, mix)" by (rule ggm_selected_leaf_live)
    have "fs_live (fp_stream_from_seed chacha (derive_seed H leaf ''noise'' (word_of_nat point)))" using 1(2) by (simp add: streams_live_def)
    then obtain r fs where r: "next_fp (fp_stream_from_seed chacha (derive_seed H leaf ''noise'' (word_of_nat point))) = Some (r, fs)" "fs_live fs"
      by (rule next_fp_live)
    obtain m fs' where m: "next_fp2 fs = Some (m, fs')" using r(2) by (rule next_fp2_live)
    obtain out ck' where IH: "noise_loop H chacha seed delta n params (Suc point) (ck XOR word_rotl (point mod 64) mix) = Some (out, ck')"
      "noise_ok delta (Suc point * ?b) n out"
      using 1(1) [OF _ refl _ refl refl refl l refl refl r(1) refl m refl 1(2,3)] True by auto
    have "noise_loop H chacha seed delta n params point ck
        = Some ((?start + ?alpha, \<lparr>st_r = r, st_m = m, st_k = m + fp2_mul_base delta r\<rparr>) # out, ck')"
      using True l r(1) m IH(1) by (subst noise_loop.simps) (simp add: Let_def)
    moreover have "?start + ?alpha < Suc point * ?b" using a w(2) by simp
    moreover have "?start + ?alpha < n" using a w(3) by simp
    ultimately show ?thesis using IH(2) by (fastforce simp: noise_ok_def triple_ok_def)
  qed
qed

section \<open>The rows of the expansion\<close>

lemma triple_ok_add:
  "triple_ok delta t \<Longrightarrow> k = m + fp2_mul_base delta r \<Longrightarrow> triple_ok delta (triple_add t r m k)"
  by (simp add: triple_ok_def triple_add_def fp2_mul_base_eq algebra_simps)

definition base_ok :: "fp2 \<Rightarrow> nat \<Rightarrow> base_vole \<Rightarrow> bool" where
  "base_ok delta n b \<longleftrightarrow> length (bv_r b) = n \<and> length (bv_m b) = n \<and> bv_k b = map2 (\<lambda>mi ri. mi + fp2_mul_base delta ri) (bv_m b) (bv_r b)"

lemma code_row_live:
  assumes "base_ok delta n base" "0 < k" "k \<le> n" "triple_ok delta t"
  shows "\<exists>t'. code_row base k limbs state t = Some t' \<and> triple_ok delta t'"
  using assms(4)
proof (induction limbs arbitrary: state t)
  case (Cons limb limbs)
  let ?st = "splitmix64 (state XOR word_of_nat limb * 0x9FB21C651E98DF25)"
  have i: "unat ?st mod k < n" using assms(2,3) by (meson mod_less_divisor order_less_le_trans)
  have g: "get (bv_r base) (unat ?st mod k) = Some (bv_r base ! (unat ?st mod k))"
    "get (bv_m base) (unat ?st mod k) = Some (bv_m base ! (unat ?st mod k))"
    "get (bv_k base) (unat ?st mod k) = Some (bv_m base ! (unat ?st mod k) + fp2_mul_base delta (bv_r base ! (unat ?st mod k)))"
    using i assms(1) by (simp_all add: base_ok_def)
  have "triple_ok delta (triple_add t (bv_r base ! (unat ?st mod k)) (bv_m base ! (unat ?st mod k))
      (bv_m base ! (unat ?st mod k) + fp2_mul_base delta (bv_r base ! (unat ?st mod k))))"
    using triple_ok_add [OF Cons.prems] by blast
  from Cons.IH [OF this, of ?st] show ?case using g by (simp add: Let_def)
qed simp

text \<open>The reference for one row: its code word plus the noise sample at that position, if there is one.\<close>

definition expanded_row :: "u64 \<Rightarrow> base_vole \<Rightarrow> (nat \<times> sub_triple) list \<Rightarrow> phase_a_params \<Rightarrow> nat \<Rightarrow> sub_triple option" where
  "expanded_row code_seed base noise params row =
     do { t \<leftarrow> code_row base (pa_lpn_k params) [0..<pa_code_fanout params]
                (code_seed XOR word_of_nat row * 0xA24BAED4963EE407) \<lparr>st_r = 0, st_m = 0, st_k = 0\<rparr>;
          Some (case map_of noise row of None \<Rightarrow> t | Some e \<Rightarrow> triple_add t (st_r e) (st_m e) (st_k e)) }"

text \<open>The cursor of the source stands at the first noise sample that is not before the current row.\<close>

definition noise_at :: "(nat \<times> sub_triple) list \<Rightarrow> nat \<Rightarrow> nat \<Rightarrow> bool" where
  "noise_at noise row i \<longleftrightarrow> i \<le> length noise \<and> (\<forall>j < length noise. fst (noise ! j) < row \<longleftrightarrow> j < i)"

lemma lpn_row_expanded:
  assumes "sorted_wrt (<) (map fst noise)" "noise_at noise row i"
    and "code_row base (pa_lpn_k params) [0..<pa_code_fanout params]
           (code_seed XOR word_of_nat row * 0xA24BAED4963EE407) \<lparr>st_r = 0, st_m = 0, st_k = 0\<rparr> = Some t"
  shows "\<exists>t' i'. lpn_row code_seed base noise params row i = Some (t', i')
    \<and> expanded_row code_seed base noise params row = Some t' \<and> noise_at noise (Suc row) i'"
proof -
  have d: "distinct (map fst noise)" using assms(1) by (simp add: strict_sorted_iff)
  have lt: "fst (noise ! j) < fst (noise ! j')" if "j < j'" "j' < length noise" for j j'
    using assms(1) that by (simp add: sorted_wrt_iff_nth_less)
  show ?thesis
  proof (cases "i < length noise \<and> fst (noise ! i) = row")
    case True
    then have "map_of noise row = Some (snd (noise ! i))" using map_of_eq_Some_iff [OF d] by (metis nth_mem prod.collapse)
    moreover have "noise_at noise (Suc row) (Suc i)"
      using assms(2) True lt unfolding noise_at_def by (metis Suc_leI less_Suc_eq not_less_iff_gr_or_eq)
    ultimately show ?thesis using True assms(3) by (simp add: lpn_row_def expanded_row_def Let_def)
  next
    case False
    have ne: "fst (noise ! j) \<noteq> row" if "j < length noise" for j
    proof
      assume "fst (noise ! j) = row"
      then have "\<not> j < i" using assms(2) that by (auto simp: noise_at_def)
      moreover have "\<not> fst (noise ! i) < row" if "i < length noise" using assms(2) that by (auto simp: noise_at_def)
      ultimately show False using False lt [of i j] that \<open>fst (noise ! j) = row\<close> by (cases "i = j") auto
    qed
    then have "row \<notin> fst ` set noise" by (force simp: in_set_conv_nth)
    then have "map_of noise row = None" by (simp add: map_of_eq_None_iff)
    moreover have "noise_at noise (Suc row) i" using assms(2) ne by (auto simp: noise_at_def less_Suc_eq)
    ultimately show ?thesis using False assms(3) by (auto simp: lpn_row_def expanded_row_def)
  qed
qed

lemma lpn_rows_expanded:
  assumes "sorted_wrt (<) (map fst noise)" "noise_at noise a i" "a \<le> n"
    and "\<And>row. \<exists>t. code_row base (pa_lpn_k params) [0..<pa_code_fanout params]
           (code_seed XOR word_of_nat row * 0xA24BAED4963EE407) \<lparr>st_r = 0, st_m = 0, st_k = 0\<rparr> = Some t"
  shows "lpn_rows code_seed base noise ns params [a..<n] i =
    (let T = \<lambda>row. the (expanded_row code_seed base noise params row); sel = filter (\<lambda>row. row < ns) [a..<n]
     in Some (map (\<lambda>row. \<lparr>sv_r = st_r (T row), sv_m = st_m (T row)\<rparr>) sel, map (\<lambda>row. st_k (T row)) sel,
              map T (filter (\<lambda>row. \<not> row < ns) [a..<n])))"
  using assms(2,3)
proof (induction "n - a" arbitrary: a i)
  case (Suc x)
  then have up: "[a..<n] = a # [Suc a..<n]" by (simp add: upt_conv_Cons)
  obtain t where "code_row base (pa_lpn_k params) [0..<pa_code_fanout params]
           (code_seed XOR word_of_nat a * 0xA24BAED4963EE407) \<lparr>st_r = 0, st_m = 0, st_k = 0\<rparr> = Some t" using assms(4) by blast
  from lpn_row_expanded [OF assms(1) Suc.prems(1) this] obtain t' i' where
    r: "lpn_row code_seed base noise params a i = Some (t', i')" "expanded_row code_seed base noise params a = Some t'" "noise_at noise (Suc a) i'" by blast
  have "x = n - Suc a" "Suc a \<le> n" using Suc by simp_all
  from Suc.hyps(1) [OF this(1) r(3) this(2)] show ?case unfolding up using r by (simp add: Let_def)
qed simp

lemma expanded_row_ok:
  assumes "base_ok delta n base" "0 < pa_lpn_k params" "pa_lpn_k params \<le> n" "\<forall>(pos, t) \<in> set noise. triple_ok delta t"
  shows "\<exists>t. expanded_row code_seed base noise params row = Some t \<and> triple_ok delta t"
proof -
  have z: "triple_ok delta \<lparr>st_r = 0, st_m = 0, st_k = 0\<rparr>" by (simp add: triple_ok_def fp2_mul_base_eq)
  obtain t where t: "code_row base (pa_lpn_k params) [0..<pa_code_fanout params]
      (code_seed XOR word_of_nat row * 0xA24BAED4963EE407) \<lparr>st_r = 0, st_m = 0, st_k = 0\<rparr> = Some t" "triple_ok delta t"
    using code_row_live [OF assms(1-3) z] by blast
  show ?thesis
  proof (cases "map_of noise row")
    case (Some e)
    then have "triple_ok delta e" using assms(4) map_of_SomeD by fastforce
    then show ?thesis using t Some triple_ok_add [OF t(2)] by (simp add: expanded_row_def triple_ok_def)
  qed (use t in \<open>simp add: expanded_row_def\<close>)
qed

section \<open>The pools\<close>

lemma combine_pairs_ok:
  assumes "\<forall>t \<in> set ts. triple_ok delta t" "length ts = 2 * n"
  shows "\<exists>fulls. combine_pairs ts = (fulls, map (full_key delta) fulls) \<and> length fulls = n"
  using assms
proof (induction ts arbitrary: n rule: combine_pairs.induct)
  case (1 a b rest)
  have "length rest = 2 * (n - 1)" using 1(3) by simp
  then obtain fulls where "combine_pairs rest = (fulls, map (full_key delta) fulls)" "length fulls = n - 1" using 1(1) [of "n - 1"] 1(2) by auto
  moreover have "n \<noteq> 0" using 1(3) by auto
  ultimately show ?case using 1(2) by (simp add: triple_ok_def fp2_mul_base_eq algebra_simps)
qed auto

lemma check_sum_zero:
  assumes "vp_sub_keys p = map (sub_key delta) (pp_subs p)" "vp_full_keys p = map (full_key delta) (pp_fulls p)"
  shows "check_sum delta chi p = 0"
proof -
  have a: "fst (foldl (\<lambda>(acc, coeff) (s, k). (acc + coeff * (k - sv_m s - fp2_mul_base delta (sv_r s)), coeff * chi)) ac (zip ss (map (sub_key delta) ss))) = fst ac"
    for ac ss by (induction ss arbitrary: ac) (auto split: prod.splits)
  have b: "fst (foldl (\<lambda>(acc, coeff) (f, k). (acc + coeff * (k - fv_m f - delta * fv_x f), coeff * chi)) ac (zip fs (map (full_key delta) fs))) = fst ac"
    for ac fs by (induction fs arbitrary: ac) (auto split: prod.splits)
  show ?thesis using a [of "(0, 1)" "pp_subs p"] b unfolding check_sum_def assms Let_def
    by (metis (no_types, lifting) case_prod_conv fst_conv prod.collapse)
qed

lemma check_loop_accepts:
  assumes "streams_live chacha" "\<And>chi. check_sum delta chi p = 0"
  shows "\<exists>ck'. check_loop H chacha delta p seed reps ck True = Some (True, ck')"
proof (induction reps arbitrary: ck)
  case (Cons rep reps)
  have "fs_live (fp_stream_from_seed chacha (derive_seed H seed ''pcg-consistency'' (word_of_nat rep)))" using assms(1) by (simp add: streams_live_def)
  then obtain x fs where "next_fp2 (fp_stream_from_seed chacha (derive_seed H seed ''pcg-consistency'' (word_of_nat rep))) = Some (x, fs)" by (rule next_fp2_live)
  then show ?case using Cons.IH assms(2) by (simp add: pcg_challenge_fp2_def)
qed simp

text \<open>The intermediate values of an expansion that satisfies its parameter checks.\<close>

lemma phase_a_parts:
  assumes "streams_live chacha" "params_ok params"
  obtains base noise ck where "trusted_dealer_base H chacha seed delta (pa_base_vole_len params) = Some base" "base_ok delta (pa_base_vole_len params) base"
    "ggm_single_point_noise H chacha seed delta n params = Some (noise, ck)" "sorted_wrt (<) (map fst noise)" "\<forall>(pos, t) \<in> set noise. pos < n \<and> triple_ok delta t"
proof -
  obtain r m where "dealer_loop delta (pa_base_vole_len params) (fp_stream_from_seed chacha (derive_seed H seed ''base-r'' 0))
      (fp_stream_from_seed chacha (derive_seed H seed ''base-m'' 0)) = Some (r, m, map2 (\<lambda>mi ri. mi + fp2_mul_base delta ri) m r)"
    "length r = pa_base_vole_len params" "length m = pa_base_vole_len params"
    using dealer_loop_live assms(1) unfolding streams_live_def by blast
  then have b: "\<exists>base. trusted_dealer_base H chacha seed delta (pa_base_vole_len params) = Some base \<and> base_ok delta (pa_base_vole_len params) base"
    by (simp add: trusted_dealer_base_def base_ok_def)
  obtain out ck where o: "noise_loop H chacha seed delta n params 0 0x9E3779B9 = Some (out, ck)" "noise_ok delta (0 * pa_ggm_block_size params) n out"
    using noise_loop_live [OF assms] by blast
  have s: "sorted_wrt (<) (map fst out)" using o(2) by (simp add: noise_ok_def)
  then have "sort_key fst out = out" by (simp add: sort_key_id_if_sorted strict_sorted_iff)
  then show thesis using b o s that by (force simp: ggm_single_point_noise_def noise_ok_def)
qed

lemma expand_phase_a_value:
  assumes "streams_live chacha" "params_ok params" "sub_equivalents ns nf = Some (pa_output_sub_equiv params)"
  shows "\<exists>base noise gck p ck. trusted_dealer_base H chacha seed delta (pa_base_vole_len params) = Some base
    \<and> ggm_single_point_noise H chacha seed delta (ns + 2 * nf) params = Some (noise, gck) \<and> (\<forall>(pos, t) \<in> set noise. pos < ns + 2 * nf)
    \<and> expand_phase_a H chacha seed delta ns nf params = Some (p, (True, ck), gck)
    \<and> length (pp_subs p) = ns \<and> length (pp_fulls p) = nf
    \<and> vp_sub_keys p = map (sub_key delta) (pp_subs p) \<and> vp_full_keys p = map (full_key delta) (pp_fulls p)
    \<and> (\<forall>row < ns. \<exists>t. expanded_row (seed_word (derive_seed H seed ''lpn-code'' 0)) base noise params row = Some t
         \<and> pp_subs p ! row = \<lparr>sv_r = st_r t, sv_m = st_m t\<rparr>)"
proof -
  let ?n = "ns + 2 * nf" and ?cs = "seed_word (derive_seed H seed ''lpn-code'' 0)"
  have n: "pa_output_sub_equiv params = ?n" using assms(3) by (auto simp: sub_equivalents_def split: if_splits)
  have P: "0 < pa_lpn_k params" "pa_lpn_k params \<le> pa_base_vole_len params" "0 < pa_lpn_noise_weight params" "0 < pa_code_fanout params"
    using assms(2) by (simp_all add: params_ok_def)
  obtain base noise gck where b: "trusted_dealer_base H chacha seed delta (pa_base_vole_len params) = Some base" "base_ok delta (pa_base_vole_len params) base"
    "ggm_single_point_noise H chacha seed delta ?n params = Some (noise, gck)" "sorted_wrt (<) (map fst noise)" "\<forall>(pos, t) \<in> set noise. pos < ?n \<and> triple_ok delta t"
    using phase_a_parts [OF assms(1,2)] by blast
  have ex: "\<exists>t. expanded_row ?cs base noise params row = Some t \<and> triple_ok delta t" for row
    using expanded_row_ok [OF b(2) P(1,2)] b(5) by blast
  define T where "T = (\<lambda>row. the (expanded_row ?cs base noise params row))"
  have T: "expanded_row ?cs base noise params row = Some (T row)" "triple_ok delta (T row)" for row using ex [of row] by (auto simp: T_def)
  have cr: "\<exists>t. code_row base (pa_lpn_k params) [0..<pa_code_fanout params] (?cs XOR word_of_nat row * 0xA24BAED4963EE407) \<lparr>st_r = 0, st_m = 0, st_k = 0\<rparr> = Some t" for row
    using T(1) [of row] by (auto simp: expanded_row_def split: Option.bind_splits)
  have "filter (\<lambda>row. row < ns) [0..<?n] = [0..<ns]" "filter (\<lambda>row. \<not> row < ns) [0..<?n] = [ns..<?n]"
    by (simp_all add: upt_add_eq_append [of 0 ns "2 * nf"] filter_empty_conv)
  moreover have "noise_at noise 0 0" by (simp add: noise_at_def)
  ultimately have rows: "lpn_expand_to_pools H seed base noise ns params
      = Some (map (\<lambda>row. \<lparr>sv_r = st_r (T row), sv_m = st_m (T row)\<rparr>) [0..<ns], map (\<lambda>row. st_k (T row)) [0..<ns], map T [ns..<?n])"
    using lpn_rows_expanded [OF b(4) _ _ cr, of 0 0 ?n ns] unfolding lpn_expand_to_pools_def n T_def [symmetric] by (simp add: Let_def T_def)
  obtain fulls where f: "combine_pairs (map T [ns..<?n]) = (fulls, map (full_key delta) fulls)" "length fulls = nf"
    using combine_pairs_ok [of "map T [ns..<?n]" delta nf] T(2) by auto
  let ?p = "\<lparr>pp_subs = map (\<lambda>row. \<lparr>sv_r = st_r (T row), sv_m = st_m (T row)\<rparr>) [0..<ns], pp_fulls = fulls,
      vp_sub_keys = map (\<lambda>row. st_k (T row)) [0..<ns], vp_full_keys = map (full_key delta) fulls\<rparr>"
  have k: "vp_sub_keys ?p = map (sub_key delta) (pp_subs ?p)" "vp_full_keys ?p = map (full_key delta) (pp_fulls ?p)"
    using T(2) by (simp_all add: triple_ok_def)
  obtain ck where "check_loop H chacha delta ?p seed [0..<pa_consistency_reps params] 0xC0DE5EED True = Some (True, ck)"
    using check_loop_accepts [OF assms(1), of delta ?p] check_sum_zero [OF k] by blast
  then have "consistency_check H chacha delta ?p (pa_consistency_reps params) seed = Some (True, ck)" by (simp add: consistency_check_def)
  then have "expand_phase_a H chacha seed delta ns nf params = Some (?p, (True, ck), gck)"
    using assms(3) n b(1,3) rows f P by (simp add: expand_phase_a_def combine_full_limbs_def)
  moreover have "\<forall>row < ns. \<exists>t. expanded_row ?cs base noise params row = Some t \<and> pp_subs ?p ! row = \<lparr>sv_r = st_r t, sv_m = st_m t\<rparr>"
    using T(1) by simp
  moreover have "length (pp_subs ?p) = ns" "length (pp_fulls ?p) = nf" using f(2) by simp_all
  ultimately show ?thesis using b(1,3,5) k by blast
qed

lemma for_counts_ok:
  assumes "for_counts ns nf = Some params"
  shows "params_ok params \<and> sub_equivalents ns nf = Some (pa_output_sub_equiv params)"
proof -
  have "ceil_log2 8192 = 13" by (simp add: ceil_log2_def bit_length.simps)
  then show ?thesis using assms by (auto simp: for_counts_def params_ok_def Let_def split: Option.bind_splits if_splits)
qed

lemma tiny_for_test_ok:
  assumes "tiny_for_test n = Some params"
  shows "params_ok params \<and> pa_output_sub_equiv params = n"
  using assms by (auto simp: tiny_for_test_def params_ok_def Let_def ceil_log2_def bit_length.simps split: if_splits)

text \<open>C13. For the production parameters of any number of subfield and full-field correlations that the
  code's capacity admits, the trusted-dealer expansion returns, passes its own consistency check, and
  gives pools of the requested sizes whose keys satisfy the MAC relation, so that the prover's and the
  verifier's expanders over them are twins.\<close>

theorem expand_phase_a_twins:
  assumes "streams_live chacha" "for_counts ns nf = Some params"
  shows "\<exists>p ck gck. expand_phase_a H chacha seed delta ns nf params = Some (p, (True, ck), gck)
    \<and> length (pp_subs p) = ns \<and> length (pp_fulls p) = nf
    \<and> twin (stream_from_pcg_pool (pp_subs p) (pp_fulls p)) (ctx_from_pcg_pool delta (vp_sub_keys p) (vp_full_keys p))"
proof -
  obtain p ck gck where p: "expand_phase_a H chacha seed delta ns nf params = Some (p, (True, ck), gck)" "length (pp_subs p) = ns" "length (pp_fulls p) = nf"
    "vp_sub_keys p = map (sub_key delta) (pp_subs p)" "vp_full_keys p = map (full_key delta) (pp_fulls p)"
    using expand_phase_a_value [OF assms(1)] for_counts_ok [OF assms(2)] by blast
  then show ?thesis using twin_pools [of "pp_subs p" "pp_fulls p" delta] by auto
qed

text \<open>Every row of the expansion is the reference row: the sparse code word of the base
  correlations plus the noise sample at that position, if there is one. The walking cursor of the source
  neither skips a noise sample nor uses one twice, and every sample lies inside the output.\<close>

theorem expand_phase_a_rows:
  assumes "streams_live chacha" "params_ok params" "sub_equivalents ns nf = Some (pa_output_sub_equiv params)"
  shows "\<exists>base noise gck p ck. trusted_dealer_base H chacha seed delta (pa_base_vole_len params) = Some base
    \<and> ggm_single_point_noise H chacha seed delta (ns + 2 * nf) params = Some (noise, gck) \<and> (\<forall>(pos, t) \<in> set noise. pos < ns + 2 * nf)
    \<and> expand_phase_a H chacha seed delta ns nf params = Some (p, (True, ck), gck)
    \<and> (\<forall>row < ns. \<exists>t. expanded_row (seed_word (derive_seed H seed ''lpn-code'' 0)) base noise params row = Some t
         \<and> pp_subs p ! row = \<lparr>sv_r = st_r t, sv_m = st_m t\<rparr>)"
  using expand_phase_a_value [OF assms] by blast

definition quiet_hash :: blake3 where
  "quiet_hash = \<lparr>b3_hash = (\<lambda>bs. take 32 bs), b3_derive = (\<lambda>c bs. take 32 bs)\<rparr>"

lemma demo_streams_live: "streams_live demo_chacha"
  by (auto simp: streams_live_def fs_live_def fp_stream_from_seed_def demo_chacha_def P_u64_def)

theorem expand_phase_a_twins_witness:
  "\<exists>params p ck gck. for_counts 2 1 = Some params \<and> expand_phase_a quiet_hash demo_chacha [] 3 2 1 params = Some (p, (True, ck), gck)
    \<and> length (pp_subs p) = 2 \<and> length (pp_fulls p) = 1
    \<and> twin (stream_from_pcg_pool (pp_subs p) (pp_fulls p)) (ctx_from_pcg_pool 3 (vp_sub_keys p) (vp_full_keys p))"
proof -
  have "\<exists>params. for_counts 2 1 = Some params" by (simp add: for_counts_def sub_equivalents_def)
  then obtain params where "for_counts 2 1 = Some params" by blast
  then show ?thesis using expand_phase_a_twins [OF demo_streams_live, of 2 1] by blast
qed

theorem expand_phase_a_rows_witness:
  "\<exists>params base noise gck p ck t. tiny_for_test 4 = Some params
    \<and> trusted_dealer_base quiet_hash demo_chacha [] 3 (pa_base_vole_len params) = Some base
    \<and> ggm_single_point_noise quiet_hash demo_chacha [] 3 (2 + 2 * 1) params = Some (noise, gck)
    \<and> expand_phase_a quiet_hash demo_chacha [] 3 2 1 params = Some (p, (True, ck), gck)
    \<and> expanded_row (seed_word (derive_seed quiet_hash [] ''lpn-code'' 0)) base noise params 1 = Some t
    \<and> pp_subs p ! 1 = \<lparr>sv_r = st_r t, sv_m = st_m t\<rparr>"
proof -
  have "\<exists>params. tiny_for_test 4 = Some params" by (simp add: tiny_for_test_def)
  then obtain params where t: "tiny_for_test 4 = Some params" by blast
  then have e: "sub_equivalents 2 1 = Some (pa_output_sub_equiv params)" using tiny_for_test_ok by (simp add: sub_equivalents_def)
  obtain base noise gck p ck where r: "trusted_dealer_base quiet_hash demo_chacha [] 3 (pa_base_vole_len params) = Some base"
    "ggm_single_point_noise quiet_hash demo_chacha [] 3 (2 + 2 * 1) params = Some (noise, gck)"
    "expand_phase_a quiet_hash demo_chacha [] 3 2 1 params = Some (p, (True, ck), gck)"
    "\<forall>row < 2. \<exists>t. expanded_row (seed_word (derive_seed quiet_hash [] ''lpn-code'' 0)) base noise params row = Some t
       \<and> pp_subs p ! row = \<lparr>sv_r = st_r t, sv_m = st_m t\<rparr>"
    using expand_phase_a_rows [OF demo_streams_live conjunct1 [OF tiny_for_test_ok [OF t]] e, of quiet_hash "[]" 3] by blast
  moreover have "(1 :: nat) < 2" by simp
  ultimately show ?thesis using t by blast
qed

end
