(* ===== verification/Lifetime.thy ===== *)
theory Lifetime
  imports Transcript "HOL-Library.Sublist"
begin

text \<open>
  The durable life cycle of an installed model, \<^verbatim>\<open>volta-pcg/src/c71_lifetime.rs\<close>: an append-only
  journal of 57-byte records, the in-memory state that replays it, and the volatile pool of
  correlation rows that one set-up fills. Every file operation can fail, a failed write can leave any
  prefix, and a crash keeps the synchronised part of the file. The theorems show that whatever fails,
  no base row reaches two consumers and an installed root is exposed at most three times, that
  reopening recovers the state, and that a working store serves its attempts.

  The bootstrap protocol that fills a pool (\<^verbatim>\<open>c71_bootstrap.rs\<close>), BLAKE3 and the consumer are parameters.
\<close>

section \<open>Identities and records\<close>

text \<open>A digest, \<^verbatim>\<open>[u8; 32]\<close>, is the word with these little-endian bytes; the all-zero digest is \<open>0\<close>.\<close>

type_synonym digest = "256 word"

definition digest_bytes :: "digest \<Rightarrow> bytes" where
  "digest_bytes d = le_bytes 32 (unat d)"

definition digest_of :: "bytes \<Rightarrow> digest" where
  "digest_of bs = word_of_nat (le_value bs)"

datatype io_error = Invalid string | Os_Error

definition life_limit :: u64 where "life_limit = push_bit 20 1"
definition ROOT_SLOTS :: u64 where "ROOT_SLOTS = 3"
definition RECORD :: nat where "RECORD = 57"
definition MAX_FIXED_RUN_ROWS :: nat where "MAX_FIXED_RUN_ROWS = 2 ^ 24 - 9"

record model_binding =
  mb_anchor :: digest
  mb_semantics :: digest
  mb_root :: digest

definition model_bytes :: "model_binding \<Rightarrow> io_error + bytes" where
  "model_bytes m =
     (if 0 \<in> set [mb_anchor m, mb_semantics m, mb_root m] then Inl (Invalid ''zero model identity'')
      else Inr (concat [str_bytes ''C71B12v1'', digest_bytes (mb_anchor m), digest_bytes (mb_semantics m), digest_bytes (mb_root m)]))"

record life_state =
  ls_fixed_run :: bool
  ls_setups :: u64
  ls_attempts :: u64
  ls_rows :: u64
  ls_used :: u64
  ls_pending :: bool
  ls_head :: digest

definition life_default :: life_state where
  "life_default = \<lparr>ls_fixed_run = False, ls_setups = 0, ls_attempts = 0, ls_rows = 0, ls_used = 0,
     ls_pending = False, ls_head = 0\<rparr>"

definition record_word :: "nat \<Rightarrow> bytes \<Rightarrow> u64" where
  "record_word i r = word_of_nat (le_value (take 8 (drop i r)))"

definition record_bytes :: "u8 \<Rightarrow> u64 \<Rightarrow> u64 \<Rightarrow> u64 \<Rightarrow> digest \<Rightarrow> bytes" where
  "record_bytes kind setup start count digest = [kind] @ u64_le setup @ u64_le start @ u64_le count @ digest_bytes digest"

text \<open>The arms of the match with their guards, in the order of the source.\<close>

definition setup_ok :: "life_state \<Rightarrow> u64 \<Rightarrow> u64 \<Rightarrow> u64 \<Rightarrow> digest \<Rightarrow> bool" where
  "setup_ok s setup start count digest \<longleftrightarrow>
     \<not> ls_fixed_run s \<and> ls_setups s < life_limit \<and> ls_attempts s < ROOT_SLOTS \<and> setup = ls_setups s + 1 \<and> start = 0
     \<and> 3 \<le> count \<and> count \<le> 207 \<and> count mod 3 = 0 \<and> digest = 0"

definition fixed_run_ok :: "life_state \<Rightarrow> u64 \<Rightarrow> u64 \<Rightarrow> u64 \<Rightarrow> digest \<Rightarrow> bool" where
  "fixed_run_ok s setup start count digest \<longleftrightarrow>
     ls_setups s = 0 \<and> ls_attempts s = 0 \<and> setup = 1 \<and> start = 0
     \<and> 3 \<le> count \<and> count \<le> word_of_nat MAX_FIXED_RUN_ROWS \<and> count mod 3 = 0 \<and> digest = 0"

definition burn_ok :: "life_state \<Rightarrow> u64 \<Rightarrow> u64 \<Rightarrow> u64 \<Rightarrow> digest \<Rightarrow> bool" where
  "burn_ok s setup start count digest \<longleftrightarrow>
     setup = ls_setups s \<and> 0 < setup \<and> start = ls_used s \<and> 0 < count \<and> count mod 3 = 0 \<and> count \<le> ls_rows s - ls_used s
     \<and> ls_attempts s < life_limit \<and> ls_attempts s < ROOT_SLOTS \<and> digest = ls_head s"

definition accept_ok :: "life_state \<Rightarrow> u64 \<Rightarrow> u64 \<Rightarrow> u64 \<Rightarrow> digest \<Rightarrow> bool" where
  "accept_ok s setup start count digest \<longleftrightarrow>
     setup = ls_setups s \<and> ls_pending s \<and> start = ls_attempts s \<and> count = 0 \<and> digest \<noteq> ls_head s \<and> digest \<noteq> 0"

definition life_apply :: "bytes \<Rightarrow> life_state \<Rightarrow> io_error + life_state" where
  "life_apply r s =
     (let setup = record_word 1 r; start = record_word 9 r; count = record_word 17 r; digest = digest_of (drop 25 r)
      in if r ! 0 = 1 \<and> setup_ok s setup start count digest
         then Inr (s\<lparr>ls_setups := setup, ls_rows := count, ls_used := 0, ls_pending := False\<rparr>)
         else if r ! 0 = 4 \<and> fixed_run_ok s setup start count digest
         then Inr (s\<lparr>ls_fixed_run := True, ls_setups := 1, ls_rows := count\<rparr>)
         else if r ! 0 = 2 \<and> burn_ok s setup start count digest
         then Inr (s\<lparr>ls_used := ls_used s + count, ls_attempts := ls_attempts s + 1, ls_pending := True\<rparr>)
         else if r ! 0 = 3 \<and> accept_ok s setup start count digest
         then Inr (s\<lparr>ls_head := digest, ls_pending := False\<rparr>)
         else Inl (Invalid ''invalid lifetime transition''))"

section \<open>The store\<close>

text \<open>
  The file behind the store: its bytes, how many of them are known to be on the medium, and the
  operating system's lock. A write can stop after any number of bytes, and a synchronisation can fail.
\<close>

record disk_file =
  df_bytes :: bytes
  df_synced :: nat

record disk =
  dk_file :: "disk_file option"
  dk_locked :: bool

datatype io_outcome = Io_Ok | Write_Stops nat | Sync_Fails

definition write_and_sync :: "io_outcome \<Rightarrow> bytes \<Rightarrow> disk_file \<Rightarrow> bool \<times> disk_file" where
  "write_and_sync io bs f =
     (case io of
        Io_Ok \<Rightarrow> (True, \<lparr>df_bytes = df_bytes f @ bs, df_synced = length (df_bytes f @ bs)\<rparr>)
      | Write_Stops n \<Rightarrow> (False, f\<lparr>df_bytes := df_bytes f @ take n bs\<rparr>)
      | Sync_Fails \<Rightarrow> (False, f\<lparr>df_bytes := df_bytes f @ bs\<rparr>))"

record lifetime =
  lt_model :: model_binding
  lt_state :: life_state
  lt_poisoned :: bool

definition lifetime_install :: "io_outcome \<Rightarrow> bool \<Rightarrow> model_binding \<Rightarrow> disk \<Rightarrow> (io_error + lifetime) \<times> disk" where
  "lifetime_install io dir_synced model d =
     (case model_bytes model of
        Inl e \<Rightarrow> (Inl e, d)
      | Inr bs \<Rightarrow>
          (case dk_file d of
             Some _ \<Rightarrow> (Inl Os_Error, d)
           | None \<Rightarrow>
               if dk_locked d then (Inl Os_Error, d\<lparr>dk_file := Some \<lparr>df_bytes = [], df_synced = 0\<rparr>\<rparr>)
               else
                 (let (ok, f) = write_and_sync io bs \<lparr>df_bytes = [], df_synced = 0\<rparr>
                  in if ok \<and> dir_synced
                     then (Inr \<lparr>lt_model = model, lt_state = life_default, lt_poisoned = False\<rparr>,
                           d\<lparr>dk_file := Some f, dk_locked := True\<rparr>)
                     else (Inl Os_Error, d\<lparr>dk_file := Some f\<rparr>))))"

text \<open>A record that the end of the file cuts short is an error of \<^verbatim>\<open>read_exact\<close>.\<close>

function replay :: "bytes \<Rightarrow> life_state \<Rightarrow> io_error + life_state" where
  "replay bs s =
     (if bs = [] then Inr s
      else if length bs < RECORD then Inl Os_Error
      else case life_apply (take RECORD bs) s of Inl e \<Rightarrow> Inl e | Inr s' \<Rightarrow> replay (drop RECORD bs) s')"
  by pat_completeness auto
termination by (relation "measure (\<lambda>(bs, s). length bs)") (auto simp: RECORD_def)

declare replay.simps [simp del]

datatype open_io = Open_Ok | Read_Fails | Open_Sync_Fails

definition lifetime_open :: "open_io \<Rightarrow> model_binding \<Rightarrow> disk \<Rightarrow> (io_error + lifetime) \<times> disk" where
  "lifetime_open io model d =
     (case model_bytes model of
        Inl e \<Rightarrow> (Inl e, d)
      | Inr expected \<Rightarrow>
          (case dk_file d of
             None \<Rightarrow> (Inl Os_Error, d)
           | Some f \<Rightarrow>
               if dk_locked d \<or> io = Read_Fails \<or> length (df_bytes f) < length expected then (Inl Os_Error, d)
               else if take (length expected) (df_bytes f) \<noteq> expected
               then (Inl (Invalid ''installed model/root mismatch''), d)
               else
                 (case replay (drop (length expected) (df_bytes f)) life_default of
                    Inl e \<Rightarrow> (Inl e, d)
                  | Inr s \<Rightarrow>
                      if io = Open_Sync_Fails then (Inl Os_Error, d)
                      else
                        (let d = d\<lparr>dk_file := Some (f\<lparr>df_synced := length (df_bytes f)\<rparr>)\<rparr>
                         in if ls_fixed_run s then (Inl (Invalid ''fixed-run capacity cannot reopen or resume''), d)
                            else (Inr \<lparr>lt_model = model, lt_state = s\<lparr>ls_pending := False\<rparr>, lt_poisoned = False\<rparr>,
                                  d\<lparr>dk_locked := True\<rparr>)))))"

definition lifetime_append ::
  "io_outcome \<Rightarrow> u8 \<Rightarrow> u64 \<Rightarrow> u64 \<Rightarrow> u64 \<Rightarrow> digest \<Rightarrow> lifetime \<Rightarrow> disk_file \<Rightarrow> (io_error + unit) \<times> lifetime \<times> disk_file" where
  "lifetime_append io kind setup start count digest l f =
     (if lt_poisoned l then (Inl (Invalid ''lifetime store poisoned''), l, f)
      else
        (let r = record_bytes kind setup start count digest
         in case life_apply r (lt_state l) of
              Inl e \<Rightarrow> (Inl e, l, f)
            | Inr next \<Rightarrow>
                (let (ok, f) = write_and_sync io r f
                 in if ok then (Inr (), l\<lparr>lt_state := next, lt_poisoned := False\<rparr>, f)
                    else (Inl Os_Error, l\<lparr>lt_poisoned := True\<rparr>, f))))"

definition counters :: "lifetime \<Rightarrow> u64 \<times> u64" where
  "counters l = (ls_setups (lt_state l), ls_attempts (lt_state l))"

definition accepted_head :: "lifetime \<Rightarrow> digest" where
  "accepted_head l = ls_head (lt_state l)"

section \<open>Filling a pool\<close>

record capacity_context =
  cx_session :: digest
  cx_channel :: digest
  cx_capacity :: digest
  cx_rows :: nat

definition begin_for ::
  "blake3 \<Rightarrow> io_outcome \<Rightarrow> digest \<Rightarrow> digest \<Rightarrow> nat \<Rightarrow> bool \<Rightarrow> lifetime \<Rightarrow> disk_file
     \<Rightarrow> (io_error + capacity_context) \<times> lifetime \<times> disk_file" where
  "begin_for H io session channel rows fixed_run l f =
     (if session = 0 \<or> channel = 0 \<or> ROOT_SLOTS \<le> ls_attempts (lt_state l)
      then (Inl (Invalid ''invalid channel/session or exhausted installed root''), l, f)
      else
        (let setup = ls_setups (lt_state l) + 1;
             (res, l, f) = lifetime_append io (if fixed_run then 4 else 1) setup 0 (word_of_nat rows) 0 l f
         in case res of
              Inl e \<Rightarrow> (Inl e, l, f)
            | Inr _ \<Rightarrow>
                (case model_bytes (lt_model l) of
                   Inl e \<Rightarrow> (Inl e, l, f)
                 | Inr bs \<Rightarrow>
                     (Inr \<lparr>cx_session = session, cx_channel = channel,
                           cx_capacity = digest_of (b3_hash H (str_bytes ''C71B12/capacity/'' @ bs @ digest_bytes session @ digest_bytes channel @ u64_le setup)),
                           cx_rows = rows\<rparr>, l, f))))"

text \<open>The authenticated channel: what the peer has sent, what we have sent, and whether a write succeeds.\<close>

record seal_channel =
  ch_in :: bytes
  ch_out :: bytes
  ch_write_ok :: bool

definition capacity_seal :: "digest option \<Rightarrow> bool \<Rightarrow> seal_channel \<Rightarrow> (io_error + digest) \<times> seal_channel" where
  "capacity_seal os_rng prover ch =
     (let tag = str_bytes ''C71B12S1'';
          (frame, ch) =
            (if prover
             then (if length (ch_in ch) < 40 then (None, ch\<lparr>ch_in := []\<rparr>)
                   else (Some (take 40 (ch_in ch)), ch\<lparr>ch_in := drop 40 (ch_in ch)\<rparr>))
             else (map_option (\<lambda>d. tag @ digest_bytes d) os_rng, ch))
      in case frame of
           None \<Rightarrow> (Inl Os_Error, ch)
         | Some frame \<Rightarrow>
             (let capacity = digest_of (drop 8 frame)
              in if take 8 frame \<noteq> tag \<or> capacity = 0
                 then (Inl (Invalid ''invalid B12 completion seal''), ch)
                 else if \<not> prover \<and> \<not> ch_write_ok ch then (Inl Os_Error, ch)
                 else (Inr capacity, if prover then ch else ch\<lparr>ch_out := ch_out ch @ frame\<rparr>)))"

record prover_output =
  po_values :: "u64 list"
  po_tags :: "(u64 \<times> u64 \<times> u64) list"

record verifier_output =
  vo_delta :: "u64 \<times> u64 \<times> u64"
  vo_keys :: "(u64 \<times> u64 \<times> u64) list"

record 'r pool =
  pool_session :: digest
  pool_capacity :: digest
  pool_rows :: "'r list"
  pool_delta :: "(u64 \<times> u64 \<times> u64) option"

type_synonym 'o bootstrap = "seal_channel \<Rightarrow> capacity_context \<Rightarrow> (io_error + 'o) \<times> seal_channel"

definition fill_pool ::
  "'o bootstrap \<Rightarrow> 'o bootstrap \<Rightarrow> (digest \<Rightarrow> digest \<Rightarrow> 'o \<Rightarrow> 'r pool) \<Rightarrow> blake3 \<Rightarrow> io_outcome \<Rightarrow> digest option \<Rightarrow> bool
     \<Rightarrow> seal_channel \<Rightarrow> digest \<Rightarrow> digest \<Rightarrow> nat \<Rightarrow> bool \<Rightarrow> lifetime \<Rightarrow> disk_file \<Rightarrow> (io_error + 'r pool) \<times> lifetime \<times> disk_file" where
  "fill_pool boot_fixed boot_aes mk H io os_rng prover ch session binding rows fixed_run l f =
     (let (ctx, l, f) = begin_for H io session binding rows fixed_run l f
      in case ctx of
           Inl e \<Rightarrow> (Inl e, l, f)
         | Inr ctx \<Rightarrow>
             (let (out, ch) = (if fixed_run then boot_fixed ch ctx else boot_aes ch ctx)
              in case out of
                   Inl e \<Rightarrow> (Inl e, l, f)
                 | Inr out \<Rightarrow>
                     (case fst (capacity_seal os_rng prover ch) of
                        Inl e \<Rightarrow> (Inl e, l, f)
                      | Inr capacity \<Rightarrow> (Inr (mk session capacity out), l, f))))"

definition prover_pool :: "digest \<Rightarrow> digest \<Rightarrow> prover_output \<Rightarrow> (u64 \<times> u64 \<times> u64 \<times> u64) pool" where
  "prover_pool session capacity out =
     \<lparr>pool_session = session, pool_capacity = capacity,
      pool_rows = map (\<lambda>(x, t). (x, t)) (zip (po_values out) (po_tags out)), pool_delta = None\<rparr>"

definition prover_for ::
  "prover_output bootstrap \<Rightarrow> prover_output bootstrap \<Rightarrow> blake3 \<Rightarrow> io_outcome \<Rightarrow> seal_channel \<Rightarrow> digest \<Rightarrow> digest \<Rightarrow> nat \<Rightarrow> bool
     \<Rightarrow> lifetime \<Rightarrow> disk_file \<Rightarrow> (io_error + (u64 \<times> u64 \<times> u64 \<times> u64) pool) \<times> lifetime \<times> disk_file" where
  "prover_for boot_fixed boot_aes H io = fill_pool boot_fixed boot_aes prover_pool H io None True"

definition verifier_pool :: "digest \<Rightarrow> digest \<Rightarrow> verifier_output \<Rightarrow> (u64 \<times> u64 \<times> u64) pool" where
  "verifier_pool session capacity out =
     \<lparr>pool_session = session, pool_capacity = capacity, pool_rows = vo_keys out, pool_delta = Some (vo_delta out)\<rparr>"

definition verifier_for ::
  "verifier_output bootstrap \<Rightarrow> verifier_output bootstrap \<Rightarrow> blake3 \<Rightarrow> io_outcome \<Rightarrow> digest option \<Rightarrow> seal_channel \<Rightarrow> digest \<Rightarrow> digest
     \<Rightarrow> nat \<Rightarrow> bool \<Rightarrow> lifetime \<Rightarrow> disk_file \<Rightarrow> (io_error + (u64 \<times> u64 \<times> u64) pool) \<times> lifetime \<times> disk_file" where
  "verifier_for boot_fixed boot_aes H io os_rng = fill_pool boot_fixed boot_aes verifier_pool H io os_rng False"

text \<open>The public entry points fix the profile.\<close>

definition lifetime_prover ::
  "prover_output bootstrap \<Rightarrow> prover_output bootstrap \<Rightarrow> blake3 \<Rightarrow> io_outcome \<Rightarrow> seal_channel \<Rightarrow> digest \<Rightarrow> digest \<Rightarrow> nat
     \<Rightarrow> lifetime \<Rightarrow> disk_file \<Rightarrow> (io_error + (u64 \<times> u64 \<times> u64 \<times> u64) pool) \<times> lifetime \<times> disk_file" where
  "lifetime_prover boot_fixed boot_aes H io ch session binding rows = prover_for boot_fixed boot_aes H io ch session binding rows False"

definition prover_fixed_run ::
  "prover_output bootstrap \<Rightarrow> prover_output bootstrap \<Rightarrow> blake3 \<Rightarrow> io_outcome \<Rightarrow> seal_channel \<Rightarrow> digest \<Rightarrow> digest \<Rightarrow> nat
     \<Rightarrow> lifetime \<Rightarrow> disk_file \<Rightarrow> (io_error + (u64 \<times> u64 \<times> u64 \<times> u64) pool) \<times> lifetime \<times> disk_file" where
  "prover_fixed_run boot_fixed boot_aes H io ch session binding rows = prover_for boot_fixed boot_aes H io ch session binding rows True"

definition lifetime_verifier ::
  "verifier_output bootstrap \<Rightarrow> verifier_output bootstrap \<Rightarrow> blake3 \<Rightarrow> io_outcome \<Rightarrow> digest option \<Rightarrow> seal_channel \<Rightarrow> digest \<Rightarrow> digest
     \<Rightarrow> nat \<Rightarrow> lifetime \<Rightarrow> disk_file \<Rightarrow> (io_error + (u64 \<times> u64 \<times> u64) pool) \<times> lifetime \<times> disk_file" where
  "lifetime_verifier boot_fixed boot_aes H io os_rng ch session binding rows =
     verifier_for boot_fixed boot_aes H io os_rng ch session binding rows False"

definition verifier_fixed_run ::
  "verifier_output bootstrap \<Rightarrow> verifier_output bootstrap \<Rightarrow> blake3 \<Rightarrow> io_outcome \<Rightarrow> digest option \<Rightarrow> seal_channel \<Rightarrow> digest \<Rightarrow> digest
     \<Rightarrow> nat \<Rightarrow> lifetime \<Rightarrow> disk_file \<Rightarrow> (io_error + (u64 \<times> u64 \<times> u64) pool) \<times> lifetime \<times> disk_file" where
  "verifier_fixed_run boot_fixed boot_aes H io os_rng ch session binding rows =
     verifier_for boot_fixed boot_aes H io os_rng ch session binding rows True"

section \<open>Attempts\<close>

record attempt =
  at_capacity :: digest
  at_setup :: u64
  at_ordinal :: u64
  at_predecessor :: digest
  at_first_base_row :: u64

definition fixed_run_context :: "'r pool \<Rightarrow> lifetime \<Rightarrow> io_error + model_binding \<times> digest \<times> attempt" where
  "fixed_run_context p l =
     (let s = lt_state l
      in if lt_poisoned l \<or> \<not> ls_fixed_run s \<or> ls_setups s \<noteq> 1 \<or> ROOT_SLOTS \<le> ls_attempts s
         then Inl (Invalid ''no live fixed-run capacity'')
         else Inr (lt_model l, pool_session p,
                   \<lparr>at_capacity = pool_capacity p, at_setup = ls_setups s, at_ordinal = ls_attempts s + 1,
                    at_predecessor = ls_head s, at_first_base_row = ls_used s\<rparr>))"

definition remaining_fp3 :: "lifetime \<Rightarrow> nat" where
  "remaining_fp3 l =
     (if lt_poisoned l then 0 else unat ((ls_rows (lt_state l) - ls_used (lt_state l)) div 3))"

definition pool_stop :: "'r pool \<Rightarrow> lifetime \<Rightarrow> 'r pool \<times> lifetime" where
  "pool_stop p l = (p\<lparr>pool_rows := [], pool_delta := None\<rparr>, l\<lparr>lt_poisoned := True\<rparr>)"

definition set_pending :: "bool \<Rightarrow> lifetime \<Rightarrow> lifetime" where
  "set_pending b l = l\<lparr>lt_state := (lt_state l)\<lparr>ls_pending := b\<rparr>\<rparr>"

datatype 't consumer_outcome = Panicked | Returned "io_error + 't \<times> digest option"

type_synonym ('r, 't) consumer = "attempt \<Rightarrow> 'r list \<Rightarrow> (u64 \<times> u64 \<times> u64) option \<Rightarrow> 't consumer_outcome"

text \<open>
  The reservation of an attempt: the burn record goes to the medium first, then the rows leave the
  pool. \<open>None\<close> is the panic of an index outside the pool.
\<close>

definition attempt_reserve ::
  "io_outcome \<Rightarrow> 'r \<Rightarrow> nat \<Rightarrow> 'r pool \<Rightarrow> lifetime \<Rightarrow> disk_file
     \<Rightarrow> ((io_error + attempt \<times> 'r list) \<times> 'r pool \<times> lifetime \<times> disk_file) option" where
  "attempt_reserve io zero_row full_fp3 p l f =
     (if 2 ^ 64 \<le> full_fp3 * 3 then Some (Inl (Invalid ''row count overflow''), p, l, f)
      else
        (let count = full_fp3 * 3; s = lt_state l;
             (res, l, f) = lifetime_append io 2 (ls_setups s) (ls_used s) (word_of_nat count) (ls_head s) l f
         in case res of
              Inl e \<Rightarrow> Some (Inl e, p, l, f)
            | Inr _ \<Rightarrow>
                do { reserved \<leftarrow> slice (unat (ls_used s)) count (pool_rows p);
                     let p = p\<lparr>pool_rows := take (unat (ls_used s)) (pool_rows p) @ replicate count zero_row
                                            @ drop (unat (ls_used s) + count) (pool_rows p)\<rparr>;
                     Some (Inr (\<lparr>at_capacity = pool_capacity p, at_setup = ls_setups s, at_ordinal = ls_attempts (lt_state l),
                                 at_predecessor = ls_head s, at_first_base_row = ls_used s\<rparr>, reserved), p, l, f) }))"

definition attempt_finish ::
  "io_outcome \<Rightarrow> u64 \<Rightarrow> 't consumer_outcome \<Rightarrow> lifetime \<Rightarrow> disk_file \<Rightarrow> (io_error + 't) \<times> lifetime \<times> disk_file" where
  "attempt_finish io setups outcome l f =
     (let l = set_pending False l
      in case outcome of
           Panicked \<Rightarrow> (Inl (Invalid ''attempt panicked; burned''), l, f)
         | Returned (Inl e) \<Rightarrow> (Inl e, l, f)
         | Returned (Inr (v, None)) \<Rightarrow> (Inr v, l, f)
         | Returned (Inr (v, Some digest)) \<Rightarrow>
             (let l = set_pending True l;
                  (res, l, f) = lifetime_append io 3 setups (ls_attempts (lt_state l)) 0 digest l f;
                  l = set_pending False l
              in case res of Inl e \<Rightarrow> (Inl e, l, f) | Inr _ \<Rightarrow> (Inr v, l, f)))"

definition poison_fixed_run :: "digest \<Rightarrow> bool \<Rightarrow> lifetime \<Rightarrow> lifetime" where
  "poison_fixed_run prior_head failed l =
     (if ls_fixed_run (lt_state l) \<and> (failed \<or> ls_head (lt_state l) = prior_head) then l\<lparr>lt_poisoned := True\<rparr> else l)"

definition pool_attempt ::
  "io_outcome \<Rightarrow> io_outcome \<Rightarrow> 'r \<Rightarrow> nat \<Rightarrow> ('r, 't) consumer \<Rightarrow> 'r pool \<Rightarrow> lifetime \<Rightarrow> disk_file
     \<Rightarrow> ((io_error + 't) \<times> 'r pool \<times> lifetime \<times> disk_file) option" where
  "pool_attempt io1 io2 zero_row full_fp3 consumer p l f =
     do { let prior_head = ls_head (lt_state l);
          let setups = ls_setups (lt_state l);
          (res, p, l, f) \<leftarrow> attempt_reserve io1 zero_row full_fp3 p l f;
          case res of
            Inl e \<Rightarrow> Some (Inl e, p, poison_fixed_run prior_head True l, f)
          | Inr (a, reserved) \<Rightarrow>
              (let (out, l, f) = attempt_finish io2 setups (consumer a reserved (pool_delta p)) l f
               in Some (out, p, poison_fixed_run prior_head (case out of Inl _ \<Rightarrow> True | Inr _ \<Rightarrow> False) l, f)) }"

section \<open>Records on the medium\<close>

lemma digest_roundtrip [simp]: "digest_of (digest_bytes d) = d"
  using unat_word_less [of d] by (simp add: digest_of_def digest_bytes_def le_value_le_bytes)

lemma length_digest_bytes [simp]: "length (digest_bytes d) = 32"
  by (simp add: digest_bytes_def)

lemma length_record_bytes [simp]: "length (record_bytes k a b c d) = RECORD"
  by (simp add: record_bytes_def RECORD_def)

lemma record_fields [simp]:
  "record_bytes k a b c d ! 0 = k" "record_word 1 (record_bytes k a b c d) = a" "record_word 9 (record_bytes k a b c d) = b"
  "record_word 17 (record_bytes k a b c d) = c" "digest_of (drop 25 (record_bytes k a b c d)) = d"
  by (simp_all add: record_bytes_def record_word_def)

lemma length_model_bytes: "model_bytes m = Inr bs \<Longrightarrow> length bs = 104"
  by (auto simp: model_bytes_def str_bytes_def split: if_splits)

text \<open>The complete records of a journal, and the state that they lead to.\<close>

function chunks :: "bytes \<Rightarrow> bytes list" where
  "chunks bs = (if length bs < RECORD then [] else take RECORD bs # chunks (drop RECORD bs))"
  by pat_completeness auto
termination by (relation "measure length") (auto simp: RECORD_def)

declare chunks.simps [simp del]

lemma RECORD_pos [simp]: "0 < RECORD" "RECORD \<noteq> 0"
  by (simp_all add: RECORD_def)

lemma chunks_short [simp]: "length bs < RECORD \<Longrightarrow> chunks bs = []"
  by (simp add: chunks.simps)

lemma chunks_record: "length r = RECORD \<Longrightarrow> chunks (r @ bs) = r # chunks bs"
  by (simp add: chunks.simps [of "r @ bs"])

lemma chunks_append: "length bs = n * RECORD \<Longrightarrow> chunks (bs @ cs) = chunks bs @ chunks cs"
proof (induction n arbitrary: bs)
  case (Suc n)
  have "length (take RECORD bs) = RECORD" "length (drop RECORD bs) = n * RECORD" using Suc.prems by simp_all
  then show ?case using Suc.IH [of "drop RECORD bs"] chunks_record [of "take RECORD bs" "drop RECORD bs @ cs"]
      chunks_record [of "take RECORD bs" "drop RECORD bs"] by (simp flip: append_assoc)
qed simp

lemma chunks_take: "\<exists>n. chunks (take k bs) = take n (chunks bs)"
proof (induction bs arbitrary: k rule: chunks.induct)
  case (1 bs)
  show ?case
  proof (cases "length bs < RECORD \<or> k < RECORD")
    case True
    then have "chunks (take k bs) = take 0 (chunks bs)" by auto
    then show ?thesis by blast
  next
    case False
    then obtain n where "chunks (take (k - RECORD) (drop RECORD bs)) = take n (chunks (drop RECORD bs))" using 1 by blast
    then have "chunks (take k bs) = take (Suc n) (chunks bs)"
      using False by (simp add: chunks.simps [of "take k bs"] chunks.simps [of bs] drop_take min_def)
    then show ?thesis by blast
  qed
qed

definition try_apply :: "bytes \<Rightarrow> life_state \<Rightarrow> life_state option" where
  "try_apply r s = (case life_apply r s of Inl _ \<Rightarrow> None | Inr s' \<Rightarrow> Some s')"

definition apply_all :: "bytes list \<Rightarrow> life_state option" where
  "apply_all rs = fold_opt try_apply rs life_default"

lemma try_apply_Some: "try_apply r s = Some s' \<longleftrightarrow> life_apply r s = Inr s'"
  by (simp add: try_apply_def split: sum.splits)

lemma apply_all_snoc: "apply_all (rs @ [r]) = do { s \<leftarrow> apply_all rs; try_apply r s }"
  by (auto simp: apply_all_def fold_opt_append split: Option.bind_splits)

lemma apply_all_Nil [simp]: "apply_all [] = Some life_default"
  by (simp add: apply_all_def)

lemma apply_all_prefix: "apply_all (rs @ rs') \<noteq> None \<Longrightarrow> apply_all rs \<noteq> None"
  by (auto simp: apply_all_def fold_opt_append split: Option.bind_splits)

lemma replay_chunks:
  "length bs = n * RECORD \<Longrightarrow> fold_opt try_apply (chunks bs) s = Some s' \<Longrightarrow> replay bs s = Inr s'"
proof (induction n arbitrary: bs s)
  case (Suc n)
  have ne: "bs \<noteq> []" "\<not> length bs < RECORD" using Suc.prems(1) by auto
  have l: "length (drop RECORD bs) = n * RECORD" using Suc.prems(1) by simp
  obtain s1 where "life_apply (take RECORD bs) s = Inr s1" "fold_opt try_apply (chunks (drop RECORD bs)) s1 = Some s'"
    using Suc.prems(2) ne by (auto simp: chunks.simps [of bs] try_apply_Some split: Option.bind_splits)
  then show ?case using Suc.IH [OF l] ne by (simp add: replay.simps [of bs])
qed (simp add: replay.simps)

section \<open>Burns never overlap\<close>

definition burns :: "bytes list \<Rightarrow> (u64 \<times> nat \<times> nat) list" where
  "burns rs = map (\<lambda>r. (record_word 1 r, unat (record_word 9 r), unat (record_word 17 r))) (filter (\<lambda>r. r ! 0 = 2) rs)"

text \<open>One extent of base rows lies in an earlier set-up, or earlier in the same pool.\<close>

fun extent_before :: "u64 \<times> nat \<times> nat \<Rightarrow> u64 \<times> nat \<times> nat \<Rightarrow> bool" where
  "extent_before (s1, a1, n1) (s2, a2, n2) \<longleftrightarrow> s1 < s2 \<or> s1 = s2 \<and> a1 + n1 \<le> a2"

fun extent_within :: "u64 \<Rightarrow> nat \<Rightarrow> u64 \<times> nat \<times> nat \<Rightarrow> bool" where
  "extent_within setups used (s1, a1, n1) \<longleftrightarrow> s1 < setups \<or> s1 = setups \<and> a1 + n1 \<le> used"

definition life_ok :: "life_state \<Rightarrow> (u64 \<times> nat \<times> nat) list \<Rightarrow> bool" where
  "life_ok s bl \<longleftrightarrow> ls_used s \<le> ls_rows s \<and> length bl = unat (ls_attempts s) \<and> unat (ls_attempts s) \<le> 3
     \<and> ls_setups s \<le> life_limit \<and> (ls_setups s = 0 \<longrightarrow> ls_used s = 0)
     \<and> sorted_wrt extent_before bl \<and> (\<forall>e \<in> set bl. extent_within (ls_setups s) (unat (ls_used s)) e)"

lemma setup_increases: "x < life_limit \<Longrightarrow> x < x + 1 \<and> x + 1 \<le> life_limit"
proof -
  assume h: "x < life_limit"
  have "unat life_limit = 2 ^ 20" by (simp add: life_limit_def)
  then have u: "unat x < 2 ^ 20" using h by (simp add: word_less_nat_alt)
  then have "unat (x + 1) = unat x + 1" by (simp add: unat_word_ariths)
  then show ?thesis using u \<open>unat life_limit = 2 ^ 20\<close> by (simp add: word_less_nat_alt word_le_nat_alt)
qed

lemma used_advances:
  fixes used :: u64
  assumes "used \<le> total_rows" "count \<le> total_rows - used"
  shows "unat (used + count) = unat used + unat count" "used + count \<le> total_rows"
proof -
  have "unat count \<le> unat total_rows - unat used" using assms by (simp add: word_le_nat_alt unat_sub)
  moreover have "unat used \<le> unat total_rows" using assms(1) by (simp add: word_le_nat_alt)
  ultimately have le: "unat used + unat count \<le> unat total_rows" by simp
  then have "unat used + unat count < 2 ^ 64" using unat_word_less [of total_rows] by simp
  then show u: "unat (used + count) = unat used + unat count" by (simp add: unat_word_ariths)
  show "used + count \<le> total_rows" using le u by (simp add: word_le_nat_alt)
qed

lemma attempts_advance: "x < ROOT_SLOTS \<Longrightarrow> unat (x + 1) = unat x + 1 \<and> unat x < 3"
proof -
  assume "x < ROOT_SLOTS"
  then have "unat x < 3" by (simp add: ROOT_SLOTS_def word_less_nat_alt)
  then show ?thesis by (simp add: unat_word_ariths)
qed

lemma burns_snoc: "burns (rs @ [r]) = burns rs @ (if r ! 0 = 2 then [(record_word 1 r, unat (record_word 9 r), unat (record_word 17 r))] else [])"
  by (simp add: burns_def)

lemma extent_within_mono:
  assumes "extent_within s u e" "s < s' \<or> s = s' \<and> u \<le> u'"
  shows "extent_within s' u' e"
  using assms by (cases e) auto

lemma life_ok_setup:
  assumes "life_ok s bl" "setup_ok s (ls_setups s + 1) start count digest"
  shows "life_ok (s\<lparr>ls_setups := ls_setups s + 1, ls_rows := count, ls_used := 0, ls_pending := False\<rparr>) bl"
proof -
  have lt: "ls_setups s < ls_setups s + 1" "ls_setups s + 1 \<le> life_limit" using assms(2) setup_increases by (auto simp: setup_ok_def)
  have w: "extent_within (ls_setups s + 1) 0 e" if "e \<in> set bl" for e
    using assms(1) that lt(1) extent_within_mono [of "ls_setups s" "unat (ls_used s)" e "ls_setups s + 1" 0] by (simp add: life_ok_def)
  show ?thesis using assms(1) w lt(2) by (simp add: life_ok_def)
qed

lemma life_ok_burn:
  assumes "life_ok s bl" "burn_ok s setup start count digest"
  shows "life_ok (s\<lparr>ls_used := ls_used s + count, ls_attempts := ls_attempts s + 1, ls_pending := True\<rparr>) (bl @ [(setup, unat start, unat count)])"
proof -
  have u: "unat (ls_used s + count) = unat (ls_used s) + unat count" "ls_used s + count \<le> ls_rows s"
    using used_advances [of "ls_used s" "ls_rows s" count] assms by (auto simp: life_ok_def burn_ok_def)
  have a: "unat (ls_attempts s + 1) = unat (ls_attempts s) + 1" "unat (ls_attempts s) < 3"
    using attempts_advance assms(2) by (auto simp: burn_ok_def)
  have w: "extent_within (ls_setups s) (unat (ls_used s)) e" if "e \<in> set bl" for e using assms(1) that by (simp add: life_ok_def)
  have b: "extent_before e (setup, unat start, unat count)" if "e \<in> set bl" for e
    using w [OF that] assms(2) by (cases e) (auto simp: burn_ok_def)
  have w': "extent_within (ls_setups s) (unat (ls_used s + count)) e" if "e \<in> set bl" for e
    by (rule extent_within_mono [OF w [OF that]]) (simp only: u(1) le_add1 simp_thms)
  have n: "extent_within (ls_setups s) (unat (ls_used s + count)) (setup, unat start, unat count)"
    using assms(2) u(1) by (auto simp: burn_ok_def)
  have ne: "ls_setups s \<noteq> 0" using assms(2) by (auto simp: burn_ok_def)
  show ?thesis using assms(1) u(2) a b w' n ne by (simp add: life_ok_def sorted_wrt_append)
qed

lemma life_apply_cases:
  assumes "life_apply r s = Inr s'"
  obtains
    (fill) "r ! 0 = 1" "setup_ok s (record_word 1 r) (record_word 9 r) (record_word 17 r) (digest_of (drop 25 r))"
      "s' = s\<lparr>ls_setups := record_word 1 r, ls_rows := record_word 17 r, ls_used := 0, ls_pending := False\<rparr>"
  | (fixed) "r ! 0 = 4" "fixed_run_ok s (record_word 1 r) (record_word 9 r) (record_word 17 r) (digest_of (drop 25 r))"
      "s' = s\<lparr>ls_fixed_run := True, ls_setups := 1, ls_rows := record_word 17 r\<rparr>"
  | (burn) "r ! 0 = 2" "burn_ok s (record_word 1 r) (record_word 9 r) (record_word 17 r) (digest_of (drop 25 r))"
      "s' = s\<lparr>ls_used := ls_used s + record_word 17 r, ls_attempts := ls_attempts s + 1, ls_pending := True\<rparr>"
  | (acc) "r ! 0 = 3" "accept_ok s (record_word 1 r) (record_word 9 r) (record_word 17 r) (digest_of (drop 25 r))"
      "s' = s\<lparr>ls_head := digest_of (drop 25 r), ls_pending := False\<rparr>"
  using assms unfolding life_apply_def Let_def by (auto split: if_splits)

lemma life_ok_apply:
  assumes "life_apply r s = Inr s'" "life_ok s (burns rs)"
  shows "life_ok s' (burns (rs @ [r]))"
  using assms(1)
proof (cases rule: life_apply_cases)
  case fill
  then have "record_word 1 r = ls_setups s + 1" by (simp add: setup_ok_def)
  then show ?thesis using fill life_ok_setup [OF assms(2)] by (auto simp: burns_snoc)
next
  case fixed
  then show ?thesis using assms(2)
    by (auto simp: burns_snoc life_ok_def fixed_run_ok_def life_limit_def extent_within_mono [of 0 0 _ 1])
next
  case burn
  then show ?thesis using life_ok_burn [OF assms(2)] by (simp add: burns_snoc)
next
  case acc
  then show ?thesis using assms(2) by (simp add: burns_snoc life_ok_def)
qed

lemma apply_all_ok: "apply_all rs = Some s \<Longrightarrow> life_ok s (burns rs)"
proof (induction rs arbitrary: s rule: rev_induct)
  case Nil
  then show ?case by (auto simp: life_ok_def life_default_def burns_def)
next
  case (snoc r rs)
  then obtain s1 where "apply_all rs = Some s1" "life_apply r s1 = Inr s"
    by (auto simp: apply_all_snoc try_apply_Some split: Option.bind_splits)
  then show ?case using life_ok_apply snoc.IH by blast
qed

text \<open>The set-ups that the journal records have increasing numbers.\<close>

definition fills :: "bytes list \<Rightarrow> u64 list" where
  "fills rs = map (record_word 1) (filter (\<lambda>r. r ! 0 = 1 \<or> r ! 0 = 4) rs)"

lemma fills_snoc: "fills (rs @ [r]) = fills rs @ (if r ! 0 = 1 \<or> r ! 0 = 4 then [record_word 1 r] else [])"
  by (simp add: fills_def)

lemma fills_append: "fills (rs @ rs') = fills rs @ fills rs'"
  by (simp add: fills_def)

lemma fills_sorted: "apply_all rs = Some s \<Longrightarrow> sorted_wrt (<) (fills rs) \<and> (\<forall>x \<in> set (fills rs). x \<le> ls_setups s)"
proof (induction rs arbitrary: s rule: rev_induct)
  case Nil
  then show ?case by (simp add: fills_def)
next
  case (snoc r rs)
  then obtain s1 where "apply_all rs = Some s1" and a: "life_apply r s1 = Inr s"
    by (auto simp: apply_all_snoc try_apply_Some split: Option.bind_splits)
  then have IH: "sorted_wrt (<) (fills rs)" "\<forall>x \<in> set (fills rs). x \<le> ls_setups s1" using snoc.IH by auto
  have new: ?case if "ls_setups s = record_word 1 r" "ls_setups s1 < record_word 1 r"
    using IH that by (fastforce simp: fills_snoc sorted_wrt_append)
  from a show ?case
  proof (cases rule: life_apply_cases)
    case fill
    then show ?thesis using new setup_increases [of "ls_setups s1"] by (auto simp: setup_ok_def)
  next
    case fixed
    then show ?thesis using new by (auto simp: fixed_run_ok_def)
  qed (use IH in \<open>simp_all add: fills_snoc\<close>)
qed

section \<open>The journal under failures\<close>

definition journal :: "bytes \<Rightarrow> bytes list" where
  "journal bs = chunks (drop 104 bs)"

text \<open>The medium holds a replayable journal; the rows handed out and the pools filled so far are recorded in its synchronised part.\<close>

definition file_ok :: "(u64 \<times> nat \<times> nat) list \<Rightarrow> u64 list \<Rightarrow> disk_file \<Rightarrow> bool" where
  "file_ok E F f \<longleftrightarrow> df_synced f \<le> length (df_bytes f) \<and> apply_all (journal (df_bytes f)) \<noteq> None
     \<and> subseq E (burns (journal (take (df_synced f) (df_bytes f)))) \<and> subseq F (fills (journal (take (df_synced f) (df_bytes f))))"

definition unpend :: "life_state \<Rightarrow> life_state" where
  "unpend s = s\<lparr>ls_pending := False\<rparr>"

text \<open>
  A store that is not poisoned agrees with its journal, up to the pending flag: the journal can hold
  a pending attempt that the store has already given up.
\<close>

definition store_rel :: "bool \<Rightarrow> lifetime \<Rightarrow> disk_file \<Rightarrow> bool" where
  "store_rel b l f \<longleftrightarrow> (\<not> lt_poisoned l \<longrightarrow>
     df_synced f = length (df_bytes f) \<and> model_bytes (lt_model l) = Inr (take 104 (df_bytes f))
     \<and> RECORD dvd length (drop 104 (df_bytes f))
     \<and> (\<exists>s. apply_all (journal (df_bytes f)) = Some s \<and> unpend s = unpend (lt_state l) \<and> (b \<longrightarrow> ls_pending s)))"

definition store_ok :: "lifetime \<Rightarrow> disk_file \<Rightarrow> bool" where
  "store_ok l f \<longleftrightarrow> store_rel (ls_pending (lt_state l)) l f"

lemma unpend_eq: "unpend s = unpend t \<Longrightarrow> ls_fixed_run s = ls_fixed_run t \<and> ls_setups s = ls_setups t \<and> ls_attempts s = ls_attempts t
    \<and> ls_rows s = ls_rows t \<and> ls_used s = ls_used t \<and> ls_head s = ls_head t"
  by (cases s; cases t) (simp add: unpend_def)

lemma unpend_eqI: "\<lbrakk>ls_fixed_run s = ls_fixed_run t; ls_setups s = ls_setups t; ls_attempts s = ls_attempts t;
    ls_rows s = ls_rows t; ls_used s = ls_used t; ls_head s = ls_head t\<rbrakk> \<Longrightarrow> unpend s = unpend t"
  by (cases s; cases t) (simp add: unpend_def)

lemma apply_unpend:
  assumes "life_apply r t = Inr t'" "unpend s = unpend t" "ls_pending t \<longrightarrow> ls_pending s"
  shows "\<exists>s'. life_apply r s = Inr s' \<and> unpend s' = unpend t' \<and> (ls_pending t' \<longrightarrow> ls_pending s')"
  using assms(1)
proof (cases rule: life_apply_cases)
  case fill
  then show ?thesis using unpend_eq [OF assms(2)] by (auto simp: life_apply_def setup_ok_def intro!: unpend_eqI)
next
  case fixed
  then show ?thesis using unpend_eq [OF assms(2)] assms(3) by (auto simp: life_apply_def fixed_run_ok_def intro!: unpend_eqI)
next
  case burn
  then show ?thesis using unpend_eq [OF assms(2)] by (auto simp: life_apply_def burn_ok_def intro!: unpend_eqI)
next
  case acc
  then show ?thesis using unpend_eq [OF assms(2)] assms(3) by (auto simp: life_apply_def accept_ok_def intro!: unpend_eqI)
qed

lemma journal_append:
  assumes "RECORD dvd length (drop 104 bs)" "104 \<le> length bs"
  shows "journal (bs @ cs) = journal bs @ chunks cs"
  using assms chunks_append [of "drop 104 bs" "length (drop 104 bs) div RECORD" cs] by (simp add: journal_def)

lemma chunks_prefix_record: "length r = RECORD \<Longrightarrow> chunks (take n r) = [] \<or> take n r = r \<and> chunks (take n r) = [r]"
  using chunks_record [of r "[]"] by (cases "n < RECORD") simp_all

lemma journal_take_prefix: "\<exists>rs. journal bs = journal (take k bs) @ rs"
proof -
  obtain n where "chunks (take (k - 104) (drop 104 bs)) = take n (chunks (drop 104 bs))" using chunks_take by blast
  then have "journal bs = journal (take k bs) @ drop n (journal bs)" by (simp add: journal_def drop_take)
  then show ?thesis by blast
qed

text \<open>
  Writing one legal record: whatever the medium does, the journal stays replayable and keeps the
  burns; when the write is synchronised the store and the journal move on together.
\<close>

lemma write_record:
  assumes "file_ok E F f" "store_ok l f" "\<not> lt_poisoned l" "length r = RECORD" "life_apply r (lt_state l) = Inr next"
    and "write_and_sync io r f = (ok, f')"
  shows "file_ok E F f' \<and> (ok \<longrightarrow> store_ok (l\<lparr>lt_state := next, lt_poisoned := False\<rparr>) f' \<and> (r ! 0 = 2 \<longrightarrow>
    file_ok (E @ [(record_word 1 r, unat (record_word 9 r), unat (record_word 17 r))]) F f')
    \<and> (r ! 0 = 1 \<or> r ! 0 = 4 \<longrightarrow> file_ok E (F @ [record_word 1 r]) f'))"
proof -
  let ?b = "df_bytes f"
  obtain s where sy: "df_synced f = length ?b" and m: "model_bytes (lt_model l) = Inr (take 104 ?b)" and dv: "RECORD dvd length (drop 104 ?b)"
    and s: "apply_all (journal ?b) = Some s" "unpend s = unpend (lt_state l)" "ls_pending (lt_state l) \<longrightarrow> ls_pending s"
    using assms(2,3) by (auto simp: store_ok_def store_rel_def)
  have len: "104 \<le> length ?b" using length_model_bytes [OF m] by simp
  obtain s' where s': "life_apply r s = Inr s'" "unpend s' = unpend next" "ls_pending next \<longrightarrow> ls_pending s'"
    using apply_unpend [OF assms(5) s(2,3)] by blast
  have jr: "journal (?b @ r) = journal ?b @ [r]"
    using journal_append [OF dv len] chunks_record [OF assms(4), of "[]"] by simp
  have ar: "apply_all (journal (?b @ r)) = Some s'" unfolding jr using s(1) s'(1) by (simp add: apply_all_snoc try_apply_Some)
  have pre: "apply_all (journal (?b @ take n r)) \<noteq> None" for n
    using chunks_prefix_record [OF assms(4), of n] journal_append [OF dv len, of "take n r"] ar s(1) by auto
  have E: "subseq E (burns (journal ?b))" "subseq F (fills (journal ?b))" using assms(1) sy by (simp_all add: file_ok_def)
  have E': "subseq E (burns (journal (?b @ r)))" "subseq F (fills (journal (?b @ r)))"
    unfolding jr burns_snoc fills_snoc using E by (simp_all add: list_emb_prefix)
  show ?thesis
  proof (cases io)
    case Io_Ok
    have f': "f' = \<lparr>df_bytes = ?b @ r, df_synced = length (?b @ r)\<rparr>" "ok" using assms(6) Io_Ok by (auto simp: write_and_sync_def)
    have "length ?b + RECORD - 104 = length (drop 104 ?b) + RECORD" using len by simp
    then have dv': "RECORD dvd length ?b + RECORD - 104" using dv by simp
    have "store_ok (l\<lparr>lt_state := next, lt_poisoned := False\<rparr>) f'"
      using m len dv' assms(4) ar s' by (simp add: store_ok_def store_rel_def f')
    moreover have "subseq (E @ [x]) (burns (journal (?b @ r)))"
      if "r ! 0 = 2" "x = (record_word 1 r, unat (record_word 9 r), unat (record_word 17 r))" for x
      unfolding jr burns_snoc using E(1) that by (simp add: list_emb_append_mono)
    moreover have "subseq (F @ [record_word 1 r]) (fills (journal (?b @ r)))" if "r ! 0 = 1 \<or> r ! 0 = 4"
      unfolding jr fills_snoc using E(2) that by (simp add: list_emb_append_mono)
    ultimately show ?thesis using ar E' by (simp add: file_ok_def f')
  next
    case (Write_Stops n)
    then have "f' = f\<lparr>df_bytes := ?b @ take n r\<rparr>" "\<not> ok" using assms(6) by (auto simp: write_and_sync_def)
    then show ?thesis using pre [of n] E sy by (simp add: file_ok_def)
  next
    case Sync_Fails
    then have "f' = f\<lparr>df_bytes := ?b @ r\<rparr>" "\<not> ok" using assms(6) by (auto simp: write_and_sync_def)
    then show ?thesis using ar E sy by (simp add: file_ok_def)
  qed
qed

lemma append_record:
  assumes "file_ok E F f" "store_ok l f" "lifetime_append io k a b c d l f = (res, l', f')"
  shows "file_ok E F f' \<and> store_ok l' f' \<and> lt_model l' = lt_model l
    \<and> (res = Inr () \<longrightarrow> \<not> lt_poisoned l \<and> \<not> lt_poisoned l' \<and> life_apply (record_bytes k a b c d) (lt_state l) = Inr (lt_state l')
        \<and> (k = 2 \<longrightarrow> file_ok (E @ [(a, unat b, unat c)]) F f') \<and> (k = 1 \<or> k = 4 \<longrightarrow> file_ok E (F @ [a]) f'))"
proof (cases "lt_poisoned l \<or> (\<exists>e. life_apply (record_bytes k a b c d) (lt_state l) = Inl e)")
  case True
  then have "(\<exists>e. res = Inl e) \<and> l' = l \<and> f' = f" using assms(3) by (auto simp: lifetime_append_def Let_def split: if_splits)
  then show ?thesis using assms(1,2) by auto
next
  case False
  then obtain next' where n: "life_apply (record_bytes k a b c d) (lt_state l) = Inr next'" "\<not> lt_poisoned l"
    by (cases "life_apply (record_bytes k a b c d) (lt_state l)") auto
  obtain ok g where w: "write_and_sync io (record_bytes k a b c d) f = (ok, g)" by fastforce
  note W = write_record [OF assms(1,2) n(2) length_record_bytes n(1) w, unfolded record_fields]
  show ?thesis
  proof (cases ok)
    case True
    then have "l' = l\<lparr>lt_state := next', lt_poisoned := False\<rparr> \<and> f' = g" using n w assms(3) by (simp add: lifetime_append_def)
    then show ?thesis using W True n by simp
  next
    case False
    then have "res = Inl Os_Error \<and> l' = l\<lparr>lt_poisoned := True\<rparr> \<and> f' = g" using n w assms(3) by (auto simp: lifetime_append_def)
    then show ?thesis using W by (simp add: store_ok_def store_rel_def)
  qed
qed

lemma begin_for_ok:
  assumes "file_ok E F f" "store_ok l f" "begin_for H io session channel n fixed_run l f = (res, l', f')"
  shows "file_ok E F f' \<and> store_ok l' f' \<and> lt_model l' = lt_model l \<and> (\<forall>cx. res = Inr cx \<longrightarrow> file_ok E (F @ [ls_setups (lt_state l')]) f')"
proof -
  obtain r l1 f1 where a: "lifetime_append io (if fixed_run then 4 else 1) (ls_setups (lt_state l) + 1) 0 (word_of_nat n) 0 l f = (r, l1, f1)"
    using prod_cases3 by metis
  note A = append_record [OF assms(1,2) a]
  have l: "l' = l \<and> f' = f \<and> (\<exists>e. res = Inl e) \<or> l' = l1 \<and> f' = f1 \<and> (r = Inr () \<or> (\<exists>e. res = Inl e))"
    using assms(3) a by (auto simp: begin_for_def split: if_splits sum.splits)
  have "ls_setups (lt_state l1) = ls_setups (lt_state l) + 1" if "r = Inr ()"
  proof -
    have "life_apply (record_bytes (if fixed_run then 4 else 1) (ls_setups (lt_state l) + 1) 0 (word_of_nat n) 0) (lt_state l) = Inr (lt_state l1)"
      using A that by blast
    then show ?thesis by (cases rule: life_apply_cases; unfold record_fields; auto simp: fixed_run_ok_def split: if_splits)
  qed
  then show ?thesis using l A assms(1,2) by (auto split: if_splits)
qed

text \<open>The pool that a set-up installs, with its number.\<close>

definition filled_by :: "io_error + 'r pool \<Rightarrow> lifetime \<Rightarrow> (u64 \<times> 'r list) list" where
  "filled_by res l = (case res of Inl _ \<Rightarrow> [] | Inr p \<Rightarrow> [(ls_setups (lt_state l), pool_rows p)])"

lemma fill_pool_ok:
  assumes "file_ok E F f" "store_ok l f"
    and "fill_pool boot_fixed boot_aes mk H io os_rng prover ch session binding n fixed_run l f = (res, l', f')"
  shows "file_ok E (F @ map fst (filled_by res l')) f' \<and> store_ok l' f' \<and> lt_model l' = lt_model l"
proof -
  obtain r l1 f1 where b: "begin_for H io session binding n fixed_run l f = (r, l1, f1)" using prod_cases3 by metis
  have "l' = l1 \<and> f' = f1 \<and> ((\<exists>cx. r = Inr cx) \<or> (\<exists>e. res = Inl e))"
    using assms(3) b by (auto simp: fill_pool_def Let_def split: sum.splits prod.splits)
  then show ?thesis using begin_for_ok [OF assms(1,2) b] by (auto simp: filled_by_def split: sum.splits)
qed

text \<open>The extent of what a consumer receives.\<close>

fun extent :: "attempt \<times> 'r list \<Rightarrow> u64 \<times> nat \<times> nat" where
  "extent (a, rs) = (at_setup a, unat (at_first_base_row a), length rs)"

lemma attempt_reserve_ok:
  assumes "file_ok E F f" "store_ok l f" "attempt_reserve io z n p l f = Some (res, p', l', f')"
  shows "file_ok E F f' \<and> store_ok l' f' \<and> lt_model l' = lt_model l
    \<and> (\<forall>h. res = Inr h \<longrightarrow> file_ok (E @ [extent h]) F f' \<and> ls_pending (lt_state l') \<and> \<not> lt_poisoned l')"
proof (cases "2 ^ 64 \<le> n * 3")
  case True
  then show ?thesis using assms by (auto simp: attempt_reserve_def)
next
  case False
  let ?s = "lt_state l"
  obtain r l1 f1 where a: "lifetime_append io 2 (ls_setups ?s) (ls_used ?s) (word_of_nat (n * 3)) (ls_head ?s) l f = (r, l1, f1)"
    using prod_cases3 by metis
  have A: "file_ok E F f1 \<and> store_ok l1 f1 \<and> lt_model l1 = lt_model l"
    "r = Inr () \<Longrightarrow> \<not> lt_poisoned l1 \<and> life_apply (record_bytes 2 (ls_setups ?s) (ls_used ?s) (word_of_nat (n * 3)) (ls_head ?s)) ?s = Inr (lt_state l1)
      \<and> file_ok (E @ [(ls_setups ?s, unat (ls_used ?s), unat (word_of_nat (n * 3) :: u64))]) F f1"
    using append_record [OF assms(1,2) a] by simp_all
  have lf: "l' = l1" "f' = f1" using assms(3) False a
    by (auto simp: attempt_reserve_def Let_def split: sum.splits Option.bind_splits)
  have h: "r = Inr () \<and> extent h = (ls_setups ?s, unat (ls_used ?s), n * 3)" if "res = Inr h" for h
    using assms(3) False a that by (auto simp: attempt_reserve_def Let_def slice_Some split: sum.splits Option.bind_splits)
  have u: "unat (word_of_nat (n * 3) :: u64) = n * 3" using False unfolding unat_of_nat take_bit_eq_mod by simp
  have pend: "ls_pending (lt_state l1)" if "r = Inr ()"
  proof -
    have "life_apply (record_bytes 2 (ls_setups ?s) (ls_used ?s) (word_of_nat (n * 3)) (ls_head ?s)) ?s = Inr (lt_state l1)" using A(2) that by blast
    then show ?thesis by (cases rule: life_apply_cases) simp_all
  qed
  show ?thesis using A h pend unfolding lf u by metis
qed

lemma store_rel_pending: "store_ok (set_pending True l) f \<longleftrightarrow> store_rel True l f" "store_rel True l f \<Longrightarrow> store_ok (set_pending b l) f"
  by (auto simp: store_ok_def store_rel_def set_pending_def unpend_def)

lemma store_ok_unset: "store_ok l f \<Longrightarrow> store_ok (set_pending False l) f"
  by (auto simp: store_ok_def store_rel_def set_pending_def unpend_def)

lemma set_pending_model [simp]: "lt_model (set_pending b l) = lt_model l"
  by (simp add: set_pending_def)

lemma attempt_finish_ok:
  assumes "file_ok E F f" "store_rel True l f" "attempt_finish io setups outcome l f = (res, l', f')"
  shows "file_ok E F f' \<and> store_ok l' f' \<and> lt_model l' = lt_model l"
proof -
  let ?l = "set_pending True (set_pending False l)"
  have e: "?l = set_pending True l" by (simp add: set_pending_def)
  have s: "store_ok (set_pending b l) f" for b using store_rel_pending(2) assms(2) .
  show ?thesis
  proof (cases "\<exists>v d. outcome = Returned (Inr (v, Some d))")
    case True
    then obtain v d where o: "outcome = Returned (Inr (v, Some d))" by blast
    obtain r l1 f1 where a: "lifetime_append io 3 setups (ls_attempts (lt_state ?l)) 0 d ?l f = (r, l1, f1)" using prod_cases3 by metis
    have "l' = set_pending False l1" "f' = f1" using assms(3) o a by (auto simp: attempt_finish_def Let_def split: sum.splits)
    then show ?thesis using append_record [OF assms(1) s [of True] a [unfolded e]] store_ok_unset by auto
  next
    case False
    then have "l' = set_pending False l \<and> f' = f" using assms(3)
      by (auto simp: attempt_finish_def Let_def split: consumer_outcome.splits sum.splits option.splits)
    then show ?thesis using assms(1) s by simp
  qed
qed

lemma poison_ok: "store_ok l f \<Longrightarrow> store_ok (poison_fixed_run h b l) f \<and> lt_model (poison_fixed_run h b l) = lt_model l"
  by (simp add: poison_fixed_run_def store_ok_def store_rel_def)

definition handed_by :: "io_outcome \<Rightarrow> 'r \<Rightarrow> nat \<Rightarrow> 'r pool \<Rightarrow> lifetime \<Rightarrow> disk_file \<Rightarrow> (attempt \<times> 'r list) list" where
  "handed_by io z n p l f = (case attempt_reserve io z n p l f of Some (Inr h, _) \<Rightarrow> [h] | _ \<Rightarrow> [])"

lemma pool_attempt_ok:
  assumes "file_ok E F f" "store_ok l f" "pool_attempt io1 io2 z n consumer p l f = Some (res, p', l', f')"
  shows "file_ok (E @ map extent (handed_by io1 z n p l f)) F f' \<and> store_ok l' f' \<and> lt_model l' = lt_model l"
proof -
  obtain r p1 l1 f1 where a: "attempt_reserve io1 z n p l f = Some (r, p1, l1, f1)"
    using assms(3) by (cases "attempt_reserve io1 z n p l f") (auto simp: pool_attempt_def Let_def)
  note A = attempt_reserve_ok [OF assms(1,2) a]
  show ?thesis
  proof (cases r)
    case (Inl e)
    then have "l' = poison_fixed_run (ls_head (lt_state l)) True l1" "f' = f1" using assms(3) a by (auto simp: pool_attempt_def)
    then show ?thesis using A a Inl poison_ok by (auto simp: handed_by_def)
  next
    case (Inr h)
    obtain at rs where h: "h = (at, rs)" by fastforce
    obtain out l2 f2 where fin: "attempt_finish io2 (ls_setups (lt_state l)) (consumer at rs (pool_delta p1)) l1 f1 = (out, l2, f2)"
      using prod_cases3 by metis
    have lf: "l' = poison_fixed_run (ls_head (lt_state l)) (case out of Inl _ \<Rightarrow> True | Inr _ \<Rightarrow> False) l2" "f' = f2"
      using assms(3) a Inr h fin by (auto simp: pool_attempt_def)
    have "store_rel True l1 f1" using A Inr by (auto simp: store_ok_def)
    then have "file_ok (E @ [extent h]) F f2 \<and> store_ok l2 f2 \<and> lt_model l2 = lt_model l1"
      using attempt_finish_ok [OF _ _ fin, of "E @ [extent h]" F] A Inr by blast
    then show ?thesis using lf poison_ok A a Inr by (auto simp: handed_by_def)
  qed
qed

section \<open>The life of a store\<close>

text \<open>
  The world around one store: the medium, the process that holds it (with the pool it has filled, if
  any), and two histories that the code does not keep: the pools that set-ups have filled, and everything
  that consumers have received so far. Other processes can try to install or
  open the store at any time, every file operation can fail, the process can be closed, and a crash
  loses whatever was not synchronised.
\<close>

record 'r world =
  w_disk :: disk
  w_live :: "(lifetime \<times> 'r pool option) option"
  w_filled :: "(u64 \<times> 'r list) list"
  w_handed :: "(attempt \<times> 'r list) list"

definition new_disk :: disk where
  "new_disk = \<lparr>dk_file = None, dk_locked = False\<rparr>"

definition new_world :: "'r world" where
  "new_world = \<lparr>w_disk = new_disk, w_live = None, w_filled = [], w_handed = []\<rparr>"

definition set_file :: "disk_file \<Rightarrow> 'r world \<Rightarrow> 'r world" where
  "set_file f w = w\<lparr>w_disk := (w_disk w)\<lparr>dk_file := Some f\<rparr>\<rparr>"

definition after_fill :: "io_error + 'r pool \<Rightarrow> 'r pool option" where
  "after_fill res = (case res of Inl _ \<Rightarrow> None | Inr p \<Rightarrow> Some p)"

inductive life_step :: "(digest \<Rightarrow> digest \<Rightarrow> 'o \<Rightarrow> 'r pool) \<Rightarrow> 'r world \<Rightarrow> 'r world \<Rightarrow> bool"
  for mk :: "digest \<Rightarrow> digest \<Rightarrow> 'o \<Rightarrow> 'r pool" where
  install_fails: "lifetime_install io ds m (w_disk w) = (Inl e, d) \<Longrightarrow> life_step mk w (w\<lparr>w_disk := d\<rparr>)"
| install_returns: "lifetime_install io ds m (w_disk w) = (Inr l, d) \<Longrightarrow> life_step mk w (w\<lparr>w_disk := d, w_live := Some (l, None)\<rparr>)"
| open_fails: "lifetime_open oio m (w_disk w) = (Inl e, d) \<Longrightarrow> life_step mk w (w\<lparr>w_disk := d\<rparr>)"
| open_returns: "lifetime_open oio m (w_disk w) = (Inr l, d) \<Longrightarrow> life_step mk w (w\<lparr>w_disk := d, w_live := Some (l, None)\<rparr>)"
| fill: "w_live w = Some (l, q) \<Longrightarrow> dk_file (w_disk w) = Some f
    \<Longrightarrow> fill_pool boot_fixed boot_aes mk H io os_rng prover ch session binding n fixed_run l f = (res, l', f')
    \<Longrightarrow> life_step mk w (set_file f' (w\<lparr>w_live := Some (l', after_fill res), w_filled := w_filled w @ filled_by res l'\<rparr>))"
| attempt: "w_live w = Some (l, Some p) \<Longrightarrow> dk_file (w_disk w) = Some f
    \<Longrightarrow> pool_attempt io1 io2 z n (consumer :: ('r, unit) consumer) p l f = Some (res, p', l', f')
    \<Longrightarrow> life_step mk w (set_file f' (w\<lparr>w_live := Some (l', Some p'), w_handed := w_handed w @ handed_by io1 z n p l f\<rparr>))"
| stop: "w_live w = Some (l, Some p) \<Longrightarrow> pool_stop p l = (p', l') \<Longrightarrow> life_step mk w (w\<lparr>w_live := Some (l', Some p')\<rparr>)"
| drop_pool: "w_live w = Some (l, q) \<Longrightarrow> life_step mk w (w\<lparr>w_live := Some (l, None)\<rparr>)"
| close: "w_live w = Some (l, q) \<Longrightarrow> life_step mk w (w\<lparr>w_live := None, w_disk := (w_disk w)\<lparr>dk_locked := False\<rparr>\<rparr>)"
| crash: "dk_file (w_disk w) = Some f \<Longrightarrow> df_synced f \<le> k \<Longrightarrow> k \<le> length (df_bytes f)
    \<Longrightarrow> life_step mk w (w\<lparr>w_live := None, w_disk := \<lparr>dk_file = Some \<lparr>df_bytes = take k (df_bytes f), df_synced = k\<rparr>, dk_locked = False\<rparr>\<rparr>)"

inductive life_reachable :: "(digest \<Rightarrow> digest \<Rightarrow> 'o \<Rightarrow> 'r pool) \<Rightarrow> 'r world \<Rightarrow> bool"
  for mk :: "digest \<Rightarrow> digest \<Rightarrow> 'o \<Rightarrow> 'r pool" where
  new: "life_reachable mk new_world"
| step: "life_reachable mk w \<Longrightarrow> life_step mk w w' \<Longrightarrow> life_reachable mk w'"

definition live_ok :: "disk \<Rightarrow> (lifetime \<times> 'r pool option) option \<Rightarrow> bool" where
  "live_ok d live \<longleftrightarrow> (dk_locked d \<longleftrightarrow> live \<noteq> None) \<and> (\<forall>l q. live = Some (l, q) \<longrightarrow> (\<exists>f. dk_file d = Some f \<and> store_ok l f))"

definition world_ok :: "'r world \<Rightarrow> bool" where
  "world_ok w \<longleftrightarrow> live_ok (w_disk w) (w_live w)
     \<and> (case dk_file (w_disk w) of None \<Rightarrow> w_handed w = [] \<and> w_filled w = [] | Some f \<Rightarrow> file_ok (map extent (w_handed w)) (map fst (w_filled w)) f)"

lemma world_okI:
  assumes "file_ok (map extent (w_handed w)) (map fst (w_filled w)) f" "dk_file (w_disk w) = Some f" "live_ok (w_disk w) (w_live w)"
  shows "world_ok w"
  using assms by (simp add: world_ok_def)

lemma live_ok_store: "store_ok l f \<Longrightarrow> dk_locked d \<Longrightarrow> dk_file d = Some f \<Longrightarrow> live_ok d (Some (l, q))"
  by (simp add: live_ok_def)

lemma write_header:
  assumes "model_bytes m = Inr bs" "write_and_sync io bs \<lparr>df_bytes = [], df_synced = 0\<rparr> = (ok, f)"
  shows "file_ok [] [] f" "ok \<Longrightarrow> store_ok \<lparr>lt_model = m, lt_state = life_default, lt_poisoned = False\<rparr> f"
proof -
  have l: "length bs = 104" using length_model_bytes [OF assms(1)] .
  show "file_ok [] [] f" using assms(2) l by (auto simp: write_and_sync_def file_ok_def journal_def split: io_outcome.splits)
  show "store_ok \<lparr>lt_model = m, lt_state = life_default, lt_poisoned = False\<rparr> f" if ok
    using assms that l by (auto simp: write_and_sync_def store_ok_def store_rel_def journal_def life_default_def split: io_outcome.splits)
qed

lemma install_ok:
  assumes "lifetime_install io ds m d = (res, d')"
  shows "d' = d \<and> (\<exists>e. res = Inl e)
    \<or> dk_file d = None \<and> (\<exists>f. dk_file d' = Some f \<and> file_ok [] [] f)
        \<and> ((\<exists>e. res = Inl e) \<and> dk_locked d' = dk_locked d \<or> (\<exists>l f. res = Inr l \<and> dk_file d' = Some f \<and> store_ok l f \<and> dk_locked d'))"
proof (cases "model_bytes m")
  case (Inl e)
  then show ?thesis using assms by (auto simp: lifetime_install_def)
next
  case (Inr bs)
  obtain ok f where w: "write_and_sync io bs \<lparr>df_bytes = [], df_synced = 0\<rparr> = (ok, f)" by fastforce
  have e: "file_ok [] [] \<lparr>df_bytes = [], df_synced = 0\<rparr>" by (simp add: file_ok_def journal_def)
  show ?thesis using assms Inr w write_header [OF Inr w] e
    by (auto simp: lifetime_install_def split: option.splits if_splits)
qed

lemma replay_Inr: "replay bs s = Inr s' \<Longrightarrow> RECORD dvd length bs \<and> fold_opt try_apply (chunks bs) s = Some s'"
proof (induction bs s rule: replay.induct)
  case (1 bs s)
  show ?case
  proof (cases "bs = []")
    case False
    then obtain s1 where s1: "\<not> length bs < RECORD" "life_apply (take RECORD bs) s = Inr s1" "replay (drop RECORD bs) s1 = Inr s'"
      using 1(2) by (subst (asm) replay.simps) (auto split: if_splits sum.splits)
    then have "RECORD dvd length (drop RECORD bs)" "fold_opt try_apply (chunks (drop RECORD bs)) s1 = Some s'"
      using 1(1) [OF False] by auto
    moreover have "RECORD dvd length (drop RECORD bs) + RECORD \<longleftrightarrow> RECORD dvd length (drop RECORD bs)" by (rule dvd_add_triv_right_iff)
    moreover have "length (drop RECORD bs) + RECORD = length bs" using s1(1) by simp
    moreover have "chunks bs = take RECORD bs # chunks (drop RECORD bs)" using s1(1) by (simp add: chunks.simps [of bs])
    moreover have "try_apply (take RECORD bs) s = Some s1" using s1(2) by (simp add: try_apply_Some)
    ultimately show ?thesis by simp
  qed (use 1(2) in \<open>simp add: replay.simps\<close>)
qed

lemma burns_append: "burns (rs @ rs') = burns rs @ burns rs'"
  by (simp add: burns_def)

lemma file_ok_sync:
  assumes "file_ok E F f"
  shows "file_ok E F (f\<lparr>df_synced := length (df_bytes f)\<rparr>)"
proof -
  obtain rs where "journal (df_bytes f) = journal (take (df_synced f) (df_bytes f)) @ rs" using journal_take_prefix by blast
  then show ?thesis using assms by (simp add: file_ok_def burns_append fills_append list_emb_prefix)
qed

lemma file_ok_crash:
  assumes "file_ok E F f" "df_synced f \<le> k" "k \<le> length (df_bytes f)"
  shows "file_ok E F \<lparr>df_bytes = take k (df_bytes f), df_synced = k\<rparr>"
proof -
  obtain rs where "journal (take k (df_bytes f)) = journal (take (df_synced f) (take k (df_bytes f))) @ rs"
    using journal_take_prefix by blast
  moreover have "take (df_synced f) (take k (df_bytes f)) = take (df_synced f) (df_bytes f)" using assms(2) by (simp add: min_def)
  moreover have "apply_all (journal (take k (df_bytes f))) \<noteq> None"
    using journal_take_prefix [of "df_bytes f" k] apply_all_prefix assms(1) by (metis file_ok_def)
  ultimately show ?thesis using assms by (simp add: file_ok_def burns_append fills_append list_emb_prefix)
qed

lemma open_ok:
  assumes "lifetime_open oio m d = (res, d')" "dk_file d = Some f" "file_ok E F f"
  shows "d' = d \<and> (\<exists>e. res = Inl e)
    \<or> \<not> dk_locked d \<and> (\<exists>f'. dk_file d' = Some f' \<and> file_ok E F f'
        \<and> ((\<exists>e. res = Inl e) \<and> \<not> dk_locked d' \<or> (\<exists>l. res = Inr l \<and> dk_locked d' \<and> store_ok l f')))"
proof (cases "d' = d \<and> (\<exists>e. res = Inl e)")
  case False
  let ?f = "f\<lparr>df_synced := length (df_bytes f)\<rparr>"
  obtain bs where bs: "model_bytes m = Inr bs" using False assms(1) by (cases "model_bytes m") (auto simp: lifetime_open_def)
  have l: "length bs = 104" using length_model_bytes [OF bs] .
  obtain s where s: "\<not> dk_locked d" "104 \<le> length (df_bytes f)" "take 104 (df_bytes f) = bs" "replay (drop 104 (df_bytes f)) life_default = Inr s"
    using False assms(1,2) bs l by (auto simp: lifetime_open_def split: if_splits sum.splits)
  have r: "res = (if ls_fixed_run s then Inl (Invalid ''fixed-run capacity cannot reopen or resume'')
        else Inr \<lparr>lt_model = m, lt_state = s\<lparr>ls_pending := False\<rparr>, lt_poisoned = False\<rparr>)"
      "d' = (if ls_fixed_run s then d\<lparr>dk_file := Some ?f\<rparr> else d\<lparr>dk_file := Some ?f, dk_locked := True\<rparr>)"
    using False assms(1,2) bs l s by (auto simp: lifetime_open_def Let_def split: if_splits)
  have "store_ok \<lparr>lt_model = m, lt_state = s\<lparr>ls_pending := False\<rparr>, lt_poisoned = False\<rparr> ?f"
    using replay_Inr [OF s(4)] s(2,3) bs by (auto simp: store_ok_def store_rel_def apply_all_def journal_def unpend_def)
  then show ?thesis using r s(1) file_ok_sync [OF assms(3)] by (cases "ls_fixed_run s") auto
qed simp

lemma open_missing: "dk_file d = None \<Longrightarrow> lifetime_open oio m d = (res, d') \<Longrightarrow> d' = d \<and> (\<exists>e. res = Inl e)"
  by (auto simp: lifetime_open_def split: sum.splits)

lemma world_live:
  assumes "world_ok w" "w_live w = Some (l, q)" "dk_file (w_disk w) = Some f"
  shows "store_ok l f" "file_ok (map extent (w_handed w)) (map fst (w_filled w)) f" "dk_locked (w_disk w)"
  using assms by (auto simp: world_ok_def live_ok_def)

lemma same_disk [simp]: "w\<lparr>w_disk := w_disk w\<rparr> = w"
  by simp

lemma life_step_ok: "life_step mk w w' \<Longrightarrow> world_ok w \<Longrightarrow> world_ok w'"
proof (induction rule: life_step.induct)
  case (install_fails io ds m w e d)
  show ?case
  proof (cases "d = w_disk w")
    case True
    then show ?thesis using install_fails(2) by simp
  next
    case False
    then show ?thesis using install_fails install_ok [of io ds m "w_disk w" "Inl e" d] by (auto simp: world_ok_def live_ok_def)
  qed
next
  case (install_returns io ds m w l d)
  then show ?case using install_ok [of io ds m "w_disk w" "Inr l" d] by (auto simp: world_ok_def live_ok_def)
next
  case (open_fails oio m w e d)
  show ?case
  proof (cases "dk_file (w_disk w)")
    case None
    then have "d = w_disk w" using open_missing [OF None open_fails(1)] by simp
    then show ?thesis using open_fails(2) by simp
  next
    case (Some f)
    then have f: "file_ok (map extent (w_handed w)) (map fst (w_filled w)) f" using open_fails by (simp add: world_ok_def)
    show ?thesis
    proof (cases "d = w_disk w")
      case True
      then show ?thesis using open_fails(2) by simp
    next
      case False
      then show ?thesis using open_ok [OF open_fails(1) Some f] open_fails(2) by (auto simp: world_ok_def live_ok_def)
    qed
  qed
next
  case (open_returns oio m w l d)
  then obtain f where Some: "dk_file (w_disk w) = Some f" using open_missing [of "w_disk w"] by fastforce
  then have f: "file_ok (map extent (w_handed w)) (map fst (w_filled w)) f" using open_returns by (simp add: world_ok_def)
  from open_ok [OF open_returns(1) Some f] show ?case by (auto simp: world_ok_def live_ok_def)
next
  case (fill w l q f boot_fixed boot_aes H io os_rng prover ch session binding n fixed_run res l' f')
  note W = world_live [OF fill(4,1,2)]
  from fill_pool_ok [OF W(2,1) fill(3)] show ?case using W(3) by (simp add: world_ok_def live_ok_def set_file_def)
next
  case (attempt w l p f io1 io2 z n consumer res p' l' f')
  note W = world_live [OF attempt(4,1,2)]
  from pool_attempt_ok [OF W(2,1) attempt(3)] show ?case using W(3) by (simp add: world_ok_def live_ok_def set_file_def)
next
  case (stop w l p p' l')
  then show ?case by (auto simp: world_ok_def live_ok_def pool_stop_def store_ok_def store_rel_def)
next
  case (drop_pool w l q)
  then show ?case by (auto simp: world_ok_def live_ok_def)
next
  case (close w l q)
  then show ?case by (auto simp: world_ok_def live_ok_def)
next
  case (crash w f k)
  then show ?case using file_ok_crash [of _ _ f k] by (simp add: world_ok_def live_ok_def)
qed

lemma reachable_ok: "life_reachable mk w \<Longrightarrow> world_ok w"
proof (induction rule: life_reachable.induct)
  case new
  show ?case by (simp add: new_world_def new_disk_def world_ok_def live_ok_def)
next
  case (step w w')
  then show ?case using life_step_ok by blast
qed

lemma sorted_wrt_subseq: "subseq xs ys \<Longrightarrow> sorted_wrt P ys \<Longrightarrow> sorted_wrt P xs"
proof (induction rule: list_emb.induct)
  case (list_emb_Cons2 x y xs ys)
  then show ?case by (auto elim!: list_emb_set)
qed simp_all

section \<open>The rows that consumers receive\<close>

text \<open>
  What a consumer received is the slice that its label names, taken from what the set-up of that label
  had filled. A live pool still has these rows from the first unused one on.
\<close>

definition rows_from :: "(u64 \<times> 'r list) list \<Rightarrow> attempt \<times> 'r list \<Rightarrow> bool" where
  "rows_from fs h \<longleftrightarrow> (case h of (a, rs) \<Rightarrow> \<exists>pl. (at_setup a, pl) \<in> set fs \<and> slice (unat (at_first_base_row a)) (length rs) pl = Some rs)"

definition pool_from :: "(u64 \<times> 'r list) list \<Rightarrow> lifetime \<Rightarrow> 'r pool \<Rightarrow> bool" where
  "pool_from fs l p \<longleftrightarrow> (\<not> lt_poisoned l \<longrightarrow> (\<exists>pl. (ls_setups (lt_state l), pl) \<in> set fs \<and> length (pool_rows p) = length pl
     \<and> drop (unat (ls_used (lt_state l))) (pool_rows p) = drop (unat (ls_used (lt_state l))) pl))"

definition rows_ok :: "'r world \<Rightarrow> bool" where
  "rows_ok w \<longleftrightarrow> (\<forall>h \<in> set (w_handed w). rows_from (w_filled w) h) \<and> (\<forall>l p. w_live w = Some (l, Some p) \<longrightarrow> pool_from (w_filled w) l p)"

lemma rows_from_more: "rows_from fs h \<Longrightarrow> rows_from (fs @ gs) h"
  by (auto simp: rows_from_def)

lemma used_in_rows:
  assumes "file_ok E F f" "store_ok l f" "\<not> lt_poisoned l"
  shows "ls_used (lt_state l) \<le> ls_rows (lt_state l)"
proof -
  obtain s where s: "apply_all (journal (df_bytes f)) = Some s" "unpend s = unpend (lt_state l)"
    using assms(2,3) by (auto simp: store_ok_def store_rel_def)
  show ?thesis using apply_all_ok [OF s(1)] unpend_eq [OF s(2)] by (simp add: life_ok_def)
qed

lemma slice_shared: "length xs = length ys \<Longrightarrow> drop i xs = drop i ys \<Longrightarrow> slice i n xs = slice i n ys"
  by (simp add: slice_def)

lemma reserve_rows:
  assumes "file_ok E F f" "store_ok l f" "pool_from fs l p" "attempt_reserve io z n p l f = Some (res, p', l', f')"
  shows "pool_from fs l' p' \<and> (\<forall>h. res = Inr h \<longrightarrow> rows_from fs h)"
proof (cases res)
  case (Inl e)
  then have "p' = p \<and> (l' = l \<or> lt_poisoned l')" using assms(4)
    by (auto simp: attempt_reserve_def lifetime_append_def Let_def split: sum.splits prod.splits if_splits Option.bind_splits)
  then show ?thesis using assms(3) Inl by (auto simp: pool_from_def)
next
  case (Inr h)
  let ?s = "lt_state l" and ?c = "word_of_nat (n * 3) :: u64" and ?u = "unat (ls_used (lt_state l))"
  have small: "\<not> 2 ^ 64 \<le> n * 3" using assms(4) Inr by (auto simp: attempt_reserve_def)
  then have c: "unat ?c = n * 3" unfolding unat_of_nat take_bit_eq_mod by simp
  obtain rs f1 where r: "lifetime_append io 2 (ls_setups ?s) (ls_used ?s) ?c (ls_head ?s) l f = (Inr (), l', f1)"
    "slice ?u (n * 3) (pool_rows p) = Some rs" "at_setup (fst h) = ls_setups ?s" "at_first_base_row (fst h) = ls_used ?s" "snd h = rs"
    "pool_rows p' = take ?u (pool_rows p) @ replicate (n * 3) z @ drop (?u + n * 3) (pool_rows p)"
    using assms(4) small Inr by (auto simp: attempt_reserve_def Let_def split: sum.splits prod.splits Option.bind_splits)
  have a: "\<not> lt_poisoned l" "life_apply (record_bytes 2 (ls_setups ?s) (ls_used ?s) ?c (ls_head ?s)) ?s = Inr (lt_state l')"
    using append_record [OF assms(1,2) r(1)] by simp_all
  from a(2) have b: "burn_ok ?s (ls_setups ?s) (ls_used ?s) ?c (ls_head ?s)" "ls_setups (lt_state l') = ls_setups ?s" "ls_used (lt_state l') = ls_used ?s + ?c"
    by (cases rule: life_apply_cases; unfold record_fields; simp)+
  have u: "unat (ls_used (lt_state l')) = ?u + n * 3"
    using used_advances(1) [OF used_in_rows [OF assms(1,2) a(1)], of ?c] b(1,3) c by (simp add: burn_ok_def)
  obtain pl where pl: "(ls_setups ?s, pl) \<in> set fs" "length (pool_rows p) = length pl" "drop ?u (pool_rows p) = drop ?u pl"
    using assms(3) a(1) by (auto simp: pool_from_def)
  have len: "length rs = n * 3" "?u + n * 3 \<le> length (pool_rows p)" using r(2) by (auto simp: slice_Some)
  have "drop (?u + n * 3) (pool_rows p) = drop (?u + n * 3) pl" using arg_cong [OF pl(3), of "drop (n * 3)"] by (simp add: add.commute)
  then have "pool_from fs l' p'" unfolding pool_from_def u b(2) using pl(1,2) r(6) len(2) by auto
  moreover have "rows_from fs h" using pl(1) slice_shared [OF pl(2,3)] r(2-5) len(1) by (auto simp: rows_from_def case_prod_unfold)
  ultimately show ?thesis using Inr by simp
qed

lemma finish_keeps:
  assumes "attempt_finish io setups outcome l f = (res, l', f')" "\<not> lt_poisoned l'"
  shows "\<not> lt_poisoned l \<and> ls_setups (lt_state l') = ls_setups (lt_state l) \<and> ls_used (lt_state l') = ls_used (lt_state l)"
proof (cases "\<exists>v d. outcome = Returned (Inr (v, Some d))")
  case True
  then obtain v d where o: "outcome = Returned (Inr (v, Some d))" by blast
  let ?l = "set_pending True (set_pending False l)"
  obtain r l1 f1 where a: "lifetime_append io 3 setups (ls_attempts (lt_state ?l)) 0 d ?l f = (r, l1, f1)" using prod_cases3 by metis
  have l: "l' = set_pending False l1" using assms(1) o a by (auto simp: attempt_finish_def Let_def split: sum.splits)
  then have np: "\<not> lt_poisoned l1" using assms(2) by (simp add: set_pending_def)
  have "\<not> lt_poisoned l \<and> (lt_state l1 = lt_state ?l \<or> life_apply (record_bytes 3 setups (ls_attempts (lt_state ?l)) 0 d) (lt_state ?l) = Inr (lt_state l1))"
    using a np by (auto simp: lifetime_append_def Let_def set_pending_def split: if_splits sum.splits prod.splits)
  moreover have "ls_setups (lt_state l1) = ls_setups (lt_state ?l) \<and> ls_used (lt_state l1) = ls_used (lt_state ?l)"
    if "life_apply (record_bytes 3 setups (ls_attempts (lt_state ?l)) 0 d) (lt_state ?l) = Inr (lt_state l1)"
    using that by (cases rule: life_apply_cases; unfold record_fields; simp)
  ultimately show ?thesis unfolding l by (auto simp: set_pending_def)
next
  case False
  then have "l' = set_pending False l" using assms(1)
    by (auto simp: attempt_finish_def Let_def split: consumer_outcome.splits sum.splits option.splits)
  then show ?thesis using assms(2) by (simp add: set_pending_def)
qed

lemma pool_attempt_rows:
  assumes "file_ok E F f" "store_ok l f" "pool_from fs l p" "pool_attempt io1 io2 z n consumer p l f = Some (res, p', l', f')"
  shows "pool_from fs l' p' \<and> (\<forall>h \<in> set (handed_by io1 z n p l f). rows_from fs h)"
proof -
  obtain r p1 l1 f1 where a: "attempt_reserve io1 z n p l f = Some (r, p1, l1, f1)"
    using assms(4) by (cases "attempt_reserve io1 z n p l f") (auto simp: pool_attempt_def Let_def)
  note A = reserve_rows [OF assms(1-3) a]
  have h: "\<forall>h \<in> set (handed_by io1 z n p l f). rows_from fs h" using A a by (auto simp: handed_by_def split: sum.splits)
  show ?thesis
  proof (cases r)
    case (Inl e)
    then have "l' = poison_fixed_run (ls_head (lt_state l)) True l1" "p' = p1" using assms(4) a by (auto simp: pool_attempt_def)
    then show ?thesis using A h by (auto simp: pool_from_def poison_fixed_run_def)
  next
    case (Inr hd)
    obtain at rs where hd: "hd = (at, rs)" by fastforce
    obtain out l2 f2 where fin: "attempt_finish io2 (ls_setups (lt_state l)) (consumer at rs (pool_delta p1)) l1 f1 = (out, l2, f2)"
      using prod_cases3 by metis
    have "l' = poison_fixed_run (ls_head (lt_state l)) (case out of Inl _ \<Rightarrow> True | Inr _ \<Rightarrow> False) l2" "p' = p1"
      using assms(4) a Inr hd fin by (auto simp: pool_attempt_def)
    then show ?thesis using A h finish_keeps [OF fin] by (auto simp: pool_from_def poison_fixed_run_def split: if_splits)
  qed
qed

lemma life_step_rows: "life_step mk w w' \<Longrightarrow> world_ok w \<Longrightarrow> rows_ok w \<Longrightarrow> rows_ok w'"
proof (induction rule: life_step.induct)
  case (fill w l q f boot_fixed boot_aes H io os_rng prover ch session binding n fixed_run res l' f')
  then show ?case by (auto simp: rows_ok_def set_file_def after_fill_def filled_by_def pool_from_def rows_from_more split: sum.splits)
next
  case (attempt w l p f io1 io2 z n consumer res p' l' f')
  note W = world_live [OF attempt(4,1,2)]
  have "pool_from (w_filled w) l p" using attempt(1,5) by (simp add: rows_ok_def)
  from pool_attempt_rows [OF W(2,1) this attempt(3)] show ?case using attempt(5) by (auto simp: rows_ok_def set_file_def)
next
  case (stop w l p p' l')
  then show ?case by (auto simp: rows_ok_def pool_stop_def pool_from_def)
qed (simp_all add: rows_ok_def)

lemma reachable_rows: "life_reachable mk w \<Longrightarrow> rows_ok w"
proof (induction rule: life_reachable.induct)
  case new
  show ?case by (simp add: new_world_def rows_ok_def)
next
  case (step w w')
  then show ?case using life_step_rows reachable_ok by blast
qed

text \<open>C11. However the store is installed, opened, filled, used, closed and crashed, and whichever file
  operations fail or stop half way: the pools filled so far have different set-up numbers, what a consumer
  received are exactly the rows of its label's extent in the pool of its label's set-up, and these extents are
  pairwise disjoint: of any two, the earlier one belongs to an earlier set-up or ends before the later one
  begins. So no row of a pool reaches two consumers. At most three attempts ever reach a consumer.\<close>

theorem rows_handed_once:
  assumes "life_reachable mk w"
  shows "sorted_wrt extent_before (map extent (w_handed w)) \<and> length (w_handed w) \<le> 3 \<and> distinct (map fst (w_filled w))
    \<and> (\<forall>(a, rs) \<in> set (w_handed w). \<exists>pl. (at_setup a, pl) \<in> set (w_filled w)
         \<and> slice (unat (at_first_base_row a)) (length rs) pl = Some rs)"
proof -
  have r: "\<forall>(a, rs) \<in> set (w_handed w). \<exists>pl. (at_setup a, pl) \<in> set (w_filled w) \<and> slice (unat (at_first_base_row a)) (length rs) pl = Some rs"
    using reachable_rows [OF assms] by (auto simp: rows_ok_def rows_from_def)
  show ?thesis
  proof (cases "dk_file (w_disk w)")
    case None
    then show ?thesis using reachable_ok [OF assms] by (simp add: world_ok_def)
  next
    case (Some f)
    let ?j = "journal (take (df_synced f) (df_bytes f))"
    have f: "file_ok (map extent (w_handed w)) (map fst (w_filled w)) f" using reachable_ok [OF assms] Some by (simp add: world_ok_def)
    obtain rs where "journal (df_bytes f) = ?j @ rs" using journal_take_prefix by blast
    then obtain s where s: "apply_all ?j = Some s" using f apply_all_prefix [of ?j rs] by (auto simp: file_ok_def)
    then have ok: "life_ok s (burns ?j)" by (rule apply_all_ok)
    have sub: "subseq (map extent (w_handed w)) (burns ?j)" "subseq (map fst (w_filled w)) (fills ?j)" using f by (simp_all add: file_ok_def)
    have "sorted_wrt extent_before (map extent (w_handed w))"
      using ok sub(1) sorted_wrt_subseq by (auto simp: life_ok_def)
    moreover have "length (w_handed w) \<le> 3" using list_emb_length [OF sub(1)] ok by (simp add: life_ok_def)
    moreover have "sorted_wrt (<) (map fst (w_filled w))" using fills_sorted [OF s] sub(2) sorted_wrt_subseq by blast
    ultimately show ?thesis using r strict_sorted_iff by blast
  qed
qed

text \<open>C32. Closing a store and opening it again recovers exactly the state that it had, without the
  pending mark, and the model it was installed for; only a poisoned store and a fixed run cannot come
  back.\<close>

theorem reopen_recovers:
  assumes "life_reachable mk w" "w_live w = Some (l, q)" "\<not> lt_poisoned l" "\<not> ls_fixed_run (lt_state l)"
  shows "\<exists>d'. lifetime_open Open_Ok (lt_model l) ((w_disk w)\<lparr>dk_locked := False\<rparr>) = (Inr (set_pending False l), d')
    \<and> dk_file d' = dk_file (w_disk w) \<and> dk_locked d'"
proof -
  obtain f where f: "dk_file (w_disk w) = Some f" "store_ok l f"
    using reachable_ok [OF assms(1)] assms(2) by (auto simp: world_ok_def live_ok_def)
  let ?b = "df_bytes f"
  obtain s where sy: "df_synced f = length ?b" and m: "model_bytes (lt_model l) = Inr (take 104 ?b)" and dv: "RECORD dvd length (drop 104 ?b)"
    and s: "apply_all (journal ?b) = Some s" "unpend s = unpend (lt_state l)"
    using f(2) assms(3) by (auto simp: store_ok_def store_rel_def)
  have len: "length (take 104 ?b) = 104" using length_model_bytes [OF m] .
  obtain n where n: "length (drop 104 ?b) = n * RECORD" using dv by (metis dvd_div_mult_self)
  have "replay (drop 104 ?b) life_default = Inr s"
    using replay_chunks [OF n] s(1) by (simp add: apply_all_def journal_def)
  moreover have "\<not> ls_fixed_run s" using unpend_eq [OF s(2)] assms(4) by simp
  moreover have "\<lparr>lt_model = lt_model l, lt_state = s\<lparr>ls_pending := False\<rparr>, lt_poisoned = False\<rparr> = set_pending False l"
    using s(2) assms(3) by (cases l) (simp add: set_pending_def unpend_def)
  moreover have "f\<lparr>df_synced := length ?b\<rparr> = f" using sy by (cases f) simp
  moreover have "104 \<le> length ?b" "min (length ?b) 104 = 104" using len by simp_all
  ultimately show ?thesis using f(1) m by (simp add: lifetime_open_def Let_def)
qed

lemma burn_ok_of_room:
  assumes "0 < ls_setups s" "ls_used s \<le> ls_rows s" "ls_attempts s < ROOT_SLOTS" "0 < n" "unat (ls_used s) + n * 3 \<le> unat (ls_rows s)"
  shows "burn_ok s (ls_setups s) (ls_used s) (word_of_nat (n * 3)) (ls_head s)"
proof -
  let ?c = "word_of_nat (n * 3) :: u64"
  have "n * 3 < 2 ^ 64" using assms(5) unat_word_less [of "ls_rows s"] by simp
  then have c: "unat ?c = n * 3" unfolding unat_of_nat take_bit_eq_mod by simp
  have "0 < ?c" using c assms(4) unfolding word_less_nat_alt by simp
  moreover have "?c mod 3 = 0" unfolding word_unat_eq_iff unat_mod c by simp
  moreover have "?c \<le> ls_rows s - ls_used s" using assms(2,5) c unfolding word_le_nat_alt unat_sub [OF assms(2)] by simp
  moreover have "ls_attempts s < life_limit" using assms(3) by (simp add: ROOT_SLOTS_def life_limit_def word_less_nat_alt)
  ultimately show ?thesis using assms(1,3) unfolding burn_ok_def by blast
qed

text \<open>What the next attempt of a store hands to its consumer.\<close>

definition next_attempt :: "'r pool \<Rightarrow> lifetime \<Rightarrow> attempt" where
  "next_attempt p l = \<lparr>at_capacity = pool_capacity p, at_setup = ls_setups (lt_state l), at_ordinal = ls_attempts (lt_state l) + 1,
     at_predecessor = ls_head (lt_state l), at_first_base_row = ls_used (lt_state l)\<rparr>"

definition next_rows :: "nat \<Rightarrow> 'r pool \<Rightarrow> lifetime \<Rightarrow> 'r list" where
  "next_rows n p l = take (n * 3) (drop (unat (ls_used (lt_state l))) (pool_rows p))"

definition has_room :: "nat \<Rightarrow> 'r pool \<Rightarrow> lifetime \<Rightarrow> bool" where
  "has_room n p l \<longleftrightarrow> \<not> lt_poisoned l \<and> 0 < ls_setups (lt_state l) \<and> ls_used (lt_state l) \<le> ls_rows (lt_state l)
     \<and> length (pool_rows p) = unat (ls_rows (lt_state l)) \<and> ls_attempts (lt_state l) < ROOT_SLOTS
     \<and> 0 < n \<and> unat (ls_used (lt_state l)) + n * 3 \<le> unat (ls_rows (lt_state l))"

lemma attempt_reserve_room:
  assumes "has_room n p l"
  shows "\<exists>p' l' f'. attempt_reserve Io_Ok z n p l f = Some (Inr (next_attempt p l, next_rows n p l), p', l', f')
     \<and> pool_delta p' = pool_delta p \<and> length (next_rows n p l) = n * 3 \<and> lt_poisoned l' = False
     \<and> unat (ls_used (lt_state l')) = unat (ls_used (lt_state l)) + n * 3 \<and> ls_attempts (lt_state l') = ls_attempts (lt_state l) + 1"
proof -
  let ?s = "lt_state l" and ?c = "word_of_nat (n * 3) :: u64"
  have r: "\<not> lt_poisoned l" "0 < ls_setups ?s" "ls_used ?s \<le> ls_rows ?s" "length (pool_rows p) = unat (ls_rows ?s)"
    "ls_attempts ?s < ROOT_SLOTS" "0 < n" "unat (ls_used ?s) + n * 3 \<le> unat (ls_rows ?s)" using assms by (simp_all add: has_room_def)
  have small: "\<not> 2 ^ 64 \<le> n * 3" using r(7) unat_word_less [of "ls_rows ?s"] by simp
  then have c: "unat ?c = n * 3" unfolding unat_of_nat take_bit_eq_mod by simp
  have ok: "burn_ok ?s (ls_setups ?s) (ls_used ?s) ?c (ls_head ?s)" using burn_ok_of_room [OF r(2,3,5-7)] .
  let ?t = "?s\<lparr>ls_used := ls_used ?s + ?c, ls_attempts := ls_attempts ?s + 1, ls_pending := True\<rparr>"
  let ?r = "record_bytes 2 (ls_setups ?s) (ls_used ?s) ?c (ls_head ?s)"
  have a: "life_apply ?r ?s = Inr ?t" unfolding life_apply_def record_fields Let_def using ok by simp
  have ap: "lifetime_append Io_Ok 2 (ls_setups ?s) (ls_used ?s) ?c (ls_head ?s) l f
      = (Inr (), l\<lparr>lt_state := ?t, lt_poisoned := False\<rparr>, \<lparr>df_bytes = df_bytes f @ ?r, df_synced = length (df_bytes f @ ?r)\<rparr>)"
    unfolding lifetime_append_def Let_def a using r(1) by (simp add: write_and_sync_def)
  have sl: "slice (unat (ls_used ?s)) (n * 3) (pool_rows p) = Some (next_rows n p l)" "length (next_rows n p l) = n * 3"
    using r(4,7) by (simp_all add: slice_def next_rows_def)
  have u: "unat (ls_used ?s + ?c) = unat (ls_used ?s) + n * 3" using used_advances(1) [OF r(3), of ?c] ok c by (simp add: burn_ok_def)
  show ?thesis using small u unfolding attempt_reserve_def Let_def ap by (simp add: sl next_attempt_def)
qed

text \<open>C33. A store with room in its pool serves the next attempt on a working medium: the consumer
  receives exactly the next unused rows, its value is returned, the rows are burned and one root
  exposure is counted.\<close>

theorem attempt_served:
  assumes "has_room n p l" "\<And>a rs. consumer a rs (pool_delta p) = Returned (Inr (v a rs, None))"
  shows "\<exists>p' l' f'. pool_attempt Io_Ok io z n consumer p l f = Some (Inr (v (next_attempt p l) (next_rows n p l)), p', l', f')
     \<and> length (next_rows n p l) = n * 3 \<and> unat (ls_used (lt_state l')) = unat (ls_used (lt_state l)) + n * 3
     \<and> ls_attempts (lt_state l') = ls_attempts (lt_state l) + 1"
proof -
  obtain p1 l1 f1 where r: "attempt_reserve Io_Ok z n p l f = Some (Inr (next_attempt p l, next_rows n p l), p1, l1, f1)"
    "pool_delta p1 = pool_delta p" "length (next_rows n p l) = n * 3"
    "unat (ls_used (lt_state l1)) = unat (ls_used (lt_state l)) + n * 3" "ls_attempts (lt_state l1) = ls_attempts (lt_state l) + 1"
    using attempt_reserve_room [OF assms(1)] by blast
  then show ?thesis
    by (simp add: pool_attempt_def assms(2) attempt_finish_def poison_fixed_run_def set_pending_def)
qed

section \<open>A concrete store\<close>

definition demo_model :: model_binding where
  "demo_model = \<lparr>mb_anchor = 1, mb_semantics = 2, mb_root = 3\<rparr>"

definition demo_life :: lifetime where
  "demo_life = \<lparr>lt_model = demo_model, lt_state = life_default, lt_poisoned = False\<rparr>"

definition demo_pool :: "nat pool" where
  "demo_pool = \<lparr>pool_session = 4, pool_capacity = 7, pool_rows = [10, 11, 12], pool_delta = None\<rparr>"

definition demo_filled :: lifetime where
  "demo_filled = demo_life\<lparr>lt_state := life_default\<lparr>ls_setups := 1, ls_rows := 3\<rparr>\<rparr>"

definition demo_hashes :: blake3 where
  "demo_hashes = \<lparr>b3_hash = (\<lambda>bs. replicate 32 0), b3_derive = (\<lambda>c bs. replicate 32 0)\<rparr>"

lemma demo_room: "has_room 1 demo_pool demo_filled"
  by (simp add: has_room_def demo_pool_def demo_filled_def demo_life_def life_default_def ROOT_SLOTS_def)

theorem attempt_served_witness:
  "\<exists>p' l' f'. pool_attempt Io_Ok Io_Ok 0 1 (\<lambda>a rs dl. Returned (Inr ((at_ordinal a, rs), None))) demo_pool demo_filled
       \<lparr>df_bytes = [], df_synced = 0\<rparr> = Some (Inr (1, [10, 11, 12]), p', l', f')
     \<and> length (next_rows 1 demo_pool demo_filled) = 1 * 3
     \<and> unat (ls_used (lt_state l')) = unat (ls_used (lt_state demo_filled)) + 1 * 3
     \<and> ls_attempts (lt_state l') = ls_attempts (lt_state demo_filled) + 1"
proof -
  have v: "(at_ordinal (next_attempt demo_pool demo_filled), next_rows 1 demo_pool demo_filled) = (1, [10, 11, 12])"
    by (simp add: next_attempt_def next_rows_def demo_pool_def demo_filled_def demo_life_def life_default_def)
  show ?thesis
    using attempt_served [OF demo_room, of "\<lambda>a rs dl. Returned (Inr ((at_ordinal a, rs), None))" "\<lambda>a rs. (at_ordinal a, rs)"] unfolding v by simp
qed

lemma demo_install: "\<exists>d f. lifetime_install Io_Ok True demo_model new_disk = (Inr demo_life, d) \<and> dk_file d = Some f \<and> dk_locked d"
  by (simp add: lifetime_install_def model_bytes_def demo_model_def demo_life_def new_disk_def write_and_sync_def)

lemma demo_installed: "\<exists>w f. life_reachable mk w \<and> w_live w = Some (demo_life, None) \<and> dk_file (w_disk w) = Some f \<and> w_handed w = [] \<and> w_filled w = []"
proof -
  obtain d f where d: "lifetime_install Io_Ok True demo_model new_disk = (Inr demo_life, d)" "dk_file d = Some f"
    using demo_install by blast
  have "life_step mk new_world (new_world\<lparr>w_disk := d, w_live := Some (demo_life, None)\<rparr>)"
    using d(1) by (intro life_step.install_returns) (simp add: new_world_def)
  then have "life_reachable mk (new_world\<lparr>w_disk := d, w_live := Some (demo_life, None)\<rparr>)"
    by (rule life_reachable.step [OF life_reachable.new])
  then show ?thesis using d(2) by (intro exI [of _ "new_world\<lparr>w_disk := d, w_live := Some (demo_life, None)\<rparr>"]) (simp add: new_world_def)
qed

theorem reopen_recovers_witness:
  "\<exists>(w :: nat world) l q. w_live w = Some (l, q)
    \<and> (\<exists>d'. lifetime_open Open_Ok (lt_model l) ((w_disk w)\<lparr>dk_locked := False\<rparr>) = (Inr (set_pending False l), d')
        \<and> dk_file d' = dk_file (w_disk w) \<and> dk_locked d')"
proof -
  obtain w :: "nat world" and f where w: "life_reachable (\<lambda>_ _ (_ :: unit). demo_pool) w" "w_live w = Some (demo_life, None)"
    using demo_installed by blast
  have "\<not> lt_poisoned demo_life" "\<not> ls_fixed_run (lt_state demo_life)" by (simp_all add: demo_life_def life_default_def)
  from reopen_recovers [OF w this] show ?thesis using w(2) by blast
qed

lemma demo_fill:
  "\<exists>f'. fill_pool (\<lambda>ch cx. (Inr (), ch)) (\<lambda>ch cx. (Inr (), ch)) (\<lambda>s c (_ :: unit). demo_pool) demo_hashes Io_Ok (Some 7) False
     \<lparr>ch_in = [], ch_out = [], ch_write_ok = True\<rparr> 4 5 3 False demo_life f = (Inr demo_pool, demo_filled, f')"
proof -
  have ok: "setup_ok life_default 1 0 3 0" by (simp add: setup_ok_def life_default_def life_limit_def ROOT_SLOTS_def)
  have r: "life_apply (record_bytes 1 1 0 3 0) life_default = Inr (life_default\<lparr>ls_setups := 1, ls_rows := 3\<rparr>)"
    unfolding life_apply_def record_fields Let_def using ok by (simp add: life_default_def)
  have m: "model_bytes demo_model \<noteq> Inl e" for e by (simp add: model_bytes_def demo_model_def)
  then obtain bs where bs: "model_bytes demo_model = Inr bs" by (cases "model_bytes demo_model") auto
  have cap: "fst (capacity_seal (Some 7) False \<lparr>ch_in = [], ch_out = [], ch_write_ok = True\<rparr>) = Inr 7"
    by (simp add: capacity_seal_def str_bytes_def)
  have s: "ls_setups (lt_state demo_life) + 1 = 1" "ls_attempts (lt_state demo_life) = 0" "lt_state demo_life = life_default" "\<not> lt_poisoned demo_life"
    "lt_model demo_life = demo_model" by (simp_all add: demo_life_def life_default_def)
  have "lifetime_append Io_Ok 1 1 0 3 0 demo_life f = (Inr (), demo_filled, snd (write_and_sync Io_Ok (record_bytes 1 1 0 3 0) f))"
    unfolding lifetime_append_def Let_def s(3) r using s(4) by (simp add: write_and_sync_def demo_filled_def demo_life_def)
  then show ?thesis using bs cap s by (simp add: fill_pool_def begin_for_def ROOT_SLOTS_def demo_filled_def)
qed

theorem rows_handed_once_witness:
  "\<exists>w :: nat world. w_handed w = [(next_attempt demo_pool demo_filled, [10, 11, 12])] \<and> w_filled w = [(1, [10, 11, 12])]
    \<and> sorted_wrt extent_before (map extent (w_handed w)) \<and> length (w_handed w) \<le> 3
    \<and> (\<forall>(a, rs) \<in> set (w_handed w). \<exists>pl. (at_setup a, pl) \<in> set (w_filled w) \<and> slice (unat (at_first_base_row a)) (length rs) pl = Some rs)"
proof -
  let ?mk = "\<lambda>s c (_ :: unit). demo_pool" and ?c = "\<lambda>a rs dl. Returned (Inr ((), None))"
  obtain w f where w: "life_reachable ?mk w" "w_live w = Some (demo_life, None)" "dk_file (w_disk w) = Some f" "w_handed w = []" "w_filled w = []"
    using demo_installed by blast
  have fb: "filled_by (Inr demo_pool) demo_filled = [(1, [10, 11, 12])]"
    by (simp add: filled_by_def demo_pool_def demo_filled_def demo_life_def life_default_def)
  let ?w1 = "\<lambda>f1. set_file f1 (w\<lparr>w_live := Some (demo_filled, Some demo_pool), w_filled := [(1, [10, 11, 12])]\<rparr>)"
  obtain f1 where f1: "life_step ?mk w (?w1 f1)"
    using life_step.fill [OF w(2,3)] demo_fill [of f] by (fastforce simp: after_fill_def fb w(5))
  obtain p2 l2 f2 where r: "attempt_reserve Io_Ok 0 1 demo_pool demo_filled f1 = Some (Inr (next_attempt demo_pool demo_filled, next_rows 1 demo_pool demo_filled), p2, l2, f2)"
    using attempt_reserve_room [OF demo_room] by blast
  then obtain res l3 f3 where a: "pool_attempt Io_Ok Io_Ok 0 1 ?c demo_pool demo_filled f1 = Some (res, p2, l3, f3)"
    by (simp add: pool_attempt_def Let_def attempt_finish_def)
  have h: "handed_by Io_Ok 0 1 demo_pool demo_filled f1 = [(next_attempt demo_pool demo_filled, [10, 11, 12])]"
    using r by (simp add: handed_by_def next_rows_def demo_pool_def demo_filled_def demo_life_def life_default_def)
  have "w_live (?w1 f1) = Some (demo_filled, Some demo_pool)" "dk_file (w_disk (?w1 f1)) = Some f1" "w_handed (?w1 f1) = []" using w(4) by (simp_all add: set_file_def)
  from life_step.attempt [OF this(1,2) a, of ?mk] this(3)
  have "life_reachable ?mk (set_file f3 ((?w1 f1)\<lparr>w_live := Some (l3, Some p2), w_handed := handed_by Io_Ok 0 1 demo_pool demo_filled f1\<rparr>))" (is "life_reachable _ ?w2")
    using life_reachable.step [OF life_reachable.step [OF w(1) f1]] by simp
  from rows_handed_once [OF this] show ?thesis using h by (intro exI [of _ ?w2]) (simp add: set_file_def)
qed

end
