(* ===== verification/Wire_Codec.thy ===== *)
theory Wire_Codec
  imports Transcript
begin

text \<open>
  Readers of wire images, as the decoders of the repository use them: a reader consumes a prefix of the
  unread bytes or stops with an error. The locale \<open>codec\<close> is what an encoder and its reader promise each
  other: reading an encoding gives the value back and leaves the rest, and what is read was encoded. The
  promise extends to sequences of a known length and to pairs.
\<close>

section \<open>Readers\<close>

type_synonym ('e, 'a) reader = "bytes \<Rightarrow> 'e + 'a \<times> bytes"

text \<open>The \<^verbatim>\<open>take\<close> of the readers, which returns the next \<open>n\<close> bytes.\<close>

definition read_take :: "'e \<Rightarrow> nat \<Rightarrow> ('e, bytes) reader" where
  "read_take truncated n bs = (if n \<le> length bs then Inr (take n bs, drop n bs) else Inl truncated)"

fun read_n :: "nat \<Rightarrow> ('e, 'a) reader \<Rightarrow> ('e, 'a list) reader" where
  "read_n 0 d bs = Inr ([], bs)"
| "read_n (Suc n) d bs = ok_then (d bs) (\<lambda>(x, r). ok_then (read_n n d r) (\<lambda>(xs, r). Inr (x # xs, r)))"

definition read_pair :: "('e, 'a) reader \<Rightarrow> ('e, 'b) reader \<Rightarrow> ('e, 'a \<times> 'b) reader" where
  "read_pair d1 d2 bs = ok_then (d1 bs) (\<lambda>(x, r). ok_then (d2 r) (\<lambda>(y, r). Inr ((x, y), r)))"

section \<open>The promise\<close>

locale codec =
  fixes enc :: "'a \<Rightarrow> bytes" and dec :: "('e, 'a) reader" and ok :: "'a \<Rightarrow> bool"
  assumes dec_enc: "ok x \<Longrightarrow> dec (enc x @ r) = Inr (x, r)"
    and dec_Inr: "dec bs = Inr (x, r) \<Longrightarrow> ok x \<and> bs = enc x @ r"
begin

lemma dec_iff: "dec bs = Inr (x, r) \<longleftrightarrow> ok x \<and> bs = enc x @ r"
  using dec_enc dec_Inr by blast

lemma enc_inject: "ok x \<Longrightarrow> ok y \<Longrightarrow> enc x @ r = enc y @ s \<Longrightarrow> x = y \<and> r = s"
  using dec_enc by (metis prod.inject sum.inject(2))

lemma read_n_iff:
  "read_n n dec bs = Inr (xs, r) \<longleftrightarrow> length xs = n \<and> list_all ok xs \<and> bs = concat (map enc xs) @ r"
proof (induction n arbitrary: bs xs r)
  case (Suc n)
  show ?case by (cases xs) (auto simp: ok_then_Inr dec_iff Suc.IH split: prod.splits)
qed auto

lemma read_n_enc: "length xs = n \<Longrightarrow> list_all ok xs \<Longrightarrow> read_n n dec (concat (map enc xs) @ r) = Inr (xs, r)"
  by (simp add: read_n_iff)

lemma vec_codec: "codec (\<lambda>xs. concat (map enc xs)) (read_n n dec) (\<lambda>xs. length xs = n \<and> list_all ok xs)"
  by unfold_locales (simp_all add: read_n_iff)

end

lemma pair_codec:
  assumes "codec e1 d1 ok1" "codec e2 d2 ok2"
  shows "codec (\<lambda>(x, y). e1 x @ e2 y) (read_pair d1 d2) (\<lambda>(x, y). ok1 x \<and> ok2 y)"
  by unfold_locales
    (auto simp: read_pair_def ok_then_Inr codec.dec_iff [OF assms(1)] codec.dec_iff [OF assms(2)]
       codec.dec_enc [OF assms(1)] codec.dec_enc [OF assms(2)])

section \<open>Leaves\<close>

definition read_u32 :: "'e \<Rightarrow> ('e, u32) reader" where
  "read_u32 truncated bs = ok_then (read_take truncated 4 bs) (\<lambda>(b, r). Inr (word_of_nat (le_value b), r))"

definition read_u64 :: "'e \<Rightarrow> ('e, u64) reader" where
  "read_u64 truncated bs = ok_then (read_take truncated 8 bs) (\<lambda>(b, r). Inr (word_of_nat (le_value b), r))"

definition read_fp :: "'e \<Rightarrow> 'e \<Rightarrow> ('e, fp) reader" where
  "read_fp truncated noncanonical bs =
     ok_then (read_u64 truncated bs) (\<lambda>(value, r). if P_u64 \<le> value then Inl noncanonical else Inr (fp_new value, r))"

definition read_fp2 :: "'e \<Rightarrow> 'e \<Rightarrow> ('e, fp2) reader" where
  "read_fp2 truncated noncanonical bs =
     ok_then (read_fp truncated noncanonical bs) (\<lambda>(c0, r).
       ok_then (read_fp truncated noncanonical r) (\<lambda>(c1, r). Inr (Fp2 c0 c1, r)))"

lemma read_take_iff: "read_take e n bs = Inr (b, r) \<longleftrightarrow> length b = n \<and> bs = b @ r"
  by (auto simp: read_take_def)

lemma le_value_word: "length b = n \<Longrightarrow> le_bytes n (unat (word_of_nat (le_value b) :: 'a :: len word)) = b"
  if "LENGTH('a) = 8 * n"
proof -
  assume n: "length b = n"
  have "le_value b < 2 ^ LENGTH('a)" using le_value_less [of b] that n by (simp add: power_mult)
  then have "unat (word_of_nat (le_value b) :: 'a word) = le_value b" by (simp add: unat_of_nat take_bit_nat_eq_self)
  then show ?thesis using le_bytes_le_value [of b] n by simp
qed

lemma le_value_u32 [simp]: "le_value (u32_le x) = unat x"
  using unat_word_less [of x] by (simp add: le_value_le_bytes)

interpretation wire_bytes: codec "\<lambda>b. b" "read_take e n" "\<lambda>b. length b = n"
  by unfold_locales (simp_all add: read_take_iff)

interpretation wire_u32: codec u32_le "read_u32 e" "\<lambda>_. True"
  by unfold_locales (auto simp: read_u32_def ok_then_Inr read_take_iff le_value_word)

interpretation wire_u64: codec u64_le "read_u64 e" "\<lambda>_. True"
  by unfold_locales (auto simp: read_u64_def ok_then_Inr read_take_iff le_value_word)

lemma fp_value_below [simp]: "fp_value x < P_u64"
  using fp_value_less [of x] by (simp add: word_less_alt P_u64_def)

interpretation wire_fp: codec fp_bytes "read_fp e e'" "\<lambda>_. True"
proof unfold_locales
  show "read_fp e e' (fp_bytes x @ r) = Inr (x, r)" for x r
    using fp_value_below [of x] by (simp add: read_fp_def fp_bytes_def wire_u64.dec_enc leD)
  show "True \<and> bs = fp_bytes x @ r" if "read_fp e e' bs = Inr (x, r)" for bs x r
    using that by (auto simp: read_fp_def fp_bytes_def ok_then_Inr wire_u64.dec_iff fp_value_new_canonical split: if_splits)
qed

interpretation wire_fp2: codec fp2_bytes "read_fp2 e e'" "\<lambda>_. True"
proof unfold_locales
  show "read_fp2 e e' (fp2_bytes x @ r) = Inr (x, r)" for x r
    by (cases x) (simp add: read_fp2_def fp2_bytes_def wire_fp.dec_enc)
  show "True \<and> bs = fp2_bytes x @ r" if "read_fp2 e e' bs = Inr (x, r)" for bs x r
    using that by (auto simp: read_fp2_def fp2_bytes_def ok_then_Inr wire_fp.dec_iff)
qed

end
