(* ===== verification/Ligero.thy ===== *)
theory Ligero
  imports Merkle Ntt Blind Thaler
begin

text \<open>
  The static weight commitment and its zero-knowledge opening (\<^verbatim>\<open>volta-pcs/src/ligero.rs\<close>, the CPU path):
  the coefficient matrix with secret row pads, its Reed--Solomon encoding, the Merkle commitment to the
  encoded columns, and the multi-claim opening, which resolves authenticated claims on blocks of the weight
  vector into the verifier's MAC keys. Timings are not modelled. The result of the parallel reductions does
  not depend on their shape, since field addition is associative; the number of worker threads is a parameter.
\<close>

section \<open>Parameters and commitment\<close>

record ligero_params =
  lp_rows :: nat
  lp_col_bits :: nat
  lp_pad :: nat
  lp_code_bits :: nat
  lp_n_queries :: nat

definition GPT2_FULL :: ligero_params where
  "GPT2_FULL = \<lparr>lp_rows = 2 ^ 13, lp_col_bits = 14, lp_pad = 512, lp_code_bits = 15, lp_n_queries = 200\<rparr>"

text \<open>A shift of a \<^verbatim>\<open>usize\<close> uses the shift amount modulo 64.\<close>

definition lp_row_bits :: "ligero_params \<Rightarrow> nat" where
  "lp_row_bits p = trailing_zeros (next_power_of_two (lp_rows p))"

definition lp_cols :: "ligero_params \<Rightarrow> nat" where
  "lp_cols p = 2 ^ (lp_col_bits p mod 64)"

definition lp_msg_len :: "ligero_params \<Rightarrow> nat" where
  "lp_msg_len p = lp_cols p + lp_pad p"

definition lp_code_len :: "ligero_params \<Rightarrow> nat" where
  "lp_code_len p = 2 ^ (lp_code_bits p mod 64)"

definition lp_n_vars :: "ligero_params \<Rightarrow> nat" where
  "lp_n_vars p = lp_row_bits p + lp_col_bits p"

definition lp_validate :: "ligero_params \<Rightarrow> bool" where
  "lp_validate p \<longleftrightarrow> 0 < lp_rows p \<and> lp_msg_len p \<le> lp_code_len p \<and> lp_n_queries p \<le> lp_pad p"

record commitment =
  cm_root :: hash

record prover_matrix =
  pm_params :: ligero_params
  pm_pads :: "fp list"
  pm_encoded :: "fp list"
  pm_tree :: merkle_tree

definition col_bytes :: "fp list \<Rightarrow> bytes" where
  "col_bytes col = concat (map fp_bytes col)"

definition make_pads :: "chacha \<Rightarrow> bytes \<Rightarrow> nat \<Rightarrow> nat \<Rightarrow> fp list option" where
  "make_pads chacha seed rows pad =
     map_option concat (those (map (\<lambda>r. map_option fst
       (next_fps pad (fp_stream_domain_separated chacha seed (word_of_nat r)))) [0..<rows]))"

definition message_row :: "ligero_params \<Rightarrow> int list \<Rightarrow> fp list \<Rightarrow> nat \<Rightarrow> fp list option" where
  "message_row p w pads r =
     do { data \<leftarrow> slice (r * lp_cols p) (lp_cols p) w;
          tail \<leftarrow> slice (r * lp_pad p) (lp_pad p) pads;
          Some (map fp_from_i64 data @ tail) }"

definition encode_row :: "ntt_plan \<Rightarrow> ligero_params \<Rightarrow> int list \<Rightarrow> fp list \<Rightarrow> nat \<Rightarrow> fp list option" where
  "encode_row plan p w pads r =
     do { msg \<leftarrow> message_row p w pads r;
          if length msg \<le> lp_code_len p then forward plan (msg @ replicate (lp_code_len p - length msg) 0) else None }"

definition encode_rows :: "ntt_plan \<Rightarrow> ligero_params \<Rightarrow> int list \<Rightarrow> fp list \<Rightarrow> fp list option" where
  "encode_rows plan p w pads = map_option concat (those (map (encode_row plan p w pads) [0..<lp_rows p]))"

text \<open>One tile of columns, transposed into a buffer; the tiles cover the code length exactly.\<close>

definition tile_buffer :: "ligero_params \<Rightarrow> fp list \<Rightarrow> nat \<Rightarrow> nat \<Rightarrow> fp list" where
  "tile_buffer p encoded tile j0 =
     foldl (\<lambda>buf (i, dj). buf[dj * lp_rows p + i := encoded ! (i * lp_code_len p + j0 + dj)])
       (replicate (lp_rows p * tile) 0) (List.product [0..<lp_rows p] [0..<tile])"

definition tile_leaves :: "blake3 \<Rightarrow> ligero_params \<Rightarrow> fp list \<Rightarrow> nat \<Rightarrow> nat \<Rightarrow> hash list" where
  "tile_leaves H p encoded tile t =
     (let buf = tile_buffer p encoded tile (t * tile)
      in map (\<lambda>dj. hash_leaf H (col_bytes (take (lp_rows p) (drop (dj * lp_rows p) buf)))) [0..<tile])"

definition column_leaves :: "blake3 \<Rightarrow> ligero_params \<Rightarrow> fp list \<Rightarrow> hash list" where
  "column_leaves H p encoded =
     (let tile = min 128 (lp_code_len p)
      in concat (map (tile_leaves H p encoded tile) [0..<lp_code_len p div tile]))"

definition ligero_commit ::
  "blake3 \<Rightarrow> chacha \<Rightarrow> int list \<Rightarrow> ligero_params \<Rightarrow> bytes \<Rightarrow> (commitment \<times> prover_matrix) option" where
  "ligero_commit H chacha w p pad_seed =
     (if lp_validate p \<and> length w = lp_rows p * lp_cols p
      then do { plan \<leftarrow> plan_new (lp_code_len p);
                pads \<leftarrow> make_pads chacha pad_seed (lp_rows p) (lp_pad p);
                encoded \<leftarrow> encode_rows plan p w pads;
                tree \<leftarrow> from_leaves H (column_leaves H p encoded);
                root \<leftarrow> merkle_root tree;
                Some (\<lparr>cm_root = root\<rparr>, \<lparr>pm_params = p, pm_pads = pads, pm_encoded = encoded, pm_tree = tree\<rparr>) }
      else None)"

section \<open>Shared steps of opening and verification\<close>

definition encode_fp2 :: "ntt_plan \<Rightarrow> fp2 list \<Rightarrow> fp2 list option" where
  "encode_fp2 plan v =
     do { e0 \<leftarrow> encode plan (map fp2_c0 v);
          e1 \<leftarrow> encode plan (map fp2_c1 v);
          Some (map2 Fp2 e0 e1) }"

primrec challenge_powers :: "fp2 \<Rightarrow> nat \<Rightarrow> fp2 \<Rightarrow> fp2 list" where
  "challenge_powers c 0 acc = []"
| "challenge_powers c (Suc n) acc = (acc * c) # challenge_powers c n (acc * c)"

fun draw_queries :: "blake3 \<Rightarrow> nat \<Rightarrow> nat \<Rightarrow> transcript \<Rightarrow> (nat list \<times> transcript) option" where
  "draw_queries H code_len 0 tx = Some ([], tx)"
| "draw_queries H code_len (Suc n) tx =
     do { (c, tx) \<leftarrow> challenge_fp2 H tx;
          (js, tx) \<leftarrow> draw_queries H code_len n tx;
          Some (unat (fp_value (fp2_c0 c)) mod code_len # js, tx) }"

definition inner_cols :: "nat \<Rightarrow> fp2 list \<Rightarrow> fp2 list \<Rightarrow> fp2" where
  "inner_cols cols u q = foldl (\<lambda>a j. a + u ! j * q ! j) 0 [0..<cols]"

record block_claim =
  bc_offset :: nat
  bc_point :: "fp2 list"

record claim_geom_t =
  ge_row0 :: nat
  ge_q_row :: "fp2 list"
  ge_q_col :: "fp2 list"

definition checked_shl_1 :: "nat \<Rightarrow> nat option" where
  "checked_shl_1 n = (if n < 64 then Some (2 ^ n) else None)"

definition claim_geom :: "ligero_params \<Rightarrow> block_claim \<Rightarrow> claim_geom_t option" where
  "claim_geom p c =
     (let cb = lp_col_bits p; bv = length (bc_point c) in
      if bv < cb \<or> lp_n_vars p < bv then None
      else do { block_len \<leftarrow> checked_shl_1 bv;
                if bc_offset c mod block_len \<noteq> 0 then None
                else do { row_count \<leftarrow> checked_shl_1 (bv - cb);
                          let row0 = drop_bit cb (bc_offset c);
                          if lp_rows p < row0 + row_count then None
                          else Some \<lparr>ge_row0 = row0, ge_q_row = eq_vec (drop cb (bc_point c)),
                                     ge_q_col = eq_vec (take cb (bc_point c))\<rparr> } })"

record multi_column =
  mc_j :: u32
  mc_col :: "fp list"
  mc_mask_col :: "fp2 list"
  mc_path :: "hash list"
  mc_mask_path :: "hash list"

record multi_open_proof =
  mo_mask_root :: hash
  mo_u_c :: "fp2 list"
  mo_u_gs :: "fp2 list list"
  mo_corr_ss :: "fp2 list"
  mo_mask_corr :: fp2
  mo_m_z :: fp2
  mo_columns :: "multi_column list"

definition append_multi_u_vectors :: "blake3 \<Rightarrow> fp2 list \<Rightarrow> fp2 list list \<Rightarrow> transcript \<Rightarrow> transcript option" where
  "append_multi_u_vectors H u_c u_gs = append_fp2_value_slices_digest H ''pcs_u_vectors'' (u_c # u_gs)"

definition column_wire :: "multi_column \<Rightarrow> bytes" where
  "column_wire c = u32_le (mc_j c) @ concat (map fp_bytes (mc_col c)) @ concat (map fp2_bytes (mc_mask_col c))
     @ concat (mc_path c) @ concat (mc_mask_path c)"

definition column_count :: "multi_column \<Rightarrow> nat" where
  "column_count c = 4 + 8 * length (mc_col c) + 16 * length (mc_mask_col c)
     + 32 * (length (mc_path c) + length (mc_mask_path c))"

text \<open>The byte counter is checked: an overflow of \<^verbatim>\<open>u64\<close> panics.\<close>

definition append_multi_columns :: "blake3 \<Rightarrow> multi_column list \<Rightarrow> transcript \<Rightarrow> transcript option" where
  "append_multi_columns H columns tx =
     (let n = sum_list (map column_count columns) in
      if n < 2 ^ 64
      then append_message_digest ''pcs_columns'' (word_of_nat n) (b3_hash H (concat (map column_wire columns))) tx
      else None)"

definition multi_mask_leaf :: "blake3 \<Rightarrow> fp2 list \<Rightarrow> hash" where
  "multi_mask_leaf H vals = hash_leaf H (concat (map fp2_bytes vals))"

definition combine_row_range ::
  "int list \<Rightarrow> fp list \<Rightarrow> ligero_params \<Rightarrow> nat \<Rightarrow> fp2 list \<Rightarrow> fp2 list option" where
  "combine_row_range w pads p row0 coeffs =
     fold_opt (\<lambda>(di, ci) u. do { msg \<leftarrow> message_row p w pads (row0 + di);
                                 Some (map2 (\<lambda>a x. a + fp2_mul_base ci x) u msg) })
       (enumerate 0 coeffs) (replicate (lp_msg_len p) 0)"

section \<open>The multi-claim opening\<close>

definition make_masks :: "chacha \<Rightarrow> bytes \<Rightarrow> nat \<Rightarrow> nat \<Rightarrow> fp2 list list option" where
  "make_masks chacha seed n_claims msg_len =
     those (map (\<lambda>g. map_option fst (next_fp2s msg_len (fp_stream_domain_separated chacha seed (word_of_nat g))))
       [0..<Suc n_claims])"

definition mask_commit :: "blake3 \<Rightarrow> ntt_plan \<Rightarrow> nat \<Rightarrow> fp2 list list \<Rightarrow> (fp2 list list \<times> merkle_tree) option" where
  "mask_commit H plan code_len masks =
     do { masks_enc \<leftarrow> those (map (encode_fp2 plan) masks);
          tree \<leftarrow> from_leaves H (map (\<lambda>j. multi_mask_leaf H (map (\<lambda>m. m ! j) masks_enc)) [0..<code_len]);
          Some (masks_enc, tree) }"

definition global_pass ::
  "nat \<Rightarrow> int list \<Rightarrow> fp list \<Rightarrow> ligero_params \<Rightarrow> fp2 list \<Rightarrow> fp2 list option" where
  "global_pass threads w pads p c_pows =
     (let n_chunks = threads * 4; rows_per = (lp_rows p + n_chunks - 1) div n_chunks in
      if n_chunks = 0 then None
      else do { parts \<leftarrow> those (map (\<lambda>ci.
                  let r0 = ci * rows_per; r1 = min (lp_rows p) (r0 + rows_per) in
                  if r1 \<le> r0 then Some (replicate (lp_msg_len p) 0)
                  else combine_row_range w pads p r0 (take (r1 - r0) (drop r0 c_pows))) [0..<n_chunks]);
                Some (foldr (map2 (+)) parts (replicate (lp_msg_len p) 0)) })"

definition claim_zero :: "nat \<Rightarrow> prover_authed \<Rightarrow> full_corr \<Rightarrow> fp2 list \<Rightarrow> fp2 list \<Rightarrow> fp2 list \<Rightarrow> fp2 \<times> prover_authed" where
  "claim_zero cols value corr rmask u q_col =
     (let s_val = inner_cols cols rmask q_col; ip = inner_cols cols u q_col
      in (s_val - fc_x corr,
          prover_sub (prover_add value (full_authenticate corr s_val)) (prover_from_public ip)))"

definition open_column ::
  "prover_matrix \<Rightarrow> fp2 list list \<Rightarrow> merkle_tree \<Rightarrow> nat \<Rightarrow> multi_column option" where
  "open_column pm masks_enc mask_tree j =
     do { path \<leftarrow> merkle_open (pm_tree pm) j;
          mask_path \<leftarrow> merkle_open mask_tree j;
          Some \<lparr>mc_j = word_of_nat j,
                mc_col = map (\<lambda>i. pm_encoded pm ! (i * lp_code_len (pm_params pm) + j)) [0..<lp_rows (pm_params pm)],
                mc_mask_col = map (\<lambda>m. m ! j) masks_enc, mc_path = path, mc_mask_path = mask_path\<rparr> }"

text \<open>Steps 4 and 5: the MAC resolution and the column queries.\<close>

definition open_mac ::
  "blake3 \<Rightarrow> chacha \<Rightarrow> nat \<Rightarrow> prover_authed list \<Rightarrow> claim_geom_t list \<Rightarrow> fp2 list list \<Rightarrow> fp2 list list
   \<Rightarrow> correlation_stream \<Rightarrow> u64 \<Rightarrow> u64 \<Rightarrow> transcript
   \<Rightarrow> (fp2 list \<times> fp2 \<times> fp2 \<times> correlation_stream \<times> transcript) option" where
  "open_mac H chacha cols vals geoms masks u_gs s dom_s dom_zb tx =
     do { (fcs, s) \<leftarrow> draw_fulls chacha dom_s (length vals) s;
          let steps = map (\<lambda>g. claim_zero cols (vals ! g) (fcs ! g) (masks ! Suc g) (u_gs ! g) (ge_q_col (geoms ! g)))
            [0..<length geoms];
          let corr_ss = map fst steps;
          tx \<leftarrow> append_fp2_value_slices_digest H ''pcs_s_corrections'' [corr_ss] tx;
          (zbs, s) \<leftarrow> draw_fulls chacha dom_zb 1 s;
          zb_corr \<leftarrow> get zbs 0;
          (zb_mask, mask_corr, tx) \<leftarrow> fresh_zero_mask zb_corr tx;
          (chi, tx) \<leftarrow> challenge_fp2 H tx;
          (m_z, tx) \<leftarrow> zero_batch_prover (map snd steps) zb_mask chi tx;
          Some (corr_ss, mask_corr, m_z, s, tx) }"

definition open_columns ::
  "blake3 \<Rightarrow> prover_matrix \<Rightarrow> fp2 list list \<Rightarrow> merkle_tree \<Rightarrow> transcript \<Rightarrow> (multi_column list \<times> transcript) option" where
  "open_columns H pm masks_enc mask_tree tx =
     do { (js, tx) \<leftarrow> draw_queries H (lp_code_len (pm_params pm)) (lp_n_queries (pm_params pm)) tx;
          columns \<leftarrow> those (map (open_column pm masks_enc mask_tree) js);
          tx \<leftarrow> append_multi_columns H columns tx;
          Some (columns, tx) }"

datatype operation = Operation_Gemm | Operation_Logup | PcsRows | PcsNtt | PcsMerkle | AuthMasks | Operation_Mailbox

datatype accel_error = FeatureDisabled
  | InvalidInput string
  | LibraryLoad string
  | MissingSymbol string
  | AbiMismatch (expected: u32) (found: u32)
  | Cuda string
  | ResidualForbidden operation
  | MeasurementAlreadyActive
  | MeasurementNotActive
  | AttributionInconsistent (wall_ns: u64) (attributed_ns: u64)

definition open_multi_zk_impl ::
  "blake3 \<Rightarrow> chacha \<Rightarrow> nat \<Rightarrow> int list \<Rightarrow> prover_matrix \<Rightarrow> (block_claim \<times> prover_authed) list \<Rightarrow> correlation_stream
   \<Rightarrow> u64 \<Rightarrow> u64 \<Rightarrow> bytes \<Rightarrow> transcript \<Rightarrow> (accel_error + (multi_open_proof \<times> correlation_stream \<times> transcript)) option" where
  "open_multi_zk_impl H chacha threads w pm claims s dom_s dom_zb mask_seed tx =
     (let p = pm_params pm in
      if claims = [] then None
      else if length w \<noteq> lp_rows p * lp_cols p then Some (Inl (InvalidInput ''PCS opening weight geometry mismatch''))
      else do { plan \<leftarrow> plan_new (lp_code_len p);
        case those (map (claim_geom p \<circ> fst) claims) of
          None \<Rightarrow> Some (Inl (InvalidInput ''PCS claim exceeds explicit matrix rows''))
        | Some geoms \<Rightarrow> do {
            masks \<leftarrow> make_masks chacha mask_seed (length claims) (lp_msg_len p);
            (masks_enc, mask_tree) \<leftarrow> mask_commit H plan (lp_code_len p) masks;
            mask_root \<leftarrow> merkle_root mask_tree;
            tx \<leftarrow> append_message ''pcs_mask_root'' mask_root tx;
            (c, tx) \<leftarrow> challenge_fp2 H tx;
            let c_pows = challenge_powers c (lp_rows p) 1;
            g \<leftarrow> global_pass threads w (pm_pads pm) p c_pows;
            let u_c = map2 (+) g (masks ! 0);
            us \<leftarrow> those (map (\<lambda>geo. combine_row_range w (pm_pads pm) p (ge_row0 geo) (ge_q_row geo)) geoms);
            let u_gs = map2 (map2 (+)) us (tl masks);
            tx \<leftarrow> append_multi_u_vectors H u_c u_gs tx;
            (corr_ss, mask_corr, m_z, s, tx) \<leftarrow>
              open_mac H chacha (lp_cols p) (map snd claims) geoms masks u_gs s dom_s dom_zb tx;
            (columns, tx) \<leftarrow> open_columns H pm masks_enc mask_tree tx;
            Some (Inr (\<lparr>mo_mask_root = mask_root, mo_u_c = u_c, mo_u_gs = u_gs, mo_corr_ss = corr_ss,
                        mo_mask_corr = mask_corr, mo_m_z = m_z, mo_columns = columns\<rparr>, s, tx)) } })"

definition open_multi_zk ::
  "blake3 \<Rightarrow> chacha \<Rightarrow> nat \<Rightarrow> int list \<Rightarrow> prover_matrix \<Rightarrow> (block_claim \<times> prover_authed) list \<Rightarrow> correlation_stream
   \<Rightarrow> u64 \<Rightarrow> u64 \<Rightarrow> bytes \<Rightarrow> transcript \<Rightarrow> (multi_open_proof \<times> correlation_stream \<times> transcript) option" where
  "open_multi_zk H chacha threads w pm claims s dom_s dom_zb mask_seed tx =
     do { r \<leftarrow> open_multi_zk_impl H chacha threads w pm claims s dom_s dom_zb mask_seed tx;
          case r of Inl _ \<Rightarrow> None | Inr out \<Rightarrow> Some out }"

section \<open>The verifier\<close>

definition proof_shape :: "ligero_params \<Rightarrow> nat \<Rightarrow> multi_open_proof \<Rightarrow> bool" where
  "proof_shape p n pf \<longleftrightarrow> n \<noteq> 0 \<and> length (mo_u_c pf) = lp_msg_len p \<and> length (mo_u_gs pf) = n
     \<and> (\<forall>u \<in> set (mo_u_gs pf). length u = lp_msg_len p) \<and> length (mo_corr_ss pf) = n
     \<and> length (mo_columns pf) = lp_n_queries p"

definition column_shape :: "ligero_params \<Rightarrow> nat \<Rightarrow> multi_column \<Rightarrow> bool" where
  "column_shape p n co \<longleftrightarrow> unat (mc_j co) < lp_code_len p \<and> length (mc_col co) = lp_rows p
     \<and> length (mc_mask_col co) = n + 1 \<and> length (mc_path co) = lp_code_bits p \<and> length (mc_mask_path co) = lp_code_bits p"

definition verify_mac ::
  "blake3 \<Rightarrow> chacha \<Rightarrow> nat \<Rightarrow> verifier_key list \<Rightarrow> claim_geom_t list \<Rightarrow> multi_open_proof \<Rightarrow> verifier_ctx
   \<Rightarrow> u64 \<Rightarrow> u64 \<Rightarrow> transcript \<Rightarrow> (bool \<times> verifier_ctx \<times> transcript) option" where
  "verify_mac H chacha cols keys geoms pf v dom_s dom_zb tx =
     do { tx \<leftarrow> append_fp2_value_slices_digest H ''pcs_s_corrections'' [mo_corr_ss pf] tx;
          tx \<leftarrow> append_fp2s ''mask_correction'' [mo_mask_corr pf] tx;
          (k_ss, v) \<leftarrow> correct_full_verifier_keys chacha dom_s (mo_corr_ss pf) v;
          let k_zs = map (\<lambda>g. key_sub (key_add (keys ! g) (k_ss ! g))
              (key_from_public (inner_cols cols (mo_u_gs pf ! g) (ge_q_col (geoms ! g))) (vc_delta v))) [0..<length geoms];
          (k_zbs, v) \<leftarrow> expand_full_verifier_keys chacha dom_zb 1 v;
          k_zb_full \<leftarrow> get k_zbs 0;
          let k_mask = zero_mask_key (vc_delta v) k_zb_full (mo_mask_corr pf);
          (chi, tx) \<leftarrow> challenge_fp2 H tx;
          tx \<leftarrow> append_fp2s ''zero_batch_tag'' [mo_m_z pf] tx;
          Some (zero_batch_verify k_zs k_mask chi (mo_m_z pf), v, tx) }"

definition weighted_column :: "fp2 list \<Rightarrow> fp list \<Rightarrow> nat \<Rightarrow> fp2" where
  "weighted_column coeffs col row0 =
     foldl (\<lambda>acc (di, q). acc + fp2_mul_base q (col ! (row0 + di))) 0 (enumerate 0 coeffs)"

definition column_ok ::
  "blake3 \<Rightarrow> hash \<Rightarrow> ligero_params \<Rightarrow> claim_geom_t list \<Rightarrow> multi_open_proof \<Rightarrow> fp2 list \<Rightarrow> fp2 list \<Rightarrow> fp2 list list
   \<Rightarrow> nat \<Rightarrow> multi_column \<Rightarrow> bool" where
  "column_ok H root p geoms pf c_pows enc_uc enc_ugs jq co =
     (let j = unat (mc_j co) in
      j = jq
      \<and> verify_path H root j (hash_leaf H (col_bytes (mc_col co))) (mc_path co) (lp_code_bits p)
      \<and> verify_path H (mo_mask_root pf) j (multi_mask_leaf H (mc_mask_col co)) (mc_mask_path co) (lp_code_bits p)
      \<and> enc_uc ! j = weighted_column c_pows (mc_col co) 0 + mc_mask_col co ! 0
      \<and> list_all (\<lambda>g. enc_ugs ! g ! j
           = weighted_column (ge_q_row (geoms ! g)) (mc_col co) (ge_row0 (geoms ! g)) + mc_mask_col co ! Suc g)
          [0..<length geoms])"

text \<open>The vectors that are indexed have the lengths checked at the start.\<close>

definition verify_multi_open ::
  "blake3 \<Rightarrow> chacha \<Rightarrow> hash \<Rightarrow> ligero_params \<Rightarrow> (block_claim \<times> verifier_key) list \<Rightarrow> multi_open_proof \<Rightarrow> verifier_ctx
   \<Rightarrow> u64 \<Rightarrow> u64 \<Rightarrow> transcript \<Rightarrow> (bool \<times> verifier_ctx \<times> transcript) option" where
  "verify_multi_open H chacha root p claims pf v dom_s dom_zb tx =
     (if \<not> proof_shape p (length claims) pf \<or> \<not> list_all (column_shape p (length claims)) (mo_columns pf)
      then Some (False, v, tx)
      else do { plan \<leftarrow> plan_new (lp_code_len p);
        case those (map (claim_geom p \<circ> fst) claims) of
          None \<Rightarrow> Some (False, v, tx)
        | Some geoms \<Rightarrow> do {
            tx \<leftarrow> append_message ''pcs_mask_root'' (mo_mask_root pf) tx;
            (c, tx) \<leftarrow> challenge_fp2 H tx;
            let c_pows = challenge_powers c (lp_rows p) 1;
            tx \<leftarrow> append_multi_u_vectors H (mo_u_c pf) (mo_u_gs pf) tx;
            (mac_ok, v, tx) \<leftarrow> verify_mac H chacha (lp_cols p) (map snd claims) geoms pf v dom_s dom_zb tx;
            if \<not> mac_ok then Some (False, v, tx)
            else do {
              (js, tx) \<leftarrow> draw_queries H (lp_code_len p) (lp_n_queries p) tx;
              tx \<leftarrow> append_multi_columns H (mo_columns pf) tx;
              enc_uc \<leftarrow> encode_fp2 plan (mo_u_c pf);
              enc_ugs \<leftarrow> those (map (encode_fp2 plan) (mo_u_gs pf));
              Some (list_all (\<lambda>(jq, co). column_ok H root p geoms pf c_pows enc_uc enc_ugs jq co)
                      (zip js (mo_columns pf)), v, tx) } } })"

end
