(* ===== verification/Ligero_Open.thy ===== *)
theory Ligero_Open
  imports Ligero
begin

text \<open>
  Correctness of the commitment and of the multi-claim opening of \<^verbatim>\<open>Ligero\<close>: the committed columns are
  evaluations of the padded rows; encoding commutes with the row combinations; an honest opening of true
  authenticated claims is accepted with both sides in lockstep; an accepted opening of a committed
  matrix shows the committed columns, or a hash collision.
\<close>

section \<open>Inner products\<close>

lemma foldl_sum_upt: "foldl (\<lambda>a j. a + f j) c [0..<n] = c + (\<Sum>j<n. f j)" for c :: "'a :: comm_monoid_add"
  by (induction n) (simp_all add: ac_simps)

lemma inner_cols_dot: "inner_cols n u q = dot n u q"
  by (simp add: inner_cols_def dot_def foldl_sum_upt)

section \<open>Evaluations of polynomials over the extension\<close>

lemma poly_eval_from_base: "poly_eval (map fp2_from_base cs) (fp2_from_base x) = fp2_from_base (poly_eval cs x)"
  by (induction cs) simp_all

lemma fp2_split: "Fp2 (poly_eval (map fp2_c0 v) x) (poly_eval (map fp2_c1 v) x) = poly_eval v (fp2_from_base x)"
proof (induction v)
  case (Cons a v)
  have "Fp2 (fp2_c0 a + x * s) (fp2_c1 a + x * t) = a + fp2_from_base x * Fp2 s t" for s t
    by (cases a) (simp add: fp2_from_base_def times_fp2_def plus_fp2_def fp2_mul_def fp2_add_def)
  then show ?case using Cons.IH by simp
qed (simp add: zero_fp2_def)

lemma poly_eval_map_sum:
  "poly_eval (map (\<lambda>j. \<Sum>d<n. c d * f d j) js) x = (\<Sum>d<n. c d * poly_eval (map (f d) js) x)" for x :: "'a :: comm_ring_1"
  by (induction js) (simp_all add: sum_distrib_left sum.distrib algebra_simps)

definition root_at :: "nat \<Rightarrow> nat \<Rightarrow> fp" where
  "root_at n j = the (root_of_unity (trailing_zeros n)) ^ j"

lemma encode_fp2_evaluates:
  assumes "plan_new n = Some plan" "length v \<le> n"
  shows "encode_fp2 plan v = Some (map (\<lambda>j. poly_eval v (fp2_from_base (root_at n j))) [0..<n])"
proof -
  obtain w where w: "root_of_unity (trailing_zeros n) = Some w"
    "encode plan (map fp2_c0 v) = Some (map (\<lambda>j. poly_eval (map fp2_c0 v) (w ^ j)) [0..<n])"
    "encode plan (map fp2_c1 v) = Some (map (\<lambda>j. poly_eval (map fp2_c1 v) (w ^ j)) [0..<n])"
    using encode_evaluates [OF assms(1), of "map fp2_c0 v"] encode_evaluates [OF assms(1), of "map fp2_c1 v"] assms(2)
    by auto
  then show ?thesis
    by (auto simp: encode_fp2_def root_at_def fp2_split intro!: nth_equalityI)
qed

section \<open>The committed matrix\<close>

text \<open>The rows of a matrix whose weights and pads have the right size.\<close>

definition message :: "ligero_params \<Rightarrow> int list \<Rightarrow> fp list \<Rightarrow> nat \<Rightarrow> fp list" where
  "message p w pads r = map (\<lambda>j. fp_from_i64 (w ! (r * lp_cols p + j))) [0..<lp_cols p]
     @ map (\<lambda>j. pads ! (r * lp_pad p + j)) [0..<lp_pad p]"

lemma length_message [simp]: "length (message p w pads r) = lp_msg_len p"
  by (simp add: message_def lp_msg_len_def)

lemma message_nth: "j < lp_cols p \<Longrightarrow> message p w pads r ! j = fp_from_i64 (w ! (r * lp_cols p + j))"
  by (simp add: message_def nth_append)

lemma message_row_eq:
  assumes "length w = lp_rows p * lp_cols p" "length pads = lp_rows p * lp_pad p" "r < lp_rows p"
  shows "message_row p w pads r = Some (message p w pads r)"
  using slice_row [OF assms(3,1)] slice_row [OF assms(3,2)] by (simp add: message_row_def message_def)

definition lincomb :: "(nat \<Rightarrow> fp list) \<Rightarrow> nat \<Rightarrow> fp2 list \<Rightarrow> nat \<Rightarrow> fp2" where
  "lincomb M row0 coeffs j = (\<Sum>d<length coeffs. coeffs ! d * fp2_from_base (M (row0 + d) ! j))"

lemma combine_row_range_eq:
  assumes "length w = lp_rows p * lp_cols p" "length pads = lp_rows p * lp_pad p" "row0 + length coeffs \<le> lp_rows p"
  shows "combine_row_range w pads p row0 coeffs
    = Some (map (lincomb (message p w pads) row0 coeffs) [0..<lp_msg_len p])"
proof -
  let ?M = "message p w pads" and ?n = "lp_msg_len p"
  let ?I = "\<lambda>k u. u = map (\<lambda>j. \<Sum>d<k. coeffs ! d * fp2_from_base (?M (row0 + d) ! j)) [0..<?n]"
  let ?f = "\<lambda>(di, ci) u. do { msg \<leftarrow> message_row p w pads (row0 + di); Some (map2 (\<lambda>a x. a + fp2_mul_base ci x) u msg) }"
  have "\<exists>u. fold_opt ?f (enumerate 0 coeffs) (replicate ?n 0) = Some u \<and> ?I (length (enumerate 0 coeffs)) u"
  proof (rule fold_opt_invariant)
    show "?I 0 (replicate ?n 0)" by (simp add: map_replicate_const)
    fix k u assume k: "k < length (enumerate 0 coeffs)" "?I k u"
    then have m: "message_row p w pads (row0 + k) = Some (?M (row0 + k))"
      using assms by (intro message_row_eq) simp_all
    have "map2 (\<lambda>a x. a + fp2_mul_base (coeffs ! k) x) u (?M (row0 + k))
        = map (\<lambda>j. \<Sum>d<Suc k. coeffs ! d * fp2_from_base (?M (row0 + d) ! j)) [0..<?n]"
      using k by (intro nth_equalityI) (simp_all add: fp2_mul_base_eq)
    then show "\<exists>u'. ?f (enumerate 0 coeffs ! k) u = Some u' \<and> ?I (Suc k) u'"
      using k m by (simp add: nth_enumerate_eq)
  qed
  then show ?thesis by (simp add: combine_row_range_def lincomb_def [abs_def])
qed

section \<open>The global pass\<close>

lemma sum_chunks:
  "(\<Sum>ci<n. \<Sum>d<min rows (ci * k + k) - ci * k. f (ci * k + d)) = (\<Sum>i<min rows (n * k). f i)"
  for f :: "nat \<Rightarrow> 'a :: comm_monoid_add"
proof (induction n)
  case (Suc n)
  have "(\<Sum>i<min rows (Suc n * k). f i) = (\<Sum>i<min rows (n * k). f i) + (\<Sum>i=min rows (n * k)..<min rows (Suc n * k). f i)"
    by (simp add: sum.atLeastLessThan_concat lessThan_atLeast0)
  also have "(\<Sum>i=min rows (n * k)..<min rows (Suc n * k). f i) = (\<Sum>d<min rows (n * k + k) - n * k. f (n * k + d))"
  proof (cases "n * k \<le> rows")
    case True
    then have "(\<Sum>d<min rows (n * k + k) - n * k. f (n * k + d)) = (\<Sum>i=n * k..<min rows (n * k + k). f i)"
      by (simp add: sum.atLeastLessThan_shift_0 [of f] lessThan_atLeast0 add.commute)
    then show ?thesis using True by (simp add: min_def add.commute)
  qed (simp add: min_def)
  finally show ?case using Suc.IH by simp
qed simp

lemma foldr_map2_sum:
  assumes "\<forall>xs \<in> set parts. length xs = n"
  shows "foldr (map2 (+)) parts (replicate n 0) = map (\<lambda>j. \<Sum>xs\<leftarrow>parts. xs ! j) [0..<n]"
  using assms
proof (induction parts)
  case (Cons x parts)
  then show ?case by (auto intro!: nth_equalityI)
qed (simp add: map_replicate_const)

lemma length_challenge_powers [simp]: "length (challenge_powers c n acc) = n"
  by (induction n arbitrary: acc) simp_all

lemma global_pass_eq:
  assumes "length w = lp_rows p * lp_cols p" "length pads = lp_rows p * lp_pad p" "length cs = lp_rows p" "0 < threads"
  shows "global_pass threads w pads p cs = Some (map (lincomb (message p w pads) 0 cs) [0..<lp_msg_len p])"
proof -
  let ?M = "message p w pads" and ?n = "lp_msg_len p" and ?R = "lp_rows p" and ?N = "threads * 4"
  define k where "k = (?R + ?N - 1) div ?N"
  let ?part = "\<lambda>ci. let r0 = ci * k; r1 = min ?R (r0 + k) in
      if r1 \<le> r0 then Some (replicate ?n 0) else combine_row_range w pads p r0 (take (r1 - r0) (drop r0 cs))"
  let ?val = "\<lambda>ci. map (\<lambda>j. \<Sum>d<min ?R (ci * k + k) - ci * k. cs ! (ci * k + d) * fp2_from_base (?M (ci * k + d) ! j)) [0..<?n]"
  have "?part ci = Some (?val ci)" for ci
  proof (cases "min ?R (ci * k + k) \<le> ci * k")
    case False
    then have l: "length (take (min ?R (ci * k + k) - ci * k) (drop (ci * k) cs)) = min ?R (ci * k + k) - ci * k"
      "ci * k + (min ?R (ci * k + k) - ci * k) \<le> ?R" using assms(3) by auto
    show ?thesis using False combine_row_range_eq [OF assms(1,2), of "ci * k" "take (min ?R (ci * k + k) - ci * k) (drop (ci * k) cs)"] l assms(3)
      by (simp add: lincomb_def [abs_def] Let_def)
  qed (simp add: Let_def map_replicate_const)
  then have parts: "those (map ?part [0..<?N]) = Some (map ?val [0..<?N])" by (intro those_map_Some)
  have N: "0 < ?N" using assms(4) by simp
  have "?R \<le> ?N * k"
  proof -
    have "?R + ?N - 1 < ?N * Suc k" using dividend_less_times_div [OF N, of "?R + ?N - 1"] by (simp add: k_def)
    then show ?thesis using N by simp
  qed
  then have "(\<Sum>xs\<leftarrow>map ?val [0..<?N]. xs ! j) = lincomb ?M 0 cs j" if "j < ?n" for j
    using sum_chunks [where rows = ?R and k = k and n = ?N and f = "\<lambda>i. cs ! i * fp2_from_base (?M i ! j)"] that assms(3)
    by (simp add: comp_def lincomb_def interv_sum_list_conv_sum_set_nat atLeast0LessThan min_absorb1)
  then have "foldr (map2 (+)) (map ?val [0..<?N]) (replicate ?n 0) = map (lincomb ?M 0 cs) [0..<?n]"
    by (subst foldr_map2_sum) (auto intro!: map_cong)
  moreover have "(?R + ?N - Suc 0) div ?N = k" by (simp add: k_def)
  ultimately show ?thesis using parts N by (simp add: global_pass_def Let_def)
qed

section \<open>Claims on blocks\<close>

lemma eq_vec_append:
  assumes "i < 2 ^ length ps" "j < 2 ^ length qs"
  shows "eq_vec (qs @ ps) ! (i * 2 ^ length qs + j) = eq_vec ps ! i * eq_vec qs ! j"
  using assms
proof (induction qs arbitrary: j)
  case (Cons q qs)
  let ?k = "i * 2 ^ length qs + j div 2"
  have j: "j div 2 < 2 ^ length qs" using Cons.prems(2) by auto
  then have k: "?k < 2 ^ length (qs @ ps)" using row_bound [OF Cons.prems(1) j] by (simp add: power_add mult.commute)
  note IH = Cons.IH [OF Cons.prems(1) j]
  show ?case
  proof (cases "even j")
    case True
    then have "i * 2 ^ length (q # qs) + j = 2 * ?k" "j = 2 * (j div 2)" by auto
    then show ?thesis using nth_eq_vec_Cons(1) [OF k, of q] nth_eq_vec_Cons(1) [OF j, of q] IH
      by (metis append_Cons mult.assoc)
  next
    case False
    then have "i * 2 ^ length (q # qs) + j = Suc (2 * ?k)" "j = Suc (2 * (j div 2))" by (auto simp: algebra_simps)
    then show ?thesis using nth_eq_vec_Cons(2) [OF k, of q] nth_eq_vec_Cons(2) [OF j, of q] IH
      by (metis append_Cons mult.assoc)
  qed
qed simp

lemma sum_rows: "(\<Sum>i<m * n. f i) = (\<Sum>r<m. \<Sum>j<n. f (r * n + j))" for f :: "nat \<Rightarrow> 'a :: comm_monoid_add"
proof (induction m)
  case (Suc m)
  have "(\<Sum>i<Suc m * n. f i) = (\<Sum>i<m * n. f i) + (\<Sum>i=m * n..<m * n + n. f i)"
    by (simp add: sum.atLeastLessThan_concat lessThan_atLeast0 add.commute)
  also have "(\<Sum>i=m * n..<m * n + n. f i) = (\<Sum>j<n. f (m * n + j))"
    by (simp add: sum.atLeastLessThan_shift_0 [of f] lessThan_atLeast0 add.commute)
  finally show ?case using Suc.IH by simp
qed simp

text \<open>The value that a claim on a block states: the multilinear extension of the block at the point.\<close>

definition block_value :: "int list \<Rightarrow> block_claim \<Rightarrow> fp2 option" where
  "block_value w c =
     eval_mle (map (fp2_from_base \<circ> fp_from_i64) (take (2 ^ length (bc_point c)) (drop (bc_offset c) w))) (bc_point c)"

lemma claim_geom_Some:
  assumes "claim_geom p c = Some geo" "lp_col_bits p < 64"
  shows "\<exists>b. length (bc_point c) = b + lp_col_bits p \<and> bc_offset c = ge_row0 geo * lp_cols p
    \<and> ge_row0 geo + 2 ^ b \<le> lp_rows p \<and> ge_q_row geo = eq_vec (drop (lp_col_bits p) (bc_point c))
    \<and> ge_q_col geo = eq_vec (take (lp_col_bits p) (bc_point c)) \<and> length (ge_q_row geo) = 2 ^ b \<and> length (ge_q_col geo) = lp_cols p"
proof -
  let ?cb = "lp_col_bits p" and ?bv = "length (bc_point c)"
  have g: "?cb \<le> ?bv" "bc_offset c mod 2 ^ ?bv = 0" "geo = \<lparr>ge_row0 = drop_bit ?cb (bc_offset c),
      ge_q_row = eq_vec (drop ?cb (bc_point c)), ge_q_col = eq_vec (take ?cb (bc_point c))\<rparr>"
    "drop_bit ?cb (bc_offset c) + 2 ^ (?bv - ?cb) \<le> lp_rows p"
    using assms(1) by (auto simp: claim_geom_def checked_shl_1_def Let_def not_less split: if_splits Option.bind_splits)
  have "(2 :: nat) ^ ?cb dvd 2 ^ ?bv" using g(1) by (simp add: le_imp_power_dvd)
  then have "2 ^ ?cb dvd bc_offset c" using g(2) by (metis dvd_trans mod_0_imp_dvd)
  then have "bc_offset c = drop_bit ?cb (bc_offset c) * 2 ^ ?cb" by (simp add: drop_bit_eq_div)
  then show ?thesis using g assms(2) by (intro exI [of _ "?bv - ?cb"]) (simp add: lp_cols_def)
qed

lemma block_value_eq:
  assumes "claim_geom p c = Some geo" "lp_col_bits p < 64" "length w = lp_rows p * lp_cols p"
  shows "block_value w c = Some (dot (lp_cols p) (map (lincomb (message p w pads) (ge_row0 geo) (ge_q_row geo)) [0..<lp_msg_len p]) (ge_q_col geo))"
proof -
  let ?C = "lp_cols p" and ?r0 = "ge_row0 geo"
  obtain b where b: "length (bc_point c) = b + lp_col_bits p" "bc_offset c = ?r0 * ?C" "?r0 + 2 ^ b \<le> lp_rows p"
    "ge_q_row geo = eq_vec (drop (lp_col_bits p) (bc_point c))" "ge_q_col geo = eq_vec (take (lp_col_bits p) (bc_point c))"
    "length (ge_q_row geo) = 2 ^ b" using claim_geom_Some [OF assms(1,2)] by blast
  have C: "?C = 2 ^ lp_col_bits p" using assms(2) by (simp add: lp_cols_def)
  let ?xs = "map (fp2_from_base \<circ> fp_from_i64) (take (2 ^ length (bc_point c)) (drop (bc_offset c) w))"
  have n: "2 ^ length (bc_point c) = 2 ^ b * ?C" by (simp add: b(1) C power_add)
  have "(?r0 + 2 ^ b) * ?C \<le> lp_rows p * ?C" using b(3) by (rule mult_le_mono1)
  then have len: "?r0 * ?C + 2 ^ b * ?C \<le> length w" using assms(3) by (simp add: algebra_simps)
  then have lxs: "length ?xs = 2 ^ b * ?C" using n b(2) by simp
  then have "block_value w c = Some (dot (2 ^ b * ?C) ?xs (eq_vec (bc_point c)))"
    unfolding block_value_def using n by (subst eval_mle_dot) simp_all
  also have "dot (2 ^ b * ?C) ?xs (eq_vec (bc_point c))
      = (\<Sum>d<2 ^ b. \<Sum>j<?C. ?xs ! (d * ?C + j) * (ge_q_row geo ! d * ge_q_col geo ! j))"
    unfolding dot_def sum_rows
  proof (intro sum.cong refl)
    fix d j assume dj: "d \<in> {..<(2 :: nat) ^ b}" "j \<in> {..<?C}"
    have "eq_vec (take (lp_col_bits p) (bc_point c) @ drop (lp_col_bits p) (bc_point c)) ! (d * 2 ^ lp_col_bits p + j)
        = ge_q_row geo ! d * ge_q_col geo ! j"
      using eq_vec_append [of d "drop (lp_col_bits p) (bc_point c)" j "take (lp_col_bits p) (bc_point c)"] dj b(1,4,5) C by simp
    then show "?xs ! (d * ?C + j) * eq_vec (bc_point c) ! (d * ?C + j) = ?xs ! (d * ?C + j) * (ge_q_row geo ! d * ge_q_col geo ! j)"
      by (simp add: C)
  qed
  also have "\<dots> = (\<Sum>d<2 ^ b. \<Sum>j<?C. ge_q_row geo ! d * fp2_from_base (message p w pads (?r0 + d) ! j) * ge_q_col geo ! j)"
  proof (intro sum.cong refl)
    fix d j assume dj: "d \<in> {..<(2 :: nat) ^ b}" "j \<in> {..<?C}"
    then have i: "d * ?C + j < 2 ^ b * ?C" by (simp add: row_bound)
    then have "?xs ! (d * ?C + j) = fp2_from_base (message p w pads (?r0 + d) ! j)"
      using dj len b(2) n by (simp add: message_nth algebra_simps)
    then show "?xs ! (d * ?C + j) * (ge_q_row geo ! d * ge_q_col geo ! j)
        = ge_q_row geo ! d * fp2_from_base (message p w pads (?r0 + d) ! j) * ge_q_col geo ! j" by (simp add: mult_ac)
  qed
  also have "\<dots> = dot ?C (map (lincomb (message p w pads) ?r0 (ge_q_row geo)) [0..<lp_msg_len p]) (ge_q_col geo)"
    unfolding dot_def by (subst sum.swap, rule sum.cong) (simp_all add: lincomb_def b(6) sum_distrib_right lp_msg_len_def)
  finally show ?thesis .
qed

section \<open>The committed columns\<close>

lemma foldl_update_nth:
  assumes "distinct (map pos xs)" "x \<in> set xs" "pos x < length b"
  shows "foldl (\<lambda>b x. b[pos x := val x]) b xs ! pos x = val x"
  using assms
proof (induction xs rule: rev_induct)
  case (snoc y xs)
  have "length (foldl (\<lambda>b x. b[pos x := val x]) b xs) = length b" by (induction xs rule: rev_induct) simp_all
  moreover have "pos x \<noteq> pos y" if "x \<noteq> y" using that snoc.prems by auto (metis imageI)
  ultimately show ?case using snoc by (cases "x = y") (auto simp: nth_list_update)
qed simp

lemma foldl_update_length: "length (foldl (\<lambda>b x. b[pos x := val x]) b xs) = length b"
  by (induction xs rule: rev_induct) simp_all

definition column :: "ligero_params \<Rightarrow> fp list \<Rightarrow> nat \<Rightarrow> fp list" where
  "column p encoded j = map (\<lambda>i. encoded ! (i * lp_code_len p + j)) [0..<lp_rows p]"

lemma tile_buffer_column:
  assumes "dj < tile"
  shows "take (lp_rows p) (drop (dj * lp_rows p) (tile_buffer p encoded tile j0)) = column p encoded (j0 + dj)"
proof -
  let ?R = "lp_rows p" and ?pos = "\<lambda>(i, dj). dj * lp_rows p + i" and ?xs = "List.product [0..<lp_rows p] [0..<tile]"
  let ?val = "\<lambda>(i, dj). encoded ! (i * lp_code_len p + j0 + dj)"
  have buf: "tile_buffer p encoded tile j0 = foldl (\<lambda>b x. b[?pos x := ?val x]) (replicate (?R * tile) 0) ?xs"
    by (simp add: tile_buffer_def case_prod_unfold)
  have "inj_on ?pos (set ?xs)"
  proof (rule inj_onI, clarsimp)
    fix i d i' d' assume "i < ?R" "i' < ?R" "d * ?R + i = d' * ?R + i'"
    then have "(d * ?R + i) div ?R = (d' * ?R + i') div ?R" "(d * ?R + i) mod ?R = (d' * ?R + i') mod ?R" by simp_all
    then show "i = i' \<and> d = d'" using \<open>i < ?R\<close> \<open>i' < ?R\<close> by simp
  qed
  then have di: "distinct (map ?pos ?xs)" by (simp add: distinct_map distinct_product)
  have pos: "dj * ?R + i < ?R * tile" if "i < ?R" for i using row_bound [OF assms that] by (simp add: mult.commute)
  have "tile_buffer p encoded tile j0 ! (dj * ?R + i) = encoded ! (i * lp_code_len p + (j0 + dj))" if i: "i < ?R" for i
    using foldl_update_nth [OF di, of "(i, dj)" "replicate (?R * tile) 0" ?val] i assms pos [OF i]
    by (simp add: buf add.assoc)
  moreover have "dj * ?R + ?R \<le> ?R * tile"
    using mult_le_mono1 [of "Suc dj" tile ?R] assms by (simp add: mult.commute)
  moreover have "length (tile_buffer p encoded tile j0) = ?R * tile" by (simp add: buf foldl_update_length)
  moreover have "dj * ?R \<le> ?R * tile" using assms by (simp add: mult.commute)
  ultimately show ?thesis by (intro nth_equalityI) (simp_all add: column_def nth_drop)
qed

lemma concat_tiles: "concat (map (\<lambda>t. map (\<lambda>d. f (t * n + d)) [0..<n]) [0..<m]) = map f [0..<m * n]"
proof (induction m)
  case (Suc m)
  have "[0..<Suc m * n] = [0..<m * n] @ map ((+) (m * n)) [0..<n]"
    by (intro nth_equalityI) (simp_all add: nth_append)
  then show ?case using Suc.IH by (simp add: comp_def)
qed simp

lemma column_leaves_eq: "column_leaves H p encoded = map (\<lambda>j. hash_leaf H (col_bytes (column p encoded j))) [0..<lp_code_len p]"
proof -
  let ?tile = "min 128 (lp_code_len p)"
  have "?tile dvd lp_code_len p"
  proof (cases "lp_code_bits p mod 64 \<le> 7")
    case True
    then have "(2 :: nat) ^ (lp_code_bits p mod 64) \<le> 2 ^ 7" by (rule power_increasing) simp
    then show ?thesis by (simp add: lp_code_len_def min_def)
  next
    case False
    then have "(2 :: nat) ^ 7 dvd 2 ^ (lp_code_bits p mod 64)" by (intro le_imp_power_dvd) simp
    then have "128 dvd lp_code_len p" by (simp add: lp_code_len_def)
    then show ?thesis by (simp add: min_def)
  qed
  then have n: "lp_code_len p div ?tile * ?tile = lp_code_len p" by simp
  have "tile_leaves H p encoded ?tile = (\<lambda>t. map (\<lambda>dj. hash_leaf H (col_bytes (column p encoded (t * ?tile + dj)))) [0..<?tile])"
    by (auto simp: tile_leaves_def Let_def tile_buffer_column fun_eq_iff)
  then show ?thesis using concat_tiles [of "\<lambda>j. hash_leaf H (col_bytes (column p encoded j))" ?tile "lp_code_len p div ?tile"] n
    by (simp add: column_leaves_def Let_def)
qed

text \<open>Parameters under which the code exists: the two-adicity of the field bounds the code length.\<close>

definition params_ok :: "ligero_params \<Rightarrow> bool" where
  "params_ok p \<longleftrightarrow> lp_validate p \<and> lp_col_bits p < 64 \<and> 1 \<le> lp_code_bits p \<and> lp_code_bits p \<le> 32"

lemma params_code: "params_ok p \<Longrightarrow> lp_code_len p = 2 ^ lp_code_bits p \<and> lp_code_bits p < 64 \<and> lp_msg_len p \<le> lp_code_len p"
  by (auto simp: params_ok_def lp_code_len_def lp_validate_def)

lemma params_plan: "params_ok p \<Longrightarrow> \<exists>plan. plan_new (lp_code_len p) = Some plan"
  using params_code [of p] power_increasing [of 1 "lp_code_bits p" "2 :: nat"]
  by (auto simp: plan_new_def is_power_of_two_iff root_of_unity_def params_ok_def)

lemma encode_rows_eq:
  assumes "plan_new (lp_code_len p) = Some plan" "lp_msg_len p \<le> lp_code_len p"
    and "length w = lp_rows p * lp_cols p" "length pads = lp_rows p * lp_pad p"
  shows "encode_rows plan p w pads
    = Some (concat (map (\<lambda>r. map (\<lambda>j. poly_eval (message p w pads r) (root_at (lp_code_len p) j)) [0..<lp_code_len p]) [0..<lp_rows p]))"
proof -
  have "encode_row plan p w pads r = Some (map (\<lambda>j. poly_eval (message p w pads r) (root_at (lp_code_len p) j)) [0..<lp_code_len p])"
    if r: "r < lp_rows p" for r
  proof -
    have "plan_size plan = lp_code_len p" using assms(1) by (auto simp: plan_new_def split: if_splits)
    then have "encode_row plan p w pads r = encode plan (message p w pads r)"
      using message_row_eq [OF assms(3,4) r] assms(2) by (simp add: encode_row_def encode_def)
    then show ?thesis using encode_evaluates [OF assms(1), of "message p w pads r"] assms(2) by (auto simp: root_at_def)
  qed
  then have "those (map (encode_row plan p w pads) [0..<lp_rows p])
      = Some (map (\<lambda>r. map (\<lambda>j. poly_eval (message p w pads r) (root_at (lp_code_len p) j)) [0..<lp_code_len p]) [0..<lp_rows p])"
    by (intro those_map_Some) simp
  then show ?thesis by (simp add: encode_rows_def)
qed

lemma column_evaluations:
  assumes "encoded = concat (map (\<lambda>r. map (\<lambda>j. f r j) [0..<lp_code_len p]) [0..<lp_rows p])" "j < lp_code_len p"
  shows "column p encoded j = map (\<lambda>r. f r j) [0..<lp_rows p]"
proof -
  have "concat (map (\<lambda>r. map (\<lambda>j. f r j) [0..<lp_code_len p]) [0..<lp_rows p]) ! (i * lp_code_len p + j) = f i j" if "i < lp_rows p" for i
    using assms(2) that by (subst nth_concat_rows) auto
  then show ?thesis by (auto simp: column_def assms(1))
qed

lemma make_pads_eq:
  assumes "\<And>r. r < rows \<Longrightarrow> next_fps pad (fp_stream_domain_separated chacha seed (word_of_nat r)) \<noteq> None"
  shows "\<exists>pads. make_pads chacha seed rows pad = Some pads \<and> length pads = rows * pad"
proof -
  let ?f = "\<lambda>r. map_option fst (next_fps pad (fp_stream_domain_separated chacha seed (word_of_nat r)))"
  have "those (map ?f [0..<rows]) = Some (map (the \<circ> ?f) [0..<rows])" by (rule those_map_ex) (use assms in auto)
  moreover have "\<forall>xs \<in> set (map (the \<circ> ?f) [0..<rows]). length xs = pad"
  proof (intro ballI, clarsimp)
    fix r assume "r < rows"
    then obtain xs st where "next_fps pad (fp_stream_domain_separated chacha seed (word_of_nat r)) = Some (xs, st)"
      using assms [of r] by auto
    then show "length (the (?f r)) = pad" using next_fps_length by fastforce
  qed
  ultimately show ?thesis using length_concat_rows [of "map (the \<circ> ?f) [0..<rows]" pad] by (simp add: make_pads_def)
qed

definition opens_at :: "blake3 \<Rightarrow> merkle_tree \<Rightarrow> hash \<Rightarrow> nat \<Rightarrow> nat \<Rightarrow> hash \<Rightarrow> bool" where
  "opens_at H tree root d j leaf \<longleftrightarrow> (\<exists>path. merkle_open tree j = Some path \<and> verify_path H root j leaf path d)"

lemma commit_matrix:
  assumes "params_ok p" "length w = lp_rows p * lp_cols p"
    and "\<And>r. r < lp_rows p \<Longrightarrow> next_fps (lp_pad p) (fp_stream_domain_separated chacha seed (word_of_nat r)) \<noteq> None"
  shows "\<exists>pads encoded tree root.
    ligero_commit H chacha w p seed = Some (\<lparr>cm_root = root\<rparr>, \<lparr>pm_params = p, pm_pads = pads, pm_encoded = encoded, pm_tree = tree\<rparr>)
    \<and> length pads = lp_rows p * lp_pad p
    \<and> (\<forall>j < lp_code_len p. column p encoded j
          = map (\<lambda>r. poly_eval (message p w pads r) (root_at (lp_code_len p) j)) [0..<lp_rows p]
        \<and> opens_at H tree root (lp_code_bits p) j (hash_leaf H (col_bytes (column p encoded j))))"
proof -
  note code = params_code [OF assms(1)]
  obtain plan where plan: "plan_new (lp_code_len p) = Some plan" using params_plan [OF assms(1)] by blast
  obtain pads where pads: "make_pads chacha seed (lp_rows p) (lp_pad p) = Some pads" "length pads = lp_rows p * lp_pad p"
    using make_pads_eq [OF assms(3)] by blast
  define encoded where "encoded = concat (map (\<lambda>r. map (\<lambda>j. poly_eval (message p w pads r) (root_at (lp_code_len p) j)) [0..<lp_code_len p]) [0..<lp_rows p])"
  have enc: "encode_rows plan p w pads = Some encoded"
    using encode_rows_eq [OF plan _ assms(2) pads(2)] code by (simp add: encoded_def)
  have "length (column_leaves H p encoded) = 2 ^ lp_code_bits p" using code by (simp add: column_leaves_eq)
  then obtain tree root where t: "from_leaves H (column_leaves H p encoded) = Some tree" "merkle_root tree = Some root"
    "\<forall>i < 2 ^ lp_code_bits p. \<exists>path. merkle_open tree i = Some path \<and> verify_path H root i (column_leaves H p encoded ! i) path (lp_code_bits p)"
    using tree_opens code by blast
  then have "\<forall>j < lp_code_len p. opens_at H tree root (lp_code_bits p) j (hash_leaf H (col_bytes (column p encoded j)))"
    using code by (simp add: opens_at_def column_leaves_eq)
  moreover have "ligero_commit H chacha w p seed
      = Some (\<lparr>cm_root = root\<rparr>, \<lparr>pm_params = p, pm_pads = pads, pm_encoded = encoded, pm_tree = tree\<rparr>)"
    using assms(1,2) plan pads(1) enc t(1,2) by (simp add: ligero_commit_def params_ok_def)
  ultimately show ?thesis using pads(2) column_evaluations [OF encoded_def] by blast
qed

section \<open>Encoding commutes with the row combinations\<close>

lemma weighted_column_sum: "weighted_column cs col r0 = (\<Sum>d<length cs. cs ! d * fp2_from_base (col ! (r0 + d)))"
proof -
  have "foldl (\<lambda>acc (di, q). acc + fp2_mul_base q (col ! (r0 + di))) c (enumerate k cs)
      = c + (\<Sum>d<length cs. cs ! d * fp2_from_base (col ! (r0 + (k + d))))" for c k
    by (induction cs arbitrary: c k) (simp_all add: sum.lessThan_Suc_shift fp2_mul_base_eq add.assoc del: sum.lessThan_Suc)
  from this [of 0 0] show ?thesis by (simp add: weighted_column_def)
qed

lemma encode_combination:
  assumes "\<And>r. length (M r) = n" "length rmask = n"
  shows "poly_eval (map2 (+) (map (lincomb M r0 cs) [0..<n]) rmask) (fp2_from_base x)
    = (\<Sum>d<length cs. cs ! d * fp2_from_base (poly_eval (M (r0 + d)) x)) + poly_eval rmask (fp2_from_base x)"
proof -
  have "poly_eval (map (lincomb M r0 cs) [0..<n]) (fp2_from_base x)
      = (\<Sum>d<length cs. cs ! d * poly_eval (map (\<lambda>j. fp2_from_base (M (r0 + d) ! j)) [0..<n]) (fp2_from_base x))"
    unfolding lincomb_def [abs_def] by (rule poly_eval_map_sum)
  moreover have "map (\<lambda>j. fp2_from_base (M (r0 + d) ! j)) [0..<n] = map fp2_from_base (M (r0 + d))" for d
    using assms(1) by (intro nth_equalityI) simp_all
  ultimately show ?thesis using assms(2) by (simp add: poly_eval_add poly_eval_from_base)
qed

lemma column_equation:
  assumes "\<And>r. length (M r) = n" "length rmask = n" "n \<le> N" "plan_new N = Some plan" "j < N" "r0 + length cs \<le> rows"
    and "col = map (\<lambda>r. poly_eval (M r) (root_at N j)) [0..<rows]"
  shows "the (encode_fp2 plan (map2 (+) (map (lincomb M r0 cs) [0..<n]) rmask)) ! j
    = weighted_column cs col r0 + poly_eval rmask (fp2_from_base (root_at N j))"
  using assms encode_fp2_evaluates [OF assms(4), of "map2 (+) (map (lincomb M r0 cs) [0..<n]) rmask"]
  by (simp add: encode_combination weighted_column_sum)

section \<open>The masks\<close>

lemma make_masks_eq:
  assumes "\<And>g. g \<le> n \<Longrightarrow> next_fp2s len (fp_stream_domain_separated chacha seed (word_of_nat g)) \<noteq> None"
  shows "\<exists>masks. make_masks chacha seed n len = Some masks \<and> length masks = Suc n \<and> (\<forall>m \<in> set masks. length m = len)"
proof -
  let ?f = "\<lambda>g. map_option fst (next_fp2s len (fp_stream_domain_separated chacha seed (word_of_nat g)))"
  have "make_masks chacha seed n len = Some (map (the \<circ> ?f) [0..<Suc n])"
    unfolding make_masks_def by (rule those_map_ex) (use assms in auto)
  moreover have "\<forall>m \<in> set (map (the \<circ> ?f) [0..<Suc n]). length m = len"
  proof
    fix m assume "m \<in> set (map (the \<circ> ?f) [0..<Suc n])"
    then obtain g where g: "g \<le> n" "m = the (?f g)" by (auto simp: less_Suc_eq_le simp del: upt_Suc)
    obtain xs st where "next_fp2s len (fp_stream_domain_separated chacha seed (word_of_nat g)) = Some (xs, st)"
      using assms [OF g(1)] by auto
    then show "length m = len" using next_fp2s_length g(2) by fastforce
  qed
  ultimately show ?thesis by (intro exI [of _ "map (the \<circ> ?f) [0..<Suc n]"]) (simp del: upt_Suc)
qed

lemma mask_commit_eq:
  assumes "plan_new N = Some plan" "N = 2 ^ d" "d < 64" "\<forall>m \<in> set masks. length m \<le> N"
  shows "\<exists>tree root. mask_commit H plan N masks
      = Some (map (\<lambda>m. map (\<lambda>j. poly_eval m (fp2_from_base (root_at N j))) [0..<N]) masks, tree)
    \<and> merkle_root tree = Some root
    \<and> (\<forall>j < N. opens_at H tree root d j (multi_mask_leaf H (map (\<lambda>m. poly_eval m (fp2_from_base (root_at N j))) masks)))"
proof -
  let ?enc = "\<lambda>m. map (\<lambda>j. poly_eval m (fp2_from_base (root_at N j))) [0..<N]"
  let ?leaves = "map (\<lambda>j. multi_mask_leaf H (map (\<lambda>m. m ! j) (map ?enc masks))) [0..<N]"
  have e: "those (map (encode_fp2 plan) masks) = Some (map ?enc masks)"
    by (intro those_map_Some encode_fp2_evaluates [OF assms(1)]) (use assms(4) in auto)
  obtain tree root where t: "from_leaves H ?leaves = Some tree" "merkle_root tree = Some root"
    "\<forall>i < 2 ^ d. \<exists>path. merkle_open tree i = Some path \<and> verify_path H root i (?leaves ! i) path d"
    using tree_opens [of ?leaves d H] assms(2,3) by auto
  have l: "?leaves ! j = multi_mask_leaf H (map (\<lambda>m. poly_eval m (fp2_from_base (root_at N j))) masks)" if "j < N" for j
    using that by (simp add: comp_def)
  have "opens_at H tree root d j (multi_mask_leaf H (map (\<lambda>m. poly_eval m (fp2_from_base (root_at N j))) masks))" if "j < N" for j
    using t(3) that assms(2) unfolding opens_at_def l [OF that, symmetric] by blast
  then show ?thesis using e t(1,2) by (auto simp: mask_commit_def)
qed

section \<open>The transcript of the opening\<close>

lemma fs_message:
  assumes "is_fiat_shamir tx" "length l < 2 ^ 16"
  shows "\<exists>tx'. append_message l m tx = Some tx' \<and> is_fiat_shamir tx'"
    and "\<exists>tx'. append_message_digest l n d tx = Some tx' \<and> is_fiat_shamir tx'"
  using assms by (simp_all add: framed_ops is_fiat_shamir_def)

lemma fs_slices:
  assumes "is_fiat_shamir tx" "length l < 2 ^ 16" "16 * sum_list (map length slices) < 2 ^ 64"
  shows "\<exists>tx'. append_fp2_value_slices_digest H l slices tx = Some tx' \<and> is_fiat_shamir tx'"
  using fs_message(2) [OF assms(1,2)] assms(3)
  by (simp add: append_fp2_value_slices_digest_def checked_byte_count_def mult.commute)

lemma fs_queries:
  assumes "is_fiat_shamir tx" "0 < N"
  shows "\<exists>js tx'. draw_queries H N k tx = Some (js, tx') \<and> is_fiat_shamir tx' \<and> length js = k \<and> (\<forall>j \<in> set js. j < N)"
  using assms
proof (induction k arbitrary: tx)
  case (Suc k)
  obtain c tx1 where c: "challenge_fp2 H tx = Some (c, tx1)" "is_fiat_shamir tx1" using fs_challenge [OF Suc.prems(1)] by blast
  then show ?case using Suc.IH [OF c(2)] Suc.prems(2) by auto
qed simp

section \<open>The MAC resolution\<close>

lemma corrected_keys:
  assumes "draw_fulls chacha d n s = Some (fulls, s')" "twin s v" "length xs = n"
  shows "\<exists>keys v'. correct_full_verifier_keys chacha d (map2 (\<lambda>x f. x - fc_x f) xs fulls) v = Some (keys, v') \<and> twin s' v'
    \<and> vc_delta v' = vc_delta v \<and> length fulls = n \<and> length keys = n
    \<and> (\<forall>i < n. mac_valid (vc_delta v) (full_authenticate (fulls ! i) (xs ! i)) (keys ! i))"
  using masked_transfer [OF assms(1,2)] assms(3) by (auto simp: correct_full_verifier_keys_def)

lemma claim_zero_valid:
  assumes "mac_valid delta a k" "mac_valid delta (full_authenticate fc (inner_cols cols rmask q)) k_s"
  shows "mac_valid delta (snd (claim_zero cols a fc rmask u q)) (key_sub (key_add k k_s) (key_from_public (inner_cols cols u q) delta))"
  using assms unfolding claim_zero_def Let_def snd_conv
  by (intro fp2_mac.valid_sub fp2_mac.valid_add fp2_mac.valid_public)

lemma claim_zero_value:
  assumes "pa_x a + dot cols rmask q = dot cols u q"
  shows "pa_x (snd (claim_zero cols a fc rmask u q)) = 0"
  using assms by (simp add: claim_zero_def Let_def inner_cols_dot full_authenticate_def)

lemma mac_resolution:
  assumes fs: "is_fiat_shamir tx" and tw: "twin s v"
    and draws: "run_machine (prover_draw chacha) [DFull dom_s n, DFull dom_zb 1] s \<noteq> None"
    and lens: "length vals = n" "length geoms = n" "16 * n < 2 ^ 64"
    and keys: "list_all2 (mac_valid (vc_delta v)) vals keys"
    and zero: "\<And>g. g < n \<Longrightarrow> pa_x (vals ! g) + dot cols (masks ! Suc g) (ge_q_col (geoms ! g)) = dot cols (u_gs ! g) (ge_q_col (geoms ! g))"
  shows "\<exists>corr_ss mask_corr m_z s' v' tx'. open_mac H chacha cols vals geoms masks u_gs s dom_s dom_zb tx
        = Some (corr_ss, mask_corr, m_z, s', tx')
    \<and> length corr_ss = n \<and> is_fiat_shamir tx' \<and> twin s' v'
    \<and> (\<forall>pf. mo_u_gs pf = u_gs \<and> mo_corr_ss pf = corr_ss \<and> mo_mask_corr pf = mask_corr \<and> mo_m_z pf = m_z
          \<longrightarrow> verify_mac H chacha cols keys geoms pf v dom_s dom_zb tx = Some (True, v', tx'))"
proof -
  obtain fcs s1 where f: "draw_fulls chacha dom_s n s = Some (fcs, s1)" "run_machine (prover_draw chacha) [DFull dom_zb 1] s1 \<noteq> None"
    using draws by (rule draws_Cons)
  obtain zbs s2 where z: "draw_fulls chacha dom_zb 1 s1 = Some (zbs, s2)" using f(2) by (rule draws_Cons)
  let ?q = "\<lambda>g. ge_q_col (geoms ! g)" and ?D = "vc_delta v"
  let ?sv = "map (\<lambda>g. inner_cols cols (masks ! Suc g) (?q g)) [0..<n]"
  let ?steps = "map (\<lambda>g. claim_zero cols (vals ! g) (fcs ! g) (masks ! Suc g) (u_gs ! g) (?q g)) [0..<n]"
  obtain k_ss v1 where k: "correct_full_verifier_keys chacha dom_s (map2 (\<lambda>x f. x - fc_x f) ?sv fcs) v = Some (k_ss, v1)"
    "twin s1 v1" "vc_delta v1 = ?D" "length fcs = n" "length k_ss = n"
    "\<And>i. i < n \<Longrightarrow> mac_valid ?D (full_authenticate (fcs ! i) (?sv ! i)) (k_ss ! i)"
    using corrected_keys [OF f(1) tw, of ?sv] by auto
  obtain k_zbs v2 where kz: "expand_full_verifier_keys chacha dom_zb 1 v1 = Some (k_zbs, v2)" "twin s2 v2" "vc_delta v2 = vc_delta v1"
    "length zbs = 1" "length k_zbs = 1"
    "\<forall>i < 1. \<forall>x. mac_valid (vc_delta v1) (full_authenticate (zbs ! i) x) (key_new (vk_k (k_zbs ! i) + vc_delta v1 * (x - fc_x (zbs ! i))))"
    using masked_transfer [OF z k(2)] by blast
  have corr: "map fst ?steps = map2 (\<lambda>x f. x - fc_x f) ?sv fcs"
    using k(4) by (intro nth_equalityI) (simp_all add: claim_zero_def Let_def)
  obtain tx1 where tx1: "append_fp2_value_slices_digest H ''pcs_s_corrections'' [map fst ?steps] tx = Some tx1" "is_fiat_shamir tx1"
    using fs_slices [OF fs, of "''pcs_s_corrections''" "[map fst ?steps]"] lens(3) by auto
  let ?c = "0 - fc_x (zbs ! 0)" and ?zm = "full_authenticate (zbs ! 0) 0"
  obtain tx2 where tx2: "append_fp2s ''mask_correction'' [?c] tx1 = Some tx2" "is_fiat_shamir tx2"
    using fs_append [OF tx1(2), of "''mask_correction''"] by auto
  then have fz: "fresh_zero_mask (zbs ! 0) tx1 = Some (?zm, ?c, tx2)" by (simp add: fresh_zero_mask_def Let_def)
  obtain chi tx3 where chi: "challenge_fp2 H tx2 = Some (chi, tx3)" "is_fiat_shamir tx3" using fs_challenge [OF tx2(2)] by blast
  let ?m = "pa_m (rlc prover_add prover_scale chi 1 ?zm (map snd ?steps))"
  obtain tx4 where tx4: "append_fp2s ''zero_batch_tag'' [?m] tx3 = Some tx4" "is_fiat_shamir tx4"
    using fs_append [OF chi(2), of "''zero_batch_tag''"] by auto
  then have zp: "zero_batch_prover (map snd ?steps) ?zm chi tx3 = Some (?m, tx4)" by (simp add: zero_batch_prover_rlc Let_def)
  let ?kz = "map (\<lambda>g. key_sub (key_add (keys ! g) (k_ss ! g)) (key_from_public (inner_cols cols (u_gs ! g) (?q g)) ?D)) [0..<n]"
  have "list_all2 (mac_valid ?D) (map snd ?steps) ?kz"
    using keys k(6) lens by (auto simp: list_all2_conv_all_nth intro!: claim_zero_valid)
  moreover have "\<forall>y \<in> set (map snd ?steps). pa_x y = 0" using zero by (auto simp: claim_zero_value)
  ultimately have zv: "zero_batch_verify ?kz (zero_mask_key ?D (key_new (fc_m (zbs ! 0) + ?D * fc_x (zbs ! 0))) ?c) chi ?m"
    using zp by (rule zero_batch_accepts)
  have kzb: "k_zbs ! 0 = key_new (fc_m (zbs ! 0) + ?D * fc_x (zbs ! 0))"
    using kz(6) [rule_format, of 0 "fc_x (zbs ! 0)"] k(3) by (simp add: mac_valid_def full_authenticate_def key_new_def)
  have "open_mac H chacha cols vals geoms masks u_gs s dom_s dom_zb tx = Some (map fst ?steps, ?c, ?m, s2, tx4)"
    using f(1) z tx1(1) fz chi(1) zp kz(4) lens by (simp add: open_mac_def Let_def)
  moreover have "verify_mac H chacha cols keys geoms pf v dom_s dom_zb tx = Some (True, v2, tx4)"
    if "mo_u_gs pf = u_gs \<and> mo_corr_ss pf = map fst ?steps \<and> mo_mask_corr pf = ?c \<and> mo_m_z pf = ?m" for pf
    using that tx1(1) tx2(1) k(1,3) kz(1,3,5) chi(1) tx4(1) zv kzb lens corr by (simp add: verify_mac_def Let_def)
  ultimately show ?thesis using tx4(2) kz(2) by (intro exI [of _ "map fst ?steps"] exI [of _ ?c] exI [of _ ?m]) auto
qed

section \<open>The opened columns\<close>

definition good_column :: "blake3 \<Rightarrow> hash \<Rightarrow> hash \<Rightarrow> nat \<Rightarrow> (nat \<Rightarrow> fp list) \<Rightarrow> (nat \<Rightarrow> fp2 list) \<Rightarrow> nat \<Rightarrow> multi_column \<Rightarrow> bool" where
  "good_column H root mask_root d cols mcols j co \<longleftrightarrow> unat (mc_j co) = j \<and> mc_col co = cols j \<and> mc_mask_col co = mcols j
     \<and> verify_path H root j (hash_leaf H (col_bytes (cols j))) (mc_path co) d
     \<and> verify_path H mask_root j (multi_mask_leaf H (mcols j)) (mc_mask_path co) d"

lemma verify_path_length: "verify_path H root j leaf path d \<Longrightarrow> length path = d"
  by (simp add: verify_path_def split: option.splits)

lemma open_column_good:
  assumes "pm_params pm = p" "lp_code_bits p \<le> 32" "lp_code_len p = 2 ^ lp_code_bits p" "j < lp_code_len p"
    and "opens_at H (pm_tree pm) root (lp_code_bits p) j (hash_leaf H (col_bytes (column p (pm_encoded pm) j)))"
    and "opens_at H mask_tree mask_root (lp_code_bits p) j (multi_mask_leaf H (map (\<lambda>m. f m j) masks))"
  shows "\<exists>co. open_column pm (map (\<lambda>m. map (f m) [0..<lp_code_len p]) masks) mask_tree j = Some co
    \<and> good_column H root mask_root (lp_code_bits p) (column p (pm_encoded pm)) (\<lambda>j. map (\<lambda>m. f m j) masks) j co"
proof -
  obtain path mpath where pa: "merkle_open (pm_tree pm) j = Some path"
    "verify_path H root j (hash_leaf H (col_bytes (column p (pm_encoded pm) j))) path (lp_code_bits p)"
    "merkle_open mask_tree j = Some mpath"
    "verify_path H mask_root j (multi_mask_leaf H (map (\<lambda>m. f m j) masks)) mpath (lp_code_bits p)"
    using assms(5,6) by (auto simp: opens_at_def)
  have "(2 :: nat) ^ lp_code_bits p \<le> 2 ^ 32" using assms(2) by (intro power_increasing) simp_all
  then have "unat (word_of_nat j :: u32) = j" using assms(3,4) by (simp add: unat_of_nat take_bit_nat_eq_self)
  then show ?thesis using assms(1,4) pa by (simp add: open_column_def good_column_def column_def comp_def)
qed

lemma good_column_shape:
  assumes "good_column H root mask_root (lp_code_bits p) (column p encoded) (\<lambda>j. map (\<lambda>m. f m j) masks) j co"
    "j < lp_code_len p" "length masks = n + 1"
  shows "column_shape p n co \<and> column_count co = 4 + 8 * lp_rows p + 16 * (n + 1) + 64 * lp_code_bits p"
  using assms by (auto simp: good_column_def column_shape_def column_count_def column_def dest!: verify_path_length)

lemma opened_columns:
  assumes "\<And>j. j \<in> set js \<Longrightarrow> \<exists>co. f j = Some co \<and> Q j co"
  shows "\<exists>cos. those (map f js) = Some cos \<and> list_all2 Q js cos"
proof -
  have "those (map f js) = Some (map (the \<circ> f) js)" by (rule those_map_ex) (use assms in fastforce)
  moreover have "list_all2 Q js (map (the \<circ> f) js)"
  proof (rule list_all2_all_nthI)
    fix i assume i: "i < length js"
    obtain co where "f (js ! i) = Some co" "Q (js ! i) co" using assms [OF nth_mem [OF i]] by blast
    then show "Q (js ! i) (map (the \<circ> f) js ! i)" using i by simp
  qed simp
  ultimately show ?thesis by blast
qed

text \<open>An honest opening: the blinded combinations of the rows of the committed matrix.\<close>

definition blinded_all :: "(nat \<Rightarrow> fp list) \<Rightarrow> nat \<Rightarrow> fp2 list \<Rightarrow> fp2 list list \<Rightarrow> fp2 list" where
  "blinded_all M n c_pows masks = map2 (+) (map (lincomb M 0 c_pows) [0..<n]) (masks ! 0)"

definition blinded_blocks :: "(nat \<Rightarrow> fp list) \<Rightarrow> nat \<Rightarrow> claim_geom_t list \<Rightarrow> fp2 list list \<Rightarrow> fp2 list list" where
  "blinded_blocks M n geoms masks =
     map2 (map2 (+)) (map (\<lambda>geo. map (lincomb M (ge_row0 geo) (ge_q_row geo)) [0..<n]) geoms) (tl masks)"

lemma blinded_lengths:
  assumes "length masks = Suc (length geoms)" "\<forall>m \<in> set masks. length m = n"
  shows "length (blinded_all M n c_pows masks) = n" "length (blinded_blocks M n geoms masks) = length geoms"
    "\<And>u. u \<in> set (blinded_blocks M n geoms masks) \<Longrightarrow> length u = n"
proof -
  have ml: "length (masks ! g) = n" if "g \<le> length geoms" for g using assms that by simp
  then show "length (blinded_all M n c_pows masks) = n" by (simp add: blinded_all_def)
  show "length (blinded_blocks M n geoms masks) = length geoms" using assms(1) by (simp add: blinded_blocks_def)
  show "\<And>u. u \<in> set (blinded_blocks M n geoms masks) \<Longrightarrow> length u = n"
    using ml assms(1) by (auto simp: blinded_blocks_def in_set_conv_nth nth_tl)
qed

lemma blinded_value:
  assumes "length masks = Suc (length geoms)" "\<forall>m \<in> set masks. length m = lp_msg_len p" "g < length geoms"
    and "claim_geom p c = Some (geoms ! g)" "lp_col_bits p < 64" "length w = lp_rows p * lp_cols p" "block_value w c = Some x"
  shows "x + dot (lp_cols p) (masks ! Suc g) (ge_q_col (geoms ! g))
    = dot (lp_cols p) (blinded_blocks (message p w pads) (lp_msg_len p) geoms masks ! g) (ge_q_col (geoms ! g))"
proof -
  let ?u = "map (lincomb (message p w pads) (ge_row0 (geoms ! g)) (ge_q_row (geoms ! g))) [0..<lp_msg_len p]"
  have "x = dot (lp_cols p) ?u (ge_q_col (geoms ! g))" using block_value_eq [OF assms(4-6), of pads] assms(7) by simp
  moreover have "blinded_blocks (message p w pads) (lp_msg_len p) geoms masks ! g ! j = ?u ! j + masks ! Suc g ! j" if "j < lp_cols p" for j
    using that assms(1-3) by (simp add: blinded_blocks_def nth_tl lp_msg_len_def)
  ultimately show ?thesis by (simp add: dot_def distrib_right sum.distrib)
qed

lemma good_column_ok:
  assumes good: "good_column H root (mo_mask_root pf) (lp_code_bits p) cols (\<lambda>j. map (\<lambda>m. poly_eval m (fp2_from_base (root_at N j))) masks) j co"
    and j: "j < N" and plan: "plan_new N = Some plan" and n: "n \<le> N"
    and M: "\<And>r. length (M r) = n" "cols j = map (\<lambda>r. poly_eval (M r) (root_at N j)) [0..<lp_rows p]"
    and masks: "length masks = Suc (length geoms)" "\<forall>m \<in> set masks. length m = n"
    and pows: "length c_pows = lp_rows p" and geo: "\<forall>geo \<in> set geoms. ge_row0 geo + length (ge_q_row geo) \<le> lp_rows p"
  shows "column_ok H root p geoms pf c_pows
      (the (encode_fp2 plan (blinded_all M n c_pows masks))) (map (the \<circ> encode_fp2 plan) (blinded_blocks M n geoms masks)) j co"
proof -
  have len: "length (masks ! g) = n" if "g \<le> length geoms" for g using masks that by simp
  have c: "mc_col co = cols j" "mc_mask_col co = map (\<lambda>m. poly_eval m (fp2_from_base (root_at N j))) masks" "unat (mc_j co) = j"
    using good by (simp_all add: good_column_def)
  have "the (encode_fp2 plan (map2 (+) (map (lincomb M 0 c_pows) [0..<n]) (masks ! 0))) ! j
      = weighted_column c_pows (mc_col co) 0 + mc_mask_col co ! 0"
    using column_equation [OF M(1) len [of 0] n plan j, of 0 c_pows "lp_rows p" "mc_col co"] pows c M(2) masks(1) by simp
  moreover have "the (encode_fp2 plan (map2 (+) (map (lincomb M (ge_row0 (geoms ! g)) (ge_q_row (geoms ! g))) [0..<n]) (masks ! Suc g))) ! j
      = weighted_column (ge_q_row (geoms ! g)) (mc_col co) (ge_row0 (geoms ! g)) + mc_mask_col co ! Suc g" if "g < length geoms" for g
    using column_equation [OF M(1) len [of "Suc g"] n plan j, of "ge_row0 (geoms ! g)" "ge_q_row (geoms ! g)" "lp_rows p" "mc_col co"]
      that geo c M(2) masks(1) by simp
  ultimately show ?thesis using good masks(1)
    by (simp add: column_ok_def good_column_def list_all_iff nth_tl c blinded_all_def blinded_blocks_def)
qed

section \<open>Completeness\<close>

text \<open>What an opening needs of its surroundings: streams for the pads and masks, and sizes that fit their counters.\<close>

definition streams_ready :: "chacha \<Rightarrow> ligero_params \<Rightarrow> bytes \<Rightarrow> bytes \<Rightarrow> nat \<Rightarrow> bool" where
  "streams_ready chacha p pad_seed mask_seed n \<longleftrightarrow>
     (\<forall>r < lp_rows p. next_fps (lp_pad p) (fp_stream_domain_separated chacha pad_seed (word_of_nat r)) \<noteq> None)
     \<and> (\<forall>g \<le> n. next_fp2s (lp_msg_len p) (fp_stream_domain_separated chacha mask_seed (word_of_nat g)) \<noteq> None)"

definition sizes_fit :: "ligero_params \<Rightarrow> nat \<Rightarrow> bool" where
  "sizes_fit p n \<longleftrightarrow> 16 * ((n + 1) * lp_msg_len p) < 2 ^ 64 \<and> 16 * n < 2 ^ 64
     \<and> lp_n_queries p * (4 + 8 * lp_rows p + 16 * (n + 1) + 64 * lp_code_bits p) < 2 ^ 64"

lemma geoms_rows:
  assumes "those (map (claim_geom p) cs) = Some geoms" "lp_col_bits p < 64"
  shows "\<forall>geo \<in> set geoms. ge_row0 geo + length (ge_q_row geo) \<le> lp_rows p"
proof
  fix geo assume "geo \<in> set geoms"
  then obtain c where "claim_geom p c = Some geo"
    using assms(1) unfolding those_Some_iff by (metis in_set_conv_nth length_map nth_map)
  then show "ge_row0 geo + length (ge_q_row geo) \<le> lp_rows p" using claim_geom_Some [OF _ assms(2)] by fastforce
qed

lemma open_columns_ok:
  assumes "is_fiat_shamir tx" "pm_params pm = p" "params_ok p" "length masks = n + 1" "sizes_fit p n"
    and "\<And>j. j < lp_code_len p \<Longrightarrow> opens_at H (pm_tree pm) root (lp_code_bits p) j (hash_leaf H (col_bytes (column p (pm_encoded pm) j)))"
    and "\<And>j. j < lp_code_len p \<Longrightarrow> opens_at H mask_tree mask_root (lp_code_bits p) j (multi_mask_leaf H (map (\<lambda>m. f m j) masks))"
  shows "\<exists>js cos tx1 tx2. draw_queries H (lp_code_len p) (lp_n_queries p) tx = Some (js, tx1)
    \<and> append_multi_columns H cos tx1 = Some tx2
    \<and> open_columns H pm (map (\<lambda>m. map (f m) [0..<lp_code_len p]) masks) mask_tree tx = Some (cos, tx2)
    \<and> length js = lp_n_queries p \<and> (\<forall>j \<in> set js. j < lp_code_len p)
    \<and> list_all2 (good_column H root mask_root (lp_code_bits p) (column p (pm_encoded pm)) (\<lambda>j. map (\<lambda>m. f m j) masks)) js cos
    \<and> list_all (column_shape p n) cos"
proof -
  note code = params_code [OF assms(3)]
  let ?Q = "good_column H root mask_root (lp_code_bits p) (column p (pm_encoded pm)) (\<lambda>j. map (\<lambda>m. f m j) masks)"
  let ?C = "4 + 8 * lp_rows p + 16 * (n + 1) + 64 * lp_code_bits p"
  obtain js tx1 where js: "draw_queries H (lp_code_len p) (lp_n_queries p) tx = Some (js, tx1)" "is_fiat_shamir tx1"
    "length js = lp_n_queries p" "\<forall>j \<in> set js. j < lp_code_len p"
    using fs_queries [OF assms(1), of "lp_code_len p"] code by (metis zero_less_numeral zero_less_power)
  have cb: "lp_code_bits p \<le> 32" using assms(3) by (simp add: params_ok_def)
  have "\<exists>co. open_column pm (map (\<lambda>m. map (f m) [0..<lp_code_len p]) masks) mask_tree j = Some co \<and> ?Q j co" if "j \<in> set js" for j
    by (rule open_column_good [OF assms(2) cb]) (use code js(4) that assms(6,7) in auto)
  then obtain cos where cos: "those (map (open_column pm (map (\<lambda>m. map (f m) [0..<lp_code_len p]) masks) mask_tree) js) = Some cos"
    "list_all2 ?Q js cos" using opened_columns [of js _ ?Q] by blast
  have sh: "column_shape p n co \<and> column_count co = ?C" if co: "co \<in> set cos" for co
  proof -
    obtain i where i: "i < length cos" "co = cos ! i" using co by (metis in_set_conv_nth)
    then have "?Q (js ! i) co" "js ! i < lp_code_len p" using cos(2) js(4) by (simp_all add: list_all2_conv_all_nth)
    then show ?thesis using good_column_shape assms(4) by blast
  qed
  then have "sum_list (map column_count cos) = lp_n_queries p * ?C"
    using list_all2_lengthD [OF cos(2)] js(3) sum_list_const [of cos column_count ?C] by simp
  then obtain tx2 where tx2: "append_multi_columns H cos tx1 = Some tx2"
    using fs_message(2) [OF js(2), of "''pcs_columns''"] assms(5) by (auto simp: append_multi_columns_def sizes_fit_def)
  then have "open_columns H pm (map (\<lambda>m. map (f m) [0..<lp_code_len p]) masks) mask_tree tx = Some (cos, tx2)"
    using js(1) cos(1) assms(2) by (simp add: open_columns_def)
  then show ?thesis using js(1,3,4) tx2 cos(2) sh by (auto simp: list_all_iff)
qed

lemma all_columns_ok:
  assumes "list_all2 (good_column H root (mo_mask_root pf) (lp_code_bits p) cols (\<lambda>j. map (\<lambda>m. poly_eval m (fp2_from_base (root_at N j))) masks)) js cos"
    and "\<forall>j \<in> set js. j < N" "plan_new N = Some plan" "n \<le> N"
    and "\<And>r. length (M r) = n" "\<And>j. j < N \<Longrightarrow> cols j = map (\<lambda>r. poly_eval (M r) (root_at N j)) [0..<lp_rows p]"
    and "length masks = Suc (length geoms)" "\<forall>m \<in> set masks. length m = n"
    and "length c_pows = lp_rows p" "\<forall>geo \<in> set geoms. ge_row0 geo + length (ge_q_row geo) \<le> lp_rows p"
  shows "list_all (\<lambda>(jq, co). column_ok H root p geoms pf c_pows
      (the (encode_fp2 plan (blinded_all M n c_pows masks))) (map (the \<circ> encode_fp2 plan) (blinded_blocks M n geoms masks)) jq co) (zip js cos)"
proof -
  have "column_ok H root p geoms pf c_pows (the (encode_fp2 plan (blinded_all M n c_pows masks)))
      (map (the \<circ> encode_fp2 plan) (blinded_blocks M n geoms masks)) j co" if z: "(j, co) \<in> set (zip js cos)" for j co
  proof (rule good_column_ok)
    have "j < N" using z assms(2) by (auto dest: set_zip_leftD)
    then show "j < N" "cols j = map (\<lambda>r. poly_eval (M r) (root_at N j)) [0..<lp_rows p]" using assms(6) by auto
  qed (use z assms in \<open>auto simp: list_all2_iff\<close>)
  then show ?thesis by (auto simp: list_all_iff)
qed

lemma masks_encode:
  assumes "plan_new N = Some plan" "length u \<le> N"
  shows "encode_fp2 plan u = Some (the (encode_fp2 plan u))"
  using encode_fp2_evaluates [OF assms] by simp

text \<open>The messages of the honest prover, and what the verifier does with them.\<close>

lemma blinded_messages:
  assumes "is_fiat_shamir tx" "sizes_fit p n" "length masks = Suc (length geoms)" "length geoms = n" "\<forall>m \<in> set masks. length m = lp_msg_len p"
  shows "\<exists>tx1 c tx2 tx3. append_message ''pcs_mask_root'' mroot tx = Some tx1 \<and> challenge_fp2 H tx1 = Some (c, tx2)
    \<and> append_multi_u_vectors H (blinded_all M (lp_msg_len p) (challenge_powers c rows 1) masks)
        (blinded_blocks M (lp_msg_len p) geoms masks) tx2 = Some tx3 \<and> is_fiat_shamir tx3"
proof -
  let ?L = "lp_msg_len p"
  obtain tx1 where tx1: "append_message ''pcs_mask_root'' mroot tx = Some tx1" "is_fiat_shamir tx1"
    using fs_message(1) [OF assms(1), of "''pcs_mask_root''"] by auto
  obtain c tx2 where c: "challenge_fp2 H tx1 = Some (c, tx2)" "is_fiat_shamir tx2" using fs_challenge [OF tx1(2)] by blast
  note len = blinded_lengths [OF assms(3,5)]
  have "sum_list (map length (blinded_all M ?L (challenge_powers c rows 1) masks # blinded_blocks M ?L geoms masks)) = (n + 1) * ?L"
    using len sum_list_const [of "blinded_blocks M ?L geoms masks" length ?L] assms(4) by simp
  then obtain tx3 where "append_multi_u_vectors H (blinded_all M ?L (challenge_powers c rows 1) masks) (blinded_blocks M ?L geoms masks) tx2 = Some tx3"
    "is_fiat_shamir tx3"
    using fs_slices [OF c(2), of "''pcs_u_vectors''" "blinded_all M ?L (challenge_powers c rows 1) masks # blinded_blocks M ?L geoms masks" H] assms(2)
    by (auto simp: append_multi_u_vectors_def sizes_fit_def)
  then show ?thesis using tx1(1) c(1) by blast
qed

lemma honest_verified:
  fixes p :: ligero_params
  defines "L \<equiv> lp_msg_len p" and "N \<equiv> lp_code_len p"
  assumes "claims \<noteq> []" "length keys = length claims" "L \<le> N" "plan_new N = Some plan"
    and "length masks = Suc (length claims)" "\<forall>m \<in> set masks. length m = L"
    and "those (map (claim_geom p \<circ> fst) claims) = Some geoms" "\<And>r. length (M r) = L"
    and "append_message ''pcs_mask_root'' mroot tx = Some tx1" "challenge_fp2 H tx1 = Some (c, tx2)"
    and "append_multi_u_vectors H (blinded_all M L (challenge_powers c (lp_rows p) 1) masks) (blinded_blocks M L geoms masks) tx2 = Some tx3"
    and mac: "\<And>pf. mo_u_gs pf = blinded_blocks M L geoms masks \<and> mo_corr_ss pf = corr_ss \<and> mo_mask_corr pf = mask_corr \<and> mo_m_z pf = m_z
        \<Longrightarrow> verify_mac H chacha (lp_cols p) keys geoms pf v dom_s dom_zb tx3 = Some (True, v', tx4)" and "length corr_ss = length claims"
    and "draw_queries H N (lp_n_queries p) tx4 = Some (js, tx5)" "append_multi_columns H cos tx5 = Some tx6" "length js = lp_n_queries p" "\<forall>j \<in> set js. j < N"
    and "list_all2 (good_column H root mroot (lp_code_bits p) cols (\<lambda>j. map (\<lambda>m. poly_eval m (fp2_from_base (root_at N j))) masks)) js cos"
    and "list_all (column_shape p (length claims)) cos" "\<And>j. j < N \<Longrightarrow> cols j = map (\<lambda>r. poly_eval (M r) (root_at N j)) [0..<lp_rows p]"
    and "\<forall>geo \<in> set geoms. ge_row0 geo + length (ge_q_row geo) \<le> lp_rows p"
  shows "verify_multi_open H chacha root p (zip (map fst claims) keys) \<lparr>mo_mask_root = mroot,
      mo_u_c = blinded_all M L (challenge_powers c (lp_rows p) 1) masks, mo_u_gs = blinded_blocks M L geoms masks,
      mo_corr_ss = corr_ss, mo_mask_corr = mask_corr, mo_m_z = m_z, mo_columns = cos\<rparr> v dom_s dom_zb tx = Some (True, v', tx6)"
    (is "verify_multi_open _ _ _ _ ?cl ?pf _ _ _ _ = _")
proof -
  let ?uc = "mo_u_c ?pf" and ?ug = "mo_u_gs ?pf" and ?cp = "challenge_powers c (lp_rows p) 1"
  have gl: "length geoms = length claims" using assms(9) by (metis length_map those_Some_iff)
  have ml: "length masks = Suc (length geoms)" using assms(7) gl by simp
  note len = blinded_lengths [OF ml assms(8)]
  have sh: "proof_shape p (length ?cl) ?pf" "list_all (column_shape p (length ?cl)) cos"
    using assms(3,4,15,18,21) len gl list_all2_lengthD [OF assms(20)] by (auto simp: proof_shape_def L_def)
  have "map (claim_geom p \<circ> fst) ?cl = map (claim_geom p \<circ> fst) claims" using assms(4) by (intro nth_equalityI) simp_all
  moreover have "verify_mac H chacha (lp_cols p) (map snd ?cl) geoms ?pf v dom_s dom_zb tx3 = Some (True, v', tx4)"
    using mac [of ?pf] assms(4) by simp
  moreover have "those (map (encode_fp2 plan) ?ug) = Some (map (the \<circ> encode_fp2 plan) ?ug)"
    by (intro those_map_Some) (use masks_encode [OF assms(6)] len(3) assms(5) in fastforce)
  moreover obtain e where e: "encode_fp2 plan ?uc = Some e" using masks_encode [OF assms(6), of ?uc] len(1) assms(5) by auto
  moreover have "list_all (\<lambda>(jq, co). column_ok H root p geoms ?pf ?cp e (map (the \<circ> encode_fp2 plan) ?ug) jq co) (zip js cos)"
    using all_columns_ok [OF _ assms(19,6,5,10,22) ml assms(8) _ assms(23), where pf = ?pf and c_pows = ?cp and cos = cos and H = H and root = root]
      assms(20) e by simp
  ultimately show ?thesis using sh assms(6,9,11-13,16,17) by (simp add: verify_multi_open_def N_def)
qed

lemma draw_queries_bound: "draw_queries H N k tx = Some (js, tx') \<Longrightarrow> 0 < N \<Longrightarrow> \<forall>j \<in> set js. j < N"
  by (induction k arbitrary: tx js) (auto split: Option.bind_splits)

lemma open_columns_paths:
  assumes "open_columns H pm me mt tx = Some (cos, tx')" "0 < lp_code_len (pm_params pm)" "lp_code_len (pm_params pm) \<le> 2 ^ 32"
  shows "\<forall>co \<in> set cos. merkle_open (pm_tree pm) (unat (mc_j co)) = Some (mc_path co)"
proof
  fix co assume co: "co \<in> set cos"
  obtain js tx1 where js: "draw_queries H (lp_code_len (pm_params pm)) (lp_n_queries (pm_params pm)) tx = Some (js, tx1)"
    "map (open_column pm me mt) js = map Some cos"
    using assms(1) by (auto simp: open_columns_def those_Some_iff split: Option.bind_splits)
  obtain i where "i < length cos" "co = cos ! i" using co by (metis in_set_conv_nth)
  then obtain j where j: "j \<in> set js" "open_column pm me mt j = Some co" using js(2) by (metis length_map nth_map nth_mem)
  then have "j < 2 ^ 32" using draw_queries_bound [OF js(1) assms(2)] assms(3) by fastforce
  then have "unat (word_of_nat j :: u32) = j" by (simp add: unat_of_nat take_bit_nat_eq_self)
  then show "merkle_open (pm_tree pm) (unat (mc_j co)) = Some (mc_path co)"
    using j(2) by (auto simp: open_column_def split: Option.bind_splits)
qed

lemma multi_open_run:
  assumes p: "params_ok p" "length w = lp_rows p * lp_cols p" "sizes_fit p (length claims)" "0 < threads"
    and st: "streams_ready chacha p pad_seed mask_seed (length claims)"
    and cl: "claims \<noteq> []" "\<forall>(c, a) \<in> set claims. claim_geom p c \<noteq> None \<and> block_value w c = Some (pa_x a)"
    and tw: "is_fiat_shamir tx" "twin s v" "list_all2 (mac_valid (vc_delta v)) (map snd claims) keys"
    and dr: "run_machine (prover_draw chacha) [DFull dom_s (length claims), DFull dom_zb 1] s \<noteq> None"
  shows "\<exists>com pm pf s' v' tx'. ligero_commit H chacha w p pad_seed = Some (com, pm)
    \<and> open_multi_zk H chacha threads w pm claims s dom_s dom_zb mask_seed tx = Some (pf, s', tx')
    \<and> verify_multi_open H chacha (cm_root com) p (zip (map fst claims) keys) pf v dom_s dom_zb tx = Some (True, v', tx')
    \<and> twin s' v' \<and> (\<forall>co \<in> set (mo_columns pf). merkle_open (pm_tree pm) (unat (mc_j co)) = Some (mc_path co))"
proof -
  let ?n = "length claims" and ?N = "lp_code_len p" and ?L = "lp_msg_len p"
  note code = params_code [OF p(1)]
  have cb: "lp_col_bits p < 64" using p(1) by (simp add: params_ok_def)
  obtain plan where plan: "plan_new ?N = Some plan" using params_plan [OF p(1)] by blast
  have pd: "\<And>r. r < lp_rows p \<Longrightarrow> next_fps (lp_pad p) (fp_stream_domain_separated chacha pad_seed (word_of_nat r)) \<noteq> None"
    using st unfolding streams_ready_def by blast
  obtain pads encoded tree root where com: "ligero_commit H chacha w p pad_seed
      = Some (\<lparr>cm_root = root\<rparr>, \<lparr>pm_params = p, pm_pads = pads, pm_encoded = encoded, pm_tree = tree\<rparr>)"
    "length pads = lp_rows p * lp_pad p"
    "\<And>j. j < ?N \<Longrightarrow> column p encoded j = map (\<lambda>r. poly_eval (message p w pads r) (root_at ?N j)) [0..<lp_rows p]"
    "\<And>j. j < ?N \<Longrightarrow> opens_at H tree root (lp_code_bits p) j (hash_leaf H (col_bytes (column p encoded j)))"
    using commit_matrix [OF p(1,2) pd, of H] by blast
  let ?pm = "\<lparr>pm_params = p, pm_pads = pads, pm_encoded = encoded, pm_tree = tree\<rparr>" and ?M = "message p w pads"
  define geoms where "geoms = map (the \<circ> claim_geom p \<circ> fst) claims"
  have geo: "those (map (claim_geom p \<circ> fst) claims) = Some geoms"
    unfolding geoms_def comp_assoc by (rule those_map_ex) (use cl(2) in auto)
  have gl: "length geoms = ?n" by (simp add: geoms_def)
  have rows: "\<forall>geo \<in> set geoms. ge_row0 geo + length (ge_q_row geo) \<le> lp_rows p"
    using geoms_rows [of p "map fst claims"] geo cb by simp
  obtain masks where masks: "make_masks chacha mask_seed ?n ?L = Some masks" "length masks = Suc ?n" "\<forall>m \<in> set masks. length m = ?L"
    using make_masks_eq [of ?n ?L chacha mask_seed] st by (auto simp: streams_ready_def)
  let ?f = "\<lambda>m j. poly_eval m (fp2_from_base (root_at ?N j))"
  obtain mtree mroot where mc: "mask_commit H plan ?N masks = Some (map (\<lambda>m. map (?f m) [0..<?N]) masks, mtree)" "merkle_root mtree = Some mroot"
    "\<And>j. j < ?N \<Longrightarrow> opens_at H mtree mroot (lp_code_bits p) j (multi_mask_leaf H (map (\<lambda>m. ?f m j) masks))"
    using mask_commit_eq [OF plan, of "lp_code_bits p" masks H] code masks(3) by auto
  note ml = masks(2) [folded gl]
  obtain tx1 c tx2 tx3 where tx: "append_message ''pcs_mask_root'' mroot tx = Some tx1" "challenge_fp2 H tx1 = Some (c, tx2)"
    "append_multi_u_vectors H (blinded_all ?M ?L (challenge_powers c (lp_rows p) 1) masks) (blinded_blocks ?M ?L geoms masks) tx2 = Some tx3"
    "is_fiat_shamir tx3" using blinded_messages [OF tw(1) p(3) ml gl masks(3)] by blast
  let ?cp = "challenge_powers c (lp_rows p) 1"
  let ?uc = "blinded_all ?M ?L ?cp masks" and ?ug = "blinded_blocks ?M ?L geoms masks"
  have gp: "global_pass threads w pads p ?cp = Some (map (lincomb ?M 0 ?cp) [0..<?L])"
    using global_pass_eq [OF p(2) com(2) _ p(4), of ?cp] by simp
  have cr: "those (map (\<lambda>geo. combine_row_range w pads p (ge_row0 geo) (ge_q_row geo)) geoms)
      = Some (map (\<lambda>geo. map (lincomb ?M (ge_row0 geo) (ge_q_row geo)) [0..<?L]) geoms)"
    by (intro those_map_Some combine_row_range_eq [OF p(2) com(2)]) (use rows in blast)
  have zero: "pa_x (map snd claims ! g) + dot (lp_cols p) (masks ! Suc g) (ge_q_col (geoms ! g)) = dot (lp_cols p) (?ug ! g) (ge_q_col (geoms ! g))"
    if g: "g < ?n" for g
  proof (rule blinded_value [OF ml masks(3) _ _ cb p(2)])
    show "claim_geom p (fst (claims ! g)) = Some (geoms ! g)" "block_value w (fst (claims ! g)) = Some (pa_x (map snd claims ! g))"
      using cl(2) g nth_mem [OF g] by (fastforce simp: geoms_def)+
  qed (use g gl in simp)
  have sz: "16 * ?n < 2 ^ 64" using p(3) by (simp add: sizes_fit_def)
  obtain corr_ss mask_corr m_z s' v' tx4 where mac: "open_mac H chacha (lp_cols p) (map snd claims) geoms masks ?ug s dom_s dom_zb tx3
      = Some (corr_ss, mask_corr, m_z, s', tx4)" "length corr_ss = ?n" "is_fiat_shamir tx4" "twin s' v'"
    "\<And>pf. mo_u_gs pf = ?ug \<and> mo_corr_ss pf = corr_ss \<and> mo_mask_corr pf = mask_corr \<and> mo_m_z pf = m_z
        \<Longrightarrow> verify_mac H chacha (lp_cols p) keys geoms pf v dom_s dom_zb tx3 = Some (True, v', tx4)"
    using mac_resolution [OF tx(4) tw(2) dr _ gl sz tw(3) zero, of H] by auto
  have op: "\<And>j. j < ?N \<Longrightarrow> opens_at H (pm_tree ?pm) root (lp_code_bits p) j (hash_leaf H (col_bytes (column p (pm_encoded ?pm) j)))"
    using com(4) by simp
  obtain js cos tx5 tx6 where cos: "draw_queries H ?N (lp_n_queries p) tx4 = Some (js, tx5)" "append_multi_columns H cos tx5 = Some tx6"
    "open_columns H ?pm (map (\<lambda>m. map (?f m) [0..<?N]) masks) mtree tx4 = Some (cos, tx6)" "length js = lp_n_queries p" "\<forall>j \<in> set js. j < ?N"
    "list_all2 (good_column H root mroot (lp_code_bits p) (column p encoded) (\<lambda>j. map (\<lambda>m. ?f m j) masks)) js cos"
    "list_all (column_shape p ?n) cos"
    using open_columns_ok [OF mac(3) _ p(1) _ p(3) op mc(3)] masks(2) by auto
  let ?pf = "\<lparr>mo_mask_root = mroot, mo_u_c = ?uc, mo_u_gs = ?ug, mo_corr_ss = corr_ss, mo_mask_corr = mask_corr, mo_m_z = m_z, mo_columns = cos\<rparr>"
  have "open_multi_zk H chacha threads w ?pm claims s dom_s dom_zb mask_seed tx = Some (?pf, s', tx6)"
    using cl(1) p(2) plan geo masks(1) mc(1,2) tx(1-3) gp cr mac(1) cos(3)
    by (simp add: open_multi_zk_def open_multi_zk_impl_def Let_def flip: blinded_all_def blinded_blocks_def)
  moreover have "verify_multi_open H chacha root p (zip (map fst claims) keys) ?pf v dom_s dom_zb tx = Some (True, v', tx6)"
    by (rule honest_verified [OF _ _ _ plan _ _ geo _ tx(1-3) mac(5) _ cos(1,2,4-7) com(3) rows])
      (use cl(1) list_all2_lengthD [OF tw(3)] code gl masks ml mac(2) in auto)
  moreover have "\<forall>co \<in> set cos. merkle_open (pm_tree ?pm) (unat (mc_j co)) = Some (mc_path co)"
    by (rule open_columns_paths [OF cos(3)]) (use p(1) code power_increasing [of "lp_code_bits p" 32 "2 :: nat"] in \<open>auto simp: params_ok_def\<close>)
  ultimately show ?thesis using com(1) mac(4) by auto
qed

text \<open>
  C16. The commitment and its opening are complete: for valid parameters and true authenticated claims on
  blocks of the weight vector, on a Fiat--Shamir transcript and with twin expanders that can draw the
  masks, committing returns, the multi-claim opening returns, and the verifier, run on the commitment's root,
  the prover's proof and the same transcript, accepts; the expanders are twins again and the transcripts end equal.
\<close>

theorem multi_open_complete:
  assumes p: "params_ok p" "length w = lp_rows p * lp_cols p" "sizes_fit p (length claims)" "0 < threads"
    and st: "streams_ready chacha p pad_seed mask_seed (length claims)"
    and cl: "claims \<noteq> []" "\<forall>(c, a) \<in> set claims. claim_geom p c \<noteq> None \<and> block_value w c = Some (pa_x a)"
    and tw: "is_fiat_shamir tx" "twin s v" "list_all2 (mac_valid (vc_delta v)) (map snd claims) keys"
    and dr: "run_machine (prover_draw chacha) [DFull dom_s (length claims), DFull dom_zb 1] s \<noteq> None"
  shows "\<exists>com pm pf s' v' tx'. ligero_commit H chacha w p pad_seed = Some (com, pm)
    \<and> open_multi_zk H chacha threads w pm claims s dom_s dom_zb mask_seed tx = Some (pf, s', tx')
    \<and> verify_multi_open H chacha (cm_root com) p (zip (map fst claims) keys) pf v dom_s dom_zb tx = Some (True, v', tx')
    \<and> twin s' v'"
  using multi_open_run [OF assms, of H] by blast

definition demo_params :: ligero_params where
  "demo_params = \<lparr>lp_rows = 2, lp_col_bits = 1, lp_pad = 1, lp_code_bits = 2, lp_n_queries = 1\<rparr>"

definition demo_claim :: block_claim where
  "demo_claim = \<lparr>bc_offset = 0, bc_point = [5, 7]\<rparr>"

definition demo_value :: prover_authed where
  "demo_value = prover_authed_new (the (block_value [1, -2, 3, 4] demo_claim)) 6"

lemma demo_params_facts:
  "lp_cols demo_params = 2" "lp_code_len demo_params = 4" "lp_msg_len demo_params = 3" "lp_row_bits demo_params = 1" "lp_n_vars demo_params = 2"
proof -
  have "next_power_of_two 2 = 2" by (simp add: next_power_of_two_def next_power_from.simps)
  then show r: "lp_row_bits demo_params = 1" using trailing_zeros_pow [of 1] by (simp add: lp_row_bits_def demo_params_def)
  show "lp_cols demo_params = 2" "lp_code_len demo_params = 4" by (simp_all add: lp_cols_def lp_code_len_def demo_params_def)
  then show "lp_msg_len demo_params = 3" by (simp add: lp_msg_len_def demo_params_def)
  show "lp_n_vars demo_params = 2" using r by (simp add: lp_n_vars_def demo_params_def)
qed

lemma demo_params_ok: "params_ok demo_params"
  by (simp add: params_ok_def lp_validate_def demo_params_facts) (simp add: demo_params_def)

lemma demo_claim_ok: "claim_geom demo_params demo_claim \<noteq> None \<and> block_value [1, -2, 3, 4] demo_claim = Some (pa_x demo_value)"
proof -
  have "block_value [1, -2, 3, 4] demo_claim \<noteq> None" by (simp add: block_value_def demo_claim_def eval_mle_def Let_def)
  then show ?thesis
    by (auto simp: claim_geom_def demo_params_facts Let_def checked_shl_1_def demo_value_def) (simp_all add: demo_claim_def demo_params_def)
qed

lemma demo_streams: "streams_ready demo_chacha p pad_seed mask_seed n"
proof -
  have w: "(5 :: u64) < P_u64" by (simp add: P_u64_def)
  have st: "fp_stream_domain_separated demo_chacha seed d = \<lparr>fs_word = (\<lambda>_. 5), fs_pos = 0\<rparr>" for seed d
    by (simp add: fp_stream_domain_separated_def demo_chacha_def fun_eq_iff)
  show ?thesis by (simp add: streams_ready_def st next_fps_const [OF w] next_fp2s_const [OF w])
qed

lemma demo_hypotheses:
  "list_all2 (mac_valid (vc_delta (demo_ctx 2))) (map snd [(demo_claim, demo_value)]) [key_of 3 demo_value]"
  "run_machine (prover_draw demo_chacha) [DFull 7 (length [(demo_claim, demo_value)]), DFull 8 1] (demo_stream 2) \<noteq> None"
  "length [1, -2, 3, 4 :: int] = lp_rows demo_params * lp_cols demo_params" "sizes_fit demo_params (length [(demo_claim, demo_value)])"
  "[(demo_claim, demo_value)] \<noteq> []"
  "\<forall>(c, a) \<in> set [(demo_claim, demo_value)]. claim_geom demo_params c \<noteq> None \<and> block_value [1, -2, 3, 4] c = Some (pa_x a)"
proof -
  have d: "vc_delta (demo_ctx 2) = 3" by (simp add: demo_ctx_def ctx_from_pcg_pool_def)
  show "list_all2 (mac_valid (vc_delta (demo_ctx 2))) (map snd [(demo_claim, demo_value)]) [key_of 3 demo_value]" by (simp add: d mac_valid_iff)
  show "run_machine (prover_draw demo_chacha) [DFull 7 (length [(demo_claim, demo_value)]), DFull 8 1] (demo_stream 2) \<noteq> None"
    using pool_serves [of "[(7, 1), (8, 1)]" "replicate 2 \<lparr>fv_x = 2, fv_m = 9\<rparr>" demo_chacha "[]"]
    by (simp add: demo_stream_def domain_bits)
  show "length [1, -2, 3, 4 :: int] = lp_rows demo_params * lp_cols demo_params" "sizes_fit demo_params (length [(demo_claim, demo_value)])"
    by (simp_all add: demo_params_facts sizes_fit_def) (simp_all add: demo_params_def)
  show "[(demo_claim, demo_value)] \<noteq> []"
    "\<forall>(c, a) \<in> set [(demo_claim, demo_value)]. claim_geom demo_params c \<noteq> None \<and> block_value [1, -2, 3, 4] c = Some (pa_x a)"
    using demo_claim_ok by simp_all
qed

theorem multi_open_complete_witness:
  "\<exists>com pm pf s' v' tx'. ligero_commit demo_node_hash demo_chacha [1, -2, 3, 4] demo_params [] = Some (com, pm)
    \<and> open_multi_zk demo_node_hash demo_chacha 1 [1, -2, 3, 4] pm [(demo_claim, demo_value)] (demo_stream 2) 7 8 [] demo_fs = Some (pf, s', tx')
    \<and> verify_multi_open demo_node_hash demo_chacha (cm_root com) demo_params [(demo_claim, key_of 3 demo_value)] pf (demo_ctx 2) 7 8 demo_fs
        = Some (True, v', tx')"
  using multi_open_complete [OF demo_params_ok demo_hypotheses(3,4) zero_less_one demo_streams demo_hypotheses(5,6)
    demo_fs demo_twin demo_hypotheses(1,2), of demo_node_hash "[]" "[]"] by auto

section \<open>Binding\<close>

lemma fp_bytes_inject: "fp_bytes x = fp_bytes y \<Longrightarrow> x = y"
  by (simp add: fp_bytes_def fp_value_inject)

lemma col_bytes_inject: "length a = length b \<Longrightarrow> col_bytes a = col_bytes b \<Longrightarrow> a = b"
proof (induction a b rule: list_induct2)
  case (Cons x a y b)
  have "length (fp_bytes x) = length (fp_bytes y)" by (simp add: fp_bytes_def)
  then show ?case using Cons by (auto simp: col_bytes_def dest: fp_bytes_inject)
qed simp

lemma column_binding:
  assumes "verify_path H root j (hash_leaf H (col_bytes a)) pa d" "verify_path H root j (hash_leaf H (col_bytes b)) pb d"
    and "length a = length b" "\<forall>s \<in> set pa. length s = 32" "\<forall>s \<in> set pb. length s = 32" "\<And>x. length (b3_hash H x) = 32"
  shows "a = b \<or> collision_in H (col_bytes a # path_preimages H j (hash_leaf H (col_bytes a)) pa)
    (col_bytes b # path_preimages H j (hash_leaf H (col_bytes b)) pb)"
proof -
  have "fold_path H j (hash_leaf H (col_bytes a)) pa = fold_path H j (hash_leaf H (col_bytes b)) pb" "length pa = length pb"
    using assms(1,2) by (auto simp: verify_path_def split: option.splits)
  from fold_path_binding [OF this _ _ assms(4,5,6)] assms(6) consider "b3_hash H (col_bytes a) = b3_hash H (col_bytes b)"
    | "collision_in H (path_preimages H j (hash_leaf H (col_bytes a)) pa) (path_preimages H j (hash_leaf H (col_bytes b)) pb)"
    by (auto simp: hash_leaf_def)
  then show ?thesis
  proof cases
    case 1
    then show ?thesis using col_bytes_inject [OF assms(3)] by (auto simp: collision_in_def)
  next
    case 2
    then show ?thesis unfolding collision_in_def by (meson list.set_intros(2))
  qed
qed

text \<open>Every node of a tree over digests is a digest, and so is every sibling of a path.\<close>

lemma next_level_digests:
  "next_level H xs = Some ys \<Longrightarrow> (\<And>x. length (b3_hash H x) = 32) \<Longrightarrow> \<forall>y \<in> set ys. length y = 32"
  by (induction H xs arbitrary: ys rule: next_level.induct) (auto simp: hash_pair_def)

lemma build_levels_digests:
  "build_levels H xs = Some ls \<Longrightarrow> (\<And>x. length (b3_hash H x) = 32) \<Longrightarrow> \<forall>x \<in> set xs. length x = 32
    \<Longrightarrow> \<forall>l \<in> set ls. \<forall>x \<in> set l. length x = 32"
proof (induction H xs arbitrary: ls rule: build_levels.induct)
  case (1 H prev)
  show ?case
  proof (cases "1 < length prev")
    case True
    then obtain nxt rest where n: "next_level H prev = Some nxt" "build_levels H nxt = Some rest" "ls = prev # rest"
      using 1(2) by (subst (asm) build_levels.simps) (auto split: Option.bind_splits)
    then show ?thesis using 1(1) [OF True n(1,2) 1(3)] next_level_digests [OF n(1) 1(3)] 1(4) by auto
  next
    case False
    then show ?thesis using 1(2,4) by (subst (asm) build_levels.simps) auto
  qed
qed

lemma open_loop_digests:
  "open_loop ls i = Some path \<Longrightarrow> \<forall>l \<in> set ls. \<forall>x \<in> set l. length x = 32 \<Longrightarrow> \<forall>x \<in> set path. length x = 32"
  by (induction ls i arbitrary: path rule: open_loop.induct) (auto simp: get_Some split: Option.bind_splits)

lemma tree_digests:
  assumes "from_leaves H leaves = Some t" "\<forall>x \<in> set leaves. length x = 32" "\<And>x. length (b3_hash H x) = 32" "merkle_open t i = Some path"
  shows "\<forall>x \<in> set path. length x = 32"
proof -
  obtain ls where ls: "build_levels H leaves = Some ls" "t = \<lparr>levels = ls\<rparr>" using assms(1) by (auto simp: from_leaves_def split: if_splits)
  have "\<forall>l \<in> set (butlast ls). \<forall>x \<in> set l. length x = 32"
    using build_levels_digests [OF ls(1) assms(3,2)] by (auto dest: in_set_butlastD)
  then show ?thesis using open_loop_digests assms(4) ls(2) by (auto simp: merkle_open_def)
qed

lemma commit_Some:
  assumes "params_ok p" "ligero_commit H chacha w p seed = Some (com, pm)"
  shows "pm_params pm = p" "length w = lp_rows p * lp_cols p" "length (pm_pads pm) = lp_rows p * lp_pad p"
    and "from_leaves H (column_leaves H p (pm_encoded pm)) = Some (pm_tree pm)"
    and "\<And>j. j < lp_code_len p \<Longrightarrow> column p (pm_encoded pm) j
          = map (\<lambda>r. poly_eval (message p w (pm_pads pm) r) (root_at (lp_code_len p) j)) [0..<lp_rows p]"
    and "\<And>j. j < lp_code_len p \<Longrightarrow> opens_at H (pm_tree pm) (cm_root com) (lp_code_bits p) j (hash_leaf H (col_bytes (column p (pm_encoded pm) j)))"
proof -
  show w: "length w = lp_rows p * lp_cols p" and "pm_params pm = p"
    and "from_leaves H (column_leaves H p (pm_encoded pm)) = Some (pm_tree pm)"
    using assms(2) by (auto simp: ligero_commit_def split: if_splits Option.bind_splits)
  have "next_fps (lp_pad p) (fp_stream_domain_separated chacha seed (word_of_nat r)) \<noteq> None" if r: "r < lp_rows p" for r
  proof
    let ?f = "\<lambda>r. map_option fst (next_fps (lp_pad p) (fp_stream_domain_separated chacha seed (word_of_nat r)))"
    assume n: "next_fps (lp_pad p) (fp_stream_domain_separated chacha seed (word_of_nat r)) = None"
    obtain ys where "map ?f [0..<lp_rows p] = map Some ys"
      using assms(2) by (auto simp: ligero_commit_def make_pads_def those_Some_iff split: if_splits Option.bind_splits)
    then have "\<forall>x \<in> set (map ?f [0..<lp_rows p]). x \<noteq> None" by auto
    then show False using n r by force
  qed
  from commit_matrix [OF assms(1) w this, of H]
  show "length (pm_pads pm) = lp_rows p * lp_pad p"
    and "\<And>j. j < lp_code_len p \<Longrightarrow> column p (pm_encoded pm) j
          = map (\<lambda>r. poly_eval (message p w (pm_pads pm) r) (root_at (lp_code_len p) j)) [0..<lp_rows p]"
    and "\<And>j. j < lp_code_len p \<Longrightarrow> opens_at H (pm_tree pm) (cm_root com) (lp_code_bits p) j (hash_leaf H (col_bytes (column p (pm_encoded pm) j)))"
    using assms(2) by auto
qed

lemma draw_queries_length: "draw_queries H N k tx = Some (js, tx') \<Longrightarrow> length js = k"
  by (induction k arbitrary: tx js) (auto split: Option.bind_splits)

text \<open>What an accepting run has checked.\<close>

lemma verify_multi_open_accepts:
  assumes "verify_multi_open H chacha root p claims pf v dom_s dom_zb tx = Some (True, v', tx')"
  obtains plan geoms enc_uc enc_ugs c_pows js where "plan_new (lp_code_len p) = Some plan"
    "those (map (claim_geom p \<circ> fst) claims) = Some geoms" "proof_shape p (length claims) pf"
    "list_all (column_shape p (length claims)) (mo_columns pf)"
    "encode_fp2 plan (mo_u_c pf) = Some enc_uc" "those (map (encode_fp2 plan) (mo_u_gs pf)) = Some enc_ugs"
    "length js = lp_n_queries p" "length c_pows = lp_rows p"
    "list_all (\<lambda>(jq, co). column_ok H root p geoms pf c_pows enc_uc enc_ugs jq co) (zip js (mo_columns pf))"
  using assms
  by (auto simp: verify_multi_open_def split: if_splits Option.bind_splits option.splits)
    (rule that [OF _ _ _ _ _ _ draw_queries_length length_challenge_powers]; assumption)

lemma bound_claim:
  assumes "params_ok p" "plan_new (lp_code_len p) = Some plan" "those (map (claim_geom p \<circ> fst) claims) = Some geoms"
    and "proof_shape p (length claims) pf" "those (map (encode_fp2 plan) (mo_u_gs pf)) = Some enc_ugs"
    and "column_ok H root p geoms pf c_pows enc_uc enc_ugs jq co" "unat (mc_j co) = j" "j < lp_code_len p" "g < length claims"
    and "mc_col co = map (\<lambda>r. poly_eval (M r) (root_at (lp_code_len p) j)) [0..<lp_rows p]"
  shows "\<exists>geo. claim_geom p (fst (claims ! g)) = Some geo
    \<and> poly_eval (mo_u_gs pf ! g) (fp2_from_base (root_at (lp_code_len p) j))
      = (\<Sum>d<length (ge_q_row geo). ge_q_row geo ! d * fp2_from_base (poly_eval (M (ge_row0 geo + d)) (root_at (lp_code_len p) j)))
        + mc_mask_col co ! Suc g"
proof -
  let ?geo = "geoms ! g"
  have "map (claim_geom p \<circ> fst) claims = map Some geoms" using assms(3) by (simp add: those_Some_iff)
  then have ge: "claim_geom p (fst (claims ! g)) = Some ?geo" "length geoms = length claims"
    using assms(9) by (metis comp_apply length_map nth_map, metis length_map)
  have rows: "ge_row0 ?geo + length (ge_q_row ?geo) \<le> lp_rows p"
    using geoms_rows [of p "map fst claims"] assms(1,3,9) ge(2) by (simp add: params_ok_def)
  have u: "length (mo_u_gs pf) = length claims" "length (mo_u_gs pf ! g) = lp_msg_len p" using assms(4,9) by (simp_all add: proof_shape_def)
  have "map (encode_fp2 plan) (mo_u_gs pf) = map Some enc_ugs" using assms(5) by (simp add: those_Some_iff)
  then have "encode_fp2 plan (mo_u_gs pf ! g) = Some (enc_ugs ! g)" using assms(9) u(1) by (metis length_map nth_map)
  then have "enc_ugs ! g = map (\<lambda>j. poly_eval (mo_u_gs pf ! g) (fp2_from_base (root_at (lp_code_len p) j))) [0..<lp_code_len p]"
    using encode_fp2_evaluates [OF assms(2), of "mo_u_gs pf ! g"] u(2) params_code [OF assms(1)] by simp
  then have "enc_ugs ! g ! j = poly_eval (mo_u_gs pf ! g) (fp2_from_base (root_at (lp_code_len p) j))" using assms(8) by simp
  moreover have "enc_ugs ! g ! j = weighted_column (ge_q_row ?geo) (mc_col co) (ge_row0 ?geo) + mc_mask_col co ! Suc g"
    using assms(6,7,9) ge(2) by (auto simp: column_ok_def Let_def list_all_iff)
  moreover have "weighted_column (ge_q_row ?geo) (mc_col co) (ge_row0 ?geo)
      = (\<Sum>d<length (ge_q_row ?geo). ge_q_row ?geo ! d * fp2_from_base (poly_eval (M (ge_row0 ?geo + d)) (root_at (lp_code_len p) j)))"
    unfolding weighted_column_sum assms(10) using rows by simp
  ultimately show ?thesis using ge(1) by auto
qed

text \<open>
  C17. An accepted opening is bound to the committed matrix: in every column that an accepted proof opens
  against the root of a commitment, either the opened values are those of the committed column, and the
  encoding of each claim's blinded vector at this position is the claim's combination of the evaluations of
  the committed rows plus the opened mask, or two distinct strings, one hashed for the proof and
  one for the commitment, have the same BLAKE3 hash.
\<close>

theorem multi_open_bound:
  assumes p: "params_ok p" "ligero_commit H chacha w p seed = Some (com, pm)"
    and ok: "verify_multi_open H chacha (cm_root com) p claims pf v dom_s dom_zb tx = Some (True, v', tx')"
    and dg: "\<And>x. length (b3_hash H x) = 32" "\<forall>s \<in> set (mc_path co). length s = 32"
    and co: "co \<in> set (mo_columns pf)"
  defines "j \<equiv> unat (mc_j co)" and "col \<equiv> column p (pm_encoded pm) (unat (mc_j co))"
  shows "(mc_col co = col \<and> (\<forall>g < length claims. \<exists>geo. claim_geom p (fst (claims ! g)) = Some geo
        \<and> poly_eval (mo_u_gs pf ! g) (fp2_from_base (root_at (lp_code_len p) j))
          = (\<Sum>d<length (ge_q_row geo). ge_q_row geo ! d
              * fp2_from_base (poly_eval (message p w (pm_pads pm) (ge_row0 geo + d)) (root_at (lp_code_len p) j)))
            + mc_mask_col co ! Suc g))
    \<or> (\<exists>path. merkle_open (pm_tree pm) j = Some path
        \<and> collision_in H (col_bytes (mc_col co) # path_preimages H j (hash_leaf H (col_bytes (mc_col co))) (mc_path co))
            (col_bytes col # path_preimages H j (hash_leaf H (col_bytes col)) path))"
    (is "?bound \<or> ?collision")
proof -
  note code = params_code [OF p(1)] and com = commit_Some [OF p]
  obtain plan geoms enc_uc enc_ugs c_pows js where a: "plan_new (lp_code_len p) = Some plan"
    "those (map (claim_geom p \<circ> fst) claims) = Some geoms" "proof_shape p (length claims) pf"
    "list_all (column_shape p (length claims)) (mo_columns pf)" "those (map (encode_fp2 plan) (mo_u_gs pf)) = Some enc_ugs"
    "length js = lp_n_queries p"
    "list_all (\<lambda>(jq, co). column_ok H (cm_root com) p geoms pf c_pows enc_uc enc_ugs jq co) (zip js (mo_columns pf))"
    using ok by (rule verify_multi_open_accepts)
  have sh: "j < lp_code_len p" "length (mc_col co) = lp_rows p" using a(4) co by (auto simp: list_all_iff column_shape_def j_def)
  have "length js = length (mo_columns pf)" using a(3,6) by (simp add: proof_shape_def)
  then obtain jq where "(jq, co) \<in> set (zip js (mo_columns pf))" using co by (metis in_set_impl_in_set_zip2)
  then have ck: "column_ok H (cm_root com) p geoms pf c_pows enc_uc enc_ugs jq co" using a(7) by (auto simp: list_all_iff)
  obtain path where path: "merkle_open (pm_tree pm) j = Some path" "verify_path H (cm_root com) j (hash_leaf H (col_bytes col)) path (lp_code_bits p)"
    using com(6) [OF sh(1)] by (auto simp: opens_at_def col_def j_def)
  have "\<forall>x \<in> set path. length x = 32"
    by (rule tree_digests [OF com(4) _ dg(1) path(1)]) (auto simp: column_leaves_eq hash_leaf_def dg(1))
  then consider "mc_col co = col" | ?collision
    using column_binding [of H "cm_root com" j "mc_col co" "mc_path co" "lp_code_bits p" col path] ck path dg sh(2)
    by (auto simp: column_ok_def Let_def j_def col_def column_def)
  then show ?thesis
  proof cases
    case 1
    then show ?thesis using bound_claim [OF p(1) a(1-3,5) ck _ sh(1)] com(5) [OF sh(1)] by (simp add: j_def col_def)
  qed blast
qed

theorem multi_open_bound_witness:
  "\<exists>com pm pf v' tx' co. ligero_commit demo_node_hash demo_chacha [1, -2, 3, 4] demo_params [] = Some (com, pm)
    \<and> verify_multi_open demo_node_hash demo_chacha (cm_root com) demo_params [(demo_claim, key_of 3 demo_value)] pf (demo_ctx 2) 7 8 demo_fs
        = Some (True, v', tx')
    \<and> co \<in> set (mo_columns pf)
    \<and> (mc_col co = column demo_params (pm_encoded pm) (unat (mc_j co))
        \<or> (\<exists>path. merkle_open (pm_tree pm) (unat (mc_j co)) = Some path
            \<and> collision_in demo_node_hash (col_bytes (mc_col co)
                # path_preimages demo_node_hash (unat (mc_j co)) (hash_leaf demo_node_hash (col_bytes (mc_col co))) (mc_path co))
                (col_bytes (column demo_params (pm_encoded pm) (unat (mc_j co)))
                # path_preimages demo_node_hash (unat (mc_j co))
                    (hash_leaf demo_node_hash (col_bytes (column demo_params (pm_encoded pm) (unat (mc_j co))))) path)))"
proof -
  obtain com pm pf s' v' tx' where r: "ligero_commit demo_node_hash demo_chacha [1, -2, 3, 4] demo_params [] = Some (com, pm)"
    "verify_multi_open demo_node_hash demo_chacha (cm_root com) demo_params [(demo_claim, key_of 3 demo_value)] pf (demo_ctx 2) 7 8 demo_fs = Some (True, v', tx')"
    "\<forall>co \<in> set (mo_columns pf). merkle_open (pm_tree pm) (unat (mc_j co)) = Some (mc_path co)"
    using multi_open_run [OF demo_params_ok demo_hypotheses(3,4) zero_less_one demo_streams demo_hypotheses(5,6)
      demo_fs demo_twin demo_hypotheses(1,2), of demo_node_hash "[]" "[]"] by auto
  have h: "\<And>x. length (b3_hash demo_node_hash x) = 32" by (simp add: demo_node_hash_def)
  have "length (mo_columns pf) = 1" using r(2) by (rule verify_multi_open_accepts) (simp add: proof_shape_def demo_params_def)
  then obtain co where co: "co \<in> set (mo_columns pf)" by (cases "mo_columns pf") auto
  then have "\<forall>s \<in> set (mc_path co). length s = 32"
    using tree_digests [OF commit_Some(4) [OF demo_params_ok r(1)] _ h] r(3) by (auto simp: column_leaves_eq hash_leaf_def h)
  then show ?thesis using multi_open_bound [OF demo_params_ok r(1,2) h _ co] r(1,2) co by blast
qed

end
