(* ===== verification/Ligero_Codec.thy ===== *)
theory Ligero_Codec
  imports Ligero Wire_Codec
begin

text \<open>
  The canonical wire image of a multi-claim opening (\<^verbatim>\<open>volta-pcs/src/ligero.rs\<close>): the byte census,
  the encoder, whose geometry comes from the public statement and carries no lengths, and the strict decoder.
  The accepted byte strings are exactly the encodings of well-formed proofs, and the census is exact.
\<close>

section \<open>The byte census\<close>

record byte_breakdown =
  bb_mask_root :: u64
  bb_u_vectors :: u64
  bb_corr_ss :: u64
  bb_zero_batch :: u64
  bb_column_indices :: u64
  bb_data_columns :: u64
  bb_mask_columns :: u64
  bb_commitment_merkle_paths :: u64
  bb_mask_merkle_paths :: u64
  bb_columns_total :: u64
  bb_total :: u64
  bb_cached_query_cut_bytes :: u64
  bb_cached_query_marginal_bytes :: u64

definition zero_breakdown :: byte_breakdown where
  "zero_breakdown = \<lparr>bb_mask_root = 0, bb_u_vectors = 0, bb_corr_ss = 0, bb_zero_batch = 0, bb_column_indices = 0,
     bb_data_columns = 0, bb_mask_columns = 0, bb_commitment_merkle_paths = 0, bb_mask_merkle_paths = 0,
     bb_columns_total = 0, bb_total = 0, bb_cached_query_cut_bytes = 0, bb_cached_query_marginal_bytes = 0\<rparr>"

definition fill_totals :: "byte_breakdown \<Rightarrow> byte_breakdown" where
  "fill_totals b =
     (let b = b\<lparr>bb_columns_total := bb_column_indices b + bb_data_columns b + bb_mask_columns b
                  + bb_commitment_merkle_paths b + bb_mask_merkle_paths b\<rparr>;
          b = b\<lparr>bb_total := bb_mask_root b + bb_u_vectors b + bb_corr_ss b + bb_zero_batch b + bb_columns_total b\<rparr>;
          b = b\<lparr>bb_cached_query_cut_bytes := bb_data_columns b + bb_commitment_merkle_paths b\<rparr>
      in b\<lparr>bb_cached_query_marginal_bytes := bb_total b - bb_cached_query_cut_bytes b\<rparr>)"

definition projected_multi_open_bytes :: "ligero_params \<Rightarrow> nat \<Rightarrow> byte_breakdown option" where
  "projected_multi_open_bytes p n_claims =
     (if lp_validate p \<and> 0 < n_claims
      then let queries = word_of_nat (lp_n_queries p) in
        Some (fill_totals (zero_breakdown\<lparr>bb_mask_root := 32,
          bb_u_vectors := 16 * word_of_nat (lp_msg_len p) * (word_of_nat n_claims + 1),
          bb_corr_ss := 16 * word_of_nat n_claims, bb_zero_batch := 32, bb_column_indices := 4 * queries,
          bb_data_columns := 8 * word_of_nat (lp_rows p) * queries,
          bb_mask_columns := 16 * (word_of_nat n_claims + 1) * queries,
          bb_commitment_merkle_paths := 32 * word_of_nat (lp_code_bits p) * queries,
          bb_mask_merkle_paths := 32 * word_of_nat (lp_code_bits p) * queries\<rparr>))
      else None)"

definition count_column :: "byte_breakdown \<Rightarrow> multi_column \<Rightarrow> byte_breakdown" where
  "count_column b c =
     b\<lparr>bb_column_indices := bb_column_indices b + 4,
       bb_data_columns := bb_data_columns b + 8 * word_of_nat (length (mc_col c)),
       bb_mask_columns := bb_mask_columns b + 16 * word_of_nat (length (mc_mask_col c)),
       bb_commitment_merkle_paths := bb_commitment_merkle_paths b + 32 * word_of_nat (length (mc_path c)),
       bb_mask_merkle_paths := bb_mask_merkle_paths b + 32 * word_of_nat (length (mc_mask_path c))\<rparr>"

definition proof_breakdown :: "multi_open_proof \<Rightarrow> byte_breakdown" where
  "proof_breakdown pf =
     fill_totals (foldl count_column
       (zero_breakdown\<lparr>bb_mask_root := 32,
          bb_u_vectors := 16 * word_of_nat (length (mo_u_c pf) + sum_list (map length (mo_u_gs pf))),
          bb_corr_ss := 16 * word_of_nat (length (mo_corr_ss pf)), bb_zero_batch := 32\<rparr>)
       (mo_columns pf))"

definition proof_bytes :: "multi_open_proof \<Rightarrow> u64" where
  "proof_bytes pf = bb_total (proof_breakdown pf)"

definition proof_cached_marginal :: "multi_open_proof \<Rightarrow> u64" where
  "proof_cached_marginal pf = bb_cached_query_marginal_bytes (proof_breakdown pf)"

section \<open>The encoder\<close>

definition encode_columns :: "ligero_params \<Rightarrow> nat \<Rightarrow> multi_column list \<Rightarrow> bytes \<Rightarrow> string + bytes" where
  "encode_columns p n_claims columns =
     try_fold (\<lambda>c bs. if \<not> column_shape p n_claims c then Inl ''C4.1 PCS column geometry differs''
                      else Inr (bs @ column_wire c)) columns"

definition encode_multi_open_canonical :: "multi_open_proof \<Rightarrow> ligero_params \<Rightarrow> nat \<Rightarrow> (string + bytes) option" where
  "encode_multi_open_canonical pf p n_claims =
     (if \<not> lp_validate p then None
      else if \<not> proof_shape p n_claims pf then Some (Inl ''C4.1 PCS proof geometry differs'')
      else do {
        breakdown \<leftarrow> projected_multi_open_bytes p n_claims;
        let expected = bb_total breakdown;
        Some (ok_then (encode_columns p n_claims (mo_columns pf)
                (mo_mask_root pf @ concat (map fp2_bytes (mo_u_c pf)) @ concat (map (concat \<circ> map fp2_bytes) (mo_u_gs pf))
                 @ concat (map fp2_bytes (mo_corr_ss pf)) @ fp2_bytes (mo_mask_corr pf) @ fp2_bytes (mo_m_z pf)))
              (\<lambda>bs. if word_of_nat (length bs) \<noteq> expected \<or> proof_bytes pf \<noteq> expected
                    then Inl ''C4.1 PCS wire census differs'' else Inr bs)) })"

section \<open>The decoder\<close>

abbreviation open_truncated :: string where
  "open_truncated \<equiv> ''truncated C4.1 PCS proof''"

abbreviation open_noncanonical :: string where
  "open_noncanonical \<equiv> ''noncanonical C4.1 PCS field element''"

abbreviation open_fp :: "(string, fp) reader" where "open_fp \<equiv> read_fp open_truncated open_noncanonical"
abbreviation open_fp2 :: "(string, fp2) reader" where "open_fp2 \<equiv> read_fp2 open_truncated open_noncanonical"
abbreviation open_hash :: "(string, hash) reader" where "open_hash \<equiv> read_take open_truncated 32"

definition read_column :: "ligero_params \<Rightarrow> nat \<Rightarrow> (string, multi_column) reader" where
  "read_column p n_claims bs =
     ok_then (read_u32 open_truncated bs) (\<lambda>(j, bs).
     ok_then (read_n (lp_rows p) open_fp bs) (\<lambda>(col, bs).
     ok_then (read_n (Suc n_claims) open_fp2 bs) (\<lambda>(mask_col, bs).
     ok_then (read_n (lp_code_bits p) open_hash bs) (\<lambda>(path, bs).
     ok_then (read_n (lp_code_bits p) open_hash bs) (\<lambda>(mask_path, bs).
     Inr (\<lparr>mc_j = j, mc_col = col, mc_mask_col = mask_col, mc_path = path, mc_mask_path = mask_path\<rparr>, bs))))))"

definition read_proof :: "ligero_params \<Rightarrow> nat \<Rightarrow> (string, multi_open_proof) reader" where
  "read_proof p n_claims bs =
     ok_then (open_hash bs) (\<lambda>(mask_root, bs).
     ok_then (read_n (lp_msg_len p) open_fp2 bs) (\<lambda>(u_c, bs).
     ok_then (read_n n_claims (read_n (lp_msg_len p) open_fp2) bs) (\<lambda>(u_gs, bs).
     ok_then (read_n n_claims open_fp2 bs) (\<lambda>(corr_ss, bs).
     ok_then (open_fp2 bs) (\<lambda>(mask_corr, bs).
     ok_then (open_fp2 bs) (\<lambda>(m_z, bs).
     ok_then (read_n (lp_n_queries p) (read_column p n_claims) bs) (\<lambda>(columns, bs).
     Inr (\<lparr>mo_mask_root = mask_root, mo_u_c = u_c, mo_u_gs = u_gs, mo_corr_ss = corr_ss, mo_mask_corr = mask_corr,
           mo_m_z = m_z, mo_columns = columns\<rparr>, bs))))))))"

text \<open>The reader's \<^verbatim>\<open>offset\<close> is at the end exactly when nothing is left unread.\<close>

definition decode_multi_open_canonical :: "bytes \<Rightarrow> ligero_params \<Rightarrow> nat \<Rightarrow> (string + multi_open_proof) option" where
  "decode_multi_open_canonical bs p n_claims =
     (if \<not> lp_validate p then None
      else if n_claims = 0 then Some (Inl ''C4.1 PCS encoded length differs'')
      else do {
        breakdown \<leftarrow> projected_multi_open_bytes p n_claims;
        if word_of_nat (length bs) \<noteq> bb_total breakdown then Some (Inl ''C4.1 PCS encoded length differs'')
        else (case read_proof p n_claims bs of
          Inl e \<Rightarrow> Some (Inl e)
        | Inr (pf, rest) \<Rightarrow>
            if rest \<noteq> [] then Some (Inl ''trailing C4.1 PCS proof bytes'')
            else do {
              image \<leftarrow> encode_multi_open_canonical pf p n_claims;
              Some (ok_then image (\<lambda>again. if again \<noteq> bs then Inl ''noncanonical C4.1 PCS proof encoding'' else Inr pf)) }) })"

section \<open>The column codec\<close>

text \<open>The lengths that the types of the source and the geometry fix.\<close>

definition column_lengths :: "ligero_params \<Rightarrow> nat \<Rightarrow> multi_column \<Rightarrow> bool" where
  "column_lengths p n c \<longleftrightarrow> length (mc_col c) = lp_rows p \<and> length (mc_mask_col c) = n + 1
     \<and> length (mc_path c) = lp_code_bits p \<and> length (mc_mask_path c) = lp_code_bits p
     \<and> list_all (\<lambda>h. length h = 32) (mc_path c) \<and> list_all (\<lambda>h. length h = 32) (mc_mask_path c)"

lemmas reader_iffs = ok_then_Inr wire_u32.dec_iff wire_fp2.dec_iff wire_bytes.dec_iff
  wire_fp.read_n_iff wire_fp2.read_n_iff wire_bytes.read_n_iff

lemmas reader_encs = wire_u32.dec_enc wire_fp2.dec_enc wire_bytes.dec_enc
  wire_fp.read_n_enc wire_fp2.read_n_enc wire_bytes.read_n_enc [unfolded map_ident]

interpretation column_codec: codec column_wire "read_column p n" "column_lengths p n"
proof unfold_locales
  show "read_column p n (column_wire c @ r) = Inr (c, r)" if "column_lengths p n c" for c r
    using that by (simp add: read_column_def column_wire_def column_lengths_def reader_encs list_all_iff del: read_n.simps)
  show "column_lengths p n c \<and> bs = column_wire c @ r" if "read_column p n bs = Inr (c, r)" for bs c r
    using that by (auto simp: read_column_def column_wire_def column_lengths_def reader_iffs list_all_iff)
qed

section \<open>The proof codec\<close>

definition proof_lengths :: "ligero_params \<Rightarrow> nat \<Rightarrow> multi_open_proof \<Rightarrow> bool" where
  "proof_lengths p n pf \<longleftrightarrow> length (mo_mask_root pf) = 32 \<and> length (mo_u_c pf) = lp_msg_len p \<and> length (mo_u_gs pf) = n
     \<and> (\<forall>u \<in> set (mo_u_gs pf). length u = lp_msg_len p) \<and> length (mo_corr_ss pf) = n
     \<and> length (mo_columns pf) = lp_n_queries p \<and> list_all (column_lengths p n) (mo_columns pf)"

definition proof_wire :: "multi_open_proof \<Rightarrow> bytes" where
  "proof_wire pf = mo_mask_root pf @ concat (map fp2_bytes (mo_u_c pf)) @ concat (map (concat \<circ> map fp2_bytes) (mo_u_gs pf))
     @ concat (map fp2_bytes (mo_corr_ss pf)) @ fp2_bytes (mo_mask_corr pf) @ fp2_bytes (mo_m_z pf)
     @ concat (map column_wire (mo_columns pf))"

text \<open>A vector of field vectors is again a codec.\<close>

interpretation vectors_codec: codec "\<lambda>xs. concat (map fp2_bytes xs)" "read_n k open_fp2" "\<lambda>xs. length xs = k"
  using wire_fp2.vec_codec [of k open_truncated open_noncanonical] by (simp add: list_all_iff)

interpretation proof_codec: codec proof_wire "read_proof p n" "proof_lengths p n"
proof unfold_locales
  show "read_proof p n (proof_wire pf @ r) = Inr (pf, r)" if "proof_lengths p n pf" for pf r
    using that by (simp add: read_proof_def proof_wire_def proof_lengths_def reader_encs column_codec.read_n_enc
        vectors_codec.read_n_enc [unfolded comp_def] list_all_iff comp_def del: read_n.simps)
  show "proof_lengths p n pf \<and> bs = proof_wire pf @ r" if "read_proof p n bs = Inr (pf, r)" for bs pf r
    using that by (auto simp: read_proof_def proof_wire_def proof_lengths_def reader_iffs column_codec.read_n_iff
        vectors_codec.read_n_iff list_all_iff comp_def)
qed

section \<open>The census is exact\<close>

lemma foldl_count:
  assumes "\<forall>c \<in> set cs. column_lengths p n c"
  shows "foldl count_column b cs = b\<lparr>bb_column_indices := bb_column_indices b + 4 * word_of_nat (length cs),
       bb_data_columns := bb_data_columns b + 8 * word_of_nat (lp_rows p) * word_of_nat (length cs),
       bb_mask_columns := bb_mask_columns b + 16 * (word_of_nat n + 1) * word_of_nat (length cs),
       bb_commitment_merkle_paths := bb_commitment_merkle_paths b + 32 * word_of_nat (lp_code_bits p) * word_of_nat (length cs),
       bb_mask_merkle_paths := bb_mask_merkle_paths b + 32 * word_of_nat (lp_code_bits p) * word_of_nat (length cs)\<rparr>"
  using assms
proof (induction cs arbitrary: b)
  case (Cons c cs)
  then show ?case by (simp add: count_column_def column_lengths_def algebra_simps)
qed simp

lemma proof_census:
  assumes "proof_lengths p n pf" "projected_multi_open_bytes p n = Some b"
  shows "proof_breakdown pf = b"
proof -
  have "sum_list (map length (mo_u_gs pf)) = n * lp_msg_len p"
    using assms(1) sum_list_const [of "mo_u_gs pf" length "lp_msg_len p"] by (simp add: proof_lengths_def)
  then show ?thesis using assms foldl_count [of "mo_columns pf" p n]
    by (auto simp: proof_breakdown_def projected_multi_open_bytes_def proof_lengths_def list_all_iff Let_def
        zero_breakdown_def algebra_simps split: if_splits)
qed

lemma length_fp2_bytes [simp]: "length (fp2_bytes x) = 16"
  by (simp add: fp2_bytes_def fp_bytes_def)

lemma length_fp_bytes [simp]: "length (fp_bytes x) = 8"
  by (simp add: fp_bytes_def)

lemma length_concat_const: "(\<And>x. x \<in> set xs \<Longrightarrow> length (f x) = c) \<Longrightarrow> length (concat (map f xs)) = length xs * c"
  by (induction xs) simp_all

lemma column_wire_length: "column_lengths p n c \<Longrightarrow> length (column_wire c) = 4 + 8 * lp_rows p + 16 * (n + 1) + 64 * lp_code_bits p"
  using length_concat_const [of "mc_path c" "\<lambda>h. h" 32] length_concat_const [of "mc_mask_path c" "\<lambda>h. h" 32]
  by (simp add: column_wire_def column_lengths_def list_all_iff length_concat_const [of _ fp_bytes 8] length_concat_const [of _ fp2_bytes 16])

lemma proof_wire_length:
  assumes "proof_lengths p n pf"
  shows "length (proof_wire pf) = 64 + 16 * (lp_msg_len p * (n + 1)) + 16 * n
    + lp_n_queries p * (4 + 8 * lp_rows p + 16 * (n + 1) + 64 * lp_code_bits p)"
proof -
  have "length (concat (map (concat \<circ> map fp2_bytes) (mo_u_gs pf))) = n * (lp_msg_len p * 16)"
    using assms length_concat_const [of "mo_u_gs pf" "concat \<circ> map fp2_bytes" "lp_msg_len p * 16"] length_concat_const [of _ fp2_bytes 16]
    by (auto simp: proof_lengths_def)
  moreover have "length (concat (map column_wire (mo_columns pf))) = lp_n_queries p * (4 + 8 * lp_rows p + 16 * (n + 1) + 64 * lp_code_bits p)"
    using assms length_concat_const [of "mo_columns pf" column_wire] column_wire_length by (simp add: proof_lengths_def list_all_iff)
  ultimately show ?thesis using assms
    by (simp add: proof_wire_def proof_lengths_def length_concat_const [of _ fp2_bytes 16] algebra_simps)
qed

lemma proof_wire_census:
  assumes "proof_lengths p n pf" "projected_multi_open_bytes p n = Some b"
  shows "word_of_nat (length (proof_wire pf)) = bb_total b"
  using assms
  by (auto simp: proof_wire_length projected_multi_open_bytes_def fill_totals_def zero_breakdown_def Let_def algebra_simps split: if_splits)

section \<open>The canonical image\<close>

definition proof_wf :: "ligero_params \<Rightarrow> nat \<Rightarrow> multi_open_proof \<Rightarrow> bool" where
  "proof_wf p n pf \<longleftrightarrow> n \<noteq> 0 \<and> proof_lengths p n pf \<and> list_all (\<lambda>c. unat (mc_j c) < lp_code_len p) (mo_columns pf)"

lemma encode_columns_eq:
  "list_all (column_shape p n) cs \<Longrightarrow> encode_columns p n cs bs = Inr (bs @ concat (map column_wire cs))"
  by (induction cs arbitrary: bs) (simp_all add: encode_columns_def)

lemma encode_wf:
  assumes "lp_validate p" "proof_wf p n pf"
  shows "encode_multi_open_canonical pf p n = Some (Inr (proof_wire pf))"
proof -
  have l: "proof_lengths p n pf" "n \<noteq> 0" using assms(2) by (simp_all add: proof_wf_def)
  obtain b where b: "projected_multi_open_bytes p n = Some b" using assms(1) l(2) by (simp add: projected_multi_open_bytes_def Let_def)
  have "list_all (column_shape p n) (mo_columns pf)" "proof_shape p n pf"
    using assms(2) by (auto simp: proof_wf_def proof_lengths_def proof_shape_def column_shape_def column_lengths_def list_all_iff)
  moreover have "word_of_nat (length (proof_wire pf)) = bb_total b" "proof_bytes pf = bb_total b"
    using proof_wire_census [OF l(1) b] proof_census [OF l(1) b] by (simp_all add: proof_bytes_def)
  ultimately show ?thesis using assms(1) b
    by (simp add: encode_multi_open_canonical_def encode_columns_eq proof_wire_def)
qed

lemma decode_wf:
  assumes "lp_validate p"
  shows "decode_multi_open_canonical bs p n = Some (Inr pf) \<longleftrightarrow> proof_wf p n pf \<and> bs = proof_wire pf"
proof
  assume d: "decode_multi_open_canonical bs p n = Some (Inr pf)"
  have r: "n \<noteq> 0" "read_proof p n bs = Inr (pf, [])" "encode_multi_open_canonical pf p n = Some (Inr bs)"
    using d by (auto simp: decode_multi_open_canonical_def ok_then_Inr split: if_splits Option.bind_splits sum.splits)
  have "proof_lengths p n pf" "bs = proof_wire pf" using proof_codec.dec_Inr [OF r(2)] by simp_all
  moreover have "list_all (\<lambda>c. unat (mc_j c) < lp_code_len p) (mo_columns pf)"
  proof -
    have "\<exists>bs bs'. encode_columns p n (mo_columns pf) bs = Inr bs'"
      using r(3) by (auto simp: encode_multi_open_canonical_def ok_then_Inr Let_def split: if_splits Option.bind_splits)
    moreover have "encode_columns p n cs bs = Inr bs' \<Longrightarrow> list_all (column_shape p n) cs" for cs bs bs'
      by (induction cs arbitrary: bs) (auto simp: encode_columns_def ok_then_Inr split: if_splits)
    ultimately show ?thesis by (fastforce simp: list_all_iff column_shape_def)
  qed
  ultimately show "proof_wf p n pf \<and> bs = proof_wire pf" using r(1) by (simp add: proof_wf_def)
next
  assume w: "proof_wf p n pf \<and> bs = proof_wire pf"
  then have l: "proof_lengths p n pf" "n \<noteq> 0" by (simp_all add: proof_wf_def)
  obtain b where b: "projected_multi_open_bytes p n = Some b" using assms l(2) by (simp add: projected_multi_open_bytes_def Let_def)
  then show "decode_multi_open_canonical bs p n = Some (Inr pf)"
    using w assms l encode_wf [of p n pf] proof_wire_census [OF l(1) b] proof_codec.dec_enc [OF l(1), of "[]"]
    by (simp add: decode_multi_open_canonical_def)
qed

text \<open>
  C36. The wire image of an opening is canonical: the decoder accepts a byte string exactly when it is the
  encoding of the proof that it returns, with the digests and the geometry that the statement fixes; every
  well-formed proof has an encoding, decoding returns the proof, and the number of bytes is the projected census.
\<close>

theorem multi_open_codec:
  assumes "lp_validate p"
  shows "(decode_multi_open_canonical bs p n = Some (Inr pf)
      \<longleftrightarrow> proof_wf p n pf \<and> encode_multi_open_canonical pf p n = Some (Inr bs))
    \<and> (proof_wf p n pf \<longrightarrow> (\<exists>image b. encode_multi_open_canonical pf p n = Some (Inr image)
        \<and> decode_multi_open_canonical image p n = Some (Inr pf)
        \<and> projected_multi_open_bytes p n = Some b \<and> proof_breakdown pf = b \<and> word_of_nat (length image) = bb_total b
        \<and> length image = 64 + 16 * (lp_msg_len p * (n + 1)) + 16 * n
            + lp_n_queries p * (4 + 8 * lp_rows p + 16 * (n + 1) + 64 * lp_code_bits p)))"
proof -
  have "\<exists>b. projected_multi_open_bytes p n = Some b \<and> proof_breakdown pf = b \<and> word_of_nat (length (proof_wire pf)) = bb_total b"
    if "proof_wf p n pf"
    using that assms proof_census [of p n pf] proof_wire_census [of p n pf]
    by (auto simp: proof_wf_def projected_multi_open_bytes_def Let_def)
  then show ?thesis using encode_wf [OF assms] decode_wf [OF assms] proof_wire_length by (auto simp: proof_wf_def)
qed

definition demo_code_params :: ligero_params where
  "demo_code_params = \<lparr>lp_rows = 1, lp_col_bits = 0, lp_pad = 1, lp_code_bits = 1, lp_n_queries = 1\<rparr>"

definition demo_proof :: multi_open_proof where
  "demo_proof = \<lparr>mo_mask_root = replicate 32 2, mo_u_c = [1, 2], mo_u_gs = [[3, 4]], mo_corr_ss = [5], mo_mask_corr = 6, mo_m_z = 7,
     mo_columns = [\<lparr>mc_j = 1, mc_col = [8], mc_mask_col = [9, 10], mc_path = [replicate 32 0], mc_mask_path = [replicate 32 1]\<rparr>]\<rparr>"

theorem multi_open_codec_witness:
  "\<exists>image. encode_multi_open_canonical demo_proof demo_code_params 1 = Some (Inr image)
    \<and> decode_multi_open_canonical image demo_code_params 1 = Some (Inr demo_proof) \<and> length image = 252"
proof -
  have v: "lp_validate demo_code_params"
    by (simp add: lp_validate_def demo_code_params_def lp_msg_len_def lp_cols_def lp_code_len_def)
  have "proof_wf demo_code_params 1 demo_proof"
    by (simp add: proof_wf_def proof_lengths_def column_lengths_def demo_proof_def demo_code_params_def
        lp_msg_len_def lp_cols_def lp_code_len_def)
  then show ?thesis using multi_open_codec [OF v, of "[]" 1 demo_proof]
    by (auto simp: demo_code_params_def lp_msg_len_def lp_cols_def)
qed

end
