(* ===== verification/Layer_Layout.thy ===== *)
theory Layer_Layout
  imports Ligero_Open
begin

text \<open>
  The placement of the weight tensors in the committed vector (\<^verbatim>\<open>volta-pcs/src/layer_layout.rs\<close>): every
  tensor is padded to a block of power-of-two sides, and the blocks are placed largest first. The blocks are
  aligned to their size, disjoint and inside the vector, and a claim on a tensor at a point is the claim on its
  block that the opening of \<^verbatim>\<open>Ligero\<close> takes. Sizes are \<^verbatim>\<open>usize\<close> values, whose arithmetic wraps at \<open>2 ^ 64\<close>: a padded block
  can wrap to length zero, which makes the alignment assertion panic, and the offsets of a layout are right only where their sum does not wrap.
  Fixed-size arrays are lists; the cost projection is not modelled.
\<close>

section \<open>Parameter sets\<close>

definition P4_LAYER :: ligero_params where
  "P4_LAYER = \<lparr>lp_rows = 2 ^ 10, lp_col_bits = 14, lp_pad = 512, lp_code_bits = 15, lp_n_queries = 200\<rparr>"

definition C3_WEIGHTS :: ligero_params where
  "C3_WEIGHTS = \<lparr>lp_rows = 24576, lp_col_bits = 13, lp_pad = 512, lp_code_bits = 15, lp_n_queries = 120\<rparr>"

definition C3_EMBED :: ligero_params where
  "C3_EMBED = \<lparr>lp_rows = 2080, lp_col_bits = 15, lp_pad = 512, lp_code_bits = 17, lp_n_queries = 120\<rparr>"

definition C4_WEIGHTS :: ligero_params where
  "C4_WEIGHTS = \<lparr>lp_rows = 24576, lp_col_bits = 13, lp_pad = 512, lp_code_bits = 16, lp_n_queries = 97\<rparr>"

definition C4_EMBED :: ligero_params where
  "C4_EMBED = \<lparr>lp_rows = 2080, lp_col_bits = 15, lp_pad = 512, lp_code_bits = 18, lp_n_queries = 97\<rparr>"

section \<open>Slots and layouts\<close>

text \<open>The wrapping arithmetic of \<^verbatim>\<open>usize\<close> in a release build; \<^verbatim>\<open>next_power_of_two\<close> wraps to zero there, too.\<close>

definition usize :: "nat \<Rightarrow> nat" where
  "usize x = x mod 2 ^ 64"

record tensor_slot =
  sl_k :: nat
  sl_n :: nat
  sl_k_pad :: nat
  sl_n_pad :: nat
  sl_offset :: nat
  sl_block_len :: nat

definition point_len :: "tensor_slot \<Rightarrow> nat" where
  "point_len t = trailing_zeros (sl_block_len t)"

definition new_slot :: "nat \<times> nat \<Rightarrow> tensor_slot" where
  "new_slot = (\<lambda>(k, n). let k_pad = usize (next_power_of_two k); n_pad = usize (next_power_of_two n)
     in \<lparr>sl_k = k, sl_n = n, sl_k_pad = k_pad, sl_n_pad = n_pad, sl_offset = 0, sl_block_len = usize (k_pad * n_pad)\<rparr>)"

record weight_layout =
  wl_tensors :: "tensor_slot list"
  wl_total_len :: nat

text \<open>The stable sort by \<^verbatim>\<open>Reverse(block_len)\<close>.\<close>

definition placement_order :: "tensor_slot list \<Rightarrow> nat list" where
  "placement_order ts = sort_key (\<lambda>i. - int (sl_block_len (ts ! i))) [0..<length ts]"

fun assign_offsets :: "nat list \<Rightarrow> tensor_slot list \<Rightarrow> nat \<Rightarrow> tensor_slot list \<times> nat" where
  "assign_offsets [] ts cursor = (ts, cursor)"
| "assign_offsets (i # is) ts cursor =
     assign_offsets is (ts[i := (ts ! i)\<lparr>sl_offset := cursor\<rparr>]) (usize (cursor + sl_block_len (ts ! i)))"

text \<open>The alignment assertion; a remainder by zero panics as well.\<close>

definition aligned :: "tensor_slot \<Rightarrow> bool" where
  "aligned t \<longleftrightarrow> sl_block_len t \<noteq> 0 \<and> sl_offset t mod sl_block_len t = 0"

definition for_shapes_with_outer_padding :: "(nat \<times> nat) list \<Rightarrow> bool \<Rightarrow> weight_layout option" where
  "for_shapes_with_outer_padding shapes pad_outer =
     (let ts = map new_slot shapes;
          (ts, cursor) = assign_offsets (placement_order ts) ts 0;
          total_len = (if pad_outer then usize (next_power_of_two cursor) else cursor)
      in if list_all aligned ts
         then Some \<lparr>wl_tensors = ts, wl_total_len = total_len\<rparr> else None)"

definition for_shapes2 :: "(nat \<times> nat) list \<Rightarrow> weight_layout option" where
  "for_shapes2 shapes = for_shapes_with_outer_padding shapes True"

definition for_shapes_exact :: "(nat \<times> nat) list \<Rightarrow> weight_layout option" where
  "for_shapes_exact shapes = for_shapes_with_outer_padding shapes False"

text \<open>The four-tensor layout is the same construction on an array.\<close>

definition for_shapes4 :: "(nat \<times> nat) \<times> (nat \<times> nat) \<times> (nat \<times> nat) \<times> (nat \<times> nat) \<Rightarrow> weight_layout option" where
  "for_shapes4 = (\<lambda>(a, b, c, d).
     let ts = map new_slot [a, b, c, d];
         (ts, cursor) = assign_offsets (placement_order ts) ts 0
     in if list_all aligned ts
        then Some \<lparr>wl_tensors = ts, wl_total_len = usize (next_power_of_two cursor)\<rparr> else None)"

text \<open>The range \<^verbatim>\<open>xs[lo..hi]\<close>, and \<^verbatim>\<open>w[lo..hi].copy_from_slice(xs)\<close>, which panics also when the lengths differ.\<close>

definition sub_slice :: "nat \<Rightarrow> nat \<Rightarrow> 'a list \<Rightarrow> 'a list option" where
  "sub_slice lo hi xs = (if lo \<le> hi then slice lo (hi - lo) xs else None)"

definition copy_from_slice :: "nat \<Rightarrow> nat \<Rightarrow> 'a list \<Rightarrow> 'a list \<Rightarrow> 'a list option" where
  "copy_from_slice lo hi xs w =
     (if lo \<le> hi \<and> hi \<le> length w \<and> length xs = hi - lo then Some (take lo w @ xs @ drop hi w) else None)"

definition place_row :: "tensor_slot \<Rightarrow> int list \<Rightarrow> nat \<Rightarrow> int list \<Rightarrow> int list option" where
  "place_row t src l w =
     do { let lo = usize (sl_offset t + usize (l * sl_n_pad t));
          row \<leftarrow> sub_slice (usize (l * sl_n t)) (usize ((l + 1) * sl_n t)) src;
          copy_from_slice lo (usize (lo + sl_n t)) row w }"

definition place_tensor :: "tensor_slot \<times> int list \<Rightarrow> int list \<Rightarrow> int list option" where
  "place_tensor = (\<lambda>(t, src) w.
     if length src = usize (sl_k t * sl_n t) then fold_opt (place_row t src) [0..<sl_k t] w else None)"

text \<open>A vector of more than \<^verbatim>\<open>isize::MAX\<close> bytes is a panic of the allocation.\<close>

definition place :: "weight_layout \<Rightarrow> int list list \<Rightarrow> int list option" where
  "place L tensors =
     (if length tensors = length (wl_tensors L) \<and> 2 * wl_total_len L < 2 ^ 63
      then fold_opt place_tensor (zip (wl_tensors L) tensors) (replicate (wl_total_len L) 0) else None)"

definition layout_block_claim :: "weight_layout \<Rightarrow> nat \<Rightarrow> fp2 list \<Rightarrow> block_claim option" where
  "layout_block_claim L i point =
     do { t \<leftarrow> get (wl_tensors L) i;
          if length point = point_len t then Some \<lparr>bc_offset = sl_offset t, bc_point = point\<rparr> else None }"

section \<open>The model layout\<close>

definition layout_gpt2_layer :: "weight_layout option" where
  "layout_gpt2_layer = for_shapes4 ((768, 4096), (768, 768), (768, 3072), (3072, 768))"

record model_layout =
  ml_layer :: weight_layout
  ml_layer_stride :: nat
  ml_layers :: nat
  ml_total_len :: nat

definition place_layer :: "model_layout \<Rightarrow> nat \<Rightarrow> int list list \<Rightarrow> int list \<Rightarrow> int list option" where
  "place_layer M layer tensors dst =
     (if layer < ml_layers M \<and> length dst = ml_total_len M
      then do { placed \<leftarrow> place (ml_layer M) tensors;
                let offset = usize (layer * ml_layer_stride M);
                copy_from_slice offset (usize (offset + ml_layer_stride M)) placed dst }
      else None)"

definition model_block_claim :: "model_layout \<Rightarrow> nat \<Rightarrow> nat \<Rightarrow> fp2 list \<Rightarrow> block_claim option" where
  "model_block_claim M layer tensor point =
     (if layer < ml_layers M
      then map_option (\<lambda>c. c\<lparr>bc_offset := usize (bc_offset c + usize (layer * ml_layer_stride M))\<rparr>) (layout_block_claim (ml_layer M) tensor point)
      else None)"

definition layout_gpt2_weights_c3 :: "model_layout option" where
  "layout_gpt2_weights_c3 =
     do { layer \<leftarrow> layout_gpt2_layer;
          Some \<lparr>ml_layer = layer, ml_layer_stride = 2 ^ 24, ml_layers = 12, ml_total_len = 12 * 2 ^ 24\<rparr> }"

definition layout_gpt2_embed :: "weight_layout option" where
  "layout_gpt2_embed = for_shapes2 [(50257, 768), (1024, 768)]"

definition layout_gpt2_embed_c3 :: "weight_layout option" where
  "layout_gpt2_embed_c3 = for_shapes_exact [(50257, 768), (1024, 768)]"

section \<open>Offsets\<close>

lemma usize_small [simp]: "x < 2 ^ 64 \<Longrightarrow> usize x = x"
  by (simp add: usize_def)

lemma usize_less [simp]: "usize x < 2 ^ 64" "usize x < 18446744073709551616"
  by (simp_all add: usize_def)

lemma usize_usize [simp]: "usize (usize a + b) = usize (a + b)" "usize (a + usize b) = usize (a + b)" "usize (usize a * usize b) = usize (a * b)"
  by (simp_all add: usize_def mod_simps)

lemma length_assign [simp]: "length (fst (assign_offsets is ts c)) = length ts"
  by (induction "is" ts c rule: assign_offsets.induct) simp_all

lemma assign_offsets_spec:
  assumes "distinct is" "\<forall>i \<in> set is. i < length ts" "c < 2 ^ 64"
  shows "snd (assign_offsets is ts c) = usize (c + sum_list (map (\<lambda>i. sl_block_len (ts ! i)) is))
    \<and> (\<forall>i < length ts. i \<notin> set is \<longrightarrow> fst (assign_offsets is ts c) ! i = ts ! i)
    \<and> (\<forall>a < length is. fst (assign_offsets is ts c) ! (is ! a)
          = (ts ! (is ! a))\<lparr>sl_offset := usize (c + sum_list (map (\<lambda>i. sl_block_len (ts ! i)) (take a is)))\<rparr>)"
  using assms
proof (induction "is" ts c rule: assign_offsets.induct)
  case (2 i "is" ts c)
  let ?ts = "ts[i := (ts ! i)\<lparr>sl_offset := c\<rparr>]" and ?c = "usize (c + sl_block_len (ts ! i))"
  have i: "i \<notin> set is" "i < length ts" using 2(2,3) by auto
  have bl: "map (\<lambda>j. sl_block_len (?ts ! j)) js = map (\<lambda>j. sl_block_len (ts ! j)) js" for js
    using i(2) by (auto simp: nth_list_update)
  have IH: "snd (assign_offsets is ?ts ?c) = usize (?c + sum_list (map (\<lambda>i. sl_block_len (ts ! i)) is))"
    "\<And>j. j < length ts \<Longrightarrow> j \<notin> set is \<Longrightarrow> fst (assign_offsets is ?ts ?c) ! j = ?ts ! j"
    "\<And>a. a < length is \<Longrightarrow> fst (assign_offsets is ?ts ?c) ! (is ! a)
          = (?ts ! (is ! a))\<lparr>sl_offset := usize (?c + sum_list (map (\<lambda>i. sl_block_len (ts ! i)) (take a is)))\<rparr>"
    using 2(1) 2(2,3) unfolding bl by auto
  have "fst (assign_offsets (i # is) ts c) ! ((i # is) ! a)
      = (ts ! ((i # is) ! a))\<lparr>sl_offset := usize (c + sum_list (map (\<lambda>i. sl_block_len (ts ! i)) (take a (i # is))))\<rparr>"
    if a: "a < length (i # is)" for a
  proof (cases a)
    case 0
    then show ?thesis using IH(2) [OF i(2,1)] i(2) 2(4) by simp
  next
    case (Suc b)
    then have "is ! b \<noteq> i" using a i(1) by auto
    then show ?thesis using IH(3) [of b] a Suc by (simp add: add.assoc)
  qed
  then show ?case using IH(1,2) i by (auto simp: add.assoc)
qed auto

text \<open>A slot inside a vector, aligned to its size, and a layout of disjoint slots.\<close>

definition slot_ok :: "nat \<Rightarrow> tensor_slot \<Rightarrow> bool" where
  "slot_ok len t \<longleftrightarrow> sl_n_pad t = 2 ^ pad_bits (sl_n t) \<and> sl_k_pad t = 2 ^ pad_bits (sl_k t)
     \<and> sl_k t \<le> sl_k_pad t \<and> sl_n t \<le> sl_n_pad t \<and> sl_block_len t = sl_k_pad t * sl_n_pad t
     \<and> sl_block_len t dvd sl_offset t \<and> sl_offset t + sl_block_len t \<le> len"

definition slots_disjoint :: "tensor_slot \<Rightarrow> tensor_slot \<Rightarrow> bool" where
  "slots_disjoint t u \<longleftrightarrow> sl_offset t + sl_block_len t \<le> sl_offset u \<or> sl_offset u + sl_block_len u \<le> sl_offset t"

definition layout_ok :: "weight_layout \<Rightarrow> bool" where
  "layout_ok L \<longleftrightarrow> list_all (slot_ok (wl_total_len L)) (wl_tensors L) \<and> sorted_wrt slots_disjoint (wl_tensors L)"

lemma slots_disjoint_sym: "slots_disjoint t u \<Longrightarrow> slots_disjoint u t"
  by (auto simp: slots_disjoint_def)

lemma slot_ok_len: "slot_ok len t \<Longrightarrow> sl_block_len t = 2 ^ (pad_bits (sl_n t) + pad_bits (sl_k t)) \<and> point_len t = pad_bits (sl_n t) + pad_bits (sl_k t)"
  by (simp add: slot_ok_def point_len_def power_add [symmetric] add.commute)

text \<open>The padded block of a tensor has \<open>2 ^ 63\<close> entries at most, or its length wraps to zero.\<close>

lemma new_slot_block:
  "sl_block_len (new_slot (k, n)) = (if pad_bits k + pad_bits n < 64 then 2 ^ (pad_bits k + pad_bits n) else 0)"
proof -
  let ?e = "pad_bits k + pad_bits n"
  have "sl_block_len (new_slot (k, n)) = usize (2 ^ ?e)"
    by (simp add: new_slot_def Let_def next_power_of_two_pad(1) power_add)
  moreover have "usize (2 ^ ?e) = 2 ^ ?e" if "?e < 64"
    using power_strict_increasing [OF that, of "2 :: nat"] by simp
  moreover have "usize (2 ^ ?e) = 0" if "64 \<le> ?e"
    using le_imp_power_dvd [OF that, of "2 :: nat"] by (simp add: usize_def)
  ultimately show ?thesis by simp
qed

lemma new_slot_power: "sl_block_len (new_slot s) \<noteq> 0 \<Longrightarrow> \<exists>x < 64. sl_block_len (new_slot s) = 2 ^ x"
  by (cases s) (auto simp: new_slot_block split: if_splits)

lemma new_slot_ok:
  assumes "sl_block_len (new_slot s) \<noteq> 0"
  shows "slot_ok (sl_block_len (new_slot s)) (new_slot s)"
proof -
  obtain k n where s: "s = (k, n)" by (cases s)
  then have e: "pad_bits k + pad_bits n < 64" using assms by (simp add: new_slot_block split: if_splits)
  then have "(2 :: nat) ^ pad_bits k < 2 ^ 64" "(2 :: nat) ^ pad_bits n < 2 ^ 64"
    using power_strict_increasing [of "pad_bits k" 64 "2 :: nat"] power_strict_increasing [of "pad_bits n" 64 "2 :: nat"] by linarith+
  then have "sl_k_pad (new_slot s) = 2 ^ pad_bits k" "sl_n_pad (new_slot s) = 2 ^ pad_bits n" "sl_k (new_slot s) = k" "sl_n (new_slot s) = n"
    "sl_offset (new_slot s) = 0"
    by (simp_all add: s new_slot_def Let_def next_power_of_two_pad(1))
  then show ?thesis using next_power_of_two_pad [of k] next_power_of_two_pad [of n] e
    by (simp add: slot_ok_def s new_slot_block power_add)
qed

lemma placement_order_facts:
  "distinct (placement_order ts)" "set (placement_order ts) = {..<length ts}" "length (placement_order ts) = length ts"
  by (auto simp: placement_order_def atLeast0LessThan)

lemma placement_order_descending:
  assumes "a \<le> b" "b < length ts"
  shows "sl_block_len (ts ! (placement_order ts ! b)) \<le> sl_block_len (ts ! (placement_order ts ! a))"
proof -
  have "sorted (map (\<lambda>i. - int (sl_block_len (ts ! i))) (placement_order ts))" by (simp add: placement_order_def)
  from sorted_nth_mono [OF this assms(1)] show ?thesis using assms by (simp add: placement_order_facts(3))
qed

text \<open>The blocks before a position are larger powers of two, so their total is a multiple of the next block, also where it wraps.\<close>

lemma placement_aligned:
  assumes "\<forall>t \<in> set ts. \<exists>x < 64. sl_block_len t = 2 ^ x" "b < length ts"
  shows "sl_block_len (ts ! (placement_order ts ! b)) dvd usize (sum_list (map (\<lambda>i. sl_block_len (ts ! i)) (take b (placement_order ts))))"
proof -
  let ?o = "placement_order ts" and ?bl = "\<lambda>i. sl_block_len (ts ! i)"
  have idx: "?o ! a < length ts" if "a < length ts" for a
    using that placement_order_facts(2,3) [of ts] nth_mem [of a ?o] by auto
  have dv: "\<forall>i \<in> set (take b ?o). ?bl (?o ! b) dvd ?bl i"
  proof
    fix i assume "i \<in> set (take b ?o)"
    then obtain a where a: "a < b" "i = ?o ! a" by (auto simp: in_set_conv_nth)
    obtain x y where "?bl (?o ! b) = 2 ^ x" "?bl i = 2 ^ y" using assms idx a by (metis nth_mem order.strict_trans)
    moreover have "?bl (?o ! b) \<le> ?bl i" using placement_order_descending [of a b ts] a assms(2) by simp
    ultimately show "?bl (?o ! b) dvd ?bl i" by (simp add: le_imp_power_dvd)
  qed
  have "\<forall>i \<in> set js. ?bl (?o ! b) dvd ?bl i \<Longrightarrow> ?bl (?o ! b) dvd sum_list (map ?bl js)" for js
    by (induction js) auto
  then have s: "?bl (?o ! b) dvd sum_list (map ?bl (take b ?o))" using dv by blast
  obtain x where "x < 64" "?bl (?o ! b) = 2 ^ x" using assms idx by (metis nth_mem)
  then have "?bl (?o ! b) dvd 2 ^ 64" using le_imp_power_dvd [of x 64 "2 :: nat"] by simp
  then show ?thesis using s by (simp add: usize_def dvd_mod)
qed

text \<open>The slots of a list of shapes, with their offsets, and the number of entries of their padded blocks without wrapping.\<close>

definition assigned :: "(nat \<times> nat) list \<Rightarrow> tensor_slot list \<times> nat" where
  "assigned shapes = assign_offsets (placement_order (map new_slot shapes)) (map new_slot shapes) 0"

definition block_before :: "(nat \<times> nat) list \<Rightarrow> nat \<Rightarrow> nat" where
  "block_before shapes a =
     sum_list (map (\<lambda>i. sl_block_len (new_slot (shapes ! i))) (take a (placement_order (map new_slot shapes))))"

definition padded_total :: "(nat \<times> nat) list \<Rightarrow> nat" where
  "padded_total shapes = (\<Sum>(k, n)\<leftarrow>shapes. next_power_of_two k * next_power_of_two n)"

lemma block_before_slots:
  "block_before shapes a =
     sum_list (map (\<lambda>i. sl_block_len (map new_slot shapes ! i)) (take a (placement_order (map new_slot shapes))))"
proof -
  have "sl_block_len (map new_slot shapes ! i) = sl_block_len (new_slot (shapes ! i))"
    if i: "i \<in> set (take a (placement_order (map new_slot shapes)))" for i
  proof -
    have "i < length shapes" using in_set_takeD [OF i] unfolding placement_order_facts(2) by simp
    then show ?thesis by simp
  qed
  then have "map (\<lambda>i. sl_block_len (map new_slot shapes ! i)) (take a (placement_order (map new_slot shapes)))
      = map (\<lambda>i. sl_block_len (new_slot (shapes ! i))) (take a (placement_order (map new_slot shapes)))" by (intro map_cong refl)
  then show ?thesis unfolding block_before_def by (rule arg_cong [OF sym, where f = sum_list])
qed

lemma assigned_facts:
  fixes shapes :: "(nat \<times> nat) list"
  defines "ts \<equiv> map new_slot shapes"
  shows "length (fst (assigned shapes)) = length shapes"
    "a < length shapes \<Longrightarrow> fst (assigned shapes) ! (placement_order ts ! a)
      = (new_slot (shapes ! (placement_order ts ! a)))\<lparr>sl_offset := usize (block_before shapes a)\<rparr>"
    "snd (assigned shapes) = usize (block_before shapes (length shapes))"
    "i < length shapes \<Longrightarrow> \<exists>a < length shapes. placement_order ts ! a = i"
proof -
  note f = placement_order_facts [of ts]
  have l: "length (placement_order ts) = length shapes" by (simp add: f(3)) (simp add: ts_def)
  have idx: "\<forall>i \<in> set (placement_order ts). i < length ts" by (simp add: f(2))
  note spec = assign_offsets_spec [OF f(1) idx, of 0, simplified]
  show "length (fst (assigned shapes)) = length shapes" by (simp add: assigned_def)
  show "fst (assigned shapes) ! (placement_order ts ! a)
      = (new_slot (shapes ! (placement_order ts ! a)))\<lparr>sl_offset := usize (block_before shapes a)\<rparr>" if a: "a < length shapes"
  proof -
    have "placement_order ts ! a < length shapes" using idx a l nth_mem [of a "placement_order ts"] by (simp add: ts_def)
    then show ?thesis using spec a l by (simp add: assigned_def block_before_slots ts_def)
  qed
  show "snd (assigned shapes) = usize (block_before shapes (length shapes))"
    using spec l by (simp add: assigned_def block_before_slots ts_def)
  show "\<exists>a < length shapes. placement_order ts ! a = i" if "i < length shapes"
    using that f(2) l by (metis in_set_conv_nth lessThan_iff length_map ts_def)
qed

lemma assigned_keep:
  assumes "i < length shapes"
  shows "\<exists>x. fst (assigned shapes) ! i = (new_slot (shapes ! i))\<lparr>sl_offset := x\<rparr>"
proof -
  obtain a where "a < length shapes" "placement_order (map new_slot shapes) ! a = i" using assigned_facts(4) [OF assms] by blast
  then show ?thesis using assigned_facts(2) [of a shapes] by blast
qed

lemma assigned_shapes: "map (\<lambda>t. (sl_k t, sl_n t)) (fst (assigned shapes)) = shapes"
proof (rule nth_equalityI)
  fix i assume "i < length (map (\<lambda>t. (sl_k t, sl_n t)) (fst (assigned shapes)))"
  then show "map (\<lambda>t. (sl_k t, sl_n t)) (fst (assigned shapes)) ! i = shapes ! i"
    using assigned_keep [of i shapes] assigned_facts(1) [of shapes] by (cases "shapes ! i") (auto simp: new_slot_def Let_def)
qed (simp add: assigned_facts(1))

text \<open>The assertion fails only for a block whose length wraps to zero.\<close>

lemma assigned_aligned:
  "list_all aligned (fst (assigned shapes)) \<longleftrightarrow> (\<forall>s \<in> set shapes. sl_block_len (new_slot s) \<noteq> 0)"
proof
  assume a: "list_all aligned (fst (assigned shapes))"
  show "\<forall>s \<in> set shapes. sl_block_len (new_slot s) \<noteq> 0"
  proof
    fix s assume "s \<in> set shapes"
    then obtain i where i: "i < length shapes" "s = shapes ! i" by (auto simp: in_set_conv_nth)
    then have "aligned (fst (assigned shapes) ! i)" using a assigned_facts(1) [of shapes] by (simp add: list_all_length)
    then show "sl_block_len (new_slot s) \<noteq> 0" using assigned_keep [OF i(1)] i(2) by (auto simp: aligned_def)
  qed
next
  assume nz: "\<forall>s \<in> set shapes. sl_block_len (new_slot s) \<noteq> 0"
  let ?ts = "map new_slot shapes"
  have pow: "\<forall>t \<in> set ?ts. \<exists>x < 64. sl_block_len t = 2 ^ x" using nz new_slot_power by auto
  show "list_all aligned (fst (assigned shapes))" unfolding list_all_length
  proof (intro allI impI)
    fix i assume "i < length (fst (assigned shapes))"
    then have i: "i < length shapes" by (simp add: assigned_facts(1))
    then obtain a where a: "a < length shapes" "placement_order ?ts ! a = i" using assigned_facts(4) by blast
    have "sl_block_len (new_slot (shapes ! i)) dvd usize (block_before shapes a)"
      using placement_aligned [OF pow, of a] a i by (simp add: block_before_slots)
    then show "aligned (fst (assigned shapes) ! i)" using assigned_facts(2) [OF a(1)] a(2) nz i by (simp add: aligned_def)
  qed
qed

text \<open>While the padded blocks have at most \<open>2 ^ 63\<close> entries together, nothing wraps.\<close>

lemma next_power_from_le: "x \<le> 2 ^ a \<Longrightarrow> i \<le> a \<Longrightarrow> next_power_from (2 ^ i) x \<le> 2 ^ a"
proof (induction "a - i" arbitrary: i)
  case 0
  then show ?case by (subst next_power_from.simps) simp
next
  case (Suc d)
  show ?case
  proof (cases "x \<le> 2 ^ i")
    case True
    then show ?thesis using Suc.prems(2) by (subst next_power_from.simps) simp
  next
    case False
    then have "Suc i \<le> a" using Suc.prems by (cases "i = a") auto
    then have "next_power_from (2 ^ Suc i) x \<le> 2 ^ a" using Suc.hyps(1) [of "Suc i"] Suc.hyps(2) Suc.prems(1) by simp
    then show ?thesis using False by (subst next_power_from.simps) simp
  qed
qed

lemma next_power_of_two_le: "x \<le> 2 ^ a \<Longrightarrow> next_power_of_two x \<le> 2 ^ a"
  using next_power_from_le [of x a 0] by (simp add: next_power_of_two_def)

lemma padded_small:
  assumes "(k, n) \<in> set shapes" "padded_total shapes \<le> 2 ^ 63"
  shows "pad_bits k + pad_bits n < 64" "sl_block_len (new_slot (k, n)) = next_power_of_two k * next_power_of_two n"
proof -
  have "next_power_of_two k * next_power_of_two n \<le> padded_total shapes"
    unfolding padded_total_def using assms(1) by (intro member_le_sum_list) (auto intro!: image_eqI [of _ _ "(k, n)"])
  then have "(2 :: nat) ^ (pad_bits k + pad_bits n) \<le> 2 ^ 63" using assms(2) by (simp add: next_power_of_two_pad(1) power_add)
  then show e: "pad_bits k + pad_bits n < 64" using power_le_imp_le_exp [of "2 :: nat" "pad_bits k + pad_bits n" 63] by simp
  show "sl_block_len (new_slot (k, n)) = next_power_of_two k * next_power_of_two n"
    using e by (simp add: new_slot_block next_power_of_two_pad(1) power_add)
qed

lemma block_before_total:
  assumes "padded_total shapes \<le> 2 ^ 63"
  shows "block_before shapes (length shapes) = padded_total shapes"
proof -
  let ?o = "placement_order (map new_slot shapes)"
  note f = placement_order_facts [of "map new_slot shapes"]
  have e: "sl_block_len (new_slot (shapes ! i)) = (case shapes ! i of (k, n) \<Rightarrow> next_power_of_two k * next_power_of_two n)"
    if "i < length shapes" for i
    using padded_small(2) [of "fst (shapes ! i)" "snd (shapes ! i)" shapes] assms that by (simp add: case_prod_unfold)
  have "block_before shapes (length shapes) = (\<Sum>i<length shapes. sl_block_len (new_slot (shapes ! i)))"
    using f by (simp add: block_before_def sum_list_distinct_conv_sum_set)
  also have "\<dots> = (\<Sum>i<length shapes. case shapes ! i of (k, n) \<Rightarrow> next_power_of_two k * next_power_of_two n)"
    by (rule sum.cong) (simp_all add: e)
  also have "\<dots> = padded_total shapes" by (simp add: padded_total_def sum_list_sum_nth atLeast0LessThan)
  finally show ?thesis .
qed

lemma block_before_step:
  assumes "a < b" "b \<le> length shapes"
  shows "block_before shapes a + sl_block_len (new_slot (shapes ! (placement_order (map new_slot shapes) ! a))) \<le> block_before shapes b"
proof -
  let ?o = "placement_order (map new_slot shapes)"
  have "take b ?o = take (Suc a) ?o @ take (b - Suc a) (drop (Suc a) ?o)" using assms(1) take_add [of "Suc a" "b - Suc a" ?o] by simp
  moreover have "take (Suc a) ?o = take a ?o @ [?o ! a]"
    using assms placement_order_facts(3) [of "map new_slot shapes"] by (intro take_Suc_conv_app_nth) simp
  ultimately show ?thesis by (simp add: block_before_def)
qed

lemma assigned_slots:
  assumes "padded_total shapes \<le> 2 ^ 63"
  shows "list_all (slot_ok (padded_total shapes)) (fst (assigned shapes))" "sorted_wrt slots_disjoint (fst (assigned shapes))"
    "snd (assigned shapes) = padded_total shapes"
proof -
  let ?o = "placement_order (map new_slot shapes)" and ?bl = "\<lambda>i. sl_block_len (new_slot (shapes ! i))"
  note tot = block_before_total [OF assms]
  have before: "block_before shapes a + ?bl (?o ! a) \<le> padded_total shapes" if "a < length shapes" for a
    using block_before_step [of a "length shapes" shapes] that by (simp add: tot)
  have slot: "fst (assigned shapes) ! (?o ! a) = (new_slot (shapes ! (?o ! a)))\<lparr>sl_offset := block_before shapes a\<rparr>" if "a < length shapes" for a
  proof -
    have "block_before shapes a < 2 ^ 64" using before [OF that] assms by simp
    then show ?thesis using assigned_facts(2) [OF that] by simp
  qed
  have nz: "\<forall>s \<in> set shapes. sl_block_len (new_slot s) \<noteq> 0"
    using padded_small(2) [OF _ assms] by (auto simp: next_power_of_two_pad(1))
  have al: "list_all aligned (fst (assigned shapes))" using nz by (simp add: assigned_aligned)
  show "snd (assigned shapes) = padded_total shapes" using assms by (simp add: assigned_facts(3) tot)
  show "list_all (slot_ok (padded_total shapes)) (fst (assigned shapes))" unfolding list_all_length
  proof (intro allI impI)
    fix i assume "i < length (fst (assigned shapes))"
    then have i: "i < length shapes" by (simp add: assigned_facts(1))
    then obtain a where a: "a < length shapes" "?o ! a = i" using assigned_facts(4) by blast
    have "slot_ok (?bl i) (new_slot (shapes ! i))" using new_slot_ok nz i by simp
    moreover have "aligned (fst (assigned shapes) ! i)" using al i assigned_facts(1) [of shapes] by (simp add: list_all_length)
    ultimately show "slot_ok (padded_total shapes) (fst (assigned shapes) ! i)"
      using slot [OF a(1)] a(2) before [OF a(1)] by (auto simp: slot_ok_def aligned_def)
  qed
  show "sorted_wrt slots_disjoint (fst (assigned shapes))" unfolding sorted_wrt_iff_nth_less
  proof (intro allI impI)
    fix i j assume ij: "i < j" "j < length (fst (assigned shapes))"
    then have "i < length shapes" "j < length shapes" by (simp_all add: assigned_facts(1))
    then obtain a b where ab: "a < length shapes" "?o ! a = i" "b < length shapes" "?o ! b = j" using assigned_facts(4) by metis
    then have "a \<noteq> b" using ij(1) by auto
    then show "slots_disjoint (fst (assigned shapes) ! i) (fst (assigned shapes) ! j)"
      using block_before_step [of a b shapes] block_before_step [of b a shapes] slot [OF ab(1)] slot [OF ab(3)] ab
      by (auto simp: slots_disjoint_def linorder_neq_iff)
  qed
qed

lemma slot_ok_mono: "slot_ok a t \<Longrightarrow> a \<le> b \<Longrightarrow> slot_ok b t"
  by (auto simp: slot_ok_def)

lemma layout_assigned:
  "for_shapes_with_outer_padding shapes pad_outer =
     (if list_all aligned (fst (assigned shapes))
      then Some \<lparr>wl_tensors = fst (assigned shapes),
                 wl_total_len = (if pad_outer then usize (next_power_of_two (snd (assigned shapes))) else snd (assigned shapes))\<rparr>
      else None)"
  by (simp add: for_shapes_with_outer_padding_def assigned_def Let_def case_prod_unfold)

lemma layout_panics:
  "for_shapes_with_outer_padding shapes pad_outer = None \<longleftrightarrow> (\<exists>(k, n) \<in> set shapes. 64 \<le> pad_bits k + pad_bits n)"
proof -
  have "sl_block_len (new_slot s) \<noteq> 0 \<longleftrightarrow> \<not> (case s of (k, n) \<Rightarrow> 64 \<le> pad_bits k + pad_bits n)" for s
    by (cases s) (simp add: new_slot_block not_le)
  then show ?thesis unfolding layout_assigned assigned_aligned by auto
qed

lemma layout_exists:
  assumes "padded_total shapes \<le> 2 ^ 63"
  shows "\<exists>L. for_shapes_with_outer_padding shapes pad_outer = Some L
    \<and> map (\<lambda>t. (sl_k t, sl_n t)) (wl_tensors L) = shapes \<and> layout_ok L
    \<and> wl_total_len L = (if pad_outer then next_power_of_two (padded_total shapes) else padded_total shapes)"
proof -
  let ?len = "if pad_outer then next_power_of_two (padded_total shapes) else padded_total shapes"
  note A = assigned_slots [OF assms]
  have "next_power_of_two (padded_total shapes) \<le> 2 ^ 63" using next_power_of_two_le [OF assms] .
  then have u: "(if pad_outer then usize (next_power_of_two (padded_total shapes)) else padded_total shapes) = ?len" by simp
  have "padded_total shapes \<le> ?len" using next_power_of_two_pad(2) by simp
  then have "list_all (slot_ok ?len) (fst (assigned shapes))" using A(1) slot_ok_mono by (fastforce simp: list_all_iff)
  moreover have "list_all aligned (fst (assigned shapes))"
    using padded_small(2) [OF _ assms] by (auto simp: assigned_aligned next_power_of_two_pad(1))
  ultimately show ?thesis using A(2,3) u by (cases pad_outer) (simp_all add: layout_assigned assigned_shapes layout_ok_def)
qed

text \<open>
  C35. A list of tensor shapes has a layout exactly when no padded block wraps to length zero (the alignment assertion itself never fails, only
  its remainder by zero panics). When the padded blocks have at most \<open>2 ^ 63\<close> entries together, the layout keeps the shapes in
  their order and is well formed: every tensor lies in a block of power-of-two sides that is aligned to its size and
  inside the vector, the blocks are pairwise disjoint, and the vector has the entries of the blocks, up to the outer padding.
\<close>

theorem layout_well_formed:
  "(for_shapes_with_outer_padding shapes pad_outer = None \<longleftrightarrow> (\<exists>(k, n) \<in> set shapes. 64 \<le> pad_bits k + pad_bits n))
    \<and> (padded_total shapes \<le> 2 ^ 63 \<longrightarrow> (\<exists>L. for_shapes_with_outer_padding shapes pad_outer = Some L
        \<and> map (\<lambda>t. (sl_k t, sl_n t)) (wl_tensors L) = shapes \<and> layout_ok L
        \<and> wl_total_len L = (if pad_outer then next_power_of_two (padded_total shapes) else padded_total shapes)))"
  using layout_panics layout_exists by blast

lemma two_pow_32_bits: "32 \<le> pad_bits (2 ^ 32)"
  using next_power_of_two_pad [of "2 ^ 32"] power_le_imp_le_exp [of "2 :: nat" 32 "pad_bits (2 ^ 32)"] by simp

text \<open>A block of \<open>2 ^ 64\<close> entries panics; two small tensors have a layout of eight entries.\<close>

theorem layout_well_formed_witness:
  "for_shapes_with_outer_padding [(2 ^ 32, 2 ^ 32)] True = None
    \<and> (\<exists>L. for_shapes_with_outer_padding [(1, 1), (2, 2)] True = Some L
        \<and> map (\<lambda>t. (sl_k t, sl_n t)) (wl_tensors L) = [(1, 1), (2, 2)] \<and> layout_ok L \<and> wl_total_len L = 8)"
proof -
  have n: "next_power_of_two (Suc 0) = 1" "next_power_of_two 2 = 2" "next_power_of_two 5 = 8"
    by (simp_all add: next_power_of_two_def next_power_from.simps)
  have t: "padded_total [(1, 1), (2, 2)] = 5" using n by (simp add: padded_total_def)
  have w: "\<exists>(k, n) \<in> set [(2 ^ 32, 2 ^ 32)]. 64 \<le> pad_bits k + pad_bits n" using two_pow_32_bits by simp
  show ?thesis
    using layout_well_formed [of "[(2 ^ 32, 2 ^ 32)]" True] layout_well_formed [of "[(1, 1), (2, 2)]" True] w t n(3) by simp
qed

section \<open>Placement\<close>

lemma copy_from_slice_Some:
  assumes "off + length xs \<le> length w"
  shows "\<exists>w'. copy_from_slice off (off + length xs) xs w = Some w' \<and> length w' = length w
    \<and> (\<forall>x < length w. w' ! x = (if off \<le> x \<and> x < off + length xs then xs ! (x - off) else w ! x))"
  using assms by (auto simp: copy_from_slice_def nth_append)

text \<open>The padded tensor, as a function of the position in its block.\<close>

definition pad_entry :: "tensor_slot \<Rightarrow> int list \<Rightarrow> nat \<Rightarrow> int" where
  "pad_entry t src d =
     (if d div sl_n_pad t < sl_k t \<and> d mod sl_n_pad t < sl_n t then src ! (d div sl_n_pad t * sl_n t + d mod sl_n_pad t) else 0)"

lemma place_row_Some:
  assumes "slot_ok (length w) t" "length src = sl_k t * sl_n t" "m < sl_k t" "length w < 2 ^ 64"
    and "\<And>d. d < sl_block_len t \<Longrightarrow> w ! (sl_offset t + d) = (if d div sl_n_pad t < m then pad_entry t src d else 0)"
  shows "\<exists>w'. place_row t src m w = Some w' \<and> length w' = length w
    \<and> (\<forall>x < length w. x < sl_offset t \<or> sl_offset t + sl_block_len t \<le> x \<longrightarrow> w' ! x = w ! x)
    \<and> (\<forall>d < sl_block_len t. w' ! (sl_offset t + d) = (if d div sl_n_pad t < Suc m then pad_entry t src d else 0))"
proof -
  let ?n = "sl_n t" and ?N = "sl_n_pad t" and ?row = "map (\<lambda>l. src ! (m * sl_n t + l)) [0..<sl_n t]"
  have N: "0 < ?N" "?n \<le> ?N" "sl_block_len t = sl_k_pad t * ?N" "sl_k t \<le> sl_k_pad t" "sl_offset t + sl_block_len t \<le> length w"
    using assms(1) by (auto simp: slot_ok_def)
  have "Suc m * ?N \<le> sl_k_pad t * ?N" using assms(3) N(4) by (intro mult_le_mono1) simp
  then have fit: "m * ?N + ?N \<le> sl_block_len t" using N(3) by simp
  then have "sl_offset t + m * ?N + length ?row \<le> length w" using N(2,5) by simp
  from copy_from_slice_Some [OF this] obtain w' where w': "copy_from_slice (sl_offset t + m * ?N) (sl_offset t + m * ?N + ?n) ?row w = Some w'" "length w' = length w"
    "\<And>x. x < length w \<Longrightarrow> w' ! x = (if sl_offset t + m * ?N \<le> x \<and> x < sl_offset t + m * ?N + ?n then ?row ! (x - (sl_offset t + m * ?N)) else w ! x)"
    by auto
  have "sl_offset t + m * ?N + ?n < 2 ^ 64" using fit N(2,5) assms(4) by linarith
  then have lo: "usize (sl_offset t + usize (m * ?N)) = sl_offset t + m * ?N" "usize (sl_offset t + m * ?N + ?n) = sl_offset t + m * ?N + ?n" by simp_all
  have "Suc m * ?n \<le> sl_k_pad t * ?N" using assms(3) N(2,4) by (intro mult_le_mono) simp_all
  then have src: "usize (m * ?n) = m * ?n" "usize ((m + 1) * ?n) = m * ?n + ?n" using N(3,5) assms(4) by simp_all
  have "place_row t src m w = Some w'"
    unfolding place_row_def Let_def lo src using slice_row [OF assms(3,2)] w'(1) by (simp add: sub_slice_def)
  moreover have "w' ! x = w ! x" if "x < length w" "x < sl_offset t \<or> sl_offset t + sl_block_len t \<le> x" for x
    using w'(3) [OF that(1)] that(2) fit N(2) by auto
  moreover have "w' ! (sl_offset t + d) = (if d div ?N < Suc m then pad_entry t src d else 0)" if d: "d < sl_block_len t" for d
  proof -
    have dm: "d = d div ?N * ?N + d mod ?N" "d mod ?N < ?N" using N(1) by simp_all
    have in_row: "m * ?N \<le> d \<and> d < m * ?N + ?n \<longleftrightarrow> d div ?N = m \<and> d mod ?N < ?n"
    proof
      assume a: "m * ?N \<le> d \<and> d < m * ?N + ?n"
      then have "d div ?N = m" using N(1,2) by (intro div_nat_eqI) (simp_all add: mult.commute)
      then show "d div ?N = m \<and> d mod ?N < ?n" using a dm(1) by simp
    next
      assume "d div ?N = m \<and> d mod ?N < ?n"
      then show "m * ?N \<le> d \<and> d < m * ?N + ?n" using dm(1) by (metis add_less_cancel_left le_add1)
    qed
    have x: "w' ! (sl_offset t + d) = (if m * ?N \<le> d \<and> d < m * ?N + ?n then ?row ! (d - m * ?N) else w ! (sl_offset t + d))"
      using w'(3) [of "sl_offset t + d"] d N(5) by simp
    show ?thesis
    proof (cases "d div ?N = m \<and> d mod ?N < ?n")
      case True
      then have "d - m * ?N = d mod ?N" using dm(1) by simp
      then show ?thesis using x in_row True assms(3) by (simp add: pad_entry_def)
    next
      case False
      then show ?thesis using x in_row assms(5) [OF d] by (auto simp: pad_entry_def)
    qed
  qed
  ultimately show ?thesis using w'(2) by blast
qed

lemma place_tensor_Some:
  assumes "slot_ok (length w) t" "length src = sl_k t * sl_n t" "\<And>d. d < sl_block_len t \<Longrightarrow> w ! (sl_offset t + d) = 0" "length w < 2 ^ 64"
  shows "\<exists>w'. place_tensor (t, src) w = Some w' \<and> length w' = length w
    \<and> (\<forall>x < length w. x < sl_offset t \<or> sl_offset t + sl_block_len t \<le> x \<longrightarrow> w' ! x = w ! x)
    \<and> (\<forall>d < sl_block_len t. w' ! (sl_offset t + d) = pad_entry t src d)"
proof -
  let ?I = "\<lambda>m w'. length w' = length w \<and> (\<forall>x < length w. x < sl_offset t \<or> sl_offset t + sl_block_len t \<le> x \<longrightarrow> w' ! x = w ! x)
    \<and> (\<forall>d < sl_block_len t. w' ! (sl_offset t + d) = (if d div sl_n_pad t < m then pad_entry t src d else 0))"
  have "\<exists>w'. fold_opt (place_row t src) [0..<sl_k t] w = Some w' \<and> ?I (length [0..<sl_k t]) w'"
  proof (rule fold_opt_invariant)
    fix m w1 assume m: "m < length [0..<sl_k t]" "?I m w1"
    then show "\<exists>w2. place_row t src ([0..<sl_k t] ! m) w1 = Some w2 \<and> ?I (Suc m) w2"
      using place_row_Some [of w1 t src m] assms(1,2,4) by fastforce
  qed (use assms(3) in simp)
  moreover have "d div sl_n_pad t < sl_k t \<or> pad_entry t src d = 0" for d by (simp add: pad_entry_def)
  moreover have "length src = usize (sl_k t * sl_n t)"
  proof -
    have "sl_k t * sl_n t \<le> sl_k_pad t * sl_n_pad t" "sl_k_pad t * sl_n_pad t \<le> length w"
      using assms(1) by (auto simp: slot_ok_def intro: mult_le_mono)
    then show ?thesis using assms(2,4) by simp
  qed
  ultimately show ?thesis by (fastforce simp: place_tensor_def)
qed

lemma place_Some:
  assumes "layout_ok L" "length tensors = length (wl_tensors L)" "wl_total_len L \<le> 2 ^ 61"
    and "\<And>i. i < length tensors \<Longrightarrow> length (tensors ! i) = sl_k (wl_tensors L ! i) * sl_n (wl_tensors L ! i)"
  shows "\<exists>w. place L tensors = Some w \<and> length w = wl_total_len L
    \<and> (\<forall>i < length tensors. \<forall>d < sl_block_len (wl_tensors L ! i).
          w ! (sl_offset (wl_tensors L ! i) + d) = pad_entry (wl_tensors L ! i) (tensors ! i) d)"
proof -
  let ?t = "\<lambda>i. wl_tensors L ! i" and ?n = "length tensors"
  let ?I = "\<lambda>m w. length w = wl_total_len L \<and> (\<forall>i < ?n. \<forall>d < sl_block_len (?t i).
      w ! (sl_offset (?t i) + d) = (if i < m then pad_entry (?t i) (tensors ! i) d else 0))"
  have ok: "slot_ok (wl_total_len L) (?t i)" if "i < ?n" for i using assms(1,2) that by (simp add: layout_ok_def list_all_length)
  have dj: "slots_disjoint (?t i) (?t j)" if "i < ?n" "j < ?n" "i \<noteq> j" for i j
    using assms(1,2) that slots_disjoint_sym unfolding layout_ok_def by (metis nat_neq_iff sorted_wrt_nth_less)
  have "\<exists>w. fold_opt place_tensor (zip (wl_tensors L) tensors) (replicate (wl_total_len L) 0) = Some w
      \<and> ?I (length (zip (wl_tensors L) tensors)) w"
  proof (rule fold_opt_invariant)
    show "?I 0 (replicate (wl_total_len L) 0)" using ok by (fastforce simp: slot_ok_def)
    fix m w assume m0: "m < length (zip (wl_tensors L) tensors)" and I: "?I m w"
    then have m: "m < ?n" by simp
    have I': "slot_ok (length w) (?t m)" "\<And>d. d < sl_block_len (?t m) \<Longrightarrow> w ! (sl_offset (?t m) + d) = 0" using I m ok by auto
    have "length w < 2 ^ 64" using I assms(3) by simp
    from place_tensor_Some [OF I'(1) assms(4) [OF m] I'(2) this] obtain w' where w': "place_tensor (?t m, tensors ! m) w = Some w'"
      "length w' = length w" "\<And>x. x < length w \<Longrightarrow> x < sl_offset (?t m) \<or> sl_offset (?t m) + sl_block_len (?t m) \<le> x \<Longrightarrow> w' ! x = w ! x"
      "\<And>d. d < sl_block_len (?t m) \<Longrightarrow> w' ! (sl_offset (?t m) + d) = pad_entry (?t m) (tensors ! m) d" by blast
    have "w' ! (sl_offset (?t i) + d) = (if i < Suc m then pad_entry (?t i) (tensors ! i) d else 0)"
      if i: "i < ?n" "d < sl_block_len (?t i)" for i d
    proof (cases "i = m")
      case False
      have "sl_offset (?t i) + sl_block_len (?t i) \<le> wl_total_len L" using ok [OF i(1)] unfolding slot_ok_def by blast
      then have "sl_offset (?t i) + d < length w" using i(2) I by linarith
      moreover have "sl_offset (?t i) + d < sl_offset (?t m) \<or> sl_offset (?t m) + sl_block_len (?t m) \<le> sl_offset (?t i) + d"
        using dj [OF i(1) m False] i(2) by (auto simp: slots_disjoint_def)
      ultimately show ?thesis using w'(3) I i False by auto
    qed (use w'(4) i in simp)
    then show "\<exists>w'. place_tensor (zip (wl_tensors L) tensors ! m) w = Some w' \<and> ?I (Suc m) w'"
      using w'(1,2) I m0 by auto
  qed
  then show ?thesis using assms(2,3) by (auto simp: place_def)
qed

section \<open>Claims on placed tensors\<close>

text \<open>The value of a claim on a tensor: its padded multilinear extension, columns first.\<close>

definition tensor_value :: "nat \<Rightarrow> nat \<Rightarrow> int list \<Rightarrow> fp2 list \<Rightarrow> fp2" where
  "tensor_value k n src point =
     (\<Sum>l<k. \<Sum>j<n. fp2_from_base (fp_from_i64 (src ! (l * n + j)))
        * (eq_vec (drop (pad_bits n) point) ! l * eq_vec (take (pad_bits n) point) ! j))"

lemma fp_from_i64_0 [simp]: "fp_from_i64 0 = 0"
  by transfer (simp add: fp_from_i64_u64_def fp_new_u64_def)

lemma sum_restrict: "k \<le> K \<Longrightarrow> (\<And>i. k \<le> i \<Longrightarrow> f i = 0) \<Longrightarrow> (\<Sum>i<K. f i) = (\<Sum>i<k. f i)" for f :: "nat \<Rightarrow> 'a :: comm_monoid_add"
  by (intro sum.mono_neutral_right) auto

lemma block_value_tensor:
  assumes "slot_ok (length w) t" "length src = sl_k t * sl_n t" "length point = point_len t"
    and "\<And>d. d < sl_block_len t \<Longrightarrow> w ! (sl_offset t + d) = pad_entry t src d"
  shows "block_value w \<lparr>bc_offset = sl_offset t, bc_point = point\<rparr> = Some (tensor_value (sl_k t) (sl_n t) src point)"
proof -
  let ?N = "sl_n_pad t" and ?K = "sl_k_pad t" and ?B = "sl_block_len t" and ?e = "\<lambda>d. fp2_from_base (fp_from_i64 (pad_entry t src d))"
  let ?q = "eq_vec (drop (pad_bits (sl_n t)) point)" and ?c = "eq_vec (take (pad_bits (sl_n t)) point)"
  have ok: "?N = 2 ^ pad_bits (sl_n t)" "?K = 2 ^ pad_bits (sl_k t)" "sl_k t \<le> ?K" "sl_n t \<le> ?N" "?B = ?K * ?N" "sl_offset t + ?B \<le> length w"
    using assms(1) by (auto simp: slot_ok_def)
  have len: "length point = pad_bits (sl_n t) + pad_bits (sl_k t)" "2 ^ length point = ?B"
    using slot_ok_len [OF assms(1)] assms(3) by simp_all
  have "take ?B (drop (sl_offset t) w) = map (pad_entry t src) [0..<?B]"
    using assms(4) ok(6) by (intro nth_equalityI) simp_all
  then have "block_value w \<lparr>bc_offset = sl_offset t, bc_point = point\<rparr> = eval_mle (map ?e [0..<?B]) point"
    using len(2) by (simp add: block_value_def comp_def)
  also have "\<dots> = Some (\<Sum>d<?B. ?e d * eq_vec point ! d)"
    using eval_mle_dot [of "map ?e [0..<?B]" point] len(2) by (simp add: dot_def)
  also have "(\<Sum>d<?B. ?e d * eq_vec point ! d) = (\<Sum>l<?K. \<Sum>j<?N. ?e (l * ?N + j) * (?q ! l * ?c ! j))"
    unfolding ok(5) sum_rows
  proof (intro sum.cong refl)
    fix l j assume "l \<in> {..<?K}" "j \<in> {..<?N}"
    then show "?e (l * ?N + j) * eq_vec point ! (l * ?N + j) = ?e (l * ?N + j) * (?q ! l * ?c ! j)"
      using eq_vec_append [of l "drop (pad_bits (sl_n t)) point" j "take (pad_bits (sl_n t)) point"] len(1) ok(1,2) by simp
  qed
  also have "\<dots> = (\<Sum>l<?K. \<Sum>j<?N. (if l < sl_k t \<and> j < sl_n t then fp2_from_base (fp_from_i64 (src ! (l * sl_n t + j))) else 0) * (?q ! l * ?c ! j))"
    by (intro sum.cong refl) (simp add: pad_entry_def ok(1))
  also have "\<dots> = (\<Sum>l < sl_k t. \<Sum>j < sl_n t. (if l < sl_k t \<and> j < sl_n t then fp2_from_base (fp_from_i64 (src ! (l * sl_n t + j))) else 0) * (?q ! l * ?c ! j))"
    by (subst sum_restrict [OF ok(3)], simp, rule sum.cong [OF refl], rule sum_restrict [OF ok(4)], simp)
  also have "\<dots> = tensor_value (sl_k t) (sl_n t) src point" by (simp add: tensor_value_def)
  finally show ?thesis .
qed

text \<open>A slot's claim fits the geometry of a matrix of the vector's size whose rows are not longer than the block.\<close>

lemma slot_claim_geom:
  assumes "slot_ok (lp_rows p * lp_cols p) t" "lp_col_bits p \<le> point_len t" "point_len t < 64" "length point = point_len t"
  shows "claim_geom p \<lparr>bc_offset = sl_offset t, bc_point = point\<rparr> \<noteq> None"
proof -
  let ?cb = "lp_col_bits p" and ?b = "point_len t"
  have c: "lp_cols p = 2 ^ ?cb" using assms(2,3) by (simp add: lp_cols_def)
  have B: "sl_block_len t = 2 ^ ?b" "2 ^ ?b dvd sl_offset t" "sl_offset t + 2 ^ ?b \<le> lp_rows p * 2 ^ ?cb"
    using assms(1) slot_ok_len [OF assms(1)] c by (auto simp: slot_ok_def)
  have e: "(2 :: nat) ^ ?b = 2 ^ (?b - ?cb) * 2 ^ ?cb" using assms(2) by (simp flip: power_add)
  have "(2 :: nat) ^ ?cb dvd sl_offset t" using B(2) assms(2) by (meson dvd_trans le_imp_power_dvd)
  then have "sl_offset t = drop_bit ?cb (sl_offset t) * 2 ^ ?cb" by (simp add: drop_bit_eq_div)
  then have "(drop_bit ?cb (sl_offset t) + 2 ^ (?b - ?cb)) * 2 ^ ?cb \<le> lp_rows p * 2 ^ ?cb"
    using B(3) e by (simp add: algebra_simps)
  then have r: "drop_bit ?cb (sl_offset t) + 2 ^ (?b - ?cb) \<le> lp_rows p" by simp
  have "lp_rows p \<le> 2 ^ lp_row_bits p" using next_power_of_two_pad [of "lp_rows p"] by (simp add: lp_row_bits_def pad_bits_def)
  then have "(2 :: nat) ^ (?b - ?cb) \<le> 2 ^ lp_row_bits p" using r by linarith
  then have "?b \<le> lp_n_vars p" by (simp add: lp_n_vars_def)
  then show ?thesis using assms r B(2) by (auto simp: claim_geom_def checked_shl_1_def Let_def)
qed

lemma tensor_claims:
  assumes L: "for_shapes_with_outer_padding shapes pad_outer = Some L" and fits: "padded_total shapes \<le> 2 ^ 61"
    and src: "length tensors = length shapes" "\<forall>i < length shapes. length (tensors ! i) = fst (shapes ! i) * snd (shapes ! i)"
  shows "\<exists>w. place L tensors = Some w \<and> length w = wl_total_len L
    \<and> (\<forall>i point. i < length shapes \<and> length point = pad_bits (snd (shapes ! i)) + pad_bits (fst (shapes ! i)) \<longrightarrow>
        (\<exists>c. layout_block_claim L i point = Some c
          \<and> block_value w c = Some (tensor_value (fst (shapes ! i)) (snd (shapes ! i)) (tensors ! i) point)
          \<and> (\<forall>p. lp_rows p * lp_cols p = wl_total_len L \<and> lp_col_bits p \<le> length point \<and> length point < 64
                \<longrightarrow> claim_geom p c \<noteq> None)))"
proof -
  have ok: "map (\<lambda>t. (sl_k t, sl_n t)) (wl_tensors L) = shapes" "layout_ok L"
    and "wl_total_len L = (if pad_outer then next_power_of_two (padded_total shapes) else padded_total shapes)"
    using layout_exists [of shapes pad_outer] fits L by auto
  then have len: "wl_total_len L \<le> 2 ^ 61" using fits next_power_of_two_le [OF fits] by simp
  then have n: "length (wl_tensors L) = length shapes"
    "\<And>i. i < length shapes \<Longrightarrow> sl_k (wl_tensors L ! i) = fst (shapes ! i) \<and> sl_n (wl_tensors L ! i) = snd (shapes ! i)"
    using ok(1) by (metis length_map, metis (no_types, lifting) fst_conv length_map nth_map snd_conv)
  obtain w where w: "place L tensors = Some w" "length w = wl_total_len L"
    "\<And>i d. i < length tensors \<Longrightarrow> d < sl_block_len (wl_tensors L ! i) \<Longrightarrow>
      w ! (sl_offset (wl_tensors L ! i) + d) = pad_entry (wl_tensors L ! i) (tensors ! i) d"
    using place_Some [OF ok(2) _ len, of tensors] src n by auto
  have "\<exists>c. layout_block_claim L i point = Some c
      \<and> block_value w c = Some (tensor_value (fst (shapes ! i)) (snd (shapes ! i)) (tensors ! i) point)
      \<and> (\<forall>p. lp_rows p * lp_cols p = wl_total_len L \<and> lp_col_bits p \<le> length point \<and> length point < 64 \<longrightarrow> claim_geom p c \<noteq> None)"
    if i: "i < length shapes" "length point = pad_bits (snd (shapes ! i)) + pad_bits (fst (shapes ! i))" for i point
  proof -
    let ?t = "wl_tensors L ! i"
    have t: "slot_ok (wl_total_len L) ?t" using ok(2) i(1) n(1) by (simp add: layout_ok_def list_all_length)
    then have len: "length point = point_len ?t" using slot_ok_len [OF t] i n(2) by simp
    then have "layout_block_claim L i point = Some \<lparr>bc_offset = sl_offset ?t, bc_point = point\<rparr>"
      using i(1) n(1) by (simp add: layout_block_claim_def)
    moreover have "block_value w \<lparr>bc_offset = sl_offset ?t, bc_point = point\<rparr> = Some (tensor_value (fst (shapes ! i)) (snd (shapes ! i)) (tensors ! i) point)"
      using block_value_tensor [of w ?t "tensors ! i" point] t len w src i(1) n by simp
    moreover have "claim_geom p \<lparr>bc_offset = sl_offset ?t, bc_point = point\<rparr> \<noteq> None"
      if "lp_rows p * lp_cols p = wl_total_len L \<and> lp_col_bits p \<le> length point \<and> length point < 64" for p
      by (rule slot_claim_geom) (use that t len in auto)
    ultimately show ?thesis by blast
  qed
  then show ?thesis using w(1,2) by blast
qed

text \<open>
  C34. Claims on tensors are claims on the committed vector: when the padded blocks have at most \<open>2 ^ 61\<close> entries together, so
  that the vector can be allocated and no size wraps, placing tensors of the laid-out shapes returns a vector of the layout's length, and for every tensor and every point of the right length the layout's block claim exists,
  its value on the placed vector is the tensor's padded multilinear extension at the point, and it fits the geometry
  of every matrix of that size whose rows are at most one block long.
\<close>

theorem placed_claims:
  assumes L: "for_shapes_with_outer_padding shapes pad_outer = Some L" and fits: "padded_total shapes \<le> 2 ^ 61"
    and src: "length tensors = length shapes" "\<forall>i < length shapes. length (tensors ! i) = fst (shapes ! i) * snd (shapes ! i)"
  shows "\<exists>w. place L tensors = Some w \<and> length w = wl_total_len L
    \<and> (\<forall>i point. i < length shapes \<and> length point = pad_bits (snd (shapes ! i)) + pad_bits (fst (shapes ! i)) \<longrightarrow>
        (\<exists>c. layout_block_claim L i point = Some c
          \<and> block_value w c = Some (tensor_value (fst (shapes ! i)) (snd (shapes ! i)) (tensors ! i) point)
          \<and> (\<forall>p. lp_rows p * lp_cols p = wl_total_len L \<and> lp_col_bits p \<le> length point \<and> length point < 64
                \<longrightarrow> claim_geom p c \<noteq> None)))"
  by (rule tensor_claims [OF assms])

theorem placed_claims_witness:
  "\<exists>L w c. for_shapes_with_outer_padding [(1, 1), (2, 2)] True = Some L \<and> place L [[5], [1, 2, 3, 4]] = Some w
    \<and> layout_block_claim L 1 [7, 9] = Some c \<and> block_value w c = Some (tensor_value 2 2 [1, 2, 3, 4] [7, 9])"
proof -
  have n: "next_power_of_two (Suc 0) = 1" "next_power_of_two 2 = 2" by (simp_all add: next_power_of_two_def next_power_from.simps)
  have f: "padded_total [(1, 1), (2, 2)] \<le> 2 ^ 61" "padded_total [(1, 1), (2, 2)] \<le> 2 ^ 63" using n by (simp_all add: padded_total_def)
  obtain L where L: "for_shapes_with_outer_padding [(1, 1), (2, 2)] True = Some L" using layout_exists [OF f(2)] by blast
  have s: "length [[5], [1, 2, 3, 4 :: int]] = length [(1, 1), (2, 2 :: nat)]"
    "\<forall>i < length [(1, 1), (2, 2)]. length ([[5], [1, 2, 3, 4]] ! i) = fst ([(1, 1), (2, 2)] ! i) * snd ([(1, 1), (2, 2)] ! i)"
    by (auto simp: less_Suc_eq)
  have "pad_bits 2 = 1" using trailing_zeros_pow [of 1] by (simp add: pad_bits_def next_power_of_two_def next_power_from.simps)
  then show ?thesis using placed_claims [OF L f(1) s] L by (elim exE conjE allE [of _ 1] allE [of _ "[7, 9]"]) auto
qed

end
