(* ===== verification/Gemm_Proof.thy ===== *)
theory Gemm_Proof
  imports Thaler Layer_Layout Hadamard Schedule
begin

text \<open>
  The blind proof of one matrix product, \<^verbatim>\<open>volta-proto/src/gemm_proof.rs\<close>, in its chained form on the CPU: the
  claim on the accumulators comes from the downstream instance, the sumcheck reduces it to one product, and
  both operands leave as authenticated claims on their multilinear extensions, the activation to the wire
  ledger and the weights to the commitment. The variant with an authenticated second activation shares the tail. The
  timings are not modelled, and the counters that the source returns are those of the returned stream.
\<close>

section \<open>Data\<close>

record chain_doms =
  cd_round_masks :: u64
  cd_x_claim :: u64
  cd_w_claim :: u64
  cd_prod_mask :: u64

definition chain_doms_alloc :: "nat \<Rightarrow> doms \<Rightarrow> (chain_doms \<times> doms) option" where
  "chain_doms_alloc k ds =
     do { (round_masks, ds) \<leftarrow> doms_take (word_of_nat (pad_bits k)) ds;
          (x_claim, ds) \<leftarrow> doms_take 1 ds;
          (w_claim, ds) \<leftarrow> doms_take 1 ds;
          (prod_mask, ds) \<leftarrow> doms_take 1 ds;
          Some (\<lparr>cd_round_masks = round_masks, cd_x_claim = x_claim, cd_w_claim = w_claim, cd_prod_mask = prod_mask\<rparr>, ds) }"

record weight_claim =
  wc_point :: "fp2 list"
  wc_value :: prover_authed
  wc_auth_domain :: u64

record wire_out =
  wo_point :: "fp2 list"
  wo_value :: prover_authed
  wo_corr :: fp2

record wire_key =
  wk_point :: "fp2 list"
  wk_key :: verifier_key

record chained_gemm_proof =
  cg_sumcheck :: blind_proof
  cg_prod :: prod_proof

section \<open>Committed weights\<close>

definition prove_gemm_committed_chained ::
  "blake3 \<Rightarrow> chacha \<Rightarrow> i16 list \<Rightarrow> i16 list \<Rightarrow> nat \<Rightarrow> nat \<Rightarrow> nat \<Rightarrow> fp2 list \<Rightarrow> fp2 list \<Rightarrow> prover_authed \<Rightarrow> chain_doms
   \<Rightarrow> correlation_stream \<Rightarrow> transcript
   \<Rightarrow> (chained_gemm_proof \<times> wire_out \<times> fp2 \<times> weight_claim \<times> correlation_stream \<times> transcript) option" where
  "prove_gemm_committed_chained H chacha x w m k n r_i r_j claim0 dm s tx =
     (if length r_i = pad_bits m \<and> length r_j = pad_bits n then
        do { a \<leftarrow> fold_x x m k (eq_vec r_i);
             b \<leftarrow> fold_w w k n (eq_vec r_j);
             (sumcheck, point, claim_n, s, tx) \<leftarrow> blind_prove H chacha a b claim0 s (cd_round_masks dm) tx;
             x_val \<leftarrow> eval_mle a point;
             b_final \<leftarrow> eval_mle b point;
             (fx, s) \<leftarrow> draw_one chacha (cd_x_claim dm) s;
             let corr_x = x_val - fc_x fx;
             tx \<leftarrow> append_fp2s ''x_claim_correction'' [corr_x] tx;
             let x_auth = full_authenticate fx x_val;
             (fw, s) \<leftarrow> draw_one chacha (cd_w_claim dm) s;
             let corr_w = b_final - fc_x fw;
             tx \<leftarrow> append_fp2s ''w_claim_correction'' [corr_w] tx;
             let b_auth = full_authenticate fw b_final;
             (pmask, s) \<leftarrow> draw_product_mask chacha (cd_prod_mask dm) 1 s;
             (chi, tx) \<leftarrow> challenge_fp2 H tx;
             (prod, tx) \<leftarrow> prod_batch_prover [(x_auth, b_auth, claim_n)] chi pmask tx;
             Some (\<lparr>cg_sumcheck = sumcheck, cg_prod = prod\<rparr>,
                   \<lparr>wo_point = point @ r_i, wo_value = x_auth, wo_corr = corr_x\<rparr>,
                   corr_w,
                   \<lparr>wc_point = r_j @ point, wc_value = b_auth, wc_auth_domain = cd_w_claim dm\<rparr>, s, tx) }
      else None)"

text \<open>The inner option is the verdict of the verifier.\<close>

definition verify_gemm_committed_chained ::
  "blake3 \<Rightarrow> chacha \<Rightarrow> nat \<Rightarrow> nat \<Rightarrow> nat \<Rightarrow> fp2 list \<Rightarrow> fp2 list \<Rightarrow> verifier_key \<Rightarrow> chained_gemm_proof \<Rightarrow> fp2 \<Rightarrow> fp2
   \<Rightarrow> chain_doms \<Rightarrow> verifier_ctx \<Rightarrow> transcript
   \<Rightarrow> ((wire_key \<times> fp2 list \<times> verifier_key) option \<times> verifier_ctx \<times> transcript) option" where
  "verify_gemm_committed_chained H chacha m k n r_i r_j k_claim0 proof x_corr corr_w dm v tx =
     (if length r_i \<noteq> pad_bits m \<or> length r_j \<noteq> pad_bits n then Some (None, v, tx)
      else do { (r, v, tx) \<leftarrow> blind_verify H chacha (pad_bits k) k_claim0 (cg_sumcheck proof) v (cd_round_masks dm) tx;
                case r of
                  None \<Rightarrow> Some (None, v, tx)
                | Some (point, k_claim_n) \<Rightarrow> do {
                    tx \<leftarrow> append_fp2s ''x_claim_correction'' [x_corr] tx;
                    (k_x, v) \<leftarrow> correct_full_verifier_key chacha (cd_x_claim dm) x_corr v;
                    tx \<leftarrow> append_fp2s ''w_claim_correction'' [corr_w] tx;
                    (k_w, v) \<leftarrow> correct_full_verifier_key chacha (cd_w_claim dm) corr_w v;
                    (k_mask, v) \<leftarrow> expand_product_mask_verifier_key chacha (cd_prod_mask dm) 1 v;
                    (chi, tx) \<leftarrow> challenge_fp2 H tx;
                    tx \<leftarrow> append_fp2s ''prod_check_m0_m1'' [pp_m0 (cg_prod proof), pp_m1 (cg_prod proof)] tx;
                    if prod_batch_verify [(k_x, k_w, k_claim_n)] k_mask (vc_delta v) chi (cg_prod proof)
                    then Some (Some (\<lparr>wk_point = point @ r_i, wk_key = k_x\<rparr>, r_j @ point, k_w), v, tx)
                    else Some (None, v, tx) } })"

section \<open>Two activations\<close>

record batch_job =
  bj_site_id :: site_id
  bj_a :: "fp2 list"
  bj_b :: "fp2 list"
  bj_claim0 :: prover_authed
  bj_mask_dom_base :: u64

definition prepare_gemm_act_chained_batch ::
  "site_id \<Rightarrow> i16 list \<Rightarrow> fp2 list \<Rightarrow> nat \<Rightarrow> nat \<Rightarrow> nat \<Rightarrow> fp2 list \<Rightarrow> fp2 list \<Rightarrow> prover_authed \<Rightarrow> chain_doms \<Rightarrow> batch_job option" where
  "prepare_gemm_act_chained_batch site x b_folded m k n r_i r_j claim0 dm =
     (if length r_i = pad_bits m \<and> length r_j = pad_bits n \<and> length b_folded = 2 ^ pad_bits k then
        do { a \<leftarrow> fold_x x m k (eq_vec r_i);
             Some \<lparr>bj_site_id = site, bj_a = a, bj_b = b_folded, bj_claim0 = claim0, bj_mask_dom_base = cd_round_masks dm\<rparr> }
      else None)"

record act_rounds =
  ar_site_id :: "site_id option"
  ar_sumcheck :: blind_proof
  ar_point :: "fp2 list"
  ar_claim :: prover_authed
  ar_x_final :: fp2
  ar_b_final :: fp2

definition finalize_gemm_act_chained ::
  "blake3 \<Rightarrow> chacha \<Rightarrow> act_rounds \<Rightarrow> fp2 list \<Rightarrow> prover_authed \<Rightarrow> chain_doms \<Rightarrow> correlation_stream \<Rightarrow> transcript
   \<Rightarrow> (accel_error + chained_gemm_proof \<times> wire_out \<times> fp2 list \<times> correlation_stream \<times> transcript) option" where
  "finalize_gemm_act_chained H chacha rounds r_i b_open dm s tx =
     (if pa_x b_open \<noteq> ar_b_final rounds then Some (Inl (InvalidInput ''activation GEMM boundary opening value mismatch''))
      else do { (x_mask, s) \<leftarrow> draw_one chacha (cd_x_claim dm) s;
                let corr_x = ar_x_final rounds - fc_x x_mask;
                tx \<leftarrow> append_fp2s ''x_claim_correction'' [corr_x] tx;
                let x_auth = full_authenticate x_mask (ar_x_final rounds);
                (pmask, s) \<leftarrow> draw_product_mask chacha (cd_prod_mask dm) 1 s;
                (chi, tx) \<leftarrow> challenge_fp2 H tx;
                (prod, tx) \<leftarrow> prod_batch_prover [(x_auth, b_open, ar_claim rounds)] chi pmask tx;
                Some (Inr (\<lparr>cg_sumcheck = ar_sumcheck rounds, cg_prod = prod\<rparr>,
                           \<lparr>wo_point = ar_point rounds @ r_i, wo_value = x_auth, wo_corr = corr_x\<rparr>,
                           ar_point rounds, s, tx)) })"

text \<open>The opening of the second operand at the sumcheck point is the caller's: it is the argument \<open>open_b\<close>.\<close>

definition prove_gemm_act_chained ::
  "blake3 \<Rightarrow> chacha \<Rightarrow> i16 list \<Rightarrow> fp2 list \<Rightarrow> nat \<Rightarrow> nat \<Rightarrow> nat \<Rightarrow> fp2 list \<Rightarrow> fp2 list \<Rightarrow> prover_authed
   \<Rightarrow> (fp2 list \<Rightarrow> prover_authed) \<Rightarrow> chain_doms \<Rightarrow> correlation_stream \<Rightarrow> transcript
   \<Rightarrow> (chained_gemm_proof \<times> wire_out \<times> fp2 list \<times> correlation_stream \<times> transcript) option" where
  "prove_gemm_act_chained H chacha x b_folded m k n r_i r_j claim0 open_b dm s tx =
     do { job \<leftarrow> prepare_gemm_act_chained_batch (site_new 0 BlindProduct 0) x b_folded m k n r_i r_j claim0 dm;
          (sumcheck, point, claim_n, s, tx) \<leftarrow>
            blind_prove H chacha (bj_a job) (bj_b job) (bj_claim0 job) s (bj_mask_dom_base job) tx;
          x_final \<leftarrow> eval_mle (bj_a job) point;
          b_final \<leftarrow> eval_mle (bj_b job) point;
          r \<leftarrow> finalize_gemm_act_chained H chacha
                 \<lparr>ar_site_id = None, ar_sumcheck = sumcheck, ar_point = point, ar_claim = claim_n,
                  ar_x_final = x_final, ar_b_final = b_final\<rparr> r_i (open_b point) dm s tx;
          case r of Inl _ \<Rightarrow> None | Inr out \<Rightarrow> Some out }"

definition finalize_verify_gemm_act_chained ::
  "blake3 \<Rightarrow> chacha \<Rightarrow> fp2 list \<Rightarrow> verifier_key \<Rightarrow> fp2 list \<Rightarrow> chained_gemm_proof \<Rightarrow> fp2 \<Rightarrow> verifier_key \<Rightarrow> chain_doms
   \<Rightarrow> verifier_ctx \<Rightarrow> transcript \<Rightarrow> ((wire_key \<times> fp2 list) option \<times> verifier_ctx \<times> transcript) option" where
  "finalize_verify_gemm_act_chained H chacha point k_claim_n r_i proof x_corr k_b dm v tx =
     do { tx \<leftarrow> append_fp2s ''x_claim_correction'' [x_corr] tx;
          (k_x, v) \<leftarrow> correct_full_verifier_key chacha (cd_x_claim dm) x_corr v;
          (k_mask, v) \<leftarrow> expand_product_mask_verifier_key chacha (cd_prod_mask dm) 1 v;
          (chi, tx) \<leftarrow> challenge_fp2 H tx;
          tx \<leftarrow> append_fp2s ''prod_check_m0_m1'' [pp_m0 (cg_prod proof), pp_m1 (cg_prod proof)] tx;
          if prod_batch_verify [(k_x, k_b, k_claim_n)] k_mask (vc_delta v) chi (cg_prod proof)
          then Some (Some (\<lparr>wk_point = point @ r_i, wk_key = k_x\<rparr>, point), v, tx)
          else Some (None, v, tx) }"

definition verify_gemm_act_chained ::
  "blake3 \<Rightarrow> chacha \<Rightarrow> nat \<Rightarrow> nat \<Rightarrow> nat \<Rightarrow> fp2 list \<Rightarrow> fp2 list \<Rightarrow> verifier_key \<Rightarrow> chained_gemm_proof \<Rightarrow> fp2
   \<Rightarrow> (fp2 list \<Rightarrow> verifier_key) \<Rightarrow> chain_doms \<Rightarrow> verifier_ctx \<Rightarrow> transcript
   \<Rightarrow> ((wire_key \<times> fp2 list) option \<times> verifier_ctx \<times> transcript) option" where
  "verify_gemm_act_chained H chacha m k n r_i r_j k_claim0 proof x_corr open_b_key dm v tx =
     (if length r_i \<noteq> pad_bits m \<or> length r_j \<noteq> pad_bits n then Some (None, v, tx)
      else do { (r, v, tx) \<leftarrow> blind_verify H chacha (pad_bits k) k_claim0 (cg_sumcheck proof) v (cd_round_masks dm) tx;
                case r of
                  None \<Rightarrow> Some (None, v, tx)
                | Some (point, k_claim_n) \<Rightarrow>
                    finalize_verify_gemm_act_chained H chacha point k_claim_n r_i proof x_corr (open_b_key point) dm v tx })"

section \<open>The folded operands\<close>

lemma phi_base: "- (2 ^ 63) \<le> z \<Longrightarrow> z < 2 ^ 63 \<Longrightarrow> fp2_from_base (fp_from_i64 z) = phi z"
  by (simp add: phi_def fp_from_i64_of_int)

lemma phi_i16: "fp2_from_base (fp_from_i64 (sint v)) = phi (sint v)" for v :: i16
  using sint_lt [of v] sint_ge [of v] by (intro phi_base) simp_all

text \<open>The folded operands evaluate to the extensions of the two matrices, with the inherited point completed by the
  sumcheck point.\<close>

lemma eval_padded:
  assumes "length A = 2 ^ length point" "k \<le> 2 ^ length point" "\<And>l. l < 2 ^ length point \<Longrightarrow> A ! l = (if l < k then f l else 0)"
  shows "eval_mle A point = Some (\<Sum>l<k. f l * eq_vec point ! l)"
proof -
  have "dot (2 ^ length point) A (eq_vec point) = (\<Sum>l<k. A ! l * eq_vec point ! l)"
    unfolding dot_def using assms(2) by (intro sum.mono_neutral_right) (auto simp: assms(3))
  also have "\<dots> = (\<Sum>l<k. f l * eq_vec point ! l)" using assms(2,3) by (intro sum.cong) auto
  finally show ?thesis using eval_mle_dot [of A point] assms(1) by simp
qed

lemma pad_le: "x \<le> 2 ^ pad_bits x"
  using next_power_of_two_pad [of x] by simp

lemma row_index_bound: "i < m \<Longrightarrow> l < k \<Longrightarrow> i * k + l < m * k" for m :: nat
  using mult_le_mono1 [of "Suc i" m k] by simp

lemma fold_x_tensor:
  assumes "length x = m * k" "length r_i = pad_bits m" "length point = pad_bits k"
    and "fold_x x m k (eq_vec r_i) = Some A"
  shows "eval_mle A point = Some (tensor_value m k (map sint x) (point @ r_i))"
proof -
  have "m \<le> length (eq_vec r_i)" using pad_le [of m] assms(2) by simp
  then have A: "length A = 2 ^ length point" "\<And>l. l < 2 ^ length point \<Longrightarrow> A ! l = (if l < k then \<Sum>i<m. eq_vec r_i ! i * phi (sint (x ! (i * k + l))) else 0)"
    using fold_x_value [OF assms(1), of "eq_vec r_i"] assms(3,4) by auto
  have x: "i * k + l < length x" if "i < m" "l < k" for i l using that assms(1) by (simp add: row_index_bound)
  have "(\<Sum>l<k. (\<Sum>i<m. eq_vec r_i ! i * phi (sint (x ! (i * k + l)))) * eq_vec point ! l)
      = (\<Sum>i<m. \<Sum>l<k. phi (sint (x ! (i * k + l))) * (eq_vec r_i ! i * eq_vec point ! l))"
    unfolding sum_distrib_right by (subst sum.swap) (simp add: ac_simps)
  also have "\<dots> = tensor_value m k (map sint x) (point @ r_i)"
    unfolding tensor_value_def using assms(3) x by (simp add: phi_i16)
  finally show ?thesis using eval_padded [OF A(1) _ A(2)] pad_le [of k] assms(3) by simp
qed

lemma fold_w_tensor:
  assumes "length w = k * n" "length r_j = pad_bits n" "length point = pad_bits k"
    and "fold_w w k n (eq_vec r_j) = Some B"
  shows "eval_mle B point = Some (tensor_value k n (map sint w) (r_j @ point))"
proof -
  have "n \<le> length (eq_vec r_j)" using pad_le [of n] assms(2) by simp
  then have B: "length B = 2 ^ length point" "\<And>l. l < 2 ^ length point \<Longrightarrow> B ! l = (if l < k then \<Sum>j<n. eq_vec r_j ! j * phi (sint (w ! (l * n + j))) else 0)"
    using fold_w_value [OF assms(1), of "eq_vec r_j"] assms(3,4) by auto
  have w: "l * n + j < length w" if "l < k" "j < n" for l j using that assms(1) by (simp add: row_index_bound)
  have "(\<Sum>l<k. (\<Sum>j<n. eq_vec r_j ! j * phi (sint (w ! (l * n + j)))) * eq_vec point ! l)
      = (\<Sum>l<k. \<Sum>j<n. phi (sint (w ! (l * n + j))) * (eq_vec point ! l * eq_vec r_j ! j))"
    unfolding sum_distrib_right by (simp add: ac_simps)
  also have "\<dots> = tensor_value k n (map sint w) (r_j @ point)"
    unfolding tensor_value_def using assms(2) w by (simp add: phi_i16)
  finally show ?thesis using eval_padded [OF B(1) _ B(2)] pad_le [of k] assms(3) by simp
qed

section \<open>The closing product\<close>

lemma draws_Product:
  assumes "run_machine (prover_draw chacha) (DProduct d t # ops) s \<noteq> None"
  obtains m s' where "draw_product_mask chacha d t s = Some (m, s')" "run_machine (prover_draw chacha) ops s' \<noteq> None"
proof -
  obtain outs u where "run_machine (prover_draw chacha) (DProduct d t # ops) s = Some (outs, u)" using assms by auto
  then show ?thesis
  proof (rule run_machine_Cons_Some)
    fix out s1 outs1
    assume "prover_draw chacha (DProduct d t) s = Some (out, s1)" "run_machine (prover_draw chacha) ops s1 = Some (outs1, u)"
    then show ?thesis using that by auto
  qed
qed

lemma prod_batch_prover_append:
  assumes "prod_batch_prover ts chi pmask tx = Some (pf, tx')"
  shows "append_fp2s ''prod_check_m0_m1'' [pp_m0 pf, pp_m1 pf] tx = Some tx'"
  using assms by (auto simp: prod_batch_prover_eq Let_def split: if_splits)

text \<open>The end of every product argument: one true triple with valid keys passes the product check on both sides.\<close>

lemma product_close:
  assumes "run_machine (prover_draw chacha) (DProduct d 1 # ops) s \<noteq> None" "twin s v" "is_fiat_shamir tx"
    and "mac_valid (vc_delta v) a ka" "mac_valid (vc_delta v) b kb" "mac_valid (vc_delta v) c kc" "pa_x c = pa_x a * pa_x b"
  obtains pmask s' k_mask v' chi tx1 prod tx' where
    "draw_product_mask chacha d 1 s = Some (pmask, s')" "challenge_fp2 H tx = Some (chi, tx1)"
    "prod_batch_prover [(a, b, c)] chi pmask tx1 = Some (prod, tx')"
    "expand_product_mask_verifier_key chacha d 1 v = Some (k_mask, v')"
    "append_fp2s ''prod_check_m0_m1'' [pp_m0 prod, pp_m1 prod] tx1 = Some tx'"
    "prod_batch_verify [(ka, kb, kc)] k_mask (vc_delta v') chi prod" "twin s' v'" "vc_delta v' = vc_delta v"
    "is_fiat_shamir tx'" "run_machine (prover_draw chacha) ops s' \<noteq> None"
proof -
  obtain pmask s' where m: "draw_product_mask chacha d 1 s = Some (pmask, s')" "run_machine (prover_draw chacha) ops s' \<noteq> None"
    using assms(1) by (rule draws_Product)
  obtain v' where v': "expand_product_mask_key chacha d 1 v = Some (fc_m (pm_corr pmask) + vc_delta v * fc_x (pm_corr pmask), v')"
    "twin s' v'" "vc_delta v' = vc_delta v" "pm_triples pmask = 1"
    using product_mask_twin [OF m(1) assms(2)] by blast
  obtain chi tx1 where c: "challenge_fp2 H tx = Some (chi, tx1)" "is_fiat_shamir tx1" using fs_challenge [OF assms(3)] by blast
  let ?k = "key_new (fc_m (pm_corr pmask) + vc_delta v * fc_x (pm_corr pmask))"
  have "\<forall>t \<in> set [(a, b, c)]. defect t = 0" using assms(7) by (simp add: defect_def)
  then obtain prod tx' where p: "prod_batch_prover [(a, b, c)] chi pmask tx1 = Some (prod, tx')"
    "prod_batch_verify (map (triple_keys (vc_delta v)) [(a, b, c)]) ?k (vc_delta v) chi prod"
    using prod_batch_complete [of "[(a, b, c)]" pmask ?k "vc_delta v" chi tx1] v'(4) by auto
  have "prod_batch_verify [(ka, kb, kc)] ?k (vc_delta v') chi prod" using p(2) assms(4-6) v'(3) by (simp add: mac_valid_iff)
  moreover have "is_fiat_shamir tx'" using fs_append [OF c(2), of "''prod_check_m0_m1''" "[pp_m0 prod, pp_m1 prod]"] prod_batch_prover_append [OF p(1)] by auto
  ultimately show ?thesis
    using that [OF m(1) c(1) p(1) _ prod_batch_prover_append [OF p(1)]] v' m(2) by (simp add: expand_product_mask_verifier_key_def)
qed

section \<open>Completeness\<close>

definition chain_draws :: "chain_doms \<Rightarrow> nat \<Rightarrow> draw_op list" where
  "chain_draws dm n = round_draws (cd_round_masks dm) 2 0 n
     @ [DFull (cd_x_claim dm) 1, DFull (cd_w_claim dm) 1, DProduct (cd_prod_mask dm) 1]"

definition act_draws :: "chain_doms \<Rightarrow> nat \<Rightarrow> draw_op list" where
  "act_draws dm n = round_draws (cd_round_masks dm) 2 0 n @ [DFull (cd_x_claim dm) 1, DProduct (cd_prod_mask dm) 1]"

text \<open>The rounds with further draws to come.\<close>

lemma blind_run:
  assumes "length a = 2 ^ n" "length b = 2 ^ n" "1 \<le> n" "is_fiat_shamir tx"
    and "run_machine (prover_draw chacha) (round_draws base 2 0 n @ ops) s \<noteq> None" "twin s v"
    and "mac_valid (vc_delta v) claim0 k0" "pa_x claim0 = dot (2 ^ n) a b"
  obtains pf point claim s' tx' k v' af bf where
    "blind_prove H chacha a b claim0 s base tx = Some (pf, point, claim, s', tx')"
    "blind_verify H chacha n k0 pf v base tx = Some (Some (point, k), v', tx')"
    "length point = n" "is_fiat_shamir tx'" "run_machine (prover_draw chacha) ops s' \<noteq> None"
    "twin s' v'" "vc_delta v' = vc_delta v" "mac_valid (vc_delta v) claim k" "pa_x claim = af * bf"
    "eval_mle a point = Some af" "eval_mle b point = Some bf"
proof -
  let ?l = "''blind_round_corrections''"
  have "length ?l < 2 ^ 16" by simp
  from blind_rounds [OF assms(1,2,4) this assms(5-8), of H]
  obtain corrs point claim s' tx' k v' where r:
    "blind_prove_loop H chacha ?l base 0 n a b claim0 s tx
        = Some (corrs, point, claim, eval_mle_loop a point, eval_mle_loop b point, s', tx')"
    "blind_verify_loop H chacha ?l base 0 corrs k0 v tx = Some (point, k, v', tx')"
    "length point = n" "length corrs = n" "is_fiat_shamir tx'" "run_machine (prover_draw chacha) ops s' \<noteq> None"
    "twin s' v'" "vc_delta v' = vc_delta v" "mac_valid (vc_delta v) claim k"
    "pa_x claim = eval_mle_loop a point ! 0 * eval_mle_loop b point ! 0" by blast
  have "2 \<le> length a" using assms(1,3) power_increasing [of 1 n "2 :: nat"] by simp
  moreover have "is_power_of_two (length a)" "trailing_zeros (length a) = n" using assms(1) by (auto simp: is_power_of_two_iff)
  moreover have "get (eval_mle_loop a point) 0 = Some (eval_mle_loop a point ! 0)" "get (eval_mle_loop b point) 0 = Some (eval_mle_loop b point ! 0)"
    using assms(1,2) r(3) by (simp_all add: eval_mle_loop_dot)
  ultimately have "blind_prove H chacha a b claim0 s base tx = Some (\<lparr>round_corrs = corrs\<rparr>, point, claim, s', tx')"
    using r(1) assms(1,2) by (simp add: blind_prove_def blind_prove_with_finals_def blind_prove_with_finals_labeled_def)
  moreover have "blind_verify H chacha n k0 \<lparr>round_corrs = corrs\<rparr> v base tx = Some (Some (point, k), v', tx')"
    using r(2,4) by (simp add: blind_verify_def blind_verify_labeled_def)
  moreover have "eval_mle a point = Some (eval_mle_loop a point ! 0)" "eval_mle b point = Some (eval_mle_loop b point ! 0)"
    using assms(1,2) r(3) by (simp_all add: eval_mle_full)
  ultimately show ?thesis using that r(3,5-10) by blast
qed

lemma pad_bits_pos: "2 \<le> k \<Longrightarrow> 1 \<le> pad_bits k"
  using pad_le [of k] by (cases "pad_bits k") simp_all

lemma chained_run:
  assumes "length x = m * k" "length w = k * n" "2 \<le> k" "k < 2 ^ 33" "n \<noteq> 0" "length r_i = pad_bits m" "length r_j = pad_bits n"
    and "gemm_i64 x w m k n = Some y" "fold_y_acc y m n (eq_vec r_i) (eq_vec r_j) = Some (pa_x claim0)"
    and "is_fiat_shamir tx" "run_machine (prover_draw chacha) (chain_draws dm (pad_bits k) @ ops) s \<noteq> None" "twin s v"
    and "mac_valid (vc_delta v) claim0 k0"
  shows "\<exists>pf wire corr_w wc s' tx' k_x k_w v'.
    prove_gemm_committed_chained H chacha x w m k n r_i r_j claim0 dm s tx = Some (pf, wire, corr_w, wc, s', tx')
    \<and> verify_gemm_committed_chained H chacha m k n r_i r_j k0 pf (wo_corr wire) corr_w dm v tx
        = Some (Some (\<lparr>wk_point = wo_point wire, wk_key = k_x\<rparr>, wc_point wc, k_w), v', tx')
    \<and> mac_valid (vc_delta v) (wo_value wire) k_x \<and> mac_valid (vc_delta v) (wc_value wc) k_w
    \<and> pa_x (wo_value wire) = tensor_value m k (map sint x) (wo_point wire)
    \<and> pa_x (wc_value wc) = tensor_value k n (map sint w) (wc_point wc)
    \<and> length (wo_point wire) = pad_bits k + pad_bits m \<and> length (wc_point wc) = pad_bits n + pad_bits k
    \<and> twin s' v' \<and> vc_delta v' = vc_delta v \<and> is_fiat_shamir tx' \<and> run_machine (prover_draw chacha) ops s' \<noteq> None"
proof -
  have eq: "m \<le> length (eq_vec r_i)" "n \<le> length (eq_vec r_j)" using pad_le assms(6,7) by simp_all
  obtain A B where ab: "fold_x x m k (eq_vec r_i) = Some A" "fold_w w k n (eq_vec r_j) = Some B"
    "length A = 2 ^ pad_bits k" "length B = 2 ^ pad_bits k" "pa_x claim0 = dot (2 ^ pad_bits k) A B"
    using matrix_product_folds [OF assms(1,2,5,4) eq] assms(8,9) by auto
  have dr: "run_machine (prover_draw chacha) (round_draws (cd_round_masks dm) 2 0 (pad_bits k)
      @ DFull (cd_x_claim dm) 1 # DFull (cd_w_claim dm) 1 # DProduct (cd_prod_mask dm) 1 # ops) s \<noteq> None"
    using assms(11) by (simp add: chain_draws_def)
  obtain sc point claim s1 tx1 k1 v1 xv bv where r:
    "blind_prove H chacha A B claim0 s (cd_round_masks dm) tx = Some (sc, point, claim, s1, tx1)"
    "blind_verify H chacha (pad_bits k) k0 sc v (cd_round_masks dm) tx = Some (Some (point, k1), v1, tx1)"
    "length point = pad_bits k" "is_fiat_shamir tx1"
    "run_machine (prover_draw chacha) (DFull (cd_x_claim dm) 1 # DFull (cd_w_claim dm) 1 # DProduct (cd_prod_mask dm) 1 # ops) s1 \<noteq> None"
    "twin s1 v1" "vc_delta v1 = vc_delta v" "mac_valid (vc_delta v) claim k1" "pa_x claim = xv * bv"
    "eval_mle A point = Some xv" "eval_mle B point = Some bv"
    by (rule blind_run [OF ab(3,4) pad_bits_pos [OF assms(3)] assms(10) dr assms(12,13) ab(5), where H = H])
  obtain fx s2 where fx: "draw_one chacha (cd_x_claim dm) s1 = Some (fx, s2)"
    "run_machine (prover_draw chacha) (DFull (cd_w_claim dm) 1 # DProduct (cd_prod_mask dm) 1 # ops) s2 \<noteq> None"
    "\<And>x. \<exists>k v'. correct_full_verifier_key chacha (cd_x_claim dm) (x - fc_x fx) v1 = Some (k, v') \<and> twin s2 v' \<and> vc_delta v' = vc_delta v1
        \<and> mac_valid (vc_delta v1) (full_authenticate fx x) k" using one_transfer [OF r(5,6)] by blast
  obtain kx v2 where kx: "correct_full_verifier_key chacha (cd_x_claim dm) (xv - fc_x fx) v1 = Some (kx, v2)" "twin s2 v2"
    "vc_delta v2 = vc_delta v" "mac_valid (vc_delta v) (full_authenticate fx xv) kx" using fx(3) r(7) by metis
  obtain fw s3 where fw: "draw_one chacha (cd_w_claim dm) s2 = Some (fw, s3)"
    "run_machine (prover_draw chacha) (DProduct (cd_prod_mask dm) 1 # ops) s3 \<noteq> None"
    "\<And>x. \<exists>k v'. correct_full_verifier_key chacha (cd_w_claim dm) (x - fc_x fw) v2 = Some (k, v') \<and> twin s3 v' \<and> vc_delta v' = vc_delta v2
        \<and> mac_valid (vc_delta v2) (full_authenticate fw x) k" using one_transfer [OF fx(2) kx(2)] by blast
  obtain kw v3 where kw: "correct_full_verifier_key chacha (cd_w_claim dm) (bv - fc_x fw) v2 = Some (kw, v3)" "twin s3 v3"
    "vc_delta v3 = vc_delta v" "mac_valid (vc_delta v) (full_authenticate fw bv) kw" using fw(3) kx(3) by metis
  obtain tx2 where tx2: "append_fp2s ''x_claim_correction'' [xv - fc_x fx] tx1 = Some tx2" "is_fiat_shamir tx2"
    using fs_append [OF r(4), of "''x_claim_correction''"] by auto
  obtain tx3 where tx3: "append_fp2s ''w_claim_correction'' [bv - fc_x fw] tx2 = Some tx3" "is_fiat_shamir tx3"
    using fs_append [OF tx2(2), of "''w_claim_correction''"] by auto
  have val: "mac_valid (vc_delta v3) (full_authenticate fx xv) kx" "mac_valid (vc_delta v3) (full_authenticate fw bv) kw"
    "mac_valid (vc_delta v3) claim k1" "pa_x claim = pa_x (full_authenticate fx xv) * pa_x (full_authenticate fw bv)"
    using kx(4) kw(3,4) r(8,9) by (simp_all add: full_authenticate_def)
  obtain pmask s4 k_mask v4 chi tx4 prod tx5 where p:
    "draw_product_mask chacha (cd_prod_mask dm) 1 s3 = Some (pmask, s4)" "challenge_fp2 H tx3 = Some (chi, tx4)"
    "prod_batch_prover [(full_authenticate fx xv, full_authenticate fw bv, claim)] chi pmask tx4 = Some (prod, tx5)"
    "expand_product_mask_verifier_key chacha (cd_prod_mask dm) 1 v3 = Some (k_mask, v4)"
    "append_fp2s ''prod_check_m0_m1'' [pp_m0 prod, pp_m1 prod] tx4 = Some tx5"
    "prod_batch_verify [(kx, kw, k1)] k_mask (vc_delta v4) chi prod" "twin s4 v4" "vc_delta v4 = vc_delta v3"
    "is_fiat_shamir tx5" "run_machine (prover_draw chacha) ops s4 \<noteq> None"
    by (rule product_close [OF fw(2) kw(2) tx3(2) val, where H = H])
  let ?pf = "\<lparr>cg_sumcheck = sc, cg_prod = prod\<rparr>"
  let ?wire = "\<lparr>wo_point = point @ r_i, wo_value = full_authenticate fx xv, wo_corr = xv - fc_x fx\<rparr>"
  let ?wc = "\<lparr>wc_point = r_j @ point, wc_value = full_authenticate fw bv, wc_auth_domain = cd_w_claim dm\<rparr>"
  have "prove_gemm_committed_chained H chacha x w m k n r_i r_j claim0 dm s tx = Some (?pf, ?wire, bv - fc_x fw, ?wc, s4, tx5)"
    using ab(1,2) r(1,10,11) fx(1) fw(1) tx2(1) tx3(1) p(1-3) assms(6,7) by (simp add: prove_gemm_committed_chained_def Let_def)
  moreover have "verify_gemm_committed_chained H chacha m k n r_i r_j k0 ?pf (wo_corr ?wire) (bv - fc_x fw) dm v tx
      = Some (Some (\<lparr>wk_point = wo_point ?wire, wk_key = kx\<rparr>, wc_point ?wc, kw), v4, tx5)"
    using r(2) kx(1) kw(1) tx2(1) tx3(1) p(2,4-6) assms(6,7) by (simp add: verify_gemm_committed_chained_def)
  moreover have "pa_x (wo_value ?wire) = tensor_value m k (map sint x) (wo_point ?wire)"
    using fold_x_tensor [OF assms(1,6) r(3) ab(1)] r(10) by (simp add: full_authenticate_def)
  moreover have "pa_x (wc_value ?wc) = tensor_value k n (map sint w) (wc_point ?wc)"
    using fold_w_tensor [OF assms(2,7) r(3) ab(2)] r(11) by (simp add: full_authenticate_def)
  moreover have "mac_valid (vc_delta v) (wo_value ?wire) kx" "mac_valid (vc_delta v) (wc_value ?wc) kw"
    "length (wo_point ?wire) = pad_bits k + pad_bits m" "length (wc_point ?wc) = pad_bits n + pad_bits k"
    "vc_delta v4 = vc_delta v" using kx(4) kw(3,4) r(3) assms(6,7) p(8) by simp_all
  ultimately show ?thesis using p(7,9,10) by blast
qed

text \<open>
  The chained proof of a committed matrix product is complete: on a Fiat--Shamir transcript, with
  twin expanders that can make its draws and a valid key of the claim that the native kernel's accumulators fold
  to, the prover returns and the verifier accepts with the same points and transcript; both outward claims have
  valid keys, and their values are the multilinear extensions of the activation and of the weights at these points.
\<close>

theorem chained_gemm_complete:
  assumes "length x = m * k" "length w = k * n" "2 \<le> k" "k < 2 ^ 33" "n \<noteq> 0" "length r_i = pad_bits m" "length r_j = pad_bits n"
    and "gemm_i64 x w m k n = Some y" "fold_y_acc y m n (eq_vec r_i) (eq_vec r_j) = Some (pa_x claim0)"
    and "is_fiat_shamir tx" "run_machine (prover_draw chacha) (chain_draws dm (pad_bits k)) s \<noteq> None" "twin s v"
    and "mac_valid (vc_delta v) claim0 k0"
  shows "\<exists>pf wire corr_w wc s' tx' k_x k_w v'.
    prove_gemm_committed_chained H chacha x w m k n r_i r_j claim0 dm s tx = Some (pf, wire, corr_w, wc, s', tx')
    \<and> verify_gemm_committed_chained H chacha m k n r_i r_j k0 pf (wo_corr wire) corr_w dm v tx
        = Some (Some (\<lparr>wk_point = wo_point wire, wk_key = k_x\<rparr>, wc_point wc, k_w), v', tx')
    \<and> mac_valid (vc_delta v) (wo_value wire) k_x \<and> mac_valid (vc_delta v) (wc_value wc) k_w
    \<and> pa_x (wo_value wire) = tensor_value m k (map sint x) (wo_point wire)
    \<and> pa_x (wc_value wc) = tensor_value k n (map sint w) (wc_point wc) \<and> twin s' v'"
proof -
  have "run_machine (prover_draw chacha) (chain_draws dm (pad_bits k) @ []) s \<noteq> None" using assms(11) by simp
  from chained_run [OF assms(1-10) this assms(12,13), of H] show ?thesis by blast
qed

text \<open>A small instance: a product of a row and a column of length two.\<close>

lemma pad_bits_small: "pad_bits (Suc 0) = 0" "pad_bits 2 = 1"
  using trailing_zeros_pow [of 0] trailing_zeros_pow [of 1]
  by (simp_all add: pad_bits_def next_power_of_two_def next_power_from.simps)

definition demo_chain :: chain_doms where
  "demo_chain = \<lparr>cd_round_masks = 7, cd_x_claim = 8, cd_w_claim = 9, cd_prod_mask = 10\<rparr>"

lemma demo_chain_draws: "run_machine (prover_draw chacha) (chain_draws demo_chain 1) (demo_stream 5) \<noteq> None"
  by (simp add: chain_draws_def demo_chain_def round_draws_def demo_stream_def stream_from_pcg_pool_def draw_fulls_def
      draw_product_mask_def draw_fulls_with_role_def full_draw_legal_def ledger_open_def
      empty_ledger_def backend_draw_fulls_def pl_draw_fulls_def pl_remaining_full_capacity_def slice_def audit_full_def
      domain_bits Let_def)

theorem chained_gemm_complete_witness:
  "\<exists>y c pf wire corr_w wc s' tx' k_x k_w v'. gemm_i64 [1, 2] [3, - 4] 1 2 1 = Some y
    \<and> prove_gemm_committed_chained demo_hash demo_chacha [1, 2] [3, - 4] 1 2 1 [] [] c demo_chain (demo_stream 5) demo_fs
        = Some (pf, wire, corr_w, wc, s', tx')
    \<and> verify_gemm_committed_chained demo_hash demo_chacha 1 2 1 [] [] (key_of 3 c) pf (wo_corr wire) corr_w demo_chain (demo_ctx 5) demo_fs
        = Some (Some (\<lparr>wk_point = wo_point wire, wk_key = k_x\<rparr>, wc_point wc, k_w), v', tx')
    \<and> pa_x (wc_value wc) = tensor_value 2 1 [3, - 4] (wc_point wc)"
proof -
  have l: "length [1, 2 :: i16] = 1 * 2" "length [3, - 4 :: i16] = 2 * 1" "length ([] :: fp2 list) = pad_bits 1"
    "1 \<le> length (eq_vec [])" by (simp_all add: pad_bits_small)
  obtain y Y where y: "gemm_i64 [1, 2] [3, - 4] 1 2 1 = Some y" "fold_y_acc y 1 1 (eq_vec []) (eq_vec []) = Some Y"
    using matrix_product_folds [OF l(1,2) _ _ l(4,4)] by auto
  let ?c = "prover_authed_new Y 6"
  have d: "vc_delta (demo_ctx 5) = 3" by (simp add: demo_ctx_def ctx_from_pcg_pool_def)
  then have m: "mac_valid (vc_delta (demo_ctx 5)) ?c (key_of 3 ?c)" by (simp add: mac_valid_iff)
  have r: "run_machine (prover_draw demo_chacha) (chain_draws demo_chain (pad_bits 2)) (demo_stream 5) \<noteq> None"
    using demo_chain_draws by (simp add: pad_bits_small)
  have Y: "fold_y_acc y 1 1 (eq_vec []) (eq_vec []) = Some (pa_x ?c)" using y(2) by simp
  from chained_gemm_complete [OF l(1,2) _ _ _ l(3,3) y(1) Y demo_fs r demo_twin m, of demo_hash]
  have "\<exists>pf wire corr_w wc s' tx' k_x k_w v'.
      prove_gemm_committed_chained demo_hash demo_chacha [1, 2] [3, - 4] 1 2 1 [] [] ?c demo_chain (demo_stream 5) demo_fs = Some (pf, wire, corr_w, wc, s', tx')
      \<and> verify_gemm_committed_chained demo_hash demo_chacha 1 2 1 [] [] (key_of 3 ?c) pf (wo_corr wire) corr_w demo_chain (demo_ctx 5) demo_fs
          = Some (Some (\<lparr>wk_point = wo_point wire, wk_key = k_x\<rparr>, wc_point wc, k_w), v', tx')
      \<and> pa_x (wc_value wc) = tensor_value 2 1 (map sint [3, - 4 :: i16]) (wc_point wc)" by auto
  then show ?thesis using y(1) by fastforce
qed

text \<open>
  C18. The product of two activations is complete in the same sense, for every boundary tensor that its owner
  opens correctly: if the caller's opening returns the extension of the folded operand with a valid key, the prover's
  check of the opened value passes, both sides return the same point and transcript, and the claim on
  the activation has a valid key and is its multilinear extension.
\<close>

theorem act_gemm_complete:
  assumes "length x = m * k" "2 \<le> k" "length r_i = pad_bits m" "length r_j = pad_bits n" "length b = 2 ^ pad_bits k"
    and "fold_x x m k (eq_vec r_i) = Some A" "pa_x claim0 = dot (2 ^ pad_bits k) A b"
    and "is_fiat_shamir tx" "run_machine (prover_draw chacha) (act_draws dm (pad_bits k)) s \<noteq> None" "twin s v"
    and "mac_valid (vc_delta v) claim0 k0"
    and "\<And>point. length point = pad_bits k \<Longrightarrow> eval_mle b point = Some (pa_x (open_b point)) \<and> mac_valid (vc_delta v) (open_b point) (open_k point)"
  shows "\<exists>pf wire point s' tx' k_x v'.
    prove_gemm_act_chained H chacha x b m k n r_i r_j claim0 open_b dm s tx = Some (pf, wire, point, s', tx')
    \<and> verify_gemm_act_chained H chacha m k n r_i r_j k0 pf (wo_corr wire) open_k dm v tx
        = Some (Some (\<lparr>wk_point = wo_point wire, wk_key = k_x\<rparr>, point), v', tx')
    \<and> mac_valid (vc_delta v) (wo_value wire) k_x \<and> wo_point wire = point @ r_i
    \<and> pa_x (wo_value wire) = tensor_value m k (map sint x) (wo_point wire) \<and> twin s' v'"
proof -
  have eq: "m \<le> length (eq_vec r_i)" using pad_le assms(3) by simp
  have A: "length A = 2 ^ pad_bits k" using fold_x_value [OF assms(1) eq] assms(6) by auto
  have dr: "run_machine (prover_draw chacha) (round_draws (cd_round_masks dm) 2 0 (pad_bits k)
      @ [DFull (cd_x_claim dm) 1, DProduct (cd_prod_mask dm) 1]) s \<noteq> None" using assms(9) by (simp add: act_draws_def)
  obtain sc point claim s1 tx1 k1 v1 xv bv where r:
    "blind_prove H chacha A b claim0 s (cd_round_masks dm) tx = Some (sc, point, claim, s1, tx1)"
    "blind_verify H chacha (pad_bits k) k0 sc v (cd_round_masks dm) tx = Some (Some (point, k1), v1, tx1)"
    "length point = pad_bits k" "is_fiat_shamir tx1"
    "run_machine (prover_draw chacha) [DFull (cd_x_claim dm) 1, DProduct (cd_prod_mask dm) 1] s1 \<noteq> None"
    "twin s1 v1" "vc_delta v1 = vc_delta v" "mac_valid (vc_delta v) claim k1" "pa_x claim = xv * bv"
    "eval_mle A point = Some xv" "eval_mle b point = Some bv"
    by (rule blind_run [OF A assms(5) pad_bits_pos [OF assms(2)] assms(8) dr assms(10,11,7), where H = H])
  obtain fx s2 where fx: "draw_one chacha (cd_x_claim dm) s1 = Some (fx, s2)"
    "run_machine (prover_draw chacha) [DProduct (cd_prod_mask dm) 1] s2 \<noteq> None"
    "\<And>x. \<exists>k v'. correct_full_verifier_key chacha (cd_x_claim dm) (x - fc_x fx) v1 = Some (k, v') \<and> twin s2 v' \<and> vc_delta v' = vc_delta v1
        \<and> mac_valid (vc_delta v1) (full_authenticate fx x) k" using one_transfer [OF r(5,6)] by blast
  obtain kx v2 where kx: "correct_full_verifier_key chacha (cd_x_claim dm) (xv - fc_x fx) v1 = Some (kx, v2)" "twin s2 v2"
    "vc_delta v2 = vc_delta v" "mac_valid (vc_delta v) (full_authenticate fx xv) kx" using fx(3) r(7) by metis
  obtain tx2 where tx2: "append_fp2s ''x_claim_correction'' [xv - fc_x fx] tx1 = Some tx2" "is_fiat_shamir tx2"
    using fs_append [OF r(4), of "''x_claim_correction''"] by auto
  have b: "pa_x (open_b point) = bv" "mac_valid (vc_delta v) (open_b point) (open_k point)" using assms(12) [OF r(3)] r(11) by simp_all
  have val: "mac_valid (vc_delta v2) (full_authenticate fx xv) kx" "mac_valid (vc_delta v2) (open_b point) (open_k point)"
    "mac_valid (vc_delta v2) claim k1" "pa_x claim = pa_x (full_authenticate fx xv) * pa_x (open_b point)"
    using kx(3,4) b r(8,9) by (simp_all add: full_authenticate_def)
  obtain pmask s3 k_mask v3 chi tx3 prod tx4 where p:
    "draw_product_mask chacha (cd_prod_mask dm) 1 s2 = Some (pmask, s3)" "challenge_fp2 H tx2 = Some (chi, tx3)"
    "prod_batch_prover [(full_authenticate fx xv, open_b point, claim)] chi pmask tx3 = Some (prod, tx4)"
    "expand_product_mask_verifier_key chacha (cd_prod_mask dm) 1 v2 = Some (k_mask, v3)"
    "append_fp2s ''prod_check_m0_m1'' [pp_m0 prod, pp_m1 prod] tx3 = Some tx4"
    "prod_batch_verify [(kx, open_k point, k1)] k_mask (vc_delta v3) chi prod" "twin s3 v3"
    by (rule product_close [OF fx(2) kx(2) tx2(2) val, where H = H])
  let ?pf = "\<lparr>cg_sumcheck = sc, cg_prod = prod\<rparr>"
  let ?wire = "\<lparr>wo_point = point @ r_i, wo_value = full_authenticate fx xv, wo_corr = xv - fc_x fx\<rparr>"
  have "prove_gemm_act_chained H chacha x b m k n r_i r_j claim0 open_b dm s tx = Some (?pf, ?wire, point, s3, tx4)"
    using assms(3-6) r(1,10,11) fx(1) tx2(1) p(1-3) b(1)
    by (simp add: prove_gemm_act_chained_def prepare_gemm_act_chained_batch_def finalize_gemm_act_chained_def Let_def)
  moreover have "verify_gemm_act_chained H chacha m k n r_i r_j k0 ?pf (wo_corr ?wire) open_k dm v tx
      = Some (Some (\<lparr>wk_point = wo_point ?wire, wk_key = kx\<rparr>, point), v3, tx4)"
    using r(2) kx(1) tx2(1) p(2,4-6) assms(3,4) by (simp add: verify_gemm_act_chained_def finalize_verify_gemm_act_chained_def)
  moreover have "pa_x (wo_value ?wire) = tensor_value m k (map sint x) (wo_point ?wire)"
    using fold_x_tensor [OF assms(1,3) r(3) assms(6)] r(10) by (simp add: full_authenticate_def)
  ultimately show ?thesis using p(7) kx(4) by fastforce
qed

text \<open>The opening that the instance uses: the extension of the table with a fixed tag.\<close>

definition demo_open :: "fp2 list \<Rightarrow> fp2 list \<Rightarrow> prover_authed" where
  "demo_open b point = prover_authed_new (dot (length b) b (eq_vec point)) 4"

lemma demo_act_draws: "run_machine (prover_draw chacha) (act_draws demo_chain 1) (demo_stream 4) \<noteq> None"
  by (simp add: act_draws_def demo_chain_def round_draws_def demo_stream_def stream_from_pcg_pool_def draw_fulls_def
      draw_product_mask_def draw_fulls_with_role_def full_draw_legal_def ledger_open_def
      empty_ledger_def backend_draw_fulls_def pl_draw_fulls_def pl_remaining_full_capacity_def slice_def audit_full_def
      domain_bits Let_def)

theorem act_gemm_complete_witness:
  "\<exists>c pf wire point s' tx' k_x v'.
    prove_gemm_act_chained demo_hash demo_chacha [1, 2] [5, 6] 1 2 1 [] [] c (demo_open [5, 6]) demo_chain (demo_stream 4) demo_fs
        = Some (pf, wire, point, s', tx')
    \<and> verify_gemm_act_chained demo_hash demo_chacha 1 2 1 [] [] (key_of 3 c) pf (wo_corr wire) (\<lambda>p. key_of 3 (demo_open [5, 6] p)) demo_chain (demo_ctx 4) demo_fs
        = Some (Some (\<lparr>wk_point = wo_point wire, wk_key = k_x\<rparr>, point), v', tx')"
proof -
  have l: "length [1, 2 :: i16] = 1 * 2" "length ([] :: fp2 list) = pad_bits 1" "length [5, 6 :: fp2] = 2 ^ pad_bits 2"
    "1 \<le> length (eq_vec [])" by (simp_all add: pad_bits_small)
  obtain A where A: "fold_x [1, 2] 1 2 (eq_vec []) = Some A" using fold_x_value [OF l(1,4)] by auto
  let ?c = "prover_authed_new (dot (2 ^ pad_bits 2) A [5, 6]) 6"
  have d: "vc_delta (demo_ctx 4) = 3" by (simp add: demo_ctx_def ctx_from_pcg_pool_def)
  then have m: "mac_valid (vc_delta (demo_ctx 4)) ?c (key_of 3 ?c)" by (simp add: mac_valid_iff)
  have r: "run_machine (prover_draw demo_chacha) (act_draws demo_chain (pad_bits 2)) (demo_stream 4) \<noteq> None"
    using demo_act_draws by (simp add: pad_bits_small)
  have o: "eval_mle [5, 6] point = Some (pa_x (demo_open [5, 6] point))
      \<and> mac_valid (vc_delta (demo_ctx 4)) (demo_open [5, 6] point) (key_of 3 (demo_open [5, 6] point))"
    if "length point = pad_bits 2" for point
    using that eval_mle_dot [of "[5, 6]" point] d by (simp add: demo_open_def pad_bits_small mac_valid_iff)
  have Y: "pa_x ?c = dot (2 ^ pad_bits 2) A [5, 6]" by simp
  have "(2 :: nat) \<le> 2" by simp
  from act_gemm_complete [OF l(1) this l(2,2,3) A Y demo_fs r demo_twin m o, of demo_hash] show ?thesis by blast
qed

end
