(* ===== verification/Gemm_Sound.thy ===== *)
theory Gemm_Sound
  imports Gemm_Proof
begin

text \<open>
  Soundness of the chained matrix product, against a prover that sends any proof and any corrections. The
  correlations fix what a correction authenticates: the drawn value plus the correction. From them the claims of the
  whole run are extracted, independently of the verifier's key, and the verifier's keys are shown to be the
  keys of these claims. An accepted run that starts from a wrong claim then hands out a wrong
  claim, or met one of few bad challenges, or the key is one of two.
\<close>

section \<open>What corrections authenticate\<close>

definition drawn :: "fp2 \<times> fp2 \<Rightarrow> fp2 \<Rightarrow> prover_authed" where
  "drawn xm c = prover_authed_new (c + fst xm) (snd xm)"

lemma drawn_x [simp]: "pa_x (drawn xm c) = c + fst xm"
  by (simp add: drawn_def)

lemma full_step:
  assumes "run_machine (prover_draw chacha) (DFull d n # ops) s = Some (outs, t)" "twin s v"
    and "expand_full_verifier_keys chacha d n v = Some (keys, v')"
  obtains out outs' s' where "outs = out # outs'" "length out = n" "length keys = n"
    "\<And>i c. i < n \<Longrightarrow> key_new (vk_k (keys ! i) + vc_delta v * c) = key_of (vc_delta v) (drawn (out ! i) c)"
    "run_machine (prover_draw chacha) ops s' = Some (outs', t)" "twin s' v'" "vc_delta v' = vc_delta v"
proof -
  from assms(1) obtain out s1 outs1 where r: "prover_draw chacha (DFull d n) s = Some (out, s1)"
    "run_machine (prover_draw chacha) ops s1 = Some (outs1, t)" "outs = out # outs1"
    by (rule run_machine_Cons_Some)
  obtain fulls where f: "draw_fulls chacha d n s = Some (fulls, s1)" "out = map (\<lambda>f. (fc_x f, fc_m f)) fulls"
    using r(1) by auto
  obtain v1 where v1: "expand_full_keys chacha d n v = Some (map (\<lambda>f. fc_m f + vc_delta v * fc_x f) fulls, v1)"
    "twin s1 v1" "vc_delta v1 = vc_delta v" "length fulls = n"
    using draw_fulls_twin [OF f(1) [unfolded draw_fulls_def] assms(2)] by (auto simp: expand_full_keys_def)
  have k: "keys = map (\<lambda>f. key_new (fc_m f + vc_delta v * fc_x f)) fulls" "v1 = v'"
    using assms(3) v1(1) by (auto simp: expand_full_verifier_keys_def)
  show ?thesis
    by (rule that [OF r(3) _ _ _ r(2)])
      (use v1 f(2) k in \<open>auto simp: drawn_def key_of_def key_new_def prover_authed_new_def algebra_simps\<close>)
qed

lemma corrected_step:
  assumes "run_machine (prover_draw chacha) (DFull d 1 # ops) s = Some (outs, t)" "twin s v"
    and "correct_full_verifier_key chacha d c v = Some (key, v')"
  obtains xm outs' s' where "outs = [xm] # outs'" "key = key_of (vc_delta v) (drawn xm c)"
    "run_machine (prover_draw chacha) ops s' = Some (outs', t)" "twin s' v'" "vc_delta v' = vc_delta v"
proof -
  obtain keys where keys: "expand_full_verifier_keys chacha d 1 v = Some (keys, v')"
    using assms(3) by (auto simp: correct_full_verifier_key_def correct_full_verifier_keys_def split: Option.bind_splits list.splits)
  then have k: "\<exists>k0 ks. keys = k0 # ks \<and> key = key_new (vk_k k0 + vc_delta v * c)"
    using assms(3) by (cases keys) (auto simp: correct_full_verifier_key_def correct_full_verifier_keys_def)
  show ?thesis
  proof (rule full_step [OF assms(1,2) keys])
    fix out outs' s'
    assume a: "outs = out # outs'" "length out = 1" "length keys = 1"
      "\<And>i c. i < 1 \<Longrightarrow> key_new (vk_k (keys ! i) + vc_delta v * c) = key_of (vc_delta v) (drawn (out ! i) c)"
      "run_machine (prover_draw chacha) ops s' = Some (outs', t)" "twin s' v'" "vc_delta v' = vc_delta v"
    then obtain xm where "out = [xm]" by (auto simp: length_Suc_conv)
    then show ?thesis using that [of xm outs' s'] a(1,5,6,7) a(4) [of 0] k by auto
  qed
qed

lemma product_step:
  assumes "run_machine (prover_draw chacha) (DProduct d t # ops) s = Some (outs, u)" "twin s v"
    and "expand_product_mask_verifier_key chacha d t v = Some (key, v')"
  obtains xm outs' s' where "outs = [xm] # outs'" "key = key_of (vc_delta v) (drawn xm 0)"
    "run_machine (prover_draw chacha) ops s' = Some (outs', u)" "twin s' v'" "vc_delta v' = vc_delta v"
proof -
  from assms(1) obtain out s1 outs1 where r: "prover_draw chacha (DProduct d t) s = Some (out, s1)"
    "run_machine (prover_draw chacha) ops s1 = Some (outs1, u)" "outs = out # outs1"
    by (rule run_machine_Cons_Some)
  obtain m where m: "draw_product_mask chacha d t s = Some (m, s1)" "out = [(fc_x (pm_corr m), fc_m (pm_corr m))]"
    using r(1) by auto
  obtain v1 where v1: "expand_product_mask_key chacha d t v = Some (fc_m (pm_corr m) + vc_delta v * fc_x (pm_corr m), v1)"
    "twin s1 v1" "vc_delta v1 = vc_delta v" using product_mask_twin [OF m(1) assms(2)] by blast
  then have "key = key_of (vc_delta v) (drawn (fc_x (pm_corr m), fc_m (pm_corr m)) 0)" "v1 = v'"
    using assms(3) by (auto simp: expand_product_mask_verifier_key_def drawn_def key_of_def key_new_def prover_authed_new_def)
  then show ?thesis using that r(2,3) m(2) v1 by blast
qed

section \<open>The extracted claims\<close>

fun extract_claim ::
  "prover_authed \<Rightarrow> (fp2 \<times> fp2) list \<Rightarrow> (fp2 \<times> fp2) list list \<Rightarrow> fp2 list \<Rightarrow> prover_authed" where
  "extract_claim claim ((c0, c1) # corrs) (out # outs) (r # point) =
     extract_claim (blind_claim claim (drawn (out ! 0) c0) (drawn (out ! 1) c1) r) corrs outs point"
| "extract_claim claim _ _ _ = claim"

definition extract_rounds :: "(fp2 \<times> fp2) list \<Rightarrow> (fp2 \<times> fp2) list list \<Rightarrow> (fp2 \<times> fp2) list" where
  "extract_rounds corrs outs = map2 (\<lambda>(c0, c1) out. (c0 + fst (out ! 0), c1 + fst (out ! 1))) corrs outs"

lemma extract_claim_x:
  "length outs = length corrs \<Longrightarrow> length point = length corrs \<Longrightarrow>
   pa_x (extract_claim claim corrs outs point) = claim_before (pa_x claim) (extract_rounds corrs outs) point (length corrs)"
proof (induction claim corrs outs point rule: extract_claim.induct)
  case (1 claim c0 c1 corrs out outs r point)
  have "pa_x (blind_claim claim (drawn (out ! 0) c0) (drawn (out ! 1) c1) r)
      = clear_claim (pa_x claim) (c0 + fst (out ! 0), c1 + fst (out ! 1)) r"
    by (simp add: blind_claim_def clear_claim_def Let_def mult.commute)
  then show ?case using 1 by (simp add: extract_rounds_def)
qed (auto simp: extract_rounds_def)

lemma blind_claim_key:
  "blind_key_claim (key_of delta claim) (key_of delta g0) (key_of delta g2) r = key_of delta (blind_claim claim g0 g2 r)"
  using blind_claim_valid [of delta claim "key_of delta claim" g0 "key_of delta g0" g2 "key_of delta g2" r]
  by (simp add: mac_valid_iff)

lemma blind_extract:
  assumes "blind_verify_loop H chacha label base rnd corrs (key_of (vc_delta v) claim) v tx = Some (point, k', v', tx')"
    and "run_machine (prover_draw chacha) (round_draws base 2 rnd (length corrs) @ ops) s = Some (outs, t)" "twin s v"
  shows "k' = key_of (vc_delta v) (extract_claim claim corrs (take (length corrs) outs) point)
    \<and> length point = length corrs \<and> length corrs \<le> length outs \<and> vc_delta v' = vc_delta v
    \<and> (\<exists>s'. run_machine (prover_draw chacha) ops s' = Some (drop (length corrs) outs, t) \<and> twin s' v')"
  using assms
proof (induction corrs arbitrary: claim v tx rnd s outs point)
  case Nil
  then show ?case by (auto simp: round_draws_def)
next
  case (Cons c corrs)
  obtain c0 c1 where c: "c = (c0, c1)" by force
  from Cons.prems(1) c obtain tx1 keys v1 k0 k1 r tx2 pt where r:
    "expand_full_verifier_keys chacha (base + word_of_nat rnd) 2 v = Some (keys, v1)" "get keys 0 = Some k0" "get keys 1 = Some k1"
    "blind_verify_loop H chacha label base (Suc rnd) corrs (blind_key_claim (key_of (vc_delta v) claim)
        (key_new (vk_k k0 + vc_delta v1 * c0)) (key_new (vk_k k1 + vc_delta v1 * c1)) r) v1 tx2 = Some (pt, k', v', tx')"
    "point = r # pt" by (auto simp: Let_def split: Option.bind_splits)
  have d: "run_machine (prover_draw chacha) (DFull (base + word_of_nat rnd) 2 # round_draws base 2 (Suc rnd) (length corrs) @ ops) s = Some (outs, t)"
    using Cons.prems(2) by (simp add: round_draws_Suc)
  show ?case
  proof (rule full_step [OF d Cons.prems(3) r(1)])
    fix out outs' s'
    assume a: "outs = out # outs'" "length out = 2" "length keys = 2"
      "\<And>i c. i < 2 \<Longrightarrow> key_new (vk_k (keys ! i) + vc_delta v * c) = key_of (vc_delta v) (drawn (out ! i) c)"
      "run_machine (prover_draw chacha) (round_draws base 2 (Suc rnd) (length corrs) @ ops) s' = Some (outs', t)"
      "twin s' v1" "vc_delta v1 = vc_delta v"
    have g: "k0 = keys ! 0" "k1 = keys ! 1" using r(2,3) a(3) by simp_all
    have "blind_verify_loop H chacha label base (Suc rnd) corrs
        (key_of (vc_delta v1) (blind_claim claim (drawn (out ! 0) c0) (drawn (out ! 1) c1) r)) v1 tx2 = Some (pt, k', v', tx')"
      using r(4) a(4) [of 0 c0] a(4) [of 1 c1] a(7) g by (simp add: blind_claim_key)
    from Cons.IH [OF this a(5,6)] show ?thesis using a(1,7) c r(5) by auto
  qed
qed

section \<open>Soundness\<close>

text \<open>Some challenge of the rounds fell into a set of at most two elements that the messages before it fix.\<close>

definition unlucky_round :: "fp2 list \<Rightarrow> fp2 list \<Rightarrow> fp2 \<Rightarrow> (fp2 \<times> fp2) list \<Rightarrow> fp2 list \<Rightarrow> bool" where
  "unlucky_round a b claim gs point \<longleftrightarrow> (\<exists>i<length gs.
     let A = eval_mle_loop a (take i point); B = eval_mle_loop b (take i point); c = claim_before claim gs point i
     in point ! i \<in> bad_challenges A B c (gs ! i)
        \<and> finite (bad_challenges A B c (gs ! i)) \<and> card (bad_challenges A B c (gs ! i)) \<le> 2)"

text \<open>The keys that a wrong product survives.\<close>

definition lucky_keys :: "prover_authed \<times> prover_authed \<times> prover_authed \<Rightarrow> prover_authed \<Rightarrow> fp2 \<Rightarrow> prod_proof \<Rightarrow> fp2 set" where
  "lucky_keys t mk chi pf =
     (if chi * defect t = 0 then {} else {delta. poly_eval (check_coeffs [t] mk chi pf) delta = 0})"

lemma lucky_keys_card: "finite (lucky_keys t mk chi pf) \<and> card (lucky_keys t mk chi pf) \<le> 2"
  using check_coeffs_roots [of chi "[t]" mk pf] by (simp add: lucky_keys_def)

lemma product_slip:
  assumes "prod_batch_verify [(key_of delta a, key_of delta b, key_of delta c)] (key_of delta mk) delta chi pf"
  shows "pa_x c = pa_x a * pa_x b \<or> chi = 0 \<or> delta \<in> lucky_keys (a, b, c) mk chi pf"
  using assms prod_batch_verify_poly [of delta "[(a, b, c)]" mk chi pf] by (auto simp: lucky_keys_def defect_def)

text \<open>An accepted run, taken apart.\<close>

lemma chained_verify_Some:
  assumes "verify_gemm_committed_chained H chacha m k n r_i r_j k0 pf x_corr corr_w dm v tx = Some (Some (wk, wp, k_w), v', tx')"
  obtains point k1 v1 tx1 tx2 k_x v2 tx3 v3 k_mask v4 chi tx4 where
    "blind_verify_loop H chacha ''blind_round_corrections'' (cd_round_masks dm) 0 (round_corrs (cg_sumcheck pf)) k0 v tx = Some (point, k1, v1, tx1)"
    "length (round_corrs (cg_sumcheck pf)) = pad_bits k"
    "append_fp2s ''x_claim_correction'' [x_corr] tx1 = Some tx2" "append_fp2s ''w_claim_correction'' [corr_w] tx2 = Some tx3"
    "correct_full_verifier_key chacha (cd_x_claim dm) x_corr v1 = Some (k_x, v2)"
    "correct_full_verifier_key chacha (cd_w_claim dm) corr_w v2 = Some (k_w, v3)"
    "expand_product_mask_verifier_key chacha (cd_prod_mask dm) 1 v3 = Some (k_mask, v4)"
    "challenge_fp2 H tx3 = Some (chi, tx4)" "prod_batch_verify [(k_x, k_w, k1)] k_mask (vc_delta v4) chi (cg_prod pf)"
    "wk = \<lparr>wk_point = point @ r_i, wk_key = k_x\<rparr>" "wp = r_j @ point"
  using assms
  by (auto simp: verify_gemm_committed_chained_def blind_verify_def blind_verify_labeled_def
      split: if_splits Option.bind_splits option.splits prod.splits)

text \<open>The challenges of an accepted run: the sumcheck point and the challenge of the product check.\<close>

definition run_challenges ::
  "blake3 \<Rightarrow> chacha \<Rightarrow> chain_doms \<Rightarrow> verifier_key \<Rightarrow> chained_gemm_proof \<Rightarrow> fp2 \<Rightarrow> fp2 \<Rightarrow> verifier_ctx \<Rightarrow> transcript \<Rightarrow> (fp2 list \<times> fp2) option" where
  "run_challenges H chacha dm k0 pf x_corr corr_w v tx =
     do { (point, _, _, tx) \<leftarrow> blind_verify_loop H chacha ''blind_round_corrections'' (cd_round_masks dm) 0
                                  (round_corrs (cg_sumcheck pf)) k0 v tx;
          tx \<leftarrow> append_fp2s ''x_claim_correction'' [x_corr] tx;
          tx \<leftarrow> append_fp2s ''w_claim_correction'' [corr_w] tx;
          (chi, _) \<leftarrow> challenge_fp2 H tx;
          Some (point, chi) }"

text \<open>
  C2. The chained matrix product is sound. Let the verifier's key be that of a claim that the product's accumulators
  do not fold to, and let a proof with any corrections be accepted. Then the verifier's two outward keys
  are the keys of the values that the corrections authenticate, and one of these is not the
  multilinear extension it stands for, or some round challenge fell into a set of at most two elements fixed by the
  messages before it, or the challenge of the product check is zero, or the secret key is one of at most two
  elements that the proof, the correlations and the challenges determine.
\<close>

theorem chained_gemm_sound:
  assumes "length x = m * k" "length w = k * n" "n \<noteq> 0" "k < 2 ^ 33" "length r_i = pad_bits m" "length r_j = pad_bits n"
    and "gemm_i64 x w m k n = Some y" "fold_y_acc y m n (eq_vec r_i) (eq_vec r_j) = Some Y" "pa_x claim0 \<noteq> Y"
    and "fold_x x m k (eq_vec r_i) = Some A" "fold_w w k n (eq_vec r_j) = Some B"
    and "run_machine (prover_draw chacha) (chain_draws dm (pad_bits k)) s = Some (outs, t)" "twin s v"
    and "verify_gemm_committed_chained H chacha m k n r_i r_j (key_of (vc_delta v) claim0) pf x_corr corr_w dm v tx
      = Some (Some (wk, wp, k_w), v', tx')"
  shows "\<exists>point chi xm wm pm. run_challenges H chacha dm (key_of (vc_delta v) claim0) pf x_corr corr_w v tx = Some (point, chi)
    \<and> drop (pad_bits k) outs = [[xm], [wm], [pm]] \<and> wk_point wk = point @ r_i \<and> wp = r_j @ point
    \<and> wk_key wk = key_of (vc_delta v) (drawn xm x_corr) \<and> k_w = key_of (vc_delta v) (drawn wm corr_w)
    \<and> (x_corr + fst xm \<noteq> tensor_value m k (map sint x) (point @ r_i)
       \<or> corr_w + fst wm \<noteq> tensor_value k n (map sint w) (r_j @ point)
       \<or> unlucky_round A B (pa_x claim0) (extract_rounds (round_corrs (cg_sumcheck pf)) (take (pad_bits k) outs)) point
       \<or> chi = 0
       \<or> vc_delta v \<in> lucky_keys (drawn xm x_corr, drawn wm corr_w,
            extract_claim claim0 (round_corrs (cg_sumcheck pf)) (take (pad_bits k) outs) point) (drawn pm 0) chi (cg_prod pf))
    \<and> card (lucky_keys (drawn xm x_corr, drawn wm corr_w,
            extract_claim claim0 (round_corrs (cg_sumcheck pf)) (take (pad_bits k) outs) point) (drawn pm 0) chi (cg_prod pf)) \<le> 2"
proof -
  let ?n = "pad_bits k" and ?corrs = "round_corrs (cg_sumcheck pf)" and ?d = "vc_delta v"
  have eq: "m \<le> length (eq_vec r_i)" "n \<le> length (eq_vec r_j)" using pad_le assms(5,6) by simp_all
  have AB: "length A = 2 ^ ?n" "length B = 2 ^ ?n" "Y = dot (2 ^ ?n) A B"
    using matrix_product_folds [OF assms(1-4) eq] assms(7,8,10,11) by auto
  obtain point k1 v1 tx1 tx2 k_x v2 tx3 v3 k_mask v4 chi tx4 where r:
    "blind_verify_loop H chacha ''blind_round_corrections'' (cd_round_masks dm) 0 ?corrs (key_of ?d claim0) v tx = Some (point, k1, v1, tx1)"
    "length ?corrs = ?n" "append_fp2s ''x_claim_correction'' [x_corr] tx1 = Some tx2" "append_fp2s ''w_claim_correction'' [corr_w] tx2 = Some tx3"
    "correct_full_verifier_key chacha (cd_x_claim dm) x_corr v1 = Some (k_x, v2)"
    "correct_full_verifier_key chacha (cd_w_claim dm) corr_w v2 = Some (k_w, v3)"
    "expand_product_mask_verifier_key chacha (cd_prod_mask dm) 1 v3 = Some (k_mask, v4)"
    "challenge_fp2 H tx3 = Some (chi, tx4)" "prod_batch_verify [(k_x, k_w, k1)] k_mask (vc_delta v4) chi (cg_prod pf)"
    "wk = \<lparr>wk_point = point @ r_i, wk_key = k_x\<rparr>" "wp = r_j @ point"
    by (rule chained_verify_Some [OF assms(14)])
  let ?c = "extract_claim claim0 ?corrs (take ?n outs) point"
  have b: "k1 = key_of ?d ?c" "length point = ?n" "?n \<le> length outs" "vc_delta v1 = ?d"
    and s1: "\<exists>s1. run_machine (prover_draw chacha) [DFull (cd_x_claim dm) 1, DFull (cd_w_claim dm) 1, DProduct (cd_prod_mask dm) 1] s1
        = Some (drop ?n outs, t) \<and> twin s1 v1"
    using blind_extract [OF r(1) assms(12) [unfolded chain_draws_def, folded r(2)] assms(13)] unfolding r(2) by blast+
  from s1 obtain s1 where s1: "run_machine (prover_draw chacha) [DFull (cd_x_claim dm) 1, DFull (cd_w_claim dm) 1, DProduct (cd_prod_mask dm) 1] s1
        = Some (drop ?n outs, t)" "twin s1 v1" by blast
  obtain xm o1 s2 where x: "drop ?n outs = [xm] # o1" "k_x = key_of (vc_delta v1) (drawn xm x_corr)"
    "run_machine (prover_draw chacha) [DFull (cd_w_claim dm) 1, DProduct (cd_prod_mask dm) 1] s2 = Some (o1, t)" "twin s2 v2" "vc_delta v2 = vc_delta v1"
    by (rule corrected_step [OF s1 r(5)])
  obtain wm o2 s3 where w: "o1 = [wm] # o2" "k_w = key_of (vc_delta v2) (drawn wm corr_w)"
    "run_machine (prover_draw chacha) [DProduct (cd_prod_mask dm) 1] s3 = Some (o2, t)" "twin s3 v3" "vc_delta v3 = vc_delta v2"
    by (rule corrected_step [OF x(3,4) r(6)])
  obtain pm o3 s4 where p: "o2 = [pm] # o3" "k_mask = key_of (vc_delta v3) (drawn pm 0)"
    "run_machine (prover_draw chacha) [] s4 = Some (o3, t)" "vc_delta v4 = vc_delta v3"
    by (rule product_step [OF w(3,4) r(7)])
  have d: "vc_delta v4 = ?d" "vc_delta v3 = ?d" "vc_delta v2 = ?d" using b(4) x(5) w(5) p(4) by simp_all
  have "prod_batch_verify [(key_of ?d (drawn xm x_corr), key_of ?d (drawn wm corr_w), key_of ?d ?c)] (key_of ?d (drawn pm 0)) ?d chi (cg_prod pf)"
    using r(9) x(2) w(2) p(2) b(1,4) d by simp
  then have prod: "pa_x ?c = (x_corr + fst xm) * (corr_w + fst wm) \<or> chi = 0
      \<or> ?d \<in> lucky_keys (drawn xm x_corr, drawn wm corr_w, ?c) (drawn pm 0) chi (cg_prod pf)"
    using product_slip by fastforce
  let ?gs = "extract_rounds ?corrs (take ?n outs)"
  have gs: "length ?gs = ?n" using r(2) b(3) by (simp add: extract_rounds_def)
  have cx: "pa_x ?c = claim_before (pa_x claim0) ?gs point ?n" using extract_claim_x [of "take ?n outs" ?corrs point claim0] r(2) b(2,3) by simp
  have ev: "eval_mle_loop A point ! 0 = tensor_value m k (map sint x) (point @ r_i)"
    "eval_mle_loop B point ! 0 = tensor_value k n (map sint w) (r_j @ point)"
    using fold_x_tensor [OF assms(1,5) b(2) assms(10)] fold_w_tensor [OF assms(2,6) b(2) assms(11)] AB(1,2) b(2) by (simp_all add: eval_mle_full)
  have "unlucky_round A B (pa_x claim0) ?gs point"
    if "pa_x ?c = tensor_value m k (map sint x) (point @ r_i) * tensor_value k n (map sint w) (r_j @ point)"
    unfolding unlucky_round_def by (rule claim_chain_bad) (use gs AB b(2) assms(9) cx ev that in simp_all)
  then have "x_corr + fst xm \<noteq> tensor_value m k (map sint x) (point @ r_i)
       \<or> corr_w + fst wm \<noteq> tensor_value k n (map sint w) (r_j @ point)
       \<or> unlucky_round A B (pa_x claim0) ?gs point \<or> chi = 0
       \<or> ?d \<in> lucky_keys (drawn xm x_corr, drawn wm corr_w, ?c) (drawn pm 0) chi (cg_prod pf)" using prod by metis
  moreover have "run_challenges H chacha dm (key_of ?d claim0) pf x_corr corr_w v tx = Some (point, chi)"
    using r(1,3,4,8) by (simp add: run_challenges_def)
  moreover have "drop ?n outs = [[xm], [wm], [pm]]" using x(1) w(1) p(1,3) by simp
  moreover have "wk_point wk = point @ r_i" "wk_key wk = key_of ?d (drawn xm x_corr)" "k_w = key_of ?d (drawn wm corr_w)"
    using r(10) x(2) w(2) b(4) d(3) by simp_all
  ultimately show ?thesis using r(11) lucky_keys_card by blast
qed

text \<open>The key of a claim is also the key of a wrong value with another tag, which an honest run lets through.\<close>

theorem chained_gemm_sound_witness:
  "\<exists>y Y c pf x_corr corr_w wk wp k_w v' tx' point chi. gemm_i64 [1, 2] [3, - 4] 1 2 1 = Some y
    \<and> fold_y_acc y 1 1 (eq_vec []) (eq_vec []) = Some Y \<and> pa_x c \<noteq> Y
    \<and> verify_gemm_committed_chained demo_hash demo_chacha 1 2 1 [] [] (key_of 3 c) pf x_corr corr_w demo_chain (demo_ctx 5) demo_fs
        = Some (Some (wk, wp, k_w), v', tx')
    \<and> run_challenges demo_hash demo_chacha demo_chain (key_of 3 c) pf x_corr corr_w (demo_ctx 5) demo_fs = Some (point, chi)"
proof -
  have l: "length [1, 2 :: i16] = 1 * 2" "length [3, - 4 :: i16] = 2 * 1" "length ([] :: fp2 list) = pad_bits 1"
    "1 \<le> length (eq_vec [])" by (simp_all add: pad_bits_small)
  obtain y Y A B where y: "gemm_i64 [1, 2] [3, - 4] 1 2 1 = Some y" "fold_y_acc y 1 1 (eq_vec []) (eq_vec []) = Some Y"
    "fold_x [1, 2] 1 2 (eq_vec []) = Some A" "fold_w [3, - 4] 2 1 (eq_vec []) = Some B"
    using matrix_product_folds [OF l(1,2) _ _ l(4,4)] by auto
  let ?c = "prover_authed_new Y 6" and ?f = "prover_authed_new (Y + 1) 3"
  have d: "vc_delta (demo_ctx 5) = 3" by (simp add: demo_ctx_def ctx_from_pcg_pool_def)
  have k: "key_of 3 ?f = key_of 3 ?c" by (simp add: key_of_def prover_authed_new_def algebra_simps)
  have m: "mac_valid (vc_delta (demo_ctx 5)) ?c (key_of 3 ?c)" using d by (simp add: mac_valid_iff)
  have r: "run_machine (prover_draw demo_chacha) (chain_draws demo_chain (pad_bits 2) @ []) (demo_stream 5) \<noteq> None"
    using demo_chain_draws by (simp add: pad_bits_small)
  then obtain outs t where o: "run_machine (prover_draw demo_chacha) (chain_draws demo_chain (pad_bits 2)) (demo_stream 5) = Some (outs, t)" by auto
  have Y: "fold_y_acc y 1 1 (eq_vec []) (eq_vec []) = Some (pa_x ?c)" using y(2) by simp
  have n: "(2 :: nat) \<le> 2" "(2 :: nat) < 2 ^ 33" "(1 :: nat) \<noteq> 0" by simp_all
  from chained_run [OF l(1,2) n l(3,3) y(1) Y demo_fs r demo_twin m, of demo_hash]
  obtain pf and wire :: wire_out and corr_w and wc :: weight_claim and k_x k_w v' tx' where a: "verify_gemm_committed_chained demo_hash demo_chacha 1 2 1 [] [] (key_of 3 ?c) pf (wo_corr wire) corr_w demo_chain (demo_ctx 5) demo_fs
      = Some (Some (\<lparr>wk_point = wo_point wire, wk_key = k_x\<rparr>, wc_point wc, k_w), v', tx')" by blast
  have f: "pa_x ?f \<noteq> Y" by simp
  from a have "verify_gemm_committed_chained demo_hash demo_chacha 1 2 1 [] [] (key_of (vc_delta (demo_ctx 5)) ?f) pf (wo_corr wire) corr_w demo_chain (demo_ctx 5) demo_fs
      = Some (Some (\<lparr>wk_point = wo_point wire, wk_key = k_x\<rparr>, wc_point wc, k_w), v', tx')" unfolding d k .
  from chained_gemm_sound [OF l(1,2) n(3,2) l(3,3) y(1,2) f y(3,4) o demo_twin this] this f y(1,2) show ?thesis unfolding d by blast
qed

end
