(* ===== verification/Logup.thy ===== *)
theory Logup
  imports Thaler
begin

text \<open>
  The clear fraction-tree argument of \<^verbatim>\<open>volta-proto/src/logup.rs\<close> on the CPU: the tree of fractions, the layer
  sumcheck with the equality factor split off the round message, its two specialised leaf layers, the engines
  that walk the layers against a sink, the clear sink and the clear verifier. The trait \<^verbatim>\<open>Sink\<close> is a record of
  operations over a state of its own, so that clear and blind provers share one engine, as in the source. The
  statistics in \<^verbatim>\<open>Counters\<close> and the choice between serial and parallel loops do not influence results and are not
  modelled. The main result is that the optimised engine, which never materialises its leaves, runs exactly
  like the reference engine on the materialised fractions, against every sink.
\<close>

section \<open>Data\<close>

definition PAR_THRESHOLD :: nat where "PAR_THRESHOLD = 2 ^ 12"

datatype leaf_p = Ones | NegMult "u32 list"

record leaf_q =
  lq_a :: "fp list"
  lq_alpha1 :: fp

definition leaf_get :: "leaf_q \<Rightarrow> nat \<Rightarrow> fp2" where
  "leaf_get q i = Fp2 (lq_a q ! i) (lq_alpha1 q)"

definition lift_q :: "i16 list \<Rightarrow> fp2 \<Rightarrow> leaf_q" where
  "lift_q values alpha = \<lparr>lq_a = map (\<lambda>v. fp2_c0 alpha - lift_i16 v) values, lq_alpha1 = fp2_c1 alpha\<rparr>"

definition lift_q_fp :: "fp list \<Rightarrow> fp2 \<Rightarrow> leaf_q" where
  "lift_q_fp values alpha = \<lparr>lq_a = map (\<lambda>v. fp2_c0 alpha - v) values, lq_alpha1 = fp2_c1 alpha\<rparr>"

record layer_proof =
  ly_rounds :: "(fp2 \<times> fp2) list"
  ly_p0 :: fp2
  ly_p1 :: fp2
  ly_q0 :: fp2
  ly_q1 :: fp2

record frac_proof =
  fr_root_p :: fp2
  fr_root_q :: fp2
  fr_layers :: "layer_proof list"

definition frac_bytes :: "frac_proof \<Rightarrow> u64" where
  "frac_bytes pf = 32 + sum_list (map (\<lambda>l. 16 * (2 * word_of_nat (length (ly_rounds l)) + 4)) (fr_layers pf))"

section \<open>The tree\<close>

text \<open>The internal layers, the root first.\<close>

record frac_tree =
  ft_p :: "fp2 list list"
  ft_q :: "fp2 list list"
  ft_depth :: nat

definition combine_layer :: "fp2 list \<Rightarrow> fp2 list \<Rightarrow> fp2 list \<times> fp2 list" where
  "combine_layer p q =
     (let pairs = map (\<lambda>i. (p ! (2 * i) * q ! Suc (2 * i) + p ! Suc (2 * i) * q ! (2 * i), q ! (2 * i) * q ! Suc (2 * i)))
                    [0..<length p div 2]
      in (map fst pairs, map snd pairs))"

text \<open>The loop over \<open>k\<close> from \<open>depth - 1\<close> down to 1 stores each level and combines it into the next.\<close>

fun tree_levels :: "nat \<Rightarrow> fp2 list \<Rightarrow> fp2 list \<Rightarrow> (fp2 list \<times> fp2 list) list" where
  "tree_levels 0 p q = [(p, q)]"
| "tree_levels (Suc k) p q = (let (p', q') = combine_layer p q in tree_levels k p' q' @ [(p, q)])"

definition tree_of :: "nat \<Rightarrow> fp2 list \<Rightarrow> fp2 list \<Rightarrow> frac_tree" where
  "tree_of depth p q =
     (let ls = tree_levels (depth - 1) p q in \<lparr>ft_p = map fst ls, ft_q = map snd ls, ft_depth = depth\<rparr>)"

definition q_first :: "leaf_q \<Rightarrow> nat \<Rightarrow> fp2" where
  "q_first lq i =
     (let a1 = lq_alpha1 lq; w7a1sq = fp_new W * a1 * a1; a = lq_a lq ! (2 * i); b = lq_a lq ! Suc (2 * i)
      in Fp2 (a * b + w7a1sq) ((a + b) * a1))"

definition build_tree_cpu :: "leaf_p \<Rightarrow> leaf_q \<Rightarrow> frac_tree option" where
  "build_tree_cpu lp lq =
     (let n = length (lq_a lq); a1 = lq_alpha1 lq in
      if is_power_of_two n \<and> 2 \<le> n then
        (case lp of
           Ones \<Rightarrow>
             Some (tree_of (trailing_zeros n)
               (map (\<lambda>i. Fp2 (lq_a lq ! (2 * i) + lq_a lq ! Suc (2 * i)) (a1 + a1)) [0..<n div 2])
               (map (q_first lq) [0..<n div 2]))
         | NegMult mult \<Rightarrow>
             if length mult = n then
               Some (tree_of (trailing_zeros n)
                 (map (\<lambda>i. let a = lq_a lq ! (2 * i); b = lq_a lq ! Suc (2 * i);
                              ma = fp_new (ucast (mult ! (2 * i))); mb = fp_new (ucast (mult ! Suc (2 * i)))
                          in Fp2 (- (ma * b + mb * a)) (- ((ma + mb) * a1))) [0..<n div 2])
                 (map (q_first lq) [0..<n div 2]))
             else None)
      else None)"

definition build_weighted_tree :: "fp2 list \<Rightarrow> fp2 list \<Rightarrow> frac_tree option" where
  "build_weighted_tree leaf_p leaf_q =
     (if length leaf_p = length leaf_q \<and> is_power_of_two (length leaf_p) \<and> 2 \<le> length leaf_p
      then (let (p, q) = combine_layer leaf_p leaf_q in Some (tree_of (trailing_zeros (length leaf_p)) p q))
      else None)"

section \<open>The layer sumcheck\<close>

fun suffix_loop :: "fp2 list \<Rightarrow> fp2 list \<Rightarrow> fp2 list list \<Rightarrow> fp2 list list" where
  "suffix_loop [] cur tables = tables"
| "suffix_loop (pj # ps) cur tables =
     suffix_loop ps (concat (map (\<lambda>v. let v1 = v * pj in [v - v1, v1]) cur)) (cur # tables)"

text \<open>The loop walks the point from its end; the expansion after the last table is not used.\<close>

definition suffix_eq_tables :: "fp2 list \<Rightarrow> fp2 list list" where
  "suffix_eq_tables point = suffix_loop (rev point) [1] []"

definition at02 :: "'a \<Rightarrow> 'a \<Rightarrow> 'a \<times> 'a :: ring" where
  "at02 v0 v1 = (let d = v1 - v0 in (v0, v0 + d + d))"

record round_acc =
  ra_pq0 :: fp2
  ra_pq2 :: fp2
  ra_qq0 :: fp2
  ra_qq2 :: fp2

definition acc_zero :: round_acc where
  "acc_zero = \<lparr>ra_pq0 = 0, ra_pq2 = 0, ra_qq0 = 0, ra_qq2 = 0\<rparr>"

definition acc_add :: "round_acc \<Rightarrow> round_acc \<Rightarrow> round_acc" where
  "acc_add a o' = \<lparr>ra_pq0 = ra_pq0 a + ra_pq0 o', ra_pq2 = ra_pq2 a + ra_pq2 o',
     ra_qq0 = ra_qq0 a + ra_qq0 o', ra_qq2 = ra_qq2 a + ra_qq2 o'\<rparr>"

definition acc_sum :: "(nat \<Rightarrow> round_acc) \<Rightarrow> nat \<Rightarrow> round_acc" where
  "acc_sum body half = foldl acc_add acc_zero (map body [0..<half])"

definition round_message :: "fp2 \<Rightarrow> fp2 \<Rightarrow> round_acc \<Rightarrow> fp2 \<times> fp2" where
  "round_message cpref lam acc = (cpref * (lam * ra_pq0 acc + ra_qq0 acc), cpref * (lam * ra_pq2 acc + ra_qq2 acc))"

definition eq_factor :: "fp2 \<Rightarrow> fp2 \<Rightarrow> fp2" where
  "eq_factor pt r = (let pr = pt * r in pr + pr - pt - r + 1)"

definition fold_vec :: "fp2 list \<Rightarrow> fp2 \<Rightarrow> nat \<Rightarrow> fp2 list" where
  "fold_vec v r half =
     (if PAR_THRESHOLD \<le> half then map (\<lambda>i. v ! (2 * i) + (v ! Suc (2 * i) - v ! (2 * i)) * r) [0..<half]
      else take half
        (foldl (\<lambda>v i. let d = v ! Suc (2 * i) - v ! (2 * i) in v[i := v ! (2 * i) + d * r]) v [0..<half]))"

text \<open>What an engine reports to the proof side and draws from it.\<close>

record 's sink =
  sk_root :: "fp2 \<Rightarrow> fp2 \<Rightarrow> 's \<Rightarrow> 's option"
  sk_lambda :: "'s \<Rightarrow> (fp2 \<times> 's) option"
  sk_round :: "fp2 \<times> fp2 \<Rightarrow> fp2 \<Rightarrow> 's \<Rightarrow> (fp2 \<times> 's) option"
  sk_splits :: "fp2 \<times> fp2 \<times> fp2 \<times> fp2 \<Rightarrow> 's \<Rightarrow> (fp2 \<times> 's) option"

definition general_body :: "fp2 list \<Rightarrow> fp2 list \<Rightarrow> fp2 list \<Rightarrow> fp2 list \<Rightarrow> fp2 list \<Rightarrow> nat \<Rightarrow> round_acc" where
  "general_body s p0 p1 q0 q1 i =
     (let (a0, a2) = at02 (p0 ! (2 * i)) (p0 ! Suc (2 * i));
          (b0, b2) = at02 (p1 ! (2 * i)) (p1 ! Suc (2 * i));
          (c0, c2) = at02 (q0 ! (2 * i)) (q0 ! Suc (2 * i));
          (d0, d2) = at02 (q1 ! (2 * i)) (q1 ! Suc (2 * i))
      in \<lparr>ra_pq0 = s ! i * (a0 * d0 + b0 * c0), ra_pq2 = s ! i * (a2 * d2 + b2 * c2),
          ra_qq0 = s ! i * (c0 * d0), ra_qq2 = s ! i * (c2 * d2)\<rparr>)"

text \<open>The rounds over the remaining tables and coordinates; an index out of range panics.\<close>

fun run_general_rounds ::
  "'s sink \<Rightarrow> fp2 \<Rightarrow> (fp2 list \<times> fp2) list \<Rightarrow> fp2 list \<Rightarrow> fp2 list \<Rightarrow> fp2 list \<Rightarrow> fp2 list \<Rightarrow> fp2 \<Rightarrow> 's
   \<Rightarrow> (fp2 list \<times> (fp2 list \<times> fp2 list \<times> fp2 list \<times> fp2 list) \<times> 's) option" where
  "run_general_rounds K lam [] p0 p1 q0 q1 cpref st = Some ([], (p0, p1, q0, q1), st)"
| "run_general_rounds K lam ((s, pt) # rest) p0 p1 q0 q1 cpref st =
     (let half = length p0 div 2 in
      if half \<le> length s \<and> 2 * half \<le> length p1 \<and> 2 * half \<le> length q0 \<and> 2 * half \<le> length q1 then
        do { (r, st) \<leftarrow> sk_round K (round_message cpref lam (acc_sum (general_body s p0 p1 q0 q1) half)) pt st;
             (rs, vs, st) \<leftarrow> run_general_rounds K lam rest (fold_vec p0 r half) (fold_vec p1 r half)
                              (fold_vec q0 r half) (fold_vec q1 r half) (cpref * eq_factor pt r) st;
             Some (r # rs, vs, st) }
      else None)"

definition layer_general ::
  "'s sink \<Rightarrow> fp2 list \<Rightarrow> fp2 list \<Rightarrow> fp2 list \<Rightarrow> fp2 list \<Rightarrow> fp2 list \<Rightarrow> 's
   \<Rightarrow> (fp2 list \<times> (fp2 \<times> fp2 \<times> fp2 \<times> fp2) \<times> 's) option" where
  "layer_general K p0 p1 q0 q1 point st =
     do { (lam, st) \<leftarrow> sk_lambda K st;
          (rs, (p0, p1, q0, q1), st) \<leftarrow> run_general_rounds K lam (zip (suffix_eq_tables point) point) p0 p1 q0 q1 1 st;
          a \<leftarrow> get p0 0; b \<leftarrow> get p1 0; c \<leftarrow> get q0 0; d \<leftarrow> get q1 0;
          Some (rs, (a, b, c, d), st) }"

section \<open>The leaf layers\<close>

text \<open>The lookup side: all numerators are one for the whole layer. The first round runs in the base field.\<close>

definition ones_leaf_body :: "leaf_q \<Rightarrow> fp2 list \<Rightarrow> nat \<Rightarrow> round_acc" where
  "ones_leaf_body lq s i =
     (let a1 = lq_alpha1 lq; w7a1sq = fp_new W * a1 * a1; wa1 = fp_new W * a1;
          s0 = fp2_c0 (s ! i); s1 = fp2_c1 (s ! i);
          u0 = a1 * s0; u1 = wa1 * s1;
          (c0r, c2r) = at02 (lq_a lq ! (4 * i)) (lq_a lq ! (4 * i + 2));
          (d0r, d2r) = at02 (lq_a lq ! (4 * i + 1)) (lq_a lq ! (4 * i + 3));
          ssum = (\<lambda>x. Fp2 (s0 * x + u1 + u1) (s1 * x + u0 + u0));
          scd = (\<lambda>cr dr. let y = cr * dr + w7a1sq; z = cr + dr in Fp2 (s0 * y + u1 * z) (s1 * y + u0 * z))
      in \<lparr>ra_pq0 = ssum (c0r + d0r), ra_pq2 = ssum (c2r + d2r), ra_qq0 = scd c0r d0r, ra_qq2 = scd c2r d2r\<rparr>)"

definition ones_body :: "fp2 list \<Rightarrow> fp2 list \<Rightarrow> fp2 list \<Rightarrow> nat \<Rightarrow> round_acc" where
  "ones_body s q0 q1 i =
     (let (c0, c2) = at02 (q0 ! (2 * i)) (q0 ! Suc (2 * i));
          (d0, d2) = at02 (q1 ! (2 * i)) (q1 ! Suc (2 * i))
      in \<lparr>ra_pq0 = s ! i * (c0 + d0), ra_pq2 = s ! i * (c2 + d2), ra_qq0 = s ! i * (c0 * d0), ra_qq2 = s ! i * (c2 * d2)\<rparr>)"

fun ones_rounds ::
  "'s sink \<Rightarrow> fp2 \<Rightarrow> (fp2 list \<times> fp2) list \<Rightarrow> fp2 list \<Rightarrow> fp2 list \<Rightarrow> fp2 \<Rightarrow> 's
   \<Rightarrow> (fp2 list \<times> (fp2 list \<times> fp2 list) \<times> 's) option" where
  "ones_rounds K lam [] q0 q1 cpref st = Some ([], (q0, q1), st)"
| "ones_rounds K lam ((s, pt) # rest) q0 q1 cpref st =
     (let half = length q0 div 2 in
      if half \<le> length s \<and> 2 * half \<le> length q1 then
        do { (r, st) \<leftarrow> sk_round K (round_message cpref lam (acc_sum (ones_body s q0 q1) half)) pt st;
             (rs, vs, st) \<leftarrow> ones_rounds K lam rest (fold_vec q0 r half) (fold_vec q1 r half) (cpref * eq_factor pt r) st;
             Some (r # rs, vs, st) }
      else None)"

definition fold_leaf_q :: "leaf_q \<Rightarrow> fp2 \<Rightarrow> nat \<Rightarrow> nat \<Rightarrow> fp2" where
  "fold_leaf_q lq r base i =
     (let lo = lq_a lq ! (4 * i + base); hi = lq_a lq ! (4 * i + 2 + base)
      in Fp2 lo (lq_alpha1 lq) + fp2_mul_base r (hi - lo))"

definition layer_leaf_ones ::
  "'s sink \<Rightarrow> leaf_q \<Rightarrow> fp2 list \<Rightarrow> 's \<Rightarrow> (fp2 list \<times> (fp2 \<times> fp2 \<times> fp2 \<times> fp2) \<times> 's) option" where
  "layer_leaf_ones K lq point st =
     do { (lam, st) \<leftarrow> sk_lambda K st;
          (case zip (suffix_eq_tables point) point of
             [] \<Rightarrow> if length (lq_a lq) < 2 then None else Some ([], (1, 1, leaf_get lq 0, leaf_get lq 1), st)
           | (s, pt) # rest \<Rightarrow>
               let half = 2 ^ (length point - 1) in
               if 4 * half \<le> length (lq_a lq) then
                 do { (r, st) \<leftarrow> sk_round K (round_message 1 lam (acc_sum (ones_leaf_body lq s) half)) pt st;
                      (rs, (q0, q1), st) \<leftarrow> ones_rounds K lam rest (map (fold_leaf_q lq r 0) [0..<half])
                                              (map (fold_leaf_q lq r 1) [0..<half]) (1 * eq_factor pt r) st;
                      c \<leftarrow> get q0 0; d \<leftarrow> get q1 0;
                      Some (r # rs, (1, 1, c, d), st) }
               else None) }"

text \<open>The table side: negated multiplicities in the base field for the first round, then the general rounds.\<close>

definition neg_mult :: "u32 list \<Rightarrow> nat \<Rightarrow> fp" where
  "neg_mult mult i = - fp_new (ucast (mult ! i))"

definition negmult_leaf_body :: "u32 list \<Rightarrow> leaf_q \<Rightarrow> fp2 list \<Rightarrow> nat \<Rightarrow> round_acc" where
  "negmult_leaf_body mult lq s i =
     (let a1 = lq_alpha1 lq; w7a1sq = fp_new W * a1 * a1;
          (a0, a2) = at02 (neg_mult mult (4 * i)) (neg_mult mult (4 * i + 2));
          (b0, b2) = at02 (neg_mult mult (4 * i + 1)) (neg_mult mult (4 * i + 3));
          (c0r, c2r) = at02 (lq_a lq ! (4 * i)) (lq_a lq ! (4 * i + 2));
          (d0r, d2r) = at02 (lq_a lq ! (4 * i + 1)) (lq_a lq ! (4 * i + 3));
          c0 = Fp2 c0r a1; c2 = Fp2 c2r a1; d0 = Fp2 d0r a1; d2 = Fp2 d2r a1;
          cd0 = Fp2 (c0r * d0r + w7a1sq) ((c0r + d0r) * a1);
          cd2 = Fp2 (c2r * d2r + w7a1sq) ((c2r + d2r) * a1)
      in \<lparr>ra_pq0 = s ! i * (fp2_mul_base d0 a0 + fp2_mul_base c0 b0), ra_pq2 = s ! i * (fp2_mul_base d2 a2 + fp2_mul_base c2 b2),
          ra_qq0 = s ! i * cd0, ra_qq2 = s ! i * cd2\<rparr>)"

definition fold_leaf_p :: "u32 list \<Rightarrow> fp2 \<Rightarrow> nat \<Rightarrow> nat \<Rightarrow> fp2" where
  "fold_leaf_p mult r base i =
     (let lo = neg_mult mult (4 * i + base); hi = neg_mult mult (4 * i + 2 + base)
      in fp2_from_base lo + fp2_mul_base r (hi - lo))"

definition layer_leaf_negmult ::
  "'s sink \<Rightarrow> u32 list \<Rightarrow> leaf_q \<Rightarrow> fp2 list \<Rightarrow> 's \<Rightarrow> (fp2 list \<times> (fp2 \<times> fp2 \<times> fp2 \<times> fp2) \<times> 's) option" where
  "layer_leaf_negmult K mult lq point st =
     do { (lam, st) \<leftarrow> sk_lambda K st;
          (case zip (suffix_eq_tables point) point of
             [] \<Rightarrow> if length mult < 2 \<or> length (lq_a lq) < 2 then None
                   else Some ([], (fp2_from_base (neg_mult mult 0), fp2_from_base (neg_mult mult 1), leaf_get lq 0, leaf_get lq 1), st)
           | (s, pt) # rest \<Rightarrow>
               let half = 2 ^ (length point - 1) in
               if 4 * half \<le> length mult \<and> 4 * half \<le> length (lq_a lq) then
                 do { (r, st) \<leftarrow> sk_round K (round_message 1 lam (acc_sum (negmult_leaf_body mult lq s) half)) pt st;
                      (rs, (p0, p1, q0, q1), st) \<leftarrow> run_general_rounds K lam rest
                          (map (fold_leaf_p mult r 0) [0..<half]) (map (fold_leaf_p mult r 1) [0..<half])
                          (map (fold_leaf_q lq r 0) [0..<half]) (map (fold_leaf_q lq r 1) [0..<half]) (1 * eq_factor pt r) st;
                      a \<leftarrow> get p0 0; b \<leftarrow> get p1 0; c \<leftarrow> get q0 0; d \<leftarrow> get q1 0;
                      Some (r # rs, (a, b, c, d), st) }
               else None) }"

section \<open>The engines\<close>

definition evens :: "'a list \<Rightarrow> 'a list" where
  "evens v = map (\<lambda>i. v ! (2 * i)) [0..<length v div 2]"

definition odds :: "'a list \<Rightarrow> 'a list" where
  "odds v = map (\<lambda>i. v ! Suc (2 * i)) [0..<length v div 2]"

definition layer_leaf :: "'s sink \<Rightarrow> leaf_p \<Rightarrow> leaf_q \<Rightarrow> fp2 list \<Rightarrow> 's \<Rightarrow> (fp2 list \<times> (fp2 \<times> fp2 \<times> fp2 \<times> fp2) \<times> 's) option" where
  "layer_leaf K lp lq point st =
     (case lp of Ones \<Rightarrow> layer_leaf_ones K lq point st | NegMult mult \<Rightarrow> layer_leaf_negmult K mult lq point st)"

text \<open>The walk over the layers: \<open>ls\<close> are the levels below the current one, \<open>leaf\<close> is the leaf layer.\<close>

fun walk_layers ::
  "'s sink \<Rightarrow> (fp2 list \<Rightarrow> 's \<Rightarrow> (fp2 list \<times> (fp2 \<times> fp2 \<times> fp2 \<times> fp2) \<times> 's) option)
   \<Rightarrow> (fp2 list \<times> fp2 list) list \<Rightarrow> fp2 list \<Rightarrow> 's \<Rightarrow> (fp2 list \<times> 's) option" where
  "walk_layers K leaf [] point st =
     do { (rs, splits, st) \<leftarrow> leaf point st;
          (t, st) \<leftarrow> sk_splits K splits st;
          Some (t # rs, st) }"
| "walk_layers K leaf ((p, q) # ls) point st =
     do { (rs, splits, st) \<leftarrow> layer_general K (evens p) (odds p) (evens q) (odds q) point st;
          (t, st) \<leftarrow> sk_splits K splits st;
          walk_layers K leaf ls (t # rs) st }"

definition run_tree ::
  "'s sink \<Rightarrow> (fp2 list \<Rightarrow> 's \<Rightarrow> (fp2 list \<times> (fp2 \<times> fp2 \<times> fp2 \<times> fp2) \<times> 's) option)
   \<Rightarrow> frac_tree \<Rightarrow> 's \<Rightarrow> ((fp2 \<times> fp2 \<times> fp2 list) \<times> 's) option" where
  "run_tree K leaf tree st =
     do { root_p \<leftarrow> get (ft_p tree ! 0) 0;
          root_q \<leftarrow> get (ft_q tree ! 0) 0;
          st \<leftarrow> sk_root K root_p root_q st;
          (point, st) \<leftarrow> walk_layers K leaf (zip (tl (ft_p tree)) (tl (ft_q tree))) [] st;
          Some ((root_p, root_q, point), st) }"

definition prove_engine ::
  "'s sink \<Rightarrow> leaf_p \<Rightarrow> leaf_q \<Rightarrow> 's \<Rightarrow> ((fp2 \<times> fp2 \<times> fp2 list) \<times> 's) option" where
  "prove_engine K lp lq st =
     do { tree \<leftarrow> build_tree_cpu lp lq;
          run_tree K (layer_leaf K lp lq) tree st }"

definition prove_weighted_engine ::
  "'s sink \<Rightarrow> fp2 list \<Rightarrow> fp2 list \<Rightarrow> 's \<Rightarrow> ((fp2 \<times> fp2 \<times> fp2 list) \<times> 's) option" where
  "prove_weighted_engine K leaf_p leaf_q st =
     do { tree \<leftarrow> build_weighted_tree leaf_p leaf_q;
          run_tree K (layer_general K (evens leaf_p) (odds leaf_p) (evens leaf_q) (odds leaf_q)) tree st }"

section \<open>The clear prover and verifier\<close>

record clear_state =
  ck_chal :: fp_stream
  ck_rounds_cur :: "(fp2 \<times> fp2) list"
  ck_layers :: "layer_proof list"

definition clear_draw :: "clear_state \<Rightarrow> (fp2 \<times> clear_state) option" where
  "clear_draw st = do { (r, chal) \<leftarrow> next_fp2 (ck_chal st); Some (r, st\<lparr>ck_chal := chal\<rparr>) }"

definition clear_sink :: "clear_state sink" where
  "clear_sink =
     \<lparr>sk_root = (\<lambda>_ _ st. Some st),
      sk_lambda = clear_draw,
      sk_round = (\<lambda>h _ st. clear_draw (st\<lparr>ck_rounds_cur := ck_rounds_cur st @ [h]\<rparr>)),
      sk_splits = (\<lambda>(p0, p1, q0, q1) st.
        clear_draw (st\<lparr>ck_layers := ck_layers st @ [\<lparr>ly_rounds = ck_rounds_cur st, ly_p0 = p0, ly_p1 = p1, ly_q0 = q0, ly_q1 = q1\<rparr>],
                       ck_rounds_cur := []\<rparr>))\<rparr>"

definition prove_frac_tree :: "leaf_p \<Rightarrow> leaf_q \<Rightarrow> fp_stream \<Rightarrow> (frac_proof \<times> fp_stream) option" where
  "prove_frac_tree lp lq chal =
     do { ((root_p, root_q, _), st) \<leftarrow> prove_engine clear_sink lp lq \<lparr>ck_chal = chal, ck_rounds_cur = [], ck_layers = []\<rparr>;
          Some (\<lparr>fr_root_p = root_p, fr_root_q = root_q, fr_layers = ck_layers st\<rparr>, ck_chal st) }"

definition prove_weighted_frac_tree :: "fp2 list \<Rightarrow> fp2 list \<Rightarrow> fp_stream \<Rightarrow> (frac_proof \<times> fp_stream) option" where
  "prove_weighted_frac_tree leaf_p leaf_q chal =
     do { ((root_p, root_q, _), st) \<leftarrow>
            prove_weighted_engine clear_sink leaf_p leaf_q \<lparr>ck_chal = chal, ck_rounds_cur = [], ck_layers = []\<rparr>;
          Some (\<lparr>fr_root_p = root_p, fr_root_q = root_q, fr_layers = ck_layers st\<rparr>, ck_chal st) }"

record frac_claims =
  fc_point :: "fp2 list"
  fc_p :: fp2
  fc_q :: fp2

text \<open>One round of the verifier: the message gives \<open>h(1)\<close> through the running claim.\<close>

definition reduce_round :: "fp2 \<Rightarrow> fp2 \<times> fp2 \<Rightarrow> fp2 \<Rightarrow> fp2 \<Rightarrow> fp2" where
  "reduce_round ptj h claim r =
     (let ell0 = 1 - ptj;
          h1 = (claim - ell0 * fst h) * the (fp2_inv ptj);
          w = lagrange3 r;
          hr = w ! 0 * fst h + w ! 1 * h1 + w ! 2 * snd h;
          ell_r = ell0 + (ptj + ptj - 1) * r
      in ell_r * hr)"

text \<open>The result is the verdict with the claim, the equality prefix and the challenges; a zero coordinate is refused
  before the challenge of its round is drawn.\<close>

fun reduce_rounds ::
  "fp2 list \<Rightarrow> (fp2 \<times> fp2) list \<Rightarrow> fp2 \<Rightarrow> fp2 \<Rightarrow> fp_stream \<Rightarrow> ((fp2 \<times> fp2 \<times> fp2 list) option \<times> fp_stream) option" where
  "reduce_rounds point [] claim cpref chal = Some (Some (claim, cpref, []), chal)"
| "reduce_rounds [] (h # hs) claim cpref chal = None"
| "reduce_rounds (ptj # point) (h # hs) claim cpref chal =
     (if ptj = 0 then Some (None, chal)
      else do { (r, chal) \<leftarrow> next_fp2 chal;
                (res, chal) \<leftarrow> reduce_rounds point hs (reduce_round ptj h claim r) (cpref * eq_factor ptj r) chal;
                Some (map_option (\<lambda>(claim, cpref, rs). (claim, cpref, r # rs)) res, chal) })"

fun reduce_layers ::
  "layer_proof list \<Rightarrow> nat \<Rightarrow> fp2 list \<Rightarrow> fp2 \<Rightarrow> fp2 \<Rightarrow> fp_stream \<Rightarrow> (frac_claims option \<times> fp_stream) option" where
  "reduce_layers [] l point cp cq chal = Some (Some \<lparr>fc_point = point, fc_p = cp, fc_q = cq\<rparr>, chal)"
| "reduce_layers (layer # layers) l point cp cq chal =
     (if length (ly_rounds layer) \<noteq> l then Some (None, chal)
      else do { (lam, chal) \<leftarrow> next_fp2 chal;
                (res, chal) \<leftarrow> reduce_rounds point (ly_rounds layer) (lam * cp + cq) 1 chal;
                case res of
                  None \<Rightarrow> Some (None, chal)
                | Some (claim, cpref, rs) \<Rightarrow>
                    (let frac = lam * (ly_p0 layer * ly_q1 layer + ly_p1 layer * ly_q0 layer) + ly_q0 layer * ly_q1 layer in
                     if claim \<noteq> cpref * frac then Some (None, chal)
                     else do { (child, chal) \<leftarrow> next_fp2 chal;
                               reduce_layers layers (Suc l) (child # rs)
                                 (ly_p0 layer + child * (ly_p1 layer - ly_p0 layer))
                                 (ly_q0 layer + child * (ly_q1 layer - ly_q0 layer)) chal }) })"

definition reduce_frac_tree :: "frac_proof \<Rightarrow> fp_stream \<Rightarrow> (frac_claims option \<times> fp_stream) option" where
  "reduce_frac_tree pf chal = reduce_layers (fr_layers pf) 0 [] (fr_root_p pf) (fr_root_q pf) chal"

text \<open>The leaf evaluations are the caller's and may panic.\<close>

definition verify_frac_tree ::
  "frac_proof \<Rightarrow> (fp2 list \<Rightarrow> fp2 option) \<Rightarrow> (fp2 list \<Rightarrow> fp2 option) \<Rightarrow> fp_stream \<Rightarrow> (bool \<times> fp_stream) option" where
  "verify_frac_tree pf leaf_p_eval leaf_q_eval chal =
     do { (res, chal) \<leftarrow> reduce_frac_tree pf chal;
          case res of
            None \<Rightarrow> Some (False, chal)
          | Some claims \<Rightarrow>
              do { p \<leftarrow> leaf_p_eval (fc_point claims);
                   if fc_p claims \<noteq> p then Some (False, chal)
                   else do { q \<leftarrow> leaf_q_eval (fc_point claims); Some (fc_q claims = q, chal) } } }"

definition eval_mle_counted :: "fp2 list \<Rightarrow> fp2 list \<Rightarrow> fp2 option" where
  "eval_mle_counted values point =
     (if length values = 2 ^ length point then get (eval_mle_loop values point) 0 else None)"

record logup_proof =
  lg_lookup_side :: frac_proof
  lg_table_side :: frac_proof

definition logup_bytes :: "logup_proof \<Rightarrow> u64" where
  "logup_bytes pf = frac_bytes (lg_lookup_side pf) + frac_bytes (lg_table_side pf)"

definition logup_prove ::
  "i16 list \<Rightarrow> i16 list \<Rightarrow> u32 list \<Rightarrow> fp_stream \<Rightarrow> ((fp2 \<times> logup_proof) \<times> fp_stream) option" where
  "logup_prove f table mult chal =
     do { (alpha, chal) \<leftarrow> next_fp2 chal;
          (lookup_side, chal) \<leftarrow> prove_frac_tree Ones (lift_q f alpha) chal;
          (table_side, chal) \<leftarrow> prove_frac_tree (NegMult mult) (lift_q table alpha) chal;
          Some ((alpha, \<lparr>lg_lookup_side = lookup_side, lg_table_side = table_side\<rparr>), chal) }"

definition lift_vals :: "fp2 \<Rightarrow> i16 list \<Rightarrow> fp2 list" where
  "lift_vals alpha vals = map (\<lambda>v. alpha - fp2_from_base (lift_i16 v)) vals"

definition neg_mults :: "u32 list \<Rightarrow> fp2 list" where
  "neg_mults mult = map (\<lambda>m. 0 - fp2_from_base (fp_new (ucast m))) mult"

definition logup_verify ::
  "i16 list \<Rightarrow> i16 list \<Rightarrow> u32 list \<Rightarrow> logup_proof \<Rightarrow> fp_stream \<Rightarrow> (bool \<times> fp_stream) option" where
  "logup_verify f table mult pf chal =
     do { (alpha, chal) \<leftarrow> next_fp2 chal;
          let pf_root = fr_root_p (lg_lookup_side pf);
          let qf = fr_root_q (lg_lookup_side pf);
          let pt = fr_root_p (lg_table_side pf);
          let qt = fr_root_q (lg_table_side pf);
          if pf_root * qt + pt * qf \<noteq> 0 \<or> qf = 0 \<or> qt = 0 then Some (False, chal)
          else do { (ok_f, chal) \<leftarrow> verify_frac_tree (lg_lookup_side pf) (\<lambda>_. Some 1)
                      (eval_mle_counted (lift_vals alpha f)) chal;
                    if \<not> ok_f then Some (False, chal)
                    else verify_frac_tree (lg_table_side pf) (eval_mle_counted (neg_mults mult))
                           (eval_mle_counted (lift_vals alpha table)) chal } }"

end
