(* ===== verification/Logup_Engine.thy ===== *)
theory Logup_Engine
  imports Logup
begin

text \<open>
  The optimised fraction-tree engine against the reference engine. Leaves are kept as base-field real parts with a
  shared imaginary part; the first combine, the first round and the first fold of the leaf layer are evaluated in
  that form. Each of these steps is shown to compute what the general step computes on the materialised leaves,
  and the engines are then equal for every sink.
\<close>

section \<open>Tables, folds and sums\<close>

lemma suffix_loop_eq:
  "suffix_loop (rev xs) (eq_vec ys) ts = map (\<lambda>j. eq_vec (drop (Suc j) xs @ ys)) [0..<length xs] @ ts"
proof (induction xs arbitrary: ys ts rule: rev_induct)
  case (snoc x xs)
  have "suffix_loop (rev (xs @ [x])) (eq_vec ys) ts = suffix_loop (rev xs) (eq_vec (x # ys)) (eq_vec ys # ts)"
    by (simp add: eq_vec_Cons Let_def)
  then show ?case using snoc [of "x # ys" "eq_vec ys # ts"] by simp
qed simp

lemma suffix_eq_tables: "suffix_eq_tables point = map (\<lambda>j. eq_vec (drop (Suc j) point)) [0..<length point]"
  using suffix_loop_eq [of point "[]" "[]"] by (simp add: suffix_eq_tables_def)

lemma zip_tables_Nil [simp]: "zip (suffix_eq_tables []) [] = []"
  by simp

lemma zip_tables_Cons [simp]:
  "zip (suffix_eq_tables (x # xs)) (x # xs) = (eq_vec xs, x) # zip (suffix_eq_tables xs) xs"
  by (simp add: suffix_eq_tables upt_conv_Cons map_Suc_upt [symmetric] comp_def del: upt_Suc)

lemma length_suffix_tables [simp]: "length (suffix_eq_tables point) = length point"
  by (simp add: suffix_eq_tables)

lemma fold_vec_eq: "half = length v div 2 \<Longrightarrow> fold_vec v r half = fold_low v r"
proof (cases "PAR_THRESHOLD \<le> half")
  case True
  then show "half = length v div 2 \<Longrightarrow> ?thesis" by (simp add: fold_vec_def fold_low_eq fold_pairs_def)
next
  case False
  then show "half = length v div 2 \<Longrightarrow> ?thesis" by (simp add: fold_vec_def fold_low_def Let_def)
qed

lemma acc_sum:
  "ra_pq0 (acc_sum f n) = (\<Sum>i<n. ra_pq0 (f i))" "ra_pq2 (acc_sum f n) = (\<Sum>i<n. ra_pq2 (f i))"
  "ra_qq0 (acc_sum f n) = (\<Sum>i<n. ra_qq0 (f i))" "ra_qq2 (acc_sum f n) = (\<Sum>i<n. ra_qq2 (f i))"
proof -
  have "acc_sum f (Suc n) = acc_add (acc_sum f n) (f n)" for n by (simp add: acc_sum_def)
  moreover have "acc_sum f 0 = acc_zero" by (simp add: acc_sum_def)
  ultimately show "ra_pq0 (acc_sum f n) = (\<Sum>i<n. ra_pq0 (f i))" "ra_pq2 (acc_sum f n) = (\<Sum>i<n. ra_pq2 (f i))"
    "ra_qq0 (acc_sum f n) = (\<Sum>i<n. ra_qq0 (f i))" "ra_qq2 (acc_sum f n) = (\<Sum>i<n. ra_qq2 (f i))"
    by (induction n) (simp_all add: acc_add_def acc_zero_def)
qed

lemma acc_sum_cong: "(\<And>i. i < n \<Longrightarrow> f i = g i) \<Longrightarrow> acc_sum f n = acc_sum g n"
  unfolding acc_sum_def by (intro arg_cong [of _ _ "foldl acc_add acc_zero"] map_cong) auto

lemma length_evens_odds [simp]: "length (evens v) = length v div 2" "length (odds v) = length v div 2"
  by (simp_all add: evens_def odds_def)

lemma nth_evens_odds:
  "i < length v div 2 \<Longrightarrow> evens v ! i = v ! (2 * i)" "i < length v div 2 \<Longrightarrow> odds v ! i = v ! Suc (2 * i)"
  by (simp_all add: evens_def odds_def)

section \<open>Materialised leaves\<close>

definition mat_q :: "leaf_q \<Rightarrow> fp2 list" where
  "mat_q lq = map (\<lambda>a. Fp2 a (lq_alpha1 lq)) (lq_a lq)"

definition mat_p :: "leaf_p \<Rightarrow> nat \<Rightarrow> fp2 list" where
  "mat_p lp n = (case lp of Ones \<Rightarrow> replicate n 1 | NegMult mult \<Rightarrow> map (\<lambda>m. fp2_from_base (- fp_new (ucast m))) mult)"

lemma mat_q_nth [simp]: "i < length (lq_a lq) \<Longrightarrow> mat_q lq ! i = Fp2 (lq_a lq ! i) (lq_alpha1 lq)" "length (mat_q lq) = length (lq_a lq)"
  by (simp_all add: mat_q_def)

lemma mat_p_simps [simp]:
  "length (mat_p Ones n) = n" "length (mat_p (NegMult mult) n) = length mult"
  "i < n \<Longrightarrow> mat_p Ones n ! i = 1" "i < length mult \<Longrightarrow> mat_p (NegMult mult) n ! i = fp2_from_base (neg_mult mult i)"
  by (simp_all add: mat_p_def neg_mult_def)

lemma build_tree_reference:
  "build_tree_cpu lp lq = build_weighted_tree (mat_p lp (length (lq_a lq))) (mat_q lq)"
proof -
  let ?n = "length (lq_a lq)"
  have q: "map (q_first lq) [0..<?n div 2] = snd (combine_layer p (mat_q lq))" if "length p = ?n" for p
    using that by (auto simp: combine_layer_def q_first_def Let_def times_fp2_def algebra_simps)
  have o: "map (\<lambda>i. Fp2 (lq_a lq ! (2 * i) + lq_a lq ! Suc (2 * i)) (lq_alpha1 lq + lq_alpha1 lq)) [0..<?n div 2]
      = fst (combine_layer (mat_p Ones ?n) (mat_q lq))"
    by (auto simp: combine_layer_def Let_def plus_fp2_def)
  have m: "map (\<lambda>i. let a = lq_a lq ! (2 * i); b = lq_a lq ! Suc (2 * i);
               ma = fp_new (ucast (mult ! (2 * i))); mb = fp_new (ucast (mult ! Suc (2 * i)))
           in Fp2 (- (ma * b + mb * a)) (- ((ma + mb) * lq_alpha1 lq))) [0..<?n div 2]
      = fst (combine_layer (mat_p (NegMult mult) ?n) (mat_q lq))" if "length mult = ?n" for mult
    using that by (auto simp: combine_layer_def Let_def plus_fp2_def times_fp2_def fp2_from_base_def neg_mult_def algebra_simps)
  show ?thesis
  proof (cases lp)
    case Ones
    then show ?thesis
      using q [of "mat_p Ones ?n"] o by (simp add: build_tree_cpu_def build_weighted_tree_def case_prod_unfold Let_def)
  next
    case (NegMult mult)
    then show ?thesis
      using q [of "mat_p (NegMult mult) ?n"] m [of mult]
      by (auto simp: build_tree_cpu_def build_weighted_tree_def case_prod_unfold Let_def)
  qed
qed

section \<open>The leaf layers\<close>

lemma evens_odds_quad:
  assumes "4 * i + 3 < length v"
  shows "evens v ! (2 * i) = v ! (4 * i)" "evens v ! Suc (2 * i) = v ! (4 * i + 2)"
    "odds v ! (2 * i) = v ! (4 * i + 1)" "odds v ! Suc (2 * i) = v ! (4 * i + 3)"
proof -
  have "Suc (2 * i) < length v div 2" using assms by linarith
  moreover have "2 * (2 * i) = 4 * i" "2 * Suc (2 * i) = 4 * i + 2" "Suc (4 * i + 2) = 4 * i + 3" by simp_all
  ultimately show "evens v ! (2 * i) = v ! (4 * i)" "evens v ! Suc (2 * i) = v ! (4 * i + 2)"
    "odds v ! (2 * i) = v ! (4 * i + 1)" "odds v ! Suc (2 * i) = v ! (4 * i + 3)"
    using nth_evens_odds [of "2 * i" v] nth_evens_odds [of "Suc (2 * i)" v] by (simp_all only:) simp_all
qed

lemma at02_same [simp]: "at02 (x :: fp2) x = (x, x)"
  by (simp add: at02_def)

lemma at02_shared: "at02 (Fp2 a x) (Fp2 b x) = (Fp2 (fst (at02 a b)) x, Fp2 (snd (at02 a b)) x)"
  by (simp add: at02_def Let_def plus_fp2_def minus_fp2_def)

lemma at02_from_base: "at02 (fp2_from_base a) (fp2_from_base b) = (fp2_from_base (fst (at02 a b)), fp2_from_base (snd (at02 a b)))"
  by (simp add: at02_def Let_def plus_fp2_def minus_fp2_def fp2_from_base_def)

lemma ones_leaf_body_general:
  assumes "4 * i + 3 < length (lq_a lq)"
  shows "ones_leaf_body lq s i
    = general_body s (evens (mat_p Ones (length (lq_a lq)))) (odds (mat_p Ones (length (lq_a lq)))) (evens (mat_q lq)) (odds (mat_q lq)) i"
proof (cases "s ! i")
  case (Fp2 s0 s1)
  then show ?thesis
    using assms
    by (simp add: ones_leaf_body_def general_body_def evens_odds_quad at02_shared case_prod_unfold Let_def)
       (simp add: plus_fp2_def times_fp2_def algebra_simps)
qed

lemma negmult_leaf_body_general:
  assumes "4 * i + 3 < length (lq_a lq)" "length mult = length (lq_a lq)"
  shows "negmult_leaf_body mult lq s i
    = general_body s (evens (mat_p (NegMult mult) n)) (odds (mat_p (NegMult mult) n)) (evens (mat_q lq)) (odds (mat_q lq)) i"
  using assms
  by (simp add: negmult_leaf_body_def general_body_def evens_odds_quad at02_shared at02_from_base case_prod_unfold Let_def)
     (simp add: plus_fp2_def times_fp2_def fp2_mul_base_def fp2_from_base_def algebra_simps)

lemma fold_leaf_general:
  assumes "length (lq_a lq) = 4 * half"
  shows "map (fold_leaf_q lq r 0) [0..<half] = fold_vec (evens (mat_q lq)) r half"
    "map (fold_leaf_q lq r (Suc 0)) [0..<half] = fold_vec (odds (mat_q lq)) r half"
    "length mult = length (lq_a lq) \<Longrightarrow> map (fold_leaf_p mult r 0) [0..<half] = fold_vec (evens (mat_p (NegMult mult) n)) r half"
    "length mult = length (lq_a lq) \<Longrightarrow> map (fold_leaf_p mult r (Suc 0)) [0..<half] = fold_vec (odds (mat_p (NegMult mult) n)) r half"
proof -
  have *: "map f [0..<half] = fold_vec v r half"
    if "length v = 2 * half" "\<And>i. i < half \<Longrightarrow> f i = v ! (2 * i) + r * (v ! Suc (2 * i) - v ! (2 * i))" for f v
    using that by (auto intro!: nth_equalityI simp: fold_vec_eq fold_low_eq nth_fold_pairs)
  have q: "Fp2 a x + fp2_mul_base r (b - a) = Fp2 a x + r * (Fp2 b x - Fp2 a x)" for a b x
    by (simp add: fp2_mul_base_def plus_fp2_def minus_fp2_def times_fp2_def)
  have p: "fp2_from_base a + fp2_mul_base r (b - a) = fp2_from_base a + r * (fp2_from_base b - fp2_from_base a)" for a b
    by (simp add: fp2_mul_base_eq)
  show "map (fold_leaf_q lq r 0) [0..<half] = fold_vec (evens (mat_q lq)) r half"
    "map (fold_leaf_q lq r (Suc 0)) [0..<half] = fold_vec (odds (mat_q lq)) r half"
    "length mult = length (lq_a lq) \<Longrightarrow> map (fold_leaf_p mult r 0) [0..<half] = fold_vec (evens (mat_p (NegMult mult) n)) r half"
    "length mult = length (lq_a lq) \<Longrightarrow> map (fold_leaf_p mult r (Suc 0)) [0..<half] = fold_vec (odds (mat_p (NegMult mult) n)) r half"
    using assms by (auto intro!: * simp: fold_leaf_q_def fold_leaf_p_def evens_odds_quad q p Let_def numeral_3_eq_3)
qed

lemma fold_vec_ones [simp]: "fold_vec (replicate n 1) r (n div 2) = replicate (n div 2) 1"
  by (auto intro!: nth_equalityI simp: fold_vec_eq fold_low_eq nth_fold_pairs)

lemma length_fold_vec: "half = length v div 2 \<Longrightarrow> length (fold_vec v r half) = half"
  by (simp add: fold_vec_eq)

lemma ones_body_general:
  "i < n div 2 \<Longrightarrow> ones_body s q0 q1 i = general_body s (replicate n 1) (replicate n 1) q0 q1 i"
  by (simp add: ones_body_def general_body_def case_prod_unfold Let_def add.commute)

lemma ones_rounds_general:
  "run_general_rounds K lam ts (replicate (length q0) 1) (replicate (length q0) 1) q0 q1 cpref st
    = map_option (\<lambda>(rs, (q0, q1), st). (rs, (replicate (length q0) 1, replicate (length q0) 1, q0, q1), st))
        (ones_rounds K lam ts q0 q1 cpref st)"
proof (induction K lam ts q0 q1 cpref st rule: ones_rounds.induct)
  case (2 K lam s pt rest q0 q1 cpref st)
  let ?half = "length q0 div 2"
  have body: "acc_sum (general_body s (replicate (length q0) 1) (replicate (length q0) 1) q0 q1) ?half = acc_sum (ones_body s q0 q1) ?half"
    by (rule acc_sum_cong) (simp add: ones_body_general)
  show ?case
  proof (cases "?half \<le> length s \<and> 2 * ?half \<le> length q1")
    case True
    show ?thesis
      using True 2 [OF refl True] body
      by (simp add: Let_def length_fold_vec map_option_bind option.map_comp case_prod_unfold comp_def
          split: bind_split)
  qed (auto simp: Let_def)
qed simp

lemma mat_p_Ones_split [simp]:
  "evens (mat_p Ones (2 * n)) = replicate n 1" "odds (mat_p Ones (2 * n)) = replicate n 1"
  by (auto intro!: nth_equalityI simp: nth_evens_odds)

lemma layer_general_Cons:
  assumes "length p0 = 2 * h" "length p1 = 2 * h" "length q0 = 2 * h" "length q1 = 2 * h" "h = 2 ^ length xs"
  shows "layer_general K p0 p1 q0 q1 (x # xs) st =
    do { (lam, st) \<leftarrow> sk_lambda K st;
         (r, st) \<leftarrow> sk_round K (round_message 1 lam (acc_sum (general_body (eq_vec xs) p0 p1 q0 q1) h)) x st;
         (rs, (p0, p1, q0, q1), st) \<leftarrow> run_general_rounds K lam (zip (suffix_eq_tables xs) xs) (fold_vec p0 r h) (fold_vec p1 r h)
                          (fold_vec q0 r h) (fold_vec q1 r h) (eq_factor x r) st;
         a \<leftarrow> get p0 0; b \<leftarrow> get p1 0; c \<leftarrow> get q0 0; d \<leftarrow> get q1 0;
         Some (r # rs, (a, b, c, d), st) }"
  using assms by (simp add: layer_general_def case_prod_unfold Let_def)

lemma layer_leaf_ones_general:
  assumes "length (lq_a lq) = 2 * 2 ^ length point"
  shows "layer_leaf_ones K lq point st
    = layer_general K (evens (mat_p Ones (length (lq_a lq)))) (odds (mat_p Ones (length (lq_a lq)))) (evens (mat_q lq)) (odds (mat_q lq)) point st"
proof (cases point)
  case Nil
  then have "evens (mat_q lq) = [leaf_get lq 0]" "odds (mat_q lq) = [leaf_get lq 1]" "length (lq_a lq) = 2 * 1"
    using assms by (auto intro!: nth_equalityI simp: nth_evens_odds leaf_get_def)
  then show ?thesis
    using Nil mat_p_Ones_split [of 1] by (simp add: layer_leaf_ones_def layer_general_def)
next
  case (Cons x xs)
  define h :: nat where "h = 2 ^ length xs"
  let ?P = "mat_p Ones (length (lq_a lq))" and ?Q = "mat_q lq"
  have len: "length (lq_a lq) = 4 * h" using assms Cons by (simp add: h_def)
  have body: "acc_sum (general_body s (evens ?P) (odds ?P) (evens ?Q) (odds ?Q)) h = acc_sum (ones_leaf_body lq s) h" for s
    by (rule acc_sum_cong) (simp add: ones_leaf_body_general len)
  have P: "evens ?P = replicate (2 * h) 1" "odds ?P = replicate (2 * h) 1"
    using mat_p_Ones_split [of "2 * h"] len by simp_all
  have fold: "fold_vec (replicate (2 * h) 1) r h = replicate h 1" for r
    using fold_vec_ones [of "2 * h" r] by simp
  have rounds: "run_general_rounds K lam ts (replicate h 1) (replicate h 1) (map f [0..<h]) q1 c st
    = map_option (\<lambda>(rs, (q0, q1), st). (rs, (replicate (length q0) 1, replicate (length q0) 1, q0, q1), st))
        (ones_rounds K lam ts (map f [0..<h]) q1 c st)" for lam ts f q1 c st
    using ones_rounds_general [of K lam ts "map f [0..<h]"] by simp
  have ends: "get (replicate (length q0) (1 :: fp2)) 0 \<bind> (\<lambda>a. get (replicate (length q0) (1 :: fp2)) 0 \<bind> (\<lambda>b. get q0 0 \<bind> (\<lambda>c. F a b c)))
      = get q0 0 \<bind> (\<lambda>c. F 1 1 c)" for q0 :: "fp2 list" and F :: "fp2 \<Rightarrow> fp2 \<Rightarrow> fp2 \<Rightarrow> 'z option"
    by (cases q0) (simp_all add: get_def)
  have lens: "length (evens ?P) = 2 * h" "length (odds ?P) = 2 * h" "length (evens ?Q) = 2 * h" "length (odds ?Q) = 2 * h"
    using len by simp_all
  have "layer_general K (evens ?P) (odds ?P) (evens ?Q) (odds ?Q) (x # xs) st =
    do { (lam, st) \<leftarrow> sk_lambda K st;
         (r, st) \<leftarrow> sk_round K (round_message 1 lam (acc_sum (ones_leaf_body lq (eq_vec xs)) h)) x st;
         (rs, (q0, q1), st) \<leftarrow> ones_rounds K lam (zip (suffix_eq_tables xs) xs) (map (fold_leaf_q lq r 0) [0..<h])
                            (map (fold_leaf_q lq r 1) [0..<h]) (eq_factor x r) st;
         c \<leftarrow> get q0 0; d \<leftarrow> get q1 0;
         Some (r # rs, (1, 1, c, d), st) }"
    unfolding layer_general_Cons [OF lens h_def] body
    unfolding P fold fold_leaf_general(1,2) [OF len, symmetric] rounds One_nat_def
    by (simp add: bind_map_option comp_def case_prod_unfold ends)
  then show ?thesis
    using Cons len by (simp add: layer_leaf_ones_def h_def [symmetric] Let_def)
qed

lemma layer_leaf_negmult_general:
  assumes "length (lq_a lq) = 2 * 2 ^ length point" "length mult = length (lq_a lq)"
  shows "layer_leaf_negmult K mult lq point st
    = layer_general K (evens (mat_p (NegMult mult) n)) (odds (mat_p (NegMult mult) n)) (evens (mat_q lq)) (odds (mat_q lq)) point st"
proof (cases point)
  case Nil
  then have "evens (mat_q lq) = [leaf_get lq 0]" "odds (mat_q lq) = [leaf_get lq 1]" "length (lq_a lq) = 2"
    "evens (mat_p (NegMult mult) n) = [fp2_from_base (neg_mult mult 0)]"
    "odds (mat_p (NegMult mult) n) = [fp2_from_base (neg_mult mult 1)]" "length mult = 2"
    using assms by (auto intro!: nth_equalityI simp: nth_evens_odds leaf_get_def)
  then show ?thesis
    using Nil by (simp add: layer_leaf_negmult_def layer_general_def)
next
  case (Cons x xs)
  define h :: nat where "h = 2 ^ length xs"
  let ?P = "mat_p (NegMult mult) n" and ?Q = "mat_q lq"
  have len: "length (lq_a lq) = 4 * h" "length mult = 4 * h" using assms Cons by (simp_all add: h_def)
  have body: "acc_sum (general_body s (evens ?P) (odds ?P) (evens ?Q) (odds ?Q)) h = acc_sum (negmult_leaf_body mult lq s) h" for s
    by (rule acc_sum_cong) (simp add: negmult_leaf_body_general [where n = n] len)
  have lens: "length (evens ?P) = 2 * h" "length (odds ?P) = 2 * h" "length (evens ?Q) = 2 * h" "length (odds ?Q) = 2 * h"
    using len by simp_all
  have "layer_general K (evens ?P) (odds ?P) (evens ?Q) (odds ?Q) (x # xs) st =
    do { (lam, st) \<leftarrow> sk_lambda K st;
         (r, st) \<leftarrow> sk_round K (round_message 1 lam (acc_sum (negmult_leaf_body mult lq (eq_vec xs)) h)) x st;
         (rs, (p0, p1, q0, q1), st) \<leftarrow> run_general_rounds K lam (zip (suffix_eq_tables xs) xs)
             (map (fold_leaf_p mult r 0) [0..<h]) (map (fold_leaf_p mult r 1) [0..<h])
             (map (fold_leaf_q lq r 0) [0..<h]) (map (fold_leaf_q lq r 1) [0..<h]) (eq_factor x r) st;
         a \<leftarrow> get p0 0; b \<leftarrow> get p1 0; c \<leftarrow> get q0 0; d \<leftarrow> get q1 0;
         Some (r # rs, (a, b, c, d), st) }"
    unfolding layer_general_Cons [OF lens h_def] body
    unfolding fold_leaf_general(1,2) [OF len(1), symmetric] fold_leaf_general(3,4) [OF len(1) assms(2), symmetric]
    by simp
  then show ?thesis
    using Cons len by (simp add: layer_leaf_negmult_def h_def [symmetric] Let_def)
qed

section \<open>The engines\<close>

lemma run_general_rounds_length:
  "run_general_rounds K lam ts p0 p1 q0 q1 cpref st = Some (rs, vs, st') \<Longrightarrow> length rs = length ts"
proof (induction ts arbitrary: p0 p1 q0 q1 cpref st rs vs)
  case (Cons t ts)
  obtain s pt where t: "t = (s, pt)" by (cases t)
  from Cons.prems show ?case
    unfolding t run_general_rounds.simps Let_def by (auto simp: bind_eq_Some_conv dest!: Cons.IH split: if_splits)
qed simp

lemma layer_general_length: "layer_general K p0 p1 q0 q1 point st = Some (rs, vs, st') \<Longrightarrow> length rs = length point"
  by (auto simp: layer_general_def bind_eq_Some_conv dest!: run_general_rounds_length)

lemma walk_layers_leaf:
  assumes "\<And>point st. length point = n \<Longrightarrow> leaf point st = leaf' point st" "length point + length ls = n"
  shows "walk_layers K leaf ls point st = walk_layers K leaf' ls point st"
  using assms(2)
proof (induction ls arbitrary: point st)
  case Nil
  then show ?case using assms(1) by simp
next
  case (Cons l ls)
  obtain p q where l: "l = (p, q)" by (cases l)
  show ?case
    unfolding l walk_layers.simps
    by (intro Option.bind_cong refl) (auto dest!: layer_general_length intro!: Option.bind_cong Cons.IH simp: Cons.prems [symmetric])
qed

lemma length_tree_levels [simp]: "length (tree_levels k p q) = Suc k"
  by (induction k arbitrary: p q) (simp_all add: case_prod_unfold Let_def)

lemma layer_leaf_general:
  assumes "build_tree_cpu lp lq \<noteq> None" "length (lq_a lq) = 2 * 2 ^ length point"
  shows "layer_leaf K lp lq point st
    = layer_general K (evens (mat_p lp (length (lq_a lq)))) (odds (mat_p lp (length (lq_a lq)))) (evens (mat_q lq)) (odds (mat_q lq)) point st"
  using assms layer_leaf_ones_general layer_leaf_negmult_general
  by (cases lp) (auto simp: layer_leaf_def build_tree_cpu_def Let_def split: if_splits)

lemma engine_reference:
  "prove_engine K lp lq st = prove_weighted_engine K (mat_p lp (length (lq_a lq))) (mat_q lq) st"
proof (cases "build_tree_cpu lp lq")
  case None
  then show ?thesis by (simp add: prove_engine_def prove_weighted_engine_def build_tree_reference [symmetric])
next
  case (Some tree)
  let ?n = "length (lq_a lq)"
  have n: "?n = 2 ^ trailing_zeros ?n" "2 \<le> ?n"
    using Some by (auto simp: build_tree_cpu_def Let_def is_power_of_two_def split: leaf_p.splits if_splits)
  then have pos: "0 < trailing_zeros ?n" by (cases "trailing_zeros ?n") auto
  have "length (tl (ft_p tree)) = trailing_zeros ?n - 1" "length (tl (ft_q tree)) = trailing_zeros ?n - 1"
    using Some by (auto simp: build_tree_cpu_def tree_of_def Let_def split: leaf_p.splits if_splits)
  then have "walk_layers K (layer_leaf K lp lq) (zip (tl (ft_p tree)) (tl (ft_q tree))) [] st
      = walk_layers K (layer_general K (evens (mat_p lp ?n)) (odds (mat_p lp ?n)) (evens (mat_q lq)) (odds (mat_q lq)))
          (zip (tl (ft_p tree)) (tl (ft_q tree))) [] st" for st
    using Some n pos
    by (intro walk_layers_leaf [where n = "trailing_zeros ?n - 1"] layer_leaf_general)
       (simp_all add: power_eq_if [of 2 "trailing_zeros ?n"])
  then show ?thesis
    using Some by (simp add: prove_engine_def prove_weighted_engine_def build_tree_reference [symmetric] run_tree_def)
qed

text \<open>C8. The optimised engine, which keeps the denominators as base-field real parts over one imaginary part and the
  numerators implicit, and evaluates the first combine, the leaf round and the leaf fold in the base field, does
  exactly what the reference engine does on the materialised leaves: the same panics, the same messages to the sink
  in the same order, the same root and the same final point, for every sink and every length of leaves.\<close>

theorem optimised_engine_is_reference:
  "prove_engine K lp lq st = prove_weighted_engine K (mat_p lp (length (lq_a lq))) (mat_q lq) st"
  by (rule engine_reference)

end
