(* ===== verification/Logup_Complete.thy ===== *)
theory Logup_Complete
  imports Logup_Engine Sumcheck_Clear
begin

text \<open>
  Completeness of the fraction-tree argument. The running claim of a layer is the equality prefix times the sum of the
  folded layer weighted with the equality table; the round message is this sum at 0 and 2, a quadratic in the
  challenge; the four values at the end of a layer are the multilinear extensions of the halves of the next level.
\<close>

section \<open>The sum of a layer\<close>

definition layer_val :: "fp2 \<Rightarrow> fp2 \<Rightarrow> fp2 \<Rightarrow> fp2 \<Rightarrow> fp2 \<Rightarrow> fp2" where
  "layer_val lam a b c d = lam * (a * d + b * c) + c * d"

definition layer_sum :: "fp2 \<Rightarrow> fp2 list \<Rightarrow> fp2 list \<Rightarrow> fp2 list \<Rightarrow> fp2 list \<Rightarrow> fp2 list \<Rightarrow> fp2" where
  "layer_sum lam point p0 p1 q0 q1 =
     (\<Sum>i<2 ^ length point. eq_vec point ! i * layer_val lam (p0 ! i) (p1 ! i) (q0 ! i) (q1 ! i))"

text \<open>The round polynomial: the sum over the remaining coordinates with the tables folded at the challenge.\<close>

definition round_poly :: "fp2 \<Rightarrow> fp2 list \<Rightarrow> fp2 list \<Rightarrow> fp2 list \<Rightarrow> fp2 list \<Rightarrow> fp2 list \<Rightarrow> fp2 \<Rightarrow> fp2" where
  "round_poly lam xs p0 p1 q0 q1 r = layer_sum lam xs (fold_low p0 r) (fold_low p1 r) (fold_low q0 r) (fold_low q1 r)"

abbreviation tables_len :: "nat \<Rightarrow> fp2 list \<Rightarrow> fp2 list \<Rightarrow> fp2 list \<Rightarrow> fp2 list \<Rightarrow> bool" where
  "tables_len n p0 p1 q0 q1 \<equiv> length p0 = n \<and> length p1 = n \<and> length q0 = n \<and> length q1 = n"

lemma layer_sum_Nil [simp]: "layer_sum lam [] p0 p1 q0 q1 = layer_val lam (p0 ! 0) (p1 ! 0) (q0 ! 0) (q1 ! 0)"
  by (simp add: layer_sum_def)

lemma round_poly_nth:
  assumes "tables_len (2 ^ Suc (length xs)) p0 p1 q0 q1"
  shows "round_poly lam xs p0 p1 q0 q1 r = (\<Sum>i<2 ^ length xs. eq_vec xs ! i * layer_val lam
      (p0 ! (2 * i) + (p0 ! Suc (2 * i) - p0 ! (2 * i)) * r) (p1 ! (2 * i) + (p1 ! Suc (2 * i) - p1 ! (2 * i)) * r)
      (q0 ! (2 * i) + (q0 ! Suc (2 * i) - q0 ! (2 * i)) * r) (q1 ! (2 * i) + (q1 ! Suc (2 * i) - q1 ! (2 * i)) * r))"
  unfolding round_poly_def layer_sum_def using assms
  by (intro sum.cong) (simp_all add: fold_low_eq nth_fold_pairs)

lemma layer_val_quad:
  "layer_val lam (a + a' * r) (b + b' * r) (c + c' * r) (d + d' * r)
    = layer_val lam a b c d + (lam * (a * d' + a' * d + b * c' + b' * c) + c * d' + c' * d) * r + layer_val lam a' b' c' d' * r ^ 2"
  by (simp add: layer_val_def algebra_simps power2_eq_square)

lemma sum_quad: "(\<Sum>i<n. e i * (A i + B i * r + C i * r ^ 2)) = (\<Sum>i<n. e i * A i) + (\<Sum>i<n. e i * B i) * r + (\<Sum>i<n. e i * C i) * r ^ 2"
  for r :: fp2
  unfolding sum_distrib_right sum.distrib [symmetric] by (rule sum.cong) (simp_all add: algebra_simps)

lemma round_poly_quad:
  assumes "tables_len (2 ^ Suc (length xs)) p0 p1 q0 q1"
  obtains a0 a1 a2 where "\<And>r. round_poly lam xs p0 p1 q0 q1 r = a0 + a1 * r + a2 * r ^ 2"
  by (rule that, unfold round_poly_nth [OF assms] layer_val_quad sum_quad) (rule refl)

lemma layer_sum_Cons:
  assumes "tables_len (2 ^ Suc (length xs)) p0 p1 q0 q1"
  shows "layer_sum lam (x # xs) p0 p1 q0 q1
    = (1 - x) * round_poly lam xs p0 p1 q0 q1 0 + x * round_poly lam xs p0 p1 q0 q1 1"
proof -
  let ?F = "\<lambda>i. layer_val lam (p0 ! i) (p1 ! i) (q0 ! i) (q1 ! i)" and ?n = "2 ^ length xs :: nat"
  have "layer_sum lam (x # xs) p0 p1 q0 q1
      = (\<Sum>i<?n. eq_vec xs ! i * (1 - x) * ?F (2 * i) + eq_vec xs ! i * x * ?F (Suc (2 * i)))"
    unfolding layer_sum_def length_Cons power_Suc sum_pairs
    by (rule sum.cong) (simp_all only: nth_eq_vec_Cons lessThan_iff)
  also have "\<dots> = (1 - x) * (\<Sum>i<?n. eq_vec xs ! i * ?F (2 * i)) + x * (\<Sum>i<?n. eq_vec xs ! i * ?F (Suc (2 * i)))"
    unfolding sum_distrib_left sum.distrib [symmetric] by (rule sum.cong) (simp_all add: algebra_simps)
  finally show ?thesis by (simp add: round_poly_nth [OF assms])
qed

lemma round_message_poly:
  assumes "tables_len (2 ^ Suc (length xs)) p0 p1 q0 q1"
  shows "round_message cpref lam (acc_sum (general_body (eq_vec xs) p0 p1 q0 q1) (2 ^ length xs))
    = (cpref * round_poly lam xs p0 p1 q0 q1 0, cpref * round_poly lam xs p0 p1 q0 q1 2)"
  unfolding round_message_def acc_sum round_poly_nth [OF assms] sum_distrib_left sum.distrib [symmetric] prod.inject
  by (intro conjI sum.cong refl) (simp_all add: general_body_def at02_def layer_val_def Let_def algebra_simps)

section \<open>One round\<close>

lemma reduce_round_poly:
  assumes "x \<noteq> 0" "claim = (1 - x) * a0 + x * (a0 + a1 + a2)"
  shows "reduce_round x (a0, a0 + a1 * 2 + a2 * 2 ^ 2) claim r = eq_factor x r * (a0 + a1 * r + a2 * r ^ 2)"
proof -
  have "(claim - (1 - x) * a0) * inverse x = a0 + a1 + a2"
    using assms by (simp add: mult.commute [of x] mult.assoc)
  moreover have "1 - x + (x + x - 1) * r = eq_factor x r" by (simp add: eq_factor_def Let_def algebra_simps)
  ultimately show ?thesis
    using assms(1) by (simp only: reduce_round_def fp2_inv_eq Let_def fst_conv snd_conv if_False option.sel lagrange3_interpolates)
qed

lemma reduce_round_honest:
  assumes "tables_len (2 ^ Suc (length xs)) p0 p1 q0 q1" "x \<noteq> 0"
  shows "reduce_round x (round_message cpref lam (acc_sum (general_body (eq_vec xs) p0 p1 q0 q1) (2 ^ length xs)))
      (cpref * layer_sum lam (x # xs) p0 p1 q0 q1) r = cpref * eq_factor x r * round_poly lam xs p0 p1 q0 q1 r"
proof -
  obtain a0 a1 a2 where h: "\<And>r. round_poly lam xs p0 p1 q0 q1 r = a0 + a1 * r + a2 * r ^ 2"
    using round_poly_quad [OF assms(1), of lam] by blast
  show ?thesis
    unfolding round_message_poly [OF assms(1)] layer_sum_Cons [OF assms(1)] h
    using reduce_round_poly [OF assms(2), of _ "cpref * a0" "cpref * a1" "cpref * a2" r] by (simp add: algebra_simps)
qed

section \<open>The rounds of a layer\<close>

lemma next_fp2s_add:
  "next_fp2s (m + n) s = do { (xs, s) \<leftarrow> next_fp2s m s; (ys, s) \<leftarrow> next_fp2s n s; Some (xs @ ys, s) }"
  by (induction m arbitrary: s) (simp_all add: case_prod_unfold)

lemma next_fp2s_append:
  "next_fp2s m s = Some (xs, s1) \<Longrightarrow> next_fp2s n s1 = Some (ys, s2) \<Longrightarrow> next_fp2s (m + n) s = Some (xs @ ys, s2)"
  by (simp add: next_fp2s_add)

lemma clear_sink_simps [simp]:
  "sk_root clear_sink p q st = Some st"
  "sk_lambda clear_sink = clear_draw"
  "sk_round clear_sink h pt st = clear_draw (st\<lparr>ck_rounds_cur := ck_rounds_cur st @ [h]\<rparr>)"
  "sk_splits clear_sink (p0, p1, q0, q1) st = clear_draw (st\<lparr>ck_layers := ck_layers st
     @ [\<lparr>ly_rounds = ck_rounds_cur st, ly_p0 = p0, ly_p1 = p1, ly_q0 = q0, ly_q1 = q1\<rparr>], ck_rounds_cur := []\<rparr>)"
  by (simp_all add: clear_sink_def)

lemma rounds_complete:
  assumes "tables_len (2 ^ length point) p0 p1 q0 q1" "fs_live (ck_chal st)"
  shows "\<exists>rs hs chal' c.
    run_general_rounds clear_sink lam (zip (suffix_eq_tables point) point) p0 p1 q0 q1 cpref st
      = Some (rs, (eval_mle_loop p0 rs, eval_mle_loop p1 rs, eval_mle_loop q0 rs, eval_mle_loop q1 rs),
          st\<lparr>ck_rounds_cur := ck_rounds_cur st @ hs, ck_chal := chal'\<rparr>)
    \<and> next_fp2s (length point) (ck_chal st) = Some (rs, chal') \<and> fs_live chal' \<and> length hs = length point
    \<and> (0 \<notin> set point \<longrightarrow>
        reduce_rounds point hs (cpref * layer_sum lam point p0 p1 q0 q1) cpref (ck_chal st)
          = Some (Some (c * layer_sum lam [] (eval_mle_loop p0 rs) (eval_mle_loop p1 rs) (eval_mle_loop q0 rs) (eval_mle_loop q1 rs), c, rs), chal'))"
  using assms
proof (induction point arbitrary: p0 p1 q0 q1 cpref st)
  case Nil
  show ?case
    by (rule exI [of _ "[]"], rule exI [of _ "[]"], rule exI [of _ "ck_chal st"], rule exI [of _ cpref]) (use Nil in simp)
next
  case (Cons x xs)
  let ?h = "round_message cpref lam (acc_sum (general_body (eq_vec xs) p0 p1 q0 q1) (2 ^ length xs))"
  have t: "tables_len (2 ^ Suc (length xs)) p0 p1 q0 q1" using Cons.prems(1) by simp
  obtain r chal1 where r: "next_fp2 (ck_chal st) = Some (r, chal1)" "fs_live chal1"
    using Cons.prems(2) by (rule next_fp2_live)
  let ?st = "st\<lparr>ck_rounds_cur := ck_rounds_cur st @ [?h], ck_chal := chal1\<rparr>"
  obtain rs hs chal' c where IH:
    "run_general_rounds clear_sink lam (zip (suffix_eq_tables xs) xs) (fold_low p0 r) (fold_low p1 r) (fold_low q0 r) (fold_low q1 r) (cpref * eq_factor x r) ?st
      = Some (rs, (eval_mle_loop (fold_low p0 r) rs, eval_mle_loop (fold_low p1 r) rs, eval_mle_loop (fold_low q0 r) rs, eval_mle_loop (fold_low q1 r) rs),
          ?st\<lparr>ck_rounds_cur := ck_rounds_cur ?st @ hs, ck_chal := chal'\<rparr>)"
    "next_fp2s (length xs) chal1 = Some (rs, chal')" "fs_live chal'" "length hs = length xs"
    "0 \<notin> set xs \<longrightarrow>
        reduce_rounds xs hs (cpref * eq_factor x r * round_poly lam xs p0 p1 q0 q1 r) (cpref * eq_factor x r) chal1
          = Some (Some (c * layer_sum lam [] (eval_mle_loop (fold_low p0 r) rs) (eval_mle_loop (fold_low p1 r) rs)
                (eval_mle_loop (fold_low q0 r) rs) (eval_mle_loop (fold_low q1 r) rs), c, rs), chal')"
    using Cons.IH [of "fold_low p0 r" "fold_low p1 r" "fold_low q0 r" "fold_low q1 r" ?st "cpref * eq_factor x r"] t r(2)
    unfolding round_poly_def by auto
  have "half = 2 ^ length xs \<Longrightarrow> fold_vec p0 r half = fold_low p0 r \<and> fold_vec p1 r half = fold_low p1 r
      \<and> fold_vec q0 r half = fold_low q0 r \<and> fold_vec q1 r half = fold_low q1 r" for half
    using t by (simp add: fold_vec_eq)
  then show ?case
    using t r IH reduce_round_honest [OF t, of x cpref lam]
    by (intro exI [of _ "r # rs"] exI [of _ "?h # hs"] exI [of _ chal'] exI [of _ c])
       (auto simp: clear_draw_def Let_def)
qed

section \<open>One layer\<close>

definition mle_at :: "fp2 list \<Rightarrow> fp2 list \<Rightarrow> fp2" where
  "mle_at v point = dot (2 ^ length point) v (eq_vec point)"

lemma mle_at_loop: "length v = 2 ^ length point \<Longrightarrow> eval_mle_loop v point = [mle_at v point]"
  by (simp add: eval_mle_loop_dot mle_at_def)

lemma mle_at_Nil [simp]: "mle_at [x] [] = x"
  by (simp add: mle_at_def dot_def)

lemma mle_at_split:
  assumes "length v = 2 * 2 ^ length rs"
  shows "mle_at v (c # rs) = mle_at (evens v) rs + c * (mle_at (odds v) rs - mle_at (evens v) rs)"
proof -
  have "mle_at v (c # rs) = dot (2 ^ length rs) (fold_low v c) (eq_vec rs)"
    using dot_eq_vec_fold [of v rs c] assms by (simp add: mle_at_def)
  also have "\<dots> = mle_at (evens v) rs + c * (mle_at (odds v) rs - mle_at (evens v) rs)"
    unfolding mle_at_def dot_def sum_subtractf [symmetric] sum_distrib_left sum.distrib [symmetric]
    using assms by (intro sum.cong) (simp_all add: fold_low_eq nth_fold_pairs nth_evens_odds algebra_simps)
  finally show ?thesis .
qed

lemma layer_sum_combined:
  assumes "length p = 2 * 2 ^ length point" "length q = length p"
  shows "layer_sum lam point (evens p) (odds p) (evens q) (odds q)
    = lam * mle_at (fst (combine_layer p q)) point + mle_at (snd (combine_layer p q)) point"
  unfolding layer_sum_def mle_at_def dot_def sum_distrib_left sum.distrib [symmetric]
  using assms by (intro sum.cong) (simp_all add: combine_layer_def layer_val_def nth_evens_odds Let_def algebra_simps)

lemma length_combine [simp]:
  "length (fst (combine_layer p q)) = length p div 2" "length (snd (combine_layer p q)) = length p div 2"
  by (simp_all add: combine_layer_def Let_def)

text \<open>What a layer appends to the proof and what the verifier makes of it, whatever layers follow.\<close>

lemma layer_complete:
  assumes "length p = 2 * 2 ^ length point" "length q = length p" "fs_live (ck_chal st)" "ck_rounds_cur st = []"
  shows "\<exists>rs splits st1 child st2 lam layer.
    layer_general clear_sink (evens p) (odds p) (evens q) (odds q) point st = Some (rs, splits, st1)
    \<and> sk_splits clear_sink splits st1 = Some (child, st2)
    \<and> ck_layers st2 = ck_layers st @ [layer] \<and> ck_rounds_cur st2 = [] \<and> fs_live (ck_chal st2)
    \<and> next_fp2s (length point + 2) (ck_chal st) = Some (lam # rs @ [child], ck_chal st2) \<and> length rs = length point
    \<and> (0 \<notin> set point \<longrightarrow> (\<forall>layers.
        reduce_layers (layer # layers) (length point) point (mle_at (fst (combine_layer p q)) point) (mle_at (snd (combine_layer p q)) point) (ck_chal st)
          = reduce_layers layers (Suc (length point)) (child # rs) (mle_at p (child # rs)) (mle_at q (child # rs)) (ck_chal st2)))"
proof -
  let ?p0 = "evens p" and ?p1 = "odds p" and ?q0 = "evens q" and ?q1 = "odds q"
  have t: "tables_len (2 ^ length point) ?p0 ?p1 ?q0 ?q1" using assms(1,2) by simp
  obtain lam chal0 where l: "next_fp2 (ck_chal st) = Some (lam, chal0)" "fs_live chal0"
    using assms(3) by (rule next_fp2_live)
  obtain rs hs chal1 c where r:
    "run_general_rounds clear_sink lam (zip (suffix_eq_tables point) point) ?p0 ?p1 ?q0 ?q1 1 (st\<lparr>ck_chal := chal0\<rparr>)
      = Some (rs, (eval_mle_loop ?p0 rs, eval_mle_loop ?p1 rs, eval_mle_loop ?q0 rs, eval_mle_loop ?q1 rs),
          st\<lparr>ck_rounds_cur := hs, ck_chal := chal1\<rparr>)"
    "next_fp2s (length point) chal0 = Some (rs, chal1)" "fs_live chal1" "length hs = length point"
    "0 \<notin> set point \<longrightarrow> reduce_rounds point hs (layer_sum lam point ?p0 ?p1 ?q0 ?q1) 1 chal0
          = Some (Some (c * layer_sum lam [] (eval_mle_loop ?p0 rs) (eval_mle_loop ?p1 rs) (eval_mle_loop ?q0 rs) (eval_mle_loop ?q1 rs), c, rs), chal1)"
    using rounds_complete [OF t, of "st\<lparr>ck_chal := chal0\<rparr>" lam 1] l(2) assms(4) by auto
  obtain child chal2 where ch: "next_fp2 chal1 = Some (child, chal2)" "fs_live chal2" using r(3) by (rule next_fp2_live)
  have rs: "length rs = length point" using next_fp2s_length [OF r(2)] .
  then have e: "eval_mle_loop ?p0 rs = [mle_at ?p0 rs]" "eval_mle_loop ?p1 rs = [mle_at ?p1 rs]"
    "eval_mle_loop ?q0 rs = [mle_at ?q0 rs]" "eval_mle_loop ?q1 rs = [mle_at ?q1 rs]"
    using t by (simp_all add: mle_at_loop)
  let ?layer = "\<lparr>ly_rounds = hs, ly_p0 = mle_at ?p0 rs, ly_p1 = mle_at ?p1 rs, ly_q0 = mle_at ?q0 rs, ly_q1 = mle_at ?q1 rs\<rparr>"
  let ?st1 = "st\<lparr>ck_rounds_cur := hs, ck_chal := chal1\<rparr>" and ?st2 = "st\<lparr>ck_rounds_cur := [], ck_layers := ck_layers st @ [?layer], ck_chal := chal2\<rparr>"
  have "layer_general clear_sink ?p0 ?p1 ?q0 ?q1 point st = Some (rs, (mle_at ?p0 rs, mle_at ?p1 rs, mle_at ?q0 rs, mle_at ?q1 rs), ?st1)"
    using l r(1) by (simp add: layer_general_def clear_draw_def e get_def)
  moreover have "sk_splits clear_sink (mle_at ?p0 rs, mle_at ?p1 rs, mle_at ?q0 rs, mle_at ?q1 rs) ?st1 = Some (child, ?st2)"
    using ch by (simp add: clear_draw_def)
  moreover have "next_fp2s (length point + 2) (ck_chal st) = Some (lam # rs @ [child], chal2)"
    using next_fp2s_add [of "Suc (length point)" 1 "ck_chal st"] l(1) r(2) ch(1) by (simp add: numeral_2_eq_2)
  moreover have "reduce_layers (?layer # layers) (length point) point (mle_at (fst (combine_layer p q)) point) (mle_at (snd (combine_layer p q)) point) (ck_chal st)
      = reduce_layers layers (Suc (length point)) (child # rs) (mle_at p (child # rs)) (mle_at q (child # rs)) chal2"
    if "0 \<notin> set point" for layers
    using l(1) r(4,5) ch(1) that mle_at_split [of p rs child] mle_at_split [of q rs child] layer_sum_combined [OF assms(1,2), of lam] assms(1,2) rs
    by (simp add: e layer_val_def)
  ultimately show ?thesis using ch(2) rs by (intro exI conjI) (assumption | simp)+
qed

section \<open>The tree\<close>

text \<open>Every level is the combination of the next one.\<close>

fun tree_chain :: "fp2 list \<times> fp2 list \<Rightarrow> (fp2 list \<times> fp2 list) list \<Rightarrow> bool" where
  "tree_chain PQ [] = True"
| "tree_chain PQ ((p, q) # ls) =
     (PQ = combine_layer p q \<and> length p = 2 * length (fst PQ) \<and> length q = length p \<and> tree_chain (p, q) ls)"

lemma tree_levels_chain:
  assumes "length p = 2 ^ k" "length q = length p" "tree_chain (p, q) rest"
  shows "\<exists>P Q ls. tree_levels k p q = (P, Q) # ls \<and> length P = 1 \<and> length Q = 1 \<and> length ls = k \<and> tree_chain (P, Q) (ls @ rest)"
  using assms
proof (induction k arbitrary: p q rest)
  case 0
  then show ?case by simp
next
  case (Suc k)
  obtain p' q' where c: "combine_layer p q = (p', q')" by (cases "combine_layer p q")
  then have l: "length p' = 2 ^ k" "length q' = length p'" using Suc.prems(1,2) length_combine [of p q] by simp_all
  then have "tree_chain (p', q') ((p, q) # rest)" using c Suc.prems by simp
  from Suc.IH [OF l this] show ?case using c by auto
qed

text \<open>The challenges of \<open>k + 1\<close> layers, the first with \<open>l\<close> rounds.\<close>

fun tree_draws :: "nat \<Rightarrow> nat \<Rightarrow> nat" where
  "tree_draws l 0 = l + 2"
| "tree_draws l (Suc k) = (l + 2) + tree_draws (Suc l) k"

lemma walk_complete:
  assumes "tree_chain (P, Q) (ls @ [(lp, lq)])" "length P = 2 ^ length point" "fs_live (ck_chal st)" "ck_rounds_cur st = []"
  shows "\<exists>pt cs st' layers.
    walk_layers clear_sink (layer_general clear_sink (evens lp) (odds lp) (evens lq) (odds lq)) ls point st = Some (pt, st')
    \<and> ck_layers st' = ck_layers st @ layers \<and> length layers = Suc (length ls)
    \<and> next_fp2s (tree_draws (length point) (length ls)) (ck_chal st) = Some (cs, ck_chal st') \<and> fs_live (ck_chal st')
    \<and> length pt = Suc (length point + length ls)
    \<and> (0 \<notin> set point \<and> 0 \<notin> set cs \<longrightarrow>
        reduce_layers layers (length point) point (mle_at P point) (mle_at Q point) (ck_chal st)
          = Some (Some \<lparr>fc_point = pt, fc_p = mle_at lp pt, fc_q = mle_at lq pt\<rparr>, ck_chal st'))"
  using assms
proof (induction ls arbitrary: P Q point st)
  case Nil
  have len: "length lp = 2 * 2 ^ length point" "length lq = length lp" and c: "combine_layer lp lq = (P, Q)"
    using Nil.prems(1,2) by auto
  from layer_complete [OF len Nil.prems(3,4)] obtain rs splits st1 child st2 lam layer where
    "layer_general clear_sink (evens lp) (odds lp) (evens lq) (odds lq) point st = Some (rs, splits, st1)"
    "sk_splits clear_sink splits st1 = Some (child, st2)"
    "ck_layers st2 = ck_layers st @ [layer]" "fs_live (ck_chal st2)" "length rs = length point"
    "next_fp2s (length point + 2) (ck_chal st) = Some (lam # rs @ [child], ck_chal st2)"
    "0 \<notin> set point \<longrightarrow> reduce_layers [layer] (length point) point (mle_at P point) (mle_at Q point) (ck_chal st)
          = reduce_layers [] (Suc (length point)) (child # rs) (mle_at lp (child # rs)) (mle_at lq (child # rs)) (ck_chal st2)"
    unfolding c fst_conv snd_conv by blast
  then show ?case by (intro exI [of _ "child # rs"] exI [of _ "lam # rs @ [child]"] exI [of _ st2] exI [of _ "[layer]"]) simp
next
  case (Cons l ls)
  obtain p q where l: "l = (p, q)" by (cases l)
  have len: "length p = 2 * 2 ^ length point" "length q = length p" and c: "combine_layer p q = (P, Q)"
    and chain: "tree_chain (p, q) (ls @ [(lp, lq)])"
    using Cons.prems(1,2) l by auto
  from layer_complete [OF len Cons.prems(3,4)] obtain rs splits st1 child st2 lam layer where s:
    "layer_general clear_sink (evens p) (odds p) (evens q) (odds q) point st = Some (rs, splits, st1)"
    "sk_splits clear_sink splits st1 = Some (child, st2)"
    "ck_layers st2 = ck_layers st @ [layer]" "ck_rounds_cur st2 = []" "fs_live (ck_chal st2)" "length rs = length point"
    "next_fp2s (length point + 2) (ck_chal st) = Some (lam # rs @ [child], ck_chal st2)"
    "0 \<notin> set point \<longrightarrow> (\<forall>layers. reduce_layers (layer # layers) (length point) point (mle_at P point) (mle_at Q point) (ck_chal st)
          = reduce_layers layers (Suc (length point)) (child # rs) (mle_at p (child # rs)) (mle_at q (child # rs)) (ck_chal st2))"
    unfolding c fst_conv snd_conv by blast
  have "length p = 2 ^ length (child # rs)" using len s(6) by simp
  from Cons.IH [OF chain this s(5,4)] obtain pt cs st' layers where i:
    "walk_layers clear_sink (layer_general clear_sink (evens lp) (odds lp) (evens lq) (odds lq)) ls (child # rs) st2 = Some (pt, st')"
    "ck_layers st' = ck_layers st2 @ layers" "length layers = Suc (length ls)"
    "next_fp2s (tree_draws (Suc (length point)) (length ls)) (ck_chal st2) = Some (cs, ck_chal st')" "fs_live (ck_chal st')"
    "length pt = Suc (Suc (length point) + length ls)"
    "0 \<notin> set (child # rs) \<and> 0 \<notin> set cs \<longrightarrow>
        reduce_layers layers (Suc (length point)) (child # rs) (mle_at p (child # rs)) (mle_at q (child # rs)) (ck_chal st2)
          = Some (Some \<lparr>fc_point = pt, fc_p = mle_at lp pt, fc_q = mle_at lq pt\<rparr>, ck_chal st')"
    using s(6) by auto
  let ?cs = "(lam # rs @ [child]) @ cs"
  have n: "next_fp2s (tree_draws (length point) (length (l # ls))) (ck_chal st) = Some (?cs, ck_chal st')"
    using next_fp2s_append [OF s(7) i(4)] by (simp only: length_Cons tree_draws.simps)
  have w: "walk_layers clear_sink (layer_general clear_sink (evens lp) (odds lp) (evens lq) (odds lq)) (l # ls) point st = Some (pt, st')"
    using s(1,2) i(1) by (simp add: l)
  have v: "reduce_layers (layer # layers) (length point) point (mle_at P point) (mle_at Q point) (ck_chal st)
      = Some (Some \<lparr>fc_point = pt, fc_p = mle_at lp pt, fc_q = mle_at lq pt\<rparr>, ck_chal st')" if "0 \<notin> set point" "0 \<notin> set ?cs"
    using s(8) i(7) that by (simp del: reduce_layers.simps)
  show ?case
    by (rule exI [of _ pt], rule exI [of _ ?cs], rule exI [of _ st'], rule exI [of _ "layer # layers"])
       (use w n v i(2,3,5,6) s(3) in \<open>simp del: reduce_layers.simps walk_layers.simps\<close>)
qed

lemma weighted_tree_complete:
  assumes "length lp = 2 ^ Suc k" "length lq = length lp" "fs_live chal"
  shows "\<exists>pf cs chal' pt P Q.
    prove_weighted_frac_tree lp lq chal = Some (pf, chal')
    \<and> next_fp2s (tree_draws 0 k) chal = Some (cs, chal') \<and> fs_live chal' \<and> length (fr_layers pf) = Suc k \<and> length pt = Suc k
    \<and> tree_levels (Suc k) lp lq ! 0 = ([fr_root_p pf], [fr_root_q pf])
    \<and> (0 \<notin> set cs \<longrightarrow> reduce_frac_tree pf chal = Some (Some \<lparr>fc_point = pt, fc_p = mle_at lp pt, fc_q = mle_at lq pt\<rparr>, chal'))"
proof -
  obtain p q where c: "combine_layer lp lq = (p, q)" by (cases "combine_layer lp lq")
  have l: "length p = 2 ^ k" "length q = length p" using assms(1,2) length_combine [of lp lq] c by simp_all
  have "tree_chain (p, q) [(lp, lq)]" using c l assms(1,2) by simp
  from tree_levels_chain [OF l this] obtain P Q ls where t:
    "tree_levels k p q = (P, Q) # ls" "length P = 1" "length Q = 1" "length ls = k" "tree_chain (P, Q) (ls @ [(lp, lq)])"
    by blast
  obtain rp rq where r: "P = [rp]" "Q = [rq]" using t(2,3) by (auto simp: length_Suc_conv)
  have "tree_levels (Suc k) lp lq ! 0 = ([rp], [rq])" using c t(1) r by simp
  moreover have "build_weighted_tree lp lq = Some \<lparr>ft_p = map fst (tree_levels k p q), ft_q = map snd (tree_levels k p q), ft_depth = Suc k\<rparr>"
    using assms(1,2) c trailing_zeros_pow [of "Suc k"] self_le_power [of "2 :: nat" "Suc k"]
    by (auto simp: build_weighted_tree_def tree_of_def Let_def is_power_of_two_iff simp flip: power_Suc)
  moreover obtain pt cs st' layers where
    "walk_layers clear_sink (layer_general clear_sink (evens lp) (odds lp) (evens lq) (odds lq)) ls [] \<lparr>ck_chal = chal, ck_rounds_cur = [], ck_layers = []\<rparr> = Some (pt, st')"
    "ck_layers st' = layers" "length layers = Suc k" "next_fp2s (tree_draws 0 k) chal = Some (cs, ck_chal st')" "fs_live (ck_chal st')"
    "length pt = Suc k"
    "0 \<notin> set cs \<longrightarrow> reduce_layers layers 0 [] rp rq chal = Some (Some \<lparr>fc_point = pt, fc_p = mle_at lp pt, fc_q = mle_at lq pt\<rparr>, ck_chal st')"
    using walk_complete [OF t(5), of "[]" "\<lparr>ck_chal = chal, ck_rounds_cur = [], ck_layers = []\<rparr>"] assms(3) t(2,4) r by auto
  ultimately show ?thesis
    using t(1) r
    by (intro exI [of _ "\<lparr>fr_root_p = rp, fr_root_q = rq, fr_layers = layers\<rparr>"] exI [of _ cs] exI [of _ "ck_chal st'"] exI [of _ pt])
       (simp add: prove_weighted_frac_tree_def prove_weighted_engine_def run_tree_def reduce_frac_tree_def zip_map_fst_snd)
qed

end
