(* ===== verification/Logup_Sound.thy ===== *)
theory Logup_Sound
  imports Logup_Complete
begin

text \<open>
  Soundness of the fraction-tree argument against every prover. A layer turns a wrong pair of claims into a wrong pair of
  claims on the next level unless a challenge falls into a small set that is fixed before it is drawn: at most
  one value of the batching challenge, three of a round challenge and one of the child challenge. The events of a
  run pair the drawn challenges, in the order of drawing, with these sets.
\<close>

section \<open>Unlucky challenges\<close>

definition bad_lambda :: "fp2 \<Rightarrow> fp2 \<Rightarrow> fp2 \<Rightarrow> fp2 \<Rightarrow> fp2 set" where
  "bad_lambda cp cq tp tq = {lam. (cp, cq) \<noteq> (tp, tq) \<and> lam * cp + cq = lam * tp + tq}"

definition bad_round ::
  "fp2 \<Rightarrow> fp2 \<times> fp2 \<Rightarrow> fp2 \<Rightarrow> fp2 \<Rightarrow> fp2 \<Rightarrow> fp2 list \<Rightarrow> fp2 list \<Rightarrow> fp2 list \<Rightarrow> fp2 list \<Rightarrow> fp2 list \<Rightarrow> fp2 set" where
  "bad_round x h claim cpref lam xs p0 p1 q0 q1 =
     {r. x \<noteq> 0 \<and> claim \<noteq> cpref * layer_sum lam (x # xs) p0 p1 q0 q1
       \<and> reduce_round x h claim r = cpref * eq_factor x r * round_poly lam xs p0 p1 q0 q1 r}"

definition bad_child :: "layer_proof \<Rightarrow> fp2 list \<Rightarrow> fp2 list \<Rightarrow> fp2 list \<Rightarrow> fp2 set" where
  "bad_child layer p q rs =
     {t. (ly_p0 layer, ly_p1 layer, ly_q0 layer, ly_q1 layer)
           \<noteq> (mle_at (evens p) rs, mle_at (odds p) rs, mle_at (evens q) rs, mle_at (odds q) rs)
       \<and> ly_p0 layer + t * (ly_p1 layer - ly_p0 layer) = mle_at (evens p) rs + t * (mle_at (odds p) rs - mle_at (evens p) rs)
       \<and> ly_q0 layer + t * (ly_q1 layer - ly_q0 layer) = mle_at (evens q) rs + t * (mle_at (odds q) rs - mle_at (evens q) rs)}"

text \<open>A linear equation with a nonzero coefficient has at most one solution.\<close>

lemma linear_card:
  fixes a b :: fp2
  assumes "a \<noteq> 0 \<or> b \<noteq> 0" "\<And>t. t \<in> S \<Longrightarrow> a + t * b = 0"
  shows "finite S \<and> card S \<le> 1"
proof -
  have "finite {x. poly_eval [a, b] x = 0} \<and> card {x. poly_eval [a, b] x = 0} \<le> 1"
    using poly_roots_card [of "[a, b]"] assms(1) by auto
  moreover have "S \<subseteq> {x. poly_eval [a, b] x = 0}" using assms(2) by auto
  ultimately show ?thesis by (meson card_mono finite_subset le_trans)
qed

lemma bad_lambda_card: "finite (bad_lambda cp cq tp tq) \<and> card (bad_lambda cp cq tp tq) \<le> 3"
proof (cases "(cp, cq) = (tp, tq)")
  case False
  then have "finite (bad_lambda cp cq tp tq) \<and> card (bad_lambda cp cq tp tq) \<le> 1"
    by (intro linear_card [where a = "cq - tq" and b = "cp - tp"]) (auto simp: bad_lambda_def algebra_simps)
  then show ?thesis by simp
qed (simp add: bad_lambda_def)

lemma bad_child_card: "finite (bad_child layer p q rs) \<and> card (bad_child layer p q rs) \<le> 3"
proof (cases "ly_p0 layer = mle_at (evens p) rs \<and> ly_p1 layer = mle_at (odds p) rs")
  case False
  then have "finite (bad_child layer p q rs) \<and> card (bad_child layer p q rs) \<le> 1"
    by (intro linear_card [where a = "ly_p0 layer - mle_at (evens p) rs"
          and b = "(ly_p1 layer - mle_at (odds p) rs) - (ly_p0 layer - mle_at (evens p) rs)"])
       (auto simp: bad_child_def algebra_simps)
  then show ?thesis by simp
next
  case True
  show ?thesis
  proof (cases "ly_q0 layer = mle_at (evens q) rs \<and> ly_q1 layer = mle_at (odds q) rs")
    case False
    then have "finite (bad_child layer p q rs) \<and> card (bad_child layer p q rs) \<le> 1"
      by (intro linear_card [where a = "ly_q0 layer - mle_at (evens q) rs"
            and b = "(ly_q1 layer - mle_at (odds q) rs) - (ly_q0 layer - mle_at (evens q) rs)"])
         (auto simp: bad_child_def algebra_simps)
    then show ?thesis by simp
  qed (use True in \<open>simp add: bad_child_def\<close>)
qed

lemma reduce_round_quad:
  assumes "x \<noteq> 0"
  obtains b0 b1 b2 where "claim = (1 - x) * b0 + x * (b0 + b1 + b2)"
    "\<And>r. reduce_round x h claim r = eq_factor x r * (b0 + b1 * r + b2 * r ^ 2)"
proof -
  obtain b0 g2 where h: "h = (b0, g2)" by (cases h)
  define h1 where "h1 = (claim - (1 - x) * b0) * inverse x"
  define b2 where "b2 = (g2 - 2 * h1 + b0) * inverse 2"
  define b1 where "b1 = h1 - b0 - b2"
  have "x * h1 = claim - (1 - x) * b0" unfolding h1_def using assms by simp
  then have c: "claim = (1 - x) * b0 + x * (b0 + b1 + b2)" by (simp add: b1_def algebra_simps)
  have "2 * b2 = g2 - 2 * h1 + b0" unfolding b2_def using fp2_small_ne_0(1) by simp
  then have "g2 = b0 + b1 * 2 + b2 * 2 ^ 2" by (simp add: b1_def algebra_simps)
  then show thesis using that [OF c] reduce_round_poly [OF assms c] h by simp
qed

lemma eq_factor_roots: "finite {r. eq_factor x r = 0} \<and> card {r. eq_factor x r = 0} \<le> 1"
proof (rule linear_card [where a = "1 - x" and b = "x + x - 1"])
  show "1 - x \<noteq> 0 \<or> x + x - 1 \<noteq> 0"
  proof (cases "x = 1")
    case True
    then show ?thesis using fp2_small_ne_0(1) by simp
  qed simp
qed (simp add: eq_factor_def Let_def algebra_simps)

lemma bad_round_card:
  assumes "tables_len (2 ^ Suc (length xs)) p0 p1 q0 q1"
  shows "finite (bad_round x h claim cpref lam xs p0 p1 q0 q1) \<and> card (bad_round x h claim cpref lam xs p0 p1 q0 q1) \<le> 3"
proof (cases "x = 0 \<or> claim = cpref * layer_sum lam (x # xs) p0 p1 q0 q1")
  case False
  obtain a0 a1 a2 where a: "\<And>r. round_poly lam xs p0 p1 q0 q1 r = a0 + a1 * r + a2 * r ^ 2"
    using round_poly_quad [OF assms, of lam] by blast
  obtain b0 b1 b2 where b: "claim = (1 - x) * b0 + x * (b0 + b1 + b2)"
    "\<And>r. reduce_round x h claim r = eq_factor x r * (b0 + b1 * r + b2 * r ^ 2)"
    using reduce_round_quad [of x claim h] False by blast
  let ?cs = "[b0 - cpref * a0, b1 - cpref * a1, b2 - cpref * a2]"
  have p: "poly_eval ?cs r = (b0 + b1 * r + b2 * r ^ 2) - cpref * (a0 + a1 * r + a2 * r ^ 2)" for r
    by (simp add: algebra_simps power2_eq_square)
  have "claim - cpref * layer_sum lam (x # xs) p0 p1 q0 q1 = (1 - x) * poly_eval ?cs 0 + x * poly_eval ?cs 1"
    unfolding p layer_sum_Cons [OF assms] a b(1) by (simp add: algebra_simps)
  then have "(1 - x) * poly_eval ?cs 0 + x * poly_eval ?cs 1 \<noteq> 0" using False by (metis right_minus_eq)
  then have "\<exists>c \<in> set ?cs. c \<noteq> 0" using poly_eval_zero [of ?cs] by (metis add_0 mult_zero_right)
  from poly_roots_card [OF this] have d: "finite {r. poly_eval ?cs r = 0}" "card {r. poly_eval ?cs r = 0} \<le> 2" by simp_all
  have "bad_round x h claim cpref lam xs p0 p1 q0 q1 \<subseteq> {r. eq_factor x r = 0} \<union> {r. poly_eval ?cs r = 0}"
  proof
    fix r assume "r \<in> bad_round x h claim cpref lam xs p0 p1 q0 q1"
    then have "eq_factor x r * (b0 + b1 * r + b2 * r ^ 2) = cpref * eq_factor x r * (a0 + a1 * r + a2 * r ^ 2)"
      by (simp add: bad_round_def a b(2))
    then have "eq_factor x r * poly_eval ?cs r = 0" unfolding p by (simp add: algebra_simps)
    then show "r \<in> {r. eq_factor x r = 0} \<union> {r. poly_eval ?cs r = 0}" by simp
  qed
  moreover have "card ({r. eq_factor x r = 0} \<union> {r. poly_eval ?cs r = 0}) \<le> 3"
    using card_Un_le [of "{r. eq_factor x r = 0}" "{r. poly_eval ?cs r = 0}"] eq_factor_roots [of x] d(2) by linarith
  ultimately show ?thesis
    using d(1) eq_factor_roots [of x] by (meson card_mono finite_UnI finite_subset le_trans)
qed (auto simp: bad_round_def)

section \<open>The events of a run\<close>

fun round_events ::
  "fp2 \<Rightarrow> fp2 list \<Rightarrow> (fp2 \<times> fp2) list \<Rightarrow> fp2 \<Rightarrow> fp2 \<Rightarrow> fp2 list \<Rightarrow> fp2 list \<Rightarrow> fp2 list \<Rightarrow> fp2 list \<Rightarrow> fp2 list \<Rightarrow> (fp2 \<times> fp2 set) list" where
  "round_events lam (x # xs) (h # hs) claim cpref p0 p1 q0 q1 (r # rs) =
     (r, bad_round x h claim cpref lam xs p0 p1 q0 q1)
       # round_events lam xs hs (reduce_round x h claim r) (cpref * eq_factor x r) (fold_low p0 r) (fold_low p1 r) (fold_low q0 r) (fold_low q1 r) rs"
| "round_events lam _ _ claim cpref p0 p1 q0 q1 _ = []"

text \<open>One layer consumes its batching challenge, its round challenges and its child challenge.\<close>

fun layer_events ::
  "fp2 list \<times> fp2 list \<Rightarrow> (fp2 list \<times> fp2 list) list \<Rightarrow> layer_proof list \<Rightarrow> fp2 list \<Rightarrow> fp2 \<Rightarrow> fp2 \<Rightarrow> fp2 list \<Rightarrow> (fp2 \<times> fp2 set) list" where
  "layer_events PQ ((p, q) # ls) (layer # layers) point cp cq cs =
     (let n = length point; lam = cs ! 0; rs = take n (drop 1 cs); child = cs ! Suc n in
      (lam, bad_lambda cp cq (mle_at (fst PQ) point) (mle_at (snd PQ) point))
        # round_events lam point (ly_rounds layer) (lam * cp + cq) 1 (evens p) (odds p) (evens q) (odds q) rs
        @ (child, bad_child layer p q rs)
        # layer_events (p, q) ls layers (child # rs) (ly_p0 layer + child * (ly_p1 layer - ly_p0 layer))
            (ly_q0 layer + child * (ly_q1 layer - ly_q0 layer)) (drop (n + 2) cs))"
| "layer_events PQ _ _ point cp cq cs = []"

abbreviation small :: "(fp2 \<times> fp2 set) list \<Rightarrow> bool" where
  "small es \<equiv> \<forall>(c, B) \<in> set es. finite B \<and> card B \<le> 3"

abbreviation unlucky :: "(fp2 \<times> fp2 set) list \<Rightarrow> bool" where
  "unlucky es \<equiv> \<exists>(c, B) \<in> set es. c \<in> B"

lemma rounds_sound:
  assumes "reduce_rounds point hs claim cpref chal = Some (Some (claim', cpref', rs), chal')" "length hs = length point"
    and "tables_len (2 ^ length point) p0 p1 q0 q1"
  shows "next_fp2s (length point) chal = Some (rs, chal') \<and> length rs = length point
    \<and> map fst (round_events lam point hs claim cpref p0 p1 q0 q1 rs) = rs
    \<and> small (round_events lam point hs claim cpref p0 p1 q0 q1 rs)
    \<and> (claim \<noteq> cpref * layer_sum lam point p0 p1 q0 q1 \<longrightarrow>
         unlucky (round_events lam point hs claim cpref p0 p1 q0 q1 rs)
         \<or> claim' \<noteq> cpref' * layer_val lam (mle_at p0 rs) (mle_at p1 rs) (mle_at q0 rs) (mle_at q1 rs))"
  using assms
proof (induction point arbitrary: hs claim cpref chal rs p0 p1 q0 q1)
  case Nil
  then obtain a b c d where "p0 = [a]" "p1 = [b]" "q0 = [c]" "q1 = [d]" by (auto simp: length_Suc_conv)
  then show ?case using Nil by simp
next
  case (Cons x xs)
  obtain h hs' where h: "hs = h # hs'" using Cons.prems(2) by (cases hs) auto
  then obtain r chal1 rs' where r: "x \<noteq> 0" "next_fp2 chal = Some (r, chal1)" "rs = r # rs'"
    "reduce_rounds xs hs' (reduce_round x h claim r) (cpref * eq_factor x r) chal1 = Some (Some (claim', cpref', rs'), chal')"
    using Cons.prems(1) by (auto simp: bind_eq_Some_conv split: if_splits)
  have t: "tables_len (2 ^ Suc (length xs)) p0 p1 q0 q1" using Cons.prems(3) by simp
  then have t': "tables_len (2 ^ length xs) (fold_low p0 r) (fold_low p1 r) (fold_low q0 r) (fold_low q1 r)" by simp
  note IH = Cons.IH [OF r(4) _ t'] 
  have len: "length hs' = length xs" using Cons.prems(2) h by simp
  have m: "mle_at v (r # rs') = mle_at (fold_low v r) rs'" if "length v = 2 ^ Suc (length xs)" for v
    using dot_eq_vec_fold [of v rs' r] that IH [OF len] by (simp add: mle_at_def)
  let ?E = "round_events lam xs hs' (reduce_round x h claim r) (cpref * eq_factor x r) (fold_low p0 r) (fold_low p1 r) (fold_low q0 r) (fold_low q1 r) rs'"
  have e: "round_events lam (x # xs) hs claim cpref p0 p1 q0 q1 rs = (r, bad_round x h claim cpref lam xs p0 p1 q0 q1) # ?E"
    using h r(3) by simp
  have step: "reduce_round x h claim r \<noteq> cpref * eq_factor x r * layer_sum lam xs (fold_low p0 r) (fold_low p1 r) (fold_low q0 r) (fold_low q1 r)"
    if "claim \<noteq> cpref * layer_sum lam (x # xs) p0 p1 q0 q1" "r \<notin> bad_round x h claim cpref lam xs p0 p1 q0 q1"
    using that r(1) by (simp add: bad_round_def round_poly_def)
  show ?case
    using IH [OF len] bad_round_card [OF t, of x h claim cpref lam] step t r(2,3) unfolding e by (auto simp: m)
qed

lemma reduce_layers_Cons:
  assumes "reduce_layers (layer # layers) (length point) point cp cq chal = Some (Some claims, chal')"
  obtains lam chal0 claim cpref rs chal1 child chal2 where
    "length (ly_rounds layer) = length point" "next_fp2 chal = Some (lam, chal0)"
    "reduce_rounds point (ly_rounds layer) (lam * cp + cq) 1 chal0 = Some (Some (claim, cpref, rs), chal1)"
    "claim = cpref * layer_val lam (ly_p0 layer) (ly_p1 layer) (ly_q0 layer) (ly_q1 layer)"
    "next_fp2 chal1 = Some (child, chal2)"
    "reduce_layers layers (Suc (length point)) (child # rs) (ly_p0 layer + child * (ly_p1 layer - ly_p0 layer))
       (ly_q0 layer + child * (ly_q1 layer - ly_q0 layer)) chal2 = Some (Some claims, chal')"
proof -
  have n: "length (ly_rounds layer) = length point" using assms by (simp split: if_splits)
  obtain lam chal0 where l: "next_fp2 chal = Some (lam, chal0)" using assms n by (auto simp: bind_eq_Some_conv)
  obtain res chal1 where r: "reduce_rounds point (ly_rounds layer) (lam * cp + cq) 1 chal0 = Some (res, chal1)"
    using assms n l by (auto simp: bind_eq_Some_conv)
  then obtain claim cpref rs where c: "res = Some (claim, cpref, rs)" using assms n l by (cases res) auto
  have e: "claim = cpref * layer_val lam (ly_p0 layer) (ly_p1 layer) (ly_q0 layer) (ly_q1 layer)"
    using assms n l r c by (simp add: Let_def layer_val_def split: if_splits)
  obtain child chal2 where "next_fp2 chal1 = Some (child, chal2)"
    using assms n l r c e by (auto simp: bind_eq_Some_conv Let_def layer_val_def)
  then show thesis using that [OF n l _ e] assms n l r c e by (simp add: Let_def layer_val_def)
qed

lemma layers_sound:
  assumes "reduce_layers layers (length point) point cp cq chal = Some (Some claims, chal')"
    and "tree_chain (P, Q) ls" "length ls = length layers" "length P = 2 ^ length point" "last ((P, Q) # ls) = (lp, lq)"
  shows "\<exists>cs n. next_fp2s n chal = Some (cs, chal')
    \<and> map fst (layer_events (P, Q) ls layers point cp cq cs) = cs
    \<and> small (layer_events (P, Q) ls layers point cp cq cs)
    \<and> ((cp, cq) \<noteq> (mle_at P point, mle_at Q point) \<longrightarrow>
        unlucky (layer_events (P, Q) ls layers point cp cq cs)
        \<or> (fc_p claims, fc_q claims) \<noteq> (mle_at lp (fc_point claims), mle_at lq (fc_point claims)))"
  using assms
proof (induction layers arbitrary: point cp cq chal P Q ls)
  case Nil
  then show ?case by (intro exI [of _ "[]"] exI [of _ 0]) auto
next
  case (Cons layer layers)
  obtain lam chal0 claim cpref rs chal1 child chal2 where v:
    "length (ly_rounds layer) = length point" "next_fp2 chal = Some (lam, chal0)"
    "reduce_rounds point (ly_rounds layer) (lam * cp + cq) 1 chal0 = Some (Some (claim, cpref, rs), chal1)"
    "claim = cpref * layer_val lam (ly_p0 layer) (ly_p1 layer) (ly_q0 layer) (ly_q1 layer)"
    "next_fp2 chal1 = Some (child, chal2)"
    "reduce_layers layers (Suc (length point)) (child # rs) (ly_p0 layer + child * (ly_p1 layer - ly_p0 layer))
       (ly_q0 layer + child * (ly_q1 layer - ly_q0 layer)) chal2 = Some (Some claims, chal')"
    using Cons.prems(1) by (rule reduce_layers_Cons)
  obtain p q ls' where ls: "ls = (p, q) # ls'" using Cons.prems(3) by (cases ls) auto
  have len: "length p = 2 * 2 ^ length point" "length q = length p" and c: "combine_layer p q = (P, Q)" and chain: "tree_chain (p, q) ls'"
    using Cons.prems(2,4) ls by auto
  let ?cp = "ly_p0 layer + child * (ly_p1 layer - ly_p0 layer)" and ?cq = "ly_q0 layer + child * (ly_q1 layer - ly_q0 layer)"
  let ?R = "round_events lam point (ly_rounds layer) (lam * cp + cq) 1 (evens p) (odds p) (evens q) (odds q) rs"
  have "tables_len (2 ^ length point) (evens p) (odds p) (evens q) (odds q)" using len by simp
  from rounds_sound [OF v(3,1) this, of lam] layer_sum_combined [OF len, of lam] c
  have R: "next_fp2s (length point) chal0 = Some (rs, chal1)" "length rs = length point" "map fst ?R = rs" "small ?R"
    "lam * cp + cq \<noteq> lam * mle_at P point + mle_at Q point \<longrightarrow> unlucky ?R
      \<or> claim \<noteq> cpref * layer_val lam (mle_at (evens p) rs) (mle_at (odds p) rs) (mle_at (evens q) rs) (mle_at (odds q) rs)"
    by simp_all
  have "reduce_layers layers (length (child # rs)) (child # rs) ?cp ?cq chal2 = Some (Some claims, chal')"
    "length ls' = length layers" "length p = 2 ^ length (child # rs)" "last ((p, q) # ls') = (lp, lq)"
    using v(6) R(2) Cons.prems(3,5) ls len by simp_all
  from Cons.IH [OF this(1) chain this(2-4)] obtain cs n where I: "next_fp2s n chal2 = Some (cs, chal')"
    "map fst (layer_events (p, q) ls' layers (child # rs) ?cp ?cq cs) = cs"
    "small (layer_events (p, q) ls' layers (child # rs) ?cp ?cq cs)"
    "(?cp, ?cq) \<noteq> (mle_at p (child # rs), mle_at q (child # rs)) \<longrightarrow>
        unlucky (layer_events (p, q) ls' layers (child # rs) ?cp ?cq cs)
        \<or> (fc_p claims, fc_q claims) \<noteq> (mle_at lp (fc_point claims), mle_at lq (fc_point claims))"
    by blast
  let ?cs = "lam # rs @ child # cs"
  have e: "layer_events (P, Q) ls (layer # layers) point cp cq ?cs =
      (lam, bad_lambda cp cq (mle_at P point) (mle_at Q point)) # ?R @ (child, bad_child layer p q rs)
        # layer_events (p, q) ls' layers (child # rs) ?cp ?cq cs"
    using R(2) by (simp add: ls nth_append Let_def)
  have "next_fp2s (Suc (length point) + Suc n) chal = Some (?cs, chal')"
    using next_fp2s_append [of "Suc (length point)" chal "lam # rs" chal1 "Suc n" "child # cs" chal'] v(2,5) R(1) I(1) by simp
  moreover have "map fst (layer_events (P, Q) ls (layer # layers) point cp cq ?cs) = ?cs" unfolding e using R(3) I(2) by simp
  moreover have "small (layer_events (P, Q) ls (layer # layers) point cp cq ?cs)"
    unfolding e using R(4) I(3) bad_lambda_card bad_child_card by auto
  moreover have "unlucky (layer_events (P, Q) ls (layer # layers) point cp cq ?cs)
      \<or> (fc_p claims, fc_q claims) \<noteq> (mle_at lp (fc_point claims), mle_at lq (fc_point claims))"
    if wrong: "(cp, cq) \<noteq> (mle_at P point, mle_at Q point)"
  proof (cases "lam \<in> bad_lambda cp cq (mle_at P point) (mle_at Q point) \<or> unlucky ?R \<or> child \<in> bad_child layer p q rs")
    case True
    then show ?thesis unfolding e by auto
  next
    case False
    then have "lam * cp + cq \<noteq> lam * mle_at P point + mle_at Q point" using wrong unfolding bad_lambda_def by blast
    then have "claim \<noteq> cpref * layer_val lam (mle_at (evens p) rs) (mle_at (odds p) rs) (mle_at (evens q) rs) (mle_at (odds q) rs)"
      using R(5) False by blast
    then have "(ly_p0 layer, ly_p1 layer, ly_q0 layer, ly_q1 layer)
        \<noteq> (mle_at (evens p) rs, mle_at (odds p) rs, mle_at (evens q) rs, mle_at (odds q) rs)"
      using v(4) by (metis prod.inject)
    then have "(?cp, ?cq) \<noteq> (mle_at p (child # rs), mle_at q (child # rs))"
      using False len R(2) mle_at_split [of p rs child] mle_at_split [of q rs child] unfolding bad_child_def prod.inject by simp
    then show ?thesis using I(4) unfolding e by auto
  qed
  ultimately show ?case
    by (intro exI [of _ ?cs] exI [of _ "Suc (length point) + Suc n"] conjI impI)
qed

section \<open>The tree\<close>

text \<open>The fraction at the root of the tree over the leaves, and the events of a run on a proof for these leaves.\<close>

definition frac_root :: "fp2 list \<Rightarrow> fp2 list \<Rightarrow> fp2 \<times> fp2" where
  "frac_root lp lq = (case tree_levels (trailing_zeros (length lp)) lp lq ! 0 of (P, Q) \<Rightarrow> (P ! 0, Q ! 0))"

definition tree_events :: "fp2 list \<Rightarrow> fp2 list \<Rightarrow> frac_proof \<Rightarrow> fp2 list \<Rightarrow> (fp2 \<times> fp2 set) list" where
  "tree_events lp lq pf cs =
     (let ls = tree_levels (trailing_zeros (length lp)) lp lq
      in layer_events (ls ! 0) (tl ls) (fr_layers pf) [] (fr_root_p pf) (fr_root_q pf) cs)"

lemma reduce_layers_length:
  "reduce_layers layers (length point) point cp cq chal = Some (Some claims, chal')
    \<Longrightarrow> length (fc_point claims) = length point + length layers"
proof (induction layers arbitrary: point cp cq chal)
  case (Cons layer layers)
  obtain lam chal0 claim cpref rs chal1 child chal2 where v: "length (ly_rounds layer) = length point"
    "reduce_rounds point (ly_rounds layer) (lam * cp + cq) 1 chal0 = Some (Some (claim, cpref, rs), chal1)"
    "reduce_layers layers (Suc (length point)) (child # rs) (ly_p0 layer + child * (ly_p1 layer - ly_p0 layer))
       (ly_q0 layer + child * (ly_q1 layer - ly_q0 layer)) chal2 = Some (Some claims, chal')"
    using Cons.prems by (rule reduce_layers_Cons) 
  have "length rs = length point"
    using rounds_sound [OF v(2,1), of "replicate (2 ^ length point) 0" "replicate (2 ^ length point) 0"
        "replicate (2 ^ length point) 0" "replicate (2 ^ length point) 0"] by simp
  then show ?case using Cons.IH [of "child # rs"] v(3) by simp
qed auto

lemma last_tree_levels: "last (tree_levels k p q) = (p, q)"
  by (cases k) (simp_all add: case_prod_unfold Let_def)

lemma tree_sound:
  assumes "reduce_frac_tree pf chal = Some (Some claims, chal')" "length lp = 2 ^ length (fc_point claims)" "length lq = length lp"
    and "fc_p claims = mle_at lp (fc_point claims)" "fc_q claims = mle_at lq (fc_point claims)"
  shows "\<exists>cs n. next_fp2s n chal = Some (cs, chal') \<and> map fst (tree_events lp lq pf cs) = cs \<and> small (tree_events lp lq pf cs)
    \<and> ((fr_root_p pf, fr_root_q pf) \<noteq> frac_root lp lq \<longrightarrow> unlucky (tree_events lp lq pf cs))"
proof -
  have r: "reduce_layers (fr_layers pf) (length []) [] (fr_root_p pf) (fr_root_q pf) chal = Some (Some claims, chal')"
    using assms(1) by (simp add: reduce_frac_tree_def)
  from reduce_layers_length [OF this] have n: "length (fc_point claims) = length (fr_layers pf)" by simp
  obtain P Q ls where t: "tree_levels (length (fr_layers pf)) lp lq = (P, Q) # ls" "length P = 1" "length Q = 1"
    "length ls = length (fr_layers pf)" "tree_chain (P, Q) ls"
    using tree_levels_chain [of lp "length (fr_layers pf)" lq "[]"] assms(2,3) n by auto
  have "last ((P, Q) # ls) = (lp, lq)" using last_tree_levels [of "length (fr_layers pf)" lp lq] t(1) by simp
  moreover have "trailing_zeros (length lp) = length (fr_layers pf)" using assms(2) n by simp
  ultimately show ?thesis
    using layers_sound [OF r t(5,4)] t assms(4,5) by (auto simp: tree_events_def frac_root_def length_Suc_conv)
qed

end
