(* ===== verification/Logup_Lookup.thy ===== *)
theory Logup_Lookup
  imports Logup_Sound
begin

text \<open>
  The lookup argument on two fraction trees. The root of a tree over nonzero denominators is the sum of its fractions, and
  the logarithmic-derivative identity holds between the looked-up values and the table with its multiplicities:
  for equal multisets at every challenge, for different ones at fewer challenges than there are entries.
\<close>

section \<open>The root is the sum of the fractions\<close>

definition den_prod :: "fp2 list \<Rightarrow> fp2" where
  "den_prod q = (\<Prod>i<length q. q ! i)"

definition num_sum :: "fp2 list \<Rightarrow> fp2 list \<Rightarrow> fp2" where
  "num_sum p q = (\<Sum>i<length q. p ! i / q ! i)"

lemma prod_pairs: "(\<Prod>i<2 * n. f i) = (\<Prod>i<n. f (2 * i) * f (Suc (2 * i)))" for f :: "nat \<Rightarrow> 'a :: comm_monoid_mult"
  by (induction n) (simp_all add: ac_simps)

lemma den_prod_nonzero: "den_prod q \<noteq> 0 \<longleftrightarrow> 0 \<notin> set q"
  by (auto simp: den_prod_def in_set_conv_nth)

lemma combine_sums:
  assumes "length p = 2 * n" "length q = 2 * n" "combine_layer p q = (p', q')"
  shows "den_prod q' = den_prod q" "den_prod q \<noteq> 0 \<Longrightarrow> num_sum p' q' = num_sum p q"
proof -
  have p': "length p' = n" "i < n \<Longrightarrow> p' ! i = p ! (2 * i) * q ! Suc (2 * i) + p ! Suc (2 * i) * q ! (2 * i)" for i
    using assms by (auto simp: combine_layer_def Let_def)
  have q': "length q' = n" "i < n \<Longrightarrow> q' ! i = q ! (2 * i) * q ! Suc (2 * i)" for i
    using assms by (auto simp: combine_layer_def Let_def)
  show "den_prod q' = den_prod q" by (simp add: den_prod_def q' assms(2) prod_pairs)
  assume "den_prod q \<noteq> 0"
  then have nz: "q ! i \<noteq> 0" if "i < 2 * n" for i using that assms(2) by (metis den_prod_nonzero nth_mem)
  have "p' ! i / q' ! i = p ! (2 * i) / q ! (2 * i) + p ! Suc (2 * i) / q ! Suc (2 * i)" if "i < n" for i
    using nz [of "2 * i"] nz [of "Suc (2 * i)"] that by (simp add: p' q' add_frac_eq)
  then show "num_sum p' q' = num_sum p q" by (simp add: num_sum_def q' assms(2) sum_pairs)
qed

lemma tree_root:
  assumes "length p = 2 ^ k" "length q = length p"
  shows "\<exists>a. tree_levels k p q ! 0 = ([a], [den_prod q]) \<and> (den_prod q \<noteq> 0 \<longrightarrow> a = den_prod q * num_sum p q)"
  using assms
proof (induction k arbitrary: p q)
  case 0
  then obtain a b where "p = [a]" "q = [b]" by (auto simp: length_Suc_conv)
  then show ?case by (simp add: den_prod_def num_sum_def)
next
  case (Suc k)
  obtain p' q' where c: "combine_layer p q = (p', q')" by (cases "combine_layer p q")
  then have "length p' = 2 ^ k" "length q' = length p'" using Suc.prems length_combine [of p q] by simp_all
  from Suc.IH [OF this] combine_sums [of p "2 ^ k" q, OF _ _ c] show ?case
    using Suc.prems c by (auto simp: nth_append)
qed

lemma frac_root_sum:
  assumes "length lp = 2 ^ k" "length lq = length lp"
  shows "snd (frac_root lp lq) = den_prod lq" "den_prod lq \<noteq> 0 \<Longrightarrow> fst (frac_root lp lq) = den_prod lq * num_sum lp lq"
  using tree_root [OF assms] assms by (auto simp: frac_root_def)

section \<open>Sums of simple fractions\<close>

type_synonym terms = "(fp2 \<times> fp2) list"

definition frac_sum :: "terms \<Rightarrow> fp2 \<Rightarrow> fp2" where
  "frac_sum L alpha = (\<Sum>(w, a)\<leftarrow>L. w / (alpha - a))"

definition weight_at :: "terms \<Rightarrow> fp2 \<Rightarrow> fp2" where
  "weight_at L a = (\<Sum>(w, b)\<leftarrow>L. if b = a then w else 0)"

abbreviation others :: "fp2 \<Rightarrow> terms \<Rightarrow> terms" where
  "others a L \<equiv> filter (\<lambda>(w, b). b \<noteq> a) L"

lemma frac_sum_group: "frac_sum L alpha = weight_at L a / (alpha - a) + frac_sum (others a L) alpha"
  by (induction L) (auto simp: frac_sum_def weight_at_def add_divide_distrib)

lemma weight_at_others: "weight_at (others a L) b = (if b = a then 0 else weight_at L b)"
  by (induction L) (auto simp: weight_at_def)

lemma frac_sum_zero: "(\<And>a. weight_at L a = 0) \<Longrightarrow> frac_sum L alpha = 0"
proof (induction "length L" arbitrary: L rule: less_induct)
  case less
  show ?case
  proof (cases L)
    case (Cons t L')
    obtain w a where t: "t = (w, a)" by (cases t)
    have "length (others a L) < length L" using Cons t by (simp add: le_imp_less_Suc)
    then have "frac_sum (others a L) alpha = 0" using less by (simp add: weight_at_others)
    then show ?thesis using frac_sum_group [of L alpha a] less.prems by simp
  qed (simp add: frac_sum_def)
qed

text \<open>The sum over a common denominator, as polynomials by their coefficients.\<close>

fun den_poly :: "terms \<Rightarrow> fp2 list" where
  "den_poly [] = [1]"
| "den_poly ((w, a) # L) = map2 (+) (0 # den_poly L) (map ((*) (- a)) (den_poly L) @ [0])"

fun num_poly :: "terms \<Rightarrow> fp2 list" where
  "num_poly [] = []"
| "num_poly ((w, a) # L) =
     map2 (+) (map ((*) w) (den_poly L)) (map2 (+) (0 # num_poly L) (map ((*) (- a)) (num_poly L) @ [0]))"

lemma length_polys [simp]: "length (den_poly L) = Suc (length L)" "length (num_poly L) = length L"
  by (induction L rule: den_poly.induct) simp_all

lemma poly_eval_linear: "poly_eval (map2 (+) (0 # cs) (map ((*) (- a)) cs @ [0])) x = (x - a) * poly_eval cs x" for a x :: fp2
proof -
  have "poly_eval (map2 (+) (0 # cs) (map ((*) (- a)) cs @ [0])) x = poly_eval (0 # cs) x + poly_eval (map ((*) (- a)) cs @ [0]) x"
    by (rule poly_eval_add) simp
  then show ?thesis unfolding poly_eval_append poly_eval_scale by (simp add: algebra_simps)
qed

lemma den_poly_eval: "poly_eval (den_poly L) x = (\<Prod>(w, a)\<leftarrow>L. x - a)"
  by (induction L rule: den_poly.induct) (simp_all only: den_poly.simps poly_eval_linear, simp_all)

lemma num_poly_Cons: "poly_eval (num_poly ((w, a) # L)) x = w * poly_eval (den_poly L) x + (x - a) * poly_eval (num_poly L) x"
  unfolding num_poly.simps by (subst poly_eval_add) (simp_all only: poly_eval_linear poly_eval_scale, simp_all)

lemma frac_sum_poly:
  "alpha \<notin> snd ` set L \<Longrightarrow> frac_sum L alpha * poly_eval (den_poly L) alpha = poly_eval (num_poly L) alpha"
proof (induction L rule: den_poly.induct)
  case 1
  then show ?case by (simp add: frac_sum_def)
next
  case (2 w a L)
  have d: "poly_eval (den_poly ((w, a) # L)) alpha = (alpha - a) * poly_eval (den_poly L) alpha"
    by (simp only: den_poly.simps poly_eval_linear)
  have "frac_sum ((w, a) # L) alpha = w / (alpha - a) + frac_sum L alpha" by (simp add: frac_sum_def)
  then have "frac_sum ((w, a) # L) alpha * poly_eval (den_poly ((w, a) # L)) alpha
      = w / (alpha - a) * (alpha - a) * poly_eval (den_poly L) alpha + (alpha - a) * (frac_sum L alpha * poly_eval (den_poly L) alpha)"
    unfolding d by (simp only: distrib_left distrib_right ac_simps)
  then show ?case using 2 unfolding num_poly_Cons by simp
qed

lemma frac_sum_roots:
  assumes "weight_at L a \<noteq> 0"
  shows "finite {alpha. alpha \<notin> snd ` set L \<and> frac_sum L alpha = 0}
    \<and> card {alpha. alpha \<notin> snd ` set L \<and> frac_sum L alpha = 0} \<le> length L - 1"
proof -
  let ?G = "(weight_at L a, a) # others a L" and ?S = "{alpha. alpha \<notin> snd ` set L \<and> frac_sum L alpha = 0}"
  have mem: "a \<in> snd ` set L"
  proof (rule ccontr)
    assume "a \<notin> snd ` set L"
    then have "weight_at L a = 0" by (induction L) (auto simp: weight_at_def)
    then show False using assms by simp
  qed
  have "poly_eval (num_poly ?G) a = weight_at L a * poly_eval (den_poly (others a L)) a" by (simp only: num_poly_Cons) simp
  moreover have "poly_eval (den_poly (others a L)) a \<noteq> 0"
    unfolding den_poly_eval by (auto simp: prod_list_zero_iff)
  ultimately have "poly_eval (num_poly ?G) a \<noteq> 0" using assms by simp
  then have nz: "\<exists>c \<in> set (num_poly ?G). c \<noteq> 0" using poly_eval_zero by blast
  have sub: "?S \<subseteq> {x. poly_eval (num_poly ?G) x = 0}"
  proof
    fix x assume x: "x \<in> ?S"
    then have "x \<notin> snd ` set ?G" using mem by auto
    moreover have "frac_sum ?G x = 0" using x frac_sum_group [of L x a] by (simp add: frac_sum_def)
    ultimately show "x \<in> {x. poly_eval (num_poly ?G) x = 0}" using frac_sum_poly [of x ?G] by simp
  qed
  have "length (others a L) < length L" using mem by (auto intro!: length_filter_less)
  then have "length (num_poly ?G) - 1 \<le> length L - 1" by (simp del: num_poly.simps)
  then show ?thesis using poly_roots_card [OF nz] sub by (meson card_mono finite_subset le_trans)
qed

section \<open>The terms of a lookup\<close>

definition total_mult :: "i16 list \<Rightarrow> u32 list \<Rightarrow> i16 \<Rightarrow> nat" where
  "total_mult table mult v = (\<Sum>(t, m)\<leftarrow>zip table mult. if t = v then unat m else 0)"

definition lookup_terms :: "i16 list \<Rightarrow> terms" where
  "lookup_terms f = map (\<lambda>x. (1, phi (sint x))) f"

definition table_terms :: "i16 list \<Rightarrow> u32 list \<Rightarrow> terms" where
  "table_terms table mult = map (\<lambda>(t, m). (- phi (uint m), phi (sint t))) (zip table mult)"

lemma phi_eq_iff: "phi a = phi b \<longleftrightarrow> a mod gold_p = b mod gold_p"
  by (simp add: phi_def fp2_from_base_def fp_val_inject [symmetric] fp_val_of_int)

lemma phi_diff: "phi (a - b) = phi a - phi b"
  by (simp add: phi_def minus_fp2_def fp2_from_base_def)

lemma phi_1 [simp]: "phi 1 = 1"
  by (simp add: phi_def)

lemma phi_sint_inject [simp]: "phi (sint x) = phi (sint y) \<longleftrightarrow> x = y" for x y :: i16
proof
  assume "phi (sint x) = phi (sint y)"
  then have "gold_p dvd sint x - sint y" by (simp add: phi_eq_iff mod_eq_dvd_iff)
  moreover have "\<bar>sint x - sint y\<bar> < gold_p"
    using sint_lt [of x] sint_ge [of x] sint_lt [of y] sint_ge [of y] by simp
  ultimately have "sint x - sint y = 0" using dvd_imp_le_int [of "sint x - sint y" gold_p] by linarith
  then show "x = y" by (simp add: signed_word_eqI)
qed simp

lemma weight_at_append: "weight_at (L @ M) a = weight_at L a + weight_at M a"
  by (simp add: weight_at_def)

lemma frac_sum_append: "frac_sum (L @ M) alpha = frac_sum L alpha + frac_sum M alpha"
  by (simp add: frac_sum_def)

lemma weight_lookup: "weight_at (lookup_terms f) (phi (sint v)) = phi (int (count_list f v))"
  by (induction f) (auto simp: weight_at_def lookup_terms_def phi_hom)

lemma weight_table: "weight_at (table_terms table mult) (phi (sint v)) = - phi (int (total_mult table mult v))"
proof -
  have "(\<Sum>(w, b)\<leftarrow>map (\<lambda>(t, m). (- phi (uint m), phi (sint t))) ps. if b = phi (sint v) then w else 0)
      = - phi (int (\<Sum>(t, m)\<leftarrow>ps. if t = v then unat m else 0))" for ps :: "(i16 \<times> u32) list"
    by (induction ps) (auto simp: phi_hom)
  then show ?thesis unfolding weight_at_def table_terms_def total_mult_def .
qed

lemma poles: "snd ` set (lookup_terms f) = (\<lambda>x. phi (sint x)) ` set f"
  "length mult = length table \<Longrightarrow> snd ` set (table_terms table mult) = (\<lambda>x. phi (sint x)) ` set table"
proof -
  show "snd ` set (lookup_terms f) = (\<lambda>x. phi (sint x)) ` set f" by (force simp: lookup_terms_def)
  assume "length mult = length table"
  then have "set table = fst ` set (zip table mult)" by (metis map_fst_zip set_map)
  then show "snd ` set (table_terms table mult) = (\<lambda>x. phi (sint x)) ` set table"
    by (simp add: table_terms_def image_image case_prod_unfold)
qed

text \<open>The weight of a value in all terms is its multiplicity in the lookups minus its total multiplicity in the table.\<close>

lemma weight_terms:
  "weight_at (lookup_terms f @ table_terms table mult) (phi (sint v)) = phi (int (count_list f v) - int (total_mult table mult v))"
  by (simp add: weight_at_append weight_lookup weight_table phi_diff)

lemma weight_outside:
  assumes "a \<notin> snd ` set L"
  shows "weight_at L a = 0"
  using assms by (induction L) (auto simp: weight_at_def)

lemma lift_vals_phi: "lift_vals alpha vals = map (\<lambda>v. alpha - phi (sint v)) vals"
proof -
  have "fp2_from_base (lift_i16 v) = phi (sint v)" for v using lift_i16_phi [of 1 v] by (simp add: fp2_mul_base_eq)
  then show ?thesis by (simp add: lift_vals_def)
qed

lemma neg_mults_phi: "neg_mults mult = map (\<lambda>m. - phi (uint m)) mult"
  by (simp add: neg_mults_def fp_new_of_int phi_def uint_up_ucast is_up)

lemma num_sum_list: "length p = length q \<Longrightarrow> num_sum p q = (\<Sum>(a, b)\<leftarrow>zip p q. a / b)"
  by (simp add: num_sum_def sum_list_sum_nth atLeast0LessThan case_prod_unfold)

lemma num_sum_terms:
  "num_sum (replicate (length f) 1) (lift_vals alpha f) = frac_sum (lookup_terms f) alpha"
  "length mult = length table \<Longrightarrow> num_sum (neg_mults mult) (lift_vals alpha table) = frac_sum (table_terms table mult) alpha"
proof -
  have "(\<Sum>(a, b)\<leftarrow>zip (replicate (length f) 1) (map (\<lambda>v. alpha - phi (sint v)) f). a / b) = (\<Sum>x\<leftarrow>f. 1 / (alpha - phi (sint x)))"
    by (induction f) simp_all
  then show "num_sum (replicate (length f) 1) (lift_vals alpha f) = frac_sum (lookup_terms f) alpha"
    by (simp add: num_sum_list lift_vals_phi frac_sum_def lookup_terms_def comp_def)
  assume "length mult = length table"
  then show "num_sum (neg_mults mult) (lift_vals alpha table) = frac_sum (table_terms table mult) alpha"
    unfolding num_sum_list [of "neg_mults mult" "lift_vals alpha table", simplified lift_vals_phi neg_mults_phi length_map, OF \<open>length mult = length table\<close>]
      lift_vals_phi neg_mults_phi frac_sum_def table_terms_def
    by (induction mult table rule: list_induct2) simp_all
qed

lemma den_prod_lift: "den_prod (lift_vals alpha f) \<noteq> 0 \<longleftrightarrow> alpha \<notin> (\<lambda>x. phi (sint x)) ` set f"
  by (auto simp: den_prod_nonzero lift_vals_phi)

section \<open>The leaves of a lookup\<close>

lemma prove_frac_tree_weighted:
  "prove_frac_tree lp lq chal = prove_weighted_frac_tree (mat_p lp (length (lq_a lq))) (mat_q lq) chal"
  by (simp add: prove_frac_tree_def prove_weighted_frac_tree_def engine_reference)

lemma lookup_leaves [simp]:
  "mat_q (lift_q vals alpha) = lift_vals alpha vals" "length (lq_a (lift_q vals alpha)) = length vals"
  "mat_p Ones n = replicate n 1" "mat_p (NegMult mult) n = neg_mults mult"
  by (auto simp: mat_q_def lift_q_def lift_vals_def mat_p_def neg_mults_def minus_fp2_def fp2_from_base_def zero_fp2_def)

lemma leaf_lengths [simp]: "length (lift_vals alpha vals) = length vals" "length (neg_mults mult) = length mult"
  by (simp_all add: lift_vals_def neg_mults_def)

lemma eval_mle_counted_Some: "eval_mle_counted v pt = Some y \<longleftrightarrow> length v = 2 ^ length pt \<and> y = mle_at v pt"
  by (auto simp: eval_mle_counted_def mle_at_loop get_def)

lemma mle_at_ones: "mle_at (replicate (2 ^ length pt) 1) pt = 1"
proof -
  have "eval_mle_loop (replicate (2 ^ length pt) 1) pt = [1]"
  proof (induction pt)
    case (Cons r pt)
    have "fold_low (replicate (2 ^ length (r # pt)) 1) r = replicate (2 ^ length pt) 1"
      using fold_vec_ones [of "2 ^ length (r # pt)" r] by (simp add: fold_vec_eq)
    then show ?case using Cons by simp
  qed simp
  then show ?thesis by (simp add: mle_at_loop)
qed

section \<open>The argument\<close>

text \<open>The values at which a challenge makes a denominator vanish, and the challenges at which the identity holds.\<close>

definition lookup_poles :: "i16 list \<Rightarrow> i16 list \<Rightarrow> fp2 set" where
  "lookup_poles f table = (\<lambda>x. phi (sint x)) ` (set f \<union> set table)"

definition identity_at :: "i16 list \<Rightarrow> i16 list \<Rightarrow> u32 list \<Rightarrow> fp2 set" where
  "identity_at f table mult = {alpha. alpha \<notin> lookup_poles f table \<and> frac_sum (lookup_terms f @ table_terms table mult) alpha = 0}"

definition multiplicities_match :: "i16 list \<Rightarrow> i16 list \<Rightarrow> u32 list \<Rightarrow> bool" where
  "multiplicities_match f table mult \<longleftrightarrow> (\<forall>v. int (count_list f v) mod gold_p = int (total_mult table mult v) mod gold_p)"

lemma identity_complete:
  assumes "multiplicities_match f table mult"
  shows "frac_sum (lookup_terms f @ table_terms table mult) alpha = 0"
proof (rule frac_sum_zero)
  fix a
  show "weight_at (lookup_terms f @ table_terms table mult) a = 0"
  proof (cases "\<exists>v :: i16. a = phi (sint v)")
    case True
    then obtain v :: i16 where v: "a = phi (sint v)" by blast
    have "phi (int (count_list f v)) = phi (int (total_mult table mult v))"
      using assms by (simp add: phi_eq_iff multiplicities_match_def)
    then show ?thesis unfolding v weight_terms phi_diff by simp
  next
    case False
    then have "a \<notin> snd ` set (lookup_terms f @ table_terms table mult)" by (auto simp: lookup_terms_def table_terms_def)
    then show ?thesis by (rule weight_outside)
  qed
qed

lemma identity_card:
  assumes "\<not> multiplicities_match f table mult" "length mult = length table"
  shows "finite (identity_at f table mult) \<and> card (identity_at f table mult) \<le> length f + length table - 1"
proof -
  let ?L = "lookup_terms f @ table_terms table mult"
  obtain v where "phi (int (count_list f v)) \<noteq> phi (int (total_mult table mult v))"
    using assms(1) by (auto simp: multiplicities_match_def phi_eq_iff)
  then have "weight_at ?L (phi (sint v)) \<noteq> 0" unfolding weight_terms phi_diff by simp
  moreover have "snd ` set ?L = lookup_poles f table" unfolding set_append image_Un poles(1) poles(2) [OF assms(2)] lookup_poles_def ..
  moreover have "length ?L = length f + length table" using assms(2) by (simp add: lookup_terms_def table_terms_def)
  ultimately show ?thesis using frac_sum_roots [of ?L "phi (sint v)"] unfolding identity_at_def by simp
qed

text \<open>The cross-check of two true roots is the identity.\<close>

lemma root_check:
  assumes "length f = 2 ^ a" "length table = 2 ^ b" "length mult = length table"
    and "frac_root (replicate (length f) 1) (lift_vals alpha f) = (pf, qf)"
    and "frac_root (neg_mults mult) (lift_vals alpha table) = (pt, qt)"
  shows "pf * qt + pt * qf = 0 \<and> qf \<noteq> 0 \<and> qt \<noteq> 0 \<longleftrightarrow> alpha \<in> identity_at f table mult"
proof -
  have qs: "qf = den_prod (lift_vals alpha f)" "qf \<noteq> 0 \<Longrightarrow> pf = qf * frac_sum (lookup_terms f) alpha"
    using frac_root_sum [of "replicate (length f) 1" a "lift_vals alpha f"] assms(1) unfolding assms(4) num_sum_terms(1) by simp_all
  have qt: "qt = den_prod (lift_vals alpha table)" "qt \<noteq> 0 \<Longrightarrow> pt = qt * frac_sum (table_terms table mult) alpha"
    using frac_root_sum [of "neg_mults mult" b "lift_vals alpha table"] assms(2,3) unfolding assms(5) num_sum_terms(2) [OF assms(3)] by simp_all
  have "qf \<noteq> 0 \<and> qt \<noteq> 0 \<longleftrightarrow> alpha \<notin> lookup_poles f table"
    unfolding qs(1) qt(1) den_prod_lift lookup_poles_def by blast
  moreover have "pf * qt + pt * qf = qf * qt * frac_sum (lookup_terms f @ table_terms table mult) alpha" if "qf \<noteq> 0" "qt \<noteq> 0"
    using qs(2) qt(2) that by (simp add: frac_sum_append algebra_simps)
  ultimately show ?thesis unfolding identity_at_def by auto
qed

lemma clear_tree_accepts:
  assumes "reduce_frac_tree pf chal = Some (Some \<lparr>fc_point = pt, fc_p = mle_at lp pt, fc_q = mle_at lq pt\<rparr>, chal')"
    and "leaf_p_eval pt = Some (mle_at lp pt)" "length lq = 2 ^ length pt"
  shows "verify_frac_tree pf leaf_p_eval (eval_mle_counted lq) chal = Some (True, chal')"
proof -
  have "eval_mle_counted lq pt = Some (mle_at lq pt)" using assms(3) by (simp add: eval_mle_counted_Some)
  then show ?thesis using assms(1,2) by (simp add: verify_frac_tree_def)
qed

lemma frac_root_levels: "length lp = 2 ^ k \<Longrightarrow> tree_levels k lp lq ! 0 = ([a], [b]) \<Longrightarrow> frac_root lp lq = (a, b)"
  by (simp add: frac_root_def)

lemma logup_run:
  assumes "length f = 2 ^ Suc a" "length table = 2 ^ Suc b" "length mult = length table" "fs_live chal"
  shows "\<exists>alpha pf cs chal'. logup_prove f table mult chal = Some ((alpha, pf), chal')
    \<and> next_fp2s (1 + tree_draws 0 a + tree_draws 0 b) chal = Some (alpha # cs, chal')
    \<and> (alpha \<in> identity_at f table mult \<and> 0 \<notin> set cs \<longrightarrow> logup_verify f table mult pf chal = Some (True, chal'))"
proof -
  obtain alpha chal0 where al: "next_fp2 chal = Some (alpha, chal0)" "fs_live chal0" using assms(4) by (rule next_fp2_live)
  let ?lf = "lift_vals alpha f" and ?lt = "lift_vals alpha table" and ?one = "replicate (length f) (1 :: fp2)" and ?neg = "neg_mults mult"
  obtain p1 cs1 chal1 pt1 where 1: "prove_weighted_frac_tree ?one ?lf chal0 = Some (p1, chal1)"
    "next_fp2s (tree_draws 0 a) chal0 = Some (cs1, chal1)" "fs_live chal1" "length pt1 = Suc a"
    "tree_levels (Suc a) ?one ?lf ! 0 = ([fr_root_p p1], [fr_root_q p1])"
    "0 \<notin> set cs1 \<longrightarrow> reduce_frac_tree p1 chal0 = Some (Some \<lparr>fc_point = pt1, fc_p = mle_at ?one pt1, fc_q = mle_at ?lf pt1\<rparr>, chal1)"
    using weighted_tree_complete [of ?one a ?lf chal0] assms(1) al(2) by auto
  obtain p2 cs2 chal2 pt2 where 2: "prove_weighted_frac_tree ?neg ?lt chal1 = Some (p2, chal2)"
    "next_fp2s (tree_draws 0 b) chal1 = Some (cs2, chal2)" "length pt2 = Suc b"
    "tree_levels (Suc b) ?neg ?lt ! 0 = ([fr_root_p p2], [fr_root_q p2])"
    "0 \<notin> set cs2 \<longrightarrow> reduce_frac_tree p2 chal1 = Some (Some \<lparr>fc_point = pt2, fc_p = mle_at ?neg pt2, fc_q = mle_at ?lt pt2\<rparr>, chal2)"
    using weighted_tree_complete [of ?neg b ?lt chal1] assms(2,3) 1(3) by auto
  let ?pf = "\<lparr>lg_lookup_side = p1, lg_table_side = p2\<rparr>"
  have "logup_prove f table mult chal = Some ((alpha, ?pf), chal2)"
    using al(1) 1(1) 2(1) by (simp add: logup_prove_def prove_frac_tree_weighted)
  moreover have "next_fp2s (1 + tree_draws 0 a + tree_draws 0 b) chal = Some (alpha # cs1 @ cs2, chal2)"
    using next_fp2s_append [OF next_fp2s_append [of 1 chal "[alpha]" chal0, OF _ 1(2)] 2(2)] al(1) by simp
  moreover have "logup_verify f table mult ?pf chal = Some (True, chal2)"
    if "alpha \<in> identity_at f table mult" "0 \<notin> set (cs1 @ cs2)"
  proof -
    have root: "fr_root_p p1 * fr_root_q p2 + fr_root_p p2 * fr_root_q p1 = 0" "fr_root_q p1 \<noteq> 0" "fr_root_q p2 \<noteq> 0"
      using root_check [OF assms(1-3) frac_root_levels [OF _ 1(5)] frac_root_levels [OF _ 2(4)]] assms(1-3) that(1) by simp_all
    have "verify_frac_tree p1 (\<lambda>_. Some 1) (eval_mle_counted ?lf) chal0 = Some (True, chal1)"
      using 1(4,6) that(2) assms(1) mle_at_ones [of pt1] by (intro clear_tree_accepts [of p1 chal0 pt1 ?one ?lf]) simp_all
    moreover have "verify_frac_tree p2 (eval_mle_counted ?neg) (eval_mle_counted ?lt) chal1 = Some (True, chal2)"
      using 2(3,5) that(2) assms(2,3) by (intro clear_tree_accepts [of p2 chal1 pt2 ?neg ?lt]) (simp_all add: eval_mle_counted_Some)
    ultimately show ?thesis using al(1) root by (simp add: logup_verify_def Let_def)
  qed
  ultimately show ?thesis by blast
qed

text \<open>C4. The clear lookup argument is complete: on tables of powers of two with at least two entries the prover always returns,
  having drawn exactly the challenges of the two trees after \<open>\<alpha>\<close>. If the multiplicities of the table are those of
  the looked-up values, \<open>\<alpha>\<close> hits no entry and no later challenge is zero, then the verifier, run on the same
  stream, accepts and leaves the stream in the same state.\<close>

theorem logup_complete:
  assumes "length f = 2 ^ Suc a" "length table = 2 ^ Suc b" "length mult = length table" "fs_live chal"
    and "multiplicities_match f table mult"
  shows "\<exists>alpha pf cs chal'. logup_prove f table mult chal = Some ((alpha, pf), chal')
    \<and> next_fp2s (1 + tree_draws 0 a + tree_draws 0 b) chal = Some (alpha # cs, chal')
    \<and> (alpha \<notin> lookup_poles f table \<and> 0 \<notin> set cs \<longrightarrow> logup_verify f table mult pf chal = Some (True, chal'))"
proof -
  have "alpha \<in> identity_at f table mult \<longleftrightarrow> alpha \<notin> lookup_poles f table" for alpha
    using identity_complete [OF assms(5)] by (simp add: identity_at_def)
  then show ?thesis using logup_run [OF assms(1-4)] by simp
qed

text \<open>A value that is looked up and not in the table is a mismatch, whatever the claimed multiplicities.\<close>

lemma missing_value_mismatch:
  assumes "v \<in> set f" "v \<notin> set table" "length f < 2 ^ 63"
  shows "\<not> multiplicities_match f table mult"
proof
  assume m: "multiplicities_match f table mult"
  have "total_mult table mult v = 0"
    using assms(2) by (auto simp: total_mult_def sum_list_eq_0_iff dest: set_zip_leftD)
  then have "int (count_list f v) mod gold_p = 0" using m by (metis multiplicities_match_def int_ops(1) mod_0)
  moreover have "count_list f v < 2 ^ 63" using count_le_length [of f v] assms(3) by linarith
  moreover have "0 < count_list f v" using assms(1) by (metis count_list_0_iff gr0I)
  ultimately show False by simp
qed

text \<open>C3. The clear lookup argument is sound: if the verifier accepts although some value is looked up a number of times that
  differs, modulo the field characteristic, from its total multiplicity in the table, then \<open>\<alpha>\<close> is one of fewer than
  \<open>n + N\<close> challenges at which the logarithmic-derivative identity holds by accident, or a later challenge fell into the
  set of at most three values that the messages before it determine. The events list the challenges of both trees
  in the order in which the verifier draws them.\<close>

theorem logup_sound:
  assumes "logup_verify f table mult pf chal = Some (True, chal')" "\<not> multiplicities_match f table mult"
  shows "\<exists>alpha chal0 cs1 chal1 cs2 m n.
    next_fp2 chal = Some (alpha, chal0) \<and> next_fp2s m chal0 = Some (cs1, chal1) \<and> next_fp2s n chal1 = Some (cs2, chal')
    \<and> (let es = tree_events (replicate (length f) 1) (lift_vals alpha f) (lg_lookup_side pf) cs1
              @ tree_events (neg_mults mult) (lift_vals alpha table) (lg_table_side pf) cs2
       in map fst es = cs1 @ cs2 \<and> (\<forall>(c, B) \<in> set es. finite B \<and> card B \<le> 3)
          \<and> finite (identity_at f table mult) \<and> card (identity_at f table mult) \<le> length f + length table - 1
          \<and> (alpha \<in> identity_at f table mult \<or> (\<exists>(c, B) \<in> set es. c \<in> B)))"
proof -
  obtain alpha chal0 where al: "next_fp2 chal = Some (alpha, chal0)"
    using assms(1) by (auto simp: logup_verify_def bind_eq_Some_conv)
  let ?p1 = "lg_lookup_side pf" and ?p2 = "lg_table_side pf" and ?lf = "lift_vals alpha f" and ?lt = "lift_vals alpha table"
  have root: "fr_root_p ?p1 * fr_root_q ?p2 + fr_root_p ?p2 * fr_root_q ?p1 = 0 \<and> fr_root_q ?p1 \<noteq> 0 \<and> fr_root_q ?p2 \<noteq> 0"
    using assms(1) al by (auto simp: logup_verify_def Let_def split: if_splits)
  obtain chal1 where v: "verify_frac_tree ?p1 (\<lambda>_. Some 1) (eval_mle_counted ?lf) chal0 = Some (True, chal1)"
    "verify_frac_tree ?p2 (eval_mle_counted (neg_mults mult)) (eval_mle_counted ?lt) chal1 = Some (True, chal')"
    using assms(1) al root by (auto simp: logup_verify_def Let_def bind_eq_Some_conv split: if_splits)
  obtain c1 where c1: "reduce_frac_tree ?p1 chal0 = Some (Some c1, chal1)" "fc_p c1 = 1"
    "length f = 2 ^ length (fc_point c1)" "fc_q c1 = mle_at ?lf (fc_point c1)"
    using v(1) by (auto simp: verify_frac_tree_def bind_eq_Some_conv eval_mle_counted_Some split: option.splits if_splits)
  obtain c2 where c2: "reduce_frac_tree ?p2 chal1 = Some (Some c2, chal')" "fc_p c2 = mle_at (neg_mults mult) (fc_point c2)"
    "length mult = 2 ^ length (fc_point c2)" "length table = 2 ^ length (fc_point c2)" "fc_q c2 = mle_at ?lt (fc_point c2)"
    using v(2) by (auto simp: verify_frac_tree_def bind_eq_Some_conv eval_mle_counted_Some split: option.splits if_splits)
  let ?e1 = "tree_events (replicate (length f) 1) ?lf ?p1" and ?e2 = "tree_events (neg_mults mult) ?lt ?p2"
  obtain cs1 m where 1: "next_fp2s m chal0 = Some (cs1, chal1)" "map fst (?e1 cs1) = cs1" "small (?e1 cs1)"
    "(fr_root_p ?p1, fr_root_q ?p1) \<noteq> frac_root (replicate (length f) 1) ?lf \<longrightarrow> unlucky (?e1 cs1)"
    using tree_sound [OF c1(1), of "replicate (length f) 1" ?lf] c1(2-4) mle_at_ones [of "fc_point c1"] by auto
  obtain cs2 n where 2: "next_fp2s n chal1 = Some (cs2, chal')" "map fst (?e2 cs2) = cs2" "small (?e2 cs2)"
    "(fr_root_p ?p2, fr_root_q ?p2) \<noteq> frac_root (neg_mults mult) ?lt \<longrightarrow> unlucky (?e2 cs2)"
    using tree_sound [OF c2(1), of "neg_mults mult" ?lt] c2(2-5) by auto
  have u: "alpha \<in> identity_at f table mult \<or> unlucky (?e1 cs1 @ ?e2 cs2)"
  proof (cases "unlucky (?e1 cs1 @ ?e2 cs2)")
    case False
    then have "frac_root (replicate (length f) 1) ?lf = (fr_root_p ?p1, fr_root_q ?p1)"
      "frac_root (neg_mults mult) ?lt = (fr_root_p ?p2, fr_root_q ?p2)" using 1(4) 2(4) by auto
    then show ?thesis using root_check [OF c1(3) c2(4)] c2(3,4) root by simp
  qed simp
  have e: "small (?e1 cs1 @ ?e2 cs2)" "map fst (?e1 cs1 @ ?e2 cs2) = cs1 @ cs2" "length mult = length table"
    using 1(2,3) 2(2,3) c2(3,4) by auto
  show ?thesis
    unfolding Let_def
    by (rule exI [of _ alpha], rule exI [of _ chal0], rule exI [of _ cs1], rule exI [of _ chal1],
        rule exI [of _ cs2], rule exI [of _ m], rule exI [of _ n])
       (use u e(1,2) al 1(1) 2(1) identity_card [OF assms(2) e(3)] in blast)
qed

section \<open>Malformed proofs\<close>

lemma reduce_rounds_total:
  assumes "length hs = length point" "fs_live chal"
  shows "\<exists>res chal'. reduce_rounds point hs claim cpref chal = Some (res, chal') \<and> fs_live chal'
    \<and> (\<forall>c d rs. res = Some (c, d, rs) \<longrightarrow> length rs = length point)"
  using assms
proof (induction hs point arbitrary: claim cpref chal rule: list_induct2)
  case (Cons h hs x xs)
  obtain r chal1 where r: "next_fp2 chal = Some (r, chal1)" "fs_live chal1" using Cons.prems by (rule next_fp2_live)
  obtain res chal' where i: "reduce_rounds xs hs (reduce_round x h claim r) (cpref * eq_factor x r) chal1 = Some (res, chal')"
    "fs_live chal'" "\<And>c d rs. res = Some (c, d, rs) \<Longrightarrow> length rs = length xs"
    using Cons.IH [OF r(2)] by blast
  show ?case using r i Cons.prems by (cases res) auto
qed auto

lemma reduce_layers_total:
  assumes "fs_live chal" "length point = l"
  shows "\<exists>res chal'. reduce_layers layers l point cp cq chal = Some (res, chal') \<and> fs_live chal'"
  using assms
proof (induction layers arbitrary: l point cp cq chal)
  case (Cons layer layers)
  show ?case
  proof (cases "length (ly_rounds layer) = l")
    case True
    then have len: "length (ly_rounds layer) = length point" using Cons.prems(2) by simp
    obtain lam chal0 where l: "next_fp2 chal = Some (lam, chal0)" "fs_live chal0" using Cons.prems(1) by (rule next_fp2_live)
    obtain res chal1 where r: "reduce_rounds point (ly_rounds layer) (lam * cp + cq) 1 chal0 = Some (res, chal1)" "fs_live chal1"
      "\<And>c d rs. res = Some (c, d, rs) \<Longrightarrow> length rs = length point"
      using reduce_rounds_total [OF len l(2), of "lam * cp + cq" 1] by blast
    obtain child chal2 where c: "next_fp2 chal1 = Some (child, chal2)" "fs_live chal2" using r(2) by (rule next_fp2_live)
    show ?thesis
      using True l r c Cons.prems(2) Cons.IH [OF c(2)] by (cases res) (auto simp: Let_def split: prod.splits)
  qed (use Cons.prems in simp)
qed simp

lemma reduce_frac_tree_total:
  assumes "fs_live chal"
  obtains res chal' where "reduce_frac_tree pf chal = Some (res, chal')" "fs_live chal'"
    "\<And>c. res = Some c \<Longrightarrow> length (fc_point c) = length (fr_layers pf)"
proof -
  obtain res chal' where r: "reduce_frac_tree pf chal = Some (res, chal')" "fs_live chal'"
    using reduce_layers_total [OF assms, of "[]" 0 "fr_layers pf" "fr_root_p pf" "fr_root_q pf"] unfolding reduce_frac_tree_def by auto
  moreover have "length (fc_point c) = length (fr_layers pf)" if "res = Some c" for c
    using r(1) that reduce_layers_length [of "fr_layers pf" "[]"] by (simp add: reduce_frac_tree_def)
  ultimately show thesis using that by blast
qed

lemma verify_frac_tree_total:
  assumes "fs_live chal" "\<And>pt. length pt = length (fr_layers pf) \<Longrightarrow> P pt \<noteq> None \<and> Q pt \<noteq> None"
  shows "\<exists>ok chal'. verify_frac_tree pf P Q chal = Some (ok, chal') \<and> fs_live chal'"
proof -
  obtain res chal' where r: "reduce_frac_tree pf chal = Some (res, chal')" "fs_live chal'"
    "\<And>c. res = Some c \<Longrightarrow> length (fc_point c) = length (fr_layers pf)"
    using reduce_frac_tree_total [OF assms(1)] by blast
  show ?thesis
  proof (cases res)
    case (Some c)
    then show ?thesis using r assms(2) [OF r(3) [OF Some]] by (auto simp: verify_frac_tree_def)
  qed (use r in \<open>auto simp: verify_frac_tree_def\<close>)
qed

text \<open>A proof whose trees have no layers: the claims are the roots, and they pass the root check.\<close>

definition short_proof :: logup_proof where
  "short_proof = \<lparr>lg_lookup_side = \<lparr>fr_root_p = 1, fr_root_q = 1, fr_layers = []\<rparr>,
     lg_table_side = \<lparr>fr_root_p = - 1, fr_root_q = 1, fr_layers = []\<rparr>\<rparr>"

text \<open>C31. When the clear lookup verifier panics: never on a proof with the number of layers that belongs to the tables, whatever
  its contents; but it does not check this number itself, and on a proof without layers for two or more lookups it
  panics in the evaluation of the leaves instead of refusing.\<close>

theorem logup_verify_panics:
  assumes "fs_live chal"
  shows "(length f = 2 ^ length (fr_layers (lg_lookup_side pf)) \<and> length table = 2 ^ length (fr_layers (lg_table_side pf))
      \<and> length mult = length table \<longrightarrow> (\<exists>ok chal'. logup_verify f table mult pf chal = Some (ok, chal')))
    \<and> (length f \<noteq> 1 \<longrightarrow> logup_verify f table mult short_proof chal = None)"
proof -
  obtain alpha chal0 where al: "next_fp2 chal = Some (alpha, chal0)" "fs_live chal0" using assms by (rule next_fp2_live)
  have "\<exists>ok chal'. logup_verify f table mult pf chal = Some (ok, chal')"
    if len: "length f = 2 ^ length (fr_layers (lg_lookup_side pf)) \<and> length table = 2 ^ length (fr_layers (lg_table_side pf))
      \<and> length mult = length table"
  proof -
    obtain ok1 chal1 where 1: "verify_frac_tree (lg_lookup_side pf) (\<lambda>_. Some 1) (eval_mle_counted (lift_vals alpha f)) chal0 = Some (ok1, chal1)" "fs_live chal1"
      using verify_frac_tree_total [OF al(2), of "lg_lookup_side pf" "\<lambda>_. Some 1" "eval_mle_counted (lift_vals alpha f)"] len
      by (auto simp: eval_mle_counted_Some)
    obtain ok2 chal2 where 2: "verify_frac_tree (lg_table_side pf) (eval_mle_counted (neg_mults mult)) (eval_mle_counted (lift_vals alpha table)) chal1 = Some (ok2, chal2)"
      using verify_frac_tree_total [OF 1(2), of "lg_table_side pf" "eval_mle_counted (neg_mults mult)" "eval_mle_counted (lift_vals alpha table)"] len
      by (auto simp: eval_mle_counted_Some)
    show ?thesis using al(1) 1(1) 2 by (cases ok1) (auto simp: logup_verify_def Let_def)
  qed
  moreover have "logup_verify f table mult short_proof chal = None" if "length f \<noteq> 1"
    using al(1) that by (simp add: logup_verify_def short_proof_def verify_frac_tree_def reduce_frac_tree_def eval_mle_counted_def)
  ultimately show ?thesis by blast
qed

section \<open>Two small lookups\<close>

definition demo_words :: "u64 \<Rightarrow> u64 \<Rightarrow> fp_stream" where
  "demo_words x y = \<lparr>fs_word = (\<lambda>n. if n = 0 then x else if n = 1 then y else 7), fs_pos = 0\<rparr>"

lemma demo_words:
  assumes "x < P_u64" "y < P_u64"
  shows "fs_live (demo_words x y)"
    "next_fp2s (1 + tree_draws 0 0 + tree_draws 0 0) (demo_words x y)
      = Some ([Fp2 (fp_new x) (fp_new y), Fp2 7 7, Fp2 7 7, Fp2 7 7, Fp2 7 7], (demo_words x y)\<lparr>fs_pos := 10\<rparr>)"
proof -
  have 7: "(7 :: u64) < P_u64" by (simp add: P_u64_def)
  have n: "1 + tree_draws 0 0 + tree_draws 0 0 = Suc (Suc (Suc (Suc (Suc 0))))" by simp
  have "n \<le> n + 2 \<and> fs_word (demo_words x y) (n + 2) < P_u64" for n using 7 by (simp add: demo_words_def)
  then show "fs_live (demo_words x y)" unfolding fs_live_def by blast
  show "next_fp2s (1 + tree_draws 0 0 + tree_draws 0 0) (demo_words x y)
      = Some ([Fp2 (fp_new x) (fp_new y), Fp2 7 7, Fp2 7 7, Fp2 7 7, Fp2 7 7], (demo_words x y)\<lparr>fs_pos := 10\<rparr>)"
    using assms 7 unfolding n by (simp add: demo_words_def next_fp2_def next_fp_accept fp_new_numeral)
qed

lemma fp_seven_ne_0: "(7 :: fp) \<noteq> 0"
  by code_simp

theorem logup_complete_witness:
  "\<exists>alpha pf cs chal'. logup_prove [3, 3] [3, 5] [2, 0] (demo_words 7 7) = Some ((alpha, pf), chal')
    \<and> logup_verify [3, 3] [3, 5] [2, 0] pf (demo_words 7 7) = Some (True, chal')"
proof -
  have w: "(7 :: u64) < P_u64" by (simp add: P_u64_def)
  have m: "multiplicities_match [3, 3] [3, 5] [2, 0]" by (auto simp: multiplicities_match_def total_mult_def)
  have "length [3, 3 :: i16] = 2 ^ Suc 0" "length [3, 5 :: i16] = 2 ^ Suc 0" "length [2, 0 :: u32] = length [3, 5 :: i16]" by simp_all
  from logup_complete [OF this demo_words(1) [OF w w] m]
  obtain alpha pf cs chal' where r: "logup_prove [3, 3] [3, 5] [2, 0] (demo_words 7 7) = Some ((alpha, pf), chal')"
    "next_fp2s (1 + tree_draws 0 0 + tree_draws 0 0) (demo_words 7 7) = Some (alpha # cs, chal')"
    "alpha \<notin> lookup_poles [3, 3] [3, 5] \<and> 0 \<notin> set cs \<longrightarrow> logup_verify [3, 3] [3, 5] [2, 0] pf (demo_words 7 7) = Some (True, chal')"
    by blast
  have "alpha = Fp2 7 7" "cs = [Fp2 7 7, Fp2 7 7, Fp2 7 7, Fp2 7 7]"
    using r(2) unfolding demo_words(2) [OF w w] by (auto simp: fp_new_numeral)
  moreover have "Fp2 7 7 \<noteq> phi z" "Fp2 7 7 \<noteq> (0 :: fp2)" for z
    using fp_seven_ne_0 by (simp_all add: phi_def fp2_from_base_def zero_fp2_def)
  ultimately show ?thesis using r(1,3) by (auto simp: lookup_poles_def)
qed

theorem logup_verify_panics_witness:
  "(\<exists>ok chal'. logup_verify [4] [4] [1] short_proof (demo_words 7 7) = Some (ok, chal'))
    \<and> logup_verify [3, 3] [3, 5] [2, 0] short_proof (demo_words 7 7) = None"
proof -
  have w: "(7 :: u64) < P_u64" by (simp add: P_u64_def)
  show ?thesis
    using logup_verify_panics [OF demo_words(1) [OF w w], of "[4]" short_proof "[4]" "[1]"]
      logup_verify_panics [OF demo_words(1) [OF w w], of "[3, 3]" short_proof "[3, 5]" "[2, 0]"]
    by (simp add: short_proof_def)
qed

text \<open>At \<open>\<alpha> = 5\<close> two lookups of 1 and one entry 3 have the same sum: \<open>1/4 + 1/4 = 1/2\<close>.\<close>

lemma demo_accident: "phi 5 \<in> identity_at [1, 1] [3, 3] [1, 0]"
proof -
  have s: "sint (1 :: i16) = 1" "sint (3 :: i16) = 3" "uint (1 :: u32) = 1" "uint (0 :: u32) = 0" by code_simp+
  have "phi 5 - phi 1 = 4" "phi 5 - phi 3 = 2" unfolding phi_diff [symmetric] by (simp_all add: phi_def)
  then have d: "phi 5 - 1 = 4" "phi 5 - phi 3 = 2" by simp_all
  have "(4 :: fp2) \<noteq> 0" by code_simp
  then have "1 / 4 + 1 / 4 = (1 / 2 :: fp2)" using fp2_small_ne_0(1) by (simp add: field_simps)
  then have "frac_sum (lookup_terms [1, 1] @ table_terms [3, 3] [1, 0]) (phi 5) = 0"
    unfolding frac_sum_def lookup_terms_def table_terms_def by (simp add: s phi_hom(1) d)
  moreover have "phi 5 \<noteq> phi 1" "phi 5 \<noteq> phi 3" unfolding phi_eq_iff by simp_all
  ultimately show ?thesis by (simp add: identity_at_def lookup_poles_def s)
qed

theorem logup_sound_witness:
  "\<exists>pf chal' alpha chal0 cs1 cs2.
    logup_verify [1, 1] [3, 3] [1, 0] pf (demo_words 5 0) = Some (True, chal')
    \<and> next_fp2 (demo_words 5 0) = Some (alpha, chal0)
    \<and> card (identity_at [1, 1] [3, 3] [1, 0]) \<le> length [1, 1 :: i16] + length [3, 3 :: i16] - 1
    \<and> (alpha \<in> identity_at [1, 1] [3, 3] [1, 0]
       \<or> (\<exists>(c, B) \<in> set (tree_events (replicate (length [1, 1 :: i16]) 1) (lift_vals alpha [1, 1]) (lg_lookup_side pf) cs1
              @ tree_events (neg_mults [1, 0]) (lift_vals alpha [3, 3]) (lg_table_side pf) cs2). c \<in> B))"
proof -
  have w: "(5 :: u64) < P_u64" "(0 :: u64) < P_u64" by (simp_all add: P_u64_def)
  have "length [1, 1 :: i16] = 2 ^ Suc 0" "length [3, 3 :: i16] = 2 ^ Suc 0" "length [1, 0 :: u32] = length [3, 3 :: i16]" by simp_all
  from logup_run [OF this demo_words(1) [OF w]]
  obtain alpha pf cs chal' where r: "next_fp2s (1 + tree_draws 0 0 + tree_draws 0 0) (demo_words 5 0) = Some (alpha # cs, chal')"
    "alpha \<in> identity_at [1, 1] [3, 3] [1, 0] \<and> 0 \<notin> set cs \<longrightarrow> logup_verify [1, 1] [3, 3] [1, 0] pf (demo_words 5 0) = Some (True, chal')"
    by blast
  have "fp_new 5 = 5" using fp_new_of_int [of 5] by simp
  then have "alpha = phi 5" "0 \<notin> set cs"
    using r(1) fp_seven_ne_0 unfolding demo_words(2) [OF w] by (auto simp: phi_def fp2_from_base_def zero_fp2_def fp_new_small)
  then have v: "logup_verify [1, 1] [3, 3] [1, 0] pf (demo_words 5 0) = Some (True, chal')" using r(2) demo_accident by blast
  have "\<not> multiplicities_match [1, 1] [3, 3] [1, 0]"
    by (rule missing_value_mismatch [of 1]) simp_all
  from logup_sound [OF v this] show ?thesis using v unfolding Let_def by blast
qed

end
