(* ===== verification/Logup_Sink.thy ===== *)
theory Logup_Sink
  imports Logup_Lookup
begin

text \<open>
  What the engine of \<^verbatim>\<open>volta-proto/src/logup.rs\<close> does with a sink that follows the claims. A locale states what such a sink
  promises about the running claims, and its client lemmas carry the engine through rounds, layers and tree. A round at a zero
  coordinate divides by zero, so that a sink of authenticated values panics there: the probe of a sink runs on and
  notes the event instead, and a second locale, which gives the first one on the probe, says that the sink itself panics exactly then.
\<close>

section \<open>Sinks that follow the claims\<close>

text \<open>The plan lists the sizes of the transfers to come; that of \<open>k + 1\<close> layers, the first with \<open>l\<close> rounds:\<close>

fun tree_plan :: "nat \<Rightarrow> nat \<Rightarrow> nat list" where
  "tree_plan l 0 = replicate l 2 @ [4, 3]"
| "tree_plan l (Suc k) = replicate l 2 @ 4 # 3 # tree_plan (Suc l) k"

text \<open>The levels that the engine walks, from the root to the leaves.\<close>

lemma weighted_tree_shape:
  assumes "length lp = 2 ^ Suc k" "length lq = length lp"
  obtains rp rq ls where "frac_root lp lq = (rp, rq)" "length ls = k" "tree_chain ([rp], [rq]) (ls @ [(lp, lq)])"
    "build_weighted_tree lp lq = Some \<lparr>ft_p = [rp] # map fst ls, ft_q = [rq] # map snd ls, ft_depth = Suc k\<rparr>"
proof -
  obtain p q where c: "combine_layer lp lq = (p, q)" by (cases "combine_layer lp lq")
  have l: "length p = 2 ^ k" "length q = length p" using assms length_combine [of lp lq] c by simp_all
  have "tree_chain (p, q) [(lp, lq)]" using c l assms by simp
  from tree_levels_chain [OF l this] obtain P Q ls where t:
    "tree_levels k p q = (P, Q) # ls" "length P = 1" "length Q = 1" "length ls = k" "tree_chain (P, Q) (ls @ [(lp, lq)])"
    by blast
  obtain rp rq where r: "P = [rp]" "Q = [rq]" using t(2,3) by (auto simp: length_Suc_conv)
  have "tree_levels (Suc k) lp lq ! 0 = ([rp], [rq])" using c t(1) r by simp
  then have "frac_root lp lq = (rp, rq)" using frac_root_levels [OF assms(1)] by blast
  moreover have "build_weighted_tree lp lq = Some \<lparr>ft_p = map fst (tree_levels k p q), ft_q = map snd (tree_levels k p q), ft_depth = Suc k\<rparr>"
    using assms c trailing_zeros_pow [of "Suc k"] self_le_power [of "2 :: nat" "Suc k"]
    by (auto simp: build_weighted_tree_def tree_of_def Let_def is_power_of_two_iff simp flip: power_Suc)
  ultimately show thesis using that t r by simp
qed

text \<open>The transfers of \<open>n\<close> layers above the leaves, the first with \<open>l\<close> rounds.\<close>

fun upper_plan :: "nat \<Rightarrow> nat \<Rightarrow> nat list" where
  "upper_plan l 0 = []"
| "upper_plan l (Suc n) = replicate l 2 @ 4 # 3 # upper_plan (Suc l) n"

text \<open>The walk above the leaf layer.\<close>

fun upper_layers :: "'s sink \<Rightarrow> (fp2 list \<times> fp2 list) list \<Rightarrow> fp2 list \<Rightarrow> 's \<Rightarrow> (fp2 list \<times> 's) option" where
  "upper_layers K [] point st = Some (point, st)"
| "upper_layers K ((p, q) # ls) point st =
     do { (rs, splits, st) \<leftarrow> layer_general K (evens p) (odds p) (evens q) (odds q) point st;
          (t, st) \<leftarrow> sk_splits K splits st;
          upper_layers K ls (t # rs) st }"

locale layer_sink =
  fixes K :: "'s sink"
    and at_layer :: "nat list \<Rightarrow> fp2 list \<Rightarrow> fp2 \<Rightarrow> fp2 \<Rightarrow> 's \<Rightarrow> bool"
    and in_layer :: "nat list \<Rightarrow> fp2 list \<Rightarrow> fp2 list \<Rightarrow> fp2 \<Rightarrow> fp2 \<Rightarrow> fp2 \<Rightarrow> 's \<Rightarrow> bool"
  assumes lambda_step: "at_layer plan point cp cq st
      \<Longrightarrow> \<exists>lam st'. sk_lambda K st = Some (lam, st') \<and> in_layer plan point [] lam (lam * cp + cq) 1 st'"
    and round_step: "in_layer (2 # plan) (x # xs) rs lam claim cpref st \<Longrightarrow> x \<noteq> 0
      \<Longrightarrow> \<exists>r st'. sk_round K h x st = Some (r, st')
        \<and> in_layer plan xs (rs @ [r]) lam (reduce_round x h claim r) (cpref * eq_factor x r) st'"
    and zero_step: "in_layer (2 # plan) (0 # xs) rs lam claim cpref st
      \<Longrightarrow> \<exists>r st'. sk_round K h 0 st = Some (r, st') \<and> (\<forall>claim' cpref'. in_layer plan xs (rs @ [r]) lam claim' cpref' st')"
    and splits_step: "in_layer (4 # 3 # plan) [] rs lam claim cpref st \<Longrightarrow> claim = cpref * layer_val lam a b c d
      \<Longrightarrow> \<exists>t st'. sk_splits K (a, b, c, d) st = Some (t, st')
        \<and> at_layer plan (t # rs) (a + t * (b - a)) (c + t * (d - c)) st'"
begin

lemma rounds_run:
  assumes "tables_len (2 ^ length point) p0 p1 q0 q1"
    and "in_layer (replicate (length point) 2 @ plan) point rs lam (cpref * layer_sum lam point p0 p1 q0 q1) cpref st"
  shows "\<exists>rs' c st'. run_general_rounds K lam (zip (suffix_eq_tables point) point) p0 p1 q0 q1 cpref st
      = Some (rs', (eval_mle_loop p0 rs', eval_mle_loop p1 rs', eval_mle_loop q0 rs', eval_mle_loop q1 rs'), st')
    \<and> length rs' = length point
    \<and> in_layer plan [] (rs @ rs') lam
        (c * layer_sum lam [] (eval_mle_loop p0 rs') (eval_mle_loop p1 rs') (eval_mle_loop q0 rs') (eval_mle_loop q1 rs')) c st'"
  using assms
proof (induction point arbitrary: p0 p1 q0 q1 cpref st rs)
  case Nil
  then show ?case by (intro exI [of _ "[]"] exI [of _ cpref] exI [of _ st]) simp
next
  case (Cons x xs)
  let ?h = "round_message cpref lam (acc_sum (general_body (eq_vec xs) p0 p1 q0 q1) (2 ^ length xs))"
  have t: "tables_len (2 ^ Suc (length xs)) p0 p1 q0 q1" using Cons.prems(1) by simp
  obtain r st1 where r: "sk_round K ?h x st = Some (r, st1)"
    "in_layer (replicate (length xs) 2 @ plan) xs (rs @ [r]) lam (cpref * eq_factor x r * round_poly lam xs p0 p1 q0 q1 r) (cpref * eq_factor x r) st1"
  proof (cases "x = 0")
    case True
    then have "in_layer (2 # replicate (length xs) 2 @ plan) (0 # xs) rs lam (cpref * layer_sum lam (x # xs) p0 p1 q0 q1) cpref st"
      using Cons.prems(2) by simp
    from zero_step [OF this, of ?h] show thesis using True that by blast
  next
    case False
    then show thesis
      using round_step [of "replicate (length xs) 2 @ plan" x xs rs lam "cpref * layer_sum lam (x # xs) p0 p1 q0 q1" cpref st ?h]
        Cons.prems(2) reduce_round_honest [OF t False, of cpref lam] that by auto
  qed
  have t': "tables_len (2 ^ length xs) (fold_low p0 r) (fold_low p1 r) (fold_low q0 r) (fold_low q1 r)" using t by simp
  obtain rs' c st' where IH:
    "run_general_rounds K lam (zip (suffix_eq_tables xs) xs) (fold_low p0 r) (fold_low p1 r) (fold_low q0 r) (fold_low q1 r) (cpref * eq_factor x r) st1
      = Some (rs', (eval_mle_loop (fold_low p0 r) rs', eval_mle_loop (fold_low p1 r) rs', eval_mle_loop (fold_low q0 r) rs', eval_mle_loop (fold_low q1 r) rs'), st')"
    "length rs' = length xs"
    "in_layer plan [] ((rs @ [r]) @ rs') lam
        (c * layer_sum lam [] (eval_mle_loop (fold_low p0 r) rs') (eval_mle_loop (fold_low p1 r) rs') (eval_mle_loop (fold_low q0 r) rs') (eval_mle_loop (fold_low q1 r) rs')) c st'"
    using Cons.IH [OF t', of "rs @ [r]" "cpref * eq_factor x r" st1] r(2) unfolding round_poly_def by blast
  have "fold_vec p0 r (2 ^ length xs) = fold_low p0 r" "fold_vec p1 r (2 ^ length xs) = fold_low p1 r"
      "fold_vec q0 r (2 ^ length xs) = fold_low q0 r" "fold_vec q1 r (2 ^ length xs) = fold_low q1 r"
    using t by (simp_all add: fold_vec_eq)
  then have "run_general_rounds K lam (zip (suffix_eq_tables (x # xs)) (x # xs)) p0 p1 q0 q1 cpref st
      = Some (r # rs', (eval_mle_loop p0 (r # rs'), eval_mle_loop p1 (r # rs'), eval_mle_loop q0 (r # rs'), eval_mle_loop q1 (r # rs')), st')"
    using t r(1) IH(1) by (simp add: Let_def)
  then show ?case
    using IH(2,3) by (intro exI [of _ "r # rs'"] exI [of _ c] exI [of _ st']) simp
qed

lemma layer_run:
  assumes "length p = 2 * 2 ^ length point" "length q = length p"
    and "at_layer (replicate (length point) 2 @ 4 # 3 # plan) point
      (mle_at (fst (combine_layer p q)) point) (mle_at (snd (combine_layer p q)) point) st"
  shows "\<exists>rs splits st1 t st2. layer_general K (evens p) (odds p) (evens q) (odds q) point st = Some (rs, splits, st1)
    \<and> sk_splits K splits st1 = Some (t, st2) \<and> length rs = length point
    \<and> at_layer plan (t # rs) (mle_at p (t # rs)) (mle_at q (t # rs)) st2"
proof -
  let ?p0 = "evens p" and ?p1 = "odds p" and ?q0 = "evens q" and ?q1 = "odds q"
  have t: "tables_len (2 ^ length point) ?p0 ?p1 ?q0 ?q1" using assms(1,2) by simp
  obtain lam st0 where l: "sk_lambda K st = Some (lam, st0)"
    "in_layer (replicate (length point) 2 @ 4 # 3 # plan) point [] lam (1 * layer_sum lam point ?p0 ?p1 ?q0 ?q1) 1 st0"
    using lambda_step [OF assms(3)] by (auto simp: layer_sum_combined [OF assms(1,2)])
  obtain rs c st1 where r:
    "run_general_rounds K lam (zip (suffix_eq_tables point) point) ?p0 ?p1 ?q0 ?q1 1 st0
      = Some (rs, (eval_mle_loop ?p0 rs, eval_mle_loop ?p1 rs, eval_mle_loop ?q0 rs, eval_mle_loop ?q1 rs), st1)"
    "length rs = length point"
    "in_layer (4 # 3 # plan) [] rs lam (c * layer_sum lam [] (eval_mle_loop ?p0 rs) (eval_mle_loop ?p1 rs) (eval_mle_loop ?q0 rs) (eval_mle_loop ?q1 rs)) c st1"
    using rounds_run [OF t l(2)] by auto
  have e: "eval_mle_loop ?p0 rs = [mle_at ?p0 rs]" "eval_mle_loop ?p1 rs = [mle_at ?p1 rs]"
    "eval_mle_loop ?q0 rs = [mle_at ?q0 rs]" "eval_mle_loop ?q1 rs = [mle_at ?q1 rs]"
    using t r(2) by (simp_all add: mle_at_loop)
  obtain t st2 where s: "sk_splits K (mle_at ?p0 rs, mle_at ?p1 rs, mle_at ?q0 rs, mle_at ?q1 rs) st1 = Some (t, st2)"
    "at_layer plan (t # rs) (mle_at ?p0 rs + t * (mle_at ?p1 rs - mle_at ?p0 rs)) (mle_at ?q0 rs + t * (mle_at ?q1 rs - mle_at ?q0 rs)) st2"
    using splits_step [OF r(3), of "mle_at ?p0 rs" "mle_at ?p1 rs" "mle_at ?q0 rs" "mle_at ?q1 rs"] by (auto simp: e)
  have "layer_general K ?p0 ?p1 ?q0 ?q1 point st = Some (rs, (mle_at ?p0 rs, mle_at ?p1 rs, mle_at ?q0 rs, mle_at ?q1 rs), st1)"
    using l(1) r(1) by (simp add: layer_general_def e get_def)
  moreover have "at_layer plan (t # rs) (mle_at p (t # rs)) (mle_at q (t # rs)) st2"
    using s(2) mle_at_split [of p rs t] mle_at_split [of q rs t] assms(1,2) r(2) by simp
  ultimately show ?thesis using s(1) r(2) by auto
qed

lemma walk_run:
  assumes "tree_chain (P, Q) (ls @ [(lp, lq)])" "length P = 2 ^ length point"
    and "at_layer (tree_plan (length point) (length ls) @ plan) point (mle_at P point) (mle_at Q point) st"
  shows "\<exists>pt st'. walk_layers K (layer_general K (evens lp) (odds lp) (evens lq) (odds lq)) ls point st = Some (pt, st')
    \<and> length pt = Suc (length point + length ls) \<and> at_layer plan pt (mle_at lp pt) (mle_at lq pt) st'"
  using assms
proof (induction ls arbitrary: P Q point st)
  case Nil
  have len: "length lp = 2 * 2 ^ length point" "length lq = length lp" and c: "combine_layer lp lq = (P, Q)"
    using Nil.prems(1,2) by auto
  from layer_run [OF len, of plan st] Nil.prems(3) show ?case unfolding c by auto
next
  case (Cons l ls)
  obtain p q where l: "l = (p, q)" by (cases l)
  have len: "length p = 2 * 2 ^ length point" "length q = length p" and c: "combine_layer p q = (P, Q)"
    and chain: "tree_chain (p, q) (ls @ [(lp, lq)])"
    using Cons.prems(1,2) l by auto
  have "at_layer (replicate (length point) 2 @ 4 # 3 # tree_plan (Suc (length point)) (length ls) @ plan) point
      (mle_at (fst (combine_layer p q)) point) (mle_at (snd (combine_layer p q)) point) st"
    using Cons.prems(3) c by simp
  from layer_run [OF len this] obtain rs splits st1 t st2 where r:
    "layer_general K (evens p) (odds p) (evens q) (odds q) point st = Some (rs, splits, st1)"
    "sk_splits K splits st1 = Some (t, st2)" "length rs = length point"
    "at_layer (tree_plan (length (t # rs)) (length ls) @ plan) (t # rs) (mle_at p (t # rs)) (mle_at q (t # rs)) st2"
    by auto
  have "length p = 2 ^ length (t # rs)" using len r(3) by simp
  from Cons.IH [OF chain this r(4)] show ?case using r(1-3) by (auto simp: l)
qed

lemma tree_run:
  assumes "length lp = 2 ^ Suc k" "length lq = length lp"
    and "\<And>rp rq. frac_root lp lq = (rp, rq) \<Longrightarrow> \<exists>st'. sk_root K rp rq st = Some st' \<and> at_layer (tree_plan 0 k @ plan) [] rp rq st'"
  shows "\<exists>rp rq pt st0 st'. frac_root lp lq = (rp, rq) \<and> sk_root K rp rq st = Some st0
    \<and> prove_weighted_engine K lp lq st = Some ((rp, rq, pt), st')
    \<and> length pt = Suc k \<and> at_layer plan pt (mle_at lp pt) (mle_at lq pt) st'"
proof -
  obtain rp rq ls where w: "frac_root lp lq = (rp, rq)" "length ls = k" "tree_chain ([rp], [rq]) (ls @ [(lp, lq)])"
    "build_weighted_tree lp lq = Some \<lparr>ft_p = [rp] # map fst ls, ft_q = [rq] # map snd ls, ft_depth = Suc k\<rparr>"
    by (rule weighted_tree_shape [OF assms(1,2)])
  then obtain st0 where s0: "sk_root K rp rq st = Some st0" "at_layer (tree_plan 0 k @ plan) [] rp rq st0" using assms(3) by blast
  obtain pt st' where
    "walk_layers K (layer_general K (evens lp) (odds lp) (evens lq) (odds lq)) ls [] st0 = Some (pt, st')"
    "length pt = Suc k" "at_layer plan pt (mle_at lp pt) (mle_at lq pt) st'"
    using walk_run [OF w(3), of "[]" plan st0] s0(2) w(2) by auto
  then show ?thesis
    using w s0(1) by (auto simp: prove_weighted_engine_def run_tree_def zip_map_fst_snd)
qed

lemma upper_run:
  assumes "tree_chain (P, Q) (ls @ [(lp, lq)])" "length P = 2 ^ length point"
    and "at_layer (upper_plan (length point) (length ls) @ plan) point (mle_at P point) (mle_at Q point) st"
  shows "\<exists>pt st' P' Q'. upper_layers K ls point st = Some (pt, st') \<and> length pt = length point + length ls
    \<and> combine_layer lp lq = (P', Q') \<and> at_layer plan pt (mle_at P' pt) (mle_at Q' pt) st'"
  using assms
proof (induction ls arbitrary: P Q point st)
  case Nil
  then have "combine_layer lp lq = (P, Q)" by simp
  then show ?case using Nil.prems by simp
next
  case (Cons l ls)
  obtain p q where l: "l = (p, q)" by (cases l)
  have len: "length p = 2 * 2 ^ length point" "length q = length p" and c: "combine_layer p q = (P, Q)"
    and chain: "tree_chain (p, q) (ls @ [(lp, lq)])"
    using Cons.prems(1,2) l by auto
  have "at_layer (replicate (length point) 2 @ 4 # 3 # upper_plan (Suc (length point)) (length ls) @ plan) point
      (mle_at (fst (combine_layer p q)) point) (mle_at (snd (combine_layer p q)) point) st"
    using Cons.prems(3) c by simp
  from layer_run [OF len this] obtain rs splits st1 t st2 where r:
    "layer_general K (evens p) (odds p) (evens q) (odds q) point st = Some (rs, splits, st1)"
    "sk_splits K splits st1 = Some (t, st2)" "length rs = length point"
    "at_layer (upper_plan (length (t # rs)) (length ls) @ plan) (t # rs) (mle_at p (t # rs)) (mle_at q (t # rs)) st2"
    by auto
  have "length p = 2 ^ length (t # rs)" using len r(3) by simp
  from Cons.IH [OF chain this r(4)] show ?case using r(1-3) by (auto simp: l)
qed

end

section \<open>The probe of a sink\<close>

text \<open>The probe of a sink runs it and notes whether a round was asked at a zero coordinate. From then on it answers zero and leaves the sink alone.\<close>

definition probed :: "('s \<Rightarrow> (fp2 \<times> 's) option) \<Rightarrow> 's \<times> bool \<Rightarrow> (fp2 \<times> 's \<times> bool) option" where
  "probed step = (\<lambda>(st, z). if z then Some (0, st, True) else map_option (\<lambda>(r, st). (r, st, False)) (step st))"

definition probe :: "'s sink \<Rightarrow> ('s \<times> bool) sink" where
  "probe K =
     \<lparr>sk_root = (\<lambda>p q (st, z). map_option (\<lambda>st. (st, z)) (sk_root K p q st)),
      sk_lambda = probed (sk_lambda K),
      sk_round = (\<lambda>h x (st, z). probed (sk_round K h x) (st, z \<or> x = 0)),
      sk_splits = (\<lambda>sp. probed (sk_splits K sp))\<rparr>"

text \<open>The engine asks for a round at a zero coordinate.\<close>

definition meets_zero :: "'s sink \<Rightarrow> leaf_p \<Rightarrow> leaf_q \<Rightarrow> 's \<Rightarrow> bool" where
  "meets_zero K lp lq st = (case prove_engine (probe K) lp lq (st, False) of None \<Rightarrow> False | Some (_, _, z) \<Rightarrow> z)"

lemma probed_simps [simp]:
  "probed step (st, True) = Some (0, st, True)"
  "probed step (st, False) = map_option (\<lambda>(r, st). (r, st, False)) (step st)"
  by (simp_all add: probed_def)

lemma probe_simps [simp]:
  "sk_root (probe K) p q (st, z) = map_option (\<lambda>st. (st, z)) (sk_root K p q st)" "sk_lambda (probe K) = probed (sk_lambda K)"
  "sk_round (probe K) h x (st, z) = probed (sk_round K h x) (st, z \<or> x = 0)" "sk_splits (probe K) sp = probed (sk_splits K sp)"
  by (simp_all add: probe_def)

text \<open>A run of the probe that notes nothing is a run of the sink; one that does ends in a panic of the sink, when the sink panics at zero coordinates.\<close>

locale zero_panics =
  fixes K :: "'s sink"
  assumes zero_step: "sk_round K h 0 st = None"
begin

lemma rounds_follow:
  "run_general_rounds (probe K) lam pts p0 p1 q0 q1 cpref (st, z) = Some (rs, vs, st', z')
    \<Longrightarrow> (z \<longrightarrow> z') \<and> (\<not> z \<longrightarrow> run_general_rounds K lam pts p0 p1 q0 q1 cpref st = (if z' then None else Some (rs, vs, st')))"
proof (induction pts arbitrary: p0 p1 q0 q1 cpref st z rs)
  case (Cons a pts)
  obtain s x where a: "a = (s, x)" by (cases a)
  let ?half = "length p0 div 2"
  let ?h = "round_message cpref lam (acc_sum (general_body s p0 p1 q0 q1) ?half)"
  obtain r st1 z1 rs1 where r: "?half \<le> length s \<and> 2 * ?half \<le> length p1 \<and> 2 * ?half \<le> length q0 \<and> 2 * ?half \<le> length q1"
    "probed (sk_round K ?h x) (st, z \<or> x = 0) = Some (r, st1, z1)" "rs = r # rs1"
    "run_general_rounds (probe K) lam pts (fold_vec p0 r ?half) (fold_vec p1 r ?half) (fold_vec q0 r ?half) (fold_vec q1 r ?half)
       (cpref * eq_factor x r) (st1, z1) = Some (rs1, vs, st', z')"
    using Cons.prems by (auto simp: a bind_eq_Some_conv Let_def split: if_splits)
  note IH = Cons.IH [OF r(4)]
  show ?case
  proof (cases "z \<or> x = 0")
    case True
    then have "z1" using r(2) by simp
    moreover have "sk_round K ?h x st = None" if "\<not> z" using True that zero_step [of ?h st] by blast
    ultimately show ?thesis using IH by (auto simp: a Let_def)
  next
    case False
    then have "sk_round K ?h x st = Some (r, st1)" "\<not> z1" using r(2) by auto
    then show ?thesis using IH False r(1,3) by (auto simp: a Let_def)
  qed
qed simp

lemma layer_follow:
  assumes "layer_general (probe K) p0 p1 q0 q1 point (st, z) = Some (rs, sp, st', z')"
  shows "(z \<longrightarrow> z') \<and> (\<not> z \<longrightarrow> layer_general K p0 p1 q0 q1 point st = (if z' then None else Some (rs, sp, st')))"
proof -
  obtain lam st1 z1 v0 v1 w0 w1 where l: "probed (sk_lambda K) (st, z) = Some (lam, st1, z1)"
    "run_general_rounds (probe K) lam (zip (suffix_eq_tables point) point) p0 p1 q0 q1 1 (st1, z1) = Some (rs, (v0, v1, w0, w1), st', z')"
    "get v0 0 \<bind> (\<lambda>a. get v1 0 \<bind> (\<lambda>b. get w0 0 \<bind> (\<lambda>c. get w1 0 \<bind> (\<lambda>d. Some (rs, (a, b, c, d), st', z'))))) = Some (rs, sp, st', z')"
    using assms by (auto simp: layer_general_def bind_eq_Some_conv)
  note R = rounds_follow [OF l(2)]
  show ?thesis
  proof (cases z)
    case True
    then show ?thesis using l(1) R by simp
  next
    case False
    then have "sk_lambda K st = Some (lam, st1)" "\<not> z1" using l(1) by auto
    then show ?thesis using R False l(3) by (auto simp: layer_general_def bind_eq_Some_conv)
  qed
qed

lemma upper_follow:
  "upper_layers (probe K) ls point (st, z) = Some (pt, st', z')
    \<Longrightarrow> (z \<longrightarrow> z') \<and> (\<not> z \<longrightarrow> upper_layers K ls point st = (if z' then None else Some (pt, st')))"
proof (induction ls arbitrary: point st z)
  case (Cons l ls)
  obtain p q where l: "l = (p, q)" by (cases l)
  obtain rs sp st1 z1 t st2 z2 where r: "layer_general (probe K) (evens p) (odds p) (evens q) (odds q) point (st, z) = Some (rs, sp, st1, z1)"
    "probed (sk_splits K sp) (st1, z1) = Some (t, st2, z2)" "upper_layers (probe K) ls (t # rs) (st2, z2) = Some (pt, st', z')"
    using Cons.prems by (auto simp: l bind_eq_Some_conv)
  note L = layer_follow [OF r(1)] and U = Cons.IH [OF r(3)]
  show ?case
  proof (cases z1)
    case True
    then show ?thesis using L U r(2) by (auto simp: l)
  next
    case False
    then have "sk_splits K sp st1 = Some (t, st2)" "\<not> z2" using r(2) by auto
    then show ?thesis using L U False by (auto simp: l)
  qed
qed simp

lemma walk_follow:
  "walk_layers (probe K) (layer_general (probe K) p0 p1 q0 q1) ls point (st, z) = Some (pt, st', z')
    \<Longrightarrow> (z \<longrightarrow> z') \<and> (\<not> z \<longrightarrow> walk_layers K (layer_general K p0 p1 q0 q1) ls point st = (if z' then None else Some (pt, st')))"
proof (induction ls arbitrary: point st z)
  case Nil
  obtain rs sp st1 z1 t where r: "layer_general (probe K) p0 p1 q0 q1 point (st, z) = Some (rs, sp, st1, z1)"
    "probed (sk_splits K sp) (st1, z1) = Some (t, st', z')" "pt = t # rs"
    using Nil by (auto simp: bind_eq_Some_conv)
  note L = layer_follow [OF r(1)]
  show ?case
  proof (cases z1)
    case True
    then show ?thesis using L r(2) by auto
  next
    case False
    then have "sk_splits K sp st1 = Some (t, st')" "\<not> z'" using r(2) by auto
    then show ?thesis using L False r(3) by auto
  qed
next
  case (Cons l ls)
  obtain p q where l: "l = (p, q)" by (cases l)
  obtain rs sp st1 z1 t st2 z2 where r: "layer_general (probe K) (evens p) (odds p) (evens q) (odds q) point (st, z) = Some (rs, sp, st1, z1)"
    "probed (sk_splits K sp) (st1, z1) = Some (t, st2, z2)"
    "walk_layers (probe K) (layer_general (probe K) p0 p1 q0 q1) ls (t # rs) (st2, z2) = Some (pt, st', z')"
    using Cons.prems by (auto simp: l bind_eq_Some_conv)
  note L = layer_follow [OF r(1)] and U = Cons.IH [OF r(3)]
  show ?case
  proof (cases z1)
    case True
    then show ?thesis using L U r(2) by (auto simp: l)
  next
    case False
    then have "sk_splits K sp st1 = Some (t, st2)" "\<not> z2" using r(2) by auto
    then show ?thesis using L U False by (auto simp: l)
  qed
qed

lemma engine_follow:
  assumes "prove_weighted_engine (probe K) lp lq (st, False) = Some (res, st', z)"
  shows "prove_weighted_engine K lp lq st = (if z then None else Some (res, st'))"
proof -
  obtain tree rp rq st0 pt where r: "build_weighted_tree lp lq = Some tree" "get (ft_p tree ! 0) 0 = Some rp" "get (ft_q tree ! 0) 0 = Some rq"
    "sk_root K rp rq st = Some st0" "res = (rp, rq, pt)"
    "walk_layers (probe K) (layer_general (probe K) (evens lp) (odds lp) (evens lq) (odds lq)) (zip (tl (ft_p tree)) (tl (ft_q tree))) [] (st0, False)
      = Some (pt, st', z)"
    using assms by (auto simp: prove_weighted_engine_def run_tree_def bind_eq_Some_conv)
  then show ?thesis using walk_follow [OF r(6)] by (auto simp: prove_weighted_engine_def run_tree_def)
qed

end

text \<open>A sink that follows the claims at nonzero coordinates: its probe follows them everywhere.\<close>

locale claim_sink = zero_panics K
  for K :: "'s sink" +
  fixes at_layer :: "nat list \<Rightarrow> fp2 list \<Rightarrow> fp2 \<Rightarrow> fp2 \<Rightarrow> 's \<Rightarrow> bool"
    and in_layer :: "nat list \<Rightarrow> fp2 list \<Rightarrow> fp2 list \<Rightarrow> fp2 \<Rightarrow> fp2 \<Rightarrow> fp2 \<Rightarrow> 's \<Rightarrow> bool"
  assumes lambda_step: "at_layer plan point cp cq st
      \<Longrightarrow> \<exists>lam st'. sk_lambda K st = Some (lam, st') \<and> in_layer plan point [] lam (lam * cp + cq) 1 st'"
    and round_step: "in_layer (2 # plan) (x # xs) rs lam claim cpref st \<Longrightarrow> x \<noteq> 0
      \<Longrightarrow> \<exists>r st'. sk_round K h x st = Some (r, st')
        \<and> in_layer plan xs (rs @ [r]) lam (reduce_round x h claim r) (cpref * eq_factor x r) st'"
    and splits_step: "in_layer (4 # 3 # plan) [] rs lam claim cpref st \<Longrightarrow> claim = cpref * layer_val lam a b c d
      \<Longrightarrow> \<exists>t st'. sk_splits K (a, b, c, d) st = Some (t, st')
        \<and> at_layer plan (t # rs) (a + t * (b - a)) (c + t * (d - c)) st'"

sublocale claim_sink \<subseteq> on_probe: layer_sink "probe K" "\<lambda>plan point cp cq (st, z). z \<or> at_layer plan point cp cq st"
  "\<lambda>plan xs rs lam claim cpref (st, z). z \<or> in_layer plan xs rs lam claim cpref st"
proof unfold_locales
  fix plan point cp cq and s :: "'s \<times> bool"
  assume a: "case s of (st, z) \<Rightarrow> z \<or> at_layer plan point cp cq st"
  show "\<exists>lam s'. sk_lambda (probe K) s = Some (lam, s') \<and> (case s' of (st, z) \<Rightarrow> z \<or> in_layer plan point [] lam (lam * cp + cq) 1 st)"
  proof (cases "snd s")
    case False
    then show ?thesis using lambda_step [of plan point cp cq "fst s"] a by (cases s) auto
  qed (cases s; auto)
next
  fix plan x xs rs lam claim cpref h and s :: "'s \<times> bool"
  assume a: "case s of (st, z) \<Rightarrow> z \<or> in_layer (2 # plan) (x # xs) rs lam claim cpref st" "x \<noteq> 0"
  show "\<exists>r s'. sk_round (probe K) h x s = Some (r, s')
      \<and> (case s' of (st, z) \<Rightarrow> z \<or> in_layer plan xs (rs @ [r]) lam (reduce_round x h claim r) (cpref * eq_factor x r) st)"
  proof (cases "snd s")
    case False
    then show ?thesis using round_step [of plan x xs rs lam claim cpref "fst s" h] a by (cases s) auto
  qed (cases s; auto)
next
  fix plan xs rs lam claim cpref h and s :: "'s \<times> bool"
  show "\<exists>r s'. sk_round (probe K) h 0 s = Some (r, s')
      \<and> (\<forall>claim' cpref'. case s' of (st, z) \<Rightarrow> z \<or> in_layer plan xs (rs @ [r]) lam claim' cpref' st)"
    by (cases s) auto
next
  fix plan rs lam claim cpref a b c d and s :: "'s \<times> bool"
  assume a: "case s of (st, z) \<Rightarrow> z \<or> in_layer (4 # 3 # plan) [] rs lam claim cpref st" "claim = cpref * layer_val lam a b c d"
  show "\<exists>t s'. sk_splits (probe K) (a, b, c, d) s = Some (t, s')
      \<and> (case s' of (st, z) \<Rightarrow> z \<or> at_layer plan (t # rs) (a + t * (b - a)) (c + t * (d - c)) st)"
  proof (cases "snd s")
    case False
    then show ?thesis using splits_step [of plan rs lam claim cpref "fst s" a b c d] a by (cases s) auto
  qed (cases s; auto)
qed

context claim_sink
begin

text \<open>The sink panics exactly when a round is asked at a zero coordinate.\<close>

lemma tree_outcome:
  assumes "length lp = 2 ^ Suc k" "length lq = length lp" "frac_root lp lq = (rp, rq)"
    and "sk_root K rp rq st = Some st0" "at_layer (tree_plan 0 k @ plan) [] rp rq st0"
  shows "\<exists>pt st' z. prove_weighted_engine (probe K) lp lq (st, False) = Some ((rp, rq, pt), st', z)
    \<and> prove_weighted_engine K lp lq st = (if z then None else Some ((rp, rq, pt), st'))
    \<and> length pt = Suc k \<and> (z \<or> at_layer plan pt (mle_at lp pt) (mle_at lq pt) st')"
proof -
  have "\<exists>s. sk_root (probe K) a b (st, False) = Some s \<and> (case s of (st, z) \<Rightarrow> z \<or> at_layer (tree_plan 0 k @ plan) [] a b st)"
    if "frac_root lp lq = (a, b)" for a b
    using assms(3-5) that by simp
  from on_probe.tree_run [OF assms(1,2) this] obtain pt st' z where
    r: "prove_weighted_engine (probe K) lp lq (st, False) = Some ((rp, rq, pt), st', z)" "length pt = Suc k"
      "z \<or> at_layer plan pt (mle_at lp pt) (mle_at lq pt) st'"
    unfolding assms(3) by auto
  then show ?thesis using engine_follow [OF r(1)] by blast
qed

lemma upper_outcome:
  assumes "tree_chain (P, Q) (ls @ [(lp, lq)])" "length P = 2 ^ length point"
    and "at_layer (upper_plan (length point) (length ls) @ plan) point (mle_at P point) (mle_at Q point) st"
  shows "\<exists>pt st' z P' Q'. upper_layers (probe K) ls point (st, False) = Some (pt, st', z)
    \<and> upper_layers K ls point st = (if z then None else Some (pt, st')) \<and> length pt = length point + length ls
    \<and> combine_layer lp lq = (P', Q') \<and> (z \<or> at_layer plan pt (mle_at P' pt) (mle_at Q' pt) st')"
proof -
  have "case (st, False) of (st, z) \<Rightarrow> z \<or> at_layer (upper_plan (length point) (length ls) @ plan) point (mle_at P point) (mle_at Q point) st"
    using assms(3) by simp
  from on_probe.upper_run [OF assms(1,2) this] obtain pt st' z P' Q' where
    r: "upper_layers (probe K) ls point (st, False) = Some (pt, st', z)" "length pt = length point + length ls"
      "combine_layer lp lq = (P', Q')" "z \<or> at_layer plan pt (mle_at P' pt) (mle_at Q' pt) st'"
    by auto
  then show ?thesis using upper_follow [OF r(1)] by blast
qed

end

end
