(* ===== verification/Logup_Blind.thy ===== *)
theory Logup_Blind
  imports Logup_Lookup Hadamard
begin

text \<open>
  The blind fraction-tree argument of \<^verbatim>\<open>volta-proto/src/logup.rs\<close> on the CPU and the blind lookup on two trees. The blind
  sink transfers every value of the engine as a correction against fresh full-field masks and follows the claims
  on authenticated values; the verifier follows on keys. Product triples and zero rows are left to the caller's
  batches, and two evaluation claims stay open. The variant with auxiliary columns at the leaf layer is in \<^verbatim>\<open>Logup_Aux\<close>; the
  proofs here have no auxiliary part, and this verifier does not look at it. The C6 plaintext sidecar is off and debug assertions are not compiled.
\<close>

section \<open>Data\<close>

record blind_layer =
  bl_round_corrs :: "(fp2 \<times> fp2) list"
  bl_split_corrs :: "fp2 \<times> fp2 \<times> fp2 \<times> fp2"
  bl_z_corrs :: "fp2 \<times> fp2 \<times> fp2"

record blind_aux_part =
  ba_rounds3 :: "(fp2 \<times> fp2 \<times> fp2) list"
  ba_col_corrs :: "(fp2 \<times> fp2) list"

record blind_frac_proof =
  bf_root_corrs :: "fp2 \<times> fp2"
  bf_layers :: "blind_layer list"
  bf_aux :: "blind_aux_part option"

definition blind_frac_bytes :: "blind_frac_proof \<Rightarrow> u64" where
  "blind_frac_bytes pf = 32 + sum_list (map (\<lambda>l. 16 * (2 * word_of_nat (length (bl_round_corrs l)) + 7)) (bf_layers pf))
     + (case bf_aux pf of
          None \<Rightarrow> 0
        | Some a \<Rightarrow> 16 * (3 * word_of_nat (length (ba_rounds3 a)) + 2 * word_of_nat (length (ba_col_corrs a))))"

record open_claim =
  oc_point :: "fp2 list"
  oc_value :: prover_authed

record open_key =
  ok_point :: "fp2 list"
  ok_key :: verifier_key

type_synonym prod_triples = "(prover_authed \<times> prover_authed \<times> prover_authed) list"
type_synonym prod_key_triples = "(verifier_key \<times> verifier_key \<times> verifier_key) list"

section \<open>The blind sink\<close>

record blind_state =
  bs_stream :: correlation_stream
  bs_tx :: transcript
  bs_doms :: doms
  bs_prod :: prod_triples
  bs_zero :: "prover_authed list"
  bs_cp :: prover_authed
  bs_cq :: prover_authed
  bs_claim :: prover_authed
  bs_lambda :: fp2
  bs_cpref :: fp2
  bs_root_corrs :: "fp2 \<times> fp2"
  bs_rounds_cur :: "(fp2 \<times> fp2) list"
  bs_layers :: "blind_layer list"
  bs_roots :: "prover_authed \<times> prover_authed"
  bs_rounds3_cur :: "(fp2 \<times> fp2 \<times> fp2) list"
  bs_col_corrs :: "(fp2 \<times> fp2) list"
  bs_aux_col_claims :: "prover_authed list"

definition new_blind_sink ::
  "correlation_stream \<Rightarrow> transcript \<Rightarrow> doms \<Rightarrow> prod_triples \<Rightarrow> prover_authed list \<Rightarrow> blind_state" where
  "new_blind_sink s tx dm prods zeros =
     \<lparr>bs_stream = s, bs_tx = tx, bs_doms = dm, bs_prod = prods, bs_zero = zeros,
      bs_cp = prover_zero, bs_cq = prover_zero, bs_claim = prover_zero, bs_lambda = 0, bs_cpref = 1,
      bs_root_corrs = (0, 0), bs_rounds_cur = [], bs_layers = [], bs_roots = (prover_zero, prover_zero),
      bs_rounds3_cur = [], bs_col_corrs = [], bs_aux_col_claims = []\<rparr>"

text \<open>Every transfer takes the next domain and draws its masks.\<close>

definition take_masks :: "chacha \<Rightarrow> nat \<Rightarrow> doms \<Rightarrow> correlation_stream \<Rightarrow> (full_corr list \<times> doms \<times> correlation_stream) option" where
  "take_masks chacha n dm s =
     do { (dom, dm) \<leftarrow> doms_take 1 dm;
          (masks, s) \<leftarrow> draw_fulls chacha dom n s;
          Some (masks, dm, s) }"

definition blind_root :: "chacha \<Rightarrow> fp2 \<Rightarrow> fp2 \<Rightarrow> blind_state \<Rightarrow> blind_state option" where
  "blind_root chacha p q st =
     do { (masks, dm, s) \<leftarrow> take_masks chacha 2 (bs_doms st) (bs_stream st);
          m0 \<leftarrow> get masks 0;
          m1 \<leftarrow> get masks 1;
          let c0 = p - fc_x m0;
          let c1 = q - fc_x m1;
          tx \<leftarrow> append_fp2s ''logup_root_corrections'' [c0, c1] (bs_tx st);
          let rp = full_authenticate m0 p;
          let rq = full_authenticate m1 q;
          Some (st\<lparr>bs_stream := s, bs_doms := dm, bs_tx := tx, bs_root_corrs := (c0, c1), bs_roots := (rp, rq), bs_cp := rp, bs_cq := rq\<rparr>) }"

definition blind_lambda :: "blake3 \<Rightarrow> blind_state \<Rightarrow> (fp2 \<times> blind_state) option" where
  "blind_lambda H st =
     do { (l, tx) \<leftarrow> challenge_fp2 H (bs_tx st);
          Some (l, st\<lparr>bs_tx := tx, bs_lambda := l, bs_claim := prover_add (prover_scale (bs_cp st) l) (bs_cq st), bs_cpref := 1\<rparr>) }"

text \<open>The claim after a round, with \<open>h(1)\<close> derived from the claim before it, on values and on keys.\<close>

definition logup_claim ::
  "('a \<Rightarrow> 'a \<Rightarrow> 'a) \<Rightarrow> ('a \<Rightarrow> 'a \<Rightarrow> 'a) \<Rightarrow> ('a \<Rightarrow> fp2 \<Rightarrow> 'a) \<Rightarrow> fp2 \<Rightarrow> fp2 \<Rightarrow> 'a \<Rightarrow> 'a \<Rightarrow> 'a \<Rightarrow> fp2 \<Rightarrow> 'a" where
  "logup_claim add sub scale ptj ptj_inv claim h0 h2 r =
     (let ell0 = 1 - ptj;
          h1 = scale (sub claim (scale h0 ell0)) ptj_inv;
          w = lagrange3 r;
          ell_r = ell0 + (ptj + ptj - 1) * r
      in scale (add (add (scale h0 (w ! 0)) (scale h1 (w ! 1))) (scale h2 (w ! 2))) ell_r)"

definition blind_round :: "blake3 \<Rightarrow> chacha \<Rightarrow> fp2 \<times> fp2 \<Rightarrow> fp2 \<Rightarrow> blind_state \<Rightarrow> (fp2 \<times> blind_state) option" where
  "blind_round H chacha h ptj st =
     do { (masks, dm, s) \<leftarrow> take_masks chacha 2 (bs_doms st) (bs_stream st);
          m0 \<leftarrow> get masks 0;
          m1 \<leftarrow> get masks 1;
          let c0 = fst h - fc_x m0;
          let c1 = snd h - fc_x m1;
          tx \<leftarrow> append_fp2s ''logup_round_corrections'' [c0, c1] (bs_tx st);
          let h0 = full_authenticate m0 (fst h);
          let h2 = full_authenticate m1 (snd h);
          (r, tx) \<leftarrow> challenge_fp2 H tx;
          ptj_inv \<leftarrow> fp2_inv ptj;
          Some (r, st\<lparr>bs_stream := s, bs_doms := dm, bs_tx := tx, bs_rounds_cur := bs_rounds_cur st @ [(c0, c1)],
            bs_claim := logup_claim prover_add prover_sub prover_scale ptj ptj_inv (bs_claim st) h0 h2 r,
            bs_cpref := bs_cpref st * eq_factor ptj r\<rparr>) }"

text \<open>The end of a layer: three products of the split claims, and the relation they satisfy with the running claim.\<close>

definition layer_row ::
  "('a \<Rightarrow> 'a \<Rightarrow> 'a) \<Rightarrow> ('a \<Rightarrow> 'a \<Rightarrow> 'a) \<Rightarrow> ('a \<Rightarrow> fp2 \<Rightarrow> 'a) \<Rightarrow> fp2 \<Rightarrow> fp2 \<Rightarrow> 'a \<Rightarrow> 'a \<Rightarrow> 'a \<Rightarrow> 'a \<Rightarrow> 'a" where
  "layer_row add sub scale lam cpref z0 z1 z2 claim = sub (add (scale (add z0 z1) (lam * cpref)) (scale z2 cpref)) claim"

definition child_claim :: "('a \<Rightarrow> 'a \<Rightarrow> 'a) \<Rightarrow> ('a \<Rightarrow> 'a \<Rightarrow> 'a) \<Rightarrow> ('a \<Rightarrow> fp2 \<Rightarrow> 'a) \<Rightarrow> fp2 \<Rightarrow> 'a \<Rightarrow> 'a \<Rightarrow> 'a" where
  "child_claim add sub scale t a b = add a (scale (sub b a) t)"

definition blind_splits ::
  "blake3 \<Rightarrow> chacha \<Rightarrow> fp2 \<times> fp2 \<times> fp2 \<times> fp2 \<Rightarrow> blind_state \<Rightarrow> (fp2 \<times> blind_state) option" where
  "blind_splits H chacha sp st =
     (case sp of (s0, s1, s2, s3) \<Rightarrow>
      do { (masks, dm, s) \<leftarrow> take_masks chacha 4 (bs_doms st) (bs_stream st);
           m0 \<leftarrow> get masks 0; m1 \<leftarrow> get masks 1; m2 \<leftarrow> get masks 2; m3 \<leftarrow> get masks 3;
           let (c0, c1, c2, c3) = (s0 - fc_x m0, s1 - fc_x m1, s2 - fc_x m2, s3 - fc_x m3);
           tx \<leftarrow> append_fp2s ''logup_split_corrections'' [c0, c1, c2, c3] (bs_tx st);
           let p0 = full_authenticate m0 s0;
           let p1 = full_authenticate m1 s1;
           let q0 = full_authenticate m2 s2;
           let q1 = full_authenticate m3 s3;
           let (x0, x1, x2) = (s0 * s3, s1 * s2, s2 * s3);
           (zmasks, dm, s) \<leftarrow> take_masks chacha 3 dm s;
           n0 \<leftarrow> get zmasks 0; n1 \<leftarrow> get zmasks 1; n2 \<leftarrow> get zmasks 2;
           let (d0, d1, d2) = (x0 - fc_x n0, x1 - fc_x n1, x2 - fc_x n2);
           tx \<leftarrow> append_fp2s ''logup_prod_corrections'' [d0, d1, d2] tx;
           let z0 = full_authenticate n0 x0;
           let z1 = full_authenticate n1 x1;
           let z2 = full_authenticate n2 x2;
           let row = layer_row prover_add prover_sub prover_scale (bs_lambda st) (bs_cpref st) z0 z1 z2 (bs_claim st);
           (t, tx) \<leftarrow> challenge_fp2 H tx;
           Some (t, st\<lparr>bs_stream := s, bs_doms := dm, bs_tx := tx,
             bs_prod := bs_prod st @ [(p0, q1, z0), (p1, q0, z1), (q0, q1, z2)],
             bs_zero := bs_zero st @ [row],
             bs_cp := child_claim prover_add prover_sub prover_scale t p0 p1,
             bs_cq := child_claim prover_add prover_sub prover_scale t q0 q1,
             bs_layers := bs_layers st @ [\<lparr>bl_round_corrs = bs_rounds_cur st, bl_split_corrs = (c0, c1, c2, c3), bl_z_corrs = (d0, d1, d2)\<rparr>],
             bs_rounds_cur := []\<rparr>) })"

definition blind_sink :: "blake3 \<Rightarrow> chacha \<Rightarrow> blind_state sink" where
  "blind_sink H chacha =
     \<lparr>sk_root = blind_root chacha, sk_lambda = blind_lambda H, sk_round = blind_round H chacha, sk_splits = blind_splits H chacha\<rparr>"

text \<open>The proof, the point, the leaf claims and the roots, with the state of the borrowed parts.\<close>

definition sink_result :: "(fp2 \<times> fp2 \<times> fp2 list) \<times> blind_state
   \<Rightarrow> (blind_frac_proof \<times> fp2 list \<times> prover_authed \<times> prover_authed \<times> prover_authed \<times> prover_authed) \<times> blind_state" where
  "sink_result res =
     (case res of ((_, _, point), st) \<Rightarrow>
        ((\<lparr>bf_root_corrs = bs_root_corrs st, bf_layers = bs_layers st, bf_aux = None\<rparr>, point, bs_cp st, bs_cq st, bs_roots st), st))"

definition blind_prove_frac_tree ::
  "blake3 \<Rightarrow> chacha \<Rightarrow> leaf_p \<Rightarrow> leaf_q \<Rightarrow> correlation_stream \<Rightarrow> doms \<Rightarrow> transcript \<Rightarrow> prod_triples \<Rightarrow> prover_authed list
   \<Rightarrow> ((blind_frac_proof \<times> fp2 list \<times> prover_authed \<times> prover_authed \<times> prover_authed \<times> prover_authed) \<times> blind_state) option" where
  "blind_prove_frac_tree H chacha lp lq s dm tx prods zeros =
     map_option sink_result (prove_engine (blind_sink H chacha) lp lq (new_blind_sink s tx dm prods zeros))"

definition blind_prove_weighted_frac_tree ::
  "blake3 \<Rightarrow> chacha \<Rightarrow> fp2 list \<Rightarrow> fp2 list \<Rightarrow> correlation_stream \<Rightarrow> doms \<Rightarrow> transcript \<Rightarrow> prod_triples \<Rightarrow> prover_authed list
   \<Rightarrow> ((blind_frac_proof \<times> fp2 list \<times> prover_authed \<times> prover_authed \<times> prover_authed \<times> prover_authed) \<times> blind_state) option" where
  "blind_prove_weighted_frac_tree H chacha lp lq s dm tx prods zeros =
     map_option sink_result (prove_weighted_engine (blind_sink H chacha) lp lq (new_blind_sink s tx dm prods zeros))"

section \<open>The blind verifier\<close>

text \<open>The verifier's side of a transfer.\<close>

definition take_keys :: "chacha \<Rightarrow> fp2 list \<Rightarrow> doms \<Rightarrow> verifier_ctx \<Rightarrow> (verifier_key list \<times> doms \<times> verifier_ctx) option" where
  "take_keys chacha corrs dm v =
     do { (dom, dm) \<leftarrow> doms_take 1 dm;
          (keys, v) \<leftarrow> correct_full_verifier_keys chacha dom corrs v;
          Some (keys, dm, v) }"

text \<open>The parts that the verifier borrows.\<close>

record verifier_side =
  vs_ctx :: verifier_ctx
  vs_doms :: doms
  vs_tx :: transcript
  vs_kprod :: prod_key_triples
  vs_kzero :: "verifier_key list"

text \<open>The corrections of a round are absorbed before a zero coordinate is refused.\<close>

fun blind_verify_rounds ::
  "blake3 \<Rightarrow> chacha \<Rightarrow> fp2 list \<Rightarrow> (fp2 \<times> fp2) list \<Rightarrow> verifier_key \<Rightarrow> fp2 \<Rightarrow> verifier_side
   \<Rightarrow> ((verifier_key \<times> fp2 \<times> fp2 list) option \<times> verifier_side) option" where
  "blind_verify_rounds H chacha point [] kclaim cpref vs = Some (Some (kclaim, cpref, []), vs)"
| "blind_verify_rounds H chacha point ((c0, c1) # corrs) kclaim cpref vs =
     do { (kms, dm, v) \<leftarrow> take_keys chacha [c0, c1] (vs_doms vs) (vs_ctx vs);
          tx \<leftarrow> append_fp2s ''logup_round_corrections'' [c0, c1] (vs_tx vs);
          kh0 \<leftarrow> get kms 0;
          kh2 \<leftarrow> get kms 1;
          ptj \<leftarrow> get point 0;
          case fp2_inv ptj of
            None \<Rightarrow> Some (None, vs\<lparr>vs_ctx := v, vs_doms := dm, vs_tx := tx\<rparr>)
          | Some ptj_inv \<Rightarrow>
              do { (r, tx) \<leftarrow> challenge_fp2 H tx;
                   (res, vs) \<leftarrow> blind_verify_rounds H chacha (tl point) corrs
                      (logup_claim key_add key_sub key_scale ptj ptj_inv kclaim kh0 kh2 r)
                      (cpref * eq_factor ptj r) (vs\<lparr>vs_ctx := v, vs_doms := dm, vs_tx := tx\<rparr>);
                   Some (map_option (\<lambda>(kclaim, cpref, rs). (kclaim, cpref, r # rs)) res, vs) } }"

text \<open>The end of a layer, after its rounds.\<close>

definition blind_verify_end ::
  "blake3 \<Rightarrow> chacha \<Rightarrow> fp2 \<Rightarrow> blind_layer \<Rightarrow> verifier_key \<Rightarrow> fp2 \<Rightarrow> verifier_side
   \<Rightarrow> (fp2 \<times> verifier_key \<times> verifier_key \<times> verifier_side) option" where
  "blind_verify_end H chacha lam layer kclaim cpref vs =
     (case (bl_split_corrs layer, bl_z_corrs layer) of ((c0, c1, c2, c3), (d0, d1, d2)) \<Rightarrow>
      do { (ksp, dm, v) \<leftarrow> take_keys chacha [c0, c1, c2, c3] (vs_doms vs) (vs_ctx vs);
           tx \<leftarrow> append_fp2s ''logup_split_corrections'' [c0, c1, c2, c3] (vs_tx vs);
           (kz, dm, v) \<leftarrow> take_keys chacha [d0, d1, d2] dm v;
           tx \<leftarrow> append_fp2s ''logup_prod_corrections'' [d0, d1, d2] tx;
           k0 \<leftarrow> get ksp 0; k1 \<leftarrow> get ksp 1; k2 \<leftarrow> get ksp 2; k3 \<leftarrow> get ksp 3;
           z0 \<leftarrow> get kz 0; z1 \<leftarrow> get kz 1; z2 \<leftarrow> get kz 2;
           (t, tx) \<leftarrow> challenge_fp2 H tx;
           Some (t, child_claim key_add key_sub key_scale t k0 k1, child_claim key_add key_sub key_scale t k2 k3,
             vs\<lparr>vs_ctx := v, vs_doms := dm, vs_tx := tx,
                vs_kprod := vs_kprod vs @ [(k0, k3, z0), (k1, k2, z1), (k2, k3, z2)],
                vs_kzero := vs_kzero vs @ [layer_row key_add key_sub key_scale lam cpref z0 z1 z2 kclaim]\<rparr>) })"

fun blind_verify_layers ::
  "blake3 \<Rightarrow> chacha \<Rightarrow> blind_layer list \<Rightarrow> nat \<Rightarrow> fp2 list \<Rightarrow> verifier_key \<Rightarrow> verifier_key \<Rightarrow> verifier_side
   \<Rightarrow> ((fp2 list \<times> verifier_key \<times> verifier_key) option \<times> verifier_side) option" where
  "blind_verify_layers H chacha [] l point kcp kcq vs = Some (Some (point, kcp, kcq), vs)"
| "blind_verify_layers H chacha (layer # layers) l point kcp kcq vs =
     (if length (bl_round_corrs layer) \<noteq> l then Some (None, vs)
      else do { (lam, tx) \<leftarrow> challenge_fp2 H (vs_tx vs);
                (res, vs) \<leftarrow> blind_verify_rounds H chacha point (bl_round_corrs layer) (key_add (key_scale kcp lam) kcq) 1 (vs\<lparr>vs_tx := tx\<rparr>);
                (case res of
                   None \<Rightarrow> Some (None, vs)
                 | Some (kclaim, cpref, rs) \<Rightarrow>
                     do { (t, kcp, kcq, vs) \<leftarrow> blind_verify_end H chacha lam layer kclaim cpref vs;
                          blind_verify_layers H chacha layers (Suc l) (t # rs) kcp kcq vs }) })"

definition blind_verify_frac_tree ::
  "blake3 \<Rightarrow> chacha \<Rightarrow> nat \<Rightarrow> blind_frac_proof \<Rightarrow> verifier_side
   \<Rightarrow> ((fp2 list \<times> verifier_key \<times> verifier_key \<times> verifier_key \<times> verifier_key) option \<times> verifier_side) option" where
  "blind_verify_frac_tree H chacha depth pf vs =
     (if length (bf_layers pf) \<noteq> depth then Some (None, vs)
      else (case bf_root_corrs pf of (c0, c1) \<Rightarrow>
        do { (ks, dm, v) \<leftarrow> take_keys chacha [c0, c1] (vs_doms vs) (vs_ctx vs);
             tx \<leftarrow> append_fp2s ''logup_root_corrections'' [c0, c1] (vs_tx vs);
             krp \<leftarrow> get ks 0;
             krq \<leftarrow> get ks 1;
             (res, vs) \<leftarrow> blind_verify_layers H chacha (bf_layers pf) 0 [] krp krq (vs\<lparr>vs_ctx := v, vs_doms := dm, vs_tx := tx\<rparr>);
             Some (map_option (\<lambda>(point, kcp, kcq). (point, kcp, kcq, krp, krq)) res, vs) }))"

section \<open>The blind lookup\<close>

definition cross_prover ::
  "chacha \<Rightarrow> prover_authed \<times> prover_authed \<Rightarrow> prover_authed \<times> prover_authed \<Rightarrow> blind_state
   \<Rightarrow> ((fp2 \<times> fp2 \<times> fp2 \<times> fp2) \<times> blind_state) option" where
  "cross_prover chacha roots_f roots_t st =
     (case (roots_f, roots_t) of ((pf, qf), (pt, qt)) \<Rightarrow>
      do { let x0 = pa_x pf * pa_x qt;
           let x1 = pa_x pt * pa_x qf;
           x2 \<leftarrow> fp2_inv (pa_x qf);
           x3 \<leftarrow> fp2_inv (pa_x qt);
           (masks, dm, s) \<leftarrow> take_masks chacha 4 (bs_doms st) (bs_stream st);
           m0 \<leftarrow> get masks 0; m1 \<leftarrow> get masks 1; m2 \<leftarrow> get masks 2; m3 \<leftarrow> get masks 3;
           let (c0, c1, c2, c3) = (x0 - fc_x m0, x1 - fc_x m1, x2 - fc_x m2, x3 - fc_x m3);
           tx \<leftarrow> append_fp2s ''logup_cross_corrections'' [c0, c1, c2, c3] (bs_tx st);
           let za = full_authenticate m0 x0;
           let zb = full_authenticate m1 x1;
           let inv_f = full_authenticate m2 x2;
           let inv_t = full_authenticate m3 x3;
           Some ((c0, c1, c2, c3), st\<lparr>bs_stream := s, bs_doms := dm, bs_tx := tx,
             bs_prod := bs_prod st @ [(pf, qt, za), (pt, qf, zb), (qf, inv_f, prover_from_public 1), (qt, inv_t, prover_from_public 1)],
             bs_zero := bs_zero st @ [prover_add za zb]\<rparr>) })"

definition cross_verifier ::
  "chacha \<Rightarrow> verifier_key \<times> verifier_key \<Rightarrow> verifier_key \<times> verifier_key \<Rightarrow> fp2 \<times> fp2 \<times> fp2 \<times> fp2 \<Rightarrow> verifier_side
   \<Rightarrow> verifier_side option" where
  "cross_verifier chacha kroots_f kroots_t corrs vs =
     (case (kroots_f, kroots_t, corrs) of ((kpf, kqf), (kpt, kqt), (c0, c1, c2, c3)) \<Rightarrow>
      do { tx \<leftarrow> append_fp2s ''logup_cross_corrections'' [c0, c1, c2, c3] (vs_tx vs);
           (kz, dm, v) \<leftarrow> take_keys chacha [c0, c1, c2, c3] (vs_doms vs) (vs_ctx vs);
           k0 \<leftarrow> get kz 0; k1 \<leftarrow> get kz 1; k2 \<leftarrow> get kz 2; k3 \<leftarrow> get kz 3;
           let one_f = key_from_public 1 (vc_delta v);
           let one_t = key_from_public 1 (vc_delta v);
           Some (vs\<lparr>vs_ctx := v, vs_doms := dm, vs_tx := tx,
             vs_kprod := vs_kprod vs @ [(kpf, kqt, k0), (kpt, kqf, k1), (kqf, k2, one_f), (kqt, k3, one_t)],
             vs_kzero := vs_kzero vs @ [key_add k0 k1]\<rparr>) })"

record blind_logup_proof =
  bg_lookup :: blind_frac_proof
  bg_table :: blind_frac_proof
  bg_cross_corrs :: "fp2 \<times> fp2 \<times> fp2 \<times> fp2"

definition blind_logup_bytes :: "blind_logup_proof \<Rightarrow> u64" where
  "blind_logup_bytes pf = blind_frac_bytes (bg_lookup pf) + blind_frac_bytes (bg_table pf) + 64"

text \<open>The borrowed parts of the prover are those of the sink between two trees.\<close>

definition blind_logup_prove ::
  "blake3 \<Rightarrow> chacha \<Rightarrow> i16 list \<Rightarrow> i16 list \<Rightarrow> u32 list \<Rightarrow> correlation_stream \<Rightarrow> doms \<Rightarrow> transcript \<Rightarrow> prod_triples \<Rightarrow> prover_authed list
   \<Rightarrow> ((blind_logup_proof \<times> fp2 \<times> open_claim \<times> open_claim)
       \<times> correlation_stream \<times> doms \<times> transcript \<times> prod_triples \<times> prover_authed list) option" where
  "blind_logup_prove H chacha f table mult s dm tx prods zeros =
     do { (alpha, tx) \<leftarrow> challenge_fp2 H tx;
          ((pf_proof, pt_f, cp_f, cq_f, roots_f), st) \<leftarrow>
            blind_prove_frac_tree H chacha Ones (lift_q f alpha) s dm tx prods zeros;
          ((pt_proof, pt_t, cp_t, cq_t, roots_t), st) \<leftarrow>
            blind_prove_frac_tree H chacha (NegMult mult) (lift_q table alpha) (bs_stream st) (bs_doms st) (bs_tx st) (bs_prod st) (bs_zero st);
          let st = st\<lparr>bs_zero := bs_zero st @ [prover_sub cp_f (prover_from_public 1)]\<rparr>;
          t_eval \<leftarrow> eval_mle_counted (lift_vals alpha table) pt_t;
          let st = st\<lparr>bs_zero := bs_zero st @ [prover_sub cq_t (prover_from_public t_eval)]\<rparr>;
          (cross, st) \<leftarrow> cross_prover chacha roots_f roots_t st;
          Some ((\<lparr>bg_lookup = pf_proof, bg_table = pt_proof, bg_cross_corrs = cross\<rparr>, alpha,
                 \<lparr>oc_point = pt_f, oc_value = prover_sub (prover_from_public alpha) cq_f\<rparr>,
                 \<lparr>oc_point = pt_t, oc_value = prover_sub prover_zero cp_t\<rparr>),
                bs_stream st, bs_doms st, bs_tx st, bs_prod st, bs_zero st) }"

definition blind_logup_verify ::
  "blake3 \<Rightarrow> chacha \<Rightarrow> nat \<Rightarrow> i16 list \<Rightarrow> blind_logup_proof \<Rightarrow> verifier_side \<Rightarrow> ((open_key \<times> open_key) option \<times> verifier_side) option" where
  "blind_logup_verify H chacha n_bits table pf vs =
     do { (alpha, tx) \<leftarrow> challenge_fp2 H (vs_tx vs);
          (res_f, vs) \<leftarrow> blind_verify_frac_tree H chacha n_bits (bg_lookup pf) (vs\<lparr>vs_tx := tx\<rparr>);
          (case res_f of
             None \<Rightarrow> Some (None, vs)
           | Some (pt_f, kcp_f, kcq_f, kroots_f) \<Rightarrow>
               do { (res_t, vs) \<leftarrow> blind_verify_frac_tree H chacha (trailing_zeros (length table)) (bg_table pf) vs;
                    (case res_t of
                       None \<Rightarrow> Some (None, vs)
                     | Some (pt_t, kcp_t, kcq_t, kroots_t) \<Rightarrow>
                         do { t_eval \<leftarrow> eval_mle (lift_vals alpha table) pt_t;
                              let d = vc_delta (vs_ctx vs);
                              vs \<leftarrow> cross_verifier chacha kroots_f kroots_t (bg_cross_corrs pf)
                                (vs\<lparr>vs_kzero := vs_kzero vs @ [key_sub kcp_f (key_from_public 1 d), key_sub kcq_t (key_from_public t_eval d)]\<rparr>);
                              Some (Some (\<lparr>ok_point = pt_f, ok_key = key_sub (key_from_public alpha (vc_delta (vs_ctx vs))) kcq_f\<rparr>,
                                          \<lparr>ok_point = pt_t, ok_key = key_sub key_zero kcp_t\<rparr>), vs) }) }) }"

end
