(* ===== verification/Logup_Blind_Complete.thy ===== *)
theory Logup_Blind_Complete
  imports Logup_Blind Logup_Sink
begin

text \<open>
  Completeness of the blind lookup. The blind sink keeps the promises of a sink that follows the claims together with its verifier: the
  two sides stay twins on one transcript, and what they push to the batches are true statements with valid keys. The
  only other outcome is a panic of the prover, when a challenge that became a coordinate of a layer above is zero.
\<close>

section \<open>Transfers\<close>

text \<open>The expander serves transfers of these sizes at consecutive domains.\<close>

fun plan_ok :: "chacha \<Rightarrow> nat list \<Rightarrow> doms \<Rightarrow> correlation_stream \<Rightarrow> bool" where
  "plan_ok chacha [] dm s = True"
| "plan_ok chacha (n # plan) dm s =
     (case take_masks chacha n dm s of None \<Rightarrow> False | Some (masks, dm', s') \<Rightarrow> plan_ok chacha plan dm' s')"

lemma plan_step:
  assumes "plan_ok chacha (n # plan) dm s" "twin s v"
  obtains masks dm' s' where "take_masks chacha n dm s = Some (masks, dm', s')" "plan_ok chacha plan dm' s'" "length masks = n"
    "\<And>xs. length xs = n \<Longrightarrow> \<exists>keys v'. take_keys chacha (map2 (\<lambda>x f. x - fc_x f) xs masks) dm v = Some (keys, dm', v') \<and> twin s' v'
       \<and> vc_delta v' = vc_delta v \<and> length keys = n \<and> (\<forall>i < n. mac_valid (vc_delta v) (full_authenticate (masks ! i) (xs ! i)) (keys ! i))"
proof -
  obtain masks dm' s' where m: "take_masks chacha n dm s = Some (masks, dm', s')" "plan_ok chacha plan dm' s'"
    using assms(1) by (auto split: option.splits)
  then obtain dom where d: "doms_take 1 dm = Some (dom, dm')" "draw_fulls chacha dom n s = Some (masks, s')"
    by (auto simp: take_masks_def bind_eq_Some_conv)
  have k: "\<exists>keys v'. correct_full_verifier_keys chacha dom (map2 (\<lambda>x f. x - fc_x f) xs masks) v = Some (keys, v') \<and> twin s' v'
      \<and> vc_delta v' = vc_delta v \<and> length masks = n \<and> length keys = n
      \<and> (\<forall>i < n. mac_valid (vc_delta v) (full_authenticate (masks ! i) (xs ! i)) (keys ! i))" if "length xs = n" for xs
    using masked_transfer [OF d(2) assms(2)] that by (auto simp: correct_full_verifier_keys_def)
  have "length masks = n" using k [of "replicate n 0"] by auto
  then show thesis using that [OF m] k d(1) by (fastforce simp: take_keys_def)
qed

section \<open>The two sides\<close>

text \<open>What is pushed to the batches: true products and zeros, with valid keys.\<close>

definition batch_ok :: "fp2 \<Rightarrow> prod_triples \<Rightarrow> prover_authed list \<Rightarrow> prod_key_triples \<Rightarrow> verifier_key list \<Rightarrow> bool" where
  "batch_ok delta prods zeros kprods kzeros \<longleftrightarrow>
     list_all2 (\<lambda>(a, b, c) (ka, kb, kc). mac_valid delta a ka \<and> mac_valid delta b kb \<and> mac_valid delta c kc \<and> pa_x c = pa_x a * pa_x b) prods kprods
     \<and> list_all2 (\<lambda>z k. mac_valid delta z k \<and> pa_x z = 0) zeros kzeros"

definition sides_ok :: "chacha \<Rightarrow> fp2 \<Rightarrow> nat list \<Rightarrow> blind_state \<Rightarrow> verifier_side \<Rightarrow> bool" where
  "sides_ok chacha delta plan st vs \<longleftrightarrow>
     is_fiat_shamir (bs_tx st) \<and> vs_tx vs = bs_tx st \<and> vs_doms vs = bs_doms st \<and> twin (bs_stream st) (vs_ctx vs)
     \<and> vc_delta (vs_ctx vs) = delta \<and> batch_ok delta (bs_prod st) (bs_zero st) (vs_kprod vs) (vs_kzero vs)
     \<and> plan_ok chacha plan (bs_doms st) (bs_stream st)"

text \<open>A value that the hash can answer to a challenge.\<close>

definition drawn :: "blake3 \<Rightarrow> fp2 \<Rightarrow> bool" where
  "drawn H r \<longleftrightarrow> (\<exists>tx tx'. is_fiat_shamir tx \<and> challenge_fp2 H tx = Some (r, tx'))"

lemma logup_claim_valid:
  assumes "mac_valid delta claim k" "mac_valid delta h0 k0" "mac_valid delta h2 k2"
  shows "mac_valid delta (logup_claim prover_add prover_sub prover_scale x i claim h0 h2 r) (logup_claim key_add key_sub key_scale x i k k0 k2 r)"
  unfolding logup_claim_def Let_def
  using assms by (intro fp2_mac.valid_add fp2_mac.valid_scale fp2_mac.valid_sub)

lemma logup_claim_value:
  assumes "x \<noteq> 0" "pa_x h0 = fst h" "pa_x h2 = snd h"
  shows "pa_x (logup_claim prover_add prover_sub prover_scale x (inverse x) claim h0 h2 r) = reduce_round x h (pa_x claim) r"
  using assms by (simp add: logup_claim_def reduce_round_def fp2_inv_eq Let_def mult.commute)

lemma layer_row_valid:
  assumes "mac_valid delta z0 k0" "mac_valid delta z1 k1" "mac_valid delta z2 k2" "mac_valid delta claim k"
  shows "mac_valid delta (layer_row prover_add prover_sub prover_scale lam c z0 z1 z2 claim) (layer_row key_add key_sub key_scale lam c k0 k1 k2 k)"
  unfolding layer_row_def using assms by (intro fp2_mac.valid_add fp2_mac.valid_scale fp2_mac.valid_sub)

lemma child_claim_valid:
  assumes "mac_valid delta a ka" "mac_valid delta b kb"
  shows "mac_valid delta (child_claim prover_add prover_sub prover_scale t a b) (child_claim key_add key_sub key_scale t ka kb)"
  unfolding child_claim_def using assms by (intro fp2_mac.valid_add fp2_mac.valid_scale fp2_mac.valid_sub)

lemma child_claim_value: "pa_x (child_claim prover_add prover_sub prover_scale t a b) = pa_x a + t * (pa_x b - pa_x a)"
  by (simp add: child_claim_def mult.commute)

section \<open>The blind sink follows the claims\<close>

text \<open>The parts of the sink that the layers above the leaves do not touch.\<close>

type_synonym sink_frame = "(fp2 \<times> fp2) \<times> (prover_authed \<times> prover_authed) \<times> (fp2 \<times> fp2 \<times> fp2) list \<times> (fp2 \<times> fp2) list"

abbreviation frame_of :: "blind_state \<Rightarrow> sink_frame" where
  "frame_of st \<equiv> (bs_root_corrs st, bs_roots st, bs_rounds3_cur st, bs_col_corrs st)"

definition blind_at :: "blake3 \<Rightarrow> chacha \<Rightarrow> sink_frame \<Rightarrow> verifier_side \<Rightarrow> verifier_key \<Rightarrow> verifier_key \<Rightarrow> fp2
   \<Rightarrow> nat list \<Rightarrow> fp2 list \<Rightarrow> fp2 \<Rightarrow> fp2 \<Rightarrow> blind_state \<Rightarrow> bool" where
  "blind_at H chacha rt vs0 krp krq delta plan point cp cq st \<longleftrightarrow> bs_rounds_cur st = []
     \<and> frame_of st = rt \<and> length (bs_layers st) = length point \<and> pa_x (bs_cp st) = cp \<and> pa_x (bs_cq st) = cq
     \<and> (\<exists>kcp kcq vs. mac_valid delta (bs_cp st) kcp \<and> mac_valid delta (bs_cq st) kcq \<and> sides_ok chacha delta plan st vs
        \<and> (\<forall>layers. blind_verify_layers H chacha (bs_layers st @ layers) 0 [] krp krq vs0
              = blind_verify_layers H chacha layers (length point) point kcp kcq vs))"

lemma blind_at_done:
  assumes "blind_at H chacha rt vs0 krp krq delta plan point cp cq st"
  obtains kcp kcq vs where "mac_valid delta (bs_cp st) kcp" "mac_valid delta (bs_cq st) kcq" "sides_ok chacha delta plan st vs"
    "blind_verify_layers H chacha (bs_layers st) 0 [] krp krq vs0 = Some (Some (point, kcp, kcq), vs)"
    "pa_x (bs_cp st) = cp" "pa_x (bs_cq st) = cq" "frame_of st = rt" "length (bs_layers st) = length point" "bs_rounds_cur st = []"
proof -
  obtain kcp kcq vs where a: "mac_valid delta (bs_cp st) kcp" "mac_valid delta (bs_cq st) kcq" "sides_ok chacha delta plan st vs"
    "\<forall>layers. blind_verify_layers H chacha (bs_layers st @ layers) 0 [] krp krq vs0
              = blind_verify_layers H chacha layers (length point) point kcp kcq vs"
    using assms unfolding blind_at_def by blast
  show thesis using that [OF a(1-3)] a(4) [rule_format, of "[]"] assms by (simp add: blind_at_def)
qed

text \<open>What remains of the verifier when a layer is in its rounds.\<close>

definition verify_rest :: "blake3 \<Rightarrow> chacha \<Rightarrow> fp2 \<Rightarrow> blind_layer \<Rightarrow> blind_layer list \<Rightarrow> fp2 list
   \<Rightarrow> (verifier_key \<times> fp2 \<times> fp2 list) option \<times> verifier_side
   \<Rightarrow> ((fp2 list \<times> verifier_key \<times> verifier_key) option \<times> verifier_side) option" where
  "verify_rest H chacha lam layer layers rs res =
     (case res of
        (None, vs) \<Rightarrow> Some (None, vs)
      | (Some (kclaim, cpref, rs'), vs) \<Rightarrow>
          do { (t, kcp, kcq, vs) \<leftarrow> blind_verify_end H chacha lam layer kclaim cpref vs;
               blind_verify_layers H chacha layers (Suc (length (bl_round_corrs layer))) (t # rs @ rs') kcp kcq vs })"

definition blind_in :: "blake3 \<Rightarrow> chacha \<Rightarrow> sink_frame \<Rightarrow> verifier_side \<Rightarrow> verifier_key \<Rightarrow> verifier_key \<Rightarrow> fp2
   \<Rightarrow> nat list \<Rightarrow> fp2 list \<Rightarrow> fp2 list \<Rightarrow> fp2 \<Rightarrow> fp2 \<Rightarrow> fp2 \<Rightarrow> blind_state \<Rightarrow> bool" where
  "blind_in H chacha rt vs0 krp krq delta plan rest rs lam claim cpref st \<longleftrightarrow> frame_of st = rt \<and> length (bs_layers st) = length rs + length rest \<and> pa_x (bs_claim st) = claim \<and> bs_lambda st = lam \<and> bs_cpref st = cpref \<and> length (bs_rounds_cur st) = length rs
     \<and> (\<exists>kclaim vs. mac_valid delta (bs_claim st) kclaim \<and> sides_ok chacha delta plan st vs
        \<and> (\<forall>layer corrs layers. bl_round_corrs layer = bs_rounds_cur st @ corrs \<and> length corrs = length rest \<longrightarrow>
             blind_verify_layers H chacha (bs_layers st @ layer # layers) 0 [] krp krq vs0
             = blind_verify_rounds H chacha rest corrs kclaim cpref vs \<bind> verify_rest H chacha lam layer layers rs))"

lemma blind_lambda_step:
  assumes "blind_at H chacha rt vs0 krp krq delta plan point cp cq st"
  shows "\<exists>lam st'. sk_lambda (blind_sink H chacha) st = Some (lam, st')
    \<and> blind_in H chacha rt vs0 krp krq delta plan point [] lam (lam * cp + cq) 1 st'"
proof -
  obtain kcp kcq vs where i: "mac_valid delta (bs_cp st) kcp" "mac_valid delta (bs_cq st) kcq" "sides_ok chacha delta plan st vs"
    "\<And>layers. blind_verify_layers H chacha (bs_layers st @ layers) 0 [] krp krq vs0
              = blind_verify_layers H chacha layers (length point) point kcp kcq vs"
    "bs_rounds_cur st = []" "pa_x (bs_cp st) = cp" "pa_x (bs_cq st) = cq"
    and same: "frame_of st = rt" "length (bs_layers st) = length point"
    using assms by (auto simp: blind_at_def)
  then have tx: "is_fiat_shamir (bs_tx st)" "vs_tx vs = bs_tx st" by (simp_all add: sides_ok_def)
  then obtain lam tx where l: "challenge_fp2 H (bs_tx st) = Some (lam, tx)" "is_fiat_shamir tx" using fs_challenge by blast
  let ?st = "st\<lparr>bs_tx := tx, bs_lambda := lam, bs_claim := prover_add (prover_scale (bs_cp st) lam) (bs_cq st), bs_cpref := 1\<rparr>"
  let ?k = "key_add (key_scale kcp lam) kcq"
  have k: "mac_valid delta (bs_claim ?st) ?k" using i(1,2) by (auto intro!: fp2_mac.valid_add fp2_mac.valid_scale)
  have s: "sides_ok chacha delta plan ?st (vs\<lparr>vs_tx := tx\<rparr>)" using i(3) l(2) by (simp add: sides_ok_def)
  have v: "blind_verify_layers H chacha (bs_layers st @ layer # layers) 0 [] krp krq vs0
      = blind_verify_rounds H chacha point corrs ?k 1 (vs\<lparr>vs_tx := tx\<rparr>) \<bind> verify_rest H chacha lam layer layers []"
    if "bl_round_corrs layer = corrs" "length corrs = length point" for layer corrs layers
    using i(4) [of "layer # layers"] l(1) that tx(2)
    by (auto simp: verify_rest_def split: prod.splits option.splits intro!: Option.bind_cong)
  have "blind_in H chacha rt vs0 krp krq delta plan point [] lam (lam * cp + cq) 1 ?st"
    unfolding blind_in_def using k s v i(5-7) same
    by (intro conjI exI [of _ ?k] exI [of _ "vs\<lparr>vs_tx := tx\<rparr>"] allI impI) (auto simp: mult.commute)
  then show ?thesis using l(1) by (simp add: blind_sink_def blind_lambda_def)
qed

lemma sides_facts:
  assumes "sides_ok chacha delta plan st vs"
  shows "is_fiat_shamir (bs_tx st)" "vs_tx vs = bs_tx st" "vs_doms vs = bs_doms st" "twin (bs_stream st) (vs_ctx vs)"
    "vc_delta (vs_ctx vs) = delta" "batch_ok delta (bs_prod st) (bs_zero st) (vs_kprod vs) (vs_kzero vs)"
    "plan_ok chacha plan (bs_doms st) (bs_stream st)"
  using assms by (simp_all add: sides_ok_def)

text \<open>The corrections of two, three and four values.\<close>

lemma masks_two: "length ms = 2 \<Longrightarrow> map2 (\<lambda>x f. x - fc_x f) [a, b] ms = [a - fc_x (ms ! 0), b - fc_x (ms ! 1)]"
  by (auto simp: numeral_2_eq_2 length_Suc_conv)

lemma masks_three: "length ms = 3 \<Longrightarrow> map2 (\<lambda>x f. x - fc_x f) [a, b, c] ms = [a - fc_x (ms ! 0), b - fc_x (ms ! 1), c - fc_x (ms ! 2)]"
  by (auto simp: numeral_3_eq_3 numeral_2_eq_2 length_Suc_conv)

lemma masks_four: "length ms = 4 \<Longrightarrow> map2 (\<lambda>x f. x - fc_x f) [a, b, c, d] ms
    = [a - fc_x (ms ! 0), b - fc_x (ms ! 1), c - fc_x (ms ! 2), d - fc_x (ms ! 3)]"
  by (auto simp: eval_nat_numeral length_Suc_conv)

text \<open>Transfers of given values.\<close>

lemma transfer_values:
  assumes "plan_ok chacha (n # plan) dm s" "twin s v" "vc_delta v = delta" "length xs = n"
  obtains masks dm' s' keys v' where "take_masks chacha n dm s = Some (masks, dm', s')" "plan_ok chacha plan dm' s'" "length masks = n"
    "take_keys chacha (map2 (\<lambda>x f. x - fc_x f) xs masks) dm v = Some (keys, dm', v')" "twin s' v'" "vc_delta v' = delta" "length keys = n"
    "\<And>i. i < n \<Longrightarrow> mac_valid delta (full_authenticate (masks ! i) (xs ! i)) (keys ! i)"
proof -
  obtain masks dm' s' where m: "take_masks chacha n dm s = Some (masks, dm', s')" "plan_ok chacha plan dm' s'" "length masks = n"
    "\<And>xs. length xs = n \<Longrightarrow> \<exists>keys v'. take_keys chacha (map2 (\<lambda>x f. x - fc_x f) xs masks) dm v = Some (keys, dm', v') \<and> twin s' v'
       \<and> vc_delta v' = vc_delta v \<and> length keys = n \<and> (\<forall>i < n. mac_valid (vc_delta v) (full_authenticate (masks ! i) (xs ! i)) (keys ! i))"
    using plan_step [OF assms(1,2)] by blast
  from m(4) [OF assms(4)] show thesis using that [OF m(1-3)] assms(3) by blast
qed

lemma transfer_four:
  assumes "plan_ok chacha (4 # plan) dm s" "twin s v" "vc_delta v = delta"
  obtains masks dm' s' keys v' where "take_masks chacha 4 dm s = Some (masks, dm', s')" "plan_ok chacha plan dm' s'" "length masks = 4"
    "take_keys chacha [a - fc_x (masks ! 0), b - fc_x (masks ! 1), c - fc_x (masks ! 2), d - fc_x (masks ! 3)] dm v = Some (keys, dm', v')"
    "twin s' v'" "vc_delta v' = delta" "length keys = 4"
    "mac_valid delta (full_authenticate (masks ! 0) a) (keys ! 0)" "mac_valid delta (full_authenticate (masks ! 1) b) (keys ! 1)"
    "mac_valid delta (full_authenticate (masks ! 2) c) (keys ! 2)" "mac_valid delta (full_authenticate (masks ! 3) d) (keys ! 3)"
proof -
  have len: "length [a, b, c, d] = 4" by simp
  obtain masks dm' s' keys v' where m:
    "take_masks chacha 4 dm s = Some (masks, dm', s')" "plan_ok chacha plan dm' s'" "length masks = 4"
    "take_keys chacha (map2 (\<lambda>x f. x - fc_x f) [a, b, c, d] masks) dm v = Some (keys, dm', v')" "twin s' v'" "vc_delta v' = delta" "length keys = 4"
    "\<And>i. i < 4 \<Longrightarrow> mac_valid delta (full_authenticate (masks ! i) ([a, b, c, d] ! i)) (keys ! i)"
    using transfer_values [OF assms len] by blast
  show thesis using that [OF m(1-3) _ m(5-7)] m(4) m(8) [of 0] m(8) [of 1] m(8) [of 2] m(8) [of 3] unfolding masks_four [OF m(3)] by simp
qed

lemma transfer_three:
  assumes "plan_ok chacha (3 # plan) dm s" "twin s v" "vc_delta v = delta"
  obtains masks dm' s' keys v' where "take_masks chacha 3 dm s = Some (masks, dm', s')" "plan_ok chacha plan dm' s'" "length masks = 3"
    "take_keys chacha [a - fc_x (masks ! 0), b - fc_x (masks ! 1), c - fc_x (masks ! 2)] dm v = Some (keys, dm', v')"
    "twin s' v'" "vc_delta v' = delta" "length keys = 3"
    "mac_valid delta (full_authenticate (masks ! 0) a) (keys ! 0)" "mac_valid delta (full_authenticate (masks ! 1) b) (keys ! 1)"
    "mac_valid delta (full_authenticate (masks ! 2) c) (keys ! 2)"
proof -
  have len: "length [a, b, c] = 3" by simp
  obtain masks dm' s' keys v' where m:
    "take_masks chacha 3 dm s = Some (masks, dm', s')" "plan_ok chacha plan dm' s'" "length masks = 3"
    "take_keys chacha (map2 (\<lambda>x f. x - fc_x f) [a, b, c] masks) dm v = Some (keys, dm', v')" "twin s' v'" "vc_delta v' = delta" "length keys = 3"
    "\<And>i. i < 3 \<Longrightarrow> mac_valid delta (full_authenticate (masks ! i) ([a, b, c] ! i)) (keys ! i)"
    using transfer_values [OF assms len] by blast
  show thesis using that [OF m(1-3) _ m(5-7)] m(4) m(8) [of 0] m(8) [of 1] m(8) [of 2] unfolding masks_three [OF m(3)] by simp
qed

lemma transfer_two:
  assumes "plan_ok chacha (2 # plan) dm s" "twin s v" "vc_delta v = delta"
  obtains masks dm' s' keys v' where "take_masks chacha 2 dm s = Some (masks, dm', s')" "plan_ok chacha plan dm' s'" "length masks = 2"
    "take_keys chacha [a - fc_x (masks ! 0), b - fc_x (masks ! 1)] dm v = Some (keys, dm', v')"
    "twin s' v'" "vc_delta v' = delta" "length keys = 2"
    "mac_valid delta (full_authenticate (masks ! 0) a) (keys ! 0)" "mac_valid delta (full_authenticate (masks ! 1) b) (keys ! 1)"
proof -
  have len: "length [a, b] = 2" by simp
  obtain masks dm' s' keys v' where m:
    "take_masks chacha 2 dm s = Some (masks, dm', s')" "plan_ok chacha plan dm' s'" "length masks = 2"
    "take_keys chacha (map2 (\<lambda>x f. x - fc_x f) [a, b] masks) dm v = Some (keys, dm', v')" "twin s' v'" "vc_delta v' = delta" "length keys = 2"
    "\<And>i. i < 2 \<Longrightarrow> mac_valid delta (full_authenticate (masks ! i) ([a, b] ! i)) (keys ! i)"
    using transfer_values [OF assms len] by blast
  show thesis using that [OF m(1-3) _ m(5-7)] m(4) m(8) [of 0] m(8) [of 1] unfolding masks_two [OF m(3)] by simp
qed

lemma blind_round_step:
  assumes "blind_in H chacha rt vs0 krp krq delta (2 # plan) (x # xs) rs lam claim cpref st" "x \<noteq> 0"
  shows "\<exists>r st'. sk_round (blind_sink H chacha) h x st = Some (r, st') \<and> drawn H r
    \<and> blind_in H chacha rt vs0 krp krq delta plan xs (rs @ [r]) lam (reduce_round x h claim r) (cpref * eq_factor x r) st'"
proof -
  obtain kclaim vs where i: "mac_valid delta (bs_claim st) kclaim" "sides_ok chacha delta (2 # plan) st vs"
    "\<And>layer corrs layers. bl_round_corrs layer = bs_rounds_cur st @ corrs \<Longrightarrow> length corrs = length (x # xs) \<Longrightarrow>
       blind_verify_layers H chacha (bs_layers st @ layer # layers) 0 [] krp krq vs0
         = blind_verify_rounds H chacha (x # xs) corrs kclaim cpref vs \<bind> verify_rest H chacha lam layer layers rs"
    "pa_x (bs_claim st) = claim" "bs_lambda st = lam" "bs_cpref st = cpref" "length (bs_rounds_cur st) = length rs"
    and same: "frame_of st = rt" "length (bs_layers st) = length rs + length (x # xs)"
    using assms(1) unfolding blind_in_def by blast
  note f = sides_facts [OF i(2)]
  obtain masks dm s keys v' where m: "take_masks chacha 2 (bs_doms st) (bs_stream st) = Some (masks, dm, s)" "plan_ok chacha plan dm s" "length masks = 2"
    and k: "take_keys chacha [fst h - fc_x (masks ! 0), snd h - fc_x (masks ! 1)] (bs_doms st) (vs_ctx vs) = Some (keys, dm, v')"
      "twin s v'" "vc_delta v' = delta" "length keys = 2"
      "mac_valid delta (full_authenticate (masks ! 0) (fst h)) (keys ! 0)" "mac_valid delta (full_authenticate (masks ! 1) (snd h)) (keys ! 1)"
    using transfer_two [OF f(7,4,5), of "fst h" "snd h"] by blast
  let ?c0 = "fst h - fc_x (masks ! 0)" and ?c1 = "snd h - fc_x (masks ! 1)"
  obtain tx1 where tx1: "append_fp2s ''logup_round_corrections'' [?c0, ?c1] (bs_tx st) = Some tx1" "is_fiat_shamir tx1"
    using fs_append [OF f(1), of "''logup_round_corrections''"] by auto
  obtain r tx2 where r: "challenge_fp2 H tx1 = Some (r, tx2)" "is_fiat_shamir tx2" using fs_challenge [OF tx1(2)] by blast
  have r0: "drawn H r" using tx1(2) r(1) by (auto simp: drawn_def)
  let ?h0 = "full_authenticate (masks ! 0) (fst h)" and ?h2 = "full_authenticate (masks ! 1) (snd h)"
  let ?cl = "logup_claim prover_add prover_sub prover_scale x (inverse x) (bs_claim st) ?h0 ?h2 r"
  let ?k = "logup_claim key_add key_sub key_scale x (inverse x) kclaim (keys ! 0) (keys ! 1) r"
  let ?st = "st\<lparr>bs_stream := s, bs_doms := dm, bs_tx := tx2, bs_rounds_cur := bs_rounds_cur st @ [(?c0, ?c1)],
     bs_claim := ?cl, bs_cpref := bs_cpref st * eq_factor x r\<rparr>"
  let ?vs = "vs\<lparr>vs_ctx := v', vs_doms := dm, vs_tx := tx2\<rparr>"
  have 1: "sk_round (blind_sink H chacha) h x st = Some (r, ?st)"
    using m(1,3) tx1(1) r(1) assms(2) by (simp add: blind_sink_def blind_round_def fp2_inv_eq Let_def)
  have 2: "mac_valid delta (bs_claim ?st) ?k" using i(1) k(5,6) by (simp add: logup_claim_valid)
  have 3: "pa_x (bs_claim ?st) = reduce_round x h claim r"
    using logup_claim_value [OF assms(2), of ?h0 h ?h2] i(4) by (simp add: full_authenticate_def)
  have 4: "sides_ok chacha delta plan ?st ?vs" using i(2) k(2,3) m(2) r(2) by (simp add: sides_ok_def)
  have 5: "blind_verify_layers H chacha (bs_layers ?st @ layer # layers) 0 [] krp krq vs0
      = blind_verify_rounds H chacha xs corrs ?k (cpref * eq_factor x r) ?vs \<bind> verify_rest H chacha lam layer layers (rs @ [r])"
    if "bl_round_corrs layer = bs_rounds_cur ?st @ corrs" "length corrs = length xs" for layer corrs layers
    using i(3) [of layer "(?c0, ?c1) # corrs" layers] that k(1,4) f(2,3) tx1(1) r(1) assms(2)
    by (auto simp: fp2_inv_eq verify_rest_def map_option_case split: option.splits prod.splits intro!: Option.bind_cong)
  have "blind_in H chacha rt vs0 krp krq delta plan xs (rs @ [r]) lam (reduce_round x h claim r) (cpref * eq_factor x r) ?st"
    unfolding blind_in_def using 2 3 4 5 i(5-7) same
    by (intro conjI exI [of _ ?k] exI [of _ ?vs] allI impI) auto
  then show ?thesis using 1 r0 by blast
qed

lemma batch_ok_append:
  assumes "batch_ok delta prods zeros kprods kzeros" "batch_ok delta prods' zeros' kprods' kzeros'"
  shows "batch_ok delta (prods @ prods') (zeros @ zeros') (kprods @ kprods') (kzeros @ kzeros')"
  using assms by (auto simp: batch_ok_def intro: list_all2_appendI)

lemma layer_batch_ok:
  assumes "mac_valid delta p0 k0" "mac_valid delta p1 k1" "mac_valid delta q0 k2" "mac_valid delta q1 k3"
    and "mac_valid delta z0 j0" "mac_valid delta z1 j1" "mac_valid delta z2 j2" "mac_valid delta claim k"
    and "pa_x z0 = pa_x p0 * pa_x q1" "pa_x z1 = pa_x p1 * pa_x q0" "pa_x z2 = pa_x q0 * pa_x q1"
    and "pa_x claim = cpref * layer_val lam (pa_x p0) (pa_x p1) (pa_x q0) (pa_x q1)"
  shows "batch_ok delta [(p0, q1, z0), (p1, q0, z1), (q0, q1, z2)] [layer_row prover_add prover_sub prover_scale lam cpref z0 z1 z2 claim]
    [(k0, k3, j0), (k1, k2, j1), (k2, k3, j2)] [layer_row key_add key_sub key_scale lam cpref j0 j1 j2 k]"
proof -
  have "pa_x (layer_row prover_add prover_sub prover_scale lam cpref z0 z1 z2 claim) = 0"
    using assms(9-12) by (simp add: layer_row_def layer_val_def algebra_simps)
  then show ?thesis
    using assms(1-11) layer_row_valid [OF assms(5-8)] by (simp add: batch_ok_def)
qed

lemma splits_transcript:
  assumes "is_fiat_shamir tx"
  shows "\<exists>tx1 tx2 t tx3. append_fp2s ''logup_split_corrections'' cs tx = Some tx1 \<and> append_fp2s ''logup_prod_corrections'' ds tx1 = Some tx2
    \<and> challenge_fp2 H tx2 = Some (t, tx3) \<and> is_fiat_shamir tx2 \<and> is_fiat_shamir tx3"
proof -
  obtain tx1 where 1: "append_fp2s ''logup_split_corrections'' cs tx = Some tx1" "is_fiat_shamir tx1"
    using fs_append [OF assms, of "''logup_split_corrections''" cs] by auto
  obtain tx2 where 2: "append_fp2s ''logup_prod_corrections'' ds tx1 = Some tx2" "is_fiat_shamir tx2"
    using fs_append [OF 1(2), of "''logup_prod_corrections''" ds] by auto
  from fs_challenge [OF 2(2), of H] show ?thesis using 1 2 by blast
qed

lemma blind_splits_step:
  assumes "blind_in H chacha rt vs0 krp krq delta (4 # 3 # plan) [] rs lam claim cpref st" "claim = cpref * layer_val lam a b c d"
  shows "\<exists>t st'. sk_splits (blind_sink H chacha) (a, b, c, d) st = Some (t, st') \<and> drawn H t
    \<and> blind_at H chacha rt vs0 krp krq delta plan (t # rs) (a + t * (b - a)) (c + t * (d - c)) st'"
proof -
  obtain kclaim vs where i: "mac_valid delta (bs_claim st) kclaim" "sides_ok chacha delta (4 # 3 # plan) st vs"
    "\<And>layer layers. bl_round_corrs layer = bs_rounds_cur st \<Longrightarrow>
       blind_verify_layers H chacha (bs_layers st @ layer # layers) 0 [] krp krq vs0 = verify_rest H chacha lam layer layers rs (Some (kclaim, cpref, []), vs)"
    "pa_x (bs_claim st) = claim" "bs_lambda st = lam" "bs_cpref st = cpref" "length (bs_rounds_cur st) = length rs"
    and same: "frame_of st = rt" "length (bs_layers st) = length rs"
    using assms(1) unfolding blind_in_def by auto
  note f = sides_facts [OF i(2)]
  obtain masks dm s keys v where m: "take_masks chacha 4 (bs_doms st) (bs_stream st) = Some (masks, dm, s)" "plan_ok chacha (3 # plan) dm s" "length masks = 4"
    and k: "take_keys chacha [a - fc_x (masks ! 0), b - fc_x (masks ! 1), c - fc_x (masks ! 2), d - fc_x (masks ! 3)] (bs_doms st) (vs_ctx vs) = Some (keys, dm, v)"
      "twin s v" "vc_delta v = delta" "length keys = 4"
      "mac_valid delta (full_authenticate (masks ! 0) a) (keys ! 0)" "mac_valid delta (full_authenticate (masks ! 1) b) (keys ! 1)"
      "mac_valid delta (full_authenticate (masks ! 2) c) (keys ! 2)" "mac_valid delta (full_authenticate (masks ! 3) d) (keys ! 3)"
    using transfer_four [OF f(7,4,5), of a b c d] by blast
  obtain zmasks dm' s' zkeys v' where n: "take_masks chacha 3 dm s = Some (zmasks, dm', s')" "plan_ok chacha plan dm' s'" "length zmasks = 3"
    and j: "take_keys chacha [a * d - fc_x (zmasks ! 0), b * c - fc_x (zmasks ! 1), c * d - fc_x (zmasks ! 2)] dm v = Some (zkeys, dm', v')"
      "twin s' v'" "vc_delta v' = delta" "length zkeys = 3"
      "mac_valid delta (full_authenticate (zmasks ! 0) (a * d)) (zkeys ! 0)" "mac_valid delta (full_authenticate (zmasks ! 1) (b * c)) (zkeys ! 1)"
      "mac_valid delta (full_authenticate (zmasks ! 2) (c * d)) (zkeys ! 2)"
    using transfer_three [OF m(2) k(2,3), of "a * d" "b * c" "c * d"] by blast
  let ?cs = "[a - fc_x (masks ! 0), b - fc_x (masks ! 1), c - fc_x (masks ! 2), d - fc_x (masks ! 3)]"
    and ?ds = "[a * d - fc_x (zmasks ! 0), b * c - fc_x (zmasks ! 1), c * d - fc_x (zmasks ! 2)]"
  obtain tx1 tx2 t tx3 where tx: "append_fp2s ''logup_split_corrections'' ?cs (bs_tx st) = Some tx1"
    "append_fp2s ''logup_prod_corrections'' ?ds tx1 = Some tx2" "challenge_fp2 H tx2 = Some (t, tx3)" "is_fiat_shamir tx2" "is_fiat_shamir tx3"
    using splits_transcript [OF f(1), of ?cs ?ds H] by blast
  have t0: "drawn H t" using tx(3,4) by (auto simp: drawn_def)
  let ?p0 = "full_authenticate (masks ! 0) a" and ?p1 = "full_authenticate (masks ! 1) b" and ?q0 = "full_authenticate (masks ! 2) c"
    and ?q1 = "full_authenticate (masks ! 3) d" and ?z0 = "full_authenticate (zmasks ! 0) (a * d)"
    and ?z1 = "full_authenticate (zmasks ! 1) (b * c)" and ?z2 = "full_authenticate (zmasks ! 2) (c * d)"
  let ?l = "\<lparr>bl_round_corrs = bs_rounds_cur st, bl_split_corrs = (?cs ! 0, ?cs ! 1, ?cs ! 2, ?cs ! 3), bl_z_corrs = (?ds ! 0, ?ds ! 1, ?ds ! 2)\<rparr>"
  let ?st = "st\<lparr>bs_stream := s', bs_doms := dm', bs_tx := tx3,
     bs_prod := bs_prod st @ [(?p0, ?q1, ?z0), (?p1, ?q0, ?z1), (?q0, ?q1, ?z2)],
     bs_zero := bs_zero st @ [layer_row prover_add prover_sub prover_scale lam cpref ?z0 ?z1 ?z2 (bs_claim st)],
     bs_cp := child_claim prover_add prover_sub prover_scale t ?p0 ?p1, bs_cq := child_claim prover_add prover_sub prover_scale t ?q0 ?q1,
     bs_layers := bs_layers st @ [?l], bs_rounds_cur := []\<rparr>"
  let ?vs = "vs\<lparr>vs_ctx := v', vs_doms := dm', vs_tx := tx3,
     vs_kprod := vs_kprod vs @ [(keys ! 0, keys ! 3, zkeys ! 0), (keys ! 1, keys ! 2, zkeys ! 1), (keys ! 2, keys ! 3, zkeys ! 2)],
     vs_kzero := vs_kzero vs @ [layer_row key_add key_sub key_scale lam cpref (zkeys ! 0) (zkeys ! 1) (zkeys ! 2) kclaim]\<rparr>"
  let ?kp = "child_claim key_add key_sub key_scale t (keys ! 0) (keys ! 1)" and ?kq = "child_claim key_add key_sub key_scale t (keys ! 2) (keys ! 3)"
  have 1: "sk_splits (blind_sink H chacha) (a, b, c, d) st = Some (t, ?st)"
    using m(1,3) n(1,3) tx(1-3) i(5,6) by (simp add: blind_sink_def blind_splits_def Let_def)
  have e: "blind_verify_end H chacha lam ?l kclaim cpref vs = Some (t, ?kp, ?kq, ?vs)"
    using k(1,4) j(1,4) tx(1-3) f(2,3) by (simp add: blind_verify_end_def)
  have "batch_ok delta (bs_prod ?st) (bs_zero ?st) (vs_kprod ?vs) (vs_kzero ?vs)"
    using batch_ok_append [OF f(6) layer_batch_ok [OF k(5-8) j(5-7) i(1)]] i(4) assms(2) by (simp add: full_authenticate_def)
  then have s: "sides_ok chacha delta plan ?st ?vs" using j(2,3) n(2) tx(5) by (simp add: sides_ok_def)
  have v: "blind_verify_layers H chacha (bs_layers ?st @ layers) 0 [] krp krq vs0
      = blind_verify_layers H chacha layers (length (t # rs)) (t # rs) ?kp ?kq ?vs" for layers
    using i(3) [of ?l layers] i(7) e by (simp add: verify_rest_def)
  have "blind_at H chacha rt vs0 krp krq delta plan (t # rs) (a + t * (b - a)) (c + t * (d - c)) ?st"
    unfolding blind_at_def using s v same child_claim_valid [OF k(5,6)] child_claim_valid [OF k(7,8)]
    by (intro conjI exI [of _ ?kp] exI [of _ ?kq] exI [of _ ?vs] allI) (simp_all add: child_claim_value full_authenticate_def)
  then show ?thesis using 1 t0 by blast
qed

lemma blind_zero_step: "sk_round (blind_sink H chacha) h 0 st = None"
  by (simp add: blind_sink_def blind_round_def fp2_inv_eq Let_def case_prod_unfold)

interpretation blind: claim_sink "blind_sink H chacha" "blind_at H chacha rt vs0 krp krq delta" "blind_in H chacha rt vs0 krp krq delta"
proof unfold_locales
  show "sk_round (blind_sink H chacha) h 0 st = None" for h st by (rule blind_zero_step)
  show "\<exists>lam st'. sk_lambda (blind_sink H chacha) st = Some (lam, st') \<and> blind_in H chacha rt vs0 krp krq delta plan point [] lam (lam * cp + cq) 1 st'"
    if "blind_at H chacha rt vs0 krp krq delta plan point cp cq st" for plan point cp cq st
    using that by (rule blind_lambda_step)
  show "\<exists>r st'. sk_round (blind_sink H chacha) h x st = Some (r, st')
      \<and> blind_in H chacha rt vs0 krp krq delta plan xs (rs @ [r]) lam (reduce_round x h claim r) (cpref * eq_factor x r) st'"
    if "blind_in H chacha rt vs0 krp krq delta (2 # plan) (x # xs) rs lam claim cpref st" "x \<noteq> 0" for plan x xs rs lam claim cpref st h
    using blind_round_step [OF that] by blast
  show "\<exists>t st'. sk_splits (blind_sink H chacha) (a, b, c, d) st = Some (t, st')
      \<and> blind_at H chacha rt vs0 krp krq delta plan (t # rs) (a + t * (b - a)) (c + t * (d - c)) st'"
    if "blind_in H chacha rt vs0 krp krq delta (4 # 3 # plan) [] rs lam claim cpref st" "claim = cpref * layer_val lam a b c d" for plan rs lam claim cpref st a b c d
    using blind_splits_step [OF that] by blast
qed

section \<open>The tree\<close>

lemma blind_root_step:
  assumes "sides_ok chacha delta (2 # plan) st vs" "bs_rounds_cur st = []" "bs_layers st = []"
  obtains st' v dm tx keys where "sk_root (blind_sink H chacha) p q st = Some st'"
    "take_keys chacha [fst (bs_root_corrs st'), snd (bs_root_corrs st')] (vs_doms vs) (vs_ctx vs) = Some (keys, dm, v)" "length keys = 2"
    "append_fp2s ''logup_root_corrections'' [fst (bs_root_corrs st'), snd (bs_root_corrs st')] (vs_tx vs) = Some tx"
    "blind_at H chacha (frame_of st') (vs\<lparr>vs_ctx := v, vs_doms := dm, vs_tx := tx\<rparr>) (keys ! 0) (keys ! 1) delta plan [] p q st'"
    "mac_valid delta (fst (bs_roots st')) (keys ! 0)" "mac_valid delta (snd (bs_roots st')) (keys ! 1)"
    "pa_x (fst (bs_roots st')) = p" "pa_x (snd (bs_roots st')) = q" "bs_rounds3_cur st' = bs_rounds3_cur st" "bs_col_corrs st' = bs_col_corrs st"
proof -
  note f = sides_facts [OF assms(1)]
  obtain masks dm s keys v where m: "take_masks chacha 2 (bs_doms st) (bs_stream st) = Some (masks, dm, s)" "plan_ok chacha plan dm s" "length masks = 2"
    and k: "take_keys chacha [p - fc_x (masks ! 0), q - fc_x (masks ! 1)] (bs_doms st) (vs_ctx vs) = Some (keys, dm, v)"
      "twin s v" "vc_delta v = delta" "length keys = 2"
      "mac_valid delta (full_authenticate (masks ! 0) p) (keys ! 0)" "mac_valid delta (full_authenticate (masks ! 1) q) (keys ! 1)"
    using transfer_two [OF f(7,4,5), of p q] by blast
  let ?c0 = "p - fc_x (masks ! 0)" and ?c1 = "q - fc_x (masks ! 1)"
    and ?rp = "full_authenticate (masks ! 0) p" and ?rq = "full_authenticate (masks ! 1) q"
  obtain tx where tx: "append_fp2s ''logup_root_corrections'' [?c0, ?c1] (bs_tx st) = Some tx" "is_fiat_shamir tx"
    using fs_append [OF f(1), of "''logup_root_corrections''"] by auto
  let ?st = "st\<lparr>bs_stream := s, bs_doms := dm, bs_tx := tx, bs_root_corrs := (?c0, ?c1), bs_roots := (?rp, ?rq), bs_cp := ?rp, bs_cq := ?rq\<rparr>"
  let ?vs = "vs\<lparr>vs_ctx := v, vs_doms := dm, vs_tx := tx\<rparr>"
  have 1: "sk_root (blind_sink H chacha) p q st = Some ?st"
    using m(1,3) tx(1) by (simp add: blind_sink_def blind_root_def Let_def)
  have "sides_ok chacha delta plan ?st ?vs" using f(6) k(2,3) m(2) tx(2) by (simp add: sides_ok_def)
  then have "blind_at H chacha (frame_of ?st) ?vs (keys ! 0) (keys ! 1) delta plan [] p q ?st"
    unfolding blind_at_def using assms(2,3) k(5,6)
    by (intro conjI exI [of _ "keys ! 0"] exI [of _ "keys ! 1"] exI [of _ ?vs] allI) (simp_all add: full_authenticate_def)
  then show thesis using that [OF 1, of keys dm v tx] k(1,4-6) tx(1) f(2,3) by (simp add: full_authenticate_def)
qed

text \<open>The prover of a tree is asked for a round at a zero coordinate.\<close>

definition blind_meets_zero :: "blake3 \<Rightarrow> chacha \<Rightarrow> leaf_p \<Rightarrow> leaf_q \<Rightarrow> correlation_stream \<Rightarrow> doms \<Rightarrow> transcript \<Rightarrow> prod_triples \<Rightarrow> prover_authed list \<Rightarrow> bool" where
  "blind_meets_zero H chacha lp lq s dm tx prods zeros \<longleftrightarrow> meets_zero (blind_sink H chacha) lp lq (new_blind_sink s tx dm prods zeros)"

text \<open>Prover and verifier on one tree: unless the prover panics at a zero coordinate, the leaf claims are the extensions of the leaves at the point.\<close>

lemma blind_tree_outcome:
  assumes "length (lq_a lq) = 2 ^ Suc k" "length (mat_p lp (2 ^ Suc k)) = 2 ^ Suc k"
    and "sides_ok chacha delta (2 # tree_plan 0 k @ plan) (new_blind_sink s tx dm prods zeros) vs"
  obtains (panics) "blind_meets_zero H chacha lp lq s dm tx prods zeros" "blind_prove_frac_tree H chacha lp lq s dm tx prods zeros = None"
  | (runs) pf pt cp cq rp rq st kcp kcq krp krq vs' where "\<not> blind_meets_zero H chacha lp lq s dm tx prods zeros"
    "blind_prove_frac_tree H chacha lp lq s dm tx prods zeros = Some ((pf, pt, cp, cq, rp, rq), st)"
    "blind_verify_frac_tree H chacha (Suc k) pf vs = Some (Some (pt, kcp, kcq, krp, krq), vs')" "sides_ok chacha delta plan st vs'"
    "length pt = Suc k" "mac_valid delta cp kcp" "mac_valid delta cq kcq" "mac_valid delta rp krp" "mac_valid delta rq krq"
    "pa_x cp = mle_at (mat_p lp (2 ^ Suc k)) pt" "pa_x cq = mle_at (mat_q lq) pt" "(pa_x rp, pa_x rq) = frac_root (mat_p lp (2 ^ Suc k)) (mat_q lq)"
proof -
  let ?st = "new_blind_sink s tx dm prods zeros" and ?p = "mat_p lp (2 ^ Suc k)" and ?q = "mat_q lq"
  obtain rp rq where root: "frac_root ?p ?q = (rp, rq)" by (cases "frac_root ?p ?q")
  have new: "bs_rounds_cur ?st = []" "bs_layers ?st = []" by (simp_all add: new_blind_sink_def)
  obtain st0 v dm' tx' keys where
    r: "sk_root (blind_sink H chacha) rp rq ?st = Some st0"
    "take_keys chacha [fst (bs_root_corrs st0), snd (bs_root_corrs st0)] (vs_doms vs) (vs_ctx vs) = Some (keys, dm', v)" "length keys = 2"
    "append_fp2s ''logup_root_corrections'' [fst (bs_root_corrs st0), snd (bs_root_corrs st0)] (vs_tx vs) = Some tx'"
    "blind_at H chacha (frame_of st0) (vs\<lparr>vs_ctx := v, vs_doms := dm', vs_tx := tx'\<rparr>) (keys ! 0) (keys ! 1) delta
       (tree_plan 0 k @ plan) [] rp rq st0"
    and roots: "mac_valid delta (fst (bs_roots st0)) (keys ! 0)" "mac_valid delta (snd (bs_roots st0)) (keys ! 1)"
      "pa_x (fst (bs_roots st0)) = rp" "pa_x (snd (bs_roots st0)) = rq"
    by (rule blind_root_step [OF assms(3) new, where p = rp and q = rq])
  have q: "length ?q = length ?p" using assms(1,2) by (simp add: mat_q_def)
  let ?at = "blind_at H chacha (frame_of st0) (vs\<lparr>vs_ctx := v, vs_doms := dm', vs_tx := tx'\<rparr>) (keys ! 0) (keys ! 1) delta"
  obtain pt st z where e:
    "prove_weighted_engine (probe (blind_sink H chacha)) ?p ?q (?st, False) = Some ((rp, rq, pt), st, z)"
    "prove_weighted_engine (blind_sink H chacha) ?p ?q ?st = (if z then None else Some ((rp, rq, pt), st))"
    "length pt = Suc k" "z \<or> ?at plan pt (mle_at ?p pt) (mle_at ?q pt) st"
    using blind.tree_outcome [OF assms(2) q root r(1,5)] by blast
  have mz: "blind_meets_zero H chacha lp lq s dm tx prods zeros \<longleftrightarrow> z"
    using e(1) assms(1) by (simp add: blind_meets_zero_def meets_zero_def engine_reference)
  show thesis
  proof (cases z)
    case True
    then show thesis using panics e(2) mz assms(1) by (simp add: blind_prove_frac_tree_def engine_reference)
  next
    case False
    then have at: "?at plan pt (mle_at ?p pt) (mle_at ?q pt) st" using e(4) by simp
    obtain kcp kcq vs' where w: "mac_valid delta (bs_cp st) kcp" "mac_valid delta (bs_cq st) kcq" "sides_ok chacha delta plan st vs'"
      "blind_verify_layers H chacha (bs_layers st) 0 [] (keys ! 0) (keys ! 1) (vs\<lparr>vs_ctx := v, vs_doms := dm', vs_tx := tx'\<rparr>)
         = Some (Some (pt, kcp, kcq), vs')"
      "pa_x (bs_cp st) = mle_at ?p pt" "pa_x (bs_cq st) = mle_at ?q pt" "frame_of st = frame_of st0" "length (bs_layers st) = length pt"
      by (rule blind_at_done [OF at])
    then have same: "bs_root_corrs st = bs_root_corrs st0" "bs_roots st = bs_roots st0" "length (bs_layers st) = Suc k" using e(3) by simp_all
    let ?pf = "\<lparr>bf_root_corrs = bs_root_corrs st, bf_layers = bs_layers st, bf_aux = None\<rparr>"
    have 1: "blind_prove_frac_tree H chacha lp lq s dm tx prods zeros
        = Some ((?pf, pt, bs_cp st, bs_cq st, fst (bs_roots st), snd (bs_roots st)), st)"
      using e(2) False assms(1) by (simp add: blind_prove_frac_tree_def engine_reference sink_result_def)
    have 2: "blind_verify_frac_tree H chacha (Suc k) ?pf vs = Some (Some (pt, kcp, kcq, keys ! 0, keys ! 1), vs')"
      using r(2-4) w(4) same by (cases "bs_root_corrs st0") (simp add: blind_verify_frac_tree_def)
    show thesis using runs [OF _ 1 2 w(3) e(3) w(1,2)] mz False roots w(5,6) same root by simp
  qed
qed

lemma blind_tree_panics:
  assumes "length (lq_a lq) = 2 ^ Suc k" "length (mat_p lp (2 ^ Suc k)) = 2 ^ Suc k"
    and "sides_ok chacha delta (2 # tree_plan 0 k @ plan) (new_blind_sink s tx dm prods zeros) vs" "blind_meets_zero H chacha lp lq s dm tx prods zeros"
  shows "blind_prove_frac_tree H chacha lp lq s dm tx prods zeros = None"
  by (rule blind_tree_outcome [OF assms(1-3), of H]) (use assms(4) in blast)+

lemma blind_tree_run:
  assumes "length (lq_a lq) = 2 ^ Suc k" "length (mat_p lp (2 ^ Suc k)) = 2 ^ Suc k"
    and "sides_ok chacha delta (2 # tree_plan 0 k @ plan) (new_blind_sink s tx dm prods zeros) vs" "\<not> blind_meets_zero H chacha lp lq s dm tx prods zeros"
  obtains pf pt cp cq rp rq st kcp kcq krp krq vs' where
    "blind_prove_frac_tree H chacha lp lq s dm tx prods zeros = Some ((pf, pt, cp, cq, rp, rq), st)"
    "blind_verify_frac_tree H chacha (Suc k) pf vs = Some (Some (pt, kcp, kcq, krp, krq), vs')" "sides_ok chacha delta plan st vs'"
    "length pt = Suc k" "mac_valid delta cp kcp" "mac_valid delta cq kcq" "mac_valid delta rp krp" "mac_valid delta rq krq"
    "pa_x cp = mle_at (mat_p lp (2 ^ Suc k)) pt" "pa_x cq = mle_at (mat_q lq) pt" "(pa_x rp, pa_x rq) = frac_root (mat_p lp (2 ^ Suc k)) (mat_q lq)"
  by (rule blind_tree_outcome [OF assms(1-3), of H]) (use assms(4) that in blast)+

section \<open>The lookup\<close>

lemma sides_push:
  assumes "sides_ok chacha delta plan st vs" "batch_ok delta [] zs [] ks"
  shows "sides_ok chacha delta plan (st\<lparr>bs_zero := bs_zero st @ zs\<rparr>) (vs\<lparr>vs_kzero := vs_kzero vs @ ks\<rparr>)"
  using assms(1) batch_ok_append [OF sides_facts(6) [OF assms(1)] assms(2)] by (simp add: sides_ok_def)

lemma sides_renew:
  "sides_ok chacha delta plan st vs
   \<Longrightarrow> sides_ok chacha delta plan (new_blind_sink (bs_stream st) (bs_tx st) (bs_doms st) (bs_prod st) (bs_zero st)) vs"
  by (simp add: sides_ok_def new_blind_sink_def)

lemma cross_run:
  assumes "sides_ok chacha delta (4 # plan) st vs"
    and "mac_valid delta pf kpf" "mac_valid delta qf kqf" "mac_valid delta pt kpt" "mac_valid delta qt kqt"
    and "pa_x pf * pa_x qt + pa_x pt * pa_x qf = 0" "pa_x qf \<noteq> 0" "pa_x qt \<noteq> 0"
  obtains corrs st' vs' where "cross_prover chacha (pf, qf) (pt, qt) st = Some (corrs, st')"
    "cross_verifier chacha (kpf, kqf) (kpt, kqt) corrs vs = Some vs'" "sides_ok chacha delta plan st' vs'"
proof -
  note f = sides_facts [OF assms(1)]
  let ?x0 = "pa_x pf * pa_x qt" and ?x1 = "pa_x pt * pa_x qf" and ?x2 = "inverse (pa_x qf)" and ?x3 = "inverse (pa_x qt)"
  obtain masks dm s keys v where m: "take_masks chacha 4 (bs_doms st) (bs_stream st) = Some (masks, dm, s)" "plan_ok chacha plan dm s" "length masks = 4"
    and k: "take_keys chacha [?x0 - fc_x (masks ! 0), ?x1 - fc_x (masks ! 1), ?x2 - fc_x (masks ! 2), ?x3 - fc_x (masks ! 3)] (bs_doms st) (vs_ctx vs)
        = Some (keys, dm, v)" "twin s v" "vc_delta v = delta" "length keys = 4"
      "mac_valid delta (full_authenticate (masks ! 0) ?x0) (keys ! 0)" "mac_valid delta (full_authenticate (masks ! 1) ?x1) (keys ! 1)"
      "mac_valid delta (full_authenticate (masks ! 2) ?x2) (keys ! 2)" "mac_valid delta (full_authenticate (masks ! 3) ?x3) (keys ! 3)"
    by (rule transfer_four [OF f(7,4,5), of ?x0 ?x1 ?x2 ?x3])
  let ?c = "[?x0 - fc_x (masks ! 0), ?x1 - fc_x (masks ! 1), ?x2 - fc_x (masks ! 2), ?x3 - fc_x (masks ! 3)]"
  obtain tx where tx: "append_fp2s ''logup_cross_corrections'' ?c (bs_tx st) = Some tx" "is_fiat_shamir tx"
    using fs_append [OF f(1), of "''logup_cross_corrections''" ?c] by auto
  let ?za = "full_authenticate (masks ! 0) ?x0" and ?zb = "full_authenticate (masks ! 1) ?x1"
    and ?if = "full_authenticate (masks ! 2) ?x2" and ?it = "full_authenticate (masks ! 3) ?x3"
  let ?prods = "[(pf, qt, ?za), (pt, qf, ?zb), (qf, ?if, prover_from_public 1), (qt, ?it, prover_from_public 1)]"
    and ?kprods = "[(kpf, kqt, keys ! 0), (kpt, kqf, keys ! 1), (kqf, keys ! 2, key_from_public 1 delta), (kqt, keys ! 3, key_from_public 1 delta)]"
  let ?st = "st\<lparr>bs_stream := s, bs_doms := dm, bs_tx := tx, bs_prod := bs_prod st @ ?prods, bs_zero := bs_zero st @ [prover_add ?za ?zb]\<rparr>"
  let ?vs = "vs\<lparr>vs_ctx := v, vs_doms := dm, vs_tx := tx, vs_kprod := vs_kprod vs @ ?kprods, vs_kzero := vs_kzero vs @ [key_add (keys ! 0) (keys ! 1)]\<rparr>"
  have 1: "cross_prover chacha (pf, qf) (pt, qt) st = Some ((?c ! 0, ?c ! 1, ?c ! 2, ?c ! 3), ?st)"
    using m(1,3) tx(1) assms(7,8) by (simp add: cross_prover_def fp2_inv_eq Let_def)
  have 2: "cross_verifier chacha (kpf, kqf) (kpt, kqt) (?c ! 0, ?c ! 1, ?c ! 2, ?c ! 3) vs = Some ?vs"
    using k(1,3,4) tx(1) f(2,3) by (simp add: cross_verifier_def Let_def)
  have "batch_ok delta ?prods [prover_add ?za ?zb] ?kprods [key_add (keys ! 0) (keys ! 1)]"
    using assms(2-8) k(5-8) fp2_mac.valid_add [OF k(5,6)] fp2_mac.valid_public [of delta 1] by (simp add: batch_ok_def full_authenticate_def)
  from batch_ok_append [OF f(6) this] have "sides_ok chacha delta plan ?st ?vs"
    using k(2,3) m(2) tx(2) by (simp add: sides_ok_def)
  then show thesis using that [OF 1 2] by blast
qed

lemma mle_at_affine:
  assumes "length v = 2 ^ length pt"
  shows "mle_at (map (\<lambda>x. c - g x) v) pt = c - mle_at (map g v) pt"
proof -
  have "(\<Sum>i<2 ^ length pt. eq_vec pt ! i) = 1"
    using mle_at_ones [of pt] by (simp add: mle_at_def dot_def)
  then show ?thesis
    using assms by (simp add: mle_at_def dot_def left_diff_distrib sum_subtractf flip: sum_distrib_left)
qed

text \<open>One of the two tree provers is asked for a round at a zero coordinate; the second tree starts where the first one ended.\<close>

definition blind_logup_meets_zero :: "blake3 \<Rightarrow> chacha \<Rightarrow> i16 list \<Rightarrow> i16 list \<Rightarrow> u32 list \<Rightarrow> correlation_stream \<Rightarrow> doms \<Rightarrow> transcript
   \<Rightarrow> prod_triples \<Rightarrow> prover_authed list \<Rightarrow> bool" where
  "blind_logup_meets_zero H chacha f table mult s dm tx prods zeros \<longleftrightarrow>
     (case challenge_fp2 H tx of
        None \<Rightarrow> False
      | Some (alpha, tx) \<Rightarrow>
          blind_meets_zero H chacha Ones (lift_q f alpha) s dm tx prods zeros
          \<or> (case blind_prove_frac_tree H chacha Ones (lift_q f alpha) s dm tx prods zeros of
                None \<Rightarrow> False
              | Some (_, st) \<Rightarrow> blind_meets_zero H chacha (NegMult mult) (lift_q table alpha) (bs_stream st) (bs_doms st) (bs_tx st) (bs_prod st) (bs_zero st)))"

text \<open>At a challenge where the identity holds, both sides finish and agree, unless the prover panics at a zero coordinate.\<close>

lemma blind_logup_run:
  assumes "length f = 2 ^ Suc a" "length table = 2 ^ Suc b" "length mult = length table" "\<not> blind_logup_meets_zero H chacha f table mult s dm tx prods zeros"
    and "is_fiat_shamir tx" "challenge_fp2 H tx = Some (alpha, tx0)" "alpha \<in> identity_at f table mult"
    and "twin s v" "vc_delta v = delta" "batch_ok delta prods zeros kprods kzeros"
    and "plan_ok chacha (2 # tree_plan 0 a @ 2 # tree_plan 0 b @ [4]) dm s"
  obtains pf pt_f pt_t cq cp kq kp st vs where
    "blind_logup_prove H chacha f table mult s dm tx prods zeros
      = Some ((pf, alpha, \<lparr>oc_point = pt_f, oc_value = prover_sub (prover_from_public alpha) cq\<rparr>, \<lparr>oc_point = pt_t, oc_value = prover_sub prover_zero cp\<rparr>),
          bs_stream st, bs_doms st, bs_tx st, bs_prod st, bs_zero st)"
    "blind_logup_verify H chacha (Suc a) table pf \<lparr>vs_ctx = v, vs_doms = dm, vs_tx = tx, vs_kprod = kprods, vs_kzero = kzeros\<rparr>
      = Some (Some (\<lparr>ok_point = pt_f, ok_key = key_sub (key_from_public alpha delta) kq\<rparr>, \<lparr>ok_point = pt_t, ok_key = key_sub key_zero kp\<rparr>), vs)"
    "sides_ok chacha delta [] st vs" "mac_valid delta cq kq" "mac_valid delta cp kp" "length pt_f = Suc a" "length pt_t = Suc b"
    "pa_x cq = mle_at (lift_vals alpha f) pt_f" "pa_x cp = mle_at (neg_mults mult) pt_t"
proof -
  let ?vs = "\<lparr>vs_ctx = v, vs_doms = dm, vs_tx = tx, vs_kprod = kprods, vs_kzero = kzeros\<rparr>"
  have "is_fiat_shamir tx0" using fs_challenge [OF assms(5), of H] assms(6) by auto
  then have s0: "sides_ok chacha delta (2 # tree_plan 0 a @ 2 # tree_plan 0 b @ [4]) (new_blind_sink s tx0 dm prods zeros) (?vs\<lparr>vs_tx := tx0\<rparr>)"
    using assms(8-11) by (simp add: sides_ok_def new_blind_sink_def)
  obtain p1 pt1 cp1 cq1 rp1 rq1 st1 kcp1 kcq1 krp1 krq1 vs1 where
    f1: "blind_prove_frac_tree H chacha Ones (lift_q f alpha) s dm tx0 prods zeros = Some ((p1, pt1, cp1, cq1, rp1, rq1), st1)"
    "blind_verify_frac_tree H chacha (Suc a) p1 (?vs\<lparr>vs_tx := tx0\<rparr>) = Some (Some (pt1, kcp1, kcq1, krp1, krq1), vs1)"
    "sides_ok chacha delta (2 # tree_plan 0 b @ [4]) st1 vs1" "length pt1 = Suc a"
    and m1: "mac_valid delta cp1 kcp1" "mac_valid delta cq1 kcq1" "mac_valid delta rp1 krp1" "mac_valid delta rq1 krq1"
    and x1: "pa_x cp1 = mle_at (mat_p Ones (2 ^ Suc a)) pt1" "pa_x cq1 = mle_at (mat_q (lift_q f alpha)) pt1"
      "(pa_x rp1, pa_x rq1) = frac_root (mat_p Ones (2 ^ Suc a)) (mat_q (lift_q f alpha))"
    by (rule blind_tree_run [OF _ _ s0, where lp = Ones and lq = "lift_q f alpha" and H = H])
       (use assms(1,4,6) in \<open>simp_all add: blind_logup_meets_zero_def\<close>)
  obtain p2 pt2 cp2 cq2 rp2 rq2 st2 kcp2 kcq2 krp2 krq2 vs2 where
    f2: "blind_prove_frac_tree H chacha (NegMult mult) (lift_q table alpha) (bs_stream st1) (bs_doms st1) (bs_tx st1) (bs_prod st1) (bs_zero st1)
        = Some ((p2, pt2, cp2, cq2, rp2, rq2), st2)"
    "blind_verify_frac_tree H chacha (Suc b) p2 vs1 = Some (Some (pt2, kcp2, kcq2, krp2, krq2), vs2)"
    "sides_ok chacha delta [4] st2 vs2" "length pt2 = Suc b"
    and m2: "mac_valid delta cp2 kcp2" "mac_valid delta cq2 kcq2" "mac_valid delta rp2 krp2" "mac_valid delta rq2 krq2"
    and x2: "pa_x cp2 = mle_at (mat_p (NegMult mult) (2 ^ Suc b)) pt2" "pa_x cq2 = mle_at (mat_q (lift_q table alpha)) pt2"
      "(pa_x rp2, pa_x rq2) = frac_root (mat_p (NegMult mult) (2 ^ Suc b)) (mat_q (lift_q table alpha))"
    by (rule blind_tree_run [OF _ _ sides_renew [OF f1(3)], where lp = "NegMult mult" and lq = "lift_q table alpha" and H = H])
       (use assms(2,3,4,6) f1(1) in \<open>simp_all add: blind_logup_meets_zero_def\<close>)
  let ?t = "mle_at (lift_vals alpha table) pt2"
  let ?zs = "[prover_sub cp1 (prover_from_public 1), prover_sub cq2 (prover_from_public ?t)]"
    and ?ks = "[key_sub kcp1 (key_from_public 1 delta), key_sub kcq2 (key_from_public ?t delta)]"
  have t: "eval_mle_counted (lift_vals alpha table) pt2 = Some ?t" "eval_mle (lift_vals alpha table) pt2 = Some ?t"
    using assms(2) f2(4) by (simp_all add: eval_mle_counted_Some eval_mle_full mle_at_loop)
  have "pa_x cp1 = 1" "pa_x cq2 = ?t" using x1(1) x2(2) mle_at_ones [of pt1] f1(4) by simp_all
  then have "batch_ok delta [] ?zs [] ?ks"
    using fp2_mac.valid_sub [OF m1(1) fp2_mac.valid_public] fp2_mac.valid_sub [OF m2(2) fp2_mac.valid_public] by (simp add: batch_ok_def)
  from sides_push [OF f2(3) this] have s2:
    "sides_ok chacha delta [4] (st2\<lparr>bs_zero := bs_zero st2 @ ?zs\<rparr>) (vs2\<lparr>vs_kzero := vs_kzero vs2 @ ?ks\<rparr>)" .
  have "pa_x rp1 * pa_x rq2 + pa_x rp2 * pa_x rq1 = 0 \<and> pa_x rq1 \<noteq> 0 \<and> pa_x rq2 \<noteq> 0"
    using root_check [OF assms(1-3)] x1(3) x2(3) assms(1,7) by simp
  then obtain cross st3 vs3 where c: "cross_prover chacha (rp1, rq1) (rp2, rq2) (st2\<lparr>bs_zero := bs_zero st2 @ ?zs\<rparr>) = Some (cross, st3)"
    "cross_verifier chacha (krp1, krq1) (krp2, krq2) cross (vs2\<lparr>vs_kzero := vs_kzero vs2 @ ?ks\<rparr>) = Some vs3" "sides_ok chacha delta [] st3 vs3"
    using cross_run [OF s2 m1(3,4) m2(3,4)] by metis
  have d: "vc_delta (vs_ctx vs2) = delta" "vc_delta (vs_ctx vs3) = delta"
    using sides_facts(5) [OF f2(3)] sides_facts(5) [OF c(3)] .
  have tz: "trailing_zeros (length table) = Suc b" using trailing_zeros_pow [of "Suc b"] unfolding assms(2) .
  show thesis
    by (rule that [of "\<lparr>bg_lookup = p1, bg_table = p2, bg_cross_corrs = cross\<rparr>" pt1 cq1 pt2 cp2 st3 kcq1 kcp2 vs3])
       (use tz assms(6) f1 f2 m1 m2 x1 x2 c d t in \<open>simp_all add: blind_logup_prove_def blind_logup_verify_def Let_def\<close>)
qed

lemma blind_logup_panics:
  assumes "length f = 2 ^ Suc a" "length table = 2 ^ Suc b" "length mult = length table"
    and "is_fiat_shamir tx" "twin s v" "batch_ok (vc_delta v) prods zeros kprods kzeros"
    and "plan_ok chacha (2 # tree_plan 0 a @ 2 # tree_plan 0 b @ [4]) dm s" "blind_logup_meets_zero H chacha f table mult s dm tx prods zeros"
  shows "blind_logup_prove H chacha f table mult s dm tx prods zeros = None"
proof -
  obtain alpha tx0 where al: "challenge_fp2 H tx = Some (alpha, tx0)" "is_fiat_shamir tx0" using fs_challenge [OF assms(4)] by blast
  have l1: "length (lq_a (lift_q f alpha)) = 2 ^ Suc a" "length (mat_p Ones (2 ^ Suc a)) = 2 ^ Suc a" using assms(1) by simp_all
  have l2: "length (lq_a (lift_q table alpha)) = 2 ^ Suc b" "length (mat_p (NegMult mult) (2 ^ Suc b)) = 2 ^ Suc b" using assms(2,3) by simp_all
  have s0: "sides_ok chacha (vc_delta v) (2 # tree_plan 0 a @ 2 # tree_plan 0 b @ [4]) (new_blind_sink s tx0 dm prods zeros)
      \<lparr>vs_ctx = v, vs_doms = dm, vs_tx = tx0, vs_kprod = kprods, vs_kzero = kzeros\<rparr>"
    using assms(5-7) al(2) by (simp add: sides_ok_def new_blind_sink_def)
  show ?thesis
  proof (rule blind_tree_outcome [OF l1 s0, of H])
    assume "blind_prove_frac_tree H chacha Ones (lift_q f alpha) s dm tx0 prods zeros = None"
    then show ?thesis using al(1) by (simp add: blind_logup_prove_def)
  next
    fix pf pt cp cq rp rq st kcp kcq krp krq vs'
    assume f: "\<not> blind_meets_zero H chacha Ones (lift_q f alpha) s dm tx0 prods zeros"
      "blind_prove_frac_tree H chacha Ones (lift_q f alpha) s dm tx0 prods zeros = Some ((pf, pt, cp, cq, rp, rq), st)"
      "sides_ok chacha (vc_delta v) (2 # tree_plan 0 b @ [4]) st vs'"
    have "blind_prove_frac_tree H chacha (NegMult mult) (lift_q table alpha) (bs_stream st) (bs_doms st) (bs_tx st) (bs_prod st) (bs_zero st) = None"
      using blind_tree_panics [OF l2 sides_renew [OF f(3)]] assms(8) al(1) f(1,2) by (simp add: blind_logup_meets_zero_def)
    then show ?thesis using al(1) f(2) by (simp add: blind_logup_prove_def)
  qed
qed

text \<open>C5. Completeness of the blind lookup: take a Fiat-Shamir transcript, tables of power-of-two sizes, multiplicities that match the lookups
  and a first challenge off the poles. If in this run the engine asks for a round at a zero coordinate (one of the
  challenges drawn before was zero), the prover panics. Otherwise prover and verifier both return, with the same transcript, domains
  and correlation position; whatever the two sides push to the batches are true products and zeros with valid keys, and the two open claims are authenticated
  values of the extensions of the lookups and of the multiplicities at the two points.\<close>

theorem blind_logup_complete:
  assumes "length f = 2 ^ Suc a" "length table = 2 ^ Suc b" "length mult = length table" "multiplicities_match f table mult"
    and "is_fiat_shamir tx" "challenge_fp2 H tx = Some (alpha, tx0)" "alpha \<notin> lookup_poles f table"
    and "twin s v" "batch_ok (vc_delta v) prods zeros kprods kzeros"
    and "plan_ok chacha (2 # tree_plan 0 a @ 2 # tree_plan 0 b @ [4]) dm s"
  shows "(blind_logup_meets_zero H chacha f table mult s dm tx prods zeros \<longrightarrow> blind_logup_prove H chacha f table mult s dm tx prods zeros = None)
    \<and> (\<not> blind_logup_meets_zero H chacha f table mult s dm tx prods zeros \<longrightarrow> (\<exists>pf cf ct kf kt s' dm' tx' prods' zeros' vs.
    blind_logup_prove H chacha f table mult s dm tx prods zeros = Some ((pf, alpha, cf, ct), s', dm', tx', prods', zeros')
    \<and> blind_logup_verify H chacha (Suc a) table pf \<lparr>vs_ctx = v, vs_doms = dm, vs_tx = tx, vs_kprod = kprods, vs_kzero = kzeros\<rparr> = Some (Some (kf, kt), vs)
    \<and> vs_tx vs = tx' \<and> vs_doms vs = dm' \<and> twin s' (vs_ctx vs) \<and> batch_ok (vc_delta v) prods' zeros' (vs_kprod vs) (vs_kzero vs)
    \<and> ok_point kf = oc_point cf \<and> mac_valid (vc_delta v) (oc_value cf) (ok_key kf)
    \<and> eval_mle (map (\<lambda>x. phi (sint x)) f) (oc_point cf) = Some (pa_x (oc_value cf))
    \<and> ok_point kt = oc_point ct \<and> mac_valid (vc_delta v) (oc_value ct) (ok_key kt)
    \<and> eval_mle (map (\<lambda>m. phi (uint m)) mult) (oc_point ct) = Some (pa_x (oc_value ct))))"
proof (intro conjI impI blind_logup_panics [OF assms(1-3,5,8-10)])
  assume ok: "\<not> blind_logup_meets_zero H chacha f table mult s dm tx prods zeros"
  let ?d = "vc_delta v"
  have id: "alpha \<in> identity_at f table mult" using identity_complete [OF assms(4)] assms(7) by (simp add: identity_at_def)
  obtain pf pt_f pt_t cq cp kq kp st vs where
    r: "blind_logup_prove H chacha f table mult s dm tx prods zeros
      = Some ((pf, alpha, \<lparr>oc_point = pt_f, oc_value = prover_sub (prover_from_public alpha) cq\<rparr>, \<lparr>oc_point = pt_t, oc_value = prover_sub prover_zero cp\<rparr>),
          bs_stream st, bs_doms st, bs_tx st, bs_prod st, bs_zero st)"
    "blind_logup_verify H chacha (Suc a) table pf \<lparr>vs_ctx = v, vs_doms = dm, vs_tx = tx, vs_kprod = kprods, vs_kzero = kzeros\<rparr>
      = Some (Some (\<lparr>ok_point = pt_f, ok_key = key_sub (key_from_public alpha ?d) kq\<rparr>, \<lparr>ok_point = pt_t, ok_key = key_sub key_zero kp\<rparr>), vs)"
    "sides_ok chacha ?d [] st vs" "mac_valid ?d cq kq" "mac_valid ?d cp kp" "length pt_f = Suc a" "length pt_t = Suc b"
    "pa_x cq = mle_at (lift_vals alpha f) pt_f" "pa_x cp = mle_at (neg_mults mult) pt_t"
    by (rule blind_logup_run [OF assms(1-3) ok assms(5,6) id assms(8) refl assms(9,10)])
  note s = sides_facts [OF r(3)]
  let ?cf = "\<lparr>oc_point = pt_f, oc_value = prover_sub (prover_from_public alpha) cq\<rparr>" and ?ct = "\<lparr>oc_point = pt_t, oc_value = prover_sub prover_zero cp\<rparr>"
    and ?kf = "\<lparr>ok_point = pt_f, ok_key = key_sub (key_from_public alpha ?d) kq\<rparr>" and ?kt = "\<lparr>ok_point = pt_t, ok_key = key_sub key_zero kp\<rparr>"
  have "mac_valid ?d prover_zero key_zero" by (simp add: mac_valid_def prover_zero_def key_zero_def)
  then have k: "mac_valid ?d (prover_sub (prover_from_public alpha) cq) (key_sub (key_from_public alpha ?d) kq)"
    "mac_valid ?d (prover_sub prover_zero cp) (key_sub key_zero kp)"
    using r(4,5) by (blast intro: fp2_mac.valid_sub fp2_mac.valid_public)+
  have x: "eval_mle (map (\<lambda>x. phi (sint x)) f) pt_f = Some (alpha - pa_x cq)"
    using mle_at_affine [of f pt_f alpha "\<lambda>x. phi (sint x)"] assms(1) r(6,8) by (simp add: eval_mle_full mle_at_loop lift_vals_phi)
  have y: "eval_mle (map (\<lambda>m. phi (uint m)) mult) pt_t = Some (0 - pa_x cp)"
    using mle_at_affine [of mult pt_t 0 "\<lambda>m. phi (uint m)"] assms(2,3) r(7,9) by (simp add: eval_mle_full mle_at_loop neg_mults_phi)
  show "\<exists>pf cf ct kf kt s' dm' tx' prods' zeros' vs.
    blind_logup_prove H chacha f table mult s dm tx prods zeros = Some ((pf, alpha, cf, ct), s', dm', tx', prods', zeros')
    \<and> blind_logup_verify H chacha (Suc a) table pf \<lparr>vs_ctx = v, vs_doms = dm, vs_tx = tx, vs_kprod = kprods, vs_kzero = kzeros\<rparr> = Some (Some (kf, kt), vs)
    \<and> vs_tx vs = tx' \<and> vs_doms vs = dm' \<and> twin s' (vs_ctx vs) \<and> batch_ok (vc_delta v) prods' zeros' (vs_kprod vs) (vs_kzero vs)
    \<and> ok_point kf = oc_point cf \<and> mac_valid (vc_delta v) (oc_value cf) (ok_key kf)
    \<and> eval_mle (map (\<lambda>x. phi (sint x)) f) (oc_point cf) = Some (pa_x (oc_value cf))
    \<and> ok_point kt = oc_point ct \<and> mac_valid (vc_delta v) (oc_value ct) (ok_key kt)
    \<and> eval_mle (map (\<lambda>m. phi (uint m)) mult) (oc_point ct) = Some (pa_x (oc_value ct))"
    by (rule exI [of _ pf], rule exI [of _ ?cf], rule exI [of _ ?ct], rule exI [of _ ?kf], rule exI [of _ ?kt], rule exI [of _ "bs_stream st"],
        rule exI [of _ "bs_doms st"], rule exI [of _ "bs_tx st"], rule exI [of _ "bs_prod st"], rule exI [of _ "bs_zero st"], rule exI [of _ vs])
       (use r(1,2) s(2,3,4,6) k x y in simp)
qed

section \<open>A small blind lookup\<close>

text \<open>The transfers of a plan as draws at consecutive domains.\<close>

fun plan_draws :: "u64 \<Rightarrow> nat list \<Rightarrow> (u64 \<times> nat) list" where
  "plan_draws d [] = []"
| "plan_draws d (n # plan) = (d, n) # plan_draws (d + 1) plan"

lemma plan_ok_draws:
  assumes "run_machine (prover_draw chacha) (map (\<lambda>(d, n). DFull d n) (plan_draws (dm_next dm) plan)) s \<noteq> None"
    and "uint (dm_next dm) + int (length plan) \<le> uint CORRELATION_DOMAIN_LIMIT"
  shows "plan_ok chacha plan dm s"
  using assms
proof (induction plan arbitrary: dm s)
  case (Cons n plan)
  obtain fulls s' where d: "draw_fulls chacha (dm_next dm) n s = Some (fulls, s')"
    "run_machine (prover_draw chacha) (map (\<lambda>(d, n). DFull d n) (plan_draws (dm_next dm + 1) plan)) s' \<noteq> None"
    using Cons.prems(1) unfolding plan_draws.simps list.map prod.case by (rule draws_Cons)
  have "uint (dm_next dm) + 1 < 2 ^ 64" using Cons.prems(2) uint_lt2p [of CORRELATION_DOMAIN_LIMIT] by simp
  then have u: "uint (dm_next dm + 1) = uint (dm_next dm) + 1" by (simp add: uint_word_ariths)
  then have "doms_take 1 dm = Some (dm_next dm, dm\<lparr>dm_next := dm_next dm + 1\<rparr>)"
    using Cons.prems(2) \<open>uint (dm_next dm) + 1 < 2 ^ 64\<close> by (simp add: doms_take_def checked_add_def word_le_def word_less_def)
  then show ?case
    using d(1) Cons.IH [of "dm\<lparr>dm_next := dm_next dm + 1\<rparr>" s'] d(2) Cons.prems(2) u by (simp add: take_masks_def)
qed simp

text \<open>A hash whose challenges are all the same.\<close>

definition ones_hash :: blake3 where
  "ones_hash = \<lparr>b3_hash = (\<lambda>b. b), b3_derive = (\<lambda>d b. [1, 0, 0, 0, 0, 0, 0, 0])\<rparr>"

lemma ones_challenge:
  assumes "is_fiat_shamir tx" "challenge_fp2 ones_hash tx = Some (r, tx')"
  shows "r = 1 \<or> r = Fp2 1 1"
proof -
  have "c = 1" if "sample_fp (fs_sample_u64 ones_hash p ctx td i req limb) n = Some c" for p ctx td i req limb n c
    using that by (auto simp: sample_fp_def fs_sample_u64_def ones_hash_def Let_def dest!: find_map_Some split: if_splits)
  then have "resp = RespFp2 1 1" if "fs_response ones_hash st td ReqFp2 = Inr resp" for st td resp
    using that by (auto simp: fs_response_def Let_def split: option.splits)
  then have "\<exists>resp tx1. challenge_response_of ones_hash ReqFp2 tx = (Some resp, tx1) \<and> (resp = RespFp2 1 0 \<or> resp = RespFp2 1 1)"
    using assms(1) by (auto simp: is_fiat_shamir_def challenge_cores split: challenge_splits)
  moreover have "fp_new 1 = 1" "fp_new 0 = 0" using fp_new_of_int [of 1] fp_new_of_int [of 0] by simp_all
  ultimately show ?thesis
    using assms(2) by (auto simp: challenge_fp2_def one_fp2_def split: if_splits)
qed

text \<open>With a hash that never answers zero, no coordinate is zero: the engine's client lemmas on a sink that keeps this, too.\<close>

definition never_zero :: "blake3 \<Rightarrow> bool" where
  "never_zero H \<longleftrightarrow> (\<forall>r. drawn H r \<longrightarrow> r \<noteq> 0)"

lemma never_zero_sink:
  assumes "never_zero H"
  shows "layer_sink (probe (blind_sink H chacha))
    (\<lambda>plan point cp cq (st, z). \<not> z \<and> 0 \<notin> set point \<and> blind_at H chacha rt vs0 krp krq delta plan point cp cq st)
    (\<lambda>plan xs rs lam claim cpref (st, z). \<not> z \<and> 0 \<notin> set xs \<and> 0 \<notin> set rs \<and> blind_in H chacha rt vs0 krp krq delta plan xs rs lam claim cpref st)"
proof (unfold_locales, goal_cases)
  case (1 plan point cp cq st)
  then show ?case using blind_lambda_step [of H chacha rt vs0 krp krq delta plan point cp cq "fst st"] by (cases st) auto
next
  case (2 plan x xs rs lam claim cpref st h)
  then show ?case using blind_round_step [of H chacha rt vs0 krp krq delta plan x xs rs lam claim cpref "fst st" h] assms
    by (cases st) (fastforce simp: never_zero_def)
next
  case (3 plan xs rs lam claim cpref st h)
  then show ?case by (cases st) auto
next
  case (4 plan rs lam claim cpref st a b c d)
  then show ?case using blind_splits_step [of H chacha rt vs0 krp krq delta plan rs lam claim cpref "fst st" a b c d] assms
    by (cases st) (fastforce simp: never_zero_def)
qed

lemma never_zero_tree:
  assumes "never_zero H" "length (lq_a lq) = 2 ^ Suc k" "length (mat_p lp (2 ^ Suc k)) = 2 ^ Suc k"
    and "sides_ok chacha delta (2 # tree_plan 0 k @ plan) (new_blind_sink s tx dm prods zeros) vs"
  shows "\<not> blind_meets_zero H chacha lp lq s dm tx prods zeros"
proof -
  let ?st = "new_blind_sink s tx dm prods zeros" and ?p = "mat_p lp (2 ^ Suc k)" and ?q = "mat_q lq"
  obtain rp rq where root: "frac_root ?p ?q = (rp, rq)" by (cases "frac_root ?p ?q")
  have new: "bs_rounds_cur ?st = []" "bs_layers ?st = []" by (simp_all add: new_blind_sink_def)
  have q: "length ?q = length ?p" using assms(2,3) by (simp add: mat_q_def)
  obtain st0 vs0 krp krq where r: "sk_root (blind_sink H chacha) rp rq ?st = Some st0"
    "blind_at H chacha (frame_of st0) vs0 krp krq delta (tree_plan 0 k @ plan) [] rp rq st0"
    by (rule blind_root_step [OF assms(4) new, where p = rp and q = rq and H = H])
  have "\<exists>s'. sk_root (probe (blind_sink H chacha)) a b (?st, False) = Some s' \<and> (case s' of (st, z) \<Rightarrow>
      \<not> z \<and> 0 \<notin> set ([] :: fp2 list) \<and> blind_at H chacha (frame_of st0) vs0 krp krq delta (tree_plan 0 k @ plan) [] a b st)" if "frac_root ?p ?q = (a, b)" for a b
    using r root that by simp
  from layer_sink.tree_run [OF never_zero_sink [OF assms(1)] assms(3) q this] show ?thesis
    using assms(2) by (auto simp: blind_meets_zero_def meets_zero_def engine_reference)
qed

lemma never_zero_lookup:
  assumes "never_zero H" "length f = 2 ^ Suc a" "length table = 2 ^ Suc b" "length mult = length table"
    and "is_fiat_shamir tx" "twin s v" "batch_ok (vc_delta v) prods zeros kprods kzeros"
    and "plan_ok chacha (2 # tree_plan 0 a @ 2 # tree_plan 0 b @ [4]) dm s"
  shows "\<not> blind_logup_meets_zero H chacha f table mult s dm tx prods zeros"
proof -
  obtain alpha tx0 where al: "challenge_fp2 H tx = Some (alpha, tx0)" "is_fiat_shamir tx0" using fs_challenge [OF assms(5)] by blast
  have l1: "length (lq_a (lift_q f alpha)) = 2 ^ Suc a" "length (mat_p Ones (2 ^ Suc a)) = 2 ^ Suc a" using assms(2) by simp_all
  have l2: "length (lq_a (lift_q table alpha)) = 2 ^ Suc b" "length (mat_p (NegMult mult) (2 ^ Suc b)) = 2 ^ Suc b" using assms(3,4) by simp_all
  have s0: "sides_ok chacha (vc_delta v) (2 # tree_plan 0 a @ 2 # tree_plan 0 b @ [4]) (new_blind_sink s tx0 dm prods zeros)
      \<lparr>vs_ctx = v, vs_doms = dm, vs_tx = tx0, vs_kprod = kprods, vs_kzero = kzeros\<rparr>"
    using assms(6-8) al(2) by (simp add: sides_ok_def new_blind_sink_def)
  show ?thesis
  proof (rule blind_tree_outcome [OF l1 s0, of H])
    assume "blind_meets_zero H chacha Ones (lift_q f alpha) s dm tx0 prods zeros"
    then show ?thesis using never_zero_tree [OF assms(1) l1 s0] by blast
  next
    fix pf pt cp cq rp rq st kcp kcq krp krq vs'
    assume a: "\<not> blind_meets_zero H chacha Ones (lift_q f alpha) s dm tx0 prods zeros"
      "blind_prove_frac_tree H chacha Ones (lift_q f alpha) s dm tx0 prods zeros = Some ((pf, pt, cp, cq, rp, rq), st)"
      "sides_ok chacha (vc_delta v) (2 # tree_plan 0 b @ [4]) st vs'"
    show ?thesis using never_zero_tree [OF assms(1) l2 sides_renew [OF a(3)]] a(1,2) al(1) by (simp add: blind_logup_meets_zero_def)
  qed
qed

lemma ones_never_zero: "never_zero ones_hash"
proof -
  have "(1 :: fp) \<noteq> 0" by code_simp
  then have "Fp2 1 1 \<noteq> (0 :: fp2)" by (simp add: zero_fp2_def)
  then show ?thesis unfolding never_zero_def drawn_def using ones_challenge by force
qed

lemma ones_off_poles:
  assumes "is_fiat_shamir tx" "challenge_fp2 ones_hash tx = Some (alpha, tx0)"
  shows "alpha \<notin> lookup_poles [3, 3, 5, 3] [3, 5]"
proof -
  have s: "sint (3 :: i16) = 3" "sint (5 :: i16) = 5" by code_simp+
  have "(1 :: fp) \<noteq> 0" by code_simp
  then have "Fp2 1 1 \<noteq> phi z" for z by (simp add: phi_def fp2_from_base_def)
  moreover have "phi 1 \<noteq> phi 3" "phi 1 \<noteq> phi 5" unfolding phi_eq_iff by simp_all
  ultimately show ?thesis using ones_challenge [OF assms] by (auto simp: lookup_poles_def s)
qed

lemma small_plan:
  "plan_ok demo_chacha (2 # tree_plan 0 1 @ 2 # tree_plan 0 0 @ [4]) (doms_new 7) (demo_stream 31)"
proof -
  have e: "2 # tree_plan 0 1 @ 2 # tree_plan 0 0 @ [4] = [2, 4, 3, 2, 4, 3, 2, 4, 3, 4]" by (simp add: One_nat_def)
  have "run_machine (prover_draw demo_chacha) (map (\<lambda>(d, n). DFull d n) (plan_draws 7 [2, 4, 3, 2, 4, 3, 2, 4, 3, 4])) (demo_stream 31) \<noteq> None"
    unfolding demo_stream_def by (rule pool_serves) (simp_all add: domain_bits)
  then show ?thesis unfolding e by (intro plan_ok_draws) (simp_all add: doms_new_def CORRELATION_DOMAIN_LIMIT_def)
qed

theorem blind_logup_complete_witness:
  "\<exists>alpha tx0 pf cf ct kf kt s' dm' tx' prods' zeros' vs. challenge_fp2 ones_hash demo_fs = Some (alpha, tx0)
    \<and> blind_logup_prove ones_hash demo_chacha [3, 3, 5, 3] [3, 5] [3, 1] (demo_stream 31) (doms_new 7) demo_fs [] []
        = Some ((pf, alpha, cf, ct), s', dm', tx', prods', zeros')
    \<and> blind_logup_verify ones_hash demo_chacha 2 [3, 5] pf \<lparr>vs_ctx = demo_ctx 31, vs_doms = doms_new 7, vs_tx = demo_fs, vs_kprod = [], vs_kzero = []\<rparr>
        = Some (Some (kf, kt), vs)
    \<and> mac_valid 3 (oc_value cf) (ok_key kf) \<and> batch_ok 3 prods' zeros' (vs_kprod vs) (vs_kzero vs)"
proof -
  obtain alpha tx0 where al: "challenge_fp2 ones_hash demo_fs = Some (alpha, tx0)" using fs_challenge [OF demo_fs] by blast
  have m: "multiplicities_match [3, 3, 5, 3] [3, 5] [3, 1]" by (auto simp: multiplicities_match_def total_mult_def)
  have l: "length [3, 3, 5, 3 :: i16] = 2 ^ Suc 1" "length [3, 5 :: i16] = 2 ^ Suc 0" "length [3, 1 :: u32] = length [3, 5 :: i16]" by simp_all
  have d: "vc_delta (demo_ctx 31) = 3" by (simp add: demo_ctx_def ctx_from_pcg_pool_def)
  have b: "batch_ok (vc_delta (demo_ctx 31)) [] [] [] []" by (simp add: batch_ok_def)
  from blind_logup_complete [OF l m demo_fs al ones_off_poles [OF demo_fs al] demo_twin b small_plan]
    never_zero_lookup [OF ones_never_zero l demo_fs demo_twin b small_plan] al show ?thesis
    unfolding d Suc_1 by blast
qed

end
