(* ===== verification/Logup_Tables.thy ===== *)
theory Logup_Tables
  imports Logup_Blind_Complete
begin

text \<open>
  The shared table side of \<^verbatim>\<open>volta-proto/src/logup.rs\<close>: one table content is proved once for all its lookup sites. The
  authenticated root fractions of the sites are added up by a chain of authenticated products, and the sum is
  checked against the root of the table tree over the global multiplicity vector.
\<close>

section \<open>Prover and verifier\<close>

record table_side_proof =
  ts_table :: blind_frac_proof
  ts_agg_corrs :: "(fp2 \<times> fp2 \<times> fp2) list"
  ts_cross_corrs :: "fp2 \<times> fp2 \<times> fp2 \<times> fp2"

definition table_side_bytes :: "table_side_proof \<Rightarrow> u64" where
  "table_side_bytes pf = blind_frac_bytes (ts_table pf) + 48 * word_of_nat (length (ts_agg_corrs pf)) + 64"

definition lift_fps :: "fp2 \<Rightarrow> fp list \<Rightarrow> fp2 list" where
  "lift_fps alpha table = map (\<lambda>v. alpha - fp2_from_base v) table"

text \<open>The chain that adds up the fractions of the sites: three products for every site after the first.\<close>

fun agg_prover ::
  "chacha \<Rightarrow> prover_authed \<Rightarrow> prover_authed \<Rightarrow> (prover_authed \<times> prover_authed) list \<Rightarrow> blind_state
   \<Rightarrow> ((fp2 \<times> fp2 \<times> fp2) list \<times> prover_authed \<times> prover_authed \<times> blind_state) option" where
  "agg_prover chacha pr qr [] st = Some ([], pr, qr, st)"
| "agg_prover chacha pr qr ((ps, qs) # sites) st =
     do { let (x0, x1, x2) = (pa_x pr * pa_x qs, pa_x ps * pa_x qr, pa_x qr * pa_x qs);
          (masks, dm, s) \<leftarrow> take_masks chacha 3 (bs_doms st) (bs_stream st);
          m0 \<leftarrow> get masks 0; m1 \<leftarrow> get masks 1; m2 \<leftarrow> get masks 2;
          let (c0, c1, c2) = (x0 - fc_x m0, x1 - fc_x m1, x2 - fc_x m2);
          tx \<leftarrow> append_fp2s ''logup_aggregate_corrections'' [c0, c1, c2] (bs_tx st);
          let z1 = full_authenticate m0 x0;
          let z2 = full_authenticate m1 x1;
          let z3 = full_authenticate m2 x2;
          (corrs, pr, qr, st) \<leftarrow> agg_prover chacha (prover_add z1 z2) z3 sites
             (st\<lparr>bs_stream := s, bs_doms := dm, bs_tx := tx, bs_prod := bs_prod st @ [(pr, qs, z1), (ps, qr, z2), (qr, qs, z3)]\<rparr>);
          Some ((c0, c1, c2) # corrs, pr, qr, st) }"

definition finish_table_side_prove ::
  "chacha \<Rightarrow> blind_frac_proof \<Rightarrow> fp2 list \<Rightarrow> prover_authed \<Rightarrow> prover_authed \<Rightarrow> prover_authed \<times> prover_authed \<Rightarrow> fp2
   \<Rightarrow> (prover_authed \<times> prover_authed) list \<Rightarrow> blind_state \<Rightarrow> ((table_side_proof \<times> open_claim) \<times> blind_state) option" where
  "finish_table_side_prove chacha tp pt_t cp_t cq_t roots_t t_eval sites st =
     do { let st = st\<lparr>bs_zero := bs_zero st @ [prover_sub cq_t (prover_from_public t_eval)]\<rparr>;
          (p, q) \<leftarrow> get sites 0;
          (agg, pr, qr, st) \<leftarrow> agg_prover chacha p q (tl sites) st;
          (cross, st) \<leftarrow> cross_prover chacha (pr, qr) roots_t st;
          Some ((\<lparr>ts_table = tp, ts_agg_corrs = agg, ts_cross_corrs = cross\<rparr>,
                 \<lparr>oc_point = pt_t, oc_value = prover_sub prover_zero cp_t\<rparr>), st) }"

definition table_side_prove ::
  "blake3 \<Rightarrow> chacha \<Rightarrow> fp list \<Rightarrow> u32 list \<Rightarrow> fp2 \<Rightarrow> (prover_authed \<times> prover_authed) list \<Rightarrow> correlation_stream \<Rightarrow> doms \<Rightarrow> transcript
   \<Rightarrow> prod_triples \<Rightarrow> prover_authed list \<Rightarrow> ((table_side_proof \<times> open_claim) \<times> blind_state) option" where
  "table_side_prove H chacha table mult alpha sites s dm tx prods zeros =
     (if sites = [] then None
      else do { ((tp, pt_t, cp_t, cq_t, roots_t), st) \<leftarrow>
                  blind_prove_frac_tree H chacha (NegMult mult) (lift_q_fp table alpha) s dm tx prods zeros;
                t_eval \<leftarrow> eval_mle_counted (lift_fps alpha table) pt_t;
                finish_table_side_prove chacha tp pt_t cp_t cq_t roots_t t_eval sites st })"

fun agg_verifier ::
  "chacha \<Rightarrow> verifier_key \<Rightarrow> verifier_key \<Rightarrow> (verifier_key \<times> verifier_key) list \<Rightarrow> (fp2 \<times> fp2 \<times> fp2) list \<Rightarrow> verifier_side
   \<Rightarrow> (verifier_key \<times> verifier_key \<times> verifier_side) option" where
  "agg_verifier chacha kpr kqr ((kps, kqs) # ksites) ((c0, c1, c2) # corrs) vs =
     do { tx \<leftarrow> append_fp2s ''logup_aggregate_corrections'' [c0, c1, c2] (vs_tx vs);
          (kz, dm, v) \<leftarrow> take_keys chacha [c0, c1, c2] (vs_doms vs) (vs_ctx vs);
          k0 \<leftarrow> get kz 0; k1 \<leftarrow> get kz 1; k2 \<leftarrow> get kz 2;
          agg_verifier chacha (key_add k0 k1) k2 ksites corrs
            (vs\<lparr>vs_ctx := v, vs_doms := dm, vs_tx := tx, vs_kprod := vs_kprod vs @ [(kpr, kqs, k0), (kps, kqr, k1), (kqr, kqs, k2)]\<rparr>) }"
| "agg_verifier chacha kpr kqr _ _ vs = Some (kpr, kqr, vs)"

definition table_side_verify ::
  "blake3 \<Rightarrow> chacha \<Rightarrow> fp list \<Rightarrow> fp2 \<Rightarrow> table_side_proof \<Rightarrow> (verifier_key \<times> verifier_key) list \<Rightarrow> verifier_side
   \<Rightarrow> (open_key option \<times> verifier_side) option" where
  "table_side_verify H chacha table alpha pf ksites vs =
     (if ksites = [] \<or> length (ts_agg_corrs pf) \<noteq> length ksites - 1 then Some (None, vs)
      else do { (res, vs) \<leftarrow> blind_verify_frac_tree H chacha (trailing_zeros (length table)) (ts_table pf) vs;
                (case res of
                   None \<Rightarrow> Some (None, vs)
                 | Some (pt_t, kcp_t, kcq_t, kroots_t) \<Rightarrow>
                     do { t_eval \<leftarrow> eval_mle (lift_fps alpha table) pt_t;
                          let vs = vs\<lparr>vs_kzero := vs_kzero vs @ [key_sub kcq_t (key_from_public t_eval (vc_delta (vs_ctx vs)))]\<rparr>;
                          (kp, kq) \<leftarrow> get ksites 0;
                          (kpr, kqr, vs) \<leftarrow> agg_verifier chacha kp kq (tl ksites) (ts_agg_corrs pf) vs;
                          vs \<leftarrow> cross_verifier chacha (kpr, kqr) kroots_t (ts_cross_corrs pf) vs;
                          Some (Some \<lparr>ok_point = pt_t, ok_key = key_sub key_zero kcp_t\<rparr>, vs) }) })"

section \<open>The chain adds up the fractions\<close>

definition site_ok :: "fp2 \<Rightarrow> prover_authed \<times> prover_authed \<Rightarrow> verifier_key \<times> verifier_key \<Rightarrow> bool" where
  "site_ok delta = (\<lambda>(p, q) (kp, kq). mac_valid delta p kp \<and> mac_valid delta q kq \<and> pa_x q \<noteq> 0)"

definition site_sum :: "(prover_authed \<times> prover_authed) list \<Rightarrow> fp2" where
  "site_sum sites = (\<Sum>(p, q)\<leftarrow>sites. pa_x p / pa_x q)"

lemma agg_run:
  assumes "list_all2 (site_ok delta) sites ksites" "site_ok delta (pr, qr) (kpr, kqr)"
    and "sides_ok chacha delta (replicate (length sites) 3 @ plan) st vs"
  shows "\<exists>corrs pr' qr' st' kpr' kqr' vs'. agg_prover chacha pr qr sites st = Some (corrs, pr', qr', st')
    \<and> agg_verifier chacha kpr kqr ksites corrs vs = Some (kpr', kqr', vs') \<and> sides_ok chacha delta plan st' vs'
    \<and> length corrs = length sites \<and> site_ok delta (pr', qr') (kpr', kqr') \<and> pa_x pr' / pa_x qr' = pa_x pr / pa_x qr + site_sum sites"
  using assms
proof (induction sites ksites arbitrary: pr qr kpr kqr st vs rule: list_all2_induct)
  case Nil
  then show ?case by (simp add: site_sum_def)
next
  case (Cons site sites ksite ksites)
  obtain ps qs kps kqs where s: "site = (ps, qs)" "ksite = (kps, kqs)" by (cases site, cases ksite)
  note v = Cons.hyps(1) [unfolded s site_ok_def prod.case] and r = Cons.prems(1) [unfolded site_ok_def prod.case]
  have so: "sides_ok chacha delta (3 # replicate (length sites) 3 @ plan) st vs" using Cons.prems(2) by simp
  note f = sides_facts [OF so]
  let ?x0 = "pa_x pr * pa_x qs" and ?x1 = "pa_x ps * pa_x qr" and ?x2 = "pa_x qr * pa_x qs"
  obtain masks dm s keys w where m: "take_masks chacha 3 (bs_doms st) (bs_stream st) = Some (masks, dm, s)"
      "plan_ok chacha (replicate (length sites) 3 @ plan) dm s" "length masks = 3"
    and k: "take_keys chacha [?x0 - fc_x (masks ! 0), ?x1 - fc_x (masks ! 1), ?x2 - fc_x (masks ! 2)] (bs_doms st) (vs_ctx vs) = Some (keys, dm, w)"
      "twin s w" "vc_delta w = delta" "length keys = 3"
      "mac_valid delta (full_authenticate (masks ! 0) ?x0) (keys ! 0)" "mac_valid delta (full_authenticate (masks ! 1) ?x1) (keys ! 1)"
      "mac_valid delta (full_authenticate (masks ! 2) ?x2) (keys ! 2)"
    by (rule transfer_three [OF f(7,4,5), of ?x0 ?x1 ?x2])
  let ?c = "[?x0 - fc_x (masks ! 0), ?x1 - fc_x (masks ! 1), ?x2 - fc_x (masks ! 2)]"
  obtain tx where tx: "append_fp2s ''logup_aggregate_corrections'' ?c (bs_tx st) = Some tx" "is_fiat_shamir tx"
    using fs_append [OF f(1), of "''logup_aggregate_corrections''" ?c] by auto
  let ?z1 = "full_authenticate (masks ! 0) ?x0" and ?z2 = "full_authenticate (masks ! 1) ?x1" and ?z3 = "full_authenticate (masks ! 2) ?x2"
  let ?prods = "[(pr, qs, ?z1), (ps, qr, ?z2), (qr, qs, ?z3)]" and ?kprods = "[(kpr, kqs, keys ! 0), (kps, kqr, keys ! 1), (kqr, kqs, keys ! 2)]"
  let ?st = "st\<lparr>bs_stream := s, bs_doms := dm, bs_tx := tx, bs_prod := bs_prod st @ ?prods\<rparr>"
    and ?vs = "vs\<lparr>vs_ctx := w, vs_doms := dm, vs_tx := tx, vs_kprod := vs_kprod vs @ ?kprods\<rparr>"
  have "batch_ok delta ?prods [] ?kprods []" using v r k(5-7) by (simp add: batch_ok_def full_authenticate_def)
  from batch_ok_append [OF f(6) this] have so': "sides_ok chacha delta (replicate (length sites) 3 @ plan) ?st ?vs"
    using k(2,3) m(2) tx(2) by (simp add: sides_ok_def)
  have ok: "site_ok delta (prover_add ?z1 ?z2, ?z3) (key_add (keys ! 0) (keys ! 1), keys ! 2)"
    using k(5-7) v r fp2_mac.valid_add [OF k(5,6)] by (simp add: site_ok_def full_authenticate_def)
  obtain corrs pr' qr' st' kpr' kqr' vs' where IH: "agg_prover chacha (prover_add ?z1 ?z2) ?z3 sites ?st = Some (corrs, pr', qr', st')"
    "agg_verifier chacha (key_add (keys ! 0) (keys ! 1)) (keys ! 2) ksites corrs ?vs = Some (kpr', kqr', vs')" "sides_ok chacha delta plan st' vs'"
    "length corrs = length sites" "site_ok delta (pr', qr') (kpr', kqr')"
    "pa_x pr' / pa_x qr' = pa_x (prover_add ?z1 ?z2) / pa_x ?z3 + site_sum sites"
    using Cons.IH [OF ok so'] by blast
  have "agg_prover chacha pr qr (site # sites) st = Some ((?c ! 0, ?c ! 1, ?c ! 2) # corrs, pr', qr', st')"
    using m(1,3) tx(1) IH(1) by (simp add: s)
  moreover have "agg_verifier chacha kpr kqr (ksite # ksites) ((?c ! 0, ?c ! 1, ?c ! 2) # corrs) vs = Some (kpr', kqr', vs')"
    using k(1,4) tx(1) f(2,3) IH(2) by (simp add: s)
  moreover have "pa_x pr' / pa_x qr' = pa_x pr / pa_x qr + site_sum (site # sites)"
    using IH(6) v r by (simp add: s site_sum_def full_authenticate_def add_frac_eq mult.commute)
  ultimately show ?case using IH(3-5) by auto
qed

section \<open>The table side\<close>

definition table_sum :: "fp list \<Rightarrow> u32 list \<Rightarrow> fp2 \<Rightarrow> fp2" where
  "table_sum table mult alpha = (\<Sum>(t, m)\<leftarrow>zip table mult. phi (uint m) / (alpha - fp2_from_base t))"

lemma table_leaves [simp]: "mat_q (lift_q_fp table alpha) = lift_fps alpha table" "length (lq_a (lift_q_fp table alpha)) = length table"
  "length (lift_fps alpha table) = length table"
  by (auto simp: mat_q_def lift_q_fp_def lift_fps_def minus_fp2_def fp2_from_base_def)

lemma table_fraction:
  assumes "length table = 2 ^ b" "length mult = length table" "alpha \<notin> fp2_from_base ` set table"
    and "frac_root (neg_mults mult) (lift_fps alpha table) = (p, q)"
  shows "q \<noteq> 0" "p / q = - table_sum table mult alpha"
proof -
  have nz: "den_prod (lift_fps alpha table) \<noteq> 0" using assms(3) by (auto simp: den_prod_nonzero lift_fps_def)
  then show "q \<noteq> 0" using frac_root_sum(1) [of "neg_mults mult" b "lift_fps alpha table"] assms(1,2,4) by simp
  have "num_sum (neg_mults mult) (lift_fps alpha table) = (\<Sum>(a, b)\<leftarrow>zip (neg_mults mult) (lift_fps alpha table). a / b)"
    using assms(2) by (intro num_sum_list) simp
  also have "\<dots> = - table_sum table mult alpha"
    using assms(2) unfolding neg_mults_phi lift_fps_def table_sum_def by (induction mult table rule: list_induct2) simp_all
  finally have "num_sum (neg_mults mult) (lift_fps alpha table) = - table_sum table mult alpha" .
  then show "p / q = - table_sum table mult alpha"
    using frac_root_sum [of "neg_mults mult" b "lift_fps alpha table"] assms(1,2,4) nz by simp
qed

lemma table_side_run:
  assumes "length table = 2 ^ Suc b" "length mult = length table" "alpha \<notin> fp2_from_base ` set table"
    and "\<not> blind_meets_zero H chacha (NegMult mult) (lift_q_fp table alpha) s dm tx prods zeros"
    and "sites \<noteq> []" "list_all2 (site_ok delta) sites ksites" "site_sum sites = table_sum table mult alpha"
    and "sides_ok chacha delta (2 # tree_plan 0 b @ replicate (length sites - 1) 3 @ 4 # plan) (new_blind_sink s tx dm prods zeros) vs"
  obtains pf pt cp kp st vs' where
    "table_side_prove H chacha table mult alpha sites s dm tx prods zeros
      = Some ((pf, \<lparr>oc_point = pt, oc_value = prover_sub prover_zero cp\<rparr>), st)"
    "table_side_verify H chacha table alpha pf ksites vs = Some (Some \<lparr>ok_point = pt, ok_key = key_sub key_zero kp\<rparr>, vs')"
    "sides_ok chacha delta plan st vs'" "mac_valid delta cp kp" "length pt = Suc b" "pa_x cp = mle_at (neg_mults mult) pt"
proof -
  obtain p1 pt cp cq rp rq st1 kcp kcq krp krq vs1 where
    f: "blind_prove_frac_tree H chacha (NegMult mult) (lift_q_fp table alpha) s dm tx prods zeros = Some ((p1, pt, cp, cq, rp, rq), st1)"
    "blind_verify_frac_tree H chacha (Suc b) p1 vs = Some (Some (pt, kcp, kcq, krp, krq), vs1)"
    "sides_ok chacha delta (replicate (length sites - 1) 3 @ 4 # plan) st1 vs1" "length pt = Suc b"
    and m: "mac_valid delta cp kcp" "mac_valid delta cq kcq" "mac_valid delta rp krp" "mac_valid delta rq krq"
    and x: "pa_x cp = mle_at (mat_p (NegMult mult) (2 ^ Suc b)) pt" "pa_x cq = mle_at (mat_q (lift_q_fp table alpha)) pt"
      "(pa_x rp, pa_x rq) = frac_root (mat_p (NegMult mult) (2 ^ Suc b)) (mat_q (lift_q_fp table alpha))"
    by (rule blind_tree_run [OF _ _ assms(8,4)]) (use assms(1,2) in simp_all)
  let ?t = "mle_at (lift_fps alpha table) pt"
  have t: "eval_mle_counted (lift_fps alpha table) pt = Some ?t" "eval_mle (lift_fps alpha table) pt = Some ?t"
    using assms(1) f(4) by (simp_all add: eval_mle_counted_Some eval_mle_full mle_at_loop)
  let ?st = "st1\<lparr>bs_zero := bs_zero st1 @ [prover_sub cq (prover_from_public ?t)]\<rparr>"
    and ?vs = "vs1\<lparr>vs_kzero := vs_kzero vs1 @ [key_sub kcq (key_from_public ?t delta)]\<rparr>"
  have "batch_ok delta [] [prover_sub cq (prover_from_public ?t)] [] [key_sub kcq (key_from_public ?t delta)]"
    using x(2) fp2_mac.valid_sub [OF m(2) fp2_mac.valid_public] by (simp add: batch_ok_def)
  from sides_push [OF f(3) this] have s1: "sides_ok chacha delta (replicate (length sites - 1) 3 @ 4 # plan) ?st ?vs" .
  obtain p q sites' where sites: "sites = (p, q) # sites'" using assms(5) by (metis neq_Nil_conv surj_pair)
  then obtain kp kq ksites' where ks: "ksites = (kp, kq) # ksites'" "site_ok delta (p, q) (kp, kq)" "list_all2 (site_ok delta) sites' ksites'"
    using assms(6) by (auto simp: list_all2_Cons1)
  have "sides_ok chacha delta (replicate (length sites') 3 @ 4 # plan) ?st ?vs" using s1 by (simp add: sites)
  from agg_run [OF ks(3,2) this] obtain corrs pr qr st2 kpr kqr vs2 where
    a: "agg_prover chacha p q sites' ?st = Some (corrs, pr, qr, st2)" "agg_verifier chacha kp kq ksites' corrs ?vs = Some (kpr, kqr, vs2)"
    "sides_ok chacha delta (4 # plan) st2 vs2" "length corrs = length sites'" "site_ok delta (pr, qr) (kpr, kqr)"
    "pa_x pr / pa_x qr = pa_x p / pa_x q + site_sum sites'" by blast
  have r: "pa_x rq \<noteq> 0" "pa_x rp / pa_x rq = - table_sum table mult alpha"
    using table_fraction [OF assms(1-3), of "pa_x rp" "pa_x rq"] x(3) [symmetric] by simp_all
  have k: "mac_valid delta pr kpr" "mac_valid delta qr kqr" "pa_x qr \<noteq> 0" using a(5) by (simp_all add: site_ok_def)
  have "pa_x pr / pa_x qr + pa_x rp / pa_x rq = 0" using a(6) assms(7) r(2) by (simp add: sites site_sum_def)
  then have z: "pa_x pr * pa_x rq + pa_x rp * pa_x qr = 0" using r(1) k(3) by (simp add: add_frac_eq)
  obtain cross st3 vs3 where c: "cross_prover chacha (pr, qr) (rp, rq) st2 = Some (cross, st3)"
    "cross_verifier chacha (kpr, kqr) (krp, krq) cross vs2 = Some vs3" "sides_ok chacha delta plan st3 vs3"
    by (rule cross_run [OF a(3) k(1,2) m(3,4) z k(3) r(1)])
  have d: "vc_delta (vs_ctx vs1) = delta" and len: "length ksites' = length sites'"
    using sides_facts(5) [OF f(3)] list_all2_lengthD [OF ks(3)] by simp_all
  have tz: "trailing_zeros (length table) = Suc b" using trailing_zeros_pow [of "Suc b"] unfolding assms(1) .
  show thesis
    by (rule that [of "\<lparr>ts_table = p1, ts_agg_corrs = corrs, ts_cross_corrs = cross\<rparr>" pt cp st3 kcp vs3])
       (use tz f(1,2,4) m(1) x(1) t a(1,2,4) c d len in
         \<open>simp_all add: table_side_prove_def finish_table_side_prove_def table_side_verify_def sites ks Let_def\<close>)
qed

lemma table_side_panics:
  assumes "length table = 2 ^ Suc b" "length mult = length table" "sites \<noteq> []"
    and "sides_ok chacha delta (2 # tree_plan 0 b @ plan) (new_blind_sink s tx dm prods zeros) vs"
    and "blind_meets_zero H chacha (NegMult mult) (lift_q_fp table alpha) s dm tx prods zeros"
  shows "table_side_prove H chacha table mult alpha sites s dm tx prods zeros = None"
proof -
  have "length (lq_a (lift_q_fp table alpha)) = 2 ^ Suc b" "length (mat_p (NegMult mult) (2 ^ Suc b)) = 2 ^ Suc b"
    using assms(1,2) by simp_all
  from blind_tree_panics [OF this assms(4,5)] show ?thesis using assms(3) by (simp add: table_side_prove_def)
qed

section \<open>Multiplicities\<close>

text \<open>The fraction of a site that looks up these values, and multiplicities that count the lookups of all sites (in the field).\<close>

definition lookup_sum :: "fp2 \<Rightarrow> fp list \<Rightarrow> fp2" where
  "lookup_sum alpha vals = (\<Sum>v\<leftarrow>vals. 1 / (alpha - fp2_from_base v))"

definition counts_lookups :: "fp list \<Rightarrow> u32 list \<Rightarrow> fp list list \<Rightarrow> bool" where
  "counts_lookups table mult lookups \<longleftrightarrow>
     (\<forall>w. (of_nat (count_list (concat lookups) w) :: fp) = of_nat (\<Sum>(t, m)\<leftarrow>zip table mult. if t = w then unat m else 0))"

lemma sum_list_count:
  fixes f :: "'a \<Rightarrow> 'b :: comm_semiring_1"
  assumes "finite S" "set xs \<subseteq> S"
  shows "(\<Sum>x\<leftarrow>xs. f x) = (\<Sum>w\<in>S. of_nat (count_list xs w) * f w)"
  using assms
proof (induction xs)
  case (Cons x xs)
  have "(\<Sum>w\<in>S. of_nat (count_list (x # xs) w) * f w) = (\<Sum>w\<in>S. (if w = x then f w else 0) + of_nat (count_list xs w) * f w)"
    by (rule sum.cong) (simp_all add: distrib_right)
  then show ?case using Cons by (simp add: sum.distrib)
qed simp

lemma sum_list_weighted:
  fixes f :: "'a \<Rightarrow> 'b :: comm_semiring_1" and ps :: "('a \<times> u32) list"
  assumes "finite S" "fst ` set ps \<subseteq> S"
  shows "(\<Sum>(t, m)\<leftarrow>ps. of_nat (unat m) * f t) = (\<Sum>w\<in>S. of_nat (\<Sum>(t, m)\<leftarrow>ps. if t = w then unat m else 0) * f w)"
  using assms
proof (induction ps)
  case (Cons p ps)
  obtain t m where p: "p = (t, m)" by (cases p)
  have "(\<Sum>w\<in>S. of_nat (\<Sum>(t, m)\<leftarrow>p # ps. if t = w then unat m else 0) * f w)
      = (\<Sum>w\<in>S. (if w = t then of_nat (unat m) * f w else 0) + of_nat (\<Sum>(t, m)\<leftarrow>ps. if t = w then unat m else 0) * f w)"
    unfolding p by (rule sum.cong) (simp_all add: distrib_right)
  then show ?case using Cons p by (simp add: sum.distrib)
qed simp

lemma lookups_sum_to_table:
  assumes "counts_lookups table mult lookups"
  shows "lookup_sum alpha (concat lookups) = table_sum table mult alpha"
proof -
  let ?S = "set (concat lookups) \<union> fst ` set (zip table mult)" and ?f = "\<lambda>v. 1 / (alpha - fp2_from_base v)"
  have c: "(of_nat n :: fp2) = of_nat m" if "(of_nat n :: fp) = of_nat m" for n m
    using that fp2_from_base_of_nat [of n] fp2_from_base_of_nat [of m] by simp
  have "lookup_sum alpha (concat lookups) = (\<Sum>w\<in>?S. of_nat (count_list (concat lookups) w) * ?f w)"
    unfolding lookup_sum_def by (rule sum_list_count) auto
  also have "\<dots> = (\<Sum>w\<in>?S. of_nat (\<Sum>(t, m)\<leftarrow>zip table mult. if t = w then unat m else 0) * ?f w)"
    using assms by (intro sum.cong refl arg_cong2 [where f = "(*)"] c) (simp_all add: counts_lookups_def)
  also have "\<dots> = (\<Sum>(t, m)\<leftarrow>zip table mult. of_nat (unat m) * ?f t)" by (rule sum_list_weighted [symmetric]) auto
  also have "\<dots> = table_sum table mult alpha"
  proof -
    have "phi (uint m) = of_nat (unat m)" for m :: u32 
      unfolding phi_def fp2_from_base_of_int uint_nat of_int_of_nat_eq fp2_from_base_of_nat ..
    then show ?thesis by (simp add: table_sum_def case_prod_unfold)
  qed
  finally show ?thesis .
qed

lemma sites_sum:
  "list_all2 (\<lambda>(p, q) vals. pa_x p / pa_x q = lookup_sum alpha vals) sites lookups \<Longrightarrow> site_sum sites = lookup_sum alpha (concat lookups)"
  by (induction rule: list_all2_induct) (auto simp: site_sum_def lookup_sum_def)

text \<open>C7. Completeness of the shared table side, for authenticated sites whose root fractions are those of the values they look up, and a
  global multiplicity vector that counts these lookups. If in this run the engine of the table tree asks for a round at a zero
  coordinate, the prover panics; this is the only exception. Otherwise prover and verifier of the table side both return, with the same transcript, domains
  and correlation position; what they push to the batches are true products and zeros with valid keys, and the open claim is the
  authenticated extension of the multiplicities.\<close>

theorem table_side_complete:
  assumes "length table = 2 ^ Suc b" "length mult = length table" "alpha \<notin> fp2_from_base ` set table" "is_fiat_shamir tx"
    and "sites \<noteq> []" "list_all2 (site_ok (vc_delta v)) sites ksites"
    and "list_all2 (\<lambda>(p, q) vals. pa_x p / pa_x q = lookup_sum alpha vals) sites lookups" "counts_lookups table mult lookups"
    and "twin s v" "batch_ok (vc_delta v) prods zeros kprods kzeros"
    and "plan_ok chacha (2 # tree_plan 0 b @ replicate (length sites - 1) 3 @ [4]) dm s"
  shows "(blind_meets_zero H chacha (NegMult mult) (lift_q_fp table alpha) s dm tx prods zeros
      \<longrightarrow> table_side_prove H chacha table mult alpha sites s dm tx prods zeros = None)
    \<and> (\<not> blind_meets_zero H chacha (NegMult mult) (lift_q_fp table alpha) s dm tx prods zeros \<longrightarrow> (\<exists>pf claim st key vs.
    table_side_prove H chacha table mult alpha sites s dm tx prods zeros = Some ((pf, claim), st)
    \<and> table_side_verify H chacha table alpha pf ksites \<lparr>vs_ctx = v, vs_doms = dm, vs_tx = tx, vs_kprod = kprods, vs_kzero = kzeros\<rparr> = Some (Some key, vs)
    \<and> vs_tx vs = bs_tx st \<and> vs_doms vs = bs_doms st \<and> twin (bs_stream st) (vs_ctx vs)
    \<and> batch_ok (vc_delta v) (bs_prod st) (bs_zero st) (vs_kprod vs) (vs_kzero vs)
    \<and> ok_point key = oc_point claim \<and> mac_valid (vc_delta v) (oc_value claim) (ok_key key)
    \<and> eval_mle (map (\<lambda>m. phi (uint m)) mult) (oc_point claim) = Some (pa_x (oc_value claim))))"
proof (intro conjI impI)
  let ?d = "vc_delta v" and ?vs = "\<lparr>vs_ctx = v, vs_doms = dm, vs_tx = tx, vs_kprod = kprods, vs_kzero = kzeros\<rparr>"
  have s0: "sides_ok chacha ?d (2 # tree_plan 0 b @ replicate (length sites - 1) 3 @ [4]) (new_blind_sink s tx dm prods zeros) ?vs"
    using assms(4,9-11) by (simp add: sides_ok_def new_blind_sink_def)
  from table_side_panics [OF assms(1,2,5) s0]
  show "table_side_prove H chacha table mult alpha sites s dm tx prods zeros = None"
    if "blind_meets_zero H chacha (NegMult mult) (lift_q_fp table alpha) s dm tx prods zeros" using that .
  assume ok: "\<not> blind_meets_zero H chacha (NegMult mult) (lift_q_fp table alpha) s dm tx prods zeros"
  have sum: "site_sum sites = table_sum table mult alpha" using sites_sum [OF assms(7)] lookups_sum_to_table [OF assms(8)] by simp
  obtain pf pt cp kp st vs where r: "table_side_prove H chacha table mult alpha sites s dm tx prods zeros
      = Some ((pf, \<lparr>oc_point = pt, oc_value = prover_sub prover_zero cp\<rparr>), st)"
    "table_side_verify H chacha table alpha pf ksites ?vs = Some (Some \<lparr>ok_point = pt, ok_key = key_sub key_zero kp\<rparr>, vs)"
    "sides_ok chacha ?d [] st vs" "mac_valid ?d cp kp" "length pt = Suc b" "pa_x cp = mle_at (neg_mults mult) pt"
    by (rule table_side_run [OF assms(1-3) ok assms(5,6) sum s0])
  note s = sides_facts [OF r(3)]
  have z: "mac_valid ?d prover_zero key_zero" by (simp add: mac_valid_def prover_zero_def key_zero_def)
  have y: "eval_mle (map (\<lambda>m. phi (uint m)) mult) pt = Some (0 - pa_x cp)"
    using mle_at_affine [of mult pt 0 "\<lambda>m. phi (uint m)"] assms(1,2) r(5,6) by (simp add: eval_mle_full mle_at_loop neg_mults_phi)
  show "\<exists>pf claim st key vs. table_side_prove H chacha table mult alpha sites s dm tx prods zeros = Some ((pf, claim), st)
    \<and> table_side_verify H chacha table alpha pf ksites ?vs = Some (Some key, vs)
    \<and> vs_tx vs = bs_tx st \<and> vs_doms vs = bs_doms st \<and> twin (bs_stream st) (vs_ctx vs)
    \<and> batch_ok ?d (bs_prod st) (bs_zero st) (vs_kprod vs) (vs_kzero vs)
    \<and> ok_point key = oc_point claim \<and> mac_valid ?d (oc_value claim) (ok_key key)
    \<and> eval_mle (map (\<lambda>m. phi (uint m)) mult) (oc_point claim) = Some (pa_x (oc_value claim))"
    by (rule exI [of _ pf], rule exI [of _ "\<lparr>oc_point = pt, oc_value = prover_sub prover_zero cp\<rparr>"], rule exI [of _ st],
        rule exI [of _ "\<lparr>ok_point = pt, ok_key = key_sub key_zero kp\<rparr>"], rule exI [of _ vs])
       (use r(1,2) s(2,3,4,6) y fp2_mac.valid_sub [OF z r(4)] in simp)
qed

theorem table_side_complete_witness:
  "\<exists>pf claim st key vs. table_side_prove ones_hash demo_chacha [3, 5, 7, 9] [2, 0, 0, 0] (Fp2 1 1)
      (replicate 2 (prover_from_public 1, prover_from_public (Fp2 1 1 - 3))) (demo_stream 25) (doms_new 7) demo_fs [] [] = Some ((pf, claim), st)
    \<and> table_side_verify ones_hash demo_chacha [3, 5, 7, 9] (Fp2 1 1) pf (replicate 2 (key_from_public 1 3, key_from_public (Fp2 1 1 - 3) 3))
        \<lparr>vs_ctx = demo_ctx 25, vs_doms = doms_new 7, vs_tx = demo_fs, vs_kprod = [], vs_kzero = []\<rparr> = Some (Some key, vs)
    \<and> batch_ok 3 (bs_prod st) (bs_zero st) (vs_kprod vs) (vs_kzero vs) \<and> mac_valid 3 (oc_value claim) (ok_key key)"
proof -
  let ?a = "Fp2 1 1" and ?sites = "replicate 2 (prover_from_public 1, prover_from_public (Fp2 1 1 - 3))"
    and ?ks = "replicate 2 (key_from_public 1 3, key_from_public (Fp2 1 1 - 3) 3)"
  have pole: "?a \<noteq> fp2_from_base z" for z by (simp add: fp2_from_base_def)
  have three: "fp2_from_base 3 = 3" using fp2_from_base_of_nat [of 3] by simp
  have d: "vc_delta (demo_ctx 25) = 3" by (simp add: demo_ctx_def ctx_from_pcg_pool_def)
  have q: "?a - 3 \<noteq> 0" using pole [of 3] unfolding three by simp
  have a: "length [3, 5, 7, 9 :: fp] = 2 ^ Suc 1" "length [2, 0, 0, 0 :: u32] = length [3, 5, 7, 9 :: fp]" "?sites \<noteq> []" by simp_all
  have n: "?a \<notin> fp2_from_base ` set [3, 5, 7, 9]" using pole by blast
  have k: "list_all2 (site_ok (vc_delta (demo_ctx 25))) ?sites ?ks"
    using q fp2_mac.valid_public [of 3] unfolding d by (simp add: numeral_2_eq_2 site_ok_def prover_from_public_def prover_authed_new_def)
  have l: "list_all2 (\<lambda>(p, q) vals. pa_x p / pa_x q = lookup_sum ?a vals) ?sites [[3], [3]]"
    by (simp add: numeral_2_eq_2 lookup_sum_def three prover_from_public_def prover_authed_new_def)
  have c: "counts_lookups [3, 5, 7, 9] [2, 0, 0, 0] [[3], [3]]" by (simp add: counts_lookups_def)
  have b: "batch_ok (vc_delta (demo_ctx 25)) [] [] [] []" by (simp add: batch_ok_def)
  let ?plan = "2 # tree_plan 0 1 @ replicate (length ?sites - 1) 3 @ [4]"
  have "run_machine (prover_draw demo_chacha) (map (\<lambda>(d, n). DFull d n) (plan_draws 7 ?plan)) (demo_stream 25) \<noteq> None"
    unfolding demo_stream_def by (rule pool_serves) (simp_all add: domain_bits)
  then have p: "plan_ok demo_chacha ?plan (doms_new 7) (demo_stream 25)"
    by (intro plan_ok_draws) (simp_all add: doms_new_def CORRELATION_DOMAIN_LIMIT_def)
  have "sides_ok demo_chacha 3 ?plan (new_blind_sink (demo_stream 25) demo_fs (doms_new 7) [] [])
      \<lparr>vs_ctx = demo_ctx 25, vs_doms = doms_new 7, vs_tx = demo_fs, vs_kprod = [], vs_kzero = []\<rparr>"
    using demo_fs demo_twin d b p by (simp add: sides_ok_def new_blind_sink_def)
  from never_zero_tree [OF ones_never_zero _ _ this]
  have z: "\<not> blind_meets_zero ones_hash demo_chacha (NegMult [2, 0, 0, 0]) (lift_q_fp [3, 5, 7, 9] ?a) (demo_stream 25) (doms_new 7) demo_fs [] []"
    by simp
  from table_side_complete [OF a(1,2) n demo_fs a(3) k l c demo_twin b p] z show ?thesis
    unfolding d by blast
qed

end
