(* ===== verification/Logup_Aux.thy ===== *)
theory Logup_Aux
  imports Logup_Tables
begin

text \<open>
  The lookup instances of \<^verbatim>\<open>volta-proto/src/logup.rs\<close> on the CPU: a lookup over packed columns whose leaf layer also drains external
  evaluation claims on the columns. The leaf sumcheck has degree three and combines the layer with the claims; it ends in
  one consolidated claim per column. Only the blind sink supports it, so that the engine with auxiliary
  columns is stated for the blind sink.
\<close>

section \<open>Data\<close>

record leaf_aux_col =
  ac_half0 :: "fp2 list"
  ac_half1 :: "fp2 list"

record leaf_aux_claim =
  al_col :: nat
  al_point :: "fp2 list"
  al_value :: prover_authed

record leaf_aux =
  ax_cols :: "leaf_aux_col list"
  ax_claims :: "leaf_aux_claim list"

record aux_final =
  af_col :: nat
  af_w0 :: fp2
  af_w1 :: fp2
  af_eq_r :: fp2

definition aux_col :: "fp list \<Rightarrow> leaf_aux_col" where
  "aux_col vals =
     \<lparr>ac_half0 = map (\<lambda>i. fp2_from_base (vals ! (2 * i))) [0..<length vals div 2],
      ac_half1 = map (\<lambda>i. fp2_from_base (vals ! Suc (2 * i))) [0..<length vals div 2]\<rparr>"

section \<open>The blind sink with auxiliary columns\<close>

fun blind_draws :: "blake3 \<Rightarrow> nat \<Rightarrow> transcript \<Rightarrow> (fp2 list \<times> transcript) option" where
  "blind_draws H 0 tx = Some ([], tx)"
| "blind_draws H (Suc n) tx = do { (c, tx) \<leftarrow> challenge_fp2 H tx; (cs, tx) \<leftarrow> blind_draws H n tx; Some (c # cs, tx) }"

definition blind_aux_mus :: "blake3 \<Rightarrow> prover_authed list \<Rightarrow> blind_state \<Rightarrow> (fp2 list \<times> blind_state) option" where
  "blind_aux_mus H claims st =
     do { (mus, tx) \<leftarrow> blind_draws H (length claims) (bs_tx st);
          Some (mus, st\<lparr>bs_tx := tx,
            bs_claim := foldl (\<lambda>claim (v, mu). prover_add claim (prover_scale v mu)) (bs_claim st) (zip claims mus)\<rparr>) }"

definition blind_round3 :: "blake3 \<Rightarrow> chacha \<Rightarrow> fp2 \<times> fp2 \<times> fp2 \<Rightarrow> fp2 \<Rightarrow> blind_state \<Rightarrow> (fp2 \<times> blind_state) option" where
  "blind_round3 H chacha g ptj st =
     (case g of (g0, g2, g3) \<Rightarrow>
      do { (masks, dm, s) \<leftarrow> take_masks chacha 3 (bs_doms st) (bs_stream st);
           m0 \<leftarrow> get masks 0; m1 \<leftarrow> get masks 1; m2 \<leftarrow> get masks 2;
           let (c0, c1, c2) = (g0 - fc_x m0, g2 - fc_x m1, g3 - fc_x m2);
           tx \<leftarrow> append_fp2s ''logup_aux_round_corrections'' [c0, c1, c2] (bs_tx st);
           (r, tx) \<leftarrow> challenge_fp2 H tx;
           Some (r, st\<lparr>bs_stream := s, bs_doms := dm, bs_tx := tx, bs_rounds3_cur := bs_rounds3_cur st @ [(c0, c1, c2)],
             bs_claim := hadamard_claim (bs_claim st) (full_authenticate m0 g0) (full_authenticate m1 g2) (full_authenticate m2 g3) r,
             bs_cpref := bs_cpref st * eq_factor ptj r\<rparr>) })"

definition pair_up :: "'a list \<Rightarrow> ('a \<times> 'a) list" where
  "pair_up xs = zip (evens xs) (odds xs)"

definition flat_pairs :: "('a \<times> 'a) list \<Rightarrow> 'a list" where
  "flat_pairs ps = concat (map (\<lambda>(a, b). [a, b]) ps)"

text \<open>The relation at the end of the leaf layer, with the claims on the columns.\<close>

fun aux_row ::
  "('a \<Rightarrow> 'a \<Rightarrow> 'a) \<Rightarrow> ('a \<Rightarrow> fp2 \<Rightarrow> 'a) \<Rightarrow> ('a \<times> 'a) list \<Rightarrow> aux_final list \<Rightarrow> 'a \<Rightarrow> 'a option" where
  "aux_row add scale cols [] row = Some row"
| "aux_row add scale cols (f # finals) row =
     do { (c0, c1) \<leftarrow> get cols (af_col f);
          aux_row add scale cols finals (add row (scale (add (scale c0 (af_w0 f)) (scale c1 (af_w1 f))) (af_eq_r f))) }"

definition blind_splits_aux ::
  "blake3 \<Rightarrow> chacha \<Rightarrow> fp2 \<times> fp2 \<times> fp2 \<times> fp2 \<Rightarrow> (fp2 \<times> fp2) list \<Rightarrow> aux_final list \<Rightarrow> blind_state \<Rightarrow> (fp2 \<times> blind_state) option" where
  "blind_splits_aux H chacha sp cols finals st =
     (case sp of (s0, s1, s2, s3) \<Rightarrow>
      do { (masks, dm, s) \<leftarrow> take_masks chacha 4 (bs_doms st) (bs_stream st);
           m0 \<leftarrow> get masks 0; m1 \<leftarrow> get masks 1; m2 \<leftarrow> get masks 2; m3 \<leftarrow> get masks 3;
           let (c0, c1, c2, c3) = (s0 - fc_x m0, s1 - fc_x m1, s2 - fc_x m2, s3 - fc_x m3);
           tx \<leftarrow> append_fp2s ''logup_split_corrections'' [c0, c1, c2, c3] (bs_tx st);
           let p0 = full_authenticate m0 s0;
           let p1 = full_authenticate m1 s1;
           let q0 = full_authenticate m2 s2;
           let q1 = full_authenticate m3 s3;
           let (x0, x1, x2) = (s0 * s3, s1 * s2, s2 * s3);
           (zmasks, dm, s) \<leftarrow> take_masks chacha 3 dm s;
           n0 \<leftarrow> get zmasks 0; n1 \<leftarrow> get zmasks 1; n2 \<leftarrow> get zmasks 2;
           let (d0, d1, d2) = (x0 - fc_x n0, x1 - fc_x n1, x2 - fc_x n2);
           tx \<leftarrow> append_fp2s ''logup_prod_corrections'' [d0, d1, d2] tx;
           let z0 = full_authenticate n0 x0;
           let z1 = full_authenticate n1 x1;
           let z2 = full_authenticate n2 x2;
           (cmasks, dm, s) \<leftarrow> take_masks chacha (2 * length cols) dm s;
           let col_corrs = bs_col_corrs st @ pair_up (map2 (\<lambda>x m. x - fc_x m) (flat_pairs cols) cmasks);
           let cols_a = pair_up (map2 (\<lambda>x m. full_authenticate m x) (flat_pairs cols) cmasks);
           tx \<leftarrow> append_fp2s ''logup_col_corrections'' (flat_pairs col_corrs) tx;
           row \<leftarrow> aux_row prover_add prover_scale cols_a finals
                    (layer_row prover_add prover_sub prover_scale (bs_lambda st) (bs_cpref st) z0 z1 z2 (bs_claim st));
           (t, tx) \<leftarrow> challenge_fp2 H tx;
           Some (t, st\<lparr>bs_stream := s, bs_doms := dm, bs_tx := tx,
             bs_prod := bs_prod st @ [(p0, q1, z0), (p1, q0, z1), (q0, q1, z2)],
             bs_zero := bs_zero st @ [row],
             bs_cp := child_claim prover_add prover_sub prover_scale t p0 p1,
             bs_cq := child_claim prover_add prover_sub prover_scale t q0 q1,
             bs_layers := bs_layers st @ [\<lparr>bl_round_corrs = bs_rounds_cur st, bl_split_corrs = (c0, c1, c2, c3), bl_z_corrs = (d0, d1, d2)\<rparr>],
             bs_rounds_cur := [], bs_col_corrs := col_corrs,
             bs_aux_col_claims := map (\<lambda>(a, b). child_claim prover_add prover_sub prover_scale t a b) cols_a\<rparr>) })"

section \<open>The leaf layer\<close>

text \<open>Sums at 0, 2 and 3.\<close>

type_synonym triple = "fp2 \<times> fp2 \<times> fp2"

definition add3 :: "triple \<Rightarrow> triple \<Rightarrow> triple" where
  "add3 a b = (case (a, b) of ((a0, a2, a3), (b0, b2, b3)) \<Rightarrow> (a0 + b0, a2 + b2, a3 + b3))"

definition sum3 :: "(nat \<Rightarrow> triple) \<Rightarrow> nat \<Rightarrow> triple \<Rightarrow> triple" where
  "sum3 body half start = foldl (\<lambda>acc i. add3 acc (body i)) start [0..<half]"

definition at023_fp :: "fp \<Rightarrow> fp \<Rightarrow> fp \<times> fp \<times> fp" where
  "at023_fp v0 v1 = (let d = v1 - v0; v2 = v0 + d + d in (v0, v2, v2 + d))"

definition aux_leaf_pq :: "leaf_q \<Rightarrow> fp2 list \<Rightarrow> nat \<Rightarrow> triple" where
  "aux_leaf_pq lq s i =
     (let a1 = lq_alpha1 lq; wa1 = fp_new W * a1;
          s0 = fp2_c0 (s ! i); s1 = fp2_c1 (s ! i);
          u0 = a1 * s0; u1 = wa1 * s1;
          (c0r, c2r, c3r) = at023_fp (lq_a lq ! (4 * i)) (lq_a lq ! (4 * i + 2));
          (d0r, d2r, d3r) = at023_fp (lq_a lq ! (4 * i + 1)) (lq_a lq ! (4 * i + 3));
          ssum = (\<lambda>x. Fp2 (s0 * x + u1 + u1) (s1 * x + u0 + u0))
      in (ssum (c0r + d0r), ssum (c2r + d2r), ssum (c3r + d3r)))"

definition aux_leaf_qq :: "leaf_q \<Rightarrow> fp2 list \<Rightarrow> nat \<Rightarrow> triple" where
  "aux_leaf_qq lq s i =
     (let a1 = lq_alpha1 lq; w7a1sq = fp_new W * a1 * a1; wa1 = fp_new W * a1;
          s0 = fp2_c0 (s ! i); s1 = fp2_c1 (s ! i);
          u0 = a1 * s0; u1 = wa1 * s1;
          (c0r, c2r, c3r) = at023_fp (lq_a lq ! (4 * i)) (lq_a lq ! (4 * i + 2));
          (d0r, d2r, d3r) = at023_fp (lq_a lq ! (4 * i + 1)) (lq_a lq ! (4 * i + 3));
          scd = (\<lambda>cr dr. let y = cr * dr + w7a1sq; z = cr + dr in Fp2 (s0 * y + u1 * z) (s1 * y + u0 * z))
      in (scd c0r d0r, scd c2r d2r, scd c3r d3r))"

definition aux_pq :: "fp2 list \<Rightarrow> fp2 list \<Rightarrow> fp2 list \<Rightarrow> nat \<Rightarrow> triple" where
  "aux_pq s q0 q1 i =
     (let (c0, c2, c3) = at023 (q0 ! (2 * i)) (q0 ! Suc (2 * i));
          (d0, d2, d3) = at023 (q1 ! (2 * i)) (q1 ! Suc (2 * i))
      in (s ! i * (c0 + d0), s ! i * (c2 + d2), s ! i * (c3 + d3)))"

definition aux_qq :: "fp2 list \<Rightarrow> fp2 list \<Rightarrow> fp2 list \<Rightarrow> nat \<Rightarrow> triple" where
  "aux_qq s q0 q1 i =
     (let (c0, c2, c3) = at023 (q0 ! (2 * i)) (q0 ! Suc (2 * i));
          (d0, d2, d3) = at023 (q1 ! (2 * i)) (q1 ! Suc (2 * i))
      in (s ! i * (c0 * d0), s ! i * (c2 * d2), s ! i * (c3 * d3)))"

text \<open>One external claim: its column, its two weights and its folded equality table.\<close>

type_synonym aux_term = "nat \<times> (fp2 \<times> fp2) \<times> fp2 list"

definition aux_term_body :: "leaf_aux_col \<Rightarrow> fp2 \<Rightarrow> fp2 \<Rightarrow> fp2 list \<Rightarrow> nat \<Rightarrow> triple" where
  "aux_term_body col w0 w1 ek i =
     (let (v00, v02, v03) = at023 (ac_half0 col ! (2 * i)) (ac_half0 col ! Suc (2 * i));
          (v10, v12, v13) = at023 (ac_half1 col ! (2 * i)) (ac_half1 col ! Suc (2 * i));
          (e0, e2, e3) = at023 (ek ! (2 * i)) (ek ! Suc (2 * i))
      in (e0 * (w0 * v00 + w1 * v10), e2 * (w0 * v02 + w1 * v12), e3 * (w0 * v03 + w1 * v13)))"

definition aux_acc :: "leaf_aux_col list \<Rightarrow> aux_term list \<Rightarrow> nat \<Rightarrow> triple" where
  "aux_acc cols terms half =
     foldl (\<lambda>acc (c, (w0, w1), ek). sum3 (aux_term_body (cols ! c) w0 w1 ek) half acc) (0, 0, 0) terms"

definition aux_message :: "fp2 \<Rightarrow> fp2 \<Rightarrow> fp2 \<Rightarrow> triple \<Rightarrow> triple \<Rightarrow> triple \<Rightarrow> triple" where
  "aux_message lam pt cpref pq qq aux =
     (case (pq, qq, aux) of ((pq0, pq2, pq3), (qq0, qq2, qq3), (a0, a2, a3)) \<Rightarrow>
      let l0 = 1 - pt; l2 = pt + pt + pt - 1; l3 = pt + pt + pt + pt + pt - 1 - 1
      in (l0 * (cpref * (lam * pq0 + qq0)) + a0, l2 * (cpref * (lam * pq2 + qq2)) + a2, l3 * (cpref * (lam * pq3 + qq3)) + a3))"

definition fold_col :: "fp2 \<Rightarrow> nat \<Rightarrow> leaf_aux_col \<Rightarrow> leaf_aux_col" where
  "fold_col r half col = \<lparr>ac_half0 = fold_vec (ac_half0 col) r half, ac_half1 = fold_vec (ac_half1 col) r half\<rparr>"

definition fold_term :: "fp2 \<Rightarrow> nat \<Rightarrow> aux_term \<Rightarrow> aux_term" where
  "fold_term r half = (\<lambda>(c, w, ek). (c, w, fold_vec ek r half))"

fun aux_rounds ::
  "blake3 \<Rightarrow> chacha \<Rightarrow> fp2 \<Rightarrow> (fp2 list \<times> fp2) list \<Rightarrow> fp2 list \<Rightarrow> fp2 list \<Rightarrow> leaf_aux_col list \<Rightarrow> aux_term list \<Rightarrow> fp2 \<Rightarrow> blind_state
   \<Rightarrow> (fp2 list \<times> fp2 list \<times> fp2 list \<times> leaf_aux_col list \<times> blind_state) option" where
  "aux_rounds H chacha lam [] q0 q1 cols terms cpref st = Some ([], q0, q1, cols, st)"
| "aux_rounds H chacha lam ((s, pt) # rest) q0 q1 cols terms cpref st =
     (let half = length q0 div 2 in
      do { (r, st) \<leftarrow> blind_round3 H chacha
             (aux_message lam pt cpref (sum3 (aux_pq s q0 q1) half (0, 0, 0)) (sum3 (aux_qq s q0 q1) half (0, 0, 0)) (aux_acc cols terms half)) pt st;
           (rs, q0, q1, cols, st) \<leftarrow> aux_rounds H chacha lam rest (fold_vec q0 r half) (fold_vec q1 r half)
             (map (fold_col r half) cols) (map (fold_term r half) terms) (cpref * eq_factor pt r) st;
           Some (r # rs, q0, q1, cols, st) })"

text \<open>What the indexing of the layer needs: columns of at least \<open>2\<^sup>l\<close> entries (exactly one when there are no rounds), claims on existing columns.\<close>

definition aux_fits :: "leaf_q \<Rightarrow> leaf_aux \<Rightarrow> nat \<Rightarrow> bool" where
  "aux_fits lq ax l \<longleftrightarrow> 2 * 2 ^ l \<le> length (lq_a lq)
     \<and> (\<forall>c \<in> set (ax_cols ax). 2 ^ l \<le> length (ac_half0 c) \<and> 2 ^ l \<le> length (ac_half1 c) \<and> (l = 0 \<longrightarrow> length (ac_half0 c) = 1))
     \<and> (\<forall>cl \<in> set (ax_claims ax). length (al_point cl) = l + 1 \<and> al_col cl < length (ax_cols ax))"

definition layer_leaf_ones_aux ::
  "blake3 \<Rightarrow> chacha \<Rightarrow> leaf_q \<Rightarrow> leaf_aux \<Rightarrow> fp2 list \<Rightarrow> blind_state
   \<Rightarrow> (fp2 list \<times> (fp2 \<times> fp2 \<times> fp2 \<times> fp2) \<times> (fp2 \<times> fp2) list \<times> aux_final list \<times> blind_state) option" where
  "layer_leaf_ones_aux H chacha lq ax point st =
     do { (lam, st) \<leftarrow> blind_lambda H st;
          (mus, st) \<leftarrow> blind_aux_mus H (map al_value (ax_claims ax)) st;
          let l = length point;
          if aux_fits lq ax l then do {
            let ws = map2 (\<lambda>c mu. (mu * (1 - al_point c ! 0), mu * al_point c ! 0)) (ax_claims ax) mus;
            let terms = map2 (\<lambda>c w. (al_col c, w, eq_vec (tl (al_point c)))) (ax_claims ax) ws;
            (rs, q0, q1, cols, st) \<leftarrow>
              (case zip (suffix_eq_tables point) point of
                 [] \<Rightarrow> Some ([], [leaf_get lq 0], [leaf_get lq 1], ax_cols ax, st)
               | (s, pt) # rest \<Rightarrow>
                   let half = 2 ^ l div 2 in
                   do { (r, st) \<leftarrow> blind_round3 H chacha
                          (aux_message lam pt 1 (sum3 (aux_leaf_pq lq s) half (0, 0, 0)) (sum3 (aux_leaf_qq lq s) half (0, 0, 0))
                             (aux_acc (ax_cols ax) terms half)) pt st;
                        (rs, q0, q1, cols, st) \<leftarrow> aux_rounds H chacha lam rest (map (fold_leaf_q lq r 0) [0..<half])
                          (map (fold_leaf_q lq r 1) [0..<half]) (map (fold_col r half) (ax_cols ax)) (map (fold_term r half) terms)
                          (1 * eq_factor pt r) st;
                        Some (r # rs, q0, q1, cols, st) });
            c \<leftarrow> get q0 0;
            d \<leftarrow> get q1 0;
            let colsp = map (\<lambda>c. (ac_half0 c ! 0, ac_half1 c ! 0)) cols;
            let finals = map2 (\<lambda>c (w0, w1). \<lparr>af_col = al_col c, af_w0 = w0, af_w1 = w1, af_eq_r = eq_points (tl (al_point c)) rs\<rparr>) (ax_claims ax) ws;
            Some (rs, (1, 1, c, d), colsp, finals, st) }
          else None }"

section \<open>The engine\<close>

fun walk_layers_aux ::
  "blake3 \<Rightarrow> chacha \<Rightarrow> leaf_q \<Rightarrow> leaf_aux \<Rightarrow> (fp2 list \<times> fp2 list) list \<Rightarrow> fp2 list \<Rightarrow> blind_state \<Rightarrow> (fp2 list \<times> blind_state) option" where
  "walk_layers_aux H chacha lq ax [] point st =
     do { (rs, splits, cols, finals, st) \<leftarrow> layer_leaf_ones_aux H chacha lq ax point st;
          (t, st) \<leftarrow> blind_splits_aux H chacha splits cols finals st;
          Some (t # rs, st) }"
| "walk_layers_aux H chacha lq ax ((p, q) # ls) point st =
     do { (rs, splits, st) \<leftarrow> layer_general (blind_sink H chacha) (evens p) (odds p) (evens q) (odds q) point st;
          (t, st) \<leftarrow> sk_splits (blind_sink H chacha) splits st;
          walk_layers_aux H chacha lq ax ls (t # rs) st }"

definition prove_engine_aux ::
  "blake3 \<Rightarrow> chacha \<Rightarrow> leaf_q \<Rightarrow> leaf_aux \<Rightarrow> blind_state \<Rightarrow> ((fp2 \<times> fp2 \<times> fp2 list) \<times> blind_state) option" where
  "prove_engine_aux H chacha lq ax st =
     do { tree \<leftarrow> build_tree_cpu Ones lq;
          root_p \<leftarrow> get (ft_p tree ! 0) 0;
          root_q \<leftarrow> get (ft_q tree ! 0) 0;
          st \<leftarrow> sk_root (blind_sink H chacha) root_p root_q st;
          (point, st) \<leftarrow> walk_layers_aux H chacha lq ax (zip (tl (ft_p tree)) (tl (ft_q tree))) [] st;
          Some ((root_p, root_q, point), st) }"

definition blind_prove_frac_tree_aux ::
  "blake3 \<Rightarrow> chacha \<Rightarrow> leaf_q \<Rightarrow> leaf_aux \<Rightarrow> correlation_stream \<Rightarrow> doms \<Rightarrow> transcript \<Rightarrow> prod_triples \<Rightarrow> prover_authed list
   \<Rightarrow> ((blind_frac_proof \<times> fp2 list \<times> prover_authed \<times> prover_authed \<times> (prover_authed \<times> prover_authed) \<times> prover_authed list) \<times> blind_state) option" where
  "blind_prove_frac_tree_aux H chacha lq ax s dm tx prods zeros =
     do { ((_, _, point), st) \<leftarrow> prove_engine_aux H chacha lq ax (new_blind_sink s tx dm prods zeros);
          let aux = \<lparr>ba_rounds3 = bs_rounds3_cur st, ba_col_corrs = bs_col_corrs st\<rparr>;
          Some ((\<lparr>bf_root_corrs = bs_root_corrs st, bf_layers = bs_layers st, bf_aux = Some aux\<rparr>,
                 point, bs_cp st, bs_cq st, bs_roots st, bs_aux_col_claims st), st) }"

section \<open>The verifier with auxiliary columns\<close>

type_synonym aux_key = "nat \<times> fp2 list \<times> verifier_key"

text \<open>The challenges of the claims, folded into the running key, and the weights of the two halves.\<close>

fun aux_mus_keys :: "blake3 \<Rightarrow> aux_key list \<Rightarrow> verifier_key \<Rightarrow> transcript \<Rightarrow> (verifier_key \<times> (fp2 \<times> fp2) list \<times> transcript) option" where
  "aux_mus_keys H [] kclaim tx = Some (kclaim, [], tx)"
| "aux_mus_keys H ((c, p, key) # claims) kclaim tx =
     do { (mu, tx) \<leftarrow> challenge_fp2 H tx;
          p0 \<leftarrow> get p 0;
          (kclaim, ws, tx) \<leftarrow> aux_mus_keys H claims (key_add kclaim (key_scale key mu)) tx;
          Some (kclaim, (mu * (1 - p0), mu * p0) # ws, tx) }"

fun aux_verify_rounds ::
  "blake3 \<Rightarrow> chacha \<Rightarrow> fp2 list \<Rightarrow> (fp2 \<times> fp2 \<times> fp2) list \<Rightarrow> verifier_key \<Rightarrow> fp2 \<Rightarrow> verifier_side
   \<Rightarrow> (verifier_key \<times> fp2 \<times> fp2 list \<times> verifier_side) option" where
  "aux_verify_rounds H chacha point [] kclaim cpref vs = Some (kclaim, cpref, [], vs)"
| "aux_verify_rounds H chacha point ((c0, c1, c2) # corrs) kclaim cpref vs =
     do { (kg, dm, v) \<leftarrow> take_keys chacha [c0, c1, c2] (vs_doms vs) (vs_ctx vs);
          tx \<leftarrow> append_fp2s ''logup_aux_round_corrections'' [c0, c1, c2] (vs_tx vs);
          (r, tx) \<leftarrow> challenge_fp2 H tx;
          k0 \<leftarrow> get kg 0; k2 \<leftarrow> get kg 1; k3 \<leftarrow> get kg 2;
          ptj \<leftarrow> get point 0;
          (kclaim, cpref, rs, vs) \<leftarrow> aux_verify_rounds H chacha (tl point) corrs (hadamard_key_claim kclaim k0 k2 k3 r)
             (cpref * eq_factor ptj r) (vs\<lparr>vs_ctx := v, vs_doms := dm, vs_tx := tx\<rparr>);
          Some (kclaim, cpref, r # rs, vs) }"

definition aux_verify_end ::
  "blake3 \<Rightarrow> chacha \<Rightarrow> fp2 \<Rightarrow> blind_layer \<Rightarrow> (fp2 \<times> fp2) list \<Rightarrow> aux_key list \<Rightarrow> (fp2 \<times> fp2) list \<Rightarrow> fp2 list \<Rightarrow> verifier_key \<Rightarrow> fp2 \<Rightarrow> verifier_side
   \<Rightarrow> (fp2 \<times> verifier_key \<times> verifier_key \<times> verifier_key list \<times> verifier_side) option" where
  "aux_verify_end H chacha lam layer col_corrs claims ws rs kclaim cpref vs =
     (case (bl_split_corrs layer, bl_z_corrs layer) of ((c0, c1, c2, c3), (d0, d1, d2)) \<Rightarrow>
      do { (ksp, dm, v) \<leftarrow> take_keys chacha [c0, c1, c2, c3] (vs_doms vs) (vs_ctx vs);
           tx \<leftarrow> append_fp2s ''logup_split_corrections'' [c0, c1, c2, c3] (vs_tx vs);
           (kz, dm, v) \<leftarrow> take_keys chacha [d0, d1, d2] dm v;
           tx \<leftarrow> append_fp2s ''logup_prod_corrections'' [d0, d1, d2] tx;
           k0 \<leftarrow> get ksp 0; k1 \<leftarrow> get ksp 1; k2 \<leftarrow> get ksp 2; k3 \<leftarrow> get ksp 3;
           z0 \<leftarrow> get kz 0; z1 \<leftarrow> get kz 1; z2 \<leftarrow> get kz 2;
           (dom, dm) \<leftarrow> doms_take 1 dm;
           (kcs, v) \<leftarrow> expand_full_verifier_keys chacha dom (2 * length col_corrs) v;
           tx \<leftarrow> append_fp2s ''logup_col_corrections'' (flat_pairs col_corrs) tx;
           let kcols = pair_up (map2 (\<lambda>k c. key_new (vk_k k + vc_delta v * c)) kcs (flat_pairs col_corrs));
           let finals = map2 (\<lambda>(c, p, _) (w0, w1). \<lparr>af_col = c, af_w0 = w0, af_w1 = w1, af_eq_r = eq_points (tl p) rs\<rparr>) claims ws;
           row \<leftarrow> aux_row key_add key_scale kcols finals (layer_row key_add key_sub key_scale lam cpref z0 z1 z2 kclaim);
           (t, tx) \<leftarrow> challenge_fp2 H tx;
           Some (t, child_claim key_add key_sub key_scale t k0 k1, child_claim key_add key_sub key_scale t k2 k3,
             map (\<lambda>(a, b). child_claim key_add key_sub key_scale t a b) kcols,
             vs\<lparr>vs_ctx := v, vs_doms := dm, vs_tx := tx,
                vs_kprod := vs_kprod vs @ [(k0, k3, z0), (k1, k2, z1), (k2, k3, z2)],
                vs_kzero := vs_kzero vs @ [row]\<rparr>) })"

definition aux_verify_leaf ::
  "blake3 \<Rightarrow> chacha \<Rightarrow> blind_aux_part \<Rightarrow> aux_key list \<Rightarrow> blind_layer \<Rightarrow> fp2 list \<Rightarrow> verifier_key \<Rightarrow> verifier_key \<Rightarrow> verifier_side
   \<Rightarrow> ((fp2 list \<times> verifier_key \<times> verifier_key \<times> verifier_key list) option \<times> verifier_side) option" where
  "aux_verify_leaf H chacha aux claims layer point kcp kcq vs =
     do { (lam, tx) \<leftarrow> challenge_fp2 H (vs_tx vs);
          if bl_round_corrs layer \<noteq> [] then Some (None, vs\<lparr>vs_tx := tx\<rparr>)
          else do { (kclaim, ws, tx) \<leftarrow> aux_mus_keys H claims (key_add (key_scale kcp lam) kcq) tx;
                    (kclaim, cpref, rs, vs) \<leftarrow> aux_verify_rounds H chacha point (ba_rounds3 aux) kclaim 1 (vs\<lparr>vs_tx := tx\<rparr>);
                    (t, kcp, kcq, kcols, vs) \<leftarrow> aux_verify_end H chacha lam layer (ba_col_corrs aux) claims ws rs kclaim cpref vs;
                    Some (Some (t # rs, kcp, kcq, kcols), vs) } }"

text \<open>The last layer is the leaf layer; here the number of rounds of a layer is tested after its first challenge is drawn.\<close>

fun aux_verify_layers ::
  "blake3 \<Rightarrow> chacha \<Rightarrow> blind_aux_part \<Rightarrow> aux_key list \<Rightarrow> blind_layer list \<Rightarrow> nat \<Rightarrow> fp2 list \<Rightarrow> verifier_key \<Rightarrow> verifier_key \<Rightarrow> verifier_side
   \<Rightarrow> ((fp2 list \<times> verifier_key \<times> verifier_key \<times> verifier_key list) option \<times> verifier_side) option" where
  "aux_verify_layers H chacha aux claims [] l point kcp kcq vs = Some (None, vs)"
| "aux_verify_layers H chacha aux claims [layer] l point kcp kcq vs = aux_verify_leaf H chacha aux claims layer point kcp kcq vs"
| "aux_verify_layers H chacha aux claims (layer # next_layer # layers) l point kcp kcq vs =
     do { (lam, tx) \<leftarrow> challenge_fp2 H (vs_tx vs);
          if length (bl_round_corrs layer) \<noteq> l then Some (None, vs\<lparr>vs_tx := tx\<rparr>)
          else do { (res, vs) \<leftarrow> blind_verify_rounds H chacha point (bl_round_corrs layer) (key_add (key_scale kcp lam) kcq) 1 (vs\<lparr>vs_tx := tx\<rparr>);
                    (case res of
                       None \<Rightarrow> Some (None, vs)
                     | Some (kclaim, cpref, rs) \<Rightarrow>
                         do { (t, kcp, kcq, vs) \<leftarrow> blind_verify_end H chacha lam layer kclaim cpref vs;
                              aux_verify_layers H chacha aux claims (next_layer # layers) (Suc l) (t # rs) kcp kcq vs }) } }"

definition blind_verify_frac_tree_aux ::
  "blake3 \<Rightarrow> chacha \<Rightarrow> nat \<Rightarrow> blind_frac_proof \<Rightarrow> aux_key list \<Rightarrow> nat \<Rightarrow> verifier_side
   \<Rightarrow> ((fp2 list \<times> verifier_key \<times> verifier_key \<times> (verifier_key \<times> verifier_key) \<times> verifier_key list) option \<times> verifier_side) option" where
  "blind_verify_frac_tree_aux H chacha depth pf claims n_cols vs =
     (case bf_aux pf of
        None \<Rightarrow> Some (None, vs)
      | Some aux \<Rightarrow>
          if length (bf_layers pf) \<noteq> depth \<or> depth = 0 \<or> length (ba_rounds3 aux) \<noteq> depth - 1 \<or> length (ba_col_corrs aux) \<noteq> n_cols
             \<or> (\<exists>(c, p, k) \<in> set claims. length p \<noteq> depth)
          then Some (None, vs)
          else (case bf_root_corrs pf of (c0, c1) \<Rightarrow>
            do { (ks, dm, v) \<leftarrow> take_keys chacha [c0, c1] (vs_doms vs) (vs_ctx vs);
                 tx \<leftarrow> append_fp2s ''logup_root_corrections'' [c0, c1] (vs_tx vs);
                 krp \<leftarrow> get ks 0;
                 krq \<leftarrow> get ks 1;
                 (res, vs) \<leftarrow> aux_verify_layers H chacha aux claims (bf_layers pf) 0 [] krp krq (vs\<lparr>vs_ctx := v, vs_doms := dm, vs_tx := tx\<rparr>);
                 Some (map_option (\<lambda>(point, kcp, kcq, kcols). (point, kcp, kcq, (krp, krq), kcols)) res, vs) }))"

section \<open>Lookup instances\<close>

text \<open>A shift is taken modulo the width of the word, as in a release build.\<close>

definition shift_scalar :: "u32 \<Rightarrow> fp" where
  "shift_scalar s = fp_new (push_bit (unat s mod 64) 1)"

definition pack_entry :: "fp list list \<Rightarrow> u32 option list \<Rightarrow> nat \<Rightarrow> fp" where
  "pack_entry cols shifts i = foldl (\<lambda>a (c, s). case s of Some s \<Rightarrow> a + c ! i * shift_scalar s | None \<Rightarrow> a) 0 (zip cols shifts)"

record instance_out_p =
  ip_proof :: blind_frac_proof
  ip_alpha :: fp2
  ip_point :: "fp2 list"
  ip_col_claims :: "open_claim list"
  ip_roots :: "prover_authed \<times> prover_authed"

text \<open>The leaf closure: the packed denominator against the claims on the packed columns.\<close>

definition pack_row :: "('a \<Rightarrow> 'a \<Rightarrow> 'a) \<Rightarrow> ('a \<Rightarrow> fp2 \<Rightarrow> 'a) \<Rightarrow> ('a \<times> u32 option) list \<Rightarrow> 'a \<Rightarrow> 'a" where
  "pack_row add scale cs row =
     foldl (\<lambda>row (c, s). case s of Some s \<Rightarrow> add row (scale c (fp2_from_base (shift_scalar s))) | None \<Rightarrow> row) row cs"

definition blind_instance_prove ::
  "blake3 \<Rightarrow> chacha \<Rightarrow> fp list list \<Rightarrow> u32 option list \<Rightarrow> fp2 \<Rightarrow> leaf_aux_claim list \<Rightarrow> correlation_stream \<Rightarrow> doms \<Rightarrow> transcript
   \<Rightarrow> prod_triples \<Rightarrow> prover_authed list \<Rightarrow> (instance_out_p \<times> blind_state) option" where
  "blind_instance_prove H chacha cols shifts alpha claims s dm tx prods zeros =
     (if length cols = length shifts \<and> (\<exists>sh \<in> set shifts. sh \<noteq> None) then
        do { c0 \<leftarrow> get cols 0;
             let n = length c0;
             if \<exists>(c, sh) \<in> set (zip cols shifts). sh \<noteq> None \<and> length c < n then None
             else do {
               let leaf_q = lift_q_fp (map (pack_entry cols shifts) [0..<n]) alpha;
               ((lp, point, cp_f, cq_f, roots_f, col_authed), st) \<leftarrow>
                 blind_prove_frac_tree_aux H chacha leaf_q \<lparr>ax_cols = map aux_col cols, ax_claims = claims\<rparr> s dm tx prods zeros;
               let row = pack_row prover_add prover_scale (zip col_authed shifts) (prover_sub cq_f (prover_from_public alpha));
               Some (\<lparr>ip_proof = lp, ip_alpha = alpha, ip_point = point,
                      ip_col_claims = map (\<lambda>value. \<lparr>oc_point = point, oc_value = value\<rparr>) col_authed, ip_roots = roots_f\<rparr>,
                     st\<lparr>bs_zero := bs_zero st @ [prover_sub cp_f (prover_from_public 1), row]\<rparr>) } }
      else None)"

record instance_out_v =
  iv_point :: "fp2 list"
  iv_col_keys :: "open_key list"
  iv_kroots :: "verifier_key \<times> verifier_key"

definition blind_instance_verify ::
  "blake3 \<Rightarrow> chacha \<Rightarrow> nat \<Rightarrow> u32 option list \<Rightarrow> fp2 \<Rightarrow> blind_frac_proof \<Rightarrow> aux_key list \<Rightarrow> verifier_side
   \<Rightarrow> (instance_out_v option \<times> verifier_side) option" where
  "blind_instance_verify H chacha n_bits shifts alpha pf claims vs =
     do { (res, vs) \<leftarrow> blind_verify_frac_tree_aux H chacha n_bits pf claims (length shifts) vs;
          (case res of
             None \<Rightarrow> Some (None, vs)
           | Some (point, kcp_f, kcq_f, kroots_f, kcols) \<Rightarrow>
               let d = vc_delta (vs_ctx vs);
                   row = pack_row key_add key_scale (zip kcols shifts) (key_sub kcq_f (key_from_public alpha d))
               in Some (Some \<lparr>iv_point = point, iv_col_keys = map (\<lambda>key. \<lparr>ok_point = point, ok_key = key\<rparr>) kcols, iv_kroots = kroots_f\<rparr>,
                        vs\<lparr>vs_kzero := vs_kzero vs @ [key_sub kcp_f (key_from_public 1 d), row]\<rparr>)) }"

end
