(* ===== verification/Logup_Aux_Sum.thy ===== *)
theory Logup_Aux_Sum
  imports Logup_Aux
begin

text \<open>
  The combined sum of the leaf layer with auxiliary columns: the layer with numerators one, and for each external claim the
  weighted halves of its column against its equality table. Fixing the first coordinate gives a polynomial
  of degree three whose values at 0, 2 and 3 are the round message.
\<close>

section \<open>The terms of the claims\<close>

definition term_sum :: "nat \<Rightarrow> fp2 list \<Rightarrow> fp2 list \<Rightarrow> fp2 \<Rightarrow> fp2 \<Rightarrow> fp2 list \<Rightarrow> fp2" where
  "term_sum n h0 h1 w0 w1 ek = (\<Sum>i<n. ek ! i * (w0 * h0 ! i + w1 * h1 ! i))"

abbreviation term_fold :: "nat \<Rightarrow> fp2 list \<Rightarrow> fp2 list \<Rightarrow> fp2 \<Rightarrow> fp2 \<Rightarrow> fp2 list \<Rightarrow> fp2 \<Rightarrow> fp2" where
  "term_fold n h0 h1 w0 w1 ek r \<equiv> term_sum n (fold_low h0 r) (fold_low h1 r) w0 w1 (fold_low ek r)"

lemma term_fold_nth:
  assumes "length h0 = 2 * n" "length h1 = 2 * n" "length ek = 2 * n"
  shows "term_fold n h0 h1 w0 w1 ek r = (\<Sum>i<n. (ek ! (2 * i) + (ek ! Suc (2 * i) - ek ! (2 * i)) * r)
    * (w0 * (h0 ! (2 * i) + (h0 ! Suc (2 * i) - h0 ! (2 * i)) * r) + w1 * (h1 ! (2 * i) + (h1 ! Suc (2 * i) - h1 ! (2 * i)) * r)))"
  unfolding term_sum_def using assms by (intro sum.cong) (simp_all add: fold_low_eq nth_fold_pairs)

lemma term_fold_quad:
  assumes "length h0 = 2 * n" "length h1 = 2 * n" "length ek = 2 * n"
  shows "\<exists>a0 a1 a2. \<forall>r. term_fold n h0 h1 w0 w1 ek r = a0 + a1 * r + a2 * r ^ 2"
proof -
  have q: "(e + e' * r) * (w0 * (a + a' * r) + w1 * (b + b' * r))
      = 1 * (e * (w0 * a + w1 * b) + (e * (w0 * a' + w1 * b') + e' * (w0 * a + w1 * b)) * r + e' * (w0 * a' + w1 * b') * r ^ 2)"
    for e e' a a' b b' r :: fp2
    by (simp add: algebra_simps power2_eq_square)
  show ?thesis unfolding term_fold_nth [OF assms] q sum_quad by blast
qed

lemma term_fold_halves:
  assumes "length h0 = 2 * n" "length h1 = 2 * n" "length ek = 2 * n"
  shows "term_fold n h0 h1 w0 w1 ek 0 + term_fold n h0 h1 w0 w1 ek 1 = term_sum (2 * n) h0 h1 w0 w1 ek"
  unfolding term_fold_nth [OF assms] unfolding term_sum_def sum_pairs sum.distrib [symmetric] by simp

lemma sum3_eq: "sum3 (\<lambda>i. (f i, g i, h i)) n (a, b, c) = (a + sum f {..<n}, b + sum g {..<n}, c + sum h {..<n})"
  unfolding sum3_def add3_def by (induction n) (simp_all add: ac_simps)

lemma at023_linear: "at023 a b = (a, a + (b - a) * 2, a + (b - a) * 3)"
  by (simp add: at023_def Let_def algebra_simps)

lemma term_message:
  assumes "length (ac_half0 col) = 2 * n" "length (ac_half1 col) = 2 * n" "length ek = 2 * n"
  shows "sum3 (aux_term_body col w0 w1 ek) n acc = add3 acc
    (term_fold n (ac_half0 col) (ac_half1 col) w0 w1 ek 0, term_fold n (ac_half0 col) (ac_half1 col) w0 w1 ek 2, term_fold n (ac_half0 col) (ac_half1 col) w0 w1 ek 3)"
proof -
  obtain a b c where acc: "acc = (a, b, c)" by (cases acc)
  have "aux_term_body col w0 w1 ek = (\<lambda>i. (ek ! (2 * i) * (w0 * ac_half0 col ! (2 * i) + w1 * ac_half1 col ! (2 * i)),
      (ek ! (2 * i) + (ek ! Suc (2 * i) - ek ! (2 * i)) * 2) * (w0 * (ac_half0 col ! (2 * i) + (ac_half0 col ! Suc (2 * i) - ac_half0 col ! (2 * i)) * 2)
        + w1 * (ac_half1 col ! (2 * i) + (ac_half1 col ! Suc (2 * i) - ac_half1 col ! (2 * i)) * 2)),
      (ek ! (2 * i) + (ek ! Suc (2 * i) - ek ! (2 * i)) * 3) * (w0 * (ac_half0 col ! (2 * i) + (ac_half0 col ! Suc (2 * i) - ac_half0 col ! (2 * i)) * 3)
        + w1 * (ac_half1 col ! (2 * i) + (ac_half1 col ! Suc (2 * i) - ac_half1 col ! (2 * i)) * 3))))"
    by (rule ext) (simp add: aux_term_body_def at023_linear)
  then show ?thesis unfolding acc term_fold_nth [OF assms] by (simp add: sum3_eq add3_def)
qed

section \<open>The combined sum\<close>

definition aux_total :: "nat \<Rightarrow> leaf_aux_col list \<Rightarrow> aux_term list \<Rightarrow> fp2" where
  "aux_total n cols terms =
     (\<Sum>(c, (w0, w1), ek)\<leftarrow>terms. term_sum n (ac_half0 (cols ! c)) (ac_half1 (cols ! c)) w0 w1 ek)"

definition aux_tables :: "nat \<Rightarrow> leaf_aux_col list \<Rightarrow> aux_term list \<Rightarrow> bool" where
  "aux_tables n cols terms \<longleftrightarrow> (\<forall>col \<in> set cols. length (ac_half0 col) = n \<and> length (ac_half1 col) = n)
     \<and> (\<forall>(c, w, ek) \<in> set terms. c < length cols \<and> length ek = n)"

lemma aux_tables_Cons:
  "aux_tables n cols ((c, w, ek) # terms) \<longleftrightarrow>
     aux_tables n cols terms \<and> c < length cols \<and> length ek = n \<and> length (ac_half0 (cols ! c)) = n \<and> length (ac_half1 (cols ! c)) = n"
  using nth_mem by (auto simp: aux_tables_def)

lemma aux_tables_fold:
  assumes "aux_tables (2 * n) cols terms"
  shows "aux_tables n (map (fold_col r n) cols) (map (fold_term r n) terms)"
  using assms by (auto simp: aux_tables_def fold_col_def fold_term_def fold_vec_eq)

text \<open>The total with the first coordinate fixed.\<close>

abbreviation aux_fold :: "nat \<Rightarrow> leaf_aux_col list \<Rightarrow> aux_term list \<Rightarrow> fp2 \<Rightarrow> fp2" where
  "aux_fold n cols terms r \<equiv> aux_total n (map (fold_col r n) cols) (map (fold_term r n) terms)"

lemma aux_fold_Cons:
  assumes "aux_tables (2 * n) cols ((c, (w0, w1), ek) # terms)"
  shows "aux_fold n cols ((c, (w0, w1), ek) # terms) r
    = term_fold n (ac_half0 (cols ! c)) (ac_half1 (cols ! c)) w0 w1 ek r + aux_fold n cols terms r"
  using assms unfolding aux_tables_Cons by (simp add: aux_total_def fold_term_def fold_col_def fold_vec_eq)

lemma aux_fold_quad:
  assumes "aux_tables (2 * n) cols terms"
  shows "\<exists>a0 a1 a2. \<forall>r. aux_fold n cols terms r = a0 + a1 * r + a2 * r ^ 2"
  using assms
proof (induction terms)
  case Nil
  then show ?case by (intro exI [of _ 0]) (simp add: aux_total_def)
next
  case (Cons trm terms)
  obtain c w0 w1 ek where t: "trm = (c, (w0, w1), ek)" by (cases trm) auto
  note ok = Cons.prems [unfolded t]
  obtain a0 a1 a2 where a: "\<And>r. term_fold n (ac_half0 (cols ! c)) (ac_half1 (cols ! c)) w0 w1 ek r = a0 + a1 * r + a2 * r ^ 2"
    using term_fold_quad ok [unfolded aux_tables_Cons] by metis
  obtain b0 b1 b2 where b: "\<And>r. aux_fold n cols terms r = b0 + b1 * r + b2 * r ^ 2"
    using Cons.IH ok [unfolded aux_tables_Cons] by blast
  have "aux_fold n cols (trm # terms) r = (a0 + b0) + (a1 + b1) * r + (a2 + b2) * r ^ 2" for r
    unfolding t aux_fold_Cons [OF ok] a b by (simp add: algebra_simps)
  then show ?case by blast
qed

lemma aux_fold_halves:
  assumes "aux_tables (2 * n) cols terms"
  shows "aux_fold n cols terms 0 + aux_fold n cols terms 1 = aux_total (2 * n) cols terms"
  using assms
proof (induction terms)
  case (Cons trm terms)
  obtain c w0 w1 ek where t: "trm = (c, (w0, w1), ek)" by (cases trm) auto
  note ok = Cons.prems [unfolded t]
  have "aux_total (2 * n) cols (trm # terms)
      = term_sum (2 * n) (ac_half0 (cols ! c)) (ac_half1 (cols ! c)) w0 w1 ek + aux_total (2 * n) cols terms"
    by (simp add: t aux_total_def)
  then show ?case
    using Cons.IH ok [unfolded aux_tables_Cons] term_fold_halves [of "ac_half0 (cols ! c)" n "ac_half1 (cols ! c)" ek w0 w1]
    unfolding t aux_fold_Cons [OF ok] by (simp add: algebra_simps)
qed (simp add: aux_total_def)

lemma aux_acc_message:
  assumes "aux_tables (2 * n) cols terms"
  shows "aux_acc cols terms n = (aux_fold n cols terms 0, aux_fold n cols terms 2, aux_fold n cols terms 3)"
proof -
  have "foldl (\<lambda>acc (c, (w0, w1), ek). sum3 (aux_term_body (cols ! c) w0 w1 ek) n acc) acc terms
      = add3 acc (aux_fold n cols terms 0, aux_fold n cols terms 2, aux_fold n cols terms 3)" for acc
    using assms
  proof (induction terms arbitrary: acc)
    case Nil
    then show ?case by (cases acc) (simp add: add3_def aux_total_def)
  next
    case (Cons trm terms)
    obtain c w0 w1 ek where t: "trm = (c, (w0, w1), ek)" by (cases trm) auto
    note ok = Cons.prems [unfolded t]
    show ?case
      unfolding t aux_fold_Cons [OF ok]
      using Cons.IH ok [unfolded aux_tables_Cons] term_message [of "cols ! c" n ek w0 w1 acc]
      by (cases acc) (simp add: add3_def ac_simps)
  qed
  from this [of "(0, 0, 0)"] show ?thesis by (simp add: aux_acc_def add3_def)
qed

section \<open>One round\<close>

abbreviation ones :: "fp2 list \<Rightarrow> fp2 list" where
  "ones xs \<equiv> replicate (2 ^ length xs) 1"

definition aux_claim :: "fp2 \<Rightarrow> fp2 list \<Rightarrow> fp2 \<Rightarrow> fp2 list \<Rightarrow> fp2 list \<Rightarrow> leaf_aux_col list \<Rightarrow> aux_term list \<Rightarrow> fp2" where
  "aux_claim lam xs cpref q0 q1 cols terms = cpref * layer_sum lam xs (ones xs) (ones xs) q0 q1 + aux_total (2 ^ length xs) cols terms"

abbreviation aux_next :: "fp2 \<Rightarrow> fp2 \<Rightarrow> fp2 list \<Rightarrow> fp2 \<Rightarrow> fp2 list \<Rightarrow> fp2 list \<Rightarrow> leaf_aux_col list \<Rightarrow> aux_term list \<Rightarrow> fp2 \<Rightarrow> fp2" where
  "aux_next lam x xs cpref q0 q1 cols terms r \<equiv> aux_claim lam xs (cpref * eq_factor x r) (fold_low q0 r) (fold_low q1 r)
     (map (fold_col r (2 ^ length xs)) cols) (map (fold_term r (2 ^ length xs)) terms)"

abbreviation ones_poly :: "fp2 \<Rightarrow> fp2 list \<Rightarrow> fp2 list \<Rightarrow> fp2 list \<Rightarrow> fp2 \<Rightarrow> fp2" where
  "ones_poly lam xs q0 q1 r \<equiv> round_poly lam xs (replicate (2 * 2 ^ length xs) 1) (replicate (2 * 2 ^ length xs) 1) q0 q1 r"

lemma aux_next_eq:
  "aux_next lam x xs cpref q0 q1 cols terms r = cpref * eq_factor x r * ones_poly lam xs q0 q1 r + aux_fold (2 ^ length xs) cols terms r"
proof -
  have "fold_low (replicate (2 * 2 ^ length xs) 1) r = ones xs"
    using fold_vec_ones [of "2 * 2 ^ length xs" r] by (simp add: fold_vec_eq)
  then show ?thesis by (simp add: aux_claim_def round_poly_def)
qed

lemma ones_tables:
  assumes "length q0 = 2 ^ Suc (length xs)" "length q1 = 2 ^ Suc (length xs)"
  shows "tables_len (2 ^ Suc (length xs)) (replicate (2 * 2 ^ length xs) (1 :: fp2)) (replicate (2 * 2 ^ length xs) 1) q0 q1"
  using assms by simp

lemma aux_next_cubic:
  assumes "length q0 = 2 ^ Suc (length xs)" "length q1 = 2 ^ Suc (length xs)" "aux_tables (2 * 2 ^ length xs) cols terms"
  shows "\<exists>a0 a1 a2 a3. \<forall>r. aux_next lam x xs cpref q0 q1 cols terms r = a0 + a1 * r + a2 * r ^ 2 + a3 * r ^ 3"
proof -
  obtain a0 a1 a2 where a: "\<And>r. ones_poly lam xs q0 q1 r = a0 + a1 * r + a2 * r ^ 2"
    using round_poly_quad [OF ones_tables [OF assms(1,2)], of lam] by blast
  obtain b0 b1 b2 where b: "\<And>r. aux_fold (2 ^ length xs) cols terms r = b0 + b1 * r + b2 * r ^ 2"
    using aux_fold_quad [OF assms(3)] by blast
  have "aux_next lam x xs cpref q0 q1 cols terms r
      = (cpref * (1 - x) * a0 + b0) + (cpref * ((1 - x) * a1 + (x + x - 1) * a0) + b1) * r
        + (cpref * ((1 - x) * a2 + (x + x - 1) * a1) + b2) * r ^ 2 + cpref * (x + x - 1) * a2 * r ^ 3" for r
    unfolding aux_next_eq a b by (simp add: eq_factor_def Let_def algebra_simps power2_eq_square power3_eq_cube)
  then show ?thesis by blast
qed

lemma aux_next_halves:
  assumes "length q0 = 2 ^ Suc (length xs)" "length q1 = 2 ^ Suc (length xs)" "aux_tables (2 * 2 ^ length xs) cols terms"
  shows "aux_next lam x xs cpref q0 q1 cols terms 0 + aux_next lam x xs cpref q0 q1 cols terms 1 = aux_claim lam (x # xs) cpref q0 q1 cols terms"
proof -
  have "layer_sum lam (x # xs) (ones (x # xs)) (ones (x # xs)) q0 q1 = (1 - x) * ones_poly lam xs q0 q1 0 + x * ones_poly lam xs q0 q1 1"
    using layer_sum_Cons [OF ones_tables [OF assms(1,2)], of lam x] by simp
  then have "aux_claim lam (x # xs) cpref q0 q1 cols terms
      = cpref * ((1 - x) * ones_poly lam xs q0 q1 0 + x * ones_poly lam xs q0 q1 1) + aux_total (2 * 2 ^ length xs) cols terms"
    by (simp only: aux_claim_def length_Cons power_Suc)
  moreover have "eq_factor x 0 = 1 - x" "eq_factor x 1 = x" by (simp_all add: eq_factor_def Let_def)
  ultimately show ?thesis
    unfolding aux_next_eq by (simp only: aux_fold_halves [OF assms(3), symmetric] distrib_left ac_simps)
qed

lemma aux_message_next:
  assumes "length q0 = 2 ^ Suc (length xs)" "length q1 = 2 ^ Suc (length xs)" "aux_tables (2 * 2 ^ length xs) cols terms"
  shows "aux_message lam x cpref (sum3 (aux_pq (eq_vec xs) q0 q1) (2 ^ length xs) (0, 0, 0)) (sum3 (aux_qq (eq_vec xs) q0 q1) (2 ^ length xs) (0, 0, 0))
      (aux_acc cols terms (2 ^ length xs))
    = (aux_next lam x xs cpref q0 q1 cols terms 0, aux_next lam x xs cpref q0 q1 cols terms 2, aux_next lam x xs cpref q0 q1 cols terms 3)"
proof -
  let ?n = "2 ^ length xs :: nat"
  let ?q0 = "\<lambda>r i. q0 ! (2 * i) + (q0 ! Suc (2 * i) - q0 ! (2 * i)) * r" and ?q1 = "\<lambda>r i. q1 ! (2 * i) + (q1 ! Suc (2 * i) - q1 ! (2 * i)) * r"
  define S where "S r = (\<Sum>i<?n. eq_vec xs ! i * (?q0 r i + ?q1 r i))" for r
  define T where "T r = (\<Sum>i<?n. eq_vec xs ! i * (?q0 r i * ?q1 r i))" for r
  have p: "ones_poly lam xs q0 q1 r = lam * S r + T r" for r
    unfolding round_poly_nth [OF ones_tables [OF assms(1,2)]] S_def T_def sum_distrib_left sum.distrib [symmetric]
    by (rule sum.cong) (simp_all add: layer_val_def algebra_simps)
  have "aux_pq (eq_vec xs) q0 q1 = (\<lambda>i. (eq_vec xs ! i * (?q0 0 i + ?q1 0 i), eq_vec xs ! i * (?q0 2 i + ?q1 2 i), eq_vec xs ! i * (?q0 3 i + ?q1 3 i)))"
    by (rule ext) (simp add: aux_pq_def at023_linear)
  then have pq: "sum3 (aux_pq (eq_vec xs) q0 q1) ?n (0, 0, 0) = (S 0, S 2, S 3)" by (simp only: sum3_eq S_def add_0)
  have "aux_qq (eq_vec xs) q0 q1 = (\<lambda>i. (eq_vec xs ! i * (?q0 0 i * ?q1 0 i), eq_vec xs ! i * (?q0 2 i * ?q1 2 i), eq_vec xs ! i * (?q0 3 i * ?q1 3 i)))"
    by (rule ext) (simp add: aux_qq_def at023_linear)
  then have qq: "sum3 (aux_qq (eq_vec xs) q0 q1) ?n (0, 0, 0) = (T 0, T 2, T 3)" by (simp only: sum3_eq T_def add_0)
  have e: "eq_factor x 0 = 1 - x" "eq_factor x 2 = x + x + x - 1" "eq_factor x 3 = x + x + x + x + x - 1 - 1"
    by (simp_all add: eq_factor_def Let_def algebra_simps)
  show ?thesis
    unfolding aux_next_eq unfolding aux_message_def pq qq aux_acc_message [OF assms(3)] p prod.case Let_def e by (simp only: ac_simps)
qed

lemma aux_claim_value:
  assumes "length q0 = 2 ^ Suc (length xs)" "length q1 = 2 ^ Suc (length xs)" "aux_tables (2 * 2 ^ length xs) cols terms"
    and "pa_x claim = aux_claim lam (x # xs) cpref q0 q1 cols terms"
  shows "pa_x (hadamard_claim claim (full_authenticate m0 (aux_next lam x xs cpref q0 q1 cols terms 0))
      (full_authenticate m1 (aux_next lam x xs cpref q0 q1 cols terms 2)) (full_authenticate m2 (aux_next lam x xs cpref q0 q1 cols terms 3)) r)
    = aux_next lam x xs cpref q0 q1 cols terms r"
proof -
  obtain a0 a1 a2 a3 where f: "\<And>r. aux_next lam x xs cpref q0 q1 cols terms r = a0 + a1 * r + a2 * r ^ 2 + a3 * r ^ 3"
    using aux_next_cubic [OF assms(1-3)] by blast
  have c: "pa_x claim - a0 = a0 + a1 + a2 + a3"
    unfolding assms(4) aux_next_halves [OF assms(1-3), symmetric] f by simp
  show ?thesis unfolding f lagrange4_interpolates [of r a0 a1 a2 a3, symmetric]
    by (simp add: hadamard_claim_def Let_def full_authenticate_def c mult.commute)
qed

end
