(* ===== verification/Logup_Aux_Complete.thy ===== *)
theory Logup_Aux_Complete
  imports Logup_Aux_Sum
begin

text \<open>
  Completeness of the lookup instances: the leaf layer with auxiliary columns follows the combined sum, its three products and its
  extended relation hold, and the consolidated claims are the extensions of the columns at the leaf point.
\<close>

section \<open>The first round on materialised leaves\<close>

lemma at023_shared:
  "at023 (Fp2 a x) (Fp2 b x) = (Fp2 (fst (at023_fp a b)) x, Fp2 (fst (snd (at023_fp a b))) x, Fp2 (snd (snd (at023_fp a b))) x)"
  by (simp add: at023_def at023_fp_def Let_def plus_fp2_def minus_fp2_def)

lemma aux_leaf_bodies:
  assumes "4 * i + 3 < length (lq_a lq)"
  shows "aux_leaf_pq lq s i = aux_pq s (evens (mat_q lq)) (odds (mat_q lq)) i" "aux_leaf_qq lq s i = aux_qq s (evens (mat_q lq)) (odds (mat_q lq)) i"
proof -
  obtain s0 s1 where Fp2: "s ! i = Fp2 s0 s1" by (cases "s ! i")
  show "aux_leaf_pq lq s i = aux_pq s (evens (mat_q lq)) (odds (mat_q lq)) i"
    using assms Fp2 by (simp add: aux_leaf_pq_def aux_pq_def evens_odds_quad at023_shared case_prod_unfold Let_def)
       (simp add: plus_fp2_def times_fp2_def algebra_simps)
  show "aux_leaf_qq lq s i = aux_qq s (evens (mat_q lq)) (odds (mat_q lq)) i"
    using assms Fp2 by (simp add: aux_leaf_qq_def aux_qq_def evens_odds_quad at023_shared case_prod_unfold Let_def)
       (simp add: plus_fp2_def times_fp2_def algebra_simps)
qed

lemma sum3_cong: "(\<And>i. i < n \<Longrightarrow> f i = g i) \<Longrightarrow> sum3 f n acc = sum3 g n acc"
  unfolding sum3_def by (rule foldl_cong) simp_all

lemma aux_leaf_first:
  assumes "length (lq_a lq) = 4 * half"
  shows "sum3 (aux_leaf_pq lq s) half acc = sum3 (aux_pq s (evens (mat_q lq)) (odds (mat_q lq))) half acc"
    "sum3 (aux_leaf_qq lq s) half acc = sum3 (aux_qq s (evens (mat_q lq)) (odds (mat_q lq))) half acc"
  using assms by (auto intro!: sum3_cong aux_leaf_bodies)

lemma zip_suffix_Cons: "zip (suffix_eq_tables (x # xs)) (x # xs) = (eq_vec xs, x) # zip (suffix_eq_tables xs) xs"
  by simp

text \<open>The rounds of the leaf layer are the general rounds on the materialised halves.\<close>

lemma aux_leaf_rounds:
  assumes "length (lq_a lq) = 2 * 2 ^ length point"
  shows "(case zip (suffix_eq_tables point) point of
       [] \<Rightarrow> Some ([], [leaf_get lq 0], [leaf_get lq 1], cols, st)
     | (s, pt) # rest \<Rightarrow>
         let half = 2 ^ length point div 2 in
         do { (r, st) \<leftarrow> blind_round3 H chacha
                (aux_message lam pt 1 (sum3 (aux_leaf_pq lq s) half (0, 0, 0)) (sum3 (aux_leaf_qq lq s) half (0, 0, 0)) (aux_acc cols terms half)) pt st;
              (rs, q0, q1, cols, st) \<leftarrow> aux_rounds H chacha lam rest (map (fold_leaf_q lq r 0) [0..<half])
                (map (fold_leaf_q lq r 1) [0..<half]) (map (fold_col r half) cols) (map (fold_term r half) terms) (1 * eq_factor pt r) st;
              Some (r # rs, q0, q1, cols, st) })
    = aux_rounds H chacha lam (zip (suffix_eq_tables point) point) (evens (mat_q lq)) (odds (mat_q lq)) cols terms 1 st"
proof (cases point)
  case Nil
  then have "length (lq_a lq) = Suc (Suc 0)" using assms by simp
  then show ?thesis using Nil by (simp add: evens_def odds_def leaf_get_def)
next
  case (Cons x xs)
  have len: "length (lq_a lq) = 4 * 2 ^ length xs" using assms Cons by simp
  have half: "length (evens (mat_q lq)) div 2 = 2 ^ length xs" "2 ^ length point div 2 = (2 ^ length xs :: nat)" using len Cons by simp_all
  show ?thesis
    unfolding Cons zip_suffix_Cons using half fold_leaf_general(1,2) [OF len] aux_leaf_first [OF len] Cons by (simp add: Let_def)
qed

section \<open>The rounds\<close>

definition same_frame :: "blind_state \<Rightarrow> blind_state \<Rightarrow> bool" where
  "same_frame st st' \<longleftrightarrow> bs_lambda st' = bs_lambda st \<and> bs_layers st' = bs_layers st \<and> bs_rounds_cur st' = bs_rounds_cur st
     \<and> bs_col_corrs st' = bs_col_corrs st \<and> bs_root_corrs st' = bs_root_corrs st \<and> bs_roots st' = bs_roots st"

lemma same_frame_trans: "same_frame a b \<Longrightarrow> same_frame b c \<Longrightarrow> same_frame a c"
  by (simp add: same_frame_def)

lemma blind_round3_step:
  assumes "sides_ok chacha delta (3 # plan) st vs" "mac_valid delta (bs_claim st) kclaim"
  obtains r st' c k vs' where "blind_round3 H chacha (ga, gb, gc) x st = Some (r, st')" "bs_rounds3_cur st' = bs_rounds3_cur st @ [c]"
    "\<forall>xs corrs. aux_verify_rounds H chacha (x # xs) (c # corrs) kclaim cpref vs
      = do { (k, cp, rs, vs) \<leftarrow> aux_verify_rounds H chacha xs corrs k (cpref * eq_factor x r) vs'; Some (k, cp, r # rs, vs) }"
    "sides_ok chacha delta plan st' vs'" "mac_valid delta (bs_claim st') k" "same_frame st st'" "bs_cpref st' = bs_cpref st * eq_factor x r"
    "\<exists>m0 m1 m2. bs_claim st' = hadamard_claim (bs_claim st) (full_authenticate m0 ga) (full_authenticate m1 gb) (full_authenticate m2 gc) r"
proof -
  note f = sides_facts [OF assms(1)]
  obtain masks dm s keys v where m: "take_masks chacha 3 (bs_doms st) (bs_stream st) = Some (masks, dm, s)" "plan_ok chacha plan dm s" "length masks = 3"
    and k: "take_keys chacha [ga - fc_x (masks ! 0), gb - fc_x (masks ! 1), gc - fc_x (masks ! 2)] (bs_doms st) (vs_ctx vs) = Some (keys, dm, v)"
      "twin s v" "vc_delta v = delta" "length keys = 3"
      "mac_valid delta (full_authenticate (masks ! 0) ga) (keys ! 0)" "mac_valid delta (full_authenticate (masks ! 1) gb) (keys ! 1)"
      "mac_valid delta (full_authenticate (masks ! 2) gc) (keys ! 2)"
    by (rule transfer_three [OF f(7,4,5), of ga gb gc])
  let ?c = "[ga - fc_x (masks ! 0), gb - fc_x (masks ! 1), gc - fc_x (masks ! 2)]"
  obtain tx where tx: "append_fp2s ''logup_aux_round_corrections'' ?c (bs_tx st) = Some tx" "is_fiat_shamir tx"
    using fs_append [OF f(1), of "''logup_aux_round_corrections''" ?c] by auto
  obtain r tx' where r: "challenge_fp2 H tx = Some (r, tx')" "is_fiat_shamir tx'" using fs_challenge [OF tx(2)] by blast
  let ?g0 = "full_authenticate (masks ! 0) ga" and ?g2 = "full_authenticate (masks ! 1) gb" and ?g3 = "full_authenticate (masks ! 2) gc"
  let ?st = "st\<lparr>bs_stream := s, bs_doms := dm, bs_tx := tx', bs_rounds3_cur := bs_rounds3_cur st @ [(?c ! 0, ?c ! 1, ?c ! 2)],
     bs_claim := hadamard_claim (bs_claim st) ?g0 ?g2 ?g3 r, bs_cpref := bs_cpref st * eq_factor x r\<rparr>"
  let ?vs = "vs\<lparr>vs_ctx := v, vs_doms := dm, vs_tx := tx'\<rparr>" and ?k = "hadamard_key_claim kclaim (keys ! 0) (keys ! 1) (keys ! 2) r"
  show thesis
  proof (rule that [of r ?st "(?c ! 0, ?c ! 1, ?c ! 2)" ?k ?vs])
    show "blind_round3 H chacha (ga, gb, gc) x st = Some (r, ?st)" using m(1,3) tx(1) r(1) by (simp add: blind_round3_def)
    show "\<forall>xs corrs. aux_verify_rounds H chacha (x # xs) ((?c ! 0, ?c ! 1, ?c ! 2) # corrs) kclaim cpref vs
      = do { (k, cp, rs, vs) \<leftarrow> aux_verify_rounds H chacha xs corrs ?k (cpref * eq_factor x r) ?vs; Some (k, cp, r # rs, vs) }"
      using k(1,4) tx(1) r(1) f(2,3) by simp
    show "sides_ok chacha delta plan ?st ?vs" using f(6) k(2,3) m(2) r(2) by (simp add: sides_ok_def)
    show "mac_valid delta (bs_claim ?st) ?k" using hadamard_claim_valid [OF assms(2) k(5-7)] by simp
    show "\<exists>m0 m1 m2. bs_claim ?st = hadamard_claim (bs_claim st) (full_authenticate m0 ga) (full_authenticate m1 gb) (full_authenticate m2 gc) r"
      by auto
  qed (simp_all add: same_frame_def)
qed

text \<open>Columns and claims with their tables evaluated at a point.\<close>

definition eval_col :: "fp2 list \<Rightarrow> leaf_aux_col \<Rightarrow> leaf_aux_col" where
  "eval_col rs c = \<lparr>ac_half0 = eval_mle_loop (ac_half0 c) rs, ac_half1 = eval_mle_loop (ac_half1 c) rs\<rparr>"

definition eval_term :: "fp2 list \<Rightarrow> aux_term \<Rightarrow> aux_term" where
  "eval_term rs = (\<lambda>(c, w, ek). (c, w, eval_mle_loop ek rs))"

lemma eval_tables_Nil: "map (eval_col []) cols = cols" "map (eval_term []) terms = terms"
  by (auto simp: eval_col_def eval_term_def intro!: map_idI)

lemma eval_tables_Cons:
  assumes "aux_tables (2 * n) cols terms"
  shows "map (eval_col (r # rs)) cols = map (eval_col rs) (map (fold_col r n) cols)"
    "map (eval_term (r # rs)) terms = map (eval_term rs) (map (fold_term r n) terms)"
  using assms by (auto simp: aux_tables_def eval_col_def eval_term_def fold_col_def fold_term_def fold_vec_eq)

lemma aux_rounds_run:
  assumes "length q0 = 2 ^ length point" "length q1 = 2 ^ length point" "aux_tables (2 ^ length point) cols terms"
    and "sides_ok chacha delta (replicate (length point) 3 @ plan) st vs" "mac_valid delta (bs_claim st) kclaim"
    and "pa_x (bs_claim st) = aux_claim lam point (bs_cpref st) q0 q1 cols terms"
  shows "\<exists>rs corrs st' k vs'. aux_rounds H chacha lam (zip (suffix_eq_tables point) point) q0 q1 cols terms (bs_cpref st) st
      = Some (rs, eval_mle_loop q0 rs, eval_mle_loop q1 rs, map (eval_col rs) cols, st')
    \<and> length rs = length point \<and> length corrs = length point \<and> bs_rounds3_cur st' = bs_rounds3_cur st @ corrs
    \<and> aux_verify_rounds H chacha point corrs kclaim (bs_cpref st) vs = Some (k, bs_cpref st', rs, vs')
    \<and> sides_ok chacha delta plan st' vs' \<and> mac_valid delta (bs_claim st') k \<and> same_frame st st'
    \<and> pa_x (bs_claim st') = aux_claim lam [] (bs_cpref st') (eval_mle_loop q0 rs) (eval_mle_loop q1 rs) (map (eval_col rs) cols) (map (eval_term rs) terms)"
  using assms
proof (induction point arbitrary: q0 q1 cols terms st vs kclaim)
  case Nil
  then show ?case
    by (intro exI [of _ "[]"] exI [of _ st] exI [of _ kclaim] exI [of _ vs]) (simp add: eval_tables_Nil same_frame_def)
next
  case (Cons x xs)
  let ?n = "2 ^ length xs :: nat" and ?c = "bs_cpref st"
  let ?g = "aux_next lam x xs ?c q0 q1 cols terms"
  have len: "length q0 = 2 ^ Suc (length xs)" "length q1 = 2 ^ Suc (length xs)" "aux_tables (2 * ?n) cols terms" using Cons.prems(1-3) by simp_all
  have so: "sides_ok chacha delta (3 # replicate (length xs) 3 @ plan) st vs" using Cons.prems(4) by simp
  obtain r st1 c k1 vs1 where r: "blind_round3 H chacha (?g 0, ?g 2, ?g 3) x st = Some (r, st1)" "bs_rounds3_cur st1 = bs_rounds3_cur st @ [c]"
    "\<forall>xs corrs. aux_verify_rounds H chacha (x # xs) (c # corrs) kclaim ?c vs
      = do { (k, cp, rs, vs) \<leftarrow> aux_verify_rounds H chacha xs corrs k1 (?c * eq_factor x r) vs1; Some (k, cp, r # rs, vs) }"
    "sides_ok chacha delta (replicate (length xs) 3 @ plan) st1 vs1" "mac_valid delta (bs_claim st1) k1" "same_frame st st1" "bs_cpref st1 = ?c * eq_factor x r"
    "\<exists>m0 m1 m2. bs_claim st1 = hadamard_claim (bs_claim st) (full_authenticate m0 (?g 0)) (full_authenticate m1 (?g 2)) (full_authenticate m2 (?g 3)) r"
    by (rule blind_round3_step [OF so Cons.prems(5), where H = H and x = x and cpref = ?c and ga = "?g 0" and gb = "?g 2" and gc = "?g 3"])
  have v: "pa_x (bs_claim st1) = aux_claim lam xs (bs_cpref st1) (fold_low q0 r) (fold_low q1 r) (map (fold_col r ?n) cols) (map (fold_term r ?n) terms)"
    using r(7,8) aux_claim_value [OF len Cons.prems(6)] by auto
  have l: "length (fold_low q0 r) = ?n" "length (fold_low q1 r) = ?n" using len by simp_all
  obtain rs corrs st' k vs' where IH: "aux_rounds H chacha lam (zip (suffix_eq_tables xs) xs) (fold_low q0 r) (fold_low q1 r) (map (fold_col r ?n) cols)
        (map (fold_term r ?n) terms) (bs_cpref st1) st1
      = Some (rs, eval_mle_loop (fold_low q0 r) rs, eval_mle_loop (fold_low q1 r) rs, map (eval_col rs) (map (fold_col r ?n) cols), st')"
    "length rs = length xs" "length corrs = length xs" "bs_rounds3_cur st' = bs_rounds3_cur st1 @ corrs"
    "aux_verify_rounds H chacha xs corrs k1 (bs_cpref st1) vs1 = Some (k, bs_cpref st', rs, vs')"
    "sides_ok chacha delta plan st' vs'" "mac_valid delta (bs_claim st') k" "same_frame st1 st'"
    "pa_x (bs_claim st') = aux_claim lam [] (bs_cpref st') (eval_mle_loop (fold_low q0 r) rs) (eval_mle_loop (fold_low q1 r) rs)
       (map (eval_col rs) (map (fold_col r ?n) cols)) (map (eval_term rs) (map (fold_term r ?n) terms))"
    using Cons.IH [OF l aux_tables_fold [OF len(3)] r(4,5) v] by blast
  have half: "length q0 div 2 = ?n" "length q1 div 2 = ?n" using len by simp_all
  have A: "aux_rounds H chacha lam (zip (suffix_eq_tables (x # xs)) (x # xs)) q0 q1 cols terms ?c st
      = Some (r # rs, eval_mle_loop q0 (r # rs), eval_mle_loop q1 (r # rs), map (eval_col (r # rs)) cols, st')"
    unfolding zip_suffix_Cons eval_tables_Cons [OF len(3)] aux_rounds.simps Let_def half aux_message_next [OF len]
    using r(1) IH(1) r(7) half by (simp add: fold_vec_eq)
  have B: "aux_verify_rounds H chacha (x # xs) (c # corrs) kclaim ?c vs = Some (k, bs_cpref st', r # rs, vs')"
    using r(3) IH(5) r(7) by simp
  have D: "pa_x (bs_claim st') = aux_claim lam [] (bs_cpref st') (eval_mle_loop q0 (r # rs)) (eval_mle_loop q1 (r # rs))
      (map (eval_col (r # rs)) cols) (map (eval_term (r # rs)) terms)"
    unfolding eval_tables_Cons [OF len(3)] using IH(9) by simp
  have E: "length (r # rs) = length (x # xs)" "length (c # corrs) = length (x # xs)" "bs_rounds3_cur st' = bs_rounds3_cur st @ c # corrs"
    using IH(2-4) r(2) by simp_all
  show ?case using A B D E IH(6,7) same_frame_trans [OF r(6) IH(8)] by blast
qed

section \<open>The external claims\<close>

definition claim_ok :: "fp2 \<Rightarrow> leaf_aux_claim \<Rightarrow> aux_key \<Rightarrow> bool" where
  "claim_ok delta cl = (\<lambda>(c, p, k). c = al_col cl \<and> p = al_point cl \<and> mac_valid delta (al_value cl) k)"

abbreviation claim_weights :: "leaf_aux_claim list \<Rightarrow> fp2 list \<Rightarrow> (fp2 \<times> fp2) list" where
  "claim_weights claims mus \<equiv> map2 (\<lambda>c mu. (mu * (1 - al_point c ! 0), mu * al_point c ! 0)) claims mus"

abbreviation claim_terms :: "leaf_aux_claim list \<Rightarrow> (fp2 \<times> fp2) list \<Rightarrow> aux_term list" where
  "claim_terms claims ws \<equiv> map2 (\<lambda>c w. (al_col c, w, eq_vec (tl (al_point c)))) claims ws"

definition add_claims :: "prover_authed \<Rightarrow> (prover_authed \<times> fp2) list \<Rightarrow> prover_authed" where
  "add_claims = foldl (\<lambda>claim (v, mu). prover_add claim (prover_scale v mu))"

lemma mus_run:
  assumes "list_all2 (claim_ok delta) claims kclaims" "\<forall>cl \<in> set claims. al_point cl \<noteq> []" "is_fiat_shamir tx" "mac_valid delta claim kclaim"
  shows "\<exists>mus tx' k. blind_draws H (length claims) tx = Some (mus, tx') \<and> length mus = length claims \<and> is_fiat_shamir tx'
    \<and> aux_mus_keys H kclaims kclaim tx = Some (k, claim_weights claims mus, tx')
    \<and> mac_valid delta (add_claims claim (zip (map al_value claims) mus)) k
    \<and> pa_x (add_claims claim (zip (map al_value claims) mus)) = pa_x claim + (\<Sum>(c, mu)\<leftarrow>zip claims mus. mu * pa_x (al_value c))"
  using assms
proof (induction claims kclaims arbitrary: tx claim kclaim rule: list_all2_induct)
  case Nil
  then show ?case by (simp add: add_claims_def)
next
  case (Cons cl claims ck kclaims)
  obtain c p k where ck: "ck = (c, p, k)" by (cases ck)
  then have cl: "c = al_col cl" "p = al_point cl" "mac_valid delta (al_value cl) k" using Cons.hyps(1) by (simp_all add: claim_ok_def)
  obtain mu tx1 where mu: "challenge_fp2 H tx = Some (mu, tx1)" "is_fiat_shamir tx1" using fs_challenge [OF Cons.prems(2)] by blast
  have "mac_valid delta (prover_add claim (prover_scale (al_value cl) mu)) (key_add kclaim (key_scale k mu))"
    using cl(3) Cons.prems(3) by (intro fp2_mac.valid_add fp2_mac.valid_scale)
  then obtain mus tx' k' where IH: "blind_draws H (length claims) tx1 = Some (mus, tx')" "length mus = length claims" "is_fiat_shamir tx'"
    "aux_mus_keys H kclaims (key_add kclaim (key_scale k mu)) tx1 = Some (k', claim_weights claims mus, tx')"
    "mac_valid delta (add_claims (prover_add claim (prover_scale (al_value cl) mu)) (zip (map al_value claims) mus)) k'"
    "pa_x (add_claims (prover_add claim (prover_scale (al_value cl) mu)) (zip (map al_value claims) mus))
      = pa_x (prover_add claim (prover_scale (al_value cl) mu)) + (\<Sum>(c, mu)\<leftarrow>zip claims mus. mu * pa_x (al_value c))"
    using Cons.IH [OF _ mu(2)] Cons.prems(1) by fastforce
  have "al_point cl \<noteq> []" using Cons.prems(1) by simp
  then show ?case
    using mu(1) IH cl ck by (intro exI [of _ "mu # mus"] exI [of _ tx'] exI [of _ k']) (simp add: add_claims_def mult.commute)
qed

lemma claim_term_value:
  assumes "length v = 2 * 2 ^ length ps"
  shows "term_sum (2 ^ length ps) (evens v) (odds v) (mu * (1 - p)) (mu * p) (eq_vec ps) = mu * mle_at v (p # ps)"
proof -
  have "term_sum (2 ^ length ps) (evens v) (odds v) (mu * (1 - p)) (mu * p) (eq_vec ps)
      = mu * ((1 - p) * mle_at (evens v) ps + p * mle_at (odds v) ps)"
    unfolding term_sum_def mle_at_def dot_def sum_distrib_left sum.distrib [symmetric]
    by (rule sum.cong) (simp_all add: algebra_simps)
  moreover have "(1 - p) * mle_at (evens v) ps + p * mle_at (odds v) ps = mle_at v (p # ps)"
    using mle_at_split [of v ps p] assms by (simp add: algebra_simps)
  ultimately show ?thesis by simp
qed

text \<open>The claims on columns, with the columns as lifted vectors.\<close>

definition lifted :: "fp list \<Rightarrow> fp2 list" where
  "lifted vals = map fp2_from_base vals"

lemma aux_col_halves: "ac_half0 (aux_col vals) = evens (lifted vals)" "ac_half1 (aux_col vals) = odds (lifted vals)"
  by (auto simp: aux_col_def evens_def odds_def lifted_def)

definition claims_true :: "nat \<Rightarrow> fp list list \<Rightarrow> leaf_aux_claim list \<Rightarrow> bool" where
  "claims_true l cols claims \<longleftrightarrow> (\<forall>cl \<in> set claims. length (al_point cl) = Suc l \<and> al_col cl < length cols
     \<and> pa_x (al_value cl) = mle_at (lifted (cols ! al_col cl)) (al_point cl))"

lemma claims_total:
  assumes "claims_true l cols claims" "\<forall>col \<in> set cols. length col = 2 * 2 ^ l" "length mus = length claims"
  shows "aux_total (2 ^ l) (map aux_col cols) (claim_terms claims (claim_weights claims mus)) = (\<Sum>(c, mu)\<leftarrow>zip claims mus. mu * pa_x (al_value c))"
  using assms(3,1)
proof (induction mus claims rule: list_induct2)
  case (Cons mu mus cl claims)
  have cl: "length (al_point cl) = Suc l" "al_col cl < length cols" "pa_x (al_value cl) = mle_at (lifted (cols ! al_col cl)) (al_point cl)"
    using Cons.prems by (simp_all add: claims_true_def)
  then obtain p ps where p: "al_point cl = p # ps" "length ps = l" by (auto simp: length_Suc_conv)
  have len: "length (lifted (cols ! al_col cl)) = 2 * 2 ^ length ps" using assms(2) cl(2) p(2) by (simp add: lifted_def)
  show ?case
    using Cons.IH Cons.prems claim_term_value [OF len, of mu p] cl p by (simp add: claims_true_def aux_total_def aux_col_halves)
qed (simp add: aux_total_def)

lemma claims_tables:
  assumes "claims_true l cols claims" "\<forall>col \<in> set cols. length col = 2 * 2 ^ l" "length ws = length claims"
  shows "aux_tables (2 ^ l) (map aux_col cols) (claim_terms claims ws)"
  using assms unfolding aux_tables_def claims_true_def
  by (fastforce simp: aux_col_def lifted_def in_set_zip dest: nth_mem)

section \<open>Pairs of transferred values\<close>

lemma flat_pairs_Cons: "flat_pairs ((a, b) # ps) = a # b # flat_pairs ps" "flat_pairs [] = []"
  by (simp_all add: flat_pairs_def)

lemma length_flat_pairs [simp]: "length (flat_pairs ps) = 2 * length ps"
  by (induction ps) (auto simp: flat_pairs_Cons)

lemma length_pair_up [simp]: "length (pair_up xs) = length xs div 2"
  by (simp add: pair_up_def)

lemma pair_up_Cons: "pair_up (a # b # xs) = (a, b) # pair_up xs" "pair_up [] = []"
proof -
  show "pair_up (a # b # xs) = (a, b) # pair_up xs"
  proof (rule nth_equalityI)
    fix i
    assume "i < length (pair_up (a # b # xs))"
    then show "pair_up (a # b # xs) ! i = ((a, b) # pair_up xs) ! i"
      by (cases i) (simp_all add: pair_up_def evens_def odds_def del: upt_Suc)
  qed simp
qed (simp add: pair_up_def evens_def odds_def)

lemma even_list_cases:
  assumes "length ys = 2 * length (x # xs)"
  obtains a b zs where "ys = a # b # zs" "length zs = 2 * length xs"
  using assms by (cases ys; cases "tl ys") auto

lemma flat_pair_up: "length ms = 2 * length ps \<Longrightarrow> flat_pairs (pair_up (map2 f (flat_pairs ps) ms)) = map2 f (flat_pairs ps) ms"
proof (induction ps arbitrary: ms)
  case (Cons p ps)
  obtain a b zs where "ms = a # b # zs" "length zs = 2 * length ps" using Cons.prems by (rule even_list_cases)
  then show ?case using Cons.IH by (cases p) (simp add: flat_pairs_Cons pair_up_Cons)
qed (simp add: flat_pairs_Cons pair_up_Cons)

text \<open>Pairs with valid keys, and their values.\<close>

definition pairs_valid :: "fp2 \<Rightarrow> (prover_authed \<times> prover_authed) list \<Rightarrow> (verifier_key \<times> verifier_key) list \<Rightarrow> bool" where
  "pairs_valid delta = list_all2 (\<lambda>(a, b) (ka, kb). mac_valid delta a ka \<and> mac_valid delta b kb)"

lemma pairs_transfer:
  assumes "length ms = 2 * length ps" "length ks = 2 * length ps"
    and "\<And>i. i < 2 * length ps \<Longrightarrow> mac_valid delta (full_authenticate (ms ! i) (flat_pairs ps ! i)) (ks ! i)"
  shows "pairs_valid delta (pair_up (map2 (\<lambda>x m. full_authenticate m x) (flat_pairs ps) ms)) (pair_up ks)
    \<and> map (\<lambda>(a, b). (pa_x a, pa_x b)) (pair_up (map2 (\<lambda>x m. full_authenticate m x) (flat_pairs ps) ms)) = ps"
  using assms
proof (induction ps arbitrary: ms ks)
  case (Cons p ps)
  obtain a b zs where ms: "ms = a # b # zs" "length zs = 2 * length ps" using Cons.prems(1) by (rule even_list_cases)
  obtain ka kb kzs where ks: "ks = ka # kb # kzs" "length kzs = 2 * length ps" using Cons.prems(2) by (rule even_list_cases)
  have "mac_valid delta (full_authenticate (zs ! i) (flat_pairs ps ! i)) (kzs ! i)" if "i < 2 * length ps" for i
    using Cons.prems(3) [of "Suc (Suc i)"] that ms ks by (cases p) (simp add: flat_pairs_Cons)
  then show ?case
    using Cons.IH [OF ms(2) ks(2)] Cons.prems(3) [of 0] Cons.prems(3) [of 1] ms ks
    by (cases p) (simp add: flat_pairs_Cons pair_up_Cons pairs_valid_def full_authenticate_def)
qed (simp add: flat_pairs_Cons pair_up_Cons pairs_valid_def)

lemma take_keys_expand:
  assumes "take_keys chacha corrs dm v = Some (keys, dm', v')" "vc_delta v' = vc_delta v"
  obtains dom kcs where "doms_take 1 dm = Some (dom, dm')" "expand_full_verifier_keys chacha dom (length corrs) v = Some (kcs, v')"
    "keys = map2 (\<lambda>k c. key_new (vk_k k + vc_delta v' * c)) kcs corrs"
  using assms that by (auto simp: take_keys_def correct_full_verifier_keys_def bind_eq_Some_conv)

section \<open>The extended relation\<close>

definition finals_sum :: "(fp2 \<times> fp2) list \<Rightarrow> aux_final list \<Rightarrow> fp2" where
  "finals_sum cols finals = (\<Sum>f\<leftarrow>finals. af_eq_r f * (af_w0 f * fst (cols ! af_col f) + af_w1 f * snd (cols ! af_col f)))"

lemma aux_row_run:
  assumes "pairs_valid delta cols kcols" "\<forall>f \<in> set finals. af_col f < length cols" "mac_valid delta row krow"
  shows "\<exists>r k. aux_row prover_add prover_scale cols finals row = Some r \<and> aux_row key_add key_scale kcols finals krow = Some k \<and> mac_valid delta r k
    \<and> pa_x r = pa_x row + finals_sum (map (\<lambda>(a, b). (pa_x a, pa_x b)) cols) finals"
  using assms(2,3)
proof (induction finals arbitrary: row krow)
  case Nil
  then show ?case by (simp add: finals_sum_def)
next
  case (Cons f finals)
  have c: "af_col f < length cols" "af_col f < length kcols" using Cons.prems(1) assms(1) by (auto simp: pairs_valid_def dest: list_all2_lengthD)
  obtain a b ka kb where p: "cols ! af_col f = (a, b)" "kcols ! af_col f = (ka, kb)" by (cases "cols ! af_col f", cases "kcols ! af_col f")
  have v: "mac_valid delta a ka" "mac_valid delta b kb"
    using list_all2_nthD [OF assms(1) [unfolded pairs_valid_def] c(1)] p by simp_all
  let ?row = "prover_add row (prover_scale (prover_add (prover_scale a (af_w0 f)) (prover_scale b (af_w1 f))) (af_eq_r f))"
    and ?krow = "key_add krow (key_scale (key_add (key_scale ka (af_w0 f)) (key_scale kb (af_w1 f))) (af_eq_r f))"
  have "mac_valid delta ?row ?krow" using v Cons.prems(2) by (intro fp2_mac.valid_add fp2_mac.valid_scale)
  from Cons.IH [OF _ this] Cons.prems(1) show ?case
    using c p by (auto simp: finals_sum_def algebra_simps)
qed

abbreviation claim_finals :: "leaf_aux_claim list \<Rightarrow> (fp2 \<times> fp2) list \<Rightarrow> fp2 list \<Rightarrow> aux_final list" where
  "claim_finals claims ws rs \<equiv> map2 (\<lambda>c (w0, w1). \<lparr>af_col = al_col c, af_w0 = w0, af_w1 = w1, af_eq_r = eq_points (tl (al_point c)) rs\<rparr>) claims ws"

lemma finals_keys:
  assumes "list_all2 (claim_ok delta) claims kclaims"
  shows "map2 (\<lambda>(c, p, _) (w0, w1). \<lparr>af_col = c, af_w0 = w0, af_w1 = w1, af_eq_r = eq_points (tl p) rs\<rparr>) kclaims ws = claim_finals claims ws rs"
  using assms
proof (induction claims kclaims arbitrary: ws rule: list_all2_induct)
  case (Cons cl claims ck kclaims)
  then show ?case by (cases ws) (auto simp: claim_ok_def)
qed simp

lemma splits_aux_transcript:
  assumes "is_fiat_shamir tx"
  shows "\<exists>tx1 tx2 tx3 t tx4. append_fp2s ''logup_split_corrections'' cs tx = Some tx1 \<and> append_fp2s ''logup_prod_corrections'' ds tx1 = Some tx2
    \<and> append_fp2s ''logup_col_corrections'' es tx2 = Some tx3 \<and> challenge_fp2 H tx3 = Some (t, tx4) \<and> is_fiat_shamir tx4"
proof -
  obtain tx1 tx2 where 1: "append_fp2s ''logup_split_corrections'' cs tx = Some tx1" "append_fp2s ''logup_prod_corrections'' ds tx1 = Some tx2" "is_fiat_shamir tx2"
    using splits_transcript [OF assms, of cs ds H] by blast
  obtain tx3 where 2: "append_fp2s ''logup_col_corrections'' es tx2 = Some tx3" "is_fiat_shamir tx3"
    using fs_append [OF 1(3), of "''logup_col_corrections''" es] by auto
  from fs_challenge [OF 2(2), of H] show ?thesis using 1 2 by blast
qed

text \<open>The transfers at the end of the leaf layer.\<close>

lemma leaf_transfers:
  assumes "plan_ok chacha (4 # 3 # 2 * length cols # plan) dm s" "twin s v" "vc_delta v = delta"
  obtains masks dm1 s1 keys v1 zmasks dm2 s2 zkeys v2 cmasks dm3 s3 dom kcs v3 where
    "take_masks chacha 4 dm s = Some (masks, dm1, s1)" "length masks = 4"
    "take_keys chacha [a - fc_x (masks ! 0), b - fc_x (masks ! 1), c - fc_x (masks ! 2), d - fc_x (masks ! 3)] dm v = Some (keys, dm1, v1)" "length keys = 4"
    "mac_valid delta (full_authenticate (masks ! 0) a) (keys ! 0)" "mac_valid delta (full_authenticate (masks ! 1) b) (keys ! 1)"
    "mac_valid delta (full_authenticate (masks ! 2) c) (keys ! 2)" "mac_valid delta (full_authenticate (masks ! 3) d) (keys ! 3)"
    "take_masks chacha 3 dm1 s1 = Some (zmasks, dm2, s2)" "length zmasks = 3"
    "take_keys chacha [a * d - fc_x (zmasks ! 0), b * c - fc_x (zmasks ! 1), c * d - fc_x (zmasks ! 2)] dm1 v1 = Some (zkeys, dm2, v2)" "length zkeys = 3"
    "mac_valid delta (full_authenticate (zmasks ! 0) (a * d)) (zkeys ! 0)" "mac_valid delta (full_authenticate (zmasks ! 1) (b * c)) (zkeys ! 1)"
    "mac_valid delta (full_authenticate (zmasks ! 2) (c * d)) (zkeys ! 2)"
    "take_masks chacha (2 * length cols) dm2 s2 = Some (cmasks, dm3, s3)" "length cmasks = 2 * length cols"
    "doms_take 1 dm2 = Some (dom, dm3)" "expand_full_verifier_keys chacha dom (2 * length cols) v2 = Some (kcs, v3)"
    "pairs_valid delta (pair_up (map2 (\<lambda>x m. full_authenticate m x) (flat_pairs cols) cmasks))
       (pair_up (map2 (\<lambda>k c. key_new (vk_k k + vc_delta v3 * c)) kcs (map2 (\<lambda>x m. x - fc_x m) (flat_pairs cols) cmasks)))"
    "map (\<lambda>(a, b). (pa_x a, pa_x b)) (pair_up (map2 (\<lambda>x m. full_authenticate m x) (flat_pairs cols) cmasks)) = cols"
    "twin s3 v3" "vc_delta v3 = delta" "plan_ok chacha plan dm3 s3"
proof -
  obtain masks dm1 s1 keys v1 where m: "take_masks chacha 4 dm s = Some (masks, dm1, s1)" "plan_ok chacha (3 # 2 * length cols # plan) dm1 s1" "length masks = 4"
    and k: "take_keys chacha [a - fc_x (masks ! 0), b - fc_x (masks ! 1), c - fc_x (masks ! 2), d - fc_x (masks ! 3)] dm v = Some (keys, dm1, v1)"
      "twin s1 v1" "vc_delta v1 = delta" "length keys = 4"
      "mac_valid delta (full_authenticate (masks ! 0) a) (keys ! 0)" "mac_valid delta (full_authenticate (masks ! 1) b) (keys ! 1)"
      "mac_valid delta (full_authenticate (masks ! 2) c) (keys ! 2)" "mac_valid delta (full_authenticate (masks ! 3) d) (keys ! 3)"
    by (rule transfer_four [OF assms, of a b c d])
  obtain zmasks dm2 s2 zkeys v2 where n: "take_masks chacha 3 dm1 s1 = Some (zmasks, dm2, s2)" "plan_ok chacha (2 * length cols # plan) dm2 s2" "length zmasks = 3"
    and j: "take_keys chacha [a * d - fc_x (zmasks ! 0), b * c - fc_x (zmasks ! 1), c * d - fc_x (zmasks ! 2)] dm1 v1 = Some (zkeys, dm2, v2)"
      "twin s2 v2" "vc_delta v2 = delta" "length zkeys = 3"
      "mac_valid delta (full_authenticate (zmasks ! 0) (a * d)) (zkeys ! 0)" "mac_valid delta (full_authenticate (zmasks ! 1) (b * c)) (zkeys ! 1)"
      "mac_valid delta (full_authenticate (zmasks ! 2) (c * d)) (zkeys ! 2)"
    by (rule transfer_three [OF m(2) k(2,3), of "a * d" "b * c" "c * d"])
  have len: "length (flat_pairs cols) = 2 * length cols" by simp
  obtain cmasks dm3 s3 ckeys v3 where q: "take_masks chacha (2 * length cols) dm2 s2 = Some (cmasks, dm3, s3)" "plan_ok chacha plan dm3 s3"
      "length cmasks = 2 * length cols"
    and h: "take_keys chacha (map2 (\<lambda>x f. x - fc_x f) (flat_pairs cols) cmasks) dm2 v2 = Some (ckeys, dm3, v3)" "twin s3 v3" "vc_delta v3 = delta"
      "length ckeys = 2 * length cols" "\<And>i. i < 2 * length cols \<Longrightarrow> mac_valid delta (full_authenticate (cmasks ! i) (flat_pairs cols ! i)) (ckeys ! i)"
    using transfer_values [OF n(2) j(2,3) len] by blast
  have d: "vc_delta v3 = vc_delta v2" using h(3) j(3) by simp
  obtain dom kcs where e: "doms_take 1 dm2 = Some (dom, dm3)"
    "expand_full_verifier_keys chacha dom (length (map2 (\<lambda>x f. x - fc_x f) (flat_pairs cols) cmasks)) v2 = Some (kcs, v3)"
    "ckeys = map2 (\<lambda>k c. key_new (vk_k k + vc_delta v3 * c)) kcs (map2 (\<lambda>x f. x - fc_x f) (flat_pairs cols) cmasks)"
    by (rule take_keys_expand [OF h(1) d])
  have l: "length (map2 (\<lambda>x f. x - fc_x f) (flat_pairs cols) cmasks) = 2 * length cols" using q(3) by simp
  show thesis
    by (rule that [OF m(1,3) k(1,4-8) n(1,3) j(1,4-7) q(1,3) e(1) e(2) [unfolded l] _ _ h(2,3) q(2)])
       (use pairs_transfer [OF q(3) h(4,5)] e(3) in simp_all)
qed

text \<open>The products and the extended relation of the leaf layer.\<close>

lemma leaf_batch_ok:
  assumes "mac_valid delta p0 k0" "mac_valid delta p1 k1" "mac_valid delta q0 k2" "mac_valid delta q1 k3"
    and "mac_valid delta z0 j0" "mac_valid delta z1 j1" "mac_valid delta z2 j2" "mac_valid delta claim k"
    and "pa_x z0 = pa_x p0 * pa_x q1" "pa_x z1 = pa_x p1 * pa_x q0" "pa_x z2 = pa_x q0 * pa_x q1"
    and "pa_x claim = cpref * layer_val lam (pa_x p0) (pa_x p1) (pa_x q0) (pa_x q1) + finals_sum (map (\<lambda>(a, b). (pa_x a, pa_x b)) cols) finals"
    and "pairs_valid delta cols kcols" "\<forall>f \<in> set finals. af_col f < length cols"
  obtains row krow where
    "aux_row prover_add prover_scale cols finals (layer_row prover_add prover_sub prover_scale lam cpref z0 z1 z2 claim) = Some row"
    "aux_row key_add key_scale kcols finals (layer_row key_add key_sub key_scale lam cpref j0 j1 j2 k) = Some krow"
    "batch_ok delta [(p0, q1, z0), (p1, q0, z1), (q0, q1, z2)] [row] [(k0, k3, j0), (k1, k2, j1), (k2, k3, j2)] [krow]"
proof -
  let ?row = "layer_row prover_add prover_sub prover_scale lam cpref z0 z1 z2 claim"
  obtain row krow where r: "aux_row prover_add prover_scale cols finals ?row = Some row"
    "aux_row key_add key_scale kcols finals (layer_row key_add key_sub key_scale lam cpref j0 j1 j2 k) = Some krow" "mac_valid delta row krow"
    "pa_x row = pa_x ?row + finals_sum (map (\<lambda>(a, b). (pa_x a, pa_x b)) cols) finals"
    using aux_row_run [OF assms(13,14) layer_row_valid [OF assms(5-8)]] by blast
  have "pa_x row = 0" unfolding r(4) using assms(9-12) by (simp add: layer_row_def layer_val_def algebra_simps)
  then show thesis using that [OF r(1,2)] assms(1-11) r(3) by (simp add: batch_ok_def)
qed

lemma blind_splits_aux_step:
  assumes "sides_ok chacha delta (4 # 3 # 2 * length cols # plan) st vs" "mac_valid delta (bs_claim st) kclaim" "bs_col_corrs st = []"
    and "list_all2 (claim_ok delta) claims kclaims" "\<forall>f \<in> set (claim_finals claims ws rs). af_col f < length cols"
    and "pa_x (bs_claim st) = bs_cpref st * layer_val (bs_lambda st) a b c d + finals_sum cols (claim_finals claims ws rs)"
  shows "\<exists>t st' layer kp kq kcols vs'. blind_splits_aux H chacha (a, b, c, d) cols (claim_finals claims ws rs) st = Some (t, st')
    \<and> bs_layers st' = bs_layers st @ [layer] \<and> bl_round_corrs layer = bs_rounds_cur st \<and> length (bs_col_corrs st') = length cols
    \<and> aux_verify_end H chacha (bs_lambda st) layer (bs_col_corrs st') kclaims ws rs kclaim (bs_cpref st) vs = Some (t, kp, kq, kcols, vs')
    \<and> sides_ok chacha delta plan st' vs' \<and> mac_valid delta (bs_cp st') kp \<and> mac_valid delta (bs_cq st') kq
    \<and> pa_x (bs_cp st') = a + t * (b - a) \<and> pa_x (bs_cq st') = c + t * (d - c)
    \<and> list_all2 (mac_valid delta) (bs_aux_col_claims st') kcols \<and> map pa_x (bs_aux_col_claims st') = map (\<lambda>(x, y). x + t * (y - x)) cols
    \<and> bs_rounds3_cur st' = bs_rounds3_cur st \<and> bs_root_corrs st' = bs_root_corrs st \<and> bs_roots st' = bs_roots st"
proof -
  note f = sides_facts [OF assms(1)]
  obtain masks dm1 s1 keys v1 zmasks dm2 s2 zkeys v2 cmasks dm3 s3 dom kcs v3 where
    m: "take_masks chacha 4 (bs_doms st) (bs_stream st) = Some (masks, dm1, s1)" "length masks = 4"
    and k: "take_keys chacha [a - fc_x (masks ! 0), b - fc_x (masks ! 1), c - fc_x (masks ! 2), d - fc_x (masks ! 3)] (bs_doms st) (vs_ctx vs) = Some (keys, dm1, v1)" "length keys = 4"
      "mac_valid delta (full_authenticate (masks ! 0) a) (keys ! 0)" "mac_valid delta (full_authenticate (masks ! 1) b) (keys ! 1)"
      "mac_valid delta (full_authenticate (masks ! 2) c) (keys ! 2)" "mac_valid delta (full_authenticate (masks ! 3) d) (keys ! 3)"
    and n: "take_masks chacha 3 dm1 s1 = Some (zmasks, dm2, s2)" "length zmasks = 3"
    and j: "take_keys chacha [a * d - fc_x (zmasks ! 0), b * c - fc_x (zmasks ! 1), c * d - fc_x (zmasks ! 2)] dm1 v1 = Some (zkeys, dm2, v2)" "length zkeys = 3"
      "mac_valid delta (full_authenticate (zmasks ! 0) (a * d)) (zkeys ! 0)" "mac_valid delta (full_authenticate (zmasks ! 1) (b * c)) (zkeys ! 1)"
      "mac_valid delta (full_authenticate (zmasks ! 2) (c * d)) (zkeys ! 2)"
    and q: "take_masks chacha (2 * length cols) dm2 s2 = Some (cmasks, dm3, s3)" "length cmasks = 2 * length cols"
    and e: "doms_take 1 dm2 = Some (dom, dm3)" "expand_full_verifier_keys chacha dom (2 * length cols) v2 = Some (kcs, v3)"
    and p: "pairs_valid delta (pair_up (map2 (\<lambda>x m. full_authenticate m x) (flat_pairs cols) cmasks))
        (pair_up (map2 (\<lambda>k c. key_new (vk_k k + vc_delta v3 * c)) kcs (map2 (\<lambda>x m. x - fc_x m) (flat_pairs cols) cmasks)))"
      "map (\<lambda>(a, b). (pa_x a, pa_x b)) (pair_up (map2 (\<lambda>x m. full_authenticate m x) (flat_pairs cols) cmasks)) = cols"
    and w: "twin s3 v3" "vc_delta v3 = delta" "plan_ok chacha plan dm3 s3"
    by (rule leaf_transfers [OF f(7,4,5), of a b c d])
  let ?cs = "[a - fc_x (masks ! 0), b - fc_x (masks ! 1), c - fc_x (masks ! 2), d - fc_x (masks ! 3)]"
    and ?ds = "[a * d - fc_x (zmasks ! 0), b * c - fc_x (zmasks ! 1), c * d - fc_x (zmasks ! 2)]"
    and ?es = "map2 (\<lambda>x m. x - fc_x m) (flat_pairs cols) cmasks" and ?fin = "claim_finals claims ws rs"
  let ?ca = "pair_up (map2 (\<lambda>x m. full_authenticate m x) (flat_pairs cols) cmasks)" and ?kc = "pair_up (map2 (\<lambda>k c. key_new (vk_k k + vc_delta v3 * c)) kcs ?es)"
  have es: "flat_pairs (pair_up ?es) = ?es" "length (pair_up ?es) = length cols" and lca: "length ?ca = length cols"
    using flat_pair_up [OF q(2)] q(2) by simp_all
  obtain tx1 tx2 tx3 t tx4 where tx: "append_fp2s ''logup_split_corrections'' ?cs (bs_tx st) = Some tx1" "append_fp2s ''logup_prod_corrections'' ?ds tx1 = Some tx2"
    "append_fp2s ''logup_col_corrections'' ?es tx2 = Some tx3" "challenge_fp2 H tx3 = Some (t, tx4)" "is_fiat_shamir tx4"
    using splits_aux_transcript [OF f(1), of ?cs ?ds ?es H] by blast
  let ?p0 = "full_authenticate (masks ! 0) a" and ?p1 = "full_authenticate (masks ! 1) b" and ?q0 = "full_authenticate (masks ! 2) c"
    and ?q1 = "full_authenticate (masks ! 3) d" and ?z0 = "full_authenticate (zmasks ! 0) (a * d)"
    and ?z1 = "full_authenticate (zmasks ! 1) (b * c)" and ?z2 = "full_authenticate (zmasks ! 2) (c * d)"
  have z: "pa_x ?z0 = pa_x ?p0 * pa_x ?q1" "pa_x ?z1 = pa_x ?p1 * pa_x ?q0" "pa_x ?z2 = pa_x ?q0 * pa_x ?q1"
    by (simp_all add: full_authenticate_def)
  have val: "pa_x (bs_claim st) = bs_cpref st * layer_val (bs_lambda st) (pa_x ?p0) (pa_x ?p1) (pa_x ?q0) (pa_x ?q1)
      + finals_sum (map (\<lambda>(a, b). (pa_x a, pa_x b)) ?ca) ?fin"
    unfolding p(2) assms(6) by (simp add: full_authenticate_def)
  have fin: "\<forall>f \<in> set ?fin. af_col f < length ?ca" using assms(5) unfolding lca .
  obtain row krow where r: "aux_row prover_add prover_scale ?ca ?fin (layer_row prover_add prover_sub prover_scale (bs_lambda st) (bs_cpref st) ?z0 ?z1 ?z2 (bs_claim st)) = Some row"
    "aux_row key_add key_scale ?kc ?fin (layer_row key_add key_sub key_scale (bs_lambda st) (bs_cpref st) (zkeys ! 0) (zkeys ! 1) (zkeys ! 2) kclaim) = Some krow"
    "batch_ok delta [(?p0, ?q1, ?z0), (?p1, ?q0, ?z1), (?q0, ?q1, ?z2)] [row]
       [(keys ! 0, keys ! 3, zkeys ! 0), (keys ! 1, keys ! 2, zkeys ! 1), (keys ! 2, keys ! 3, zkeys ! 2)] [krow]"
    by (rule leaf_batch_ok [OF k(3-6) j(3-5) assms(2) z val p(1) fin])
  let ?l = "\<lparr>bl_round_corrs = bs_rounds_cur st, bl_split_corrs = (?cs ! 0, ?cs ! 1, ?cs ! 2, ?cs ! 3), bl_z_corrs = (?ds ! 0, ?ds ! 1, ?ds ! 2)\<rparr>"
  let ?st = "st\<lparr>bs_stream := s3, bs_doms := dm3, bs_tx := tx4, bs_prod := bs_prod st @ [(?p0, ?q1, ?z0), (?p1, ?q0, ?z1), (?q0, ?q1, ?z2)], bs_zero := bs_zero st @ [row],
     bs_cp := child_claim prover_add prover_sub prover_scale t ?p0 ?p1, bs_cq := child_claim prover_add prover_sub prover_scale t ?q0 ?q1,
     bs_layers := bs_layers st @ [?l], bs_rounds_cur := [], bs_col_corrs := pair_up ?es,
     bs_aux_col_claims := map (\<lambda>(a, b). child_claim prover_add prover_sub prover_scale t a b) ?ca\<rparr>"
  let ?vs = "vs\<lparr>vs_ctx := v3, vs_doms := dm3, vs_tx := tx4,
     vs_kprod := vs_kprod vs @ [(keys ! 0, keys ! 3, zkeys ! 0), (keys ! 1, keys ! 2, zkeys ! 1), (keys ! 2, keys ! 3, zkeys ! 2)], vs_kzero := vs_kzero vs @ [krow]\<rparr>"
  let ?kp = "child_claim key_add key_sub key_scale t (keys ! 0) (keys ! 1)" and ?kq = "child_claim key_add key_sub key_scale t (keys ! 2) (keys ! 3)"
    and ?kcols = "map (\<lambda>(a, b). child_claim key_add key_sub key_scale t a b) ?kc"
  have 1: "blind_splits_aux H chacha (a, b, c, d) cols ?fin st = Some (t, ?st)"
    using m n q(1) tx(1-4) r(1) es assms(3) by (simp add: blind_splits_aux_def Let_def)
  have 2: "aux_verify_end H chacha (bs_lambda st) ?l (pair_up ?es) kclaims ws rs kclaim (bs_cpref st) vs = Some (t, ?kp, ?kq, ?kcols, ?vs)"
    unfolding aux_verify_end_def finals_keys [OF assms(4)] using k(1,2) j(1,2) e tx(1-4) f(2,3) r(2) es by (simp add: Let_def)
  have 3: "sides_ok chacha delta plan ?st ?vs" using batch_ok_append [OF f(6) r(3)] w tx(5) by (simp add: sides_ok_def)
  have 4: "mac_valid delta (bs_cp ?st) ?kp" "mac_valid delta (bs_cq ?st) ?kq" using child_claim_valid [OF k(3,4)] child_claim_valid [OF k(5,6)] by simp_all
  have 5: "list_all2 (mac_valid delta) (bs_aux_col_claims ?st) ?kcols"
    using p(1) unfolding pairs_valid_def by (auto simp: list_all2_conv_all_nth child_claim_valid case_prod_unfold)
  have 6: "map pa_x (bs_aux_col_claims ?st) = map (\<lambda>(x, y). x + t * (y - x)) cols"
    by (subst p(2) [symmetric]) (simp add: case_prod_unfold child_claim_value comp_def)
  show ?thesis
    by (rule exI [of _ t], rule exI [of _ ?st], rule exI [of _ ?l], rule exI [of _ ?kp], rule exI [of _ ?kq], rule exI [of _ ?kcols], rule exI [of _ ?vs])
       (use 1 2 3 4 5 6 es(2) in \<open>simp add: child_claim_value full_authenticate_def\<close>)
qed

section \<open>The leaf layer\<close>

lemma eval_loop_one: "length v = 2 ^ length rs \<Longrightarrow> eval_mle_loop v rs ! 0 = mle_at v rs"
  by (simp add: mle_at_loop)

text \<open>What is left of the claims after the rounds is the sum over the public factors.\<close>

lemma final_total:
  assumes "claims_true (length rs) cols claims" "\<forall>col \<in> set cols. length col = 2 * 2 ^ length rs" "length ws = length claims"
  shows "aux_total 1 (map (eval_col rs) (map aux_col cols)) (map (eval_term rs) (claim_terms claims ws))
    = finals_sum (map (\<lambda>c. (mle_at (evens (lifted c)) rs, mle_at (odds (lifted c)) rs)) cols) (claim_finals claims ws rs)"
  using assms(3,1)
proof (induction ws claims rule: list_induct2)
  case (Cons w ws cl claims)
  obtain w0 w1 where w: "w = (w0, w1)" by (cases w)
  have cl: "length (tl (al_point cl)) = length rs" "al_col cl < length cols" using Cons.prems by (simp_all add: claims_true_def)
  then have len: "length (lifted (cols ! al_col cl)) = 2 * 2 ^ length rs" using assms(2) by (simp add: lifted_def)
  have "eval_mle_loop (eq_vec (tl (al_point cl))) rs ! 0 = eq_points (tl (al_point cl)) rs"
    using cl(1) eq_points_dot [OF cl(1)] by (simp add: eval_loop_one mle_at_def)
  then show ?case
    using Cons.IH Cons.prems cl(2) len
    by (simp add: claims_true_def aux_total_def finals_sum_def term_sum_def eval_term_def eval_col_def aux_col_halves eval_loop_one w)
qed (simp add: aux_total_def finals_sum_def)

lemma evens_ones: "evens (replicate (2 * n) x) = replicate n x" "odds (replicate (2 * n) x) = replicate n x"
  by (auto simp: evens_def odds_def intro!: nth_equalityI)

lemma aux_start:
  assumes "length q = 2 * 2 ^ length point"
  shows "lam * mle_at (fst (combine_layer (replicate (2 * 2 ^ length point) 1) q)) point + mle_at (snd (combine_layer (replicate (2 * 2 ^ length point) 1) q)) point
    = layer_sum lam point (ones point) (ones point) (evens q) (odds q)"
  using layer_sum_combined [of "replicate (2 * 2 ^ length point) 1" point q lam] assms by (simp add: evens_ones)

lemma aux_leaf_run:
  assumes cl: "claims_true (length point) cols claims" "\<forall>col \<in> set cols. length col = 2 * 2 ^ length point" "list_all2 (claim_ok delta) claims kclaims"
    and lq: "length (lq_a lq) = 2 * 2 ^ length point"
    and at: "sides_ok chacha delta (replicate (length point) 3 @ 4 # 3 # 2 * length cols # plan) st vs" "mac_valid delta (bs_cp st) kcp" "mac_valid delta (bs_cq st) kcq"
      "pa_x (bs_cp st) = mle_at (fst (combine_layer (replicate (2 * 2 ^ length point) 1) (mat_q lq))) point"
      "pa_x (bs_cq st) = mle_at (snd (combine_layer (replicate (2 * 2 ^ length point) 1) (mat_q lq))) point"
      "bs_rounds_cur st = []" "bs_rounds3_cur st = []" "bs_col_corrs st = []"
  shows "\<exists>pt st' layer kp kq kcols vs'. walk_layers_aux H chacha lq \<lparr>ax_cols = map aux_col cols, ax_claims = claims\<rparr> [] point st = Some (pt, st')
    \<and> length pt = Suc (length point) \<and> bs_layers st' = bs_layers st @ [layer] \<and> length (bs_rounds3_cur st') = length point \<and> length (bs_col_corrs st') = length cols
    \<and> aux_verify_leaf H chacha \<lparr>ba_rounds3 = bs_rounds3_cur st', ba_col_corrs = bs_col_corrs st'\<rparr> kclaims layer point kcp kcq vs = Some (Some (pt, kp, kq, kcols), vs')
    \<and> sides_ok chacha delta plan st' vs' \<and> mac_valid delta (bs_cp st') kp \<and> mac_valid delta (bs_cq st') kq
    \<and> pa_x (bs_cp st') = 1 \<and> pa_x (bs_cq st') = mle_at (mat_q lq) pt \<and> list_all2 (mac_valid delta) (bs_aux_col_claims st') kcols
    \<and> map pa_x (bs_aux_col_claims st') = map (\<lambda>c. mle_at (lifted c) pt) cols \<and> bs_root_corrs st' = bs_root_corrs st \<and> bs_roots st' = bs_roots st"
proof -
  note f = sides_facts [OF at(1)]
  let ?l = "length point" and ?q0 = "evens (mat_q lq)" and ?q1 = "odds (mat_q lq)" and ?cols = "map aux_col cols"
  obtain lam tx1 where lam: "challenge_fp2 H (bs_tx st) = Some (lam, tx1)" "is_fiat_shamir tx1" using fs_challenge [OF f(1)] by blast
  let ?cl = "prover_add (prover_scale (bs_cp st) lam) (bs_cq st)" and ?kl = "key_add (key_scale kcp lam) kcq"
  have k0: "mac_valid delta ?cl ?kl" using at(2,3) by (intro fp2_mac.valid_add fp2_mac.valid_scale)
  have ne: "\<forall>cl \<in> set claims. al_point cl \<noteq> []" using cl(1) by (auto simp: claims_true_def)
  obtain mus tx2 k1 where mu: "blind_draws H (length claims) tx1 = Some (mus, tx2)" "length mus = length claims" "is_fiat_shamir tx2"
    "aux_mus_keys H kclaims ?kl tx1 = Some (k1, claim_weights claims mus, tx2)" "mac_valid delta (add_claims ?cl (zip (map al_value claims) mus)) k1"
    "pa_x (add_claims ?cl (zip (map al_value claims) mus)) = pa_x ?cl + (\<Sum>(c, mu)\<leftarrow>zip claims mus. mu * pa_x (al_value c))"
    using mus_run [OF cl(3) ne lam(2) k0, of H] by blast
  let ?ws = "claim_weights claims mus"
  have ws: "length ?ws = length claims" using mu(2) by simp
  let ?terms = "claim_terms claims ?ws"
  let ?st = "st\<lparr>bs_tx := tx2, bs_lambda := lam, bs_claim := add_claims ?cl (zip (map al_value claims) mus), bs_cpref := 1\<rparr>" and ?vs = "vs\<lparr>vs_tx := tx2\<rparr>"
  have so: "sides_ok chacha delta (replicate ?l 3 @ 4 # 3 # 2 * length cols # plan) ?st ?vs" using at(1) mu(3) by (simp add: sides_ok_def)
  have val: "pa_x (bs_claim ?st) = aux_claim lam point (bs_cpref ?st) ?q0 ?q1 ?cols ?terms"
    using mu(6) at(4,5) aux_start [of "mat_q lq" point lam] claims_total [OF cl(1,2) mu(2)] lq by (simp add: aux_claim_def mult.commute)
  have q: "length ?q0 = 2 ^ ?l" "length ?q1 = 2 ^ ?l" using lq by simp_all
  obtain rs corrs st1 k2 vs1 where r: "aux_rounds H chacha lam (zip (suffix_eq_tables point) point) ?q0 ?q1 ?cols ?terms (bs_cpref ?st) ?st
      = Some (rs, eval_mle_loop ?q0 rs, eval_mle_loop ?q1 rs, map (eval_col rs) ?cols, st1)"
    "length rs = ?l" "length corrs = ?l" "bs_rounds3_cur st1 = bs_rounds3_cur ?st @ corrs"
    "aux_verify_rounds H chacha point corrs k1 (bs_cpref ?st) ?vs = Some (k2, bs_cpref st1, rs, vs1)"
    "sides_ok chacha delta (4 # 3 # 2 * length cols # plan) st1 vs1" "mac_valid delta (bs_claim st1) k2" "same_frame ?st st1"
    "pa_x (bs_claim st1) = aux_claim lam [] (bs_cpref st1) (eval_mle_loop ?q0 rs) (eval_mle_loop ?q1 rs) (map (eval_col rs) ?cols) (map (eval_term rs) ?terms)"
    using aux_rounds_run [OF q claims_tables [OF cl(1,2) ws] so _ val, of k1 H] mu(5) by auto
  let ?c = "mle_at ?q0 rs" and ?d = "mle_at ?q1 rs"
  let ?colsp = "map (\<lambda>c. (mle_at (evens (lifted c)) rs, mle_at (odds (lifted c)) rs)) cols" and ?fin = "claim_finals claims ?ws rs"
  have e: "eval_mle_loop ?q0 rs = [?c]" "eval_mle_loop ?q1 rs = [?d]" using q r(2) by (simp_all add: mle_at_loop)
  have cp: "map (\<lambda>c. (ac_half0 c ! 0, ac_half1 c ! 0)) (map (eval_col rs) ?cols) = ?colsp"
    using cl(2) r(2) by (auto simp: eval_col_def aux_col_halves lifted_def eval_loop_one)
  have same: "bs_lambda st1 = lam" "bs_layers st1 = bs_layers st" "bs_rounds_cur st1 = []" "bs_col_corrs st1 = []"
      "bs_root_corrs st1 = bs_root_corrs st" "bs_roots st1 = bs_roots st"
    using r(8) at(6,8) by (simp_all add: same_frame_def)
  have val2: "pa_x (bs_claim st1) = bs_cpref st1 * layer_val (bs_lambda st1) 1 1 ?c ?d + finals_sum ?colsp ?fin"
    using r(9) final_total [of rs cols claims ?ws] cl(1,2) ws r(2) by (simp add: aux_claim_def e same(1))
  have fin: "\<forall>f \<in> set ?fin. af_col f < length ?colsp" using cl(1) by (auto simp: claims_true_def dest!: set_zip_leftD)
  have so2: "sides_ok chacha delta (4 # 3 # 2 * length ?colsp # plan) st1 vs1" using r(6) by simp
  obtain t st2 layer kp kq kcols vs2 where s: "blind_splits_aux H chacha (1, 1, ?c, ?d) ?colsp ?fin st1 = Some (t, st2)"
    "bs_layers st2 = bs_layers st1 @ [layer]" "bl_round_corrs layer = bs_rounds_cur st1" "length (bs_col_corrs st2) = length ?colsp"
    "aux_verify_end H chacha (bs_lambda st1) layer (bs_col_corrs st2) kclaims ?ws rs k2 (bs_cpref st1) vs1 = Some (t, kp, kq, kcols, vs2)"
    "sides_ok chacha delta plan st2 vs2" "mac_valid delta (bs_cp st2) kp" "mac_valid delta (bs_cq st2) kq"
    "pa_x (bs_cp st2) = 1 + t * (1 - 1)" "pa_x (bs_cq st2) = ?c + t * (?d - ?c)" "list_all2 (mac_valid delta) (bs_aux_col_claims st2) kcols"
    "map pa_x (bs_aux_col_claims st2) = map (\<lambda>(x, y). x + t * (y - x)) ?colsp"
    "bs_rounds3_cur st2 = bs_rounds3_cur st1" "bs_root_corrs st2 = bs_root_corrs st1" "bs_roots st2 = bs_roots st1"
    using blind_splits_aux_step [OF so2 r(7) same(4) cl(3) fin val2, of H] by blast
  have fits: "aux_fits lq \<lparr>ax_cols = ?cols, ax_claims = claims\<rparr> ?l"
    using lq cl(1,2) by (auto simp: aux_fits_def claims_true_def aux_col_def)
  have mus: "blind_aux_mus H (map al_value claims) (st\<lparr>bs_tx := tx1, bs_lambda := lam, bs_claim := ?cl, bs_cpref := 1\<rparr>) = Some (mus, ?st)"
    using mu(1) by (simp add: blind_aux_mus_def add_claims_def)
  have A: "layer_leaf_ones_aux H chacha lq \<lparr>ax_cols = ?cols, ax_claims = claims\<rparr> point st = Some (rs, (1, 1, ?c, ?d), ?colsp, ?fin, st1)"
    unfolding layer_leaf_ones_aux_def blind_lambda_def Let_def
    using lam(1) mus fits r(1) e cp by (simp add: aux_leaf_rounds [OF lq, unfolded Let_def] get_def)
  have B: "aux_verify_leaf H chacha \<lparr>ba_rounds3 = corrs, ba_col_corrs = bs_col_corrs st2\<rparr> kclaims layer point kcp kcq vs = Some (Some (t # rs, kp, kq, kcols), vs2)"
    using lam(1) mu(4) r(5) s(3,5) same(1,3) f(2) by (simp add: aux_verify_leaf_def)
  have D: "pa_x (bs_cq st2) = mle_at (mat_q lq) (t # rs)" using s(10) mle_at_split [of "mat_q lq" rs t] lq r(2) by simp
  have "mle_at (evens (lifted c)) rs + t * (mle_at (odds (lifted c)) rs - mle_at (evens (lifted c)) rs) = mle_at (lifted c) (t # rs)" if "c \<in> set cols" for c
    using mle_at_split [of "lifted c" rs t] cl(2) r(2) that by (simp add: lifted_def)
  then have E: "map pa_x (bs_aux_col_claims st2) = map (\<lambda>c. mle_at (lifted c) (t # rs)) cols" using s(12) by simp
  have F: "bs_rounds3_cur st2 = corrs" using s(13) r(4) at(7) by simp
  show ?thesis
    by (rule exI [of _ "t # rs"], rule exI [of _ st2], rule exI [of _ layer], rule exI [of _ kp], rule exI [of _ kq], rule exI [of _ kcols], rule exI [of _ vs2])
       (use A B D E F s(1,2,4,6-9,11,14,15) same(2,5,6) r(2,3) in simp)
qed

section \<open>The tree\<close>

definition aux_plan :: "nat \<Rightarrow> nat \<Rightarrow> nat list" where
  "aux_plan k n_cols = upper_plan 0 k @ replicate k 3 @ [4, 3, 2 * n_cols]"

lemma walk_layers_aux_upper:
  "walk_layers_aux H chacha lq ax ls point st
    = do { (point, st) \<leftarrow> upper_layers (blind_sink H chacha) ls point st; walk_layers_aux H chacha lq ax [] point st }"
proof (induction ls arbitrary: point st)
  case (Cons l ls)
  obtain p q where "l = (p, q)" by (cases l)
  then show ?case by (simp only: walk_layers_aux.simps(2) upper_layers.simps(2) Cons.IH bind_assoc case_prod_unfold Option.bind_assoc)
qed simp

text \<open>Layers that the plain verifier accepts, followed by the leaf layer.\<close>

lemma aux_verify_upper:
  assumes "blind_verify_layers H chacha layers l point kcp kcq vs = Some (Some (pt, kp, kq), vs')"
  shows "aux_verify_layers H chacha aux claims (layers @ [leaf]) l point kcp kcq vs = aux_verify_leaf H chacha aux claims leaf pt kp kq vs'"
  using assms
proof (induction layers arbitrary: l point kcp kcq vs)
  case (Cons layer layers)
  obtain m ms where m: "layers @ [leaf] = m # ms" by (cases "layers @ [leaf]") auto
  show ?case
    using Cons.prems Cons.IH unfolding append_Cons m
    by (auto simp: bind_eq_Some_conv split: if_splits option.splits)
qed simp

text \<open>The prover of the tree is asked for a round at a zero coordinate. Only the layers above the leaves divide by their coordinates.\<close>

definition blind_aux_meets_zero :: "blake3 \<Rightarrow> chacha \<Rightarrow> leaf_q \<Rightarrow> correlation_stream \<Rightarrow> doms \<Rightarrow> transcript \<Rightarrow> prod_triples \<Rightarrow> prover_authed list \<Rightarrow> bool" where
  "blind_aux_meets_zero H chacha lq s dm tx prods zeros \<longleftrightarrow>
     (case do { tree \<leftarrow> build_tree_cpu Ones lq;
                root_p \<leftarrow> get (ft_p tree ! 0) 0;
                root_q \<leftarrow> get (ft_q tree ! 0) 0;
                st \<leftarrow> sk_root (probe (blind_sink H chacha)) root_p root_q (new_blind_sink s tx dm prods zeros, False);
                upper_layers (probe (blind_sink H chacha)) (zip (tl (ft_p tree)) (tl (ft_q tree))) [] st } of
        None \<Rightarrow> False
      | Some (_, _, z) \<Rightarrow> z)"

lemma aux_tree_outcome:
  assumes cl: "claims_true k cols claims" "\<forall>col \<in> set cols. length col = 2 ^ Suc k" "list_all2 (claim_ok delta) claims kclaims"
    and lq: "length (lq_a lq) = 2 ^ Suc k"
    and so: "sides_ok chacha delta (2 # aux_plan k (length cols) @ plan) (new_blind_sink s tx dm prods zeros) vs"
  obtains (panics) "blind_aux_meets_zero H chacha lq s dm tx prods zeros"
    "blind_prove_frac_tree_aux H chacha lq \<lparr>ax_cols = map aux_col cols, ax_claims = claims\<rparr> s dm tx prods zeros = None"
  | (runs) pf pt cp cq rp rq cs st kcp kcq krp krq kcs vs' where "\<not> blind_aux_meets_zero H chacha lq s dm tx prods zeros"
    "blind_prove_frac_tree_aux H chacha lq \<lparr>ax_cols = map aux_col cols, ax_claims = claims\<rparr> s dm tx prods zeros = Some ((pf, pt, cp, cq, (rp, rq), cs), st)"
    "blind_verify_frac_tree_aux H chacha (Suc k) pf kclaims (length cols) vs = Some (Some (pt, kcp, kcq, (krp, krq), kcs), vs')"
    "sides_ok chacha delta plan st vs'" "length pt = Suc k" "mac_valid delta cp kcp" "mac_valid delta cq kcq" "mac_valid delta rp krp" "mac_valid delta rq krq"
    "list_all2 (mac_valid delta) cs kcs" "pa_x cp = 1" "pa_x cq = mle_at (mat_q lq) pt" "map pa_x cs = map (\<lambda>c. mle_at (lifted c) pt) cols"
    "(pa_x rp, pa_x rq) = frac_root (replicate (2 ^ Suc k) 1) (mat_q lq)"
proof -
  let ?st = "new_blind_sink s tx dm prods zeros" and ?p = "replicate (2 ^ Suc k) 1 :: fp2 list" and ?q = "mat_q lq"
  let ?plan = "replicate k 3 @ 4 # 3 # 2 * length cols # plan"
  obtain rp rq ls where w: "frac_root ?p ?q = (rp, rq)" "length ls = k" "tree_chain ([rp], [rq]) (ls @ [(?p, ?q)])"
    "build_weighted_tree ?p ?q = Some \<lparr>ft_p = [rp] # map fst ls, ft_q = [rq] # map snd ls, ft_depth = Suc k\<rparr>"
    by (rule weighted_tree_shape [of ?p k ?q]) (use lq in simp_all)
  have tree: "build_tree_cpu Ones lq = Some \<lparr>ft_p = [rp] # map fst ls, ft_q = [rq] # map snd ls, ft_depth = Suc k\<rparr>"
    using w(4) lq build_tree_reference [of Ones lq] by simp
  have new: "bs_rounds_cur ?st = []" "bs_layers ?st = []" by (simp_all add: new_blind_sink_def)
  have so': "sides_ok chacha delta (2 # upper_plan 0 k @ ?plan) ?st vs" using so by (simp add: aux_plan_def)
  obtain st0 v dm' tx' keys where
    r: "sk_root (blind_sink H chacha) rp rq ?st = Some st0"
    "take_keys chacha [fst (bs_root_corrs st0), snd (bs_root_corrs st0)] (vs_doms vs) (vs_ctx vs) = Some (keys, dm', v)" "length keys = 2"
    "append_fp2s ''logup_root_corrections'' [fst (bs_root_corrs st0), snd (bs_root_corrs st0)] (vs_tx vs) = Some tx'"
    "blind_at H chacha (frame_of st0) (vs\<lparr>vs_ctx := v, vs_doms := dm', vs_tx := tx'\<rparr>) (keys ! 0) (keys ! 1) delta (upper_plan 0 k @ ?plan) [] rp rq st0"
    and roots: "mac_valid delta (fst (bs_roots st0)) (keys ! 0)" "mac_valid delta (snd (bs_roots st0)) (keys ! 1)"
      "pa_x (fst (bs_roots st0)) = rp" "pa_x (snd (bs_roots st0)) = rq" "bs_rounds3_cur st0 = bs_rounds3_cur ?st" "bs_col_corrs st0 = bs_col_corrs ?st"
    by (rule blind_root_step [OF so' new, where p = rp and q = rq])
  let ?vs = "vs\<lparr>vs_ctx := v, vs_doms := dm', vs_tx := tx'\<rparr>"
  let ?at = "blind_at H chacha (frame_of st0) ?vs (keys ! 0) (keys ! 1) delta"
  obtain pt st1 z P Q where e: "upper_layers (probe (blind_sink H chacha)) ls [] (st0, False) = Some (pt, st1, z)"
    "upper_layers (blind_sink H chacha) ls [] st0 = (if z then None else Some (pt, st1))" "length pt = k" "combine_layer ?p ?q = (P, Q)"
    "z \<or> ?at ?plan pt (mle_at P pt) (mle_at Q pt) st1"
    using blind.upper_outcome [OF w(3), of "[]" H chacha "frame_of st0" ?vs "keys ! 0" "keys ! 1" delta ?plan st0] r(5) w(2) by auto
  have mz: "blind_aux_meets_zero H chacha lq s dm tx prods zeros \<longleftrightarrow> z"
    using tree r(1) e(1) by (simp add: blind_aux_meets_zero_def zip_map_fst_snd)
  show thesis
  proof (cases z)
    case True
    then have "walk_layers_aux H chacha lq \<lparr>ax_cols = map aux_col cols, ax_claims = claims\<rparr> ls [] st0 = None"
      using e(2) by (subst walk_layers_aux_upper) simp
    then show thesis
      using panics mz True tree r(1) by (simp add: blind_prove_frac_tree_aux_def prove_engine_aux_def zip_map_fst_snd)
  next
    case False
    then have u: "upper_layers (blind_sink H chacha) ls [] st0 = Some (pt, st1)" and at: "?at ?plan pt (mle_at P pt) (mle_at Q pt) st1"
      using e(2,5) by simp_all
    obtain kcp kcq vs1 where a: "mac_valid delta (bs_cp st1) kcp" "mac_valid delta (bs_cq st1) kcq" "sides_ok chacha delta ?plan st1 vs1"
      "blind_verify_layers H chacha (bs_layers st1) 0 [] (keys ! 0) (keys ! 1) ?vs = Some (Some (pt, kcp, kcq), vs1)"
      "pa_x (bs_cp st1) = mle_at P pt" "pa_x (bs_cq st1) = mle_at Q pt" "frame_of st1 = frame_of st0" "length (bs_layers st1) = length pt" "bs_rounds_cur st1 = []"
      by (rule blind_at_done [OF at])
    have l: "claims_true (length pt) cols claims" "\<forall>col \<in> set cols. length col = 2 * 2 ^ length pt" "length (lq_a lq) = 2 * 2 ^ length pt"
      using cl(1,2) lq e(3) by simp_all
    have c: "combine_layer (replicate (2 * 2 ^ length pt) 1) ?q = (P, Q)" using e(3,4) by simp
    have so1: "sides_ok chacha delta (replicate (length pt) 3 @ 4 # 3 # 2 * length cols # plan) st1 vs1" using a(3) e(3) by simp
    have fr: "bs_rounds3_cur st1 = []" "bs_col_corrs st1 = []" "bs_root_corrs st1 = bs_root_corrs st0" "bs_roots st1 = bs_roots st0"
      using a(7) roots(5,6) by (simp_all add: new_blind_sink_def)
    have v: "pa_x (bs_cp st1) = mle_at (fst (combine_layer (replicate (2 * 2 ^ length pt) 1) ?q)) pt"
      "pa_x (bs_cq st1) = mle_at (snd (combine_layer (replicate (2 * 2 ^ length pt) 1) ?q)) pt" using a(5,6) c by simp_all
    obtain pt' st2 layer kp kq kcols vs2 where f: "walk_layers_aux H chacha lq \<lparr>ax_cols = map aux_col cols, ax_claims = claims\<rparr> [] pt st1 = Some (pt', st2)"
      "length pt' = Suc (length pt)" "bs_layers st2 = bs_layers st1 @ [layer]" "length (bs_rounds3_cur st2) = length pt" "length (bs_col_corrs st2) = length cols"
      "aux_verify_leaf H chacha \<lparr>ba_rounds3 = bs_rounds3_cur st2, ba_col_corrs = bs_col_corrs st2\<rparr> kclaims layer pt kcp kcq vs1 = Some (Some (pt', kp, kq, kcols), vs2)"
      "sides_ok chacha delta plan st2 vs2" "mac_valid delta (bs_cp st2) kp" "mac_valid delta (bs_cq st2) kq" "pa_x (bs_cp st2) = 1" "pa_x (bs_cq st2) = mle_at ?q pt'"
      "list_all2 (mac_valid delta) (bs_aux_col_claims st2) kcols" "map pa_x (bs_aux_col_claims st2) = map (\<lambda>c. mle_at (lifted c) pt') cols"
      "bs_root_corrs st2 = bs_root_corrs st1" "bs_roots st2 = bs_roots st1"
      using aux_leaf_run [OF l(1,2) cl(3) l(3) so1 a(1,2) v a(9) fr(1,2), of H] by blast
    let ?aux = "\<lparr>ba_rounds3 = bs_rounds3_cur st2, ba_col_corrs = bs_col_corrs st2\<rparr>"
    let ?pf = "\<lparr>bf_root_corrs = bs_root_corrs st2, bf_layers = bs_layers st2, bf_aux = Some ?aux\<rparr>"
    have "walk_layers_aux H chacha lq \<lparr>ax_cols = map aux_col cols, ax_claims = claims\<rparr> ls [] st0 = Some (pt', st2)"
      using u f(1) by (subst walk_layers_aux_upper) simp
    then have 1: "blind_prove_frac_tree_aux H chacha lq \<lparr>ax_cols = map aux_col cols, ax_claims = claims\<rparr> s dm tx prods zeros
        = Some ((?pf, pt', bs_cp st2, bs_cq st2, (fst (bs_roots st2), snd (bs_roots st2)), bs_aux_col_claims st2), st2)"
      using tree r(1) by (simp add: blind_prove_frac_tree_aux_def prove_engine_aux_def zip_map_fst_snd)
    have "aux_verify_layers H chacha ?aux kclaims (bs_layers st2) 0 [] (keys ! 0) (keys ! 1) ?vs = Some (Some (pt', kp, kq, kcols), vs2)"
      using f(3,6) aux_verify_upper [OF a(4)] by simp
    moreover have "\<not> (\<exists>(c, p, k') \<in> set kclaims. length p \<noteq> Suc k)"
      using cl(1,3) by (fastforce simp: claims_true_def claim_ok_def list_all2_conv_all_nth in_set_conv_nth)
    ultimately have 2: "blind_verify_frac_tree_aux H chacha (Suc k) ?pf kclaims (length cols) vs = Some (Some (pt', kp, kq, (keys ! 0, keys ! 1), kcols), vs2)"
      using r(2-4) f(3-5,14) fr(3) a(8) e(3) by (cases "bs_root_corrs st0") (simp add: blind_verify_frac_tree_aux_def)
    show thesis using runs [OF _ 1 2 f(7) _ f(8,9) _ _ f(12,10,11,13)] mz False f(2,15) e(3) fr(4) roots(1-4) w(1) by simp
  qed
qed

end
