(* ===== verification/Logup_Instance.thy ===== *)
theory Logup_Instance
  imports Logup_Aux_Complete
begin

text \<open>
  Completeness of the lookup instances: the packed leaf closes against the consolidated claims on the packed columns, and the roots carry
  the fraction of the looked-up values, the form in which the shared table side takes them.
\<close>

section \<open>Packing\<close>

text \<open>The packed column as the tree has it, and the weight of a column in it.\<close>

definition packed_values :: "fp list list \<Rightarrow> u32 option list \<Rightarrow> nat \<Rightarrow> fp list" where
  "packed_values cols shifts n = map (pack_entry cols shifts) [0..<n]"

definition shift_weight :: "u32 option \<Rightarrow> fp2" where
  "shift_weight s = (case s of Some s \<Rightarrow> fp2_from_base (shift_scalar s) | None \<Rightarrow> 0)"

lemma length_packed [simp]: "length (packed_values cols shifts n) = n"
  by (simp add: packed_values_def)

lemma packed_mle_from:
  assumes "\<forall>(c, s) \<in> set zs. length c = 2 ^ length pt"
  shows "mle_at (map (\<lambda>i. fp2_from_base (foldl (\<lambda>a (c, s). case s of Some s \<Rightarrow> a + c ! i * shift_scalar s | None \<Rightarrow> a) (f i) zs)) [0..<2 ^ length pt]) pt
    = mle_at (map (\<lambda>i. fp2_from_base (f i)) [0..<2 ^ length pt]) pt + (\<Sum>(c, s)\<leftarrow>zs. mle_at (lifted c) pt * shift_weight s)"
  using assms
proof (induction zs arbitrary: f)
  case (Cons z zs)
  obtain c s where z: "z = (c, s)" by (cases z)
  have "mle_at (map (\<lambda>i. fp2_from_base (f i + c ! i * x)) [0..<2 ^ length pt]) pt
      = mle_at (map (\<lambda>i. fp2_from_base (f i)) [0..<2 ^ length pt]) pt + mle_at (lifted c) pt * fp2_from_base x" for x
    using Cons.prems by (simp add: z mle_at_def dot_def lifted_def algebra_simps sum.distrib sum_distrib_left)
  moreover have "\<forall>(c, s) \<in> set zs. length c = 2 ^ length pt" using Cons.prems by simp
  ultimately show ?case
    using Cons.IH [of f] Cons.IH [of "\<lambda>i. f i + c ! i * shift_scalar (the s)"] by (cases s) (simp_all add: z shift_weight_def)
qed simp

lemma packed_mle:
  assumes "\<forall>c \<in> set cols. length c = 2 ^ length pt"
  shows "mle_at (lifted (packed_values cols shifts (2 ^ length pt))) pt = (\<Sum>(c, s)\<leftarrow>zip cols shifts. mle_at (lifted c) pt * shift_weight s)"
proof -
  have "\<forall>(c, s) \<in> set (zip cols shifts). length c = 2 ^ length pt" using assms by (auto dest: set_zip_leftD)
  from packed_mle_from [OF this, of "\<lambda>i. 0"] have "mle_at (lifted (packed_values cols shifts (2 ^ length pt))) pt
      = mle_at (map (\<lambda>i. 0) [0..<2 ^ length pt]) pt + (\<Sum>(c, s)\<leftarrow>zip cols shifts. mle_at (lifted c) pt * shift_weight s)"
    by (simp add: lifted_def packed_values_def pack_entry_def o_def)
  then show ?thesis by (simp add: mle_at_def dot_def)
qed

lemma pack_row_value:
  "pa_x (pack_row prover_add prover_scale cs row) = pa_x row + (\<Sum>(c, s)\<leftarrow>cs. pa_x c * shift_weight s)"
proof (induction cs arbitrary: row)
  case (Cons c cs)
  obtain a s where c: "c = (a, s)" by (cases c)
  from Cons.IH show ?case by (cases s) (simp_all add: c pack_row_def shift_weight_def)
qed (simp add: pack_row_def)

lemma pack_row_valid:
  "list_all2 (mac_valid delta) cs ks \<Longrightarrow> mac_valid delta row krow
    \<Longrightarrow> mac_valid delta (pack_row prover_add prover_scale (zip cs shifts) row) (pack_row key_add key_scale (zip ks shifts) krow)"
proof (induction arbitrary: shifts row krow rule: list_all2_induct)
  case (Cons c cs k ks)
  show ?case
  proof (cases shifts)
    case (Cons s shifts')
    from Cons.hyps(1) Cons.prems fp2_mac.valid_scale fp2_mac.valid_add show ?thesis
      using Cons.IH by (cases s) (simp_all add: pack_row_def Cons)
  qed (use Cons.prems in \<open>simp add: pack_row_def\<close>)
qed (simp add: pack_row_def)

section \<open>The instance\<close>

lemma instance_fraction:
  assumes "length vals = 2 ^ k" "alpha \<notin> fp2_from_base ` set vals" "(p, q) = frac_root (replicate (2 ^ k) 1) (lift_fps alpha vals)"
  shows "q \<noteq> 0" "p / q = lookup_sum alpha vals"
proof -
  note r = assms(3) [symmetric]
  have nz: "den_prod (lift_fps alpha vals) \<noteq> 0" using assms(2) by (auto simp: den_prod_nonzero lift_fps_def)
  then show "q \<noteq> 0" using frac_root_sum(1) [of "replicate (2 ^ k) 1" k "lift_fps alpha vals"] assms(1) r by simp
  have "num_sum (replicate (2 ^ k) 1) (lift_fps alpha vals) = (\<Sum>i<length vals. 1 / (alpha - fp2_from_base (vals ! i)))"
    using assms(1) by (simp add: num_sum_def lift_fps_def)
  also have "\<dots> = lookup_sum alpha vals" by (simp add: lookup_sum_def sum_list_sum_nth atLeast0LessThan)
  finally show "p / q = lookup_sum alpha vals"
    using frac_root_sum [of "replicate (2 ^ k) 1" k "lift_fps alpha vals"] assms(1) r nz by simp
qed

text \<open>The panic at a zero coordinate is that of the tree.\<close>

lemma instance_panics:
  assumes "cols \<noteq> []" "\<forall>col \<in> set cols. length col = 2 ^ Suc k"
    and "blind_prove_frac_tree_aux H chacha (lift_q_fp (packed_values cols shifts (2 ^ Suc k)) alpha)
      \<lparr>ax_cols = map aux_col cols, ax_claims = claims\<rparr> s dm tx prods zeros = None"
  shows "blind_instance_prove H chacha cols shifts alpha claims s dm tx prods zeros = None"
proof -
  have "get cols 0 = Some (cols ! 0)" "length (cols ! 0) = 2 ^ Suc k" using assms(1,2) by (simp_all add: get_nth)
  then show ?thesis using assms(3) by (simp add: blind_instance_prove_def Let_def packed_values_def)
qed

text \<open>C6. Completeness of a lookup instance over packed columns with external claims, when the columns have the instance's size, the claims
  that ride on them are true and their keys valid, and the packed values avoid the pole. If in this run the engine asks for a round
  at a zero coordinate in a layer above the leaves, the prover panics; this is the only exception. Otherwise prover and verifier both return. They agree on
  transcript, domains, correlation position and leaf point; all pushed products and zero rows are true with valid keys (the packed leaf
  closure included); the consolidated claims are the authenticated extensions of the columns; and the root
  fraction is the one the shared table side expects of a site that looks up these values.\<close>

theorem blind_instance_complete:
  assumes "cols \<noteq> []" "length shifts = length cols" "\<exists>sh \<in> set shifts. sh \<noteq> None" "\<forall>col \<in> set cols. length col = 2 ^ Suc k"
    and "claims_true k cols claims" "list_all2 (claim_ok (vc_delta v)) claims kclaims" "is_fiat_shamir tx"
    and "alpha \<notin> fp2_from_base ` set (packed_values cols shifts (2 ^ Suc k))"
    and "twin s v" "batch_ok (vc_delta v) prods zeros kprods kzeros" "plan_ok chacha (2 # aux_plan k (length cols)) dm s"
  shows "(blind_aux_meets_zero H chacha (lift_q_fp (packed_values cols shifts (2 ^ Suc k)) alpha) s dm tx prods zeros
      \<longrightarrow> blind_instance_prove H chacha cols shifts alpha claims s dm tx prods zeros = None)
    \<and> (\<not> blind_aux_meets_zero H chacha (lift_q_fp (packed_values cols shifts (2 ^ Suc k)) alpha) s dm tx prods zeros \<longrightarrow> (\<exists>out st key vs.
    blind_instance_prove H chacha cols shifts alpha claims s dm tx prods zeros = Some (out, st)
    \<and> blind_instance_verify H chacha (Suc k) shifts alpha (ip_proof out) kclaims
        \<lparr>vs_ctx = v, vs_doms = dm, vs_tx = tx, vs_kprod = kprods, vs_kzero = kzeros\<rparr> = Some (Some key, vs)
    \<and> vs_tx vs = bs_tx st \<and> vs_doms vs = bs_doms st \<and> twin (bs_stream st) (vs_ctx vs)
    \<and> batch_ok (vc_delta v) (bs_prod st) (bs_zero st) (vs_kprod vs) (vs_kzero vs)
    \<and> iv_point key = ip_point out \<and> site_ok (vc_delta v) (ip_roots out) (iv_kroots key)
    \<and> (case ip_roots out of (p, q) \<Rightarrow> pa_x p / pa_x q = lookup_sum alpha (packed_values cols shifts (2 ^ Suc k)))
    \<and> list_all2 (\<lambda>cl ky. oc_point cl = ip_point out \<and> ok_point ky = ip_point out \<and> mac_valid (vc_delta v) (oc_value cl) (ok_key ky))
        (ip_col_claims out) (iv_col_keys key)
    \<and> map (\<lambda>cl. Some (pa_x (oc_value cl))) (ip_col_claims out) = map (\<lambda>c. eval_mle (lifted c) (ip_point out)) cols))"
proof -
  let ?d = "vc_delta v" and ?vs = "\<lparr>vs_ctx = v, vs_doms = dm, vs_tx = tx, vs_kprod = kprods, vs_kzero = kzeros\<rparr>"
    and ?vals = "packed_values cols shifts (2 ^ Suc k)"
  let ?lq = "lift_q_fp ?vals alpha"
  have so: "sides_ok chacha ?d (2 # aux_plan k (length cols) @ []) (new_blind_sink s tx dm prods zeros) ?vs"
    using assms(7,9-11) by (simp add: sides_ok_def new_blind_sink_def)
  have lq: "length (lq_a ?lq) = 2 ^ Suc k" by simp
  show ?thesis
  proof (rule aux_tree_outcome [OF assms(5,4,6) lq so, of H])
    assume z: "blind_aux_meets_zero H chacha ?lq s dm tx prods zeros"
      "blind_prove_frac_tree_aux H chacha ?lq \<lparr>ax_cols = map aux_col cols, ax_claims = claims\<rparr> s dm tx prods zeros = None"
    from instance_panics [OF assms(1,4) z(2)] z(1) show ?thesis by blast
  next
    fix pf pt cp cq rp rq cs st kcp kcq krp krq kcs vs
    assume z: "\<not> blind_aux_meets_zero H chacha ?lq s dm tx prods zeros"
      and t: "blind_prove_frac_tree_aux H chacha ?lq \<lparr>ax_cols = map aux_col cols, ax_claims = claims\<rparr> s dm tx prods zeros = Some ((pf, pt, cp, cq, (rp, rq), cs), st)"
        "blind_verify_frac_tree_aux H chacha (Suc k) pf kclaims (length cols) ?vs = Some (Some (pt, kcp, kcq, (krp, krq), kcs), vs)"
        "sides_ok chacha ?d [] st vs" "length pt = Suc k"
      and m: "mac_valid ?d cp kcp" "mac_valid ?d cq kcq" "mac_valid ?d rp krp" "mac_valid ?d rq krq" "list_all2 (mac_valid ?d) cs kcs"
      and x: "pa_x cp = 1" "pa_x cq = mle_at (mat_q ?lq) pt" "map pa_x cs = map (\<lambda>c. mle_at (lifted c) pt) cols"
        "(pa_x rp, pa_x rq) = frac_root (replicate (2 ^ Suc k) 1) (mat_q ?lq)"
    have d: "vc_delta (vs_ctx vs) = ?d" using sides_facts(5) [OF t(3)] .
    let ?row = "pack_row prover_add prover_scale (zip cs shifts) (prover_sub cq (prover_from_public alpha))"
      and ?krow = "pack_row key_add key_scale (zip kcs shifts) (key_sub kcq (key_from_public alpha ?d))"
    have cols: "\<forall>c \<in> set cols. length c = 2 ^ length pt" using assms(4) t(4) by simp
    have "(\<Sum>(c, s)\<leftarrow>zip cs shifts. pa_x c * shift_weight s) = mle_at (lifted ?vals) pt"
    proof -
      have "(\<Sum>(c, s)\<leftarrow>zip cs shifts. pa_x c * shift_weight s) = (\<Sum>(y, s)\<leftarrow>zip (map pa_x cs) shifts. y * shift_weight s)"
        by (simp add: zip_map1 case_prod_unfold o_def)
      also have "\<dots> = mle_at (lifted ?vals) pt"
        using packed_mle [OF cols, of shifts] t(4) unfolding x(3) by (simp add: zip_map1 case_prod_unfold o_def)
      finally show ?thesis .
    qed
    moreover have "pa_x cq = alpha - mle_at (lifted ?vals) pt"
      using x(2) mle_at_affine [of ?vals pt alpha fp2_from_base] t(4) by (simp add: lift_fps_def lifted_def)
    ultimately have row: "pa_x ?row = 0" unfolding pack_row_value by simp
    have "batch_ok ?d [] [prover_sub cp (prover_from_public 1), ?row] [] [key_sub kcp (key_from_public 1 ?d), ?krow]"
      using row x(1) pack_row_valid [OF m(5) fp2_mac.valid_sub [OF m(2) fp2_mac.valid_public]] fp2_mac.valid_sub [OF m(1) fp2_mac.valid_public]
      by (simp add: batch_ok_def)
    note so' = sides_facts [OF sides_push [OF t(3) this]]
    have f: "pa_x rq \<noteq> 0" "pa_x rp / pa_x rq = lookup_sum alpha ?vals"
      using instance_fraction [of ?vals "Suc k" alpha "pa_x rp" "pa_x rq"] assms(8) x(4) by simp_all
    have c0: "get cols 0 = Some (cols ! 0)" "length (cols ! 0) = 2 ^ Suc k" using assms(1,4) by (simp_all add: get_nth)
    have short: "\<not> (\<exists>(c, sh) \<in> set (zip cols shifts). sh \<noteq> None \<and> length c < 2 ^ Suc k)" using assms(4) by (auto dest: set_zip_leftD)
    have ev: "map (\<lambda>c. eval_mle (lifted c) pt) cols = map Some (map pa_x cs)"
      unfolding x(3) using cols by (simp add: eval_mle_full mle_at_loop lifted_def)
    let ?out = "\<lparr>ip_proof = pf, ip_alpha = alpha, ip_point = pt, ip_col_claims = map (\<lambda>value. \<lparr>oc_point = pt, oc_value = value\<rparr>) cs, ip_roots = (rp, rq)\<rparr>"
      and ?key = "\<lparr>iv_point = pt, iv_col_keys = map (\<lambda>key. \<lparr>ok_point = pt, ok_key = key\<rparr>) kcs, iv_kroots = (krp, krq)\<rparr>"
    let ?st = "st\<lparr>bs_zero := bs_zero st @ [prover_sub cp (prover_from_public 1), ?row]\<rparr>"
      and ?ve = "vs\<lparr>vs_kzero := vs_kzero vs @ [key_sub kcp (key_from_public 1 ?d), ?krow]\<rparr>"
    have prove: "blind_instance_prove H chacha cols shifts alpha claims s dm tx prods zeros = Some (?out, ?st)"
      using assms(2,3) c0 short t(1) by (simp add: blind_instance_prove_def Let_def packed_values_def)
    have verify: "blind_instance_verify H chacha (Suc k) shifts alpha pf kclaims ?vs = Some (Some ?key, ?ve)"
      using t(2) assms(2) d by (simp add: blind_instance_verify_def Let_def)
    have "\<exists>out st key vs. blind_instance_prove H chacha cols shifts alpha claims s dm tx prods zeros = Some (out, st)
    \<and> blind_instance_verify H chacha (Suc k) shifts alpha (ip_proof out) kclaims
        ?vs = Some (Some key, vs)
    \<and> vs_tx vs = bs_tx st \<and> vs_doms vs = bs_doms st \<and> twin (bs_stream st) (vs_ctx vs)
    \<and> batch_ok (vc_delta v) (bs_prod st) (bs_zero st) (vs_kprod vs) (vs_kzero vs)
    \<and> iv_point key = ip_point out \<and> site_ok (vc_delta v) (ip_roots out) (iv_kroots key)
    \<and> (case ip_roots out of (p, q) \<Rightarrow> pa_x p / pa_x q = lookup_sum alpha (packed_values cols shifts (2 ^ Suc k)))
    \<and> list_all2 (\<lambda>cl ky. oc_point cl = ip_point out \<and> ok_point ky = ip_point out \<and> mac_valid (vc_delta v) (oc_value cl) (ok_key ky))
        (ip_col_claims out) (iv_col_keys key)
    \<and> map (\<lambda>cl. Some (pa_x (oc_value cl))) (ip_col_claims out) = map (\<lambda>c. eval_mle (lifted c) (ip_point out)) cols"
      by (rule exI [of _ ?out], rule exI [of _ ?st], rule exI [of _ ?key], rule exI [of _ ?ve])
         (use prove verify so' m(3,4) f ev m(5) in \<open>simp add: site_ok_def list_all2_map1 list_all2_map2 o_def\<close>)
    then show ?thesis using z by blast
  qed
qed

section \<open>A small instance\<close>

text \<open>With a hash that never answers zero, no round above the leaves has a zero coordinate.\<close>

lemma never_zero_aux:
  assumes "never_zero H" "length (lq_a lq) = 2 ^ Suc k"
    and "sides_ok chacha delta (2 # aux_plan k n @ plan) (new_blind_sink s tx dm prods zeros) vs"
  shows "\<not> blind_aux_meets_zero H chacha lq s dm tx prods zeros"
proof -
  let ?st = "new_blind_sink s tx dm prods zeros" and ?p = "replicate (2 ^ Suc k) 1 :: fp2 list" and ?q = "mat_q lq"
  let ?plan = "replicate k 3 @ 4 # 3 # 2 * n # plan"
  obtain rp rq ls where w: "frac_root ?p ?q = (rp, rq)" "length ls = k" "tree_chain ([rp], [rq]) (ls @ [(?p, ?q)])"
    "build_weighted_tree ?p ?q = Some \<lparr>ft_p = [rp] # map fst ls, ft_q = [rq] # map snd ls, ft_depth = Suc k\<rparr>"
    by (rule weighted_tree_shape [of ?p k ?q]) (use assms(2) in simp_all)
  have tree: "build_tree_cpu Ones lq = Some \<lparr>ft_p = [rp] # map fst ls, ft_q = [rq] # map snd ls, ft_depth = Suc k\<rparr>"
    using w(4) assms(2) build_tree_reference [of Ones lq] by simp
  have new: "bs_rounds_cur ?st = []" "bs_layers ?st = []" by (simp_all add: new_blind_sink_def)
  have so: "sides_ok chacha delta (2 # upper_plan 0 k @ ?plan) ?st vs" using assms(3) by (simp add: aux_plan_def)
  obtain st0 vs0 krp krq where r: "sk_root (blind_sink H chacha) rp rq ?st = Some st0"
    "blind_at H chacha (frame_of st0) vs0 krp krq delta (upper_plan 0 k @ ?plan) [] rp rq st0"
    by (rule blind_root_step [OF so new, where p = rp and q = rq and H = H])
  have "case (st0, False) of (st, z) \<Rightarrow> \<not> z \<and> 0 \<notin> set ([] :: fp2 list)
      \<and> blind_at H chacha (frame_of st0) vs0 krp krq delta (upper_plan (length ([] :: fp2 list)) (length ls) @ ?plan) [] (mle_at [rp] []) (mle_at [rq] []) st"
    using r(2) w(2) by simp
  from layer_sink.upper_run [OF never_zero_sink [OF assms(1)] w(3) _ this] show ?thesis
    using tree r(1) by (auto simp: blind_aux_meets_zero_def zip_map_fst_snd)
qed

theorem blind_instance_complete_witness:
  "\<exists>out st key vs. blind_instance_prove ones_hash demo_chacha [[3, 3, 3, 3, 9, 9, 9, 9], [5, 7, 5, 7, 5, 7, 5, 7]] [Some 0, None] (Fp2 1 1)
      [\<lparr>al_col = 1, al_point = [4, 2, 9], al_value = prover_from_public 13\<rparr>] (demo_stream 35) (doms_new 7) demo_fs [] [] = Some (out, st)
    \<and> blind_instance_verify ones_hash demo_chacha 3 [Some 0, None] (Fp2 1 1) (ip_proof out) [(1, [4, 2, 9], key_from_public 13 3)]
        \<lparr>vs_ctx = demo_ctx 35, vs_doms = doms_new 7, vs_tx = demo_fs, vs_kprod = [], vs_kzero = []\<rparr> = Some (Some key, vs)
    \<and> batch_ok 3 (bs_prod st) (bs_zero st) (vs_kprod vs) (vs_kzero vs)
    \<and> map (\<lambda>cl. Some (pa_x (oc_value cl))) (ip_col_claims out)
        = map (\<lambda>c. eval_mle (lifted c) (ip_point out)) [[3, 3, 3, 3, 9, 9, 9, 9], [5, 7, 5, 7, 5, 7, 5, 7]]"
proof -
  let ?cols = "[[3, 3, 3, 3, 9, 9, 9, 9], [5, 7, 5, 7, 5, 7, 5, 7]] :: fp list list" and ?shifts = "[Some 0, None] :: u32 option list"
    and ?cl = "[\<lparr>al_col = 1, al_point = [4, 2, 9], al_value = prover_from_public 13\<rparr>]"
    and ?vs = "\<lparr>vs_ctx = demo_ctx 35, vs_doms = doms_new 7, vs_tx = demo_fs, vs_kprod = [], vs_kzero = []\<rparr>"
  have d: "vc_delta (demo_ctx 35) = 3" by (simp add: demo_ctx_def ctx_from_pcg_pool_def)
  have a: "?cols \<noteq> []" "length ?shifts = length ?cols" "\<exists>sh \<in> set ?shifts. sh \<noteq> None" "\<forall>col \<in> set ?cols. length col = 2 ^ Suc 2" by simp_all
  have five: "fp2_from_base 5 = 5" "fp2_from_base 7 = 7" using fp2_from_base_of_nat [of 5] fp2_from_base_of_nat [of 7] by simp_all
  have "mle_at [5, 7, 5, 7, 5, 7, 5, 7] [4, 2, 9] = (13 :: fp2)"
    using mle_at_split [of "[5, 7, 5, 7, 5, 7, 5, 7]" "[2, 9]" 4] mle_at_split [of "[5, 5, 5, 5]" "[9]" 2] mle_at_split [of "[5, 5]" "[]" 9]
      mle_at_split [of "[7, 7, 7, 7]" "[9]" 2] mle_at_split [of "[7, 7]" "[]" 9]
    by (simp add: evens_def odds_def)
  then have c: "claims_true 2 ?cols ?cl"
    by (simp add: claims_true_def lifted_def five prover_from_public_def prover_authed_new_def)
  have k: "list_all2 (claim_ok (vc_delta (demo_ctx 35))) ?cl [(1, [4, 2, 9], key_from_public 13 3)]"
    using fp2_mac.valid_public [of 3] unfolding d by (simp add: claim_ok_def)
  have n: "Fp2 1 1 \<notin> fp2_from_base ` set (packed_values ?cols ?shifts (2 ^ Suc 2))" by (auto simp: fp2_from_base_def)
  have b: "batch_ok (vc_delta (demo_ctx 35)) [] [] [] []" by (simp add: batch_ok_def)
  let ?plan = "2 # aux_plan 2 (length ?cols)"
  have e: "?plan = [2, 4, 3, 2, 4, 3, 3, 3, 4, 3, 4]" by (simp add: aux_plan_def numeral_2_eq_2)
  have "run_machine (prover_draw demo_chacha) (map (\<lambda>(d, n). DFull d n) (plan_draws 7 ?plan)) (demo_stream 35) \<noteq> None"
    unfolding demo_stream_def e by (rule pool_serves) (simp_all add: domain_bits)
  then have p: "plan_ok demo_chacha ?plan (doms_new 7) (demo_stream 35)"
    unfolding e by (intro plan_ok_draws) (simp_all add: doms_new_def CORRELATION_DOMAIN_LIMIT_def)
  have so: "sides_ok demo_chacha 3 (2 # aux_plan 2 (length ?cols) @ []) (new_blind_sink (demo_stream 35) demo_fs (doms_new 7) [] []) ?vs"
    using demo_fs demo_twin d b p by (simp add: sides_ok_def new_blind_sink_def)
  have z: "\<not> blind_aux_meets_zero ones_hash demo_chacha (lift_q_fp (packed_values ?cols ?shifts (2 ^ Suc 2)) (Fp2 1 1)) (demo_stream 35) (doms_new 7) demo_fs [] []"
    by (rule never_zero_aux [OF ones_never_zero _ so]) simp
  have three: "Suc 2 = 3" by simp
  from blind_instance_complete [OF a c k demo_fs n demo_twin b p] z show ?thesis
    unfolding d three by blast
qed

end
