(* ===== verification/Spec2Isabelle.thy ===== *)
theory Spec2Isabelle
  imports Volta_Prelude Goldilocks Field_Ext Fp_Stream Mle Sumcheck_Clear Transcript Transcript_Binding Mac
    Corr_Ledger Corr Lockstep Merkle Ntt Blind Hadamard Gemm Thaler Wires Schedule Pcg Lifetime
    Wire_Codec Ligero Ligero_Open Ligero_Codec Layer_Layout Gemm_Proof Gemm_Sound Logup Logup_Engine
    Logup_Complete Logup_Sound Logup_Lookup Logup_Sink Logup_Blind Logup_Blind_Complete
    Logup_Tables Logup_Aux Logup_Aux_Sum Logup_Aux_Complete Logup_Instance
begin

text \<open>
  VOLTA-ZK proves the inference of a quantized language model to a designated verifier. Values of the
  computation are authenticated with information-theoretic MACs from preprocessed VOLE correlations; linear
  relations are free, products and table lookups are reduced by sumchecks to claims on authenticated
  values, claims on the private weights are opened against a static Reed--Solomon/Merkle commitment, and all
  remaining claims are closed by batched zero and product checks. This development models the Rust crates
  that carry this logic (\<^verbatim>\<open>src/rust/volta-field\<close>, \<^verbatim>\<open>volta-mac\<close>, \<^verbatim>\<open>volta-proto\<close>, \<^verbatim>\<open>volta-pcs\<close>,
  \<^verbatim>\<open>volta-gpt2\<close>, \<^verbatim>\<open>volta-pcg\<close>) and proves the properties their callers rely on.

  \<^bold>\<open>Theories and sources.\<close>
  \<^item> \<^verbatim>\<open>Volta_Prelude\<close>: machine integers, little-endian bytes, root bounds of polynomials, Proth's
    criterion, loops that may panic, and the generic machines with their invariant rules.
  \<^item> \<^verbatim>\<open>Goldilocks\<close>, \<^verbatim>\<open>Field_Ext\<close>, \<^verbatim>\<open>Fp_Stream\<close> (\<^verbatim>\<open>volta-field/src/lib.rs\<close>): the base field with its 64-bit
    and 128-bit word arithmetic, the quadratic and cubic extensions with their codecs and inversions, and
    the seeded stream with its rejection loop. The words are shown to compute canonical residues, and the
    fields are instances of the library's field classes, so that its algebra applies above them.
  \<^item> \<^verbatim>\<open>Transcript\<close>, \<^verbatim>\<open>Transcript_Binding\<close> (\<^verbatim>\<open>volta-mac/src/transcript.rs\<close>): the byte-accounting transcript with
    its private, interactive and Fiat--Shamir challenge sources; sticky errors, exactly-once delivery to the
    channel, and binding of the canonical digest.
  \<^item> \<^verbatim>\<open>Mac\<close> (\<^verbatim>\<open>volta-mac/src/auth.rs\<close>, \<^verbatim>\<open>volta-proto/src/prod_check.rs\<close>): authenticated values, zero
    openings, zero and product batches, with completeness and soundness counts over keys and challenges.
  \<^item> \<^verbatim>\<open>Corr_Ledger\<close>, \<^verbatim>\<open>Corr\<close>, \<^verbatim>\<open>Lockstep\<close> (\<^verbatim>\<open>volta-mac/src/corr.rs\<close>): the one-time domain ledger with
    reservations, the mock and pooled expanders of prover and verifier, the schedule audit, and lockstep: twin
    expanders draw correlations that satisfy the MAC relation and stay twins.
  \<^item> \<^verbatim>\<open>Mle\<close>, \<^verbatim>\<open>Sumcheck_Clear\<close>, \<^verbatim>\<open>Blind\<close>, \<^verbatim>\<open>Hadamard\<close>, \<^verbatim>\<open>Thaler\<close>, \<^verbatim>\<open>Gemm\<close> (\<^verbatim>\<open>volta-proto\<close> and
    \<^verbatim>\<open>volta-gpt2/src/gemm.rs\<close>): multilinear extensions, the clear, blind and Hadamard sumchecks, the
    reduction of a matrix product to one inner product, and the fused integer product with its epilogue.
  \<^item> \<^verbatim>\<open>Wires\<close>, \<^verbatim>\<open>Schedule\<close> (\<^verbatim>\<open>volta-proto/src/wires.rs\<close>, \<^verbatim>\<open>schedule.rs\<close>): the ledgers that carry wire claims
    between sections, and the static round schedule with its correlation domains and mailboxes.
  \<^item> \<^verbatim>\<open>Ntt\<close>, \<^verbatim>\<open>Merkle\<close> (\<^verbatim>\<open>volta-pcs\<close>): the in-place number-theoretic transform, the Reed--Solomon code it
    computes, and the Merkle tree with single and multi openings.
  \<^item> \<^verbatim>\<open>Ligero\<close>, \<^verbatim>\<open>Ligero_Open\<close>, \<^verbatim>\<open>Ligero_Codec\<close>, \<^verbatim>\<open>Wire_Codec\<close> (\<^verbatim>\<open>volta-pcs/src/ligero.rs\<close>): the static commitment to
    the weights, the multi-claim opening in zero knowledge and its verifier, with completeness and binding of
    every opened column to the committed matrix; the byte census and the canonical wire codec of an opening.
  \<^item> \<^verbatim>\<open>Layer_Layout\<close> (\<^verbatim>\<open>volta-pcs/src/layer_layout.rs\<close>): the placement of weight tensors in the committed vector:
    blocks are aligned and disjoint, and a claim on a tensor is the block claim that the opening proves. Sizes wrap at \<open>2 ^ 64\<close>
    as in the code: a layout panics exactly when a padded block wraps to length zero, a sum of blocks up to \<open>2 ^ 63\<close> never wraps, and a
    vector of up to \<open>2 ^ 61\<close> entries can be allocated.
  \<^item> \<^verbatim>\<open>Gemm_Proof\<close>, \<^verbatim>\<open>Gemm_Sound\<close> (\<^verbatim>\<open>volta-proto/src/gemm_proof.rs\<close>): the chained proofs of a product with
    committed weights and of a product of two activations, complete and, against every prover, sound up to
    few challenges and keys. This theory composes them with layout and commitment.
  \<^item> \<^verbatim>\<open>Logup\<close>, \<^verbatim>\<open>Logup_Engine\<close>, \<^verbatim>\<open>Logup_Complete\<close>, \<^verbatim>\<open>Logup_Sound\<close>, \<^verbatim>\<open>Logup_Lookup\<close>
    (\<^verbatim>\<open>volta-proto/src/logup.rs\<close>, clear CPU path): the fraction-tree argument and the lookup argument on it. The
    engine with implicit leaves equals the reference engine for every sink; honest lookups are accepted; an
    accepted false lookup met an unlucky challenge, with the unlucky sets listed in the order of drawing.
  \<^item> \<^verbatim>\<open>Logup_Sink\<close>, \<^verbatim>\<open>Logup_Blind\<close>, \<^verbatim>\<open>Logup_Blind_Complete\<close> (same file, blind CPU path): the engine over any sink that follows
    the claims; the sink that transfers every value of the engine against correlations, the verifier on keys, and the blind
    lookup: both sides stay twins and leave true, validly authenticated statements to the batches and to the two open
    claims. A round at a zero coordinate divides by zero: the completeness statements say for the run at hand that the prover panics there, and
    that nothing else fails. The event is computed by a probe of the sink that runs on and notes the coordinate (\<open>meets_zero\<close>).
  \<^item> \<^verbatim>\<open>Logup_Tables\<close>, \<^verbatim>\<open>Logup_Aux\<close>, \<^verbatim>\<open>Logup_Aux_Sum\<close>, \<^verbatim>\<open>Logup_Aux_Complete\<close>, \<^verbatim>\<open>Logup_Instance\<close> (same file, CPU path): the
    lookups of a model. An instance packs its columns into one tree whose leaf layer also drains external claims on the
    columns; the table side adds up the root fractions of all instances of a table and checks them against one
    multiplicity vector. Both are complete, with the same panic as the only exception, and the roots of an instance have the form in which the table side takes its sites.
  \<^item> \<^verbatim>\<open>Pcg\<close>, \<^verbatim>\<open>Lifetime\<close> (\<^verbatim>\<open>volta-pcg/src/lib.rs\<close>, \<^verbatim>\<open>c71_lifetime.rs\<close>): the trusted-dealer expansion of
    the correlation pools, and the crash-safe journal of an installed model's preprocessed rows. Two histories are added to the state of a life, the pools
    filled and the rows handed out: every handed slice lies where its label says, and no row is handed out twice.

  \<^bold>\<open>Modelling conventions.\<close> A struct is a record, an enum a datatype, an unsigned integer a word of its width
  (a \<^verbatim>\<open>usize\<close> that indexes a vector is a \<open>nat\<close>; where sizes are computed
  from a caller's numbers, as in \<^verbatim>\<open>Layer_Layout\<close>, its wrap-around is written out), a signed integer an \<open>int\<close> or a word. A panic is \<open>None\<close> of an
  outer option; a \<^verbatim>\<open>Result\<close> is a sum with the error on the left; a verifier's refusal is an inner value.
  The model is that of a release build: arithmetic of words wraps where the source does not check, debug
  assertions and the optional \<^verbatim>\<open>c6-trace\<close> sidecars are off. Mutable references are passed and returned.

  \<^bold>\<open>Parameters.\<close> Code that is not in this repository is an argument of the definitions that use it:
  the generator \<^verbatim>\<open>ChaCha8\<close> (type \<open>chacha\<close>: seed, stream, position to a word), the hash \<^verbatim>\<open>BLAKE3\<close> (record
  \<open>blake3\<close>), the interactive channel (record \<open>channel\<close>), the file system below the lifetime journal,
  the floating-point timings and the number of worker threads. Collision freedom is never assumed: binding
  statements exhibit the collision instead. A stream that yields no canonical word makes the rejection
  loop diverge, which is the value \<open>None\<close>; statements that a routine returns therefore assume that the streams
  they read offer canonical words, or are stated exactly.

  \<^bold>\<open>Bounds and fuel.\<close> No fuel is used: loops are structural, have a measure, or are partial functions whose
  returning is characterised (\<^verbatim>\<open>Fp_Stream.next_fp_iff\<close>).

  \<^bold>\<open>Interfaces.\<close> The locales \<^verbatim>\<open>machine_invariant\<close> and \<^verbatim>\<open>machine_order\<close> carry invariants along runs,
  \<^verbatim>\<open>linear_mac\<close> states what a homomorphic MAC promises (interpreted for both field degrees),
  \<^verbatim>\<open>wire_ledger\<close> and \<^verbatim>\<open>wire_mirror\<close> what the claim ledgers promise and how the two sides mirror,
  \<^verbatim>\<open>codec\<close> what a reader and an encoder promise each other (interpreted for words, field elements,
  digests, columns and whole openings), \<^verbatim>\<open>layer_sink\<close> what a sink promises about the running claims of the
  fraction-tree engine, \<^verbatim>\<open>zero_panics\<close> that a sink panics at zero coordinates, and \<^verbatim>\<open>claim_sink\<close> both together; the
  probe of a \<^verbatim>\<open>claim_sink\<close> is a \<^verbatim>\<open>layer_sink\<close> (a sublocale), and the blind sink is interpreted as a \<^verbatim>\<open>claim_sink\<close>.

  \<^bold>\<open>Not modelled.\<close> The batched lookup instances (\<^verbatim>\<open>logup/batch.rs\<close>) and those whose columns are resident on a device; the CUDA backend
  and everything below the accelerator seam (\<^verbatim>\<open>volta-accel\<close>, \<^verbatim>\<open>cuda/\<close>), whose kernels are not Rust; the benches, reports and campaign drivers (\<^verbatim>\<open>volta-bench\<close>, \<^verbatim>\<open>scripts/\<close>); the Lean
  sources and vendored crates; the model-level drivers that compose the routines above
  (\<^verbatim>\<open>block_proof.rs\<close>, \<^verbatim>\<open>model_proof.rs\<close>, the \<^verbatim>\<open>c6\<close>--\<^verbatim>\<open>c7\<close> families and \<^verbatim>\<open>x1\<close>--\<^verbatim>\<open>x3\<close>), and the malicious
  preprocessing setup (\<^verbatim>\<open>phase_b.rs\<close>, \<^verbatim>\<open>production.rs\<close>), which are larger than the routines they call
  and are left for later extensions.
\<close>

section \<open>From a matrix product to the committed weights\<close>

text \<open>
  C1. The weight claim of a matrix product is what the commitment opens: place the weights of the product, among other
  tensors, in a vector laid out for their shapes, which one allocation can hold (\<open>2 ^ 61\<close> padded entries), and commit to it. On a Fiat--Shamir transcript, with twin
  expanders that can make the draws of both protocols, the chained product proof returns and is accepted, its
  weight claim maps to a block claim of the layout, the opening of this claim returns on the stream and the
  transcript that the product left, and the verifier, with the key and the point that the product handed out,
  accepts it against the root of the commitment; both sides end as twins with the same transcript.
\<close>

theorem committed_product_opened:
  assumes gemm: "length x = m * k" "length w = k * n" "2 \<le> k" "k < 2 ^ 33" "n \<noteq> 0" "length r_i = pad_bits m" "length r_j = pad_bits n"
      "gemm_i64 x w m k n = Some y" "fold_y_acc y m n (eq_vec r_i) (eq_vec r_j) = Some (pa_x claim0)"
    and layout: "for_shapes_with_outer_padding shapes pad_outer = Some L" "padded_total shapes \<le> 2 ^ 61" "length tensors = length shapes"
      "\<forall>i < length shapes. length (tensors ! i) = fst (shapes ! i) * snd (shapes ! i)"
      "i < length shapes" "shapes ! i = (k, n)" "tensors ! i = map sint w"
    and params: "params_ok p" "lp_rows p * lp_cols p = wl_total_len L" "lp_col_bits p \<le> pad_bits n + pad_bits k" "pad_bits n + pad_bits k < 64"
      "sizes_fit p 1" "0 < threads" "streams_ready chacha p pad_seed mask_seed 1"
    and run: "is_fiat_shamir tx" "twin s v" "mac_valid (vc_delta v) claim0 k0"
      "run_machine (prover_draw chacha) (chain_draws dm (pad_bits k) @ [DFull dom_s 1, DFull dom_zb 1]) s \<noteq> None"
  shows "\<exists>W com pm pf wire corr_w wc s1 tx1 bc opn s2 tx2 wk k_w v1 v2.
    place L tensors = Some W \<and> ligero_commit H chacha W p pad_seed = Some (com, pm)
    \<and> prove_gemm_committed_chained H chacha x w m k n r_i r_j claim0 dm s tx = Some (pf, wire, corr_w, wc, s1, tx1)
    \<and> layout_block_claim L i (wc_point wc) = Some bc
    \<and> open_multi_zk H chacha threads W pm [(bc, wc_value wc)] s1 dom_s dom_zb mask_seed tx1 = Some (opn, s2, tx2)
    \<and> verify_gemm_committed_chained H chacha m k n r_i r_j k0 pf (wo_corr wire) corr_w dm v tx = Some (Some (wk, wc_point wc, k_w), v1, tx1)
    \<and> verify_multi_open H chacha (cm_root com) p [(bc, k_w)] opn v1 dom_s dom_zb tx1 = Some (True, v2, tx2)
    \<and> twin s2 v2"
proof -
  obtain pf wire corr_w wc s1 tx1 k_x k_w v1 where g:
    "prove_gemm_committed_chained H chacha x w m k n r_i r_j claim0 dm s tx = Some (pf, wire, corr_w, wc, s1, tx1)"
    "verify_gemm_committed_chained H chacha m k n r_i r_j k0 pf (wo_corr wire) corr_w dm v tx
        = Some (Some (\<lparr>wk_point = wo_point wire, wk_key = k_x\<rparr>, wc_point wc, k_w), v1, tx1)"
    "mac_valid (vc_delta v) (wc_value wc) k_w" "pa_x (wc_value wc) = tensor_value k n (map sint w) (wc_point wc)"
    "length (wc_point wc) = pad_bits n + pad_bits k" "twin s1 v1" "vc_delta v1 = vc_delta v" "is_fiat_shamir tx1"
    "run_machine (prover_draw chacha) [DFull dom_s 1, DFull dom_zb 1] s1 \<noteq> None"
    using chained_run [OF gemm run(1,4,2,3), of H] by blast
  obtain W where W: "place L tensors = Some W" "length W = wl_total_len L"
    "\<forall>i point. i < length shapes \<and> length point = pad_bits (snd (shapes ! i)) + pad_bits (fst (shapes ! i)) \<longrightarrow>
        (\<exists>c. layout_block_claim L i point = Some c
          \<and> block_value W c = Some (tensor_value (fst (shapes ! i)) (snd (shapes ! i)) (tensors ! i) point)
          \<and> (\<forall>p. lp_rows p * lp_cols p = wl_total_len L \<and> lp_col_bits p \<le> length point \<and> length point < 64 \<longrightarrow> claim_geom p c \<noteq> None))"
    using tensor_claims [OF layout(1-4)] by blast
  obtain bc where bc: "layout_block_claim L i (wc_point wc) = Some bc" "block_value W bc = Some (pa_x (wc_value wc))" "claim_geom p bc \<noteq> None"
    using W(3) [rule_format, of i "wc_point wc"] layout(5-7) g(4,5) params(2-4) by auto
  let ?claims = "[(bc, wc_value wc)]"
  have cl: "?claims \<noteq> []" "\<forall>(c, a) \<in> set ?claims. claim_geom p c \<noteq> None \<and> block_value W c = Some (pa_x a)"
    "list_all2 (mac_valid (vc_delta v1)) (map snd ?claims) [k_w]"
    "sizes_fit p (length ?claims)" "streams_ready chacha p pad_seed mask_seed (length ?claims)"
    "run_machine (prover_draw chacha) [DFull dom_s (length ?claims), DFull dom_zb 1] s1 \<noteq> None"
    using bc(2,3) g(3,7,9) params(5,7) by simp_all
  have "length W = lp_rows p * lp_cols p" using W(2) params(2) by simp
  from multi_open_run [OF params(1) this cl(4) params(6) cl(5,1,2) g(8,6) cl(3,6), of H]
  obtain com pm opn s2 v2 tx2 where o: "ligero_commit H chacha W p pad_seed = Some (com, pm)"
    "open_multi_zk H chacha threads W pm ?claims s1 dom_s dom_zb mask_seed tx1 = Some (opn, s2, tx2)"
    "verify_multi_open H chacha (cm_root com) p (zip (map fst ?claims) [k_w]) opn v1 dom_s dom_zb tx1 = Some (True, v2, tx2)" "twin s2 v2"
    by blast
  then show ?thesis using W(1) g(1,2) bc(1) by auto
qed

lemma demo_layout: "\<exists>L. for_shapes_with_outer_padding [(2, 1), (2, 1)] True = Some L \<and> wl_total_len L = 4"
proof -
  have p: "next_power_of_two (Suc 0) = 1" "next_power_of_two 2 = 2" "next_power_of_two 4 = 4"
    by (simp_all add: next_power_of_two_def next_power_from.simps)
  then have t: "padded_total [(2, 1), (2, 1)] = 4" by (simp add: padded_total_def)
  then show ?thesis using layout_exists [of "[(2, 1), (2, 1)]" True] p(3) by auto
qed

lemma demo_layout_fits: "padded_total [(2, 1), (2, 1)] \<le> 2 ^ 61"
  by (simp add: padded_total_def next_power_of_two_def next_power_from.simps)

lemma demo_composed_draws:
  "run_machine (prover_draw chacha) (chain_draws demo_chain 1 @ [DFull 11 1, DFull 12 1]) (demo_stream 7) \<noteq> None"
  by (simp add: chain_draws_def demo_chain_def round_draws_def demo_stream_def stream_from_pcg_pool_def draw_fulls_def
      draw_product_mask_def draw_fulls_with_role_def full_draw_legal_def ledger_open_def
      empty_ledger_def backend_draw_fulls_def pl_draw_fulls_def pl_remaining_full_capacity_def slice_def audit_full_def
      domain_bits Let_def)

theorem committed_product_opened_witness:
  "\<exists>y c L W com pm pf wire corr_w wc s1 tx1 bc opn s2 tx2 wk k_w v1 v2. gemm_i64 [1, 2] [3, - 4] 1 2 1 = Some y
    \<and> for_shapes_with_outer_padding [(2, 1), (2, 1)] True = Some L
    \<and> place L [[3, - 4], [5, 6]] = Some W \<and> ligero_commit demo_node_hash demo_chacha W demo_params [] = Some (com, pm)
    \<and> prove_gemm_committed_chained demo_node_hash demo_chacha [1, 2] [3, - 4] 1 2 1 [] [] c demo_chain (demo_stream 7) demo_fs
        = Some (pf, wire, corr_w, wc, s1, tx1)
    \<and> layout_block_claim L 0 (wc_point wc) = Some bc
    \<and> open_multi_zk demo_node_hash demo_chacha 1 W pm [(bc, wc_value wc)] s1 11 12 [] tx1 = Some (opn, s2, tx2)
    \<and> verify_gemm_committed_chained demo_node_hash demo_chacha 1 2 1 [] [] (key_of 3 c) pf (wo_corr wire) corr_w demo_chain (demo_ctx 7) demo_fs
        = Some (Some (wk, wc_point wc, k_w), v1, tx1)
    \<and> verify_multi_open demo_node_hash demo_chacha (cm_root com) demo_params [(bc, k_w)] opn v1 11 12 tx1 = Some (True, v2, tx2)"
proof -
  have l: "length [1, 2 :: i16] = 1 * 2" "length [3, - 4 :: i16] = 2 * 1" "length ([] :: fp2 list) = pad_bits 1"
    "1 \<le> length (eq_vec [])" by (simp_all add: pad_bits_small)
  obtain y Y where y: "gemm_i64 [1, 2] [3, - 4] 1 2 1 = Some y" "fold_y_acc y 1 1 (eq_vec []) (eq_vec []) = Some Y"
    using matrix_product_folds [OF l(1,2) _ _ l(4,4)] by auto
  let ?c = "prover_authed_new Y 6" and ?ts = "[[3, - 4], [5, 6 :: int]]" and ?sh = "[(2, 1), (2, 1 :: nat)]"
  have d: "vc_delta (demo_ctx 7) = 3" by (simp add: demo_ctx_def ctx_from_pcg_pool_def)
  then have m: "mac_valid (vc_delta (demo_ctx 7)) ?c (key_of 3 ?c)" by (simp add: mac_valid_iff)
  have r: "run_machine (prover_draw demo_chacha) (chain_draws demo_chain (pad_bits 2) @ [DFull 11 1, DFull 12 1]) (demo_stream 7) \<noteq> None"
    using demo_composed_draws by (simp add: pad_bits_small)
  have Y: "fold_y_acc y 1 1 (eq_vec []) (eq_vec []) = Some (pa_x ?c)" using y(2) by simp
  have n: "(2 :: nat) \<le> 2" "(2 :: nat) < 2 ^ 33" "(1 :: nat) \<noteq> 0" "(0 :: nat) < 1" by simp_all
  obtain L where L: "for_shapes_with_outer_padding ?sh True = Some L" "wl_total_len L = 4" using demo_layout by blast
  have t: "length ?ts = length ?sh" "\<forall>i < length ?sh. length (?ts ! i) = fst (?sh ! i) * snd (?sh ! i)" "0 < length ?sh"
    "?sh ! 0 = (2, 1)" "?ts ! 0 = map sint [3, - 4 :: i16]" by (auto simp: less_Suc_eq)
  have p: "lp_rows demo_params * lp_cols demo_params = wl_total_len L" "lp_col_bits demo_params \<le> pad_bits 1 + pad_bits 2"
    "pad_bits 1 + pad_bits 2 < 64" "sizes_fit demo_params 1"
    using L(2) demo_hypotheses(4) by (simp_all add: demo_params_facts pad_bits_small) (simp_all add: demo_params_def)
  from committed_product_opened [OF l(1,2) n(1-3) l(3,3) y(1) Y L(1) demo_layout_fits t demo_params_ok p n(4) demo_streams demo_fs demo_twin m r, of demo_node_hash "[]" "[]"]
  show ?thesis using y(1) L(1) by blast
qed

end
